(* ===== verification/Prelude.thy ===== *)
theory Prelude
  imports Main "HOL-Library.Monad_Syntax" "HOL-Library.Word" "HOL-Library.Multiset"
begin

text \<open>
  What the component theories share: the outcome of a function that may panic, C's signed
  arithmetic, comparison callbacks as a locale, and lemmas on lists.

  A kernel function that can fail an \<open>ASSERT\<close> or dereference a null pointer returns an
  \<open>option\<close>: \<^const>\<open>None\<close> stands for a kernel panic (no state after it), \<^const>\<open>Some\<close> for
  a normal return. Error codes that the C code returns to its caller stay values inside
  \<^const>\<open>Some\<close>.
\<close>

section \<open>Panics\<close>

definition ASSERT :: "bool \<Rightarrow> unit option" where
  "ASSERT b = (if b then Some () else None)"

lemma ASSERT_bind [simp]: "Option.bind (ASSERT b) f = (if b then f () else None)"
  by (simp add: ASSERT_def)

lemma ASSERT_Some [simp]: "ASSERT b = Some u \<longleftrightarrow> b"
  by (simp add: ASSERT_def)

lemma bind_Some_iff: "Option.bind m f = Some r \<longleftrightarrow> (\<exists>x. m = Some x \<and> f x = Some r)"
  by (cases m) auto

text \<open>\<open>post P m\<close>: if \<open>m\<close> returns, what it returns satisfies \<open>P\<close>. The equations compute a
  precondition from the text of a function.\<close>

definition post :: "('a \<Rightarrow> bool) \<Rightarrow> 'a option \<Rightarrow> bool" where
  "post P m \<longleftrightarrow> (\<forall>x. m = Some x \<longrightarrow> P x)"

named_theorems post_simps \<open>preconditions of the constructs of the option monad\<close>

lemma post_basic [post_simps]:
  "post P (Some x) = P x" "post P None = True"
  "post P (Option.bind m f) = post (\<lambda>x. post P (f x)) m"
  "post P (if b then y else y') = ((b \<longrightarrow> post P y) \<and> (\<not> b \<longrightarrow> post P y'))"
  "post Q (case c of None \<Rightarrow> n | Some y \<Rightarrow> g y) = ((c = None \<longrightarrow> post Q n) \<and> (\<forall>y. c = Some y \<longrightarrow> post Q (g y)))"
  "post Q (case xs of [] \<Rightarrow> n | z # zs \<Rightarrow> h z zs) =
     ((xs = [] \<longrightarrow> post Q n) \<and> (\<forall>z zs. xs = z # zs \<longrightarrow> post Q (h z zs)))"
  "post Q (case pr of (a, b) \<Rightarrow> k a b) = (\<forall>a b. pr = (a, b) \<longrightarrow> post Q (k a b))"
  by (auto simp: post_def bind_Some_iff split: option.splits list.splits prod.splits)

lemma postD: "post P m \<Longrightarrow> m = Some x \<Longrightarrow> P x"
  by (simp add: post_def)

lemma postI: "(\<And>x. m = Some x \<Longrightarrow> P x) \<Longrightarrow> post P m"
  by (simp add: post_def)

lemma post_mono: "post P m \<Longrightarrow> (\<And>x. m = Some x \<Longrightarrow> P x \<Longrightarrow> Q x) \<Longrightarrow> post Q m"
  by (simp add: post_def)

section \<open>Lemma collections\<close>

named_theorems chain_simps \<open>links of doubly linked chains under single field updates\<close>
named_theorems wf_intros \<open>preservation of component invariants\<close>

section \<open>Comparison callbacks\<close>

text \<open>
  The list and sort routines take a callback \<open>lt\<close>. What they rely on is a strict weak order;
  this is the contract of \<open>list_less_func\<close> and of the comparison argument of \<open>sort\<close>.
\<close>

locale strict_weak_order =
  fixes lt :: "'a \<Rightarrow> 'a \<Rightarrow> bool"
  assumes less_asym: "lt x y \<Longrightarrow> \<not> lt y x"
    and not_less_trans: "\<not> lt y x \<Longrightarrow> \<not> lt z y \<Longrightarrow> \<not> lt z x"
begin

lemma less_irrefl: "\<not> lt x x"
  using less_asym by blast

lemma less_trans: "lt x y \<Longrightarrow> lt y z \<Longrightarrow> lt x z"
  using less_asym not_less_trans by blast

lemma less_not_less_trans: "lt x y \<Longrightarrow> \<not> lt z y \<Longrightarrow> lt x z"
  using not_less_trans less_asym by blast

lemma not_less_less_trans: "\<not> lt y x \<Longrightarrow> lt y z \<Longrightarrow> lt x z"
  using not_less_trans less_asym by blast

end

section \<open>Lists\<close>

text \<open>\<open>ordered lt xs\<close>: no element is less than one before it (nondecreasing order).\<close>

definition ordered :: "('a \<Rightarrow> 'a \<Rightarrow> bool) \<Rightarrow> 'a list \<Rightarrow> bool" where
  "ordered lt xs \<longleftrightarrow> sorted_wrt (\<lambda>x y. \<not> lt y x) xs"

lemma ordered_Nil [simp]: "ordered lt []"
  by (simp add: ordered_def)

lemma ordered_single [simp]: "ordered lt [x]"
  by (simp add: ordered_def)

lemma ordered_Cons [simp]:
  "ordered lt (x # xs) \<longleftrightarrow> (\<forall>y\<in>set xs. \<not> lt y x) \<and> ordered lt xs"
  by (simp add: ordered_def)

lemma ordered_append:
  "ordered lt (xs @ ys) \<longleftrightarrow>
     ordered lt xs \<and> ordered lt ys \<and> (\<forall>x\<in>set xs. \<forall>y\<in>set ys. \<not> lt y x)"
  by (auto simp: ordered_def sorted_wrt_append)

lemma last_notin_butlast: "distinct xs \<Longrightarrow> xs \<noteq> [] \<Longrightarrow> last xs \<notin> set (butlast xs)"
  by (metis append_butlast_last_id distinct_append disjoint_iff list.set_intros(1))

lemma hd_notin_tl: "distinct xs \<Longrightarrow> xs \<noteq> [] \<Longrightarrow> hd xs \<notin> set (tl xs)"
  by (cases xs) auto

end
