(* ===== verification/Wait.thy ===== *)
theory Wait
  imports Prelude
begin

text \<open>
  How processes of project 3 start, end and wait for each other: \<open>process_execute\<close>, \<open>start_process\<close>,
  \<open>release_child\<close>, \<open>process_wait\<close> and \<open>process_exit\<close> of \<open>userprog/process.c\<close>, as far as they deal with
  \<open>struct wait_status\<close>. An action is what a thread does without giving other threads of the family a
  chance to see a state in between: up to the next semaphore or to the next \<open>release_child\<close>, which
  changes the counter under the lock of the status.
\<close>

section \<open>State\<close>

record wait_status =
  ref_cnt :: int
  ws_tid :: nat
  exit_code :: int
  dead :: nat

text \<open>Where a thread is: it has not been created, its \<open>start_process\<close> has not loaded the program yet, it
  runs, it is in \<open>process_execute\<close> before or after \<open>load_done\<close> goes up (with the status of the child, if
  that was loaded), it waits in \<open>process_wait\<close>, it is in \<open>process_exit\<close> (before \<open>sema_up\<close>, before it
  releases its own status, in the loop over its children), or it is gone.\<close>

datatype phase = Unborn | Starting nat | Running | Await_load | Loaded "nat option" | Waiting nat
  | Exit_up | Exit_release | Exit_kids | Gone

text \<open>\<open>statuses\<close> is the heap; \<open>result\<close> is what the last \<open>process_wait\<close> of a thread returned. \<open>final\<close> is
  no variable of the program: it records the code with which a thread ended, -1 when it was killed. Thread
  identifiers are never used up here; \<open>tid_t\<close> is an \<open>int\<close>.\<close>

record family =
  statuses :: "nat \<Rightarrow> wait_status option"
  own :: "nat \<Rightarrow> nat option"
  kids :: "nat \<Rightarrow> nat list"
  phase_of :: "nat \<Rightarrow> phase"
  result :: "nat \<Rightarrow> int"
  final :: "nat \<Rightarrow> int option"
  next_tid :: nat
  next_ws :: nat

section \<open>The functions\<close>

definition set_phase :: "nat \<Rightarrow> phase \<Rightarrow> family \<Rightarrow> family" where
  "set_phase t p st = st\<lparr>phase_of := (phase_of st)(t := p)\<rparr>"

text \<open>\<^const>\<open>None\<close> is an access to a status that is not allocated.\<close>

definition release_child :: "nat \<Rightarrow> family \<Rightarrow> family option" where
  "release_child cs st = do {
     s \<leftarrow> statuses st cs;
     let new_ref_cnt = ref_cnt s - 1;
     Some (st\<lparr>statuses := (statuses st)(cs := if new_ref_cnt = 0 then None else Some (s\<lparr>ref_cnt := new_ref_cnt\<rparr>))\<rparr>) }"

text \<open>\<open>process_execute\<close> up to \<open>sema_down (&exec.load_done)\<close>; \<open>thread_create\<close> succeeds.\<close>

definition execute :: "nat \<Rightarrow> family \<Rightarrow> family" where
  "execute t st = (set_phase (next_tid st) (Starting t) (set_phase t Await_load st))\<lparr>next_tid := next_tid st + 1\<rparr>"

text \<open>The end of \<open>start_process\<close>; \<open>success\<close> says that the program is loaded and \<open>malloc\<close> succeeded.\<close>

definition start :: "nat \<Rightarrow> nat \<Rightarrow> bool \<Rightarrow> family \<Rightarrow> family" where
  "start t parent success st =
     (if success
      then let cs = next_ws st;
               st = st\<lparr>next_ws := cs + 1, own := (own st)(t \<mapsto> cs),
                 statuses := (statuses st)(cs \<mapsto> \<lparr>ref_cnt = 2, ws_tid = t, exit_code = - 1, dead = 0\<rparr>)\<rparr>
           in set_phase t Running (set_phase parent (Loaded (Some cs)) st)
      else set_phase t Exit_up (set_phase parent (Loaded None) st))"

text \<open>The links of the list of children lie in the statuses: \<open>list_push_back\<close> writes to the last child, and
  \<open>list_remove\<close> to the neighbours of the child that it removes. These statuses must be allocated.\<close>

definition valid :: "nat list \<Rightarrow> family \<Rightarrow> bool" where
  "valid css st \<longleftrightarrow> list_all (\<lambda>cs. statuses st cs \<noteq> None) css"

definition neighbours :: "nat \<Rightarrow> nat list \<Rightarrow> nat list" where
  "neighbours cs css = concat (map (\<lambda>(a, b). if a = cs then [b] else if b = cs then [a] else []) (zip css (tl css)))"

text \<open>\<open>process_execute\<close> behind \<open>sema_down\<close>.\<close>

definition executed :: "nat \<Rightarrow> nat option \<Rightarrow> family \<Rightarrow> family option" where
  "executed t r st = (case r of
      None \<Rightarrow> Some (set_phase t Running st)
    | Some cs \<Rightarrow> do {
        ASSERT (valid (cs # take 1 (rev (kids st t))) st);
        Some (set_phase t Running (st\<lparr>kids := (kids st)(t := kids st t @ [cs])\<rparr>)) })"

text \<open>\<open>process_wait\<close> up to \<open>sema_down (&cs->dead)\<close>: the loop reads the status of every child up to the one
  it looks for.\<close>

primrec find_child :: "nat \<Rightarrow> nat list \<Rightarrow> family \<Rightarrow> nat option option" where
  "find_child tid [] st = Some None"
| "find_child tid (cs # css) st = do {
     s \<leftarrow> statuses st cs;
     if ws_tid s = tid then Some (Some cs) else find_child tid css st }"

definition process_wait :: "nat \<Rightarrow> nat \<Rightarrow> family \<Rightarrow> family option" where
  "process_wait t child_tid st = do {
     r \<leftarrow> find_child child_tid (kids st t) st;
     case r of
       None \<Rightarrow> Some (st\<lparr>result := (result st)(t := - 1)\<rparr>)
     | Some cs \<Rightarrow> do {
         ASSERT (valid (neighbours cs (kids st t)) st);
         Some (set_phase t (Waiting cs) (st\<lparr>kids := (kids st)(t := remove1 cs (kids st t))\<rparr>)) } }"

definition woken :: "nat \<Rightarrow> nat \<Rightarrow> family \<Rightarrow> family option" where
  "woken t cs st = do {
     s \<leftarrow> statuses st cs;
     let st = st\<lparr>statuses := (statuses st)(cs \<mapsto> s\<lparr>dead := dead s - 1\<rparr>)\<rparr>;
     st \<leftarrow> release_child cs st;
     Some (set_phase t Running (st\<lparr>result := (result st)(t := exit_code s)\<rparr>)) }"

text \<open>\<open>sys_exit\<close>, or the end of a thread that is killed or returns.\<close>

definition sys_exit :: "nat \<Rightarrow> int option \<Rightarrow> family \<Rightarrow> family option" where
  "sys_exit t code st = (case code of
      None \<Rightarrow> Some (set_phase t Exit_up (st\<lparr>final := (final st)(t \<mapsto> - 1)\<rparr>))
    | Some c \<Rightarrow> do {
        cs \<leftarrow> own st t;
        s \<leftarrow> statuses st cs;
        Some (set_phase t Exit_up (st\<lparr>final := (final st)(t \<mapsto> c), statuses := (statuses st)(cs \<mapsto> s\<lparr>exit_code := c\<rparr>)\<rparr>)) })"

text \<open>\<open>process_exit\<close>.\<close>

definition exit_up :: "nat \<Rightarrow> family \<Rightarrow> family option" where
  "exit_up t st = (case own st t of
      None \<Rightarrow> Some (set_phase t Exit_kids st)
    | Some cs \<Rightarrow> do {
        s \<leftarrow> statuses st cs;
        Some (set_phase t Exit_release (st\<lparr>statuses := (statuses st)(cs \<mapsto> s\<lparr>dead := dead s + 1\<rparr>)\<rparr>)) })"

definition exit_release :: "nat \<Rightarrow> family \<Rightarrow> family option" where
  "exit_release t st = do { cs \<leftarrow> own st t; st \<leftarrow> release_child cs st; Some (set_phase t Exit_kids st) }"

definition exit_kids :: "nat \<Rightarrow> family \<Rightarrow> family option" where
  "exit_kids t st = (case kids st t of
      [] \<Rightarrow> Some (set_phase t Gone st)
    | cs # css \<Rightarrow> do {
        s \<leftarrow> statuses st cs;
        ASSERT (valid (take 1 css) st);
        release_child cs (st\<lparr>kids := (kids st)(t := css)\<rparr>) })"

section \<open>Steps\<close>

datatype action = Execute | Start bool | Executed | Wait_for nat | Wake | Exit "int option" | Die

text \<open>The action \<open>a\<close> of thread \<open>t\<close>: \<^const>\<open>None\<close> if it cannot do that now, \<open>Some None\<close> if it makes the
  kernel use memory that it must not use. A thread that has no status, like the first one, is not a
  user process and does not call \<open>exit\<close> with a code.\<close>

fun act :: "nat \<Rightarrow> action \<Rightarrow> family \<Rightarrow> family option option" where
  "act t Execute st = (if phase_of st t = Running then Some (Some (execute t st)) else None)"
| "act t (Start ok) st = (case phase_of st t of Starting p \<Rightarrow> Some (Some (start t p ok st)) | _ \<Rightarrow> None)"
| "act t Executed st = (case phase_of st t of Loaded r \<Rightarrow> Some (executed t r st) | _ \<Rightarrow> None)"
| "act t (Wait_for c) st = (if phase_of st t = Running then Some (process_wait t c st) else None)"
| "act t Wake st = (case phase_of st t of
     Waiting cs \<Rightarrow> (case statuses st cs of None \<Rightarrow> Some None | Some s \<Rightarrow> if dead s > 0 then Some (woken t cs st) else None)
   | _ \<Rightarrow> None)"
| "act t (Exit code) st = (if phase_of st t = Running \<and> (code \<noteq> None \<longrightarrow> own st t \<noteq> None) then Some (sys_exit t code st) else None)"
| "act t Die st = (case phase_of st t of
     Exit_up \<Rightarrow> Some (exit_up t st) | Exit_release \<Rightarrow> Some (exit_release t st) | Exit_kids \<Rightarrow> Some (exit_kids t st) | _ \<Rightarrow> None)"

text \<open>The first thread, thread 0.\<close>

definition boot :: family where
  "boot = \<lparr>statuses = Map.empty, own = Map.empty, kids = (\<lambda>_. []), phase_of = (\<lambda>_. Unborn)(0 := Running), result = (\<lambda>_. 0),
     final = Map.empty, next_tid = 1, next_ws = 0\<rparr>"

inductive reachable :: "family \<Rightarrow> bool" where
  start: "reachable boot"
| step: "reachable st \<Longrightarrow> act t a st = Some (Some st') \<Longrightarrow> reachable st'"

text \<open>A run of the family, for examples.\<close>

primrec run :: "(nat \<times> action) list \<Rightarrow> family \<Rightarrow> family option" where
  "run [] st = Some st"
| "run (x # xs) st = (case act (fst x) (snd x) st of Some (Some st') \<Rightarrow> run xs st' | _ \<Rightarrow> None)"

lemma run_reachable: "reachable st \<Longrightarrow> run xs st = Some st' \<Longrightarrow> reachable st'"
  by (induction xs arbitrary: st) (auto split: option.splits intro: reachable.step)

end
