(* ===== verification/WaitInv.thy ===== *)
theory WaitInv
  imports Wait
begin

text \<open>
  The invariant of the wait statuses: a status is counted once for its child until the child has
  released it and once for the one thread that holds it as a parent, in its list of children, while
  it waits, or just after the child was loaded.
\<close>

section \<open>The view of the statuses\<close>

datatype stage = Live | Ending | Upped | Released

fun stage_of :: "phase \<Rightarrow> stage" where
  "stage_of Exit_up = Ending"
| "stage_of Exit_release = Upped"
| "stage_of Exit_kids = Released"
| "stage_of Gone = Released"
| "stage_of _ = Live"

fun in_hand :: "phase \<Rightarrow> nat list" where
  "in_hand (Loaded (Some cs)) = [cs]"
| "in_hand (Waiting cs) = [cs]"
| "in_hand _ = []"

definition held :: "family \<Rightarrow> nat \<Rightarrow> nat list" where
  "held st t = kids st t @ in_hand (phase_of st t)"

text \<open>\<open>S\<close> are the statuses, \<open>W\<close> says which one belongs to a thread, \<open>H\<close> which ones it holds as a parent,
  \<open>G\<close> how far its end is, \<open>F\<close> with which code it ended.\<close>

definition status_ok :: "(nat \<Rightarrow> nat option) \<Rightarrow> (nat \<Rightarrow> nat set) \<Rightarrow> (nat \<Rightarrow> stage) \<Rightarrow> (nat \<Rightarrow> int option) \<Rightarrow> nat \<Rightarrow> wait_status \<Rightarrow> bool" where
  "status_ok W H G F cs s \<longleftrightarrow> W (ws_tid s) = Some cs \<and>
     ref_cnt s = of_bool (G (ws_tid s) \<noteq> Released) + of_bool (\<exists>p. cs \<in> H p) \<and> (G (ws_tid s) \<noteq> Released \<or> (\<exists>p. cs \<in> H p)) \<and>
     ((\<exists>p. cs \<in> H p) \<longrightarrow> dead s = of_bool (G (ws_tid s) \<in> {Upped, Released})) \<and>
     (if G (ws_tid s) = Live then exit_code s = - 1 else F (ws_tid s) = Some (exit_code s))"

definition core :: "(nat \<Rightarrow> wait_status option) \<Rightarrow> (nat \<Rightarrow> nat option) \<Rightarrow> (nat \<Rightarrow> nat set) \<Rightarrow> (nat \<Rightarrow> stage) \<Rightarrow> (nat \<Rightarrow> int option) \<Rightarrow> nat \<Rightarrow> bool" where
  "core S W H G F n \<longleftrightarrow> (\<forall>cs s. S cs = Some s \<longrightarrow> status_ok W H G F cs s \<and> cs < n) \<and>
     (\<forall>t cs. W t = Some cs \<and> G t \<noteq> Released \<longrightarrow> (\<exists>s. S cs = Some s \<and> ws_tid s = t)) \<and>
     (\<forall>p cs. cs \<in> H p \<longrightarrow> S cs \<noteq> None) \<and> (\<forall>p q cs. cs \<in> H p \<and> cs \<in> H q \<longrightarrow> p = q)"

lemma core_status: "core S W H G F n \<Longrightarrow> S cs = Some s \<Longrightarrow> status_ok W H G F cs s"
  by (simp add: core_def)

lemma core_own:
  assumes "core S W H G F n" "W t = Some cs" "G t \<noteq> Released"
  obtains s where "S cs = Some s" "ws_tid s = t" "status_ok W H G F cs s"
  using assms unfolding core_def by blast

lemma coreI:
  assumes "\<And>cs s. S cs = Some s \<Longrightarrow> status_ok W H G F cs s" "\<And>cs s. S cs = Some s \<Longrightarrow> cs < n"
    "\<And>t cs. W t = Some cs \<Longrightarrow> G t \<noteq> Released \<Longrightarrow> \<exists>s. S cs = Some s \<and> ws_tid s = t"
    "\<And>p cs. cs \<in> H p \<Longrightarrow> S cs \<noteq> None" "\<And>p q cs. cs \<in> H p \<Longrightarrow> cs \<in> H q \<Longrightarrow> p = q"
  shows "core S W H G F n"
  using assms unfolding core_def by blast

lemma core_lt: "core S W H G F n \<Longrightarrow> S cs = Some s \<Longrightarrow> cs < n"
  unfolding core_def by blast

lemma core_held: "core S W H G F n \<Longrightarrow> cs \<in> H p \<Longrightarrow> S cs \<noteq> None"
  unfolding core_def by blast

lemma core_unique: "core S W H G F n \<Longrightarrow> cs \<in> H p \<Longrightarrow> cs \<in> H q \<Longrightarrow> p = q"
  unfolding core_def by blast

lemma core_start:
  assumes c: "core S W H G F n" and t: "W t = None" "G t = Live"
  shows "core (S(n \<mapsto> \<lparr>ref_cnt = 2, ws_tid = t, exit_code = - 1, dead = 0\<rparr>)) (W(t \<mapsto> n)) (H(p := insert n (H p))) G F (n + 1)"
proof -
  have f: "n \<notin> H q" for q
  proof
    assume "n \<in> H q"
    then obtain s where "S n = Some s" using c unfolding core_def by blast
    then show False using c unfolding core_def by blast
  qed
  have "status_ok (W(t \<mapsto> n)) (H(p := insert n (H p))) G F cs s" if "S cs = Some s" for cs s
  proof -
    have k: "status_ok W H G F cs s" "cs < n" using c that by (simp_all add: core_def)
    then have "ws_tid s \<noteq> t" using t(1) by (auto simp: status_ok_def)
    moreover have "(\<exists>q. cs \<in> (H(p := insert n (H p))) q) = (\<exists>q. cs \<in> H q)" using k(2) by auto
    ultimately show ?thesis using k(1) unfolding status_ok_def by simp
  qed
  moreover have "status_ok (W(t \<mapsto> n)) (H(p := insert n (H p))) G F n \<lparr>ref_cnt = 2, ws_tid = t, exit_code = - 1, dead = 0\<rparr>"
    using t(2) by (auto simp: status_ok_def)
  moreover have "cs < n" if "S cs = Some s" for cs s using c that by (simp add: core_def)
  ultimately have 1: "\<forall>cs s. (S(n \<mapsto> \<lparr>ref_cnt = 2, ws_tid = t, exit_code = - 1, dead = 0\<rparr>)) cs = Some s \<longrightarrow>
      status_ok (W(t \<mapsto> n)) (H(p := insert n (H p))) G F cs s \<and> cs < n + 1"
    by (auto simp: less_Suc_eq)
  have "\<exists>s. (S(n \<mapsto> \<lparr>ref_cnt = 2, ws_tid = t, exit_code = - 1, dead = 0\<rparr>)) cs = Some s \<and> ws_tid s = u"
    if h: "(W(t \<mapsto> n)) u = Some cs" "G u \<noteq> Released" for u cs
  proof (cases "u = t")
    case False
    then have "W u = Some cs" using h(1) by simp
    then obtain s where s: "S cs = Some s" "ws_tid s = u" using core_own[OF c _ h(2)] by metis
    then have "cs \<noteq> n" using core_lt[OF c] by blast
    then show ?thesis using s by simp
  qed (use h(1) in auto)
  moreover have "\<forall>q cs. cs \<in> (H(p := insert n (H p))) q \<longrightarrow> (S(n \<mapsto> \<lparr>ref_cnt = 2, ws_tid = t, exit_code = - 1, dead = 0\<rparr>)) cs \<noteq> None"
    using c by (auto simp: core_def)
  moreover have "\<forall>q r cs. cs \<in> (H(p := insert n (H p))) q \<and> cs \<in> (H(p := insert n (H p))) r \<longrightarrow> q = r"
    using core_unique[OF c] f by (auto split: if_splits)
  ultimately show ?thesis using 1 by (intro coreI) blast+
qed

text \<open>A change of one status and of the stage of its child.\<close>

lemma core_child:
  assumes c: "core S W H G F n" and s: "W t = Some cs" "S cs = Some s" "ws_tid s = t"
    and s': "ws_tid s' = t" "status_ok W H (G(t := g)) F' cs s'" "g \<noteq> Released" and F: "\<forall>u. u \<noteq> t \<longrightarrow> F' u = F u"
  shows "core (S(cs \<mapsto> s')) W H (G(t := g)) F' n"
proof -
  have "status_ok W H (G(t := g)) F' cs' x" if "S cs' = Some x" "cs' \<noteq> cs" for cs' x
  proof -
    have k: "status_ok W H G F cs' x" using core_status[OF c that(1)] .
    then have "ws_tid x \<noteq> t" using s(1) that(2) by (auto simp: status_ok_def)
    then show ?thesis using k F by (simp add: status_ok_def)
  qed
  moreover have "\<exists>x. (S(cs \<mapsto> s')) cs' = Some x \<and> ws_tid x = u" if h: "W u = Some cs'" "(G(t := g)) u \<noteq> Released" for u cs'
  proof (cases "u = t")
    case False
    then obtain x where "S cs' = Some x" "ws_tid x = u" using core_own[OF c h(1)] h(2) by auto
    then show ?thesis using False s by auto
  qed (use h(1) s s' in auto)
  moreover have "\<forall>cs x. S cs = Some x \<longrightarrow> cs < n" "\<forall>p cs. cs \<in> H p \<longrightarrow> S cs \<noteq> None" "\<forall>p q cs. cs \<in> H p \<and> cs \<in> H q \<longrightarrow> p = q"
    using c unfolding core_def by blast+
  ultimately show ?thesis using s(2) s'(2) unfolding core_def by auto
qed

lemma core_up:
  assumes c: "core S W H G F n" and s: "W t = Some cs" "S cs = Some s" "ws_tid s = t" "G t = Ending"
  shows "core (S(cs \<mapsto> s\<lparr>dead := dead s + 1\<rparr>)) W H (G(t := Upped)) F n"
  using core_status[OF c s(2)] s by (intro core_child[OF c s(1-3)]) (auto simp: status_ok_def)

lemma core_exit:
  assumes c: "core S W H G F n" and s: "W t = Some cs" "S cs = Some s" "ws_tid s = t" "G t = Live"
  shows "core (S(cs \<mapsto> s\<lparr>exit_code := x\<rparr>)) W H (G(t := Ending)) (F(t \<mapsto> x)) n"
  using core_status[OF c s(2)] s by (intro core_child[OF c s(1-3)]) (auto simp: status_ok_def)

lemma core_no_own:
  assumes c: "core S W H G F n" and t: "W t = None"
  shows "core S W H (G(t := g)) (F(t := x)) n" "core S W H (G(t := g)) F n"
proof -
  have "ws_tid s \<noteq> t" if "S cs = Some s" for cs s using core_status[OF c that] t by (auto simp: status_ok_def)
  then have "status_ok W H (G(t := g)) (F(t := x)) cs s \<and> status_ok W H (G(t := g)) F cs s" if "S cs = Some s" for cs s
    using core_status[OF c that] that by (simp add: status_ok_def)
  then show "core S W H (G(t := g)) (F(t := x)) n" "core S W H (G(t := g)) F n"
    using c t unfolding core_def by (auto split: if_splits)
qed

lemma core_killed:
  assumes c: "core S W H G F n" and t: "G t = Live"
  shows "core S W H (G(t := Ending)) (F(t \<mapsto> - 1)) n"
proof (cases "W t")
  case None
  then show ?thesis by (rule core_no_own(1)[OF c])
next
  case (Some cs)
  obtain s where s: "S cs = Some s" "ws_tid s = t" "status_ok W H G F cs s" using core_own[OF c Some] t by auto
  have "core (S(cs \<mapsto> s)) W H (G(t := Ending)) (F(t \<mapsto> - 1)) n"
    using s t by (intro core_child[OF c Some s(1,2)]) (auto simp: status_ok_def)
  then show ?thesis using s(1) by (simp add: fun_upd_idem)
qed

lemma core_release_child:
  assumes c: "core S W H G F n" and s: "W t = Some cs" "S cs = Some s" "ws_tid s = t" "G t = Upped"
  shows "core (S(cs := if ref_cnt s - 1 = 0 then None else Some (s\<lparr>ref_cnt := ref_cnt s - 1\<rparr>))) W H (G(t := Released)) F n"
proof -
  note k = core_status[OF c s(2), unfolded status_ok_def]
  have r: "ref_cnt s - 1 = of_bool (\<exists>p. cs \<in> H p)" using k s(3,4) by simp
  have "status_ok W H (G(t := Released)) F cs' x" if "S cs' = Some x" "cs' \<noteq> cs" for cs' x
  proof -
    have k: "status_ok W H G F cs' x" using core_status[OF c that(1)] .
    then have "ws_tid x \<noteq> t" using s(1) that(2) by (auto simp: status_ok_def)
    then show ?thesis using k by (simp add: status_ok_def)
  qed
  moreover have "status_ok W H (G(t := Released)) F cs (s\<lparr>ref_cnt := ref_cnt s - 1\<rparr>)" if "\<exists>p. cs \<in> H p"
    using k s(3,4) that by (auto simp: status_ok_def)
  moreover have "\<exists>x. S cs' = Some x \<and> ws_tid x = u \<and> cs' \<noteq> cs" if h: "W u = Some cs'" "G u \<noteq> Released" "u \<noteq> t" for u cs'
  proof -
    obtain x where "S cs' = Some x" "ws_tid x = u" using core_own[OF c h(1,2)] by metis
    then show ?thesis using h(3) s by auto
  qed
  moreover have "cs \<in> H p \<Longrightarrow> ref_cnt s - 1 \<noteq> 0" for p using r by auto
  ultimately show ?thesis
    using core_lt[OF c] core_lt[OF c s(2)] core_held[OF c] core_unique[OF c] r
    by (intro coreI) (auto split: if_splits, blast+)
qed

lemma core_release_parent:
  assumes c: "core S W H G F n" and s: "S cs = Some s" "cs \<in> H p" and H': "H' = H(p := H p - {cs})"
  shows "core (S(cs := if ref_cnt s - 1 = 0 then None else Some (s\<lparr>dead := d, ref_cnt := ref_cnt s - 1\<rparr>))) W H' G F n"
proof -
  note k = core_status[OF c s(1), unfolded status_ok_def]
  have u: "cs \<in> H q \<Longrightarrow> q = p" for q using c s(2) unfolding core_def by blast
  have h: "cs \<notin> H' q" for q unfolding H' using u by auto
  have o: "cs' \<noteq> cs \<Longrightarrow> (\<exists>q. cs' \<in> H' q) = (\<exists>q. cs' \<in> H q)" for cs' unfolding H' by auto
  have r: "ref_cnt s - 1 = of_bool (G (ws_tid s) \<noteq> Released)" using k s(2) by auto
  have "status_ok W H' G F cs' x" if "S cs' = Some x" "cs' \<noteq> cs" for cs' x
    using core_status[OF c that(1)] unfolding status_ok_def o[OF that(2)] by simp
  moreover have "status_ok W H' G F cs (s\<lparr>dead := d, ref_cnt := ref_cnt s - 1\<rparr>)" if "G (ws_tid s) \<noteq> Released"
    using k h that r by (auto simp: status_ok_def)
  moreover have "\<exists>x. (S(cs := if ref_cnt s - 1 = 0 then None else Some (s\<lparr>dead := d, ref_cnt := ref_cnt s - 1\<rparr>))) cs' = Some x \<and> ws_tid x = u"
    if h: "W u = Some cs'" "G u \<noteq> Released" for u cs'
  proof -
    obtain x where x: "S cs' = Some x" "ws_tid x = u" using core_own[OF c h] by metis
    then show ?thesis using h(2) s(1) r by auto
  qed
  moreover have "cs' \<in> H' q \<Longrightarrow> cs' \<in> H q" for cs' q unfolding H' by (auto split: if_splits)
  then have "cs' \<in> H' q \<Longrightarrow> S cs' \<noteq> None" "cs' \<in> H' q \<Longrightarrow> cs' \<in> H' q' \<Longrightarrow> q = q'" for cs' q q'
    using core_held[OF c] core_unique[OF c] by metis+
  moreover have "G (ws_tid s) \<noteq> Released" if "ref_cnt s - 1 \<noteq> 0" using that r by (cases "G (ws_tid s) = Released") auto
  ultimately show ?thesis
    using core_lt[OF c] h s(1) by (intro coreI) (auto split: if_splits)
qed

section \<open>The invariant\<close>

definition core_of :: "family \<Rightarrow> bool" where
  "core_of st \<longleftrightarrow> core (statuses st) (own st) (\<lambda>t. set (held st t)) (\<lambda>t. stage_of (phase_of st t)) (final st) (next_ws st)"

definition shape :: "family \<Rightarrow> bool" where
  "shape st \<longleftrightarrow> (\<forall>t. distinct (held st t)) \<and> (\<forall>t\<ge>next_tid st. phase_of st t = Unborn) \<and>
     (\<forall>t. phase_of st t = Unborn \<longrightarrow> own st t = None) \<and>
     (\<forall>t p. phase_of st t = Starting p \<longrightarrow> own st t = None \<and> phase_of st p = Await_load) \<and>
     (\<forall>t u p. phase_of st t = Starting p \<and> phase_of st u = Starting p \<longrightarrow> t = u) \<and>
     (\<forall>t. phase_of st t = Exit_release \<longrightarrow> own st t \<noteq> None) \<and> (\<forall>t. phase_of st t = Gone \<or> phase_of st t = Unborn \<longrightarrow> kids st t = [])"

definition fam_inv :: "family \<Rightarrow> bool" where
  "fam_inv st \<longleftrightarrow> core_of st \<and> shape st"

lemma shapeI:
  assumes "\<And>t. distinct (held st t)" "\<And>t. next_tid st \<le> t \<Longrightarrow> phase_of st t = Unborn"
    "\<And>t. phase_of st t = Unborn \<Longrightarrow> own st t = None"
    "\<And>t p. phase_of st t = Starting p \<Longrightarrow> own st t = None \<and> phase_of st p = Await_load"
    "\<And>t u p. phase_of st t = Starting p \<Longrightarrow> phase_of st u = Starting p \<Longrightarrow> t = u"
    "\<And>t. phase_of st t = Exit_release \<Longrightarrow> own st t \<noteq> None" "\<And>t. phase_of st t = Gone \<or> phase_of st t = Unborn \<Longrightarrow> kids st t = []"
  shows "shape st"
  using assms unfolding shape_def by blast

lemma shapeD:
  assumes "shape st"
  shows "distinct (held st t)" "next_tid st \<le> t \<Longrightarrow> phase_of st t = Unborn"
    "phase_of st t = Unborn \<Longrightarrow> own st t = None"
    "phase_of st t = Starting p \<Longrightarrow> own st t = None" "phase_of st t = Starting p \<Longrightarrow> phase_of st p = Await_load"
    "phase_of st t = Starting p \<Longrightarrow> phase_of st u = Starting p \<Longrightarrow> t = u"
    "phase_of st t = Exit_release \<Longrightarrow> own st t \<noteq> None" "phase_of st t = Gone \<or> phase_of st t = Unborn \<Longrightarrow> kids st t = []"
  using assms unfolding shape_def by blast+

lemma coreI_of:
  assumes "core S W H G F n" "statuses st = S" "own st = W" "\<And>t. set (held st t) = H t" "\<And>t. stage_of (phase_of st t) = G t"
    "final st = F" "next_ws st = n"
  shows "core_of st"
proof -
  have "(\<lambda>t. set (held st t)) = H" "(\<lambda>t. stage_of (phase_of st t)) = G" using assms(4,5) by blast+
  then show ?thesis unfolding core_of_def using assms(1,2,3,6,7) by simp
qed

lemma family_boot_inv: "fam_inv boot"
proof -
  have "\<And>t. kids boot t = [] \<and> in_hand (phase_of boot t) = []" by (simp add: boot_def)
  then have h: "held boot t = []" for t by (simp add: held_def)
  have "core_of boot" unfolding core_of_def core_def h by (simp add: boot_def)
  moreover have "shape boot" unfolding shape_def h by (simp add: boot_def)
  ultimately show ?thesis by (simp add: fam_inv_def)
qed

lemma set_phase_simps [simp]:
  "statuses (set_phase t p st) = statuses st" "own (set_phase t p st) = own st" "kids (set_phase t p st) = kids st"
  "phase_of (set_phase t p st) = (phase_of st)(t := p)" "result (set_phase t p st) = result st" "final (set_phase t p st) = final st"
  "next_tid (set_phase t p st) = next_tid st" "next_ws (set_phase t p st) = next_ws st"
  by (simp_all add: set_phase_def)

lemma inv_execute: "fam_inv st \<Longrightarrow> phase_of st t = Running \<Longrightarrow> fam_inv (execute t st)"
proof -
  assume i: "fam_inv st" "phase_of st t = Running"
  have n: "phase_of st (next_tid st) = Unborn" "next_tid st \<noteq> t" using i by (auto simp: fam_inv_def shape_def)
  have h: "held (execute t st) u = held st u" for u using i(2) n by (simp add: held_def execute_def)
  have "core_of (execute t st)"
    by (rule coreI_of[OF i(1)[unfolded fam_inv_def core_of_def, THEN conjunct1]]) (use i(2) n h in \<open>simp_all add: execute_def\<close>)
  moreover have "shape (execute t st)"
    using i n unfolding fam_inv_def shape_def h by (auto simp: execute_def split: if_splits)
  ultimately show ?thesis by (simp add: fam_inv_def)
qed

lemma shape_start:
  assumes sh: "shape st" and t: "phase_of st t = Starting p"
    and st': "phase_of st' = (phase_of st)(p := Loaded r, t := ph)" "ph = Running \<or> ph = Exit_up" "next_tid st' = next_tid st"
      "\<And>u. u \<noteq> t \<Longrightarrow> own st' u = own st u" "kids st' = kids st" and d: "distinct (held st' p)"
  shows "shape st'"
proof (intro shapeI)
  have p: "phase_of st p = Await_load" "p \<noteq> t" using shapeD(5)[OF sh t] t by auto
  have u: "phase_of st u = Starting p \<Longrightarrow> u = t" for u using shapeD(6)[OF sh _ t] by blast
  have ph: "phase_of st' t = ph" "ph \<noteq> Unborn" "\<And>q. ph \<noteq> Starting q" "ph \<noteq> Exit_release" "ph \<noteq> Gone"
    "phase_of st' p = Loaded r" "\<And>v. v \<noteq> t \<Longrightarrow> v \<noteq> p \<Longrightarrow> phase_of st' v = phase_of st v" using st' p by auto
  show "distinct (held st' v)" for v
    using shapeD(1)[OF sh, of v] d st' t ph by (cases "v = p"; cases "v = t") (auto simp: held_def)
  show "phase_of st' v = Unborn" if "next_tid st' \<le> v" for v
  proof -
    have "phase_of st v = Unborn" using shapeD(2)[OF sh, of v] that st'(3) by simp
    then have "v \<noteq> t" "v \<noteq> p" using t p by auto
    then show ?thesis using ph(7) \<open>phase_of st v = Unborn\<close> by simp
  qed
  show "own st' v = None" if "phase_of st' v = Unborn" for v
  proof -
    have "v \<noteq> t" "v \<noteq> p" using that ph by auto
    then show ?thesis using that ph(7) st'(4) shapeD(3)[OF sh, of v] by simp
  qed
  have old: "v \<noteq> t \<and> v \<noteq> p \<and> phase_of st v = Starting q" if "phase_of st' v = Starting q" for v q
    using that ph by (cases "v = t"; cases "v = p") auto
  show "own st' v = None \<and> phase_of st' q = Await_load" if "phase_of st' v = Starting q" for v q
  proof -
    note v = old[OF that]
    have q: "own st v = None" "phase_of st q = Await_load" using shapeD(4,5)[OF sh, of v q] v by blast+
    have "q \<noteq> t" using q(2) t by auto
    moreover have "q \<noteq> p" using u[of v] v by auto
    ultimately show ?thesis using q v ph(7) st'(4) by simp
  qed
  show "v = w" if "phase_of st' v = Starting q" "phase_of st' w = Starting q" for v w q
    using shapeD(6)[OF sh] old[OF that(1)] old[OF that(2)] by blast
  show "own st' v \<noteq> None" if "phase_of st' v = Exit_release" for v
  proof -
    have "v \<noteq> t" "v \<noteq> p" using that ph by auto
    then show ?thesis using that ph(7) st'(4) shapeD(7)[OF sh, of v] by simp
  qed
  show "kids st' v = []" if "phase_of st' v = Gone \<or> phase_of st' v = Unborn" for v
  proof -
    have "v \<noteq> t" "v \<noteq> p" using that ph by auto
    then show ?thesis using that ph(7) st'(5) shapeD(8)[OF sh, of v] by simp
  qed
qed

lemma inv_start: "fam_inv st \<Longrightarrow> phase_of st t = Starting p \<Longrightarrow> fam_inv (start t p ok st)"
proof -
  assume i: "fam_inv st" "phase_of st t = Starting p"
  have c: "core (statuses st) (own st) (\<lambda>t. set (held st t)) (\<lambda>t. stage_of (phase_of st t)) (final st) (next_ws st)" and sh: "shape st"
    using i(1) by (simp_all add: fam_inv_def core_of_def)
  have p: "phase_of st p = Await_load" "own st t = None" using sh i(2) by (auto simp: shape_def)
  then have "p \<noteq> t" using i(2) by auto
  note p = p this
  show ?thesis
  proof (cases ok)
    case True
    have h: "held (start t p ok st) u = (if u = p then held st p @ [next_ws st] else held st u)" for u
      using i(2) p True by (simp add: held_def start_def Let_def)
    have "core_of (start t p ok st)"
      by (rule coreI_of[OF core_start[OF c p(2), of p]]) (use i(2) p True h in \<open>simp_all add: start_def Let_def\<close>)
    moreover have "next_ws st \<notin> set (held st p)" using core_held[OF c, of "next_ws st" p] core_lt[OF c, of "next_ws st"] by auto
    then have "shape (start t p ok st)"
      by (intro shape_start[OF sh i(2), of _ "Some (next_ws st)" Running])
        (use True h shapeD(1)[OF sh, of p] p(3) in \<open>simp_all add: start_def Let_def\<close>)
    ultimately show ?thesis by (simp add: fam_inv_def)
  next
    case False
    have h: "held (start t p ok st) u = held st u" for u using i(2) p False by (simp add: held_def start_def)
    have "core_of (start t p ok st)"
      by (rule coreI_of[OF core_no_own(2)[OF c p(2), of Ending]]) (use i(2) p False h in \<open>simp_all add: start_def\<close>)
    moreover have "shape (start t p ok st)"
      by (rule shape_start[OF sh i(2), of _ None Exit_up]) (use False h shapeD(1)[OF sh, of p] p(3) in \<open>simp_all add: start_def\<close>)
    ultimately show ?thesis by (simp add: fam_inv_def)
  qed
qed

lemma inv_core: "fam_inv st \<Longrightarrow> core (statuses st) (own st) (\<lambda>t. set (held st t)) (\<lambda>t. stage_of (phase_of st t)) (final st) (next_ws st)"
  by (simp add: fam_inv_def core_of_def)

text \<open>The statuses that the list functions write to are allocated.\<close>

lemma held_valid:
  assumes "fam_inv st" "set css \<subseteq> set (held st t)"
  shows "valid css st"
  using assms(2) core_held[OF inv_core[OF assms(1)], of _ t] by (auto simp: valid_def list_all_iff)

lemma neighbours_subset: "set (neighbours cs css) \<subseteq> set css"
proof
  fix x assume "x \<in> set (neighbours cs css)"
  then obtain a b where ab: "(a, b) \<in> set (zip css (tl css))" "x = a \<or> x = b" by (auto simp: neighbours_def split: if_splits)
  then have "a \<in> set css" "b \<in> set (tl css)" by (auto dest: set_zip_leftD set_zip_rightD)
  then show "x \<in> set css" using ab(2) by (cases css) auto
qed

lemma take_rev_subset: "set (take n (rev xs)) \<subseteq> set xs"
  using set_take_subset[of n "rev xs"] by simp

lemma inv_executed:
  assumes i: "fam_inv st" "phase_of st t = Loaded r"
  shows "\<exists>st'. executed t r st = Some st' \<and> fam_inv st'"
proof -
  let ?st = "case r of None \<Rightarrow> set_phase t Running st | Some cs \<Rightarrow> set_phase t Running (st\<lparr>kids := (kids st)(t := kids st t @ [cs])\<rparr>)"
  have h: "held ?st u = held st u" for u using i(2) by (simp add: held_def split: option.split)
  have "core_of ?st"
    by (rule coreI_of[OF i(1)[unfolded fam_inv_def core_of_def, THEN conjunct1]]) (use i(2) h in \<open>auto split: option.split\<close>)
  moreover have "shape ?st"
    using i unfolding fam_inv_def shape_def h by (auto split: option.split)
  moreover have "valid (cs # take 1 (rev (kids st t))) st" if "r = Some cs" for cs
    by (rule held_valid[OF i(1), of _ t]) (use i(2) that take_rev_subset[of 1 "kids st t"] in \<open>auto simp: held_def\<close>)
  ultimately show ?thesis by (auto simp: executed_def fam_inv_def split: option.splits)
qed

text \<open>A step of one thread.\<close>

lemma shape_step:
  assumes sh: "shape st" and st': "phase_of st' = (phase_of st)(t := ph)" "next_tid st' = next_tid st" "own st' = own st"
      "\<And>u. u \<noteq> t \<Longrightarrow> kids st' u = kids st u"
    and t: "phase_of st t \<noteq> Unborn" "phase_of st t \<noteq> Await_load" and ph: "ph \<noteq> Unborn" "\<And>p. ph \<noteq> Starting p"
    and d: "distinct (held st' t)" and e: "ph = Exit_release \<Longrightarrow> own st t \<noteq> None" "ph = Gone \<Longrightarrow> kids st' t = []"
  shows "shape st'"
proof (intro shapeI)
  have h: "u \<noteq> t \<Longrightarrow> held st' u = held st u" for u using st' by (simp add: held_def)
  show "distinct (held st' u)" for u using shapeD(1)[OF sh, of u] d h by (cases "u = t") simp_all
  show "next_tid st' \<le> u \<Longrightarrow> phase_of st' u = Unborn" for u using shapeD(2)[OF sh, of u] st' t(1) by auto
  show "phase_of st' u = Unborn \<Longrightarrow> own st' u = None" for u using shapeD(3)[OF sh, of u] st' ph(1) by (auto split: if_splits)
  show "phase_of st' u = Starting p \<Longrightarrow> own st' u = None \<and> phase_of st' p = Await_load" for u p
    using shapeD(4,5)[OF sh, of u p] st' ph(2) t(2) by (auto split: if_splits)
  show "phase_of st' u = Starting p \<Longrightarrow> phase_of st' v = Starting p \<Longrightarrow> u = v" for u v p
    using shapeD(6)[OF sh, of u p v] st' ph(2) by (auto split: if_splits)
  show "phase_of st' u = Exit_release \<Longrightarrow> own st' u \<noteq> None" for u using shapeD(7)[OF sh, of u] st' e(1) by (auto split: if_splits)
  show "phase_of st' u = Gone \<or> phase_of st' u = Unborn \<Longrightarrow> kids st' u = []" for u
    using shapeD(8)[OF sh, of u] st' e(2) ph(1) by (auto split: if_splits)
qed

lemma find_child_spec:
  "\<forall>cs\<in>set css. statuses st cs \<noteq> None \<Longrightarrow> \<exists>r. find_child tid css st = Some r \<and>
    (case r of None \<Rightarrow> \<forall>cs\<in>set css. ws_tid (the (statuses st cs)) \<noteq> tid
     | Some cs \<Rightarrow> cs \<in> set css \<and> ws_tid (the (statuses st cs)) = tid)"
  by (induction css) (auto split: option.splits)

lemma inv_wait:
  assumes i: "fam_inv st" and t: "phase_of st t = Running"
  shows "\<exists>st'. process_wait t c st = Some st' \<and> fam_inv st'"
proof -
  note co = inv_core[OF i] and sh = i[unfolded fam_inv_def, THEN conjunct2]
  have "\<forall>cs\<in>set (kids st t). statuses st cs \<noteq> None" using core_held[OF co, of _ t] by (auto simp: held_def)
  from find_child_spec[OF this, of c] obtain r where r: "find_child c (kids st t) st = Some r" "\<And>cs. r = Some cs \<Longrightarrow> cs \<in> set (kids st t)"
    by (auto split: option.splits)
  show ?thesis
  proof (cases r)
    case None
    let ?st = "st\<lparr>result := (result st)(t := - 1)\<rparr>"
    have h: "held ?st u = held st u" for u by (simp add: held_def)
    have "core_of ?st" by (rule coreI_of[OF co]) (simp_all add: h)
    moreover have "shape ?st" by (rule shape_step[OF sh, of _ t Running]) (use t h shapeD(1)[OF sh, of t] in auto)
    ultimately show ?thesis using r(1) None by (simp add: process_wait_def fam_inv_def)
  next
    case (Some cs)
    let ?st = "set_phase t (Waiting cs) (st\<lparr>kids := (kids st)(t := remove1 cs (kids st t))\<rparr>)"
    have d: "distinct (kids st t)" "in_hand (phase_of st t) = []" using shapeD(1)[OF sh, of t] t by (simp_all add: held_def)
    have h: "held ?st u = (if u = t then remove1 cs (kids st t) @ [cs] else held st u)" for u by (simp add: held_def)
    have s: "set (held ?st u) = set (held st u)" for u
      unfolding h using d r(2)[OF Some] by (auto simp: held_def)
    have "core_of ?st" by (rule coreI_of[OF co]) (simp_all add: s t)
    moreover have "shape ?st" by (rule shape_step[OF sh, of _ t "Waiting cs"]) (use t d h in auto)
    moreover have "valid (neighbours cs (kids st t)) st"
      by (rule held_valid[OF i, of _ t]) (use neighbours_subset[of cs "kids st t"] in \<open>auto simp: held_def\<close>)
    ultimately show ?thesis using r(1) Some by (simp add: process_wait_def fam_inv_def)
  qed
qed

lemma inv_wake:
  assumes i: "fam_inv st" and t: "phase_of st t = Waiting cs"
  shows "\<exists>s st'. statuses st cs = Some s \<and> woken t cs st = Some st' \<and> fam_inv st'"
proof -
  note co = inv_core[OF i] and sh = i[unfolded fam_inv_def, THEN conjunct2]
  have m: "cs \<in> set (held st t)" using t by (simp add: held_def)
  then obtain s where s: "statuses st cs = Some s" using core_held[OF co, of cs t] by auto
  have d: "distinct (kids st t)" "cs \<notin> set (kids st t)" using shapeD(1)[OF sh, of t] t by (simp_all add: held_def)
  let ?S = "(statuses st)(cs := if ref_cnt s - 1 = 0 then None else Some (s\<lparr>dead := dead s - 1, ref_cnt := ref_cnt s - 1\<rparr>))"
  let ?st = "set_phase t Running (st\<lparr>statuses := ?S, result := (result st)(t := exit_code s)\<rparr>)"
  have h: "held ?st u = (if u = t then kids st t else held st u)" for u by (simp add: held_def)
  have H: "(\<lambda>u. set (held ?st u)) = (\<lambda>u. set (held st u))(t := set (held st t) - {cs})"
    unfolding h using t d by (auto simp: fun_eq_iff held_def)
  have "core_of ?st"
    by (rule coreI_of[OF core_release_parent[OF co s m refl, of "dead s - 1"]]) (use H t in \<open>auto simp: fun_eq_iff\<close>)
  moreover have "shape ?st" by (rule shape_step[OF sh, of _ t Running]) (use t d h in auto)
  moreover have "woken t cs st = Some ?st"
    using s by (simp add: woken_def release_child_def)
  ultimately show ?thesis using s by (auto simp: fam_inv_def)
qed

lemma inv_exit:
  assumes i: "fam_inv st" and t: "phase_of st t = Running" "code \<noteq> None \<longrightarrow> own st t \<noteq> None"
  shows "\<exists>st'. sys_exit t code st = Some st' \<and> fam_inv st'"
proof -
  note co = inv_core[OF i] and sh = i[unfolded fam_inv_def, THEN conjunct2]
  have d: "distinct (kids st t)" using shapeD(1)[OF sh, of t] by (simp add: held_def)
  show ?thesis
  proof (cases code)
    case None
    let ?st = "set_phase t Exit_up (st\<lparr>final := (final st)(t \<mapsto> - 1)\<rparr>)"
    have h: "held ?st u = held st u" for u using t by (simp add: held_def)
    have "core_of ?st" by (rule coreI_of[OF core_killed[OF co, of t]]) (use t h in auto)
    moreover have "shape ?st" by (rule shape_step[OF sh, of _ t Exit_up]) (use t h shapeD(1)[OF sh, of t] in auto)
    ultimately show ?thesis using None by (simp add: sys_exit_def fam_inv_def)
  next
    case (Some x)
    obtain cs where cs: "own st t = Some cs" using t Some by auto
    obtain s where s: "statuses st cs = Some s" "ws_tid s = t" using core_own[OF co cs] t by auto
    let ?st = "set_phase t Exit_up (st\<lparr>final := (final st)(t \<mapsto> x), statuses := (statuses st)(cs \<mapsto> s\<lparr>exit_code := x\<rparr>)\<rparr>)"
    have h: "held ?st u = held st u" for u using t by (simp add: held_def)
    have "core_of ?st" by (rule coreI_of[OF core_exit[OF co cs s, of x]]) (use t h in auto)
    moreover have "shape ?st" by (rule shape_step[OF sh, of _ t Exit_up]) (use t h shapeD(1)[OF sh, of t] in auto)
    ultimately show ?thesis using Some cs s by (simp add: sys_exit_def fam_inv_def)
  qed
qed

lemma inv_exit_up:
  assumes i: "fam_inv st" and t: "phase_of st t = Exit_up"
  shows "\<exists>st'. exit_up t st = Some st' \<and> fam_inv st'"
proof -
  note co = inv_core[OF i] and sh = i[unfolded fam_inv_def, THEN conjunct2]
  show ?thesis
  proof (cases "own st t")
    case None
    let ?st = "set_phase t Exit_kids st"
    have h: "held ?st u = held st u" for u using t by (simp add: held_def)
    have "core_of ?st" by (rule coreI_of[OF core_no_own(2)[OF co None, of Released]]) (use t h in auto)
    moreover have "shape ?st" by (rule shape_step[OF sh, of _ t Exit_kids]) (use t h shapeD(1)[OF sh, of t] in auto)
    ultimately show ?thesis using None by (simp add: exit_up_def fam_inv_def)
  next
    case (Some cs)
    obtain s where s: "statuses st cs = Some s" "ws_tid s = t" using core_own[OF co Some] t by auto
    let ?st = "set_phase t Exit_release (st\<lparr>statuses := (statuses st)(cs \<mapsto> s\<lparr>dead := dead s + 1\<rparr>)\<rparr>)"
    have h: "held ?st u = held st u" for u using t by (simp add: held_def)
    have "core_of ?st" by (rule coreI_of[OF core_up[OF co Some s]]) (use t h in auto)
    moreover have "shape ?st" by (rule shape_step[OF sh, of _ t Exit_release]) (use t h Some shapeD(1)[OF sh, of t] in auto)
    ultimately show ?thesis using Some s by (simp add: exit_up_def fam_inv_def)
  qed
qed

lemma inv_exit_release:
  assumes i: "fam_inv st" and t: "phase_of st t = Exit_release"
  shows "\<exists>st'. exit_release t st = Some st' \<and> fam_inv st'"
proof -
  note co = inv_core[OF i] and sh = i[unfolded fam_inv_def, THEN conjunct2]
  obtain cs where cs: "own st t = Some cs" using shapeD(7)[OF sh t] by auto
  obtain s where s: "statuses st cs = Some s" "ws_tid s = t" using core_own[OF co cs] t by auto
  let ?S = "(statuses st)(cs := if ref_cnt s - 1 = 0 then None else Some (s\<lparr>ref_cnt := ref_cnt s - 1\<rparr>))"
  let ?st = "set_phase t Exit_kids (st\<lparr>statuses := ?S\<rparr>)"
  have h: "held ?st u = held st u" for u using t by (simp add: held_def)
  have "core_of ?st" by (rule coreI_of[OF core_release_child[OF co cs s]]) (use t h in auto)
  moreover have "shape ?st" by (rule shape_step[OF sh, of _ t Exit_kids]) (use t h shapeD(1)[OF sh, of t] in auto)
  moreover have "exit_release t st = Some ?st" using cs s by (simp add: exit_release_def release_child_def)
  ultimately show ?thesis by (auto simp: fam_inv_def)
qed

lemma inv_exit_kids:
  assumes i: "fam_inv st" and t: "phase_of st t = Exit_kids"
  shows "\<exists>st'. exit_kids t st = Some st' \<and> fam_inv st'"
proof -
  note co = inv_core[OF i] and sh = i[unfolded fam_inv_def, THEN conjunct2]
  show ?thesis
  proof (cases "kids st t")
    case Nil
    let ?st = "set_phase t Gone st"
    have h: "held ?st u = held st u" for u using t by (simp add: held_def)
    have "core_of ?st" by (rule coreI_of[OF co]) (use t h in auto)
    moreover have "shape ?st" by (rule shape_step[OF sh, of _ t Gone]) (use t h Nil shapeD(1)[OF sh, of t] in auto)
    ultimately show ?thesis using Nil by (simp add: exit_kids_def fam_inv_def)
  next
    case (Cons cs css)
    have m: "cs \<in> set (held st t)" using Cons by (simp add: held_def)
    then obtain s where s: "statuses st cs = Some s" using core_held[OF co, of cs t] by auto
    have d: "distinct css" "cs \<notin> set css" using shapeD(1)[OF sh, of t] t Cons by (simp_all add: held_def)
    let ?S = "(statuses st)(cs := if ref_cnt s - 1 = 0 then None else Some (s\<lparr>ref_cnt := ref_cnt s - 1\<rparr>))"
    let ?st = "st\<lparr>kids := (kids st)(t := css), statuses := ?S\<rparr>"
    have h: "held ?st u = (if u = t then css else held st u)" for u using t by (simp add: held_def)
    have H: "(\<lambda>u. set (held ?st u)) = (\<lambda>u. set (held st u))(t := set (held st t) - {cs})"
      unfolding h using t d Cons by (auto simp: fun_eq_iff held_def)
    have "s\<lparr>dead := dead s, ref_cnt := ref_cnt s - 1\<rparr> = s\<lparr>ref_cnt := ref_cnt s - 1\<rparr>" by simp
    then have "core_of ?st"
      by (intro coreI_of[OF core_release_parent[OF co s m refl, of "dead s"]]) (use H t in \<open>auto simp: fun_eq_iff\<close>)
    moreover have "shape ?st" by (rule shape_step[OF sh, of _ t Exit_kids]) (use t d h in auto)
    moreover have "valid (take 1 css) st"
      by (rule held_valid[OF i, of _ t]) (use Cons set_take_subset[of 1 css] in \<open>auto simp: held_def\<close>)
    then have "exit_kids t st = Some ?st" using Cons s by (simp add: exit_kids_def release_child_def)
    ultimately show ?thesis by (auto simp: fam_inv_def)
  qed
qed

lemma act_inv:
  assumes i: "fam_inv st" and a: "act t a st = Some r"
  shows "\<exists>st'. r = Some st' \<and> fam_inv st'"
  using a inv_execute[OF i] inv_start[OF i] inv_executed[OF i] inv_wait[OF i] inv_wake[OF i] inv_exit[OF i]
    inv_exit_up[OF i] inv_exit_release[OF i] inv_exit_kids[OF i]
  by (cases a) (fastforce split: if_splits phase.splits option.splits)+

lemma family_inv: "reachable st \<Longrightarrow> fam_inv st"
  by (induction rule: reachable.induct) (use family_boot_inv act_inv in blast)+

section \<open>What waiting gives\<close>

lemma process_wait_cases:
  assumes i: "fam_inv st" and t: "phase_of st t = Running" and r: "process_wait t c st = Some st'"
  shows "(\<exists>cs s. cs \<in> set (kids st t) \<and> statuses st cs = Some s \<and> ws_tid s = c \<and> phase_of st' t = Waiting cs) \<or>
    (result st' t = - 1 \<and> phase_of st' t = Running \<and> (\<forall>cs\<in>set (kids st t). \<forall>s. statuses st cs = Some s \<longrightarrow> ws_tid s \<noteq> c))"
proof -
  have n: "\<forall>cs\<in>set (kids st t). statuses st cs \<noteq> None" using core_held[OF inv_core[OF i], of _ t] by (auto simp: held_def)
  from find_child_spec[OF n, of c] obtain x where x: "find_child c (kids st t) st = Some x"
    "case x of None \<Rightarrow> \<forall>cs\<in>set (kids st t). ws_tid (the (statuses st cs)) \<noteq> c
     | Some cs \<Rightarrow> cs \<in> set (kids st t) \<and> ws_tid (the (statuses st cs)) = c" by blast
  show ?thesis
  proof (cases x)
    case None
    then have "st' = st\<lparr>result := (result st)(t := - 1)\<rparr>" using x(1) r by (simp add: process_wait_def)
    moreover have "\<forall>cs\<in>set (kids st t). \<forall>s. statuses st cs = Some s \<longrightarrow> ws_tid s \<noteq> c" using x(2) None by fastforce
    ultimately show ?thesis using t by simp
  next
    case (Some cs)
    then have m: "cs \<in> set (kids st t)" "ws_tid (the (statuses st cs)) = c" using x(2) by simp_all
    then obtain s where s: "statuses st cs = Some s" using n by auto
    have "phase_of st' t = Waiting cs" using x(1) r Some by (auto simp: process_wait_def split: if_splits)
    then show ?thesis using m s by (intro disjI1 exI[of _ cs] exI[of _ s]) simp
  qed
qed

lemma waiting_result:
  assumes i: "fam_inv st" and t: "phase_of st t = Waiting cs"
  shows "\<exists>s. statuses st cs = Some s \<and> own st (ws_tid s) = Some cs \<and>
    (act t Wake st \<noteq> None \<longleftrightarrow> phase_of st (ws_tid s) \<in> {Exit_release, Exit_kids, Gone}) \<and>
    (\<forall>st'. act t Wake st = Some (Some st') \<longrightarrow> final st (ws_tid s) = Some (result st' t))"
proof -
  note co = inv_core[OF i]
  have m: "cs \<in> set (held st t)" using t by (simp add: held_def)
  then obtain s where s: "statuses st cs = Some s" using core_held[OF co, of cs t] by auto
  note k = core_status[OF co s, unfolded status_ok_def]
  have st: "stage_of p \<in> {Upped, Released} \<longleftrightarrow> p \<in> {Exit_release, Exit_kids, Gone}" for p by (cases p) auto
  have d: "dead s = of_bool (phase_of st (ws_tid s) \<in> {Exit_release, Exit_kids, Gone})"
    unfolding st [symmetric] using k m by blast
  have "final st (ws_tid s) = Some (result st' t)" if w: "act t Wake st = Some (Some st')" for st'
  proof -
    have "dead s > 0" "woken t cs st = Some st'" using w t s by (auto split: if_splits)
    then have "result st' t = exit_code s" using s by (auto simp: woken_def release_child_def)
    moreover have "stage_of (phase_of st (ws_tid s)) \<noteq> Live" using d \<open>dead s > 0\<close> by (cases "phase_of st (ws_tid s)") auto
    ultimately show ?thesis using k by simp
  qed
  then show ?thesis using s k t d by (intro exI[of _ s]) auto
qed

lemma all_gone:
  assumes i: "fam_inv st" and g: "\<And>t. phase_of st t = Unborn \<or> phase_of st t = Gone"
  shows "statuses st = Map.empty"
proof
  fix cs
  note co = inv_core[OF i] and sh = i[unfolded fam_inv_def, THEN conjunct2]
  have h: "held st t = []" for t using g[of t] shapeD(8)[OF sh, of t] by (auto simp: held_def)
  show "statuses st cs = None"
  proof (cases "statuses st cs")
    case (Some s)
    have "own st (ws_tid s) = Some cs" "stage_of (phase_of st (ws_tid s)) \<noteq> Released"
      using core_status[OF co Some] by (auto simp: status_ok_def h)
    then show ?thesis using g[of "ws_tid s"] shapeD(3)[OF sh, of "ws_tid s"] by auto
  qed
qed

section \<open>The property\<close>

text \<open>C4: whatever the threads of a family do and in whatever order, no thread uses a wait status
  that has been freed: not in \<open>process_wait\<close>, not in \<open>process_exit\<close>, not in the loop over the children.
  A thread that waits for a child is woken exactly when the child has signalled its end, never earlier,
  and \<open>process_wait\<close> then returns the code with which this child ended, -1 if it was killed. A wait for
  a thread that is not a child, or no longer one, returns -1 at once. When all threads are gone, all
  statuses are freed.\<close>

theorem wait_protocol:
  assumes "reachable st"
  shows "act t a st \<noteq> Some None \<and>
    (\<forall>cs. phase_of st t = Waiting cs \<longrightarrow> (\<exists>s. statuses st cs = Some s \<and> own st (ws_tid s) = Some cs \<and>
      (act t Wake st \<noteq> None \<longleftrightarrow> phase_of st (ws_tid s) \<in> {Exit_release, Exit_kids, Gone}) \<and>
      (\<forall>st'. act t Wake st = Some (Some st') \<longrightarrow> final st (ws_tid s) = Some (result st' t)))) \<and>
    (\<forall>c st'. act t (Wait_for c) st = Some (Some st') \<longrightarrow>
      (\<exists>cs s. cs \<in> set (kids st t) \<and> statuses st cs = Some s \<and> ws_tid s = c \<and> phase_of st' t = Waiting cs) \<or>
      (result st' t = - 1 \<and> phase_of st' t = Running \<and> (\<forall>cs\<in>set (kids st t). \<forall>s. statuses st cs = Some s \<longrightarrow> ws_tid s \<noteq> c))) \<and>
    ((\<forall>u. phase_of st u = Unborn \<or> phase_of st u = Gone) \<longrightarrow> statuses st = Map.empty)"
proof (intro conjI allI impI)
  note i = family_inv [OF assms]
  show "act t a st \<noteq> Some None" using act_inv [OF i] by blast
  show "\<exists>s. statuses st cs = Some s \<and> own st (ws_tid s) = Some cs \<and>
      (act t Wake st \<noteq> None \<longleftrightarrow> phase_of st (ws_tid s) \<in> {Exit_release, Exit_kids, Gone}) \<and>
      (\<forall>st'. act t Wake st = Some (Some st') \<longrightarrow> final st (ws_tid s) = Some (result st' t))"
    if "phase_of st t = Waiting cs" for cs using waiting_result [OF i that] .
  show "(\<exists>cs s. cs \<in> set (kids st t) \<and> statuses st cs = Some s \<and> ws_tid s = c \<and> phase_of st' t = Waiting cs) \<or>
      (result st' t = - 1 \<and> phase_of st' t = Running \<and> (\<forall>cs\<in>set (kids st t). \<forall>s. statuses st cs = Some s \<longrightarrow> ws_tid s \<noteq> c))"
    if w: "act t (Wait_for c) st = Some (Some st')" for c st'
    using w by (intro process_wait_cases [OF i]) (auto split: if_splits)
  show "statuses st = Map.empty" if u: "\<forall>u. phase_of st u = Unborn \<or> phase_of st u = Gone"
    using all_gone [OF i] u by blast
qed

text \<open>Thread 0 starts thread 1 and waits for it; thread 1 exits with 7.\<close>

theorem wait_protocol_witness:
  "\<exists>st st'. run [(0, Execute), (1, Start True), (0, Executed), (0, Wait_for 1), (1, Exit (Some 7)), (1, Die)] boot = Some st \<and>
     act 0 Wake st = Some (Some st') \<and> phase_of st 0 = Waiting 0 \<and> final st 1 = Some 7 \<and>
     (\<exists>s. statuses st 0 = Some s \<and> final st (ws_tid s) = Some (result st' 0)) \<and> act 0 Die st \<noteq> Some None"
proof -
  let ?acts = "[(0, Execute), (1, Start True), (0, Executed), (0, Wait_for 1), (1, Exit (Some 7)), (1, Die)]"
  note defs = boot_def execute_def start_def executed_def process_wait_def sys_exit_def exit_up_def set_phase_def valid_def neighbours_def
    woken_def release_child_def Let_def
  obtain st where st: "run ?acts boot = Some st" and p: "phase_of st 0 = Waiting 0" "final st 1 = Some 7"
    and e: "act 0 Wake st \<noteq> None"
    by (simp add: defs)
  note r = run_reachable [OF reachable.start st]
  obtain st' where w: "act 0 Wake st = Some (Some st')" using e wait_protocol [OF r, of 0 Wake, THEN conjunct1] by auto
  note w2 = wait_protocol [OF r, of 0 Die]
  have "\<exists>s. statuses st 0 = Some s \<and> final st (ws_tid s) = Some (result st' 0)"
    using w2 [THEN conjunct2, THEN conjunct1, rule_format, OF p(1)] w by blast
  then show ?thesis using st p w w2 [THEN conjunct1] by (intro exI [of _ st] exI [of _ st'] conjI) simp_all
qed

end
