(* ===== verification/CInt.thy ===== *)
theory CInt
  imports Prelude "HOL-Library.Signed_Division"
begin

text \<open>
  C's signed integers as mathematical integers with the conversion to their width written out:
  \<open>wrap32\<close> is what storing a value in an \<open>int\<close> (or \<open>int32_t\<close>) leaves and \<open>wrap64\<close> what
  storing it in an \<open>int64_t\<close> leaves, on the two's complement target the kernel is built for.
  C's \<open>/\<close> and \<open>%\<close> round toward zero: \<open>sdiv\<close> and \<open>smod\<close> of the library.
\<close>

definition wrap32 :: "int \<Rightarrow> int" where
  "wrap32 x = (x + 2147483648) mod 4294967296 - 2147483648"

definition wrap64 :: "int \<Rightarrow> int" where
  "wrap64 x = (x + 9223372036854775808) mod 18446744073709551616 - 9223372036854775808"

definition int32 :: "int \<Rightarrow> bool" where
  "int32 x \<longleftrightarrow> - 2147483648 \<le> x \<and> x \<le> 2147483647"

definition int64 :: "int \<Rightarrow> bool" where
  "int64 x \<longleftrightarrow> - 9223372036854775808 \<le> x \<and> x \<le> 9223372036854775807"

lemma int32_wrap32 [simp]: "int32 (wrap32 x)"
  unfolding int32_def wrap32_def using pos_mod_bound[of 4294967296 "x + 2147483648"]
    pos_mod_sign[of 4294967296 "x + 2147483648"] by linarith

lemma int64_wrap64 [simp]: "int64 (wrap64 x)"
  unfolding int64_def wrap64_def
  using pos_mod_bound[of 18446744073709551616 "x + 9223372036854775808"]
    pos_mod_sign[of 18446744073709551616 "x + 9223372036854775808"] by linarith

lemma wrap32_id [simp]: "int32 x \<Longrightarrow> wrap32 x = x"
  by (simp add: int32_def wrap32_def)

lemma wrap64_id [simp]: "int64 x \<Longrightarrow> wrap64 x = x"
  by (simp add: int64_def wrap64_def)

lemma wrap32_idI: "- 2147483648 \<le> x \<Longrightarrow> x \<le> 2147483647 \<Longrightarrow> wrap32 x = x"
  by (simp add: int32_def)

lemma wrap64_idI: "- 9223372036854775808 \<le> x \<Longrightarrow> x \<le> 9223372036854775807 \<Longrightarrow> wrap64 x = x"
  by (simp add: int64_def)

lemma wrap32_add_left: "wrap32 (wrap32 x + y) = wrap32 (x + y)"
proof -
  have "(wrap32 x + y + 2147483648) mod 4294967296 = ((x + 2147483648) mod 4294967296 + y) mod 4294967296"
    by (simp add: wrap32_def)
  also have "\<dots> = (x + y + 2147483648) mod 4294967296"
    by (subst mod_add_left_eq) (simp add: ac_simps)
  finally show ?thesis
    unfolding wrap32_def[of "wrap32 x + y"] wrap32_def[of "x + y"] by simp
qed

lemma sdiv_nonneg: "0 \<le> (x::int) \<Longrightarrow> 0 < y \<Longrightarrow> x sdiv y = x div y"
  by (cases "x = 0") (simp_all add: signed_divide_int_def)

lemma sdiv_neg: "(x::int) < 0 \<Longrightarrow> 0 < y \<Longrightarrow> x sdiv y = - (- x div y)"
  by (simp add: signed_divide_int_def)

lemma sdiv_bounds:
  assumes "0 < (y::int)"
  shows "\<bar>x sdiv y\<bar> * y \<le> \<bar>x\<bar>" "\<bar>x\<bar> - \<bar>x sdiv y\<bar> * y < y"
proof -
  have a: "\<bar>x sdiv y\<bar> = \<bar>x\<bar> div y"
    using assms by (cases "0 \<le> x") (simp_all add: sdiv_nonneg sdiv_neg pos_imp_zdiv_nonneg_iff)
  have d: "\<bar>x\<bar> = \<bar>x\<bar> div y * y + \<bar>x\<bar> mod y" by simp
  show "\<bar>x sdiv y\<bar> * y \<le> \<bar>x\<bar>" unfolding a using d pos_mod_sign[OF assms, of "\<bar>x\<bar>"] by linarith
  show "\<bar>x\<bar> - \<bar>x sdiv y\<bar> * y < y" unfolding a using d pos_mod_bound[OF assms, of "\<bar>x\<bar>"] by linarith
qed

lemma sdiv_nonneg_iff: "0 < (y::int) \<Longrightarrow> 0 \<le> x \<Longrightarrow> 0 \<le> x sdiv y"
  by (simp add: sdiv_nonneg pos_imp_zdiv_nonneg_iff)

lemma sdiv_neg_right: "x sdiv (- y :: int) = - (x sdiv y)"
  by (simp add: signed_divide_int_def sgn_mult)

lemma sdiv_err: "0 < (y::int) \<Longrightarrow> \<bar>x sdiv y * y - x\<bar> < y"
proof -
  assume y: "0 < y"
  show ?thesis
  proof (cases "0 \<le> x")
    case True
    have "x = x div y * y + x mod y" by simp
    with pos_mod_bound[OF y, of x] pos_mod_sign[OF y, of x] y True show ?thesis
      unfolding sdiv_nonneg[OF True y] by linarith
  next
    case False
    then have e: "x sdiv y * y = - (- x div y * y)" using y by (simp add: sdiv_neg)
    have "- x = - x div y * y + - x mod y" by simp
    with pos_mod_bound[OF y, of "- x"] pos_mod_sign[OF y, of "- x"] y show ?thesis
      unfolding e by linarith
  qed
qed

lemma sdiv_int32: "int32 x \<Longrightarrow> 0 < y \<Longrightarrow> int32 (x sdiv y)"
proof -
  assume x: "int32 x" and y: "0 < y"
  have "\<bar>x sdiv y\<bar> \<le> \<bar>x\<bar>"
    using sdiv_bounds(1)[OF y, of x] y
    by (smt (verit, ccfv_SIG) abs_ge_zero mult_le_cancel_left1 mult.commute)
  moreover have "x \<ge> 0 \<Longrightarrow> x sdiv y \<ge> 0" using y by (simp add: sdiv_nonneg_iff)
  moreover have "x < 0 \<Longrightarrow> x sdiv y \<le> 0"
    using y by (simp add: sdiv_neg pos_imp_zdiv_nonneg_iff)
  ultimately show ?thesis using x unfolding int32_def by linarith
qed

end
