(* ===== verification/SlotPool.thy ===== *)
theory SlotPool
  imports Prelude
begin

text \<open>
  The contract of the allocators that sit on a bitmap: the page allocator, the free map of disk
  sectors and the swap table. A pool hands out ranges of slots; the client keeps a list of the
  ranges it holds. The lemmas say that, as long as the client only frees what it holds, the
  ranges it holds never overlap and are exactly the used slots.
\<close>

locale slot_pool =
  fixes inv :: "'p \<Rightarrow> bool"
    and cap :: "'p \<Rightarrow> nat"
    and used :: "'p \<Rightarrow> nat set"
    and alloc :: "'p \<Rightarrow> nat \<Rightarrow> (nat \<times> 'p) option"
    and release :: "'p \<Rightarrow> nat \<Rightarrow> nat \<Rightarrow> 'p option"
  assumes alloc_range: "inv p \<Longrightarrow> alloc p n = Some (i, p') \<Longrightarrow> {i..<i + n} \<inter> used p = {} \<and> i + n \<le> cap p"
    and alloc_used: "inv p \<Longrightarrow> alloc p n = Some (i, p') \<Longrightarrow> inv p' \<and> cap p' = cap p \<and> used p' = used p \<union> {i..<i + n}"
    and alloc_complete: "inv p \<Longrightarrow> alloc p n = None \<Longrightarrow> i + n \<le> cap p \<Longrightarrow> {i..<i + n} \<inter> used p \<noteq> {}"
    and release_used: "inv p \<Longrightarrow> i + n \<le> cap p \<Longrightarrow> {i..<i + n} \<subseteq> used p \<Longrightarrow>
      \<exists>p'. release p i n = Some p' \<and> inv p' \<and> cap p' = cap p \<and> used p' = used p - {i..<i + n}"
begin

definition slots :: "nat \<times> nat \<Rightarrow> nat set" where
  "slots r = {fst r..<fst r + snd r}"

definition holds :: "'p \<Rightarrow> (nat \<times> nat) list \<Rightarrow> bool" where
  "holds p rs \<longleftrightarrow> inv p \<and> sorted_wrt (\<lambda>r s. slots r \<inter> slots s = {}) rs \<and>
     used p = (\<Union>r\<in>set rs. slots r) \<and> (\<forall>r\<in>set rs. fst r + snd r \<le> cap p)"

lemma holds_alloc: "holds p rs \<Longrightarrow> alloc p n = Some (i, p') \<Longrightarrow> holds p' ((i, n) # rs)"
proof -
  assume h: "holds p rs" and a: "alloc p n = Some (i, p')"
  have r: "slots (i, n) = {i..<i + n}" by (simp add: slots_def)
  show ?thesis
    using h alloc_range[OF _ a] alloc_used[OF _ a] unfolding holds_def r[symmetric] by auto
qed

lemma sorted_wrt_disjoint_remove:
  assumes "sorted_wrt (\<lambda>r s. slots r \<inter> slots s = {}) (as @ r # bs)"
  shows "sorted_wrt (\<lambda>r s. slots r \<inter> slots s = {}) (as @ bs)"
    "slots r \<inter> (\<Union>s\<in>set (as @ bs). slots s) = {}"
  using assms by (auto simp: sorted_wrt_append)

lemma holds_release:
  assumes "holds p (as @ (i, n) # bs)"
  shows "\<exists>p'. release p i n = Some p' \<and> holds p' (as @ bs)"
proof -
  have "inv p" "i + n \<le> cap p" "{i..<i + n} \<subseteq> used p"
    using assms by (auto simp: holds_def slots_def)
  from release_used[OF this] obtain p' where p': "release p i n = Some p'" "inv p'" "cap p' = cap p"
    "used p' = used p - slots (i, n)" by (auto simp: slots_def)
  moreover have "used p - slots (i, n) = (\<Union>s\<in>set (as @ bs). slots s)"
    using assms sorted_wrt_disjoint_remove(2)[of as "(i, n)" bs] by (auto simp: holds_def)
  ultimately have "holds p' (as @ bs)"
    using assms sorted_wrt_disjoint_remove(1)[of as "(i, n)" bs] by (auto simp: holds_def)
  with p' show ?thesis by blast
qed

text \<open>Freeing a slots makes a request of that size succeed again.\<close>

lemma release_then_alloc:
  assumes "holds p (as @ (i, n) # bs)" "release p i n = Some p'"
  shows "alloc p' n \<noteq> None"
proof -
  have *: "inv p" "i + n \<le> cap p" "{i..<i + n} \<subseteq> used p"
    using assms(1) by (auto simp: holds_def slots_def)
  from release_used[OF this] assms(2) have "inv p'" "cap p' = cap p" "{i..<i + n} \<inter> used p' = {}"
    by auto
  then show ?thesis using alloc_complete[of p' n i] *(2) by (cases "alloc p' n") auto
qed

end

end
