(* ===== verification/Bitmap.thy ===== *)
theory Bitmap
  imports SlotPool
begin

text \<open>
  \<open>lib/kernel/bitmap.c\<close>: a bitmap is an array of 32-bit elements (\<open>unsigned long\<close> on i386).
  Sizes and indices are \<open>size_t\<close>: natural numbers below \<open>2 ^ 32\<close>, with the wrap-around of the
  C additions written out. The abstraction \<open>bm_list\<close> is the list of bits; the operations are
  proved to act on that list, and \<open>bitmap_scan_and_flip\<close> to hand out fresh ranges, which is the
  contract that the page allocator, the free map and the swap table use.
\<close>

unbundle bit_operations_syntax

type_synonym elem_type = "32 word"

record bitmap =
  bit_cnt :: nat
  bits :: "elem_type list"

definition SIZE_LIMIT :: nat where
  "SIZE_LIMIT = 2 ^ 32"

definition BITMAP_ERROR :: nat where
  "BITMAP_ERROR = SIZE_LIMIT - 1"

definition ELEM_BITS :: nat where
  "ELEM_BITS = 32"

definition DIV_ROUND_UP :: "nat \<Rightarrow> nat \<Rightarrow> nat" where
  "DIV_ROUND_UP x step = ((x + step - 1) mod SIZE_LIMIT) div step"

section \<open>Operations\<close>

definition elem_idx :: "nat \<Rightarrow> nat" where
  "elem_idx bit_idx = bit_idx div ELEM_BITS"

definition bit_mask :: "nat \<Rightarrow> elem_type" where
  "bit_mask bit_idx = push_bit (bit_idx mod ELEM_BITS) 1"

definition elem_cnt :: "nat \<Rightarrow> nat" where
  "elem_cnt n = DIV_ROUND_UP n ELEM_BITS"

definition byte_cnt :: "nat \<Rightarrow> nat" where
  "byte_cnt n = 4 * elem_cnt n"

definition last_mask :: "bitmap \<Rightarrow> elem_type" where
  "last_mask b = (let last_bits = bit_cnt b mod ELEM_BITS
     in if last_bits \<noteq> 0 then push_bit last_bits 1 - 1 else - 1)"

definition bitmap_size :: "bitmap \<Rightarrow> nat" where
  "bitmap_size b = bit_cnt b"

definition upd_elem :: "bitmap \<Rightarrow> nat \<Rightarrow> (elem_type \<Rightarrow> elem_type) \<Rightarrow> bitmap" where
  "upd_elem b i f = b\<lparr>bits := (bits b)[i := f (bits b ! i)]\<rparr>"

definition bitmap_mark :: "bitmap \<Rightarrow> nat \<Rightarrow> bitmap" where
  "bitmap_mark b bit_idx = upd_elem b (elem_idx bit_idx) (\<lambda>e. e OR bit_mask bit_idx)"

definition bitmap_reset :: "bitmap \<Rightarrow> nat \<Rightarrow> bitmap" where
  "bitmap_reset b bit_idx = upd_elem b (elem_idx bit_idx) (\<lambda>e. e AND NOT (bit_mask bit_idx))"

definition bitmap_flip :: "bitmap \<Rightarrow> nat \<Rightarrow> bitmap" where
  "bitmap_flip b bit_idx = upd_elem b (elem_idx bit_idx) (\<lambda>e. e XOR bit_mask bit_idx)"

definition bitmap_set :: "bitmap \<Rightarrow> nat \<Rightarrow> bool \<Rightarrow> bitmap option" where
  "bitmap_set b idx value = do {
     ASSERT (idx < bit_cnt b);
     Some (if value then bitmap_mark b idx else bitmap_reset b idx) }"

definition bitmap_test :: "bitmap \<Rightarrow> nat \<Rightarrow> bool option" where
  "bitmap_test b idx = do {
     ASSERT (idx < bit_cnt b);
     Some ((bits b ! elem_idx idx) AND bit_mask idx \<noteq> 0) }"

function bitmap_set_loop :: "bitmap \<Rightarrow> nat \<Rightarrow> nat \<Rightarrow> nat \<Rightarrow> bool \<Rightarrow> bitmap option" where
  "bitmap_set_loop b start i cnt value =
     (if i < cnt then do {
        b \<leftarrow> bitmap_set b ((start + i) mod SIZE_LIMIT) value;
        bitmap_set_loop b start (Suc i) cnt value }
      else Some b)"
  by pat_completeness auto
termination
  by (relation "measure (\<lambda>(b, start, i, cnt, value). cnt - i)") auto

definition bitmap_set_multiple :: "bitmap \<Rightarrow> nat \<Rightarrow> nat \<Rightarrow> bool \<Rightarrow> bitmap option" where
  "bitmap_set_multiple b start cnt value = do {
     ASSERT (start \<le> bit_cnt b);
     ASSERT ((start + cnt) mod SIZE_LIMIT \<le> bit_cnt b);
     bitmap_set_loop b start 0 cnt value }"

definition bitmap_set_all :: "bitmap \<Rightarrow> bool \<Rightarrow> bitmap option" where
  "bitmap_set_all b value = bitmap_set_multiple b 0 (bitmap_size b) value"

function bitmap_count_loop :: "bitmap \<Rightarrow> nat \<Rightarrow> nat \<Rightarrow> nat \<Rightarrow> bool \<Rightarrow> nat \<Rightarrow> nat option" where
  "bitmap_count_loop b start i cnt value n =
     (if i < cnt then do {
        t \<leftarrow> bitmap_test b ((start + i) mod SIZE_LIMIT);
        bitmap_count_loop b start (Suc i) cnt value (if t = value then Suc n else n) }
      else Some n)"
  by pat_completeness auto
termination
  by (relation "measure (\<lambda>(b, start, i, cnt, value, n). cnt - i)") auto

definition bitmap_count :: "bitmap \<Rightarrow> nat \<Rightarrow> nat \<Rightarrow> bool \<Rightarrow> nat option" where
  "bitmap_count b start cnt value = do {
     ASSERT (start \<le> bit_cnt b);
     ASSERT ((start + cnt) mod SIZE_LIMIT \<le> bit_cnt b);
     bitmap_count_loop b start 0 cnt value 0 }"

function bitmap_contains_loop :: "bitmap \<Rightarrow> nat \<Rightarrow> nat \<Rightarrow> nat \<Rightarrow> bool \<Rightarrow> bool option" where
  "bitmap_contains_loop b start i cnt value =
     (if i < cnt then do {
        t \<leftarrow> bitmap_test b ((start + i) mod SIZE_LIMIT);
        if t = value then Some True else bitmap_contains_loop b start (Suc i) cnt value }
      else Some False)"
  by pat_completeness auto
termination
  by (relation "measure (\<lambda>(b, start, i, cnt, value). cnt - i)") auto

definition bitmap_contains :: "bitmap \<Rightarrow> nat \<Rightarrow> nat \<Rightarrow> bool \<Rightarrow> bool option" where
  "bitmap_contains b start cnt value = do {
     ASSERT (start \<le> bit_cnt b);
     ASSERT ((start + cnt) mod SIZE_LIMIT \<le> bit_cnt b);
     bitmap_contains_loop b start 0 cnt value }"

definition bitmap_any :: "bitmap \<Rightarrow> nat \<Rightarrow> nat \<Rightarrow> bool option" where
  "bitmap_any b start cnt = bitmap_contains b start cnt True"

definition bitmap_none :: "bitmap \<Rightarrow> nat \<Rightarrow> nat \<Rightarrow> bool option" where
  "bitmap_none b start cnt = map_option Not (bitmap_contains b start cnt True)"

definition bitmap_all :: "bitmap \<Rightarrow> nat \<Rightarrow> nat \<Rightarrow> bool option" where
  "bitmap_all b start cnt = map_option Not (bitmap_contains b start cnt False)"

function bitmap_scan_loop :: "bitmap \<Rightarrow> nat \<Rightarrow> nat \<Rightarrow> nat \<Rightarrow> bool \<Rightarrow> nat option" where
  "bitmap_scan_loop b i last_i cnt value =
     (if i \<le> last_i then do {
        c \<leftarrow> bitmap_contains b i cnt (\<not> value);
        if \<not> c then Some i else bitmap_scan_loop b (Suc i) last_i cnt value }
      else Some BITMAP_ERROR)"
  by pat_completeness auto
termination
  by (relation "measure (\<lambda>(b, i, last_i, cnt, value). Suc last_i - i)") auto

definition bitmap_scan :: "bitmap \<Rightarrow> nat \<Rightarrow> nat \<Rightarrow> bool \<Rightarrow> nat option" where
  "bitmap_scan b start cnt value = do {
     ASSERT (start \<le> bit_cnt b);
     if cnt \<le> bit_cnt b then bitmap_scan_loop b start (bit_cnt b - cnt) cnt value
     else Some BITMAP_ERROR }"

definition bitmap_scan_and_flip :: "bitmap \<Rightarrow> nat \<Rightarrow> nat \<Rightarrow> bool \<Rightarrow> (nat \<times> bitmap) option" where
  "bitmap_scan_and_flip b start cnt value = do {
     idx \<leftarrow> bitmap_scan b start cnt value;
     if idx \<noteq> BITMAP_ERROR then do {
       b \<leftarrow> bitmap_set_multiple b idx cnt (\<not> value);
       Some (idx, b) }
     else Some (idx, b) }"

text \<open>
  Creation: the two \<open>malloc\<close> results are arguments (whether the struct was allocated, and the
  initial contents of the element array if it was). The inner \<^const>\<open>None\<close> is the null pointer.
\<close>

definition bitmap_create :: "bool \<Rightarrow> elem_type list option \<Rightarrow> nat \<Rightarrow> bitmap option option" where
  "bitmap_create got_struct got_bits n =
     (if got_struct then
        (if got_bits \<noteq> None \<or> n = 0 then do {
           b \<leftarrow> bitmap_set_all \<lparr>bit_cnt = n, bits = (case got_bits of Some es \<Rightarrow> es | None \<Rightarrow> [])\<rparr> False;
           Some (Some b) }
         else Some None)
      else Some None)"

definition bitmap_buf_size :: "nat \<Rightarrow> nat" where
  "bitmap_buf_size n = 8 + byte_cnt n"

definition bitmap_create_in_buf :: "nat \<Rightarrow> elem_type list \<Rightarrow> nat \<Rightarrow> bitmap option" where
  "bitmap_create_in_buf n block block_size = do {
     ASSERT (block_size \<ge> bitmap_buf_size n);
     bitmap_set_all \<lparr>bit_cnt = n, bits = block\<rparr> False }"

definition bitmap_file_size :: "bitmap \<Rightarrow> nat" where
  "bitmap_file_size b = byte_cnt (bit_cnt b)"

text \<open>\<open>file_read_at\<close> gives the elements it stored in the buffer and the number of bytes read.\<close>

definition bitmap_read :: "bitmap \<Rightarrow> (nat \<Rightarrow> elem_type list \<times> nat) \<Rightarrow> bool \<times> bitmap" where
  "bitmap_read b file_read_at =
     (if bit_cnt b > 0 then
        (let size = byte_cnt (bit_cnt b); (es, n) = file_read_at size;
             b = b\<lparr>bits := es\<rparr>
         in (n = size, upd_elem b (elem_cnt (bit_cnt b) - 1) (\<lambda>e. e AND last_mask b)))
      else (True, b))"

definition bitmap_write :: "bitmap \<Rightarrow> (elem_type list \<Rightarrow> nat \<Rightarrow> nat) \<Rightarrow> bool" where
  "bitmap_write b file_write_at =
     (let size = byte_cnt (bit_cnt b) in file_write_at (bits b) size = size)"

declare bitmap_set_loop.simps [simp del] bitmap_count_loop.simps [simp del]
  bitmap_contains_loop.simps [simp del] bitmap_scan_loop.simps [simp del]

section \<open>The list of bits\<close>

definition bm_bit :: "bitmap \<Rightarrow> nat \<Rightarrow> bool" where
  "bm_bit b i = bit (bits b ! (i div 32)) (i mod 32)"

definition bm_list :: "bitmap \<Rightarrow> bool list" where
  "bm_list b = map (bm_bit b) [0..<bit_cnt b]"

definition bm_wf :: "bitmap \<Rightarrow> bool" where
  "bm_wf b \<longleftrightarrow> bit_cnt b \<le> SIZE_LIMIT - 32 \<and> length (bits b) \<ge> elem_cnt (bit_cnt b)"

lemma length_bm_list [simp]: "length (bm_list b) = bit_cnt b"
  by (simp add: bm_list_def)

lemma bm_list_nth [simp]: "i < bit_cnt b \<Longrightarrow> bm_list b ! i = bm_bit b i"
  by (simp add: bm_list_def)

lemma bit_bit_mask: "bit (bit_mask i) n \<longleftrightarrow> n = i mod 32"
  by (auto simp: bit_mask_def ELEM_BITS_def bit_exp_iff)

lemma bit_word_and_bit_mask: "e AND bit_mask i \<noteq> 0 \<longleftrightarrow> bit e (i mod 32)" for e :: elem_type
proof -
  have "e AND bit_mask i = 0 \<longleftrightarrow> (\<forall>n. \<not> bit (e AND bit_mask i) n)"
    by (metis bit_0_eq bit_eqI bot_apply bot_bool_def)
  then show ?thesis by (simp add: bit_and_iff bit_bit_mask)
qed

lemma elem_idx_bound: "bm_wf b \<Longrightarrow> i < bit_cnt b \<Longrightarrow> i div 32 < length (bits b)"
  by (auto simp: bm_wf_def elem_cnt_def DIV_ROUND_UP_def ELEM_BITS_def SIZE_LIMIT_def)

lemma upd_elem_simps [simp]:
  "bit_cnt (upd_elem b i f) = bit_cnt b" "length (bits (upd_elem b i f)) = length (bits b)"
  "bm_wf (upd_elem b i f) = bm_wf b"
  by (simp_all add: upd_elem_def bm_wf_def)

lemma bm_bit_upd:
  assumes "bm_wf b" "i < bit_cnt b"
  shows "bm_bit (upd_elem b (i div 32) f) j =
    (if j div 32 = i div 32 then bit (f (bits b ! (i div 32))) (j mod 32) else bm_bit b j)"
  using elem_idx_bound[OF assms] by (auto simp: bm_bit_def upd_elem_def)

lemma div_mod_eq: "(i::nat) div 32 = j div 32 \<Longrightarrow> i mod 32 = j mod 32 \<longleftrightarrow> i = j"
  by (metis div_mult_mod_eq)

lemma bm_bit_ops:
  assumes "bm_wf b" "i < bit_cnt b"
  shows "bm_bit (bitmap_mark b i) j = (j = i \<or> bm_bit b j)"
    "bm_bit (bitmap_reset b i) j = (j \<noteq> i \<and> bm_bit b j)"
    "bm_bit (bitmap_flip b i) j = (bm_bit b j \<noteq> (j = i))"
  using bm_bit_upd[OF assms, of _ j] div_mod_eq[of j i]
  by (auto simp: bitmap_mark_def bitmap_reset_def bitmap_flip_def elem_idx_def ELEM_BITS_def
      bit_simps bit_bit_mask bm_bit_def)

lemma bitmap_test_bit: "bm_wf b \<Longrightarrow> i < bit_cnt b \<Longrightarrow> bitmap_test b i = Some (bm_bit b i)"
  using bit_word_and_bit_mask[of "bits b ! (i div 32)" i]
  by (simp add: bitmap_test_def bm_bit_def elem_idx_def ELEM_BITS_def)

section \<open>Ranges of bits\<close>

text \<open>\<open>b'\<close> is \<open>b\<close> with the bits in \<open>S\<close> set to \<open>v\<close>.\<close>

definition bm_upd :: "bitmap \<Rightarrow> nat set \<Rightarrow> bool \<Rightarrow> bitmap \<Rightarrow> bool" where
  "bm_upd b S v b' \<longleftrightarrow> bm_wf b' \<and> bit_cnt b' = bit_cnt b \<and> length (bits b') = length (bits b) \<and>
     (\<forall>j. bm_bit b' j = (if j \<in> S then v else bm_bit b j))"

definition all_bits :: "bitmap \<Rightarrow> nat \<Rightarrow> nat \<Rightarrow> bool \<Rightarrow> bool" where
  "all_bits b i cnt v \<longleftrightarrow> (\<forall>k\<in>{i..<i + cnt}. bm_bit b k = v)"

lemma bm_upd_refl: "bm_wf b \<Longrightarrow> bm_upd b {} v b"
  by (simp add: bm_upd_def)

lemma bm_upd_trans: "bm_upd b S v b' \<Longrightarrow> bm_upd b' T v b'' \<Longrightarrow> bm_upd b (S \<union> T) v b''"
  by (auto simp: bm_upd_def)

lemma bitmap_set_upd:
  "bm_wf b \<Longrightarrow> i < bit_cnt b \<Longrightarrow> \<exists>b'. bitmap_set b i v = Some b' \<and> bm_upd b {i} v b'"
  using bm_bit_ops[of b i]
  by (auto simp: bitmap_set_def bm_upd_def bitmap_mark_def bitmap_reset_def)

lemma bm_wf_mod: "bm_wf b \<Longrightarrow> i \<le> bit_cnt b \<Longrightarrow> i mod SIZE_LIMIT = i"
  by (simp add: bm_wf_def SIZE_LIMIT_def)

lemma bitmap_set_loop_upd:
  "bm_wf b \<Longrightarrow> start + cnt \<le> bit_cnt b \<Longrightarrow> i \<le> cnt \<Longrightarrow>
   \<exists>b'. bitmap_set_loop b start i cnt v = Some b' \<and> bm_upd b {start + i..<start + cnt} v b'"
proof (induction "cnt - i" arbitrary: b i)
  case 0
  then show ?case by (subst bitmap_set_loop.simps) (simp add: bm_upd_refl)
next
  case (Suc k)
  obtain b1 where b1: "bitmap_set b (start + i) v = Some b1" "bm_upd b {start + i} v b1"
  proof -
    have "start + i < bit_cnt b" using Suc(2-) by arith
    from bitmap_set_upd[OF Suc(3) this] that show thesis by blast
  qed
  obtain b' where b': "bitmap_set_loop b1 start (Suc i) cnt v = Some b'"
    "bm_upd b1 {start + Suc i..<start + cnt} v b'"
  proof -
    have "k = cnt - Suc i" "Suc i \<le> cnt" "bm_wf b1" "start + cnt \<le> bit_cnt b1"
      using Suc(2-) b1(2) by (auto simp: bm_upd_def)
    with Suc(1)[of "Suc i" b1] that show thesis by auto
  qed
  have "{start + i} \<union> {start + Suc i..<start + cnt} = {start + i..<start + cnt}" using Suc(2) by auto
  with bm_upd_trans[OF b1(2) b'(2)] have "bm_upd b {start + i..<start + cnt} v b'" by simp
  moreover have "i < cnt" using Suc(2) by arith
  ultimately show ?case
    using Suc b1 b' bm_wf_mod[of b "start + i"] by (subst bitmap_set_loop.simps) simp
qed

lemma bitmap_set_loop_overrun:
  "bm_wf b \<Longrightarrow> start \<le> bit_cnt b \<Longrightarrow> start + i \<le> bit_cnt b \<Longrightarrow> bit_cnt b < start + cnt \<Longrightarrow>
   bitmap_set_loop b start i cnt v = None"
proof (induction "bit_cnt b - (start + i)" arbitrary: b i)
  case 0
  then show ?case using bm_wf_mod[of b "start + i"]
    by (subst bitmap_set_loop.simps) (simp add: bitmap_set_def)
next
  case (Suc k)
  obtain b1 where b1: "bitmap_set b (start + i) v = Some b1" "bm_upd b {start + i} v b1"
  proof -
    have "start + i < bit_cnt b" using Suc(2-) by arith
    from bitmap_set_upd[OF Suc(3) this] that show thesis by blast
  qed
  then have "bitmap_set_loop b1 start (Suc i) cnt v = None"
    using Suc(1)[of b1 "Suc i"] Suc(2-) by (auto simp: bm_upd_def)
  then show ?case
    using Suc b1 bm_wf_mod[of b "start + i"] by (subst bitmap_set_loop.simps) simp
qed

lemma bitmap_set_multiple_upd:
  assumes "bm_wf b" "start + cnt \<le> bit_cnt b"
  shows "\<exists>b'. bitmap_set_multiple b start cnt v = Some b' \<and> bm_upd b {start..<start + cnt} v b'"
  using bitmap_set_loop_upd[of b start cnt 0 v] assms bm_wf_mod[OF assms]
  by (auto simp: bitmap_set_multiple_def)

text \<open>
  The check \<open>start + cnt <= bit_cnt\<close> is in wrapping arithmetic, so a huge \<open>cnt\<close> passes it; the
  loop's own bounds check still stops the kernel.
\<close>

lemma bitmap_set_multiple_panics:
  assumes "bm_wf b" "bit_cnt b < start + cnt"
  shows "bitmap_set_multiple b start cnt v = None"
  using bitmap_set_loop_overrun[of b start 0 cnt v] assms by (auto simp: bitmap_set_multiple_def)

lemma bitmap_contains_loop_eq:
  "bm_wf b \<Longrightarrow> start + cnt \<le> bit_cnt b \<Longrightarrow> i \<le> cnt \<Longrightarrow>
   bitmap_contains_loop b start i cnt v = Some (\<exists>k\<in>{start + i..<start + cnt}. bm_bit b k = v)"
proof (induction "cnt - i" arbitrary: i)
  case 0
  then show ?case by (subst bitmap_contains_loop.simps) simp
next
  case (Suc n)
  have e: "{start + i..<start + cnt} = insert (start + i) {start + Suc i..<start + cnt}"
    using Suc(2) by auto
  have i: "i < cnt" using Suc(2) by arith
  show ?case
    using Suc i bm_wf_mod[of b "start + i"]
    by (subst bitmap_contains_loop.simps) (simp add: bitmap_test_bit e)
qed

lemma bitmap_contains_eq:
  assumes "bm_wf b" "start + cnt \<le> bit_cnt b"
  shows "bitmap_contains b start cnt v = Some (\<exists>k\<in>{start..<start + cnt}. bm_bit b k = v)"
  using bitmap_contains_loop_eq[of b start cnt 0 v] assms bm_wf_mod[OF assms]
  by (simp add: bitmap_contains_def)

lemma bitmap_all_eq:
  assumes "bm_wf b" "start + cnt \<le> bit_cnt b"
  shows "bitmap_all b start cnt = Some (all_bits b start cnt True)"
    "bitmap_none b start cnt = Some (all_bits b start cnt False)"
    "bitmap_any b start cnt = Some (\<not> all_bits b start cnt False)"
  using assms by (auto simp: bitmap_all_def bitmap_none_def bitmap_any_def bitmap_contains_eq all_bits_def)

lemma bitmap_count_loop_eq:
  "bm_wf b \<Longrightarrow> start + cnt \<le> bit_cnt b \<Longrightarrow> i \<le> cnt \<Longrightarrow>
   bitmap_count_loop b start i cnt v n =
     Some (n + card {k\<in>{start + i..<start + cnt}. bm_bit b k = v})"
proof (induction "cnt - i" arbitrary: i n)
  case 0
  then show ?case by (subst bitmap_count_loop.simps) simp
next
  case (Suc m)
  have e: "{k \<in> {start + i..<start + cnt}. bm_bit b k = v} =
     (if bm_bit b (start + i) = v then insert (start + i) else id)
       {k \<in> {start + Suc i..<start + cnt}. bm_bit b k = v}"
    using Suc(2) by (auto simp: le_less Suc_le_eq)
  have i: "i < cnt" using Suc(2) by arith
  show ?case
    unfolding e using Suc i bm_wf_mod[of b "start + i"]
    by (subst bitmap_count_loop.simps) (simp add: bitmap_test_bit)
qed

lemma bitmap_count_eq:
  assumes "bm_wf b" "start + cnt \<le> bit_cnt b"
  shows "bitmap_count b start cnt v = Some (card {k\<in>{start..<start + cnt}. bm_bit b k = v})"
  using bitmap_count_loop_eq[of b start cnt 0 v 0] assms bm_wf_mod[OF assms]
  by (simp add: bitmap_count_def)

lemma bitmap_scan_loop_found:
  assumes "bm_wf b" "last_i + cnt \<le> bit_cnt b" "i \<le> r" "r \<le> last_i" "all_bits b r cnt v"
    "\<forall>j\<in>{i..<r}. \<not> all_bits b j cnt v"
  shows "bitmap_scan_loop b i last_i cnt v = Some r"
  using assms(3,6)
proof (induction "r - i" arbitrary: i)
  case 0
  then have "bitmap_contains b r cnt (\<not> v) = Some False"
    using assms by (subst bitmap_contains_eq) (auto simp: all_bits_def)
  then show ?case using 0 assms by (subst bitmap_scan_loop.simps) simp
next
  case (Suc k)
  then have "\<not> all_bits b i cnt v" by auto
  then have "bitmap_contains b i cnt (\<not> v) = Some True"
    using assms Suc(2) by (subst bitmap_contains_eq) (auto simp: all_bits_def)
  moreover have "bitmap_scan_loop b (Suc i) last_i cnt v = Some r"
    using Suc by (intro Suc(1)) auto
  ultimately show ?case using Suc assms by (subst bitmap_scan_loop.simps) simp
qed

lemma bitmap_scan_loop_error:
  assumes "bm_wf b" "last_i + cnt \<le> bit_cnt b"
  shows "\<forall>j\<in>{i..last_i}. \<not> all_bits b j cnt v \<Longrightarrow> bitmap_scan_loop b i last_i cnt v = Some BITMAP_ERROR"
proof (induction "Suc last_i - i" arbitrary: i)
  case 0
  then show ?case by (subst bitmap_scan_loop.simps) simp
next
  case (Suc k)
  then have "\<not> all_bits b i cnt v" by auto
  then have "bitmap_contains b i cnt (\<not> v) = Some True"
    using assms Suc(2) by (subst bitmap_contains_eq) (auto simp: all_bits_def)
  moreover have "bitmap_scan_loop b (Suc i) last_i cnt v = Some BITMAP_ERROR"
    using Suc by (intro Suc(1)) auto
  ultimately show ?case using Suc assms by (subst bitmap_scan_loop.simps) simp
qed

lemma bitmap_scan_spec:
  assumes wf: "bm_wf b" and st: "start \<le> bit_cnt b"
  shows "\<exists>r. bitmap_scan b start cnt v = Some r \<and>
    (r \<noteq> BITMAP_ERROR \<longrightarrow> start \<le> r \<and> r + cnt \<le> bit_cnt b \<and> all_bits b r cnt v \<and>
       (\<forall>j\<in>{start..<r}. \<not> all_bits b j cnt v)) \<and>
    (r = BITMAP_ERROR \<longrightarrow> (\<forall>j\<ge>start. j + cnt \<le> bit_cnt b \<longrightarrow> \<not> all_bits b j cnt v))"
proof (cases "\<exists>j. start \<le> j \<and> j + cnt \<le> bit_cnt b \<and> all_bits b j cnt v")
  case True
  define r where "r = (LEAST j. start \<le> j \<and> j + cnt \<le> bit_cnt b \<and> all_bits b j cnt v)"
  have r: "start \<le> r" "r + cnt \<le> bit_cnt b" "all_bits b r cnt v"
    using LeastI_ex[OF True] unfolding r_def by auto
  have nb: "\<forall>j\<in>{start..<r}. \<not> all_bits b j cnt v"
    using r(2) not_less_Least[of _ "\<lambda>j. start \<le> j \<and> j + cnt \<le> bit_cnt b \<and> all_bits b j cnt v"]
    unfolding r_def[symmetric] by fastforce
  have "bitmap_scan_loop b start (bit_cnt b - cnt) cnt v = Some r"
    using wf r nb by (intro bitmap_scan_loop_found) auto
  then have "bitmap_scan b start cnt v = Some r" using st r by (simp add: bitmap_scan_def)
  moreover have "r \<noteq> BITMAP_ERROR"
    using wf r by (simp add: bm_wf_def BITMAP_ERROR_def SIZE_LIMIT_def)
  ultimately show ?thesis using r nb by blast
next
  case False
  have "bitmap_scan b start cnt v = Some BITMAP_ERROR"
  proof (cases "cnt \<le> bit_cnt b")
    case True
    have "bitmap_scan_loop b start (bit_cnt b - cnt) cnt v = Some BITMAP_ERROR"
      using wf True False by (intro bitmap_scan_loop_error) auto
    then show ?thesis using st True by (simp add: bitmap_scan_def)
  qed (use st in \<open>simp add: bitmap_scan_def\<close>)
  then show ?thesis using False by blast
qed

lemma bitmap_scan_zero:
  "bm_wf b \<Longrightarrow> start \<le> bit_cnt b \<Longrightarrow> bitmap_scan b start 0 v = Some start"
  by (auto simp: bitmap_scan_def intro!: bitmap_scan_loop_found simp: all_bits_def)

lemma bitmap_scan_and_flip_found:
  assumes "bm_wf b" "start \<le> bit_cnt b" "bitmap_scan_and_flip b start cnt v = Some (r, b')" "r \<noteq> BITMAP_ERROR"
  shows "start \<le> r" "r + cnt \<le> bit_cnt b" "all_bits b r cnt v" "bm_upd b {r..<r + cnt} (\<not> v) b'"
proof -
  obtain r' where sc: "bitmap_scan b start cnt v = Some r'" by (metis bitmap_scan_spec assms(1,2))
  have r': "r' = r" "bitmap_set_multiple b r cnt (\<not> v) = Some b'"
    using assms(3,4) sc by (auto simp: bitmap_scan_and_flip_def bind_Some_iff split: if_splits)
  from bitmap_scan_spec[OF assms(1,2), of cnt v] sc r'(1) assms(4)
  show r: "start \<le> r" "r + cnt \<le> bit_cnt b" "all_bits b r cnt v" by auto
  from bitmap_set_multiple_upd[OF assms(1) r(2), of "\<not> v"] r'(2)
  show "bm_upd b {r..<r + cnt} (\<not> v) b'" by auto
qed

lemma bitmap_scan_and_flip_returns:
  assumes "bm_wf b" "start \<le> bit_cnt b"
  shows "\<exists>r b'. bitmap_scan_and_flip b start cnt v = Some (r, b')"
proof -
  obtain r where r: "bitmap_scan b start cnt v = Some r"
    "r \<noteq> BITMAP_ERROR \<longrightarrow> r + cnt \<le> bit_cnt b"
    using bitmap_scan_spec[OF assms] by blast
  then show ?thesis using bitmap_set_multiple_upd[OF assms(1), of r cnt "\<not> v"]
    by (auto simp: bitmap_scan_and_flip_def)
qed

lemma bitmap_scan_and_flip_none:
  assumes "bm_wf b" "start \<le> bit_cnt b" "bitmap_scan_and_flip b start cnt v = Some (BITMAP_ERROR, b')"
  shows "b' = b" "j \<ge> start \<Longrightarrow> j + cnt \<le> bit_cnt b \<Longrightarrow> \<not> all_bits b j cnt v"
proof -
  obtain r' where sc: "bitmap_scan b start cnt v = Some r'" by (metis bitmap_scan_spec assms(1,2))
  have "r' = BITMAP_ERROR" using assms(3) sc
    by (auto simp: bitmap_scan_and_flip_def bind_Some_iff split: if_splits)
  with sc assms show "b' = b" "j \<ge> start \<Longrightarrow> j + cnt \<le> bit_cnt b \<Longrightarrow> \<not> all_bits b j cnt v"
    using bitmap_scan_spec[OF assms(1,2), of cnt v] by (auto simp: bitmap_scan_and_flip_def)
qed

section \<open>The bitmap as a pool of slots\<close>

definition bm_used :: "bitmap \<Rightarrow> nat set" where
  "bm_used b = {i. i < bit_cnt b \<and> bm_bit b i}"

definition bm_alloc :: "bitmap \<Rightarrow> nat \<Rightarrow> (nat \<times> bitmap) option" where
  "bm_alloc b n = (case bitmap_scan_and_flip b 0 n False of
     Some (r, b') \<Rightarrow> if r \<noteq> BITMAP_ERROR then Some (r, b') else None | None \<Rightarrow> None)"

definition bm_release :: "bitmap \<Rightarrow> nat \<Rightarrow> nat \<Rightarrow> bitmap option" where
  "bm_release b i n = bitmap_set_multiple b i n False"

interpretation bm: slot_pool bm_wf bit_cnt bm_used bm_alloc bm_release
proof (unfold_locales, goal_cases)
  case (1 p n i p')
  then have "bitmap_scan_and_flip p 0 n False = Some (i, p')" "i \<noteq> BITMAP_ERROR"
    by (auto simp: bm_alloc_def split: option.splits if_splits)
  with bitmap_scan_and_flip_found[OF 1(1) _ this] show ?case
    by (auto simp: all_bits_def bm_used_def)
next
  case (2 p n i p')
  then have "bitmap_scan_and_flip p 0 n False = Some (i, p')" "i \<noteq> BITMAP_ERROR"
    by (auto simp: bm_alloc_def split: option.splits if_splits)
  with bitmap_scan_and_flip_found[OF 2(1) _ this] show ?case
    by (auto simp: bm_upd_def bm_used_def)
next
  case (3 p n i)
  obtain r b' where r: "bitmap_scan_and_flip p 0 n False = Some (r, b')"
    using bitmap_scan_and_flip_returns[OF 3(1), of 0 n False] by auto
  with 3(2) have "r = BITMAP_ERROR" by (auto simp: bm_alloc_def split: if_splits)
  with bitmap_scan_and_flip_none(2)[OF 3(1) _ r[unfolded this], of i] 3(3) show ?case
    by (auto simp: all_bits_def bm_used_def disjoint_iff)
next
  case (4 p i n)
  then show ?case using bitmap_set_multiple_upd[OF 4(1,2), of False]
    by (auto simp: bm_release_def bm_upd_def bm_used_def)
qed

section \<open>Creation and storage\<close>

lemma bitmap_set_all_upd: "bm_wf b \<Longrightarrow> \<exists>b'. bitmap_set_all b v = Some b' \<and> bm_upd b {..<bit_cnt b} v b'"
  using bitmap_set_multiple_upd[of b 0 "bit_cnt b" v]
  by (simp add: bitmap_set_all_def bitmap_size_def atLeast0LessThan)

lemma bitmap_create_empty:
  assumes "n \<le> SIZE_LIMIT - 32" "length es = elem_cnt n"
  shows "\<exists>b. bitmap_create True (Some es) n = Some (Some b) \<and> bm_wf b \<and> bit_cnt b = n \<and> bm_used b = {}"
  using bitmap_set_all_upd[of "\<lparr>bit_cnt = n, bits = es\<rparr>" False] assms
  by (auto simp: bitmap_create_def bm_wf_def bm_upd_def bm_used_def)

lemma bit_last_mask: "bit_cnt b mod 32 \<noteq> 0 \<Longrightarrow> i < 32 \<Longrightarrow> bit (last_mask b) i \<longleftrightarrow> i < bit_cnt b mod 32"
  by (simp add: last_mask_def ELEM_BITS_def flip: mask_eq_decr_exp) (auto simp: bit_mask_iff)

end
