(* ===== verification/Bytes.thy ===== *)
theory Bytes
  imports CInt Bitmap
begin

text \<open>
  Memory as lists of bytes: \<open>memcpy\<close>, and the little-endian layout of the 32-bit members of the
  structures that are stored on disk.
\<close>

type_synonym byte = "8 word"

section \<open>Copying\<close>

text \<open>\<open>memcpy (dst + ofs, src, size of src)\<close>.\<close>

definition overlay :: "byte list \<Rightarrow> nat \<Rightarrow> byte list \<Rightarrow> byte list" where
  "overlay dst ofs src = take ofs dst @ src @ drop (ofs + length src) dst"

lemma length_overlay [simp]: "ofs + length src \<le> length dst \<Longrightarrow> length (overlay dst ofs src) = length dst"
  by (simp add: overlay_def)

lemma overlay_read: "ofs + length src \<le> length dst \<Longrightarrow> take (length src) (drop ofs (overlay dst ofs src)) = src"
  by (simp add: overlay_def)

lemma nth_overlay:
  "ofs + length src \<le> length dst \<Longrightarrow> i < length dst \<Longrightarrow>
   overlay dst ofs src ! i = (if ofs \<le> i \<and> i < ofs + length src then src ! (i - ofs) else dst ! i)"
  by (auto simp: overlay_def nth_append min_def)

section \<open>Integers in memory\<close>

definition le32 :: "nat \<Rightarrow> byte list" where
  "le32 n = [word_of_nat n, word_of_nat (n div 256), word_of_nat (n div 65536), word_of_nat (n div 16777216)]"

definition get32 :: "byte list \<Rightarrow> nat \<Rightarrow> nat" where
  "get32 bs i = unat (bs ! i) + 256 * unat (bs ! (i + 1)) + 65536 * unat (bs ! (i + 2)) +
     16777216 * unat (bs ! (i + 3))"

lemma length_le32 [simp]: "length (le32 n) = 4"
  by (simp add: le32_def)

lemma digits32: "n < 2 ^ 32 \<Longrightarrow> n mod 256 + 256 * (n div 256 mod 256) + 65536 * (n div 65536 mod 256) +
    16777216 * (n div 16777216 mod 256) = (n :: nat)"
proof -
  assume "n < 2 ^ 32"
  then have "n div 16777216 mod 256 = n div 16777216" by simp
  moreover have "n = n mod 256 + 256 * (n div 256)" "n div 256 = n div 256 mod 256 + 256 * (n div 65536)"
    "n div 65536 = n div 65536 mod 256 + 256 * (n div 16777216)"
    using mod_mult_div_eq[of n 256] mod_mult_div_eq[of "n div 256" 256] mod_mult_div_eq[of "n div 65536" 256]
    by (simp_all add: div_mult2_eq[symmetric])
  ultimately show ?thesis by linarith
qed

lemma get32_le32: "n < 2 ^ 32 \<Longrightarrow> get32 (as @ le32 n @ bs) (length as) = n"
proof -
  assume n: "n < 2 ^ 32"
  have "get32 (as @ le32 n @ bs) (length as) = n mod 256 + 256 * (n div 256 mod 256) +
      65536 * (n div 65536 mod 256) + 16777216 * (n div 16777216 mod 256)"
    by (simp add: get32_def le32_def nth_append unat_of_nat)
  also have "\<dots> = n" by (rule digits32[OF n])
  finally show ?thesis .
qed

lemma get32_bound: "get32 bs i < 2 ^ 32"
proof -
  have "unat b \<le> 255" for b :: byte
  proof -
    have "unat b < 2 ^ LENGTH(8)" by (rule unsigned_less)
    then show ?thesis by simp
  qed
  then have "unat (bs ! i) \<le> 255" "unat (bs ! (i + 1)) \<le> 255" "unat (bs ! (i + 2)) \<le> 255"
    "unat (bs ! (i + 3)) \<le> 255" by blast+
  then show ?thesis unfolding get32_def by simp
qed

text \<open>An \<open>int\<close> or \<open>off_t\<close>, in two's complement.\<close>

definition le32s :: "int \<Rightarrow> byte list" where
  "le32s x = le32 (nat (x mod 2 ^ 32))"

definition get32s :: "byte list \<Rightarrow> nat \<Rightarrow> int" where
  "get32s bs i = wrap32 (int (get32 bs i))"

lemma length_le32s [simp]: "length (le32s x) = 4"
  by (simp add: le32s_def)

lemma get32s_le32s: "int32 x \<Longrightarrow> get32s (as @ le32s x @ bs) (length as) = x"
proof -
  assume x: "int32 x"
  have m: "0 \<le> x mod 2 ^ 32" "x mod 2 ^ 32 < 2 ^ 32" by simp_all
  then have "nat (x mod 2 ^ 32) < 2 ^ 32" by (simp add: nat_less_iff)
  then have "get32 (as @ le32s x @ bs) (length as) = nat (x mod 2 ^ 32)"
    unfolding le32s_def by (rule get32_le32)
  then have "get32s (as @ le32s x @ bs) (length as) = wrap32 (x mod 2 ^ 32)"
    using m(1) by (simp only: get32s_def) simp
  also have "\<dots> = wrap32 x" by (simp add: wrap32_def mod_simps)
  finally show ?thesis using x by simp
qed

text \<open>An array of 32-bit values.\<close>

definition le32_list :: "nat list \<Rightarrow> byte list" where
  "le32_list ns = concat (map le32 ns)"

definition get32_list :: "byte list \<Rightarrow> nat \<Rightarrow> nat \<Rightarrow> nat list" where
  "get32_list bs i n = map (\<lambda>k. get32 bs (i + 4 * k)) [0..<n]"

lemma length_le32_list [simp]: "length (le32_list ns) = 4 * length ns"
  by (induction ns) (simp_all add: le32_list_def)

lemma length_get32_list [simp]: "length (get32_list bs i n) = n"
  by (simp add: get32_list_def)

lemma get32_list_le32_list:
  assumes "\<forall>n\<in>set ns. n < 2 ^ 32"
  shows "get32_list (as @ le32_list ns @ bs) (length as) (length ns) = ns"
proof (rule nth_equalityI)
  fix k assume "k < length (get32_list (as @ le32_list ns @ bs) (length as) (length ns))"
  then have k: "k < length ns" by simp
  then have s: "ns = take k ns @ ns ! k # drop (Suc k) ns" by (rule id_take_nth_drop)
  have "le32_list ns = le32_list (take k ns) @ le32 (ns ! k) @ le32_list (drop (Suc k) ns)"
    by (subst s) (simp add: le32_list_def)
  moreover have "length (as @ le32_list (take k ns)) = length as + 4 * k" using k by simp
  moreover have "ns ! k < 2 ^ 32" using assms k by simp
  ultimately have "get32 (as @ le32_list ns @ bs) (length as + 4 * k) = ns ! k"
    using get32_le32[of "ns ! k" "as @ le32_list (take k ns)" "le32_list (drop (Suc k) ns) @ bs"] by simp
  then show "get32_list (as @ le32_list ns @ bs) (length as) (length ns) ! k = ns ! k"
    using k by (simp add: get32_list_def)
qed simp

end
