(* ===== verification/Palloc.thy ===== *)
theory Palloc
  imports Bytes
begin

text \<open>
  The page allocator of project 3: \<open>threads/vaddr.h\<close> (addresses), \<open>threads/pte.h\<close> (page table
  entries) and \<open>threads/palloc.c\<close>. Addresses are 32-bit words. The RAM has two views, one by bytes
  for data pages and one by aligned words for page tables; filling a page with a byte changes
  both, and every other access of the kernel to a page uses one of them only. The lock of a pool
  is a leaf: between \<open>lock_acquire\<close> and \<open>lock_release\<close> there is one bitmap operation, which is
  here one step.
\<close>

type_synonym vaddr = "32 word"

section \<open>Virtual addresses\<close>

definition PGBITS :: nat where "PGBITS = 12"
definition PGSIZE :: nat where "PGSIZE = 2 ^ PGBITS"

definition BITMASK :: "nat \<Rightarrow> nat \<Rightarrow> 32 word" where
  "BITMASK shift cnt = push_bit shift (push_bit cnt 1 - 1)"

definition PGMASK :: "32 word" where "PGMASK = BITMASK 0 PGBITS"

definition PHYS_BASE :: vaddr where "PHYS_BASE = 0xc0000000"

definition pg_ofs :: "vaddr \<Rightarrow> 32 word" where "pg_ofs va = va AND PGMASK"
definition pg_no :: "vaddr \<Rightarrow> 32 word" where "pg_no va = drop_bit PGBITS va"
definition pg_round_up :: "vaddr \<Rightarrow> vaddr" where
  "pg_round_up va = (va + word_of_nat PGSIZE - 1) AND NOT PGMASK"
definition pg_round_down :: "vaddr \<Rightarrow> vaddr" where "pg_round_down va = va AND NOT PGMASK"

definition is_user_vaddr :: "vaddr \<Rightarrow> bool" where "is_user_vaddr va \<longleftrightarrow> va < PHYS_BASE"
definition is_kernel_vaddr :: "vaddr \<Rightarrow> bool" where "is_kernel_vaddr va \<longleftrightarrow> va \<ge> PHYS_BASE"

definition ptov :: "32 word \<Rightarrow> vaddr option" where
  "ptov paddr = do { ASSERT (paddr < PHYS_BASE); Some (paddr + PHYS_BASE) }"

definition vtop :: "vaddr \<Rightarrow> 32 word option" where
  "vtop va = do { ASSERT (is_kernel_vaddr va); Some (va - PHYS_BASE) }"

section \<open>Page table entries\<close>

definition PTSHIFT :: nat where "PTSHIFT = PGBITS"
definition PTBITS :: nat where "PTBITS = 10"
definition PTMASK :: "32 word" where "PTMASK = BITMASK PTSHIFT PTBITS"
definition PDSHIFT :: nat where "PDSHIFT = PTSHIFT + PTBITS"

definition pt_no :: "vaddr \<Rightarrow> 32 word" where "pt_no va = drop_bit PTSHIFT (va AND PTMASK)"
definition pd_no :: "vaddr \<Rightarrow> 32 word" where "pd_no va = drop_bit PDSHIFT va"

definition PTE_ADDR :: "32 word" where "PTE_ADDR = 0xfffff000"
definition PTE_P :: "32 word" where "PTE_P = 0x1"
definition PTE_W :: "32 word" where "PTE_W = 0x2"
definition PTE_U :: "32 word" where "PTE_U = 0x4"
definition PTE_A :: "32 word" where "PTE_A = 0x20"
definition PTE_D :: "32 word" where "PTE_D = 0x40"

definition pde_create :: "vaddr \<Rightarrow> 32 word option" where
  "pde_create pt = do { ASSERT (pg_ofs pt = 0); p \<leftarrow> vtop pt; Some (p OR PTE_U OR PTE_P OR PTE_W) }"

definition pde_get_pt :: "32 word \<Rightarrow> vaddr option" where
  "pde_get_pt pde = do { ASSERT (pde AND PTE_P \<noteq> 0); ptov (pde AND PTE_ADDR) }"

definition pte_create_kernel :: "vaddr \<Rightarrow> bool \<Rightarrow> 32 word option" where
  "pte_create_kernel page writable = do {
     ASSERT (pg_ofs page = 0);
     p \<leftarrow> vtop page;
     Some (p OR PTE_P OR (if writable then PTE_W else 0)) }"

definition pte_create_user :: "vaddr \<Rightarrow> bool \<Rightarrow> 32 word option" where
  "pte_create_user page writable = do { e \<leftarrow> pte_create_kernel page writable; Some (e OR PTE_U) }"

definition pte_get_page :: "32 word \<Rightarrow> vaddr option" where
  "pte_get_page pte = ptov (pte AND PTE_ADDR)"

section \<open>The two pools\<close>

record pool =
  used_map :: bitmap
  pool_base :: vaddr

record ram =
  kernel_pool :: pool
  user_pool :: pool
  init_ram_pages :: nat
  ram_bytes :: "vaddr \<Rightarrow> byte"
  ram_words :: "vaddr \<Rightarrow> 32 word"

definition PAL_ASSERT :: "32 word" where "PAL_ASSERT = 1"
definition PAL_ZERO :: "32 word" where "PAL_ZERO = 2"
definition PAL_USER :: "32 word" where "PAL_USER = 4"

text \<open>The \<open>n\<close> bytes from \<open>a\<close>, storing bytes there, and filling \<open>n\<close> bytes with one byte.\<close>

definition peek :: "'a ram_scheme \<Rightarrow> vaddr \<Rightarrow> nat \<Rightarrow> byte list" where
  "peek st a n = map (\<lambda>i. ram_bytes st (a + word_of_nat i)) [0..<n]"

definition poke :: "vaddr \<Rightarrow> byte list \<Rightarrow> 'a ram_scheme \<Rightarrow> 'a ram_scheme" where
  "poke a bs st = st\<lparr>ram_bytes := (\<lambda>x. if unat (x - a) < length bs then bs ! unat (x - a) else ram_bytes st x)\<rparr>"

definition fill :: "vaddr \<Rightarrow> byte \<Rightarrow> nat \<Rightarrow> 'a ram_scheme \<Rightarrow> 'a ram_scheme" where
  "fill a c n st = st\<lparr>
     ram_bytes := (\<lambda>x. if unat (x - a) < n then c else ram_bytes st x),
     ram_words := (\<lambda>x. if unat (x - a) < n then 0x01010101 * ucast c else ram_words st x)\<rparr>"

text \<open>\<open>buffer\<close> stands for the words that lie at the base of the pool and become the bitmap.\<close>

definition init_pool :: "vaddr \<Rightarrow> nat \<Rightarrow> elem_type list \<Rightarrow> pool option" where
  "init_pool base page_cnt buffer = do {
     let bm_pages = DIV_ROUND_UP (bitmap_buf_size page_cnt) PGSIZE;
     ASSERT (\<not> bm_pages > page_cnt);
     let page_cnt = page_cnt - bm_pages;
     b \<leftarrow> bitmap_create_in_buf page_cnt buffer (bm_pages * PGSIZE);
     Some \<lparr>used_map = b, pool_base = base + word_of_nat (bm_pages * PGSIZE)\<rparr> }"

definition palloc_init :: "nat \<Rightarrow> (vaddr \<Rightarrow> elem_type list) \<Rightarrow> 'a ram_scheme \<Rightarrow> 'a ram_scheme option" where
  "palloc_init user_page_limit buffer st = do {
     free_start \<leftarrow> ptov (1024 * 1024);
     free_end \<leftarrow> ptov (word_of_nat (init_ram_pages st * PGSIZE));
     let free_pages = unat (word_of_int (sint (free_end - free_start) sdiv int PGSIZE) :: 32 word);
     let user_pages = free_pages div 2;
     let user_pages = (if user_pages > user_page_limit then user_page_limit else user_pages);
     let kernel_pages = free_pages - user_pages;
     kp \<leftarrow> init_pool free_start kernel_pages (buffer free_start);
     let user_start = free_start + word_of_nat (kernel_pages * PGSIZE);
     up \<leftarrow> init_pool user_start user_pages (buffer user_start);
     Some (st\<lparr>kernel_pool := kp, user_pool := up\<rparr>) }"

definition flag_pool :: "32 word \<Rightarrow> 'a ram_scheme \<Rightarrow> pool" where
  "flag_pool flags st = (if flags AND PAL_USER \<noteq> 0 then user_pool st else kernel_pool st)"

definition set_pool :: "bool \<Rightarrow> bitmap \<Rightarrow> 'a ram_scheme \<Rightarrow> 'a ram_scheme" where
  "set_pool user b st = (if user then st\<lparr>user_pool := (user_pool st)\<lparr>used_map := b\<rparr>\<rparr>
     else st\<lparr>kernel_pool := (kernel_pool st)\<lparr>used_map := b\<rparr>\<rparr>)"

text \<open>The null pointer is address 0.\<close>

definition palloc_get_multiple :: "32 word \<Rightarrow> nat \<Rightarrow> 'a ram_scheme \<Rightarrow> (vaddr \<times> 'a ram_scheme) option" where
  "palloc_get_multiple flags page_cnt st =
     (if page_cnt = 0 then Some (0, st)
      else do {
        let p = flag_pool flags st;
        (page_idx, b) \<leftarrow> bitmap_scan_and_flip (used_map p) 0 page_cnt False;
        let st = set_pool (flags AND PAL_USER \<noteq> 0) b st;
        let pages = (if page_idx \<noteq> BITMAP_ERROR then pool_base p + word_of_nat (PGSIZE * page_idx) else 0);
        if pages \<noteq> 0
        then Some (pages, if flags AND PAL_ZERO \<noteq> 0 then fill pages 0 (PGSIZE * page_cnt) st else st)
        else do { ASSERT (flags AND PAL_ASSERT = 0); Some (pages, st) } })"

definition palloc_get_page :: "32 word \<Rightarrow> 'a ram_scheme \<Rightarrow> (vaddr \<times> 'a ram_scheme) option" where
  "palloc_get_page flags st = palloc_get_multiple flags 1 st"

definition page_from_pool :: "pool \<Rightarrow> vaddr \<Rightarrow> bool" where
  "page_from_pool p page = (let
     page_no = pg_no page;
     start_page = pg_no (pool_base p);
     end_page = start_page + word_of_nat (bitmap_size (used_map p))
   in page_no \<ge> start_page \<and> page_no < end_page)"

definition palloc_free_multiple :: "vaddr \<Rightarrow> nat \<Rightarrow> 'a ram_scheme \<Rightarrow> 'a ram_scheme option" where
  "palloc_free_multiple pages page_cnt st = do {
     ASSERT (pg_ofs pages = 0);
     if pages = 0 \<or> page_cnt = 0 then Some st
     else do {
       let kernel = page_from_pool (kernel_pool st) pages;
       ASSERT (kernel \<or> page_from_pool (user_pool st) pages);
       let p = (if kernel then kernel_pool st else user_pool st);
       let page_idx = unat (pg_no pages - pg_no (pool_base p));
       let st = fill pages 0xcc (PGSIZE * page_cnt) st;
       used \<leftarrow> bitmap_all (used_map p) page_idx page_cnt;
       ASSERT used;
       b \<leftarrow> bitmap_set_multiple (used_map p) page_idx page_cnt False;
       Some (set_pool (\<not> kernel) b st) } }"

definition palloc_free_page :: "vaddr \<Rightarrow> 'a ram_scheme \<Rightarrow> 'a ram_scheme option" where
  "palloc_free_page page st = palloc_free_multiple page 1 st"

section \<open>Address arithmetic\<close>

lemma unat32: "unat (w :: 32 word) < 4294967296"
proof -
  have "unat w < 2 ^ LENGTH(32)" by (rule unsigned_less)
  then show ?thesis by simp
qed

lemma PGSIZE_val: "PGSIZE = 4096"
  by (simp add: PGSIZE_def PGBITS_def)

lemma PGMASK_mask: "PGMASK = mask 12"
  by (simp add: PGMASK_def BITMASK_def PGBITS_def mask_eq_decr_exp)

lemma PTMASK_mask: "PTMASK = push_bit 12 (mask 10)"
  by (simp add: PTMASK_def BITMASK_def PGBITS_def PTSHIFT_def PTBITS_def mask_eq_decr_exp)

lemma PTE_ADDR_mask: "PTE_ADDR = NOT (mask 12)"
  by (simp add: PTE_ADDR_def mask_eq_decr_exp)

lemma unat_pg_ofs: "unat (pg_ofs va) = unat va mod PGSIZE"
  by (simp add: pg_ofs_def PGMASK_mask PGSIZE_def PGBITS_def take_bit_eq_mask[symmetric] unsigned_take_bit_eq
      take_bit_eq_mod unat_mod)

lemma unat_pg_no: "unat (pg_no va) = unat va div PGSIZE"
  by (simp add: pg_no_def PGSIZE_def PGBITS_def unsigned_drop_bit_eq take_bit_eq_mod drop_bit_eq_div unat_div)

lemma pg_split: "va = pg_round_down va + pg_ofs va"
proof -
  have "pg_round_down va OR pg_ofs va = va" "pg_round_down va AND pg_ofs va = 0"
    by (auto simp: pg_round_down_def pg_ofs_def bit_eq_iff bit_simps)
  then show ?thesis using disjunctive_add_eq_or[of "pg_round_down va" "pg_ofs va"] by simp
qed

lemma pg_round_down_ofs [simp]: "pg_ofs (pg_round_down va) = 0"
  by (simp add: pg_round_down_def pg_ofs_def and.assoc)

lemma pg_round_down_idem: "pg_ofs va = 0 \<Longrightarrow> pg_round_down va = va"
  using pg_split[of va] by simp

lemma aligned_dvd: "pg_ofs va = 0 \<longleftrightarrow> PGSIZE dvd unat va"
  using unat_pg_ofs[of va] by (metis dvd_eq_mod_eq_0 unat_eq_zero)

lemma unat_pg_round_down: "unat (pg_round_down va) = unat va - unat va mod PGSIZE"
proof -
  have "pg_round_down va = va - pg_ofs va" using pg_split[of va] by (metis add_diff_cancel_right')
  moreover have "pg_ofs va \<le> va" by (simp add: word_le_nat_alt unat_pg_ofs)
  ultimately show ?thesis by (simp add: unat_sub unat_pg_ofs)
qed

lemma unat_pd_no: "unat (pd_no va) = unat va div PGSIZE div 1024"
proof -
  have "unat (pd_no va) = unat va div 2 ^ 22"
    by (simp add: pd_no_def PDSHIFT_def PTSHIFT_def PTBITS_def PGBITS_def drop_bit_eq_div unat_div)
  then show ?thesis by (simp add: PGSIZE_val div_mult2_eq[symmetric])
qed

lemma pt_no_take: "pt_no va = take_bit 10 (drop_bit 12 va)"
  by (rule bit_eqI)
    (auto simp: pt_no_def PTSHIFT_def PGBITS_def PTMASK_mask bit_simps)

lemma unat_pt_no: "unat (pt_no va) = unat va div PGSIZE mod 1024"
  by (simp add: pt_no_take PGSIZE_val drop_bit_eq_div take_bit_eq_mod unat_div unat_mod)

lemma pt_no_bound: "unat (pt_no va) < 1024"
  by (simp add: unat_pt_no)

lemma pd_no_bound: "unat (pd_no va) < 1024"
  using unat32[of va] by (simp add: unat_pd_no PGSIZE_val div_mult2_eq[symmetric] less_mult_imp_div_less)

text \<open>An address is its directory index, its table index and its offset.\<close>

lemma same_page: "pd_no a = pd_no b \<and> pt_no a = pt_no b \<longleftrightarrow> pg_no a = pg_no b"
proof -
  have "(m div 1024 = n div 1024 \<and> m mod 1024 = n mod 1024) = (m = n)" for m n :: nat
    by (metis div_mult_mod_eq)
  then show ?thesis
    by (simp add: word_unat_eq_iff unat_pd_no unat_pt_no unat_pg_no)
qed

lemma pg_no_round_down [simp]: "pg_no (pg_round_down va) = pg_no va"
proof -
  have "m - m mod 4096 = 4096 * (m div 4096)" for m :: nat by (metis minus_mod_eq_mult_div)
  then show ?thesis by (simp add: word_unat_eq_iff unat_pg_no unat_pg_round_down PGSIZE_val)
qed

lemma pg_no_inj: "pg_ofs a = 0 \<Longrightarrow> pg_ofs b = 0 \<Longrightarrow> pg_no a = pg_no b \<longleftrightarrow> a = b"
  by (metis aligned_dvd dvd_div_mult_self unat_pg_no word_unat_eq_iff)

lemma page_user: "is_user_vaddr (pg_round_down va) = is_user_vaddr va"
proof -
  have "(m - m mod 4096 < 3221225472) = (m < (3221225472 :: nat))" for m
  proof -
    have "m - m mod 4096 = 4096 * (m div 4096)" by (metis minus_mod_eq_mult_div)
    then show ?thesis using div_less_iff_less_mult[of 4096 m 786432] by simp
  qed
  then show ?thesis by (simp add: is_user_vaddr_def PHYS_BASE_def word_less_nat_alt unat_pg_round_down PGSIZE_val)
qed

section \<open>Entries\<close>

lemmas pte_flags = PTE_P_def PTE_W_def PTE_U_def PTE_A_def PTE_D_def

lemma vtop_aligned:
  assumes "pg_ofs page = 0" "is_kernel_vaddr page"
  shows "\<exists>p. vtop page = Some p \<and> p AND PTE_ADDR = p \<and> p < PHYS_BASE \<and> p + PHYS_BASE = page"
proof -
  let ?p = "page - PHYS_BASE"
  have k: "PHYS_BASE \<le> page" using assms(2) by (simp add: is_kernel_vaddr_def)
  then have u: "unat ?p = unat page - unat PHYS_BASE" by (simp add: unat_sub)
  have "PGSIZE dvd unat ?p"
    using assms(1) unfolding u aligned_dvd by (rule dvd_diff_nat) (simp add: PGSIZE_val PHYS_BASE_def)
  then have "pg_ofs ?p = 0" by (simp add: aligned_dvd)
  from pg_round_down_idem[OF this] have "?p AND PTE_ADDR = ?p"
    by (simp add: pg_round_down_def PGMASK_mask PTE_ADDR_mask)
  moreover have "?p < PHYS_BASE"
    using unat32[of page] by (simp only: word_less_nat_alt u) (simp add: PHYS_BASE_def)
  ultimately show ?thesis using assms(2) by (simp add: vtop_def)
qed

text \<open>The low twelve bits do not touch the address part.\<close>

lemma or_flag_addr: "(e OR f) AND PTE_ADDR = (e AND PTE_ADDR)" if "f AND PTE_ADDR = 0"
  using that by (simp add: bit.conj_disj_distrib2)

lemma flag_addr [simp]:
  "PTE_P AND PTE_ADDR = 0" "PTE_W AND PTE_ADDR = 0" "PTE_U AND PTE_ADDR = 0"
  "PTE_A AND PTE_ADDR = 0" "PTE_D AND PTE_ADDR = 0"
  by (simp_all add: pte_flags PTE_ADDR_def)

lemma clear_flag: "(e AND NOT f) AND g = (e AND g)" if "f AND g = 0" for e f g :: "32 word"
proof -
  have "\<not> (bit f n \<and> bit g n)" for n using that by (metis bit_0_eq bit_and_iff bot_apply bot_bool_def)
  then show ?thesis by (auto simp: bit_eq_iff bit_simps)
qed

lemmas clear_flag_addr = clear_flag[where g = PTE_ADDR]

lemma aligned_flag: "p AND f = 0" if "p AND PTE_ADDR = p" "f AND PTE_ADDR = 0"
proof -
  have "p AND f = p AND (f AND PTE_ADDR)" using that(1) by (metis and.assoc and.commute)
  then show ?thesis using that(2) by simp
qed

lemma and_or_flags: "(a OR b) AND c = (a AND c) OR (b AND c)" for a b c :: "32 word"
  by (rule bit.conj_disj_distrib2)

lemma flag_and_flag [simp]:
  "PTE_P AND PTE_P = PTE_P" "PTE_P AND PTE_W = 0" "PTE_P AND PTE_U = 0" "PTE_P AND PTE_A = 0" "PTE_P AND PTE_D = 0"
  "PTE_W AND PTE_P = 0" "PTE_W AND PTE_W = PTE_W" "PTE_W AND PTE_U = 0" "PTE_W AND PTE_A = 0" "PTE_W AND PTE_D = 0"
  "PTE_U AND PTE_P = 0" "PTE_U AND PTE_W = 0" "PTE_U AND PTE_U = PTE_U" "PTE_U AND PTE_A = 0" "PTE_U AND PTE_D = 0"
  "PTE_A AND PTE_P = 0" "PTE_A AND PTE_W = 0" "PTE_A AND PTE_U = 0" "PTE_A AND PTE_A = PTE_A" "PTE_A AND PTE_D = 0"
  "PTE_D AND PTE_P = 0" "PTE_D AND PTE_W = 0" "PTE_D AND PTE_U = 0" "PTE_D AND PTE_A = 0" "PTE_D AND PTE_D = PTE_D"
  "PTE_P \<noteq> 0" "PTE_W \<noteq> 0" "PTE_U \<noteq> 0" "PTE_A \<noteq> 0" "PTE_D \<noteq> 0"
  by (simp_all add: pte_flags)

text \<open>What an entry made for a page says.\<close>

lemma pte_create_user_spec:
  assumes "pg_ofs page = 0" "is_kernel_vaddr page"
  shows "\<exists>e. pte_create_user page w = Some e \<and> pte_get_page e = Some page \<and> e AND PTE_P \<noteq> 0 \<and>
    (e AND PTE_W \<noteq> 0 \<longleftrightarrow> w) \<and> e AND PTE_U \<noteq> 0 \<and> e AND PTE_A = 0 \<and> e AND PTE_D = 0"
proof -
  obtain p where p: "vtop page = Some p" "p AND PTE_ADDR = p" "p < PHYS_BASE" "p + PHYS_BASE = page"
    using vtop_aligned[OF assms] by blast
  let ?e = "p OR PTE_P OR (if w then PTE_W else 0) OR PTE_U"
  have "pte_create_user page w = Some ?e"
    using assms(1) p(1) by (simp add: pte_create_user_def pte_create_kernel_def or.assoc)
  moreover have "pte_get_page ?e = Some page"
    using p by (simp add: pte_get_page_def and_or_flags ptov_def)
  ultimately show ?thesis
    using aligned_flag[OF p(2)] by (simp add: and_or_flags)
qed

lemma pde_create_spec:
  assumes "pg_ofs pt = 0" "is_kernel_vaddr pt"
  shows "\<exists>e. pde_create pt = Some e \<and> pde_get_pt e = Some pt \<and> e \<noteq> 0 \<and> e AND PTE_P \<noteq> 0"
proof -
  obtain p where p: "vtop pt = Some p" "p AND PTE_ADDR = p" "p < PHYS_BASE" "p + PHYS_BASE = pt"
    using vtop_aligned[OF assms] by blast
  let ?e = "p OR PTE_U OR PTE_P OR PTE_W"
  have P: "?e AND PTE_P \<noteq> 0" using aligned_flag[OF p(2)] by (simp add: and_or_flags)
  then have "?e \<noteq> 0" by (metis and_zero_eq and.commute)
  moreover have "pde_create pt = Some ?e" using assms(1) p(1) by (simp add: pde_create_def)
  moreover have "pde_get_pt ?e = Some pt"
    using p P by (simp add: pde_get_pt_def and_or_flags ptov_def)
  ultimately show ?thesis using P by blast
qed

section \<open>Pages of a pool\<close>

definition pool_page :: "pool \<Rightarrow> nat \<Rightarrow> vaddr" where
  "pool_page p i = pool_base p + word_of_nat (PGSIZE * i)"

definition pool_size :: "pool \<Rightarrow> nat" where "pool_size p = bit_cnt (used_map p)"

definition pool_ok :: "pool \<Rightarrow> bool" where
  "pool_ok p \<longleftrightarrow> bm_wf (used_map p) \<and> pg_ofs (pool_base p) = 0 \<and> is_kernel_vaddr (pool_base p) \<and>
     unat (pool_base p) + PGSIZE * pool_size p < 2 ^ 32"

text \<open>The user pool follows the kernel pool.\<close>

definition ram_ok :: "'a ram_scheme \<Rightarrow> bool" where
  "ram_ok st \<longleftrightarrow> pool_ok (kernel_pool st) \<and> pool_ok (user_pool st) \<and>
     unat (pool_base (kernel_pool st)) + PGSIZE * pool_size (kernel_pool st) \<le> unat (pool_base (user_pool st))"

definition pool_used :: "pool \<Rightarrow> vaddr set" where
  "pool_used p = pool_page p ` bm_used (used_map p)"

lemma unat_pool_page: "pool_ok p \<Longrightarrow> i < pool_size p \<Longrightarrow> unat (pool_page p i) = unat (pool_base p) + PGSIZE * i"
proof -
  assume p: "pool_ok p" "i < pool_size p"
  then have i: "PGSIZE * i < PGSIZE * pool_size p" by (simp add: PGSIZE_val)
  moreover have "unat (pool_base p) + PGSIZE * pool_size p < 2 ^ 32" using p(1) by (simp add: pool_ok_def)
  ultimately have "unat (pool_base p) + PGSIZE * i < 2 ^ 32" by linarith
  moreover have "pool_page p i = word_of_nat (unat (pool_base p) + PGSIZE * i)"
    by (simp add: pool_page_def)
  ultimately show ?thesis by (simp only: unat_of_nat) simp
qed

lemma pool_page_aligned: "pool_ok p \<Longrightarrow> i < pool_size p \<Longrightarrow> pg_ofs (pool_page p i) = 0"
  by (simp add: aligned_dvd unat_pool_page) (simp add: pool_ok_def aligned_dvd)

lemma pool_page_kernel: "pool_ok p \<Longrightarrow> i < pool_size p \<Longrightarrow> is_kernel_vaddr (pool_page p i)"
  by (simp add: is_kernel_vaddr_def word_le_nat_alt unat_pool_page)
    (simp add: pool_ok_def is_kernel_vaddr_def word_le_nat_alt)

lemma unat_PHYS_BASE: "unat PHYS_BASE = 3221225472"
  by (simp only: PHYS_BASE_def unat_numeral) simp

lemma kernel_nonnull: "is_kernel_vaddr a \<Longrightarrow> a \<noteq> 0"
proof
  assume "is_kernel_vaddr a" "a = 0"
  then have "unat PHYS_BASE \<le> 0" by (simp add: is_kernel_vaddr_def word_le_nat_alt)
  then show False unfolding unat_PHYS_BASE by simp
qed

lemma pool_page_nonnull: "pool_ok p \<Longrightarrow> i < pool_size p \<Longrightarrow> pool_page p i \<noteq> 0"
  using pool_page_kernel[of p i] kernel_nonnull by blast

lemma pool_page_inj: "pool_ok p \<Longrightarrow> i < pool_size p \<Longrightarrow> j < pool_size p \<Longrightarrow> pool_page p i = pool_page p j \<longleftrightarrow> i = j"
proof -
  assume p: "pool_ok p" "i < pool_size p" "j < pool_size p"
  have "i = j" if "pool_page p i = pool_page p j"
  proof -
    have "unat (pool_base p) + PGSIZE * i = unat (pool_base p) + PGSIZE * j"
      using that by (simp only: unat_pool_page[OF p(1,2), symmetric] unat_pool_page[OF p(1,3), symmetric])
    then show ?thesis by (simp add: PGSIZE_val)
  qed
  then show ?thesis by blast
qed

lemma pool_page_no: "pool_ok p \<Longrightarrow> i < pool_size p \<Longrightarrow> unat (pg_no (pool_page p i)) = unat (pg_no (pool_base p)) + i"
proof -
  assume p: "pool_ok p" "i < pool_size p"
  then have "PGSIZE dvd unat (pool_base p)" by (simp add: pool_ok_def aligned_dvd)
  then show ?thesis using p by (simp add: unat_pg_no unat_pool_page PGSIZE_val)
qed

lemma pool_end_no: "pool_ok p \<Longrightarrow> unat (pg_no (pool_base p)) + pool_size p < 2 ^ 32"
proof -
  assume "pool_ok p"
  then have "unat (pool_base p) + 4096 * pool_size p < 2 ^ 32" by (simp add: pool_ok_def PGSIZE_val)
  moreover have "unat (pool_base p) div 4096 \<le> unat (pool_base p)" by simp
  ultimately show ?thesis by (simp add: unat_pg_no PGSIZE_val)
qed

lemma page_from_pool_iff:
  assumes "pool_ok p" "pg_ofs a = 0"
  shows "page_from_pool p a \<longleftrightarrow> (\<exists>i<pool_size p. a = pool_page p i)"
proof -
  let ?b = "unat (pg_no (pool_base p))"
  have e: "unat (pg_no (pool_base p) + word_of_nat (pool_size p)) = ?b + pool_size p"
    using pool_end_no[OF assms(1)] by (simp add: unat_word_ariths unat_of_nat)
  have "page_from_pool p a \<longleftrightarrow> ?b \<le> unat (pg_no a) \<and> unat (pg_no a) < ?b + pool_size p"
    by (simp add: page_from_pool_def Let_def bitmap_size_def word_le_nat_alt word_less_nat_alt
        e[unfolded pool_size_def] pool_size_def)
  also have "\<dots> \<longleftrightarrow> (\<exists>i<pool_size p. unat (pg_no a) = ?b + i)"
    by (metis add_less_cancel_left le_add1 le_iff_add)
  also have "\<dots> \<longleftrightarrow> (\<exists>i<pool_size p. a = pool_page p i)"
  proof -
    have "unat (pg_no a) = ?b + i \<longleftrightarrow> a = pool_page p i" if "i < pool_size p" for i
      using pool_page_no[OF assms(1) that] pg_no_inj[OF assms(2) pool_page_aligned[OF assms(1) that]]
      by (metis word_unat_eq_iff)
    then show ?thesis by blast
  qed
  finally show ?thesis .
qed

lemma pool_index: "pool_ok p \<Longrightarrow> i < pool_size p \<Longrightarrow> unat (pg_no (pool_page p i) - pg_no (pool_base p)) = i"
  using pool_page_no[of p i] by (simp add: unat_sub word_le_nat_alt)

lemma pools_disjoint:
  assumes "ram_ok st" "i < pool_size (kernel_pool st)" "j < pool_size (user_pool st)"
  shows "pool_page (kernel_pool st) i \<noteq> pool_page (user_pool st) j"
proof -
  have "unat (pool_page (kernel_pool st) i) < unat (pool_page (user_pool st) j)"
    using assms by (simp add: ram_ok_def unat_pool_page PGSIZE_val)
  then show ?thesis by auto
qed

section \<open>Allocation and release\<close>

lemma flag_pool_ok: "ram_ok st \<Longrightarrow> pool_ok (flag_pool flags st)"
  by (simp add: ram_ok_def flag_pool_def)

lemma set_pool_same: "set_pool u (used_map (if u then user_pool st else kernel_pool st)) st = st"
  by (simp add: set_pool_def)

lemma set_pool_ok:
  assumes "ram_ok st" "bm_wf b" "bit_cnt b = bit_cnt (used_map (if u then user_pool st else kernel_pool st))"
  shows "ram_ok (set_pool u b st)"
  using assms by (auto simp: ram_ok_def set_pool_def pool_ok_def pool_size_def split: if_splits)

lemma fill_simps [simp]:
  "kernel_pool (fill a c n st) = kernel_pool st" "user_pool (fill a c n st) = user_pool st"
  "init_ram_pages (fill a c n st) = init_ram_pages st" "ram_ok (fill a c n st) = ram_ok st"
  "flag_pool fl (fill a c n st) = flag_pool fl st"
  by (simp_all add: fill_def ram_ok_def flag_pool_def)

lemma set_pool_simps [simp]:
  "ram_bytes (set_pool u b st) = ram_bytes st" "ram_words (set_pool u b st) = ram_words st"
  "init_ram_pages (set_pool u b st) = init_ram_pages st"
  "user_pool (set_pool True b st) = (user_pool st)\<lparr>used_map := b\<rparr>" "kernel_pool (set_pool True b st) = kernel_pool st"
  "kernel_pool (set_pool False b st) = (kernel_pool st)\<lparr>used_map := b\<rparr>" "user_pool (set_pool False b st) = user_pool st"
  by (simp_all add: set_pool_def)

lemma pool_page_upd [simp]: "pool_page (p\<lparr>used_map := b\<rparr>) i = pool_page p i"
  by (simp add: pool_page_def)

text \<open>What a successful request for \<open>n\<close> pages has done.\<close>

definition got_pages :: "32 word \<Rightarrow> nat \<Rightarrow> vaddr \<Rightarrow> 'a ram_scheme \<Rightarrow> 'a ram_scheme \<Rightarrow> bool" where
  "got_pages flags n a st st' \<longleftrightarrow> (let p = flag_pool flags st in \<exists>i b. a = pool_page p i \<and> i + n \<le> pool_size p \<and>
     {i..<i + n} \<inter> bm_used (used_map p) = {} \<and> bm_upd (used_map p) {i..<i + n} True b \<and>
     (let st1 = set_pool (flags AND PAL_USER \<noteq> 0) b st
      in st' = (if flags AND PAL_ZERO \<noteq> 0 then fill a 0 (PGSIZE * n) st1 else st1)))"

lemma palloc_get_multiple_spec:
  assumes ok: "ram_ok st" and n: "n > 0"
  shows "(\<forall>i. i + n \<le> pool_size (flag_pool flags st) \<longrightarrow> {i..<i + n} \<inter> bm_used (used_map (flag_pool flags st)) \<noteq> {}) \<and>
       palloc_get_multiple flags n st = (if flags AND PAL_ASSERT = 0 then Some (0, st) else None) \<or>
     (\<exists>a st'. palloc_get_multiple flags n st = Some (a, st') \<and> a \<noteq> 0 \<and> ram_ok st' \<and> got_pages flags n a st st')"
proof -
  define p where "p = flag_pool flags st"
  have p: "pool_ok p" using flag_pool_ok[OF ok] by (simp add: p_def)
  then have wf: "bm_wf (used_map p)" by (simp add: pool_ok_def)
  let ?u = "flags AND PAL_USER \<noteq> 0"
  have pu: "p = (if ?u then user_pool st else kernel_pool st)" by (simp add: p_def flag_pool_def)
  obtain r b where r: "bitmap_scan_and_flip (used_map p) 0 n False = Some (r, b)"
    using bitmap_scan_and_flip_returns[OF wf] by blast
  show ?thesis
  proof (cases "r = BITMAP_ERROR")
    case True
    note e = bitmap_scan_and_flip_none[OF wf _ r[unfolded True], simplified]
    have "palloc_get_multiple flags n st = (if flags AND PAL_ASSERT = 0 then Some (0, st) else None)"
      using n r True e(1) set_pool_same[of ?u st] by (simp add: palloc_get_multiple_def Let_def p_def[symmetric] pu[symmetric])
    moreover have "{i..<i + n} \<inter> bm_used (used_map p) \<noteq> {}" if "i + n \<le> pool_size p" for i
      using e(2)[of i] that by (auto simp: pool_size_def all_bits_def bm_used_def)
    ultimately show ?thesis unfolding p_def by blast
  next
    case False
    note f = bitmap_scan_and_flip_found[OF wf _ r False, simplified]
    have i: "r < pool_size p" "r + n \<le> pool_size p" using f(2) n by (auto simp: pool_size_def)
    let ?a = "pool_page p r" and ?st1 = "set_pool ?u b st"
    have a: "?a \<noteq> 0" using pool_page_nonnull[OF p i(1)] .
    have "palloc_get_multiple flags n st =
        Some (?a, if flags AND PAL_ZERO \<noteq> 0 then fill ?a 0 (PGSIZE * n) ?st1 else ?st1)"
      using n r False a by (simp add: palloc_get_multiple_def Let_def p_def[symmetric] pool_page_def)
    moreover have "ram_ok ?st1" using f(4) ok pu by (intro set_pool_ok) (auto simp: bm_upd_def)
    moreover have "{r..<r + n} \<inter> bm_used (used_map p) = {}"
      using f(3) by (auto simp: all_bits_def bm_used_def)
    ultimately show ?thesis
      using a i(2) f(4) by (auto simp: got_pages_def Let_def p_def[symmetric])
  qed
qed

lemma ram_ok_set_fill [simp]: "ram_ok (set_pool u b (fill a c n st)) = ram_ok (set_pool u b st)"
  by (cases u) (simp_all add: ram_ok_def)

definition which_pool :: "bool \<Rightarrow> 'a ram_scheme \<Rightarrow> pool" where
  "which_pool u st = (if u then user_pool st else kernel_pool st)"

lemma which_pool_simps [simp]:
  "which_pool u (fill a c n st) = which_pool u st"
  "which_pool v (set_pool u b st) = (if u = v then (which_pool v st)\<lparr>used_map := b\<rparr> else which_pool v st)"
  by (simp_all add: which_pool_def set_pool_def)

lemma flag_pool_which: "flag_pool flags st = which_pool (flags AND PAL_USER \<noteq> 0) st"
  by (simp add: flag_pool_def which_pool_def)

lemma which_pool_ok: "ram_ok st \<Longrightarrow> pool_ok (which_pool u st)"
  by (simp add: ram_ok_def which_pool_def)

lemma page_pool_index:
  assumes "ram_ok st" "i < pool_size (which_pool u st)"
  shows "page_from_pool (kernel_pool st) (pool_page (which_pool u st) i) \<longleftrightarrow> \<not> u"
    "page_from_pool (user_pool st) (pool_page (which_pool u st) i) \<longleftrightarrow> u"
proof -
  have p: "pool_ok (kernel_pool st)" "pool_ok (user_pool st)" using assms(1) by (simp_all add: ram_ok_def)
  have a: "pg_ofs (pool_page (which_pool u st) i) = 0"
    using pool_page_aligned[OF which_pool_ok[OF assms(1)] assms(2)] .
  have self: "page_from_pool (which_pool u st) (pool_page (which_pool u st) i)"
    using assms(2) page_from_pool_iff[OF which_pool_ok[OF assms(1)] a] by blast
  have other: "\<not> page_from_pool (which_pool (\<not> u) st) (pool_page (which_pool u st) i)"
  proof
    assume "page_from_pool (which_pool (\<not> u) st) (pool_page (which_pool u st) i)"
    then obtain j where j: "j < pool_size (which_pool (\<not> u) st)"
        "pool_page (which_pool u st) i = pool_page (which_pool (\<not> u) st) j"
      using page_from_pool_iff[OF which_pool_ok[OF assms(1)] a] by blast
    show False
      using pools_disjoint[OF assms(1), of i j] pools_disjoint[OF assms(1), of j i] assms(2) j
      by (cases u) (simp_all add: which_pool_def)
  qed
  show "page_from_pool (kernel_pool st) (pool_page (which_pool u st) i) \<longleftrightarrow> \<not> u"
    "page_from_pool (user_pool st) (pool_page (which_pool u st) i) \<longleftrightarrow> u"
    using self other by (cases u; simp add: which_pool_def)+
qed

lemma palloc_free_multiple_spec:
  assumes ok: "ram_ok st" and n: "n > 0" and i: "i + n \<le> pool_size (which_pool u st)"
  defines "p \<equiv> which_pool u st"
  shows "if {i..<i + n} \<subseteq> bm_used (used_map p)
    then \<exists>b. bm_upd (used_map p) {i..<i + n} False b \<and> ram_ok (set_pool u b st) \<and>
      palloc_free_multiple (pool_page p i) n st = Some (set_pool u b (fill (pool_page p i) 0xcc (PGSIZE * n) st))
    else palloc_free_multiple (pool_page p i) n st = None"
proof -
  have p: "pool_ok p" using which_pool_ok[OF ok] by (simp add: p_def)
  then have wf: "bm_wf (used_map p)" by (simp add: pool_ok_def)
  have i': "i < pool_size p" "i + n \<le> bit_cnt (used_map p)" using i n by (auto simp: p_def pool_size_def)
  note pi = page_pool_index[OF ok, of i u, folded p_def, OF i'(1)]
  have idx: "unat (pg_no (pool_page p i) - pg_no (pool_base p)) = i" using pool_index[OF p i'(1)] .
  have pp: "(if \<not> u then kernel_pool st else user_pool st) = p" by (simp add: p_def which_pool_def)
  have used: "all_bits (used_map p) i n True \<longleftrightarrow> {i..<i + n} \<subseteq> bm_used (used_map p)"
    using i'(2) by (auto simp: all_bits_def bm_used_def)
  obtain b where b: "bitmap_set_multiple (used_map p) i n False = Some b" "bm_upd (used_map p) {i..<i + n} False b"
    using bitmap_set_multiple_upd[OF wf i'(2)] by blast
  have "palloc_free_multiple (pool_page p i) n st =
      (if {i..<i + n} \<subseteq> bm_used (used_map p) then Some (set_pool u b (fill (pool_page p i) 0xcc (PGSIZE * n) st)) else None)"
    using n pool_page_aligned[OF p i'(1)] pool_page_nonnull[OF p i'(1)] pi idx b(1)
      bitmap_all_eq(1)[OF wf i'(2)]
    by (simp add: palloc_free_multiple_def Let_def used pp)
  moreover have "ram_ok (set_pool u b st)"
    using ok b(2) by (intro set_pool_ok) (auto simp: bm_upd_def p_def which_pool_def)
  ultimately show ?thesis using b(2) by auto
qed

end
