(* ===== verification/Pagedir.thy ===== *)
theory Pagedir
  imports Palloc
begin

text \<open>
  \<open>userprog/pagedir.c\<close> of project 3: two-level page tables in the words of the RAM. The register
  \<open>cr3\<close> holds the physical address of the active directory; reloading it is what flushes the
  translation buffer. A function that asks for a page gets it from the page allocator.
\<close>

record paging = ram +
  init_page_dir :: vaddr
  cr3 :: "32 word"

section \<open>Operations\<close>

definition ptr_add :: "vaddr \<Rightarrow> 32 word \<Rightarrow> vaddr" where
  "ptr_add p i = p + 4 * i"

definition set_word :: "vaddr \<Rightarrow> 32 word \<Rightarrow> 'a ram_scheme \<Rightarrow> 'a ram_scheme" where
  "set_word a w st = st\<lparr>ram_words := (ram_words st)(a := w)\<rparr>"

definition pagedir_create :: "'a paging_scheme \<Rightarrow> (vaddr \<times> 'a paging_scheme) option" where
  "pagedir_create st = do {
     (pd, st) \<leftarrow> palloc_get_page 0 st;
     if pd \<noteq> 0
     then Some (pd, st\<lparr>ram_words := (\<lambda>x. if unat (x - pd) < PGSIZE
       then ram_words st (init_page_dir st + (x - pd)) else ram_words st x)\<rparr>)
     else Some (pd, st) }"

primrec free_ptes :: "nat list \<Rightarrow> vaddr \<Rightarrow> 'a paging_scheme \<Rightarrow> 'a paging_scheme option" where
  "free_ptes [] pt st = Some st"
| "free_ptes (i # is) pt st = do {
     let pte = ram_words st (ptr_add pt (word_of_nat i));
     st \<leftarrow> (if pte AND PTE_P \<noteq> 0 then do { page \<leftarrow> pte_get_page pte; palloc_free_page page st } else Some st);
     free_ptes is pt st }"

primrec free_pdes :: "nat list \<Rightarrow> vaddr \<Rightarrow> 'a paging_scheme \<Rightarrow> 'a paging_scheme option" where
  "free_pdes [] pd st = Some st"
| "free_pdes (i # is) pd st = do {
     let pde = ram_words st (ptr_add pd (word_of_nat i));
     st \<leftarrow> (if pde AND PTE_P \<noteq> 0 then do {
         pt \<leftarrow> pde_get_pt pde;
         st \<leftarrow> free_ptes [0..<PGSIZE div 4] pt st;
         palloc_free_page pt st }
       else Some st);
     free_pdes is pd st }"

definition pagedir_destroy :: "vaddr \<Rightarrow> 'a paging_scheme \<Rightarrow> 'a paging_scheme option" where
  "pagedir_destroy pd st =
     (if pd = 0 then Some st
      else do {
        ASSERT (pd \<noteq> init_page_dir st);
        st \<leftarrow> free_pdes [0..<unat (pd_no PHYS_BASE)] pd st;
        palloc_free_page pd st })"

definition lookup_page :: "vaddr \<Rightarrow> vaddr \<Rightarrow> bool \<Rightarrow> 'a paging_scheme \<Rightarrow> (vaddr \<times> 'a paging_scheme) option" where
  "lookup_page pd va create st = do {
     ASSERT (pd \<noteq> 0);
     ASSERT (\<not> create \<or> is_user_vaddr va);
     let pde = ptr_add pd (pd_no va);
     if ram_words st pde = 0
     then (if create then do {
         (pt, st) \<leftarrow> palloc_get_page PAL_ZERO st;
         if pt = 0 then Some (0, st)
         else do {
           e \<leftarrow> pde_create pt;
           let st = set_word pde e st;
           pt \<leftarrow> pde_get_pt (ram_words st pde);
           Some (ptr_add pt (pt_no va), st) } }
       else Some (0, st))
     else do {
       pt \<leftarrow> pde_get_pt (ram_words st pde);
       Some (ptr_add pt (pt_no va), st) } }"

definition pagedir_activate :: "vaddr \<Rightarrow> 'a paging_scheme \<Rightarrow> 'a paging_scheme option" where
  "pagedir_activate pd st = do {
     let pd = (if pd = 0 then init_page_dir st else pd);
     p \<leftarrow> vtop pd;
     Some (st\<lparr>cr3 := p\<rparr>) }"

definition active_pd :: "'a paging_scheme \<Rightarrow> vaddr option" where
  "active_pd st = ptov (cr3 st)"

definition invalidate_pagedir :: "vaddr \<Rightarrow> 'a paging_scheme \<Rightarrow> 'a paging_scheme option" where
  "invalidate_pagedir pd st = do {
     a \<leftarrow> active_pd st;
     if a = pd then pagedir_activate pd st else Some st }"

definition pagedir_set_page :: "vaddr \<Rightarrow> vaddr \<Rightarrow> vaddr \<Rightarrow> bool \<Rightarrow> 'a paging_scheme \<Rightarrow> (bool \<times> 'a paging_scheme) option" where
  "pagedir_set_page pd upage kpage writable st = do {
     ASSERT (pg_ofs upage = 0);
     ASSERT (pg_ofs kpage = 0);
     ASSERT (is_user_vaddr upage);
     p \<leftarrow> vtop kpage;
     ASSERT (unat (drop_bit PTSHIFT p) < init_ram_pages st);
     ASSERT (pd \<noteq> init_page_dir st);
     (pte, st) \<leftarrow> lookup_page pd upage True st;
     if pte \<noteq> 0 then do {
       ASSERT (ram_words st pte AND PTE_P = 0);
       e \<leftarrow> pte_create_user kpage writable;
       Some (True, set_word pte e st) }
     else Some (False, st) }"

definition pagedir_get_page :: "vaddr \<Rightarrow> vaddr \<Rightarrow> 'a paging_scheme \<Rightarrow> vaddr option" where
  "pagedir_get_page pd uaddr st = do {
     ASSERT (is_user_vaddr uaddr);
     (pte, st) \<leftarrow> lookup_page pd uaddr False st;
     if pte \<noteq> 0 \<and> ram_words st pte AND PTE_P \<noteq> 0
     then do { page \<leftarrow> pte_get_page (ram_words st pte); Some (page + pg_ofs uaddr) }
     else Some 0 }"

definition pagedir_clear_page :: "vaddr \<Rightarrow> vaddr \<Rightarrow> 'a paging_scheme \<Rightarrow> 'a paging_scheme option" where
  "pagedir_clear_page pd upage st = do {
     ASSERT (pg_ofs upage = 0);
     ASSERT (is_user_vaddr upage);
     (pte, st) \<leftarrow> lookup_page pd upage False st;
     if pte \<noteq> 0 \<and> ram_words st pte AND PTE_P \<noteq> 0
     then invalidate_pagedir pd (set_word pte (ram_words st pte AND NOT PTE_P) st)
     else Some st }"

definition pagedir_is_dirty :: "vaddr \<Rightarrow> vaddr \<Rightarrow> 'a paging_scheme \<Rightarrow> bool option" where
  "pagedir_is_dirty pd vpage st = do {
     (pte, st) \<leftarrow> lookup_page pd vpage False st;
     Some (pte \<noteq> 0 \<and> ram_words st pte AND PTE_D \<noteq> 0) }"

definition pagedir_set_dirty :: "vaddr \<Rightarrow> vaddr \<Rightarrow> bool \<Rightarrow> 'a paging_scheme \<Rightarrow> 'a paging_scheme option" where
  "pagedir_set_dirty pd vpage dirty st = do {
     (pte, st) \<leftarrow> lookup_page pd vpage False st;
     if pte \<noteq> 0
     then (if dirty then Some (set_word pte (ram_words st pte OR PTE_D) st)
       else invalidate_pagedir pd (set_word pte (ram_words st pte AND NOT PTE_D) st))
     else Some st }"

definition pagedir_is_accessed :: "vaddr \<Rightarrow> vaddr \<Rightarrow> 'a paging_scheme \<Rightarrow> bool option" where
  "pagedir_is_accessed pd vpage st = do {
     (pte, st) \<leftarrow> lookup_page pd vpage False st;
     Some (pte \<noteq> 0 \<and> ram_words st pte AND PTE_A \<noteq> 0) }"

definition pagedir_set_accessed :: "vaddr \<Rightarrow> vaddr \<Rightarrow> bool \<Rightarrow> 'a paging_scheme \<Rightarrow> 'a paging_scheme option" where
  "pagedir_set_accessed pd vpage accessed st = do {
     (pte, st) \<leftarrow> lookup_page pd vpage False st;
     if pte \<noteq> 0
     then (if accessed then Some (set_word pte (ram_words st pte OR PTE_A) st)
       else invalidate_pagedir pd (set_word pte (ram_words st pte AND NOT PTE_A) st))
     else Some st }"

section \<open>Words of a page\<close>

lemma unat_ptr_add:
  assumes "pg_ofs a = 0" "unat k < 1024"
  shows "unat (ptr_add a k) = unat a + 4 * unat k"
proof -
  obtain m where m: "unat a = 4096 * m" using assms(1) by (auto simp: aligned_dvd PGSIZE_val elim: dvdE)
  then have "m < 1048576" using unat32[of a] by simp
  then have l: "unat a + 4 * unat k < 4294967296" using m assms(2) by linarith
  have "ptr_add a k = word_of_nat (unat a + 4 * unat k)" by (simp add: ptr_add_def)
  then show ?thesis using l by (simp only: unat_of_nat) simp
qed

lemma pg_no_ptr_add: "pg_ofs a = 0 \<Longrightarrow> unat k < 1024 \<Longrightarrow> pg_no (ptr_add a k) = pg_no a"
proof -
  assume a: "pg_ofs a = 0" "unat k < 1024"
  then obtain m where m: "unat a = 4096 * m" by (auto simp: aligned_dvd PGSIZE_val elim: dvdE)
  have "(4096 * m + 4 * unat k) div 4096 = m" using a(2) by (simp add: div_add1_eq)
  then show ?thesis by (simp add: word_unat_eq_iff unat_pg_no unat_ptr_add[OF a] m PGSIZE_val)
qed

lemma ptr_add_inj:
  assumes "pg_ofs a = 0" "unat k < 1024" "pg_ofs b = 0" "unat l < 1024" "ptr_add a k = ptr_add b l"
  shows "a = b \<and> k = l"
proof -
  have "pg_no a = pg_no b" using assms by (metis pg_no_ptr_add)
  then have ab: "a = b" using pg_no_inj[OF assms(1,3)] by blast
  then have "unat a + 4 * unat k = unat a + 4 * unat l"
    using unat_ptr_add[OF assms(1,2)] unat_ptr_add[OF assms(3,4)] assms(5) by simp
  then show ?thesis using ab by (simp add: word_unat_eq_iff)
qed

lemma in_page_iff:
  assumes "pg_ofs a = 0"
  shows "unat (x - a) < PGSIZE \<longleftrightarrow> pg_no x = pg_no a"
proof -
  obtain m where m: "unat a = 4096 * m" using assms by (auto simp: aligned_dvd PGSIZE_val elim: dvdE)
  show ?thesis
  proof (cases "a \<le> x")
    case True
    then have "unat (x - a) = unat x - 4096 * m" "4096 * m \<le> unat x"
      by (simp_all add: unat_sub m word_le_nat_alt)
    moreover have "n - 4096 * m < 4096 \<longleftrightarrow> n div 4096 = m" if "4096 * m \<le> n" for n
    proof -
      define r where "r = n - 4096 * m"
      have n: "n = 4096 * m + r" using that by (simp add: r_def)
      have "n div 4096 = m + r div 4096" unfolding n by (rule div_mult_self4) simp
      moreover have "r div 4096 = 0 \<longleftrightarrow> r < 4096" by (simp only: div_eq_0_iff) simp
      ultimately show ?thesis using n by (metis add_cancel_right_right add_diff_cancel_left')
    qed
    ultimately show ?thesis by (simp add: word_unat_eq_iff unat_pg_no m PGSIZE_val)
  next
    case False
    then have l: "unat x < 4096 * m" by (simp add: word_le_nat_alt m)
    then have "unat x div 4096 < m" by (simp add: less_mult_imp_div_less mult.commute)
    moreover have "unat (x - a) = 4294967296 + unat x - 4096 * m"
      using l unat32[of a] m by (simp add: unat_sub_if' m)
    moreover have "m < 1048576" using unat32[of a] m by simp
    ultimately show ?thesis by (simp add: word_unat_eq_iff unat_pg_no m PGSIZE_val)
  qed
qed

section \<open>The tables of a directory\<close>

definition pde_at :: "'a ram_scheme \<Rightarrow> vaddr \<Rightarrow> vaddr \<Rightarrow> 32 word" where
  "pde_at st pd va = ram_words st (ptr_add pd (pd_no va))"

definition table :: "'a ram_scheme \<Rightarrow> vaddr \<Rightarrow> vaddr \<Rightarrow> vaddr option" where
  "table st pd va = (if pde_at st pd va = 0 then None else pde_get_pt (pde_at st pd va))"

text \<open>A directory and its tables for user addresses are distinct pages of the kernel pool.\<close>

definition pd_ok :: "'a paging_scheme \<Rightarrow> vaddr \<Rightarrow> bool" where
  "pd_ok st pd \<longleftrightarrow> ram_ok st \<and> cr3 st < PHYS_BASE \<and> pd \<in> pool_used (kernel_pool st) \<and>
     (\<forall>va. is_user_vaddr va \<and> pde_at st pd va \<noteq> 0 \<longrightarrow>
        (\<exists>pt. table st pd va = Some pt \<and> pt \<in> pool_used (kernel_pool st) \<and> pt \<noteq> pd)) \<and>
     (\<forall>va wa pt. is_user_vaddr va \<and> is_user_vaddr wa \<and> table st pd va = Some pt \<and> table st pd wa = Some pt \<longrightarrow>
        pd_no va = pd_no wa)"

definition entry_addr :: "'a ram_scheme \<Rightarrow> vaddr \<Rightarrow> vaddr \<Rightarrow> vaddr" where
  "entry_addr st pd va = (case table st pd va of None \<Rightarrow> 0 | Some pt \<Rightarrow> ptr_add pt (pt_no va))"

text \<open>The entry for an address; an absent table is a table of zeros.\<close>

definition entry :: "'a ram_scheme \<Rightarrow> vaddr \<Rightarrow> vaddr \<Rightarrow> 32 word" where
  "entry st pd va = (case table st pd va of None \<Rightarrow> 0 | Some pt \<Rightarrow> ram_words st (ptr_add pt (pt_no va)))"

text \<open>What the hardware sees: the frame of a user page and whether it may be written.\<close>

definition pmap :: "'a ram_scheme \<Rightarrow> vaddr \<Rightarrow> vaddr \<Rightarrow> (vaddr \<times> bool) option" where
  "pmap st pd va = (let e = entry st pd va in if e AND PTE_P = 0 then None
     else map_option (\<lambda>page. (page, e AND PTE_W \<noteq> 0)) (pte_get_page e))"

lemma pool_used_page:
  assumes "ram_ok st" "a \<in> pool_used (kernel_pool st)"
  shows "pg_ofs a = 0" "is_kernel_vaddr a" "a \<noteq> 0"
proof -
  obtain i where "a = pool_page (kernel_pool st) i" "i < pool_size (kernel_pool st)"
    using assms(2) by (auto simp: pool_used_def bm_used_def pool_size_def)
  moreover have "pool_ok (kernel_pool st)" using assms(1) by (simp add: ram_ok_def)
  ultimately show "pg_ofs a = 0" "is_kernel_vaddr a" "a \<noteq> 0"
    by (simp_all add: pool_page_aligned pool_page_kernel pool_page_nonnull)
qed

lemma pd_okD:
  assumes "pd_ok st pd"
  shows "ram_ok st" "cr3 st < PHYS_BASE" "pd \<in> pool_used (kernel_pool st)" "pg_ofs pd = 0" "is_kernel_vaddr pd" "pd \<noteq> 0"
proof -
  show 1: "ram_ok st" "cr3 st < PHYS_BASE" "pd \<in> pool_used (kernel_pool st)"
    using assms unfolding pd_ok_def by blast+
  show "pg_ofs pd = 0" "is_kernel_vaddr pd" "pd \<noteq> 0" by (rule pool_used_page[OF 1(1,3)])+
qed

lemma pd_ok_table:
  assumes "pd_ok st pd" "is_user_vaddr va" "pde_at st pd va \<noteq> 0"
  shows "\<exists>pt. table st pd va = Some pt \<and> pde_get_pt (pde_at st pd va) = Some pt \<and>
    pt \<in> pool_used (kernel_pool st) \<and> pt \<noteq> pd \<and> pg_ofs pt = 0 \<and> is_kernel_vaddr pt \<and> pt \<noteq> 0"
proof -
  obtain pt where pt: "table st pd va = Some pt" "pt \<in> pool_used (kernel_pool st)" "pt \<noteq> pd"
    using assms unfolding pd_ok_def by blast
  then show ?thesis using pool_used_page[OF pd_okD(1)[OF assms(1)] pt(2)] assms(3)
    by (simp add: table_def)
qed

lemma table_None: "pd_ok st pd \<Longrightarrow> is_user_vaddr va \<Longrightarrow> table st pd va = None \<longleftrightarrow> pde_at st pd va = 0"
  using pd_ok_table[of st pd va] by (auto simp: table_def)

lemma table_Some:
  assumes "pd_ok st pd" "is_user_vaddr va" "table st pd va = Some pt"
  shows "pt \<in> pool_used (kernel_pool st)" "pt \<noteq> pd" "pg_ofs pt = 0" "is_kernel_vaddr pt" "pt \<noteq> 0" "pde_at st pd va \<noteq> 0"
proof -
  have "pde_at st pd va \<noteq> 0" using assms(3) by (auto simp: table_def)
  then show "pt \<in> pool_used (kernel_pool st)" "pt \<noteq> pd" "pg_ofs pt = 0" "is_kernel_vaddr pt" "pt \<noteq> 0" "pde_at st pd va \<noteq> 0"
    using pd_ok_table[OF assms(1,2)] assms(3) by auto
qed

lemma entry_addr_null: "pd_ok st pd \<Longrightarrow> is_user_vaddr va \<Longrightarrow> entry_addr st pd va = 0 \<longleftrightarrow> table st pd va = None"
proof -
  assume a: "pd_ok st pd" "is_user_vaddr va"
  have "ptr_add pt (pt_no va) \<noteq> 0" if t: "table st pd va = Some pt" for pt
  proof
    assume "ptr_add pt (pt_no va) = 0"
    then have "unat (ptr_add pt (pt_no va)) = 0" by simp
    then have "unat pt = 0" using unat_ptr_add[OF table_Some(3)[OF a t] pt_no_bound[of va]] by simp
    then show False using table_Some(5)[OF a t] by (simp add: unat_eq_0)
  qed
  then show ?thesis by (auto simp: entry_addr_def split: option.splits)
qed

lemma entry_eq: "entry st pd va = (if table st pd va = None then 0 else ram_words st (entry_addr st pd va))"
  by (auto simp: entry_def entry_addr_def split: option.splits)

text \<open>Entries of different pages lie at different places.\<close>

lemma entry_addr_inj:
  assumes "pd_ok st pd" "is_user_vaddr va" "is_user_vaddr wa" "table st pd va \<noteq> None" "table st pd wa \<noteq> None"
    "entry_addr st pd va = entry_addr st pd wa"
  shows "pg_no va = pg_no wa"
proof -
  obtain p q where t: "table st pd va = Some p" "table st pd wa = Some q" using assms(4,5) by blast
  have "ptr_add p (pt_no va) = ptr_add q (pt_no wa)" using assms(6) t by (simp add: entry_addr_def)
  from ptr_add_inj[OF table_Some(3)[OF assms(1,2) t(1)] pt_no_bound table_Some(3)[OF assms(1,3) t(2)] pt_no_bound this]
  have "p = q" "pt_no va = pt_no wa" by simp_all
  moreover have "pd_no va = pd_no wa" using assms(1-3) t \<open>p = q\<close> unfolding pd_ok_def by blast
  ultimately show ?thesis using same_page by blast
qed

lemma entry_addr_cong: "pg_no va = pg_no wa \<Longrightarrow> entry_addr st pd va = entry_addr st pd wa \<and> table st pd va = table st pd wa"
  using same_page[of va wa] by (simp add: entry_addr_def table_def pde_at_def split: option.split)

section \<open>The walk\<close>

lemma lookup_page_find:
  assumes "pd_ok st pd" "is_user_vaddr va"
  shows "lookup_page pd va False st = Some (entry_addr st pd va, st)"
    "table st pd va \<noteq> None \<Longrightarrow> lookup_page pd va True st = Some (entry_addr st pd va, st)"
proof -
  have n: "pd \<noteq> 0" using pd_okD(6)[OF assms(1)] .
  show "lookup_page pd va False st = Some (entry_addr st pd va, st)"
  proof (cases "pde_at st pd va = 0")
    case True
    then show ?thesis using n by (simp add: lookup_page_def entry_addr_def table_def) (simp add: pde_at_def)
  next
    case False
    then show ?thesis using n assms pd_ok_table[OF assms False]
      by (auto simp: lookup_page_def entry_addr_def pde_at_def)
  qed
  show "lookup_page pd va True st = Some (entry_addr st pd va, st)" if "table st pd va \<noteq> None"
  proof -
    have "pde_at st pd va \<noteq> 0" using that table_None[OF assms] by simp
    then show ?thesis using n assms pd_ok_table[OF assms]
      by (auto simp: lookup_page_def entry_addr_def pde_at_def)
  qed
qed

text \<open>A fresh table in an empty slot of the directory.\<close>

lemma new_table:
  fixes st :: "'a paging_scheme"
  assumes ok: "pd_ok st pd" and va: "is_user_vaddr va" and none: "table st pd va = None"
    and pt: "pt \<notin> pool_used (kernel_pool st)" "pg_ofs pt = 0" "is_kernel_vaddr pt"
    and e: "pde_get_pt e = Some pt" "e \<noteq> 0"
    and st1: "ram_ok st1" "pool_used (kernel_pool st1) = insert pt (pool_used (kernel_pool st))" "cr3 st1 = cr3 st"
      "ram_words st1 = (\<lambda>x. if unat (x - pt) < PGSIZE then 0 else ram_words st x)"
  defines "st2 \<equiv> set_word (ptr_add pd (pd_no va)) e st1"
  shows "pd_ok st2 pd" "table st2 pd va = Some pt"
    "\<And>wa. is_user_vaddr wa \<Longrightarrow> entry st2 pd wa = entry st pd wa"
proof -
  note pd = pd_okD[OF ok]
  have pdpt: "pg_no pd \<noteq> pg_no pt" using pg_no_inj[OF pd(4) pt(2)] pd(3) pt(1) by auto
  have rw: "ram_words st2 x = (if x = ptr_add pd (pd_no va) then e else if pg_no x = pg_no pt then 0 else ram_words st x)" for x
    by (simp add: st2_def set_word_def st1(4) in_page_iff[OF pt(2)])
  have pde: "pde_at st2 pd wa = (if pd_no wa = pd_no va then e else pde_at st pd wa)" for wa
    using ptr_add_inj[OF pd(4) pd_no_bound pd(4) pd_no_bound, of wa va] pdpt
    by (auto simp: pde_at_def rw pg_no_ptr_add[OF pd(4) pd_no_bound])
  have tab: "table st2 pd wa = (if pd_no wa = pd_no va then Some pt else table st pd wa)" for wa
    using e by (simp add: table_def pde)
  have new: "table st pd wa \<noteq> Some pt" if "is_user_vaddr wa" for wa
    using table_Some(1)[OF ok that] pt(1) by blast
  have none': "table st pd wa = None" if "pd_no wa = pd_no va" for wa
  proof -
    have "table st pd wa = table st pd va" using that by (simp add: table_def pde_at_def)
    then show ?thesis using none by simp
  qed
  have fields: "ram_ok st2" "cr3 st2 = cr3 st" "pool_used (kernel_pool st2) = insert pt (pool_used (kernel_pool st))"
    using st1(1-3) by (simp_all add: st2_def set_word_def ram_ok_def)
  have ptpd: "pt \<noteq> pd" using pdpt by blast
  show t: "table st2 pd va = Some pt" by (simp add: tab)
  show "pd_ok st2 pd"
    unfolding pd_ok_def
  proof (intro conjI allI impI)
    fix wa assume w: "is_user_vaddr wa \<and> pde_at st2 pd wa \<noteq> 0"
    show "\<exists>q. table st2 pd wa = Some q \<and> q \<in> pool_used (kernel_pool st2) \<and> q \<noteq> pd"
    proof (cases "pd_no wa = pd_no va")
      case True
      then show ?thesis using fields(3) ptpd by (simp add: tab)
    next
      case False
      then show ?thesis using w pd_ok_table[OF ok, of wa] fields(3) by (auto simp: tab pde)
    qed
  next
    fix wa ua q assume "is_user_vaddr wa \<and> is_user_vaddr ua \<and> table st2 pd wa = Some q \<and> table st2 pd ua = Some q"
    then show "pd_no wa = pd_no ua"
      using ok new[of wa] new[of ua] unfolding pd_ok_def tab by (auto split: if_splits)
  qed (use pd(2,3) fields in auto)
  show "entry st2 pd wa = entry st pd wa" if w: "is_user_vaddr wa" for wa
  proof (cases "pd_no wa = pd_no va")
    case True
    have "pg_no (ptr_add pt (pt_no wa)) = pg_no pt" using pg_no_ptr_add[OF pt(2) pt_no_bound] .
    moreover have "ptr_add pt (pt_no wa) \<noteq> ptr_add pd (pd_no va)"
      using ptr_add_inj[OF pt(2) pt_no_bound pd(4) pd_no_bound, of wa va] ptpd by blast
    ultimately show ?thesis using True none'[OF True] by (simp add: entry_def tab rw)
  next
    case False
    show ?thesis
    proof (cases "table st pd wa")
      case (Some q)
      note q = table_Some[OF ok w Some]
      have "ptr_add q (pt_no wa) \<noteq> ptr_add pd (pd_no va)"
        using ptr_add_inj[OF q(3) pt_no_bound pd(4) pd_no_bound, of wa va] q(2) by blast
      moreover have "pg_no q \<noteq> pg_no pt" using pg_no_inj[OF q(3) pt(2)] q(1) pt(1) by auto
      ultimately show ?thesis
        using False Some by (simp add: entry_def tab rw pg_no_ptr_add[OF q(3) pt_no_bound])
    qed (simp add: entry_def tab False)
  qed
qed

lemma fresh_page:
  assumes ok: "ram_ok st" and g: "got_pages fl 1 a st st'" and k: "fl AND PAL_USER = 0"
  shows "a \<notin> pool_used (kernel_pool st)" "a \<in> pool_used (kernel_pool st')" "pg_ofs a = 0" "is_kernel_vaddr a"
    "pool_used (kernel_pool st') = insert a (pool_used (kernel_pool st))" "user_pool st' = user_pool st"
proof -
  from g obtain i b where g: "a = pool_page (kernel_pool st) i" "i < pool_size (kernel_pool st)"
      "i \<notin> bm_used (used_map (kernel_pool st))" "bm_upd (used_map (kernel_pool st)) {i} True b"
      "st' = (if fl AND PAL_ZERO \<noteq> 0 then fill a 0 PGSIZE (set_pool False b st) else set_pool False b st)"
    unfolding got_pages_def Let_def by (auto simp: k flag_pool_def)
  have p: "pool_ok (kernel_pool st)" using ok by (simp add: ram_ok_def)
  show "pg_ofs a = 0" "is_kernel_vaddr a" using g(1,2) p by (simp_all add: pool_page_aligned pool_page_kernel)
  show "a \<notin> pool_used (kernel_pool st)"
  proof
    assume "a \<in> pool_used (kernel_pool st)"
    then obtain j where "j \<in> bm_used (used_map (kernel_pool st))" "a = pool_page (kernel_pool st) j"
      by (auto simp: pool_used_def)
    then show False using g(1-3) pool_page_inj[OF p g(2), of j] by (auto simp: bm_used_def pool_size_def)
  qed
  have kp: "kernel_pool st' = (kernel_pool st)\<lparr>used_map := b\<rparr>" "user_pool st' = user_pool st"
    by (simp_all add: g(5))
  have "bm_used b = insert i (bm_used (used_map (kernel_pool st)))"
    using g(2,4) by (auto simp: bm_upd_def bm_used_def pool_size_def)
  then show "pool_used (kernel_pool st') = insert a (pool_used (kernel_pool st))"
    by (simp add: kp pool_used_def g(1))
  then show "a \<in> pool_used (kernel_pool st')" by simp
  show "user_pool st' = user_pool st" by (rule kp)
qed

text \<open>A page for a new table comes from the kernel pool.\<close>

definition kernel_page_free :: "'a ram_scheme \<Rightarrow> bool" where
  "kernel_page_free st \<longleftrightarrow> (\<exists>i<pool_size (kernel_pool st). i \<notin> bm_used (used_map (kernel_pool st)))"

lemma lookup_page_create:
  fixes st :: "'a paging_scheme"
  assumes ok: "pd_ok st pd" and va: "is_user_vaddr va"
  shows "\<exists>a st'. lookup_page pd va True st = Some (a, st') \<and> pd_ok st' pd \<and>
    (\<forall>wa. is_user_vaddr wa \<longrightarrow> entry st' pd wa = entry st pd wa) \<and> (a = 0 \<longrightarrow> st' = st \<and> \<not> kernel_page_free st) \<and>
    (a \<noteq> 0 \<longrightarrow> table st' pd va \<noteq> None \<and> a = entry_addr st' pd va) \<and>
    user_pool st' = user_pool st \<and> init_ram_pages st' = init_ram_pages st \<and> init_page_dir st' = init_page_dir st"
proof (cases "table st pd va")
  case (Some pt)
  then show ?thesis using ok lookup_page_find(2)[OF ok va] entry_addr_null[OF ok va] by simp
next
  case None
  have pd0: "pd \<noteq> 0" using pd_okD(6)[OF ok] .
  have pde0: "ram_words st (ptr_add pd (pd_no va)) = 0" using None table_None[OF ok va] by (simp add: pde_at_def)
  have fl: "PAL_ZERO AND PAL_USER = 0" "PAL_ZERO AND PAL_ASSERT = 0" "PAL_ZERO \<noteq> 0"
    by (simp_all add: PAL_ZERO_def PAL_USER_def PAL_ASSERT_def)
  have fp: "flag_pool PAL_ZERO st = kernel_pool st" by (simp add: flag_pool_def fl)
  consider "palloc_get_page PAL_ZERO st = Some (0, st)" "\<not> kernel_page_free st"
    | pt st1 where "palloc_get_page PAL_ZERO st = Some (pt, st1)" "pt \<noteq> 0" "ram_ok st1" "got_pages PAL_ZERO 1 pt st st1"
    using palloc_get_multiple_spec[OF pd_okD(1)[OF ok], of 1 PAL_ZERO] fl(2)
    unfolding palloc_get_page_def kernel_page_free_def fp by (auto simp: Suc_le_eq)
  then show ?thesis
  proof cases
    case 1
    then show ?thesis using ok va pd0 pde0 by (simp add: lookup_page_def)
  next
    case 2
    note f = fresh_page[OF pd_okD(1)[OF ok] 2(4) fl(1)]
    have w: "ram_words st1 = (\<lambda>x. if unat (x - pt) < PGSIZE then 0 else ram_words st x)"
        and rest: "cr3 st1 = cr3 st" "init_page_dir st1 = init_page_dir st" "init_ram_pages st1 = init_ram_pages st"
      using 2(4) by (auto simp: got_pages_def Let_def fl fill_def set_pool_def cong: if_cong)
    obtain e where e: "pde_create pt = Some e" "pde_get_pt e = Some pt" "e \<noteq> 0"
      using pde_create_spec[OF f(3,4)] by blast
    let ?st2 = "set_word (ptr_add pd (pd_no va)) e st1"
    note n = new_table[OF ok va None f(1,3,4) e(2,3) 2(3) f(5) rest(1) w]
    have "lookup_page pd va True st = Some (entry_addr ?st2 pd va, ?st2)"
      using va pd0 pde0 2(1,2) e n(2) by (simp add: lookup_page_def entry_addr_def Let_def) (simp add: set_word_def)
    moreover have "entry_addr ?st2 pd va \<noteq> 0" using entry_addr_null[OF n(1) va] n(2) by simp
    ultimately show ?thesis using n rest f(6) by (auto simp: set_word_def)
  qed
qed

text \<open>Changing the entry of a page changes no other entry.\<close>

lemma store_entry:
  fixes w :: "32 word"
  assumes ok: "pd_ok st pd" and va: "is_user_vaddr va" and t: "table st pd va \<noteq> None"
  defines "st' \<equiv> set_word (entry_addr st pd va) w st"
  shows "pd_ok st' pd"
    "\<And>wa. is_user_vaddr wa \<Longrightarrow> table st' pd wa = table st pd wa"
    "\<And>wa. is_user_vaddr wa \<Longrightarrow> entry st' pd wa = (if pg_no wa = pg_no va then w else entry st pd wa)"
proof -
  obtain pt where pt: "table st pd va = Some pt" using t by blast
  note q = table_Some[OF ok va pt]
  have ea: "entry_addr st pd va = ptr_add pt (pt_no va)" by (simp add: entry_addr_def pt)
  have pde: "pde_at st' pd wa = pde_at st pd wa" for wa
    using ptr_add_inj[OF q(3) pt_no_bound pd_okD(4)[OF ok] pd_no_bound, of va wa] q(2)
    by (auto simp: pde_at_def st'_def ea set_word_def)
  then have tab: "table st' pd wa = table st pd wa" for wa by (simp add: table_def)
  then show "\<And>wa. is_user_vaddr wa \<Longrightarrow> table st' pd wa = table st pd wa" by simp
  show "pd_ok st' pd"
    using ok unfolding pd_ok_def pde tab by (simp add: st'_def set_word_def ram_ok_def)
  fix wa assume u: "is_user_vaddr wa"
  have ea': "entry_addr st' pd wa = entry_addr st pd wa" by (simp add: entry_addr_def tab)
  show "entry st' pd wa = (if pg_no wa = pg_no va then w else entry st pd wa)"
  proof (cases "pg_no wa = pg_no va")
    case True
    from entry_addr_cong[OF this, of st pd] t show ?thesis
      unfolding entry_eq[of st'] ea' tab using True by (auto simp: st'_def set_word_def)
  next
    case False
    then have "table st pd wa \<noteq> None \<Longrightarrow> entry_addr st pd wa \<noteq> entry_addr st pd va"
      using entry_addr_inj[OF ok u va _ t] by blast
    then show ?thesis unfolding entry_eq ea' tab using False by (simp add: st'_def set_word_def)
  qed
qed

section \<open>The operations on the map of user pages\<close>

text \<open>Every present entry names a page of the kernel's address space.\<close>

definition pt_ok :: "'a paging_scheme \<Rightarrow> vaddr \<Rightarrow> bool" where
  "pt_ok st pd \<longleftrightarrow> pd_ok st pd \<and>
     (\<forall>va. is_user_vaddr va \<and> entry st pd va AND PTE_P \<noteq> 0 \<longrightarrow> pte_get_page (entry st pd va) \<noteq> None)"

lemma pt_okD: "pt_ok st pd \<Longrightarrow> pd_ok st pd"
  by (simp add: pt_ok_def)

text \<open>A mapped page: its frame, and its writable, accessed and dirty bits.\<close>

definition pview :: "'a ram_scheme \<Rightarrow> vaddr \<Rightarrow> vaddr \<Rightarrow> (vaddr \<times> bool \<times> bool \<times> bool) option" where
  "pview st pd va = (let e = entry st pd va in if e AND PTE_P = 0 then None
     else Some (the (pte_get_page e), e AND PTE_W \<noteq> 0, e AND PTE_A \<noteq> 0, e AND PTE_D \<noteq> 0))"

lemma table_present: "entry st pd va AND PTE_P \<noteq> 0 \<Longrightarrow> table st pd va \<noteq> None"
  by (cases "table st pd va") (simp_all add: entry_def)

lemma and_zero_left: "(0 :: 32 word) AND x = 0"
  by simp

lemma invalidate_same:
  assumes "pd_ok st pd"
  shows "invalidate_pagedir pd st = Some st"
proof -
  note p = pd_okD[OF assms]
  have "vtop pd = Some (pd - PHYS_BASE)" using p(5) by (simp add: vtop_def)
  then show ?thesis
    using p(2,6) by (auto simp: invalidate_pagedir_def active_pd_def ptov_def pagedir_activate_def)
qed

lemma pagedir_get_page_spec:
  assumes "pt_ok st pd" "is_user_vaddr va"
  shows "pagedir_get_page pd va st = Some (case pview st pd va of None \<Rightarrow> 0 | Some (page, _) \<Rightarrow> page + pg_ofs va)"
proof -
  note ok = pt_okD[OF assms(1)]
  show ?thesis
    using assms lookup_page_find(1)[OF ok assms(2)] entry_addr_null[OF ok assms(2)] entry_eq[of st pd va]
    by (auto simp: pagedir_get_page_def pview_def Let_def pt_ok_def)
qed

lemma pagedir_bits_spec:
  assumes "pt_ok st pd" "is_user_vaddr va"
  shows "pagedir_is_dirty pd va st = Some (entry st pd va AND PTE_D \<noteq> 0)"
    "pagedir_is_accessed pd va st = Some (entry st pd va AND PTE_A \<noteq> 0)"
  using lookup_page_find(1)[OF pt_okD[OF assms(1)] assms(2)] entry_addr_null[OF pt_okD[OF assms(1)] assms(2)]
    entry_eq[of st pd va]
  by (simp_all add: pagedir_is_dirty_def pagedir_is_accessed_def)

text \<open>A new value of an entry that keeps its page, or is absent, keeps the invariant.\<close>

lemma store_ok:
  assumes ok: "pt_ok st pd" and va: "is_user_vaddr va" and t: "table st pd va \<noteq> None"
    and w: "w AND PTE_P \<noteq> 0 \<Longrightarrow> pte_get_page w \<noteq> None"
  shows "pt_ok (set_word (entry_addr st pd va) w st) pd"
    "is_user_vaddr wa \<Longrightarrow> entry (set_word (entry_addr st pd va) w st) pd wa =
       (if pg_no wa = pg_no va then w else entry st pd wa)"
proof -
  note s = store_entry[OF pt_okD[OF ok] va t, where w = w]
  show "is_user_vaddr wa \<Longrightarrow> entry (set_word (entry_addr st pd va) w st) pd wa =
       (if pg_no wa = pg_no va then w else entry st pd wa)" by (rule s(3))
  show "pt_ok (set_word (entry_addr st pd va) w st) pd"
    unfolding pt_ok_def
  proof (intro conjI allI impI)
    fix wa assume a: "is_user_vaddr wa \<and> entry (set_word (entry_addr st pd va) w st) pd wa AND PTE_P \<noteq> 0"
    then have u: "is_user_vaddr wa" by blast
    show "pte_get_page (entry (set_word (entry_addr st pd va) w st) pd wa) \<noteq> None"
      using a ok w unfolding s(3)[OF u] pt_ok_def by (cases "pg_no wa = pg_no va") simp_all
  qed (rule s(1))
qed

lemma words_same: "\<exists>W. st = st\<lparr>ram_words := W\<rparr>"
  by (intro exI[of _ "ram_words st"]) simp

lemma set_word_words: "\<exists>W. set_word a w st = st\<lparr>ram_words := W\<rparr>"
  by (intro exI[of _ "(ram_words st)(a := w)"]) (simp add: set_word_def)

lemma pagedir_clear_page_spec:
  assumes ok: "pt_ok st pd" and va: "is_user_vaddr va" "pg_ofs va = 0"
  shows "\<exists>st'. pagedir_clear_page pd va st = Some st' \<and> pt_ok st' pd \<and> (\<exists>W. st' = st\<lparr>ram_words := W\<rparr>) \<and>
    (\<forall>wa. is_user_vaddr wa \<longrightarrow> table st' pd wa = table st pd wa) \<and>
    (\<forall>wa. is_user_vaddr wa \<longrightarrow> entry st' pd wa =
      (if pg_no wa = pg_no va then entry st pd va AND NOT PTE_P else entry st pd wa))"
proof (cases "entry st pd va AND PTE_P = 0")
  case True
  have c: "entry st pd wa = entry st pd va" if "pg_no wa = pg_no va" for wa
    using entry_addr_cong[OF that, of st pd] by (simp add: entry_eq)
  have n: "entry st pd va AND NOT PTE_P = entry st pd va"
  proof (rule bit_eqI)
    fix k show "bit (entry st pd va AND NOT PTE_P) k = bit (entry st pd va) k"
      using arg_cong[OF True, of "\<lambda>w. bit w k"] by (auto simp: bit_simps dest: bit_imp_le_length)
  qed
  have "pagedir_clear_page pd va st = Some st"
    using va True lookup_page_find(1)[OF pt_okD[OF ok] va(1)] entry_addr_null[OF pt_okD[OF ok] va(1)] entry_eq[of st pd va]
    by (auto simp: pagedir_clear_page_def split: if_splits)
  moreover have "entry st pd wa = (if pg_no wa = pg_no va then entry st pd va AND NOT PTE_P else entry st pd wa)" for wa
    using c[of wa] by (auto simp: n)
  ultimately show ?thesis using ok words_same by blast
next
  case False
  note t = table_present[OF False]
  let ?st' = "set_word (entry_addr st pd va) (entry st pd va AND NOT PTE_P) st"
  have "(entry st pd va AND NOT PTE_P) AND PTE_P = 0" by (simp add: and.assoc)
  then have w: "(entry st pd va AND NOT PTE_P) AND PTE_P \<noteq> 0 \<Longrightarrow> pte_get_page (entry st pd va AND NOT PTE_P) \<noteq> None"
    by blast
  note s = store_ok[OF ok va(1) t w]
  have "pagedir_clear_page pd va st = Some ?st'"
    using va False lookup_page_find(1)[OF pt_okD[OF ok] va(1)] entry_addr_null[OF pt_okD[OF ok] va(1)] entry_eq[of st pd va] t
      invalidate_same[OF pt_okD[OF s(1)]]
    by (simp add: pagedir_clear_page_def)
  then show ?thesis using s store_entry(2)[OF pt_okD[OF ok] va(1) t] set_word_words by auto
qed

lemma pagedir_set_bit_spec:
  assumes ok: "pt_ok st pd" and va: "is_user_vaddr va"
  shows "\<exists>st'. pagedir_set_dirty pd va b st = Some st' \<and> pt_ok st' pd \<and> (\<exists>W. st' = st\<lparr>ram_words := W\<rparr>) \<and>
    (\<forall>wa. is_user_vaddr wa \<longrightarrow> entry st' pd wa = (if table st pd va \<noteq> None \<and> pg_no wa = pg_no va
      then (if b then entry st pd va OR PTE_D else entry st pd va AND NOT PTE_D) else entry st pd wa))" (is ?D)
    "\<exists>st'. pagedir_set_accessed pd va b st = Some st' \<and> pt_ok st' pd \<and> (\<exists>W. st' = st\<lparr>ram_words := W\<rparr>) \<and>
    (\<forall>wa. is_user_vaddr wa \<longrightarrow> entry st' pd wa = (if table st pd va \<noteq> None \<and> pg_no wa = pg_no va
      then (if b then entry st pd va OR PTE_A else entry st pd va AND NOT PTE_A) else entry st pd wa))" (is ?A)
proof -
  note pd = pt_okD[OF ok]
  note l = lookup_page_find(1)[OF pd va] entry_addr_null[OF pd va] entry_eq[of st pd va]
  have keep: "pte_get_page (entry st pd va OR f) \<noteq> None" "pte_get_page (entry st pd va AND NOT f) \<noteq> None"
    if "entry st pd va AND PTE_P \<noteq> 0" "f AND PTE_ADDR = 0" for f
    using ok va that by (auto simp: pt_ok_def pte_get_page_def or_flag_addr clear_flag_addr)
  have P: "(entry st pd va OR f) AND PTE_P = entry st pd va AND PTE_P"
      "(entry st pd va AND NOT f) AND PTE_P = entry st pd va AND PTE_P" if "f = PTE_D \<or> f = PTE_A" for f
    using that by (auto simp: and_or_flags clear_flag)
  have w: "w AND PTE_P \<noteq> 0 \<Longrightarrow> pte_get_page w \<noteq> None"
    if "w = entry st pd va OR f \<or> w = entry st pd va AND NOT f" "f = PTE_D \<or> f = PTE_A" for w f
    using keep[of f] P[OF that(2)] that by auto
  show ?D
  proof (cases "table st pd va")
    case None
    then show ?thesis using l ok words_same by (simp add: pagedir_set_dirty_def)
  next
    case (Some pt)
    then have t: "table st pd va \<noteq> None" by simp
    let ?w = "if b then entry st pd va OR PTE_D else entry st pd va AND NOT PTE_D"
    have "?w AND PTE_P \<noteq> 0 \<Longrightarrow> pte_get_page ?w \<noteq> None" by (rule w[where f = PTE_D]) simp_all
    note s = store_ok[OF ok va t this]
    have "pagedir_set_dirty pd va b st = Some (set_word (entry_addr st pd va) ?w st)"
      using l t invalidate_same[OF pt_okD[OF s(1)]] by (cases b) (simp_all add: pagedir_set_dirty_def)
    then show ?thesis using s t by (intro exI[of _ "set_word (entry_addr st pd va) ?w st"]) (simp add: set_word_words)
  qed
  show ?A
  proof (cases "table st pd va")
    case None
    then show ?thesis using l ok words_same by (simp add: pagedir_set_accessed_def)
  next
    case (Some pt)
    then have t: "table st pd va \<noteq> None" by simp
    let ?w = "if b then entry st pd va OR PTE_A else entry st pd va AND NOT PTE_A"
    have "?w AND PTE_P \<noteq> 0 \<Longrightarrow> pte_get_page ?w \<noteq> None" by (rule w[where f = PTE_A]) simp_all
    note s = store_ok[OF ok va t this]
    have "pagedir_set_accessed pd va b st = Some (set_word (entry_addr st pd va) ?w st)"
      using l t invalidate_same[OF pt_okD[OF s(1)]] by (cases b) (simp_all add: pagedir_set_accessed_def)
    then show ?thesis using s t by (intro exI[of _ "set_word (entry_addr st pd va) ?w st"]) (simp add: set_word_words)
  qed
qed

definition frame_ok :: "'a paging_scheme \<Rightarrow> vaddr \<Rightarrow> bool" where
  "frame_ok st kpage \<longleftrightarrow> pg_ofs kpage = 0 \<and> is_kernel_vaddr kpage \<and>
     unat (drop_bit PTSHIFT (kpage - PHYS_BASE)) < init_ram_pages st"

lemma pagedir_set_page_spec:
  assumes ok: "pt_ok st pd" and va: "is_user_vaddr va" "pg_ofs va = 0" and k: "frame_ok st kpage"
    and pd: "pd \<noteq> init_page_dir st" and free: "entry st pd va AND PTE_P = 0"
  shows "\<exists>r st'. pagedir_set_page pd va kpage w st = Some (r, st') \<and> pt_ok st' pd \<and>
    (\<not> r \<longrightarrow> st' = st \<and> \<not> kernel_page_free st) \<and> (table st pd va \<noteq> None \<longrightarrow> r) \<and>
    (r \<longrightarrow> (\<exists>e. pte_create_user kpage w = Some e \<and> (\<forall>wa. is_user_vaddr wa \<longrightarrow>
       entry st' pd wa = (if pg_no wa = pg_no va then e else entry st pd wa))))"
proof -
  have k': "pg_ofs kpage = 0" "is_kernel_vaddr kpage" using k by (simp_all add: frame_ok_def)
  obtain e where e: "pte_create_user kpage w = Some e" "pte_get_page e = Some kpage"
    using pte_create_user_spec[OF k'] by blast
  obtain a st1 where l: "lookup_page pd va True st = Some (a, st1)" "pd_ok st1 pd"
      "\<And>wa. is_user_vaddr wa \<Longrightarrow> entry st1 pd wa = entry st pd wa" "a = 0 \<Longrightarrow> st1 = st \<and> \<not> kernel_page_free st"
      "a \<noteq> 0 \<Longrightarrow> table st1 pd va \<noteq> None \<and> a = entry_addr st1 pd va"
    using lookup_page_create[OF pt_okD[OF ok] va(1)] by blast
  have v: "vtop kpage = Some (kpage - PHYS_BASE)" using k'(2) by (simp add: vtop_def)
  have ok1: "pt_ok st1 pd" using ok l(2,3) unfolding pt_ok_def by metis
  show ?thesis
  proof (cases "a = 0")
    case True
    have st1: "st1 = st" "\<not> kernel_page_free st" using l(4)[OF True] by simp_all
    have "pagedir_set_page pd va kpage w st = Some (False, st)"
      using True va k k' pd v l(1)[unfolded st1(1)] by (simp add: pagedir_set_page_def frame_ok_def)
    moreover have "table st pd va = None"
      using lookup_page_find(2)[OF pt_okD[OF ok] va(1)] entry_addr_null[OF pt_okD[OF ok] va(1)] l(1) True by auto
    ultimately show ?thesis using ok st1(2) by blast
  next
    case False
    note t = l(5)[OF False]
    have "ram_words st1 a = entry st1 pd va" using t by (auto simp: entry_eq)
    then have "pagedir_set_page pd va kpage w st = Some (True, set_word a e st1)"
      using va k k' pd v l(1) False free l(3)[OF va(1)] e by (simp add: pagedir_set_page_def frame_ok_def)
    moreover have "pte_get_page e \<noteq> None" using e by simp
    note s = store_ok[OF ok1 va(1) conjunct1[OF t], where w = e, OF this]
    ultimately show ?thesis using s e l(3) conjunct2[OF t] by auto
  qed
qed

lemma pagedir_set_page_mapped:
  assumes "pt_ok st pd" "is_user_vaddr va" "pg_ofs va = 0" "frame_ok st kpage" "pd \<noteq> init_page_dir st"
    "entry st pd va AND PTE_P = 0" "table st pd va \<noteq> None"
  shows "\<exists>st' e. pagedir_set_page pd va kpage w st = Some (True, st') \<and> pt_ok st' pd \<and> pte_create_user kpage w = Some e \<and>
    (\<forall>wa. is_user_vaddr wa \<longrightarrow> entry st' pd wa = (if pg_no wa = pg_no va then e else entry st pd wa))"
  using pagedir_set_page_spec[OF assms(1-6), of w] assms(7) by metis

text \<open>The operations as commands, and what they do to the map of user pages.\<close>

datatype pd_op = Set_Page vaddr vaddr bool | Clear_Page vaddr | Set_Dirty vaddr bool | Set_Accessed vaddr bool

fun pd_exec :: "vaddr \<Rightarrow> pd_op \<Rightarrow> 'a paging_scheme \<Rightarrow> (bool \<times> 'a paging_scheme) option" where
  "pd_exec pd (Set_Page u k w) st = pagedir_set_page pd u k w st"
| "pd_exec pd (Clear_Page u) st = map_option (Pair True) (pagedir_clear_page pd u st)"
| "pd_exec pd (Set_Dirty u b) st = map_option (Pair True) (pagedir_set_dirty pd u b st)"
| "pd_exec pd (Set_Accessed u b) st = map_option (Pair True) (pagedir_set_accessed pd u b st)"

fun pd_target :: "pd_op \<Rightarrow> vaddr" where
  "pd_target (Set_Page u k w) = u" | "pd_target (Clear_Page u) = u"
| "pd_target (Set_Dirty u b) = u" | "pd_target (Set_Accessed u b) = u"

fun pd_effect :: "pd_op \<Rightarrow> (vaddr \<times> bool \<times> bool \<times> bool) option \<Rightarrow> (vaddr \<times> bool \<times> bool \<times> bool) option" where
  "pd_effect (Set_Page u k w) _ = Some (k, w, False, False)"
| "pd_effect (Clear_Page u) _ = None"
| "pd_effect (Set_Dirty u b) m = map_option (\<lambda>(k, w, a, d). (k, w, a, b)) m"
| "pd_effect (Set_Accessed u b) m = map_option (\<lambda>(k, w, a, d). (k, w, b, d)) m"

text \<open>Only mapping a page can fail: the table for it is missing and there is no page for a new one.\<close>

fun pd_no_room :: "'a paging_scheme \<Rightarrow> vaddr \<Rightarrow> pd_op \<Rightarrow> bool" where
  "pd_no_room st pd (Set_Page u k w) \<longleftrightarrow> table st pd u = None \<and> \<not> kernel_page_free st"
| "pd_no_room st pd _ \<longleftrightarrow> False"

text \<open>What the callers have to see to.\<close>

fun pd_op_ok :: "'a paging_scheme \<Rightarrow> vaddr \<Rightarrow> pd_op \<Rightarrow> bool" where
  "pd_op_ok st pd (Set_Page u k w) \<longleftrightarrow> is_user_vaddr u \<and> pg_ofs u = 0 \<and> frame_ok st k \<and>
     pd \<noteq> init_page_dir st \<and> pview st pd u = None"
| "pd_op_ok st pd (Clear_Page u) \<longleftrightarrow> is_user_vaddr u \<and> pg_ofs u = 0"
| "pd_op_ok st pd (Set_Dirty u b) \<longleftrightarrow> is_user_vaddr u"
| "pd_op_ok st pd (Set_Accessed u b) \<longleftrightarrow> is_user_vaddr u"

lemma pview_entry: "entry st' pd wa = e \<Longrightarrow> pview st' pd wa = (if e AND PTE_P = 0 then None
     else Some (the (pte_get_page e), e AND PTE_W \<noteq> 0, e AND PTE_A \<noteq> 0, e AND PTE_D \<noteq> 0))"
  by (simp add: pview_def Let_def)

lemma entry_page: "pg_no wa = pg_no va \<Longrightarrow> entry st pd wa = entry st pd va"
  using entry_addr_cong[of wa va st pd] by (simp add: entry_eq)

lemma bits_after:
  "(e OR PTE_D) AND PTE_P = e AND PTE_P" "(e OR PTE_A) AND PTE_P = e AND PTE_P"
  "(e AND NOT PTE_D) AND PTE_P = e AND PTE_P" "(e AND NOT PTE_A) AND PTE_P = e AND PTE_P"
  "(e OR PTE_D) AND PTE_W = e AND PTE_W" "(e OR PTE_A) AND PTE_W = e AND PTE_W"
  "(e AND NOT PTE_D) AND PTE_W = e AND PTE_W" "(e AND NOT PTE_A) AND PTE_W = e AND PTE_W"
  "(e OR PTE_D) AND PTE_A = e AND PTE_A" "(e AND NOT PTE_D) AND PTE_A = e AND PTE_A"
  "(e OR PTE_A) AND PTE_D = e AND PTE_D" "(e AND NOT PTE_A) AND PTE_D = e AND PTE_D"
  "(e OR PTE_D) AND PTE_D \<noteq> 0" "(e OR PTE_A) AND PTE_A \<noteq> 0"
  "pte_get_page (e OR PTE_D) = pte_get_page e" "pte_get_page (e OR PTE_A) = pte_get_page e"
  "pte_get_page (e AND NOT PTE_D) = pte_get_page e" "pte_get_page (e AND NOT PTE_A) = pte_get_page e"
  by (simp_all add: and_or_flags clear_flag pte_get_page_def or_eq_0_iff)

lemma bit_cleared: "(e AND NOT f) AND f = 0" for e f :: "32 word"
  by (simp add: and.assoc)

lemma absent_entry: "table st pd va = None \<Longrightarrow> pview st pd va = None"
  by (simp add: pview_def entry_def)

lemma pd_exec_spec:
  assumes ok: "pt_ok st pd" and op: "pd_op_ok st pd oper"
  shows "\<exists>r st'. pd_exec pd oper st = Some (r, st') \<and> pt_ok st' pd \<and>
    (\<not> r \<longrightarrow> st' = st \<and> pd_no_room st pd oper) \<and>
    (r \<longrightarrow> (\<forall>va. is_user_vaddr va \<longrightarrow> pview st' pd va =
      (if pg_no va = pg_no (pd_target oper) then pd_effect oper (pview st pd va) else pview st pd va)))"
proof (cases oper)
  case (Set_Page u k w)
  then have a: "is_user_vaddr u" "pg_ofs u = 0" "frame_ok st k" "pd \<noteq> init_page_dir st" "entry st pd u AND PTE_P = 0"
    using op by (auto simp: pview_def Let_def split: if_splits)
  obtain r st' where s: "pagedir_set_page pd u k w st = Some (r, st')" "pt_ok st' pd"
      "\<not> r \<longrightarrow> st' = st \<and> \<not> kernel_page_free st \<and> table st pd u = None"
      "r \<Longrightarrow> \<exists>e. pte_create_user k w = Some e \<and> (\<forall>wa. is_user_vaddr wa \<longrightarrow>
         entry st' pd wa = (if pg_no wa = pg_no u then e else entry st pd wa))"
    using pagedir_set_page_spec[OF ok a(1-5)] by blast
  have "pview st' pd va = (if pg_no va = pg_no u then Some (k, w, False, False) else pview st pd va)"
    if r: "r" and u: "is_user_vaddr va" for va
  proof -
    obtain e where e: "pte_create_user k w = Some e"
        "entry st' pd va = (if pg_no va = pg_no u then e else entry st pd va)"
      using s(4)[OF r] u by blast
    then show ?thesis using pte_create_user_spec[of k w] a(3)
      by (auto simp: frame_ok_def pview_def Let_def)
  qed
  then show ?thesis using s(1-3) Set_Page by auto
next
  case (Clear_Page u)
  then obtain st' where s: "pagedir_clear_page pd u st = Some st'" "pt_ok st' pd"
      "\<And>wa. is_user_vaddr wa \<Longrightarrow> entry st' pd wa = (if pg_no wa = pg_no u then entry st pd u AND NOT PTE_P else entry st pd wa)"
    using pagedir_clear_page_spec[OF ok, of u] op by auto
  have "pview st' pd va = (if pg_no va = pg_no u then None else pview st pd va)" if "is_user_vaddr va" for va
    unfolding pview_entry[OF s(3)[OF that]] by (simp add: bits_after bit_cleared pview_def Let_def)
  then show ?thesis using s(1,2) Clear_Page by auto
next
  case (Set_Dirty u b)
  then obtain st' where s: "pagedir_set_dirty pd u b st = Some st'" "pt_ok st' pd"
      "\<And>wa. is_user_vaddr wa \<Longrightarrow> entry st' pd wa = (if table st pd u \<noteq> None \<and> pg_no wa = pg_no u
      then (if b then entry st pd u OR PTE_D else entry st pd u AND NOT PTE_D) else entry st pd wa)"
    using pagedir_set_bit_spec(1)[OF ok, of u b] op by auto
  have "pview st' pd va = (if pg_no va = pg_no u then map_option (\<lambda>(k, w, a, d). (k, w, a, b)) (pview st pd va) else pview st pd va)"
    if "is_user_vaddr va" for va
    using entry_page[of va u st pd] absent_entry[of st pd va] entry_addr_cong[of va u st pd]
    unfolding pview_entry[OF s(3)[OF that]] by (auto simp: bits_after bit_cleared pview_def Let_def)
  then show ?thesis using s(1,2) Set_Dirty by auto
next
  case (Set_Accessed u b)
  then obtain st' where s: "pagedir_set_accessed pd u b st = Some st'" "pt_ok st' pd"
      "\<And>wa. is_user_vaddr wa \<Longrightarrow> entry st' pd wa = (if table st pd u \<noteq> None \<and> pg_no wa = pg_no u
      then (if b then entry st pd u OR PTE_A else entry st pd u AND NOT PTE_A) else entry st pd wa)"
    using pagedir_set_bit_spec(2)[OF ok, of u b] op by auto
  have "pview st' pd va = (if pg_no va = pg_no u then map_option (\<lambda>(k, w, a, d). (k, w, b, d)) (pview st pd va) else pview st pd va)"
    if "is_user_vaddr va" for va
    using entry_page[of va u st pd] absent_entry[of st pd va] entry_addr_cong[of va u st pd]
    unfolding pview_entry[OF s(3)[OF that]] by (auto simp: bits_after bit_cleared pview_def Let_def)
  then show ?thesis using s(1,2) Set_Accessed by auto
qed

section \<open>A new directory\<close>

lemma pagedir_create_spec:
  fixes st :: "'a paging_scheme"
  assumes ok: "ram_ok st" "cr3 st < PHYS_BASE"
    and init: "\<And>va. is_user_vaddr va \<Longrightarrow> pde_at st (init_page_dir st) va = 0"
      "pg_ofs (init_page_dir st) = 0" "init_page_dir st \<in> pool_used (kernel_pool st)"
  shows "\<exists>pd st'. pagedir_create st = Some (pd, st') \<and> (pd \<noteq> 0 \<longrightarrow> pt_ok st' pd \<and> pd \<noteq> init_page_dir st' \<and>
    pd \<notin> pool_used (kernel_pool st) \<and> (\<forall>va. is_user_vaddr va \<longrightarrow> pview st' pd va = None))"
proof -
  have fl: "(0::32 word) AND PAL_ASSERT = 0" "(0::32 word) AND PAL_USER = 0" by simp_all
  consider "palloc_get_page 0 st = Some (0, st)"
    | pd st1 where "palloc_get_page 0 st = Some (pd, st1)" "pd \<noteq> 0" "ram_ok st1" "got_pages 0 1 pd st st1"
    using palloc_get_multiple_spec[OF ok(1), of 1 0] unfolding palloc_get_page_def by auto
  then show ?thesis
  proof cases
    case 1
    then show ?thesis by (simp add: pagedir_create_def)
  next
    case 2
    note f = fresh_page[OF ok(1) 2(4) fl(2)]
    have st1: "ram_words st1 = ram_words st" "cr3 st1 = cr3 st" "init_page_dir st1 = init_page_dir st"
      using 2(4) by (auto simp: got_pages_def Let_def set_pool_def flag_pool_def)
    define st2 where "st2 = st1\<lparr>ram_words := (\<lambda>x. if unat (x - pd) < PGSIZE
       then ram_words st1 (init_page_dir st1 + (x - pd)) else ram_words st1 x)\<rparr>"
    have c: "pagedir_create st = Some (pd, st2)" using 2(1,2) by (simp add: pagedir_create_def st2_def)
    have "pde_at st2 pd va = pde_at st (init_page_dir st) va" for va
      using in_page_iff[OF f(3), of "ptr_add pd (pd_no va)"] pg_no_ptr_add[OF f(3) pd_no_bound, of va]
      by (simp add: pde_at_def st2_def st1 ptr_add_def)
    then have z: "pde_at st2 pd va = 0" if "is_user_vaddr va" for va using init(1)[OF that] by simp
    then have t: "table st2 pd va = None" if "is_user_vaddr va" for va using that by (simp add: table_def)
    have k2: "kernel_pool st2 = kernel_pool st1" "ram_ok st2" using 2(3) by (simp_all add: st2_def ram_ok_def)
    have "pd_ok st2 pd"
      unfolding pd_ok_def using k2 f(2) z t ok(2) st1(2) by (auto simp: st2_def)
    then have "pt_ok st2 pd" using t by (auto simp: pt_ok_def entry_def)
    moreover have "pd \<noteq> init_page_dir st2" using f(1) init(3) st1(3) by (auto simp: st2_def)
    moreover have "pview st2 pd va = None" if "is_user_vaddr va" for va
      using absent_entry[OF t[OF that]] .
    ultimately show ?thesis using c f(1) by auto
  qed
qed

section \<open>What the operations leave alone\<close>

text \<open>At most page tables and pages of the kernel pool are touched.\<close>

definition only_tables :: "'a ram_scheme \<Rightarrow> 'a ram_scheme \<Rightarrow> bool" where
  "only_tables st st' \<longleftrightarrow> (\<exists>b B W. st' = st\<lparr>kernel_pool := (kernel_pool st)\<lparr>used_map := b\<rparr>, ram_bytes := B, ram_words := W\<rparr> \<and>
     bit_cnt b = pool_size (kernel_pool st) \<and>
     (\<forall>x. (\<forall>i < pool_size (kernel_pool st). pg_no x \<noteq> pg_no (pool_page (kernel_pool st) i)) \<longrightarrow> B x = ram_bytes st x))"

lemma only_tables_refl: "only_tables st st"
  unfolding only_tables_def by (intro exI[of _ "used_map (kernel_pool st)"] exI[of _ "ram_bytes st"] exI[of _ "ram_words st"])
    (simp add: pool_size_def)

lemma only_tables_word: "only_tables st st' \<Longrightarrow> only_tables st (set_word a w st')"
  unfolding only_tables_def set_word_def by fastforce

lemma only_tables_get:
  assumes ok: "ram_ok st" and g: "palloc_get_page fl st = Some (a, st')" and k: "fl AND PAL_USER = 0"
  shows "only_tables st st'"
proof -
  consider "palloc_get_page fl st = Some (0, st)" | a' st1 where "palloc_get_page fl st = Some (a', st1)" "got_pages fl 1 a' st st1"
    using palloc_get_multiple_spec[OF ok, of 1 fl] g unfolding palloc_get_page_def by (auto split: if_splits)
  then show ?thesis
  proof cases
    case 1
    then show ?thesis using g only_tables_refl by auto
  next
    case 2
    then have "got_pages fl 1 a st st'" using g by auto
    then obtain i b where h: "a = pool_page (kernel_pool st) i" "i < pool_size (kernel_pool st)"
        "bm_upd (used_map (kernel_pool st)) {i} True b"
        "st' = (if fl AND PAL_ZERO \<noteq> 0 then fill a 0 PGSIZE (set_pool False b st) else set_pool False b st)"
      unfolding got_pages_def Let_def by (auto simp: k flag_pool_def)
    have al: "pg_ofs a = 0" using h(1,2) ok by (simp add: pool_page_aligned ram_ok_def)
    have c: "bit_cnt b = pool_size (kernel_pool st)" using h(3) by (simp add: bm_upd_def pool_size_def)
    show ?thesis
    proof (cases "fl AND PAL_ZERO = 0")
      case True
      then have "st' = st\<lparr>kernel_pool := (kernel_pool st)\<lparr>used_map := b\<rparr>, ram_bytes := ram_bytes st, ram_words := ram_words st\<rparr>"
        by (simp add: h(4) set_pool_def)
      then show ?thesis unfolding only_tables_def using c by blast
    next
      case False
      let ?B = "\<lambda>x. if unat (x - a) < PGSIZE then 0 else ram_bytes st x"
      have "\<exists>W. st' = st\<lparr>kernel_pool := (kernel_pool st)\<lparr>used_map := b\<rparr>, ram_bytes := ?B, ram_words := W\<rparr>"
        using False by (auto simp: h(4) set_pool_def fill_def cong: if_cong)
      moreover have "?B x = ram_bytes st x" if "\<forall>i < pool_size (kernel_pool st). pg_no x \<noteq> pg_no (pool_page (kernel_pool st) i)" for x
        using that h(1,2) in_page_iff[OF al, of x] by auto
      ultimately show ?thesis unfolding only_tables_def using c by blast
    qed
  qed
qed

lemma lookup_page_rest:
  assumes ok: "ram_ok st" and l: "lookup_page pd va create st = Some (a, st')"
  shows "only_tables st st'"
proof -
  have fl: "PAL_ZERO AND PAL_USER = 0" by (simp add: PAL_ZERO_def PAL_USER_def)
  have "st' = st \<or> (\<exists>pt st1 p w. palloc_get_page PAL_ZERO st = Some (pt, st1) \<and> (st' = st1 \<or> st' = set_word p w st1))"
    using l unfolding lookup_page_def Let_def by (auto simp: bind_Some_iff split: if_splits)
  then show ?thesis
    using only_tables_refl only_tables_get[OF ok _ fl] only_tables_word by blast
qed

lemma pagedir_set_page_rest:
  assumes "ram_ok st" "pagedir_set_page pd u k w st = Some (r, st')"
  shows "only_tables st st'"
proof -
  obtain pte st1 where l: "lookup_page pd u True st = Some (pte, st1)" and s: "st' = st1 \<or> (\<exists>e. st' = set_word pte e st1)"
    using assms(2) unfolding pagedir_set_page_def by (auto simp: bind_Some_iff split: if_splits)
  then show ?thesis using lookup_page_rest[OF assms(1) l] only_tables_word by blast
qed

end
