(* ===== verification/Block.thy ===== *)
theory Block
  imports Bytes
begin

text \<open>
  \<open>devices/block.c\<close>: block devices, their roles, and reading and writing one sector. The driver
  behind \<open>ops\<close> is a disk: a map from sector numbers to the 512 bytes last written there
  (\<open>b_data\<close>). Sector numbers are natural numbers below \<open>2 ^ 32\<close>.
\<close>

definition BLOCK_SECTOR_SIZE :: nat where
  "BLOCK_SECTOR_SIZE = 512"

datatype block_type =
  BLOCK_KERNEL | BLOCK_FILESYS | BLOCK_SCRATCH | BLOCK_SWAP | BLOCK_RAW | BLOCK_FOREIGN

record block =
  b_name :: string
  b_type :: block_type
  b_size :: nat
  b_data :: "nat \<Rightarrow> byte list"
  b_read_cnt :: nat
  b_write_cnt :: nat

section \<open>Registered devices and roles\<close>

text \<open>\<open>all_blocks\<close> in probe order, by address, and \<open>block_by_role\<close>.\<close>

record blocks =
  block_at :: "nat \<Rightarrow> block option"
  all_blocks :: "nat list"
  block_by_role :: "block_type \<Rightarrow> nat option"

fun block_type_name :: "block_type \<Rightarrow> string" where
  "block_type_name BLOCK_KERNEL = ''kernel''"
| "block_type_name BLOCK_FILESYS = ''filesys''"
| "block_type_name BLOCK_SCRATCH = ''scratch''"
| "block_type_name BLOCK_SWAP = ''swap''"
| "block_type_name BLOCK_RAW = ''raw''"
| "block_type_name BLOCK_FOREIGN = ''foreign''"

text \<open>The types below \<open>BLOCK_ROLE_CNT\<close>.\<close>

definition is_role :: "block_type \<Rightarrow> bool" where
  "is_role r \<longleftrightarrow> r \<noteq> BLOCK_RAW \<and> r \<noteq> BLOCK_FOREIGN"

definition block_get_role :: "block_type \<Rightarrow> blocks \<Rightarrow> nat option option" where
  "block_get_role role st = do { ASSERT (is_role role); Some (block_by_role st role) }"

definition block_set_role :: "block_type \<Rightarrow> nat option \<Rightarrow> blocks \<Rightarrow> blocks option" where
  "block_set_role role b st = do {
     ASSERT (is_role role);
     Some (st\<lparr>block_by_role := (block_by_role st)(role := b)\<rparr>) }"

text \<open>The list element after \<open>all_blocks\<close>'s last one is the null pointer.\<close>

definition list_elem_to_block :: "nat list \<Rightarrow> nat option" where
  "list_elem_to_block bs = (case bs of [] \<Rightarrow> None | b # _ \<Rightarrow> Some b)"

definition block_first :: "blocks \<Rightarrow> nat option" where
  "block_first st = list_elem_to_block (all_blocks st)"

definition block_next :: "nat \<Rightarrow> blocks \<Rightarrow> nat option" where
  "block_next b st = list_elem_to_block (tl (dropWhile (\<lambda>c. c \<noteq> b) (all_blocks st)))"

definition block_get_by_name :: "string \<Rightarrow> blocks \<Rightarrow> nat option" where
  "block_get_by_name name st =
     List.find (\<lambda>b. map_option b_name (block_at st b) = Some name) (all_blocks st)"

text \<open>\<open>malloc\<close> gives the address \<open>mem\<close>, or fails. The name is cut to 15 characters; what the
  disk holds is \<open>contents\<close>.\<close>

definition block_register ::
    "nat option \<Rightarrow> string \<Rightarrow> block_type \<Rightarrow> nat \<Rightarrow> (nat \<Rightarrow> byte list) \<Rightarrow> blocks \<Rightarrow> (nat \<times> blocks) option" where
  "block_register mem name typ sectors contents st = do {
     b \<leftarrow> mem;
     Some (b, st\<lparr>block_at := (block_at st)(b \<mapsto>
         \<lparr>b_name = take 15 name, b_type = typ, b_size = sectors, b_data = contents, b_read_cnt = 0, b_write_cnt = 0\<rparr>),
       all_blocks := all_blocks st @ [b]\<rparr>) }"

section \<open>Sectors\<close>

definition check_sector :: "block \<Rightarrow> nat \<Rightarrow> unit option" where
  "check_sector b sector = ASSERT (\<not> sector \<ge> b_size b)"

definition block_read :: "block \<Rightarrow> nat \<Rightarrow> (byte list \<times> block) option" where
  "block_read b sector = do {
     _ \<leftarrow> check_sector b sector;
     Some (b_data b sector, b\<lparr>b_read_cnt := b_read_cnt b + 1\<rparr>) }"

definition block_write :: "block \<Rightarrow> nat \<Rightarrow> byte list \<Rightarrow> block option" where
  "block_write b sector buffer = do {
     _ \<leftarrow> check_sector b sector;
     ASSERT (b_type b \<noteq> BLOCK_FOREIGN);
     Some (b\<lparr>b_data := (b_data b)(sector := buffer), b_write_cnt := b_write_cnt b + 1\<rparr>) }"

definition block_size :: "block \<Rightarrow> nat" where
  "block_size b = b_size b"

definition block_name :: "block \<Rightarrow> string" where
  "block_name b = b_name b"

definition block_type_of :: "block \<Rightarrow> block_type" where
  "block_type_of b = b_type b"

section \<open>The device as a store of sectors\<close>

text \<open>
  The contract of anything that keeps sectors: reading gives what was written last to that
  sector, and a write changes no other. The device is one, and the buffer cache is another.
\<close>

primrec upd_all :: "('n \<times> 'd) list \<Rightarrow> ('n \<Rightarrow> 'd) \<Rightarrow> 'n \<Rightarrow> 'd" where
  "upd_all [] v = v"
| "upd_all (x # xs) v = upd_all xs (v(fst x := snd x))"

lemma upd_all_notin: "n \<notin> fst ` set xs \<Longrightarrow> upd_all xs v n = v n"
  by (induction xs arbitrary: v) auto

lemma upd_all_distinct: "distinct (map fst xs) \<Longrightarrow> (n, d) \<in> set xs \<Longrightarrow> upd_all xs v n = d"
proof (induction xs arbitrary: v)
  case (Cons x xs)
  show ?case
  proof (cases "x = (n, d)")
    case True
    then show ?thesis using Cons.prems upd_all_notin[of n xs "v(n := d)"] by simp
  qed (use Cons in auto)
qed simp

locale sector_store =
  fixes inv :: "'s \<Rightarrow> bool"
    and ok :: "'s \<Rightarrow> nat \<Rightarrow> bool"
    and view :: "'s \<Rightarrow> nat \<Rightarrow> byte list"
    and get :: "nat \<Rightarrow> 's \<Rightarrow> (byte list \<times> 's) option"
    and put :: "nat \<Rightarrow> byte list \<Rightarrow> 's \<Rightarrow> 's option"
  assumes get_view: "inv s \<Longrightarrow> ok s n \<Longrightarrow> \<exists>s'. get n s = Some (view s n, s') \<and> inv s' \<and> view s' = view s \<and> ok s' = ok s"
    and put_view: "inv s \<Longrightarrow> ok s n \<Longrightarrow> length d = 512 \<Longrightarrow>
      \<exists>s'. put n d s = Some s' \<and> inv s' \<and> view s' = (view s)(n := d) \<and> ok s' = ok s"
begin

primrec get_all :: "nat list \<Rightarrow> 's \<Rightarrow> (byte list list \<times> 's) option" where
  "get_all [] s = Some ([], s)"
| "get_all (n # ns) s = do { (d, s) \<leftarrow> get n s; (ds, s) \<leftarrow> get_all ns s; Some (d # ds, s) }"

primrec put_all :: "(nat \<times> byte list) list \<Rightarrow> 's \<Rightarrow> 's option" where
  "put_all [] s = Some s"
| "put_all (x # xs) s = do { s \<leftarrow> put (fst x) (snd x) s; put_all xs s }"

lemma get_all_view:
  "inv s \<Longrightarrow> \<forall>n\<in>set ns. ok s n \<Longrightarrow>
   \<exists>s'. get_all ns s = Some (map (view s) ns, s') \<and> inv s' \<and> view s' = view s \<and> ok s' = ok s"
proof (induction ns arbitrary: s)
  case (Cons n ns)
  obtain s1 where s1: "get n s = Some (view s n, s1)" "inv s1" "view s1 = view s" "ok s1 = ok s"
    using get_view[of s n] Cons.prems by auto
  then obtain s2 where "get_all ns s1 = Some (map (view s1) ns, s2)" "inv s2" "view s2 = view s1" "ok s2 = ok s1"
    using Cons.IH[of s1] Cons.prems by auto
  then show ?case using s1 by simp
qed simp

lemma put_all_view:
  "inv s \<Longrightarrow> \<forall>x\<in>set xs. ok s (fst x) \<and> length (snd x) = 512 \<Longrightarrow>
   \<exists>s'. put_all xs s = Some s' \<and> inv s' \<and> view s' = upd_all xs (view s) \<and> ok s' = ok s"
proof (induction xs arbitrary: s)
  case (Cons x xs)
  obtain s1 where s1: "put (fst x) (snd x) s = Some s1" "inv s1" "view s1 = (view s)(fst x := snd x)" "ok s1 = ok s"
    using put_view[of s "fst x" "snd x"] Cons.prems by auto
  then obtain s2 where "put_all xs s1 = Some s2" "inv s2"
    "view s2 = upd_all xs (view s1)" "ok s2 = ok s1"
    using Cons.IH[of s1] Cons.prems by (auto simp del: fun_upd_apply)
  then show ?case using s1 by simp
qed simp

text \<open>Writing some distinct sectors and reading them back.\<close>

lemma put_all_get_all:
  assumes "inv s" "\<forall>x\<in>set xs. ok s (fst x) \<and> length (snd x) = 512" "distinct (map fst xs)"
  shows "\<exists>s' s''. put_all xs s = Some s' \<and> get_all (map fst xs) s' = Some (map snd xs, s'')"
proof -
  obtain s' where s': "put_all xs s = Some s'" "inv s'"
    "view s' = upd_all xs (view s)" "ok s' = ok s"
    using put_all_view[OF assms(1,2)] by blast
  obtain s'' where "get_all (map fst xs) s' = Some (map (view s') (map fst xs), s'')"
    using get_all_view[OF s'(2), of "map fst xs"] s'(4) assms(2) by auto
  moreover have "map (view s') (map fst xs) = map snd xs"
    using s'(3) upd_all_distinct[OF assms(3)] by auto
  ultimately show ?thesis using s'(1) by auto
qed

end

definition dev_inv :: "block \<Rightarrow> bool" where
  "dev_inv b \<longleftrightarrow> b_type b \<noteq> BLOCK_FOREIGN"

definition dev_ok :: "block \<Rightarrow> nat \<Rightarrow> bool" where
  "dev_ok b n \<longleftrightarrow> n < b_size b"

lemma block_read_Some: "block_read b n = (if n < b_size b then Some (b_data b n, b\<lparr>b_read_cnt := b_read_cnt b + 1\<rparr>) else None)"
  by (simp add: block_read_def check_sector_def)

lemma block_write_Some: "dev_inv b \<Longrightarrow> block_write b n d = (if n < b_size b
    then Some (b\<lparr>b_data := (b_data b)(n := d), b_write_cnt := b_write_cnt b + 1\<rparr>) else None)"
  by (simp add: block_write_def check_sector_def dev_inv_def)

interpretation dev: sector_store dev_inv dev_ok b_data "\<lambda>n b. block_read b n" "\<lambda>n d b. block_write b n d"
  by unfold_locales (auto simp: dev_inv_def dev_ok_def block_read_Some block_write_Some fun_eq_iff)

end
