(* ===== verification/Swap.thy ===== *)
theory Swap
  imports Pagedir Block
begin

text \<open>
  Memory accesses through the page tables, as the processor makes them, and \<open>vm/swap.c\<close> of
  project 3: the swap table, a bitmap with one bit for every eight sectors of the swap device.
  \<open>swap_lock\<close> is a leaf lock that is held for the whole of an operation, which is one step here.
\<close>

section \<open>Accesses through the page tables\<close>

text \<open>A kernel address is its own frame address; a user address goes through the tables of the
  active directory, which sets the accessed and dirty bits. \<^const>\<open>None\<close> is a page fault; the kernel
  runs with write protection on, so a write to a read-only page faults also there.\<close>

definition mmu :: "bool \<Rightarrow> vaddr \<Rightarrow> 'a paging_scheme \<Rightarrow> (vaddr \<times> 'a paging_scheme) option" where
  "mmu write va st =
     (if is_kernel_vaddr va then Some (va, st)
      else do {
        pd \<leftarrow> active_pd st;
        let e = entry st pd va;
        ASSERT (e AND PTE_P \<noteq> 0 \<and> (write \<longrightarrow> e AND PTE_W \<noteq> 0));
        page \<leftarrow> pte_get_page e;
        Some (page + pg_ofs va, set_word (entry_addr st pd va) (e OR PTE_A OR (if write then PTE_D else 0)) st) })"

text \<open>Reading and writing a range that does not cross the end of a page.\<close>

definition mem_read :: "vaddr \<Rightarrow> nat \<Rightarrow> 'a paging_scheme \<Rightarrow> (byte list \<times> 'a paging_scheme) option" where
  "mem_read va n st = do { (a, st) \<leftarrow> mmu False va st; Some (peek st a n, st) }"

definition mem_write :: "vaddr \<Rightarrow> byte list \<Rightarrow> 'a paging_scheme \<Rightarrow> 'a paging_scheme option" where
  "mem_write va bs st = do { (a, st) \<leftarrow> mmu True va st; Some (poke a bs st) }"

section \<open>The swap table\<close>

record vmem = paging +
  swap_block :: "block option"
  swap_bitmap :: "bitmap option"

definition SECTORS_PER_PAGE :: nat where
  "SECTORS_PER_PAGE = PGSIZE div BLOCK_SECTOR_SIZE"

text \<open>The device with the swap role, and the two \<open>malloc\<close> results of \<open>bitmap_create\<close>, are arguments.\<close>

definition swap_init :: "block option \<Rightarrow> bool \<Rightarrow> elem_type list option \<Rightarrow> 'a vmem_scheme \<Rightarrow> 'a vmem_scheme option" where
  "swap_init dev got_struct got_bits st = do {
     let st = st\<lparr>swap_block := dev\<rparr>;
     case dev of None \<Rightarrow> Some st
     | Some d \<Rightarrow> do {
         b \<leftarrow> bitmap_create got_struct got_bits (block_size d div SECTORS_PER_PAGE);
         let st = st\<lparr>swap_bitmap := b\<rparr>;
         case b of None \<Rightarrow> Some st
         | Some b \<Rightarrow> do { b \<leftarrow> bitmap_set_all b False; Some (st\<lparr>swap_bitmap := Some b\<rparr>) } } }"

primrec write_page :: "nat list \<Rightarrow> nat \<Rightarrow> vaddr \<Rightarrow> block \<Rightarrow> 'a vmem_scheme \<Rightarrow> (block \<times> 'a vmem_scheme) option" where
  "write_page [] idx frame dev st = Some (dev, st)"
| "write_page (i # is) idx frame dev st = do {
     (bs, st) \<leftarrow> mem_read (frame + word_of_nat (i * BLOCK_SECTOR_SIZE)) BLOCK_SECTOR_SIZE st;
     dev \<leftarrow> block_write dev (idx * SECTORS_PER_PAGE + i) bs;
     write_page is idx frame dev st }"

primrec read_page :: "nat list \<Rightarrow> nat \<Rightarrow> vaddr \<Rightarrow> block \<Rightarrow> 'a vmem_scheme \<Rightarrow> (block \<times> 'a vmem_scheme) option" where
  "read_page [] idx frame dev st = Some (dev, st)"
| "read_page (i # is) idx frame dev st = do {
     (bs, dev) \<leftarrow> block_read dev (idx * SECTORS_PER_PAGE + i);
     st \<leftarrow> mem_write (frame + word_of_nat (i * BLOCK_SECTOR_SIZE)) bs st;
     read_page is idx frame dev st }"

definition swap_out :: "vaddr \<Rightarrow> 'a vmem_scheme \<Rightarrow> (nat \<times> 'a vmem_scheme) option" where
  "swap_out frame st = do {
     dev \<leftarrow> swap_block st;
     b \<leftarrow> swap_bitmap st;
     (free_index, b) \<leftarrow> bitmap_scan_and_flip b 0 1 False;
     ASSERT (free_index \<noteq> BITMAP_ERROR);
     (dev, st) \<leftarrow> write_page [0..<SECTORS_PER_PAGE] free_index frame dev st;
     Some (free_index, st\<lparr>swap_block := Some dev, swap_bitmap := Some b\<rparr>) }"

definition swap_in :: "nat \<Rightarrow> vaddr \<Rightarrow> 'a vmem_scheme \<Rightarrow> 'a vmem_scheme option" where
  "swap_in used_index frame st = do {
     dev \<leftarrow> swap_block st;
     b \<leftarrow> swap_bitmap st;
     used \<leftarrow> bitmap_test b used_index;
     ASSERT used;
     let b = bitmap_flip b used_index;
     (dev, st) \<leftarrow> read_page [0..<SECTORS_PER_PAGE] used_index frame dev st;
     Some (st\<lparr>swap_block := Some dev, swap_bitmap := Some b\<rparr>) }"

section \<open>Transfers\<close>

lemma SPP_val: "SECTORS_PER_PAGE = 8"
  by (simp add: SECTORS_PER_PAGE_def PGSIZE_val BLOCK_SECTOR_SIZE_def)

text \<open>The \<open>n\<close>-th sector of a page.\<close>

lemma sector_offset:
  assumes "m < 8"
  shows "unat (x - (a + word_of_nat (m * 512)) :: 32 word) < 512 \<longleftrightarrow> unat (x - a) div 512 = m"
    "unat (x - a) div 512 = m \<Longrightarrow> unat (x - (a + word_of_nat (m * 512)) :: 32 word) = unat (x - a) mod 512"
proof -
  define y where "y = x - a"
  have e: "x - (a + word_of_nat (m * 512)) = y - word_of_nat (m * 512)" by (simp add: y_def algebra_simps)
  have c: "unat (word_of_nat (m * 512) :: 32 word) = m * 512" using assms by (simp only: unat_of_nat) simp
  have lt: "unat y < 4294967296" by (rule unat32)
  have u: "unat (y - word_of_nat (m * 512)) = (if m * 512 \<le> unat y then unat y - m * 512 else unat y + 4294967296 - m * 512)"
    using unat_sub_if'[of y "word_of_nat (m * 512)"] unfolding c by (simp add: word_le_nat_alt[symmetric])
  have d: "unat y = 512 * (unat y div 512) + unat y mod 512" "unat y mod 512 < 512" by simp_all
  have 1: "m * 512 \<le> unat y \<and> unat y - m * 512 < 512 \<longleftrightarrow> unat y div 512 = m"
    using d by linarith
  have 2: "\<not> unat y + 4294967296 - m * 512 < 512" using assms by simp
  show "unat (x - (a + word_of_nat (m * 512))) < 512 \<longleftrightarrow> unat (x - a) div 512 = m"
    unfolding e u y_def[symmetric] using 1 2 by presburger
  show "unat (x - a) div 512 = m \<Longrightarrow> unat (x - (a + word_of_nat (m * 512))) = unat (x - a) mod 512"
    unfolding e u y_def[symmetric] using d(1) by auto
qed

text \<open>A page at the address \<open>va\<close> that the processor finds in the frame \<open>a\<close>, as long as \<open>J\<close> holds.\<close>

definition page_at :: "bool \<Rightarrow> ('a vmem_scheme \<Rightarrow> bool) \<Rightarrow> vaddr \<Rightarrow> vaddr \<Rightarrow> bool" where
  "page_at write J va a \<longleftrightarrow> (\<forall>st k. J st \<and> k < PGSIZE \<longrightarrow> (\<exists>st'. mmu write (va + word_of_nat k) st = Some (a + word_of_nat k, st') \<and>
     J st' \<and> ram_bytes st' = ram_bytes st)) \<and> (\<forall>st f. J st \<longrightarrow> J (st\<lparr>ram_bytes := f\<rparr>)) \<and>
     (\<forall>st d b. J st \<longrightarrow> J (st\<lparr>swap_block := d, swap_bitmap := b\<rparr>))"

definition dev_wf :: "block \<Rightarrow> bool" where
  "dev_wf d \<longleftrightarrow> dev_inv d \<and> (\<forall>n. length (b_data d n) = BLOCK_SECTOR_SIZE)"

text \<open>The byte \<open>j\<close> of the page in the swap slot \<open>idx\<close>.\<close>

definition slot_byte :: "block \<Rightarrow> nat \<Rightarrow> nat \<Rightarrow> byte" where
  "slot_byte d idx j = b_data d (idx * SECTORS_PER_PAGE + j div BLOCK_SECTOR_SIZE) ! (j mod BLOCK_SECTOR_SIZE)"

lemma read_page_spec:
  assumes "page_at True J va a" "J st" "dev_wf d" "idx * 8 + 8 \<le> b_size d" "m \<le> 8"
  shows "\<exists>d' st'. read_page [m..<8] idx va d st = Some (d', st') \<and> J st' \<and> b_data d' = b_data d \<and> dev_wf d' \<and>
    b_size d' = b_size d \<and>
    (\<forall>x. ram_bytes st' x = (if m \<le> unat (x - a) div 512 \<and> unat (x - a) < PGSIZE then slot_byte d idx (unat (x - a)) else ram_bytes st x))"
  using assms(2-)
proof (induction "8 - m" arbitrary: m st d)
  case 0
  then have m: "m = 8" by simp
  have "\<not> (8 \<le> u div 512 \<and> u < 4096)" for u :: nat
    using div_less_iff_less_mult[of 512 u 8] by auto
  then show ?case using 0 by (auto simp: m PGSIZE_val)
next
  case (Suc n)
  then have m: "m < 8" by simp
  then have "m * 512 < PGSIZE" by (simp add: PGSIZE_val)
  then obtain st1 where st1: "mmu True (va + word_of_nat (m * 512)) st = Some (a + word_of_nat (m * 512), st1)"
      "J st1" "ram_bytes st1 = ram_bytes st"
    using assms(1) Suc.prems(1) unfolding page_at_def by blast
  let ?bs = "b_data d (idx * 8 + m)" and ?d1 = "d\<lparr>b_read_cnt := b_read_cnt d + 1\<rparr>"
  let ?st2 = "poke (a + word_of_nat (m * 512)) ?bs st1"
  have len: "length ?bs = 512" using Suc.prems(2) by (simp add: dev_wf_def BLOCK_SECTOR_SIZE_def)
  have J2: "J ?st2" using assms(1) st1(2) unfolding page_at_def poke_def by blast
  have rd: "block_read d (idx * 8 + m) = Some (?bs, ?d1)" using Suc.prems(3) m by (simp add: block_read_Some)
  have n: "n = 8 - Suc m" and m': "Suc m \<le> 8" using Suc.hyps(2) by simp_all
  have wf: "dev_wf ?d1" using Suc.prems(2) by (simp add: dev_wf_def dev_inv_def)
  have size: "idx * 8 + 8 \<le> b_size ?d1" using Suc.prems(3) by simp
  obtain d' st' where r: "read_page [Suc m..<8] idx va ?d1 ?st2 = Some (d', st')" "J st'" "b_data d' = b_data d"
      "dev_wf d'" "b_size d' = b_size d" "\<And>x. ram_bytes st' x = (if Suc m \<le> unat (x - a) div 512 \<and> unat (x - a) < PGSIZE
         then slot_byte d idx (unat (x - a)) else ram_bytes ?st2 x)"
    using Suc.hyps(1)[OF n J2 wf size m'] unfolding slot_byte_def by auto
  have "read_page [m..<8] idx va d st = Some (d', st')"
    using m r(1) rd st1(1) by (simp add: upt_conv_Cons SPP_val BLOCK_SECTOR_SIZE_def mem_write_def)
  moreover have "ram_bytes st' x = (if m \<le> unat (x - a) div 512 \<and> unat (x - a) < PGSIZE
      then slot_byte d idx (unat (x - a)) else ram_bytes st x)" for x
  proof -
    have "ram_bytes ?st2 x = (if unat (x - a) div 512 = m then slot_byte d idx (unat (x - a)) else ram_bytes st x)"
      using sector_offset[OF m, of x a] by (simp add: poke_def len st1(3) slot_byte_def SPP_val BLOCK_SECTOR_SIZE_def)
    moreover have "unat (x - a) div 512 = m \<Longrightarrow> unat (x - a) < PGSIZE"
      using m div_less_iff_less_mult[of 512 "unat (x - a)" 8] by (simp add: PGSIZE_val)
    ultimately show ?thesis unfolding r(6) by auto
  qed
  ultimately show ?case using r by blast
qed

lemma write_page_spec:
  assumes "page_at False J va a" "J st" "dev_wf d" "idx * 8 + 8 \<le> b_size d" "m \<le> 8"
  shows "\<exists>d' st'. write_page [m..<8] idx va d st = Some (d', st') \<and> J st' \<and> ram_bytes st' = ram_bytes st \<and>
    dev_wf d' \<and> b_size d' = b_size d \<and>
    (\<forall>s. b_data d' s = (if idx * 8 + m \<le> s \<and> s < idx * 8 + 8
      then peek st (a + word_of_nat ((s - idx * 8) * 512)) 512 else b_data d s))"
  using assms(2-)
proof (induction "8 - m" arbitrary: m st d)
  case 0
  then show ?case by auto
next
  case (Suc n)
  then have m: "m < 8" by simp
  then have "m * 512 < PGSIZE" by (simp add: PGSIZE_val)
  then obtain st1 where st1: "mmu False (va + word_of_nat (m * 512)) st = Some (a + word_of_nat (m * 512), st1)"
      "J st1" "ram_bytes st1 = ram_bytes st"
    using assms(1) Suc.prems(1) unfolding page_at_def by blast
  let ?bs = "peek st (a + word_of_nat (m * 512)) 512"
  let ?d1 = "d\<lparr>b_data := (b_data d)(idx * 8 + m := ?bs), b_write_cnt := b_write_cnt d + 1\<rparr>"
  have pk: "peek st1 b n = peek st b n" for b n by (simp add: peek_def st1(3))
  have wr: "block_write d (idx * 8 + m) ?bs = Some ?d1"
    using Suc.prems(2,3) m by (simp add: block_write_Some dev_wf_def)
  have n: "n = 8 - Suc m" and m': "Suc m \<le> 8" using Suc.hyps(2) by simp_all
  have wf: "dev_wf ?d1" using Suc.prems(2) by (simp add: dev_wf_def dev_inv_def peek_def BLOCK_SECTOR_SIZE_def)
  have size: "idx * 8 + 8 \<le> b_size ?d1" using Suc.prems(3) by simp
  obtain d' st' where r: "write_page [Suc m..<8] idx va ?d1 st1 = Some (d', st')" "J st'" "ram_bytes st' = ram_bytes st1"
      "dev_wf d'" "b_size d' = b_size d" "\<And>s. b_data d' s = (if idx * 8 + Suc m \<le> s \<and> s < idx * 8 + 8
         then peek st1 (a + word_of_nat ((s - idx * 8) * 512)) 512 else b_data ?d1 s)"
    using Suc.hyps(1)[OF n st1(2) wf size m'] by auto
  have "write_page [m..<8] idx va d st = Some (d', st')"
    using m r(1) wr st1(1) by (simp add: upt_conv_Cons SPP_val BLOCK_SECTOR_SIZE_def mem_read_def pk)
  moreover have "b_data d' s = (if idx * 8 + m \<le> s \<and> s < idx * 8 + 8
      then peek st (a + word_of_nat ((s - idx * 8) * 512)) 512 else b_data d s)" for s
    using m unfolding r(6) pk by (cases "s = idx * 8 + m") auto
  ultimately show ?case using r st1(3) by auto
qed

lemma kernel_page_at:
  assumes a: "is_kernel_vaddr a" "pg_ofs a = 0"
    and J: "\<And>st f. J st \<Longrightarrow> J (st\<lparr>ram_bytes := f\<rparr>)" "\<And>st d b. J st \<Longrightarrow> J (st\<lparr>swap_block := d, swap_bitmap := b\<rparr>)"
  shows "page_at w J a a"
proof -
  have "is_kernel_vaddr (a + word_of_nat k)" if k: "k < PGSIZE" for k
  proof -
    obtain m where m: "unat a = 4096 * m" using a(2) by (auto simp: aligned_dvd PGSIZE_val elim: dvdE)
    then have "m < 1048576" using unat32[of a] by simp
    then have "unat a + k < 4294967296" using m k by (simp add: PGSIZE_val)
    then have "unat (a + word_of_nat k) = unat a + k"
      using unat_of_nat[of "unat a + k", where 'a = 32] by simp
    then show ?thesis using a(1) by (simp add: is_kernel_vaddr_def word_le_nat_alt)
  qed
  then show ?thesis using J by (auto simp: page_at_def mmu_def)
qed

section \<open>Swapping\<close>

definition swap_ok :: "'a vmem_scheme \<Rightarrow> bool" where
  "swap_ok st \<longleftrightarrow> (\<exists>d b. swap_block st = Some d \<and> swap_bitmap st = Some b \<and> dev_wf d \<and> bm_wf b \<and>
     bit_cnt b * SECTORS_PER_PAGE \<le> b_size d)"

definition swap_used :: "'a vmem_scheme \<Rightarrow> nat set" where
  "swap_used st = bm_used (the (swap_bitmap st))"

definition swap_slots :: "'a vmem_scheme \<Rightarrow> nat" where
  "swap_slots st = bit_cnt (the (swap_bitmap st))"

definition swap_page :: "'a vmem_scheme \<Rightarrow> nat \<Rightarrow> byte list" where
  "swap_page st idx = map (slot_byte (the (swap_block st)) idx) [0..<PGSIZE]"

lemma slot_bound: "bit_cnt b * SECTORS_PER_PAGE \<le> n \<Longrightarrow> i < bit_cnt b \<Longrightarrow> i * 8 + 8 \<le> n"
  by (simp add: SPP_val)

lemma swap_out_spec:
  assumes ok: "swap_ok st" and p: "page_at False J va a" "J st"
  shows "if (\<exists>i < swap_slots st. i \<notin> swap_used st)
    then \<exists>i st'. swap_out va st = Some (i, st') \<and> i < swap_slots st \<and> i \<notin> swap_used st \<and>
      swap_used st' = insert i (swap_used st) \<and> swap_slots st' = swap_slots st \<and> swap_ok st' \<and> J st' \<and>
      ram_bytes st' = ram_bytes st \<and> swap_page st' i = peek st a PGSIZE \<and>
      (\<forall>j. j \<noteq> i \<longrightarrow> swap_page st' j = swap_page st j)
    else swap_out va st = None"
proof -
  obtain d b where s: "swap_block st = Some d" "swap_bitmap st = Some b" "dev_wf d" "bm_wf b"
      "bit_cnt b * SECTORS_PER_PAGE \<le> b_size d" using ok by (auto simp: swap_ok_def)
  obtain r b' where r: "bitmap_scan_and_flip b 0 1 False = Some (r, b')"
    using bitmap_scan_and_flip_returns[OF s(4)] by blast
  show ?thesis
  proof (cases "r = BITMAP_ERROR")
    case True
    note e = bitmap_scan_and_flip_none(2)[OF s(4) _ r[unfolded True], simplified]
    have "\<not> (\<exists>i < swap_slots st. i \<notin> swap_used st)"
      using e by (auto simp: swap_slots_def swap_used_def s(2) bm_used_def all_bits_def)
    moreover have "swap_out va st = None" using r True by (simp add: swap_out_def s(1,2))
    ultimately show ?thesis by simp
  next
    case False
    note f = bitmap_scan_and_flip_found[OF s(4) _ r False, simplified]
    have fr: "r < bit_cnt b" "r \<notin> bm_used b" using f(2,3) by (auto simp: bm_used_def all_bits_def)
    obtain d' st1 where w: "write_page [0..<8] r va d st = Some (d', st1)" "J st1" "ram_bytes st1 = ram_bytes st"
        "dev_wf d'" "b_size d' = b_size d"
        "\<And>n. b_data d' n = (if r * 8 \<le> n \<and> n < r * 8 + 8 then peek st (a + word_of_nat ((n - r * 8) * 512)) 512 else b_data d n)"
      using write_page_spec[OF p s(3) slot_bound[OF s(5) fr(1)], of 0] by auto
    let ?st' = "st1\<lparr>swap_block := Some d', swap_bitmap := Some b'\<rparr>"
    have so: "swap_out va st = Some (r, ?st')"
      using r False w(1) by (simp add: swap_out_def s(1,2) SPP_val)
    have u: "bm_used b' = insert r (bm_used b)" "bm_wf b'" "bit_cnt b' = bit_cnt b"
      using f(4) fr by (auto simp: bm_upd_def bm_used_def)
    have new: "slot_byte d' r j = ram_bytes st (a + word_of_nat j)" if j: "j < PGSIZE" for j
    proof -
      have "j div 512 < 8" using j by (simp add: PGSIZE_val div_less_iff_less_mult)
      moreover have "word_of_nat (j div 512) * 512 + word_of_nat (j mod 512) = (word_of_nat j :: 32 word)"
      proof -
        have "(word_of_nat j :: 32 word) = word_of_nat (j div 512 * 512 + j mod 512)" by (simp only: div_mult_mod_eq)
        then show ?thesis by (simp only: of_nat_add of_nat_mult of_nat_numeral)
      qed
      ultimately show ?thesis
        by (simp add: slot_byte_def SPP_val BLOCK_SECTOR_SIZE_def w(6) peek_def add.assoc)
    qed
    have old: "slot_byte d' k j = slot_byte d k j" if k: "k \<noteq> r" "j < PGSIZE" for k j
    proof -
      have "j div 512 < 8" using k by (simp add: PGSIZE_val div_less_iff_less_mult)
      then have "\<not> (r * 8 \<le> k * 8 + j div 512 \<and> k * 8 + j div 512 < r * 8 + 8)" using k(1) by linarith
      then have "b_data d' (k * 8 + j div 512) = b_data d (k * 8 + j div 512)" unfolding w(6) by (rule if_not_P)
      then show ?thesis by (simp only: slot_byte_def SPP_val BLOCK_SECTOR_SIZE_def)
    qed
    have "swap_page ?st' r = peek st a PGSIZE" using new by (auto simp: swap_page_def peek_def)
    moreover have "swap_page ?st' k = swap_page st k" if "k \<noteq> r" for k
      using old[OF that] by (auto simp: swap_page_def s(1))
    moreover have "swap_ok ?st'" using w(4,5) u(2,3) s(5) by (simp add: swap_ok_def)
    moreover have "J ?st'" using p(1) w(2) unfolding page_at_def by blast
    moreover have "\<exists>i < swap_slots st. i \<notin> swap_used st"
      using fr by (auto simp: swap_slots_def swap_used_def s(2))
    moreover have "r < swap_slots st \<and> r \<notin> swap_used st \<and> swap_used ?st' = insert r (swap_used st) \<and>
        swap_slots ?st' = swap_slots st \<and> ram_bytes ?st' = ram_bytes st"
      using fr u w(3) by (simp add: swap_slots_def swap_used_def s(2))
    ultimately show ?thesis using so by (simp only: if_True) blast
  qed
qed

lemma swap_in_spec:
  assumes ok: "swap_ok st" and p: "page_at True J va a" "J st" and i: "i \<in> swap_used st"
  shows "\<exists>st'. swap_in i va st = Some st' \<and> swap_used st' = swap_used st - {i} \<and> swap_slots st' = swap_slots st \<and>
    swap_ok st' \<and> J st' \<and> (\<forall>j. swap_page st' j = swap_page st j) \<and>
    (\<forall>x. ram_bytes st' x = (if unat (x - a) < PGSIZE then swap_page st i ! unat (x - a) else ram_bytes st x))"
proof -
  obtain d b where s: "swap_block st = Some d" "swap_bitmap st = Some b" "dev_wf d" "bm_wf b"
      "bit_cnt b * SECTORS_PER_PAGE \<le> b_size d" using ok by (auto simp: swap_ok_def)
  have ib: "i < bit_cnt b" "bm_bit b i" using i by (auto simp: swap_used_def s(2) bm_used_def)
  obtain d' st1 where r: "read_page [0..<8] i va d st = Some (d', st1)" "J st1" "b_data d' = b_data d" "dev_wf d'"
      "b_size d' = b_size d" "\<And>x. ram_bytes st1 x = (if unat (x - a) < PGSIZE then slot_byte d i (unat (x - a)) else ram_bytes st x)"
    using read_page_spec[OF p s(3) slot_bound[OF s(5) ib(1)], of 0] by auto
  let ?b = "bitmap_flip b i"
  have u: "bm_used ?b = bm_used b - {i}" "bm_wf ?b" "bit_cnt ?b = bit_cnt b"
    using bm_bit_ops(3)[OF s(4) ib(1)] ib s(4) by (auto simp: bm_used_def bitmap_flip_def)
  let ?st' = "st1\<lparr>swap_block := Some d', swap_bitmap := Some ?b\<rparr>"
  have "swap_in i va st = Some ?st'"
    using bitmap_test_bit[OF s(4) ib(1)] ib(2) r(1) by (simp add: swap_in_def s(1,2) SPP_val Let_def)
  moreover have "J ?st'" using p(1) r(2) unfolding page_at_def by blast
  moreover have "swap_ok ?st'" using r(4,5) u(2,3) s(5) by (simp add: swap_ok_def)
  moreover have "swap_page ?st' j = swap_page st j" for j
    using r(3) by (simp add: swap_page_def s(1) slot_byte_def)
  moreover have "swap_used ?st' = swap_used st - {i} \<and> swap_slots ?st' = swap_slots st"
    using u by (simp add: swap_used_def swap_slots_def s(2))
  moreover have "ram_bytes ?st' x = (if unat (x - a) < PGSIZE then swap_page st i ! unat (x - a) else ram_bytes st x)" for x
    using r(6)[of x] by (simp add: swap_page_def s(1))
  ultimately show ?thesis by (intro exI[of _ ?st']) simp
qed

text \<open>What a page holds after it has been read back.\<close>

lemma peek_eq: "(\<And>x. ram_bytes st x = (if unat (x - a) < n then p ! unat (x - a) else g x)) \<Longrightarrow> length p = n \<Longrightarrow> n \<le> 2 ^ 32 \<Longrightarrow>
  peek st a n = p"
proof -
  assume a: "\<And>x. ram_bytes st x = (if unat (x - a) < n then p ! unat (x - a) else g x)" "length p = n" "n \<le> 2 ^ 32"
  have "unat (word_of_nat k :: 32 word) = k" if "k < n" for k using that a(3) by (simp add: unat_of_nat)
  then show ?thesis using a(1,2) by (intro nth_equalityI) (simp_all add: peek_def)
qed

lemma length_swap_page [simp]: "length (swap_page st i) = PGSIZE"
  by (simp add: swap_page_def)

end
