(* ===== verification/HashTable.thy ===== *)
theory HashTable
  imports Prelude
begin

text \<open>
  \<open>lib/kernel/hash.c\<close>: the chained hash table with automatic resizing. Buckets are lists (the
  lists of \<open>list.c\<close>); the callbacks \<open>hash\<close> and \<open>less\<close> are arguments of the operations; whether
  a \<open>malloc\<close> call succeeds is an argument as well. Under the contract of the callbacks (locale
  \<open>hash_keys\<close>) the table implements a finite map from keys to elements.
\<close>

unbundle bit_operations_syntax

record 'e htab =
  elem_cnt :: nat
  bucket_cnt :: "32 word"
  buckets :: "'e list list"

section \<open>Hash functions\<close>

definition FNV_32_PRIME :: "32 word" where "FNV_32_PRIME = 16777619"
definition FNV_32_BASIS :: "32 word" where "FNV_32_BASIS = 2166136261"

definition hash_bytes :: "8 word list \<Rightarrow> 32 word" where
  "hash_bytes buf = foldl (\<lambda>hash c. (hash * FNV_32_PRIME) XOR ucast c) FNV_32_BASIS buf"

definition hash_string :: "8 word list \<Rightarrow> 32 word" where
  "hash_string s = foldl (\<lambda>hash c. (hash * FNV_32_PRIME) XOR ucast c) FNV_32_BASIS (takeWhile (\<lambda>c. c \<noteq> 0) s)"

text \<open>The four bytes of an \<open>int\<close> on a little-endian machine.\<close>

definition hash_int :: "32 word \<Rightarrow> 32 word" where
  "hash_int i = hash_bytes [ucast i, ucast (drop_bit 8 i), ucast (drop_bit 16 i), ucast (drop_bit 24 i)]"

section \<open>Operations\<close>

definition find_bucket :: "('e \<Rightarrow> 32 word) \<Rightarrow> 'e htab \<Rightarrow> 'e \<Rightarrow> nat" where
  "find_bucket hash h e = unat (hash e AND (bucket_cnt h - 1))"

definition find_elem :: "('e \<Rightarrow> 'e \<Rightarrow> bool) \<Rightarrow> 'e list \<Rightarrow> 'e \<Rightarrow> 'e option" where
  "find_elem lt bucket e = List.find (\<lambda>hi. \<not> lt hi e \<and> \<not> lt e hi) bucket"

definition insert_elem :: "'e htab \<Rightarrow> nat \<Rightarrow> 'e \<Rightarrow> 'e htab" where
  "insert_elem h b e = h\<lparr>elem_cnt := elem_cnt h + 1, buckets := (buckets h)[b := e # buckets h ! b]\<rparr>"

text \<open>\<open>list_remove\<close> needs no bucket: it unlinks the element from the one bucket that holds it.\<close>

definition remove_elem :: "'e htab \<Rightarrow> 'e \<Rightarrow> 'e htab" where
  "remove_elem h e = h\<lparr>elem_cnt := elem_cnt h - 1, buckets := map (remove1 e) (buckets h)\<rparr>"

definition turn_off_least_1bit :: "32 word \<Rightarrow> 32 word" where
  "turn_off_least_1bit x = x AND (x - 1)"

definition is_power_of_2 :: "32 word \<Rightarrow> bool" where
  "is_power_of_2 x \<longleftrightarrow> x \<noteq> 0 \<and> turn_off_least_1bit x = 0"

definition MIN_ELEMS_PER_BUCKET :: nat where "MIN_ELEMS_PER_BUCKET = 1"
definition BEST_ELEMS_PER_BUCKET :: nat where "BEST_ELEMS_PER_BUCKET = 2"
definition MAX_ELEMS_PER_BUCKET :: nat where "MAX_ELEMS_PER_BUCKET = 4"

partial_function (option) power_loop :: "32 word \<Rightarrow> 32 word option" where
  "power_loop n = (if is_power_of_2 n then Some n else power_loop (turn_off_least_1bit n))"

definition new_bucket_cnt :: "nat \<Rightarrow> 32 word option" where
  "new_bucket_cnt n = (let c = word_of_nat (n div BEST_ELEMS_PER_BUCKET)
     in power_loop (if c < 4 then 4 else c))"

definition rehash :: "('e \<Rightarrow> 32 word) \<Rightarrow> bool \<Rightarrow> 'e htab \<Rightarrow> 'e htab option" where
  "rehash hash malloc_ok h = do {
     n \<leftarrow> new_bucket_cnt (elem_cnt h);
     if n = bucket_cnt h then Some h
     else if \<not> malloc_ok then Some h
     else (let h' = h\<lparr>bucket_cnt := n, buckets := replicate (unat n) []\<rparr>
       in Some (foldl (\<lambda>h' e. let b = find_bucket hash h' e
            in h'\<lparr>buckets := (buckets h')[b := e # buckets h' ! b]\<rparr>) h' (concat (buckets h))))
   }"

definition hash_insert ::
  "('e \<Rightarrow> 32 word) \<Rightarrow> ('e \<Rightarrow> 'e \<Rightarrow> bool) \<Rightarrow> bool \<Rightarrow> 'e htab \<Rightarrow> 'e \<Rightarrow> ('e option \<times> 'e htab) option" where
  "hash_insert hash lt ok h new = (let b = find_bucket hash h new; old = find_elem lt (buckets h ! b) new
     in do {
       h \<leftarrow> rehash hash ok (if old = None then insert_elem h b new else h);
       Some (old, h) })"

definition hash_replace ::
  "('e \<Rightarrow> 32 word) \<Rightarrow> ('e \<Rightarrow> 'e \<Rightarrow> bool) \<Rightarrow> bool \<Rightarrow> 'e htab \<Rightarrow> 'e \<Rightarrow> ('e option \<times> 'e htab) option" where
  "hash_replace hash lt ok h new = (let b = find_bucket hash h new; old = find_elem lt (buckets h ! b) new;
       h = (case old of Some e \<Rightarrow> remove_elem h e | None \<Rightarrow> h)
     in do {
       h \<leftarrow> rehash hash ok (insert_elem h b new);
       Some (old, h) })"

definition hash_find :: "('e \<Rightarrow> 32 word) \<Rightarrow> ('e \<Rightarrow> 'e \<Rightarrow> bool) \<Rightarrow> 'e htab \<Rightarrow> 'e \<Rightarrow> 'e option" where
  "hash_find hash lt h e = find_elem lt (buckets h ! find_bucket hash h e) e"

definition hash_delete ::
  "('e \<Rightarrow> 32 word) \<Rightarrow> ('e \<Rightarrow> 'e \<Rightarrow> bool) \<Rightarrow> bool \<Rightarrow> 'e htab \<Rightarrow> 'e \<Rightarrow> ('e option \<times> 'e htab) option" where
  "hash_delete hash lt ok h e =
     (case hash_find hash lt h e of
        None \<Rightarrow> Some (None, h)
      | Some found \<Rightarrow> do { h \<leftarrow> rehash hash ok (remove_elem h found); Some (Some found, h) })"

text \<open>
  \<open>hash_clear\<close> also gives the elements in the order its destructor sees them, when there is a
  destructor (\<open>with_destructor\<close>).
\<close>

definition hash_clear :: "bool \<Rightarrow> 'e htab \<Rightarrow> 'e list \<times> 'e htab" where
  "hash_clear with_destructor h =
     (if with_destructor then concat (buckets h) else [],
      h\<lparr>elem_cnt := 0, buckets := map (\<lambda>_. []) (buckets h)\<rparr>)"

definition hash_destroy :: "bool \<Rightarrow> 'e htab \<Rightarrow> 'e list" where
  "hash_destroy with_destructor h = (if with_destructor then fst (hash_clear True h) else [])"

definition hash_init :: "bool \<Rightarrow> 'e htab option" where
  "hash_init malloc_ok = (if malloc_ok
     then Some (snd (hash_clear False \<lparr>elem_cnt = 0, bucket_cnt = 4, buckets = replicate 4 []\<rparr>))
     else None)"

definition hash_apply :: "('e \<Rightarrow> 's \<Rightarrow> 's) \<Rightarrow> 'e htab \<Rightarrow> 's \<Rightarrow> 's" where
  "hash_apply action h s = fold action (concat (buckets h)) s"

definition hash_size :: "'e htab \<Rightarrow> nat" where
  "hash_size h = elem_cnt h"

definition hash_empty :: "'e htab \<Rightarrow> bool" where
  "hash_empty h \<longleftrightarrow> elem_cnt h = 0"

text \<open>
  Iterators: a bucket index and a position in it, where position 0 is the list head, \<open>p + 1\<close> the
  \<open>p\<close>-th element, and \<open>length + 1\<close> the list tail; \<^const>\<open>None\<close> is the null element at the end.
\<close>

record hash_iterator =
  it_bucket :: nat
  it_elem :: "nat option"

definition hash_first :: hash_iterator where
  "hash_first = \<lparr>it_bucket = 0, it_elem = Some 0\<rparr>"

function hash_next_loop :: "'e list list \<Rightarrow> nat \<Rightarrow> nat \<Rightarrow> hash_iterator" where
  "hash_next_loop bs b p =
     (if p = length (bs ! b) + 1 then
        if b + 1 \<ge> length bs then \<lparr>it_bucket = b + 1, it_elem = None\<rparr>
        else hash_next_loop bs (b + 1) 1
      else \<lparr>it_bucket = b, it_elem = Some p\<rparr>)"
  by pat_completeness auto
termination
  by (relation "measure (\<lambda>(bs, b, p). length bs - b)") auto

declare hash_next_loop.simps [simp del]

definition hash_cur :: "'e htab \<Rightarrow> hash_iterator \<Rightarrow> 'e option" where
  "hash_cur h i = map_option (\<lambda>p. buckets h ! it_bucket i ! (p - 1)) (it_elem i)"

definition hash_next :: "'e htab \<Rightarrow> hash_iterator \<Rightarrow> ('e option \<times> hash_iterator) option" where
  "hash_next h i = do {
     p \<leftarrow> it_elem i;
     let i = hash_next_loop (buckets h) (it_bucket i) (p + 1);
     Some (hash_cur h i, i) }"

section \<open>Bucket counts\<close>

lemma unat_pow2: "k < 32 \<Longrightarrow> unat (2 ^ k :: 32 word) = 2 ^ k"
proof -
  assume "k < 32"
  then have "(2::nat) ^ k < 2 ^ 32" by (rule power_strict_increasing) simp
  then have "unat (word_of_nat (2 ^ k) :: 32 word) = 2 ^ k" by (simp only: unat_of_nat) simp
  then show ?thesis by simp
qed

lemma bit_word_unat: "bit (x :: 32 word) k \<longleftrightarrow> odd (unat x div 2 ^ k)" if "k < 32"
  using that by (simp add: bit_unsigned_iff flip: bit_iff_odd[of "unat x"])

lemma top_bit: "2 ^ k \<le> unat x \<Longrightarrow> unat x < 2 ^ Suc k \<Longrightarrow> k < 32 \<Longrightarrow> bit (x :: 32 word) k"
proof -
  assume a: "2 ^ k \<le> unat x" "unat x < 2 ^ Suc k" "k < 32"
  then have "unat x div 2 ^ k = 1"
    by (intro div_nat_eqI) simp_all
  then show ?thesis using a by (simp add: bit_word_unat)
qed

lemma unat_minus_one32: "x \<noteq> 0 \<Longrightarrow> unat (x - 1 :: 32 word) = unat x - 1"
  by (metis unat_minus_one)

lemma unat_and_le: "unat ((x :: 32 word) AND y) \<le> unat y"
  by (simp add: word_and_le1 word_le_nat_alt[symmetric])

lemma bit_le_unat: "bit (x :: 32 word) k \<Longrightarrow> 2 ^ k \<le> unat x"
proof -
  assume b: "bit x k"
  have k: "k < 32" using bit_imp_le_length[OF b] by simp
  then have "odd (unat x div 2 ^ k)" using b by (simp add: bit_word_unat)
  then have "unat x div 2 ^ k \<noteq> 0" by (metis even_zero)
  then show ?thesis by (metis div_less not_le)
qed

lemma turn_off_top:
  assumes "2 ^ k \<le> unat x" "unat x < 2 ^ Suc k" "k < 32" "unat x \<noteq> 2 ^ k"
  shows "2 ^ k \<le> unat (turn_off_least_1bit x)" "unat (turn_off_least_1bit x) < unat x"
proof -
  have x0: "x \<noteq> 0" using assms(1) by auto
  have m: "unat (x - 1) = unat x - 1" using x0 by (rule unat_minus_one32)
  then have "2 ^ k \<le> unat (x - 1)" "unat (x - 1) < 2 ^ Suc k" using assms by auto
  then have "bit (turn_off_least_1bit x) k"
    using assms top_bit[of k x] top_bit[of k "x - 1"] by (simp add: turn_off_least_1bit_def bit_and_iff)
  then show "2 ^ k \<le> unat (turn_off_least_1bit x)" by (rule bit_le_unat)
  have "unat (turn_off_least_1bit x) \<le> unat (x - 1)"
    unfolding turn_off_least_1bit_def by (rule unat_and_le)
  then show "unat (turn_off_least_1bit x) < unat x" using m x0 by (metis Suc_pred' le_imp_less_Suc unat_gt_0)
qed

lemma is_power_of_2_iff:
  assumes "2 ^ k \<le> unat x" "unat x < 2 ^ Suc k" "k < 32"
  shows "is_power_of_2 x \<longleftrightarrow> unat x = 2 ^ k"
proof
  assume p: "is_power_of_2 x"
  show "unat x = 2 ^ k"
  proof (rule ccontr)
    assume "unat x \<noteq> 2 ^ k"
    from turn_off_top(1)[OF assms this] p show False by (simp add: is_power_of_2_def)
  qed
next
  assume x: "unat x = 2 ^ k"
  have "x \<noteq> 0" using x by auto
  have "\<not> bit (turn_off_least_1bit x) j" for j
  proof
    assume "bit (turn_off_least_1bit x) j"
    then have b: "bit x j" "bit (x - 1) j" by (simp_all add: turn_off_least_1bit_def bit_and_iff)
    then have j: "j < 32" using bit_imp_le_length by fastforce
    have "odd ((2::nat) ^ k div 2 ^ j)" using b(1) j x by (simp add: bit_word_unat)
    then have "j = k"
      by (metis bit_iff_odd bit_exp_iff)
    then have "2 ^ k \<le> unat (x - 1)" using bit_le_unat[OF b(2)] by simp
    moreover have "0 < (2::nat) ^ k" by simp
    ultimately show False using x unat_minus_one32[OF \<open>x \<noteq> 0\<close>] by linarith
  qed
  then have "turn_off_least_1bit x = 0" by (simp add: bit_eq_iff)
  then show "is_power_of_2 x" using \<open>x \<noteq> 0\<close> by (simp add: is_power_of_2_def)
qed

lemma power_loop_returns:
  "2 ^ k \<le> unat x \<Longrightarrow> unat x < 2 ^ Suc k \<Longrightarrow> k < 32 \<Longrightarrow> power_loop x = Some (word_of_nat (2 ^ k))"
proof (induction "unat x" arbitrary: x rule: less_induct)
  case less
  show ?case
  proof (cases "unat x = 2 ^ k")
    case True
    then have "x = word_of_nat (2 ^ k)" by (metis of_nat_unat ucast_id)
    then show ?thesis using is_power_of_2_iff[OF less.prems] True by (subst power_loop.simps) simp
  next
    case False
    note t = turn_off_top[OF less.prems False]
    have "power_loop (turn_off_least_1bit x) = Some (word_of_nat (2 ^ k))"
      using t less.prems by (intro less.hyps) auto
    then show ?thesis using is_power_of_2_iff[OF less.prems] False by (subst power_loop.simps) simp
  qed
qed

text \<open>The new bucket count is the largest power of two that is at most half the elements, or 4.\<close>

lemma new_bucket_cnt_power:
  assumes "n < 2 ^ 32"
  shows "\<exists>k. 2 \<le> k \<and> k < 32 \<and> new_bucket_cnt n = Some (word_of_nat (2 ^ k)) \<and>
    2 ^ k \<le> max 4 (n div 2) \<and> max 4 (n div 2) < 2 ^ Suc k"
proof -
  define m where "m = max 4 (n div 2)"
  have m: "0 < m" "m < 2 ^ 31" "4 \<le> m" using assms by (auto simp: m_def)
  obtain k where k: "2 ^ k \<le> m" "m < 2 ^ Suc k" using ex_power_ivl1[of 2 m] m(1) by auto
  have k2: "2 \<le> k"
  proof (rule ccontr)
    assume "\<not> 2 \<le> k"
    then have "(2::nat) ^ Suc k \<le> 2 ^ 2" by (intro power_increasing) auto
    then show False using k m(3) by simp
  qed
  have "(2::nat) ^ k < 2 ^ 31" using k m by linarith
  then have k31: "k < 31" by (rule power_less_imp_less_exp[rotated]) simp
  let ?c = "word_of_nat (n div 2) :: 32 word"
  have u: "unat ?c = n div 2" using assms by (simp add: unat_of_nat)
  then have "(if ?c < 4 then 4 else ?c) = word_of_nat m"
    by (auto simp: m_def word_less_nat_alt max_def)
  moreover have "unat (word_of_nat m :: 32 word) = m" using m by (simp add: unat_of_nat)
  ultimately have "new_bucket_cnt n = Some (word_of_nat (2 ^ k))"
    using power_loop_returns[of k "word_of_nat m"] k k31
    by (simp add: new_bucket_cnt_def Let_def BEST_ELEMS_PER_BUCKET_def)
  then show ?thesis using k k2 k31 unfolding m_def by auto
qed

section \<open>Buckets\<close>

lemma mset_concat_push:
  "b < length bs \<Longrightarrow> mset (concat (bs[b := e # bs ! b])) = add_mset e (mset (concat bs))"
proof (induction bs arbitrary: b)
  case (Cons x bs)
  then show ?case by (cases b) auto
qed simp

lemma mset_concat_remove1:
  "distinct (concat bs) \<Longrightarrow> e \<in> set (concat bs) \<Longrightarrow>
   mset (concat (map (remove1 e) bs)) = mset (concat bs) - {#e#}"
proof (induction bs)
  case (Cons x bs)
  have n: "map (remove1 e) bs = bs" if "e \<notin> set (concat bs)"
    using that by (auto intro!: map_idI remove1_idem)
  show ?case
  proof (cases "e \<in> set x")
    case True
    then have "e \<notin> set (concat bs)" using Cons.prems by auto
    moreover have "mset (concat bs) + mset x - {#e#} = mset (concat bs) + (mset x - {#e#})"
      using True by (intro diff_union_single_conv) simp
    ultimately show ?thesis by (simp add: n union_commute)
  next
    case False
    then have "e \<in># mset (concat bs)" using Cons.prems(2) by auto
    from diff_union_single_conv[OF this, of "mset x"] False Cons show ?thesis by (simp add: remove1_idem)
  qed
qed simp

locale hash_keys =
  fixes key :: "'e \<Rightarrow> 'k"
    and hash :: "'e \<Rightarrow> 32 word"
    and lt :: "'e \<Rightarrow> 'e \<Rightarrow> bool"
  assumes lt_key: "\<not> lt x y \<and> \<not> lt y x \<longleftrightarrow> key x = key y"
    and hash_key: "key x = key y \<Longrightarrow> hash x = hash y"
begin

definition placed :: "'e htab \<Rightarrow> bool" where
  "placed h \<longleftrightarrow> (\<exists>k. 2 \<le> k \<and> k < 32 \<and> bucket_cnt h = word_of_nat (2 ^ k) \<and> length (buckets h) = 2 ^ k) \<and>
     (\<forall>b<length (buckets h). \<forall>e\<in>set (buckets h ! b). find_bucket hash h e = b)"

definition hash_wf :: "'e htab \<Rightarrow> bool" where
  "hash_wf h \<longleftrightarrow> placed h \<and> elem_cnt h = length (concat (buckets h)) \<and> distinct (map key (concat (buckets h)))"

definition hmap :: "'e htab \<Rightarrow> 'k \<Rightarrow> 'e option" where
  "hmap h = map_of (map (\<lambda>e. (key e, e)) (concat (buckets h)))"

lemma find_bucket_bound: "placed h \<Longrightarrow> find_bucket hash h e < length (buckets h)"
proof -
  assume "placed h"
  then obtain k where k: "2 \<le> k" "k < 32" "bucket_cnt h = word_of_nat (2 ^ k)" "length (buckets h) = 2 ^ k"
    by (auto simp: placed_def)
  have u: "unat (bucket_cnt h) = 2 ^ k" unfolding k(3) using k(2) by (simp add: unat_pow2)
  then have "bucket_cnt h \<noteq> 0" by auto
  then have "unat (bucket_cnt h - 1) = 2 ^ k - 1" using u by (simp add: unat_minus_one32)
  then have "find_bucket hash h e \<le> 2 ^ k - 1"
    unfolding find_bucket_def by (metis unat_and_le)
  moreover have "0 < (2::nat) ^ k" by simp
  ultimately show ?thesis using k(4) by linarith
qed

lemma find_bucket_key: "key x = key y \<Longrightarrow> find_bucket hash h x = find_bucket hash h y"
  using hash_key[of x y] unfolding find_bucket_def by metis

lemma hmap_iff: "distinct (map key (concat (buckets h))) \<Longrightarrow>
    hmap h k = Some e \<longleftrightarrow> e \<in> set (concat (buckets h)) \<and> key e = k"
  by (subst hmap_def, subst map_of_eq_Some_iff) (auto simp: comp_def)

lemma placed_in_bucket: "placed h \<Longrightarrow> e \<in> set (concat (buckets h)) \<Longrightarrow> e \<in> set (buckets h ! find_bucket hash h e)"
  by (auto simp: placed_def in_set_conv_nth[of _ "buckets h"])

lemma find_elem_map:
  assumes "hash_wf h"
  shows "find_elem lt (buckets h ! find_bucket hash h e) e = hmap h (key e)"
proof -
  let ?b = "buckets h ! find_bucket hash h e"
  have pl: "placed h" and ds: "distinct (map key (concat (buckets h)))"
    using assms by (auto simp: hash_wf_def)
  have sub: "set ?b \<subseteq> set (concat (buckets h))"
    using find_bucket_bound[OF pl] by (auto intro: nth_mem)
  show ?thesis
  proof (cases "hmap h (key e)")
    case None
    have "find_elem lt ?b e = None"
      unfolding find_elem_def find_None_iff lt_key
      using None sub hmap_iff[OF ds, of "key e"] by fastforce
    then show ?thesis using None by simp
  next
    case (Some x)
    then have x: "x \<in> set (concat (buckets h))" "key x = key e" using hmap_iff[OF ds] by auto
    then have "x \<in> set ?b" using placed_in_bucket[OF pl x(1)] find_bucket_key[OF x(2)] by simp
    then have "find_elem lt ?b e \<noteq> None"
      unfolding find_elem_def find_None_iff lt_key using x by blast
    then obtain y where y: "find_elem lt ?b e = Some y" by blast
    then have "y \<in> set ?b" "key y = key e"
      unfolding find_elem_def find_Some_iff lt_key by auto
    then have "hmap h (key e) = Some y" using hmap_iff[OF ds] sub by auto
    then show ?thesis using y by simp
  qed
qed

lemma placedD: "placed h \<Longrightarrow> b < length (buckets h) \<Longrightarrow> e \<in> set (buckets h ! b) \<Longrightarrow> find_bucket hash h e = b"
  unfolding placed_def by blast

lemma placed_mono:
  assumes "placed h" "bucket_cnt h' = bucket_cnt h" "length (buckets h') = length (buckets h)"
    "\<And>b e. b < length (buckets h) \<Longrightarrow> e \<in> set (buckets h' ! b) \<Longrightarrow> find_bucket hash h e = b"
  shows "placed h'"
proof -
  have "find_bucket hash h' e = find_bucket hash h e" for e using assms(2) by (simp add: find_bucket_def)
  then show ?thesis using assms unfolding placed_def by simp
qed

lemma placed_push:
  assumes "placed h"
  shows "placed (h\<lparr>elem_cnt := n, buckets := (buckets h)[find_bucket hash h e := e # buckets h ! find_bucket hash h e]\<rparr>)"
proof -
  let ?bs = "(buckets h)[find_bucket hash h e := e # buckets h ! find_bucket hash h e]"
  have fb: "find_bucket hash h ea = b" if "b < length (buckets h)" "ea \<in> set (?bs ! b)" for b ea
  proof -
    have "ea = e \<and> b = find_bucket hash h e \<or> ea \<in> set (buckets h ! b)"
      using that by (cases "b = find_bucket hash h e") auto
    then show ?thesis using placedD[OF assms that(1)] by blast
  qed
  show ?thesis by (rule placed_mono[OF assms]) (simp, simp, rule fb, simp_all)
qed

lemma placed_push':
  assumes "placed h"
  shows "placed (h\<lparr>buckets := (buckets h)[find_bucket hash h e := e # buckets h ! find_bucket hash h e]\<rparr>)"
  using placed_push[OF assms, of e "elem_cnt h"] by simp

lemma placed_remove: "placed h \<Longrightarrow> placed (remove_elem h e)"
proof -
  assume pl: "placed h"
  have fb: "find_bucket hash h x = b" if "b < length (buckets h)" "x \<in> set (remove1 e (buckets h ! b))" for b x
    by (rule placedD[OF pl that(1)]) (rule subsetD[OF set_remove1_subset that(2)])
  show ?thesis
    by (rule placed_mono[OF pl]) (simp add: remove_elem_def, simp add: remove_elem_def, rule fb, auto simp: remove_elem_def)
qed

lemma rehash_fold:
  assumes "placed h"
  shows "let h' = foldl (\<lambda>h e. let b = find_bucket hash h e in h\<lparr>buckets := (buckets h)[b := e # buckets h ! b]\<rparr>) h es
    in placed h' \<and> mset (concat (buckets h')) = mset es + mset (concat (buckets h)) \<and> elem_cnt h' = elem_cnt h"
  using assms
proof (induction es arbitrary: h)
  case (Cons e es)
  let ?h = "h\<lparr>buckets := (buckets h)[find_bucket hash h e := e # buckets h ! find_bucket hash h e]\<rparr>"
  show ?case
    using Cons.IH[OF placed_push'[OF Cons.prems, of e]] mset_concat_push[OF find_bucket_bound[OF Cons.prems], of e]
    by (simp add: Let_def)
qed simp

lemma placed_empty:
  assumes "2 \<le> k" "k < 32"
  shows "placed (h\<lparr>bucket_cnt := word_of_nat (2 ^ k), buckets := replicate (unat (word_of_nat (2 ^ k) :: 32 word)) []\<rparr>)"
proof -
  have "unat (word_of_nat (2 ^ k) :: 32 word) = 2 ^ k" using assms(2) by (simp add: unat_pow2)
  then show ?thesis using assms by (auto simp: placed_def)
qed

lemma rehash_keeps:
  assumes pl: "placed h" and n: "elem_cnt h < 2 ^ 32"
  shows "\<exists>h'. rehash hash ok h = Some h' \<and> placed h' \<and> mset (concat (buckets h')) = mset (concat (buckets h)) \<and>
    elem_cnt h' = elem_cnt h"
proof -
  obtain k where k: "2 \<le> k" "k < 32" "new_bucket_cnt (elem_cnt h) = Some (word_of_nat (2 ^ k))"
    using new_bucket_cnt_power[OF n] by auto
  show ?thesis
    using k(3) pl rehash_fold[OF placed_empty[OF k(1,2), of h], of "concat (buckets h)"]
    by (auto simp: rehash_def Let_def)
qed

lemma hash_wf_mset:
  assumes "placed h'" "mset (concat (buckets h')) = mset es" "elem_cnt h' = length es" "distinct (map key es)"
  shows "hash_wf h'" "hmap h' k = Some e \<longleftrightarrow> e \<in> set es \<and> key e = k"
proof -
  have "mset (map key (concat (buckets h'))) = mset (map key es)" using assms(2) by (metis mset_map)
  then have d: "distinct (map key (concat (buckets h')))" using assms(4) by (metis mset_eq_imp_distinct_iff)
  then show "hash_wf h'" using assms by (simp add: hash_wf_def) (metis size_mset)
  show "hmap h' k = Some e \<longleftrightarrow> e \<in> set es \<and> key e = k"
    using hmap_iff[OF d, of k e] mset_eq_setD[OF assms(2)] by metis
qed

lemma hash_insert_new:
  assumes wf: "hash_wf h" and n: "elem_cnt h < 2 ^ 32 - 1" and e: "hmap h (key e) = None"
  shows "\<exists>h'. hash_insert hash lt ok h e = Some (None, h') \<and> hash_wf h' \<and> hmap h' = (hmap h)(key e \<mapsto> e) \<and>
    elem_cnt h' = Suc (elem_cnt h)"
proof -
  let ?b = "find_bucket hash h e"
  have pl: "placed h" and ds: "distinct (map key (concat (buckets h)))" and c: "elem_cnt h = length (concat (buckets h))"
    using wf by (auto simp: hash_wf_def)
  have p: "placed (insert_elem h ?b e)" unfolding insert_elem_def by (rule placed_push[OF pl])
  have m: "mset (concat (buckets (insert_elem h ?b e))) = mset (e # concat (buckets h))"
    using mset_concat_push[OF find_bucket_bound[OF pl]] by (simp add: insert_elem_def)
  have c1: "elem_cnt (insert_elem h ?b e) = Suc (elem_cnt h)" by (simp add: insert_elem_def)
  obtain h' where h': "rehash hash ok (insert_elem h ?b e) = Some h'" "placed h'"
    "mset (concat (buckets h')) = mset (e # concat (buckets h))" "elem_cnt h' = Suc (elem_cnt h)"
    using rehash_keeps[OF p, of ok] c1 m n by auto
  have "\<forall>x\<in>set (concat (buckets h)). key x \<noteq> key e"
    using e hmap_iff[OF ds, of "key e"] by (metis option.distinct(1))
  then have d: "distinct (map key (e # concat (buckets h)))" using ds by force
  have "elem_cnt h' = length (e # concat (buckets h))" using h'(4) c by simp
  note r = hash_wf_mset[OF h'(2,3) this d]
  have "hmap h' k = ((hmap h)(key e \<mapsto> e)) k" for k
  proof (cases "k = key e")
    case True
    then show ?thesis using r(2)[of k e] by simp
  next
    case False
    then have "hmap h' k = Some x \<longleftrightarrow> hmap h k = Some x" for x
      using r(2)[of k x] hmap_iff[OF ds, of k x] by auto
    then show ?thesis using False by (metis fun_upd_other not_Some_eq)
  qed
  then have "hmap h' = (hmap h)(key e \<mapsto> e)" by blast
  moreover have "hash_insert hash lt ok h e = Some (None, h')"
    using h'(1) e find_elem_map[OF wf, of e] by (simp add: hash_insert_def Let_def)
  ultimately show ?thesis using r(1) h'(4) by blast
qed

text \<open>An equal element is returned and the map stays as it was; the table may still be resized.\<close>

lemma hash_insert_old:
  assumes wf: "hash_wf h" and n: "elem_cnt h < 2 ^ 32" and e: "hmap h (key e) = Some old"
  shows "\<exists>h'. hash_insert hash lt ok h e = Some (Some old, h') \<and> hash_wf h' \<and> hmap h' = hmap h \<and>
    elem_cnt h' = elem_cnt h"
proof -
  have pl: "placed h" and ds: "distinct (map key (concat (buckets h)))" and c: "elem_cnt h = length (concat (buckets h))"
    using wf by (auto simp: hash_wf_def)
  obtain h' where h': "rehash hash ok h = Some h'" "placed h'"
    "mset (concat (buckets h')) = mset (concat (buckets h))" "elem_cnt h' = elem_cnt h"
    using rehash_keeps[OF pl n, of ok] by auto
  note r = hash_wf_mset[OF h'(2,3) h'(4)[unfolded c] ds]
  have "hmap h' k = hmap h k" for k
    using r(2)[of k] hmap_iff[OF ds, of k] by (metis not_Some_eq)
  then show ?thesis
    using h' e find_elem_map[OF wf, of e] r(1) by (auto simp: hash_insert_def Let_def)
qed

lemma remove_elem_mset:
  assumes wf: "hash_wf h" and e: "hmap h k = Some old"
  shows "placed (remove_elem h old)" "mset (concat (buckets (remove_elem h old))) = mset (remove1 old (concat (buckets h)))"
    "elem_cnt (remove_elem h old) = length (remove1 old (concat (buckets h)))"
    "distinct (map key (remove1 old (concat (buckets h))))"
    "x \<in> set (remove1 old (concat (buckets h))) \<and> key x = k' \<longleftrightarrow> hmap h k' = Some x \<and> k' \<noteq> k"
proof -
  have pl: "placed h" and ds: "distinct (map key (concat (buckets h)))" and c: "elem_cnt h = length (concat (buckets h))"
    using wf by (auto simp: hash_wf_def)
  have o: "old \<in> set (concat (buckets h))" "key old = k" using e hmap_iff[OF ds] by auto
  have dc: "distinct (concat (buckets h))" using ds by (simp only: distinct_map)
  show "placed (remove_elem h old)" using pl by (rule placed_remove)
  show "mset (concat (buckets (remove_elem h old))) = mset (remove1 old (concat (buckets h)))"
    using mset_concat_remove1[OF dc o(1)] by (simp add: remove_elem_def)
  show "elem_cnt (remove_elem h old) = length (remove1 old (concat (buckets h)))"
    using c length_remove1[of old "concat (buckets h)"] o(1) by (simp add: remove_elem_def)
  have inj: "inj_on key (set (concat (buckets h)))" using ds by (simp add: distinct_map del: set_concat)
  then show "distinct (map key (remove1 old (concat (buckets h))))"
    using dc by (simp add: distinct_map set_remove1_eq inj_on_diff del: set_concat)
  show "x \<in> set (remove1 old (concat (buckets h))) \<and> key x = k' \<longleftrightarrow> hmap h k' = Some x \<and> k' \<noteq> k"
    using hmap_iff[OF ds, of k' x] dc o inj by (auto simp: set_remove1_eq inj_on_def simp del: set_concat)
qed

lemma hash_delete_found:
  assumes wf: "hash_wf h" and n: "elem_cnt h < 2 ^ 32" and e: "hmap h (key e) = Some old"
  shows "\<exists>h'. hash_delete hash lt ok h e = Some (Some old, h') \<and> hash_wf h' \<and> hmap h' = (hmap h)(key e := None)"
proof -
  note rm = remove_elem_mset[OF wf e]
  have "elem_cnt (remove_elem h old) < 2 ^ 32" using n by (simp add: remove_elem_def)
  from rehash_keeps[OF rm(1) this, of ok] obtain h' where h': "rehash hash ok (remove_elem h old) = Some h'"
    "placed h'" "mset (concat (buckets h')) = mset (remove1 old (concat (buckets h)))"
    "elem_cnt h' = length (remove1 old (concat (buckets h)))" using rm(2,3) by auto
  note r = hash_wf_mset[OF h'(2-4) rm(4)]
  have "hmap h' k = Some x \<longleftrightarrow> ((hmap h)(key e := None)) k = Some x" for k x
    unfolding r(2) rm(5) by auto
  then have "hmap h' = (hmap h)(key e := None)" by (intro ext) (metis not_Some_eq)
  then show ?thesis using h'(1) r(1) e find_elem_map[OF wf, of e]
    by (auto simp: hash_delete_def hash_find_def)
qed

lemma hash_delete_missing:
  assumes "hash_wf h" "hmap h (key e) = None"
  shows "hash_delete hash lt ok h e = Some (None, h)"
  using assms find_elem_map[of h e] by (simp add: hash_delete_def hash_find_def)

lemma elem_cnt_card: "hash_wf h \<Longrightarrow> elem_cnt h = card (dom (hmap h))"
proof -
  assume "hash_wf h"
  then have d: "distinct (map key (concat (buckets h)))" and c: "elem_cnt h = length (concat (buckets h))"
    by (simp_all add: hash_wf_def)
  have "dom (hmap h) = set (map key (concat (buckets h)))"
    unfolding hmap_def dom_map_of_conv_image_fst by (simp add: image_image)
  then show ?thesis using distinct_card[OF d] c by simp
qed

lemma hash_find_map: "hash_wf h \<Longrightarrow> hash_find hash lt h e = hmap h (key e)"
  by (simp add: hash_find_def find_elem_map)

lemma hash_replace_map:
  assumes wf: "hash_wf h" and n: "elem_cnt h < 2 ^ 32 - 1"
  shows "\<exists>h'. hash_replace hash lt ok h e = Some (hmap h (key e), h') \<and> hash_wf h' \<and> hmap h' = (hmap h)(key e \<mapsto> e)"
proof (cases "hmap h (key e)")
  case None
  then show ?thesis
    using hash_insert_new[OF assms None, of ok] find_elem_map[OF wf, of e]
    by (auto simp: hash_insert_def hash_replace_def Let_def bind_Some_iff)
next
  case (Some old)
  note rm = remove_elem_mset[OF wf Some]
  let ?r = "remove_elem h old" and ?es = "remove1 old (concat (buckets h))"
  have wr: "hash_wf ?r" and mr: "hmap ?r k = Some x \<longleftrightarrow> x \<in> set ?es \<and> key x = k" for k x
    using hash_wf_mset[OF rm(1-4)] by auto
  have "hmap ?r (key e) = None" using mr[of "key e"] rm(5)[of _ "key e"] by (metis not_Some_eq)
  moreover have "elem_cnt ?r < 2 ^ 32 - 1" using n by (simp add: remove_elem_def)
  ultimately obtain h' where h': "hash_insert hash lt ok ?r e = Some (None, h')" "hash_wf h'"
    "hmap h' = (hmap ?r)(key e \<mapsto> e)" using hash_insert_new[OF wr, of e ok] by auto
  have "hmap ?r k = Some x \<longleftrightarrow> ((hmap h)(key e := None)) k = Some x" for k x
    unfolding mr rm(5) by auto
  then have "hmap ?r k = ((hmap h)(key e := None)) k" for k by (metis not_Some_eq)
  then have "hmap h' = (hmap h)(key e \<mapsto> e)" unfolding h'(3) by auto
  moreover have "find_bucket hash ?r e = find_bucket hash h e" by (simp add: find_bucket_def remove_elem_def)
  then have "hash_replace hash lt ok h e = Some (Some old, h')"
    using h'(1) Some find_elem_map[OF wf, of e] find_elem_map[OF wr, of e] \<open>hmap ?r (key e) = None\<close>
    by (auto simp: hash_insert_def hash_replace_def Let_def bind_Some_iff)
  ultimately show ?thesis using h'(2) Some by auto
qed

lemma hash_init_map: "\<exists>h. hash_init True = Some h \<and> hash_wf h \<and> hmap h = Map.empty"
proof -
  have "placed \<lparr>elem_cnt = 0, bucket_cnt = 4, buckets = replicate 4 []\<rparr>"
    unfolding placed_def by (auto intro!: exI[of _ 2])
  then show ?thesis
    by (auto simp: hash_init_def hash_clear_def hash_wf_def hmap_def)
qed

lemma hash_clear_map:
  assumes "hash_wf h"
  shows "hash_wf (snd (hash_clear d h))" "hmap (snd (hash_clear d h)) = Map.empty"
proof -
  have "placed (snd (hash_clear d h))"
    by (rule placed_mono[of h]) (use assms in \<open>simp_all add: hash_wf_def hash_clear_def\<close>)
  moreover have "concat (buckets (snd (hash_clear d h))) = []" by (simp add: hash_clear_def)
  moreover have "elem_cnt (snd (hash_clear d h)) = 0" by (simp add: hash_clear_def)
  ultimately show "hash_wf (snd (hash_clear d h))" "hmap (snd (hash_clear d h)) = Map.empty"
    by (simp_all add: hash_wf_def hmap_def del: concat_eq_Nil_conv)
qed

end

section \<open>Iteration\<close>

text \<open>The elements that an iterator has not returned yet.\<close>

definition it_rest :: "'e htab \<Rightarrow> hash_iterator \<Rightarrow> 'e list" where
  "it_rest h i = (case it_elem i of None \<Rightarrow> []
     | Some p \<Rightarrow> drop p (buckets h ! it_bucket i) @ concat (drop (Suc (it_bucket i)) (buckets h)))"

lemma hash_next_loop_spec:
  assumes "b < length bs" "0 < p" "p \<le> length (bs ! b) + 1"
  shows "case drop (p - 1) (bs ! b) @ concat (drop (Suc b) bs) of
      [] \<Rightarrow> it_elem (hash_next_loop bs b p) = None
    | x # xs \<Rightarrow> (let i = hash_next_loop bs b p in \<exists>q. it_elem i = Some q \<and> 0 < q \<and> it_bucket i < length bs \<and>
        q \<le> length (bs ! it_bucket i) \<and> bs ! it_bucket i ! (q - 1) = x \<and>
        drop q (bs ! it_bucket i) @ concat (drop (Suc (it_bucket i)) bs) = xs)"
  using assms
proof (induction bs b p rule: hash_next_loop.induct)
  case (1 bs b p)
  show ?case
  proof (cases "p = length (bs ! b) + 1")
    case True
    show ?thesis
    proof (cases "b + 1 \<ge> length bs")
      case True
      then show ?thesis using \<open>p = _\<close> by (subst hash_next_loop.simps) simp
    next
      case False
      have "drop (Suc b) bs = bs ! Suc b # drop (Suc (Suc b)) bs"
        using False by (simp add: Cons_nth_drop_Suc)
      then show ?thesis
        using "1.IH"[OF True] False True by (subst (1 2) hash_next_loop.simps) simp
    qed
  next
    case False
    then have p: "p - 1 < length (bs ! b)" using "1.prems" by auto
    then have "drop (p - 1) (bs ! b) = bs ! b ! (p - 1) # drop p (bs ! b)"
      using "1.prems" by (metis Cons_nth_drop_Suc Suc_pred')
    then show ?thesis using False p "1.prems" by (subst (1 2) hash_next_loop.simps) (auto simp: Let_def)
  qed
qed

definition it_ok :: "'e htab \<Rightarrow> hash_iterator \<Rightarrow> bool" where
  "it_ok h i \<longleftrightarrow> it_bucket i < length (buckets h) \<and>
     (\<exists>p. it_elem i = Some p \<and> p \<le> length (buckets h ! it_bucket i))"

lemma hash_next_spec:
  assumes "it_ok h i"
  shows "\<exists>i'. hash_next h i = Some (case it_rest h i of [] \<Rightarrow> None | x # _ \<Rightarrow> Some x, i') \<and>
     it_rest h i' = tl (it_rest h i) \<and> (it_rest h i \<noteq> [] \<longrightarrow> it_ok h i')"
proof -
  obtain p where p: "it_elem i = Some p" "p \<le> length (buckets h ! it_bucket i)" "it_bucket i < length (buckets h)"
    using assms by (auto simp: it_ok_def)
  show ?thesis
    using hash_next_loop_spec[of "it_bucket i" "buckets h" "Suc p"] p
    by (cases "it_rest h i")
      (auto simp: hash_next_def hash_cur_def it_rest_def it_ok_def Let_def
         simp del: concat_eq_Nil_conv Nil_eq_concat_conv append_is_Nil_conv Nil_is_append_conv drop_eq_Nil drop_eq_Nil2)
qed

lemma hash_first_rest: "buckets h \<noteq> [] \<Longrightarrow> it_rest h hash_first = concat (buckets h) \<and> it_ok h hash_first"
  by (cases "buckets h") (auto simp: it_rest_def hash_first_def it_ok_def)

end
