(* ===== verification/Cache.thy ===== *)
theory Cache
  imports Block
begin

text \<open>
  \<open>filesys/cache.c\<close> of project 4: the buffer cache of at most 64 sectors with second-chance
  eviction and write-back. A \<open>struct cache_block\<close> is named by its position in \<open>cache_list\<close>,
  which never changes while the block is in the list. The state is the file system device and the
  cache; later theories extend it. The functions run without interleaving here:
  the thread that writes back changes blocks only between two calls.
\<close>

definition CACHE_SIZE :: nat where
  "CACHE_SIZE = 64"

record cache_block =
  cb_sector :: nat
  cb_access :: bool
  cb_dirty :: bool
  cb_data :: "byte list"

text \<open>\<open>heap_ok\<close> tells whether \<open>malloc\<close> succeeds, \<open>junk\<close> what uninitialised memory holds.\<close>

record cached_disk =
  fs_device :: block
  cache_list :: "cache_block list"
  heap_ok :: bool
  junk :: "byte list"

section \<open>Operations\<close>

primrec find_block :: "cache_block list \<Rightarrow> nat \<Rightarrow> nat option" where
  "find_block [] sector = None"
| "find_block (cb # cbs) sector =
     (if cb_sector cb = sector then Some 0 else map_option Suc (find_block cbs sector))"

definition in_cache :: "nat \<Rightarrow> 'a cached_disk_scheme \<Rightarrow> nat option" where
  "in_cache sector st = find_block (cache_list st) sector"

definition cache_init :: "'a cached_disk_scheme \<Rightarrow> 'a cached_disk_scheme" where
  "cache_init st = st\<lparr>cache_list := []\<rparr>"

text \<open>One pass over the list: access bits are cleared up to the first block without one.\<close>

primrec evict_pass :: "cache_block list \<Rightarrow> cache_block list \<times> nat option" where
  "evict_pass [] = ([], None)"
| "evict_pass (cb # cbs) =
     (if cb_access cb
      then (case evict_pass cbs of (cbs, i) \<Rightarrow> (cb\<lparr>cb_access := False\<rparr> # cbs, map_option Suc i))
      else (cb # cbs, Some 0))"

partial_function (option) evict_loop :: "cache_block list \<Rightarrow> (cache_block list \<times> nat) option" where
  "evict_loop cbs =
     (case evict_pass cbs of
        (cbs, Some i) \<Rightarrow> Some (cbs, i)
      | (cbs, None) \<Rightarrow> evict_loop cbs)"

definition cache_evict :: "'a cached_disk_scheme \<Rightarrow> (nat \<times> 'a cached_disk_scheme) option" where
  "cache_evict st = do {
     (cbs, i) \<leftarrow> evict_loop (cache_list st);
     let st = st\<lparr>cache_list := cbs\<rparr>;
     let cb = cbs ! i;
     if cb_dirty cb
     then do {
       d \<leftarrow> block_write (fs_device st) (cb_sector cb) (cb_data cb);
       Some (i, st\<lparr>fs_device := d\<rparr>) }
     else Some (i, st) }"

text \<open>The members of a new block are set by \<open>cache_get\<close>.\<close>

definition cache_new :: "'a cached_disk_scheme \<Rightarrow> (nat \<times> 'a cached_disk_scheme) option" where
  "cache_new st =
     (if length (cache_list st) < CACHE_SIZE
      then do {
        ASSERT (heap_ok st);
        let cb = \<lparr>cb_sector = 0, cb_access = False, cb_dirty = False, cb_data = junk st\<rparr>;
        Some (length (cache_list st), st\<lparr>cache_list := cache_list st @ [cb]\<rparr>) }
      else cache_evict st)"

definition upd_block :: "nat \<Rightarrow> (cache_block \<Rightarrow> cache_block) \<Rightarrow> 'a cached_disk_scheme \<Rightarrow> 'a cached_disk_scheme" where
  "upd_block i f st = st\<lparr>cache_list := (cache_list st)[i := f (cache_list st ! i)]\<rparr>"

definition cache_get :: "nat \<Rightarrow> bool \<Rightarrow> 'a cached_disk_scheme \<Rightarrow> (nat \<times> 'a cached_disk_scheme) option" where
  "cache_get sector dirty st =
     (case in_cache sector st of
        Some i \<Rightarrow> Some (i, upd_block i (\<lambda>cb. cb\<lparr>cb_access := True, cb_dirty := cb_dirty cb \<or> dirty\<rparr>) st)
      | None \<Rightarrow> do {
          (i, st) \<leftarrow> cache_new st;
          let st = upd_block i (\<lambda>cb. cb\<lparr>cb_sector := sector, cb_access := True, cb_dirty := dirty\<rparr>) st;
          (d, dev) \<leftarrow> block_read (fs_device st) sector;
          Some (i, upd_block i (\<lambda>cb. cb\<lparr>cb_data := d\<rparr>) (st\<lparr>fs_device := dev\<rparr>)) })"

primrec write_back :: "cache_block list \<Rightarrow> block \<Rightarrow> (cache_block list \<times> block) option" where
  "write_back [] dev = Some ([], dev)"
| "write_back (cb # cbs) dev = do {
     (cb, dev) \<leftarrow> (if cb_dirty cb
        then do { dev \<leftarrow> block_write dev (cb_sector cb) (cb_data cb); Some (cb\<lparr>cb_dirty := False\<rparr>, dev) }
        else Some (cb, dev));
     (cbs, dev) \<leftarrow> write_back cbs dev;
     Some (cb # cbs, dev) }"

definition cache_write_to_disk :: "bool \<Rightarrow> 'a cached_disk_scheme \<Rightarrow> 'a cached_disk_scheme option" where
  "cache_write_to_disk finish st = do {
     (cbs, dev) \<leftarrow> write_back (cache_list st) (fs_device st);
     Some (st\<lparr>cache_list := if finish then [] else cbs, fs_device := dev\<rparr>) }"

text \<open>The body of the write-back thread's loop, after its \<open>timer_sleep\<close>; and the thread that
  would read ahead.\<close>

definition WRITE_BACK_INTERVAL :: int where
  "WRITE_BACK_INTERVAL = 2000 * 100"

definition periodical_write_back :: "'a cached_disk_scheme \<Rightarrow> 'a cached_disk_scheme option" where
  "periodical_write_back st = cache_write_to_disk False st"

definition func_read_ahead :: "nat \<Rightarrow> 'a cached_disk_scheme \<Rightarrow> 'a cached_disk_scheme option" where
  "func_read_ahead sector st = map_option snd (cache_get sector False st)"

text \<open>What the callers do with the block: copy bytes out of its data or into it.\<close>

definition cache_read :: "nat \<Rightarrow> 'a cached_disk_scheme \<Rightarrow> (byte list \<times> 'a cached_disk_scheme) option" where
  "cache_read sector st = do {
     (i, st) \<leftarrow> cache_get sector False st;
     Some (cb_data (cache_list st ! i), st) }"

definition cache_write :: "nat \<Rightarrow> nat \<Rightarrow> byte list \<Rightarrow> 'a cached_disk_scheme \<Rightarrow> 'a cached_disk_scheme option" where
  "cache_write sector ofs buf st = do {
     (i, st) \<leftarrow> cache_get sector True st;
     Some (upd_block i (\<lambda>cb. cb\<lparr>cb_data := overlay (cb_data cb) ofs buf\<rparr>) st) }"

section \<open>The disk as the cache shows it\<close>

definition cview :: "'a cached_disk_scheme \<Rightarrow> nat \<Rightarrow> byte list" where
  "cview st n = (case find_block (cache_list st) n of
     Some i \<Rightarrow> cb_data (cache_list st ! i) | None \<Rightarrow> b_data (fs_device st) n)"

text \<open>Each sector at most once in the cache, a clean block like the disk, and every sector 512
  bytes long.\<close>

definition cache_wf :: "'a cached_disk_scheme \<Rightarrow> bool" where
  "cache_wf st \<longleftrightarrow> dev_inv (fs_device st) \<and> heap_ok st \<and> length (cache_list st) \<le> CACHE_SIZE \<and>
     distinct (map cb_sector (cache_list st)) \<and>
     (\<forall>cb\<in>set (cache_list st). cb_sector cb < b_size (fs_device st) \<and> length (cb_data cb) = 512 \<and>
        (\<not> cb_dirty cb \<longrightarrow> cb_data cb = b_data (fs_device st) (cb_sector cb))) \<and>
     (\<forall>n < b_size (fs_device st). length (b_data (fs_device st) n) = 512)"

lemma cache_block_all [simp]:
  "(cb :: cache_block)\<lparr>cb_sector := n, cb_access := a, cb_dirty := d, cb_data := bs\<rparr> =
   \<lparr>cb_sector = n, cb_access = a, cb_dirty = d, cb_data = bs\<rparr>"
  by (cases cb) simp

lemma find_block_Some: "find_block cbs n = Some i \<Longrightarrow> i < length cbs \<and> cb_sector (cbs ! i) = n"
  by (induction cbs arbitrary: i) (auto split: if_splits)

lemma find_block_None: "find_block cbs n = None \<longleftrightarrow> n \<notin> cb_sector ` set cbs"
  by (induction cbs) auto

lemma find_block_nth: "distinct (map cb_sector cbs) \<Longrightarrow> i < length cbs \<Longrightarrow> find_block cbs (cb_sector (cbs ! i)) = Some i"
proof (induction cbs arbitrary: i)
  case (Cons cb cbs)
  show ?case
  proof (cases i)
    case (Suc k)
    then have "cbs ! k \<in> set cbs" using Cons.prems by simp
    then have "cb_sector cb \<noteq> cb_sector (cbs ! k)" using Cons.prems by auto
    then show ?thesis using Suc Cons by simp
  qed (use Cons in simp)
qed simp

lemma find_block_cong: "map cb_sector cbs = map cb_sector cbs' \<Longrightarrow> find_block cbs n = find_block cbs' n"
proof (induction cbs arbitrary: cbs')
  case (Cons cb cbs)
  then obtain c cs where "cbs' = c # cs" "cb_sector cb = cb_sector c" "map cb_sector cbs = map cb_sector cs"
    by (cases cbs') auto
  then show ?case using Cons.IH[of cs] by simp
qed simp

lemma cview_in: "distinct (map cb_sector (cache_list st)) \<Longrightarrow> cb \<in> set (cache_list st) \<Longrightarrow> cview st (cb_sector cb) = cb_data cb"
  by (auto simp: cview_def in_set_conv_nth find_block_nth)

lemma cview_out: "n \<notin> cb_sector ` set (cache_list st) \<Longrightarrow> cview st n = b_data (fs_device st) n"
  by (simp add: cview_def find_block_None[symmetric] del: find_block.simps)

lemma cview_eqI:
  assumes "distinct (map cb_sector (cache_list st'))"
    and "\<And>cb. cb \<in> set (cache_list st') \<Longrightarrow> v (cb_sector cb) = cb_data cb"
    and "\<And>n. n \<notin> cb_sector ` set (cache_list st') \<Longrightarrow> v n = b_data (fs_device st') n"
  shows "cview st' = v"
proof
  fix n
  show "cview st' n = v n"
  proof (cases "n \<in> cb_sector ` set (cache_list st')")
    case True
    then obtain cb where "cb \<in> set (cache_list st')" "n = cb_sector cb" by blast
    then show ?thesis using cview_in[OF assms(1)] assms(2) by simp
  next
    case False
    then show ?thesis using cview_out assms(3) by simp
  qed
qed

section \<open>Eviction\<close>

abbreviation clear_access :: "cache_block \<Rightarrow> cache_block" where
  "clear_access \<equiv> cb_access_update (\<lambda>_. False)"

lemma evict_pass_spec:
  assumes "evict_pass cbs = (cbs', r)"
  shows "map clear_access cbs' = map clear_access cbs \<and>
    (case r of Some i \<Rightarrow> i < length cbs \<and> \<not> cb_access (cbs ! i) \<and> (\<forall>j<i. cb_access (cbs ! j))
     | None \<Rightarrow> cbs' = map clear_access cbs)"
  using assms
proof (induction cbs arbitrary: cbs' r)
  case (Cons cb cbs)
  show ?case
  proof (cases "cb_access cb")
    case True
    obtain ds q where q: "evict_pass cbs = (ds, q)" by (cases "evict_pass cbs")
    note IH = Cons.IH[OF q]
    have "cbs' = clear_access cb # ds" "r = map_option Suc q" using Cons.prems True q by auto
    then show ?thesis using IH True by (cases q) (auto simp: less_Suc_eq_0_disj)
  next
    case False
    then show ?thesis using Cons.prems by auto
  qed
qed auto

text \<open>The second pass always finds a block: a non-empty cache gives one up. The one chosen is the
  first without an access bit, or the first of all.\<close>

lemma evict_loop_returns:
  assumes "cbs \<noteq> []"
  shows "\<exists>cbs' i. evict_loop cbs = Some (cbs', i) \<and> i < length cbs \<and> map clear_access cbs' = map clear_access cbs \<and>
    (if \<forall>cb\<in>set cbs. cb_access cb then i = 0 else \<not> cb_access (cbs ! i) \<and> (\<forall>j<i. cb_access (cbs ! j)))"
proof -
  obtain cs r where r: "evict_pass cbs = (cs, r)" by (cases "evict_pass cbs")
  note sp = evict_pass_spec[OF r]
  show ?thesis
  proof (cases r)
    case (Some i)
    then have "evict_loop cbs = Some (cs, i)" using r by (subst evict_loop.simps) simp
    moreover have "\<not> (\<forall>cb\<in>set cbs. cb_access cb)" using sp Some by auto
    ultimately show ?thesis using sp Some by auto
  next
    case None
    have all: "\<forall>cb\<in>set cbs. cb_access cb"
    proof -
      have "evict_pass xs = (ys, None) \<Longrightarrow> \<forall>cb\<in>set xs. cb_access cb" for xs ys
        by (induction xs arbitrary: ys) (auto split: if_splits prod.splits)
      then show ?thesis using r None by blast
    qed
    obtain c cs' where c: "cs = c # cs'" "\<not> cb_access c" using sp None assms by (cases cbs) auto
    have "evict_loop cbs = evict_loop cs" using r None by (subst evict_loop.simps) simp
    also have "\<dots> = Some (cs, 0)" using c by (subst evict_loop.simps) simp
    finally show ?thesis using sp all assms by auto
  qed
qed

lemma clear_access_eqD:
  assumes "map clear_access cs = map clear_access ds"
  shows "length cs = length ds" "map cb_sector cs = map cb_sector ds"
    "i < length ds \<Longrightarrow> cb_data (cs ! i) = cb_data (ds ! i)"
    "i < length ds \<Longrightarrow> cb_dirty (cs ! i) = cb_dirty (ds ! i)"
    "i < length ds \<Longrightarrow> cb_sector (cs ! i) = cb_sector (ds ! i)"
proof -
  show l: "length cs = length ds" using assms by (rule map_eq_imp_length_eq)
  have n: "clear_access (cs ! i) = clear_access (ds ! i)" if "i < length ds" for i
    using arg_cong[OF assms, of "\<lambda>xs. xs ! i"] that l by simp
  have f: "cb_data (cs ! i) = cb_data (ds ! i)" "cb_dirty (cs ! i) = cb_dirty (ds ! i)"
    "cb_sector (cs ! i) = cb_sector (ds ! i)" if "i < length ds" for i
    using arg_cong[OF n[OF that], of cb_data] arg_cong[OF n[OF that], of cb_dirty]
      arg_cong[OF n[OF that], of cb_sector] by simp_all
  show "map cb_sector cs = map cb_sector ds" using l f(3) by (intro nth_equalityI) auto
  show "i < length ds \<Longrightarrow> cb_data (cs ! i) = cb_data (ds ! i)"
    "i < length ds \<Longrightarrow> cb_dirty (cs ! i) = cb_dirty (ds ! i)"
    "i < length ds \<Longrightarrow> cb_sector (cs ! i) = cb_sector (ds ! i)" by (fact f)+
qed

text \<open>A step of the cache that the rest of the kernel cannot see: the same sectors, the same state
  around the cache.\<close>

definition cache_step :: "'a cached_disk_scheme \<Rightarrow> 'a cached_disk_scheme \<Rightarrow> bool" where
  "cache_step st st' \<longleftrightarrow> cache_wf st' \<and> cview st' = cview st \<and> b_size (fs_device st') = b_size (fs_device st) \<and>
     st' = st\<lparr>fs_device := fs_device st', cache_list := cache_list st'\<rparr>"

lemma cache_step_refl: "cache_wf st \<Longrightarrow> cache_step st st"
  by (simp add: cache_step_def)

lemma cache_step_trans: "cache_step st st' \<Longrightarrow> cache_step st' st'' \<Longrightarrow> cache_step st st''"
  by (auto simp: cache_step_def) (metis cached_disk.surjective cached_disk.update_convs(1,2))+

lemma cache_wfI:
  assumes "dev_inv dv" "heap_ok st" "length cl \<le> CACHE_SIZE" "distinct (map cb_sector cl)"
    "\<And>cb. cb \<in> set cl \<Longrightarrow> cb_sector cb < b_size dv \<and> length (cb_data cb) = 512 \<and>
        (\<not> cb_dirty cb \<longrightarrow> cb_data cb = b_data dv (cb_sector cb))"
    "\<And>n. n < b_size dv \<Longrightarrow> length (b_data dv n) = 512"
  shows "cache_wf (st\<lparr>fs_device := dv, cache_list := cl\<rparr>)"
  using assms by (simp add: cache_wf_def)

text \<open>A block is given a new sector: the last block is new, or the old content of block \<open>i\<close> has
  been written to the disk.\<close>

lemma cache_place:
  assumes wf: "cache_wf st" and n: "n < b_size (fs_device st)" "n \<notin> cb_sector ` set (cache_list st)"
    and cl: "cl = cs @ cb # ds" "cb_sector cb = n" "cb_data cb = b_data (fs_device st) n"
    and len: "length cl \<le> CACHE_SIZE"
    and old: "map clear_access (cache_list st) = map clear_access (cs @ old @ ds)" "length old \<le> 1"
    and dv: "b_size dv = b_size (fs_device st)" "dev_inv dv"
      "\<And>m. b_data dv m = (if \<exists>c0\<in>set old. cb_sector c0 = m then cview st m else b_data (fs_device st) m)"
  shows "cache_step st (st\<lparr>fs_device := dv, cache_list := cl\<rparr>)"
proof -
  let ?st = "st\<lparr>fs_device := dv, cache_list := cl\<rparr>"
  let ?cl = "cache_list st"
  have wf': "dev_inv (fs_device st)" "heap_ok st" "distinct (map cb_sector ?cl)"
    "\<forall>cb\<in>set ?cl. cb_sector cb < b_size (fs_device st) \<and> length (cb_data cb) = 512 \<and>
        (\<not> cb_dirty cb \<longrightarrow> cb_data cb = b_data (fs_device st) (cb_sector cb))"
    "\<forall>n < b_size (fs_device st). length (b_data (fs_device st) n) = 512"
    using wf unfolding cache_wf_def by blast+
  have sec: "map cb_sector ?cl = map cb_sector (cs @ old @ ds)" by (rule clear_access_eqD(2)[OF old(1)])
  have dist: "distinct (map cb_sector (cs @ old @ ds))" using wf'(3) sec by simp
  have nn: "n \<notin> cb_sector ` set (cs @ old @ ds)"
    using n(2) arg_cong[OF sec, of set] by (simp only: set_map not_False_eq_True)
  have dcl: "distinct (map cb_sector cl)" using dist nn cl by auto
  have orig: "\<exists>c0\<in>set ?cl. cb_sector c0 = cb_sector c \<and> cb_data c0 = cb_data c \<and> cb_dirty c0 = cb_dirty c"
    if mem: "c \<in> set (cs @ old @ ds)" for c
  proof -
    obtain i where "i < length (cs @ old @ ds)" "(cs @ old @ ds) ! i = c"
      using mem unfolding in_set_conv_nth by blast
    note i = this
    have "?cl ! i \<in> set ?cl" using i(1) clear_access_eqD(1)[OF old(1)] by (intro nth_mem) simp
    moreover note clear_access_eqD(3-5)[OF old(1) i(1)]
    ultimately show ?thesis unfolding i(2) by (intro bexI[of _ "?cl ! i"] conjI)
  qed
  have vw: "cview st (cb_sector c) = cb_data c" if "c \<in> set (cs @ old @ ds)" for c
    using orig[OF that] cview_in[OF wf'(3)] by metis
  have oldsec: "\<not> (\<exists>c0\<in>set old. cb_sector c0 = cb_sector c)" if "c \<in> set (cs @ ds)" for c
    using dist that by auto
  have len512: "length (cview st m) = 512" if "m < b_size (fs_device st)" for m
  proof (cases "m \<in> cb_sector ` set ?cl")
    case True
    then show ?thesis using cview_in[OF wf'(3)] wf'(4) by auto
  next
    case False
    from cview_out[OF this] show ?thesis using wf'(5) that by simp
  qed
  have "cache_wf ?st"
  proof (rule cache_wfI[OF dv(2) wf'(2) len dcl])
    fix c assume "c \<in> set cl"
    then consider "c = cb" | "c \<in> set (cs @ ds)" using cl(1) by auto
    then show "cb_sector c < b_size dv \<and> length (cb_data c) = 512 \<and>
        (\<not> cb_dirty c \<longrightarrow> cb_data c = b_data dv (cb_sector c))"
    proof cases
      case 1
      have "\<not> (\<exists>c0\<in>set old. cb_sector c0 = n)" using nn by auto
      then show ?thesis using 1 cl n(1) dv(1) wf'(5) dv(3)[of n] by simp
    next
      case 2
      then have "c \<in> set (cs @ old @ ds)" by auto
      from orig[OF this] obtain o' where o': "o' \<in> set ?cl" "cb_sector o' = cb_sector c" "cb_data o' = cb_data c"
        "cb_dirty o' = cb_dirty c" by blast
      then show ?thesis using wf'(4) dv(1) dv(3)[of "cb_sector c"] oldsec[OF 2] by auto
    qed
  next
    fix m assume "m < b_size dv"
    then show "length (b_data dv m) = 512" using dv(1,3) wf'(5) len512 by auto
  qed
  moreover have "cview ?st = cview st"
  proof (rule cview_eqI)
    show "distinct (map cb_sector (cache_list ?st))" using dcl by simp
    fix c assume "c \<in> set (cache_list ?st)"
    then consider "c = cb" | "c \<in> set (cs @ old @ ds)" using cl(1) by auto
    then show "cview st (cb_sector c) = cb_data c"
      by cases (use cl cview_out[OF n(2)] vw in simp_all)
  next
    fix m assume m: "m \<notin> cb_sector ` set (cache_list ?st)"
    show "cview st m = b_data (fs_device ?st) m"
    proof (cases "\<exists>c0\<in>set old. cb_sector c0 = m")
      case True
      then show ?thesis using dv(3)[of m] by simp
    next
      case False
      then have "m \<notin> cb_sector ` set (cs @ old @ ds)" using m cl(1) by auto
      then have "m \<notin> cb_sector ` set ?cl" using sec by (metis list.set_map)
      then show ?thesis using False dv(3)[of m] cview_out[of m st] by simp
    qed
  qed
  ultimately show ?thesis using dv(1) by (simp add: cache_step_def)
qed

text \<open>\<open>cache_get\<close> returns on every sector of the device. The block it gives holds the sector, with
  the content the cache and the disk showed before, and nothing else changes to the eye.\<close>

lemma cache_get_spec:
  fixes st :: "'a cached_disk_scheme"
  assumes wf: "cache_wf st" and n: "n < b_size (fs_device st)"
  shows "\<exists>i st'. cache_get n d st = Some (i, st') \<and> cache_step st st' \<and> i < length (cache_list st') \<and>
    cb_sector (cache_list st' ! i) = n \<and> cb_data (cache_list st' ! i) = cview st n \<and>
    (d \<longrightarrow> cb_dirty (cache_list st' ! i))"
proof -
  let ?cl = "cache_list st"
  have dist: "distinct (map cb_sector ?cl)" and dv: "dev_inv (fs_device st)" and hp: "heap_ok st"
    and len: "length ?cl \<le> CACHE_SIZE"
    using wf unfolding cache_wf_def by blast+
  show ?thesis
  proof (cases "in_cache n st")
    case (Some i)
    then have i: "i < length ?cl" "cb_sector (?cl ! i) = n" by (auto simp: in_cache_def dest: find_block_Some)
    let ?cb = "(?cl ! i)\<lparr>cb_access := True, cb_dirty := cb_dirty (?cl ! i) \<or> d\<rparr>"
    let ?st = "upd_block i (\<lambda>cb. cb\<lparr>cb_access := True, cb_dirty := cb_dirty cb \<or> d\<rparr>) st"
    have sec: "map cb_sector (?cl[i := ?cb]) = map cb_sector ?cl"
      using i by (intro nth_equalityI) (auto simp: nth_list_update)
    have mem: "\<exists>c0\<in>set ?cl. cb_sector c0 = cb_sector c \<and> cb_data c0 = cb_data c \<and> (\<not> cb_dirty c \<longrightarrow> \<not> cb_dirty c0)"
      if mem: "c \<in> set (?cl[i := ?cb])" for c
    proof -
      consider "c = ?cb" | "c \<in> set ?cl"
        using subsetD[OF set_update_subset_insert mem] by blast
      then show ?thesis
      proof cases
        case 1
        then show ?thesis using i by (intro bexI[of _ "?cl ! i"]) simp_all
      next
        case 2
        then show ?thesis by blast
      qed
    qed
    have s: "?st = st\<lparr>fs_device := fs_device st, cache_list := ?cl[i := ?cb]\<rparr>" by (simp add: upd_block_def)
    have "cache_wf ?st" unfolding s
    proof (rule cache_wfI)
      fix c assume "c \<in> set (?cl[i := ?cb])"
      from mem[OF this] wf show "cb_sector c < b_size (fs_device st) \<and> length (cb_data c) = 512 \<and>
        (\<not> cb_dirty c \<longrightarrow> cb_data c = b_data (fs_device st) (cb_sector c))"
        unfolding cache_wf_def by metis
    qed (use wf len dist in \<open>simp_all add: sec cache_wf_def\<close>)
    moreover have "cview ?st = cview st"
    proof (rule cview_eqI)
      fix c assume "c \<in> set (cache_list ?st)"
      then have "c \<in> set (?cl[i := ?cb])" by (simp add: upd_block_def)
      from mem[OF this] show "cview st (cb_sector c) = cb_data c" using cview_in[OF dist] by metis
    next
      fix m assume "m \<notin> cb_sector ` set (cache_list ?st)"
      then have "m \<notin> set (map cb_sector (?cl[i := ?cb]))" by (simp add: upd_block_def)
      then have "m \<notin> cb_sector ` set ?cl" unfolding sec by simp
      from cview_out[OF this] show "cview st m = b_data (fs_device ?st) m" by (simp add: upd_block_def)
    next
      have "cache_list ?st = ?cl[i := ?cb]" by (simp add: upd_block_def)
      then show "distinct (map cb_sector (cache_list ?st))" by (simp only: sec dist)
    qed
    ultimately have "cache_step st ?st" by (simp add: cache_step_def upd_block_def)
    moreover have "cview st n = cb_data (?cl ! i)" using cview_in[OF dist, of "?cl ! i"] i by simp
    ultimately show ?thesis using Some i by (simp add: cache_get_def upd_block_def)
  next
    case None
    then have out: "n \<notin> cb_sector ` set ?cl" by (simp add: in_cache_def find_block_None)
    let ?cb = "\<lparr>cb_sector = n, cb_access = True, cb_dirty = d, cb_data = b_data (fs_device st) n\<rparr>"
    show ?thesis
    proof (cases "length ?cl < CACHE_SIZE")
      case True
      let ?dv = "(fs_device st)\<lparr>b_read_cnt := b_read_cnt (fs_device st) + 1\<rparr>"
      have "cache_get n d st = Some (length ?cl, st\<lparr>fs_device := ?dv, cache_list := ?cl @ [?cb]\<rparr>)"
        using None True hp n
        by (simp add: cache_get_def cache_new_def upd_block_def block_read_Some Let_def list_update_append)
      moreover have "cache_step st (st\<lparr>fs_device := ?dv, cache_list := ?cl @ [?cb]\<rparr>)"
        by (rule cache_place[OF wf n out, of _ ?cl ?cb "[]" "[]"])
          (use True dv in \<open>simp_all add: CACHE_SIZE_def dev_inv_def\<close>)
      ultimately show ?thesis using cview_out[OF out] by (simp add: nth_append)
    next
      case False
      then have full: "?cl \<noteq> []" "length ?cl = CACHE_SIZE" using len by (auto simp: CACHE_SIZE_def)
      obtain cs i where e: "evict_loop ?cl = Some (cs, i)" "i < length ?cl"
        "map clear_access cs = map clear_access ?cl"
        using evict_loop_returns[OF full(1)] by blast
      note eq = clear_access_eqD[OF e(3)]
      let ?old = "cs ! i"
      have ci: "cs = take i cs @ [?old] @ drop (Suc i) cs"
        using id_take_nth_drop[of i cs] e(2) eq(1) by simp
      have upd: "cs[i := c] = take i cs @ c # drop (Suc i) cs" for c
        using e(2) eq(1) by (simp add: upd_conv_take_nth_drop)
      have osec: "cb_sector ?old = cb_sector (?cl ! i)" "cb_data ?old = cb_data (?cl ! i)"
        "cb_dirty ?old = cb_dirty (?cl ! i)"
        using eq(3-5)[OF e(2)] by simp_all
      have omem: "?cl ! i \<in> set ?cl" using e(2) by simp
      have oview: "cview st (cb_sector ?old) = cb_data ?old"
        using cview_in[OF dist omem] osec by simp
      have olt: "cb_sector ?old < b_size (fs_device st)"
        and oclean: "\<not> cb_dirty ?old \<Longrightarrow> cb_data ?old = b_data (fs_device st) (cb_sector ?old)"
        using wf omem osec unfolding cache_wf_def by auto
      have on: "cb_sector ?old \<noteq> n" using out omem osec(1) by auto
      let ?d1 = "if cb_dirty ?old then (fs_device st)\<lparr>b_data := (b_data (fs_device st))(cb_sector ?old := cb_data ?old),
          b_write_cnt := b_write_cnt (fs_device st) + 1\<rparr> else fs_device st"
      let ?dv = "?d1\<lparr>b_read_cnt := b_read_cnt ?d1 + 1\<rparr>"
      have ev: "cache_new st = Some (i, st\<lparr>cache_list := cs, fs_device := ?d1\<rparr>)"
        using full e(1) olt block_write_Some[OF dv, of "cb_sector ?old" "cb_data ?old"]
        by (simp add: cache_new_def cache_evict_def Let_def)
      have rd: "b_data ?d1 n = b_data (fs_device st) n" "b_size ?d1 = b_size (fs_device st)" using on by simp_all
      have get: "cache_get n d st = Some (i, st\<lparr>fs_device := ?dv, cache_list := cs[i := ?cb]\<rparr>)"
        using None n e(2) eq(1) ev rd
        by (simp add: cache_get_def upd_block_def block_read_Some Let_def del: if_split cong: if_cong)
      have stp: "cache_step st (st\<lparr>fs_device := ?dv, cache_list := cs[i := ?cb]\<rparr>)"
      proof (rule cache_place[OF wf n out, of _ "take i cs" ?cb "drop (Suc i) cs" "[?old]"])
        show "cs[i := ?cb] = take i cs @ ?cb # drop (Suc i) cs" by (rule upd)
        show "map clear_access ?cl = map clear_access (take i cs @ [?old] @ drop (Suc i) cs)"
          using e(3) ci by simp
        show "b_data ?dv m = (if \<exists>c0\<in>set [?old]. cb_sector c0 = m then cview st m else b_data (fs_device st) m)" for m
          using oview oclean by auto
        show "length (cs[i := ?cb]) \<le> CACHE_SIZE" using full eq(1) by simp
        show "dev_inv ?dv" using dv by (simp add: dev_inv_def)
      qed (simp_all add: rd(2))
      show ?thesis using get stp e(2) eq(1) cview_out[OF out] by simp
    qed
  qed
qed

lemma cache_get_sectors:
  assumes "cache_get n d st = Some (i, st')"
  shows "cb_sector ` set (cache_list st') \<subseteq> insert n (cb_sector ` set (cache_list st))"
proof -
  have upd: "cb_sector ` set (cs[k := c]) \<subseteq> insert (cb_sector c) (cb_sector ` set cs)"
    for cs :: "cache_block list" and k c
    using set_update_subset_insert[of cs k c] by auto
  show ?thesis
  proof (cases "in_cache n st")
    case (Some j)
    then have "i = j" "st' = upd_block i (\<lambda>cb. cb\<lparr>cb_access := True, cb_dirty := cb_dirty cb \<or> d\<rparr>) st"
      using assms by (auto simp: cache_get_def)
    moreover have "cb_sector (cache_list st ! j) = n"
      using find_block_Some[of "cache_list st" n j] Some by (simp add: in_cache_def)
    ultimately show ?thesis
      using upd[of "cache_list st" j "(cache_list st ! j)\<lparr>cb_access := True, cb_dirty := cb_dirty (cache_list st ! j) \<or> d\<rparr>"]
      by (simp add: upd_block_def)
  next
    case None
    then obtain st1 e y where st1: "cache_new st = Some (i, st1)" and
      e: "cache_list st' = (cache_list st1)[i := e]" and
      y: "e = ((cache_list st1)[i := (cache_list st1 ! i)\<lparr>cb_sector := n, cb_access := True, cb_dirty := d\<rparr>] ! i)\<lparr>cb_data := y\<rparr>"
      using assms by (auto simp: cache_get_def bind_Some_iff upd_block_def)
    have "\<exists>c. cb_sector c = n \<and> cache_list st' = (cache_list st1)[i := c]"
    proof (cases "i < length (cache_list st1)")
      case True
      then show ?thesis using e y by (intro exI[of _ e]) simp
    next
      case False
      then show ?thesis using e
        by (intro exI[of _ "\<lparr>cb_sector = n, cb_access = True, cb_dirty = d, cb_data = []\<rparr>"])
          (simp add: list_update_beyond)
    qed
    then obtain c where c: "cb_sector c = n" and st': "cache_list st' = (cache_list st1)[i := c]" by blast
    have l: "cb_sector ` set (cache_list st') \<subseteq> insert n (cb_sector ` set (cache_list st1))"
      using upd[of "cache_list st1" i c] c unfolding st' by simp
    show ?thesis
    proof (cases "length (cache_list st) < CACHE_SIZE")
      case True
      then show ?thesis using st1 st' c by (auto simp: cache_new_def list_update_append split: if_splits)
    next
      case False
      then have ne: "cache_list st \<noteq> []" by (auto simp: CACHE_SIZE_def)
      obtain cs j where cs: "evict_loop (cache_list st) = Some (cs, j)"
        "map clear_access cs = map clear_access (cache_list st)" using evict_loop_returns[OF ne] by blast
      have "cache_list st1 = cs"
        using st1 False cs(1) by (auto simp: cache_new_def cache_evict_def Let_def bind_Some_iff split: if_splits)
      moreover have "cb_sector ` set cs = cb_sector ` set (cache_list st)"
        using arg_cong[OF clear_access_eqD(2)[OF cs(2)], of set] by simp
      ultimately show ?thesis using l by simp
    qed
  qed
qed

section \<open>The cache as a store of sectors\<close>

definition cdisk_ok :: "'a cached_disk_scheme \<Rightarrow> nat \<Rightarrow> bool" where
  "cdisk_ok st n \<longleftrightarrow> n < b_size (fs_device st)"

lemma cview_length: "cache_wf st \<Longrightarrow> n < b_size (fs_device st) \<Longrightarrow> length (cview st n) = 512"
proof (cases "n \<in> cb_sector ` set (cache_list st)")
  case True
  assume "cache_wf st"
  then have "distinct (map cb_sector (cache_list st))" "\<forall>cb\<in>set (cache_list st). length (cb_data cb) = 512"
    unfolding cache_wf_def by blast+
  then show ?thesis using True cview_in[of st] by auto
next
  case False
  assume "cache_wf st" "n < b_size (fs_device st)"
  then show ?thesis using cview_out[OF False] by (simp add: cache_wf_def)
qed

lemma cache_read_spec:
  assumes "cache_wf st" "n < b_size (fs_device st)"
  shows "\<exists>st'. cache_read n st = Some (cview st n, st') \<and> cache_step st st'"
  using cache_get_spec[OF assms, of False] by (auto simp: cache_read_def)

lemma cache_write_spec:
  fixes st :: "'a cached_disk_scheme"
  assumes wf: "cache_wf st" and n: "n < b_size (fs_device st)" and len: "ofs + length buf \<le> 512"
  shows "\<exists>st'. cache_write n ofs buf st = Some st' \<and> cache_wf st' \<and>
    cview st' = (cview st)(n := overlay (cview st n) ofs buf) \<and> b_size (fs_device st') = b_size (fs_device st) \<and>
    st' = st\<lparr>fs_device := fs_device st', cache_list := cache_list st'\<rparr>"
proof -
  obtain i st1 where g: "cache_get n True st = Some (i, st1)" "cache_step st st1" "i < length (cache_list st1)"
    "cb_sector (cache_list st1 ! i) = n" "cb_data (cache_list st1 ! i) = cview st n" "cb_dirty (cache_list st1 ! i)"
    using cache_get_spec[OF wf n, of True] by auto
  let ?cl = "cache_list st1"
  let ?cb = "(?cl ! i)\<lparr>cb_data := overlay (cview st n) ofs buf\<rparr>"
  let ?st = "st1\<lparr>cache_list := ?cl[i := ?cb]\<rparr>"
  have w: "cache_write n ofs buf st = Some ?st" using g by (simp add: cache_write_def upd_block_def)
  have wf1: "cache_wf st1" and v1: "cview st1 = cview st" and s1: "b_size (fs_device st1) = b_size (fs_device st)"
    "st1 = st\<lparr>fs_device := fs_device st1, cache_list := cache_list st1\<rparr>"
    using g(2) unfolding cache_step_def by blast+
  have dist: "distinct (map cb_sector ?cl)" using wf1 unfolding cache_wf_def by blast
  have sec: "map cb_sector (?cl[i := ?cb]) = map cb_sector ?cl"
    using g(3) by (intro nth_equalityI) (auto simp: nth_list_update)
  have len': "length (overlay (cview st n) ofs buf) = 512"
    using cview_length[OF wf n] len by simp
  have "?st = st1\<lparr>fs_device := fs_device st1, cache_list := ?cl[i := ?cb]\<rparr>" by simp
  moreover have "cache_wf (st1\<lparr>fs_device := fs_device st1, cache_list := ?cl[i := ?cb]\<rparr>)"
  proof (rule cache_wfI)
    show "distinct (map cb_sector (?cl[i := ?cb]))" unfolding sec by (rule dist)
    show "length (?cl[i := ?cb]) \<le> CACHE_SIZE" "dev_inv (fs_device st1)" "heap_ok st1"
      using wf1 unfolding cache_wf_def length_list_update by blast+
    show "length (b_data (fs_device st1) m) = 512" if "m < b_size (fs_device st1)" for m
      using wf1 that unfolding cache_wf_def by blast
    fix c assume "c \<in> set (?cl[i := ?cb])"
    then consider "c = ?cb" | "c \<in> set ?cl" using set_update_subset_insert by fastforce
    then show "cb_sector c < b_size (fs_device st1) \<and> length (cb_data c) = 512 \<and>
        (\<not> cb_dirty c \<longrightarrow> cb_data c = b_data (fs_device st1) (cb_sector c))"
    proof cases
      case 1
      then show ?thesis using g(4,6) n s1(1) len' by simp
    next
      case 2
      then show ?thesis using wf1 unfolding cache_wf_def by blast
    qed
  qed
  moreover have "cview ?st = (cview st)(n := overlay (cview st n) ofs buf)"
  proof (rule cview_eqI)
    have "cache_list ?st = ?cl[i := ?cb]" by simp
    then show "distinct (map cb_sector (cache_list ?st))" by (simp only: sec dist)
    fix c assume "c \<in> set (cache_list ?st)"
    then obtain j where j: "j < length ?cl" "c = ?cl[i := ?cb] ! j" by (auto simp: in_set_conv_nth)
    show "((cview st)(n := overlay (cview st n) ofs buf)) (cb_sector c) = cb_data c"
    proof (cases "j = i")
      case True
      then show ?thesis using j g(4) by simp
    next
      case False
      then have c: "c = ?cl ! j" using j by simp
      have "cb_sector c \<noteq> n"
        using dist j(1) g(3,4) False nth_eq_iff_index_eq[of "map cb_sector ?cl" j i] c by simp
      then show ?thesis using cview_in[OF dist, of c] c j v1 by simp
    qed
  next
    fix m assume "m \<notin> cb_sector ` set (cache_list ?st)"
    then have "m \<notin> set (map cb_sector (?cl[i := ?cb]))" by simp
    then have m: "m \<notin> cb_sector ` set ?cl" unfolding sec by simp
    then have "m \<noteq> n" using g(3,4) by auto
    then show "((cview st)(n := overlay (cview st n) ofs buf)) m = b_data (fs_device ?st) m"
      using cview_out[OF m] v1 by simp
  qed
  moreover have "?st = st\<lparr>fs_device := fs_device ?st, cache_list := cache_list ?st\<rparr>"
    by (subst s1(2)) simp
  ultimately show ?thesis using w s1(1) by simp
qed

interpretation cache: sector_store cache_wf cdisk_ok cview cache_read
  "\<lambda>n d (st :: 'a cached_disk_scheme). cache_write n 0 d st"
proof (unfold_locales, goal_cases)
  case (1 s n)
  then show ?case using cache_read_spec[of s n] by (auto simp: cdisk_ok_def cache_step_def fun_eq_iff)
next
  case (2 s n d)
  have "overlay x 0 d = d" if "length x = 512" for x using that 2(3) by (simp add: overlay_def)
  then show ?case
    using 2 cache_write_spec[of s n 0 d] cview_length[of s n] by (auto simp: cdisk_ok_def fun_eq_iff)
qed

section \<open>Writing back\<close>

lemma write_back_spec:
  assumes "dev_inv dev" "\<forall>cb\<in>set cbs. cb_sector cb < b_size dev" "distinct (map cb_sector cbs)"
  shows "\<exists>cbs' dev'. write_back cbs dev = Some (cbs', dev') \<and> dev_inv dev' \<and> b_size dev' = b_size dev \<and>
    cbs' = map (cb_dirty_update (\<lambda>_. False)) cbs \<and>
    (\<forall>n. b_data dev' n = (case find (\<lambda>cb. cb_sector cb = n \<and> cb_dirty cb) cbs of
        Some cb \<Rightarrow> cb_data cb | None \<Rightarrow> b_data dev n))"
  using assms
proof (induction cbs arbitrary: dev)
  case (Cons cb cbs)
  let ?dev = "if cb_dirty cb then dev\<lparr>b_data := (b_data dev)(cb_sector cb := cb_data cb), b_write_cnt := b_write_cnt dev + 1\<rparr> else dev"
  have hd: "(if cb_dirty cb
        then do { dev \<leftarrow> block_write dev (cb_sector cb) (cb_data cb); Some (cb\<lparr>cb_dirty := False\<rparr>, dev) }
        else Some (cb, dev)) = Some (cb\<lparr>cb_dirty := False\<rparr>, ?dev)"
    using Cons.prems block_write_Some[OF Cons.prems(1)] by auto
  have "dev_inv ?dev" "\<forall>cb\<in>set cbs. cb_sector cb < b_size ?dev" "distinct (map cb_sector cbs)"
    using Cons.prems by (auto simp: dev_inv_def)
  from Cons.IH[OF this] obtain cbs' dev' where IH: "write_back cbs ?dev = Some (cbs', dev')" "dev_inv dev'"
    "b_size dev' = b_size ?dev" "cbs' = map (cb_dirty_update (\<lambda>_. False)) cbs"
    "\<forall>n. b_data dev' n = (case find (\<lambda>cb. cb_sector cb = n \<and> cb_dirty cb) cbs of
        Some cb \<Rightarrow> cb_data cb | None \<Rightarrow> b_data ?dev n)" by blast
  have notin: "find (\<lambda>c. cb_sector c = cb_sector cb \<and> cb_dirty c) cbs = None"
    using Cons.prems(3) by (simp add: find_None_iff) (metis image_eqI)
  have "b_data dev' n = (case find (\<lambda>cb. cb_sector cb = n \<and> cb_dirty cb) (cb # cbs) of
        Some cb \<Rightarrow> cb_data cb | None \<Rightarrow> b_data dev n)" for n
    using IH(5) notin by (cases "cb_sector cb = n") (auto split: option.splits)
  moreover have "write_back (cb # cbs) dev = Some (cb\<lparr>cb_dirty := False\<rparr> # cbs', dev')"
    using IH(1) by (simp only: write_back.simps hd) simp
  ultimately show ?case using IH(2-4) by auto
qed simp

lemma cache_write_to_disk_spec:
  fixes st :: "'a cached_disk_scheme"
  assumes wf: "cache_wf st"
  shows "\<exists>st'. cache_write_to_disk finish st = Some st' \<and> cache_wf st' \<and> cview st' = cview st \<and>
    b_data (fs_device st') = cview st \<and> b_size (fs_device st') = b_size (fs_device st) \<and>
    cache_list st' = (if finish then [] else map (cb_dirty_update (\<lambda>_. False)) (cache_list st))"
proof -
  let ?cl = "cache_list st"
  have a: "dev_inv (fs_device st)" "\<forall>cb\<in>set ?cl. cb_sector cb < b_size (fs_device st)" "distinct (map cb_sector ?cl)"
    "heap_ok st" "length ?cl \<le> CACHE_SIZE"
    using wf unfolding cache_wf_def by blast+
  have clean: "\<not> cb_dirty cb \<Longrightarrow> cb_data cb = b_data (fs_device st) (cb_sector cb)" "length (cb_data cb) = 512"
    if "cb \<in> set ?cl" for cb
    using wf that unfolding cache_wf_def by blast+
  obtain cbs dv where w: "write_back ?cl (fs_device st) = Some (cbs, dv)" "dev_inv dv" "b_size dv = b_size (fs_device st)"
    "cbs = map (cb_dirty_update (\<lambda>_. False)) ?cl"
    "\<forall>n. b_data dv n = (case find (\<lambda>cb. cb_sector cb = n \<and> cb_dirty cb) ?cl of
        Some cb \<Rightarrow> cb_data cb | None \<Rightarrow> b_data (fs_device st) n)"
    using write_back_spec[OF a(1-3)] by blast
  have dv: "b_data dv n = cview st n" for n
  proof (cases "find (\<lambda>cb. cb_sector cb = n \<and> cb_dirty cb) ?cl")
    case (Some cb)
    then have "cb \<in> set ?cl" "cb_sector cb = n" by (auto simp: find_Some_iff)
    then show ?thesis using w(5) Some cview_in[OF a(3), of cb] by simp
  next
    case None
    then have nd: "\<forall>cb\<in>set ?cl. \<not> (cb_sector cb = n \<and> cb_dirty cb)" by (auto simp: find_None_iff)
    have "cview st n = b_data (fs_device st) n"
    proof (cases "n \<in> cb_sector ` set ?cl")
      case True
      then obtain cb where cb: "cb \<in> set ?cl" "cb_sector cb = n" by blast
      then have "\<not> cb_dirty cb" using nd by blast
      then show ?thesis using cview_in[OF a(3) cb(1)] clean(1)[OF cb(1)] cb(2) by simp
    qed (rule cview_out)
    then show ?thesis using w(5) None by simp
  qed
  let ?cl' = "if finish then [] else cbs"
  let ?st = "st\<lparr>fs_device := dv, cache_list := ?cl'\<rparr>"
  have mem: "\<exists>cb0\<in>set ?cl. cb = cb0\<lparr>cb_dirty := False\<rparr>" if "cb \<in> set ?cl'" for cb
    using that w(4) by (auto split: if_splits)
  have d': "distinct (map cb_sector ?cl')" using a(3) w(4) by (simp add: comp_def)
  have "cache_wf ?st"
  proof (rule cache_wfI)
    show "length ?cl' \<le> CACHE_SIZE" using a(5) w(4) by simp
    show "length (b_data dv n) = 512" if "n < b_size dv" for n using cview_length[OF wf] that dv w(3) by simp
    fix cb assume "cb \<in> set ?cl'"
    then obtain cb0 where c: "cb0 \<in> set ?cl" "cb = cb0\<lparr>cb_dirty := False\<rparr>" using mem by blast
    then show "cb_sector cb < b_size dv \<and> length (cb_data cb) = 512 \<and> (\<not> cb_dirty cb \<longrightarrow> cb_data cb = b_data dv (cb_sector cb))"
      using a(2) clean(2)[OF c(1)] w(3) dv cview_in[OF a(3) c(1)] by simp
  qed (use d' w(2) a(4) in simp_all)
  moreover have "cview ?st = cview st"
  proof (rule cview_eqI)
    show "distinct (map cb_sector (cache_list ?st))" using d' by simp
    fix cb assume "cb \<in> set (cache_list ?st)"
    then obtain cb0 where c: "cb0 \<in> set ?cl" "cb = cb0\<lparr>cb_dirty := False\<rparr>" using mem by auto
    then show "cview st (cb_sector cb) = cb_data cb" using cview_in[OF a(3) c(1)] by simp
  next
    fix n show "cview st n = b_data (fs_device ?st) n" using dv by simp
  qed
  moreover have "cache_write_to_disk finish st = Some ?st" using w(1) by (simp add: cache_write_to_disk_def)
  ultimately show ?thesis using w(3,4) dv by auto
qed

section \<open>The cache behaves like the disk\<close>

text \<open>What a client of the cache does: read or write some bytes of a sector through the block that
  \<^const>\<open>cache_get\<close> returns. The reference is a disk without a cache.\<close>

datatype disk_op = Read nat nat nat | Write nat nat "byte list"

primrec run_cache :: "disk_op list \<Rightarrow> 'a cached_disk_scheme \<Rightarrow> (byte list list \<times> 'a cached_disk_scheme) option" where
  "run_cache [] st = Some ([], st)"
| "run_cache (x # xs) st = (case x of
     Read n ofs len \<Rightarrow> do {
       (c, st) \<leftarrow> cache_get n False st;
       let bs = take len (drop ofs (cb_data (cache_list st ! c)));
       (out, st) \<leftarrow> run_cache xs st;
       Some (bs # out, st) }
   | Write n ofs bs \<Rightarrow> do {
       (c, st) \<leftarrow> cache_get n True st;
       let st = upd_block c (\<lambda>cb. cb\<lparr>cb_data := overlay (cb_data cb) ofs bs\<rparr>) st;
       run_cache xs st })"

primrec run_disk :: "disk_op list \<Rightarrow> (nat \<Rightarrow> byte list) \<Rightarrow> byte list list \<times> (nat \<Rightarrow> byte list)" where
  "run_disk [] v = ([], v)"
| "run_disk (x # xs) v = (case x of
     Read n ofs len \<Rightarrow> (take len (drop ofs (v n)) # fst (run_disk xs v), snd (run_disk xs v))
   | Write n ofs bs \<Rightarrow> run_disk xs (v(n := overlay (v n) ofs bs)))"

primrec op_ok :: "nat \<Rightarrow> disk_op \<Rightarrow> bool" where
  "op_ok sectors (Read n ofs len) = (n < sectors)"
| "op_ok sectors (Write n ofs bs) = (n < sectors \<and> ofs + length bs \<le> 512)"

lemma run_cache_spec:
  fixes st :: "'a cached_disk_scheme"
  shows "cache_wf st \<Longrightarrow> \<forall>x\<in>set xs. op_ok (b_size (fs_device st)) x \<Longrightarrow>
    \<exists>st'. run_cache xs st = Some (fst (run_disk xs (cview st)), st') \<and> cache_wf st' \<and>
      cview st' = snd (run_disk xs (cview st)) \<and> b_size (fs_device st') = b_size (fs_device st)"
proof (induction xs arbitrary: st)
  case (Cons x xs)
  show ?case
  proof (cases x)
    case (Read n ofs len)
    then have n: "n < b_size (fs_device st)" using Cons.prems(2) by simp
    obtain c st1 where g: "cache_get n False st = Some (c, st1)" "cache_step st st1"
      "cb_data (cache_list st1 ! c) = cview st n"
      using cache_get_spec[OF Cons.prems(1) n] by blast
    note s = g(2)[unfolded cache_step_def]
    obtain st' where "run_cache xs st1 = Some (fst (run_disk xs (cview st1)), st')" "cache_wf st'"
      "cview st' = snd (run_disk xs (cview st1))" "b_size (fs_device st') = b_size (fs_device st1)"
      using Cons.IH[of st1] Cons.prems(2) s by auto
    then show ?thesis using g(1,3) s Read by simp
  next
    case (Write n ofs bs)
    then have n: "n < b_size (fs_device st)" "ofs + length bs \<le> 512" using Cons.prems(2) by simp_all
    obtain st1 where w: "cache_write n ofs bs st = Some st1" "cache_wf st1"
      "cview st1 = (cview st)(n := overlay (cview st n) ofs bs)" "b_size (fs_device st1) = b_size (fs_device st)"
      using cache_write_spec[OF Cons.prems(1) n] by blast
    obtain st' where r: "run_cache xs st1 = Some (fst (run_disk xs (cview st1)), st')" "cache_wf st'"
      "cview st' = snd (run_disk xs (cview st1))" "b_size (fs_device st') = b_size (fs_device st1)"
      using Cons.IH[of st1] Cons.prems(2) w(2,4) by (auto simp del: fun_upd_apply)
    have "run_cache (x # xs) st = run_cache xs st1"
      using w(1) Write by (auto simp: cache_write_def bind_Some_iff)
    then show ?thesis using r w(3,4) Write by simp
  qed
qed simp

end
