(* ===== verification/Inode.thy ===== *)
theory Inode
  imports Cache
begin

text \<open>
  \<open>filesys/inode.c\<close> of project 4, first part: the inode on disk and in memory, the index that leads
  from a byte offset to a sector (4 direct, 9 indirect and one doubly indirect pointer), reading,
  and writing inside a file. A \<open>struct inode\<close> in memory is named by its address. Sizes
  (\<open>off_t\<close>) are integers, offsets natural numbers.
\<close>

section \<open>Layout\<close>

definition INODE_MAGIC :: nat where "INODE_MAGIC = 0x494e4f44"
definition DIRECT_BLOCKS :: nat where "DIRECT_BLOCKS = 4"
definition INDIRECT_BLOCKS :: nat where "INDIRECT_BLOCKS = 9"
definition DOUBLE_INDIRECT_BLOCKS :: nat where "DOUBLE_INDIRECT_BLOCKS = 1"
definition INDIRECT_INDEX :: nat where "INDIRECT_INDEX = 4"
definition DOUBLE_INDIRECT_INDEX :: nat where "DOUBLE_INDIRECT_INDEX = 13"
definition INDIRECT_BLOCK_PTRS :: nat where "INDIRECT_BLOCK_PTRS = 128"
definition INODE_BLOCK_PTRS :: nat where "INODE_BLOCK_PTRS = 14"
definition MAX_FILE_SIZE :: int where "MAX_FILE_SIZE = 8980480"
definition FREE_MAP_SECTOR :: nat where "FREE_MAP_SECTOR = 0"
definition ROOT_DIR_SECTOR :: nat where "ROOT_DIR_SECTOR = 1"

lemmas inode_consts = BLOCK_SECTOR_SIZE_def DIRECT_BLOCKS_def INDIRECT_BLOCKS_def DOUBLE_INDIRECT_BLOCKS_def
  INDIRECT_INDEX_def DOUBLE_INDIRECT_INDEX_def INDIRECT_BLOCK_PTRS_def INODE_BLOCK_PTRS_def MAX_FILE_SIZE_def

record inode_disk =
  d_length :: int
  d_magic :: nat
  d_direct_index :: nat
  d_indirect_index :: nat
  d_double_indirect_index :: nat
  d_isdir :: bool
  d_parent :: nat
  d_ptr :: "nat list"

record inode =
  i_sector :: nat
  i_open_cnt :: int
  i_removed :: bool
  i_deny_write_cnt :: int
  i_length :: int
  i_read_length :: int
  i_direct_index :: nat
  i_indirect_index :: nat
  i_double_indirect_index :: nat
  i_isdir :: bool
  i_parent :: nat
  i_locked :: bool
  i_ptr :: "nat list"

text \<open>An open file (\<open>filesys/file.c\<close>) and an open directory (\<open>filesys/directory.c\<close>).\<close>

record open_file =
  f_inode :: nat
  f_pos :: nat
  f_deny_write :: bool

record dir =
  dir_inode :: nat
  dir_pos :: nat

text \<open>The file system's state: the device and the cache, the free map (\<open>free-map.c\<close>) with the
  inode of its file, the inodes, open files and directories in memory, the current thread's working
  directory, and the address \<open>malloc\<close> gives next (when \<open>heap_ok\<close>); an address is not given twice.\<close>

record fsys = cached_disk +
  free_map :: bitmap
  free_map_file :: "nat option"
  inodes :: "nat \<Rightarrow> inode option"
  open_inodes :: "nat list"
  files :: "nat \<Rightarrow> open_file option"
  dirs :: "nat \<Rightarrow> dir option"
  cwd :: "nat option"
  next_addr :: nat

text \<open>The 512 bytes of a \<open>struct inode_disk\<close>; the padding after \<open>isdir\<close> and \<open>unused\<close> are zero.\<close>

definition enc_inode :: "inode_disk \<Rightarrow> byte list" where
  "enc_inode d = le32s (d_length d) @ le32 (d_magic d) @ le32 (d_direct_index d) @ le32 (d_indirect_index d) @
     le32 (d_double_indirect_index d) @ le32 (if d_isdir d then 1 else 0) @ le32 (d_parent d) @
     replicate 428 0 @ le32_list (d_ptr d)"

definition dec_inode :: "byte list \<Rightarrow> inode_disk" where
  "dec_inode bs = \<lparr>d_length = get32s bs 0, d_magic = get32 bs 4, d_direct_index = get32 bs 8,
     d_indirect_index = get32 bs 12, d_double_indirect_index = get32 bs 16, d_isdir = (bs ! 20 \<noteq> 0),
     d_parent = get32 bs 24, d_ptr = get32_list bs 456 14\<rparr>"

definition inode_disk_ok :: "inode_disk \<Rightarrow> bool" where
  "inode_disk_ok d \<longleftrightarrow> int32 (d_length d) \<and> d_magic d < 2 ^ 32 \<and> d_direct_index d < 2 ^ 32 \<and>
     d_indirect_index d < 2 ^ 32 \<and> d_double_indirect_index d < 2 ^ 32 \<and> d_parent d < 2 ^ 32 \<and>
     length (d_ptr d) = 14 \<and> (\<forall>p\<in>set (d_ptr d). p < 2 ^ 32)"

lemma length_enc_inode: "length (d_ptr d) = 14 \<Longrightarrow> length (enc_inode d) = 512"
  by (simp add: enc_inode_def)

lemma dec_enc_inode:
  assumes "inode_disk_ok d"
  shows "dec_inode (enc_inode d) = d"
proof -
  let ?a = "le32s (d_length d)" and ?m = "le32 (d_magic d)" and ?x = "le32 (d_direct_index d)"
    and ?y = "le32 (d_indirect_index d)" and ?z = "le32 (d_double_indirect_index d)"
    and ?i = "le32 (if d_isdir d then 1 else 0)" and ?p = "le32 (d_parent d)"
    and ?u = "replicate 428 0 :: byte list" and ?q = "le32_list (d_ptr d)"
  let ?e = "enc_inode d"
  have e: "?e = ?a @ ?m @ ?x @ ?y @ ?z @ ?i @ ?p @ ?u @ ?q" by (simp add: enc_inode_def)
  note ok = assms[unfolded inode_disk_ok_def]
  have g: "get32 (as @ le32 n @ bs) k = n" if "k = length as" "n < 2 ^ 32" for as n bs k
    using get32_le32[OF that(2)] that(1) by simp
  have "get32s ?e 0 = d_length d"
    using get32s_le32s[of "d_length d" "[]"] ok by (simp add: e)
  moreover have "get32 ?e 4 = d_magic d" using g[of 4 ?a "d_magic d"] ok by (simp add: e)
  moreover have "get32 ?e 8 = d_direct_index d" using g[of 8 "?a @ ?m" "d_direct_index d"] ok by (simp add: e)
  moreover have "get32 ?e 12 = d_indirect_index d"
    using g[of 12 "?a @ ?m @ ?x" "d_indirect_index d"] ok by (simp add: e)
  moreover have "get32 ?e 16 = d_double_indirect_index d"
    using g[of 16 "?a @ ?m @ ?x @ ?y" "d_double_indirect_index d"] ok by (simp add: e)
  moreover have "get32 ?e 24 = d_parent d"
    using g[of 24 "?a @ ?m @ ?x @ ?y @ ?z @ ?i" "d_parent d"] ok by (simp add: e)
  moreover have "?e ! 20 \<noteq> 0 \<longleftrightarrow> d_isdir d"
  proof -
    have "?e ! 20 = ?i ! 0"
      using nth_append_length_plus[of "?a @ ?m @ ?x @ ?y @ ?z" "?i @ ?p @ ?u @ ?q" 0]
      by (simp add: e nth_append)
    then show ?thesis by (simp add: le32_def)
  qed
  moreover have "get32_list ?e 456 14 = d_ptr d"
    using get32_list_le32_list[of "d_ptr d" "?a @ ?m @ ?x @ ?y @ ?z @ ?i @ ?p @ ?u" "[]"] ok by (simp add: e)
  ultimately show ?thesis by (simp add: dec_inode_def)
qed

section \<open>Counting sectors\<close>

text \<open>\<open>DIV_ROUND_UP (size, step)\<close> in \<open>int\<close>, converted to \<open>size_t\<close>.\<close>

definition div_round_up :: "int \<Rightarrow> int \<Rightarrow> nat" where
  "div_round_up x step = nat ((wrap32 (x + step - 1) sdiv step) mod 2 ^ 32)"

definition bytes_to_data_sectors :: "int \<Rightarrow> nat" where
  "bytes_to_data_sectors n = div_round_up n (int BLOCK_SECTOR_SIZE)"

definition bytes_to_indirect_sectors :: "int \<Rightarrow> nat" where
  "bytes_to_indirect_sectors n =
     (if n \<le> int (BLOCK_SECTOR_SIZE * DIRECT_BLOCKS) then 0
      else div_round_up (n - int (BLOCK_SECTOR_SIZE * DIRECT_BLOCKS)) (int (BLOCK_SECTOR_SIZE * INDIRECT_BLOCK_PTRS)))"

definition bytes_to_double_indirect_sector :: "int \<Rightarrow> nat" where
  "bytes_to_double_indirect_sector n =
     (if n \<le> int (BLOCK_SECTOR_SIZE * (DIRECT_BLOCKS + INDIRECT_BLOCKS * INDIRECT_BLOCK_PTRS)) then 0
      else DOUBLE_INDIRECT_BLOCKS)"

lemma div_round_up_eq:
  "0 \<le> x \<Longrightarrow> 0 < step \<Longrightarrow> step \<le> 65536 \<Longrightarrow> x \<le> 2147400000 \<Longrightarrow> div_round_up x step = nat ((x + step - 1) div step)"
proof -
  assume a: "0 \<le> x" "0 < step" "step \<le> 65536" "x \<le> 2147400000"
  then have w: "wrap32 (x + step - 1) = x + step - 1" by (intro wrap32_idI) auto
  have "(x + step - 1) div step \<le> x + step - 1" using zdiv_mono2[of "x + step - 1" 1 step] a by simp
  then have "(x + step - 1) div step < 2 ^ 32" using a by simp
  moreover have "0 \<le> (x + step - 1) div step" using a by (simp add: pos_imp_zdiv_nonneg_iff)
  ultimately show ?thesis using a by (simp add: div_round_up_def w sdiv_nonneg)
qed

section \<open>From offsets to sectors\<close>

definition raw_read :: "nat \<Rightarrow> 'a cached_disk_scheme \<Rightarrow> (byte list \<times> 'a cached_disk_scheme) option" where
  "raw_read sector st = do {
     (d, dev) \<leftarrow> block_read (fs_device st) sector;
     Some (d, st\<lparr>fs_device := dev\<rparr>) }"

definition raw_write :: "nat \<Rightarrow> byte list \<Rightarrow> 'a cached_disk_scheme \<Rightarrow> 'a cached_disk_scheme option" where
  "raw_write sector d st = do {
     dev \<leftarrow> block_write (fs_device st) sector d;
     Some (st\<lparr>fs_device := dev\<rparr>) }"

text \<open>The index into the outer block of the doubly indirect pointer is not checked; beyond the array
  the C code has no defined behaviour.\<close>

definition byte_to_sector :: "inode \<Rightarrow> int \<Rightarrow> nat \<Rightarrow> 'a cached_disk_scheme \<Rightarrow> (nat \<times> 'a cached_disk_scheme) option" where
  "byte_to_sector ino len pos st =
     (if int pos < len then
        if pos < BLOCK_SECTOR_SIZE * DIRECT_BLOCKS then Some (i_ptr ino ! (pos div BLOCK_SECTOR_SIZE), st)
        else if pos < BLOCK_SECTOR_SIZE * (DIRECT_BLOCKS + INDIRECT_BLOCKS * INDIRECT_BLOCK_PTRS) then do {
          let pos = pos - BLOCK_SECTOR_SIZE * DIRECT_BLOCKS;
          let idx = pos div (BLOCK_SECTOR_SIZE * INDIRECT_BLOCK_PTRS) + DIRECT_BLOCKS;
          (indirect_block, st) \<leftarrow> raw_read (i_ptr ino ! idx) st;
          let pos = pos mod (BLOCK_SECTOR_SIZE * INDIRECT_BLOCK_PTRS);
          Some (get32 indirect_block (4 * (pos div BLOCK_SECTOR_SIZE)), st) }
        else do {
          (indirect_block, st) \<leftarrow> raw_read (i_ptr ino ! DOUBLE_INDIRECT_INDEX) st;
          let pos = pos - BLOCK_SECTOR_SIZE * (DIRECT_BLOCKS + INDIRECT_BLOCKS * INDIRECT_BLOCK_PTRS);
          let idx = pos div (BLOCK_SECTOR_SIZE * INDIRECT_BLOCK_PTRS);
          ASSERT (idx < INDIRECT_BLOCK_PTRS);
          (indirect_block, st) \<leftarrow> raw_read (get32 indirect_block (4 * idx)) st;
          let pos = pos mod (BLOCK_SECTOR_SIZE * INDIRECT_BLOCK_PTRS);
          Some (get32 indirect_block (4 * (pos div BLOCK_SECTOR_SIZE)), st) }
      else Some (2 ^ 32 - 1, st))"

section \<open>Reading and writing inside a file\<close>

definition chunk_size :: "int \<Rightarrow> int \<Rightarrow> nat \<Rightarrow> int" where
  "chunk_size len n offset = (let
     sector_ofs = offset mod BLOCK_SECTOR_SIZE;
     inode_left = len - int offset;
     sector_left = int (BLOCK_SECTOR_SIZE - sector_ofs);
     min_left = (if inode_left < sector_left then inode_left else sector_left)
   in if n < min_left then n else min_left)"

function inode_read_loop ::
    "inode \<Rightarrow> int \<Rightarrow> int \<Rightarrow> nat \<Rightarrow> byte list \<Rightarrow> 'a cached_disk_scheme \<Rightarrow> (byte list \<times> 'a cached_disk_scheme) option" where
  "inode_read_loop ino len n offset buffer st =
     (if n > 0 then do {
        (sector_idx, st) \<leftarrow> byte_to_sector ino len offset st;
        let chunk = chunk_size len n offset;
        if chunk \<le> 0 then Some (buffer, st)
        else do {
          (c, st) \<leftarrow> cache_get sector_idx False st;
          let bytes = take (nat chunk) (drop (offset mod BLOCK_SECTOR_SIZE) (cb_data (cache_list st ! c)));
          inode_read_loop ino len (n - chunk) (offset + nat chunk) (buffer @ bytes) st } }
      else Some (buffer, st))"
  by pat_completeness auto
termination
  by (relation "measure (\<lambda>(ino, len, n, offset, buffer, st). nat n)") auto

function inode_write_loop ::
    "inode \<Rightarrow> int \<Rightarrow> int \<Rightarrow> nat \<Rightarrow> byte list \<Rightarrow> nat \<Rightarrow> 'a cached_disk_scheme \<Rightarrow> (nat \<times> 'a cached_disk_scheme) option" where
  "inode_write_loop ino len n offset buffer written st =
     (if n > 0 then do {
        (sector_idx, st) \<leftarrow> byte_to_sector ino len offset st;
        let chunk = chunk_size len n offset;
        if chunk \<le> 0 then Some (written, st)
        else do {
          (c, st) \<leftarrow> cache_get sector_idx True st;
          let st = upd_block c (\<lambda>cb. cb\<lparr>cb_data :=
            overlay (cb_data cb) (offset mod BLOCK_SECTOR_SIZE) (take (nat chunk) (drop written buffer))\<rparr>) st;
          inode_write_loop ino len (n - chunk) (offset + nat chunk) buffer (written + nat chunk) st } }
      else Some (written, st))"
  by pat_completeness auto
termination
  by (relation "measure (\<lambda>(ino, len, n, offset, buffer, written, st). nat n)") auto

declare inode_read_loop.simps [simp del] inode_write_loop.simps [simp del]

text \<open>The bytes read are the result; their number is \<open>inode_read_at\<close>'s return value.\<close>

definition inode_read_at :: "nat \<Rightarrow> int \<Rightarrow> nat \<Rightarrow> fsys \<Rightarrow> (byte list \<times> fsys) option" where
  "inode_read_at a n offset st = do {
     ino \<leftarrow> inodes st a;
     let len = i_read_length ino;
     if int offset \<ge> len then Some ([], st) else inode_read_loop ino len n offset [] st }"

section \<open>The bytes of a file\<close>

text \<open>The sector of the \<open>k\<close>-th block of a file, and the index sectors on the way to it, when the
  device shows \<open>v\<close>.\<close>

definition sector_of :: "(nat \<Rightarrow> byte list) \<Rightarrow> nat list \<Rightarrow> nat \<Rightarrow> nat" where
  "sector_of v ptr k =
     (if k < 4 then ptr ! k
      else if k < 1156 then get32 (v (ptr ! ((k - 4) div 128 + 4))) (4 * ((k - 4) mod 128))
      else get32 (v (get32 (v (ptr ! 13)) (4 * ((k - 1156) div 128)))) (4 * ((k - 1156) mod 128)))"

definition index_of :: "(nat \<Rightarrow> byte list) \<Rightarrow> nat list \<Rightarrow> nat \<Rightarrow> nat set" where
  "index_of v ptr k =
     (if k < 4 then {}
      else if k < 1156 then {ptr ! ((k - 4) div 128 + 4)}
      else {ptr ! 13, get32 (v (ptr ! 13)) (4 * ((k - 1156) div 128))})"

definition file_byte :: "(nat \<Rightarrow> byte list) \<Rightarrow> nat list \<Rightarrow> nat \<Rightarrow> byte" where
  "file_byte v ptr pos = v (sector_of v ptr (pos div 512)) ! (pos mod 512)"

definition cached :: "'a cached_disk_scheme \<Rightarrow> nat set" where
  "cached st = cb_sector ` set (cache_list st)"

text \<open>A file of \<open>n\<close> blocks is in order: its sectors and index sectors exist, the index sectors,
  which bypass the cache, are not in the cache, and none of them is a block of the file.\<close>

definition file_ok :: "'a cached_disk_scheme \<Rightarrow> nat list \<Rightarrow> nat \<Rightarrow> bool" where
  "file_ok st ptr n \<longleftrightarrow> n \<le> 17540 \<and>
     (\<forall>k<n. sector_of (cview st) ptr k < b_size (fs_device st) \<and>
        (\<forall>m\<in>index_of (cview st) ptr k. m < b_size (fs_device st) \<and> m \<notin> cached st) \<and>
        (\<forall>k'<n. sector_of (cview st) ptr k \<notin> index_of (cview st) ptr k'))"

lemma block_arith:
  fixes pos b :: nat
  assumes "512 * b \<le> pos"
  shows "(pos - 512 * b) div 65536 = (pos div 512 - b) div 128"
    "(pos - 512 * b) mod 65536 div 512 = (pos div 512 - b) mod 128"
proof -
  have q: "(pos - 512 * b) div 512 = pos div 512 - b"
  proof -
    obtain d where "pos = d + b * 512" using assms le_Suc_ex[of "512 * b" pos] by (auto simp: algebra_simps)
    then show ?thesis by simp
  qed
  have "(pos - 512 * b) div (512 * 128) = (pos - 512 * b) div 512 div 128" by (rule div_mult2_eq)
  then show "(pos - 512 * b) div 65536 = (pos div 512 - b) div 128" by (simp add: q)
  have "(pos - 512 * b) mod (512 * 128) div 512 = (pos - 512 * b) div 512 mod 128"
    by (subst mod_mult2_eq) simp
  then show "(pos - 512 * b) mod 65536 div 512 = (pos div 512 - b) mod 128" by (simp add: q)
qed

lemma raw_read_spec:
  assumes "cache_wf st" "n < b_size (fs_device st)" "n \<notin> cached st"
  shows "\<exists>st'. raw_read n st = Some (cview st n, st') \<and> cache_step st st' \<and> cache_list st' = cache_list st"
proof -
  let ?dv = "(fs_device st)\<lparr>b_read_cnt := b_read_cnt (fs_device st) + 1\<rparr>"
  have "raw_read n st = Some (cview st n, st\<lparr>fs_device := ?dv\<rparr>)"
    using assms cview_out[of n st] by (simp add: raw_read_def block_read_Some cached_def)
  moreover have "cview (st\<lparr>fs_device := ?dv\<rparr>) = cview st"
    by (rule ext) (simp add: cview_def split: option.split)
  then have "cache_step st (st\<lparr>fs_device := ?dv\<rparr>)"
    using assms(1) by (simp add: cache_step_def cache_wf_def dev_inv_def)
  ultimately show ?thesis by auto
qed

lemma byte_to_sector_spec:
  assumes wf: "cache_wf st" and f: "file_ok st (i_ptr ino) n" and pos: "int pos < len" "pos < 512 * n"
  shows "\<exists>st'. byte_to_sector ino len pos st = Some (sector_of (cview st) (i_ptr ino) (pos div 512), st') \<and>
    cache_step st st' \<and> cache_list st' = cache_list st"
proof -
  let ?k = "pos div 512" and ?ptr = "i_ptr ino" and ?v = "cview st"
  have k: "?k < n" using pos(2) by simp
  have meta: "m < b_size (fs_device st)" "m \<notin> cached st" if "m \<in> index_of ?v ?ptr ?k" for m
    using f k that unfolding file_ok_def by blast+
  consider "pos < 2048" | "2048 \<le> pos" "pos < 591872" | "591872 \<le> pos" by linarith
  then show ?thesis
  proof cases
    case 1
    then have "?k < 4" by simp
    then show ?thesis using 1 pos(1) wf
      by (simp add: byte_to_sector_def inode_consts sector_of_def cache_step_refl)
  next
    case 2
    then have kk: "\<not> ?k < 4" "?k < 1156" by simp_all
    note ar = block_arith[of 4 pos, simplified, OF 2(1)]
    have "?ptr ! ((?k - 4) div 128 + 4) \<in> index_of ?v ?ptr ?k" using kk by (simp add: index_of_def)
    from raw_read_spec[OF wf meta[OF this]] obtain st' where
      "raw_read (?ptr ! ((?k - 4) div 128 + 4)) st = Some (?v (?ptr ! ((?k - 4) div 128 + 4)), st')"
      "cache_step st st'" "cache_list st' = cache_list st" by blast
    then show ?thesis using 2 pos(1) kk
      by (simp add: byte_to_sector_def inode_consts sector_of_def ar Let_def)
  next
    case 3
    then have kk: "\<not> ?k < 4" "\<not> ?k < 1156" by simp_all
    note ar = block_arith[of 1156 pos, simplified, OF 3]
    let ?in = "get32 (?v (?ptr ! 13)) (4 * ((?k - 1156) div 128))"
    have "n \<le> 17540" using f by (simp add: file_ok_def)
    then have idx: "(?k - 1156) div 128 < 128" using k by (simp add: div_less_iff_less_mult)
    have "?ptr ! 13 \<in> index_of ?v ?ptr ?k" using kk by (simp add: index_of_def)
    from raw_read_spec[OF wf meta[OF this]] obtain st1 where st1:
      "raw_read (?ptr ! 13) st = Some (?v (?ptr ! 13), st1)" "cache_step st st1" "cache_list st1 = cache_list st"
      by blast
    have in': "?in \<in> index_of ?v ?ptr ?k" using kk by (simp add: index_of_def)
    have wf1: "cache_wf st1" "cview st1 = ?v" "b_size (fs_device st1) = b_size (fs_device st)" "cached st1 = cached st"
      using st1(2,3) by (simp_all add: cache_step_def cached_def)
    obtain st2 where st2: "raw_read ?in st1 = Some (?v ?in, st2)" "cache_step st1 st2" "cache_list st2 = cache_list st1"
      using raw_read_spec[OF wf1(1), of ?in] meta[OF in'] wf1 by auto
    have "cache_step st st2" using st1(2) st2(2) by (rule cache_step_trans)
    then show ?thesis using 3 pos(1) kk st1 st2 idx
      by (simp add: byte_to_sector_def inode_consts sector_of_def ar Let_def)
  qed
qed

lemma file_ok_step:
  assumes "file_ok st ptr n" "cview st' = cview st" "b_size (fs_device st') = b_size (fs_device st)"
    "cached st' \<subseteq> insert (sector_of (cview st) ptr k) (cached st)" "k < n"
  shows "file_ok st' ptr n"
  using assms unfolding file_ok_def by fastforce

section \<open>Reading\<close>

lemma chunk_size_eq:
  assumes "0 < n" "offset < len"
  shows "chunk_size (int len) n offset = int (min (nat n) (min (len - offset) (512 - offset mod 512)))"
  using assms by (auto simp: chunk_size_def Let_def BLOCK_SECTOR_SIZE_def min_def)

lemma chunk_size_end: "0 < n \<Longrightarrow> len \<le> offset \<Longrightarrow> chunk_size (int len) n offset \<le> 0"
  by (simp add: chunk_size_def Let_def)

lemma same_block: "offset \<le> p \<Longrightarrow> p < offset + (512 - offset mod 512) \<Longrightarrow>
    p div 512 = offset div 512 \<and> p mod 512 = offset mod 512 + (p - offset)" for p offset :: nat
proof -
  assume a: "offset \<le> p" "p < offset + (512 - offset mod 512)"
  define q r where "q = offset div 512" and "r = offset mod 512"
  have o: "offset = q * 512 + r" "r < 512" by (simp_all add: q_def r_def)
  then have p: "p = (r + (p - offset)) + q * 512" "r + (p - offset) < 512" using a by (simp_all add: r_def[symmetric])
  have "p div 512 = q" "p mod 512 = r + (p - offset)" by (subst p(1), use p(2) in simp)+
  then show ?thesis by (simp add: q_def r_def)
qed

lemma upt_split: "a \<le> b \<Longrightarrow> b \<le> c \<Longrightarrow> [a..<c] = [a..<b] @ [b..<c]"
  by (metis le_add_diff_inverse upt_add_eq_append)

lemma inode_read_loop_spec:
  assumes "cache_wf st" "file_ok st (i_ptr ino) k" "len \<le> 512 * k"
  shows "\<exists>st'. inode_read_loop ino (int len) n offset buf st =
      Some (buf @ map (file_byte (cview st) (i_ptr ino)) [offset..<min (offset + nat n) len], st') \<and> cache_step st st' \<and>
    cached st' \<subseteq> cached st \<union> sector_of (cview st) (i_ptr ino) ` {..<k}"
  using assms
proof (induction "nat n" arbitrary: n offset buf st rule: less_induct)
  case less
  let ?v = "cview st" and ?ptr = "i_ptr ino"
  show ?case
  proof (cases "0 < n")
    case False
    then show ?thesis using less.prems(1) by (subst inode_read_loop.simps) (simp add: cache_step_refl)
  next
    case n: True
    show ?thesis
    proof (cases "offset < len")
      case False
      then show ?thesis using n less.prems(1) chunk_size_end[of n len offset]
        by (subst inode_read_loop.simps) (simp add: byte_to_sector_def cache_step_refl)
    next
      case True
      define c where "c = min (nat n) (min (len - offset) (512 - offset mod 512))"
      have ck: "chunk_size (int len) n offset = int c" using chunk_size_eq[OF n True] by (simp add: c_def)
      have c: "0 < c" "c \<le> nat n" "offset + c \<le> len" "offset mod 512 + c \<le> 512"
      proof -
        have "offset mod 512 < 512" by simp
        then show "0 < c" "c \<le> nat n" "offset + c \<le> len" "offset mod 512 + c \<le> 512"
          using n True unfolding c_def by linarith+
      qed
      let ?s = "sector_of ?v ?ptr (offset div 512)"
      have kk: "offset div 512 < k" using True less.prems(3) by simp
      then have sin: "?s < b_size (fs_device st)" using less.prems(2) by (simp add: file_ok_def)
      obtain st1 where st1: "byte_to_sector ino (int len) offset st = Some (?s, st1)" "cache_step st st1"
        "cache_list st1 = cache_list st"
        using byte_to_sector_spec[OF less.prems(1,2), of offset "int len"] True less.prems(3) by auto
      have w1: "cache_wf st1" "cview st1 = ?v" "b_size (fs_device st1) = b_size (fs_device st)" "cached st1 = cached st"
        using st1 by (simp_all add: cache_step_def cached_def)
      obtain i st2 where st2: "cache_get ?s False st1 = Some (i, st2)" "cache_step st1 st2"
        "cb_data (cache_list st2 ! i) = ?v ?s"
        using cache_get_spec[OF w1(1), of ?s False] sin w1 by auto
      have step: "cache_step st st2" using st1(2) st2(2) by (rule cache_step_trans)
      have w2: "cache_wf st2" "cview st2 = ?v" "b_size (fs_device st2) = b_size (fs_device st)"
        using step by (simp_all add: cache_step_def)
      have ca: "cached st2 \<subseteq> insert ?s (cached st)"
        using cache_get_sectors[OF st2(1)] w1(4) by (simp add: cached_def)
      then have f2: "file_ok st2 ?ptr k" by (intro file_ok_step[OF less.prems(2) w2(2,3) _ kk])
      have len512: "length (?v ?s) = 512" using cview_length[OF less.prems(1) sin] .
      have bytes: "take c (drop (offset mod 512) (?v ?s)) = map (file_byte ?v ?ptr) [offset..<offset + c]"
      proof (rule nth_equalityI)
        fix j assume "j < length (take c (drop (offset mod 512) (?v ?s)))"
        then have j: "j < c" using len512 c(4) by simp
        have "(offset + j) div 512 = offset div 512" "(offset + j) mod 512 = offset mod 512 + j"
          using same_block[of offset "offset + j"] j c(4) by simp_all
        then show "take c (drop (offset mod 512) (?v ?s)) ! j = map (file_byte ?v ?ptr) [offset..<offset + c] ! j"
          using j len512 c(4) by (simp add: file_byte_def)
      qed (use len512 c(4) in simp)
      have less': "nat (n - int c) < nat n" using c(1) n by simp
      obtain st3 where st3: "inode_read_loop ino (int len) (n - int c) (offset + c)
          (buf @ map (file_byte ?v ?ptr) [offset..<offset + c]) st2 =
        Some ((buf @ map (file_byte ?v ?ptr) [offset..<offset + c]) @
          map (file_byte ?v ?ptr) [offset + c..<min (offset + c + nat (n - int c)) len], st3)" "cache_step st2 st3"
        "cached st3 \<subseteq> cached st2 \<union> sector_of ?v ?ptr ` {..<k}"
        using less.hyps[OF less' w2(1) f2 less.prems(3)] w2(2) by metis
      have e: "offset + c + nat (n - int c) = offset + nat n" using c(2) by (simp add: nat_diff_distrib)
      have sp: "[offset..<min (offset + nat n) len] = [offset..<offset + c] @ [offset + c..<min (offset + nat n) len]"
        using c by (intro upt_split) simp_all
      have "inode_read_loop ino (int len) n offset buf st =
          inode_read_loop ino (int len) (n - int c) (offset + c) (buf @ map (file_byte ?v ?ptr) [offset..<offset + c]) st2"
        using n st1(1) st2(1,3) ck c(1) bytes by (subst inode_read_loop.simps) (simp add: Let_def BLOCK_SECTOR_SIZE_def)
      moreover have "cache_step st st3" using step st3(2) by (rule cache_step_trans)
      moreover have "?s \<in> sector_of ?v ?ptr ` {..<k}" using kk by simp
      then have "cached st3 \<subseteq> cached st \<union> sector_of ?v ?ptr ` {..<k}" using ca st3(3) by blast
      ultimately show ?thesis using st3(1) unfolding e sp by auto
    qed
  qed
qed

lemma file_ok_after_read:
  assumes "file_ok st ptr k" "cache_step st st'" "cached st' \<subseteq> cached st \<union> sector_of (cview st) ptr ` {..<k}"
  shows "file_ok st' ptr k"
proof -
  have v: "cview st' = cview st" "b_size (fs_device st') = b_size (fs_device st)" using assms(2) by (simp_all add: cache_step_def)
  have "m \<notin> cached st'" if "m \<in> index_of (cview st) ptr j" "j < k" for m j
  proof
    assume "m \<in> cached st'"
    then have "m \<in> cached st \<or> m \<in> sector_of (cview st) ptr ` {..<k}" using assms(3) by blast
    then show False using assms(1) that unfolding file_ok_def by blast
  qed
  then show ?thesis using assms(1) unfolding file_ok_def v by blast
qed

lemma inode_read_at_spec:
  assumes "cache_wf st" "inodes st a = Some ino" "file_ok st (i_ptr ino) k" "i_read_length ino = int len" "len \<le> 512 * k"
  shows "\<exists>st'. inode_read_at a n offset st =
      Some (map (file_byte (cview st) (i_ptr ino)) [offset..<min (offset + nat n) len], st') \<and> cache_step st st' \<and>
    file_ok st' (i_ptr ino) k \<and> cached st' \<subseteq> cached st \<union> sector_of (cview st) (i_ptr ino) ` {..<k}"
proof (cases "offset < len")
  case True
  obtain st' where r: "inode_read_loop ino (int len) n offset [] st =
      Some (map (file_byte (cview st) (i_ptr ino)) [offset..<min (offset + nat n) len], st')" "cache_step st st'"
    "cached st' \<subseteq> cached st \<union> sector_of (cview st) (i_ptr ino) ` {..<k}"
    using inode_read_loop_spec[OF assms(1,3,5), of n offset "[]"] by auto
  then show ?thesis using file_ok_after_read[OF assms(3) r(2,3)] assms(2,4) True r(3) by (simp add: inode_read_at_def)
next
  case False
  then show ?thesis using assms by (simp add: inode_read_at_def cache_step_refl)
qed

section \<open>Writing inside a file\<close>

lemma sector_of_upd:
  assumes "s \<notin> index_of v ptr k"
  shows "sector_of (v(s := d)) ptr k = sector_of v ptr k" "index_of (v(s := d)) ptr k = index_of v ptr k"
  using assms by (auto simp: sector_of_def index_of_def split: if_splits)

lemma cache_write_loop_step:
  "cache_write s ofs buf st = Some st' \<longleftrightarrow> (\<exists>c st1. cache_get s True st = Some (c, st1) \<and>
     st' = upd_block c (\<lambda>cb. cb\<lparr>cb_data := overlay (cb_data cb) ofs buf\<rparr>) st1)"
  by (auto simp: cache_write_def bind_Some_iff)

lemma cached_upd_data: "cached (upd_block i (\<lambda>cb. cb\<lparr>cb_data := f cb\<rparr>) st) = cached st"
proof -
  have "map cb_sector (xs[i := (xs ! i)\<lparr>cb_data := x\<rparr>]) = map cb_sector xs" for xs :: "cache_block list" and x
  proof (rule nth_equalityI)
    fix j assume "j < length (map cb_sector (xs[i := (xs ! i)\<lparr>cb_data := x\<rparr>]))"
    then show "map cb_sector (xs[i := (xs ! i)\<lparr>cb_data := x\<rparr>]) ! j = map cb_sector xs ! j"
      by (cases "i = j") simp_all
  qed simp
  from arg_cong[OF this, of set] show ?thesis
    unfolding cached_def upd_block_def set_map by simp
qed

lemma inode_write_loop_spec:
  fixes st :: "'a cached_disk_scheme"
  assumes "cache_wf st" "file_ok st (i_ptr ino) k" "inj_on (sector_of (cview st) (i_ptr ino)) {..<k}"
    "len \<le> 512 * k" "w + nat n \<le> length buf"
  shows "\<exists>st'. inode_write_loop ino (int len) n offset buf w st = Some (w + min (nat n) (len - offset), st') \<and>
    cache_wf st' \<and> file_ok st' (i_ptr ino) k \<and>
    (\<forall>j<k. sector_of (cview st') (i_ptr ino) j = sector_of (cview st) (i_ptr ino) j) \<and>
    (\<forall>pos<512 * k. file_byte (cview st') (i_ptr ino) pos =
       (if offset \<le> pos \<and> pos < offset + min (nat n) (len - offset) then buf ! (w + (pos - offset))
        else file_byte (cview st) (i_ptr ino) pos)) \<and>
    (\<forall>s. s \<notin> sector_of (cview st) (i_ptr ino) ` {..<k} \<longrightarrow> cview st' s = cview st s) \<and>
    st' = st\<lparr>fs_device := fs_device st', cache_list := cache_list st'\<rparr> \<and> b_size (fs_device st') = b_size (fs_device st)"
  using assms
proof (induction "nat n" arbitrary: n offset w st rule: less_induct)
  case less
  let ?v = "cview st" and ?ptr = "i_ptr ino"
  show ?case
  proof (cases "0 < n \<and> offset < len")
    case False
    have "inode_write_loop ino (int len) n offset buf w st = Some (w, st)"
      using False less.prems(1) chunk_size_end[of n len offset]
      by (subst inode_write_loop.simps) (auto simp: byte_to_sector_def)
    moreover have "min (nat n) (len - offset) = 0" using False by auto
    ultimately show ?thesis using less.prems(1,2) by (simp add: not_le[symmetric])
  next
    case True
    then have n: "0 < n" and olen: "offset < len" by simp_all
    define c where "c = min (nat n) (min (len - offset) (512 - offset mod 512))"
    have ck: "chunk_size (int len) n offset = int c" using chunk_size_eq[OF n olen] by (simp add: c_def)
    have c: "0 < c" "c \<le> nat n" "offset + c \<le> len" "offset mod 512 + c \<le> 512"
    proof -
      have "offset mod 512 < 512" by simp
      then show "0 < c" "c \<le> nat n" "offset + c \<le> len" "offset mod 512 + c \<le> 512"
        using n olen unfolding c_def by linarith+
    qed
    let ?q = "offset div 512" and ?o = "offset mod 512"
    let ?s = "sector_of ?v ?ptr ?q" and ?b = "take c (drop w buf)"
    have kk: "?q < k" using olen less.prems(4) by simp
    then have sin: "?s < b_size (fs_device st)" using less.prems(2) by (simp add: file_ok_def)
    have nidx: "?s \<notin> index_of ?v ?ptr j" if "j < k" for j using less.prems(2) kk that by (simp add: file_ok_def)
    obtain st1 where st1: "byte_to_sector ino (int len) offset st = Some (?s, st1)" "cache_step st st1"
      "cache_list st1 = cache_list st"
      using byte_to_sector_spec[OF less.prems(1,2), of offset "int len"] olen less.prems(4) by auto
    have w1: "cache_wf st1" "cview st1 = ?v" "b_size (fs_device st1) = b_size (fs_device st)" "cached st1 = cached st"
      "st1 = st\<lparr>fs_device := fs_device st1, cache_list := cache_list st1\<rparr>"
      using st1 unfolding cache_step_def cached_def by simp_all
    have lb: "length ?b = c" using c(2) less.prems(5) by simp
    obtain st2 where st2: "cache_write ?s ?o ?b st1 = Some st2" "cache_wf st2"
      "cview st2 = ?v(?s := overlay (?v ?s) ?o ?b)" "b_size (fs_device st2) = b_size (fs_device st)"
      "st2 = st1\<lparr>fs_device := fs_device st2, cache_list := cache_list st2\<rparr>"
      using cache_write_spec[OF w1(1), of ?s ?o ?b] sin w1 c(4) lb by auto
    obtain i st3 where g: "cache_get ?s True st1 = Some (i, st3)"
      "st2 = upd_block i (\<lambda>cb. cb\<lparr>cb_data := overlay (cb_data cb) ?o ?b\<rparr>) st3"
      using st2(1) unfolding cache_write_loop_step by blast
    have sec: "sector_of (cview st2) ?ptr j = sector_of ?v ?ptr j" "index_of (cview st2) ?ptr j = index_of ?v ?ptr j"
      if "j < k" for j unfolding st2(3) using sector_of_upd[OF nidx[OF that]] by blast+
    have "cached st2 = cached st3" unfolding g(2) by (rule cached_upd_data)
    then have "cached st2 \<subseteq> insert ?s (cached st)" using cache_get_sectors[OF g(1)] w1(4) by (simp add: cached_def)
    then have f2: "file_ok st2 ?ptr k"
      using less.prems(2) nidx kk sec st2(4) unfolding file_ok_def by (auto dest!: subsetD)
    have inj2: "inj_on (sector_of (cview st2) ?ptr) {..<k}"
      using less.prems(3) sec(1) unfolding inj_on_def by simp
    have "nat (n - int c) < nat n" "w + c + nat (n - int c) \<le> length buf" using c(1,2) n less.prems(5) by simp_all
    from less.hyps[OF this(1) st2(2) f2 inj2 less.prems(4) this(2), of "offset + c"] obtain st' where st':
      "inode_write_loop ino (int len) (n - int c) (offset + c) buf (w + c) st2 =
        Some (w + c + min (nat (n - int c)) (len - (offset + c)), st')"
      "cache_wf st'" "file_ok st' ?ptr k" "\<forall>j<k. sector_of (cview st') ?ptr j = sector_of (cview st2) ?ptr j"
      "\<forall>pos<512 * k. file_byte (cview st') ?ptr pos =
        (if offset + c \<le> pos \<and> pos < offset + c + min (nat (n - int c)) (len - (offset + c))
         then buf ! (w + c + (pos - (offset + c))) else file_byte (cview st2) ?ptr pos)"
      "\<forall>s. s \<notin> sector_of (cview st2) ?ptr ` {..<k} \<longrightarrow> cview st' s = cview st2 s"
      "st' = st2\<lparr>fs_device := fs_device st', cache_list := cache_list st'\<rparr>"
      "b_size (fs_device st') = b_size (fs_device st2)" by blast
    have run: "inode_write_loop ino (int len) n offset buf w st =
        inode_write_loop ino (int len) (n - int c) (offset + c) buf (w + c) st2"
      using n st1(1) g ck c(1) by (subst inode_write_loop.simps) (simp add: Let_def BLOCK_SECTOR_SIZE_def)
    have m: "c + min (nat (n - int c)) (len - (offset + c)) = min (nat n) (len - offset)"
    proof -
      have "nat (n - int c) = nat n - c" by simp
      then show ?thesis using c(2,3) by linarith
    qed
    have len512: "length (?v ?s) = 512" using cview_length[OF less.prems(1) sin] .
    have byte2: "file_byte (cview st2) ?ptr pos =
        (if offset \<le> pos \<and> pos < offset + c then buf ! (w + (pos - offset)) else file_byte ?v ?ptr pos)"
      if pos: "pos < 512 * k" for pos
    proof (cases "pos div 512 = ?q")
      case True
      have r: "pos mod 512 < 512" "pos = ?q * 512 + pos mod 512" "offset = ?q * 512 + ?o"
        using div_mult_mod_eq[of pos 512] div_mult_mod_eq[of offset 512] True by simp_all
      have "file_byte (cview st2) ?ptr pos = overlay (?v ?s) ?o ?b ! (pos mod 512)"
        using True sec(1)[OF kk] st2(3) by (simp add: file_byte_def)
      also have "\<dots> = (if ?o \<le> pos mod 512 \<and> pos mod 512 < ?o + c then ?b ! (pos mod 512 - ?o) else ?v ?s ! (pos mod 512))"
        using nth_overlay[of ?o ?b "?v ?s" "pos mod 512"] lb c(4) len512 r(1) by simp
      also have "?o \<le> pos mod 512 \<and> pos mod 512 < ?o + c \<longleftrightarrow> offset \<le> pos \<and> pos < offset + c"
        using r by linarith
      also have "pos mod 512 - ?o = pos - offset" using r by linarith
      also have "(if offset \<le> pos \<and> pos < offset + c then ?b ! (pos - offset) else ?v ?s ! (pos mod 512)) =
          (if offset \<le> pos \<and> pos < offset + c then buf ! (w + (pos - offset)) else file_byte ?v ?ptr pos)"
      proof -
        have "?b ! (pos - offset) = buf ! (w + (pos - offset))" if "offset \<le> pos" "pos < offset + c"
          using that c(2) less.prems(5) by (subst nth_take, simp) (subst nth_drop, simp_all)
        then show ?thesis using True unfolding file_byte_def by presburger
      qed
      finally show ?thesis .
    next
      case False
      have p: "pos div 512 < k" using pos by simp
      have "sector_of ?v ?ptr (pos div 512) \<noteq> ?s"
        using less.prems(3) p kk False by (auto simp: inj_on_def)
      then have "file_byte (cview st2) ?ptr pos = file_byte ?v ?ptr pos"
        using sec(1)[OF p] st2(3) by (simp add: file_byte_def)
      moreover have "\<not> (offset \<le> pos \<and> pos < offset + c)"
      proof
        assume a: "offset \<le> pos \<and> pos < offset + c"
        have "pos < offset + (512 - ?o)" using a c(4) by linarith
        with same_block[of offset pos] a False show False by blast
      qed
      ultimately show ?thesis by presburger
    qed
    have "file_byte (cview st') ?ptr pos =
       (if offset \<le> pos \<and> pos < offset + min (nat n) (len - offset) then buf ! (w + (pos - offset))
        else file_byte ?v ?ptr pos)" if pos: "pos < 512 * k" for pos
      using st'(5) byte2[OF pos] pos unfolding m[symmetric] by auto
    moreover have "sector_of (cview st') ?ptr j = sector_of ?v ?ptr j" if "j < k" for j
      using st'(4) sec(1)[OF that] that by simp
    moreover have "cview st' s = ?v s" if "s \<notin> sector_of ?v ?ptr ` {..<k}" for s
    proof -
      have "sector_of (cview st2) ?ptr ` {..<k} = sector_of ?v ?ptr ` {..<k}" using sec(1) by simp
      then have "cview st' s = cview st2 s" using st'(6) that by simp
      moreover have "s \<noteq> ?s" using that kk by blast
      ultimately show ?thesis using st2(3) by simp
    qed
    moreover have "st' = st\<lparr>fs_device := fs_device st', cache_list := cache_list st'\<rparr>"
      by (subst st'(7), subst st2(5), subst w1(5)) simp
    moreover have "inode_write_loop ino (int len) n offset buf w st = Some (w + min (nat n) (len - offset), st')"
      using run st'(1) m by simp
    ultimately show ?thesis using st'(2,3,8) st2(4) by simp
  qed
qed

end
