(* ===== verification/FreeMap.thy ===== *)
theory FreeMap
  imports Inode
begin

text \<open>
  \<open>filesys/free-map.c\<close> of project 4: the bitmap of free sectors and its file. Writing the bitmap
  goes through \<open>file_write_at\<close> and \<open>inode_write_at\<close> to the free map's own inode. If that file had
  to grow by a sector, \<open>inode_expand\<close> would call \<open>free_map_allocate\<close> again, with the inode's lock
  held, and the kernel would panic in the nested \<open>inode_lock\<close>: \<^const>\<open>None\<close>. So the write to the
  free map's file is written out here for a file that need not grow.
\<close>

section \<open>Writing a file that does not grow\<close>

definition put_inode :: "nat \<Rightarrow> (inode \<Rightarrow> inode) \<Rightarrow> fsys \<Rightarrow> fsys option" where
  "put_inode a f st = (case inodes st a of None \<Rightarrow> None
     | Some ino \<Rightarrow> Some (st\<lparr>inodes := (inodes st)(a \<mapsto> f ino)\<rparr>))"

text \<open>\<open>inode_lock\<close> and \<open>inode_unlock\<close> of a thread that runs alone: taking a lock twice fails the
  assertion of \<open>lock_acquire\<close>.\<close>

definition inode_lock :: "nat \<Rightarrow> fsys \<Rightarrow> fsys option" where
  "inode_lock a st = do {
     ino \<leftarrow> inodes st a;
     ASSERT (\<not> i_locked ino);
     put_inode a (i_locked_update (\<lambda>_. True)) st }"

definition inode_unlock :: "nat \<Rightarrow> fsys \<Rightarrow> fsys option" where
  "inode_unlock a st = do {
     ino \<leftarrow> inodes st a;
     ASSERT (i_locked ino);
     put_inode a (i_locked_update (\<lambda>_. False)) st }"

text \<open>The part of \<open>inode_write_at\<close> after the file has been given its length.\<close>

definition inode_write_tail :: "nat \<Rightarrow> byte list \<Rightarrow> int \<Rightarrow> nat \<Rightarrow> fsys \<Rightarrow> (nat \<times> fsys) option" where
  "inode_write_tail a buffer n offset st = do {
     ino \<leftarrow> inodes st a;
     (written, st) \<leftarrow> inode_write_loop ino (i_length ino) n offset buffer 0 st;
     st \<leftarrow> put_inode a (\<lambda>ino. ino\<lparr>i_read_length := i_length ino\<rparr>) st;
     Some (written, st) }"

definition inode_write_nogrow :: "nat \<Rightarrow> byte list \<Rightarrow> int \<Rightarrow> nat \<Rightarrow> fsys \<Rightarrow> (nat \<times> fsys) option" where
  "inode_write_nogrow a buffer n offset st = do {
     ino \<leftarrow> inodes st a;
     if i_deny_write_cnt ino \<noteq> 0 then Some (0, st)
     else do {
       st \<leftarrow> (if wrap32 (int offset + n) > i_length ino
              then do {
                ASSERT (\<not> i_isdir ino);
                st \<leftarrow> inode_lock a st;
                ASSERT (bytes_to_data_sectors (wrap32 (int offset + n)) = bytes_to_data_sectors (i_length ino));
                st \<leftarrow> put_inode a (i_length_update (\<lambda>_. wrap32 (int offset + n))) st;
                inode_unlock a st }
              else Some st);
       inode_write_tail a buffer n offset st } }"

section \<open>The free map\<close>

text \<open>The elements of a bitmap as they lie in memory.\<close>

definition bitmap_bytes :: "bitmap \<Rightarrow> byte list" where
  "bitmap_bytes b = le32_list (map unat (take (Bitmap.elem_cnt (bit_cnt b)) (bits b)))"

text \<open>\<open>bitmap_write (free_map, free_map_file)\<close>; a null file is dereferenced.\<close>

definition free_map_write :: "fsys \<Rightarrow> (bool \<times> fsys) option" where
  "free_map_write st = do {
     f \<leftarrow> free_map_file st;
     (n, st') \<leftarrow> inode_write_nogrow f (bitmap_bytes (free_map st)) (int (bitmap_file_size (free_map st))) 0 st;
     Some (n = bitmap_file_size (free_map st), st') }"

definition free_map_init :: "fsys \<Rightarrow> fsys option" where
  "free_map_init st = do {
     r \<leftarrow> bitmap_create (heap_ok st)
       (if heap_ok st then Some (replicate (Bitmap.elem_cnt (block_size (fs_device st))) 0) else None)
       (block_size (fs_device st));
     fm \<leftarrow> r;
     let fm = bitmap_mark fm FREE_MAP_SECTOR;
     let fm = bitmap_mark fm ROOT_DIR_SECTOR;
     Some (st\<lparr>free_map := fm\<rparr>) }"

text \<open>The first sector, or \<^const>\<open>None\<close> when the call returns false and leaves \<open>*sectorp\<close> alone.\<close>

definition free_map_allocate :: "nat \<Rightarrow> fsys \<Rightarrow> (nat option \<times> fsys) option" where
  "free_map_allocate cnt st = do {
     (sector, fm) \<leftarrow> bitmap_scan_and_flip (free_map st) 0 cnt False;
     let st = st\<lparr>free_map := fm\<rparr>;
     (sector, st) \<leftarrow>
       (if sector \<noteq> BITMAP_ERROR \<and> free_map_file st \<noteq> None
        then do {
          (ok, st) \<leftarrow> free_map_write st;
          if ok then Some (sector, st)
          else do {
            fm \<leftarrow> bitmap_set_multiple (free_map st) sector cnt False;
            Some (BITMAP_ERROR, st\<lparr>free_map := fm\<rparr>) } }
        else Some (sector, st));
     Some (if sector \<noteq> BITMAP_ERROR then Some sector else None, st) }"

definition free_map_release :: "nat \<Rightarrow> nat \<Rightarrow> fsys \<Rightarrow> fsys option" where
  "free_map_release sector cnt st = do {
     all \<leftarrow> bitmap_all (free_map st) sector cnt;
     ASSERT all;
     fm \<leftarrow> bitmap_set_multiple (free_map st) sector cnt False;
     (_, st) \<leftarrow> free_map_write (st\<lparr>free_map := fm\<rparr>);
     Some st }"

end
