(* ===== verification/InodeGrow.thy ===== *)
theory InodeGrow
  imports FreeMap
begin

text \<open>
  \<open>filesys/inode.c\<close> of project 4, second part: growing a file, creating, opening, closing and
  deleting inodes, and writing. When \<open>free_map_allocate\<close> fails the code does not look at its
  result: the pointer keeps its old value and the sector it names is cleared all the same.
\<close>

section \<open>Growing\<close>

definition zeros :: "byte list" where
  "zeros = replicate 512 0"

text \<open>\<open>free_map_allocate (1, &ptrs[k])\<close>.\<close>

definition alloc_slot :: "nat list \<Rightarrow> nat \<Rightarrow> fsys \<Rightarrow> (nat list \<times> fsys) option" where
  "alloc_slot ptrs k st = do {
     (r, st) \<leftarrow> free_map_allocate 1 st;
     Some (case r of Some s \<Rightarrow> ptrs[k := s] | None \<Rightarrow> ptrs, st) }"

text \<open>The loop that gives the pointers \<open>idx, idx + 1, \<dots>\<close> below \<open>lim\<close> a cleared sector, until
  \<open>n\<close> sectors have been added.\<close>

function fill_slots :: "nat \<Rightarrow> nat list \<Rightarrow> nat \<Rightarrow> nat \<Rightarrow> fsys \<Rightarrow> (nat list \<times> nat \<times> nat \<times> fsys) option" where
  "fill_slots lim ptrs idx n st =
     (if idx < lim then do {
        (ptrs, st) \<leftarrow> alloc_slot ptrs idx st;
        st \<leftarrow> raw_write (ptrs ! idx) zeros st;
        if n - 1 = 0 then Some (ptrs, idx + 1, 0, st)
        else fill_slots lim ptrs (idx + 1) (n - 1) st }
      else Some (ptrs, idx, n, st))"
  by pat_completeness auto
termination
  by (relation "measure (\<lambda>(lim, ptrs, idx, n, st). lim - idx)") auto

declare fill_slots.simps [simp del]

definition inode_expand_indirect_block :: "inode \<Rightarrow> nat \<Rightarrow> fsys \<Rightarrow> (inode \<times> nat \<times> fsys) option" where
  "inode_expand_indirect_block ino n st = do {
     (ptr, block, st) \<leftarrow>
       (if i_indirect_index ino = 0
        then do {
          (ptr, st) \<leftarrow> alloc_slot (i_ptr ino) (i_direct_index ino) st;
          Some (ptr, get32_list (junk st) 0 INDIRECT_BLOCK_PTRS, st) }
        else do {
          (d, st) \<leftarrow> raw_read (i_ptr ino ! i_direct_index ino) st;
          Some (i_ptr ino, get32_list d 0 INDIRECT_BLOCK_PTRS, st) });
     (block, idx, n, st) \<leftarrow> fill_slots INDIRECT_BLOCK_PTRS block (i_indirect_index ino) n st;
     st \<leftarrow> raw_write (ptr ! i_direct_index ino) (le32_list block) st;
     let ino = ino\<lparr>i_ptr := ptr, i_indirect_index := idx\<rparr>;
     Some (if idx = INDIRECT_BLOCK_PTRS
           then ino\<lparr>i_indirect_index := 0, i_direct_index := i_direct_index ino + 1\<rparr> else ino, n, st) }"

definition inode_expand_double_indirect_block_lvl_two ::
    "inode \<Rightarrow> nat \<Rightarrow> nat list \<Rightarrow> fsys \<Rightarrow> (inode \<times> nat \<times> nat list \<times> fsys) option" where
  "inode_expand_double_indirect_block_lvl_two ino n outer st = do {
     (outer, inner, st) \<leftarrow>
       (if i_double_indirect_index ino = 0
        then do {
          (outer, st) \<leftarrow> alloc_slot outer (i_indirect_index ino) st;
          Some (outer, get32_list (junk st) 0 INDIRECT_BLOCK_PTRS, st) }
        else do {
          (d, st) \<leftarrow> raw_read (outer ! i_indirect_index ino) st;
          Some (outer, get32_list d 0 INDIRECT_BLOCK_PTRS, st) });
     (inner, idx, n, st) \<leftarrow> fill_slots INDIRECT_BLOCK_PTRS inner (i_double_indirect_index ino) n st;
     st \<leftarrow> raw_write (outer ! i_indirect_index ino) (le32_list inner) st;
     let ino = ino\<lparr>i_double_indirect_index := idx\<rparr>;
     Some (if idx = INDIRECT_BLOCK_PTRS
           then ino\<lparr>i_double_indirect_index := 0, i_indirect_index := i_indirect_index ino + 1\<rparr> else ino,
           n, outer, st) }"

partial_function (option) double_loop :: "inode \<Rightarrow> nat \<Rightarrow> nat list \<Rightarrow> fsys \<Rightarrow> (inode \<times> nat \<times> nat list \<times> fsys) option" where
  "double_loop ino n outer st =
     (if i_indirect_index ino < INDIRECT_BLOCK_PTRS
      then Option.bind (inode_expand_double_indirect_block_lvl_two ino n outer st) (\<lambda>(ino, n, outer, st).
        if n = 0 then Some (ino, n, outer, st) else double_loop ino n outer st)
      else Some (ino, n, outer, st))"

definition inode_expand_double_indirect_block :: "inode \<Rightarrow> nat \<Rightarrow> fsys \<Rightarrow> (inode \<times> nat \<times> fsys) option" where
  "inode_expand_double_indirect_block ino n st = do {
     (ptr, outer, st) \<leftarrow>
       (if i_double_indirect_index ino = 0 \<and> i_indirect_index ino = 0
        then do {
          (ptr, st) \<leftarrow> alloc_slot (i_ptr ino) (i_direct_index ino) st;
          Some (ptr, get32_list (junk st) 0 INDIRECT_BLOCK_PTRS, st) }
        else do {
          (d, st) \<leftarrow> raw_read (i_ptr ino ! i_direct_index ino) st;
          Some (i_ptr ino, get32_list d 0 INDIRECT_BLOCK_PTRS, st) });
     (ino, n, outer, st) \<leftarrow> double_loop (ino\<lparr>i_ptr := ptr\<rparr>) n outer st;
     st \<leftarrow> raw_write (i_ptr ino ! i_direct_index ino) (le32_list outer) st;
     Some (ino, n, st) }"

partial_function (option) indirect_loop :: "inode \<Rightarrow> nat \<Rightarrow> fsys \<Rightarrow> (inode \<times> nat \<times> fsys) option" where
  "indirect_loop ino n st =
     (if i_direct_index ino < DOUBLE_INDIRECT_INDEX
      then Option.bind (inode_expand_indirect_block ino n st) (\<lambda>(ino, n, st).
        if n = 0 then Some (ino, n, st) else indirect_loop ino n st)
      else Some (ino, n, st))"

text \<open>The number of sectors to add is a difference of \<open>size_t\<close>.\<close>

definition new_data_sectors :: "int \<Rightarrow> int \<Rightarrow> nat" where
  "new_data_sectors new_length len =
     nat ((int (bytes_to_data_sectors new_length) - int (bytes_to_data_sectors len)) mod 2 ^ 32)"

text \<open>The first component of the result is the length the file has got.\<close>

definition inode_expand :: "inode \<Rightarrow> int \<Rightarrow> fsys \<Rightarrow> (int \<times> inode \<times> fsys) option" where
  "inode_expand ino new_length st =
     (let n = new_data_sectors new_length (i_length ino) in
      if n = 0 then Some (new_length, ino, st)
      else do {
        (ptr, idx, n, st) \<leftarrow> fill_slots INDIRECT_INDEX (i_ptr ino) (i_direct_index ino) n st;
        let ino = ino\<lparr>i_ptr := ptr, i_direct_index := idx\<rparr>;
        if n = 0 then Some (new_length, ino, st)
        else do {
          (ino, n, st) \<leftarrow> indirect_loop ino n st;
          if n = 0 then Some (new_length, ino, st)
          else do {
            (ino, n, st) \<leftarrow> (if i_direct_index ino = DOUBLE_INDIRECT_INDEX
              then inode_expand_double_indirect_block ino n st else Some (ino, n, st));
            Some (wrap32 (new_length - int (n * BLOCK_SECTOR_SIZE)), ino, st) } } })"

section \<open>Creating and opening\<close>

definition empty_inode :: inode where
  "empty_inode = \<lparr>i_sector = 0, i_open_cnt = 0, i_removed = False, i_deny_write_cnt = 0, i_length = 0,
     i_read_length = 0, i_direct_index = 0, i_indirect_index = 0, i_double_indirect_index = 0, i_isdir = False,
     i_parent = 0, i_locked = False, i_ptr = replicate INODE_BLOCK_PTRS 0\<rparr>"

definition inode_alloc :: "inode_disk \<Rightarrow> fsys \<Rightarrow> (inode_disk \<times> fsys) option" where
  "inode_alloc d st = do {
     (_, ino, st) \<leftarrow> inode_expand empty_inode (d_length d) st;
     Some (d\<lparr>d_direct_index := i_direct_index ino, d_indirect_index := i_indirect_index ino,
             d_double_indirect_index := i_double_indirect_index ino, d_ptr := i_ptr ino\<rparr>, st) }"

definition inode_create :: "nat \<Rightarrow> int \<Rightarrow> bool \<Rightarrow> fsys \<Rightarrow> (bool \<times> fsys) option" where
  "inode_create sector len isdir st = do {
     ASSERT (len \<ge> 0);
     if heap_ok st
     then do {
       let d = \<lparr>d_length = (if len > MAX_FILE_SIZE then MAX_FILE_SIZE else len), d_magic = INODE_MAGIC,
                d_direct_index = 0, d_indirect_index = 0, d_double_indirect_index = 0, d_isdir = isdir,
                d_parent = ROOT_DIR_SECTOR, d_ptr = replicate INODE_BLOCK_PTRS 0\<rparr>;
       (d, st) \<leftarrow> inode_alloc d st;
       st \<leftarrow> raw_write sector (enc_inode d) st;
       Some (True, st) }
     else Some (False, st) }"

definition inode_reopen :: "nat option \<Rightarrow> fsys \<Rightarrow> (nat option \<times> fsys) option" where
  "inode_reopen p st = (case p of None \<Rightarrow> Some (None, st)
     | Some a \<Rightarrow> do {
         st \<leftarrow> put_inode a (i_open_cnt_update (\<lambda>c. c + 1)) st;
         Some (Some a, st) })"

definition find_open :: "fsys \<Rightarrow> nat \<Rightarrow> nat option" where
  "find_open st sector = List.find (\<lambda>a. map_option i_sector (inodes st a) = Some sector) (open_inodes st)"

definition inode_open :: "nat \<Rightarrow> fsys \<Rightarrow> (nat option \<times> fsys) option" where
  "inode_open sector st =
     (case find_open st sector of
        Some a \<Rightarrow> inode_reopen (Some a) st
      | None \<Rightarrow>
          (if heap_ok st
           then do {
             (bs, st) \<leftarrow> raw_read sector st;
             let a = next_addr st;
             let d = dec_inode bs;
             let ino = \<lparr>i_sector = sector, i_open_cnt = 1, i_removed = False, i_deny_write_cnt = 0,
               i_length = d_length d, i_read_length = d_length d, i_direct_index = d_direct_index d,
               i_indirect_index = d_indirect_index d, i_double_indirect_index = d_double_indirect_index d,
               i_isdir = d_isdir d, i_parent = d_parent d, i_locked = False, i_ptr = d_ptr d\<rparr>;
             Some (Some a, st\<lparr>inodes := (inodes st)(a \<mapsto> ino), open_inodes := a # open_inodes st, next_addr := a + 1\<rparr>) }
           else Some (None, st)))"

definition inode_get_inumber :: "nat \<Rightarrow> fsys \<Rightarrow> nat option" where
  "inode_get_inumber a st = map_option i_sector (inodes st a)"

section \<open>Closing and deleting\<close>

primrec release_all :: "nat list \<Rightarrow> fsys \<Rightarrow> fsys option" where
  "release_all [] st = Some st"
| "release_all (p # ps) st = do { st \<leftarrow> free_map_release p 1 st; release_all ps st }"

definition inode_dealloc_indirect_block :: "nat \<Rightarrow> nat \<Rightarrow> fsys \<Rightarrow> fsys option" where
  "inode_dealloc_indirect_block ptr data_ptrs st = do {
     (d, st) \<leftarrow> raw_read ptr st;
     st \<leftarrow> release_all (get32_list d 0 data_ptrs) st;
     free_map_release ptr 1 st }"

text \<open>The indirect blocks \<open>ptrs\<close> with \<open>data\<close> data sectors between them; what is left of \<open>data\<close>.\<close>

primrec dealloc_blocks :: "nat list \<Rightarrow> nat \<Rightarrow> fsys \<Rightarrow> (nat \<times> fsys) option" where
  "dealloc_blocks [] data st = Some (data, st)"
| "dealloc_blocks (p # ps) data st = do {
     let data_ptrs = (if data < INDIRECT_BLOCK_PTRS then data else INDIRECT_BLOCK_PTRS);
     st \<leftarrow> inode_dealloc_indirect_block p data_ptrs st;
     dealloc_blocks ps (data - data_ptrs) st }"

definition inode_dealloc_double_indirect_block :: "nat \<Rightarrow> nat \<Rightarrow> nat \<Rightarrow> fsys \<Rightarrow> fsys option" where
  "inode_dealloc_double_indirect_block ptr indirect_ptrs data_ptrs st = do {
     (d, st) \<leftarrow> raw_read ptr st;
     (_, st) \<leftarrow> dealloc_blocks (get32_list d 0 indirect_ptrs) data_ptrs st;
     free_map_release ptr 1 st }"

text \<open>The three loops of \<open>inode_dealloc\<close>, over the pointers they visit.\<close>

definition inode_dealloc :: "inode \<Rightarrow> fsys \<Rightarrow> fsys option" where
  "inode_dealloc ino st = do {
     let data = bytes_to_data_sectors (i_length ino);
     let indirect = bytes_to_indirect_sectors (i_length ino);
     let direct = min data INDIRECT_INDEX;
     st \<leftarrow> release_all (take direct (i_ptr ino)) st;
     let blocks = min indirect (DOUBLE_INDIRECT_INDEX - direct);
     (data, st) \<leftarrow> dealloc_blocks (take blocks (drop direct (i_ptr ino))) (data - direct) st;
     if bytes_to_double_indirect_sector (i_length ino) \<noteq> 0
     then inode_dealloc_double_indirect_block (i_ptr ino ! (direct + blocks)) (indirect - blocks) data st
     else Some st }"

definition inode_close :: "nat option \<Rightarrow> fsys \<Rightarrow> fsys option" where
  "inode_close p st =
     (case p of None \<Rightarrow> Some st
      | Some a \<Rightarrow> do {
          st \<leftarrow> put_inode a (i_open_cnt_update (\<lambda>c. c - 1)) st;
          ino \<leftarrow> inodes st a;
          if i_open_cnt ino = 0
          then do {
            let st = st\<lparr>open_inodes := remove1 a (open_inodes st)\<rparr>;
            st \<leftarrow> (if i_removed ino
              then do { st \<leftarrow> free_map_release (i_sector ino) 1 st; inode_dealloc ino st }
              else raw_write (i_sector ino) (enc_inode
                \<lparr>d_length = i_length ino, d_magic = INODE_MAGIC, d_direct_index = i_direct_index ino,
                 d_indirect_index = i_indirect_index ino, d_double_indirect_index = i_double_indirect_index ino,
                 d_isdir = i_isdir ino, d_parent = i_parent ino, d_ptr = i_ptr ino\<rparr>) st);
            Some (st\<lparr>inodes := (inodes st)(a := None)\<rparr>) }
          else Some st })"

definition inode_remove :: "nat \<Rightarrow> fsys \<Rightarrow> fsys option" where
  "inode_remove a st = put_inode a (i_removed_update (\<lambda>_. True)) st"

section \<open>Writing, and the rest\<close>

definition inode_write_at :: "nat \<Rightarrow> byte list \<Rightarrow> int \<Rightarrow> nat \<Rightarrow> fsys \<Rightarrow> (nat \<times> fsys) option" where
  "inode_write_at a buffer n offset st = do {
     ino \<leftarrow> inodes st a;
     if i_deny_write_cnt ino \<noteq> 0 then Some (0, st)
     else do {
       st \<leftarrow> (if wrap32 (int offset + n) > i_length ino
              then do {
                st \<leftarrow> (if \<not> i_isdir ino then inode_lock a st else Some st);
                ino \<leftarrow> inodes st a;
                (len, ino, st) \<leftarrow> inode_expand ino (wrap32 (int offset + n)) st;
                st \<leftarrow> put_inode a (\<lambda>_. ino\<lparr>i_length := len\<rparr>) st;
                if \<not> i_isdir ino then inode_unlock a st else Some st }
              else Some st);
       inode_write_tail a buffer n offset st } }"

definition inode_deny_write :: "nat \<Rightarrow> fsys \<Rightarrow> fsys option" where
  "inode_deny_write a st = do {
     st \<leftarrow> put_inode a (i_deny_write_cnt_update (\<lambda>c. c + 1)) st;
     ino \<leftarrow> inodes st a;
     ASSERT (i_deny_write_cnt ino \<le> i_open_cnt ino);
     Some st }"

definition inode_allow_write :: "nat \<Rightarrow> fsys \<Rightarrow> fsys option" where
  "inode_allow_write a st = do {
     ino \<leftarrow> inodes st a;
     ASSERT (i_deny_write_cnt ino > 0);
     ASSERT (i_deny_write_cnt ino \<le> i_open_cnt ino);
     put_inode a (i_deny_write_cnt_update (\<lambda>c. c - 1)) st }"

definition inode_length :: "nat \<Rightarrow> fsys \<Rightarrow> int option" where
  "inode_length a st = map_option i_length (inodes st a)"

definition inode_is_dir :: "nat \<Rightarrow> fsys \<Rightarrow> bool option" where
  "inode_is_dir a st = map_option i_isdir (inodes st a)"

definition inode_get_open_cnt :: "nat \<Rightarrow> fsys \<Rightarrow> int option" where
  "inode_get_open_cnt a st = map_option i_open_cnt (inodes st a)"

definition inode_get_parent :: "nat \<Rightarrow> fsys \<Rightarrow> nat option" where
  "inode_get_parent a st = map_option i_parent (inodes st a)"

definition inode_add_parent :: "nat \<Rightarrow> nat \<Rightarrow> fsys \<Rightarrow> (bool \<times> fsys) option" where
  "inode_add_parent parent_sector child_sector st = do {
     (p, st) \<leftarrow> inode_open child_sector st;
     case p of None \<Rightarrow> Some (False, st)
     | Some a \<Rightarrow> do {
         st \<leftarrow> put_inode a (i_parent_update (\<lambda>_. parent_sector)) st;
         st \<leftarrow> inode_close (Some a) st;
         Some (True, st) } }"

section \<open>How far a file has grown\<close>

text \<open>The number of data sectors an inode has: the position of its three counters.\<close>

definition slots :: "inode \<Rightarrow> nat" where
  "slots ino =
     (if i_direct_index ino < 4 then i_direct_index ino
      else if i_direct_index ino < 13 then 4 + (i_direct_index ino - 4) * 128 + i_indirect_index ino
      else 1156 + i_indirect_index ino * 128 + i_double_indirect_index ino)"

definition counters_ok :: "inode \<Rightarrow> bool" where
  "counters_ok ino \<longleftrightarrow> i_direct_index ino \<le> 13 \<and>
     (i_direct_index ino < 4 \<longrightarrow> i_indirect_index ino = 0) \<and>
     (i_direct_index ino < 13 \<longrightarrow> i_indirect_index ino < 128 \<and> i_double_indirect_index ino = 0) \<and>
     (i_direct_index ino = 13 \<longrightarrow> i_indirect_index ino < 128 \<and> i_double_indirect_index ino < 128 \<or>
        i_indirect_index ino = 128 \<and> i_double_indirect_index ino = 0)"

text \<open>\<open>ino'\<close> continues \<open>ino\<close> by \<open>n - n'\<close> sectors.\<close>

definition advances :: "inode \<Rightarrow> nat \<Rightarrow> inode \<Rightarrow> nat \<Rightarrow> bool" where
  "advances ino n ino' n' \<longleftrightarrow> counters_ok ino' \<and> n' \<le> n \<and> slots ino' + n' = slots ino + n \<and> i_length ino' = i_length ino"

lemma fill_slots_count:
  "fill_slots lim ptrs idx n st = Some (ptrs', idx', n', st') \<Longrightarrow> 0 < n \<Longrightarrow> idx \<le> lim \<Longrightarrow>
   idx' = min lim (idx + n) \<and> idx' + n' = idx + n \<and> length ptrs' = length ptrs"
proof (induction lim ptrs idx n st arbitrary: ptrs' idx' n' st' rule: fill_slots.induct)
  case (1 lim ptrs idx n st)
  show ?case
  proof (cases "idx < lim")
    case False
    then show ?thesis using "1.prems" by (subst (asm) fill_slots.simps) simp
  next
    case True
    obtain q st1 st2 where q: "alloc_slot ptrs idx st = Some (q, st1)" "raw_write (q ! idx) zeros st1 = Some st2"
      and rest: "(if n - 1 = 0 then Some (q, idx + 1, 0, st2) else fill_slots lim q (idx + 1) (n - 1) st2) =
        Some (ptrs', idx', n', st')"
      using "1.prems"(1) True by (subst (asm) fill_slots.simps) (auto simp: bind_Some_iff)
    have l: "length q = length ptrs" using q(1) by (auto simp: alloc_slot_def bind_Some_iff split: option.splits)
    show ?thesis
    proof (cases "n - 1 = 0")
      case True
      then show ?thesis using rest l \<open>idx < lim\<close> "1.prems"(2) by auto
    next
      case False
      then have "fill_slots lim q (idx + 1) (n - 1) st2 = Some (ptrs', idx', n', st')" using rest by simp
      from "1.IH"[OF True q(1) refl q(2) False this] False True l show ?thesis by auto
    qed
  qed
qed

lemma expand_indirect_advances:
  assumes "inode_expand_indirect_block ino n st = Some (ino', n', st')" "counters_ok ino" "0 < n"
    "4 \<le> i_direct_index ino" "i_direct_index ino < 13"
  shows "advances ino n ino' n' \<and> n' < n \<and> 4 \<le> i_direct_index ino' \<and> (n' = 0 \<or> i_direct_index ino < i_direct_index ino')"
proof -
  obtain ptr block st1 block' idx st2 st3 where
    f: "fill_slots 128 block (i_indirect_index ino) n st1 = Some (block', idx, n', st2)" and
    e: "ino' = (if idx = 128
         then ino\<lparr>i_ptr := ptr, i_indirect_index := idx, i_indirect_index := 0,
           i_direct_index := i_direct_index (ino\<lparr>i_ptr := ptr, i_indirect_index := idx\<rparr>) + 1\<rparr>
         else ino\<lparr>i_ptr := ptr, i_indirect_index := idx\<rparr>)"
    using assms(1) unfolding inode_expand_indirect_block_def
    by (auto simp: bind_Some_iff Let_def INDIRECT_BLOCK_PTRS_def simp del: if_split)
  have "i_indirect_index ino < 128" "i_double_indirect_index ino = 0" using assms(2,5) by (auto simp: counters_ok_def)
  with fill_slots_count[OF f assms(3)] show ?thesis
    using assms(3-5) unfolding e advances_def by (auto simp: slots_def counters_ok_def)
qed

lemma indirect_loop_advances:
  "indirect_loop ino n st = Some (ino', n', st') \<Longrightarrow> counters_ok ino \<Longrightarrow> 0 < n \<Longrightarrow> 4 \<le> i_direct_index ino \<Longrightarrow>
   advances ino n ino' n' \<and> (n' = 0 \<or> i_direct_index ino' = 13)"
proof (induction "13 - i_direct_index ino" arbitrary: ino n st rule: less_induct)
  case less
  show ?case
  proof (cases "i_direct_index ino < 13")
    case False
    then have "i_direct_index ino = 13" using less.prems(2) by (simp add: counters_ok_def)
    moreover have "ino' = ino" "n' = n"
      using less.prems(1) False by (subst (asm) indirect_loop.simps, simp add: DOUBLE_INDIRECT_INDEX_def)+
    ultimately show ?thesis using less.prems(2) by (simp add: advances_def)
  next
    case True
    obtain i1 n1 s1 where e: "inode_expand_indirect_block ino n st = Some (i1, n1, s1)"
      and r: "(if n1 = 0 then Some (i1, n1, s1) else indirect_loop i1 n1 s1) = Some (ino', n', st')"
      using less.prems(1) True by (subst (asm) indirect_loop.simps) (auto simp: bind_Some_iff DOUBLE_INDIRECT_INDEX_def)
    note a = expand_indirect_advances[OF e less.prems(2-4) True]
    show ?thesis
    proof (cases "n1 = 0")
      case True
      then show ?thesis using a r by simp
    next
      case False
      then have "indirect_loop i1 n1 s1 = Some (ino', n', st')" "13 - i_direct_index i1 < 13 - i_direct_index ino"
        using r a True by auto
      from less.hyps[OF this(2,1)] a False show ?thesis by (auto simp: advances_def)
    qed
  qed
qed

lemma lvl_two_advances:
  assumes "inode_expand_double_indirect_block_lvl_two ino n outer st = Some (ino', n', outer', st')"
    "counters_ok ino" "0 < n" "i_direct_index ino = 13" "i_indirect_index ino < 128"
  shows "advances ino n ino' n' \<and> i_direct_index ino' = 13 \<and> (n' = 0 \<or> i_indirect_index ino < i_indirect_index ino')"
proof -
  obtain inner st1 inner' idx st2 where
    f: "fill_slots 128 inner (i_double_indirect_index ino) n st1 = Some (inner', idx, n', st2)" and
    e: "ino' = (if idx = 128
         then ino\<lparr>i_double_indirect_index := idx, i_double_indirect_index := 0,
           i_indirect_index := i_indirect_index (ino\<lparr>i_double_indirect_index := idx\<rparr>) + 1\<rparr>
         else ino\<lparr>i_double_indirect_index := idx\<rparr>)"
    using assms(1) unfolding inode_expand_double_indirect_block_lvl_two_def
    by (auto simp: bind_Some_iff Let_def INDIRECT_BLOCK_PTRS_def simp del: if_split)
  have "i_double_indirect_index ino < 128" using assms(2,4,5) by (auto simp: counters_ok_def)
  with fill_slots_count[OF f assms(3)] show ?thesis
    using assms(2-5) unfolding e advances_def by (auto simp: slots_def counters_ok_def)
qed

lemma double_loop_advances:
  "double_loop ino n outer st = Some (ino', n', outer', st') \<Longrightarrow> counters_ok ino \<Longrightarrow> 0 < n \<Longrightarrow> i_direct_index ino = 13 \<Longrightarrow>
   advances ino n ino' n' \<and> i_direct_index ino' = 13 \<and> (n' = 0 \<or> i_indirect_index ino' = 128)"
proof (induction "128 - i_indirect_index ino" arbitrary: ino n outer st rule: less_induct)
  case less
  show ?case
  proof (cases "i_indirect_index ino < 128")
    case False
    then have "i_indirect_index ino = 128" using less.prems(2,4) by (auto simp: counters_ok_def)
    moreover have "ino' = ino" "n' = n"
      using less.prems(1) False by (subst (asm) double_loop.simps, simp add: INDIRECT_BLOCK_PTRS_def)+
    ultimately show ?thesis using less.prems(2,4) by (simp add: advances_def)
  next
    case True
    obtain i1 n1 o1 s1 where e: "inode_expand_double_indirect_block_lvl_two ino n outer st = Some (i1, n1, o1, s1)"
      and r: "(if n1 = 0 then Some (i1, n1, o1, s1) else double_loop i1 n1 o1 s1) = Some (ino', n', outer', st')"
      using less.prems(1) True by (subst (asm) double_loop.simps) (auto simp: bind_Some_iff INDIRECT_BLOCK_PTRS_def)
    note a = lvl_two_advances[OF e less.prems(2-4) True]
    show ?thesis
    proof (cases "n1 = 0")
      case True
      then show ?thesis using a r by simp
    next
      case False
      then have "double_loop i1 n1 o1 s1 = Some (ino', n', outer', st')" "128 - i_indirect_index i1 < 128 - i_indirect_index ino"
        using r a True by auto
      from less.hyps[OF this(2,1)] a False show ?thesis by (auto simp: advances_def)
    qed
  qed
qed

text \<open>\<open>inode_expand\<close> adds exactly the sectors the new length needs, up to the 17540 sectors an inode
  can address.\<close>

lemma inode_expand_advances:
  assumes ex: "inode_expand ino L st = Some (L', ino', st')" and ok: "counters_ok ino" and L: "int32 L"
  shows "counters_ok ino' \<and> slots ino' = min 17540 (slots ino + new_data_sectors L (i_length ino)) \<and>
    L' = (if slots ino + new_data_sectors L (i_length ino) \<le> 17540 then L
      else wrap32 (L - int ((slots ino + new_data_sectors L (i_length ino) - 17540) * 512)))"
proof -
  let ?n = "new_data_sectors L (i_length ino)"
  have le: "slots i \<le> 17540" if "counters_ok i" for i
    using that by (auto simp: slots_def counters_ok_def)
  show ?thesis
  proof (cases "?n = 0")
    case True
    then show ?thesis using ex ok le[OF ok] by (simp add: inode_expand_def)
  next
    case n: False
    obtain ptr idx n1 s1 where f: "fill_slots 4 (i_ptr ino) (i_direct_index ino) ?n st = Some (ptr, idx, n1, s1)"
      using ex n by (auto simp: inode_expand_def Let_def bind_Some_iff INDIRECT_INDEX_def)
    let ?i1 = "ino\<lparr>i_ptr := ptr, i_direct_index := idx\<rparr>"
    have a1: "advances ino ?n ?i1 n1 \<and> (n1 = 0 \<or> 4 \<le> idx)"
    proof (cases "i_direct_index ino < 4")
      case True
      then show ?thesis using fill_slots_count[OF f] n ok by (auto simp: advances_def slots_def counters_ok_def)
    next
      case False
      then have "idx = i_direct_index ino" "n1 = ?n" using f by (subst (asm) fill_slots.simps, simp)+
      then show ?thesis using ok False by (auto simp: advances_def slots_def counters_ok_def)
    qed
    show ?thesis
    proof (cases "n1 = 0")
      case True
      then have "L' = L" "ino' = ?i1" using ex n f by (auto simp: inode_expand_def Let_def INDIRECT_INDEX_def)
      then show ?thesis using a1 True le[of ?i1] by (auto simp: advances_def)
    next
      case n1: False
      obtain i2 n2 s2 where l: "indirect_loop ?i1 n1 s1 = Some (i2, n2, s2)"
        using ex n f n1 by (auto simp: inode_expand_def Let_def bind_Some_iff INDIRECT_INDEX_def)
      have a2: "advances ?i1 n1 i2 n2 \<and> (n2 = 0 \<or> i_direct_index i2 = 13)"
        using indirect_loop_advances[OF l] a1 n1 by (auto simp: advances_def)
      show ?thesis
      proof (cases "n2 = 0")
        case True
        then have "L' = L" "ino' = i2" using ex n f n1 l by (auto simp: inode_expand_def Let_def INDIRECT_INDEX_def)
        then show ?thesis using a1 a2 True le[of i2] by (auto simp: advances_def)
      next
        case n2: False
        then have d13: "i_direct_index i2 = 13" using a2 by simp
        obtain n3 s3 where d: "inode_expand_double_indirect_block i2 n2 s2 = Some (ino', n3, s3)"
          and L': "L' = wrap32 (L - int (n3 * 512))"
          using ex n f n1 l n2 d13
          by (auto simp: inode_expand_def Let_def bind_Some_iff INDIRECT_INDEX_def DOUBLE_INDIRECT_INDEX_def
              BLOCK_SECTOR_SIZE_def)
        obtain q o1 s4 o2 s5 where dl: "double_loop (i2\<lparr>i_ptr := q\<rparr>) n2 o1 s4 = Some (ino', n3, o2, s5)"
          using d by (auto simp: inode_expand_double_indirect_block_def bind_Some_iff)
        have a3: "advances i2 n2 ino' n3 \<and> i_direct_index ino' = 13 \<and> (n3 = 0 \<or> i_indirect_index ino' = 128)"
        proof -
          have "counters_ok (i2\<lparr>i_ptr := q\<rparr>)" "slots (i2\<lparr>i_ptr := q\<rparr>) = slots i2"
            using a2 by (simp_all add: advances_def counters_ok_def slots_def)
          then show ?thesis using double_loop_advances[OF dl] n2 d13 by (simp add: advances_def)
        qed
        have tot: "slots ino' + n3 = slots ino + ?n" using a1 a2 a3 by (auto simp: advances_def)
        have c3: "counters_ok ino'" using a3 by (simp add: advances_def)
        have "n3 = 0 \<or> slots ino' = 17540"
          using a3 by (auto simp: slots_def advances_def counters_ok_def)
        then show ?thesis
        proof
          assume "n3 = 0"
          then show ?thesis using tot L' c3 le[OF c3] wrap32_id[OF L] by simp
        next
          assume s: "slots ino' = 17540"
          then have n3: "slots ino + ?n = 17540 + n3" using tot by simp
          show ?thesis
          proof (cases "n3 = 0")
            case True
            then show ?thesis using L' c3 s n3 wrap32_id[OF L] by simp
          next
            case False
            then show ?thesis using L' c3 by (simp add: s n3)
          qed
        qed
      qed
    qed
  qed
qed

end
