(* ===== verification/File.thy ===== *)
theory File
  imports InodeGrow
begin

text \<open>
  \<open>filesys/file.c\<close> of project 4, and the part of \<open>filesys/free-map.c\<close> that opens, reads, writes and
  closes the free map's file.
\<close>

section \<open>Open files\<close>

definition file_open :: "nat option \<Rightarrow> fsys \<Rightarrow> (nat option \<times> fsys) option" where
  "file_open inode st =
     (case inode of
        Some a \<Rightarrow>
          if heap_ok st
          then (let f = next_addr st in
            Some (Some f, st\<lparr>files := (files st)(f \<mapsto> \<lparr>f_inode = a, f_pos = 0, f_deny_write = False\<rparr>), next_addr := f + 1\<rparr>))
          else do { st \<leftarrow> inode_close inode st; Some (None, st) }
      | None \<Rightarrow> Some (None, st))"

definition file_reopen :: "nat \<Rightarrow> fsys \<Rightarrow> (nat option \<times> fsys) option" where
  "file_reopen f st = do {
     r \<leftarrow> files st f;
     (p, st) \<leftarrow> inode_reopen (Some (f_inode r)) st;
     file_open p st }"

definition put_file :: "nat \<Rightarrow> (open_file \<Rightarrow> open_file) \<Rightarrow> fsys \<Rightarrow> fsys option" where
  "put_file f g st = (case files st f of None \<Rightarrow> None | Some r \<Rightarrow> Some (st\<lparr>files := (files st)(f \<mapsto> g r)\<rparr>))"

definition file_deny_write :: "nat \<Rightarrow> fsys \<Rightarrow> fsys option" where
  "file_deny_write f st = do {
     r \<leftarrow> files st f;
     if \<not> f_deny_write r
     then do { st \<leftarrow> put_file f (f_deny_write_update (\<lambda>_. True)) st; inode_deny_write (f_inode r) st }
     else Some st }"

definition file_allow_write :: "nat \<Rightarrow> fsys \<Rightarrow> fsys option" where
  "file_allow_write f st = do {
     r \<leftarrow> files st f;
     if f_deny_write r
     then do { st \<leftarrow> put_file f (f_deny_write_update (\<lambda>_. False)) st; inode_allow_write (f_inode r) st }
     else Some st }"

definition file_close :: "nat option \<Rightarrow> fsys \<Rightarrow> fsys option" where
  "file_close p st =
     (case p of None \<Rightarrow> Some st
      | Some f \<Rightarrow> do {
          st \<leftarrow> file_allow_write f st;
          r \<leftarrow> files st f;
          st \<leftarrow> inode_close (Some (f_inode r)) st;
          Some (st\<lparr>files := (files st)(f := None)\<rparr>) })"

definition file_get_inode :: "nat \<Rightarrow> fsys \<Rightarrow> nat option" where
  "file_get_inode f st = map_option f_inode (files st f)"

definition file_read :: "nat \<Rightarrow> int \<Rightarrow> fsys \<Rightarrow> (byte list \<times> fsys) option" where
  "file_read f n st = do {
     r \<leftarrow> files st f;
     (bs, st) \<leftarrow> inode_read_at (f_inode r) n (f_pos r) st;
     st \<leftarrow> put_file f (f_pos_update (\<lambda>p. p + length bs)) st;
     Some (bs, st) }"

definition file_read_at :: "nat \<Rightarrow> int \<Rightarrow> nat \<Rightarrow> fsys \<Rightarrow> (byte list \<times> fsys) option" where
  "file_read_at f n ofs st = do { r \<leftarrow> files st f; inode_read_at (f_inode r) n ofs st }"

definition file_write :: "nat \<Rightarrow> byte list \<Rightarrow> int \<Rightarrow> fsys \<Rightarrow> (nat \<times> fsys) option" where
  "file_write f buffer n st = do {
     r \<leftarrow> files st f;
     (w, st) \<leftarrow> inode_write_at (f_inode r) buffer n (f_pos r) st;
     st \<leftarrow> put_file f (f_pos_update (\<lambda>p. p + w)) st;
     Some (w, st) }"

definition file_write_at :: "nat \<Rightarrow> byte list \<Rightarrow> int \<Rightarrow> nat \<Rightarrow> fsys \<Rightarrow> (nat \<times> fsys) option" where
  "file_write_at f buffer n ofs st = do { r \<leftarrow> files st f; inode_write_at (f_inode r) buffer n ofs st }"

definition file_length :: "nat \<Rightarrow> fsys \<Rightarrow> int option" where
  "file_length f st = do { r \<leftarrow> files st f; inode_length (f_inode r) st }"

definition file_seek :: "nat \<Rightarrow> int \<Rightarrow> fsys \<Rightarrow> fsys option" where
  "file_seek f new_pos st = do { ASSERT (new_pos \<ge> 0); put_file f (f_pos_update (\<lambda>_. nat new_pos)) st }"

definition file_tell :: "nat \<Rightarrow> fsys \<Rightarrow> nat option" where
  "file_tell f st = map_option f_pos (files st f)"

section \<open>The free map's file\<close>

text \<open>\<open>free_map_file\<close> stands for the inode of the file. \<open>bitmap_read\<close> reads into the element array
  and clears the bits behind the last one.\<close>

definition free_map_read :: "nat \<Rightarrow> fsys \<Rightarrow> (bool \<times> fsys) option" where
  "free_map_read f st = do {
     (bs, st) \<leftarrow> (if bit_cnt (free_map st) > 0 then inode_read_at f (int (bitmap_file_size (free_map st))) 0 st
                  else Some ([], st));
     let es = map word_of_nat (get32_list (overlay (bitmap_bytes (free_map st)) 0 bs) 0 (Bitmap.elem_cnt (bit_cnt (free_map st))));
     let (ok, fm) = bitmap_read (free_map st) (\<lambda>_. (es, length bs));
     Some (ok, st\<lparr>free_map := fm\<rparr>) }"

definition free_map_open_file :: "fsys \<Rightarrow> (nat \<times> fsys) option" where
  "free_map_open_file st = do {
     (p, st) \<leftarrow> inode_open FREE_MAP_SECTOR st;
     (f, st) \<leftarrow> (case p of None \<Rightarrow> Some (None, st) | Some a \<Rightarrow> if heap_ok st then Some (Some a, st) else None);
     f \<leftarrow> f;
     Some (f, st\<lparr>free_map_file := Some f\<rparr>) }"

definition free_map_open :: "fsys \<Rightarrow> fsys option" where
  "free_map_open st = do {
     (f, st) \<leftarrow> free_map_open_file st;
     (ok, st) \<leftarrow> free_map_read f st;
     ASSERT ok;
     Some st }"

definition free_map_close :: "fsys \<Rightarrow> fsys option" where
  "free_map_close st = inode_close (free_map_file st) st"

definition free_map_create :: "fsys \<Rightarrow> fsys option" where
  "free_map_create st = do {
     (ok, st) \<leftarrow> inode_create FREE_MAP_SECTOR (int (bitmap_file_size (free_map st))) False st;
     ASSERT ok;
     (_, st) \<leftarrow> free_map_open_file st;
     (ok, st) \<leftarrow> free_map_write st;
     ASSERT ok;
     Some st }"

end
