(* ===== verification/Frame.thy ===== *)
theory Frame
  imports Swap HashTable File
begin

text \<open>
  The frame table of project 3, \<open>vm/frame.c\<close>, with the data structures of \<open>vm/page.h\<close> and the
  state of the virtual memory system. One thread at a time runs in the kernel. The locks
  \<open>fs_lock\<close> and \<open>frame_table_lock\<close> are flags that tell whether the running thread holds them;
  acquiring a lock that it holds fails the assertion in \<open>lock_acquire\<close>. An element of a hash table
  is the key of the structure that contains it with the structure's address. The file system is
  that of the theories \<open>Inode\<close> and \<open>File\<close>: the files of projects 3 and 4 are the same there.
\<close>

section \<open>Data\<close>

datatype mem_type = FILE | MMAP | SWAP | HASH_FAIL

record spt_entry =
  s_type :: mem_type
  s_in_memory :: bool
  s_writable :: bool
  s_vaddr :: vaddr
  s_locked :: bool
  s_file :: nat
  s_offset :: nat
  s_read_bytes :: nat
  s_zero_bytes :: nat
  s_swap_index :: nat

record frame_entry =
  fe_frame :: vaddr
  fe_spte :: nat
  fe_thread :: nat

record mmap_file =
  mf_spte :: nat
  mf_mapid :: int

record file_descriptor =
  fd_file :: nat
  fd_handle :: int

type_synonym keyed = "vaddr \<times> nat"

text \<open>The members of \<open>struct thread\<close> that belong to \<open>process.c\<close>, \<open>syscall.c\<close> and \<open>vm\<close>.\<close>

record proc =
  p_pagedir :: vaddr
  p_spt :: "keyed htab"
  p_mmaps :: "nat list"
  p_mapid :: int
  p_fds :: "file_descriptor list"
  p_next_handle :: int
  p_bin_file :: "nat option"

text \<open>\<open>malloc_ok\<close> tells whether \<open>malloc\<close> succeeds, \<open>next_ptr\<close> is the address it gives next and
  \<open>spte_junk\<close> what it leaves in an entry; \<open>eax\<close> is what the return register holds when a function
  ends without a return value.\<close>

record kernel = vmem +
  fs :: fsys
  fs_lock_held :: bool
  ft_lock_held :: bool
  sptes :: "nat \<Rightarrow> spt_entry option"
  frame_entries :: "nat \<Rightarrow> frame_entry option"
  frame_table :: "keyed htab"
  mmap_files :: "nat \<Rightarrow> mmap_file option"
  procs :: "nat \<Rightarrow> proc"
  cur :: nat
  malloc_ok :: bool
  next_ptr :: nat
  spte_junk :: spt_entry
  eax :: vaddr

definition lock_fs :: "kernel \<Rightarrow> kernel option" where
  "lock_fs st = do { ASSERT (\<not> fs_lock_held st); Some (st\<lparr>fs_lock_held := True\<rparr>) }"

definition unlock_fs :: "kernel \<Rightarrow> kernel option" where
  "unlock_fs st = do { ASSERT (fs_lock_held st); Some (st\<lparr>fs_lock_held := False\<rparr>) }"

definition lock_ft :: "kernel \<Rightarrow> kernel option" where
  "lock_ft st = do { ASSERT (\<not> ft_lock_held st); Some (st\<lparr>ft_lock_held := True\<rparr>) }"

definition unlock_ft :: "kernel \<Rightarrow> kernel option" where
  "unlock_ft st = do { ASSERT (ft_lock_held st); Some (st\<lparr>ft_lock_held := False\<rparr>) }"

definition upd_spte :: "nat \<Rightarrow> (spt_entry \<Rightarrow> spt_entry) \<Rightarrow> kernel \<Rightarrow> kernel option" where
  "upd_spte p f st = (case sptes st p of None \<Rightarrow> None | Some s \<Rightarrow> Some (st\<lparr>sptes := (sptes st)(p \<mapsto> f s)\<rparr>))"

definition upd_proc :: "(proc \<Rightarrow> proc) \<Rightarrow> kernel \<Rightarrow> kernel" where
  "upd_proc f st = st\<lparr>procs := (procs st)(cur st := f (procs st (cur st)))\<rparr>"

definition cur_proc :: "kernel \<Rightarrow> proc" where
  "cur_proc st = procs st (cur st)"

section \<open>The frame table\<close>

definition frame_hash :: "keyed \<Rightarrow> 32 word" where
  "frame_hash f = hash_int (fst f)"

definition frame_less :: "keyed \<Rightarrow> keyed \<Rightarrow> bool" where
  "frame_less a b \<longleftrightarrow> fst a < fst b"

definition frame_table_init :: "kernel \<Rightarrow> kernel option" where
  "frame_table_init st = (case hash_init (malloc_ok st) of
      None \<Rightarrow> Some (st\<lparr>ft_lock_held := False\<rparr>)
    | Some h \<Rightarrow> Some (st\<lparr>ft_lock_held := False, frame_table := h\<rparr>))"

text \<open>The result of \<open>malloc\<close> is used without a check.\<close>

definition frame_add_to_ft :: "vaddr \<Rightarrow> nat \<Rightarrow> kernel \<Rightarrow> kernel option" where
  "frame_add_to_ft frame spte st = do {
     ASSERT (malloc_ok st);
     let fe = next_ptr st;
     let st = st\<lparr>next_ptr := fe + 1\<rparr>;
     let st = st\<lparr>frame_entries := (frame_entries st)(fe \<mapsto> \<lparr>fe_frame = frame, fe_spte = spte, fe_thread = cur st\<rparr>)\<rparr>;
     st \<leftarrow> lock_ft st;
     (_, h) \<leftarrow> hash_insert frame_hash frame_less (malloc_ok st) (frame_table st) (frame, fe);
     unlock_ft (st\<lparr>frame_table := h\<rparr>) }"

text \<open>What happens to the frame that is chosen: its page is written to the swap device, or to its
  file when it is a mapping, if that is needed, and its frame is taken away and asked for again.\<close>

definition evict_frame :: "32 word \<Rightarrow> nat \<Rightarrow> kernel \<Rightarrow> (vaddr \<times> kernel) option" where
  "evict_frame flags p st = do {
     fte \<leftarrow> frame_entries st p;
     s \<leftarrow> sptes st (fe_spte fte);
     let pd = p_pagedir (procs st (fe_thread fte));
     dirty \<leftarrow> pagedir_is_dirty pd (s_vaddr s) st;
     st \<leftarrow> (if dirty \<or> s_type s = SWAP
       then (if s_type s = MMAP
         then do {
           st \<leftarrow> lock_fs st;
           (_, f) \<leftarrow> file_write_at (s_file s) (peek st (fe_frame fte) (s_read_bytes s)) (int (s_read_bytes s)) (s_offset s) (fs st);
           unlock_fs (st\<lparr>fs := f\<rparr>) }
         else do {
           st \<leftarrow> upd_spte (fe_spte fte) (s_type_update (\<lambda>_. SWAP)) st;
           (i, st) \<leftarrow> swap_out (fe_frame fte) st;
           upd_spte (fe_spte fte) (s_swap_index_update (\<lambda>_. i)) st })
       else Some st);
     st \<leftarrow> upd_spte (fe_spte fte) (s_in_memory_update (\<lambda>_. False)) st;
     (_, h) \<leftarrow> hash_delete frame_hash frame_less (malloc_ok st) (frame_table st) (fe_frame fte, p);
     let st = st\<lparr>frame_table := h\<rparr>;
     st \<leftarrow> pagedir_clear_page pd (s_vaddr s) st;
     st \<leftarrow> palloc_free_page (fe_frame fte) st;
     let st = st\<lparr>frame_entries := (frame_entries st)(p := None)\<rparr>;
     palloc_get_page flags st }"

text \<open>The loop over the frame table; \<^const>\<open>None\<close> as the frame stands for the end of the function
  without a value.\<close>

partial_function (option) frame_evict_loop :: "32 word \<Rightarrow> hash_iterator \<Rightarrow> kernel \<Rightarrow> (vaddr option \<times> kernel) option" where
  "frame_evict_loop flags i st =
     Option.bind (hash_next (frame_table st) i) (\<lambda>(e, i).
       case e of None \<Rightarrow> Some (None, st)
       | Some (_, p) \<Rightarrow>
           Option.bind (frame_entries st p) (\<lambda>fte.
           Option.bind (sptes st (fe_spte fte)) (\<lambda>s.
             if s_locked s then frame_evict_loop flags i st
             else Option.bind (pagedir_is_accessed (p_pagedir (procs st (fe_thread fte))) (s_vaddr s) st) (\<lambda>acc.
               if acc then Option.bind (pagedir_set_accessed (p_pagedir (procs st (fe_thread fte))) (s_vaddr s) False st)
                 (\<lambda>st. frame_evict_loop flags i st)
               else Option.bind (evict_frame flags p st) (\<lambda>(frame, st). Some (Some frame, st))))))"

text \<open>It returns with the lock held.\<close>

definition frame_evict :: "32 word \<Rightarrow> kernel \<Rightarrow> (vaddr option \<times> kernel) option" where
  "frame_evict flags st = do { st \<leftarrow> lock_ft st; frame_evict_loop flags hash_first st }"

text \<open>The loop of \<open>frame_alloc\<close>. When \<open>frame_evict\<close> ends without a \<open>return\<close>, its value is what the return register
  holds: \<open>eax\<close>, which the model keeps the same. \<^const>\<open>None\<close> is a panic or that the loop never ends; a
  property about a panic says which of the two it is.\<close>

partial_function (option) evict_until :: "32 word \<Rightarrow> vaddr \<Rightarrow> kernel \<Rightarrow> (vaddr \<times> kernel) option" where
  "evict_until flags frame st =
     (if frame \<noteq> 0 then Some (frame, st)
      else Option.bind (frame_evict flags st) (\<lambda>(r, st).
        Option.bind (unlock_ft st) (\<lambda>st.
          evict_until flags (case r of Some f \<Rightarrow> f | None \<Rightarrow> eax st) st)))"

definition frame_alloc :: "32 word \<Rightarrow> nat \<Rightarrow> kernel \<Rightarrow> (vaddr \<times> kernel) option" where
  "frame_alloc flags spte st =
     (if flags AND PAL_USER = 0 then Some (0, st)
      else do {
        (frame, st) \<leftarrow> palloc_get_page flags st;
        if frame \<noteq> 0
        then do { st \<leftarrow> frame_add_to_ft frame spte st; Some (frame, st) }
        else do {
          (frame, st) \<leftarrow> evict_until flags frame st;
          st \<leftarrow> frame_add_to_ft frame spte st;
          Some (frame, st) } })"

text \<open>The key of the probe is the frame; only the key is looked at.\<close>

definition frame_free :: "vaddr \<Rightarrow> kernel \<Rightarrow> kernel option" where
  "frame_free frame st = do {
     st \<leftarrow> lock_ft st;
     case hash_find frame_hash frame_less (frame_table st) (frame, 0) of
       None \<Rightarrow> unlock_ft st
     | Some f_elem \<Rightarrow> do {
         (_, h) \<leftarrow> hash_delete frame_hash frame_less (malloc_ok st) (frame_table st) f_elem;
         let st = st\<lparr>frame_table := h, frame_entries := (frame_entries st)(snd f_elem := None)\<rparr>;
         st \<leftarrow> palloc_free_page frame st;
         unlock_ft st } }"

text \<open>The contract of the hash table holds for tables keyed by addresses.\<close>

interpretation ft: hash_keys "fst :: keyed \<Rightarrow> vaddr" frame_hash frame_less
  by unfold_locales (auto simp: frame_hash_def frame_less_def)

end
