(* ===== verification/Page.thy ===== *)
theory Page
  imports Frame
begin

text \<open>
  Supplemental page tables of project 3: \<open>vm/page.c\<close>, and the parts of \<open>userprog/process.c\<close> that
  make pages for them: \<open>install_page\<close>, \<open>add_file_to_pt\<close>, \<open>load_segment\<close>, \<open>grow_stack\<close>.
\<close>

section \<open>The table of a process\<close>

definition page_hash_func :: "keyed \<Rightarrow> 32 word" where
  "page_hash_func e = hash_int (fst e)"

definition page_less_func :: "keyed \<Rightarrow> keyed \<Rightarrow> bool" where
  "page_less_func a b = (if fst a < fst b then True else False)"

interpretation spt: hash_keys "fst :: keyed \<Rightarrow> vaddr" page_hash_func page_less_func
  by unfold_locales (auto simp: page_hash_func_def page_less_func_def)

definition page_destroy_action :: "keyed \<Rightarrow> kernel \<Rightarrow> kernel option" where
  "page_destroy_action e st = do {
     s \<leftarrow> sptes st (snd e);
     st \<leftarrow> (if s_in_memory s
       then do {
         frame \<leftarrow> pagedir_get_page (p_pagedir (cur_proc st)) (s_vaddr s) st;
         st \<leftarrow> frame_free frame st;
         pagedir_clear_page (p_pagedir (cur_proc st)) (s_vaddr s) st }
       else Some st);
     Some (st\<lparr>sptes := (sptes st)(snd e := None)\<rparr>) }"

definition page_table_init :: "kernel \<Rightarrow> kernel" where
  "page_table_init st = (case hash_init (malloc_ok st) of
      None \<Rightarrow> st
    | Some h \<Rightarrow> upd_proc (p_spt_update (\<lambda>_. h)) st)"

primrec destroy_all :: "keyed list \<Rightarrow> kernel \<Rightarrow> kernel option" where
  "destroy_all [] st = Some st"
| "destroy_all (e # es) st = do { st \<leftarrow> page_destroy_action e st; destroy_all es st }"

definition page_table_destroy :: "kernel \<Rightarrow> kernel option" where
  "page_table_destroy st = destroy_all (hash_destroy True (p_spt (cur_proc st))) st"

definition get_spte :: "vaddr \<Rightarrow> kernel \<Rightarrow> nat option" where
  "get_spte va st = map_option snd
     (hash_find page_hash_func page_less_func (p_spt (cur_proc st)) (pg_round_down va, 0))"

section \<open>Loading a page\<close>

definition install_page :: "vaddr \<Rightarrow> vaddr \<Rightarrow> bool \<Rightarrow> kernel \<Rightarrow> (bool \<times> kernel) option" where
  "install_page upage kpage writable st = do {
     let pd = p_pagedir (cur_proc st);
     frame \<leftarrow> pagedir_get_page pd upage st;
     if frame = 0 then pagedir_set_page pd upage kpage writable st
     else Some (False, st) }"

definition load_file_page :: "nat \<Rightarrow> kernel \<Rightarrow> (bool \<times> kernel) option" where
  "load_file_page p st = do {
     s \<leftarrow> sptes st p;
     let flags = (if s_read_bytes s = 0 then PAL_USER OR PAL_ZERO else PAL_USER);
     (frame, st) \<leftarrow> frame_alloc flags p st;
     if frame = 0 then Some (False, st)
     else do {
       (short, st) \<leftarrow> (if s_read_bytes s > 0
         then do {
           st \<leftarrow> lock_fs st;
           (bs, f) \<leftarrow> file_read_at (s_file s) (int (s_read_bytes s)) (s_offset s) (fs st);
           let st = poke frame bs (st\<lparr>fs := f\<rparr>);
           st \<leftarrow> unlock_fs st;
           if length bs \<noteq> s_read_bytes s then Some (True, st)
           else Some (False, poke (frame + word_of_nat (s_read_bytes s)) (replicate (s_zero_bytes s) 0) st) }
         else Some (False, st));
       if short then do { st \<leftarrow> frame_free frame st; Some (False, st) }
       else do {
         (ok, st) \<leftarrow> install_page (s_vaddr s) frame (s_writable s) st;
         if \<not> ok then do { st \<leftarrow> frame_free frame st; Some (False, st) }
         else do { st \<leftarrow> upd_spte p (s_in_memory_update (\<lambda>_. True)) st; Some (True, st) } } } }"

definition load_swap_page :: "nat \<Rightarrow> kernel \<Rightarrow> (bool \<times> kernel) option" where
  "load_swap_page p st = do {
     s \<leftarrow> sptes st p;
     (frame, st) \<leftarrow> frame_alloc PAL_USER p st;
     if frame = 0 then Some (False, st)
     else do {
       (ok, st) \<leftarrow> install_page (s_vaddr s) frame (s_writable s) st;
       if \<not> ok then do { st \<leftarrow> frame_free frame st; Some (False, st) }
       else do {
         st \<leftarrow> swap_in (s_swap_index s) (s_vaddr s) st;
         st \<leftarrow> upd_spte p (s_in_memory_update (\<lambda>_. True)) st;
         Some (True, st) } } }"

definition load_page :: "nat \<Rightarrow> kernel \<Rightarrow> (bool \<times> kernel) option" where
  "load_page p st = do {
     st \<leftarrow> upd_spte p (s_locked_update (\<lambda>_. True)) st;
     s \<leftarrow> sptes st p;
     if s_in_memory s then Some (False, st)
     else (case s_type s of
         FILE \<Rightarrow> load_file_page p st
       | MMAP \<Rightarrow> load_file_page p st
       | SWAP \<Rightarrow> load_swap_page p st
       | HASH_FAIL \<Rightarrow> Some (False, st)) }"

section \<open>New pages\<close>

text \<open>\<open>malloc\<close> of an entry: its address, or \<^const>\<open>None\<close>.\<close>

definition malloc_spte :: "kernel \<Rightarrow> (nat option \<times> kernel)" where
  "malloc_spte st = (if malloc_ok st
     then (Some (next_ptr st), st\<lparr>next_ptr := next_ptr st + 1, sptes := (sptes st)(next_ptr st \<mapsto> spte_junk st)\<rparr>)
     else (None, st))"

definition spt_insert :: "vaddr \<Rightarrow> nat \<Rightarrow> kernel \<Rightarrow> (nat option \<times> kernel) option" where
  "spt_insert va p st = do {
     (old, h) \<leftarrow> hash_insert page_hash_func page_less_func (malloc_ok st) (p_spt (cur_proc st)) (va, p);
     Some (map_option snd old, upd_proc (p_spt_update (\<lambda>_. h)) st) }"

definition add_file_to_pt :: "nat \<Rightarrow> nat \<Rightarrow> vaddr \<Rightarrow> nat \<Rightarrow> nat \<Rightarrow> bool \<Rightarrow> kernel \<Rightarrow> (bool \<times> kernel) option" where
  "add_file_to_pt f ofs upage read_bytes zero_bytes writable st =
     (case malloc_spte st of
        (None, st) \<Rightarrow> Some (False, st)
      | (Some p, st) \<Rightarrow> do {
          st \<leftarrow> upd_spte p (\<lambda>s. s\<lparr>s_file := f, s_offset := ofs, s_vaddr := upage, s_read_bytes := read_bytes,
            s_zero_bytes := zero_bytes, s_writable := writable, s_in_memory := False, s_type := FILE, s_locked := False\<rparr>) st;
          (old, st) \<leftarrow> spt_insert upage p st;
          if old \<noteq> None then do { st \<leftarrow> upd_spte p (s_type_update (\<lambda>_. HASH_FAIL)) st; Some (False, st) }
          else Some (True, st) })"

text \<open>The loop of \<open>load_segment\<close>: byte counts are unsigned and wrap around, \<open>ofs\<close> is signed.\<close>

partial_function (option) load_segment_loop :: "nat \<Rightarrow> int \<Rightarrow> vaddr \<Rightarrow> 32 word \<Rightarrow> 32 word \<Rightarrow> bool \<Rightarrow> kernel \<Rightarrow> (bool \<times> kernel) option" where
  "load_segment_loop f ofs upage read_bytes zero_bytes writable st =
     (if read_bytes > 0 \<or> zero_bytes > 0 then
        (let page_read_bytes = (if read_bytes < word_of_nat PGSIZE then read_bytes else word_of_nat PGSIZE);
             page_zero_bytes = word_of_nat PGSIZE - page_read_bytes
         in Option.bind (add_file_to_pt f (nat (ofs mod 2 ^ 32)) upage (unat page_read_bytes) (unat page_zero_bytes) writable st)
           (\<lambda>(ok, st). if \<not> ok then Some (False, st)
             else load_segment_loop f (wrap32 (ofs + int (unat page_read_bytes))) (upage + word_of_nat PGSIZE)
               (read_bytes - page_read_bytes) (zero_bytes - page_zero_bytes) writable st))
      else Some (True, st))"

definition load_segment :: "nat \<Rightarrow> int \<Rightarrow> vaddr \<Rightarrow> 32 word \<Rightarrow> 32 word \<Rightarrow> bool \<Rightarrow> kernel \<Rightarrow> (bool \<times> kernel) option" where
  "load_segment f ofs upage read_bytes zero_bytes writable st = do {
     ASSERT (unat (read_bytes + zero_bytes) mod PGSIZE = 0);
     ASSERT (pg_ofs upage = 0);
     ASSERT (ofs smod int PGSIZE = 0);
     fs' \<leftarrow> file_seek f ofs (fs st);
     load_segment_loop f ofs upage read_bytes zero_bytes writable (st\<lparr>fs := fs'\<rparr>) }"

definition MAX_STACK_SIZE :: nat where "MAX_STACK_SIZE = 2 ^ 25"

text \<open>\<open>in_intr\<close> is \<open>intr_context ()\<close>. When the page cannot be installed the entry is freed while the
  frame table still refers to it.\<close>

definition grow_stack :: "bool \<Rightarrow> vaddr \<Rightarrow> kernel \<Rightarrow> (bool \<times> kernel) option" where
  "grow_stack in_intr va st =
     (if unat (PHYS_BASE - pg_round_down va) > MAX_STACK_SIZE then Some (False, st)
      else case malloc_spte st of
        (None, st) \<Rightarrow> Some (False, st)
      | (Some p, st) \<Rightarrow> do {
          st \<leftarrow> upd_spte p (\<lambda>s. s\<lparr>s_vaddr := pg_round_down va, s_in_memory := True, s_writable := True,
            s_type := SWAP, s_locked := True\<rparr>) st;
          (frame, st) \<leftarrow> frame_alloc PAL_USER p st;
          if frame = 0 then Some (False, st\<lparr>sptes := (sptes st)(p := None)\<rparr>)
          else do {
            (ok, st) \<leftarrow> install_page (pg_round_down va) frame True st;
            if \<not> ok then do {
              let st = st\<lparr>sptes := (sptes st)(p := None)\<rparr>;
              st \<leftarrow> frame_free frame st;
              Some (False, st) }
            else do {
              st \<leftarrow> (if in_intr then upd_spte p (s_locked_update (\<lambda>_. False)) st else Some st);
              (old, st) \<leftarrow> spt_insert (pg_round_down va) p st;
              Some (old = None, st) } } })"

end
