(* ===== verification/CString.thy ===== *)
theory CString
  imports Bytes
begin

text \<open>
  \<open>lib/string.c\<close>: blocks of memory and null-terminated strings. The memory a function works on is
  a list of bytes, an address is an index into it, and address 0 is the null pointer. An access
  outside the memory, like a failed \<open>ASSERT\<close>, gives \<^const>\<open>None\<close>. A character argument is the byte
  to which the code converts its \<open>int\<close>.
\<close>

type_synonym mem = "byte list"
type_synonym addr = nat

definition NULL :: addr where "NULL = 0"

definition rd :: "mem \<Rightarrow> addr \<Rightarrow> byte option" where
  "rd m p = (if p \<noteq> NULL \<and> p < length m then Some (m ! p) else None)"

definition wr :: "mem \<Rightarrow> addr \<Rightarrow> byte \<Rightarrow> mem option" where
  "wr m p b = (if p \<noteq> NULL \<and> p < length m then Some (m[p := b]) else None)"

lemma rd_Some: "rd m p = Some c \<longleftrightarrow> p \<noteq> 0 \<and> p < length m \<and> c = m ! p"
  by (auto simp: rd_def NULL_def)

lemma wr_Some: "wr m p b = Some m' \<longleftrightarrow> p \<noteq> 0 \<and> p < length m \<and> m' = m[p := b]"
  by (auto simp: wr_def NULL_def)

section \<open>Blocks\<close>

primrec copy_up :: "nat \<Rightarrow> addr \<Rightarrow> addr \<Rightarrow> mem \<Rightarrow> (mem \<times> addr) option" where
  "copy_up 0 dst src m = Some (m, dst)"
| "copy_up (Suc n) dst src m = do {
     b \<leftarrow> rd m src;
     m \<leftarrow> wr m dst b;
     copy_up n (dst + 1) (src + 1) m }"

definition memcpy :: "addr \<Rightarrow> addr \<Rightarrow> nat \<Rightarrow> mem \<Rightarrow> (addr \<times> mem) option" where
  "memcpy dst src n m = do {
     ASSERT (dst \<noteq> NULL \<or> n = 0);
     ASSERT (src \<noteq> NULL \<or> n = 0);
     (m, _) \<leftarrow> copy_up n dst src m;
     Some (dst, m) }"

primrec copy_down :: "nat \<Rightarrow> addr \<Rightarrow> addr \<Rightarrow> mem \<Rightarrow> (mem \<times> addr) option" where
  "copy_down 0 dst src m = Some (m, dst)"
| "copy_down (Suc n) dst src m = do {
     b \<leftarrow> rd m (src - 1);
     m \<leftarrow> wr m (dst - 1) b;
     copy_down n (dst - 1) (src - 1) m }"

text \<open>The result is the local variable \<open>dst\<close>, which the loops have moved.\<close>

definition memmove :: "addr \<Rightarrow> addr \<Rightarrow> nat \<Rightarrow> mem \<Rightarrow> (addr \<times> mem) option" where
  "memmove dst src n m = do {
     ASSERT (dst \<noteq> NULL \<or> n = 0);
     ASSERT (src \<noteq> NULL \<or> n = 0);
     (m, dst) \<leftarrow> (if dst < src then copy_up n dst src m else copy_down n (dst + n) (src + n) m);
     Some (dst, m) }"

primrec memcmp_loop :: "nat \<Rightarrow> addr \<Rightarrow> addr \<Rightarrow> mem \<Rightarrow> int option" where
  "memcmp_loop 0 a b m = Some 0"
| "memcmp_loop (Suc n) a b m = do {
     x \<leftarrow> rd m a;
     y \<leftarrow> rd m b;
     if x \<noteq> y then Some (if x > y then 1 else - 1) else memcmp_loop n (a + 1) (b + 1) m }"

definition memcmp :: "addr \<Rightarrow> addr \<Rightarrow> nat \<Rightarrow> mem \<Rightarrow> int option" where
  "memcmp a b n m = do {
     ASSERT (a \<noteq> NULL \<or> n = 0);
     ASSERT (b \<noteq> NULL \<or> n = 0);
     memcmp_loop n a b m }"

primrec memchr_loop :: "nat \<Rightarrow> addr \<Rightarrow> byte \<Rightarrow> mem \<Rightarrow> addr option" where
  "memchr_loop 0 p ch m = Some NULL"
| "memchr_loop (Suc n) p ch m = do {
     x \<leftarrow> rd m p;
     if x = ch then Some p else memchr_loop n (p + 1) ch m }"

definition memchr :: "addr \<Rightarrow> byte \<Rightarrow> nat \<Rightarrow> mem \<Rightarrow> addr option" where
  "memchr p ch n m = do { ASSERT (p \<noteq> NULL \<or> n = 0); memchr_loop n p ch m }"

primrec memset_loop :: "nat \<Rightarrow> addr \<Rightarrow> byte \<Rightarrow> mem \<Rightarrow> mem option" where
  "memset_loop 0 dst v m = Some m"
| "memset_loop (Suc n) dst v m = do { m \<leftarrow> wr m dst v; memset_loop n (dst + 1) v m }"

definition memset :: "addr \<Rightarrow> byte \<Rightarrow> nat \<Rightarrow> mem \<Rightarrow> (addr \<times> mem) option" where
  "memset dst v n m = do { ASSERT (dst \<noteq> NULL \<or> n = 0); m \<leftarrow> memset_loop n dst v m; Some (dst, m) }"

section \<open>Strings\<close>

text \<open>A loop that walks along a string ends at the end of the memory at the latest.\<close>

function strlen_loop :: "addr \<Rightarrow> mem \<Rightarrow> addr option" where
  "strlen_loop p m = (case rd m p of None \<Rightarrow> None
     | Some c \<Rightarrow> if c \<noteq> 0 then strlen_loop (p + 1) m else Some p)"
  by pat_completeness auto
termination by (relation "measure (\<lambda>(p, m). length m - p)") (auto simp: rd_Some)

definition strlen :: "addr \<Rightarrow> mem \<Rightarrow> nat option" where
  "strlen s m = do { ASSERT (s \<noteq> NULL); p \<leftarrow> strlen_loop s m; Some (p - s) }"

text \<open>\<open>strnlen\<close> has the function that reads a byte as its argument, because \<open>__vprintf\<close> calls it too.\<close>

function strnlen_loop :: "addr \<Rightarrow> nat \<Rightarrow> nat \<Rightarrow> (addr \<Rightarrow> byte option) \<Rightarrow> nat option" where
  "strnlen_loop s maxlen len r = (case r (s + len) of None \<Rightarrow> None
     | Some c \<Rightarrow> if c \<noteq> 0 \<and> len < maxlen then strnlen_loop s maxlen (len + 1) r else Some len)"
  by pat_completeness auto
termination by (relation "measure (\<lambda>(s, maxlen, len, r). maxlen - len)") auto

definition strnlen :: "addr \<Rightarrow> nat \<Rightarrow> (addr \<Rightarrow> byte option) \<Rightarrow> nat option" where
  "strnlen s maxlen r = strnlen_loop s maxlen 0 r"

function strcmp_loop :: "addr \<Rightarrow> addr \<Rightarrow> mem \<Rightarrow> int option" where
  "strcmp_loop a b m = (case rd m a of None \<Rightarrow> None
     | Some x \<Rightarrow> case rd m b of None \<Rightarrow> None
     | Some y \<Rightarrow> if x \<noteq> 0 \<and> x = y then strcmp_loop (a + 1) (b + 1) m
                 else Some (if x < y then - 1 else if x > y then 1 else 0))"
  by pat_completeness auto
termination by (relation "measure (\<lambda>(a, b, m). length m - a)") (auto simp: rd_Some)

definition strcmp :: "addr \<Rightarrow> addr \<Rightarrow> mem \<Rightarrow> int option" where
  "strcmp a b m = do { ASSERT (a \<noteq> NULL); ASSERT (b \<noteq> NULL); strcmp_loop a b m }"

function strchr_loop :: "addr \<Rightarrow> byte \<Rightarrow> mem \<Rightarrow> addr option" where
  "strchr_loop s c m = (case rd m s of None \<Rightarrow> None
     | Some x \<Rightarrow> if x = c then Some s else if x = 0 then Some NULL else strchr_loop (s + 1) c m)"
  by pat_completeness auto
termination by (relation "measure (\<lambda>(s, c, m). length m - s)") (auto simp: rd_Some)

definition strchr :: "addr \<Rightarrow> byte \<Rightarrow> mem \<Rightarrow> addr option" where
  "strchr s c m = do { ASSERT (s \<noteq> NULL); strchr_loop s c m }"

function strcspn_loop :: "addr \<Rightarrow> addr \<Rightarrow> nat \<Rightarrow> mem \<Rightarrow> nat option" where
  "strcspn_loop s stop len m = (case rd m (s + len) of None \<Rightarrow> None
     | Some x \<Rightarrow> if x = 0 then Some len
         else case strchr stop x m of None \<Rightarrow> None
         | Some q \<Rightarrow> if q \<noteq> NULL then Some len else strcspn_loop s stop (len + 1) m)"
  by pat_completeness auto
termination by (relation "measure (\<lambda>(s, stop, len, m). length m - (s + len))") (auto simp: rd_Some)

definition strcspn :: "addr \<Rightarrow> addr \<Rightarrow> mem \<Rightarrow> nat option" where
  "strcspn s stop m = strcspn_loop s stop 0 m"

function strpbrk :: "addr \<Rightarrow> addr \<Rightarrow> mem \<Rightarrow> addr option" where
  "strpbrk s stop m = (case rd m s of None \<Rightarrow> None
     | Some x \<Rightarrow> if x = 0 then Some NULL
         else case strchr stop x m of None \<Rightarrow> None
         | Some q \<Rightarrow> if q \<noteq> NULL then Some s else strpbrk (s + 1) stop m)"
  by pat_completeness auto
termination by (relation "measure (\<lambda>(s, stop, m). length m - s)") (auto simp: rd_Some)

function strrchr_loop :: "addr \<Rightarrow> byte \<Rightarrow> addr \<Rightarrow> mem \<Rightarrow> addr option" where
  "strrchr_loop s c p m = (case rd m s of None \<Rightarrow> None
     | Some x \<Rightarrow> if x = 0 then Some p else strrchr_loop (s + 1) c (if x = c then s else p) m)"
  by pat_completeness auto
termination by (relation "measure (\<lambda>(s, c, p, m). length m - s)") (auto simp: rd_Some)

definition strrchr :: "addr \<Rightarrow> byte \<Rightarrow> mem \<Rightarrow> addr option" where
  "strrchr s c m = strrchr_loop s c NULL m"

function strspn_loop :: "addr \<Rightarrow> addr \<Rightarrow> nat \<Rightarrow> mem \<Rightarrow> nat option" where
  "strspn_loop s skip len m = (case rd m (s + len) of None \<Rightarrow> None
     | Some x \<Rightarrow> if x = 0 then Some len
         else case strchr skip x m of None \<Rightarrow> None
         | Some q \<Rightarrow> if q = NULL then Some len else strspn_loop s skip (len + 1) m)"
  by pat_completeness auto
termination by (relation "measure (\<lambda>(s, skip, len, m). length m - (s + len))") (auto simp: rd_Some)

definition strspn :: "addr \<Rightarrow> addr \<Rightarrow> mem \<Rightarrow> nat option" where
  "strspn s skip m = strspn_loop s skip 0 m"

text \<open>\<open>k\<close> counts the values of \<open>i\<close> that are left.\<close>

primrec strstr_loop :: "nat \<Rightarrow> addr \<Rightarrow> addr \<Rightarrow> nat \<Rightarrow> mem \<Rightarrow> addr option" where
  "strstr_loop 0 p needle needle_len m = Some NULL"
| "strstr_loop (Suc k) p needle needle_len m = do {
     c \<leftarrow> memcmp p needle needle_len m;
     if c = 0 then Some p else strstr_loop k (p + 1) needle needle_len m }"

definition strstr :: "addr \<Rightarrow> addr \<Rightarrow> mem \<Rightarrow> addr option" where
  "strstr haystack needle m = do {
     haystack_len \<leftarrow> strlen haystack m;
     needle_len \<leftarrow> strlen needle m;
     if haystack_len \<ge> needle_len
     then strstr_loop (haystack_len - needle_len + 1) haystack needle needle_len m
     else Some NULL }"

text \<open>The two loops of \<open>strtok_r\<close>: \<^const>\<open>None\<close> inside \<^const>\<open>Some\<close> says that the first one met the end
  of the string.\<close>

function skip_delims :: "addr \<Rightarrow> addr \<Rightarrow> mem \<Rightarrow> (bool \<times> addr) option" where
  "skip_delims s delimiters m = (case rd m s of None \<Rightarrow> None
     | Some x \<Rightarrow> case strchr delimiters x m of None \<Rightarrow> None
         | Some q \<Rightarrow> if q \<noteq> NULL
             then if x = 0 then Some (True, s) else skip_delims (s + 1) delimiters m
             else Some (False, s))"
  by pat_completeness auto
termination by (relation "measure (\<lambda>(s, delimiters, m). length m - s)") (auto simp: rd_Some)

function skip_token :: "addr \<Rightarrow> addr \<Rightarrow> mem \<Rightarrow> addr option" where
  "skip_token s delimiters m = (case rd m s of None \<Rightarrow> None
     | Some x \<Rightarrow> case strchr delimiters x m of None \<Rightarrow> None
         | Some q \<Rightarrow> if q = NULL then skip_token (s + 1) delimiters m else Some s)"
  by pat_completeness auto
termination by (relation "measure (\<lambda>(s, delimiters, m). length m - s)") (auto simp: rd_Some)

text \<open>The result is the token, the new \<open>*save_ptr\<close> and the memory.\<close>

definition strtok_r :: "addr \<Rightarrow> addr \<Rightarrow> addr \<Rightarrow> mem \<Rightarrow> (addr \<times> addr \<times> mem) option" where
  "strtok_r s delimiters save m = do {
     ASSERT (delimiters \<noteq> NULL);
     let s = (if s = NULL then save else s);
     ASSERT (s \<noteq> NULL);
     (done, s) \<leftarrow> skip_delims s delimiters m;
     if done then Some (NULL, s, m)
     else do {
       let token = s;
       s \<leftarrow> skip_token s delimiters m;
       x \<leftarrow> rd m s;
       if x \<noteq> 0 then do { m \<leftarrow> wr m s 0; Some (token, s + 1, m) }
       else Some (token, s, m) } }"

definition strlcpy :: "addr \<Rightarrow> addr \<Rightarrow> nat \<Rightarrow> mem \<Rightarrow> (nat \<times> mem) option" where
  "strlcpy dst src n m = do {
     ASSERT (dst \<noteq> NULL);
     ASSERT (src \<noteq> NULL);
     src_len \<leftarrow> strlen src m;
     if n > 0 then do {
       let dst_len = (if src_len < n - 1 then src_len else n - 1);
       (_, m) \<leftarrow> memcpy dst src dst_len m;
       m \<leftarrow> wr m (dst + dst_len) 0;
       Some (src_len, m) }
     else Some (src_len, m) }"

definition strlcat :: "addr \<Rightarrow> addr \<Rightarrow> nat \<Rightarrow> mem \<Rightarrow> (nat \<times> mem) option" where
  "strlcat dst src n m = do {
     ASSERT (dst \<noteq> NULL);
     ASSERT (src \<noteq> NULL);
     src_len \<leftarrow> strlen src m;
     dst_len \<leftarrow> strlen dst m;
     if n > 0 \<and> dst_len < n then do {
       let copy_cnt = (if src_len < n - dst_len - 1 then src_len else n - dst_len - 1);
       (_, m) \<leftarrow> memcpy (dst + dst_len) src copy_cnt m;
       m \<leftarrow> wr m (dst + dst_len + copy_cnt) 0;
       Some (src_len + dst_len, m) }
     else Some (src_len + dst_len, m) }"

declare strlen_loop.simps [simp del] strnlen_loop.simps [simp del] strcmp_loop.simps [simp del]
  strchr_loop.simps [simp del] strcspn_loop.simps [simp del] strpbrk.simps [simp del] strrchr_loop.simps [simp del]
  strspn_loop.simps [simp del] skip_delims.simps [simp del] skip_token.simps [simp del]

text \<open>The tokens of a string: its longest pieces without a delimiter.\<close>

function tokens :: "byte set \<Rightarrow> byte list \<Rightarrow> byte list list" where
  "tokens D s = (let r = dropWhile (\<lambda>c. c \<in> D) s in
     if r = [] then [] else takeWhile (\<lambda>c. c \<notin> D) r # tokens D (dropWhile (\<lambda>c. c \<notin> D) r))"
  by pat_completeness auto
termination
proof (relation "measure (\<lambda>(D, s). length s)")
  fix D s x assume x: "x = dropWhile (\<lambda>c. c \<in> D) s" "x \<noteq> []"
  then have "hd x \<notin> D" by (metis hd_dropWhile)
  then have "length (dropWhile (\<lambda>c. c \<notin> D) x) < length x"
    using x(2) by (cases x) (auto simp: less_Suc_eq_le length_dropWhile_le)
  also have "\<dots> \<le> length s" using x(1) by (simp add: length_dropWhile_le)
  finally show "((D, dropWhile (\<lambda>c. c \<notin> D) x), D, s) \<in> measure (\<lambda>(D, s). length s)" by simp
qed auto

declare tokens.simps [simp del]

end
