(* ===== verification/StringProps.thy ===== *)
theory StringProps
  imports CString
begin

text \<open>
  What \<open>lib/string.c\<close> computes. \<open>cstr m p s\<close> says that at address \<open>p\<close> of the memory \<open>m\<close> there is the
  string \<open>s\<close> with its terminator.
\<close>

section \<open>Strings in memory\<close>

primrec cstr :: "mem \<Rightarrow> addr \<Rightarrow> byte list \<Rightarrow> bool" where
  "cstr m p [] \<longleftrightarrow> rd m p = Some 0"
| "cstr m p (c # s) \<longleftrightarrow> rd m p = Some c \<and> c \<noteq> 0 \<and> cstr m (p + 1) s"

lemma cstr_append: "cstr m p (s @ t) \<longleftrightarrow> (\<forall>i<length s. rd m (p + i) = Some (s ! i) \<and> s ! i \<noteq> 0) \<and> cstr m (p + length s) t"
proof (induction s arbitrary: p)
  case (Cons c s)
  have "(\<forall>i<length (c # s). rd m (p + i) = Some ((c # s) ! i) \<and> (c # s) ! i \<noteq> 0) \<longleftrightarrow>
    (rd m p = Some c \<and> c \<noteq> 0) \<and> (\<forall>i<length s. rd m (p + 1 + i) = Some (s ! i) \<and> s ! i \<noteq> 0)"
    by (auto simp: less_Suc_eq_0_disj)
  then show ?case using Cons.IH[of "p + 1"] by simp
qed simp

lemma cstr_iff: "cstr m p s \<longleftrightarrow> (\<forall>i<length s. rd m (p + i) = Some (s ! i) \<and> s ! i \<noteq> 0) \<and> rd m (p + length s) = Some 0"
  using cstr_append[of m p s "[]"] by simp

lemma cstr_nonnull: "cstr m p s \<Longrightarrow> p \<noteq> 0"
  by (cases s) (auto simp: rd_Some)

lemma cstr_no_zero: "cstr m p s \<Longrightarrow> 0 \<notin> set s"
  by (induction s arbitrary: p) auto

lemma cstr_bound: "cstr m p s \<Longrightarrow> p + length s < length m"
  by (simp add: cstr_iff rd_Some)

lemma cstr_cong:
  assumes "cstr m p s" "length m' = length m" "\<forall>i\<le>length s. m' ! (p + i) = m ! (p + i)"
  shows "cstr m' p s"
  using assms by (auto simp: cstr_iff rd_Some)

lemma strlen_spec: "cstr m p s \<Longrightarrow> strlen p m = Some (length s)"
proof -
  have "cstr m q s \<Longrightarrow> strlen_loop q m = Some (q + length s)" for q
    by (induction s arbitrary: q) (subst strlen_loop.simps, simp)+
  then show "cstr m p s \<Longrightarrow> strlen p m = Some (length s)"
    using cstr_nonnull by (auto simp: strlen_def NULL_def)
qed

lemma strchr_spec:
  assumes "cstr m p s"
  shows "strchr p c m = Some (if c = 0 then p + length s
    else if c \<in> set s then p + length (takeWhile (\<lambda>x. x \<noteq> c) s) else NULL)"
proof -
  have "cstr m q s \<Longrightarrow> strchr_loop q c m = Some (if c = 0 then q + length s
    else if c \<in> set s then q + length (takeWhile (\<lambda>x. x \<noteq> c) s) else NULL)" for q
    by (induction s arbitrary: q) (subst strchr_loop.simps, auto)+
  then show ?thesis using assms cstr_nonnull by (simp add: strchr_def NULL_def)
qed

lemma strchr_null: "cstr m p s \<Longrightarrow> \<exists>q. strchr p c m = Some q \<and> (q = NULL \<longleftrightarrow> c \<noteq> 0 \<and> c \<notin> set s)"
  using strchr_spec[of m p s c] cstr_nonnull[of m p s] by (auto simp: NULL_def)

section \<open>Comparing\<close>

text \<open>C38: \<open>strcmp\<close> is the lexicographic order of strings of unsigned characters: zero for equal strings,
  negative when the first comes before the second, positive otherwise.\<close>

theorem strcmp_lexicographic:
  assumes "cstr m a s" "cstr m b t"
  shows "strcmp a b m = Some (if s = t then 0 else if ord_class.lexordp s t then - 1 else 1)"
proof -
  have "cstr m a s \<Longrightarrow> cstr m b t \<Longrightarrow>
      strcmp_loop a b m = Some (if s = t then 0 else if ord_class.lexordp s t then - 1 else 1)" for a b
  proof (induction s t arbitrary: a b rule: list_induct2')
    case (2 x xs)
    then show ?case by (subst strcmp_loop.simps) (auto simp: word_less_nat_alt unat_eq_0 word_gt_0 unat_gt_0)
  next
    case (3 y ys)
    then show ?case by (subst strcmp_loop.simps) (auto simp: word_gt_0)
  next
    case (4 x xs y ys)
    then show ?case by (subst strcmp_loop.simps) auto
  qed (subst strcmp_loop.simps, simp)
  then show ?thesis using assms cstr_nonnull by (simp add: strcmp_def NULL_def)
qed

theorem strcmp_lexicographic_witness: "strcmp 1 4 [0, 97, 98, 0, 97, 200, 0] = Some (- 1)"
proof -
  let ?m = "[0, 97, 98, 0, 97, 200, 0] :: byte list"
  have "cstr ?m 1 [97, 98]" "cstr ?m 4 [97, 200]" by (simp_all add: rd_def NULL_def)
  from strcmp_lexicographic[OF this] show ?thesis by simp
qed

section \<open>Copying\<close>

definition copied :: "mem \<Rightarrow> addr \<Rightarrow> addr \<Rightarrow> nat \<Rightarrow> mem \<Rightarrow> bool" where
  "copied m dst src n m' \<longleftrightarrow> length m' = length m \<and>
     (\<forall>i<length m. m' ! i = (if dst \<le> i \<and> i < dst + n then m ! (src + (i - dst)) else m ! i))"

lemma copied_overlay:
  assumes "copied m dst src n m'" "dst + n \<le> length m" "src + n \<le> length m"
  shows "m' = overlay m dst (take n (drop src m))"
proof (rule nth_equalityI)
  have l: "length (take n (drop src m)) = n" using assms(3) by simp
  show "length m' = length (overlay m dst (take n (drop src m)))" using assms l by (simp add: copied_def)
  fix i assume "i < length m'"
  then show "m' ! i = overlay m dst (take n (drop src m)) ! i"
    using assms l nth_overlay[of dst "take n (drop src m)" m i] by (auto simp: copied_def)
qed

lemma copy_up_copied:
  "0 < dst \<Longrightarrow> 0 < src \<Longrightarrow> dst + n \<le> length m \<Longrightarrow> src + n \<le> length m \<Longrightarrow> dst \<le> src \<or> src + n \<le> dst \<Longrightarrow>
   \<exists>m'. copy_up n dst src m = Some (m', dst + n) \<and> copied m dst src n m'"
proof (induction n arbitrary: dst src m)
  case (Suc n)
  let ?m = "m[dst := m ! src]"
  obtain m' where m': "copy_up n (dst + 1) (src + 1) ?m = Some (m', dst + 1 + n)" "copied ?m (dst + 1) (src + 1) n m'"
    using Suc.IH[of "dst + 1" "src + 1" ?m] Suc.prems by auto
  have "m' ! i = (if dst \<le> i \<and> i < dst + Suc n then m ! (src + (i - dst)) else m ! i)" if i: "i < length m" for i
  proof -
    have e: "m' ! i = (if dst + 1 \<le> i \<and> i < dst + 1 + n then ?m ! (src + 1 + (i - (dst + 1))) else ?m ! i)"
      using m'(2) i by (simp add: copied_def)
    consider "i = dst" | "dst + 1 \<le> i" "i < dst + 1 + n" | "i < dst \<or> dst + 1 + n \<le> i" by linarith
    then show ?thesis
    proof cases
      case 2
      then have "src + 1 + (i - (dst + 1)) = src + (i - dst)" "src + (i - dst) \<noteq> dst" using Suc.prems(5) by auto
      then show ?thesis using e 2 by simp
    qed (use e i in auto)
  qed
  then have "copied m dst src (Suc n) m'" using m'(2) by (simp add: copied_def)
  then show ?case using m'(1) Suc.prems by (simp add: rd_def wr_def NULL_def)
qed (auto simp: copied_def)

lemma copy_down_copied:
  "0 < dst \<Longrightarrow> 0 < src \<Longrightarrow> dst + n \<le> length m \<Longrightarrow> src + n \<le> length m \<Longrightarrow> src \<le> dst \<Longrightarrow>
   \<exists>m'. copy_down n (dst + n) (src + n) m = Some (m', dst) \<and> copied m dst src n m'"
proof (induction n arbitrary: m)
  case (Suc n)
  let ?m = "m[dst + n := m ! (src + n)]"
  obtain m' where m': "copy_down n (dst + n) (src + n) ?m = Some (m', dst)" "copied ?m dst src n m'"
    using Suc.IH[of ?m] Suc.prems by auto
  have "m' ! i = (if dst \<le> i \<and> i < dst + Suc n then m ! (src + (i - dst)) else m ! i)" if i: "i < length m" for i
    using m'(2) Suc.prems(3-5) i unfolding copied_def by (cases "i = dst + n") (auto simp: nth_list_update)
  then have "copied m dst src (Suc n) m'" using m'(2) by (simp add: copied_def)
  then show ?case using m'(1) Suc.prems by (simp add: rd_def wr_def NULL_def)
qed (auto simp: copied_def)

text \<open>C37: \<open>memmove\<close> moves the block whether or not source and destination overlap. What it returns is
  \<open>DST\<close> only when it copies downwards; otherwise it is \<open>DST + SIZE\<close>, against its comment.\<close>

theorem memmove_moves:
  assumes "0 < dst" "0 < src" "dst + n \<le> length m" "src + n \<le> length m"
  shows "memmove dst src n m = Some (if dst < src then dst + n else dst, overlay m dst (take n (drop src m)))"
proof (cases "dst < src")
  case True
  then obtain m' where "copy_up n dst src m = Some (m', dst + n)" "copied m dst src n m'"
    using copy_up_copied[OF assms] by auto
  then show ?thesis using True assms copied_overlay[of m dst src n m'] by (simp add: memmove_def NULL_def)
next
  case False
  then obtain m' where "copy_down n (dst + n) (src + n) m = Some (m', dst)" "copied m dst src n m'"
    using copy_down_copied[OF assms] by auto
  then show ?thesis using False assms copied_overlay[of m dst src n m'] by (simp add: memmove_def NULL_def)
qed

theorem memmove_moves_witness: "memmove 1 2 3 [0, 1, 2, 3, 4] = Some (4, [0, 2, 3, 4, 4])"
  using memmove_moves[of 1 2 3 "[0, 1, 2, 3, 4]"] by (simp add: overlay_def)

lemma memcpy_spec:
  assumes "0 < dst" "0 < src" "dst + n \<le> length m" "src + n \<le> length m" "dst \<le> src \<or> src + n \<le> dst"
  shows "memcpy dst src n m = Some (dst, overlay m dst (take n (drop src m)))"
  using copy_up_copied[OF assms] copied_overlay[of m dst src n] assms by (auto simp: memcpy_def NULL_def)

lemma cstr_take_drop: "cstr m p s \<Longrightarrow> take (length s) (drop p m) = s"
  using cstr_bound[of m p s] by (intro nth_equalityI) (auto simp: cstr_iff rd_Some)

text \<open>C39: \<open>strlcpy\<close> always leaves a terminated string in a destination of positive size: the source, cut to
  \<open>SIZE - 1\<close> characters. It returns the length of the source and writes at most \<open>SIZE\<close> bytes.\<close>

theorem strlcpy_truncates:
  assumes s: "cstr m src s" and dst: "0 < dst" "0 < n" "dst + n \<le> length m"
    and sep: "dst + n \<le> src \<or> src + length s < dst"
  shows "\<exists>m'. strlcpy dst src n m = Some (length s, m') \<and> cstr m' dst (take (n - 1) s) \<and>
    length m' = length m \<and> (\<forall>i<length m. i < dst \<or> dst + n \<le> i \<longrightarrow> m' ! i = m ! i)"
proof -
  define k where "k = (if length s < n - 1 then length s else n - 1)"
  have k: "k \<le> length s" "k < n" "take (n - 1) s = take k s" using dst(2) by (auto simp: k_def)
  note b = cstr_bound[OF s] and nn = cstr_nonnull[OF s]
  have td: "take k (drop src m) = take k s"
    using cstr_take_drop[OF s] k(1) by (metis min.absorb1 take_take)
  have cp: "memcpy dst src k m = Some (dst, overlay m dst (take k s))"
    using memcpy_spec[of dst src k m] dst nn b k sep unfolding td by auto
  let ?o = "overlay m dst (take k s)"
  have lo: "length ?o = length m" using dst k by simp
  let ?m = "?o[dst + k := 0]"
  have no: "?o ! i = (if dst \<le> i \<and> i < dst + k then s ! (i - dst) else m ! i)" if "i < length m" for i
    using nth_overlay[of dst "take k s" m i] that dst k by auto
  have run: "strlcpy dst src n m = Some (length s, ?m)"
  proof -
    have "(if length s < n - 1 then length s else n - 1) = k" by (simp add: k_def)
    then show ?thesis using strlen_spec[OF s] cp dst nn k(2) lo unfolding strlcpy_def by (simp only: Let_def) (simp add: NULL_def wr_def)
  qed
  have "cstr ?m dst (take k s)"
    unfolding cstr_iff
  proof (intro conjI allI impI)
    fix i assume "i < length (take k s)"
    then have i: "i < k" "i < length s" using k(1) by simp_all
    have "s ! i \<noteq> 0" using s i(2) by (auto simp: cstr_iff)
    then show "rd ?m (dst + i) = Some (take k s ! i)" "take k s ! i \<noteq> 0"
      using dst k lo no[of "dst + i"] i by (simp_all add: rd_Some)
  qed (use dst k lo in \<open>simp add: rd_Some\<close>)
  moreover have "?m ! i = m ! i" if "i < length m" "i < dst \<or> dst + n \<le> i" for i
    using no[OF that(1)] that k lo by (auto simp: nth_list_update)
  moreover have "length ?m = length m" using lo by simp
  ultimately show ?thesis using run unfolding k(3) by blast
qed

theorem strlcpy_truncates_witness:
  "\<exists>m'. strlcpy 1 5 3 [0, 9, 9, 9, 9, 97, 98, 99, 0] = Some (3, m') \<and> cstr m' 1 [97, 98]"
proof -
  let ?m = "[0, 9, 9, 9, 9, 97, 98, 99, 0] :: byte list"
  have "cstr ?m 5 [97, 98, 99]" by (simp add: rd_def NULL_def)
  from strlcpy_truncates[OF this, of 1 3] show ?thesis by auto
qed

section \<open>Searching\<close>

lemma memcmp_loop_zero:
  "0 < a \<Longrightarrow> 0 < b \<Longrightarrow> a + n \<le> length m \<Longrightarrow> b + n \<le> length m \<Longrightarrow>
   \<exists>c. memcmp_loop n a b m = Some c \<and> (c = 0 \<longleftrightarrow> take n (drop a m) = take n (drop b m))"
proof (induction n arbitrary: a b)
  case (Suc n)
  have d: "take (Suc n) (drop p m) = m ! p # take n (drop (p + 1) m)" if "p + Suc n \<le> length m" for p
    using that by (subst Cons_nth_drop_Suc[symmetric]) simp_all
  show ?case using Suc.IH[of "a + 1" "b + 1"] Suc.prems by (auto simp: rd_def NULL_def d simp del: take_Suc_Cons)
qed simp

lemma strstr_loop_spec:
  assumes nd: "0 < nd" "nd + l \<le> length m"
  shows "0 < p \<Longrightarrow> p + (k - 1) + l \<le> length m \<Longrightarrow>
   strstr_loop k p nd l m = Some (case List.find (\<lambda>i. take l (drop (p + i) m) = take l (drop nd m)) [0..<k] of
     Some i \<Rightarrow> p + i | None \<Rightarrow> NULL)"
proof (induction k arbitrary: p)
  case (Suc k)
  let ?P = "\<lambda>p i. take l (drop (p + i) m) = take l (drop nd m)"
  obtain c where c: "memcmp_loop l p nd m = Some c" "c = 0 \<longleftrightarrow> ?P p 0"
    using memcmp_loop_zero[OF Suc.prems(1) nd(1), of l m] Suc.prems(2) nd(2) by auto
  have "List.find (?P p) [0..<Suc k] = (if ?P p 0 then Some 0 else List.find (?P p) (map Suc [0..<k]))"
    by (simp add: upt_conv_Cons map_Suc_upt del: upt_Suc)
  also have "List.find (?P p) (map Suc [0..<k]) = map_option Suc (List.find (?P (p + 1)) [0..<k])"
  proof -
    have "List.find Q (map Suc xs) = map_option Suc (List.find (Q \<circ> Suc) xs)" for Q xs by (induction xs) auto
    then show ?thesis by (simp add: comp_def)
  qed
  finally have f: "List.find (?P p) [0..<Suc k] = (if ?P p 0 then Some 0 else map_option Suc (List.find (?P (p + 1)) [0..<k]))" .
  show ?case
  proof (cases "?P p 0")
    case True
    then show ?thesis using c Suc.prems nd f by (simp add: memcmp_def NULL_def del: upt_Suc)
  next
    case False
    have "k = 0 \<or> p + 1 + (k - 1) + l \<le> length m" using Suc.prems(2) by auto
    then have "strstr_loop k (p + 1) nd l m = Some (case List.find (?P (p + 1)) [0..<k] of Some i \<Rightarrow> p + 1 + i | None \<Rightarrow> NULL)"
      using Suc.IH[of "p + 1"] by (cases "k = 0") auto
    then show ?thesis using False c Suc.prems nd f
      by (simp add: memcmp_def NULL_def del: upt_Suc split: option.split)
  qed
qed simp

text \<open>C36: \<open>strstr\<close> returns the address of the first occurrence of the needle in the haystack, and the
  null pointer when there is none; an empty needle is found at the start.\<close>

theorem strstr_first_occurrence:
  assumes h: "cstr m p hs" and n: "cstr m q ns"
  shows "strstr p q m = Some (case List.find (\<lambda>i. take (length ns) (drop i hs) = ns) [0..<Suc (length hs)] of
    Some i \<Rightarrow> p + i | None \<Rightarrow> NULL)"
proof (cases "length ns \<le> length hs")
  case False
  have "List.find (\<lambda>i. take (length ns) (drop i hs) = ns) [0..<Suc (length hs)] = None"
  proof -
    have "take (length ns) (drop i hs) \<noteq> ns" for i using False arg_cong[of "take (length ns) (drop i hs)" ns length] by auto
    then show ?thesis by (simp add: find_None_iff del: upt_Suc)
  qed
  then show ?thesis using strlen_spec[OF h] strlen_spec[OF n] False by (simp add: strstr_def)
next
  case True
  let ?k = "length hs - length ns + 1" and ?l = "length ns"
  note bh = cstr_bound[OF h] and bn = cstr_bound[OF n]
  have hm: "take ?l (drop (p + i) m) = take ?l (drop nd m) \<longleftrightarrow> take ?l (drop i hs) = ns" if "i < ?k" "nd = q" for i nd
  proof -
    have "take ?l (drop i hs) = take ?l (drop i (take (length hs) (drop p m)))" using cstr_take_drop[OF h] by simp
    also have "\<dots> = take ?l (drop (p + i) m)" using that(1) True by (simp add: drop_take min_def add.commute)
    finally show ?thesis using cstr_take_drop[OF n] that(2) by simp
  qed
  have "strstr p q m = strstr_loop ?k p q ?l m" using strlen_spec[OF h] strlen_spec[OF n] True by (simp add: strstr_def)
  also have "\<dots> = Some (case List.find (\<lambda>i. take ?l (drop (p + i) m) = take ?l (drop q m)) [0..<?k] of
      Some i \<Rightarrow> p + i | None \<Rightarrow> NULL)"
    using cstr_nonnull[OF h] cstr_nonnull[OF n] bh bn True by (intro strstr_loop_spec) auto
  also have "List.find (\<lambda>i. take ?l (drop (p + i) m) = take ?l (drop q m)) [0..<?k] =
      List.find (\<lambda>i. take ?l (drop i hs) = ns) [0..<?k]"
    using hm by (intro find_cong) auto
  also have "\<dots> = List.find (\<lambda>i. take ?l (drop i hs) = ns) [0..<Suc (length hs)]"
  proof -
    have s: "[0..<Suc (length hs)] = [0..<?k] @ [?k..<Suc (length hs)]"
      using True by (metis upt_add_eq_append le0 Suc_eq_plus1 add_le_mono1 diff_le_self le_add_diff_inverse)
    have no: "List.find (\<lambda>i. take ?l (drop i hs) = ns) [?k..<Suc (length hs)] = None"
    proof -
      have "take ?l (drop i hs) \<noteq> ns" if "?k \<le> i" "i < Suc (length hs)" for i
        using that arg_cong[of "take ?l (drop i hs)" ns length] True by auto
      then show ?thesis by (auto simp: find_None_iff simp del: upt_Suc)
    qed
    have "List.find P (xs @ ys) = List.find P xs" if "List.find P ys = None" for P and xs ys :: "nat list"
      using that by (induction xs) auto
    from this[OF no, of "[0..<?k]"] show ?thesis unfolding s by (rule sym)
  qed
  finally show ?thesis .
qed

theorem strstr_first_occurrence_witness: "strstr 1 5 [0, 97, 98, 98, 0, 98, 0] = Some 2"
proof -
  let ?m = "[0, 97, 98, 98, 0, 98, 0] :: byte list"
  have "cstr ?m 1 [97, 98, 98]" "cstr ?m 5 [98]" by (simp_all add: rd_def NULL_def)
  from strstr_first_occurrence[OF this] show ?thesis by (simp add: upt_rec)
qed

text \<open>\<open>strnlen\<close> looks at the byte behind the \<open>MAXLEN\<close> it may read: on a full buffer without a
  terminator that ends where the memory ends, it does not return.\<close>

theorem strnlen_reads_too_far:
  assumes "0 < s" "s + n = length m" "\<forall>i<n. m ! (s + i) \<noteq> 0"
  shows "strnlen s n (rd m) = None"
proof -
  have "k \<le> n \<Longrightarrow> strnlen_loop s n k (rd m) = None" for k
  proof (induction "n - k" arbitrary: k)
    case 0
    then show ?case using assms(2) by (subst strnlen_loop.simps) (simp add: rd_def)
  next
    case (Suc d)
    then show ?case using assms by (subst strnlen_loop.simps) (simp add: rd_def NULL_def)
  qed
  then show ?thesis by (simp add: strnlen_def)
qed

theorem strnlen_reads_too_far_witness: "strnlen 1 2 (rd [0, 97, 98]) = None"
proof -
  have "\<forall>i<2. [0, 97, 98 :: byte] ! (1 + i) \<noteq> 0"
  proof (intro allI impI)
    fix i :: nat assume "i < 2"
    then have "i = 0 \<or> i = 1" by auto
    then show "[0, 97, 98 :: byte] ! (1 + i) \<noteq> 0" by auto
  qed
  then show ?thesis by (intro strnlen_reads_too_far) simp_all
qed

section \<open>Tokens\<close>

lemma skip_delims_spec:
  assumes d: "cstr m d D"
  shows "cstr m p s \<Longrightarrow> skip_delims p d m = Some (dropWhile (\<lambda>c. c \<in> set D) s = [], p + length (takeWhile (\<lambda>c. c \<in> set D) s))"
proof (induction s arbitrary: p)
  case Nil
  obtain q where "strchr d 0 m = Some q" "q \<noteq> NULL" using strchr_null[OF d, of 0] by auto
  then show ?case using Nil by (subst skip_delims.simps) simp
next
  case (Cons c s)
  obtain q where q: "strchr d c m = Some q" "q = NULL \<longleftrightarrow> c \<notin> set D" using strchr_null[OF d, of c] Cons.prems by auto
  show ?case using q Cons.IH[of "p + 1"] Cons.prems by (subst skip_delims.simps) auto
qed

lemma skip_token_spec:
  assumes d: "cstr m d D"
  shows "cstr m p s \<Longrightarrow> skip_token p d m = Some (p + length (takeWhile (\<lambda>c. c \<notin> set D) s))"
proof (induction s arbitrary: p)
  case Nil
  obtain q where "strchr d 0 m = Some q" "q \<noteq> NULL" using strchr_null[OF d, of 0] by auto
  then show ?case using Nil by (subst skip_token.simps) simp
next
  case (Cons c s)
  obtain q where q: "strchr d c m = Some q" "q = NULL \<longleftrightarrow> c \<notin> set D" using strchr_null[OF d, of c] Cons.prems by auto
  show ?case using q Cons.IH[of "p + 1"] Cons.prems by (subst skip_token.simps) auto
qed

text \<open>One call: the rest of the string is \<open>s\<close>, and \<open>a\<close> is the address of its first character.\<close>

lemma strtok_r_spec:
  assumes d: "cstr m d D" and s: "cstr m a s" and sep: "d + length D < a \<or> a + length s < d"
    and start: "p = a \<or> p = NULL \<and> save = a"
  defines "r \<equiv> dropWhile (\<lambda>c. c \<in> set D) s"
  defines "tok \<equiv> takeWhile (\<lambda>c. c \<notin> set D) r"
  shows "if r = [] then strtok_r p d save m = Some (NULL, a + length s, m)
    else \<exists>t save' m'. strtok_r p d save m = Some (t, save', m') \<and> t \<noteq> NULL \<and> a \<le> t \<and> t + length tok \<le> save' \<and>
      save' + length (tl (dropWhile (\<lambda>c. c \<notin> set D) r)) = a + length s \<and>
      cstr m' t tok \<and> cstr m' save' (tl (dropWhile (\<lambda>c. c \<notin> set D) r)) \<and> length m' = length m \<and>
      (\<forall>i<length m. i < t + length tok \<or> t + length tok < i \<longrightarrow> m' ! i = m ! i) \<and> (t + length tok = save' \<or> t + length tok + 1 = save')"
proof -
  let ?w = "takeWhile (\<lambda>c. c \<in> set D) s" and ?z = "dropWhile (\<lambda>c. c \<notin> set D) r"
  have sw: "s = ?w @ r" unfolding r_def by simp
  have rw: "r = tok @ ?z" unfolding tok_def by simp
  have a0: "a \<noteq> NULL" "d \<noteq> NULL" using cstr_nonnull[OF s] cstr_nonnull[OF d] by (simp_all add: NULL_def)
  have st: "(if p = NULL then save else p) = a" using start a0(1) by auto
  note sd = skip_delims_spec[OF d s]
  show ?thesis
  proof (cases "r = []")
    case True
    then have "length ?w = length s" using sw by (metis append_Nil2)
    then show ?thesis using True sd a0 st unfolding r_def by (simp add: strtok_r_def Let_def)
  next
    case r: False
    let ?t = "a + length ?w"
    have "cstr m a (?w @ r)" using s sw by simp
    then have cr: "cstr m ?t r" unfolding cstr_append by simp
    then have "cstr m ?t (tok @ ?z)" using rw by simp
    note ap = this[unfolded cstr_append]
    let ?q = "?t + length tok"
    have q: "skip_token ?t d m = Some ?q" using skip_token_spec[OF d cr] by (simp add: tok_def)
    have len: "length s = length ?w + length tok + length ?z"
      using arg_cong[OF sw, of length] arg_cong[OF rw, of length] by simp
    show ?thesis
    proof (cases ?z)
      case Nil
      then have "rd m ?q = Some 0" using ap by (simp del: dropWhile_eq_Nil_conv)
      then have "strtok_r p d save m = Some (?t, ?q, m)"
        using sd r a0 st q unfolding r_def[symmetric] by (simp add: strtok_r_def Let_def)
      moreover have "cstr m ?t tok" "cstr m ?q []" using ap Nil by (simp_all add: cstr_iff)
      ultimately show ?thesis using r Nil len a0 by (auto simp: NULL_def simp del: dropWhile_eq_Nil_conv)
    next
      case (Cons c z)
      then have c: "rd m ?q = Some c" "c \<noteq> 0" "cstr m (?q + 1) z" using ap by simp_all
      let ?m = "m[?q := 0]"
      have qb: "?q < length m" "?q \<noteq> 0" using c(1) by (simp_all add: rd_Some)
      have "strtok_r p d save m = Some (?t, ?q + 1, ?m)"
        using sd r a0 st q c(1,2) qb unfolding r_def[symmetric] by (simp add: strtok_r_def Let_def wr_def NULL_def)
      moreover have "cstr ?m ?t tok"
        using ap qb by (auto simp: cstr_iff rd_Some)
      moreover have "cstr ?m (?q + 1) z" by (rule cstr_cong[OF c(3)]) simp_all
      ultimately show ?thesis using r Cons len a0 by (auto simp: NULL_def)
    qed
  qed
qed

text \<open>The loop around \<open>strtok_r\<close> that splits a whole string: \<open>filesys.c\<close> and \<open>process.c\<close> run it over
  paths and command lines.\<close>

partial_function (option) strtok_rest :: "addr \<Rightarrow> addr \<Rightarrow> mem \<Rightarrow> (addr list \<times> mem) option" where
  "strtok_rest save d m =
     Option.bind (strtok_r NULL d save m) (\<lambda>(t, save, m).
       if t = NULL then Some ([], m)
       else Option.bind (strtok_rest save d m) (\<lambda>(ts, m). Some (t # ts, m)))"

definition strtok_all :: "addr \<Rightarrow> addr \<Rightarrow> mem \<Rightarrow> (addr list \<times> mem) option" where
  "strtok_all s d m = do {
     (t, save, m) \<leftarrow> strtok_r s d NULL m;
     if t = NULL then Some ([], m)
     else do { (ts, m) \<leftarrow> strtok_rest save d m; Some (t # ts, m) } }"

lemma tokens_tl: "tokens D (tl (dropWhile (\<lambda>c. c \<notin> D) r)) = tokens D (dropWhile (\<lambda>c. c \<notin> D) r)"
proof (cases "dropWhile (\<lambda>c. c \<notin> D) r")
  case (Cons c z)
  then have "c \<in> D" by (metis hd_dropWhile list.discI list.sel(1))
  then show ?thesis using Cons by (subst (1 2) tokens.simps) simp
qed (simp del: dropWhile_eq_Nil_conv)

lemma strtok_rest_spec:
  assumes "cstr m d D" "cstr m a s" "d + length D < a \<or> a + length s < d"
  shows "\<exists>ts m'. strtok_rest a d m = Some (ts, m') \<and> list_all2 (cstr m') ts (tokens (set D) s) \<and> length m' = length m \<and>
    (\<forall>i<length m. i < a \<or> a + length s \<le> i \<longrightarrow> m' ! i = m ! i)"
  using assms
proof (induction "length s" arbitrary: s a m rule: less_induct)
  case less
  let ?r = "dropWhile (\<lambda>c. c \<in> set D) s"
  let ?tok = "takeWhile (\<lambda>c. c \<notin> set D) ?r" and ?z = "tl (dropWhile (\<lambda>c. c \<notin> set D) ?r)"
  note sp = strtok_r_spec[OF less.prems, of NULL a]
  show ?case
  proof (cases "?r = []")
    case True
    then have "tokens (set D) s = []" by (subst tokens.simps) simp
    then show ?thesis using sp True by (subst strtok_rest.simps) simp
  next
    case r: False
    obtain t save m1 where c: "strtok_r NULL d a m = Some (t, save, m1)" "t \<noteq> NULL" "a \<le> t" "t + length ?tok \<le> save"
      "save + length ?z = a + length s" "cstr m1 t ?tok" "cstr m1 save ?z" "length m1 = length m"
      "\<forall>i<length m. i < t + length ?tok \<or> t + length ?tok < i \<longrightarrow> m1 ! i = m ! i"
      "t + length ?tok = save \<or> t + length ?tok + 1 = save"
      using sp unfolding if_not_P[OF r] by blast
    have "?tok \<noteq> []" using r by (metis hd_dropWhile takeWhile_eq_Nil_iff)
    then have short: "length ?z < length s" using c(3-5) by (cases ?tok) auto
    have "cstr m1 d D" by (rule cstr_cong[OF less.prems(1) c(8)])
      (use c(3,4,5,9,10) less.prems(3) cstr_bound[OF less.prems(1)] in auto)
    moreover have "d + length D < save \<or> save + length ?z < d" using less.prems(3) c(3-5) by linarith
    ultimately obtain ts m' where IH: "strtok_rest save d m1 = Some (ts, m')" "list_all2 (cstr m') ts (tokens (set D) ?z)"
      "length m' = length m1" "\<forall>i<length m1. i < save \<or> save + length ?z \<le> i \<longrightarrow> m' ! i = m1 ! i"
      using less.hyps[OF short, of m1 save] c(7) by blast
    have "tokens (set D) s = ?tok # tokens (set D) ?z"
      using r tokens_tl[of "set D" ?r] by (subst tokens.simps) (simp add: Let_def)
    moreover have "cstr m' t ?tok"
    proof (rule cstr_cong[OF c(6) IH(3)], intro allI impI)
      fix i assume i: "i \<le> length ?tok"
      have bnd: "t + i < length m1" using cstr_bound[OF c(6)] i by simp
      show "m' ! (t + i) = m1 ! (t + i)"
      proof (cases "t + i < save")
        case False
        then have q: "t + length ?tok = save" "t + i = save" using i c(4) by linarith+
        have "rd m1 save = Some 0" using c(6) q(1) unfolding cstr_iff by simp
        then have "?z = []" using c(7) by (cases ?z) auto
        then show ?thesis using IH(4) bnd q(2) by simp
      qed (use IH(4) bnd in simp)
    qed
    moreover have "m' ! i = m ! i" if i: "i < length m" "i < a \<or> a + length s \<le> i" for i
    proof -
      have "m' ! i = m1 ! i" using IH(4) c(3,4,5,8) i by auto
      also have "m1 ! i = m ! i"
      proof (cases "i = t + length ?tok")
        case True
        then have e: "i = a + length s" using c(3,4,5) i(2) by linarith
        have "rd m1 i = Some 0" "rd m i = Some 0" using c(6) less.prems(2) True e unfolding cstr_iff by simp_all
        then show ?thesis by (simp add: rd_Some)
      qed (use c(9) i in auto)
      finally show ?thesis .
    qed
    ultimately show ?thesis using c(1,2,8) IH(1-3) by (subst strtok_rest.simps) simp
  qed
qed

definition same_off :: "mem \<Rightarrow> mem \<Rightarrow> addr \<Rightarrow> addr \<Rightarrow> bool" where
  "same_off m m' p q \<longleftrightarrow> length m' = length m \<and> (\<forall>i<length m. i < p \<or> q \<le> i \<longrightarrow> m' ! i = m ! i)"

lemma same_off_refl: "same_off m m p q"
  by (simp add: same_off_def)

lemma same_off_trans: "same_off m m1 p q \<Longrightarrow> same_off m1 m2 p q \<Longrightarrow> same_off m m2 p q"
  by (simp add: same_off_def)

lemma same_off_mono: "same_off m m' p q \<Longrightarrow> p' \<le> p \<Longrightarrow> q \<le> q' \<Longrightarrow> same_off m m' p' q'"
  by (simp add: same_off_def)

lemma same_offD: "same_off m m' p q \<Longrightarrow> i < length m \<Longrightarrow> i < p \<or> q \<le> i \<Longrightarrow> m' ! i = m ! i"
  unfolding same_off_def by blast

lemma same_off_cstr:
  assumes "same_off m m' p q" "cstr m a s" "a + length s < p \<or> q \<le> a"
  shows "cstr m' a s"
proof (rule cstr_cong[OF assms(2)])
  show "length m' = length m" using assms(1) by (simp add: same_off_def)
  show "\<forall>i\<le>length s. m' ! (a + i) = m ! (a + i)"
    using assms(3) cstr_bound[OF assms(2)] by (auto intro!: same_offD[OF assms(1)])
qed

lemma tokens_Nil: "dropWhile (\<lambda>c. c \<in> D) s = [] \<Longrightarrow> tokens D s = []"
  by (subst tokens.simps) simp

lemma tokens_Cons: "dropWhile (\<lambda>c. c \<in> D) s = r \<Longrightarrow> r \<noteq> [] \<Longrightarrow>
    tokens D s = takeWhile (\<lambda>c. c \<notin> D) r # tokens D (tl (dropWhile (\<lambda>c. c \<notin> D) r))"
  by (subst tokens.simps) (simp add: Let_def tokens_tl)

text \<open>One round of the loop that splits a string.\<close>

lemma strtok_r_round:
  assumes d: "cstr m d D" and s: "cstr m a s" and dis: "d + length D < a \<or> a + length s < d"
  shows "(tokens (set D) s = [] \<and> strtok_r NULL d a m = Some (NULL, a + length s, m)) \<or>
    (\<exists>t save m1 tok z. strtok_r NULL d a m = Some (t, save, m1) \<and> t \<noteq> NULL \<and> tokens (set D) s = tok # tokens (set D) z \<and>
      a \<le> t \<and> t + length tok \<le> save \<and> save + length z = a + length s \<and> length z < length s \<and> cstr m1 t tok \<and> cstr m1 save z \<and>
      (save = t + length tok \<longrightarrow> z = []) \<and> same_off m m1 a (a + length s))"
proof -
  let ?r = "dropWhile (\<lambda>c. c \<in> set D) s"
  let ?tok = "takeWhile (\<lambda>c. c \<notin> set D) ?r" and ?z = "tl (dropWhile (\<lambda>c. c \<notin> set D) ?r)"
  note sp = strtok_r_spec[OF d s dis, of NULL a]
  show ?thesis
  proof (cases "?r = []")
    case True
    then show ?thesis using sp tokens_Nil[OF True] by simp
  next
    case r: False
    obtain t save m1 where c: "strtok_r NULL d a m = Some (t, save, m1)" "t \<noteq> NULL" "a \<le> t" "t + length ?tok \<le> save"
      "save + length ?z = a + length s" "cstr m1 t ?tok" "cstr m1 save ?z" "length m1 = length m"
      "\<forall>i<length m. i < t + length ?tok \<or> t + length ?tok < i \<longrightarrow> m1 ! i = m ! i"
      "t + length ?tok = save \<or> t + length ?tok + 1 = save"
      using sp unfolding if_not_P[OF r] by blast
    have "?tok \<noteq> []" using r by (metis hd_dropWhile takeWhile_eq_Nil_iff)
    then have tl: "0 < length ?tok" by simp
    then have short: "length ?z < length s" using c(3-5) by linarith
    have z: "?z = []" if "save = t + length ?tok"
    proof -
      have "rd m1 save = Some 0" using c(6) that unfolding cstr_iff by simp
      then show ?thesis using c(7) by (cases ?z) auto
    qed
    have "same_off m m1 a (a + length s)"
    proof -
      have "m1 ! i = m ! i" if i: "i < length m" "i < a \<or> a + length s \<le> i" for i
      proof (cases "i = t + length ?tok")
        case True
        then have e: "i = a + length s" using c(3,4,5) i(2) by linarith
        have "rd m1 i = Some 0" "rd m i = Some 0" using c(6) s True e unfolding cstr_iff by simp_all
        then show ?thesis by (simp add: rd_Some)
      qed (use c(9) i in auto)
      then show ?thesis using c(8) by (simp add: same_off_def)
    qed
    then show ?thesis
      using c(1-7) tokens_Cons[OF refl r] short z
      by (intro disjI2 exI[of _ t] exI[of _ save] exI[of _ m1] exI[of _ ?tok] exI[of _ ?z]) blast
  qed
qed

text \<open>C29: splitting a string with \<open>strtok_r\<close> until it returns the null pointer ends, and the tokens it
  returned are the longest pieces without delimiters, in order, each of them a terminated string in
  the buffer at the end; outside the string the memory is unchanged.\<close>

theorem strtok_r_tokenises:
  assumes "cstr m d D" "cstr m s str" "d + length D < s \<or> s + length str < d"
  shows "\<exists>ts m'. strtok_all s d m = Some (ts, m') \<and> list_all2 (cstr m') ts (tokens (set D) str) \<and>
    length m' = length m \<and> (\<forall>i<length m. i < s \<or> s + length str \<le> i \<longrightarrow> m' ! i = m ! i)"
proof -
  have "strtok_all s d m = strtok_rest s d m"
    using cstr_nonnull[OF assms(2)] unfolding strtok_all_def
    by (subst strtok_rest.simps) (simp add: strtok_r_def NULL_def)
  then show ?thesis using strtok_rest_spec[OF assms] by simp
qed

text \<open>\<open>"/a//b"\<close> at \<open>"/"\<close>.\<close>

theorem strtok_r_tokenises_witness:
  "\<exists>ts m'. strtok_all 3 1 [0, 47, 0, 47, 97, 47, 47, 98, 0] = Some (ts, m') \<and> list_all2 (cstr m') ts [[97], [98]]"
proof -
  let ?m = "[0, 47, 0, 47, 97, 47, 47, 98, 0] :: byte list"
  have "cstr ?m 1 [47]" "cstr ?m 3 [47, 97, 47, 47, 98]" by (simp_all add: rd_def NULL_def)
  moreover have "tokens {47} [47, 97, 47, 47, 98] = [[97], [98 :: byte]]" by (simp add: tokens.simps)
  ultimately show ?thesis using strtok_r_tokenises[of ?m 1 "[47]" 3 "[47, 97, 47, 47, 98]"] by auto
qed

end
