(* ===== verification/Args.thy ===== *)
theory Args
  imports Palloc StringProps
begin

text \<open>
  The arguments of a new process, \<open>push\<close>, \<open>reverse\<close> and \<open>init_cmd_line\<close> of \<open>userprog/process.c\<close>.
  They work on a memory of bytes as the string library does; \<open>kpage\<close>, \<open>cmd_line\<close> and the literal
  \<open>" "\<close> are addresses in it, while \<open>upage\<close> is the user address at which the page will be mapped.
\<close>

section \<open>Reading and writing blocks\<close>

primrec wr_bytes :: "mem \<Rightarrow> addr \<Rightarrow> byte list \<Rightarrow> mem option" where
  "wr_bytes m p [] = Some m"
| "wr_bytes m p (b # bs) = do { m \<leftarrow> wr m p b; wr_bytes m (p + 1) bs }"

primrec rd_bytes :: "mem \<Rightarrow> addr \<Rightarrow> nat \<Rightarrow> byte list option" where
  "rd_bytes m p 0 = Some []"
| "rd_bytes m p (Suc n) = do { b \<leftarrow> rd m p; bs \<leftarrow> rd_bytes m (p + 1) n; Some (b # bs) }"

section \<open>The code\<close>

definition ROUND_UP :: "32 word \<Rightarrow> 32 word \<Rightarrow> 32 word" where
  "ROUND_UP x step = (x + step - 1) div step * step"

function reverse :: "nat \<Rightarrow> addr \<Rightarrow> mem \<Rightarrow> mem option" where
  "reverse argc argv m =
     (if argc > 1 then do {
        tmp \<leftarrow> rd_bytes m argv 4;
        x \<leftarrow> rd_bytes m (argv + 4 * (argc - 1)) 4;
        m \<leftarrow> wr_bytes m argv x;
        m \<leftarrow> wr_bytes m (argv + 4 * (argc - 1)) tmp;
        reverse (argc - 2) (argv + 4) m }
      else Some m)"
  by pat_completeness auto
termination by (relation "measure fst") auto

declare reverse.simps [simp del]

text \<open>The result is the address of the object, or the null pointer, the new offset and the memory.\<close>

definition push :: "addr \<Rightarrow> nat \<Rightarrow> byte list \<Rightarrow> mem \<Rightarrow> (addr \<times> nat \<times> mem) option" where
  "push kpage ofs buf m = (
     let size = length buf; padsize = unat (ROUND_UP (word_of_nat size) 4) in
     if ofs < padsize then Some (NULL, ofs, m)
     else do {
       let ofs = ofs - padsize;
       m \<leftarrow> wr_bytes m (kpage + ofs + (padsize - size)) buf;
       Some (kpage + ofs + (padsize - size), ofs, m) })"

text \<open>The loop over the tokens of the copy.\<close>

partial_function (option) push_args ::
    "vaddr \<Rightarrow> addr \<Rightarrow> addr \<Rightarrow> nat \<Rightarrow> nat \<Rightarrow> addr \<times> addr \<times> mem \<Rightarrow> (bool \<times> nat \<times> nat \<times> mem) option" where
  "push_args upage kpage d ofs argc kargs = (case kargs of (karg, saveptr, m) \<Rightarrow>
     if karg = NULL then Some (True, ofs, argc, m)
     else Option.bind (push kpage ofs (le32 (unat (upage + word_of_nat (karg - kpage)))) m) (\<lambda>(p, ofs, m).
       if p = NULL then Some (False, ofs, argc, m)
       else Option.bind (strtok_r NULL d saveptr m) (\<lambda>kargs. push_args upage kpage d ofs (argc + 1) kargs)))"

text \<open>The result is \<open>*esp\<close>, or \<^const>\<open>None\<close> for \<open>false\<close>.\<close>

definition init_cmd_line :: "addr \<Rightarrow> vaddr \<Rightarrow> addr \<Rightarrow> addr \<Rightarrow> mem \<Rightarrow> (vaddr option \<times> mem) option" where
  "init_cmd_line kpage upage cmd_line d m = do {
     n \<leftarrow> strlen cmd_line m;
     buf \<leftarrow> rd_bytes m cmd_line (n + 1);
     (cmd_line_copy, ofs, m) \<leftarrow> push kpage PGSIZE buf m;
     if cmd_line_copy = NULL then Some (None, m)
     else do {
       (p, ofs, m) \<leftarrow> push kpage ofs (le32 0) m;
       if p = NULL then Some (None, m)
       else do {
         kargs \<leftarrow> strtok_r cmd_line_copy d NULL m;
         (ok, ofs, argc, m) \<leftarrow> push_args upage kpage d ofs 0 kargs;
         if \<not> ok then Some (None, m)
         else do {
           let argv = upage + word_of_nat ofs;
           m \<leftarrow> reverse argc (kpage + ofs) m;
           (p, ofs, m) \<leftarrow> push kpage ofs (le32 (unat argv)) m;
           if p = NULL then Some (None, m)
           else do {
             (p, ofs, m) \<leftarrow> push kpage ofs (le32 argc) m;
             if p = NULL then Some (None, m)
             else do {
               (p, ofs, m) \<leftarrow> push kpage ofs (le32 0) m;
               if p = NULL then Some (None, m)
               else Some (Some (upage + word_of_nat ofs), m) } } } } } }"

section \<open>Blocks\<close>

definition holds_at :: "mem \<Rightarrow> addr \<Rightarrow> byte list \<Rightarrow> bool" where
  "holds_at m p bs \<longleftrightarrow> p + length bs \<le> length m \<and> (\<forall>i<length bs. m ! (p + i) = bs ! i)"

lemma holds_at_append: "holds_at m p (as @ bs) \<longleftrightarrow> holds_at m p as \<and> holds_at m (p + length as) bs"
proof -
  have "(\<forall>i<length as + length bs. m ! (p + i) = (as @ bs) ! i) \<longleftrightarrow>
    (\<forall>i<length as. m ! (p + i) = as ! i) \<and> (\<forall>i<length bs. m ! (p + (length as + i)) = bs ! i)" (is "?l = ?r")
  proof
    assume l: ?l
    have "m ! (p + i) = as ! i" if "i < length as" for i using l[rule_format, of i] that by (simp add: nth_append)
    moreover have "m ! (p + (length as + i)) = bs ! i" if "i < length bs" for i using l[rule_format, of "length as + i"] that by simp
    ultimately show ?r by blast
  next
    assume r: ?r
    show ?l
    proof (intro allI impI)
      fix i assume i: "i < length as + length bs"
      show "m ! (p + i) = (as @ bs) ! i"
      proof (cases "i < length as")
        case False
        define j where "j = i - length as"
        have "i = length as + j" "j < length bs" using False i by (simp_all add: j_def)
        then show ?thesis using r by simp
      qed (use r in \<open>simp add: nth_append\<close>)
    qed
  qed
  then show ?thesis by (auto simp: holds_at_def add.assoc)
qed

lemma holds_at_cong:
  "holds_at m p bs \<Longrightarrow> length m' = length m \<Longrightarrow> (\<And>i. p \<le> i \<Longrightarrow> i < p + length bs \<Longrightarrow> m' ! i = m ! i) \<Longrightarrow> holds_at m' p bs"
  by (simp add: holds_at_def)

lemma holds_overlay: "p + length bs \<le> length m \<Longrightarrow> holds_at (overlay m p bs) p bs"
  by (simp add: holds_at_def nth_overlay)

lemma wr_bytes_spec: "p \<noteq> 0 \<Longrightarrow> p + length bs \<le> length m \<Longrightarrow> wr_bytes m p bs = Some (overlay m p bs)"
proof (induction bs arbitrary: m p)
  case (Cons b bs)
  have "overlay (m[p := b]) (p + 1) bs = overlay m p (b # bs)"
    using Cons.prems by (intro nth_equalityI) (auto simp: nth_overlay nth_Cons')
  then show ?case using Cons by (simp add: wr_def NULL_def)
qed (simp add: overlay_def)

lemma rd_bytes_spec: "holds_at m p bs \<Longrightarrow> p \<noteq> 0 \<Longrightarrow> rd_bytes m p (length bs) = Some bs"
proof (induction bs arbitrary: p)
  case (Cons b bs)
  then have "holds_at m p ([b] @ bs)" by simp
  then have "holds_at m p [b]" "holds_at m (p + 1) bs" unfolding holds_at_append by simp_all
  then show ?case using Cons by (simp add: holds_at_def rd_def NULL_def)
qed simp

lemma rd_bytes_4: "holds_at m p bs \<Longrightarrow> p \<noteq> 0 \<Longrightarrow> length bs = 4 \<Longrightarrow> rd_bytes m p 4 = Some bs"
  using rd_bytes_spec[of m p bs] by simp

text \<open>\<open>m'\<close> is \<open>m\<close> except for the addresses from \<open>p\<close> up to \<open>q\<close>.\<close>

lemma same_off_overlay: "p + length bs \<le> length m \<Longrightarrow> same_off m (overlay m p bs) p (p + length bs)"
  unfolding same_off_def by (intro conjI allI impI, simp) (subst nth_overlay, simp_all, linarith)

lemma same_off_holds:
  assumes "same_off m m' p q" "holds_at m a bs" "a + length bs \<le> p \<or> q \<le> a"
  shows "holds_at m' a bs"
proof (rule holds_at_cong[OF assms(2)])
  show "length m' = length m" using assms(1) by (simp add: same_off_def)
  fix i assume i: "a \<le> i" "i < a + length bs"
  then have "i < length m" "i < p \<or> q \<le> i" using assms(2,3) by (auto simp: holds_at_def)
  then show "m' ! i = m ! i" by (rule same_offD[OF assms(1)])
qed

section \<open>Reversing\<close>

lemma concat_length4: "(\<forall>x\<in>set xs. length x = 4) \<Longrightarrow> length (concat xs) = 4 * length (xs :: 'a list list)"
  by (induction xs) auto

lemma reverse_spec:
  assumes "holds_at m p (concat xs)" "\<forall>x\<in>set xs. length x = 4" "p \<noteq> 0"
  shows "\<exists>m'. reverse (length xs) p m = Some m' \<and> holds_at m' p (concat (rev xs)) \<and> same_off m m' p (p + 4 * length xs)"
  using assms
proof (induction "length xs" arbitrary: xs p m rule: less_induct)
  case less
  show ?case
  proof (cases "length xs \<le> 1")
    case True
    then have "rev xs = xs" by (cases xs) auto
    then show ?thesis using True less.prems(1) same_off_refl by (subst reverse.simps) simp
  next
    case False
    then obtain x ys where xs: "xs = x # ys" "ys \<noteq> []" by (cases xs) auto
    obtain zs y where ys: "ys = zs @ [y]" using xs(2) by (cases ys rule: rev_cases) auto
    let ?n = "4 * length zs"
    have l: "length x = 4" "length y = 4" "\<forall>z\<in>set zs. length z = 4" "length (concat zs) = ?n"
      using less.prems(2) concat_length4[of zs] by (auto simp: xs ys)
    define e where "e = p + 4 + ?n"
    have h: "holds_at m p x" "holds_at m (p + 4) (concat zs)" "holds_at m e y"
      using less.prems(1) l by (simp_all add: xs ys holds_at_append e_def)
    have q: "p + 4 * (length xs - 1) = e" by (simp add: xs ys e_def)
    have bnd: "p + 4 \<le> e" "e + 4 \<le> length m" "p \<noteq> 0" "e \<noteq> 0"
      using h(3) l(2) less.prems(3) by (simp_all add: holds_at_def e_def)
    let ?m1 = "overlay m p y" let ?m2 = "overlay ?m1 e x"
    have len1: "length ?m1 = length m" using bnd l(2) by (intro length_overlay) simp
    have s1: "same_off m ?m1 p (p + 4)" using same_off_overlay[of p y m] bnd l(2) by simp
    have s2: "same_off ?m1 ?m2 e (e + 4)" using same_off_overlay[of e x ?m1] bnd l(1) len1 by simp
    have w: "wr_bytes m p y = Some ?m1" "wr_bytes ?m1 e x = Some ?m2"
      using bnd l len1 by (simp_all add: wr_bytes_spec)
    have r: "rd_bytes m p 4 = Some x" "rd_bytes m e 4 = Some y"
      using rd_bytes_4[OF h(1)] rd_bytes_4[OF h(3)] bnd l by simp_all
    have hz: "holds_at ?m2 (p + 4) (concat zs)"
      using same_off_holds[OF s2 same_off_holds[OF s1 h(2)]] l(4) e_def by simp
    have hy: "holds_at ?m2 p y"
      using same_off_holds[OF s2 holds_overlay[of p y m]] bnd l(2) by simp
    have hx: "holds_at ?m2 e x" using holds_overlay[of e x ?m1] bnd l(1) len1 by simp
    have sz: "length zs < length xs" "p + 4 \<noteq> 0" by (simp_all add: xs ys)
    obtain m' where m': "reverse (length zs) (p + 4) ?m2 = Some m'" "holds_at m' (p + 4) (concat (rev zs))"
        "same_off ?m2 m' (p + 4) (p + 4 + ?n)"
      using less.hyps[OF sz(1) hz l(3) sz(2)] by blast
    have "reverse (length xs) p m = Some m'"
      using False r w m'(1) unfolding q[symmetric] by (subst reverse.simps) (simp add: xs ys)
    moreover have "holds_at m' p (concat (rev xs))"
      using same_off_holds[OF m'(3) hy] same_off_holds[OF m'(3) hx] m'(2) l concat_length4[of "rev zs"]
      by (simp add: xs ys holds_at_append e_def)
    moreover have "same_off m m' p (p + 4 * length xs)"
      using same_off_trans[OF same_off_trans[OF same_off_mono[OF s1] same_off_mono[OF s2]] same_off_mono[OF m'(3)],
          of p "p + 4 * length xs"] by (simp add: xs ys e_def)
    ultimately show ?thesis by blast
  qed
qed

section \<open>Pushing\<close>

lemma ROUND_UP_4: "n \<le> 8192 \<Longrightarrow> unat (ROUND_UP (word_of_nat n) 4) = (n + 3) div 4 * 4"
proof -
  assume n: "n \<le> 8192"
  have "word_of_nat n + 4 - 1 = (word_of_nat (n + 3) :: 32 word)" by simp
  then have e: "ROUND_UP (word_of_nat n) 4 = word_of_nat (n + 3) div 4 * 4" by (simp only: ROUND_UP_def)
  have u: "unat (word_of_nat (n + 3) div 4 :: 32 word) = (n + 3) div 4"
    using n by (simp add: unat_div unat_of_nat del: of_nat_add)
  have "(n + 3) div 4 * 4 < 2 ^ 32" using n by simp
  then show ?thesis unfolding e using unat_mult_lem[of "word_of_nat (n + 3) div 4 :: 32 word" 4] u by simp
qed

lemma push_spec:
  assumes "k \<noteq> 0" "ofs \<le> 4096" "k + 4096 \<le> length m" "length buf \<le> 8192"
  shows "push k ofs buf m = (if ofs < (length buf + 3) div 4 * 4 then Some (NULL, ofs, m)
    else Some (k + ofs - length buf, ofs - (length buf + 3) div 4 * 4, overlay m (k + ofs - length buf) buf))"
proof -
  let ?P = "(length buf + 3) div 4 * 4"
  have P: "length buf \<le> ?P" by simp
  have a: "k + (ofs - ?P) + (?P - length buf) = k + ofs - length buf" if "\<not> ofs < ?P" using that P by simp
  have w: "wr_bytes m (k + ofs - length buf) buf = Some (overlay m (k + ofs - length buf) buf)" if "\<not> ofs < ?P"
    using that P assms(1-3) by (intro wr_bytes_spec) linarith+
  show ?thesis
  proof (cases "ofs < ?P")
    case False
    then show ?thesis unfolding push_def ROUND_UP_4[OF assms(4)] Let_def a[OF False] w[OF False] by simp
  qed (simp add: push_def ROUND_UP_4[OF assms(4)])
qed

lemma push_4:
  assumes "k \<noteq> 0" "ofs \<le> 4096" "k + 4096 \<le> length m" "length buf = 4"
  shows "push k ofs buf m = (if ofs < 4 then Some (NULL, ofs, m) else Some (k + (ofs - 4), ofs - 4, overlay m (k + (ofs - 4)) buf))"
  using push_spec[of k ofs m buf] assms by simp

section \<open>The tokens\<close>

definition uptr :: "vaddr \<Rightarrow> addr \<Rightarrow> addr \<Rightarrow> byte list" where
  "uptr upage kpage t = le32 (unat (upage + word_of_nat (t - kpage)))"

lemma length_uptr [simp]: "length (uptr u k t) = 4"
  by (simp add: uptr_def)

text \<open>The whole loop: the pointers to the tokens go below \<open>ofs\<close>, the last token lowest.\<close>

definition args_pushed :: "vaddr \<Rightarrow> addr \<Rightarrow> nat \<Rightarrow> addr \<Rightarrow> byte list \<Rightarrow> mem \<Rightarrow> addr list \<Rightarrow> mem \<Rightarrow> bool" where
  "args_pushed u k ofs a s m ts m' \<longleftrightarrow> list_all2 (cstr m') ts (tokens {32} s) \<and> (\<forall>t\<in>set ts. a \<le> t \<and> t < k + 4096) \<and>
     holds_at m' (k + (ofs - 4 * length ts)) (concat (rev (map (uptr u k) ts))) \<and> length m' = length m \<and>
     (\<forall>i<length m. i \<notin> {k + (ofs - 4 * length ts)..<k + ofs} \<union> {a..<a + length s} \<longrightarrow> m' ! i = m ! i)"

lemma push_args_NULL: "push_args u k d ofs argc (NULL, sv, m) = Some (True, ofs, argc, m)"
  by (subst push_args.simps) simp

lemma push_args_step: "t \<noteq> NULL \<Longrightarrow> k \<noteq> 0 \<Longrightarrow> ofs \<le> 4096 \<Longrightarrow> k + 4096 \<le> length m \<Longrightarrow> push_args u k d ofs argc (t, sv, m) =
    (if ofs < 4 then Some (False, ofs, argc, m)
     else Option.bind (strtok_r NULL d sv (overlay m (k + (ofs - 4)) (uptr u k t))) (push_args u k d (ofs - 4) (argc + 1)))"
  by (subst push_args.simps) (simp add: push_4 uptr_def[symmetric] NULL_def)

lemma same_off_overlay4:
  assumes "length b = 4" "4 \<le> ofs" "ofs \<le> 4096" "k + 4096 \<le> length m"
  shows "same_off m (overlay m (k + (ofs - 4)) b) (k + (ofs - 4)) (k + ofs)"
  using same_off_overlay[of "k + (ofs - 4)" b m] assms by simp

lemma push_args_spec:
  assumes "cstr m d [32]" "cstr m a s" "k \<noteq> 0" "ofs \<le> 4096" "k + ofs \<le> a" "a + length s < k + 4096" "k + 4096 \<le> length m"
    "d + 1 < k \<or> k + 4096 \<le> d"
  shows "if 4 * length (tokens {32} s) \<le> ofs
    then \<exists>ts m'. Option.bind (strtok_r NULL d a m) (push_args u k d ofs argc) =
        Some (True, ofs - 4 * length ts, argc + length ts, m') \<and> args_pushed u k ofs a s m ts m'
    else \<exists>ofs' argc' m'. Option.bind (strtok_r NULL d a m) (push_args u k d ofs argc) = Some (False, ofs', argc', m') \<and>
        same_off m m' k (k + 4096)"
  using assms
proof (induction "length s" arbitrary: s a m ofs argc rule: less_induct)
  case less
  note pr = less.prems
  have dis: "d + length [32 :: byte] < a \<or> a + length s < d" using pr(5,6,8) by auto
  from strtok_r_round[OF pr(1,2) dis] consider
      (none) "tokens {32} s = []" "strtok_r NULL d a m = Some (NULL, a + length s, m)"
    | (some) t sv m1 tok z where "strtok_r NULL d a m = Some (t, sv, m1)" "t \<noteq> NULL" "tokens {32} s = tok # tokens {32} z"
      "a \<le> t" "t + length tok \<le> sv" "sv + length z = a + length s" "length z < length s" "cstr m1 t tok" "cstr m1 sv z"
      "sv = t + length tok \<longrightarrow> z = []" "same_off m m1 a (a + length s)"
    by auto
  then show ?case
  proof cases
    case none
    have "args_pushed u k ofs a s m [] m" using none(1) pr by (auto simp: args_pushed_def holds_at_def)
    then show ?thesis using none by (auto simp: push_args_NULL intro!: exI[of _ "[]"])
  next
    case some
    have len1: "length m1 = length m" and kl: "k + 4096 \<le> length m1" using some(11) pr(7) by (simp_all add: same_off_def)
    have m1: "same_off m m1 k (k + 4096)" by (rule same_off_mono[OF some(11)]) (use pr in simp_all)
    note st = push_args_step[OF some(2) pr(3,4) kl, of u d argc sv]
    show ?thesis
    proof (cases "ofs < 4")
      case True
      then show ?thesis using some(1,3) st m1 by simp
    next
      case False
      let ?m2 = "overlay m1 (k + (ofs - 4)) (uptr u k t)"
      have s2: "same_off m1 ?m2 (k + (ofs - 4)) (k + ofs)" using same_off_overlay4[of "uptr u k t" ofs k m1] False pr(4) kl by simp
      have h2: "holds_at ?m2 (k + (ofs - 4)) (uptr u k t)" using holds_overlay[of "k + (ofs - 4)" "uptr u k t" m1] kl False pr(4) by simp
      have len2: "length ?m2 = length m" using s2 len1 by (simp add: same_off_def)
      have m2: "same_off m ?m2 k (k + 4096)" by (rule same_off_trans[OF m1 same_off_mono[OF s2]]) (use pr in simp_all)
      have c1: "cstr ?m2 sv z" by (rule same_off_cstr[OF s2 some(9)]) (use pr some in simp)
      have c2: "cstr ?m2 d [32]" by (rule same_off_cstr[OF m2 pr(1)]) (use pr(8) in simp)
      have c3: "cstr ?m2 t tok" by (rule same_off_cstr[OF s2 some(8)]) (use pr some in simp)
      have b: "ofs - 4 \<le> 4096" "k + (ofs - 4) \<le> sv" "sv + length z < k + 4096" "k + 4096 \<le> length ?m2" using pr some len2 by simp_all
      note IH = less.hyps[OF some(7) c2 c1 pr(3) b pr(8), of "argc + 1"]
      have run: "Option.bind (strtok_r NULL d a m) (push_args u k d ofs argc) =
          Option.bind (strtok_r NULL d sv ?m2) (push_args u k d (ofs - 4) (argc + 1))"
        using some(1) st False by simp
      show ?thesis
      proof (cases "4 * length (tokens {32} z) \<le> ofs - 4")
        case True
        obtain ts m' where i: "Option.bind (strtok_r NULL d sv ?m2) (push_args u k d (ofs - 4) (argc + 1)) =
            Some (True, ofs - 4 - 4 * length ts, argc + 1 + length ts, m')" "args_pushed u k (ofs - 4) sv z ?m2 ts m'"
          using IH True by auto
        note P = i(2)[unfolded args_pushed_def]
        have lt: "length ts = length (tokens {32} z)" using P list_all2_lengthD by blast
        define lo where "lo = k + (ofs - 4 - 4 * length ts)"
        have lo: "lo = k + (ofs - 4 * length (t # ts))" "lo + 4 * length ts = k + (ofs - 4)"
          using True False lt by (simp_all add: lo_def)
        have fr: "m' ! i = ?m2 ! i" if "i < length m" "i < lo \<or> k + (ofs - 4) \<le> i" "i < sv \<or> sv + length z \<le> i" for i
          using P that len2 unfolding lo_def[symmetric] by auto
        have lm: "length m' = length m" using P len2 by simp
        have tok: "cstr m' t tok"
        proof (rule cstr_cong[OF c3], simp add: lm len2, intro allI impI)
          fix i assume "i \<le> length tok"
          then show "m' ! (t + i) = ?m2 ! (t + i)"
            using cstr_bound[OF c3] len2 some(4,5,10) pr(5) by (intro fr) (auto simp: le_less)
        qed
        have tb: "t < k + 4096" using some(5,6) pr(6) by simp
        have fr2: "m' ! i = m ! i" if j: "i < length m" "i < lo \<or> k + ofs \<le> i" "i < a \<or> a + length s \<le> i" for i
        proof -
          have "m' ! i = ?m2 ! i" using j lo(2) some(4,5,6) by (intro fr) linarith+
          also have "\<dots> = m1 ! i" using j lo(2) len1 by (intro same_offD[OF s2]) linarith+
          also have "\<dots> = m ! i" using j by (intro same_offD[OF some(11)]) simp_all
          finally show ?thesis .
        qed
        have "holds_at m' (k + (ofs - 4)) (uptr u k t)"
        proof (rule holds_at_cong[OF h2])
          fix i assume "k + (ofs - 4) \<le> i" "i < k + (ofs - 4) + length (uptr u k t)"
          then show "m' ! i = ?m2 ! i" using False pr(4,5,7) some(4,5) by (intro fr) simp_all
        qed (simp add: lm len2)
        moreover have "length (concat (rev (map (uptr u k) ts))) = 4 * length ts" by (subst concat_length4) auto
        moreover have "holds_at m' lo (concat (rev (map (uptr u k) ts)))" using P unfolding lo_def by blast
        ultimately have hl: "holds_at m' lo (concat (rev (map (uptr u k) (t # ts))))"
          using lo(2) by (simp add: holds_at_append)
        have "args_pushed u k ofs a s m (t # ts) m'"
          unfolding args_pushed_def lo(1)[symmetric] 
          using P some(3,4,5) lm tok tb fr2 hl by (simp add: less_le_trans ball_conj_distrib) fastforce
        then show ?thesis using run i(1) True False some(3) lt by (auto intro!: exI[of _ "t # ts"])
      next
        case F: False
        obtain ofs' argc' m' where i: "Option.bind (strtok_r NULL d sv ?m2) (push_args u k d (ofs - 4) (argc + 1)) =
            Some (False, ofs', argc', m')" "same_off ?m2 m' k (k + 4096)"
          using IH F by auto
        then show ?thesis using run F False some(3) same_off_trans[OF m2 i(2)] by auto
      qed
    qed
  qed
qed

section \<open>The whole page\<close>

definition room :: "byte list \<Rightarrow> nat" where
  "room s = (length s + 4) div 4 * 4 + 4 + 4 * length (tokens {32} s) + 12"

lemma holds_overlay4:
  assumes "length b = 4" "4 \<le> ofs" "ofs \<le> 4096" "k + 4096 \<le> length m"
  shows "holds_at (overlay m (k + (ofs - 4)) b) (k + (ofs - 4)) b"
  using holds_overlay[of "k + (ofs - 4)" b m] assms by simp

text \<open>The last three pushes.\<close>

lemma push_tail:
  fixes u :: vaddr
  assumes "k \<noteq> 0" "ofs \<le> 4096" "k + 4096 \<le> length m" "length a = 4" "length b = 4" "length c = 4"
  defines "run \<equiv> do {
     (p, ofs, m) \<leftarrow> push k ofs a m;
     if p = NULL then Some (None, m)
     else do {
       (p, ofs, m) \<leftarrow> push k ofs b m;
       if p = NULL then Some (None, m)
       else do {
         (p, ofs, m) \<leftarrow> push k ofs c m;
         if p = NULL then Some (None, m)
         else Some (Some (u + word_of_nat ofs), m) } } }"
  shows "if 12 \<le> ofs then \<exists>m'. run = Some (Some (u + word_of_nat (ofs - 12)), m') \<and> holds_at m' (k + (ofs - 12)) (c @ b @ a) \<and>
      same_off m m' (k + (ofs - 12)) (k + ofs)
    else \<exists>m'. run = Some (None, m') \<and> same_off m m' k (k + 4096)"
proof -
  let ?m1 = "overlay m (k + (ofs - 4)) a" let ?m2 = "overlay ?m1 (k + (ofs - 8)) b" let ?m3 = "overlay ?m2 (k + (ofs - 12)) c"
  have s1: "same_off m ?m1 (k + (ofs - 4)) (k + ofs)" "holds_at ?m1 (k + (ofs - 4)) a" if "4 \<le> ofs"
    using same_off_overlay4[OF assms(4) that assms(2,3)] holds_overlay4[OF assms(4) that assms(2,3)] by simp_all
  have l1: "length ?m1 = length m" if "4 \<le> ofs" using s1(1)[OF that] by (simp add: same_off_def)
  have s2: "same_off ?m1 ?m2 (k + (ofs - 8)) (k + (ofs - 4))" "holds_at ?m2 (k + (ofs - 8)) b" if "8 \<le> ofs"
    using same_off_overlay4[OF assms(5), of "ofs - 4" k ?m1] holds_overlay4[OF assms(5), of "ofs - 4" k ?m1] that assms(2,3) l1 by simp_all
  have l2: "length ?m2 = length m" if "8 \<le> ofs" using s2(1)[OF that] l1 that by (simp add: same_off_def)
  have s3: "same_off ?m2 ?m3 (k + (ofs - 12)) (k + (ofs - 8))" "holds_at ?m3 (k + (ofs - 12)) c" if "12 \<le> ofs"
    using same_off_overlay4[OF assms(6), of "ofs - 8" k ?m2] holds_overlay4[OF assms(6), of "ofs - 8" k ?m2] that assms(2,3) l2 by simp_all
  have p1: "push k ofs a m = (if ofs < 4 then Some (NULL, ofs, m) else Some (k + (ofs - 4), ofs - 4, ?m1))"
    by (rule push_4) (use assms in simp_all)
  have p2: "push k (ofs - 4) b ?m1 = (if ofs < 8 then Some (NULL, ofs - 4, ?m1) else Some (k + (ofs - 8), ofs - 8, ?m2))" if "4 \<le> ofs"
    using push_4[of k "ofs - 4" ?m1 b] assms(1,2,3,5) l1 that by (simp, linarith)
  have p3: "push k (ofs - 8) c ?m2 = (if ofs < 12 then Some (NULL, ofs - 8, ?m2) else Some (k + (ofs - 12), ofs - 12, ?m3))" if "8 \<le> ofs"
    using push_4[of k "ofs - 8" ?m2 c] assms(1,2,3,6) l2 that by (simp, linarith)
  consider "ofs < 4" | "4 \<le> ofs" "ofs < 8" | "8 \<le> ofs" "ofs < 12" | "12 \<le> ofs" by linarith
  then show ?thesis
  proof cases
    case 1
    then show ?thesis using p1 by (simp add: run_def same_off_refl)
  next
    case 2
    then have "run = Some (None, ?m1)" using p1 p2 assms(1) by (simp add: run_def NULL_def)
    then show ?thesis using 2 same_off_mono[OF s1(1), of k "k + 4096"] assms(2) by auto
  next
    case 3
    then have "run = Some (None, ?m2)" using p1 p2 p3 assms(1) by (simp add: run_def NULL_def)
    moreover have "same_off m ?m2 k (k + 4096)"
      using 3 assms(2) by (intro same_off_trans[OF same_off_mono[OF s1(1)] same_off_mono[OF s2(1)]]) simp_all
    ultimately show ?thesis using 3 by auto
  next
    case 4
    then have "run = Some (Some (u + word_of_nat (ofs - 12)), ?m3)" using p1 p2 p3 assms(1) by (simp add: run_def NULL_def)
    moreover have "same_off m ?m3 (k + (ofs - 12)) (k + ofs)"
      using 4 by (intro same_off_trans[OF same_off_trans[OF same_off_mono[OF s1(1)] same_off_mono[OF s2(1)]] same_off_mono[OF s3(1)]]) simp_all
    moreover have "holds_at ?m3 (k + (ofs - 8)) b" using 4 assms(5) by (intro same_off_holds[OF s3(1) s2(2)]) simp_all
    moreover have "holds_at ?m2 (k + (ofs - 4)) a" using 4 assms(4) by (intro same_off_holds[OF s2(1) s1(2)]) simp_all
    then have "holds_at ?m3 (k + (ofs - 4)) a"
      by (rule same_off_holds[OF s3(1)[OF 4]]) (intro disjI2 add_left_mono diff_le_mono2, simp)
    moreover have "k + (ofs - 12) + 4 = k + (ofs - 8)" "k + (ofs - 12) + 8 = k + (ofs - 4)" using 4 by simp_all
    ultimately show ?thesis using 4 s3(2) assms(5,6) by (auto simp: holds_at_append)
  qed
qed

lemma holds_single: "holds_at m p [x] \<longleftrightarrow> p < length m \<and> m ! p = x"
  by (auto simp: holds_at_def)

lemma cstr_holds: "cstr m p s \<longleftrightarrow> p \<noteq> 0 \<and> 0 \<notin> set s \<and> holds_at m p (s @ [0])"
proof (induction s arbitrary: p)
  case (Cons c s)
  have "holds_at m p ((c # s) @ [0]) \<longleftrightarrow> holds_at m p [c] \<and> holds_at m (p + 1) (s @ [0])"
    using holds_at_append[of m p "[c]" "s @ [0]"] by simp
  then show ?case using Cons.IH[of "p + 1"] by (auto simp: holds_single rd_Some)
qed (auto simp: holds_single rd_Some)

text \<open>What the process finds at its stack pointer: a return address of 0, \<open>argc\<close>, \<open>argv\<close>, and there the
  addresses of the arguments in the order of the command line with a null pointer behind them.\<close>

definition args_at :: "mem \<Rightarrow> addr \<Rightarrow> nat \<Rightarrow> vaddr \<Rightarrow> addr list \<Rightarrow> bool" where
  "args_at m k ofs u ts \<longleftrightarrow> holds_at m (k + ofs) (le32 0 @ le32 (length ts) @ le32 (unat (u + word_of_nat (ofs + 12))) @
     concat (map (uptr u k) ts) @ le32 0)"

lemma init_cmd_line_spec:
  assumes d: "cstr m d [32]" and c: "cstr m c s" and k: "k \<noteq> 0" "k + 4096 \<le> length m"
    and dis: "d + 1 < k \<or> k + 4096 \<le> d" and len: "length s < 4096"
  shows "if room s \<le> 4096
    then \<exists>ts m'. init_cmd_line k u c d m = Some (Some (u + word_of_nat (4096 - room s)), m') \<and>
      list_all2 (cstr m') ts (tokens {32} s) \<and> (\<forall>t\<in>set ts. k \<le> t \<and> t < k + 4096) \<and> args_at m' k (4096 - room s) u ts \<and>
      same_off m m' k (k + 4096)
    else \<exists>m'. init_cmd_line k u c d m = Some (None, m') \<and> same_off m m' k (k + 4096)"
proof -
  let ?n = "length (tokens {32} s)" let ?P = "(length s + 4) div 4 * 4"
  define a where "a = k + 4096 - (length s + 1)"
  define o1 where "o1 = 4096 - ?P"
  have P: "length s + 1 \<le> ?P" "?P \<le> 4096" using len by simp_all
  have nn: "a \<noteq> NULL" "\<And>i. k + i \<noteq> NULL" using len k(1) by (simp_all add: a_def NULL_def)
  have o1: "k + o1 \<le> a" "a + length s + 1 = k + 4096" "a \<noteq> 0" "o1 \<le> 4096" using P len k(1) by (simp_all add: a_def o1_def)
  have cs: "holds_at m c (s @ [0])" using c by (simp add: cstr_holds)
  have rb: "rd_bytes m c (Suc (length s)) = Some (s @ [0])"
    using rd_bytes_spec[OF cs] cstr_nonnull[OF c] by (simp del: rd_bytes.simps)
  let ?m1 = "overlay m a (s @ [0])"
  have lb: "a + length (s @ [0 :: byte]) \<le> length m" using o1 k(2) by simp
  have s1: "same_off m ?m1 a (k + 4096)" using same_off_overlay[OF lb] o1 by (simp add: add.commute)
  have h1: "holds_at ?m1 a (s @ [0])" by (rule holds_overlay[OF lb])
  have p1: "push k PGSIZE (s @ [0]) m = Some (a, o1, ?m1)"
    using push_spec[of k 4096 m "s @ [0]"] k len P by (simp add: PGSIZE_val a_def o1_def add.commute)
  have c1: "cstr ?m1 a s" using h1 cstr_no_zero[OF c] o1(3) by (simp add: cstr_holds)
  show ?thesis
  proof (cases "o1 < 4")
    case True
    have "push k o1 (le32 0) ?m1 = Some (NULL, o1, ?m1)" using push_4[of k o1 ?m1 "le32 0"] True k s1 by (simp add: same_off_def)
    then have "init_cmd_line k u c d m = Some (None, ?m1)"
      using strlen_spec[OF c] rb p1 o1(3) by (simp add: init_cmd_line_def NULL_def del: rd_bytes.simps)
    moreover have "\<not> room s \<le> 4096" using True by (simp add: room_def o1_def)
    ultimately show ?thesis using same_off_mono[OF s1, of k "k + 4096"] o1 by auto
  next
    case False
    define o2 where "o2 = o1 - 4"
    let ?m2 = "overlay ?m1 (k + o2) (le32 0)"
    have l1: "length ?m1 = length m" using s1 by (simp add: same_off_def)
    have p2: "push k o1 (le32 0) ?m1 = Some (k + o2, o2, ?m2)" using push_4[of k o1 ?m1 "le32 0"] False k l1 o1 by (simp add: o2_def)
    have s2: "same_off ?m1 ?m2 (k + o2) (k + o1)" "holds_at ?m2 (k + o2) (le32 0)"
      using same_off_overlay4[of "le32 0" o1 k ?m1] holds_overlay4[of "le32 0" o1 k ?m1] False k l1 o1 by (simp_all add: o2_def)
    have s12: "same_off m ?m2 k (k + 4096)"
      by (rule same_off_trans[OF same_off_mono[OF s1] same_off_mono[OF s2(1)]]) (use o1 o2_def in simp_all)
    have c2: "cstr ?m2 a s" by (rule same_off_cstr[OF s2(1) c1]) (use o1 in simp)
    have d2: "cstr ?m2 d [32]" by (rule same_off_cstr[OF s12 d]) (use dis in simp)
    have l2: "length ?m2 = length m" using s12 by (simp add: same_off_def)
    have st: "strtok_r a d NULL ?m2 = strtok_r NULL d a ?m2" using o1(3) by (simp add: strtok_r_def NULL_def)
    have b: "o2 \<le> 4096" "k + o2 \<le> a" "a + length s < k + 4096" "k + 4096 \<le> length ?m2" using o1 l2 k by (simp_all add: o2_def)
    note pa = push_args_spec[OF d2 c2 k(1) b dis, of u 0]
    show ?thesis
    proof (cases "4 * ?n \<le> o2")
      case F: False
      then obtain o' n' m' where pf: "Option.bind (strtok_r NULL d a ?m2) (push_args u k d o2 0) = Some (False, o', n', m')"
          "same_off ?m2 m' k (k + 4096)" using pa by auto
      then obtain kk where "strtok_r NULL d a ?m2 = Some kk" "push_args u k d o2 0 kk = Some (False, o', n', m')"
        by (cases "strtok_r NULL d a ?m2") auto
      then have "init_cmd_line k u c d m = Some (None, m')"
        using strlen_spec[OF c] rb p1 p2 nn by (simp add: init_cmd_line_def st del: rd_bytes.simps)
      moreover have "\<not> room s \<le> 4096" using F False by (simp add: room_def o1_def o2_def)
      ultimately show ?thesis using same_off_trans[OF s12 pf(2)] by auto
    next
      case T: True
      obtain ts m3 where pt: "Option.bind (strtok_r NULL d a ?m2) (push_args u k d o2 0) = Some (True, o2 - 4 * length ts, length ts, m3)"
          "args_pushed u k o2 a s ?m2 ts m3" using pa T by auto
      note A = pt(2)[unfolded args_pushed_def]
      have nts: "length ts = ?n" using A list_all2_lengthD by blast
      define o3 where "o3 = o2 - 4 * length ts"
      have o3: "o3 + 4 * length ts = o2" "o3 \<le> 4096" using T nts b(1) by (simp_all add: o3_def)
      have l3: "length m3 = length m" using A l2 by simp
      have h3: "holds_at m3 (k + o3) (concat (rev (map (uptr u k) ts)))" using A by (simp add: o3_def)
      have z3: "holds_at m3 (k + o2) (le32 0)"
      proof (rule holds_at_cong[OF s2(2)])
        fix i assume i: "k + o2 \<le> i" "i < k + o2 + length (le32 0)"
        have "k + o2 + 4 \<le> a" using o1(1) False by (simp add: o2_def)
        then have "i < length ?m2" "i \<notin> {k + o3..<k + o2} \<union> {a..<a + length s}" using i b by auto
        then show "m3 ! i = ?m2 ! i" using A unfolding o3_def by blast
      qed (simp add: l3 l2)
      have s3: "same_off m m3 k (k + 4096)"
      proof (rule same_off_trans[OF s12])
        show "same_off ?m2 m3 k (k + 4096)" unfolding same_off_def using A b o3 by auto
      qed
      obtain m4 where m4: "reverse (length ts) (k + o3) m3 = Some m4" "holds_at m4 (k + o3) (concat (map (uptr u k) ts))"
          "same_off m3 m4 (k + o3) (k + o3 + 4 * length ts)"
        using reverse_spec[OF h3] k(1) by (auto simp: rev_map)
      have z4: "holds_at m4 (k + o2) (le32 0)" using same_off_holds[OF m4(3) z3] o3 by simp
      have t4: "list_all2 (cstr m4) ts (tokens {32} s)"
      proof (rule list.rel_mono_strong)
        show "list_all2 (cstr m3) ts (tokens {32} s)" using A by blast
        fix t w assume "t \<in> set ts" "w \<in> set (tokens {32} s)" "cstr m3 t w"
        then show "cstr m4 t w" using A b(2) o3 by (intro same_off_cstr[OF m4(3)]) auto
      qed
      have l4: "length m4 = length m" using m4(3) l3 by (simp add: same_off_def)
      have s4: "same_off m m4 k (k + 4096)" by (rule same_off_trans[OF s3 same_off_mono[OF m4(3)]]) (use o3 b in simp_all)
      let ?argv = "u + word_of_nat o3"
      note tail = push_tail[OF k(1) o3(2), of m4 "le32 (unat ?argv)" "le32 (length ts)" "le32 0" u, simplified l4, OF k(2)]
      have run: "init_cmd_line k u c d m = do {
         (p, ofs, m) \<leftarrow> push k o3 (le32 (unat ?argv)) m4;
         if p = NULL then Some (None, m)
         else do {
           (p, ofs, m) \<leftarrow> push k ofs (le32 (length ts)) m;
           if p = NULL then Some (None, m)
           else do {
             (p, ofs, m) \<leftarrow> push k ofs (le32 0) m;
             if p = NULL then Some (None, m)
             else Some (Some (u + word_of_nat ofs), m) } } }"
      proof -
        obtain kk where "strtok_r NULL d a ?m2 = Some kk" "push_args u k d o2 0 kk = Some (True, o3, length ts, m3)"
          using pt(1) unfolding o3_def by (cases "strtok_r NULL d a ?m2") auto
        then show ?thesis
          using strlen_spec[OF c] rb p1 p2 nn m4(1) by (simp add: init_cmd_line_def st Let_def del: rd_bytes.simps)
      qed
      show ?thesis
      proof (cases "12 \<le> o3")
        case False
        then obtain m' where "init_cmd_line k u c d m = Some (None, m')" "same_off m4 m' k (k + 4096)"
          using tail unfolding run by auto
        moreover have "\<not> room s \<le> 4096" using False T \<open>\<not> o1 < 4\<close> nts by (simp add: room_def o1_def o2_def o3_def)
        ultimately show ?thesis using same_off_trans[OF s4] by auto
      next
        case R: True
        then obtain m' where m': "init_cmd_line k u c d m = Some (Some (u + word_of_nat (o3 - 12)), m')"
            "holds_at m' (k + (o3 - 12)) (le32 0 @ le32 (length ts) @ le32 (unat ?argv))" "same_off m4 m' (k + (o3 - 12)) (k + o3)"
          using tail unfolding run by auto
        have ro: "o3 - 12 = 4096 - room s" "room s \<le> 4096" using R T \<open>\<not> o1 < 4\<close> nts by (simp_all add: room_def o1_def o2_def o3_def)
        have "list_all2 (cstr m') ts (tokens {32} s)"
        proof (rule list.rel_mono_strong[OF t4])
          fix t w assume "t \<in> set ts" "w \<in> set (tokens {32} s)" "cstr m4 t w"
          then show "cstr m' t w" using A b(2) o3 by (intro same_off_cstr[OF m'(3)]) auto
        qed
        moreover have "\<forall>t\<in>set ts. k \<le> t \<and> t < k + 4096" using A b(2) by auto
        moreover have "args_at m' k (4096 - room s) u ts"
        proof -
          have lc: "length (concat (map (uptr u k) ts)) = 4 * length ts" by (subst concat_length4) auto
          have "holds_at m' (k + o3) (concat (map (uptr u k) ts))" "holds_at m' (k + o3 + 4 * length ts) (le32 0)"
            using same_off_holds[OF m'(3) m4(2)] same_off_holds[OF m'(3) z4] o3(1) by (simp_all add: add.assoc)
          then have "holds_at m' (k + o3) (concat (map (uptr u k) ts) @ le32 0)" by (simp add: holds_at_append lc)
          moreover have "k + (o3 - 12) + 12 = k + o3" "o3 - 12 + 12 = o3" using R by simp_all
          ultimately show ?thesis
            using m'(2) unfolding args_at_def ro(1)[symmetric] by (simp add: holds_at_append)
        qed
        moreover have "same_off m m' k (k + 4096)"
          by (rule same_off_trans[OF s4 same_off_mono[OF m'(3)]]) (use o3 in simp_all)
        ultimately show ?thesis using m'(1) ro by auto
      qed
    qed
  qed
qed

end
