(* ===== verification/Directory.thy ===== *)
theory Directory
  imports File
begin

text \<open>
  \<open>filesys/directory.c\<close> of project 4. A directory is a file of 20-byte entries: the sector of an
  inode, a name of at most 14 characters with its terminator, and a flag. Names are byte lists
  without a zero byte.
\<close>

definition NAME_MAX :: nat where "NAME_MAX = 14"
definition ENTRY_SIZE :: nat where "ENTRY_SIZE = 20"

record dir_entry =
  e_inode_sector :: nat
  e_name :: "byte list"
  e_in_use :: bool

text \<open>\<open>strlcpy\<close> into an array of \<open>size\<close> bytes; what lies behind the terminator is taken to be zero.\<close>

definition name_field :: "byte list \<Rightarrow> byte list" where
  "name_field s = take NAME_MAX s @ replicate (NAME_MAX + 1 - length (take NAME_MAX s)) 0"

definition enc_entry :: "dir_entry \<Rightarrow> byte list" where
  "enc_entry e = le32 (e_inode_sector e) @ name_field (e_name e) @ [if e_in_use e then 1 else 0]"

text \<open>A name ends inside its field: the code writes no other names. On a disk with a field without a zero byte the C
  code would read on behind the field.\<close>

definition dec_entry :: "byte list \<Rightarrow> dir_entry" where
  "dec_entry bs = \<lparr>e_inode_sector = get32 bs 0, e_name = takeWhile (\<lambda>c. c \<noteq> 0) (take 15 (drop 4 bs)), e_in_use = (bs ! 19 \<noteq> 0)\<rparr>"

section \<open>Opening and closing\<close>

definition dir_create :: "nat \<Rightarrow> nat \<Rightarrow> fsys \<Rightarrow> (bool \<times> fsys) option" where
  "dir_create sector entry_cnt st = inode_create sector (int (entry_cnt * ENTRY_SIZE)) True st"

definition dir_open :: "nat option \<Rightarrow> fsys \<Rightarrow> (nat option \<times> fsys) option" where
  "dir_open inode st =
     (case inode of
        Some a \<Rightarrow>
          if heap_ok st
          then (let d = next_addr st in
            Some (Some d, st\<lparr>dirs := (dirs st)(d \<mapsto> \<lparr>dir_inode = a, dir_pos = 0\<rparr>), next_addr := d + 1\<rparr>))
          else do { st \<leftarrow> inode_close inode st; Some (None, st) }
      | None \<Rightarrow> Some (None, st))"

definition dir_open_root :: "fsys \<Rightarrow> (nat option \<times> fsys) option" where
  "dir_open_root st = do { (p, st) \<leftarrow> inode_open ROOT_DIR_SECTOR st; dir_open p st }"

definition dir_reopen :: "nat \<Rightarrow> fsys \<Rightarrow> (nat option \<times> fsys) option" where
  "dir_reopen d st = do {
     r \<leftarrow> dirs st d;
     (p, st) \<leftarrow> inode_reopen (Some (dir_inode r)) st;
     dir_open p st }"

definition dir_close :: "nat option \<Rightarrow> fsys \<Rightarrow> fsys option" where
  "dir_close p st =
     (case p of None \<Rightarrow> Some st
      | Some d \<Rightarrow> do {
          r \<leftarrow> dirs st d;
          st \<leftarrow> inode_close (Some (dir_inode r)) st;
          Some (st\<lparr>dirs := (dirs st)(d := None)\<rparr>) })"

definition dir_get_inode :: "nat \<Rightarrow> fsys \<Rightarrow> nat option" where
  "dir_get_inode d st = map_option dir_inode (dirs st d)"

section \<open>Entries\<close>

text \<open>All loops over a directory read one entry after the other, from an offset on, up to the first
  that satisfies a condition. The result is that entry, if there is one, and the offset reached.\<close>

partial_function (option) scan_entries ::
    "nat \<Rightarrow> (dir_entry \<Rightarrow> bool) \<Rightarrow> nat \<Rightarrow> fsys \<Rightarrow> (dir_entry option \<times> nat \<times> fsys) option" where
  "scan_entries a P ofs st =
     Option.bind (inode_read_at a (int ENTRY_SIZE) ofs st) (\<lambda>(bs, st).
       if length bs = ENTRY_SIZE
       then if P (dec_entry bs) then Some (Some (dec_entry bs), ofs, st)
            else scan_entries a P (ofs + ENTRY_SIZE) st
       else Some (None, ofs, st))"

definition lookup :: "nat \<Rightarrow> byte list \<Rightarrow> fsys \<Rightarrow> ((dir_entry \<times> nat) option \<times> fsys) option" where
  "lookup a name st = do {
     (e, ofs, st) \<leftarrow> scan_entries a (\<lambda>e. e_in_use e \<and> e_name e = name) 0 st;
     Some (map_option (\<lambda>e. (e, ofs)) e, st) }"

definition dir_lookup :: "nat \<Rightarrow> byte list \<Rightarrow> fsys \<Rightarrow> (nat option \<times> fsys) option" where
  "dir_lookup d name st = do {
     a \<leftarrow> dir_get_inode d st;
     st \<leftarrow> inode_lock a st;
     (r, st) \<leftarrow> lookup a name st;
     (inode, st) \<leftarrow> (case r of Some (e, _) \<Rightarrow> inode_open (e_inode_sector e) st | None \<Rightarrow> Some (None, st));
     st \<leftarrow> inode_unlock a st;
     Some (inode, st) }"

definition dir_add_locked :: "nat \<Rightarrow> byte list \<Rightarrow> nat \<Rightarrow> fsys \<Rightarrow> (bool \<times> fsys) option" where
  "dir_add_locked a name inode_sector st =
     (if name = [] \<or> length name > NAME_MAX then Some (False, st)
      else do {
        (r, st) \<leftarrow> lookup a name st;
        if r \<noteq> None then Some (False, st)
        else do {
          n \<leftarrow> inode_get_inumber a st;
          (ok, st) \<leftarrow> inode_add_parent n inode_sector st;
          if \<not> ok then Some (False, st)
          else do {
            (_, ofs, st) \<leftarrow> scan_entries a (\<lambda>e. \<not> e_in_use e) 0 st;
            let e = \<lparr>e_inode_sector = inode_sector, e_name = name, e_in_use = True\<rparr>;
            (w, st) \<leftarrow> inode_write_at a (enc_entry e) (int ENTRY_SIZE) ofs st;
            Some (w = ENTRY_SIZE, st) } } })"

definition dir_add :: "nat \<Rightarrow> byte list \<Rightarrow> nat \<Rightarrow> fsys \<Rightarrow> (bool \<times> fsys) option" where
  "dir_add d name inode_sector st = do {
     a \<leftarrow> dir_get_inode d st;
     st \<leftarrow> inode_lock a st;
     (ok, st) \<leftarrow> dir_add_locked a name inode_sector st;
     st \<leftarrow> inode_unlock a st;
     Some (ok, st) }"

definition dir_is_empty :: "nat \<Rightarrow> fsys \<Rightarrow> (bool \<times> fsys) option" where
  "dir_is_empty a st = do {
     (e, _, st) \<leftarrow> scan_entries a e_in_use 0 st;
     Some (e = None, st) }"

text \<open>The inode opened on the way, to be closed at the label \<open>done\<close>, is the second component.\<close>

definition dir_remove_locked :: "nat \<Rightarrow> byte list \<Rightarrow> fsys \<Rightarrow> (bool \<times> nat option \<times> fsys) option" where
  "dir_remove_locked a name st = do {
     (r, st) \<leftarrow> lookup a name st;
     case r of
       None \<Rightarrow> Some (False, None, st)
     | Some (e, ofs) \<Rightarrow> do {
         (p, st) \<leftarrow> inode_open (e_inode_sector e) st;
         case p of
           None \<Rightarrow> Some (False, None, st)
         | Some i \<Rightarrow> do {
             isdir \<leftarrow> inode_is_dir i st;
             cnt \<leftarrow> inode_get_open_cnt i st;
             if isdir \<and> cnt > 1 then Some (False, Some i, st)
             else do {
               (empty, st) \<leftarrow> (if isdir then dir_is_empty i st else Some (True, st));
               if \<not> empty then Some (False, Some i, st)
               else do {
                 (w, st) \<leftarrow> inode_write_at a (enc_entry (e\<lparr>e_in_use := False\<rparr>)) (int ENTRY_SIZE) ofs st;
                 if w \<noteq> ENTRY_SIZE then Some (False, Some i, st)
                 else do { st \<leftarrow> inode_remove i st; Some (True, Some i, st) } } } } } }"

definition dir_remove :: "nat \<Rightarrow> byte list \<Rightarrow> fsys \<Rightarrow> (bool \<times> fsys) option" where
  "dir_remove d name st = do {
     a \<leftarrow> dir_get_inode d st;
     st \<leftarrow> inode_lock a st;
     (ok, i, st) \<leftarrow> dir_remove_locked a name st;
     st \<leftarrow> inode_close i st;
     st \<leftarrow> inode_unlock a st;
     Some (ok, st) }"

definition dir_readdir :: "nat \<Rightarrow> fsys \<Rightarrow> (byte list option \<times> fsys) option" where
  "dir_readdir d st = do {
     r \<leftarrow> dirs st d;
     st \<leftarrow> inode_lock (dir_inode r) st;
     (e, ofs, st) \<leftarrow> scan_entries (dir_inode r) e_in_use (dir_pos r) st;
     let st = st\<lparr>dirs := (dirs st)(d \<mapsto> r\<lparr>dir_pos := (if e = None then ofs else ofs + ENTRY_SIZE)\<rparr>)\<rparr>;
     st \<leftarrow> inode_unlock (dir_inode r) st;
     Some (map_option e_name e, st) }"

definition dir_is_root :: "nat option \<Rightarrow> fsys \<Rightarrow> bool option" where
  "dir_is_root p st =
     (case p of None \<Rightarrow> Some False
      | Some d \<Rightarrow> do { a \<leftarrow> dir_get_inode d st; n \<leftarrow> inode_get_inumber a st; Some (n = ROOT_DIR_SECTOR) })"

definition dir_get_parent :: "nat \<Rightarrow> fsys \<Rightarrow> (nat option \<times> fsys) option" where
  "dir_get_parent d st = do {
     a \<leftarrow> dir_get_inode d st;
     sector \<leftarrow> inode_get_parent a st;
     inode_open sector st }"

end
