(* ===== verification/Filesys.thy ===== *)
theory Filesys
  imports Directory CString
begin

text \<open>
  \<open>filesys/filesys.c\<close> of project 4: path names, and the operations on files and directories that
  the system calls use. A path is a byte list without a zero byte; \<open>get_containing_dir\<close> and
  \<open>get_filename\<close> copy it to their stack frame and split the copy at \<open>'/'\<close> with \<open>strtok_r\<close> of \<open>CString\<close>.
  \<open>filesys_open\<close> returns a \<open>struct file *\<close> that may in truth be a \<open>struct dir *\<close>: a sum here.
\<close>

definition ASCII_SLASH :: byte where "ASCII_SLASH = 47"

text \<open>The memory of these two functions: the string literals \<open>"/"\<close> at 1 and \<open>""\<close> at 2, and the array \<open>s\<close> at 3. The string
  at a pointer ends before the next zero byte.\<close>

definition local_copy :: "byte list \<Rightarrow> mem" where
  "local_copy path = [0, ASCII_SLASH, 0] @ path @ [0]"

definition string_at :: "addr \<Rightarrow> mem \<Rightarrow> byte list" where
  "string_at p m = takeWhile (\<lambda>c. c \<noteq> 0) (drop p m)"

text \<open>The names \<open>"."\<close> and \<open>".."\<close>.\<close>

definition dot :: "byte list" where "dot = [46]"
definition dotdot :: "byte list" where "dotdot = [46, 46]"

datatype handle = File_handle nat | Dir_handle nat

section \<open>Paths\<close>

text \<open>The \<open>for\<close> loop, which ends with \<open>prev_token\<close>; the \<open>malloc\<close> of the result is not checked.\<close>

partial_function (option) filename_loop :: "addr \<Rightarrow> addr \<Rightarrow> addr \<Rightarrow> mem \<Rightarrow> (addr \<times> mem) option" where
  "filename_loop token save prev m =
     (if token = NULL then Some (prev, m)
      else Option.bind (strtok_r NULL 1 save m) (\<lambda>(t, save, m). filename_loop t save token m))"

definition get_filename :: "byte list \<Rightarrow> fsys \<Rightarrow> byte list option" where
  "get_filename path st = do {
     (token, save, m) \<leftarrow> strtok_r 3 1 NULL (local_copy path);
     (prev, m) \<leftarrow> filename_loop token save 2 m;
     ASSERT (heap_ok st);
     Some (string_at prev m) }"

text \<open>One round of the loop: \<open>dir\<close> is replaced by its component \<open>token\<close>. \<^const>\<open>None\<close> as the first
  component of the result is the early \<open>return NULL\<close>.\<close>

definition walk_step :: "byte list \<Rightarrow> nat option \<Rightarrow> fsys \<Rightarrow> (nat option option \<times> fsys) option" where
  "walk_step token dir st =
     (if token = dot then Some (Some dir, st)
      else do {
        d \<leftarrow> dir;
        (inode, st) \<leftarrow> (if token = dotdot then dir_get_parent d st else dir_lookup d token st);
        case inode of
          None \<Rightarrow> Some (None, st)
        | Some i \<Rightarrow> do {
            isdir \<leftarrow> inode_is_dir i st;
            if isdir
            then do {
              st \<leftarrow> dir_close dir st;
              (dir, st) \<leftarrow> dir_open (Some i) st;
              Some (Some dir, st) }
            else do { st \<leftarrow> inode_close (Some i) st; Some (Some dir, st) } } })"

partial_function (option) walk_loop ::
    "addr \<Rightarrow> addr \<Rightarrow> addr \<Rightarrow> mem \<Rightarrow> nat option \<Rightarrow> fsys \<Rightarrow> (nat option \<times> fsys) option" where
  "walk_loop token next_token save m dir st =
     (if next_token = NULL then Some (dir, st)
      else Option.bind (walk_step (string_at token m) dir st) (\<lambda>(r, st).
        if r = None then Some (None, st)
        else Option.bind (strtok_r NULL 1 save m) (\<lambda>(t, save, m).
          walk_loop next_token t save m (the r) st)))"

definition get_containing_dir :: "byte list \<Rightarrow> fsys \<Rightarrow> (nat option \<times> fsys) option" where
  "get_containing_dir path st = do {
     (token, save, m) \<leftarrow> strtok_r 3 1 NULL (local_copy path);
     c \<leftarrow> rd m 3;
     (dir, st) \<leftarrow>
       (if c = ASCII_SLASH \<or> cwd st = None then dir_open_root st
        else do { d \<leftarrow> cwd st; dir_reopen d st });
     (next_token, save, m) \<leftarrow> (if token \<noteq> NULL then strtok_r NULL 1 save m else Some (NULL, save, m));
     walk_loop token next_token save m dir st }"

section \<open>Operations\<close>

text \<open>\<open>dir != NULL && free_map_allocate (\<dots>) && inode_create (\<dots>) && dir_add (\<dots>)\<close>, and
  \<open>inode_sector\<close>.\<close>

definition create_entry :: "nat option \<Rightarrow> byte list \<Rightarrow> int \<Rightarrow> bool \<Rightarrow> fsys \<Rightarrow> (bool \<times> nat \<times> fsys) option" where
  "create_entry dir file_name initial_size isdir st =
     (case dir of None \<Rightarrow> Some (False, 0, st)
      | Some d \<Rightarrow> do {
          (r, st) \<leftarrow> free_map_allocate 1 st;
          case r of None \<Rightarrow> Some (False, 0, st)
          | Some sector \<Rightarrow> do {
              (ok, st) \<leftarrow> inode_create sector initial_size isdir st;
              if \<not> ok then Some (False, sector, st)
              else do {
                (ok, st) \<leftarrow> dir_add d file_name sector st;
                Some (ok, sector, st) } } })"

definition filesys_create :: "byte list \<Rightarrow> int \<Rightarrow> bool \<Rightarrow> fsys \<Rightarrow> (bool \<times> fsys) option" where
  "filesys_create name initial_size isdir st = do {
     (dir, st) \<leftarrow> get_containing_dir name st;
     file_name \<leftarrow> get_filename name st;
     (success, inode_sector, st) \<leftarrow>
       (if file_name \<noteq> dot \<and> file_name \<noteq> dotdot then create_entry dir file_name initial_size isdir st
        else Some (False, 0, st));
     st \<leftarrow> (if \<not> success \<and> inode_sector \<noteq> 0 then free_map_release inode_sector 1 st else Some st);
     st \<leftarrow> dir_close dir st;
     Some (success, st) }"

text \<open>The part that \<open>filesys_open\<close> and \<open>filesys_chdir\<close> share: \<^const>\<open>Inl\<close> is a return from the
  middle of the function, with the directory or without one, \<^const>\<open>Inr\<close> the inode found.\<close>

definition find_inode :: "nat option \<Rightarrow> byte list \<Rightarrow> fsys \<Rightarrow> ((nat option + nat option) \<times> fsys) option" where
  "find_inode dir file_name st =
     (case dir of None \<Rightarrow> Some (Inr None, st)
      | Some d \<Rightarrow>
          if file_name = dotdot
          then do {
            (inode, st) \<leftarrow> dir_get_parent d st;
            Some (if inode = None then Inl None else Inr inode, st) }
          else do {
            root \<leftarrow> dir_is_root dir st;
            if (root \<and> file_name = []) \<or> file_name = dot then Some (Inl dir, st)
            else do { (inode, st) \<leftarrow> dir_lookup d file_name st; Some (Inr inode, st) } })"

definition filesys_open :: "byte list \<Rightarrow> fsys \<Rightarrow> (handle option \<times> fsys) option" where
  "filesys_open name st =
     (if name = [] then Some (None, st)
      else do {
        (dir, st) \<leftarrow> get_containing_dir name st;
        file_name \<leftarrow> get_filename name st;
        (r, st) \<leftarrow> find_inode dir file_name st;
        case r of
          Inl d \<Rightarrow> Some (map_option Dir_handle d, st)
        | Inr inode \<Rightarrow> do {
            st \<leftarrow> dir_close dir st;
            case inode of None \<Rightarrow> Some (None, st)
            | Some i \<Rightarrow> do {
                isdir \<leftarrow> inode_is_dir i st;
                if isdir
                then do { (d, st) \<leftarrow> dir_open inode st; Some (map_option Dir_handle d, st) }
                else do { (f, st) \<leftarrow> file_open inode st; Some (map_option File_handle f, st) } } } })"

definition filesys_remove :: "byte list \<Rightarrow> fsys \<Rightarrow> (bool \<times> fsys) option" where
  "filesys_remove name st = do {
     (dir, st) \<leftarrow> get_containing_dir name st;
     file_name \<leftarrow> get_filename name st;
     (success, st) \<leftarrow> (case dir of None \<Rightarrow> Some (False, st) | Some d \<Rightarrow> dir_remove d file_name st);
     st \<leftarrow> dir_close dir st;
     Some (success, st) }"

definition filesys_chdir :: "byte list \<Rightarrow> fsys \<Rightarrow> (bool \<times> fsys) option" where
  "filesys_chdir name st = do {
     (dir, st) \<leftarrow> get_containing_dir name st;
     file_name \<leftarrow> get_filename name st;
     (r, st) \<leftarrow> find_inode dir file_name st;
     case r of
       Inl None \<Rightarrow> Some (False, st)
     | Inl (Some d) \<Rightarrow> Some (True, st\<lparr>cwd := Some d\<rparr>)
     | Inr inode \<Rightarrow> do {
         st \<leftarrow> dir_close dir st;
         (dir, st) \<leftarrow> dir_open inode st;
         case dir of None \<Rightarrow> Some (False, st)
         | Some d \<Rightarrow> do {
             st \<leftarrow> dir_close (cwd st) st;
             Some (True, st\<lparr>cwd := Some d\<rparr>) } } }"

section \<open>Start and end\<close>

definition do_format :: "fsys \<Rightarrow> fsys option" where
  "do_format st = do {
     st \<leftarrow> free_map_create st;
     (ok, st) \<leftarrow> dir_create ROOT_DIR_SECTOR 16 st;
     ASSERT ok;
     free_map_close st }"

definition inode_init :: "fsys \<Rightarrow> fsys" where
  "inode_init st = st\<lparr>open_inodes := []\<rparr>"

text \<open>\<open>block_get_role (BLOCK_FILESYS)\<close> has found the device that \<open>fs_device\<close> is.\<close>

definition filesys_init :: "bool \<Rightarrow> block option \<Rightarrow> fsys \<Rightarrow> fsys option" where
  "filesys_init format role st = do {
     dv \<leftarrow> role;
     let st = cache_init (inode_init (st\<lparr>fs_device := dv\<rparr>));
     st \<leftarrow> free_map_init st;
     st \<leftarrow> (if format then do_format st else Some st);
     free_map_open st }"

definition filesys_done :: "fsys \<Rightarrow> fsys option" where
  "filesys_done st = do {
     st \<leftarrow> cache_write_to_disk True st;
     free_map_close st }"

end
