(* ===== verification/Process.thy ===== *)
theory Process
  imports Page Args Filesys
begin

text \<open>
  \<open>userprog/process.c\<close> of project 3: loading an ELF executable and setting up the stack. The file
  system calls are those of the theory \<open>Filesys\<close>: \<open>filesys/filesys.c\<close> of project 3 has the end marker of
  a merge conflict in it, the file of project 4 is the same code without it.
\<close>

section \<open>ELF structures\<close>

record Elf32_Ehdr =
  e_ident :: "byte list"
  e_type :: nat
  e_machine :: nat
  e_version :: nat
  e_entry :: nat
  e_phoff :: nat
  e_shoff :: nat
  e_flags :: nat
  e_ehsize :: nat
  e_phentsize :: nat
  e_phnum :: nat
  e_shentsize :: nat
  e_shnum :: nat
  e_shstrndx :: nat

record Elf32_Phdr =
  p_type :: nat
  p_offset :: "32 word"
  p_vaddr :: "32 word"
  p_paddr :: "32 word"
  p_filesz :: "32 word"
  p_memsz :: "32 word"
  p_flags :: "32 word"
  p_align :: "32 word"

definition get16 :: "byte list \<Rightarrow> nat \<Rightarrow> nat" where
  "get16 bs i = unat (bs ! i) + 256 * unat (bs ! (i + 1))"

text \<open>What the members are when the bytes of the file are read into the structure.\<close>

definition dec_ehdr :: "byte list \<Rightarrow> Elf32_Ehdr" where
  "dec_ehdr bs = \<lparr>e_ident = take 16 bs, e_type = get16 bs 16, e_machine = get16 bs 18, e_version = get32 bs 20,
     e_entry = get32 bs 24, e_phoff = get32 bs 28, e_shoff = get32 bs 32, e_flags = get32 bs 36, e_ehsize = get16 bs 40,
     e_phentsize = get16 bs 42, e_phnum = get16 bs 44, e_shentsize = get16 bs 46, e_shnum = get16 bs 48, e_shstrndx = get16 bs 50\<rparr>"

definition dec_phdr :: "byte list \<Rightarrow> Elf32_Phdr" where
  "dec_phdr bs = \<lparr>p_type = get32 bs 0, p_offset = word_of_nat (get32 bs 4), p_vaddr = word_of_nat (get32 bs 8),
     p_paddr = word_of_nat (get32 bs 12), p_filesz = word_of_nat (get32 bs 16), p_memsz = word_of_nat (get32 bs 20),
     p_flags = word_of_nat (get32 bs 24), p_align = word_of_nat (get32 bs 28)\<rparr>"

definition SIZEOF_EHDR :: nat where "SIZEOF_EHDR = 52"
definition SIZEOF_PHDR :: nat where "SIZEOF_PHDR = 32"
definition PT_LOAD :: nat where "PT_LOAD = 1"
definition PT_DYNAMIC :: nat where "PT_DYNAMIC = 2"
definition PT_INTERP :: nat where "PT_INTERP = 3"
definition PT_SHLIB :: nat where "PT_SHLIB = 5"
definition PF_W :: "32 word" where "PF_W = 2"

section \<open>Segments\<close>

text \<open>The argument \<open>len\<close> is \<open>file_length (file)\<close>.\<close>

definition validate_segment :: "Elf32_Phdr \<Rightarrow> int \<Rightarrow> bool" where
  "validate_segment phdr len =
     (if p_offset phdr AND PGMASK \<noteq> p_vaddr phdr AND PGMASK then False
      else if p_offset phdr > word_of_int len then False
      else if p_memsz phdr < p_filesz phdr then False
      else if p_memsz phdr = 0 then False
      else if \<not> is_user_vaddr (p_vaddr phdr) then False
      else if \<not> is_user_vaddr (p_vaddr phdr + p_memsz phdr) then False
      else if p_vaddr phdr + p_memsz phdr < p_vaddr phdr then False
      else if p_vaddr phdr < word_of_nat PGSIZE then False
      else True)"

definition segment_bytes :: "Elf32_Phdr \<Rightarrow> 32 word \<times> 32 word" where
  "segment_bytes phdr = (
     let page_offset = p_vaddr phdr AND PGMASK in
     if p_filesz phdr > 0
     then (let read_bytes = page_offset + p_filesz phdr in
       (read_bytes, ROUND_UP (page_offset + p_memsz phdr) (word_of_nat PGSIZE) - read_bytes))
     else (0, ROUND_UP (page_offset + p_memsz phdr) (word_of_nat PGSIZE)))"

definition load_phdr :: "nat \<Rightarrow> Elf32_Phdr \<Rightarrow> kernel \<Rightarrow> (bool \<times> kernel) option" where
  "load_phdr file phdr st =
     (if p_type phdr \<in> {PT_DYNAMIC, PT_INTERP, PT_SHLIB} then Some (False, st)
      else if p_type phdr = PT_LOAD then do {
        len \<leftarrow> file_length file (fs st);
        if validate_segment phdr len
        then (let writable = (p_flags phdr AND PF_W \<noteq> 0);
                  file_page = p_offset phdr AND NOT PGMASK;
                  mem_page = p_vaddr phdr AND NOT PGMASK;
                  (read_bytes, zero_bytes) = segment_bytes phdr
              in load_segment file (wrap32 (uint file_page)) mem_page read_bytes zero_bytes writable st)
        else Some (False, st) }
      else Some (True, st))"

text \<open>The loop over the program headers; \<open>n\<close> of them are left.\<close>

primrec load_phdrs :: "nat \<Rightarrow> nat \<Rightarrow> int \<Rightarrow> kernel \<Rightarrow> (bool \<times> kernel) option" where
  "load_phdrs 0 file file_ofs st = Some (True, st)"
| "load_phdrs (Suc n) file file_ofs st = do {
     len \<leftarrow> file_length file (fs st);
     if file_ofs < 0 \<or> file_ofs > len then Some (False, st)
     else do {
       f \<leftarrow> file_seek file file_ofs (fs st);
       (bs, f) \<leftarrow> file_read file (int SIZEOF_PHDR) f;
       let st = st\<lparr>fs := f\<rparr>;
       if length bs \<noteq> SIZEOF_PHDR then Some (False, st)
       else do {
         (ok, st) \<leftarrow> load_phdr file (dec_phdr bs) st;
         if ok then load_phdrs n file (wrap32 (file_ofs + int SIZEOF_PHDR)) st
         else Some (False, st) } } }"

section \<open>The stack\<close>

text \<open>\<open>init_cmd_line\<close> sees the frame at address 1, the command line behind it, and then the literal
  \<open>" "\<close>; the command line is not in the frame.\<close>

definition cmd_line_mem :: "byte list \<Rightarrow> byte list \<Rightarrow> mem" where
  "cmd_line_mem page cmd_line = 0 # page @ cmd_line @ [0] @ [32, 0]"

definition setup_stack :: "bool \<Rightarrow> byte list \<Rightarrow> kernel \<Rightarrow> (vaddr option \<times> kernel) option" where
  "setup_stack in_intr cmd_line st = (
     let upage = PHYS_BASE - word_of_nat PGSIZE in
     if unat (PHYS_BASE - pg_round_down upage) > MAX_STACK_SIZE then Some (None, st)
     else case malloc_spte st of
       (None, st) \<Rightarrow> Some (None, st)
     | (Some p, st) \<Rightarrow> do {
         st \<leftarrow> upd_spte p (\<lambda>s. s\<lparr>s_vaddr := pg_round_down upage, s_in_memory := True, s_writable := True,
           s_type := SWAP, s_locked := True\<rparr>) st;
         (frame, st) \<leftarrow> frame_alloc PAL_USER p st;
         if frame = 0 then Some (None, st\<lparr>sptes := (sptes st)(p := None)\<rparr>)
         else do {
           (ok, st) \<leftarrow> install_page (pg_round_down upage) frame True st;
           if \<not> ok then do {
             st \<leftarrow> frame_free frame (st\<lparr>sptes := (sptes st)(p := None)\<rparr>);
             Some (None, st) }
           else do {
             st \<leftarrow> (if in_intr then upd_spte p (s_locked_update (\<lambda>_. False)) st else Some st);
             (old, st) \<leftarrow> spt_insert (pg_round_down upage) p st;
             if old \<noteq> None then do { st \<leftarrow> palloc_free_page frame st; Some (None, st) }
             else do {
               (esp, m) \<leftarrow> init_cmd_line 1 upage (1 + PGSIZE) (length cmd_line + PGSIZE + 2)
                 (cmd_line_mem (peek st frame PGSIZE) cmd_line);
               Some (esp, poke frame (take PGSIZE (drop 1 m)) st) } } } })"

section \<open>Loading an executable\<close>

definition process_activate :: "kernel \<Rightarrow> kernel option" where
  "process_activate st = pagedir_activate (p_pagedir (cur_proc st)) st"

definition ehdr_ok :: "byte list \<Rightarrow> bool" where
  "ehdr_ok bs \<longleftrightarrow> length bs = SIZEOF_EHDR \<and> take 7 (e_ident (dec_ehdr bs)) = [0x7f, 0x45, 0x4c, 0x46, 1, 1, 1] \<and>
     e_type (dec_ehdr bs) = 2 \<and> e_machine (dec_ehdr bs) = 3 \<and> e_version (dec_ehdr bs) = 1 \<and>
     e_phentsize (dec_ehdr bs) = SIZEOF_PHDR \<and> e_phnum (dec_ehdr bs) \<le> 1024"

text \<open>The file name is cut to the size of its buffer, \<open>NAME_MAX + 2\<close> with the terminator. A directory
  that \<open>filesys_open\<close> returns is used as a file: its address is not one of a file. The result is
  \<open>*eip\<close> and \<open>*esp\<close>.\<close>

definition load :: "byte list \<Rightarrow> kernel \<Rightarrow> ((vaddr \<times> vaddr) option \<times> kernel) option" where
  "load cmd_line st = do {
     (pd, st) \<leftarrow> pagedir_create st;
     let st = upd_proc (p_pagedir_update (\<lambda>_. pd)) st;
     if pd = 0 then Some (None, st)
     else do {
       st \<leftarrow> process_activate st;
       let cmd_line = dropWhile (\<lambda>c. c = 32) cmd_line;
       let file_name = takeWhile (\<lambda>c. c \<noteq> 32) (take (NAME_MAX + 1) cmd_line);
       (h, f) \<leftarrow> filesys_open file_name (fs st);
       let file = (case h of None \<Rightarrow> None | Some (File_handle a) \<Rightarrow> Some a | Some (Dir_handle a) \<Rightarrow> Some a);
       let st = upd_proc (p_bin_file_update (\<lambda>_. file)) (st\<lparr>fs := f\<rparr>);
       case file of None \<Rightarrow> Some (None, st)
       | Some file \<Rightarrow> do {
           f \<leftarrow> file_deny_write file (fs st);
           (bs, f) \<leftarrow> file_read file (int SIZEOF_EHDR) f;
           let st = st\<lparr>fs := f\<rparr>;
           if \<not> ehdr_ok bs then Some (None, st)
           else do {
             (ok, st) \<leftarrow> load_phdrs (e_phnum (dec_ehdr bs)) file (wrap32 (int (e_phoff (dec_ehdr bs)))) st;
             if \<not> ok then Some (None, st)
             else do {
               (esp, st) \<leftarrow> setup_stack False cmd_line st;
               case esp of None \<Rightarrow> Some (None, st)
               | Some esp \<Rightarrow> Some (Some (word_of_nat (e_entry (dec_ehdr bs)), esp), st) } } } } }"

end
