(* ===== verification/Syscall.thy ===== *)
theory Syscall
  imports Process
begin

text \<open>
  The system calls of project 3, \<open>userprog/syscall.c\<close>, what \<open>process_exit\<close> does to the memory and the files
  of a process, and the page faults of \<open>userprog/exception.c\<close>. A function that may call \<open>thread_exit\<close> says
  so in its result; what that does to files and memory is \<open>thread_exit_files\<close> below. The static variable \<open>esp\<close> is an argument.
\<close>

section \<open>Results\<close>

text \<open>\<open>Exits c\<close>: the process ends, with \<open>exit (c)\<close> or, for \<^const>\<open>None\<close>, because the kernel ends it.\<close>

datatype 'a outcome = Returns 'a | Exits "int option" | Powers_off

definition USER_VADDR_BOTTOM :: vaddr where "USER_VADDR_BOTTOM = 0x08048000"

definition CLOSE_ALL :: int where "CLOSE_ALL = - 1"

section \<open>User memory\<close>

text \<open>An access that faults inside the kernel goes on behind the access with 0 in \<open>eax\<close>.\<close>

definition get_user :: "vaddr \<Rightarrow> kernel \<Rightarrow> byte option \<times> kernel" where
  "get_user usrc st = (case mem_read usrc 1 st of Some (bs, st) \<Rightarrow> (Some (hd bs), st) | None \<Rightarrow> (None, st))"

definition put_user :: "vaddr \<Rightarrow> byte \<Rightarrow> kernel \<Rightarrow> bool \<times> kernel" where
  "put_user udst b st = (case mem_write udst [b] st of Some st \<Rightarrow> (True, st) | None \<Rightarrow> (False, st))"

text \<open>The result of loading the page is not looked at.\<close>

primrec copy_in :: "vaddr \<Rightarrow> vaddr \<Rightarrow> nat \<Rightarrow> kernel \<Rightarrow> (byte list outcome \<times> kernel) option" where
  "copy_in esp usrc 0 st = Some (Returns [], st)"
| "copy_in esp usrc (Suc n) st =
     (if \<not> is_user_vaddr usrc \<or> usrc < USER_VADDR_BOTTOM then Some (Exits None, st)
      else do {
        (load, st) \<leftarrow> (case get_spte usrc st of
            Some spte \<Rightarrow> do { (_, st) \<leftarrow> load_page spte st; s \<leftarrow> sptes st spte; Some (s_in_memory s, st) }
          | None \<Rightarrow> if usrc \<ge> esp - 32 then grow_stack False usrc st else Some (False, st));
        case get_user usrc st of
          (None, st) \<Rightarrow> Some (Exits None, st)
        | (Some b, st) \<Rightarrow> do {
            (r, st) \<leftarrow> copy_in esp (usrc + 1) n st;
            Some (case r of Returns bs \<Rightarrow> Returns (b # bs) | _ \<Rightarrow> r, st) } })"

text \<open>The loop of \<open>copy_in_string\<close>, with \<open>n\<close> bytes left of the page: \<^const>\<open>None\<close> for an access that is
  not allowed, else whether the end of the string was found.\<close>

primrec copy_string :: "nat \<Rightarrow> vaddr \<Rightarrow> vaddr \<Rightarrow> kernel \<Rightarrow> bool option \<times> kernel" where
  "copy_string 0 ks us st = (Some False, st)"
| "copy_string (Suc n) ks us st =
     (if us \<ge> PHYS_BASE then (None, st)
      else case get_user us st of
        (None, st) \<Rightarrow> (None, st)
      | (Some b, st) \<Rightarrow> let st = poke ks [b] st in if b = 0 then (Some True, st) else copy_string n (ks + 1) (us + 1) st)"

definition copy_in_string :: "vaddr \<Rightarrow> kernel \<Rightarrow> (vaddr outcome \<times> kernel) option" where
  "copy_in_string us st = do {
     (ks, st) \<leftarrow> palloc_get_page 0 st;
     if ks = 0 then Some (Exits None, st)
     else (case copy_string PGSIZE ks us st of
         (None, st) \<Rightarrow> do { st \<leftarrow> palloc_free_page ks st; Some (Exits None, st) }
       | (Some True, st) \<Rightarrow> Some (Returns ks, st)
       | (Some False, st) \<Rightarrow> Some (Returns ks, poke (ks + word_of_nat (PGSIZE - 1)) [0] st)) }"

text \<open>The string in the page at \<open>ks\<close>.\<close>

definition kstring :: "vaddr \<Rightarrow> kernel \<Rightarrow> byte list" where
  "kstring ks st = takeWhile (\<lambda>b. b \<noteq> 0) (peek st ks PGSIZE)"

text \<open>A system call with a string: the string is copied, used, and its page is freed.\<close>

definition with_string :: "vaddr \<Rightarrow> (byte list \<Rightarrow> kernel \<Rightarrow> (int \<times> kernel) option) \<Rightarrow> kernel \<Rightarrow> (int outcome \<times> kernel) option" where
  "with_string ustr call st = do {
     (r, st) \<leftarrow> copy_in_string ustr st;
     case r of
       Returns ks \<Rightarrow> do {
         (x, st) \<leftarrow> call (kstring ks st) st;
         st \<leftarrow> palloc_free_page ks st;
         Some (Returns x, st) }
     | Exits c \<Rightarrow> Some (Exits c, st)
     | Powers_off \<Rightarrow> Some (Powers_off, st) }"

definition verify_user :: "vaddr \<Rightarrow> vaddr \<Rightarrow> kernel \<Rightarrow> (bool \<times> kernel) option" where
  "verify_user esp uaddr st =
     (if \<not> is_user_vaddr uaddr \<or> uaddr < USER_VADDR_BOTTOM then Some (False, st)
      else case get_spte uaddr st of
        Some spte \<Rightarrow> do {
          s \<leftarrow> sptes st spte;
          st \<leftarrow> (if \<not> s_in_memory s then do { (_, st) \<leftarrow> load_page spte st; Some st } else Some st);
          s \<leftarrow> sptes st spte;
          Some (s_in_memory s, st) }
      | None \<Rightarrow> if uaddr \<ge> esp - 32 then grow_stack False uaddr st else Some (False, st))"

section \<open>Files\<close>

text \<open>A use of the file system under \<open>fs_lock\<close>.\<close>

definition locked :: "(fsys \<Rightarrow> ('a \<times> fsys) option) \<Rightarrow> kernel \<Rightarrow> ('a \<times> kernel) option" where
  "locked g st = do {
     st \<leftarrow> lock_fs st;
     (x, f) \<leftarrow> g (fs st);
     st \<leftarrow> unlock_fs (st\<lparr>fs := f\<rparr>);
     Some (x, st) }"

text \<open>\<open>filesys_create\<close> has a third parameter, for which \<open>sys_create\<close> gives no argument.\<close>

definition sys_create :: "bool \<Rightarrow> vaddr \<Rightarrow> 32 word \<Rightarrow> kernel \<Rightarrow> (int outcome \<times> kernel) option" where
  "sys_create isdir ufile initial_size = with_string ufile (\<lambda>kfile st. do {
     (ok, st) \<leftarrow> locked (filesys_create kfile (sint initial_size) isdir) st;
     Some (of_bool ok, st) })"

definition sys_remove :: "vaddr \<Rightarrow> kernel \<Rightarrow> (int outcome \<times> kernel) option" where
  "sys_remove ufile = with_string ufile (\<lambda>kfile st. do {
     (ok, st) \<leftarrow> locked (filesys_remove kfile) st;
     Some (of_bool ok, st) })"

text \<open>A directory that \<open>filesys_open\<close> returns is used as a file.\<close>

definition open_kfile :: "byte list \<Rightarrow> kernel \<Rightarrow> (int \<times> kernel) option" where
  "open_kfile kfile st =
     (if \<not> malloc_ok st then Some (- 1, st)
      else do {
        (h, st) \<leftarrow> locked (filesys_open kfile) st;
        case h of
          None \<Rightarrow> Some (- 1, st)
        | Some h \<Rightarrow> do {
            let file = (case h of File_handle a \<Rightarrow> a | Dir_handle a \<Rightarrow> a);
            let handle = p_next_handle (cur_proc st);
            Some (handle, upd_proc (\<lambda>p. p\<lparr>p_next_handle := wrap32 (handle + 1),
              p_fds := \<lparr>fd_file = file, fd_handle = handle\<rparr> # p_fds p\<rparr>) st) } })"

definition sys_open :: "vaddr \<Rightarrow> kernel \<Rightarrow> (int outcome \<times> kernel) option" where
  "sys_open ufile = with_string ufile open_kfile"

definition lookup_fd :: "int \<Rightarrow> kernel \<Rightarrow> file_descriptor option" where
  "lookup_fd handle st = find (\<lambda>fd. fd_handle fd = handle) (p_fds (cur_proc st))"

text \<open>A system call with a handle: \<open>lookup_fd\<close> ends the process when there is no such file.\<close>

definition with_fd :: "int \<Rightarrow> (file_descriptor \<Rightarrow> kernel \<Rightarrow> (int outcome \<times> kernel) option) \<Rightarrow> kernel \<Rightarrow> (int outcome \<times> kernel) option" where
  "with_fd handle call st = (case lookup_fd handle st of None \<Rightarrow> Some (Exits None, st) | Some fd \<Rightarrow> call fd st)"

definition sys_filesize :: "int \<Rightarrow> kernel \<Rightarrow> (int outcome \<times> kernel) option" where
  "sys_filesize handle = with_fd handle (\<lambda>fd st. do {
     (n, st) \<leftarrow> locked (\<lambda>f. do { n \<leftarrow> file_length (fd_file fd) f; Some (n, f) }) st;
     Some (Returns n, st) })"

definition sys_seek :: "int \<Rightarrow> 32 word \<Rightarrow> kernel \<Rightarrow> (int outcome \<times> kernel) option" where
  "sys_seek handle position = with_fd handle (\<lambda>fd st. do {
     (_, st) \<leftarrow> locked (\<lambda>f. if sint position \<ge> 0
       then do { f \<leftarrow> file_seek (fd_file fd) (sint position) f; Some ((), f) } else Some ((), f)) st;
     Some (Returns 0, st) })"

definition sys_tell :: "int \<Rightarrow> kernel \<Rightarrow> (int outcome \<times> kernel) option" where
  "sys_tell handle = with_fd handle (\<lambda>fd st. do {
     (position, st) \<leftarrow> locked (\<lambda>f. do { n \<leftarrow> file_tell (fd_file fd) f; Some (n, f) }) st;
     Some (Returns (wrap32 (int position)), st) })"

definition sys_close :: "int \<Rightarrow> kernel \<Rightarrow> (int outcome \<times> kernel) option" where
  "sys_close handle = with_fd handle (\<lambda>fd st. do {
     (_, st) \<leftarrow> locked (\<lambda>f. do { f \<leftarrow> file_close (Some (fd_file fd)) f; Some ((), f) }) st;
     Some (Returns 0, upd_proc (p_fds_update (remove1 fd)) st) })"

section \<open>Reading and writing\<close>

text \<open>The bytes left in the page of an address.\<close>

definition page_left :: "vaddr \<Rightarrow> nat" where
  "page_left va = PGSIZE - unat (pg_ofs va)"

lemma page_left_pos: "0 < page_left va"
  by (simp add: page_left_def unat_pg_ofs PGSIZE_val)

text \<open>\<open>keys\<close> are the characters that \<open>input_getc\<close> will return, from the \<open>k\<close>-th call on.\<close>

primrec read_keys :: "(nat \<Rightarrow> byte) \<Rightarrow> nat \<Rightarrow> nat \<Rightarrow> vaddr \<Rightarrow> kernel \<Rightarrow> bool \<times> kernel" where
  "read_keys keys 0 k udst st = (True, st)"
| "read_keys keys (Suc n) k udst st =
     (if udst \<ge> PHYS_BASE then (False, st)
      else let (ok, st) = put_user udst (keys k) st in
        if \<not> ok then (False, st) else read_keys keys n (k + 1) (udst + 1) st)"

text \<open>The loop of \<open>sys_read\<close> for a file. \<open>file_read\<close> copies to the user address itself: an access that
  faults there makes the kernel jump to whatever \<open>eax\<close> holds. It never returns a negative number.\<close>

function read_loop :: "vaddr \<Rightarrow> nat \<Rightarrow> vaddr \<Rightarrow> nat \<Rightarrow> int \<Rightarrow> kernel \<Rightarrow> (int outcome \<times> kernel) option" where
  "read_loop esp file udst cnt bytes_read st =
     (if cnt = 0 then Some (Returns bytes_read, st)
      else
        (let read_amt = (if cnt < page_left udst then cnt else page_left udst)
         in Option.bind (verify_user esp udst st) (\<lambda>(ok, st).
           if \<not> ok then Some (Exits None, st)
           else Option.bind (file_read file (int read_amt) (fs st)) (\<lambda>(bs, f).
             Option.bind (if bs = [] then Some (st\<lparr>fs := f\<rparr>) else mem_write udst bs (st\<lparr>fs := f\<rparr>)) (\<lambda>st.
               if length bs \<noteq> read_amt then Some (Returns (wrap32 (bytes_read + int (length bs))), st)
               else read_loop esp file (udst + word_of_nat (length bs)) (cnt - read_amt)
                 (wrap32 (bytes_read + int (length bs))) st)))))"
  by pat_completeness auto

termination
  by (relation "measure (\<lambda>(_, _, _, cnt, _, _). cnt)") (auto simp: page_left_pos)

declare read_loop.simps [simp del]

definition sys_read :: "(nat \<Rightarrow> byte) \<Rightarrow> vaddr \<Rightarrow> int \<Rightarrow> vaddr \<Rightarrow> 32 word \<Rightarrow> kernel \<Rightarrow> (int outcome \<times> kernel) option" where
  "sys_read keys esp handle udst cnt st =
     (if handle = 0
      then (let (ok, st) = read_keys keys (unat cnt) 0 udst st in
        Some (if ok then Returns (sint cnt) else Exits None, st))
      else with_fd handle (\<lambda>fd st. do {
        st \<leftarrow> lock_fs st;
        (r, st) \<leftarrow> read_loop esp (fd_file fd) udst (unat cnt) 0 st;
        st \<leftarrow> unlock_fs st;
        Some (r, st) }) st)"

text \<open>The loop of \<open>sys_write\<close>, to a file or, for \<^const>\<open>None\<close>, to the console, with what it prints there.\<close>

function write_loop :: "vaddr \<Rightarrow> nat option \<Rightarrow> vaddr \<Rightarrow> nat \<Rightarrow> int \<Rightarrow> byte list \<Rightarrow> kernel \<Rightarrow> (int outcome \<times> byte list \<times> kernel) option" where
  "write_loop esp file usrc cnt bytes_written out st =
     (if cnt = 0 then Some (Returns bytes_written, out, st)
      else
        (let write_amt = (if cnt < page_left usrc then cnt else page_left usrc)
         in Option.bind (verify_user esp usrc st) (\<lambda>(ok, st).
           if \<not> ok then Some (Exits None, out, st)
           else Option.bind (mem_read usrc write_amt st) (\<lambda>(bs, st).
             Option.bind (case file of
                 None \<Rightarrow> Some (write_amt, out @ bs, st)
               | Some file \<Rightarrow> Option.bind (file_write file bs (int write_amt) (fs st)) (\<lambda>(n, f). Some (n, out, st\<lparr>fs := f\<rparr>)))
               (\<lambda>(retval, out, st).
                 if retval \<noteq> write_amt then Some (Returns (wrap32 (bytes_written + int retval)), out, st)
                 else write_loop esp file (usrc + word_of_nat retval) (cnt - write_amt)
                   (wrap32 (bytes_written + int retval)) out st)))))"
  by pat_completeness auto

termination
  by (relation "measure (\<lambda>(_, _, _, cnt, _, _, _). cnt)") (auto simp: page_left_pos)

declare write_loop.simps [simp del]

definition sys_write :: "vaddr \<Rightarrow> int \<Rightarrow> vaddr \<Rightarrow> 32 word \<Rightarrow> kernel \<Rightarrow> (int outcome \<times> byte list \<times> kernel) option" where
  "sys_write esp handle usrc cnt st =
     (case (if handle = 1 then Some None else map_option (\<lambda>fd. Some (fd_file fd)) (lookup_fd handle st)) of
        None \<Rightarrow> Some (Exits None, [], st)
      | Some file \<Rightarrow> do {
          st \<leftarrow> lock_fs st;
          (r, out, st) \<leftarrow> write_loop esp file usrc (unat cnt) 0 [] st;
          st \<leftarrow> unlock_fs st;
          Some (r, out, st) })"

section \<open>Mapped files\<close>

text \<open>\<open>malloc\<close> of an entry and of a \<open>struct mmap_file\<close>: they both succeed or both fail here. When the
  table has an entry for the page already, the new one stays in \<open>mmaps\<close> with the type \<^const>\<open>HASH_FAIL\<close>.\<close>

definition add_mmap_to_pt :: "nat \<Rightarrow> nat \<Rightarrow> vaddr \<Rightarrow> nat \<Rightarrow> nat \<Rightarrow> kernel \<Rightarrow> (bool \<times> kernel) option" where
  "add_mmap_to_pt f ofs upage read_bytes zero_bytes st =
     (case malloc_spte st of
        (None, st) \<Rightarrow> Some (False, st)
      | (Some p, st) \<Rightarrow> do {
          st \<leftarrow> upd_spte p (\<lambda>s. s\<lparr>s_file := f, s_offset := ofs, s_vaddr := upage, s_read_bytes := read_bytes,
            s_zero_bytes := zero_bytes, s_in_memory := False, s_type := MMAP, s_writable := True, s_locked := False\<rparr>) st;
          let mf = next_ptr st;
          let st = st\<lparr>next_ptr := mf + 1, mmap_files := (mmap_files st)(mf \<mapsto> \<lparr>mf_spte = p, mf_mapid = p_mapid (cur_proc st)\<rparr>)\<rparr>;
          let st = upd_proc (p_mmaps_update (\<lambda>ms. ms @ [mf])) st;
          (old, st) \<leftarrow> spt_insert upage p st;
          if old \<noteq> None then do { st \<leftarrow> upd_spte p (s_type_update (\<lambda>_. HASH_FAIL)) st; Some (False, st) }
          else Some (True, st) })"

definition close_locked :: "nat option \<Rightarrow> kernel \<Rightarrow> kernel option" where
  "close_locked f st = (case f of
      None \<Rightarrow> Some st
    | Some _ \<Rightarrow> do { (_, st) \<leftarrow> locked (\<lambda>g. do { g \<leftarrow> file_close f g; Some ((), g) }) st; Some st })"

text \<open>What \<open>sys_munmap\<close> does to the page of a mapping: a changed page is written to the file, from its user
  address, and the page goes.\<close>

definition unmap_page :: "nat \<Rightarrow> kernel \<Rightarrow> kernel option" where
  "unmap_page p st = do {
     st \<leftarrow> upd_spte p (s_locked_update (\<lambda>_. True)) st;
     s \<leftarrow> sptes st p;
     let pd = p_pagedir (cur_proc st);
     st \<leftarrow> (if s_in_memory s then do {
         dirty \<leftarrow> pagedir_is_dirty pd (s_vaddr s) st;
         st \<leftarrow> (if dirty then do {
             st \<leftarrow> lock_fs st;
             (bs, st) \<leftarrow> mem_read (s_vaddr s) (s_read_bytes s) st;
             (_, f) \<leftarrow> file_write_at (s_file s) bs (int (s_read_bytes s)) (s_offset s) (fs st);
             unlock_fs (st\<lparr>fs := f\<rparr>) }
           else Some st);
         frame \<leftarrow> pagedir_get_page pd (s_vaddr s) st;
         st \<leftarrow> frame_free frame st;
         pagedir_clear_page pd (s_vaddr s) st }
       else Some st);
     if s_type s \<noteq> HASH_FAIL
     then do {
       (_, h) \<leftarrow> hash_delete page_hash_func page_less_func (malloc_ok st) (p_spt (cur_proc st)) (s_vaddr s, p);
       Some (upd_proc (p_spt_update (\<lambda>_. h)) st) }
     else Some st }"

text \<open>The loop; \<open>f\<close> is the file of the mapping \<open>close\<close>, which is closed when the next mapping begins.\<close>

primrec munmap_loop :: "int \<Rightarrow> nat list \<Rightarrow> nat option \<Rightarrow> int \<Rightarrow> kernel \<Rightarrow> kernel option" where
  "munmap_loop mapid [] f close st = close_locked f st"
| "munmap_loop mapid (m # ms) f close st = do {
     mf \<leftarrow> mmap_files st m;
     if mf_mapid mf = mapid \<or> mapid = CLOSE_ALL
     then do {
       st \<leftarrow> unmap_page (mf_spte mf) st;
       let st = upd_proc (p_mmaps_update (remove1 m)) st;
       s \<leftarrow> sptes st (mf_spte mf);
       (f, close, st) \<leftarrow> (if mf_mapid mf \<noteq> close
         then do { st \<leftarrow> close_locked f st; Some (Some (s_file s), mf_mapid mf, st) }
         else Some (f, close, st));
       munmap_loop mapid ms f close
         (st\<lparr>sptes := (sptes st)(mf_spte mf := None), mmap_files := (mmap_files st)(m := None)\<rparr>) }
     else munmap_loop mapid ms f close st }"

definition sys_munmap :: "int \<Rightarrow> kernel \<Rightarrow> kernel option" where
  "sys_munmap mapid st = munmap_loop mapid (p_mmaps (cur_proc st)) None 0 st"

text \<open>The loop of \<open>sys_mmap\<close>, with the bytes left of the file.\<close>

function mmap_loop :: "nat \<Rightarrow> nat \<Rightarrow> vaddr \<Rightarrow> nat \<Rightarrow> kernel \<Rightarrow> (bool \<times> kernel) option" where
  "mmap_loop file ofs addr read_bytes st =
     (if read_bytes = 0 then Some (True, st)
      else
        (let page_read_bytes = (if read_bytes < PGSIZE then read_bytes else PGSIZE);
             page_zero_bytes = PGSIZE - page_read_bytes
         in Option.bind (add_mmap_to_pt file ofs addr page_read_bytes page_zero_bytes st) (\<lambda>(ok, st).
           if \<not> ok then Some (False, st)
           else mmap_loop file (ofs + page_read_bytes) (addr + word_of_nat PGSIZE) (read_bytes - page_read_bytes) st)))"
  by pat_completeness auto

termination
  by (relation "measure (\<lambda>(_, _, _, n, _). n)") (auto simp: PGSIZE_val)

declare mmap_loop.simps [simp del]

definition sys_mmap :: "int \<Rightarrow> vaddr \<Rightarrow> kernel \<Rightarrow> (int outcome \<times> kernel) option" where
  "sys_mmap handle addr = with_fd handle (\<lambda>fd st.
     let old_file = fd_file fd in
     if \<not> is_user_vaddr addr \<or> addr < USER_VADDR_BOTTOM \<or> unat addr mod PGSIZE \<noteq> 0 then Some (Returns (- 1), st)
     else do {
       (file, f) \<leftarrow> file_reopen old_file (fs st);
       let st = st\<lparr>fs := f\<rparr>;
       case file of
         None \<Rightarrow> Some (Returns (- 1), st)
       | Some file \<Rightarrow> do {
           n \<leftarrow> file_length old_file (fs st);
           if n = 0 then Some (Returns (- 1), st)
           else do {
             let st = upd_proc (p_mapid_update (\<lambda>i. wrap32 (i + 1))) st;
             n \<leftarrow> file_length file (fs st);
             (ok, st) \<leftarrow> mmap_loop file 0 addr (nat n) st;
             if ok then Some (Returns (p_mapid (cur_proc st)), st)
             else do { st \<leftarrow> sys_munmap (p_mapid (cur_proc st)) st; Some (Returns (- 1), st) } } } })"

section \<open>The end of a process\<close>

text \<open>\<open>syscall_exit\<close>: the descriptors are freed, the list of them stays as it is.\<close>

primrec close_fds :: "file_descriptor list \<Rightarrow> kernel \<Rightarrow> kernel option" where
  "close_fds [] st = Some st"
| "close_fds (fd # fds) st = do {
     st \<leftarrow> (if \<not> fs_lock_held st then lock_fs st else Some st);
     f \<leftarrow> file_close (Some (fd_file fd)) (fs st);
     st \<leftarrow> unlock_fs (st\<lparr>fs := f\<rparr>);
     close_fds fds st }"

definition syscall_exit :: "kernel \<Rightarrow> kernel option" where
  "syscall_exit st = close_fds (p_fds (cur_proc st)) st"

text \<open>\<open>process_exit\<close>, up to what it does to the wait statuses.\<close>

definition process_exit :: "kernel \<Rightarrow> kernel option" where
  "process_exit st = do {
     f \<leftarrow> file_close (p_bin_file (cur_proc st)) (fs st);
     st \<leftarrow> sys_munmap CLOSE_ALL (st\<lparr>fs := f\<rparr>);
     st \<leftarrow> page_table_destroy st;
     let pd = p_pagedir (cur_proc st);
     if pd \<noteq> 0
     then do {
       st \<leftarrow> pagedir_activate 0 (upd_proc (p_pagedir_update (\<lambda>_. 0)) st);
       pagedir_destroy pd st }
     else Some st }"

definition thread_exit_files :: "kernel \<Rightarrow> kernel option" where
  "thread_exit_files st = do { st \<leftarrow> process_exit st; syscall_exit st }"

section \<open>The handlers\<close>

definition read32 :: "byte list \<Rightarrow> 32 word" where
  "read32 bs = word_rcat (rev (take 4 bs))"

definition arg_cnts :: "nat list" where
  "arg_cnts = [0, 1, 1, 1, 2, 1, 1, 1, 3, 3, 2, 1, 1, 2, 1]"

text \<open>\<open>sys_exec\<close> and \<open>sys_wait\<close> hand over to \<open>process_execute\<close> and \<open>process_wait\<close>, which let other threads
  run and are modelled with them in the theory \<open>Wait\<close>: \<open>Executes ks\<close> is the call of the first, with the
  command line in the page at \<open>ks\<close> and \<open>fs_lock\<close> held, \<open>Waits tid\<close> the call of the second. What comes
  behind these calls is \<open>syscall_resume\<close>.\<close>

datatype call_result = Ends "int outcome" | Executes vaddr | Waits int

definition sys_exec :: "vaddr \<Rightarrow> kernel \<Rightarrow> (call_result \<times> kernel) option" where
  "sys_exec ufile st = do {
     (r, st) \<leftarrow> copy_in_string ufile st;
     case r of
       Returns ks \<Rightarrow> do { st \<leftarrow> lock_fs st; Some (Executes ks, st) }
     | Exits c \<Rightarrow> Some (Ends (Exits c), st)
     | Powers_off \<Rightarrow> Some (Ends Powers_off, st) }"

text \<open>The entries of the table, with the arguments \<open>a\<close>, \<open>b\<close>, \<open>c\<close>. The second result is what is printed.\<close>

definition run_call ::
    "(nat \<Rightarrow> byte) \<Rightarrow> bool \<Rightarrow> vaddr \<Rightarrow> nat \<Rightarrow> 32 word \<Rightarrow> 32 word \<Rightarrow> 32 word \<Rightarrow> kernel \<Rightarrow> (call_result \<times> byte list \<times> kernel) option" where
  "run_call keys isdir esp call_nr a b c st =
     (let quiet = map_option (\<lambda>(r, st). (Ends r, [], st)) in
      if call_nr = 0 then Some (Ends Powers_off, [], st)
      else if call_nr = 1 then Some (Ends (Exits (Some (sint a))), [], st)
      else if call_nr = 2 then map_option (\<lambda>(r, st). (r, [], st)) (sys_exec a st)
      else if call_nr = 3 then Some (Waits (sint a), [], st)
      else if call_nr = 4 then quiet (sys_create isdir a b st)
      else if call_nr = 5 then quiet (sys_remove a st)
      else if call_nr = 6 then quiet (sys_open a st)
      else if call_nr = 7 then quiet (sys_filesize (sint a) st)
      else if call_nr = 8 then quiet (sys_read keys esp (sint a) b c st)
      else if call_nr = 9 then map_option (\<lambda>(r, out, st). (Ends r, out, st)) (sys_write esp (sint a) b c st)
      else if call_nr = 10 then quiet (sys_seek (sint a) b st)
      else if call_nr = 11 then quiet (sys_tell (sint a) st)
      else if call_nr = 12 then quiet (sys_close (sint a) st)
      else if call_nr = 13 then quiet (sys_mmap (sint a) b st)
      else quiet (do { st \<leftarrow> sys_munmap (sint a) st; Some (Returns 0, st) }))"

text \<open>The end of the handler: the page of \<open>esp\<close> is unlocked.\<close>

definition unlock_esp :: "vaddr \<Rightarrow> kernel \<Rightarrow> kernel option" where
  "unlock_esp esp st = (case get_spte esp st of
       None \<Rightarrow> Some st
     | Some spte \<Rightarrow> upd_spte spte (s_locked_update (\<lambda>_. False)) st)"

text \<open>\<open>Returns x\<close> is the value for \<open>f->eax\<close>. The arguments that are not copied are 0.\<close>

definition syscall_handler ::
    "(nat \<Rightarrow> byte) \<Rightarrow> bool \<Rightarrow> vaddr \<Rightarrow> kernel \<Rightarrow> (call_result \<times> byte list \<times> kernel) option" where
  "syscall_handler keys isdir esp st = do {
     (r, st) \<leftarrow> copy_in esp esp 4 st;
     case r of
       Returns nr \<Rightarrow>
         if unat (read32 nr) \<ge> length arg_cnts then Some (Ends (Exits None), [], st)
         else do {
           let arg_cnt = arg_cnts ! unat (read32 nr);
           ASSERT (arg_cnt \<le> 3);
           (r, st) \<leftarrow> copy_in esp (esp + 4) (4 * arg_cnt) st;
           case r of
             Returns bs \<Rightarrow> do {
               let args = bs @ replicate (12 - 4 * arg_cnt) 0;
               (x, out, st) \<leftarrow> run_call keys isdir esp (unat (read32 nr)) (read32 args) (read32 (drop 4 args)) (read32 (drop 8 args)) st;
               case x of
                 Ends (Returns _) \<Rightarrow> do { st \<leftarrow> unlock_esp esp st; Some (x, out, st) }
               | _ \<Rightarrow> Some (x, out, st) }
           | _ \<Rightarrow> Some (Ends (Exits None), [], st) }
     | _ \<Rightarrow> Some (Ends (Exits None), [], st) }"

text \<open>The rest of the call \<open>c\<close> when \<open>process_execute\<close> or \<open>process_wait\<close> has returned \<open>x\<close>, in the state of that time.\<close>

definition syscall_resume :: "vaddr \<Rightarrow> call_result \<Rightarrow> int \<Rightarrow> kernel \<Rightarrow> (call_result \<times> kernel) option" where
  "syscall_resume esp c x st = do {
     st \<leftarrow> (case c of Executes ks \<Rightarrow> do { st \<leftarrow> unlock_fs st; palloc_free_page ks st } | _ \<Rightarrow> Some st);
     st \<leftarrow> unlock_esp esp st;
     Some (Ends (Returns x), st) }"

text \<open>\<open>Recovers\<close> is the fault inside the kernel, which goes on where \<open>eax\<close> points. \<open>user\<close>, \<open>not_present\<close>
  and \<open>fault_addr\<close> come from the processor, \<open>esp\<close> is \<open>f->esp\<close>. \<open>kill\<close> ends the process: the fault was in
  its code segment.\<close>

datatype fault_result = Resumes | Recovers | Kills

definition page_fault :: "bool \<Rightarrow> bool \<Rightarrow> vaddr \<Rightarrow> vaddr \<Rightarrow> kernel \<Rightarrow> (fault_result \<times> kernel) option" where
  "page_fault user not_present fault_addr esp st =
     (if \<not> user then Some (Recovers, st)
      else do {
        (success, st) \<leftarrow> (if not_present \<and> is_user_vaddr fault_addr
          then do {
            loadable \<leftarrow> (case get_spte fault_addr st of
                None \<Rightarrow> Some None
              | Some spte \<Rightarrow> do { s \<leftarrow> sptes st spte; Some (if s_in_memory s then None else Some spte) });
            case loadable of
              Some spte \<Rightarrow> do {
                (ok, st) \<leftarrow> load_page spte st;
                st \<leftarrow> upd_spte spte (s_locked_update (\<lambda>_. False)) st;
                Some (ok, st) }
            | None \<Rightarrow> if fault_addr \<ge> esp - 32 then grow_stack False fault_addr st else Some (False, st) }
          else Some (False, st));
        Some (if success then Resumes else Kills, st) })"

end
