(* ===== verification/SyscallInv.thy ===== *)
theory SyscallInv
  imports Syscall
begin

text \<open>
  What the system calls of project 3 leave alone: the memory system keeps the open files of every
  process and the locks, whatever it does.
\<close>

section \<open>Memory\<close>

definition keeps :: "kernel \<Rightarrow> kernel \<Rightarrow> bool" where
  "keeps st st' \<longleftrightarrow> cur st' = cur st \<and> fs_lock_held st' = fs_lock_held st \<and> ft_lock_held st' = ft_lock_held st \<and>
     (\<forall>t. p_fds (procs st' t) = p_fds (procs st t) \<and> p_next_handle (procs st' t) = p_next_handle (procs st t))"

lemma keeps_refl [simp]: "keeps st st"
  by (simp add: keeps_def)

lemma keeps_paging: "paging.more st' = paging.more st \<Longrightarrow> keeps st st'"
  by (cases st; cases st') (simp add: keeps_def)

lemma keeps_vmem: "vmem.more st' = vmem.more st \<Longrightarrow> keeps st st'"
  by (cases st; cases st') (simp add: keeps_def)

lemma palloc_get_more: "palloc_get_page fl st = Some (a, st') \<Longrightarrow> paging.more st' = paging.more st"
  by (auto simp: palloc_get_page_def palloc_get_multiple_def set_pool_def fill_def bind_Some_iff Let_def split: if_splits)

lemma palloc_free_more: "palloc_free_page a st = Some st' \<Longrightarrow> paging.more st' = paging.more st"
  by (auto simp: palloc_free_page_def palloc_free_multiple_def set_pool_def fill_def bind_Some_iff Let_def split: if_splits)

lemma lookup_page_more: "lookup_page pd va c st = Some (a, st') \<Longrightarrow> paging.more st' = paging.more st"
  by (auto simp: lookup_page_def set_word_def bind_Some_iff Let_def split: if_splits dest!: palloc_get_more)

lemma set_page_more: "pagedir_set_page pd u k w st = Some (r, st') \<Longrightarrow> paging.more st' = paging.more st"
  by (auto simp: pagedir_set_page_def set_word_def bind_Some_iff Let_def split: if_splits dest!: lookup_page_more)

lemma invalidate_more: "invalidate_pagedir pd st = Some st' \<Longrightarrow> paging.more st' = paging.more st"
  by (auto simp: invalidate_pagedir_def pagedir_activate_def bind_Some_iff Let_def split: if_splits)

lemma clear_page_more: "pagedir_clear_page pd u st = Some st' \<Longrightarrow> paging.more st' = paging.more st"
  by (auto simp: pagedir_clear_page_def set_word_def bind_Some_iff Let_def split: if_splits dest!: lookup_page_more invalidate_more)

lemma set_accessed_more: "pagedir_set_accessed pd u b st = Some st' \<Longrightarrow> paging.more st' = paging.more st"
  by (auto simp: pagedir_set_accessed_def set_word_def bind_Some_iff Let_def split: if_splits dest!: lookup_page_more invalidate_more)

lemma mem_read_more: "mem_read va n st = Some (bs, st') \<Longrightarrow> paging.more st' = paging.more st"
  by (auto simp: mem_read_def mmu_def set_word_def bind_Some_iff Let_def split: if_splits)

lemma mem_write_more: "mem_write va bs st = Some st' \<Longrightarrow> paging.more st' = paging.more st"
  by (auto simp: mem_write_def mmu_def poke_def set_word_def bind_Some_iff Let_def split: if_splits)

lemma write_page_more: "write_page is i a d st = Some (d', st') \<Longrightarrow> paging.more st' = paging.more st"
  by (induction "is" arbitrary: d st) (auto simp: bind_Some_iff dest!: mem_read_more)

lemma read_page_more: "read_page is i a d st = Some (d', st') \<Longrightarrow> paging.more st' = paging.more st"
  by (induction "is" arbitrary: d st) (auto simp: bind_Some_iff dest!: mem_write_more)

lemma more_vmem:
  fixes st st' :: kernel
  shows "paging.more st' = paging.more st \<Longrightarrow> vmem.more st' = vmem.more st"
  by (cases st; cases st') simp

lemma swap_out_keeps: "swap_out a st = Some (i, st') \<Longrightarrow> keeps st st'"
  by (rule keeps_vmem) (auto simp: swap_out_def bind_Some_iff Let_def split: if_splits dest!: write_page_more more_vmem)

lemma swap_in_keeps: "swap_in j a st = Some st' \<Longrightarrow> keeps st st'"
  by (rule keeps_vmem) (auto simp: swap_in_def bind_Some_iff Let_def split: if_splits dest!: read_page_more more_vmem)

lemmas paging_keeps = palloc_get_more [THEN keeps_paging] palloc_free_more [THEN keeps_paging] set_page_more [THEN keeps_paging]
  clear_page_more [THEN keeps_paging] set_accessed_more [THEN keeps_paging] mem_read_more [THEN keeps_paging]
  mem_write_more [THEN keeps_paging] swap_out_keeps swap_in_keeps

lemma lockD:
  "lock_fs st = Some st' \<Longrightarrow> \<not> fs_lock_held st \<and> st' = st\<lparr>fs_lock_held := True\<rparr>"
  "unlock_fs st = Some st' \<Longrightarrow> fs_lock_held st \<and> st' = st\<lparr>fs_lock_held := False\<rparr>"
  "lock_ft st = Some st' \<Longrightarrow> \<not> ft_lock_held st \<and> st' = st\<lparr>ft_lock_held := True\<rparr>"
  "unlock_ft st = Some st' \<Longrightarrow> ft_lock_held st \<and> st' = st\<lparr>ft_lock_held := False\<rparr>"
  by (simp_all add: lock_fs_def unlock_fs_def lock_ft_def unlock_ft_def split: if_splits)

lemma upd_spte_keeps: "upd_spte p f st = Some st' \<Longrightarrow> keeps st st'"
  by (auto simp: upd_spte_def keeps_def split: option.splits)

lemmas step_keeps = paging_keeps upd_spte_keeps lockD

lemma frame_add_keeps: "frame_add_to_ft fr p st = Some st' \<Longrightarrow> keeps st st'"
  by (auto simp: frame_add_to_ft_def keeps_def bind_Some_iff Let_def split: if_splits dest!: lockD)

lemma frame_free_keeps: "frame_free fr st = Some st' \<Longrightarrow> keeps st st'"
  by (auto simp: frame_free_def keeps_def bind_Some_iff Let_def split: option.splits dest!: step_keeps)

lemma evict_frame_keeps: "evict_frame fl p st = Some (fr, st') \<Longrightarrow> keeps st st'"
  unfolding evict_frame_def
  by (auto simp: keeps_def bind_Some_iff Let_def split: if_splits dest!: step_keeps)

lemma frame_evict_loop_keeps:
  assumes "frame_evict_loop fl i st = Some r"
  shows "keeps st (snd r)"
proof (rule frame_evict_loop.raw_induct [of "\<lambda>fl i st r. keeps st (snd r)", OF _ assms])
  fix loop fl i st and r :: "vaddr option \<times> kernel"
  assume IH: "\<And>fl i st r. loop fl i st = Some r \<Longrightarrow> keeps st (snd r)"
    and s: "Option.bind (hash_next (frame_table st) i) (\<lambda>(e, i).
       case e of None \<Rightarrow> Some (None, st)
       | Some (_, p) \<Rightarrow>
           Option.bind (frame_entries st p) (\<lambda>fte.
           Option.bind (sptes st (fe_spte fte)) (\<lambda>s.
             if s_locked s then loop fl i st
             else Option.bind (pagedir_is_accessed (p_pagedir (procs st (fe_thread fte))) (s_vaddr s) st) (\<lambda>acc.
               if acc then Option.bind (pagedir_set_accessed (p_pagedir (procs st (fe_thread fte))) (s_vaddr s) False st)
                 (\<lambda>st. loop fl i st)
               else Option.bind (evict_frame fl p st) (\<lambda>(frame, st). Some (Some frame, st)))))) = Some r"
  show "keeps st (snd r)"
    using s by (auto simp: bind_Some_iff split: if_splits option.splits dest!: IH evict_frame_keeps step_keeps) (auto simp: keeps_def)
qed

lemma frame_evict_keeps: "frame_evict fl st = Some (r, st') \<Longrightarrow> \<not> ft_lock_held st \<and> keeps (st\<lparr>ft_lock_held := True\<rparr>) st'"
  by (auto simp: frame_evict_def bind_Some_iff dest!: lockD frame_evict_loop_keeps)

lemma evict_until_keeps:
  assumes "evict_until fl fr st = Some r"
  shows "keeps st (snd r) \<and> fst r \<noteq> 0"
proof (rule evict_until.raw_induct [of "\<lambda>fl fr st r. keeps st (snd r) \<and> fst r \<noteq> 0", OF _ assms])
  fix loop fl fr st and r :: "vaddr \<times> kernel"
  assume IH: "\<And>fl fr st r. loop fl fr st = Some r \<Longrightarrow> keeps st (snd r) \<and> fst r \<noteq> 0"
    and s: "(if fr \<noteq> 0 then Some (fr, st)
      else Option.bind (frame_evict fl st) (\<lambda>(r, st).
        Option.bind (unlock_ft st) (\<lambda>st.
          loop fl (case r of None \<Rightarrow> eax st | Some f \<Rightarrow> f) st))) = Some r"
  show "keeps st (snd r) \<and> fst r \<noteq> 0"
    using s by (auto simp: bind_Some_iff split: if_splits dest!: IH lockD frame_evict_keeps) (auto simp: keeps_def)
qed

lemma frame_alloc_keeps: "frame_alloc fl p st = Some (fr, st') \<Longrightarrow> keeps st st' \<and> (fl AND PAL_USER \<noteq> 0 \<longrightarrow> fr \<noteq> 0)"
  by (auto simp: frame_alloc_def bind_Some_iff split: if_splits dest!: frame_add_keeps evict_until_keeps step_keeps) (auto simp: keeps_def)

section \<open>Pages\<close>

lemma install_page_keeps: "install_page u k w st = Some (r, st') \<Longrightarrow> keeps st st'"
  by (auto simp: install_page_def Let_def bind_Some_iff split: if_splits dest!: step_keeps)

lemma poke_keeps [simp]: "keeps st (poke a bs st)"
  by (simp add: keeps_def poke_def)

lemma keeps_trans: "keeps st st1 \<Longrightarrow> keeps st1 st2 \<Longrightarrow> keeps st st2"
  by (simp add: keeps_def)

lemma load_file_page_keeps: "load_file_page p st = Some (r, st') \<Longrightarrow> keeps st st'"
  by (auto simp: load_file_page_def Let_def poke_def bind_Some_iff split: if_splits
      dest!: frame_alloc_keeps frame_free_keeps install_page_keeps step_keeps) (auto simp: keeps_def)

lemma load_swap_page_keeps: "load_swap_page p st = Some (r, st') \<Longrightarrow> keeps st st'"
  by (auto simp: load_swap_page_def Let_def bind_Some_iff split: if_splits
      dest!: frame_alloc_keeps frame_free_keeps install_page_keeps step_keeps) (auto simp: keeps_def)

lemma load_page_keeps: "load_page p st = Some (r, st') \<Longrightarrow> keeps st st'"
  by (auto simp: load_page_def bind_Some_iff split: if_splits mem_type.splits
      dest!: load_file_page_keeps load_swap_page_keeps step_keeps intro: keeps_trans)

lemma malloc_spte_keeps: "malloc_spte st = (p, st') \<Longrightarrow> keeps st st'"
  by (auto simp: malloc_spte_def keeps_def split: if_splits)

lemma upd_proc_keeps:
  "(\<And>p. p_fds (f p) = p_fds p) \<Longrightarrow> (\<And>p. p_next_handle (f p) = p_next_handle p) \<Longrightarrow> keeps st (upd_proc f st)"
  by (simp add: keeps_def upd_proc_def)

lemma spt_insert_keeps: "spt_insert va p st = Some (r, st') \<Longrightarrow> keeps st st'"
  by (auto simp: spt_insert_def bind_Some_iff intro!: upd_proc_keeps)

lemma grow_stack_keeps: "grow_stack b va st = Some (r, st') \<Longrightarrow> keeps st st'"
  by (auto simp: grow_stack_def Let_def bind_Some_iff split: if_splits option.splits prod.splits
      dest!: malloc_spte_keeps frame_alloc_keeps frame_free_keeps install_page_keeps spt_insert_keeps step_keeps) (auto simp: keeps_def)

section \<open>User memory\<close>

lemma get_user_keeps: "get_user a st = (r, st') \<Longrightarrow> keeps st st'"
  by (auto simp: get_user_def split: option.splits prod.splits dest!: step_keeps)

lemma put_user_keeps: "put_user a b st = (r, st') \<Longrightarrow> keeps st st'"
  by (auto simp: put_user_def split: option.splits dest!: step_keeps)

lemma copy_in_keeps: "copy_in esp a n st = Some (r, st') \<Longrightarrow> keeps st st'"
proof (induction n arbitrary: a st r)
  case (Suc n)
  show ?case
  proof (cases "\<not> is_user_vaddr a \<or> a < USER_VADDR_BOTTOM")
    case False
    then obtain l st1 where l: "(case get_spte a st of
            Some spte \<Rightarrow> do { (_, st) \<leftarrow> load_page spte st; s \<leftarrow> sptes st spte; Some (s_in_memory s, st) }
          | None \<Rightarrow> if a \<ge> esp - 32 then grow_stack False a st else Some (False, st)) = Some (l, st1)"
      and s: "(case get_user a st1 of
          (None, st) \<Rightarrow> Some (Exits None, st)
        | (Some b, st) \<Rightarrow> do {
            (r, st) \<leftarrow> copy_in esp (a + 1) n st;
            Some (case r of Returns bs \<Rightarrow> Returns (b # bs) | _ \<Rightarrow> r, st) }) = Some (r, st')"
      using Suc.prems by (auto simp: bind_Some_iff)
    have 1: "keeps st st1"
      using l by (auto simp: bind_Some_iff split: if_splits option.splits dest!: load_page_keeps grow_stack_keeps)
    obtain g st2 where g: "get_user a st1 = (g, st2)" by fastforce
    have "keeps st2 st'" using s g by (auto simp: bind_Some_iff split: option.splits dest!: Suc.IH)
    then show ?thesis using 1 get_user_keeps [OF g] by (blast intro: keeps_trans)
  qed (use Suc.prems in auto)
qed simp

lemma copy_string_keeps: "copy_string n ks us st = (r, st') \<Longrightarrow> keeps st st'"
proof (induction n arbitrary: ks us st)
  case (Suc n)
  show ?case
    using Suc.prems
    by (auto simp: Let_def split: if_splits option.splits prod.splits dest!: get_user_keeps Suc.IH) (auto simp: keeps_def poke_def)
qed simp

lemma copy_in_string_keeps: "copy_in_string us st = Some (r, st') \<Longrightarrow> keeps st st'"
  by (auto simp: copy_in_string_def bind_Some_iff split: if_splits option.splits bool.splits prod.splits
      dest!: copy_string_keeps step_keeps intro: keeps_trans poke_keeps)

lemma verify_user_keeps: "verify_user esp a st = Some (r, st') \<Longrightarrow> keeps st st'"
  by (auto simp: verify_user_def bind_Some_iff split: if_splits option.splits dest!: load_page_keeps grow_stack_keeps)

lemma read_keys_keeps: "read_keys keys n k a st = (r, st') \<Longrightarrow> keeps st st'"
proof (induction n arbitrary: k a st)
  case (Suc n)
  show ?case
    using Suc.prems by (auto simp: Let_def split: if_splits prod.splits dest!: put_user_keeps Suc.IH intro: keeps_trans)
qed simp

lemma fs_keeps [simp]: "keeps st (st\<lparr>fs := f\<rparr>)"
  by (simp add: keeps_def)

lemma read_loop_keeps: "read_loop esp fl a n k st = Some (r, st') \<Longrightarrow> keeps st st'"
proof (induction esp fl a n k st arbitrary: r rule: read_loop.induct)
  case (1 esp fl a n k st)
  show ?case
  proof (cases "n = 0")
    case True
    then show ?thesis using 1(2) by (simp add: read_loop.simps)
  next
    case False
    let ?m = "if n < page_left a then n else page_left a"
    obtain ok st1 where v: "verify_user esp a st = Some (ok, st1)" and
      s: "(if \<not> ok then Some (Exits None, st1)
           else Option.bind (file_read fl (int ?m) (fs st1)) (\<lambda>(bs, f).
             Option.bind (if bs = [] then Some (st1\<lparr>fs := f\<rparr>) else mem_write a bs (st1\<lparr>fs := f\<rparr>)) (\<lambda>st.
               if length bs \<noteq> ?m then Some (Returns (wrap32 (k + int (length bs))), st)
               else read_loop esp fl (a + word_of_nat (length bs)) (n - ?m) (wrap32 (k + int (length bs))) st))) = Some (r, st')"
      using 1(2) False by (subst (asm) read_loop.simps) (auto simp: Let_def bind_Some_iff simp del: if_split split del: if_split)
    show ?thesis
    proof (cases ok)
      case True
      then obtain bs f st2 where f: "file_read fl (int ?m) (fs st1) = Some (bs, f)"
        and w: "(if bs = [] then Some (st1\<lparr>fs := f\<rparr>) else mem_write a bs (st1\<lparr>fs := f\<rparr>)) = Some st2"
        and s: "(if length bs \<noteq> ?m then Some (Returns (wrap32 (k + int (length bs))), st2)
               else read_loop esp fl (a + word_of_nat (length bs)) (n - ?m) (wrap32 (k + int (length bs))) st2) = Some (r, st')"
        using s unfolding bind_Some_iff by (auto simp: bind_Some_iff simp del: if_split split del: if_split)
      have k2: "keeps st1 st2" using w by (auto split: if_splits dest!: step_keeps intro: keeps_trans [OF fs_keeps])
      have "keeps st2 st'"
      proof (cases "length bs = ?m")
        case True
        then show ?thesis
          using s 1(1) [OF False refl v refl _ f refl w] \<open>ok\<close> by auto
      qed (use s in auto)
      then show ?thesis using verify_user_keeps [OF v] k2 by (blast intro: keeps_trans)
    qed (use s verify_user_keeps [OF v] in auto)
  qed
qed

lemma write_loop_keeps: "write_loop esp fl a n k out st = Some (r, out', st') \<Longrightarrow> keeps st st'"
proof (induction esp fl a n k out st arbitrary: r rule: write_loop.induct)
  case (1 esp fl a n k out st)
  show ?case
  proof (cases "n = 0")
    case True
    then show ?thesis using 1(2) by (simp add: write_loop.simps)
  next
    case False
    let ?m = "if n < page_left a then n else page_left a"
    let ?w = "\<lambda>bs st. case fl of
                 None \<Rightarrow> Some (?m, out @ bs, st)
               | Some fl \<Rightarrow> Option.bind (file_write fl bs (int ?m) (fs st)) (\<lambda>(n, f). Some (n, out, st\<lparr>fs := f\<rparr>))"
    obtain ok st1 where v: "verify_user esp a st = Some (ok, st1)" and
      s: "(if \<not> ok then Some (Exits None, out, st1)
           else Option.bind (mem_read a ?m st1) (\<lambda>(bs, st).
             Option.bind (?w bs st) (\<lambda>(retval, out, st).
               if retval \<noteq> ?m then Some (Returns (wrap32 (k + int retval)), out, st)
               else write_loop esp fl (a + word_of_nat retval) (n - ?m) (wrap32 (k + int retval)) out st))) = Some (r, out', st')"
      using 1(2) False by (subst (asm) write_loop.simps) (auto simp: Let_def bind_Some_iff simp del: if_split split del: if_split)
    show ?thesis
    proof (cases ok)
      case True
      then obtain bs st2 x out2 st3 where m: "mem_read a ?m st1 = Some (bs, st2)" and w: "?w bs st2 = Some (x, out2, st3)"
        and s: "(if x \<noteq> ?m then Some (Returns (wrap32 (k + int x)), out2, st3)
               else write_loop esp fl (a + word_of_nat x) (n - ?m) (wrap32 (k + int x)) out2 st3) = Some (r, out', st')"
        using s unfolding bind_Some_iff by (auto simp: bind_Some_iff simp del: if_split split del: if_split)
      have k3: "keeps st2 st3" using w by (auto simp: bind_Some_iff split: option.splits)
      have "keeps st3 st'"
      proof (cases "x = ?m")
        case True
        then show ?thesis using s 1(1) [OF False refl v refl _ m refl w refl refl] \<open>ok\<close> by auto
      qed (use s in auto)
      then show ?thesis using verify_user_keeps [OF v] mem_read_more [OF m, THEN keeps_paging] k3 by (blast intro: keeps_trans)
    qed (use s verify_user_keeps [OF v] in auto)
  qed
qed

section \<open>Files and mappings\<close>

lemma locked_keeps: "locked g st = Some (x, st') \<Longrightarrow> keeps st st' \<and> \<not> fs_lock_held st"
  by (auto simp: locked_def bind_Some_iff keeps_def dest!: lockD)

lemma locked_procs: "locked g st = Some (x, st') \<Longrightarrow> procs st' = procs st \<and> cur st' = cur st"
  by (auto simp: locked_def bind_Some_iff dest!: lockD)

lemma close_locked_keeps: "close_locked f st = Some st' \<Longrightarrow> keeps st st'"
  by (auto simp: close_locked_def bind_Some_iff split: option.splits dest!: locked_keeps)

lemma unmap_page_keeps: "unmap_page p st = Some st' \<Longrightarrow> keeps st st'"
proof -
  have u: "keeps st (upd_proc (p_spt_update f) st)" for f st by (simp add: upd_proc_keeps)
  show "unmap_page p st = Some st' \<Longrightarrow> keeps st st'"
    by (auto simp: unmap_page_def Let_def bind_Some_iff upd_proc_def split: if_splits
        dest!: frame_free_keeps step_keeps) (auto simp: keeps_def)
qed

lemma munmap_loop_keeps: "munmap_loop i ms f c st = Some st' \<Longrightarrow> keeps st st'"
proof (induction ms arbitrary: i f c st)
  case (Cons m ms)
  show ?case
    using Cons.prems
    by (auto simp: Let_def bind_Some_iff upd_proc_def split: if_splits dest!: unmap_page_keeps close_locked_keeps Cons.IH)
      (auto simp: keeps_def)
qed (simp add: close_locked_keeps)

lemma add_mmap_keeps: "add_mmap_to_pt f ofs a n z st = Some (r, st') \<Longrightarrow> keeps st st'"
  by (auto simp: add_mmap_to_pt_def Let_def bind_Some_iff upd_proc_def split: if_splits prod.splits option.splits
      dest!: malloc_spte_keeps spt_insert_keeps step_keeps) (auto simp: keeps_def)

lemma mmap_loop_keeps: "mmap_loop fl ofs a n st = Some (r, st') \<Longrightarrow> keeps st st'"
proof (induction fl ofs a n st arbitrary: r rule: mmap_loop.induct)
  case (1 fl ofs a n st)
  show ?case
  proof (cases "n = 0")
    case True
    then show ?thesis using 1(2) by (simp add: mmap_loop.simps)
  next
    case False
    let ?m = "if n < PGSIZE then n else PGSIZE"
    obtain ok st1 where v: "add_mmap_to_pt fl ofs a ?m (PGSIZE - ?m) st = Some (ok, st1)" and
      s: "(if \<not> ok then Some (False, st1) else mmap_loop fl (ofs + ?m) (a + word_of_nat PGSIZE) (n - ?m) st1) = Some (r, st')"
      using 1(2) False by (subst (asm) mmap_loop.simps) (auto simp: Let_def bind_Some_iff simp del: if_split split del: if_split)
    have "keeps st1 st'"
      using s 1(1) [OF False refl refl v refl] by (cases ok) auto
    then show ?thesis using add_mmap_keeps [OF v] by (blast intro: keeps_trans)
  qed
qed

lemma sys_munmap_keeps: "sys_munmap i st = Some st' \<Longrightarrow> keeps st st'"
  unfolding sys_munmap_def by (rule munmap_loop_keeps)

end
