(* ===== verification/VmSpec.thy ===== *)
theory VmSpec
  imports Page
begin

text \<open>
  What eviction and loading of a page do: a page that \<open>frame_evict\<close> takes away keeps its content
  in the swap device, and \<open>load_page\<close> brings it back.
\<close>

section \<open>Page tables do not see other pages\<close>

definition in_kernel_pool :: "'a ram_scheme \<Rightarrow> vaddr \<Rightarrow> bool" where
  "in_kernel_pool st x \<longleftrightarrow> (\<exists>i < pool_size (kernel_pool st). pg_no x = pg_no (pool_page (kernel_pool st) i))"

lemma pool_used_in: "a \<in> pool_used (kernel_pool st) \<Longrightarrow> in_kernel_pool st a"
  by (auto simp: pool_used_def in_kernel_pool_def bm_used_def pool_size_def)

lemma ptr_in_pool: "ram_ok st \<Longrightarrow> a \<in> pool_used (kernel_pool st) \<Longrightarrow> unat k < 1024 \<Longrightarrow> in_kernel_pool st (ptr_add a k)"
  using pool_used_in[of a st] pool_used_page(1)[of st a] by (simp add: in_kernel_pool_def pg_no_ptr_add)

lemma pt_ok_cong:
  fixes st st' :: "'a paging_scheme"
  assumes ok: "pt_ok st pd" and r: "ram_ok st'" "cr3 st' = cr3 st" "kernel_pool st' = kernel_pool st"
    and w: "\<And>x. in_kernel_pool st x \<Longrightarrow> ram_words st' x = ram_words st x"
  shows "pt_ok st' pd" "is_user_vaddr va \<Longrightarrow> entry st' pd va = entry st pd va"
    "is_user_vaddr va \<Longrightarrow> table st' pd va = table st pd va"
proof -
  note pd = pt_okD[OF ok]
  have pde: "pde_at st' pd wa = pde_at st pd wa" for wa
    using w[OF ptr_in_pool[OF pd_okD(1,3)[OF pd] pd_no_bound]] by (simp add: pde_at_def)
  then have tab: "table st' pd wa = table st pd wa" for wa by (simp add: table_def)
  then show "is_user_vaddr va \<Longrightarrow> table st' pd va = table st pd va" by blast
  have ent: "entry st' pd wa = entry st pd wa" if "is_user_vaddr wa" for wa
  proof (cases "table st pd wa")
    case (Some pt)
    show ?thesis
      using w[OF ptr_in_pool[OF pd_okD(1)[OF pd] table_Some(1)[OF pd that Some] pt_no_bound]] Some
      by (simp add: entry_def tab)
  qed (simp add: entry_def tab)
  then show "is_user_vaddr va \<Longrightarrow> entry st' pd va = entry st pd va" by blast
  have "pd_ok st' pd" using pd r unfolding pd_ok_def pde tab by simp
  then show "pt_ok st' pd" using ok ent unfolding pt_ok_def by metis
qed

lemma pview_cong: "entry st' pd va = entry st pd va \<Longrightarrow> pview st' pd va = pview st pd va"
  by (simp add: pview_def)

text \<open>A page of the user pool is not in the kernel pool.\<close>

lemma user_page:
  assumes "ram_ok st" "a \<in> pool_used (user_pool st)"
  shows "pg_ofs a = 0" "is_kernel_vaddr a" "a \<noteq> 0" "\<not> in_kernel_pool st a"
proof -
  obtain i where i: "a = pool_page (user_pool st) i" "i < pool_size (user_pool st)"
    using assms(2) by (auto simp: pool_used_def bm_used_def pool_size_def)
  have p: "pool_ok (user_pool st)" "pool_ok (kernel_pool st)" using assms(1) by (simp_all add: ram_ok_def)
  show al: "pg_ofs a = 0" and "is_kernel_vaddr a" "a \<noteq> 0"
    using i p by (simp_all add: pool_page_aligned pool_page_kernel pool_page_nonnull)
  show "\<not> in_kernel_pool st a"
  proof
    assume "in_kernel_pool st a"
    then obtain j where j: "j < pool_size (kernel_pool st)" "pg_no a = pg_no (pool_page (kernel_pool st) j)"
      by (auto simp: in_kernel_pool_def)
    then have "a = pool_page (kernel_pool st) j"
      using pg_no_inj[OF al pool_page_aligned[OF p(2) j(1)]] by blast
    then show False using pools_disjoint[OF assms(1) j(1) i(2)] i(1) by simp
  qed
qed

lemma fill_outside: "ram_ok st \<Longrightarrow> a \<in> pool_used (user_pool st) \<Longrightarrow> in_kernel_pool st x \<Longrightarrow>
    ram_words (fill a c PGSIZE st') x = ram_words st' x"
proof -
  assume a: "ram_ok st" "a \<in> pool_used (user_pool st)" "in_kernel_pool st x"
  have "pg_no x \<noteq> pg_no a" using user_page(4)[OF a(1,2)] a(3) by (auto simp: in_kernel_pool_def)
  then have "\<not> unat (x - a) < PGSIZE" using in_page_iff[OF user_page(1)[OF a(1,2)]] by blast
  then show ?thesis by (simp add: fill_def)
qed

section \<open>Frames\<close>

definition free_frame :: "'a ram_scheme \<Rightarrow> bool" where
  "free_frame st \<longleftrightarrow> (\<exists>i < pool_size (user_pool st). i \<notin> bm_used (used_map (user_pool st)))"

text \<open>\<open>st'\<close> differs from \<open>st\<close> in the bitmap of the user pool and in the content of the page \<open>a\<close>.\<close>

definition user_step :: "vaddr \<Rightarrow> 'a ram_scheme \<Rightarrow> 'a ram_scheme \<Rightarrow> bool" where
  "user_step a st st' \<longleftrightarrow> (\<exists>b c. st' = set_pool True b st \<or> st' = set_pool True b (fill a c PGSIZE st)) \<and> ram_ok st' \<and>
     pool_size (user_pool st') = pool_size (user_pool st) \<and> pool_base (user_pool st') = pool_base (user_pool st)"

lemma user_alloc:
  assumes ok: "ram_ok st" and fl: "fl AND PAL_USER \<noteq> 0" and free: "free_frame st"
  shows "\<exists>a st'. palloc_get_page fl st = Some (a, st') \<and> a \<noteq> 0 \<and> a \<notin> pool_used (user_pool st) \<and>
    pool_used (user_pool st') = insert a (pool_used (user_pool st)) \<and> user_step a st st' \<and>
    (\<exists>i < pool_size (user_pool st). a = pool_page (user_pool st) i)"
proof -
  have f: "flag_pool fl st = user_pool st" using fl by (simp add: flag_pool_def)
  obtain a st' where g: "palloc_get_multiple fl 1 st = Some (a, st')" "a \<noteq> 0" "ram_ok st'" "got_pages fl 1 a st st'"
    using palloc_get_multiple_spec[OF ok, of 1 fl] free unfolding f free_frame_def by auto
  obtain i b where h: "a = pool_page (user_pool st) i" "i < pool_size (user_pool st)" "i \<notin> bm_used (used_map (user_pool st))"
      "bm_upd (used_map (user_pool st)) {i} True b"
      "st' = (if fl AND PAL_ZERO \<noteq> 0 then fill a 0 PGSIZE (set_pool True b st) else set_pool True b st)"
    using g(4) fl unfolding got_pages_def Let_def f by auto
  have p: "pool_ok (user_pool st)" using ok by (simp add: ram_ok_def)
  have "a \<notin> pool_used (user_pool st)"
  proof
    assume "a \<in> pool_used (user_pool st)"
    then obtain j where "j \<in> bm_used (used_map (user_pool st))" "a = pool_page (user_pool st) j"
      by (auto simp: pool_used_def)
    then show False using h(1-3) pool_page_inj[OF p h(2), of j] by (auto simp: bm_used_def pool_size_def)
  qed
  moreover have u: "user_pool st' = (user_pool st)\<lparr>used_map := b\<rparr>" by (simp add: h(5))
  moreover have "bm_used b = insert i (bm_used (used_map (user_pool st)))"
    using h(2,4) by (auto simp: bm_upd_def bm_used_def pool_size_def)
  then have "pool_used (user_pool st') = insert a (pool_used (user_pool st))"
    by (simp add: u pool_used_def h(1))
  moreover have "set_pool True b (fill a 0 PGSIZE st) = fill a 0 PGSIZE (set_pool True b st)"
    by (simp add: set_pool_def fill_def cong: if_cong)
  then have "st' = set_pool True b st \<or> st' = set_pool True b (fill a 0 PGSIZE st)" by (simp add: h(5))
  then have "user_step a st st'"
    unfolding user_step_def using g(3) h(4) u by (intro conjI exI) (assumption, simp_all add: bm_upd_def pool_size_def)
  ultimately show ?thesis using g(1,2) h(1,2) unfolding palloc_get_page_def by blast
qed

lemma user_release:
  assumes ok: "ram_ok st" and a: "a \<in> pool_used (user_pool st)"
  shows "\<exists>st'. palloc_free_page a st = Some st' \<and> pool_used (user_pool st') = pool_used (user_pool st) - {a} \<and>
    user_step a st st' \<and> free_frame st'"
proof -
  obtain i where i: "a = pool_page (user_pool st) i" "i \<in> bm_used (used_map (user_pool st))"
    using a by (auto simp: pool_used_def)
  then have s: "i < pool_size (user_pool st)" by (simp add: bm_used_def pool_size_def)
  have p: "pool_ok (user_pool st)" using ok by (simp add: ram_ok_def)
  have w: "which_pool True st = user_pool st" by (simp add: which_pool_def)
  obtain b where b: "bm_upd (used_map (user_pool st)) {i} False b" "ram_ok (set_pool True b st)"
      "palloc_free_page a st = Some (set_pool True b (fill a 0xcc PGSIZE st))"
    using palloc_free_multiple_spec[OF ok, of 1 i True] s i unfolding w palloc_free_page_def by auto
  let ?st' = "set_pool True b (fill a 0xcc PGSIZE st)"
  have u: "user_pool ?st' = (user_pool st)\<lparr>used_map := b\<rparr>" by simp
  have "ram_ok ?st'" using b(2) by (simp add: set_pool_def fill_def ram_ok_def)
  then have "user_step a st ?st'" unfolding user_step_def using b(1) by (auto simp: u bm_upd_def pool_size_def)
  moreover have bu: "bm_used b = bm_used (used_map (user_pool st)) - {i}"
    using b(1) by (auto simp: bm_upd_def bm_used_def)
  have "pool_page (user_pool st) ` (bm_used (used_map (user_pool st)) - {i}) =
      pool_page (user_pool st) ` bm_used (used_map (user_pool st)) - {pool_page (user_pool st) i}"
    using pool_page_inj[OF p _ s] by (auto simp: bm_used_def pool_size_def)
  then have "pool_used (user_pool ?st') = pool_used (user_pool st) - {a}"
    by (simp add: u pool_used_def bu i(1))
  moreover have "free_frame ?st'"
    unfolding free_frame_def u using s b(1) by (auto simp: bu pool_size_def bm_upd_def)
  ultimately show ?thesis using b(3) by blast
qed

section \<open>Steps that change memory only\<close>

definition mem_only :: "'a ram_scheme \<Rightarrow> 'a ram_scheme \<Rightarrow> bool" where
  "mem_only st st' \<longleftrightarrow> (\<exists>k u B W. st' = st\<lparr>kernel_pool := k, user_pool := u, ram_bytes := B, ram_words := W\<rparr>)"

lemma mem_only_refl: "mem_only st st"
  unfolding mem_only_def
  by (intro exI[of _ "kernel_pool st"] exI[of _ "user_pool st"] exI[of _ "ram_bytes st"] exI[of _ "ram_words st"]) simp

lemma mem_only_trans: "mem_only st st1 \<Longrightarrow> mem_only st1 st2 \<Longrightarrow> mem_only st st2"
  unfolding mem_only_def by fastforce

lemma mem_only_words: "mem_only st (st\<lparr>ram_words := W\<rparr>)"
  unfolding mem_only_def
  by (intro exI[of _ "kernel_pool st"] exI[of _ "user_pool st"] exI[of _ "ram_bytes st"] exI[of _ W]) simp

lemma mem_only_tables: "only_tables st st' \<Longrightarrow> mem_only st st'"
proof -
  assume "only_tables st st'"
  then obtain b B W where "st' = st\<lparr>kernel_pool := (kernel_pool st)\<lparr>used_map := b\<rparr>, ram_bytes := B, ram_words := W\<rparr>"
    by (auto simp: only_tables_def)
  then show ?thesis unfolding mem_only_def
    by (intro exI[of _ "(kernel_pool st)\<lparr>used_map := b\<rparr>"] exI[of _ "user_pool st"] exI[of _ B] exI[of _ W]) simp
qed

lemma mem_only_user: "user_step a st st' \<Longrightarrow> mem_only st st'"
proof -
  assume "user_step a st st'"
  then obtain b c where "st' = set_pool True b st \<or> st' = set_pool True b (fill a c PGSIZE st)"
    by (auto simp: user_step_def)
  then have "st' = st\<lparr>kernel_pool := kernel_pool st, user_pool := (user_pool st)\<lparr>used_map := b\<rparr>,
      ram_bytes := ram_bytes st', ram_words := ram_words st'\<rparr>"
    by (auto simp: set_pool_def fill_def cong: if_cong)
  then show ?thesis unfolding mem_only_def by blast
qed

lemma mem_only_fields:
  fixes st :: kernel
  assumes "mem_only st st'"
  shows "init_page_dir st' = init_page_dir st" "cr3 st' = cr3 st" "swap_block st' = swap_block st"
    "swap_bitmap st' = swap_bitmap st" "fs st' = fs st" "fs_lock_held st' = fs_lock_held st"
    "ft_lock_held st' = ft_lock_held st" "sptes st' = sptes st" "frame_entries st' = frame_entries st"
    "frame_table st' = frame_table st" "mmap_files st' = mmap_files st" "procs st' = procs st" "cur st' = cur st"
    "malloc_ok st' = malloc_ok st" "next_ptr st' = next_ptr st" "spte_junk st' = spte_junk st" "eax st' = eax st"
    "init_ram_pages st' = init_ram_pages st"
  using assms by (auto simp: mem_only_def)

lemma user_step_mem:
  assumes "user_step a st st'" "pg_ofs a = 0"
  shows "kernel_pool st' = kernel_pool st" "ram_ok st'" "pg_no x \<noteq> pg_no a \<Longrightarrow> ram_bytes st' x = ram_bytes st x"
    "pg_no x \<noteq> pg_no a \<Longrightarrow> ram_words st' x = ram_words st x"
    "pool_size (user_pool st') = pool_size (user_pool st)" "pool_page (user_pool st') i = pool_page (user_pool st) i"
    "pool_base (user_pool st') = pool_base (user_pool st)"
  using assms in_page_iff[OF assms(2), of x] by (auto simp: user_step_def fill_def pool_page_def)

text \<open>Page tables after a step on a user page.\<close>

lemma user_step_tables:
  fixes st :: "'a paging_scheme"
  assumes u: "user_step a st st'" and a: "pg_ofs a = 0" "\<not> in_kernel_pool st a" and c: "cr3 st' = cr3 st" and ok: "pt_ok st pd"
  shows "pt_ok st' pd" "is_user_vaddr va \<Longrightarrow> entry st' pd va = entry st pd va"
    "is_user_vaddr va \<Longrightarrow> table st' pd va = table st pd va"
proof -
  have w: "ram_words st' x = ram_words st x" if "in_kernel_pool st x" for x
    using a(2) that by (intro user_step_mem(4)[OF u a(1)]) (auto simp: in_kernel_pool_def)
  note t = pt_ok_cong[OF ok user_step_mem(2)[OF u a(1)] c user_step_mem(1)[OF u a(1)] w]
  show "pt_ok st' pd" by (rule t(1))
  show "is_user_vaddr va \<Longrightarrow> entry st' pd va = entry st pd va" by (rule t(2))
  show "is_user_vaddr va \<Longrightarrow> table st' pd va = table st pd va" by (rule t(3))
qed

lemma peek_cong: "pg_ofs b = 0 \<Longrightarrow> (\<And>x. pg_no x = pg_no b \<Longrightarrow> ram_bytes st' x = ram_bytes st x) \<Longrightarrow> peek st' b PGSIZE = peek st b PGSIZE"
proof -
  assume b: "pg_ofs b = 0" "\<And>x. pg_no x = pg_no b \<Longrightarrow> ram_bytes st' x = ram_bytes st x"
  have "pg_no (b + word_of_nat i) = pg_no b" if "i < PGSIZE" for i
    using in_page_iff[OF b(1), of "b + word_of_nat i"] that by (simp add: unat_of_nat PGSIZE_val)
  then show ?thesis using b(2) by (simp add: peek_def)
qed

section \<open>Eviction\<close>

text \<open>Writing a frame to the swap device changes nothing else.\<close>

lemma swap_out_frame:
  fixes st :: "'a vmem_scheme"
  assumes ok: "swap_ok st" and a: "is_kernel_vaddr a" "pg_ofs a = 0" and free: "\<exists>i < swap_slots st. i \<notin> swap_used st"
  shows "\<exists>i d b. swap_out a st = Some (i, st\<lparr>swap_block := d, swap_bitmap := b\<rparr>) \<and>
    (let st' = st\<lparr>swap_block := d, swap_bitmap := b\<rparr> in i < swap_slots st \<and> i \<notin> swap_used st \<and>
      swap_used st' = insert i (swap_used st) \<and> swap_slots st' = swap_slots st \<and> swap_ok st' \<and>
      swap_page st' i = peek st a PGSIZE \<and> (\<forall>j. j \<noteq> i \<longrightarrow> swap_page st' j = swap_page st j))"
proof -
  let ?clr = "\<lambda>st :: 'a vmem_scheme. st\<lparr>ram_bytes := \<lambda>_. 0, swap_block := None, swap_bitmap := None\<rparr>"
  let ?J = "\<lambda>st'. ?clr st' = ?clr st"
  have p: "page_at False ?J a a" by (rule kernel_page_at[OF a]) simp_all
  obtain i st' where s: "swap_out a st = Some (i, st')" "i < swap_slots st" "i \<notin> swap_used st"
      "swap_used st' = insert i (swap_used st)" "swap_slots st' = swap_slots st" "swap_ok st'" "?J st'"
      "ram_bytes st' = ram_bytes st" "swap_page st' i = peek st a PGSIZE" "\<forall>j. j \<noteq> i \<longrightarrow> swap_page st' j = swap_page st j"
    using swap_out_spec[OF ok p refl] free by auto
  have "st' = st\<lparr>ram_bytes := ram_bytes st', swap_block := swap_block st', swap_bitmap := swap_bitmap st'\<rparr>"
    using arg_cong[OF s(7), of "\<lambda>x. x\<lparr>ram_bytes := ram_bytes st', swap_block := swap_block st', swap_bitmap := swap_bitmap st'\<rparr>"]
    by simp
  then have e: "st' = st\<lparr>swap_block := swap_block st', swap_bitmap := swap_bitmap st'\<rparr>" unfolding s(8) by simp
  have "swap_out a st = Some (i, st\<lparr>swap_block := swap_block st', swap_bitmap := swap_bitmap st'\<rparr>)"
    using s(1) e by simp
  then show ?thesis
    using s(2-6,9,10) unfolding Let_def e[symmetric]
    by (intro exI[of _ i] exI[of _ "swap_block st'"] exI[of _ "swap_bitmap st'"]) (simp add: e[symmetric])
qed

text \<open>The entry of a page that is on the swap device.\<close>

definition swapped :: "spt_entry \<Rightarrow> nat \<Rightarrow> spt_entry" where
  "swapped s i = s\<lparr>s_type := SWAP, s_swap_index := i, s_in_memory := False\<rparr>"

text \<open>The frame \<open>a\<close> of the thread's page \<open>va\<close> can be evicted to the swap device.\<close>

definition evictable :: "kernel \<Rightarrow> nat \<Rightarrow> vaddr \<Rightarrow> nat \<Rightarrow> spt_entry \<Rightarrow> vaddr \<Rightarrow> vaddr \<Rightarrow> bool" where
  "evictable st q a p s pd va \<longleftrightarrow> ram_ok st \<and> swap_ok st \<and> (\<exists>i < swap_slots st. i \<notin> swap_used st) \<and>
     ft.hash_wf (frame_table st) \<and> HashTable.elem_cnt (frame_table st) < 2 ^ 32 \<and> ft.hmap (frame_table st) a = Some (a, q) \<and>
     (\<exists>fe. frame_entries st q = Some fe \<and> fe_frame fe = a \<and> fe_spte fe = p \<and> p_pagedir (procs st (fe_thread fe)) = pd) \<and>
     sptes st p = Some s \<and> s_type s \<noteq> MMAP \<and> s_vaddr s = va \<and> is_user_vaddr va \<and> pg_ofs va = 0 \<and> pt_ok st pd \<and>
     (\<exists>w acc d. pview st pd va = Some (a, w, acc, d) \<and> (d \<or> s_type s = SWAP)) \<and> a \<in> pool_used (user_pool st)"

definition evicted :: "kernel \<Rightarrow> nat \<Rightarrow> vaddr \<Rightarrow> nat \<Rightarrow> spt_entry \<Rightarrow> vaddr \<Rightarrow> vaddr \<Rightarrow> nat \<Rightarrow> kernel \<Rightarrow> bool" where
  "evicted st q a p s pd va i st' \<longleftrightarrow> i \<notin> swap_used st \<and> swap_used st' = insert i (swap_used st) \<and> swap_ok st' \<and> ram_ok st' \<and>
     swap_page st' i = peek st a PGSIZE \<and> (\<forall>j. j \<noteq> i \<longrightarrow> swap_page st' j = swap_page st j) \<and>
     sptes st' = (sptes st)(p \<mapsto> swapped s i) \<and> frame_entries st' = (frame_entries st)(q := None) \<and>
     ft.hash_wf (frame_table st') \<and> ft.hmap (frame_table st') = (ft.hmap (frame_table st))(a := None) \<and> pt_ok st' pd \<and>
     (\<forall>wa. is_user_vaddr wa \<longrightarrow> table st' pd wa = table st pd wa \<and> pview st' pd wa = (if pg_no wa = pg_no va then None else pview st pd wa)) \<and>
     procs st' = procs st \<and> cur st' = cur st \<and> fs st' = fs st \<and> ft_lock_held st' = ft_lock_held st \<and>
     fs_lock_held st' = fs_lock_held st \<and> malloc_ok st' = malloc_ok st \<and> cr3 st' = cr3 st \<and> init_page_dir st' = init_page_dir st \<and>
     init_ram_pages st' = init_ram_pages st \<and> pool_base (user_pool st') = pool_base (user_pool st) \<and>
     pool_size (user_pool st') = pool_size (user_pool st) \<and> next_ptr st' = next_ptr st \<and> eax st' = eax st"

lemma pview_parts:
  assumes "pview st pd va = Some (a, w, acc, d)"
  shows "entry st pd va AND PTE_P \<noteq> 0" "d = (entry st pd va AND PTE_D \<noteq> 0)" "acc = (entry st pd va AND PTE_A \<noteq> 0)"
    "w = (entry st pd va AND PTE_W \<noteq> 0)" "a = the (pte_get_page (entry st pd va))"
  using assms by (auto simp: pview_def Let_def split: if_splits)

text \<open>The page tables of a state with the same memory.\<close>

lemma pt_ok_same:
  fixes st st' :: "'a paging_scheme"
  assumes "pt_ok st pd" "ram_words st' = ram_words st" "kernel_pool st' = kernel_pool st" "user_pool st' = user_pool st" "cr3 st' = cr3 st"
  shows "pt_ok st' pd" "\<And>va. entry st' pd va = entry st pd va" "\<And>va. table st' pd va = table st pd va"
proof -
  have e: "pde_at st' pd va = pde_at st pd va" for va by (simp add: pde_at_def assms(2))
  then show t: "table st' pd va = table st pd va" for va by (simp add: table_def)
  show en: "entry st' pd va = entry st pd va" for va by (simp add: entry_def t assms(2) split: option.split)
  show "pt_ok st' pd" using assms unfolding pt_ok_def pd_ok_def ram_ok_def en t e by simp
qed

lemma evict_frame_swaps:
  assumes ev: "evictable st q a p s pd va" and fl: "flags AND PAL_USER \<noteq> 0"
  shows "\<exists>f i st'. evict_frame flags q st = Some (f, st') \<and> f \<noteq> 0 \<and> evicted st q a p s pd va i st' \<and>
    f \<notin> pool_used (user_pool st) - {a} \<and> pool_used (user_pool st') = insert f (pool_used (user_pool st) - {a}) \<and>
    (\<forall>b \<in> pool_used (user_pool st) - {a, f}. peek st' b PGSIZE = peek st b PGSIZE)"
proof -
  note E = ev[unfolded evictable_def]
  obtain fe where fe: "frame_entries st q = Some fe" "fe_frame fe = a" "fe_spte fe = p" "p_pagedir (procs st (fe_thread fe)) = pd"
    using E by blast
  obtain w acc d where pv: "pview st pd va = Some (a, w, acc, d)" "d \<or> s_type s = SWAP" using E by blast
  have ro: "ram_ok st" and sw: "swap_ok st" and fs: "\<exists>i < swap_slots st. i \<notin> swap_used st" and hw: "ft.hash_wf (frame_table st)"
    and hc: "HashTable.elem_cnt (frame_table st) < 2 ^ 32" and hm: "ft.hmap (frame_table st) a = Some (a, q)"
    and sp: "sptes st p = Some s" "s_type s \<noteq> MMAP" "s_vaddr s = va" and va: "is_user_vaddr va" "pg_ofs va = 0" and pt: "pt_ok st pd"
    and au: "a \<in> pool_used (user_pool st)" using E by blast+
  note ap = user_page[OF ro au]
  have dirty: "pagedir_is_dirty pd va st = Some d" using pagedir_bits_spec(1)[OF pt va(1)] pview_parts(2)[OF pv(1)] by simp
  let ?st1 = "st\<lparr>sptes := (sptes st)(p \<mapsto> s\<lparr>s_type := SWAP\<rparr>)\<rparr>"
  have "swap_ok ?st1" "\<exists>i < swap_slots ?st1. i \<notin> swap_used ?st1" using sw fs by (simp_all add: swap_ok_def swap_slots_def swap_used_def)
  from swap_out_frame[OF this(1) ap(2,1) this(2)] obtain i db bm where
    so: "swap_out a ?st1 = Some (i, ?st1\<lparr>swap_block := db, swap_bitmap := bm\<rparr>)" and
    sr: "let st' = ?st1\<lparr>swap_block := db, swap_bitmap := bm\<rparr> in i < swap_slots ?st1 \<and> i \<notin> swap_used ?st1 \<and>
      swap_used st' = insert i (swap_used ?st1) \<and> swap_slots st' = swap_slots ?st1 \<and> swap_ok st' \<and>
      swap_page st' i = peek ?st1 a PGSIZE \<and> (\<forall>j. j \<noteq> i \<longrightarrow> swap_page st' j = swap_page ?st1 j)" by blast
  let ?st2 = "?st1\<lparr>swap_block := db, swap_bitmap := bm\<rparr>"
  obtain h where h: "hash_delete frame_hash frame_less (malloc_ok st) (frame_table st) (a, q) = Some (Some (a, q), h)"
      "ft.hash_wf h" "ft.hmap h = (ft.hmap (frame_table st))(a := None)"
    using ft.hash_delete_found[OF hw hc, of "(a, q)" "(a, q)" "malloc_ok st"] hm by auto
  let ?st4 = "?st2\<lparr>sptes := (sptes st)(p \<mapsto> swapped s i), frame_table := h\<rparr>"
  have pt4: "pt_ok ?st4 pd" and en4: "\<And>wa. entry ?st4 pd wa = entry st pd wa" and tb4: "\<And>wa. table ?st4 pd wa = table st pd wa"
    using pt_ok_same[OF pt, of ?st4] by simp_all
  obtain st5 W where c: "pagedir_clear_page pd va ?st4 = Some st5" "pt_ok st5 pd" "st5 = ?st4\<lparr>ram_words := W\<rparr>"
      "\<And>wa. is_user_vaddr wa \<Longrightarrow> table st5 pd wa = table ?st4 pd wa"
      "\<And>wa. is_user_vaddr wa \<Longrightarrow> entry st5 pd wa = (if pg_no wa = pg_no va then entry ?st4 pd va AND NOT PTE_P else entry ?st4 pd wa)"
    using pagedir_clear_page_spec[OF pt4 va] by blast
  have ro5: "ram_ok st5" using ro by (simp add: c(3) ram_ok_def)
  have au5: "a \<in> pool_used (user_pool st5)" using au by (simp add: c(3))
  obtain st6 where r: "palloc_free_page a st5 = Some st6" "pool_used (user_pool st6) = pool_used (user_pool st5) - {a}"
      "user_step a st5 st6" "free_frame st6" using user_release[OF ro5 au5] by blast
  let ?st7 = "st6\<lparr>frame_entries := (frame_entries st6)(q := None)\<rparr>"
  have "ram_ok ?st7" "free_frame ?st7"
    using user_step_mem(2)[OF r(3) ap(1)] r(4) by (simp_all add: ram_ok_def free_frame_def)
  from user_alloc[OF this(1) fl this(2)] obtain f st8 where g: "palloc_get_page flags ?st7 = Some (f, st8)" "f \<noteq> 0"
      "f \<notin> pool_used (user_pool ?st7)" "pool_used (user_pool st8) = insert f (pool_used (user_pool ?st7))" "user_step f ?st7 st8"
      "\<exists>k < pool_size (user_pool ?st7). f = pool_page (user_pool ?st7) k" by blast
  have run: "evict_frame flags q st = Some (f, st8)"
    using fe sp dirty pv(2) so h(1) c(1) r(1) g(1)
    by (simp add: evict_frame_def upd_spte_def swapped_def Let_def)
  have fo: "pg_ofs f = 0" using g(6) \<open>ram_ok ?st7\<close> pool_page_aligned by (auto simp: ram_ok_def)
  have ro8: "ram_ok st8" using user_step_mem(2)[OF g(5) fo] .
  have f8: "f \<in> pool_used (user_pool st8)" using g(4) by simp
  note m6 = mem_only_fields[OF mem_only_user[OF r(3)]] and m8 = mem_only_fields[OF mem_only_user[OF g(5)]]
  note k6 = user_step_mem[OF r(3) ap(1)] and k8 = user_step_mem[OF g(5) fo]
  have na: "\<not> in_kernel_pool st5 a" using ap(4) by (simp add: c(3) in_kernel_pool_def)
  note t6 = user_step_tables[OF r(3) ap(1) na m6(2) c(2)]
  have p7: "pt_ok ?st7 pd" and e7: "\<And>wa. entry ?st7 pd wa = entry st6 pd wa" and b7: "\<And>wa. table ?st7 pd wa = table st6 pd wa"
    using pt_ok_same[OF t6(1), of ?st7] by simp_all
  have nf: "\<not> in_kernel_pool ?st7 f"
    using user_page(4)[OF ro8 f8] k8(1) by (simp add: in_kernel_pool_def)
  note t8 = user_step_tables[OF g(5) fo nf m8(2) p7]
  have tab: "table st8 pd wa = table st pd wa" if "is_user_vaddr wa" for wa
    using that by (simp only: t8(3) b7 t6(3) c(4) tb4)
  have ent: "entry st8 pd wa = (if pg_no wa = pg_no va then entry st pd va AND NOT PTE_P else entry st pd wa)" if "is_user_vaddr wa" for wa
    using that by (simp only: t8(2) e7 t6(2) c(5) en4)
  have pv8: "pview st8 pd wa = (if pg_no wa = pg_no va then None else pview st pd wa)" if "is_user_vaddr wa" for wa
    unfolding pview_entry[OF ent[OF that]] by (simp add: bit_cleared pview_def Let_def)
  have pk: "peek st8 b PGSIZE = peek st b PGSIZE" if b: "b \<in> pool_used (user_pool st) - {a, f}" for b
  proof (rule peek_cong)
    note bp = user_page[OF ro, of b]
    show bo: "pg_ofs b = 0" using bp(1) b by blast
    have "pg_no b \<noteq> pg_no a" "pg_no b \<noteq> pg_no f" using b pg_no_inj[OF bo ap(1)] pg_no_inj[OF bo fo] by auto
    then show "ram_bytes st8 x = ram_bytes st x" if "pg_no x = pg_no b" for x
      using k8(3)[of x] k6(3)[of x] that by (simp add: c(3))
  qed
  have sw8: "swap_used st8 = swap_used ?st2" "swap_ok st8 = swap_ok ?st2" "\<And>j. swap_page st8 j = swap_page ?st2 j"
    by (simp_all add: swap_used_def swap_ok_def swap_page_def m8 m6 c(3))
  have sw0: "swap_used ?st1 = swap_used st" "\<And>j. swap_page ?st1 j = swap_page st j" "peek ?st1 a PGSIZE = peek st a PGSIZE"
    by (simp_all add: swap_used_def swap_page_def peek_def)
  have swr: "i \<notin> swap_used st" "swap_used st8 = insert i (swap_used st)" "swap_ok st8" "swap_page st8 i = peek st a PGSIZE"
      "\<forall>j. j \<noteq> i \<longrightarrow> swap_page st8 j = swap_page st j"
    using sr unfolding Let_def sw8 sw0 by blast+
  have "sptes st8 = (sptes st)(p \<mapsto> swapped s i)" "frame_entries st8 = (frame_entries st)(q := None)" "frame_table st8 = h"
      "procs st8 = procs st" "cur st8 = cur st" "fs st8 = fs st" "ft_lock_held st8 = ft_lock_held st"
      "fs_lock_held st8 = fs_lock_held st" "malloc_ok st8 = malloc_ok st" "cr3 st8 = cr3 st" "init_page_dir st8 = init_page_dir st"
      "init_ram_pages st8 = init_ram_pages st" "pool_base (user_pool st8) = pool_base (user_pool st)"
      "pool_size (user_pool st8) = pool_size (user_pool st)" "next_ptr st8 = next_ptr st" "eax st8 = eax st"
    by (simp_all add: m8 m6 c(3) k8(5,7) k6(5,7))
  then have "evicted st q a p s pd va i st8"
    unfolding evicted_def using swr ro8 h(2,3) t8(1) tab pv8 by simp
  then show ?thesis using run g(2-4) f8 pk r(2) by (intro exI[of _ f] exI[of _ i] exI[of _ st8]) (simp add: c(3))
qed

section \<open>Loading\<close>

lemma frame_alloc_free:
  assumes ok: "ram_ok st" "free_frame st" "malloc_ok st" "\<not> ft_lock_held st" and hw: "ft.hash_wf (frame_table st)"
    and hc: "HashTable.elem_cnt (frame_table st) < 2 ^ 32 - 1"
    and keys: "\<And>a. ft.hmap (frame_table st) a \<noteq> None \<Longrightarrow> a \<in> pool_used (user_pool st)" and fl: "fl AND PAL_USER \<noteq> 0"
  shows "\<exists>a st1 h. frame_alloc fl p st = Some (a, st1\<lparr>next_ptr := next_ptr st + 1,
      frame_entries := (frame_entries st)(next_ptr st \<mapsto> \<lparr>fe_frame = a, fe_spte = p, fe_thread = cur st\<rparr>), frame_table := h\<rparr>) \<and>
    a \<noteq> 0 \<and> a \<notin> pool_used (user_pool st) \<and> pool_used (user_pool st1) = insert a (pool_used (user_pool st)) \<and>
    user_step a st st1 \<and> (\<exists>i < pool_size (user_pool st). a = pool_page (user_pool st) i) \<and>
    ft.hash_wf h \<and> ft.hmap h = (ft.hmap (frame_table st))(a \<mapsto> (a, next_ptr st))"
proof -
  obtain a st1 where g: "palloc_get_page fl st = Some (a, st1)" "a \<noteq> 0" "a \<notin> pool_used (user_pool st)"
      "pool_used (user_pool st1) = insert a (pool_used (user_pool st))" "user_step a st st1"
      "\<exists>i < pool_size (user_pool st). a = pool_page (user_pool st) i"
    using user_alloc[OF ok(1) fl ok(2)] by blast
  note m = mem_only_fields[OF mem_only_user[OF g(5)]]
  have "ft.hmap (frame_table st) a = None" using keys g(3) by blast
  then obtain h where h: "hash_insert frame_hash frame_less (malloc_ok st) (frame_table st) (a, next_ptr st) = Some (None, h)"
      "ft.hash_wf h" "ft.hmap h = (ft.hmap (frame_table st))(a \<mapsto> (a, next_ptr st))"
    using ft.hash_insert_new[OF hw hc, of "(a, next_ptr st)" "malloc_ok st"] by auto
  have "ft_lock_held st1 = False" using m(7) ok(4) by simp
  then have l: "st1\<lparr>ft_lock_held := False\<rparr> = st1" by simp
  have "frame_add_to_ft a p st1 = Some (st1\<lparr>next_ptr := next_ptr st + 1,
      frame_entries := (frame_entries st)(next_ptr st \<mapsto> \<lparr>fe_frame = a, fe_spte = p, fe_thread = cur st\<rparr>), frame_table := h\<rparr>)"
    using ok(3,4) h(1) m l by (simp add: frame_add_to_ft_def lock_ft_def unlock_ft_def Let_def)
  then have "frame_alloc fl p st = Some (a, st1\<lparr>next_ptr := next_ptr st + 1,
      frame_entries := (frame_entries st)(next_ptr st \<mapsto> \<lparr>fe_frame = a, fe_spte = p, fe_thread = cur st\<rparr>), frame_table := h\<rparr>)"
    using fl g(1,2) by (simp add: frame_alloc_def)
  then show ?thesis using g h(2,3) by blast
qed

lemma same_page_user: "pg_no x = pg_no y \<Longrightarrow> is_user_vaddr x = is_user_vaddr y"
proof -
  assume p: "pg_no x = pg_no y"
  have "is_user_vaddr x \<longleftrightarrow> unat x div 4096 < 786432" for x
    by (simp add: is_user_vaddr_def word_less_nat_alt unat_PHYS_BASE div_less_iff_less_mult)
  moreover have "unat x div 4096 = unat y div 4096" using p unat_pg_no[of x] unat_pg_no[of y] by (simp add: PGSIZE_val)
  ultimately show ?thesis by simp
qed

lemma page_offset:
  assumes "pg_ofs va = 0" "k < PGSIZE"
  shows "pg_no (va + word_of_nat k) = pg_no va" "pg_ofs (va + word_of_nat k) = word_of_nat k"
proof -
  obtain m where m: "unat va = 4096 * m" using assms(1) by (auto simp: aligned_dvd PGSIZE_val elim: dvdE)
  then have "m < 1048576" using unat32[of va] by simp
  then have l: "4096 * m + k < 4294967296" using assms(2) by (simp add: PGSIZE_val)
  have u: "unat (va + word_of_nat k) = 4096 * m + k"
  proof -
    have "va + word_of_nat k = word_of_nat (unat va + k)" by simp
    then show ?thesis using l by (simp only: unat_of_nat m) simp
  qed
  show "pg_no (va + word_of_nat k) = pg_no va" using assms(2) by (simp add: word_unat_eq_iff unat_pg_no u m PGSIZE_val)
  have "unat (word_of_nat k :: 32 word) = k" using assms(2) by (simp add: unat_of_nat PGSIZE_val)
  then show "pg_ofs (va + word_of_nat k) = word_of_nat k" using assms(2) by (simp add: word_unat_eq_iff unat_pg_ofs u PGSIZE_val)
qed

text \<open>The processor's accesses to the mapped page \<open>va\<close>, whose frame is \<open>a\<close>, of the active directory:
  \<open>st0\<close> is the state at the start.\<close>

definition page_user_inv :: "'a vmem_scheme \<Rightarrow> vaddr \<Rightarrow> vaddr \<Rightarrow> vaddr \<Rightarrow> 'a vmem_scheme \<Rightarrow> bool" where
  "page_user_inv st0 pd va a st \<longleftrightarrow> pt_ok st pd \<and> active_pd st = Some pd \<and> entry st pd va AND PTE_P \<noteq> 0 \<and> entry st pd va AND PTE_W \<noteq> 0 \<and>
     pte_get_page (entry st pd va) = Some a \<and>
     (\<forall>wa. is_user_vaddr wa \<longrightarrow> table st pd wa = table st0 pd wa \<and> (pg_no wa \<noteq> pg_no va \<longrightarrow> entry st pd wa = entry st0 pd wa)) \<and>
     st\<lparr>ram_bytes := \<lambda>_. 0, ram_words := \<lambda>_. 0, swap_block := None, swap_bitmap := None\<rparr> =
     st0\<lparr>ram_bytes := \<lambda>_. 0, ram_words := \<lambda>_. 0, swap_block := None, swap_bitmap := None\<rparr>"

lemma user_page_at:
  fixes st0 :: "'a vmem_scheme"
  assumes va: "is_user_vaddr va" "pg_ofs va = 0"
  shows "page_at wr (page_user_inv st0 pd va a) va a"
  unfolding page_at_def
proof (intro conjI allI impI)
  fix st :: "'a vmem_scheme" and k assume j: "page_user_inv st0 pd va a st \<and> k < PGSIZE"
  let ?x = "va + word_of_nat k"
  note J = conjunct1[OF j, unfolded page_user_inv_def]
  note o' = page_offset[OF va(2) conjunct2[OF j]]
  have ux: "is_user_vaddr ?x" using same_page_user[OF o'(1)] va(1) by simp
  then have nk: "\<not> is_kernel_vaddr ?x" by (simp add: is_user_vaddr_def is_kernel_vaddr_def)
  have e: "entry st pd ?x = entry st pd va" using entry_page[OF o'(1)] .
  let ?w = "entry st pd va OR PTE_A OR (if wr then PTE_D else 0)"
  let ?st' = "set_word (entry_addr st pd ?x) ?w st"
  have pt: "pt_ok st pd" using J by blast
  have P: "entry st pd ?x AND PTE_P \<noteq> 0" using J e by simp
  note t = table_present[OF P]
  have wg: "pte_get_page ?w = Some a" using J by (simp add: pte_get_page_def or_flag_addr)
  then have "pte_get_page ?w \<noteq> None" by simp
  note s = store_ok[OF pt ux t this] and se = store_entry[OF pt_okD[OF pt] ux t, where w = ?w]
  have m: "mmu wr ?x st = Some (a + word_of_nat k, ?st')"
    using J nk P e o'(2) by (simp add: mmu_def or.assoc)
  have en: "entry ?st' pd wa = (if pg_no wa = pg_no va then ?w else entry st pd wa)" if "is_user_vaddr wa" for wa
    using s(2)[OF that] o'(1) by simp
  have "page_user_inv st0 pd va a ?st'"
    unfolding page_user_inv_def en[OF va(1)]
    using J s(1) se(2) en wg by (simp add: active_pd_def and_or_flags or_eq_0_iff) (simp add: set_word_def)
  then show "\<exists>st'. mmu wr ?x st = Some (a + word_of_nat k, st') \<and> page_user_inv st0 pd va a st' \<and> ram_bytes st' = ram_bytes st"
    using m by (auto simp: set_word_def)
next
  fix st :: "'a vmem_scheme" and f assume j: "page_user_inv st0 pd va a st"
  note p = pt_ok_same[of st pd "st\<lparr>ram_bytes := f\<rparr>"]
  show "page_user_inv st0 pd va a (st\<lparr>ram_bytes := f\<rparr>)"
    using j p unfolding page_user_inv_def by (simp add: active_pd_def)
next
  fix st :: "'a vmem_scheme" and d b assume j: "page_user_inv st0 pd va a st"
  note p = pt_ok_same[of st pd "st\<lparr>swap_block := d, swap_bitmap := b\<rparr>"]
  show "page_user_inv st0 pd va a (st\<lparr>swap_block := d, swap_bitmap := b\<rparr>)"
    using j p unfolding page_user_inv_def by (simp add: active_pd_def)
qed

definition frames_ok :: "kernel \<Rightarrow> bool" where
  "frames_ok st \<longleftrightarrow> (\<forall>k < pool_size (user_pool st). frame_ok st (pool_page (user_pool st) k)) \<and> ft.hash_wf (frame_table st) \<and>
     HashTable.elem_cnt (frame_table st) < 2 ^ 32 - 1 \<and>
     (\<forall>a. ft.hmap (frame_table st) a \<noteq> None \<longrightarrow> a \<in> pool_used (user_pool st)) \<and> malloc_ok st \<and> \<not> ft_lock_held st"

text \<open>The page \<open>va\<close> of the running process is in the swap slot \<open>i\<close>, and can be brought back when there is a free frame.\<close>

definition swapped_out :: "kernel \<Rightarrow> nat \<Rightarrow> spt_entry \<Rightarrow> vaddr \<Rightarrow> vaddr \<Rightarrow> nat \<Rightarrow> bool" where
  "swapped_out st p s pd va i \<longleftrightarrow> ram_ok st \<and> swap_ok st \<and> frames_ok st \<and>
     p_pagedir (cur_proc st) = pd \<and> pt_ok st pd \<and> active_pd st = Some pd \<and> pd \<noteq> init_page_dir st \<and>
     sptes st p = Some s \<and> s_type s = SWAP \<and> \<not> s_in_memory s \<and> s_writable s \<and> s_vaddr s = va \<and> s_swap_index s = i \<and>
     is_user_vaddr va \<and> pg_ofs va = 0 \<and> i \<in> swap_used st \<and> pview st pd va = None \<and> table st pd va \<noteq> None"

definition loadable :: "kernel \<Rightarrow> nat \<Rightarrow> spt_entry \<Rightarrow> vaddr \<Rightarrow> vaddr \<Rightarrow> nat \<Rightarrow> bool" where
  "loadable st p s pd va i \<longleftrightarrow> free_frame st \<and> swapped_out st p s pd va i"

lemma load_page_swaps_in:
  assumes l: "loadable st p s pd va i"
  shows "\<exists>a st'. load_page p st = Some (True, st') \<and> (\<exists>acc d. pview st' pd va = Some (a, True, acc, d)) \<and>
    peek st' a PGSIZE = swap_page st i \<and> swap_used st' = swap_used st - {i} \<and> a \<notin> pool_used (user_pool st) \<and>
    sptes st' = (sptes st)(p \<mapsto> s\<lparr>s_locked := True, s_in_memory := True\<rparr>) \<and>
    (\<forall>wa. is_user_vaddr wa \<and> pg_no wa \<noteq> pg_no va \<longrightarrow> pview st' pd wa = pview st pd wa) \<and>
    (\<forall>b \<in> pool_used (user_pool st). peek st' b PGSIZE = peek st b PGSIZE)"
proof -
  note L = l[unfolded loadable_def swapped_out_def frames_ok_def]
  have va: "is_user_vaddr va" "pg_ofs va = 0" and pt: "pt_ok st pd" and ro: "ram_ok st" using L by blast+
  have sp: "sptes st p = Some s" "s_type s = SWAP" "\<not> s_in_memory s" "s_writable s" "s_vaddr s = va" "s_swap_index s = i" using L by blast+
  let ?s1 = "s\<lparr>s_locked := True\<rparr>"
  let ?st0 = "st\<lparr>sptes := (sptes st)(p \<mapsto> ?s1)\<rparr>"
  have up: "upd_spte p (s_locked_update (\<lambda>_. True)) st = Some ?st0" using sp(1) by (simp add: upd_spte_def)
  have "ram_ok ?st0" "free_frame ?st0" "malloc_ok ?st0" "\<not> ft_lock_held ?st0" "ft.hash_wf (frame_table ?st0)"
      "HashTable.elem_cnt (frame_table ?st0) < 2 ^ 32 - 1"
      "\<And>a. ft.hmap (frame_table ?st0) a \<noteq> None \<Longrightarrow> a \<in> pool_used (user_pool ?st0)" "PAL_USER AND PAL_USER \<noteq> 0"
    using L by (simp_all add: ram_ok_def free_frame_def PAL_USER_def)
  from frame_alloc_free[OF this, of p] obtain a st1 h where
    fa: "frame_alloc PAL_USER p ?st0 = Some (a, st1\<lparr>next_ptr := next_ptr ?st0 + 1,
      frame_entries := (frame_entries ?st0)(next_ptr ?st0 \<mapsto> \<lparr>fe_frame = a, fe_spte = p, fe_thread = cur ?st0\<rparr>), frame_table := h\<rparr>)"
    and a: "a \<noteq> 0" "a \<notin> pool_used (user_pool st)" "pool_used (user_pool st1) = insert a (pool_used (user_pool st))"
      "user_step a ?st0 st1" "\<exists>k < pool_size (user_pool st). a = pool_page (user_pool st) k"
    by auto
  let ?st2 = "st1\<lparr>next_ptr := next_ptr ?st0 + 1,
      frame_entries := (frame_entries ?st0)(next_ptr ?st0 \<mapsto> \<lparr>fe_frame = a, fe_spte = p, fe_thread = cur ?st0\<rparr>), frame_table := h\<rparr>"
  note m1 = mem_only_fields[OF mem_only_user[OF a(4)]]
  have ao: "pg_ofs a = 0" using a(5) ro pool_page_aligned by (auto simp: ram_ok_def)
  note k1 = user_step_mem[OF a(4) ao]
  have au: "a \<in> pool_used (user_pool st1)" using a(3) by simp
  have nk: "\<not> in_kernel_pool ?st0 a" using user_page(4)[OF k1(2) au] k1(1) by (simp add: in_kernel_pool_def)
  have pt0: "pt_ok ?st0 pd" using pt_ok_same(1)[OF pt, of ?st0] by simp
  have e0: "\<And>wa. entry ?st0 pd wa = entry st pd wa" "\<And>wa. table ?st0 pd wa = table st pd wa"
    using pt_ok_same(2,3)[OF pt, of ?st0] by simp_all
  note t1 = user_step_tables[OF a(4) ao nk m1(2) pt0]
  have pt2: "pt_ok ?st2 pd" using pt_ok_same(1)[OF t1(1), of ?st2] by simp
  have e2: "entry ?st2 pd wa = entry st pd wa" "table ?st2 pd wa = table st pd wa" if "is_user_vaddr wa" for wa
    using pt_ok_same(2,3)[OF t1(1), of ?st2] t1(2,3)[OF that] e0 by simp_all
  have none: "entry ?st2 pd va AND PTE_P = 0"
  proof -
    have "pview st pd va = None" using L by blast
    then have "entry st pd va AND PTE_P = 0" by (auto simp: pview_def Let_def split: if_splits)
    then show ?thesis by (simp only: e2[OF va(1)])
  qed
  have tb: "table ?st2 pd va \<noteq> None" using L e2[OF va(1)] by simp
  have fo: "frame_ok ?st2 a" using a(5) L m1(18) by (auto simp: frame_ok_def)
  have pdi: "pd \<noteq> init_page_dir ?st2" using L m1(1) by simp
  obtain st3 e where ps: "pagedir_set_page pd va a True ?st2 = Some (True, st3)" "pt_ok st3 pd" "pte_create_user a True = Some e"
      "\<And>wa. is_user_vaddr wa \<Longrightarrow> entry st3 pd wa = (if pg_no wa = pg_no va then e else entry ?st2 pd wa)"
    using pagedir_set_page_mapped[OF pt2 va fo pdi none tb, of True] by auto
  have pdc: "p_pagedir (cur_proc ?st2) = pd" using L m1 by (simp add: cur_proc_def)
  have inst: "install_page va a True ?st2 = Some (True, st3)"
    using pagedir_get_page_spec[OF pt2 va(1)] none ps(1) unfolding install_page_def pdc by (simp add: pview_def)
  have ro2: "ram_ok ?st2" using k1(2) by (simp add: ram_ok_def)
  note ot = pagedir_set_page_rest[OF ro2 ps(1)]
  note m3 = mem_only_fields[OF mem_only_tables[OF ot]]
  obtain e' where e: "pte_get_page e = Some a" "e AND PTE_P \<noteq> 0" "e AND PTE_W \<noteq> 0"
    using pte_create_user_spec[of a True] fo ps(3) by (auto simp: frame_ok_def)
  have J3: "page_user_inv st3 pd va a st3"
    using ps(2,4) e va L m3(2) m1(2) by (simp add: page_user_inv_def active_pd_def)
  have sb3: "swap_block st3 = swap_block st" "swap_bitmap st3 = swap_bitmap st" using m3(3,4) m1(3,4) by simp_all
  have sw3: "swap_ok st3" "swap_used st3 = swap_used st" "\<And>j. swap_page st3 j = swap_page st j"
    using L by (simp_all add: swap_ok_def swap_used_def swap_page_def sb3)
  have "i \<in> swap_used st3" using L sw3(2) by simp
  from swap_in_spec[OF sw3(1) user_page_at[OF va] J3 this] obtain st4 where
    si: "swap_in i va st3 = Some st4" "swap_used st4 = swap_used st - {i}" "page_user_inv st3 pd va a st4"
      "\<And>x. ram_bytes st4 x = (if unat (x - a) < PGSIZE then swap_page st i ! unat (x - a) else ram_bytes st3 x)"
    unfolding sw3(2,3) by blast
  note J4 = si(3)[unfolded page_user_inv_def]
  let ?st5 = "st4\<lparr>sptes := (sptes st4)(p \<mapsto> s\<lparr>s_locked := True, s_in_memory := True\<rparr>)\<rparr>"
  have sp4: "sptes st4 = (sptes st)(p \<mapsto> ?s1)"
  proof -
    have "sptes st4 = sptes st3"
      using arg_cong[of _ _ sptes, OF conjunct2[OF conjunct2[OF conjunct2[OF conjunct2[OF conjunct2[OF conjunct2[OF J4]]]]]]] by simp
    then show ?thesis using m3(8) m1(8) by simp
  qed
  have ls: "load_swap_page p ?st0 = Some (True, ?st5)"
    using sp fa a(1) inst si(1) sp4 by (simp add: load_swap_page_def upd_spte_def)
  have run: "load_page p st = Some (True, ?st5)"
    using up sp ls by (simp add: load_page_def)
  have e5: "entry ?st5 pd wa = entry st4 pd wa" for wa
    using pt_ok_same(2)[of st4 pd ?st5] J4 by simp
  have "\<exists>acc d. pview ?st5 pd va = Some (a, True, acc, d)"
    unfolding pview_entry[OF e5] using J4 by simp
  moreover have "peek ?st5 a PGSIZE = swap_page st i"
    using si(4) by (intro peek_eq[where g = "ram_bytes st3"]) (simp_all add: PGSIZE_val)
  moreover have "swap_used ?st5 = swap_used st - {i}" using si(2) by (simp add: swap_used_def)
  moreover have "sptes ?st5 = (sptes st)(p \<mapsto> s\<lparr>s_locked := True, s_in_memory := True\<rparr>)" using sp4 by simp
  moreover have "pview ?st5 pd wa = pview st pd wa" if w: "is_user_vaddr wa" "pg_no wa \<noteq> pg_no va" for wa
  proof -
    have "entry st4 pd wa = entry st3 pd wa" using J4 w by blast
    then have "entry ?st5 pd wa = entry st pd wa" using ps(4)[OF w(1)] w(2) e2(1)[OF w(1)] by (simp only: e5 if_False)
    then show ?thesis by (rule pview_cong)
  qed
  moreover have "peek ?st5 b PGSIZE = peek st b PGSIZE" if b: "b \<in> pool_used (user_pool st)" for b
  proof (rule peek_cong)
    show bo: "pg_ofs b = 0" using user_page(1)[OF ro b] .
    have nb: "\<not> in_kernel_pool ?st2 b"
      using user_page(4)[OF ro b] k1(1) by (simp add: in_kernel_pool_def)
    have ba: "pg_no b \<noteq> pg_no a" using pg_no_inj[OF bo ao] a(2) b by auto
    show "ram_bytes ?st5 x = ram_bytes st x" if x: "pg_no x = pg_no b" for x
    proof -
      have "\<not> unat (x - a) < PGSIZE" using in_page_iff[OF ao] x ba by simp
      then have "ram_bytes st4 x = ram_bytes st3 x" using si(4) by simp
      moreover have "ram_bytes st3 x = ram_bytes ?st2 x"
        using ot nb x unfolding only_tables_def in_kernel_pool_def by auto
      moreover have "ram_bytes st1 x = ram_bytes st x" using k1(3)[of x] x ba by simp
      ultimately show ?thesis by simp
    qed
  qed
  ultimately show ?thesis using run a(2) by (intro exI[of _ a] exI[of _ ?st5]) blast
qed

section \<open>Out and in again\<close>

lemma dom_shrinks: "finite (dom m) \<Longrightarrow> card (dom (m(a := None))) \<le> card (dom m)"
  by (rule card_mono) auto

lemma frames_ok_evicted:
  assumes f: "frames_ok (st\<lparr>ft_lock_held := False\<rparr>)" and e: "evicted st q a p s pd va i st'"
    and u: "pool_used (user_pool st') = insert f (pool_used (user_pool st) - {a})"
  shows "frames_ok (st'\<lparr>ft_lock_held := False\<rparr>)"
proof -
  note E = e[unfolded evicted_def] and F = f[unfolded frames_ok_def]
  have hw: "ft.hash_wf (frame_table st)" "ft.hash_wf (frame_table st')" and
    hm: "ft.hmap (frame_table st') = (ft.hmap (frame_table st))(a := None)" using E F by simp_all
  have "finite (dom (ft.hmap (frame_table st)))" by (simp add: ft.hmap_def finite_dom_map_of)
  then have "HashTable.elem_cnt (frame_table st') \<le> HashTable.elem_cnt (frame_table st)"
    unfolding ft.elem_cnt_card[OF hw(1)] ft.elem_cnt_card[OF hw(2)] hm by (rule dom_shrinks)
  then have c: "HashTable.elem_cnt (frame_table st') < 2 ^ 32 - 1" using F by simp
  have "pool_page (user_pool st') k = pool_page (user_pool st) k" for k using E by (simp add: pool_page_def)
  then have fr: "\<forall>k < pool_size (user_pool st'). frame_ok st' (pool_page (user_pool st') k)"
    using E F by (simp add: frame_ok_def)
  have "b \<in> pool_used (user_pool st')" if "ft.hmap (frame_table st') b \<noteq> None" for b
    using that F u unfolding hm by (auto split: if_splits)
  then show ?thesis using c fr hw(2) E F by (simp add: frames_ok_def frame_ok_def)
qed

text \<open>After the eviction of a page of the running process the page is out, and its entry says where.\<close>

lemma evicted_out:
  assumes ev: "evictable st q a p s pd va" and e: "evicted st q a p s pd va i st'"
    and u: "pool_used (user_pool st') = insert f (pool_used (user_pool st) - {a})"
    and f: "frames_ok (st\<lparr>ft_lock_held := False\<rparr>)"
    and cu: "p_pagedir (cur_proc st) = pd" "active_pd st = Some pd" "pd \<noteq> init_page_dir st" "s_writable s"
  shows "swapped_out (st'\<lparr>ft_lock_held := False\<rparr>) p (swapped s i) pd va i"
proof -
  note E = e[unfolded evicted_def] and V = ev[unfolded evictable_def]
  let ?st = "st'\<lparr>ft_lock_held := False\<rparr>"
  have va: "is_user_vaddr va" "pg_ofs va = 0" using V by blast+
  have ent: "\<And>wa. entry ?st pd wa = entry st' pd wa" "\<And>wa. table ?st pd wa = table st' pd wa" and pt: "pt_ok ?st pd"
    using pt_ok_same[of st' pd ?st] E by simp_all
  have pv: "pview ?st pd va = None" using E va(1) pview_cong[OF ent(1), of va] by simp
  have "entry st pd va AND PTE_P \<noteq> 0" using V pview_parts(1) by blast
  then have "table ?st pd va \<noteq> None" using table_present[of st pd va] E va(1) ent(2) by simp
  moreover have "ram_ok st'" "swap_ok st'" "i \<in> swap_used st'" using E by blast+
  then have "ram_ok ?st" "swap_ok ?st" "i \<in> swap_used ?st"
    by (simp_all add: ram_ok_def swap_ok_def swap_used_def)
  moreover have "active_pd ?st = Some pd" "pd \<noteq> init_page_dir ?st" "p_pagedir (cur_proc ?st) = pd"
    using E cu by (simp_all add: active_pd_def cur_proc_def)
  moreover have "sptes ?st p = Some (swapped s i)" using E by simp
  moreover have "s_vaddr s = va" using V by blast
  ultimately show ?thesis
    unfolding swapped_out_def using frames_ok_evicted[OF f e u] va pv pt cu(4) by (simp add: swapped_def)
qed

text \<open>While the page is out, its frame can serve another page, and be freed again.\<close>

lemma frame_used_meanwhile:
  assumes o: "swapped_out st p s pd va i" and fr: "fr \<in> pool_used (user_pool st)" "ft.hmap (frame_table st) fr = None"
  shows "\<exists>st1 st2. frame_add_to_ft fr p' st = Some st1 \<and> frame_free fr st1 = Some st2 \<and> loadable st2 p s pd va i \<and>
    swap_page st2 i = swap_page st i"
proof -
  note L = o[unfolded swapped_out_def] and F = conjunct1[OF conjunct2[OF conjunct2[OF o[unfolded swapped_out_def]]], unfolded frames_ok_def]
  let ?q = "next_ptr st"
  have hw: "ft.hash_wf (frame_table st)" and hc: "HashTable.elem_cnt (frame_table st) < 2 ^ 32 - 1"
    and m: "malloc_ok st" "\<not> ft_lock_held st" and ro: "ram_ok st" and pt: "pt_ok st pd" using L F by blast+
  obtain h where h: "hash_insert frame_hash frame_less (malloc_ok st) (frame_table st) (fr, ?q) = Some (None, h)"
      "ft.hash_wf h" "ft.hmap h = (ft.hmap (frame_table st))(fr \<mapsto> (fr, ?q))" "HashTable.elem_cnt h = Suc (HashTable.elem_cnt (frame_table st))"
    using ft.hash_insert_new[OF hw hc, of "(fr, ?q)" "malloc_ok st"] fr(2) by auto
  let ?st1 = "st\<lparr>next_ptr := ?q + 1, frame_entries := (frame_entries st)(?q \<mapsto> \<lparr>fe_frame = fr, fe_spte = p', fe_thread = cur st\<rparr>), frame_table := h\<rparr>"
  have l: "st\<lparr>ft_lock_held := False\<rparr> = st" using m(2) by simp
  have add: "frame_add_to_ft fr p' st = Some ?st1"
    using m h(1) l by (simp add: frame_add_to_ft_def lock_ft_def unlock_ft_def Let_def)
  obtain h' where h': "hash_delete frame_hash frame_less (malloc_ok st) h (fr, ?q) = Some (Some (fr, ?q), h')"
      "ft.hash_wf h'" "ft.hmap h' = (ft.hmap h)(fr := None)"
    using ft.hash_delete_found[OF h(2), of "(fr, ?q)" "(fr, ?q)" "malloc_ok st"] h(3,4) hc by auto
  let ?k = "?st1\<lparr>ft_lock_held := True, frame_table := h', frame_entries := (frame_entries ?st1)(?q := None)\<rparr>"
  have "ram_ok ?k" "fr \<in> pool_used (user_pool ?k)" using ro fr(1) by (simp_all add: ram_ok_def)
  from user_release[OF this] obtain st3 where r: "palloc_free_page fr ?k = Some st3"
      "pool_used (user_pool st3) = pool_used (user_pool ?k) - {fr}" "user_step fr ?k st3" "free_frame st3" by blast
  note m3 = mem_only_fields[OF mem_only_user[OF r(3)]]
  let ?st2 = "st3\<lparr>ft_lock_held := False\<rparr>"
  have find: "hash_find frame_hash frame_less h (fr, 0) = Some (fr, ?q)"
    using ft.hash_find_map[OF h(2), of "(fr, 0)"] h(3) by simp
  have free: "frame_free fr ?st1 = Some ?st2"
    using find h'(1) r(1) m(2) m3(7) by (simp add: frame_free_def lock_ft_def unlock_ft_def Let_def)
  note fp = user_page[OF ro fr(1)]
  note k3 = user_step_mem[OF r(3) fp(1)]
  have nk: "\<not> in_kernel_pool ?k fr" using fp(4) by (simp add: in_kernel_pool_def)
  have ptk: "pt_ok ?k pd" "\<And>wa. entry ?k pd wa = entry st pd wa" "\<And>wa. table ?k pd wa = table st pd wa"
    using pt_ok_same[OF pt, of ?k] by simp_all
  note t3 = user_step_tables[OF r(3) fp(1) nk m3(2) ptk(1)]
  have pt2: "pt_ok ?st2 pd" "\<And>wa. entry ?st2 pd wa = entry st3 pd wa" "\<And>wa. table ?st2 pd wa = table st3 pd wa"
    using pt_ok_same[OF t3(1), of ?st2] by simp_all
  have va: "is_user_vaddr va" using L by blast
  have tab: "table ?st2 pd va \<noteq> None" using L t3(3)[OF va] pt2(3) ptk(3) by simp
  have pv: "pview ?st2 pd va = None"
    using L pview_cong[of ?st2 pd va st] t3(2)[OF va] pt2(2) ptk(2) by simp
  have hm: "ft.hmap h' = ft.hmap (frame_table st)" using h'(3) h(3) fr(2) by auto
  have "frames_ok ?st2"
  proof -
    have "HashTable.elem_cnt h' = HashTable.elem_cnt (frame_table st)"
      unfolding ft.elem_cnt_card[OF h'(2)] ft.elem_cnt_card[OF hw] hm ..
    moreover have "a \<in> pool_used (user_pool st3)" if "ft.hmap h' a \<noteq> None" for a
      using that F fr(2) r(2) by (auto simp: hm)
    ultimately show ?thesis using F h'(2) hc k3(5,6) m3
      by (simp add: frames_ok_def frame_ok_def)
  qed
  moreover have "swap_ok ?st2" "swap_used ?st2 = swap_used st" "swap_page ?st2 i = swap_page st i"
    using L m3(3,4) by (simp_all add: swap_ok_def swap_used_def swap_page_def)
  moreover have "ram_ok ?st2" "free_frame ?st2" using k3(2) r(4) by (simp_all add: ram_ok_def free_frame_def)
  moreover have "active_pd ?st2 = active_pd st" "cur_proc ?st2 = cur_proc st" "init_page_dir ?st2 = init_page_dir st" "sptes ?st2 = sptes st"
    using m3 by (simp_all add: active_pd_def cur_proc_def)
  ultimately have "loadable ?st2 p s pd va i" "swap_page ?st2 i = swap_page st i"
    unfolding loadable_def swapped_out_def using L pt2(1) tab pv by simp_all
  then show ?thesis using add free by blast
qed

lemma page_out_in:
  assumes ev: "evictable st q a p s pd va" and fl: "flags AND PAL_USER \<noteq> 0" and full: "\<not> free_frame st"
    and f: "frames_ok (st\<lparr>ft_lock_held := False\<rparr>)"
    and cu: "p_pagedir (cur_proc st) = pd" "active_pd st = Some pd" "pd \<noteq> init_page_dir st" "s_writable s"
  shows "\<exists>i st1. evict_frame flags q st = Some (a, st1) \<and> pview st1 pd va = None \<and> swap_page st1 i = peek st a PGSIZE \<and>
    (\<forall>wa. is_user_vaddr wa \<and> pg_no wa \<noteq> pg_no va \<longrightarrow> pview st1 pd wa = pview st pd wa) \<and>
    (\<forall>b \<in> pool_used (user_pool st) - {a}. peek st1 b PGSIZE = peek st b PGSIZE) \<and>
    (\<exists>st2 st3. frame_add_to_ft a p' (st1\<lparr>ft_lock_held := False\<rparr>) = Some st2 \<and> frame_free a st2 = Some st3 \<and>
       loadable st3 p (swapped s i) pd va i \<and> swap_page st3 i = swap_page st1 i) \<and>
    (\<forall>st3. loadable st3 p (swapped s i) pd va i \<and> swap_page st3 i = swap_page st1 i \<longrightarrow>
       (\<exists>a' st4 acc d. load_page p st3 = Some (True, st4) \<and> pview st4 pd va = Some (a', True, acc, d) \<and>
         peek st4 a' PGSIZE = peek st a PGSIZE \<and> swap_used st4 = swap_used st3 - {i} \<and>
         (\<forall>wa. is_user_vaddr wa \<and> pg_no wa \<noteq> pg_no va \<longrightarrow> pview st4 pd wa = pview st3 pd wa) \<and>
         (\<forall>b \<in> pool_used (user_pool st3). peek st4 b PGSIZE = peek st3 b PGSIZE)))"
proof -
  obtain fr i st1 where e: "evict_frame flags q st = Some (fr, st1)" "fr \<noteq> 0" "evicted st q a p s pd va i st1"
      "fr \<notin> pool_used (user_pool st) - {a}" "pool_used (user_pool st1) = insert fr (pool_used (user_pool st) - {a})"
      "\<forall>b \<in> pool_used (user_pool st) - {a, fr}. peek st1 b PGSIZE = peek st b PGSIZE"
    using evict_frame_swaps[OF ev fl] by blast
  note E = e(3)[unfolded evicted_def] and V = ev[unfolded evictable_def]
  have ro: "ram_ok st" "ram_ok st1" "a \<in> pool_used (user_pool st)" and va: "is_user_vaddr va" using V E by blast+
  have fra: "fr = a"
  proof (rule ccontr)
    assume n: "fr \<noteq> a"
    have "fr \<in> pool_used (user_pool st1)" using e(5) by simp
    then obtain k where k: "fr = pool_page (user_pool st) k" "k < pool_size (user_pool st)"
      using E by (auto simp: pool_used_def pool_page_def bm_used_def pool_size_def)
    then have "fr \<in> pool_used (user_pool st)" using full by (auto simp: free_frame_def pool_used_def)
    then show False using e(4) n by simp
  qed
  let ?st1 = "st1\<lparr>ft_lock_held := False\<rparr>"
  have out: "swapped_out ?st1 p (swapped s i) pd va i" by (rule evicted_out[OF ev e(3,5) f cu])
  have same: "swap_page ?st1 i = swap_page st1 i" "swap_page st1 i = peek st a PGSIZE"
    using E by (simp_all add: swap_page_def)
  have "a \<in> pool_used (user_pool ?st1)" "ft.hmap (frame_table ?st1) a = None" using e(5) fra E by simp_all
  from frame_used_meanwhile[OF out this, of p'] have "\<exists>st2 st3. frame_add_to_ft a p' ?st1 = Some st2 \<and> frame_free a st2 = Some st3 \<and>
      loadable st3 p (swapped s i) pd va i \<and> swap_page st3 i = swap_page st1 i" unfolding same(1) .
  moreover have "\<exists>a' st4 acc d. load_page p st3 = Some (True, st4) \<and> pview st4 pd va = Some (a', True, acc, d) \<and>
      peek st4 a' PGSIZE = peek st a PGSIZE \<and> swap_used st4 = swap_used st3 - {i} \<and>
      (\<forall>wa. is_user_vaddr wa \<and> pg_no wa \<noteq> pg_no va \<longrightarrow> pview st4 pd wa = pview st3 pd wa) \<and>
      (\<forall>b \<in> pool_used (user_pool st3). peek st4 b PGSIZE = peek st3 b PGSIZE)"
    if "loadable st3 p (swapped s i) pd va i" "swap_page st3 i = swap_page st1 i" for st3
    using load_page_swaps_in[OF that(1)] unfolding that(2) same(2) by blast
  moreover have "\<forall>wa. is_user_vaddr wa \<and> pg_no wa \<noteq> pg_no va \<longrightarrow> pview st1 pd wa = pview st pd wa" using E by simp
  moreover have "pview st1 pd va = None" using E va by simp
  moreover have "\<forall>b \<in> pool_used (user_pool st) - {a}. peek st1 b PGSIZE = peek st b PGSIZE" using e(6) fra by blast
  ultimately show ?thesis using e(1) fra same(2) by (intro exI[of _ i] exI[of _ st1]) blast
qed

section \<open>Nothing to evict\<close>

text \<open>All frames in use belong to locked entries.\<close>

definition all_locked :: "kernel \<Rightarrow> keyed list \<Rightarrow> bool" where
  "all_locked st es \<longleftrightarrow> (\<forall>(a, q) \<in> set es. \<exists>fe s. frame_entries st q = Some fe \<and> sptes st (fe_spte fe) = Some s \<and> s_locked s)"

lemma evict_loop_locked:
  "it_ok (frame_table st) i \<Longrightarrow> all_locked st (it_rest (frame_table st) i) \<Longrightarrow> frame_evict_loop flags i st = Some (None, st)"
proof (induction "length (it_rest (frame_table st) i)" arbitrary: i)
  case 0
  then obtain i' where "hash_next (frame_table st) i = Some (None, i')"
    using hash_next_spec[of "frame_table st" i] by auto
  then show ?case by (subst frame_evict_loop.simps) simp
next
  case (Suc n)
  then obtain e es where e: "it_rest (frame_table st) i = e # es" by (cases "it_rest (frame_table st) i") auto
  obtain a q where aq: "e = (a, q)" by fastforce
  obtain i' where i': "hash_next (frame_table st) i = Some (Some (a, q), i')" "it_rest (frame_table st) i' = es" "it_ok (frame_table st) i'"
    using hash_next_spec[OF Suc.prems(1)] e aq by auto
  obtain fe s where fs: "frame_entries st q = Some fe" "sptes st (fe_spte fe) = Some s" "s_locked s"
    using Suc.prems(2) unfolding e aq all_locked_def by auto
  have "frame_evict_loop flags i' st = Some (None, st)"
    using Suc.hyps(1)[of i'] Suc.hyps(2) Suc.prems(2) e i'(2,3) by (auto simp: all_locked_def)
  then show ?case using i'(1) fs by (subst frame_evict_loop.simps) simp
qed

lemma frame_evict_locked:
  assumes "ft.hash_wf (frame_table st)" "all_locked st (concat (buckets (frame_table st)))" "\<not> ft_lock_held st"
  shows "frame_evict flags st = Some (None, st\<lparr>ft_lock_held := True\<rparr>)"
proof -
  have "buckets (frame_table st) \<noteq> []"
    using assms(1) by (auto simp: ft.hash_wf_def ft.placed_def)
  from hash_first_rest[OF this] have "it_rest (frame_table st) hash_first = concat (buckets (frame_table st))"
    "it_ok (frame_table st) hash_first" by auto
  then have "frame_evict_loop flags hash_first (st\<lparr>ft_lock_held := True\<rparr>) = Some (None, st\<lparr>ft_lock_held := True\<rparr>)"
    using assms(2) by (intro evict_loop_locked) (simp_all add: all_locked_def)
  then show ?thesis using assms(3) by (simp add: frame_evict_def lock_ft_def)
qed

lemma evict_until_hangs:
  assumes "frame_evict flags st = Some (None, st\<lparr>ft_lock_held := True\<rparr>)" "eax st = 0" "\<not> ft_lock_held st"
  shows "evict_until flags 0 st = None"
proof -
  have same: "st\<lparr>ft_lock_held := False\<rparr> = st" using assms(3) by simp
  have "\<not> (flags = flags \<and> (0 :: vaddr) = 0 \<and> st = st)" if "evict_until flags 0 st = Some r" for r
  proof (rule evict_until.raw_induct[of "\<lambda>fl fr st' r. \<not> (fl = flags \<and> fr = 0 \<and> st' = st)", OF _ that])
    fix loop fl fr st' r
    assume IH: "\<And>fl fr st' r. loop fl fr st' = Some r \<Longrightarrow> \<not> (fl = flags \<and> fr = 0 \<and> st' = st)"
      and step: "(if fr \<noteq> 0 then Some (fr, st') else Option.bind (frame_evict fl st') (\<lambda>(r, st).
        Option.bind (unlock_ft st) (\<lambda>st. loop fl (case r of None \<Rightarrow> eax st | Some f \<Rightarrow> f) st))) = Some r"
    show "\<not> (fl = flags \<and> fr = 0 \<and> st' = st)"
    proof
      assume e: "fl = flags \<and> fr = 0 \<and> st' = st"
      then have "loop flags 0 st = Some r" using step same assms(1,2) by (simp add: unlock_ft_def)
      then show False using IH by blast
    qed
  qed
  then show ?thesis by (cases "evict_until flags 0 st") auto
qed

lemma frame_alloc_garbage:
  assumes "ram_ok st" "\<not> free_frame st" "ft.hash_wf (frame_table st)" "all_locked st (concat (buckets (frame_table st)))"
    "\<not> ft_lock_held st" "fl AND PAL_USER \<noteq> 0" "fl AND PAL_ASSERT = 0"
  shows "frame_alloc fl p st =
    (if eax st = 0 then None else do { st \<leftarrow> frame_add_to_ft (eax st) p st; Some (eax st, st) })"
proof -
  have f: "flag_pool fl st = user_pool st" using assms(6) by (simp add: flag_pool_def)
  have g: "palloc_get_page fl st = Some (0, st)"
    using palloc_get_multiple_spec[OF assms(1), of 1 fl] assms(2,7)
    unfolding palloc_get_page_def f free_frame_def got_pages_def Let_def by auto
  note ev = frame_evict_locked[OF assms(3-5), of fl]
  show ?thesis
  proof (cases "eax st = 0")
    case True
    then show ?thesis using g assms(6) evict_until_hangs[OF ev True assms(5)] by (simp add: frame_alloc_def)
  next
    case False
    have "evict_until fl 0 st = Some (eax st, st)"
      using ev False assms(5) by (subst evict_until.simps) (simp add: unlock_ft_def evict_until.simps)
    moreover have "eax (st1 :: kernel) = eax st" if "frame_add_to_ft (eax st) p st = Some st1" for st1
      using that by (auto simp: frame_add_to_ft_def lock_ft_def unlock_ft_def Let_def bind_Some_iff split: if_splits)
    ultimately show ?thesis
      using g assms(6) False by (cases "frame_add_to_ft (eax st) p st") (auto simp: frame_alloc_def)
  qed
qed

end
