(* ===== verification/DirSpec.thy ===== *)
theory DirSpec
  imports Directory
begin

text \<open>
  A directory as the list of its entries: what the loops of \<open>directory.c\<close> find, and what adding an
  entry changes.
\<close>

section \<open>Entries in memory\<close>

definition entry_ok :: "dir_entry \<Rightarrow> bool" where
  "entry_ok e \<longleftrightarrow> e_inode_sector e < 2 ^ 32 \<and> length (e_name e) \<le> NAME_MAX \<and> 0 \<notin> set (e_name e)"

lemma length_enc_entry [simp]: "length (enc_entry e) = 20"
  by (simp add: enc_entry_def name_field_def NAME_MAX_def)

lemma takeWhile_name: "0 \<notin> set s \<Longrightarrow> takeWhile (\<lambda>c. c \<noteq> (0::byte)) (s @ 0 # xs) = s"
  by (induction s) auto

lemma dec_enc_entry: "entry_ok e \<Longrightarrow> dec_entry (enc_entry e) = e"
proof -
  assume ok: "entry_ok e"
  let ?s = "e_name e" and ?f = "[if e_in_use e then 1 else 0] :: byte list"
  have len: "length (name_field ?s) = 15" by (simp add: name_field_def NAME_MAX_def)
  have nf: "name_field ?s = ?s @ 0 # replicate (NAME_MAX - length ?s) 0"
    using ok by (simp add: name_field_def entry_ok_def Suc_diff_le)
  have "get32 (enc_entry e) 0 = e_inode_sector e"
    using get32_le32[of "e_inode_sector e" "[]"] ok by (simp add: enc_entry_def entry_ok_def)
  moreover have "take 15 (drop 4 (enc_entry e)) = name_field ?s"
    using len by (simp add: enc_entry_def)
  then have "takeWhile (\<lambda>c. c \<noteq> 0) (take 15 (drop 4 (enc_entry e))) = ?s"
    using ok takeWhile_name[of ?s] by (simp add: nf entry_ok_def)
  moreover have "enc_entry e ! 19 = ?f ! 0"
    using nth_append_length_plus[of "le32 (e_inode_sector e) @ name_field ?s" ?f 0] len by (simp add: enc_entry_def)
  ultimately show ?thesis by (simp add: dec_entry_def)
qed

section \<open>A directory in order\<close>

definition entry_at :: "(nat \<Rightarrow> byte list) \<Rightarrow> nat list \<Rightarrow> nat \<Rightarrow> dir_entry" where
  "entry_at v ptr j = dec_entry (map (file_byte v ptr) [20 * j..<20 * j + 20])"

text \<open>The inode \<open>a\<close> is open and has \<open>n\<close> entries in \<open>k\<close> blocks.\<close>

definition dir_ok :: "fsys \<Rightarrow> nat \<Rightarrow> inode \<Rightarrow> nat \<Rightarrow> nat \<Rightarrow> bool" where
  "dir_ok st a ino k n \<longleftrightarrow> cache_wf st \<and> inodes st a = Some ino \<and> file_ok st (i_ptr ino) k \<and>
     i_read_length ino = int (20 * n) \<and> 20 * n \<le> 512 * k"

lemma cache_step_inodes: "cache_step st st' \<Longrightarrow> inodes st' = inodes st" for st st' :: fsys
  unfolding cache_step_def by (elim conjE) (metis fsys.select_convs(3) fsys.surjective fsys.update_convs(3)
      cached_disk.update_convs(1,2))

lemma cache_step_rest:
  fixes st st' :: fsys
  assumes "cache_step st st'"
  shows "inodes st' = inodes st" "open_inodes st' = open_inodes st" "heap_ok st' = heap_ok st" "next_addr st' = next_addr st"
    "dirs st' = dirs st" "files st' = files st" "free_map st' = free_map st" "cwd st' = cwd st" "free_map_file st' = free_map_file st"
proof -
  have s: "st' = st\<lparr>fs_device := fs_device st', cache_list := cache_list st'\<rparr>" using assms by (simp add: cache_step_def)
  show "inodes st' = inodes st" "open_inodes st' = open_inodes st" "heap_ok st' = heap_ok st" "next_addr st' = next_addr st"
    "dirs st' = dirs st" "files st' = files st" "free_map st' = free_map st" "cwd st' = cwd st" "free_map_file st' = free_map_file st"
    by (subst s, simp)+
qed

lemma find_upt_Cons: "i < n \<Longrightarrow> List.find P [i..<n] = (if P i then Some i else List.find P [Suc i..<n])"
  by (simp add: upt_conv_Cons)

lemma scan_entries_spec:
  assumes "dir_ok st a ino k n" "i \<le> n"
  shows "\<exists>st'. scan_entries a P (20 * i) st = Some (
      case List.find (\<lambda>j. P (entry_at (cview st) (i_ptr ino) j)) [i..<n] of
        Some j \<Rightarrow> (Some (entry_at (cview st) (i_ptr ino) j), 20 * j, st') | None \<Rightarrow> (None, 20 * n, st')) \<and>
    cache_step st st' \<and> dir_ok st' a ino k n \<and> cached st' \<subseteq> cached st \<union> sector_of (cview st) (i_ptr ino) ` {..<k}"
  using assms
proof (induction "n - i" arbitrary: i st)
  case 0
  then have i: "i = n" by simp
  have d: "cache_wf st" "inodes st a = Some ino" "file_ok st (i_ptr ino) k" "i_read_length ino = int (20 * n)" "20 * n \<le> 512 * k"
    using "0.prems"(1) by (simp_all add: dir_ok_def)
  obtain st1 where r: "inode_read_at a (int 20) (20 * i) st = Some ([], st1)" "cache_step st st1" "file_ok st1 (i_ptr ino) k"
    "cached st1 \<subseteq> cached st \<union> sector_of (cview st) (i_ptr ino) ` {..<k}"
    using inode_read_at_spec[OF d, of "int 20" "20 * i"] i by auto
  have "dir_ok st1 a ino k n"
    using r(2,3) d cache_step_rest(1)[OF r(2)] by (simp add: dir_ok_def cache_step_def)
  then show ?case using r i by (subst scan_entries.simps) (auto simp: ENTRY_SIZE_def)
next
  case (Suc m)
  then have i: "i < n" by simp
  let ?v = "cview st" and ?ptr = "i_ptr ino"
  have d: "cache_wf st" "inodes st a = Some ino" "file_ok st (i_ptr ino) k" "i_read_length ino = int (20 * n)" "20 * n \<le> 512 * k"
    using Suc.prems(1) by (simp_all add: dir_ok_def)
  have mn: "min (20 * i + nat (int 20)) (20 * n) = 20 * i + 20" using i by simp
  obtain st1 where r: "inode_read_at a (int 20) (20 * i) st = Some (map (file_byte ?v ?ptr) [20 * i..<20 * i + 20], st1)"
    "cache_step st st1" "file_ok st1 ?ptr k" "cached st1 \<subseteq> cached st \<union> sector_of ?v ?ptr ` {..<k}"
    using inode_read_at_spec[OF d, of "int 20" "20 * i"] unfolding mn by blast
  have ok1: "dir_ok st1 a ino k n" and v1: "cview st1 = ?v"
    using r(2,3) d cache_step_rest(1)[OF r(2)] by (simp_all add: dir_ok_def cache_step_def)
  let ?bs = "map (file_byte ?v ?ptr) [20 * i..<20 * i + 20]"
  have e: "dec_entry ?bs = entry_at ?v ?ptr i" by (simp add: entry_at_def)
  have l: "length ?bs = ENTRY_SIZE" by (simp add: ENTRY_SIZE_def)
  have run: "scan_entries a P (20 * i) st =
      (if P (entry_at ?v ?ptr i) then Some (Some (entry_at ?v ?ptr i), 20 * i, st1) else scan_entries a P (20 * Suc i) st1)"
    using r(1) l unfolding e[symmetric]
    by (subst scan_entries.simps) (simp add: ENTRY_SIZE_def add.commute)
  show ?case
  proof (cases "P (entry_at ?v ?ptr i)")
    case True
    then show ?thesis using run ok1 r(2,4) find_upt_Cons[OF i, of "\<lambda>j. P (entry_at ?v ?ptr j)"] by auto
  next
    case False
    obtain st' where s': "scan_entries a P (20 * Suc i) st1 = Some (
      case List.find (\<lambda>j. P (entry_at ?v ?ptr j)) [Suc i..<n] of
        Some j \<Rightarrow> (Some (entry_at ?v ?ptr j), 20 * j, st') | None \<Rightarrow> (None, 20 * n, st'))"
      "cache_step st1 st'" "dir_ok st' a ino k n" "cached st' \<subseteq> cached st1 \<union> sector_of ?v ?ptr ` {..<k}"
      using Suc.hyps(1)[of "Suc i", OF _ ok1] Suc.hyps(2) i unfolding v1 by force
    have "cached st' \<subseteq> cached st \<union> sector_of ?v ?ptr ` {..<k}" using s'(4) r(4) by blast
    moreover have "cache_step st st'" using r(2) s'(2) by (rule cache_step_trans)
    moreover have "List.find (\<lambda>j. P (entry_at ?v ?ptr j)) [i..<n] = List.find (\<lambda>j. P (entry_at ?v ?ptr j)) [Suc i..<n]"
      using find_upt_Cons[OF i, of "\<lambda>j. P (entry_at ?v ?ptr j)"] False by simp
    ultimately show ?thesis using run False s'(1,3) by (intro exI[of _ st']) simp
  qed
qed

section \<open>Looking up, reading and emptiness\<close>

lemma cview_cong: "cache_list st = cache_list st' \<Longrightarrow> fs_device st = fs_device st' \<Longrightarrow> cview st = cview st'"
  by (rule ext) (simp add: cview_def split: option.split)

lemma cview_fields [simp]:
  fixes st :: fsys
  shows "cview (st\<lparr>inodes := x\<rparr>) = cview st" "cview (st\<lparr>dirs := y\<rparr>) = cview st" "cview (st\<lparr>open_inodes := z\<rparr>) = cview st"
    "cview (st\<lparr>next_addr := w\<rparr>) = cview st"
  by (rule cview_cong; simp)+

lemma cached_fields [simp]:
  fixes st :: fsys
  shows "cached (st\<lparr>inodes := x\<rparr>) = cached st" "cached (st\<lparr>dirs := y\<rparr>) = cached st"
    "cached (st\<lparr>open_inodes := z\<rparr>) = cached st" "cached (st\<lparr>next_addr := w\<rparr>) = cached st"
  by (simp_all add: cached_def)

lemma cache_wf_fields [simp]:
  fixes st :: fsys
  shows "cache_wf (st\<lparr>inodes := x\<rparr>) = cache_wf st" "cache_wf (st\<lparr>dirs := y\<rparr>) = cache_wf st"
    "cache_wf (st\<lparr>open_inodes := z\<rparr>) = cache_wf st" "cache_wf (st\<lparr>next_addr := w\<rparr>) = cache_wf st"
  by (simp_all add: cache_wf_def)

lemma file_ok_fields [simp]:
  fixes st :: fsys
  shows "file_ok (st\<lparr>inodes := x\<rparr>) p k = file_ok st p k" "file_ok (st\<lparr>dirs := y\<rparr>) p k = file_ok st p k"
    "file_ok (st\<lparr>open_inodes := z\<rparr>) p k = file_ok st p k" "file_ok (st\<lparr>next_addr := w\<rparr>) p k = file_ok st p k"
  by (simp_all add: file_ok_def)

lemma dir_ok_dirs [simp]: "dir_ok (st\<lparr>dirs := y\<rparr>) a ino k n = dir_ok st a ino k n"
  by (simp add: dir_ok_def)

lemma dir_ok_lock:
  "dir_ok st a ino k n \<Longrightarrow> dir_ok (st\<lparr>inodes := (inodes st)(a \<mapsto> ino\<lparr>i_locked := l\<rparr>)\<rparr>) a (ino\<lparr>i_locked := l\<rparr>) k n"
  by (simp add: dir_ok_def)

abbreviation entry_named :: "byte list \<Rightarrow> dir_entry \<Rightarrow> bool" where
  "entry_named name e \<equiv> e_in_use e \<and> e_name e = name"

lemma lookup_spec:
  assumes "dir_ok st a ino k n"
  shows "\<exists>st'. lookup a name st = Some (map_option (\<lambda>j. (entry_at (cview st) (i_ptr ino) j, 20 * j))
      (List.find (\<lambda>j. entry_named name (entry_at (cview st) (i_ptr ino) j)) [0..<n]), st') \<and>
    cache_step st st' \<and> dir_ok st' a ino k n \<and> cached st' \<subseteq> cached st \<union> sector_of (cview st) (i_ptr ino) ` {..<k}"
  using scan_entries_spec[OF assms, of 0 "entry_named name"]
  by (cases "List.find (\<lambda>j. entry_named name (entry_at (cview st) (i_ptr ino) j)) [0..<n]")
    (auto simp: lookup_def)

lemma dir_is_empty_spec:
  assumes "dir_ok st a ino k n"
  shows "\<exists>st'. dir_is_empty a st = Some (\<forall>j<n. \<not> e_in_use (entry_at (cview st) (i_ptr ino) j), st') \<and>
    cache_step st st' \<and> dir_ok st' a ino k n"
proof -
  let ?f = "List.find (\<lambda>j. e_in_use (entry_at (cview st) (i_ptr ino) j)) [0..<n]"
  have "?f = None \<longleftrightarrow> (\<forall>j<n. \<not> e_in_use (entry_at (cview st) (i_ptr ino) j))"
    by (auto simp: find_None_iff)
  then show ?thesis using scan_entries_spec[OF assms, of 0 e_in_use]
    by (cases ?f) (auto simp: dir_is_empty_def)
qed

section \<open>Reading a directory to its end\<close>

text \<open>The loop of a caller of \<open>dir_readdir\<close>: the names it gets until the first failure.\<close>

partial_function (option) readdir_all :: "nat \<Rightarrow> fsys \<Rightarrow> (byte list list \<times> fsys) option" where
  "readdir_all d st =
     Option.bind (dir_readdir d st) (\<lambda>(r, st).
       case r of
         None \<Rightarrow> Some ([], st)
       | Some name \<Rightarrow> Option.bind (readdir_all d st) (\<lambda>(names, st). Some (name # names, st)))"

lemma dir_readdir_spec:
  assumes ok: "dir_ok st a ino k n" and d: "dirs st d = Some \<lparr>dir_inode = a, dir_pos = 20 * i\<rparr>"
    and l: "\<not> i_locked ino" and i: "i \<le> n"
  shows "\<exists>st'. dir_ok st' a ino k n \<and> cview st' = cview st \<and>
    (case List.find (\<lambda>j. e_in_use (entry_at (cview st) (i_ptr ino) j)) [i..<n] of
       Some j \<Rightarrow> dir_readdir d st = Some (Some (e_name (entry_at (cview st) (i_ptr ino) j)), st') \<and>
         dirs st' d = Some \<lparr>dir_inode = a, dir_pos = 20 * Suc j\<rparr>
     | None \<Rightarrow> dir_readdir d st = Some (None, st') \<and> dirs st' d = Some \<lparr>dir_inode = a, dir_pos = 20 * n\<rparr>)"
proof -
  let ?st1 = "st\<lparr>inodes := (inodes st)(a \<mapsto> ino\<lparr>i_locked := True\<rparr>)\<rparr>"
  let ?f = "List.find (\<lambda>j. e_in_use (entry_at (cview st) (i_ptr ino) j)) [i..<n]"
  have ino: "inodes st a = Some ino" using ok by (simp add: dir_ok_def)
  have pl: "i_ptr (ino\<lparr>i_locked := True\<rparr>) = i_ptr ino" by simp
  have lk: "inode_lock a st = Some ?st1" using ino l by (simp add: inode_lock_def put_inode_def)
  obtain st2 where s: "scan_entries a e_in_use (20 * i) ?st1 = Some (
      case ?f of Some j \<Rightarrow> (Some (entry_at (cview st) (i_ptr ino) j), 20 * j, st2) | None \<Rightarrow> (None, 20 * n, st2))"
    "cache_step ?st1 st2" "dir_ok st2 a (ino\<lparr>i_locked := True\<rparr>) k n"
    using scan_entries_spec[OF dir_ok_lock[OF ok] i, of e_in_use True] unfolding pl cview_fields by blast
  note r = cache_step_rest[OF s(2)]
  have id: "(inodes st)(a \<mapsto> ino) = inodes st" using ino by auto
  have ino_id: "ino\<lparr>i_locked := False\<rparr> = ino" using l by (cases ino) simp
  let ?pos = "case ?f of Some j \<Rightarrow> 20 * Suc j | None \<Rightarrow> 20 * n"
  let ?st3 = "st2\<lparr>dirs := (dirs st)(d \<mapsto> \<lparr>dir_inode = a, dir_pos = ?pos\<rparr>), inodes := inodes st\<rparr>"
  have run: "dir_readdir d st = Some (map_option (\<lambda>j. e_name (entry_at (cview st) (i_ptr ino) j)) ?f, ?st3)"
    using d lk s(1) r(1,5) l id
    by (cases ?f) (auto simp: dir_readdir_def inode_unlock_def put_inode_def ENTRY_SIZE_def Let_def ino_id add.commute)
  have "dir_ok ?st3 a ino k n"
    using s(3) ino by (simp add: dir_ok_def)
  moreover have "cview ?st3 = cview st" using s(2) by (simp add: cache_step_def)
  ultimately show ?thesis using run by (intro exI[of _ ?st3]) (auto split: option.split)
qed

lemma find_upt_filter:
  "List.find P [i..<n] = Some j \<Longrightarrow> filter P [i..<n] = j # filter P [Suc j..<n] \<and> i \<le> j \<and> j < n"
proof (induction "n - i" arbitrary: i)
  case (Suc m)
  then have i: "i < n" by simp
  show ?case
  proof (cases "P i")
    case True
    then show ?thesis using Suc.prems i by (simp add: upt_conv_Cons)
  next
    case False
    then have "List.find P [Suc i..<n] = Some j" using Suc.prems i by (simp add: upt_conv_Cons)
    moreover have "m = n - Suc i" using Suc.hyps(2) by simp
    ultimately have "filter P [Suc i..<n] = j # filter P [Suc j..<n] \<and> Suc i \<le> j \<and> j < n"
      by (intro Suc.hyps(1))
    moreover have "filter P [i..<n] = filter P [Suc i..<n]" using False i upt_conv_Cons[OF i] by simp
    ultimately show ?thesis by simp
  qed
qed simp

lemma readdir_all_spec:
  assumes "dir_ok st a ino k n" "dirs st d = Some \<lparr>dir_inode = a, dir_pos = 20 * i\<rparr>" "\<not> i_locked ino" "i \<le> n"
  shows "\<exists>st'. readdir_all d st =
    Some (map e_name (filter e_in_use (map (entry_at (cview st) (i_ptr ino)) [i..<n])), st')"
  using assms
proof (induction "n - i" arbitrary: i st rule: less_induct)
  case less
  let ?e = "entry_at (cview st) (i_ptr ino)"
  have flt: "map e_name (filter e_in_use (map ?e xs)) = map (\<lambda>j. e_name (?e j)) (filter (\<lambda>j. e_in_use (?e j)) xs)" for xs
    by (simp add: filter_map comp_def)
  obtain st1 where ok1: "dir_ok st1 a ino k n" and v1: "cview st1 = cview st" and c:
    "case List.find (\<lambda>j. e_in_use (?e j)) [i..<n] of
       Some j \<Rightarrow> dir_readdir d st = Some (Some (e_name (?e j)), st1) \<and> dirs st1 d = Some \<lparr>dir_inode = a, dir_pos = 20 * Suc j\<rparr>
     | None \<Rightarrow> dir_readdir d st = Some (None, st1) \<and> dirs st1 d = Some \<lparr>dir_inode = a, dir_pos = 20 * n\<rparr>"
    using dir_readdir_spec[OF less.prems] by blast
  show ?case
  proof (cases "List.find (\<lambda>j. e_in_use (?e j)) [i..<n]")
    case None
    then have "filter (\<lambda>j. e_in_use (?e j)) [i..<n] = []" by (simp add: find_None_iff)
    then show ?thesis using c None unfolding flt by (subst readdir_all.simps) simp
  next
    case (Some j)
    note j = find_upt_filter[OF this]
    obtain st2 where "readdir_all d st1 = Some (map e_name (filter e_in_use (map ?e [Suc j..<n])), st2)"
      using less.hyps[of "Suc j" st1] ok1 less.prems(3) c Some j v1 diff_less_mono2[of i "Suc j" n] by auto
    then show ?thesis using c Some j unfolding flt by (subst readdir_all.simps) simp
  qed
qed

section \<open>Writing in place\<close>

text \<open>What a write to a file or directory leaves as it is.\<close>

definition same_rest :: "fsys \<Rightarrow> fsys \<Rightarrow> bool" where
  "same_rest st st' \<longleftrightarrow> b_size (fs_device st') = b_size (fs_device st) \<and> heap_ok st' = heap_ok st \<and>
     open_inodes st' = open_inodes st \<and> files st' = files st \<and> dirs st' = dirs st \<and> cwd st' = cwd st \<and>
     free_map st' = free_map st \<and> free_map_file st' = free_map_file st"

lemma same_rest_device: "st' = st\<lparr>fs_device := dv, cache_list := cl\<rparr> \<Longrightarrow> b_size dv = b_size (fs_device st) \<Longrightarrow> same_rest st st'"
  by (simp add: same_rest_def)

lemma inode_write_at_spec:
  assumes wf: "cache_wf st" and ino: "inodes st a = Some ino" "i_deny_write_cnt ino = 0"
      "i_length ino = int len" "i_read_length ino = int len"
    and f: "file_ok st (i_ptr ino) k" "inj_on (sector_of (cview st) (i_ptr ino)) {..<k}" "len \<le> 512 * k"
    and w: "offset + n \<le> len" "n \<le> length buf"
  shows "\<exists>st1. inode_write_at a buf (int n) offset st = Some (n, st1) \<and> cache_wf st1 \<and> file_ok st1 (i_ptr ino) k \<and>
    inodes st1 = inodes st \<and> next_addr st1 = next_addr st \<and> same_rest st st1 \<and>
    (\<forall>pos<512 * k. file_byte (cview st1) (i_ptr ino) pos =
       (if offset \<le> pos \<and> pos < offset + n then buf ! (pos - offset) else file_byte (cview st) (i_ptr ino) pos)) \<and>
    (\<forall>j<k. sector_of (cview st1) (i_ptr ino) j = sector_of (cview st) (i_ptr ino) j) \<and>
    (\<forall>s. s \<notin> sector_of (cview st) (i_ptr ino) ` {..<k} \<longrightarrow> cview st1 s = cview st s)"
proof -
  have "k \<le> 17540" using f(1) by (simp add: file_ok_def)
  then have nw: "wrap32 (int offset + int n) = int offset + int n" using w f(3) by (intro wrap32_idI) auto
  obtain st1 where s: "inode_write_loop ino (int len) (int n) offset buf 0 st = Some (min n (len - offset), st1)"
    "cache_wf st1" "file_ok st1 (i_ptr ino) k"
    "\<forall>j<k. sector_of (cview st1) (i_ptr ino) j = sector_of (cview st) (i_ptr ino) j"
    "\<forall>pos<512 * k. file_byte (cview st1) (i_ptr ino) pos =
       (if offset \<le> pos \<and> pos < offset + min n (len - offset) then buf ! (0 + (pos - offset))
        else file_byte (cview st) (i_ptr ino) pos)"
    "\<forall>s. s \<notin> sector_of (cview st) (i_ptr ino) ` {..<k} \<longrightarrow> cview st1 s = cview st s"
    "st1 = st\<lparr>fs_device := fs_device st1, cache_list := cache_list st1\<rparr>" "b_size (fs_device st1) = b_size (fs_device st)"
    using inode_write_loop_spec[OF wf f(1,2,3), of 0 "int n" buf offset] w(2) by auto
  have mn: "min n (len - offset) = n" using w(1) by simp
  have in1: "inodes st1 = inodes st" "next_addr st1 = next_addr st" by (subst s(7), simp)+
  have "ino\<lparr>i_read_length := i_length ino\<rparr> = ino" using ino(3,4) by (cases ino) simp
  then have id: "st1\<lparr>inodes := (inodes st)(a \<mapsto> ino\<lparr>i_read_length := i_length ino\<rparr>)\<rparr> = st1"
    using in1(1) ino(1) by (cases st1) (auto simp: fun_upd_idem)
  have "inode_write_at a buf (int n) offset st = Some (n, st1)"
    using ino w(1) s(1) in1(1) mn id by (simp add: inode_write_at_def nw inode_write_tail_def put_inode_def)
  then show ?thesis using s same_rest_device[OF s(7,8)] in1 unfolding mn by auto
qed

lemma raw_write_spec:
  assumes wf: "cache_wf st" and n: "n < b_size (fs_device st)" "n \<notin> cached st" and d: "length d = 512"
  shows "\<exists>st'. raw_write n d st = Some st' \<and> cache_wf st' \<and> cview st' = (cview st)(n := d) \<and>
    cache_list st' = cache_list st \<and> b_size (fs_device st') = b_size (fs_device st) \<and> st' = st\<lparr>fs_device := fs_device st'\<rparr>"
proof -
  let ?dv = "(fs_device st)\<lparr>b_data := (b_data (fs_device st))(n := d), b_write_cnt := b_write_cnt (fs_device st) + 1\<rparr>"
  let ?st = "st\<lparr>fs_device := ?dv\<rparr>"
  have inv: "dev_inv (fs_device st)" using wf by (simp add: cache_wf_def)
  have nc: "\<And>cb. cb \<in> set (cache_list st) \<Longrightarrow> cb_sector cb \<noteq> n" using n(2) by (auto simp: cached_def)
  have "raw_write n d st = Some ?st" using n(1) by (simp add: raw_write_def block_write_Some[OF inv])
  moreover have "cache_wf ?st"
    using wf d nc unfolding cache_wf_def by (auto simp: dev_inv_def)
  moreover have "cview ?st = (cview st)(n := d)"
  proof (rule ext)
    fix m
    show "cview ?st m = ((cview st)(n := d)) m"
    proof (cases "find_block (cache_list st) m")
      case (Some i)
      then have "m \<noteq> n" using find_block_Some[OF Some] nc nth_mem by blast
      then show ?thesis using Some by (simp add: cview_def)
    qed (use n(2) in \<open>auto simp: cview_def cached_def find_block_None[symmetric] split: option.split\<close>)
  qed
  ultimately show ?thesis by auto
qed

section \<open>Adding an entry\<close>

lemma sector_of_cong:
  "\<forall>s\<in>index_of v ptr j. v' s = v s \<Longrightarrow> sector_of v' ptr j = sector_of v ptr j \<and> index_of v' ptr j = index_of v ptr j"
  by (auto simp: sector_of_def index_of_def split: if_splits)

text \<open>The child's inode is read, gets its parent, and is written back.\<close>

lemma length_enc_dec: "length (enc_inode ((dec_inode bs)\<lparr>d_magic := m, d_parent := p\<rparr>)) = 512"
  by (rule length_enc_inode) (simp add: dec_inode_def)

lemma inode_add_parent_spec:
  assumes wf: "cache_wf st" and s: "s < b_size (fs_device st)" "s \<notin> cached st" and closed: "find_open st s = None"
  shows "\<exists>st'. inode_add_parent p s st = Some (True, st') \<and> cache_wf st' \<and>
    cview st' = (cview st)(s := enc_inode ((dec_inode (cview st s))\<lparr>d_magic := INODE_MAGIC, d_parent := p\<rparr>)) \<and>
    cached st' = cached st \<and> inodes st' = (inodes st)(next_addr st := None) \<and> same_rest st st'"
proof -
  have hp: "heap_ok st" using wf by (simp add: cache_wf_def)
  obtain st1 where r: "raw_read s st = Some (cview st s, st1)" "cache_step st st1" "cache_list st1 = cache_list st"
    using raw_read_spec[OF wf s] by blast
  note rest = cache_step_rest[OF r(2)]
  note c1 = r(2)[unfolded cache_step_def]
  let ?b = "next_addr st" and ?d = "dec_inode (cview st s)"
  let ?ino = "\<lparr>i_sector = s, i_open_cnt = 1, i_removed = False, i_deny_write_cnt = 0,
    i_length = d_length ?d, i_read_length = d_length ?d, i_direct_index = d_direct_index ?d,
    i_indirect_index = d_indirect_index ?d, i_double_indirect_index = d_double_indirect_index ?d,
    i_isdir = d_isdir ?d, i_parent = p, i_locked = False, i_ptr = d_ptr ?d\<rparr>"
  let ?st2 = "st1\<lparr>next_addr := ?b + 1, inodes := (inodes st)(?b \<mapsto> ?ino\<lparr>i_open_cnt := 0\<rparr>), open_inodes := open_inodes st\<rparr>"
  let ?e = "enc_inode (?d\<lparr>d_magic := INODE_MAGIC, d_parent := p\<rparr>)"
  have "cache_wf ?st2" "s < b_size (fs_device ?st2)" "s \<notin> cached ?st2"
    using c1 s r(3) by (simp_all add: cached_def)
  from raw_write_spec[OF this length_enc_dec] obtain st3 where w: "raw_write s ?e ?st2 = Some st3" "cache_wf st3"
    "cview st3 = (cview ?st2)(s := ?e)" "cache_list st3 = cache_list ?st2" "b_size (fs_device st3) = b_size (fs_device ?st2)"
    "st3 = ?st2\<lparr>fs_device := fs_device st3\<rparr>" by blast
  let ?st4 = "st3\<lparr>inodes := (inodes st)(?b := None)\<rparr>"
  have i3: "inodes st3 = (inodes st)(?b \<mapsto> ?ino\<lparr>i_open_cnt := 0\<rparr>)" by (subst w(6)) simp
  have f3: "open_inodes st3 = open_inodes st" "heap_ok st3 = heap_ok st1" "files st3 = files st1" "dirs st3 = dirs st1"
    "cwd st3 = cwd st1" "free_map st3 = free_map st1" "free_map_file st3 = free_map_file st1"
    by (subst w(6), simp)+
  have e: "?e = enc_inode \<lparr>d_length = d_length ?d, d_magic = INODE_MAGIC, d_direct_index = d_direct_index ?d,
    d_indirect_index = d_indirect_index ?d, d_double_indirect_index = d_double_indirect_index ?d,
    d_isdir = d_isdir ?d, d_parent = p, d_ptr = d_ptr ?d\<rparr>" by (simp add: dec_inode_def)
  have "inode_add_parent p s st = Some (True, ?st4)"
    using closed hp r(1) rest w(1)[unfolded e] i3
    by (simp add: inode_add_parent_def inode_open_def put_inode_def inode_close_def Let_def)
  moreover have "same_rest st ?st4"
    using rest c1 w(5) f3 by (simp add: same_rest_def)
  ultimately show ?thesis using w(2,3) c1 r(3) w(4) by (auto simp: cached_def)
qed

text \<open>A sector that is neither a block nor an index block of a file can change without the file noticing.\<close>

lemma file_unchanged:
  assumes f: "file_ok st ptr k" and s: "\<forall>j<k. s \<noteq> sector_of (cview st) ptr j \<and> s \<notin> index_of (cview st) ptr j"
    and st': "cview st' = (cview st)(s := d)" "cached st' = cached st" "b_size (fs_device st') = b_size (fs_device st)"
  shows "file_ok st' ptr k \<and> (\<forall>j<k. sector_of (cview st') ptr j = sector_of (cview st) ptr j) \<and>
    (\<forall>pos<512 * k. file_byte (cview st') ptr pos = file_byte (cview st) ptr pos)"
proof -
  have c: "sector_of (cview st') ptr j = sector_of (cview st) ptr j \<and> index_of (cview st') ptr j = index_of (cview st) ptr j"
    if "j < k" for j
    by (rule sector_of_cong) (use s st'(1) that in auto)
  have "file_byte (cview st') ptr pos = file_byte (cview st) ptr pos" if "pos < 512 * k" for pos
  proof -
    have "pos div 512 < k" using that by simp
    then have "sector_of (cview st') ptr (pos div 512) = sector_of (cview st) ptr (pos div 512)"
      "s \<noteq> sector_of (cview st) ptr (pos div 512)" using c s by auto
    then show ?thesis using st'(1) by (simp add: file_byte_def)
  qed
  moreover have "file_ok st' ptr k" using f c st'(2,3) by (simp add: file_ok_def)
  ultimately show ?thesis using c by blast
qed

lemma entry_at_cong:
  "20 * n \<le> 512 * k \<Longrightarrow> \<forall>pos<512 * k. file_byte v' ptr pos = file_byte v ptr pos \<Longrightarrow> j < n \<Longrightarrow> entry_at v' ptr j = entry_at v ptr j"
  unfolding entry_at_def by (intro arg_cong[of _ _ dec_entry] map_cong refl) auto

lemma dir_add_locked_spec:
  assumes ok: "dir_ok st a ino k n" and ino: "i_deny_write_cnt ino = 0" "i_length ino = int (20 * n)"
    and inj: "inj_on (sector_of (cview st) (i_ptr ino)) {..<k}"
    and name: "name \<noteq> []" "length name \<le> NAME_MAX" "0 \<notin> set name"
    and new: "\<forall>i<n. \<not> entry_named name (entry_at (cview st) (i_ptr ino) i)"
    and slot: "List.find (\<lambda>i. \<not> e_in_use (entry_at (cview st) (i_ptr ino) i)) [0..<n] = Some j"
    and s: "s < b_size (fs_device st)" "s < 2 ^ 32" "s \<notin> cached st" "find_open st s = None"
      "\<forall>i<k. s \<noteq> sector_of (cview st) (i_ptr ino) i \<and> s \<notin> index_of (cview st) (i_ptr ino) i"
    and fresh: "inodes st (next_addr st) = None"
  shows "\<exists>st'. dir_add_locked a name s st = Some (True, st') \<and> dir_ok st' a ino k n \<and> inodes st' = inodes st \<and>
    same_rest st st' \<and> (\<forall>i<n. entry_at (cview st') (i_ptr ino) i =
      (if i = j then \<lparr>e_inode_sector = s, e_name = name, e_in_use = True\<rparr> else entry_at (cview st) (i_ptr ino) i))"
proof -
  let ?ptr = "i_ptr ino" and ?v = "cview st"
  have j: "j < n" using find_upt_filter[OF slot] by blast
  obtain st1 where l: "lookup a name st = Some (None, st1)" "cache_step st st1" "dir_ok st1 a ino k n"
    "cached st1 \<subseteq> cached st \<union> sector_of ?v ?ptr ` {..<k}"
    using lookup_spec[OF ok, of name] new by (auto simp: find_None_iff)
  note r1 = cache_step_rest[OF l(2)] and c1 = l(2)[unfolded cache_step_def]
  have in1: "inodes st1 a = Some ino" using l(3) by (simp add: dir_ok_def)
  have out: "s \<notin> sector_of ?v ?ptr ` {..<k}" using s(5) by auto
  have ca: "s < b_size (fs_device st1)" "s \<notin> cached st1" "find_open st1 s = None"
    using l(4) out s(1,3,4) c1 r1 by (auto simp: find_open_def)
  obtain num where num: "inode_get_inumber a st1 = Some num" using in1 by (simp add: inode_get_inumber_def)
  obtain st2 where p: "inode_add_parent num s st1 = Some (True, st2)" "cache_wf st2"
    "cview st2 = (cview st1)(s := enc_inode ((dec_inode (cview st1 s))\<lparr>d_magic := INODE_MAGIC, d_parent := num\<rparr>))"
    "cached st2 = cached st1" "inodes st2 = (inodes st1)(next_addr st1 := None)" "same_rest st1 st2"
    using inode_add_parent_spec[OF _ ca] l(3) unfolding dir_ok_def by blast
  have in2: "inodes st2 = inodes st" using p(5) r1 fresh by (auto simp: fun_upd_idem)
  have v1: "cview st1 = ?v" using c1 by simp
  have f1: "file_ok st1 ?ptr k" and bound: "20 * n \<le> 512 * k" and rl: "i_read_length ino = int (20 * n)"
    using l(3) by (simp_all add: dir_ok_def)
  have u: "file_ok st2 ?ptr k" "\<forall>i<k. sector_of (cview st2) ?ptr i = sector_of ?v ?ptr i"
    "\<forall>pos<512 * k. file_byte (cview st2) ?ptr pos = file_byte ?v ?ptr pos"
    using file_unchanged[OF f1 _ p(3,4)] s(5) p(6) unfolding v1 same_rest_def by blast+
  have ok2: "dir_ok st2 a ino k n"
    using p(2) in2 r1 in1 u(1) rl bound by (simp add: dir_ok_def)
  have e2: "entry_at (cview st2) ?ptr i = entry_at ?v ?ptr i" if "i < n" for i
    using entry_at_cong[OF bound u(3) that] .
  have slot2: "List.find (\<lambda>i. \<not> e_in_use (entry_at (cview st2) ?ptr i)) [0..<n] = Some j"
    unfolding slot[symmetric] by (rule find_cong) (simp_all add: e2)
  obtain st3 where sc: "scan_entries a (\<lambda>e. \<not> e_in_use e) 0 st2 = Some (Some (entry_at (cview st2) ?ptr j), 20 * j, st3)"
    "cache_step st2 st3" "dir_ok st3 a ino k n"
    using scan_entries_spec[OF ok2, of 0 "\<lambda>e. \<not> e_in_use e"] slot2 by auto
  note r3 = cache_step_rest[OF sc(2)] and c3 = sc(2)[unfolded cache_step_def]
  let ?e = "\<lparr>e_inode_sector = s, e_name = name, e_in_use = True\<rparr>"
  have v3: "cview st3 = cview st2" using c3 by simp
  have inj3: "inj_on (sector_of (cview st3) ?ptr) {..<k}"
    using inj u(2) unfolding v3 by (simp add: inj_on_def)
  have d3: "cache_wf st3" "inodes st3 a = Some ino" "file_ok st3 ?ptr k" using sc(3) by (simp_all add: dir_ok_def)
  obtain st4 where w: "inode_write_at a (enc_entry ?e) (int 20) (20 * j) st3 = Some (20, st4)" "cache_wf st4"
    "file_ok st4 ?ptr k" "inodes st4 = inodes st3" "same_rest st3 st4"
    "\<forall>pos<512 * k. file_byte (cview st4) ?ptr pos =
       (if 20 * j \<le> pos \<and> pos < 20 * j + 20 then enc_entry ?e ! (pos - 20 * j) else file_byte (cview st3) ?ptr pos)"
    using inode_write_at_spec[OF d3(1,2) ino(1,2) rl d3(3) inj3 bound, of "20 * j" 20 "enc_entry ?e"] j by auto
  have ent: "entry_at (cview st4) ?ptr i = (if i = j then ?e else entry_at ?v ?ptr i)" if i: "i < n" for i
  proof (cases "i = j")
    case True
    have "map (file_byte (cview st4) ?ptr) [20 * j..<20 * j + 20] = enc_entry ?e"
      using w(6) j bound by (intro nth_equalityI) auto
    then have "entry_at (cview st4) ?ptr j = dec_entry (enc_entry ?e)" by (simp add: entry_at_def)
    also have "\<dots> = ?e" by (rule dec_enc_entry) (use name s(2) in \<open>simp add: entry_ok_def\<close>)
    finally show ?thesis using True by simp
  next
    case False
    then have sep: "20 * i + 20 \<le> 20 * j \<or> 20 * j + 20 \<le> 20 * i" by linarith
    have "map (file_byte (cview st4) ?ptr) [20 * i..<20 * i + 20] = map (file_byte ?v ?ptr) [20 * i..<20 * i + 20]"
    proof (intro map_cong refl)
      fix pos assume "pos \<in> set [20 * i..<20 * i + 20]"
      then have "pos < 512 * k" "\<not> (20 * j \<le> pos \<and> pos < 20 * j + 20)" using i bound sep by auto
      then show "file_byte (cview st4) ?ptr pos = file_byte ?v ?ptr pos" using w(6) u(3) unfolding v3 by auto
    qed
    then show ?thesis using False unfolding entry_at_def by presburger
  qed
  have nm: "\<not> (name = [] \<or> NAME_MAX < length name)" using name by simp
  have "dir_add_locked a name s st = Some (True, st4)"
    using l(1) num p(1) sc(1) w(1) nm unfolding dir_add_locked_def by (simp add: ENTRY_SIZE_def)
  moreover have "dir_ok st4 a ino k n" using w(2,3,4) d3(2) rl bound by (simp add: dir_ok_def)
  moreover have "inodes st4 = inodes st" using w(4) r3(1) in2 by simp
  moreover have "same_rest st st4"
    using p(6) w(5) r1 r3 c1 c3 by (simp add: same_rest_def)
  ultimately show ?thesis using ent by blast
qed

end
