(* ===== verification/FilesysProps.thy ===== *)
theory FilesysProps
  imports Filesys DirSpec
begin

text \<open>
  Properties of the file system of project 4: the buffer cache, the inodes on disk, reading and
  writing files, directories and paths. The witnesses run on a small file system of 64 sectors
  with one open file of 700 bytes.
\<close>

section \<open>A small file system\<close>

definition demo_disk :: block where
  "demo_disk = \<lparr>b_name = ''hda1'', b_type = BLOCK_FILESYS, b_size = 64, b_data = (\<lambda>_. zeros), b_read_cnt = 0, b_write_cnt = 0\<rparr>"

definition demo_inode :: inode where
  "demo_inode = \<lparr>i_sector = 10, i_open_cnt = 1, i_removed = False, i_deny_write_cnt = 0, i_length = 700,
     i_read_length = 700, i_direct_index = 2, i_indirect_index = 0, i_double_indirect_index = 0, i_isdir = False,
     i_parent = 1, i_locked = False, i_ptr = [11, 12, 0, 0, 0, 0, 0, 0, 0, 0, 0, 0, 0, 0]\<rparr>"

definition demo_fs :: fsys where
  "demo_fs = \<lparr>fs_device = demo_disk, cache_list = [], heap_ok = True, junk = zeros,
     free_map = \<lparr>bit_cnt = 64, bits = [0x1c03, 0]\<rparr>, free_map_file = None, inodes = [1 \<mapsto> demo_inode],
     open_inodes = [1], files = Map.empty, dirs = Map.empty, cwd = None, next_addr = 2\<rparr>"

lemma length_zeros [simp]: "length zeros = 512"
  by (simp add: zeros_def)

lemma demo_wf: "cache_wf demo_fs"
  by (simp add: cache_wf_def demo_fs_def demo_disk_def dev_inv_def)

lemma demo_view: "cview demo_fs = (\<lambda>_. zeros)"
  by (rule ext) (simp add: cview_def demo_fs_def demo_disk_def)

lemma less_2: "k < 2 \<longleftrightarrow> k = 0 \<or> k = (1 :: nat)"
  by auto

lemma demo_file: "file_ok demo_fs (i_ptr demo_inode) 2" "inj_on (sector_of (cview demo_fs) (i_ptr demo_inode)) {..<2}"
  by (auto simp: file_ok_def sector_of_def index_of_def demo_inode_def demo_fs_def demo_disk_def less_2 inj_on_def)

lemma demo_lookup: "inodes demo_fs 1 = Some demo_inode" "b_size (fs_device demo_fs) = 64"
  by (simp_all add: demo_fs_def demo_disk_def)

section \<open>The buffer cache\<close>

text \<open>C26: any sequence of reads and writes through the buffer cache, with all the evictions it
  causes, returns what the same sequence returns on a disk without a cache, and the write-back that
  follows leaves on the disk exactly what was written last.\<close>

theorem cache_refines_disk:
  assumes "cache_wf st" "\<forall>x\<in>set xs. op_ok (b_size (fs_device st)) x"
  shows "\<exists>st' st''. run_cache xs st = Some (fst (run_disk xs (cview st)), st') \<and>
    cache_write_to_disk finish st' = Some st'' \<and> b_data (fs_device st'') = snd (run_disk xs (cview st))"
proof -
  obtain st' where r: "run_cache xs st = Some (fst (run_disk xs (cview st)), st')" "cache_wf st'"
    "cview st' = snd (run_disk xs (cview st))"
    using run_cache_spec[OF assms] by blast
  then show ?thesis using cache_write_to_disk_spec[OF r(2), of finish] by auto
qed

theorem cache_refines_disk_witness:
  "\<exists>st' st''. run_cache [Write 3 1 [7], Read 3 0 2] demo_fs = Some ([[0, 7]], st') \<and>
     cache_write_to_disk True st' = Some st'' \<and> take 3 (b_data (fs_device st'') 3) = [0, 7, 0]"
proof -
  let ?xs = "[Write 3 1 [7], Read 3 0 2]"
  have z: "zeros = 0 # 0 # 0 # replicate 509 0" by (simp add: zeros_def numeral_eq_Suc)
  have "fst (run_disk ?xs (\<lambda>_. zeros)) = [[0, 7]]" "take 3 (snd (run_disk ?xs (\<lambda>_. zeros)) 3) = [0, 7, 0]"
    by (simp_all add: overlay_def z)
  moreover obtain st' st'' where "run_cache ?xs demo_fs = Some (fst (run_disk ?xs (cview demo_fs)), st')"
    "cache_write_to_disk True st' = Some st''" "b_data (fs_device st'') = snd (run_disk ?xs (cview demo_fs))"
    using cache_refines_disk[OF demo_wf, of ?xs True] by (auto simp: demo_lookup)
  ultimately show ?thesis unfolding demo_view by (metis (no_types, lifting))
qed

text \<open>C30: \<open>cache_evict\<close> always returns, although its loop has no bound of its own: it picks the first
  block without its access bit, or the first of all when every block has been used since the last
  time, and the content of the block it gives up is on the disk.\<close>

theorem cache_evict_second_chance:
  assumes wf: "cache_wf st" and ne: "cache_list st \<noteq> []"
  shows "\<exists>i st'. cache_evict st = Some (i, st') \<and> i < length (cache_list st) \<and>
    (if \<forall>cb\<in>set (cache_list st). cb_access cb then i = 0
     else \<not> cb_access (cache_list st ! i) \<and> (\<forall>j<i. cb_access (cache_list st ! j))) \<and>
    b_data (fs_device st') (cb_sector (cache_list st ! i)) = cview st (cb_sector (cache_list st ! i))"
proof -
  let ?cl = "cache_list st"
  have a: "dev_inv (fs_device st)" "distinct (map cb_sector ?cl)" using wf unfolding cache_wf_def by blast+
  have b: "\<And>cb. cb \<in> set ?cl \<Longrightarrow> cb_sector cb < b_size (fs_device st) \<and> (\<not> cb_dirty cb \<longrightarrow> cb_data cb = b_data (fs_device st) (cb_sector cb))"
    using wf unfolding cache_wf_def by blast
  obtain cbs i where e: "evict_loop ?cl = Some (cbs, i)" "i < length ?cl" "map clear_access cbs = map clear_access ?cl"
    "if \<forall>cb\<in>set ?cl. cb_access cb then i = 0 else \<not> cb_access (?cl ! i) \<and> (\<forall>j<i. cb_access (?cl ! j))"
    using evict_loop_returns[OF ne] by blast
  have l: "length cbs = length ?cl" using arg_cong[OF e(3), of length] by simp
  have "clear_access (cbs ! i) = clear_access (?cl ! i)"
    using arg_cong[OF e(3), of "\<lambda>xs. xs ! i"] e(2) l by simp
  then have same: "cb_sector (cbs ! i) = cb_sector (?cl ! i)" "cb_dirty (cbs ! i) = cb_dirty (?cl ! i)"
    "cb_data (cbs ! i) = cb_data (?cl ! i)"
    by (cases "cbs ! i"; cases "?cl ! i"; simp)+
  have mem: "?cl ! i \<in> set ?cl" using e(2) by simp
  note v = cview_in[OF a(2) mem]
  obtain st' where "cache_evict st = Some (i, st')"
    "b_data (fs_device st') (cb_sector (?cl ! i)) = cb_data (?cl ! i)"
  proof (cases "cb_dirty (?cl ! i)")
    case True
    then show thesis using that e(1) same b[OF mem] block_write_Some[OF a(1)]
      by (simp add: cache_evict_def Let_def)
  next
    case False
    then show thesis using that e(1) same b[OF mem] by (simp add: cache_evict_def Let_def)
  qed
  then show ?thesis using e(2,4) v by simp
qed

theorem cache_evict_second_chance_witness:
  "\<exists>i st'. cache_evict (demo_fs\<lparr>cache_list := [\<lparr>cb_sector = 3, cb_access = True, cb_dirty = False, cb_data = zeros\<rparr>,
      \<lparr>cb_sector = 4, cb_access = False, cb_dirty = True, cb_data = zeros[0 := 9]\<rparr>]\<rparr>) = Some (i, st') \<and> i = 1 \<and>
    b_data (fs_device st') 4 = zeros[0 := 9]"
proof -
  let ?cl = "[\<lparr>cb_sector = 3, cb_access = True, cb_dirty = False, cb_data = zeros\<rparr>,
      \<lparr>cb_sector = 4, cb_access = False, cb_dirty = True, cb_data = zeros[0 := 9]\<rparr>]"
  let ?st = "demo_fs\<lparr>cache_list := ?cl\<rparr>"
  have "cache_wf ?st" "cache_list ?st \<noteq> []"
    by (simp_all add: cache_wf_def demo_fs_def demo_disk_def dev_inv_def CACHE_SIZE_def)
  from cache_evict_second_chance[OF this] obtain i st' where r: "cache_evict ?st = Some (i, st')" "i < 2"
    "\<not> cb_access (?cl ! i)" "b_data (fs_device st') (cb_sector (?cl ! i)) = cview ?st (cb_sector (?cl ! i))" by auto
  then have "i = 1" by (auto simp: less_2)
  then show ?thesis using r by (simp add: cview_def)
qed

section \<open>Inodes\<close>

text \<open>closing the last reference to an inode that is not removed and opening its sector again gives
  an inode with the same length, counters, sectors, kind and parent: the 512 bytes written by
  \<open>inode_close\<close> are read back by \<open>inode_open\<close>.\<close>

theorem inode_close_open:
  assumes ino: "inodes st a = Some ino" "i_open_cnt ino = 1" "\<not> i_removed ino" "i_deny_write_cnt ino = 0"
      "\<not> i_locked ino"
    and dev: "dev_inv (fs_device st)" "i_sector ino < b_size (fs_device st)" "heap_ok st"
    and only: "\<forall>b\<in>set (remove1 a (open_inodes st)). map_option i_sector (inodes st b) \<noteq> Some (i_sector ino)"
    and rng: "int32 (i_length ino)" "i_direct_index ino < 2 ^ 32" "i_indirect_index ino < 2 ^ 32"
      "i_double_indirect_index ino < 2 ^ 32" "i_parent ino < 2 ^ 32" "length (i_ptr ino) = 14" "\<forall>p\<in>set (i_ptr ino). p < 2 ^ 32"
  shows "\<exists>st1 st2 b. inode_close (Some a) st = Some st1 \<and> inode_open (i_sector ino) st1 = Some (Some b, st2) \<and>
    inodes st2 b = Some (ino\<lparr>i_read_length := i_length ino\<rparr>)"
proof -
  let ?d = "\<lparr>d_length = i_length ino, d_magic = INODE_MAGIC, d_direct_index = i_direct_index ino,
    d_indirect_index = i_indirect_index ino, d_double_indirect_index = i_double_indirect_index ino,
    d_isdir = i_isdir ino, d_parent = i_parent ino, d_ptr = i_ptr ino\<rparr>"
  have rt: "dec_inode (enc_inode ?d) = ?d"
    by (rule dec_enc_inode) (use rng in \<open>simp add: inode_disk_ok_def INODE_MAGIC_def\<close>)
  define dv where "dv = (fs_device st)\<lparr>b_data := (b_data (fs_device st))(i_sector ino := enc_inode ?d),
    b_write_cnt := b_write_cnt (fs_device st) + 1\<rparr>"
  define st1 where "st1 = st\<lparr>inodes := (inodes st)(a := None), open_inodes := remove1 a (open_inodes st), fs_device := dv\<rparr>"
  have c: "inode_close (Some a) st = Some st1"
    using ino dev(1,2) by (simp add: inode_close_def put_inode_def raw_write_def block_write_Some dv_def st1_def Let_def)
  have f: "find_open st1 (i_sector ino) = None"
    using only by (auto simp: find_open_def find_None_iff st1_def)
  have r: "raw_read (i_sector ino) st1 = Some (enc_inode ?d, st1\<lparr>fs_device := dv\<lparr>b_read_cnt := b_read_cnt dv + 1\<rparr>\<rparr>)"
    using dev(2) by (simp add: raw_read_def block_read_Some st1_def dv_def)
  have "\<exists>st2. inode_open (i_sector ino) st1 = Some (Some (next_addr st1), st2) \<and>
      inodes st2 (next_addr st1) = Some (ino\<lparr>i_read_length := i_length ino\<rparr>)"
    using f r ino dev(3) by (simp add: inode_open_def st1_def Let_def rt)
  then show ?thesis using c by blast
qed

theorem inode_close_open_witness:
  "\<exists>st1 st2 b. inode_close (Some 1) demo_fs = Some st1 \<and> inode_open 10 st1 = Some (Some b, st2) \<and>
    inodes st2 b = Some demo_inode"
proof -
  have s: "i_sector demo_inode = 10" "demo_inode\<lparr>i_read_length := i_length demo_inode\<rparr> = demo_inode"
    by (simp_all add: demo_inode_def)
  show ?thesis
    by (rule inode_close_open[OF demo_lookup(1), unfolded s])
      (simp_all add: demo_inode_def demo_fs_def demo_disk_def dev_inv_def int32_def)
qed

text \<open>C31: \<open>inode_read_at\<close> returns the bytes of the file from the offset on, as many as were asked
  for and as the file has, over direct, indirect and doubly indirect blocks, and changes nothing that the
  rest of the system can see.\<close>

theorem inode_read_at_content:
  assumes "cache_wf st" "inodes st a = Some ino" "file_ok st (i_ptr ino) k" "i_read_length ino = int len" "len \<le> 512 * k"
  shows "\<exists>st'. inode_read_at a n offset st =
      Some (map (file_byte (cview st) (i_ptr ino)) [offset..<min (offset + nat n) len], st') \<and> cache_step st st'"
  using inode_read_at_spec[OF assms] by blast

theorem inode_read_at_content_witness:
  "\<exists>st'. inode_read_at 1 500 690 demo_fs = Some ([0, 0, 0, 0, 0, 0, 0, 0, 0, 0], st') \<and> cache_step demo_fs st'"
proof -
  have "i_read_length demo_inode = int 700" by (simp add: demo_inode_def)
  from inode_read_at_content[OF demo_wf demo_lookup(1) demo_file(1) this, of 500 690] obtain st' where
    r: "inode_read_at 1 500 690 demo_fs = Some (map (file_byte (cview demo_fs) (i_ptr demo_inode)) [690..<700], st')"
    "cache_step demo_fs st'" by auto
  have "file_byte (cview demo_fs) (i_ptr demo_inode) = (\<lambda>_. 0)"
    by (rule ext) (simp add: file_byte_def demo_view zeros_def)
  then have "map (file_byte (cview demo_fs) (i_ptr demo_inode)) [690..<700] = [0, 0, 0, 0, 0, 0, 0, 0, 0, 0]"
    by simp
  then show ?thesis using r by simp
qed

text \<open>C27: writing inside a file and reading it back: every later read of the file returns the bytes
  written in their range and the old bytes elsewhere.\<close>

theorem inode_write_then_read:
  assumes wf: "cache_wf st" and ino: "inodes st a = Some ino" "i_deny_write_cnt ino = 0"
      "i_length ino = int len" "i_read_length ino = int len"
    and f: "file_ok st (i_ptr ino) k" "inj_on (sector_of (cview st) (i_ptr ino)) {..<k}" "len \<le> 512 * k"
    and w: "offset + n \<le> len" "n \<le> length buf"
  shows "\<exists>st1. inode_write_at a buf (int n) offset st = Some (n, st1) \<and>
    (\<forall>m p. \<exists>st2. inode_read_at a (int m) p st1 =
       Some (map (\<lambda>i. if offset \<le> i \<and> i < offset + n then buf ! (i - offset) else file_byte (cview st) (i_ptr ino) i)
         [p..<min (p + m) len], st2))"
proof -
  obtain st1 where s: "inode_write_at a buf (int n) offset st = Some (n, st1)" "cache_wf st1" "file_ok st1 (i_ptr ino) k"
    "inodes st1 = inodes st" "\<forall>pos<512 * k. file_byte (cview st1) (i_ptr ino) pos =
       (if offset \<le> pos \<and> pos < offset + n then buf ! (pos - offset) else file_byte (cview st) (i_ptr ino) pos)"
    using inode_write_at_spec[OF wf ino f w] by blast
  have "\<exists>st2. inode_read_at a (int m) p st1 =
       Some (map (\<lambda>i. if offset \<le> i \<and> i < offset + n then buf ! (i - offset) else file_byte (cview st) (i_ptr ino) i)
         [p..<min (p + m) len], st2)" for m p
  proof -
    obtain st2 where "inode_read_at a (int m) p st1 = Some (map (file_byte (cview st1) (i_ptr ino)) [p..<min (p + m) len], st2)"
      using inode_read_at_spec[OF s(2) _ s(3) ino(4) f(3), of a "int m" p] s(4) ino(1) by auto
    moreover have "map (file_byte (cview st1) (i_ptr ino)) [p..<min (p + m) len] =
      map (\<lambda>i. if offset \<le> i \<and> i < offset + n then buf ! (i - offset) else file_byte (cview st) (i_ptr ino) i) [p..<min (p + m) len]"
      using s(5) f(3) by (intro map_cong refl) auto
    ultimately show ?thesis by auto
  qed
  then show ?thesis using s(1) by blast
qed

theorem inode_write_then_read_witness:
  "\<exists>st1. inode_write_at 1 [5, 6, 7] 3 511 demo_fs = Some (3, st1) \<and>
    (\<exists>st2. inode_read_at 1 5 510 st1 = Some ([0, 5, 6, 7, 0], st2))"
proof -
  have ino: "i_deny_write_cnt demo_inode = 0" "i_length demo_inode = int 700" "i_read_length demo_inode = int 700"
    by (simp_all add: demo_inode_def)
  obtain st1 where r: "inode_write_at 1 [5, 6, 7] (int 3) 511 demo_fs = Some (3, st1)"
    "\<And>m p. \<exists>st2. inode_read_at 1 (int m) p st1 =
       Some (map (\<lambda>i. if 511 \<le> i \<and> i < 511 + 3 then [5, 6, 7] ! (i - 511) else file_byte (cview demo_fs) (i_ptr demo_inode) i)
         [p..<min (p + m) 700], st2)"
    using inode_write_then_read[OF demo_wf demo_lookup(1) ino demo_file, of 511 3 "[5, 6, 7]"] by auto
  have z: "file_byte (cview demo_fs) (i_ptr demo_inode) i = 0" for i
    by (simp add: file_byte_def demo_view zeros_def)
  have "[510..<515] = [510, 511, 512, 513, 514 :: nat]" by (simp add: upt_rec)
  then show ?thesis using r(1) r(2)[of 5 510] by (auto simp: z)
qed

section \<open>The limits of growth\<close>

lemma free_map_allocate_full:
  assumes "bm_wf (free_map st)" "bm_used (free_map st) = {..<bit_cnt (free_map st)}"
  shows "free_map_allocate 1 st = Some (None, st)"
proof -
  obtain r b' where r: "bitmap_scan_and_flip (free_map st) 0 1 False = Some (r, b')"
    using bitmap_scan_and_flip_returns[OF assms(1) le0] by blast
  have "r = BITMAP_ERROR"
  proof (rule ccontr)
    assume e: "r \<noteq> BITMAP_ERROR"
    have s: "0 \<le> bit_cnt (free_map st)" by simp
    from bitmap_scan_and_flip_found(2,3)[OF assms(1) s r e]
    have "r < bit_cnt (free_map st)" "\<not> bm_bit (free_map st) r" by (auto simp: all_bits_def)
    then show False using assms(2) by (auto simp: bm_used_def)
  qed
  moreover from this bitmap_scan_and_flip_none(1)[OF assms(1), of 0 1 False b'] r have "b' = free_map st" by simp
  ultimately show ?thesis using r by (simp add: free_map_allocate_def)
qed

lemma bytes_to_data_sectors_eq: "0 \<le> n \<Longrightarrow> n \<le> 2147000000 \<Longrightarrow> bytes_to_data_sectors n = nat ((n + 511) div 512)"
  by (simp add: bytes_to_data_sectors_def div_round_up_eq BLOCK_SECTOR_SIZE_def)

lemma new_data_sectors_eq:
  "0 \<le> m \<Longrightarrow> m \<le> n \<Longrightarrow> n \<le> 2147000000 \<Longrightarrow> new_data_sectors n m = nat ((n + 511) div 512 - (m + 511) div 512)"
proof -
  assume a: "0 \<le> m" "m \<le> n" "n \<le> 2147000000"
  have "0 \<le> (m + 511) div 512" "(m + 511) div 512 \<le> (n + 511) div 512" using a by (auto intro: zdiv_mono1)
  moreover have "(n + 511) div 512 < 2 ^ 32" using a by simp
  ultimately show ?thesis using a by (simp add: new_data_sectors_def bytes_to_data_sectors_eq)
qed

definition zeroed :: "nat \<Rightarrow> block \<Rightarrow> block" where
  "zeroed k dv = dv\<lparr>b_data := (b_data dv)(0 := zeros), b_write_cnt := b_write_cnt dv + k\<rparr>"

lemma raw_write_zeroed:
  "dev_inv (fs_device st) \<Longrightarrow> 0 < b_size (fs_device st) \<Longrightarrow> raw_write 0 zeros st = Some (st\<lparr>fs_device := zeroed 1 (fs_device st)\<rparr>)"
  by (simp add: raw_write_def block_write_Some zeroed_def)

lemma zeroed_add: "zeroed j (zeroed i dv) = zeroed (i + j) dv"
  by (simp add: zeroed_def)

lemma zeroed_simps [simp]: "b_size (zeroed k dv) = b_size dv" "dev_inv dv \<Longrightarrow> dev_inv (zeroed k dv)"
  by (simp_all add: zeroed_def dev_inv_def zeros_def)

text \<open>Every pointer of a new inode is 0, so each sector that is not found makes the loop clear sector 0.\<close>

lemma fill_slots_full:
  assumes fm: "bm_wf (free_map st)" "bm_used (free_map st) = {..<bit_cnt (free_map st)}"
    and "dev_inv (fs_device st)" "0 < b_size (fs_device st)" "0 < n" "idx + n \<le> lim" "\<forall>i. idx \<le> i \<and> i < idx + n \<longrightarrow> ptrs ! i = 0"
  shows "fill_slots lim ptrs idx n st = Some (ptrs, idx + n, 0, st\<lparr>fs_device := zeroed n (fs_device st)\<rparr>)"
  using assms
proof (induction n arbitrary: idx st)
  case (Suc n)
  let ?st = "st\<lparr>fs_device := zeroed 1 (fs_device st)\<rparr>"
  have "alloc_slot ptrs idx st = Some (ptrs, st)"
    using free_map_allocate_full[OF Suc.prems(1,2), unfolded One_nat_def] by (simp add: alloc_slot_def)
  then have s: "fill_slots lim ptrs idx (Suc n) st =
      (if n = 0 then Some (ptrs, idx + 1, 0, ?st) else fill_slots lim ptrs (idx + 1) n ?st)"
    using Suc.prems(3,4,6,7) raw_write_zeroed[of st] by (subst fill_slots.simps) simp
  show ?case
  proof (cases "n = 0")
    case False
    then show ?thesis using s Suc.IH[of ?st "idx + 1"] Suc.prems by (simp add: zeroed_add)
  qed (use s in simp)
qed simp

text \<open>C33: For a file of 1 to 2048 bytes or such a directory, which needs only the direct pointers,
  \<open>inode_create\<close> on a full disk reports success all the same. The data pointers of the new file
  stay 0, so \<open>inode_expand\<close> clears sector 0, which holds the inode of the free map. (A file of length 0 needs no
  sector; beyond 2048 bytes the pointers come from an uninitialised block on the stack.)\<close>

theorem inode_create_disk_full:
  assumes fm: "bm_wf (free_map st)" "bm_used (free_map st) = {..<bit_cnt (free_map st)}"
    and st: "heap_ok st" "dev_inv (fs_device st)" "0 < sector" "sector < b_size (fs_device st)"
    and len: "0 < len" "len \<le> 2048"
  shows "\<exists>st'. inode_create sector len isdir st = Some (True, st') \<and> b_data (fs_device st') 0 = zeros \<and>
    d_length (dec_inode (b_data (fs_device st') sector)) = len \<and>
    (\<forall>i<4. d_ptr (dec_inode (b_data (fs_device st') sector)) ! i = 0)"
proof -
  define n where "n = nat ((len + 511) div 512)"
  define dv where "dv = zeroed n (fs_device st)"
  let ?ino = "empty_inode\<lparr>i_direct_index := n\<rparr>"
  have n: "new_data_sectors len 0 = n" "0 < n" "n \<le> INDIRECT_INDEX"
  proof -
    show "new_data_sectors len 0 = n" using new_data_sectors_eq[of 0 len] len by (simp add: n_def)
    have "512 div 512 \<le> (len + 511) div 512" using len by (intro zdiv_mono1) auto
    then show "0 < n" by (simp add: n_def)
    have "(len + 511) div 512 \<le> 2559 div 512" using len by (intro zdiv_mono1) auto
    then show "n \<le> INDIRECT_INDEX" by (simp add: n_def INDIRECT_INDEX_def)
  qed
  have z: "replicate INODE_BLOCK_PTRS 0 ! i = (0 :: nat)" if "i < 4" for i
    using that by (simp add: INODE_BLOCK_PTRS_def)
  have p: "i_ptr empty_inode ! i = 0" if "i < n" for i
    using that z[of i] n(3) by (simp add: empty_inode_def INDIRECT_INDEX_def)
  have f: "fill_slots INDIRECT_INDEX (i_ptr empty_inode) 0 n st = Some (i_ptr empty_inode, n, 0, st\<lparr>fs_device := dv\<rparr>)"
    using fill_slots_full[OF fm, of n 0 INDIRECT_INDEX "i_ptr empty_inode"] n st(2,4) p by (simp add: dv_def)
  have e: "inode_expand empty_inode len st = Some (len, ?ino, st\<lparr>fs_device := dv\<rparr>)"
  proof -
    have "i_length empty_inode = 0" "i_direct_index empty_inode = 0" by (simp_all add: empty_inode_def)
    then show ?thesis using n f by (simp add: inode_expand_def)
  qed
  let ?d = "\<lparr>d_length = len, d_magic = INODE_MAGIC, d_direct_index = n, d_indirect_index = 0, d_double_indirect_index = 0,
    d_isdir = isdir, d_parent = ROOT_DIR_SECTOR, d_ptr = replicate INODE_BLOCK_PTRS 0\<rparr>"
  have a: "inode_alloc \<lparr>d_length = len, d_magic = INODE_MAGIC, d_direct_index = 0, d_indirect_index = 0,
      d_double_indirect_index = 0, d_isdir = isdir, d_parent = ROOT_DIR_SECTOR, d_ptr = replicate INODE_BLOCK_PTRS 0\<rparr> st =
      Some (?d, st\<lparr>fs_device := dv\<rparr>)"
    using e by (simp add: inode_alloc_def) (simp add: empty_inode_def)
  let ?st = "st\<lparr>fs_device := dv\<lparr>b_data := (b_data dv)(sector := enc_inode ?d), b_write_cnt := b_write_cnt dv + 1\<rparr>\<rparr>"
  have dv: "dev_inv dv" "b_size dv = b_size (fs_device st)" using st(2) by (simp_all add: dv_def)
  have "inode_create sector len isdir st = Some (True, ?st)"
    using len st(1,4) a dv by (simp add: inode_create_def MAX_FILE_SIZE_def raw_write_def block_write_Some Let_def)
  moreover have "dec_inode (enc_inode ?d) = ?d"
    by (rule dec_enc_inode) (use len n in \<open>simp add: inode_disk_ok_def INODE_MAGIC_def INODE_BLOCK_PTRS_def
      INDIRECT_INDEX_def int32_def ROOT_DIR_SECTOR_def\<close>)
  ultimately show ?thesis using st(3) z by (simp add: dv_def zeroed_def)
qed

theorem inode_create_disk_full_witness:
  "\<exists>st'. inode_create 7 100 False (demo_fs\<lparr>free_map := \<lparr>bit_cnt = 2, bits = [3]\<rparr>\<rparr>) = Some (True, st') \<and>
    b_data (fs_device st') 0 = zeros"
proof -
  let ?fm = "\<lparr>bit_cnt = 2, bits = [3]\<rparr> :: bitmap"
  have "bm_wf ?fm" by (simp add: bm_wf_def SIZE_LIMIT_def Bitmap.elem_cnt_def DIV_ROUND_UP_def ELEM_BITS_def)
  moreover have "bm_used ?fm = {..<bit_cnt ?fm}"
    by (auto simp: bm_used_def bm_bit_def less_2 bit_iff_odd)
  ultimately show ?thesis
    using inode_create_disk_full[of "demo_fs\<lparr>free_map := ?fm\<rparr>" 7 100 False] by (auto simp: demo_fs_def demo_disk_def dev_inv_def)
qed



end
