(* ===== verification/VmProps.thy ===== *)
theory VmProps
  imports VmSpec FilesysProps
begin

text \<open>The properties of project 3's memory management.\<close>

section \<open>A small machine\<close>

text \<open>Four pages in each pool; the kernel pool holds a page directory at \<open>0xc0100000\<close> and one page
  table at \<open>0xc0101000\<close>, which maps the user page \<open>0x08048000\<close> to the frame \<open>0xc0200000\<close>, writable
  and dirty.\<close>

definition demo_ram :: "vaddr \<Rightarrow> byte" where
  "demo_ram x = (if x = 0xc0200005 then 42 else 0)"

definition demo_words :: "vaddr \<Rightarrow> 32 word" where
  "demo_words x = (if x = 0xc0100080 then 0x00101007 else if x = 0xc0101120 then 0x00200047 else 0)"

definition demo_kpool :: pool where
  "demo_kpool = \<lparr>used_map = \<lparr>bit_cnt = 4, bits = [3]\<rparr>, pool_base = 0xc0100000\<rparr>"

definition demo_upool :: pool where
  "demo_upool = \<lparr>used_map = \<lparr>bit_cnt = 4, bits = [1]\<rparr>, pool_base = 0xc0200000\<rparr>"

definition demo_paging :: paging where
  "demo_paging = \<lparr>kernel_pool = demo_kpool, user_pool = demo_upool, init_ram_pages = 1024, ram_bytes = demo_ram,
     ram_words = demo_words, init_page_dir = 0xc0102000, cr3 = 0x00100000\<rparr>"

lemma demo_used: "bm_used \<lparr>bit_cnt = 4, bits = [3]\<rparr> = {0, 1}" "bm_used \<lparr>bit_cnt = 4, bits = [1]\<rparr> = {0}"
proof -
  have "(i < 4 \<and> bm_bit \<lparr>bit_cnt = 4, bits = [3]\<rparr> i) = (i = 0 \<or> i = 1)" for i
  proof -
    have "i = 0 \<or> i = 1 \<or> i = 2 \<or> i = 3 \<or> 4 \<le> i" by arith
    then show ?thesis by (elim disjE) (simp_all add: bm_bit_def bit_numeral_rec bit_1_iff)
  qed
  then show "bm_used \<lparr>bit_cnt = 4, bits = [3]\<rparr> = {0, 1}" by (auto simp: bm_used_def)
  have "(i < 4 \<and> bm_bit \<lparr>bit_cnt = 4, bits = [1]\<rparr> i) = (i = 0)" for i
    by (auto simp: bm_bit_def bit_1_iff)
  then show "bm_used \<lparr>bit_cnt = 4, bits = [1]\<rparr> = {0}" by (auto simp: bm_used_def)
qed

lemma demo_pools: "pool_ok demo_kpool" "pool_ok demo_upool"
  by (simp_all add: pool_ok_def demo_kpool_def demo_upool_def bm_wf_def SIZE_LIMIT_def Bitmap.elem_cnt_def DIV_ROUND_UP_def ELEM_BITS_def
      pg_ofs_def PGMASK_def BITMASK_def PGBITS_def PGSIZE_def is_kernel_vaddr_def PHYS_BASE_def pool_size_def)

lemma demo_ram_ok: "ram_ok demo_paging"
  using demo_pools by (simp add: ram_ok_def demo_paging_def) (simp add: demo_kpool_def demo_upool_def pool_size_def PGSIZE_val)

section \<open>Page allocator\<close>

text \<open>C12: pages that \<open>palloc_get_multiple\<close> hands out were free, lie in the pool that the flags name, are
  filled with zeros when the flags ask for it, and can be given back: the pools then have the used
  pages they had before, and giving the pages back a second time stops the kernel.\<close>

theorem palloc_get_then_free:
  assumes "ram_ok st" "n > 0" "palloc_get_multiple flags n st = Some (a, st1)" "a \<noteq> 0"
  shows "\<exists>i. a = pool_page (flag_pool flags st) i \<and> i + n \<le> pool_size (flag_pool flags st) \<and>
    {i..<i + n} \<inter> bm_used (used_map (flag_pool flags st)) = {} \<and>
    (flags AND PAL_ZERO \<noteq> 0 \<longrightarrow> peek st1 a (PGSIZE * n) = replicate (PGSIZE * n) 0) \<and>
    (\<exists>st2. palloc_free_multiple a n st1 = Some st2 \<and> (\<forall>u. bm_used (used_map (which_pool u st2)) = bm_used (used_map (which_pool u st))) \<and>
      palloc_free_multiple a n st2 = None)"
proof -
  let ?u = "flags AND PAL_USER \<noteq> 0" and ?p = "flag_pool flags st"
  have g: "got_pages flags n a st st1" and ok1: "ram_ok st1"
    using palloc_get_multiple_spec[OF assms(1,2), of flags] assms(3,4) by (auto split: if_splits)
  from g obtain i b where i: "a = pool_page ?p i" "i + n \<le> pool_size ?p" "{i..<i + n} \<inter> bm_used (used_map ?p) = {}"
      "bm_upd (used_map ?p) {i..<i + n} True b"
      "st1 = (if flags AND PAL_ZERO \<noteq> 0 then fill a 0 (PGSIZE * n) (set_pool ?u b st) else set_pool ?u b st)"
    unfolding got_pages_def Let_def by blast
  have w1: "which_pool v st1 = (if v = ?u then (which_pool v st)\<lparr>used_map := b\<rparr> else which_pool v st)" for v
    unfolding i(5) eq_commute[of v ?u]
    by (cases "flags AND PAL_ZERO \<noteq> 0") (simp_all only: if_True if_False which_pool_simps simp_thms)
  have p: "?p = which_pool ?u st" by (rule flag_pool_which)
  have u1: "bm_used b = bm_used (used_map ?p) \<union> {i..<i + n}"
    using i(2,4) by (auto simp: bm_upd_def bm_used_def pool_size_def)
  have sz: "i + n \<le> pool_size (which_pool ?u st1)" using i(2,4) by (simp add: w1 p pool_size_def bm_upd_def)
  have a0: "pool_page (which_pool ?u st) i = a" using i(1) p by simp
  obtain b2 where f: "bm_upd b {i..<i + n} False b2" "ram_ok (set_pool ?u b2 st1)"
      "palloc_free_multiple a n st1 = Some (set_pool ?u b2 (fill a 0xcc (PGSIZE * n) st1))"
    using palloc_free_multiple_spec[OF ok1 assms(2) sz] u1 by (auto simp: a0 w1)
  let ?st2 = "set_pool ?u b2 (fill a 0xcc (PGSIZE * n) st1)"
  have w2: "which_pool v ?st2 = (if v = ?u then (which_pool v st)\<lparr>used_map := b2\<rparr> else which_pool v st)" for v
    using w1[of v] by auto
  have u2: "bm_used b2 = bm_used (used_map ?p)"
    using f(1) u1 i(2,3) by (auto simp: bm_upd_def bm_used_def)
  have ok2: "ram_ok ?st2" using f(2) by simp
  have sz2: "i + n \<le> pool_size (which_pool ?u ?st2)" using sz f(1) by (simp add: w2 w1 pool_size_def bm_upd_def)
  have "i \<in> {i..<i + n}" using assms(2) by simp
  then have "\<not> {i..<i + n} \<subseteq> bm_used b2" using u2 i(3) by blast
  then have "palloc_free_multiple a n ?st2 = None"
    using palloc_free_multiple_spec[OF ok2 assms(2) sz2] by (simp add: a0 w2 w1)
  moreover have "bm_used (used_map (which_pool v ?st2)) = bm_used (used_map (which_pool v st))" for v
    using u2 p unfolding w2 by simp
  moreover have "peek st1 a (PGSIZE * n) = replicate (PGSIZE * n) 0" if z: "flags AND PAL_ZERO \<noteq> 0"
  proof (rule nth_equalityI)
    fix k assume "k < length (peek st1 a (PGSIZE * n))"
    then have k: "k < PGSIZE * n" by (simp add: peek_def)
    have "PGSIZE * n \<le> PGSIZE * pool_size ?p" using i(2) by simp
    also have "\<dots> < 2 ^ 32" using flag_pool_ok[OF assms(1), of flags] by (simp add: pool_ok_def)
    finally have "unat (word_of_nat k :: 32 word) = k" using k by (simp add: unat_of_nat)
    then show "peek st1 a (PGSIZE * n) ! k = replicate (PGSIZE * n) 0 ! k"
      using k z by (simp add: peek_def i(5) fill_def)
  qed (simp add: peek_def)
  ultimately show ?thesis using i(1-3) f(3) by blast
qed

text \<open>Two zeroed user pages: the second and the third of the pool are the first that are free.\<close>

theorem palloc_get_then_free_witness:
  "\<exists>a st1 st2. palloc_get_multiple (PAL_USER OR PAL_ZERO) 2 demo_paging = Some (a, st1) \<and> a \<noteq> 0 \<and>
    peek st1 a (PGSIZE * 2) = replicate (PGSIZE * 2) 0 \<and> palloc_free_multiple a 2 st1 = Some st2 \<and>
    palloc_free_multiple a 2 st2 = None"
proof -
  let ?fl = "PAL_USER OR PAL_ZERO"
  have fl: "?fl AND PAL_USER \<noteq> 0" "?fl AND PAL_ZERO \<noteq> 0" by (simp_all add: PAL_USER_def PAL_ZERO_def)
  have "\<not> (\<forall>i. i + 2 \<le> pool_size (flag_pool ?fl demo_paging) \<longrightarrow>
      {i..<i + 2} \<inter> bm_used (used_map (flag_pool ?fl demo_paging)) \<noteq> {})"
  proof -
    have "1 + 2 \<le> pool_size demo_upool" "{1..<1 + 2} \<inter> bm_used (used_map demo_upool) = {}"
      by (simp_all add: demo_upool_def pool_size_def demo_used)
    then show ?thesis using fl(1) by (auto simp: flag_pool_def demo_paging_def intro!: exI[of _ 1])
  qed
  then obtain a st1 where g: "palloc_get_multiple ?fl 2 demo_paging = Some (a, st1)" "a \<noteq> 0"
    using palloc_get_multiple_spec[OF demo_ram_ok, of 2 ?fl] by auto
  from palloc_get_then_free[OF demo_ram_ok _ g] fl(2) g show ?thesis by auto
qed

section \<open>Page tables\<close>

definition demo_pd :: vaddr where "demo_pd = 0xc0100000"
definition demo_pt :: vaddr where "demo_pt = 0xc0101000"
definition demo_va :: vaddr where "demo_va = 0x08048000"

lemma demo_pages: "pg_ofs demo_pd = 0" "pg_ofs demo_pt = 0" "demo_pd \<noteq> demo_pt" "pg_ofs demo_va = 0"
  "is_user_vaddr demo_va" "is_kernel_vaddr demo_pd" "pd_no demo_va = 0x20" "pt_no demo_va = 0x48"
  by (simp_all add: demo_pd_def demo_pt_def demo_va_def pg_ofs_def PGMASK_def BITMASK_def PGBITS_def is_user_vaddr_def PHYS_BASE_def
      is_kernel_vaddr_def pd_no_def PDSHIFT_def PTSHIFT_def PTBITS_def pt_no_def PTMASK_def drop_bit_eq_div)

lemma demo_in_pool: "demo_pd \<in> pool_used demo_kpool" "demo_pt \<in> pool_used demo_kpool"
  by (simp_all add: pool_used_def demo_kpool_def demo_used pool_page_def demo_pd_def demo_pt_def PGSIZE_val)

lemma demo_words_pd: "unat k < 1024 \<Longrightarrow> demo_words (ptr_add demo_pd k) = (if k = 0x20 then 0x00101007 else 0)"
proof -
  assume k: "unat k < 1024"
  have a: "0xc0100080 = ptr_add demo_pd 0x20" "0xc0101120 = ptr_add demo_pt 0x48"
    by (simp_all add: ptr_add_def demo_pd_def demo_pt_def)
  show ?thesis
    using ptr_add_inj[OF demo_pages(1) k demo_pages(1), of "0x20"] ptr_add_inj[OF demo_pages(1) k demo_pages(2), of "0x48"] demo_pages(3)
    unfolding demo_words_def a by auto
qed

lemma demo_words_pt: "unat k < 1024 \<Longrightarrow> demo_words (ptr_add demo_pt k) = (if k = 0x48 then 0x00200047 else 0)"
proof -
  assume k: "unat k < 1024"
  have a: "0xc0100080 = ptr_add demo_pd 0x20" "0xc0101120 = ptr_add demo_pt 0x48"
    by (simp_all add: ptr_add_def demo_pd_def demo_pt_def)
  show ?thesis
    using ptr_add_inj[OF demo_pages(2) k demo_pages(1), of "0x20"] ptr_add_inj[OF demo_pages(2) k demo_pages(2), of "0x48"] demo_pages(3)
    unfolding demo_words_def a by auto
qed

lemma demo_table: "table demo_paging demo_pd va = (if pd_no va = 0x20 then Some demo_pt else None)"
  "pde_at demo_paging demo_pd va = (if pd_no va = 0x20 then 0x00101007 else 0)"
proof -
  show p: "pde_at demo_paging demo_pd va = (if pd_no va = 0x20 then 0x00101007 else 0)"
    using demo_words_pd[OF pd_no_bound] by (simp add: pde_at_def demo_paging_def)
  show "table demo_paging demo_pd va = (if pd_no va = 0x20 then Some demo_pt else None)"
    by (simp add: table_def p pde_get_pt_def PTE_P_def PTE_ADDR_def ptov_def PHYS_BASE_def demo_pt_def)
qed

lemma demo_pt_entry: "entry demo_paging demo_pd va = (if pd_no va = 0x20 \<and> pt_no va = 0x48 then 0x00200047 else 0)"
  using demo_words_pt[OF pt_no_bound, of va] by (auto simp: entry_def demo_table) (auto simp: demo_paging_def)

lemma demo_pt_ok: "pt_ok demo_paging demo_pd"
proof -
  have "pd_ok demo_paging demo_pd"
    unfolding pd_ok_def demo_table using demo_ram_ok demo_in_pool demo_pages(3)
    by (auto simp: demo_paging_def PHYS_BASE_def split: if_splits)
  moreover have "pte_get_page 0x00200047 \<noteq> None" by (simp add: pte_get_page_def PTE_ADDR_def ptov_def PHYS_BASE_def)
  ultimately show ?thesis by (simp add: pt_ok_def demo_pt_entry)
qed

lemma demo_pview: "pview demo_paging demo_pd va = (if pg_no va = pg_no demo_va then Some (0xc0200000, True, False, True) else None)"
proof -
  have "pd_no va = 0x20 \<and> pt_no va = 0x48 \<longleftrightarrow> pg_no va = pg_no demo_va"
    using same_page[of va demo_va] demo_pages(7,8) by simp
  then show ?thesis
    by (simp add: pview_def Let_def demo_pt_entry pte_flags pte_get_page_def PTE_ADDR_def ptov_def PHYS_BASE_def)
qed

text \<open>C8: the operations on a page directory do on the two-level tables what they are meant to do on a
  map from user pages to frames with their writable, accessed and dirty bits: the page they name
  changes as it should and every other page stays as it is. Only \<open>pagedir_set_page\<close> can fail, without
  any change, and only when the table for the page is missing and the kernel pool has no free page for it.\<close>

theorem pagedir_refines_map:
  assumes "pt_ok st pd" "pd_op_ok st pd oper"
  shows "\<exists>r st'. pd_exec pd oper st = Some (r, st') \<and> pt_ok st' pd \<and>
    (\<not> r \<longrightarrow> st' = st \<and> pd_no_room st pd oper) \<and>
    (r \<longrightarrow> (\<forall>va. is_user_vaddr va \<longrightarrow> pview st' pd va =
      (if pg_no va = pg_no (pd_target oper) then pd_effect oper (pview st pd va) else pview st pd va)))"
  by (rule pd_exec_spec[OF assms])

text \<open>Mapping the page behind the mapped one to the second frame.\<close>

theorem pagedir_refines_map_witness:
  "\<exists>st'. pd_exec demo_pd (Set_Page 0x08049000 0xc0201000 True) demo_paging = Some (True, st') \<and> pt_ok st' demo_pd \<and>
    pview st' demo_pd 0x08049000 = Some (0xc0201000, True, False, False) \<and>
    pview st' demo_pd demo_va = Some (0xc0200000, True, False, True)"
proof -
  have n: "pg_no (0x08049000 :: vaddr) \<noteq> pg_no demo_va" by (simp add: pg_no_def PGBITS_def demo_va_def drop_bit_eq_div)
  have "pd_op_ok demo_paging demo_pd (Set_Page 0x08049000 0xc0201000 True)"
    using n by (simp add: demo_pview)
      (simp add: is_user_vaddr_def PHYS_BASE_def pg_ofs_def PGMASK_def BITMASK_def PGBITS_def frame_ok_def is_kernel_vaddr_def
        PTSHIFT_def demo_paging_def demo_pd_def drop_bit_eq_div)
  from pagedir_refines_map[OF demo_pt_ok this] obtain r st' where
    r: "pd_exec demo_pd (Set_Page 0x08049000 0xc0201000 True) demo_paging = Some (r, st')" "pt_ok st' demo_pd"
      "\<not> r \<Longrightarrow> table demo_paging demo_pd 0x08049000 = None"
      "r \<Longrightarrow> is_user_vaddr va \<Longrightarrow> pview st' demo_pd va = (if pg_no va = pg_no 0x08049000 then Some (0xc0201000, True, False, False)
        else pview demo_paging demo_pd va)" for va
    unfolding pd_effect.simps pd_target.simps pd_no_room.simps by blast
  have "pd_no (0x08049000 :: vaddr) = 0x20" by (simp add: pd_no_def PDSHIFT_def PTSHIFT_def PTBITS_def PGBITS_def drop_bit_eq_div)
  then have "r" using r(3) by (auto simp: demo_table)
  have "is_user_vaddr (0x08049000 :: vaddr)" by (simp add: is_user_vaddr_def PHYS_BASE_def)
  then have "pview st' demo_pd 0x08049000 = Some (0xc0201000, True, False, False)"
    "pview st' demo_pd demo_va = Some (0xc0200000, True, False, True)"
    using r(4)[OF \<open>r\<close>, of "0x08049000"] r(4)[OF \<open>r\<close> demo_pages(5)] n by (simp_all add: demo_pview)
  then show ?thesis using r(1,2) \<open>r\<close> by auto
qed

section \<open>Frames\<close>

text \<open>The machine with a swap device of two pages, a frame table and one process: its page at
  \<open>0x08048000\<close>, read from an executable and changed since, is in the first frame.\<close>

definition demo_swap :: block where
  "demo_swap = \<lparr>b_name = ''hdb1'', b_type = BLOCK_SWAP, b_size = 16, b_data = (\<lambda>_. replicate 512 0), b_read_cnt = 0, b_write_cnt = 0\<rparr>"

definition demo_spte :: "bool \<Rightarrow> spt_entry" where
  "demo_spte locked = \<lparr>s_type = FILE, s_in_memory = True, s_writable = True, s_vaddr = demo_va, s_locked = locked, s_file = 1,
     s_offset = 0, s_read_bytes = 100, s_zero_bytes = 3996, s_swap_index = 0\<rparr>"

definition demo_table :: "keyed htab" where
  "demo_table = snd (the (hash_insert frame_hash frame_less True (the (hash_init True)) (0xc0200000, 7)))"

definition demo_proc :: proc where
  "demo_proc = \<lparr>p_pagedir = demo_pd, p_spt = the (hash_init True), p_mmaps = [], p_mapid = 0, p_fds = [], p_next_handle = 2,
     p_bin_file = None\<rparr>"

definition demo_vm :: "pool \<Rightarrow> bool \<Rightarrow> kernel" where
  "demo_vm upool locked = \<lparr>kernel_pool = demo_kpool, user_pool = upool, init_ram_pages = 1024, ram_bytes = demo_ram,
     ram_words = demo_words, init_page_dir = 0xc0102000, cr3 = 0x00100000, swap_block = Some demo_swap,
     swap_bitmap = Some \<lparr>bit_cnt = 2, bits = [0]\<rparr>, fs = demo_fs, fs_lock_held = False, ft_lock_held = False,
     sptes = [3 \<mapsto> demo_spte locked], frame_entries = [7 \<mapsto> \<lparr>fe_frame = 0xc0200000, fe_spte = 3, fe_thread = 1\<rparr>],
     frame_table = demo_table, mmap_files = Map.empty, procs = (\<lambda>_. demo_proc), cur = 1, malloc_ok = True, next_ptr = 8,
     spte_junk = demo_spte False, eax = 0xc0200000\<rparr>"

lemma demo_table_map: "ft.hash_wf demo_table" "ft.hmap demo_table = [0xc0200000 \<mapsto> (0xc0200000, 7)]" "HashTable.elem_cnt demo_table = 1"
proof -
  obtain h0 where h0: "hash_init True = Some h0" "ft.hash_wf h0" "ft.hmap h0 = Map.empty" using ft.hash_init_map by blast
  have c0: "HashTable.elem_cnt h0 = 0" unfolding ft.elem_cnt_card[OF h0(2)] h0(3) by simp
  obtain h where h: "hash_insert frame_hash frame_less True h0 (0xc0200000, 7) = Some (None, h)" "ft.hash_wf h"
      "ft.hmap h = (ft.hmap h0)(0xc0200000 \<mapsto> (0xc0200000, 7))" "HashTable.elem_cnt h = Suc (HashTable.elem_cnt h0)"
    using ft.hash_insert_new[OF h0(2), of "(0xc0200000, 7)" True] h0(3) c0 by auto
  have "demo_table = h" by (simp add: demo_table_def h0(1) h(1))
  then show "ft.hash_wf demo_table" "ft.hmap demo_table = [0xc0200000 \<mapsto> (0xc0200000, 7)]" "HashTable.elem_cnt demo_table = 1"
    using h h0(3) c0 by simp_all
qed

lemma demo_swap_ok: "swap_ok (demo_vm u l)" "swap_used (demo_vm u l) = {}" "swap_slots (demo_vm u l) = 2"
  by (auto simp: swap_ok_def swap_used_def swap_slots_def demo_vm_def demo_swap_def dev_wf_def dev_inv_def BLOCK_SECTOR_SIZE_def
      bm_wf_def SIZE_LIMIT_def Bitmap.elem_cnt_def DIV_ROUND_UP_def ELEM_BITS_def SPP_val bm_used_def bm_bit_def)

definition demo_upool1 :: pool where
  "demo_upool1 = \<lparr>used_map = \<lparr>bit_cnt = 1, bits = [1]\<rparr>, pool_base = 0xc0200000\<rparr>"

lemma demo_used1: "bm_used \<lparr>bit_cnt = 1, bits = [1]\<rparr> = {0}"
  by (auto simp: bm_used_def bm_bit_def)

lemma demo_pool1: "pool_ok demo_upool1"
  by (simp add: pool_ok_def demo_upool1_def bm_wf_def SIZE_LIMIT_def Bitmap.elem_cnt_def DIV_ROUND_UP_def ELEM_BITS_def
      pg_ofs_def PGMASK_def BITMASK_def PGBITS_def PGSIZE_def is_kernel_vaddr_def PHYS_BASE_def pool_size_def)

lemma demo_ram_ok1: "ram_ok (demo_vm demo_upool1 l)"
  using demo_pools(1) demo_pool1
  by (simp add: ram_ok_def demo_vm_def) (simp add: demo_kpool_def demo_upool1_def pool_size_def PGSIZE_val)

lemma demo_ram_ok4: "ram_ok (demo_vm demo_upool l)"
  using demo_ram_ok by (simp add: ram_ok_def demo_vm_def demo_paging_def)

lemma demo_vm_tables:
  assumes ok: "ram_ok (demo_vm u l)"
  shows "pt_ok (demo_vm u l) demo_pd" "\<And>va. pview (demo_vm u l) demo_pd va = pview demo_paging demo_pd va"
proof -
  have r: "ram_words (demo_vm u l) = ram_words demo_paging" "kernel_pool (demo_vm u l) = kernel_pool demo_paging"
      "cr3 (demo_vm u l) = cr3 demo_paging"
    by (simp_all add: demo_vm_def demo_paging_def)
  have e: "pde_at (demo_vm u l) demo_pd va = pde_at demo_paging demo_pd va" for va by (simp add: pde_at_def r)
  have t: "table (demo_vm u l) demo_pd va = table demo_paging demo_pd va" for va by (simp add: table_def e)
  have en: "entry (demo_vm u l) demo_pd va = entry demo_paging demo_pd va" for va
    by (simp add: entry_def t r split: option.split)
  show "pview (demo_vm u l) demo_pd va = pview demo_paging demo_pd va" for va by (simp add: pview_def en)
  show "pt_ok (demo_vm u l) demo_pd"
    using demo_pt_ok ok unfolding pt_ok_def pd_ok_def en t e r by simp
qed

text \<open>C7: when no frame is free and the changed page \<open>va\<close> of the running process is chosen, \<open>evict_frame\<close> writes
  it to a swap slot and hands its frame out again, and no other page or frame changes. The frame can then be
  registered for another page \<open>p'\<close> and freed, which leaves a state where the page can be loaded; and in every later state
  where it can be loaded (its entry and its slot are as they were left, and a frame is free) \<open>load_page\<close> brings
  back the content that it had, frees the slot and changes no other page or frame.\<close>

theorem page_out_page_in:
  assumes "evictable st q a p s pd va" "flags AND PAL_USER \<noteq> 0" "\<not> free_frame st"
    "frames_ok (st\<lparr>ft_lock_held := False\<rparr>)"
    "p_pagedir (cur_proc st) = pd" "active_pd st = Some pd" "pd \<noteq> init_page_dir st" "s_writable s"
  shows "\<exists>i st1. evict_frame flags q st = Some (a, st1) \<and> pview st1 pd va = None \<and> swap_page st1 i = peek st a PGSIZE \<and>
    (\<forall>wa. is_user_vaddr wa \<and> pg_no wa \<noteq> pg_no va \<longrightarrow> pview st1 pd wa = pview st pd wa) \<and>
    (\<forall>b \<in> pool_used (user_pool st) - {a}. peek st1 b PGSIZE = peek st b PGSIZE) \<and>
    (\<exists>st2 st3. frame_add_to_ft a p' (st1\<lparr>ft_lock_held := False\<rparr>) = Some st2 \<and> frame_free a st2 = Some st3 \<and>
       loadable st3 p (swapped s i) pd va i \<and> swap_page st3 i = swap_page st1 i) \<and>
    (\<forall>st3. loadable st3 p (swapped s i) pd va i \<and> swap_page st3 i = swap_page st1 i \<longrightarrow>
       (\<exists>a' st4 acc d. load_page p st3 = Some (True, st4) \<and> pview st4 pd va = Some (a', True, acc, d) \<and>
         peek st4 a' PGSIZE = peek st a PGSIZE \<and> swap_used st4 = swap_used st3 - {i} \<and>
         (\<forall>wa. is_user_vaddr wa \<and> pg_no wa \<noteq> pg_no va \<longrightarrow> pview st4 pd wa = pview st3 pd wa) \<and>
         (\<forall>b \<in> pool_used (user_pool st3). peek st4 b PGSIZE = peek st3 b PGSIZE)))"
  by (rule page_out_in[OF assms])

lemma demo_frame1: "frame_ok (demo_vm demo_upool1 l) 0xc0200000"
  by (simp add: frame_ok_def demo_vm_def pg_ofs_def PGMASK_def BITMASK_def PGBITS_def is_kernel_vaddr_def PHYS_BASE_def
      PTSHIFT_def drop_bit_eq_div)

lemma demo_upool_used: "pool_used demo_upool = {0xc0200000}" "pool_size demo_upool = 4"
  "pool_used demo_upool1 = {0xc0200000}" "pool_size demo_upool1 = 1"
  by (simp_all add: pool_used_def demo_upool_def demo_upool1_def demo_used demo_used1[unfolded One_nat_def] pool_page_def pool_size_def)

lemma demo_evictable:
  assumes "ram_ok (demo_vm u False)" "0xc0200000 \<in> pool_used u"
  shows "evictable (demo_vm u False) 7 0xc0200000 3 (demo_spte False) demo_pd demo_va"
proof -
  have "\<exists>w acc d. pview (demo_vm u False) demo_pd demo_va = Some (0xc0200000, w, acc, d) \<and> (d \<or> s_type (demo_spte False) = SWAP)"
    unfolding demo_vm_tables(2)[OF assms(1)] demo_pview by (intro exI[of _ True] exI[of _ False]) simp
  moreover have "\<exists>i < swap_slots (demo_vm u False). i \<notin> swap_used (demo_vm u False)"
    unfolding demo_swap_ok by (rule exI[of _ 0]) simp
  ultimately show ?thesis
    unfolding evictable_def using demo_vm_tables(1)[OF assms(1)] assms demo_swap_ok(1) demo_table_map demo_pages(4,5)
    by (simp add: demo_vm_def demo_spte_def demo_proc_def)
qed

lemma demo_full: "\<not> free_frame (demo_vm demo_upool1 l)"
  by (simp add: free_frame_def demo_vm_def demo_upool1_def pool_size_def demo_used1[unfolded One_nat_def])

lemma demo_frames_ok1: "frames_ok (demo_vm demo_upool1 False)"
proof -
  have u: "user_pool (demo_vm demo_upool1 False) = demo_upool1" by (simp add: demo_vm_def)
  have "pool_page demo_upool1 0 = 0xc0200000" by (simp add: pool_page_def demo_upool1_def)
  then show ?thesis
    unfolding frames_ok_def u demo_upool_used using demo_frame1 demo_table_map
    by (simp add: demo_vm_def)
qed

lemma demo_active: "active_pd (demo_vm u l) = Some demo_pd" "p_pagedir (cur_proc (demo_vm u l)) = demo_pd" "demo_pd \<noteq> init_page_dir (demo_vm u l)"
  by (simp_all add: active_pd_def demo_vm_def ptov_def PHYS_BASE_def demo_pd_def cur_proc_def demo_proc_def)

text \<open>The machine has a single frame. The page goes out, entry 9 gets the frame and gives it back, and the page comes
  back; byte 5 of it is 42.\<close>

theorem page_out_page_in_witness:
  "\<exists>st1 st2 st3 a' st4 acc d. evict_frame PAL_USER 7 (demo_vm demo_upool1 False) = Some (0xc0200000, st1) \<and>
    frame_add_to_ft 0xc0200000 9 (st1\<lparr>ft_lock_held := False\<rparr>) = Some st2 \<and> frame_free 0xc0200000 st2 = Some st3 \<and>
    load_page 3 st3 = Some (True, st4) \<and> pview st4 demo_pd demo_va = Some (a', True, acc, d) \<and> peek st4 a' PGSIZE ! 5 = 42"
proof -
  have f: "(demo_vm demo_upool1 False)\<lparr>ft_lock_held := False\<rparr> = demo_vm demo_upool1 False" by (simp add: demo_vm_def)
  have u: "PAL_USER AND PAL_USER \<noteq> 0" by (simp add: PAL_USER_def)
  have w: "s_writable (demo_spte False)" by (simp add: demo_spte_def)
  have fo: "frames_ok ((demo_vm demo_upool1 False)\<lparr>ft_lock_held := False\<rparr>)" unfolding f by (rule demo_frames_ok1)
  have ev: "evictable (demo_vm demo_upool1 False) 7 0xc0200000 3 (demo_spte False) demo_pd demo_va"
    by (rule demo_evictable[OF demo_ram_ok1]) (simp add: demo_upool_used)
  obtain i st1 st2 st3 where
    r: "evict_frame PAL_USER 7 (demo_vm demo_upool1 False) = Some (0xc0200000, st1)"
      "frame_add_to_ft 0xc0200000 9 (st1\<lparr>ft_lock_held := False\<rparr>) = Some st2" "frame_free 0xc0200000 st2 = Some st3"
    and l: "\<exists>a' st4 acc d. load_page 3 st3 = Some (True, st4) \<and> pview st4 demo_pd demo_va = Some (a', True, acc, d) \<and>
      peek st4 a' PGSIZE = peek (demo_vm demo_upool1 False) 0xc0200000 PGSIZE"
    using page_out_page_in[OF ev u demo_full fo demo_active(2,1,3) w, of 9] by metis
  have p: "peek (demo_vm demo_upool1 False) 0xc0200000 PGSIZE ! 5 = 42"
    by (simp add: peek_def PGSIZE_val demo_vm_def demo_ram_def)
  from l obtain a' st4 acc d where "load_page 3 st3 = Some (True, st4)" "pview st4 demo_pd demo_va = Some (a', True, acc, d)"
      "peek st4 a' PGSIZE ! 5 = 42" using p by metis
  then show ?thesis using r by blast
qed

text \<open>C13: when every frame is in use and every entry of the frame table is locked, \<open>frame_evict\<close>
  reaches its end without a value. If the return register happens to hold 0, \<open>frame_alloc\<close> tries again
  forever; if it holds anything else, \<open>frame_alloc\<close> takes that for the frame, registers it in the
  frame table and returns it, although another page owns it or no page is there.\<close>

theorem frame_alloc_all_locked:
  assumes "ram_ok st" "\<not> free_frame st" "ft.hash_wf (frame_table st)" "all_locked st (concat (buckets (frame_table st)))"
    "\<not> ft_lock_held st" "fl AND PAL_USER \<noteq> 0" "fl AND PAL_ASSERT = 0"
  shows "frame_alloc fl p st =
    (if eax st = 0 then None else do { st \<leftarrow> frame_add_to_ft (eax st) p st; Some (eax st, st) })"
  by (rule frame_alloc_garbage[OF assms])

text \<open>One frame, whose page is locked: the page of entry 9 gets the frame of the page of entry 3.\<close>

theorem frame_alloc_all_locked_witness:
  "\<exists>st'. frame_alloc PAL_USER 9 (demo_vm demo_upool1 True) = Some (0xc0200000, st') \<and>
    frame_entries st' 7 = Some \<lparr>fe_frame = 0xc0200000, fe_spte = 3, fe_thread = 1\<rparr> \<and>
    frame_entries st' 8 = Some \<lparr>fe_frame = 0xc0200000, fe_spte = 9, fe_thread = 1\<rparr>"
proof -
  let ?st = "demo_vm demo_upool1 True"
  note ok = demo_ram_ok1[of True] and nf = demo_full[of True]
  have st: "frame_table ?st = demo_table" "\<not> ft_lock_held ?st" "eax ?st = 0xc0200000"
    by (simp_all add: demo_vm_def)
  have "set (concat (buckets demo_table)) = {(0xc0200000, 7)}"
  proof -
    have d: "distinct (map fst (concat (buckets demo_table)))" using demo_table_map(1) by (simp add: ft.hash_wf_def)
    have "(x \<in> set (concat (buckets demo_table))) = (x = (0xc0200000, 7))" for x
      using ft.hmap_iff[OF d, of "fst x" x] by (auto simp: demo_table_map(2) split: if_splits)
    then show ?thesis by blast
  qed
  then have al: "all_locked ?st (concat (buckets (frame_table ?st)))"
    unfolding st(1) all_locked_def by (simp add: demo_vm_def demo_spte_def)
  have fl: "PAL_USER AND PAL_USER \<noteq> 0" "PAL_USER AND PAL_ASSERT = 0" by (simp_all add: PAL_USER_def PAL_ASSERT_def)
  obtain h where h: "hash_insert frame_hash frame_less True demo_table (0xc0200000, 8) = Some (Some (0xc0200000, 7), h)"
    using ft.hash_insert_old[OF demo_table_map(1), of "(0xc0200000, 8)" "(0xc0200000, 7)" True] demo_table_map(2,3) by auto
  have hw: "ft.hash_wf (frame_table ?st)" by (simp add: st(1) demo_table_map(1))
  show ?thesis
    using frame_alloc_all_locked[OF ok nf hw al st(2) fl, of 9] h unfolding st(3)
    by (simp add: frame_add_to_ft_def lock_ft_def unlock_ft_def demo_vm_def)
qed

end
