(* ===== verification/SyscallProps.thy ===== *)
theory SyscallProps
  imports SyscallInv VmProps
begin

text \<open>The properties of project 3's system calls.\<close>

section \<open>File descriptors\<close>


text \<open>The open files of the running process.\<close>

definition fd_map :: "kernel \<Rightarrow> int \<Rightarrow> nat option" where
  "fd_map st h = map_option fd_file (lookup_fd h st)"








lemma keeps_lock: "keeps st st' \<Longrightarrow> fs_lock_held st' = fs_lock_held st"
  by (simp add: keeps_def)


lemma fd_map_lock [simp]: "fd_map (st\<lparr>fs_lock_held := b\<rparr>) = fd_map st"
  by (simp add: fd_map_def lookup_fd_def cur_proc_def fun_eq_iff)





section \<open>The dispatcher\<close>





































section \<open>Arguments in memory\<close>



section \<open>Loading a page with the lock held\<close>

lemma load_file_page_panics:
  assumes "fs_lock_held st" "sptes st p = Some s" "s_read_bytes s > 0"
  shows "load_file_page p st = None"
proof (cases "frame_alloc PAL_USER p st")
  case None
  then show ?thesis using assms by (simp add: load_file_page_def)
next
  case (Some r)
  then have "keeps st (snd r)" "fst r \<noteq> 0" using frame_alloc_keeps[of PAL_USER p st "fst r" "snd r"] by (simp_all add: PAL_USER_def)
  then have "lock_fs (snd r) = None" using assms(1) by (simp add: keeps_def lock_fs_def)
  then show ?thesis using assms(2,3) Some \<open>fst r \<noteq> 0\<close> by (cases r) (simp add: load_file_page_def)
qed

lemma verify_user_panics:
  assumes "fs_lock_held st" "is_user_vaddr a" "USER_VADDR_BOTTOM \<le> a" "get_spte a st = Some p" "sptes st p = Some s"
    "\<not> s_in_memory s" "s_type s \<in> {FILE, MMAP}" "s_read_bytes s > 0"
  shows "verify_user esp a st = None"
proof -
  let ?st = "st\<lparr>sptes := (sptes st)(p \<mapsto> s\<lparr>s_locked := True\<rparr>)\<rparr>"
  have "load_file_page p ?st = None" using assms(1,8) by (intro load_file_page_panics[of _ _ "s\<lparr>s_locked := True\<rparr>"]) simp_all
  then have "load_page p st = None" using assms(5-7) by (auto simp: load_page_def upd_spte_def)
  then show ?thesis using assms(2-6) by (simp add: verify_user_def not_less)
qed

section \<open>A process with an open file\<close>

text \<open>The page at \<open>0x08048000\<close> is in memory; it starts with the number 12, of \<open>close\<close>, and the handle 2. The
  file of this handle is opened twice.\<close>

definition demo_spt :: "keyed htab" where
  "demo_spt = snd (the (hash_insert page_hash_func page_less_func True (the (hash_init True)) (demo_va, 3)))"

definition demo_user :: "bool \<Rightarrow> kernel" where
  "demo_user in_memory = (demo_vm demo_upool True)\<lparr>ram_bytes := \<lambda>x. if x = 0xc0200000 then 12 else if x = 0xc0200004 then 2 else 0,
     procs := \<lambda>_. demo_proc\<lparr>p_spt := demo_spt, p_fds := [\<lparr>fd_file = 2, fd_handle = 2\<rparr>], p_next_handle := 3\<rparr>,
     sptes := [3 \<mapsto> (demo_spte True)\<lparr>s_in_memory := in_memory\<rparr>],
     fs := demo_fs\<lparr>inodes := [1 \<mapsto> demo_inode\<lparr>i_open_cnt := 2\<rparr>], files := [2 \<mapsto> \<lparr>f_inode = 1, f_pos = 0, f_deny_write = False\<rparr>]\<rparr>\<rparr>"

lemma demo_get_spte: "get_spte demo_va (demo_user m) = Some 3"
proof -
  obtain h0 where h0: "hash_init True = Some h0" "spt.hash_wf h0" "spt.hmap h0 = Map.empty" using spt.hash_init_map by blast
  have c0: "HashTable.elem_cnt h0 = 0" unfolding spt.elem_cnt_card[OF h0(2)] h0(3) by simp
  obtain h where h: "hash_insert page_hash_func page_less_func True h0 (demo_va, 3) = Some (None, h)" "spt.hash_wf h"
      "spt.hmap h = (spt.hmap h0)(demo_va \<mapsto> (demo_va, 3))"
    using spt.hash_insert_new[OF h0(2), of "(demo_va, 3)" True] h0(3) c0 by auto
  have "demo_spt = h" by (simp add: demo_spt_def h0(1) h(1))
  then have "hash_find page_hash_func page_less_func demo_spt (demo_va, 0) = Some (demo_va, 3)"
    using spt.hash_find_map[OF h(2), of "(demo_va, 0)"] h(3) h0(3) by simp
  then show ?thesis
    unfolding get_spte_def pg_round_down_idem[OF demo_pages(4)] by (simp add: demo_user_def cur_proc_def)
qed




section \<open>The properties\<close>



text \<open>C6: when a user program passes \<open>read\<close> or \<open>write\<close> a buffer whose first page comes from a file and has
  not been loaded, the kernel panics. The call holds \<open>fs_lock\<close> when it loads the page; as soon as \<open>frame_alloc\<close>
  has returned the frame \<open>f\<close> for the page, in the state \<open>st1\<close>, the lock is acquired again by the
  thread that holds it, and this is the step that fails: all steps before it return.\<close>

theorem sys_read_write_panic:
  assumes "lookup_fd handle st = Some fd" "handle \<noteq> 0" "unat n > 0" "is_user_vaddr a" "USER_VADDR_BOTTOM \<le> a"
    and "get_spte a st = Some p" "sptes st p = Some s" "\<not> s_in_memory s" "s_type s \<in> {FILE, MMAP}" "s_read_bytes s > 0"
    and "lock_fs st = Some st0"
    and "frame_alloc PAL_USER p (st0\<lparr>sptes := (sptes st0)(p \<mapsto> s\<lparr>s_locked := True\<rparr>)\<rparr>) = Some (f, st1)"
  shows "f \<noteq> 0 \<and> fs_lock_held st1 \<and> lock_fs st1 = None \<and>
    sys_read keys esp handle a n st = None \<and> sys_write esp handle a n st = None"
proof -
  let ?st = "st0\<lparr>sptes := (sptes st0)(p \<mapsto> s\<lparr>s_locked := True\<rparr>)\<rparr>"
  have st0: "st0 = st\<lparr>fs_lock_held := True\<rparr>" using lockD(1)[OF assms(11)] by simp
  have v: "verify_user esp a st0 = None"
    using assms(4-10) by (intro verify_user_panics) (simp_all add: st0 get_spte_def cur_proc_def)
  have "f \<noteq> 0" "keeps ?st st1"
    using frame_alloc_keeps[OF assms(12)] by (simp_all add: PAL_USER_def)
  moreover have "fs_lock_held st1" using keeps_lock[OF \<open>keeps ?st st1\<close>] by (simp add: st0)
  moreover have "sys_read keys esp handle a n st = None"
    using v assms(1-3,11) by (simp add: sys_read_def with_fd_def read_loop.simps)
  moreover have "sys_write esp handle a n st = None"
    using v assms(1,3,11) by (simp add: sys_write_def write_loop.simps)
  ultimately show ?thesis by (simp add: lock_fs_def)
qed

lemma demo_user_frame:
  assumes "st0 = (demo_user False)\<lparr>fs_lock_held := True\<rparr>"
  shows "\<exists>f st1. frame_alloc PAL_USER 3 (st0\<lparr>sptes := (sptes st0)(3 \<mapsto> x)\<rparr>) = Some (f, st1)"
proof -
  let ?st = "st0\<lparr>sptes := (sptes st0)(3 \<mapsto> x)\<rparr>"
  have u: "kernel_pool ?st = kernel_pool (demo_vm demo_upool True)" "user_pool ?st = demo_upool" "frame_table ?st = demo_table"
      "malloc_ok ?st" "\<not> ft_lock_held ?st"
    by (simp_all add: assms demo_user_def demo_vm_def)
  have ok: "ram_ok ?st" using demo_ram_ok4[of True] u by (simp add: ram_ok_def demo_vm_def)
  have fr: "free_frame ?st" unfolding free_frame_def u by (rule exI[of _ 1]) (simp add: pool_size_def demo_upool_def demo_used)
  have k: "a \<in> pool_used (user_pool ?st)" if "ft.hmap (frame_table ?st) a \<noteq> None" for a
    using that unfolding u demo_upool_used demo_table_map(2) by (simp split: if_splits)
  have hw: "ft.hash_wf (frame_table ?st)" "HashTable.elem_cnt (frame_table ?st) < 2 ^ 32 - 1" unfolding u by (simp_all add: demo_table_map)
  have fl: "PAL_USER AND PAL_USER \<noteq> 0" by (simp add: PAL_USER_def)
  show ?thesis using frame_alloc_free[OF ok fr u(4,5) hw k fl, of 3] by blast
qed

text \<open>A read of 5 bytes into the page at \<open>0x08048000\<close>, which is not in memory; three frames are free.\<close>

theorem sys_read_write_panic_witness:
  "lock_fs (demo_user False) \<noteq> None \<and>
   sys_read (\<lambda>_. 0) demo_va 2 demo_va 5 (demo_user False) = None \<and> sys_write demo_va 2 demo_va 5 (demo_user False) = None"
proof -
  have l: "lookup_fd 2 (demo_user False) = Some \<lparr>fd_file = 2, fd_handle = 2\<rparr>" "unat (5 :: 32 word) > 0"
    by (simp_all add: lookup_fd_def demo_user_def cur_proc_def)
  have b: "USER_VADDR_BOTTOM \<le> demo_va" by (simp add: USER_VADDR_BOTTOM_def demo_va_def)
  have s: "sptes (demo_user False) 3 = Some ((demo_spte True)\<lparr>s_in_memory := False\<rparr>)" by (simp add: demo_user_def)
  have s': "\<not> s_in_memory ((demo_spte True)\<lparr>s_in_memory := False\<rparr>)" "s_type ((demo_spte True)\<lparr>s_in_memory := False\<rparr>) \<in> {FILE, MMAP}"
      "s_read_bytes ((demo_spte True)\<lparr>s_in_memory := False\<rparr>) > 0"
    by (simp_all add: demo_spte_def)
  have k: "lock_fs (demo_user False) = Some ((demo_user False)\<lparr>fs_lock_held := True\<rparr>)"
    by (simp add: lock_fs_def demo_user_def demo_vm_def)
  obtain f st1 where fr: "frame_alloc PAL_USER 3 ((demo_user False)\<lparr>fs_lock_held := True,
      sptes := (sptes (demo_user False))(3 \<mapsto> ((demo_spte True)\<lparr>s_in_memory := False\<rparr>)\<lparr>s_locked := True\<rparr>)\<rparr>) = Some (f, st1)"
    using demo_user_frame[OF refl, of "((demo_spte True)\<lparr>s_in_memory := False\<rparr>)\<lparr>s_locked := True\<rparr>"] by auto
  show ?thesis
    using sys_read_write_panic [OF l(1) _ l(2) demo_pages(5) b demo_get_spte s s' k, of f st1 "\<lambda>_. 0" demo_va] fr k by simp
qed

end
