(* ===== verification/Arith64.thy ===== *)
theory Arith64
  imports Prelude "HOL-Library.Word" "HOL-Library.Signed_Division"
begin

unbundle bit_operations_syntax

text \<open>
  \<open>lib/arithmetic.c\<close> of project 4: 64-bit division on a machine that divides 64 by 32 bits. \<^const>\<open>None\<close> is
  the divide error of the processor.
\<close>

section \<open>The routines\<close>

definition divl :: "64 word \<Rightarrow> 32 word \<Rightarrow> 32 word option" where
  "divl n d = do {
     ASSERT (d \<noteq> 0 \<and> unat n div unat d < 2 ^ 32);
     Some (ucast (n div ucast d)) }"

text \<open>The number of leading zeros is counted in steps of 16, 8, 4, 2 and 1.\<close>

definition nlz :: "32 word \<Rightarrow> nat" where
  "nlz x = (
     let (n, x) = (if x \<le> 0x0000FFFF then (16, push_bit 16 x) else (0, x));
         (n, x) = (if x \<le> 0x00FFFFFF then (n + 8, push_bit 8 x) else (n, x));
         (n, x) = (if x \<le> 0x0FFFFFFF then (n + 4, push_bit 4 x) else (n, x));
         (n, x) = (if x \<le> 0x3FFFFFFF then (n + 2, push_bit 2 x) else (n, x))
     in if x \<le> 0x7FFFFFFF then n + 1 else n)"

definition udiv64 :: "64 word \<Rightarrow> 64 word \<Rightarrow> 64 word option" where
  "udiv64 n d =
     (if drop_bit 32 d = 0 then do {
        let b = 2 ^ 32;
        let n1 = (ucast (drop_bit 32 n) :: 32 word);
        let n0 = (ucast n :: 32 word);
        let d0 = (ucast d :: 32 word);
        ASSERT (d0 \<noteq> 0);
        q \<leftarrow> divl (b * ucast (n1 mod d0) + ucast n0) d0;
        Some (ucast q + b * ucast (n1 div d0)) }
      else if n < d then Some 0
      else do {
        let d1 = (ucast (drop_bit 32 d) :: 32 word);
        let s = nlz d1;
        q \<leftarrow> divl (drop_bit 1 n) (ucast (drop_bit 32 (push_bit s d)));
        let q = drop_bit (31 - s) (ucast q);
        Some (if n - (q - 1) * d < d then q - 1 else q) })"

text \<open>The remainders are cut to 32 bits.\<close>

definition umod64 :: "64 word \<Rightarrow> 64 word \<Rightarrow> 32 word option" where
  "umod64 n d = do { q \<leftarrow> udiv64 n d; Some (ucast (n - d * q)) }"

definition sdiv64 :: "64 word \<Rightarrow> 64 word \<Rightarrow> 64 word option" where
  "sdiv64 n d = do {
     let n_abs = (if sint n \<ge> 0 then n else - n);
     let d_abs = (if sint d \<ge> 0 then d else - d);
     q_abs \<leftarrow> udiv64 n_abs d_abs;
     Some (if (sint n < 0) = (sint d < 0) then q_abs else - q_abs) }"

definition smod64 :: "64 word \<Rightarrow> 64 word \<Rightarrow> 32 word option" where
  "smod64 n d = do { q \<leftarrow> sdiv64 n d; Some (ucast (n - d * q)) }"

definition divdi3 :: "64 word \<Rightarrow> 64 word \<Rightarrow> 64 word option" where
  "divdi3 n d = sdiv64 n d"

definition moddi3 :: "64 word \<Rightarrow> 64 word \<Rightarrow> 64 word option" where
  "moddi3 n d = map_option scast (smod64 n d)"

definition udivdi3 :: "64 word \<Rightarrow> 64 word \<Rightarrow> 64 word option" where
  "udivdi3 n d = udiv64 n d"

definition umoddi3 :: "64 word \<Rightarrow> 64 word \<Rightarrow> 64 word option" where
  "umoddi3 n d = map_option ucast (umod64 n d)"

section \<open>Leading zeros\<close>

lemma unat_shift32: "unat (x :: 32 word) * 2 ^ k < 2 ^ 32 \<Longrightarrow> unat (push_bit k x) = unat x * 2 ^ k"
  by (simp only: unsigned_push_bit_eq take_bit_eq_mod) (simp add: push_bit_eq_mult)

lemma nlz_spec:
  assumes "x \<noteq> 0"
  shows "2 ^ 31 \<le> unat x * 2 ^ nlz x" "unat x * 2 ^ nlz x < 2 ^ 32"
proof -
  have step: "\<exists>n' x'. (if y \<le> l then (m, push_bit k y) else (n, y)) = (n', x') \<and> unat x' = unat x * 2 ^ n' \<and>
      2 ^ (32 - k) \<le> unat x'"
    if y: "unat y = unat x * 2 ^ n" "2 ^ (32 - 2 * k) \<le> unat y" "unat l = 2 ^ (32 - k) - 1" "0 < k" "2 * k \<le> 32" "m = n + k"
    for y l :: "32 word" and n k m :: nat
  proof (cases "y \<le> l")
    case True
    then have "unat y < 2 ^ (32 - k)" using y(3) by (simp add: word_le_nat_alt) (metis Suc_pred less_Suc_eq_le zero_less_numeral zero_less_power)
    moreover have e: "(2 :: nat) ^ (32 - k) * 2 ^ k = 2 ^ 32" "(2 :: nat) ^ (32 - 2 * k) * 2 ^ k = 2 ^ (32 - k)"
      using y(5) by (simp_all flip: power_add)
    ultimately have "unat y * 2 ^ k < 2 ^ 32" by (metis mult_less_cancel2 zero_less_numeral zero_less_power)
    then have "unat (push_bit k y) = unat y * 2 ^ k" by (rule unat_shift32)
    moreover have "2 ^ (32 - k) \<le> unat y * 2 ^ k" using y(2) unfolding e(2)[symmetric] by simp
    ultimately show ?thesis using True y(1,6) by (simp add: power_add)
  next
    case False
    then have "2 ^ (32 - k) \<le> unat y" using y(3) by (simp add: word_le_nat_alt not_le)
    then show ?thesis using False y(1) by simp
  qed
  have x: "1 \<le> unat x" using assms by (simp add: word_gt_0_no Suc_le_eq unat_gt_0)
  obtain n1 x1 where 1: "(if x \<le> 0x0000FFFF then (16, push_bit 16 x) else (0, x)) = (n1, x1)" "unat x1 = unat x * 2 ^ n1" "2 ^ 16 \<le> unat x1"
    using step[of x 0 16 "0x0000FFFF" 16] x by auto
  obtain n2 x2 where 2: "(if x1 \<le> 0x00FFFFFF then (n1 + 8, push_bit 8 x1) else (n1, x1)) = (n2, x2)" "unat x2 = unat x * 2 ^ n2" "2 ^ 24 \<le> unat x2"
    using step[of x1 n1 8 "0x00FFFFFF" "n1 + 8"] 1 by auto
  obtain n3 x3 where 3: "(if x2 \<le> 0x0FFFFFFF then (n2 + 4, push_bit 4 x2) else (n2, x2)) = (n3, x3)" "unat x3 = unat x * 2 ^ n3" "2 ^ 28 \<le> unat x3"
    using step[of x2 n2 4 "0x0FFFFFFF" "n2 + 4"] 2 by auto
  obtain n4 x4 where 4: "(if x3 \<le> 0x3FFFFFFF then (n3 + 2, push_bit 2 x3) else (n3, x3)) = (n4, x4)" "unat x4 = unat x * 2 ^ n4" "2 ^ 30 \<le> unat x4"
    using step[of x3 n3 2 "0x3FFFFFFF" "n3 + 2"] 3 by auto
  have n: "nlz x = (if x4 \<le> 0x7FFFFFFF then n4 + 1 else n4)"
    unfolding nlz_def Let_def 1(1) prod.case 2(1) 3(1) 4(1) by simp
  have l: "x4 \<le> 0x7FFFFFFF \<longleftrightarrow> unat x4 < 2 ^ 31" by (simp add: word_le_nat_alt less_Suc_eq_le[symmetric])
  have b: "unat x4 < 2 ^ 32" using unsigned_less[of x4] by simp
  show "2 ^ 31 \<le> unat x * 2 ^ nlz x" "unat x * 2 ^ nlz x < 2 ^ 32"
    using 4(2,3) b l unfolding n by (auto split: if_splits)
qed

section \<open>Division\<close>

lemma word64: "unat (x :: 64 word) < 2 ^ 64" "unat (y :: 32 word) < 2 ^ 32"
  using unsigned_less [of x] unsigned_less [of y] by simp_all

lemma unat_high: "unat (ucast (drop_bit 32 n :: 64 word) :: 32 word) = unat n div 2 ^ 32"
proof -
  have "unat n div 2 ^ 32 < 2 ^ 32" using word64(1) [of n] by (simp add: less_mult_imp_div_less)
  then show ?thesis by (simp add: unsigned_ucast_eq unsigned_drop_bit_eq take_bit_eq_mod drop_bit_eq_div unat_div)
qed

lemma unat_low: "unat (ucast (n :: 64 word) :: 32 word) = unat n mod 2 ^ 32"
  by (simp add: unsigned_ucast_eq take_bit_eq_mod)

lemma unat_ucast64: "unat (ucast (x :: 32 word) :: 64 word) = unat x"
  using word64(2) [of x] by (simp add: unsigned_ucast_eq take_bit_eq_mod)

lemma unat_mult64: "unat x * unat y < 2 ^ 64 \<Longrightarrow> unat (x * y :: 64 word) = unat x * unat y"
  by (simp add: unat_word_ariths)

lemma unat_add64: "unat x + unat y < 2 ^ 64 \<Longrightarrow> unat (x + y :: 64 word) = unat x + unat y"
  by (simp add: unat_word_ariths)

lemma divl_spec: "d \<noteq> 0 \<Longrightarrow> unat n div unat d < 2 ^ 32 \<Longrightarrow> \<exists>q. divl n d = Some q \<and> unat q = unat n div unat d"
  by (simp add: divl_def unat_low unat_div unat_ucast64)

lemma udiv64_small:
  assumes "drop_bit 32 d = 0" "d \<noteq> 0"
  shows "udiv64 n d = Some (n div d)"
proof -
  let ?n1 = "ucast (drop_bit 32 n) :: 32 word" and ?n0 = "ucast n :: 32 word" and ?d0 = "ucast d :: 32 word"
  let ?m = "2 ^ 32 * ucast (?n1 mod ?d0) + ucast ?n0 :: 64 word"
  have "unat d div 2 ^ 32 = 0" using arg_cong [OF assms(1), of unat] by (simp add: unsigned_drop_bit_eq drop_bit_eq_div unat_div)
  then have d: "unat ?d0 = unat d" "unat d > 0" using assms(2) by (simp_all add: unat_low div_eq_0_iff unat_gt_0)
  have d0: "?d0 \<noteq> 0" using d by (metis unat_0 less_irrefl)
  have b: "unat (2 ^ 32 :: 64 word) = 2 ^ 32" by simp
  have h: "unat (ucast (?n1 mod ?d0) :: 64 word) = unat n div 2 ^ 32 mod unat d" by (simp add: unat_ucast64 unat_mod unat_high d(1))
  have h2: "unat n div 2 ^ 32 mod unat d < 2 ^ 32" unfolding h [symmetric] unat_ucast64 by (rule word64(2))
  have l: "unat (ucast ?n0 :: 64 word) = unat n mod 2 ^ 32" by (simp add: unat_ucast64 unat_low)
  have p: "unat (2 ^ 32 * ucast (?n1 mod ?d0) :: 64 word) = 2 ^ 32 * (unat n div 2 ^ 32 mod unat d)"
    using unat_mult64 [of "2 ^ 32" "ucast (?n1 mod ?d0)"] h h2 b by simp
  have m: "unat ?m = 2 ^ 32 * (unat n div 2 ^ 32 mod unat d) + unat n mod 2 ^ 32"
    using unat_add64 [of "2 ^ 32 * ucast (?n1 mod ?d0)" "ucast ?n0"] p l h2 by simp
  have "unat ?m < 2 ^ 32 * (unat n div 2 ^ 32 mod unat d + 1)" unfolding m by simp
  also have "\<dots> \<le> 2 ^ 32 * unat d" using mod_less_divisor [OF d(2)] by (intro mult_le_mono2) (simp add: Suc_le_eq)
  finally have q: "unat ?m div unat ?d0 < 2 ^ 32" unfolding d(1) by (simp add: less_mult_imp_div_less)
  then obtain q where q: "divl ?m ?d0 = Some q" "unat q = unat ?m div unat d" using divl_spec [OF d0] d(1) by auto
  have e: "unat n = 2 ^ 32 * (unat n div 2 ^ 32 div unat d) * unat d + unat ?m"
  proof -
    define h where "h = unat n div 2 ^ 32"
    have "unat n = 2 ^ 32 * h + unat n mod 2 ^ 32" by (simp add: h_def)
    moreover have "2 ^ 32 * h = 2 ^ 32 * (h div unat d) * unat d + 2 ^ 32 * (h mod unat d)"
      by (metis div_mult_mod_eq distrib_left mult.assoc)
    ultimately show ?thesis unfolding m h_def [symmetric] by linarith
  qed
  have s: "unat n div unat d = 2 ^ 32 * (unat n div 2 ^ 32 div unat d) + unat q"
    using d(2) unfolding q(2) by (subst e) simp
  have t: "unat (ucast (?n1 div ?d0) :: 64 word) = unat n div 2 ^ 32 div unat d" by (simp add: unat_ucast64 unat_div unat_high d(1))
  have le: "unat n div unat d < 2 ^ 64" using word64(1) [of n] div_le_dividend le_less_trans by blast
  have p2: "unat (2 ^ 32 * ucast (?n1 div ?d0) :: 64 word) = 2 ^ 32 * (unat n div 2 ^ 32 div unat d)"
    using unat_mult64 [of "2 ^ 32" "ucast (?n1 div ?d0)"] t s le b by simp
  have "unat (ucast q + 2 ^ 32 * ucast (?n1 div ?d0) :: 64 word) = unat (n div d)"
    using unat_add64 [of "ucast q" "2 ^ 32 * ucast (?n1 div ?d0)"] p2 s le unat_ucast64 [of q] by (simp add: unat_div)
  then have "ucast q + 2 ^ 32 * ucast (?n1 div ?d0) = n div d" by (rule unsigned_word_eqI)
  then show ?thesis using assms(1) d0 q(1) by (simp add: udiv64_def)
qed

text \<open>The estimate of the quotient from the upper bits of the divisor is right or one too large.\<close>

lemma estimate:
  fixes N D E t :: nat
  assumes "E \<le> D" "D < E + 2 ^ t" "2 ^ (31 + t) \<le> E" "N < 2 ^ 64" "1 \<le> t" "t \<le> 32"
  shows "N div D \<le> N div E" "(N div E - 1) * D \<le> N"
proof -
  have E: "0 < E" using assms(3) by (metis less_le_trans zero_less_numeral zero_less_power)
  show "N div D \<le> N div E" using assms(1) E by (rule div_le_mono2 [rotated])
  define q r where "q = N div E - 1" and "r = D - E"
  show "(N div E - 1) * D \<le> N"
  proof (cases "N div E = 0")
    case False
    have "(2 :: nat) ^ 64 = 2 ^ (33 - t) * 2 ^ (31 + t)" using assms(6) by (simp flip: power_add)
    then have "N < 2 ^ (33 - t) * E" using assms(3,4) by (metis le_less_trans less_le_trans mult_le_mono2 not_less)
    then have "N div E < 2 ^ (33 - t)" by (simp add: less_mult_imp_div_less)
    then have q: "q + 2 \<le> 2 ^ (33 - t)" using False by (simp add: q_def)
    have r: "r + 1 \<le> 2 ^ t" using assms(1,2) unfolding r_def by linarith
    have "q * r \<le> E"
    proof (cases "t = 1")
      case True
      then have "r \<le> 1" "q + 2 \<le> 2 ^ 32" "2 ^ 32 \<le> E" using q r assms(3) by simp_all
      then have "q * r \<le> q * 1" by (intro mult_le_mono2)
      then show ?thesis using \<open>q + 2 \<le> 2 ^ 32\<close> \<open>2 ^ 32 \<le> E\<close> by linarith
    next
      case False
      then have t: "2 \<le> t" using assms(5) by simp
      have "q * r \<le> 2 ^ (33 - t) * 2 ^ t" using q r by (intro mult_le_mono) simp_all
      also have "\<dots> = 2 ^ 33" using assms(6) by (simp flip: power_add)
      also have "\<dots> \<le> 2 ^ (31 + t)" using t by (intro power_increasing) simp_all
      finally show ?thesis using assms(3) by simp
    qed
    moreover have "(q + 1) * E \<le> N" using False by (simp add: q_def)
    moreover have "q * D = q * E + q * r" using assms(1) by (simp add: r_def flip: distrib_left)
    ultimately show ?thesis unfolding q_def [symmetric] by simp
  qed simp
qed

lemma udiv64_large:
  assumes "drop_bit 32 d \<noteq> 0"
  shows "udiv64 n d = Some (n div d)"
proof (cases "n < d")
  case True
  then have "n div d = 0" by (simp add: word_less_nat_alt word_unat_eq_iff unat_div)
  then show ?thesis using assms True by (simp add: udiv64_def)
next
  case False
  define d1 where "d1 = (ucast (drop_bit 32 d) :: 32 word)"
  define s where "s = nlz d1"
  define dd where "dd = (ucast (drop_bit 32 (push_bit s d)) :: 32 word)"
  let ?N = "unat n" and ?D = "unat d"
  have h: "unat d1 = ?D div 2 ^ 32" by (simp add: d1_def unat_high)
  have "drop_bit 32 d = 0" if "?D div 2 ^ 32 = 0"
    using that by (simp add: word_unat_eq_iff unsigned_drop_bit_eq drop_bit_eq_div unat_div)
  then have "d1 \<noteq> 0" using assms h by (metis unat_0)
  note z = nlz_spec [OF this, folded s_def]
  have "0 < unat d1" using z(1) by (metis gr0I mult_0 not_numeral_le_zero power_not_zero le_zero_eq)
  then have "2 ^ s < (2 :: nat) ^ 32" using z(2) by (metis le_less_trans mult_le_mono1 nat_mult_1 Suc_leI One_nat_def)
  then have s: "s < 32" by (metis power_less_imp_less_exp one_less_numeral_iff semiring_norm(76))
  define t where "t = 32 - s"
  have t: "1 \<le> t" "t \<le> 32" "s + t = 32" using s by (simp_all add: t_def)
  have p: "(2 :: nat) ^ s * 2 ^ t = 2 ^ 32" unfolding power_add [symmetric] t(3) ..
  have d1t: "unat d1 < 2 ^ t" using z(2) unfolding p [symmetric] by (simp add: mult.commute)
  have D: "?D * 2 ^ s < 2 ^ 64"
  proof -
    have "?D < (unat d1 + 1) * 2 ^ 32" unfolding h by (metis add.commute dividend_less_times_div mult.commute mult_Suc plus_1_eq_Suc zero_less_numeral zero_less_power)
    also have "\<dots> \<le> 2 ^ t * 2 ^ 32" using d1t by (intro mult_le_mono1) simp
    finally have "?D * 2 ^ s < 2 ^ t * 2 ^ 32 * 2 ^ s" by simp
    also have "\<dots> = 2 ^ s * 2 ^ t * 2 ^ 32" by simp
    finally show ?thesis unfolding p by simp
  qed
  have sh: "unat (push_bit s d) = ?D * 2 ^ s"
    using D by (simp only: unsigned_push_bit_eq take_bit_eq_mod) (simp add: push_bit_eq_mult)
  have dd: "unat dd = ?D div 2 ^ t"
  proof -
    have "unat dd = ?D * 2 ^ s div (2 ^ s * 2 ^ t)" unfolding dd_def unat_high sh p ..
    then show ?thesis by (simp add: div_mult2_eq mult.commute)
  qed
  have ddb: "2 ^ 31 \<le> unat dd"
  proof -
    have "unat d1 * 2 ^ 32 \<le> ?D" unfolding h by simp
    then have "unat d1 * 2 ^ 32 * 2 ^ s \<le> ?D * 2 ^ s" by simp
    then have "unat d1 * 2 ^ s \<le> ?D * 2 ^ s div 2 ^ 32" by (simp add: less_eq_div_iff_mult_less_eq mult.commute mult.left_commute)
    then show ?thesis using z(1) unfolding dd_def unat_high sh by linarith
  qed
  then have dd0: "dd \<noteq> 0" by auto
  define E where "E = unat dd * 2 ^ t"
  have E: "E \<le> ?D" "?D < E + 2 ^ t" "2 ^ (31 + t) \<le> E"
  proof -
    have "?D = E + ?D mod 2 ^ t" unfolding E_def dd by (rule div_mult_mod_eq [symmetric])
    moreover have "?D mod 2 ^ t < 2 ^ t" by simp
    ultimately show "E \<le> ?D" "?D < E + 2 ^ t" by linarith+
    show "2 ^ (31 + t) \<le> E" using ddb unfolding E_def power_add by (rule mult_le_mono1)
  qed
  have half: "unat (drop_bit 1 n) = ?N div 2" by (simp add: unsigned_drop_bit_eq drop_bit_eq_div unat_div)
  have "?N div 2 div unat dd < 2 ^ 32"
  proof -
    have "?N div 2 < 2 ^ 63" using word64(1) [of n] by simp
    also have "\<dots> \<le> 2 ^ 32 * unat dd" using ddb by simp
    finally show ?thesis by (simp add: less_mult_imp_div_less)
  qed
  then obtain q where q: "divl (drop_bit 1 n) dd = Some q" "unat q = ?N div 2 div unat dd"
    using divl_spec [OF dd0, of "drop_bit 1 n"] half by auto
  define q' where "q' = drop_bit (31 - s) (ucast q :: 64 word)"
  have q': "unat q' = ?N div E"
  proof -
    have "unat q' = ?N div 2 div unat dd div 2 ^ (31 - s)"
      using word64(1) [of "ucast q"] unfolding q'_def unsigned_drop_bit_eq unat_ucast64 q(2)
      by (simp add: take_bit_eq_mod drop_bit_eq_div)
    also have "\<dots> = ?N div (2 * unat dd * 2 ^ (31 - s))" by (simp add: div_mult2_eq)
    also have "2 * unat dd * 2 ^ (31 - s) = unat dd * 2 ^ Suc (31 - s)" by simp
    also have "Suc (31 - s) = t" using s by (simp add: t_def)
    finally show ?thesis by (simp add: E_def)
  qed
  note e = estimate [OF E word64(1) t(1,2), of n]
  have D0: "0 < ?D" using assms by (metis drop_bit_of_0 unat_gt_0)
  have "1 \<le> ?N div ?D" using False D0 by (simp add: word_less_nat_alt not_less div_greater_zero_iff Suc_le_eq)
  then have q1: "1 \<le> unat q'" using e(1) q' by simp
  have qm: "unat (q' - 1) = unat q' - 1" using q1 by (simp add: unat_sub word_le_nat_alt)
  have m: "unat ((q' - 1) * d) = (unat q' - 1) * ?D"
    using e(2) word64(1) [of n] unfolding q' [symmetric] qm [symmetric] by (intro unat_mult64) simp
  have r: "unat (n - (q' - 1) * d) = ?N - (unat q' - 1) * ?D"
    using e(2) unfolding q' [symmetric] m [symmetric] by (simp add: unat_sub word_le_nat_alt)
  have "(if n - (q' - 1) * d < d then q' - 1 else q') = n div d"
  proof (cases "n - (q' - 1) * d < d")
    case True
    then have "?N - (unat q' - 1) * ?D < ?D" by (simp add: word_less_nat_alt r)
    then have "?N div ?D = unat q' - 1" using e(2) D0 unfolding q' by (intro div_nat_eqI) (auto simp: mult.commute)
    then show ?thesis using True by (simp add: word_unat_eq_iff unat_div qm)
  next
    case False
    then have "?D \<le> ?N - (unat q' - 1) * ?D" by (simp add: word_less_nat_alt r)
    then have "unat q' * ?D \<le> ?N" using e(2) q1 unfolding q' by (cases "?N div E") simp_all
    then have "unat q' \<le> ?N div ?D" using D0 by (simp add: less_eq_div_iff_mult_less_eq)
    then have "?N div ?D = unat q'" using e(1) q' by simp
    then show ?thesis using False by (simp add: word_unat_eq_iff unat_div)
  qed
  then show ?thesis
    using assms False q(1) unfolding udiv64_def d1_def [symmetric] Let_def s_def [symmetric] dd_def [symmetric]
    unfolding q'_def by simp
qed

lemma udiv64_div: "d \<noteq> 0 \<Longrightarrow> udiv64 n d = Some (n div d)"
  using udiv64_small udiv64_large by blast

lemma uint_abs: "uint (if sint n \<ge> 0 then n else - n) = \<bar>sint n\<bar>" for n :: "64 word"
proof -
  have "\<bar>sint n\<bar> < 2 ^ 64" using sint_ge [of n] sint_lt [of n] by simp
  then have "uint (word_of_int \<bar>sint n\<bar> :: 64 word) = \<bar>sint n\<bar>" by (simp add: uint_word_of_int)
  moreover have "word_of_int \<bar>sint n\<bar> = (if sint n \<ge> 0 then n else - n)"
    by (simp add: abs_if wi_hom_neg [symmetric])
  ultimately show ?thesis by simp
qed

lemma sdiv64_sdiv:
  assumes "d \<noteq> 0"
  shows "sdiv64 n d = Some (word_of_int (sint n sdiv sint d))"
proof -
  let ?n = "if sint n \<ge> 0 then n else - n" and ?d = "if sint d \<ge> 0 then d else - d"
  have "?d \<noteq> 0" using assms by auto
  then have "udiv64 ?n ?d = Some (?n div ?d)" by (rule udiv64_div)
  moreover have "?n div ?d = word_of_int (\<bar>sint n\<bar> div \<bar>sint d\<bar>)"
    unfolding uint_abs [symmetric] by (simp add: word_div_def)
  moreover have "(if (sint n < 0) = (sint d < 0) then word_of_int (\<bar>sint n\<bar> div \<bar>sint d\<bar>) else - word_of_int (\<bar>sint n\<bar> div \<bar>sint d\<bar>)) =
      (word_of_int (sint n sdiv sint d) :: 64 word)"
    using assms by (auto simp: signed_divide_int_def sgn_if)
  ultimately show ?thesis by (simp add: sdiv64_def)
qed

section \<open>The routines that the compiler calls\<close>

text \<open>C21: on a machine that only divides 64 by 32 bits, the routines for quotients never cause a divide
  error unless the divisor is 0, and return what 64-bit division returns, unsigned and signed (truncated
  towards zero, with wrap-around). The routines for remainders return the lower 32 bits of the remainder
  only, extended with zeros or with the sign.\<close>

theorem division_routines:
  assumes "d \<noteq> 0"
  shows "udivdi3 n d = Some (n div d) \<and> divdi3 n d = Some (word_of_int (sint n sdiv sint d)) \<and>
    umoddi3 n d = Some (ucast (ucast (n mod d) :: 32 word)) \<and>
    moddi3 n d = Some (scast (ucast (word_of_int (sint n smod sint d) :: 64 word) :: 32 word))"
proof -
  have "n - d * (n div d) = n mod d" by (metis add_diff_cancel_left' mult_div_mod_eq)
  moreover have "n - d * word_of_int (sint n sdiv sint d) = word_of_int (sint n smod sint d)"
  proof -
    have "sint n smod sint d = sint n - sint d * (sint n sdiv sint d)" by (metis add_diff_cancel_left' mult_sdiv_smod_eq)
    then show ?thesis by simp
  qed
  ultimately show ?thesis
    using udiv64_div [OF assms] sdiv64_sdiv [OF assms]
    by (simp add: udivdi3_def divdi3_def umoddi3_def moddi3_def umod64_def smod64_def)
qed

text \<open>\<open>2\<^sup>33 + 5\<close> divided by \<open>2\<^sup>34\<close> leaves the remainder 5, for this code.\<close>

theorem division_routines_witness:
  "udivdi3 (2 ^ 33 + 5) (2 ^ 34) = Some 0 \<and> umoddi3 (2 ^ 33 + 5) (2 ^ 34) = Some 5 \<and> (2 ^ 33 + 5 :: 64 word) mod 2 ^ 34 \<noteq> 5 \<and>
   divdi3 (- 7) 2 = Some (- 3)"
  using division_routines [of "2 ^ 34" "2 ^ 33 + 5"] division_routines [of 2 "- 7"]
  by (simp add: signed_divide_int_def signed_modulo_int_def)

end
