(* ===== verification/Stdlib.thy ===== *)
theory Stdlib
  imports CString "HOL-Library.Multiset"
begin

text \<open>
  \<open>lib/stdlib.c\<close> of project 4: heap sort, binary search and \<open>atoi\<close>, on the memory of \<open>CString\<close>. A
  callback gets the bytes of the two elements. Indexes of elements count from 1, as in the code.
\<close>

section \<open>Sorting\<close>

type_synonym compare_func = "byte list \<Rightarrow> byte list \<Rightarrow> int"

text \<open>The element at the address \<open>p\<close>.\<close>

definition element :: "mem \<Rightarrow> addr \<Rightarrow> nat \<Rightarrow> byte list" where
  "element m p sz = map (\<lambda>j. m ! (p + j)) [0..<sz]"

primrec swap_bytes :: "nat list \<Rightarrow> addr \<Rightarrow> addr \<Rightarrow> mem \<Rightarrow> mem option" where
  "swap_bytes [] a b m = Some m"
| "swap_bytes (i # is) a b m = do {
     t \<leftarrow> rd m (a + i);
     u \<leftarrow> rd m (b + i);
     m \<leftarrow> wr m (a + i) u;
     m \<leftarrow> wr m (b + i) t;
     swap_bytes is a b m }"

definition do_swap :: "addr \<Rightarrow> nat \<Rightarrow> nat \<Rightarrow> nat \<Rightarrow> mem \<Rightarrow> mem option" where
  "do_swap array a_idx b_idx sz m =
     swap_bytes [0..<sz] (array + (a_idx - 1) * sz) (array + (b_idx - 1) * sz) m"

definition do_compare :: "addr \<Rightarrow> nat \<Rightarrow> nat \<Rightarrow> nat \<Rightarrow> compare_func \<Rightarrow> mem \<Rightarrow> int option" where
  "do_compare array a_idx b_idx sz compare m = do {
     let a = array + (a_idx - 1) * sz;
     let b = array + (b_idx - 1) * sz;
     ASSERT (a + sz \<le> length m \<and> b + sz \<le> length m);
     Some (compare (element m a sz) (element m b sz)) }"

partial_function (option) heapify :: "addr \<Rightarrow> nat \<Rightarrow> nat \<Rightarrow> nat \<Rightarrow> compare_func \<Rightarrow> mem \<Rightarrow> mem option" where
  "heapify array i cnt sz compare m =
     (let left = 2 * i mod 2 ^ 32;
          right = (2 * i + 1) mod 2 ^ 32;
          mx = i
      in Option.bind (if left \<le> cnt then Option.bind (do_compare array left mx sz compare m) (\<lambda>c. Some (if c > 0 then left else mx))
                      else Some mx) (\<lambda>mx.
         Option.bind (if right \<le> cnt then Option.bind (do_compare array right mx sz compare m) (\<lambda>c. Some (if c > 0 then right else mx))
                      else Some mx) (\<lambda>mx.
           if mx = i then Some m
           else Option.bind (do_swap array i mx sz m) (\<lambda>m. heapify array mx cnt sz compare m))))"

text \<open>The two loops of \<open>sort\<close>.\<close>

primrec build_heap :: "addr \<Rightarrow> nat \<Rightarrow> nat \<Rightarrow> nat \<Rightarrow> compare_func \<Rightarrow> mem \<Rightarrow> mem option" where
  "build_heap array 0 cnt sz compare m = Some m"
| "build_heap array (Suc i) cnt sz compare m = do {
     m \<leftarrow> heapify array (Suc i) cnt sz compare m;
     build_heap array i cnt sz compare m }"

primrec sort_heap :: "addr \<Rightarrow> nat \<Rightarrow> nat \<Rightarrow> compare_func \<Rightarrow> mem \<Rightarrow> mem option" where
  "sort_heap array 0 sz compare m = Some m"
| "sort_heap array (Suc i) sz compare m =
     (if Suc i > 1
      then do {
        m \<leftarrow> do_swap array 1 (Suc i) sz m;
        m \<leftarrow> heapify array 1 i sz compare m;
        sort_heap array i sz compare m }
      else Some m)"

definition sort_mem :: "addr \<Rightarrow> nat \<Rightarrow> nat \<Rightarrow> compare_func \<Rightarrow> mem \<Rightarrow> mem option" where
  "sort_mem array cnt sz compare m = do {
     ASSERT (array \<noteq> NULL \<or> cnt = 0);
     ASSERT (sz > 0);
     m \<leftarrow> build_heap array (cnt div 2) cnt sz compare m;
     sort_heap array cnt sz compare m }"

text \<open>\<open>compare_thunk\<close> calls the function that \<open>qsort\<close> got.\<close>

definition qsort :: "addr \<Rightarrow> nat \<Rightarrow> nat \<Rightarrow> compare_func \<Rightarrow> mem \<Rightarrow> mem option" where
  "qsort array cnt sz compare m = sort_mem array cnt sz compare m"

section \<open>Searching\<close>

text \<open>The loop of \<open>binary_search\<close> from \<open>first\<close> to \<open>last\<close>; \<^const>\<open>NULL\<close> when it ends without a match.\<close>

partial_function (option) search_loop :: "byte list \<Rightarrow> addr \<Rightarrow> addr \<Rightarrow> nat \<Rightarrow> compare_func \<Rightarrow> mem \<Rightarrow> addr option" where
  "search_loop key first lst sz compare m =
     (if first < lst
      then Option.bind (ASSERT (sz \<noteq> 0)) (\<lambda>_.
        let rng = (lst - first) div sz;
            middle = first + rng div 2 * sz
        in Option.bind (ASSERT (middle + sz \<le> length m)) (\<lambda>_.
          let cmp = compare key (element m middle sz)
          in if cmp < 0 then search_loop key first middle sz compare m
             else if cmp > 0 then search_loop key (middle + sz) lst sz compare m
             else Some middle))
      else Some NULL)"

definition binary_search :: "byte list \<Rightarrow> addr \<Rightarrow> nat \<Rightarrow> nat \<Rightarrow> compare_func \<Rightarrow> mem \<Rightarrow> addr option" where
  "binary_search key array cnt sz compare m = search_loop key array (array + sz * cnt) sz compare m"

definition bsearch :: "byte list \<Rightarrow> addr \<Rightarrow> nat \<Rightarrow> nat \<Rightarrow> compare_func \<Rightarrow> mem \<Rightarrow> addr option" where
  "bsearch key array cnt sz compare m = binary_search key array cnt sz compare m"

section \<open>Numbers\<close>

definition isspace :: "byte \<Rightarrow> bool" where
  "isspace c \<longleftrightarrow> c = 32 \<or> c = 12 \<or> c = 10 \<or> c = 13 \<or> c = 9 \<or> c = 11"

text \<open>A character is signed.\<close>

definition isdigit :: "byte \<Rightarrow> bool" where
  "isdigit c \<longleftrightarrow> 48 \<le> sint c \<and> sint c \<le> 57"

partial_function (option) skip_space :: "addr \<Rightarrow> mem \<Rightarrow> addr option" where
  "skip_space s m = Option.bind (rd m s) (\<lambda>c. if isspace c then skip_space (s + 1) m else Some s)"

partial_function (option) parse_digits :: "int \<Rightarrow> addr \<Rightarrow> mem \<Rightarrow> int option" where
  "parse_digits value s m =
     Option.bind (rd m s) (\<lambda>c. if isdigit c then parse_digits (wrap32 (value * 10 - (sint c - 48))) (s + 1) m else Some value)"

definition atoi :: "addr \<Rightarrow> mem \<Rightarrow> int option" where
  "atoi s m = do {
     ASSERT (s \<noteq> NULL);
     s \<leftarrow> skip_space s m;
     c \<leftarrow> rd m s;
     let (negative, s) = (if c = 43 then (False, s + 1) else if c = 45 then (True, s + 1) else (False, s));
     value \<leftarrow> parse_digits 0 s m;
     Some (if \<not> negative then wrap32 (- value) else value) }"

section \<open>Elements\<close>

lemma element_length [simp]: "length (element m p sz) = sz"
  by (simp add: element_def)

lemma element_cong: "(\<And>j. j < sz \<Longrightarrow> m' ! (p' + j) = m ! (p + j)) \<Longrightarrow> element m' p' sz = element m p sz"
  by (simp add: element_def)

lemma swap_bytes_append: "swap_bytes (is @ js) a b m = Option.bind (swap_bytes is a b m) (swap_bytes js a b)"
proof (induction "is" arbitrary: m)
  case (Cons i "is")
  show ?case by (simp add: Cons.IH[abs_def])
qed simp

lemma swap_bytes_spec:
  assumes "a \<noteq> 0" "b \<noteq> 0" "a + n \<le> length m" "b + n \<le> length m" "a = b \<or> a + n \<le> b \<or> b + n \<le> a"
  shows "\<exists>m'. swap_bytes [0..<n] a b m = Some m' \<and> length m' = length m \<and>
    (\<forall>p. m' ! p = (if a \<le> p \<and> p < a + n then m ! (b + (p - a)) else if b \<le> p \<and> p < b + n then m ! (a + (p - b)) else m ! p))"
  using assms(3-5)
proof (induction n)
  case (Suc n)
  then obtain m1 where m1: "swap_bytes [0..<n] a b m = Some m1" "length m1 = length m"
      "\<And>p. m1 ! p = (if a \<le> p \<and> p < a + n then m ! (b + (p - a)) else if b \<le> p \<and> p < b + n then m ! (a + (p - b)) else m ! p)"
    by auto
  let ?m = "m1[a + n := m1 ! (b + n), b + n := m1 ! (a + n)]"
  have s: "swap_bytes [0..<Suc n] a b m = Some ?m"
    using m1(1,2) Suc.prems assms(1,2) by (simp add: swap_bytes_append rd_def wr_def NULL_def)
  have v: "m1 ! (a + n) = m ! (a + n)" "m1 ! (b + n) = m ! (b + n)"
    using Suc.prems(3) by (auto simp: m1(3))
  have "?m ! p = (if a \<le> p \<and> p < a + Suc n then m ! (b + (p - a)) else if b \<le> p \<and> p < b + Suc n then m ! (a + (p - b)) else m ! p)" for p
  proof -
    consider "p = b + n" | "p = a + n" "p \<noteq> b + n" | "p \<noteq> a + n" "p \<noteq> b + n" by blast
    then show ?thesis
      by cases (use Suc.prems m1(2) v in \<open>auto simp: m1(3) nth_list_update\<close>)
  qed
  then show ?case using s m1(2) by auto
qed auto

text \<open>The array lies in the memory; \<open>elem\<close> is its element \<open>k\<close>.\<close>

definition array_ok :: "addr \<Rightarrow> nat \<Rightarrow> nat \<Rightarrow> mem \<Rightarrow> bool" where
  "array_ok array cnt sz m \<longleftrightarrow> array \<noteq> NULL \<and> array + cnt * sz \<le> length m \<and> 0 < sz \<and> cnt < 2 ^ 31"

definition elem :: "addr \<Rightarrow> nat \<Rightarrow> mem \<Rightarrow> nat \<Rightarrow> byte list" where
  "elem array sz m k = element m (array + (k - 1) * sz) sz"

lemma elem_room: "1 \<le> k \<Longrightarrow> k \<le> cnt \<Longrightarrow> (k - 1) * sz + sz \<le> cnt * (sz :: nat)"
  by (metis Suc_diff_1 mult_Suc add.commute mult_le_mono1 less_eq_Suc_le One_nat_def)

lemma elem_apart: "1 \<le> a \<Longrightarrow> a < b \<Longrightarrow> (a - 1) * sz + sz \<le> (b - 1) * (sz :: nat)"
  using elem_room[of a "b - 1" sz] by simp

lemma do_swap_spec:
  assumes ok: "array_ok array cnt sz m" and a: "1 \<le> a" "a \<le> cnt" and b: "1 \<le> b" "b \<le> cnt"
  shows "\<exists>m'. do_swap array a b sz m = Some m' \<and> array_ok array cnt sz m' \<and> length m' = length m \<and>
    (\<forall>k. 1 \<le> k \<and> k \<le> cnt \<longrightarrow> elem array sz m' k =
       (if k = a then elem array sz m b else if k = b then elem array sz m a else elem array sz m k)) \<and>
    (\<forall>p. p < array \<or> array + cnt * sz \<le> p \<longrightarrow> m' ! p = m ! p)"
proof -
  let ?a = "array + (a - 1) * sz" and ?b = "array + (b - 1) * sz"
  have r: "?a + sz \<le> length m" "?b + sz \<le> length m" "array \<noteq> 0"
    using ok elem_room[OF a, of sz] elem_room[OF b, of sz] by (auto simp: array_ok_def NULL_def)
  have d: "?a = ?b \<or> ?a + sz \<le> ?b \<or> ?b + sz \<le> ?a"
    using elem_apart[OF a(1), of b sz] elem_apart[OF b(1), of a sz] by (cases a b rule: linorder_cases) auto
  obtain m' where m': "swap_bytes [0..<sz] ?a ?b m = Some m'" "length m' = length m"
      "\<And>p. m' ! p = (if ?a \<le> p \<and> p < ?a + sz then m ! (?b + (p - ?a)) else if ?b \<le> p \<and> p < ?b + sz then m ! (?a + (p - ?b)) else m ! p)"
    using swap_bytes_spec[of ?a ?b sz m] r d by auto
  have "elem array sz m' k = (if k = a then elem array sz m b else if k = b then elem array sz m a else elem array sz m k)"
    if k: "1 \<le> k" "k \<le> cnt" for k
  proof -
    let ?k = "array + (k - 1) * sz"
    have ka: "k = a \<or> ?k + sz \<le> ?a \<or> ?a + sz \<le> ?k"
      using elem_apart[OF k(1), of a sz] elem_apart[OF a(1), of k sz] by (cases a k rule: linorder_cases) auto
    have kb: "k = b \<or> ?k + sz \<le> ?b \<or> ?b + sz \<le> ?k"
      using elem_apart[OF k(1), of b sz] elem_apart[OF b(1), of k sz] by (cases b k rule: linorder_cases) auto
    show ?thesis
    proof (cases "k = a")
      case True
      then show ?thesis unfolding elem_def by (auto intro!: element_cong simp: m'(3))
    next
      case na: False
      then have ka': "?k + sz \<le> ?a \<or> ?a + sz \<le> ?k" using ka by blast
      show ?thesis
      proof (cases "k = b")
        case True
        have "element m' ?b sz = element m ?a sz"
          using ka' unfolding True by (intro element_cong) (auto simp: m'(3))
        then show ?thesis using True na by (simp add: elem_def)
      next
        case False
        then have kb': "?k + sz \<le> ?b \<or> ?b + sz \<le> ?k" using kb by blast
        have "element m' ?k sz = element m ?k sz"
          using ka' kb' by (intro element_cong) (auto simp: m'(3))
        then show ?thesis using False na by (simp add: elem_def)
      qed
    qed
  qed
  moreover have "m' ! p = m ! p" if "p < array \<or> array + cnt * sz \<le> p" for p
    using that elem_room[OF a, of sz] elem_room[OF b, of sz] unfolding m'(3) by auto
  ultimately show ?thesis using m'(1,2) ok by (auto simp: do_swap_def array_ok_def)
qed

lemma do_compare_spec:
  assumes "array_ok array cnt sz m" "1 \<le> a" "a \<le> cnt" "1 \<le> b" "b \<le> cnt"
  shows "do_compare array a b sz compare m = Some (compare (elem array sz m a) (elem array sz m b))"
  using assms elem_room[of a cnt sz] elem_room[of b cnt sz] by (simp add: do_compare_def elem_def array_ok_def)

section \<open>Heaps\<close>

text \<open>What \<open>sort\<close> and \<open>bsearch\<close> expect of the callback: the result for swapped arguments has the other sign,
  and the order is transitive.\<close>

definition cmp_ok :: "compare_func \<Rightarrow> bool" where
  "cmp_ok cmp \<longleftrightarrow> (\<forall>x y. 0 < cmp x y \<longleftrightarrow> cmp y x < 0) \<and> (\<forall>x y z. cmp x y \<le> 0 \<and> cmp y z \<le> 0 \<longrightarrow> cmp x z \<le> 0)"

lemma cmp_refl: "cmp_ok cmp \<Longrightarrow> cmp x x \<le> 0"
  unfolding cmp_ok_def by (metis less_irrefl not_le order.asym)

lemma cmp_trans: "cmp_ok cmp \<Longrightarrow> cmp x y \<le> 0 \<Longrightarrow> cmp y z \<le> 0 \<Longrightarrow> cmp x z \<le> 0"
  unfolding cmp_ok_def by blast

lemma cmp_less: "cmp_ok cmp \<Longrightarrow> 0 < cmp x y \<Longrightarrow> cmp y x \<le> 0"
  unfolding cmp_ok_def by (simp add: less_imp_le)

text \<open>No element is greater than its parent, for parents from \<open>l\<close> on.\<close>

definition heap_from :: "compare_func \<Rightarrow> (nat \<Rightarrow> byte list) \<Rightarrow> nat \<Rightarrow> nat \<Rightarrow> bool" where
  "heap_from cmp E l cnt \<longleftrightarrow> (\<forall>j. j \<le> cnt \<and> l \<le> j div 2 \<longrightarrow> cmp (E j) (E (j div 2)) \<le> 0)"

text \<open>\<open>E'\<close> has the elements of \<open>E\<close> in another order among the first \<open>cnt\<close> of \<open>n\<close>.\<close>

definition rearranged :: "nat \<Rightarrow> nat \<Rightarrow> (nat \<Rightarrow> byte list) \<Rightarrow> (nat \<Rightarrow> byte list) \<Rightarrow> bool" where
  "rearranged cnt n E E' \<longleftrightarrow> (\<forall>k. cnt < k \<and> k \<le> n \<longrightarrow> E' k = E k) \<and> E' ` {1..cnt} \<subseteq> E ` {1..cnt} \<and>
     mset (map E' [1..<Suc n]) = mset (map E [1..<Suc n])"

lemma rearranged_refl: "rearranged cnt n E E"
  by (simp add: rearranged_def)

lemma rearranged_trans: "rearranged cnt n E E1 \<Longrightarrow> rearranged cnt n E1 E2 \<Longrightarrow> rearranged cnt n E E2"
  unfolding rearranged_def by (intro conjI allI impI) (simp, blast, simp)

lemma rearranged_swap:
  assumes a: "1 \<le> a" "a \<le> cnt" and b: "1 \<le> b" "b \<le> cnt" and n: "cnt \<le> n"
    and E: "\<And>k. 1 \<le> k \<Longrightarrow> k \<le> n \<Longrightarrow> E' k = (if k = a then E b else if k = b then E a else E k)"
  shows "rearranged cnt n E E'"
proof -
  let ?l = "map E [1..<Suc n]"
  have "map E' [1..<Suc n] = ?l[b - 1 := ?l ! (a - 1), a - 1 := ?l ! (b - 1)]"
    using a b n by (intro nth_equalityI) (auto simp: E nth_list_update simp del: upt_Suc)
  moreover have "mset (?l[b - 1 := ?l ! (a - 1), a - 1 := ?l ! (b - 1)]) = mset ?l"
    using a b n by (intro mset_swap) auto
  ultimately have "mset (map E' [1..<Suc n]) = mset ?l" by simp
  moreover have "E' ` {1..cnt} \<subseteq> E ` {1..cnt}"
    using a b n by (auto simp: E)
  ultimately show ?thesis using a b E by (auto simp: rearranged_def)
qed

text \<open>What a step of the sort leaves as it is.\<close>

definition sort_step :: "addr \<Rightarrow> nat \<Rightarrow> nat \<Rightarrow> nat \<Rightarrow> mem \<Rightarrow> mem \<Rightarrow> bool" where
  "sort_step array cnt n sz m m' \<longleftrightarrow> array_ok array n sz m' \<and> length m' = length m \<and>
     rearranged cnt n (elem array sz m) (elem array sz m') \<and> (\<forall>p. p < array \<or> array + n * sz \<le> p \<longrightarrow> m' ! p = m ! p)"

lemma sort_step_refl: "array_ok array n sz m \<Longrightarrow> sort_step array cnt n sz m m"
  by (simp add: sort_step_def rearranged_refl)

lemma sort_step_trans: "sort_step array cnt n sz m m1 \<Longrightarrow> sort_step array cnt n sz m1 m2 \<Longrightarrow> sort_step array cnt n sz m m2"
  unfolding sort_step_def using rearranged_trans by fastforce

lemma swap_step:
  assumes ok: "array_ok array n sz m" and a: "1 \<le> a" "a \<le> cnt" and b: "1 \<le> b" "b \<le> cnt" and n: "cnt \<le> n"
  shows "\<exists>m'. do_swap array a b sz m = Some m' \<and> sort_step array cnt n sz m m' \<and>
    (\<forall>k. 1 \<le> k \<and> k \<le> n \<longrightarrow> elem array sz m' k =
       (if k = a then elem array sz m b else if k = b then elem array sz m a else elem array sz m k))"
proof -
  obtain m' where m': "do_swap array a b sz m = Some m'" "array_ok array n sz m'" "length m' = length m"
      "\<And>k. 1 \<le> k \<Longrightarrow> k \<le> n \<Longrightarrow> elem array sz m' k =
        (if k = a then elem array sz m b else if k = b then elem array sz m a else elem array sz m k)"
      "\<And>p. p < array \<or> array + n * sz \<le> p \<Longrightarrow> m' ! p = m ! p"
    using do_swap_spec[OF ok a(1) order_trans[OF a(2) n] b(1) order_trans[OF b(2) n]] by blast
  then show ?thesis using rearranged_swap[OF a b n m'(4)] unfolding sort_step_def by blast
qed

lemma heapify_spec:
  assumes c: "cmp_ok cmp" and n: "cnt \<le> n" and l: "1 \<le> l"
  shows "array_ok array n sz m \<Longrightarrow> l \<le> i \<Longrightarrow> i \<le> cnt \<Longrightarrow>
    (\<And>j. j \<le> cnt \<Longrightarrow> l \<le> j div 2 \<Longrightarrow> j div 2 \<noteq> i \<Longrightarrow> cmp (elem array sz m j) (elem array sz m (j div 2)) \<le> 0) \<Longrightarrow>
    (\<And>j. j \<le> cnt \<Longrightarrow> j div 2 = i \<Longrightarrow> l \<le> i div 2 \<Longrightarrow> cmp (elem array sz m j) (elem array sz m (i div 2)) \<le> 0) \<Longrightarrow>
    \<exists>m'. heapify array i cnt sz cmp m = Some m' \<and> sort_step array cnt n sz m m' \<and> heap_from cmp (elem array sz m') l cnt"
proof (induction "cnt - i" arbitrary: i m rule: less_induct)
  case less
  note ok = less.prems(1) and H1 = less.prems(4) and H2 = less.prems(5)
  let ?E = "elem array sz m" and ?l = "2 * i" and ?r = "2 * i + 1"
  have i: "1 \<le> i" "i \<le> n" using less.prems(2,3) l n by simp_all
  have w: "2 * i mod 2 ^ 32 = ?l" "(2 * i + 1) mod 2 ^ 32 = ?r" using ok i(2) by (simp_all add: array_ok_def)
  define a where "a = (if ?l \<le> cnt \<and> 0 < cmp (?E ?l) (?E i) then ?l else i)"
  define b where "b = (if ?r \<le> cnt \<and> 0 < cmp (?E ?r) (?E a) then ?r else a)"
  have ab: "1 \<le> a" "a \<le> cnt" "b \<in> {i, ?l, ?r}" "b \<le> cnt" using i less.prems(3) by (auto simp: a_def b_def)
  have ca: "(if ?l \<le> cnt then Option.bind (do_compare array ?l i sz cmp m) (\<lambda>c. Some (if c > 0 then ?l else i)) else Some i) = Some a"
    using do_compare_spec[OF ok, of ?l i cmp] i n by (auto simp: a_def)
  have cb: "(if ?r \<le> cnt then Option.bind (do_compare array ?r a sz cmp m) (\<lambda>c. Some (if c > 0 then ?r else a)) else Some a) = Some b"
    using do_compare_spec[OF ok, of ?r a cmp] ab i n by (auto simp: b_def)
  have h: "heapify array i cnt sz cmp m = (if b = i then Some m else Option.bind (do_swap array i b sz m) (heapify array b cnt sz cmp))"
    by (subst heapify.simps) (simp only: Let_def w ca cb bind.bind_lunit)
  have mi: "cmp (?E i) (?E b) \<le> 0" "?l \<le> cnt \<Longrightarrow> cmp (?E ?l) (?E b) \<le> 0" "?r \<le> cnt \<Longrightarrow> cmp (?E ?r) (?E b) \<le> 0"
  proof -
    have ia: "cmp (?E i) (?E a) \<le> 0" using cmp_refl[OF c] cmp_less[OF c] by (auto simp: a_def)
    have la: "cmp (?E ?l) (?E a) \<le> 0" if "?l \<le> cnt" using that cmp_refl[OF c] by (auto simp: a_def)
    have abb: "cmp (?E a) (?E b) \<le> 0" using cmp_refl[OF c] cmp_less[OF c] by (auto simp: b_def)
    show "cmp (?E i) (?E b) \<le> 0" by (rule cmp_trans[OF c ia abb])
    show "cmp (?E ?l) (?E b) \<le> 0" if "?l \<le> cnt" by (rule cmp_trans[OF c la[OF that] abb])
    show "cmp (?E ?r) (?E b) \<le> 0" if "?r \<le> cnt" using that cmp_refl[OF c] by (auto simp: b_def)
  qed
  have child: "j = ?l \<or> j = ?r" if "j div 2 = i" for j using that by auto
  show ?case
  proof (cases "b = i")
    case True
    have "heap_from cmp ?E l cnt"
      unfolding heap_from_def
    proof (intro allI impI)
      fix j assume j: "j \<le> cnt \<and> l \<le> j div 2"
      show "cmp (?E j) (?E (j div 2)) \<le> 0"
      proof (cases "j div 2 = i")
        case ji: True
        then show ?thesis using child[OF ji] mi(2,3) j True by auto
      qed (use H1 j in blast)
    qed
    then show ?thesis using h True sort_step_refl[OF ok] by auto
  next
    case False
    then have b: "b = ?l \<or> b = ?r" "i < b" "b div 2 = i" using ab(3) i by auto
    obtain m1 where m1: "do_swap array i b sz m = Some m1" "sort_step array cnt n sz m m1"
      "\<And>k. 1 \<le> k \<Longrightarrow> k \<le> n \<Longrightarrow> elem array sz m1 k = (if k = i then ?E b else if k = b then ?E i else ?E k)"
      using swap_step[OF ok i(1) less.prems(3) _ ab(4) n] b(2) i by auto
    let ?F = "elem array sz m1"
    have F: "?F k = (if k = i then ?E b else if k = b then ?E i else ?E k)" if "l \<le> k" "k \<le> cnt" for k
      using m1(3) that l n by simp
    have "array_ok array n sz m1" using m1(2) by (simp add: sort_step_def)
    moreover have "cmp (?F j) (?F (j div 2)) \<le> 0" if j: "j \<le> cnt" "l \<le> j div 2" "j div 2 \<noteq> b" for j
    proof -
      have jl: "l \<le> j" "j div 2 \<le> cnt" "j div 2 < j" using j l by auto
      show ?thesis
      proof (cases "j div 2 = i")
        case True
        then have "?F (j div 2) = ?E b" "j \<noteq> i" using F[OF j(2) jl(2)] jl(3) by simp_all
        then show ?thesis using F[OF jl(1) j(1)] child[OF True] mi j(1) by auto
      next
        case ji: False
        then have "?F (j div 2) = ?E (j div 2)" using F[OF j(2) jl(2)] j(3) by simp
        moreover have "?F j = (if j = i then ?E b else ?E j)" using F[OF jl(1) j(1)] b(3) ji by auto
        moreover have "cmp (?E b) (?E (i div 2)) \<le> 0" if "j = i" using H2[OF ab(4) b(3)] j(2) that by simp
        ultimately show ?thesis using H1[OF j(1,2) ji] by auto
      qed
    qed
    moreover have "cmp (?F j) (?F (b div 2)) \<le> 0" if j: "j \<le> cnt" "j div 2 = b" "l \<le> b div 2" for j
    proof -
      have "b < j" using j(2) b(2) by auto
      then have "?F j = ?E j" using F[of j] j b(2,3) less.prems(2) by auto
      moreover have "?F (b div 2) = ?E b" using F[of i] less.prems(2,3) b(3) by simp
      ultimately show ?thesis using H1[OF j(1)] j(2) b(2) less.prems(2) by auto
    qed
    ultimately obtain m2 where m2: "heapify array b cnt sz cmp m1 = Some m2" "sort_step array cnt n sz m1 m2"
        "heap_from cmp (elem array sz m2) l cnt"
      using less.hyps[of b m1] diff_less_mono2[OF b(2), of cnt] less.prems(2,3) b(2) ab(4) by auto
    then show ?thesis using h False m1(1) sort_step_trans[OF m1(2)] by auto
  qed
qed

section \<open>The sort\<close>

lemma sort_step_weaken: "sort_step array c n sz m m' \<Longrightarrow> c \<le> n \<Longrightarrow> sort_step array n n sz m m'"
proof -
  assume s: "sort_step array c n sz m m'" and c: "c \<le> n"
  let ?E = "elem array sz m" and ?F = "elem array sz m'"
  have r: "rearranged c n ?E ?F" using s by (simp add: sort_step_def)
  have "?F k \<in> ?E ` {1..n}" if k: "1 \<le> k" "k \<le> n" for k
  proof (cases "k \<le> c")
    case True
    then have "?F k \<in> ?E ` {1..c}" using r k by (auto simp: rearranged_def)
    then show ?thesis using c by auto
  next
    case False
    then have "?F k = ?E k" using r k by (simp add: rearranged_def)
    then show ?thesis using k by auto
  qed
  then have "rearranged n n ?E ?F" using r unfolding rearranged_def by auto
  then show ?thesis using s by (simp add: sort_step_def)
qed

lemma build_heap_spec:
  assumes c: "cmp_ok cmp"
  shows "array_ok array n sz m \<Longrightarrow> i \<le> n \<Longrightarrow> heap_from cmp (elem array sz m) (Suc i) n \<Longrightarrow>
    \<exists>m'. build_heap array i n sz cmp m = Some m' \<and> sort_step array n n sz m m' \<and> heap_from cmp (elem array sz m') 1 n"
proof (induction i arbitrary: m)
  case 0
  then show ?case using sort_step_refl by auto
next
  case (Suc i)
  have "cmp (elem array sz m j) (elem array sz m (j div 2)) \<le> 0" if "j \<le> n" "Suc i \<le> j div 2" "j div 2 \<noteq> Suc i" for j
    using Suc.prems(3) that unfolding heap_from_def by auto
  then obtain m1 where m1: "heapify array (Suc i) n sz cmp m = Some m1" "sort_step array n n sz m m1"
      "heap_from cmp (elem array sz m1) (Suc i) n"
    using heapify_spec[OF c le_refl, of "Suc i" array n sz m "Suc i"] Suc.prems(1,2) by auto
  then obtain m2 where "build_heap array i n sz cmp m1 = Some m2" "sort_step array n n sz m1 m2" "heap_from cmp (elem array sz m2) 1 n"
    using Suc.IH[of m1] Suc.prems(2) by (auto simp: sort_step_def)
  then show ?case using m1(1) sort_step_trans[OF m1(2)] by auto
qed

lemma heap_max:
  assumes c: "cmp_ok cmp" and h: "heap_from cmp E 1 n"
  shows "1 \<le> k \<Longrightarrow> k \<le> n \<Longrightarrow> cmp (E k) (E 1) \<le> 0"
proof (induction k rule: less_induct)
  case (less k)
  show ?case
  proof (cases "k = 1")
    case False
    then have "1 \<le> k div 2" "k div 2 < k" using less.prems by auto
    then have "cmp (E k) (E (k div 2)) \<le> 0" "cmp (E (k div 2)) (E 1) \<le> 0" using h less unfolding heap_from_def by auto
    then show ?thesis by (rule cmp_trans[OF c])
  qed (simp add: cmp_refl[OF c])
qed

lemma sort_heap_spec:
  assumes c: "cmp_ok cmp"
  shows "array_ok array n sz m \<Longrightarrow> i \<le> n \<Longrightarrow> heap_from cmp (elem array sz m) 1 i \<Longrightarrow>
    (\<And>a b. 1 \<le> a \<Longrightarrow> a < b \<Longrightarrow> i < b \<Longrightarrow> b \<le> n \<Longrightarrow> cmp (elem array sz m a) (elem array sz m b) \<le> 0) \<Longrightarrow>
    \<exists>m'. sort_heap array i sz cmp m = Some m' \<and> sort_step array n n sz m m' \<and>
      (\<forall>a b. 1 \<le> a \<and> a < b \<and> b \<le> n \<longrightarrow> cmp (elem array sz m' a) (elem array sz m' b) \<le> 0)"
proof (induction i arbitrary: m)
  case 0
  then show ?case using sort_step_refl[OF 0(1), of n] by (intro exI[of _ m]) auto
next
  case (Suc i)
  let ?E = "elem array sz m"
  note ok = Suc.prems(1) and srt = Suc.prems(4)
  show ?case
  proof (cases "i = 0")
    case True
    then show ?thesis using sort_step_refl[OF ok, of n] srt by (intro exI[of _ m]) auto
  next
    case False
    then have i: "1 \<le> i" "i \<le> n" "Suc i \<le> n" using Suc.prems(2) by simp_all
    obtain m1 where m1: "do_swap array 1 (Suc i) sz m = Some m1" "sort_step array (Suc i) n sz m m1"
      "\<And>k. 1 \<le> k \<Longrightarrow> k \<le> n \<Longrightarrow> elem array sz m1 k = (if k = 1 then ?E (Suc i) else if k = Suc i then ?E 1 else ?E k)"
      using swap_step[OF ok, of 1 "Suc i" "Suc i"] i(3) by auto
    let ?F = "elem array sz m1"
    have ok1: "array_ok array n sz m1" using m1(2) by (simp add: sort_step_def)
    have "cmp (?F j) (?F (j div 2)) \<le> 0" if j: "j \<le> i" "1 \<le> j div 2" "j div 2 \<noteq> 1" for j
    proof -
      have "1 \<le> j" "j \<noteq> 1" "j div 2 \<le> i" using j by auto
      then have "?F j = ?E j" "?F (j div 2) = ?E (j div 2)" using m1(3) j i by auto
      moreover have "cmp (?E j) (?E (j div 2)) \<le> 0" using Suc.prems(3) j unfolding heap_from_def by auto
      ultimately show ?thesis by simp
    qed
    then obtain m2 where m2: "heapify array 1 i sz cmp m1 = Some m2" "sort_step array i n sz m1 m2" "heap_from cmp (elem array sz m2) 1 i"
      using heapify_spec[OF c i(2), of 1 array sz m1 1] ok1 i(1) by auto
    let ?G = "elem array sz m2"
    have r: "rearranged i n ?F ?G" using m2(2) by (simp add: sort_step_def)
    have G1: "?G k = ?F k" if "i < k" "k \<le> n" for k using r that by (simp add: rearranged_def)
    have G2: "\<exists>k'. 1 \<le> k' \<and> k' \<le> Suc i \<and> ?G k = ?E k'" if k: "1 \<le> k" "k \<le> i" for k
    proof -
      have "?G k \<in> ?F ` {1..i}" using r k by (auto simp: rearranged_def)
      then obtain k1 where k1: "1 \<le> k1" "k1 \<le> i" "?G k = ?F k1" by auto
      then show ?thesis using m1(3)[of k1] i by (cases "k1 = 1") auto
    qed
    have "cmp (?G a) (?G b) \<le> 0" if ab: "1 \<le> a" "a < b" "i < b" "b \<le> n" for a b
    proof (cases "b = Suc i")
      case True
      then have "?G b = ?E 1" using G1[OF ab(3,4)] m1(3)[of b] i by simp
      moreover obtain k where "1 \<le> k" "k \<le> Suc i" "?G a = ?E k" using G2[of a] ab True by auto
      ultimately show ?thesis using heap_max[OF c Suc.prems(3)] by simp
    next
      case False
      then have b: "Suc i < b" using ab(3) by simp
      then have "?G b = ?E b" using G1[OF ab(3,4)] m1(3)[of b] ab(4) by simp
      moreover have "\<exists>k. 1 \<le> k \<and> k < b \<and> ?G a = ?E k"
      proof (cases "a \<le> i")
        case True
        then obtain k where "1 \<le> k" "k \<le> Suc i" "?G a = ?E k" using G2[of a] ab(1) by auto
        then show ?thesis using b by (intro exI[of _ k]) simp
      next
        case False
        then have "?G a = ?F a" "a \<noteq> 1" using G1[of a] ab i by simp_all
        then show ?thesis using m1(3)[of a] ab b by (cases "a = Suc i") (auto intro: exI[of _ 1] exI[of _ a])
      qed
      ultimately show ?thesis using srt[of _ b] b ab(4) by auto
    qed
    then obtain m3 where "sort_heap array i sz cmp m2 = Some m3" "sort_step array n n sz m2 m3"
        "\<forall>a b. 1 \<le> a \<and> a < b \<and> b \<le> n \<longrightarrow> cmp (elem array sz m3 a) (elem array sz m3 b) \<le> 0"
      using Suc.IH[of m2] m2(2,3) i(2) by (auto simp: sort_step_def)
    then show ?thesis
      using False m1(1) m2(1) sort_step_trans[OF sort_step_weaken[OF m1(2) i(3)] sort_step_trans[OF sort_step_weaken[OF m2(2) i(2)]]]
      by auto
  qed
qed

definition elements :: "addr \<Rightarrow> nat \<Rightarrow> nat \<Rightarrow> mem \<Rightarrow> byte list list" where
  "elements array cnt sz m = map (elem array sz m) [1..<Suc cnt]"

lemma sort_mem_spec:
  assumes "cmp_ok cmp" "array_ok array n sz m"
  shows "\<exists>m'. sort_mem array n sz cmp m = Some m' \<and> mset (elements array n sz m') = mset (elements array n sz m) \<and>
    sorted_wrt (\<lambda>x y. cmp x y \<le> 0) (elements array n sz m') \<and> length m' = length m \<and>
    (\<forall>p. p < array \<or> array + n * sz \<le> p \<longrightarrow> m' ! p = m ! p)"
proof -
  have "heap_from cmp (elem array sz m) (Suc (n div 2)) n" unfolding heap_from_def by (auto dest: div_le_mono[of _ n 2])
  then obtain m1 where m1: "build_heap array (n div 2) n sz cmp m = Some m1" "sort_step array n n sz m m1"
      "heap_from cmp (elem array sz m1) 1 n"
    using build_heap_spec[OF assms, of "n div 2"] by auto
  then obtain m2 where m2: "sort_heap array n sz cmp m1 = Some m2" "sort_step array n n sz m1 m2"
      "\<forall>a b. 1 \<le> a \<and> a < b \<and> b \<le> n \<longrightarrow> cmp (elem array sz m2 a) (elem array sz m2 b) \<le> 0"
    using sort_heap_spec[OF assms(1), of array n sz m1 n] by (auto simp: sort_step_def)
  have s: "sort_step array n n sz m m2" by (rule sort_step_trans[OF m1(2) m2(2)])
  moreover have "sorted_wrt (\<lambda>x y. cmp x y \<le> 0) (elements array n sz m2)"
    using m2(3) by (auto simp: elements_def sorted_wrt_iff_nth_less simp del: upt_Suc)
  ultimately show ?thesis
    using m1(1) m2(1) assms(2) by (auto simp: sort_mem_def sort_step_def rearranged_def elements_def array_ok_def)
qed

section \<open>The search\<close>

lemma cmp_less_trans: "cmp_ok cmp \<Longrightarrow> cmp x y < 0 \<Longrightarrow> cmp y z \<le> 0 \<Longrightarrow> cmp x z < 0"
  unfolding cmp_ok_def by (metis not_le order.strict_implies_order)

lemma cmp_greater_trans: "cmp_ok cmp \<Longrightarrow> 0 < cmp x y \<Longrightarrow> cmp z y \<le> 0 \<Longrightarrow> 0 < cmp x z"
  unfolding cmp_ok_def by (metis not_le order.strict_implies_order)

lemma search_loop_spec:
  assumes c: "cmp_ok cmp" and ok: "array_ok array n sz m"
    and srt: "\<And>a b. 1 \<le> a \<Longrightarrow> a < b \<Longrightarrow> b \<le> n \<Longrightarrow> cmp (elem array sz m a) (elem array sz m b) \<le> 0"
  shows "f \<le> l \<Longrightarrow> l \<le> n \<Longrightarrow> \<exists>r. search_loop key (array + f * sz) (array + l * sz) sz cmp m = Some r \<and>
    (if r = NULL then \<forall>k. f < k \<and> k \<le> l \<longrightarrow> cmp key (elem array sz m k) \<noteq> 0
     else \<exists>k. f < k \<and> k \<le> l \<and> r = array + (k - 1) * sz \<and> cmp key (elem array sz m k) = 0)"
proof (induction "l - f" arbitrary: f l rule: less_induct)
  case less
  have sz: "0 < sz" and arr: "array \<noteq> 0" using ok by (simp_all add: array_ok_def NULL_def)
  show ?case
  proof (cases "f = l")
    case True
    then show ?thesis by (subst search_loop.simps) simp
  next
    case False
    define h where "h = f + (l - f) div 2"
    have h: "f \<le> h" "h < l" using less.prems(1) False by (auto simp: h_def)
    have "array + l * sz - (array + f * sz) = (l - f) * sz" by (simp add: diff_mult_distrib)
    then have mid: "array + f * sz + (array + l * sz - (array + f * sz)) div sz div 2 * sz = array + h * sz"
      using sz by (simp add: h_def distrib_right)
    have r: "array + h * sz + sz \<le> length m"
      using elem_room[of "Suc h" n sz] h less.prems(2) ok by (simp add: array_ok_def)
    have e: "element m (array + h * sz) sz = elem array sz m (Suc h)" by (simp add: elem_def)
    let ?c = "cmp key (elem array sz m (Suc h))"
    have lt: "array + f * sz < array + l * sz" using less.prems(1) False sz by simp
    have nz: "sz \<noteq> 0" and up: "array + h * sz + sz = array + Suc h * sz" using sz by simp_all
    have s: "search_loop key (array + f * sz) (array + l * sz) sz cmp m =
        (if ?c < 0 then search_loop key (array + f * sz) (array + h * sz) sz cmp m
         else if ?c > 0 then search_loop key (array + Suc h * sz) (array + l * sz) sz cmp m
         else Some (array + h * sz))"
      by (subst search_loop.simps) (simp only: Let_def mid e lt nz r [unfolded up] ASSERT_bind if_True not_False_eq_True up simp_thms)
    have hn: "h \<le> n" and sl: "l - Suc h < l - f" using h less.prems(2) by linarith+
    consider "?c < 0" | "?c > 0" | "?c = 0" by linarith
    then show ?thesis
    proof cases
      case 1
      have "cmp key (elem array sz m k) \<noteq> 0" if "h < k" "k \<le> l" for k
        using cmp_less_trans[OF c 1, of "elem array sz m k"] srt[of "Suc h" k] that less.prems(2) 1 by (cases "k = Suc h") auto
      moreover obtain r where "search_loop key (array + f * sz) (array + h * sz) sz cmp m = Some r"
        "if r = NULL then \<forall>k. f < k \<and> k \<le> h \<longrightarrow> cmp key (elem array sz m k) \<noteq> 0
         else \<exists>k. f < k \<and> k \<le> h \<and> r = array + (k - 1) * sz \<and> cmp key (elem array sz m k) = 0"
        using less.hyps[OF diff_less_mono[OF h(2,1)] h(1) hn] by blast
      ultimately show ?thesis using s 1 h by (intro exI[of _ r]) (auto split: if_splits, metis not_le)
    next
      case 2
      have "cmp key (elem array sz m k) \<noteq> 0" if "f < k" "k \<le> Suc h" for k
        using cmp_greater_trans[OF c 2, of "elem array sz m k"] srt[of k "Suc h"] that h less.prems(2) 2 by (cases "k = Suc h") auto
      moreover obtain r where r: "search_loop key (array + Suc h * sz) (array + l * sz) sz cmp m = Some r"
        "if r = NULL then \<forall>k. Suc h < k \<and> k \<le> l \<longrightarrow> cmp key (elem array sz m k) \<noteq> 0
         else \<exists>k. Suc h < k \<and> k \<le> l \<and> r = array + (k - 1) * sz \<and> cmp key (elem array sz m k) = 0"
        using less.hyps[OF sl Suc_leI[OF h(2)] less.prems(2)] by blast
      ultimately have "if r = NULL then \<forall>k. f < k \<and> k \<le> l \<longrightarrow> cmp key (elem array sz m k) \<noteq> 0
         else \<exists>k. f < k \<and> k \<le> l \<and> r = array + (k - 1) * sz \<and> cmp key (elem array sz m k) = 0"
        using h by (cases "r = NULL") (simp_all, metis not_le, metis less_trans Suc_lessD le_less_trans)
      then show ?thesis using s 2 r by simp
    next
      case 3
      then show ?thesis using s h arr by (intro exI[of _ "array + h * sz"]) (auto simp: NULL_def intro: exI[of _ "Suc h"])
    qed
  qed
qed

lemma bsearch_spec:
  assumes "cmp_ok cmp" "array_ok array n sz m" "sorted_wrt (\<lambda>x y. cmp x y \<le> 0) (elements array n sz m)"
  shows "\<exists>r. bsearch key array n sz cmp m = Some r \<and>
    (r = NULL \<longleftrightarrow> (\<forall>x \<in> set (elements array n sz m). cmp key x \<noteq> 0)) \<and>
    (r \<noteq> NULL \<longrightarrow> (\<exists>k < n. r = array + k * sz \<and> cmp key (element m r sz) = 0))"
proof -
  have "cmp (elem array sz m a) (elem array sz m b) \<le> 0" if "1 \<le> a" "a < b" "b \<le> n" for a b
    using assms(3)[unfolded sorted_wrt_iff_nth_less elements_def, rule_format, of "a - 1" "b - 1"] that by (auto simp del: upt_Suc)
  from search_loop_spec[OF assms(1,2) this, of 0 n] obtain r where r: "search_loop key array (array + n * sz) sz cmp m = Some r"
      "if r = NULL then \<forall>k. 0 < k \<and> k \<le> n \<longrightarrow> cmp key (elem array sz m k) \<noteq> 0
       else \<exists>k. 0 < k \<and> k \<le> n \<and> r = array + (k - 1) * sz \<and> cmp key (elem array sz m k) = 0"
    by auto
  have "(\<forall>x \<in> set (elements array n sz m). cmp key x \<noteq> 0) \<longleftrightarrow> (\<forall>k. 0 < k \<and> k \<le> n \<longrightarrow> cmp key (elem array sz m k) \<noteq> 0)"
    by (auto simp: elements_def less_Suc_eq_le Suc_le_eq simp del: upt_Suc)
  moreover have "\<exists>k < n. r = array + k * sz \<and> cmp key (element m r sz) = 0" if nn: "r \<noteq> NULL"
  proof -
    obtain k where "0 < k" "k \<le> n" "r = array + (k - 1) * sz" "cmp key (elem array sz m k) = 0" using r(2) nn by (auto split: if_splits)
    then show ?thesis by (intro exI[of _ "k - 1"]) (auto simp: elem_def)
  qed
  ultimately show ?thesis
    using r by (auto simp: bsearch_def binary_search_def mult.commute split: if_splits)
qed

section \<open>The properties\<close>

text \<open>C15: the heap sort behind \<open>qsort\<close> always ends, without an access outside the array, and leaves the
  elements of the array in order; they are the same elements, and nothing else in memory changes.\<close>

theorem qsort_sorts:
  assumes "cmp_ok cmp" "array_ok array n sz m"
  shows "\<exists>m'. qsort array n sz cmp m = Some m' \<and> mset (elements array n sz m') = mset (elements array n sz m) \<and>
    sorted_wrt (\<lambda>x y. cmp x y \<le> 0) (elements array n sz m') \<and> length m' = length m \<and>
    (\<forall>p. p < array \<or> array + n * sz \<le> p \<longrightarrow> m' ! p = m ! p)"
  unfolding qsort_def by (rule sort_mem_spec [OF assms])

definition first_byte :: compare_func where
  "first_byte x y = int (unat (hd x)) - int (unat (hd y))"

lemma first_byte_ok: "cmp_ok first_byte"
  by (auto simp: cmp_ok_def first_byte_def)

text \<open>Four elements of two bytes, behind the null pointer and a byte that stays.\<close>

theorem qsort_sorts_witness:
  "\<exists>m'. qsort 2 4 2 first_byte [0, 9, 7, 1, 3, 2, 8, 3, 3, 4] = Some m' \<and> m' ! 1 = 9 \<and>
    mset (elements 2 4 2 m') = {#[7, 1], [3, 2], [8, 3], [3, 4]#} \<and> sorted_wrt (\<lambda>x y. first_byte x y \<le> 0) (elements 2 4 2 m')"
proof -
  let ?m = "[0, 9, 7, 1, 3, 2, 8, 3, 3, 4] :: mem"
  have e: "elements 2 4 2 ?m = [[7, 1], [3, 2], [8, 3], [3, 4]]"
    by (simp add: elements_def elem_def element_def upt_rec)
  have "array_ok 2 4 2 ?m" by (simp add: array_ok_def NULL_def)
  from qsort_sorts [OF first_byte_ok this] obtain m' where m': "qsort 2 4 2 first_byte ?m = Some m'"
    "mset (elements 2 4 2 m') = mset (elements 2 4 2 ?m)" "sorted_wrt (\<lambda>x y. first_byte x y \<le> 0) (elements 2 4 2 m')"
    "\<forall>p. p < 2 \<or> 2 + 4 * 2 \<le> p \<longrightarrow> m' ! p = ?m ! p" by blast
  have "m' ! 1 = 9" using m'(4) [rule_format, of 1] by simp
  then show ?thesis using m'(1-3) unfolding e by (intro exI [of _ m']) (auto simp: ac_simps)
qed

text \<open>C16: on an ordered array \<open>bsearch\<close> always ends, inside the array; it returns an element that is
  equal to the key for the callback, and the null pointer exactly when there is none.\<close>

theorem bsearch_finds:
  assumes "cmp_ok cmp" "array_ok array n sz m" "sorted_wrt (\<lambda>x y. cmp x y \<le> 0) (elements array n sz m)"
  shows "\<exists>r. bsearch key array n sz cmp m = Some r \<and>
    (r = NULL \<longleftrightarrow> (\<forall>x \<in> set (elements array n sz m). cmp key x \<noteq> 0)) \<and>
    (r \<noteq> NULL \<longrightarrow> (\<exists>k < n. r = array + k * sz \<and> cmp key (element m r sz) = 0))"
  by (rule bsearch_spec [OF assms])

theorem bsearch_finds_witness:
  "bsearch [5] 1 3 1 first_byte [0, 2, 5, 9] = Some 2 \<and> bsearch [6] 1 3 1 first_byte [0, 2, 5, 9] = Some NULL"
proof -
  let ?m = "[0, 2, 5, 9] :: mem"
  have e: "elements 1 3 1 ?m = [[2], [5], [9]]" by (simp add: elements_def elem_def element_def upt_rec)
  have ok: "array_ok 1 3 1 ?m" by (simp add: array_ok_def NULL_def)
  have s: "sorted_wrt (\<lambda>x y. first_byte x y \<le> 0) (elements 1 3 1 ?m)" unfolding e by (simp add: first_byte_def)
  note b5 = bsearch_finds [OF first_byte_ok ok s, of "[5]", unfolded e]
  have n5: "\<not> (\<forall>x \<in> set [[2], [5], [9]]. first_byte [5] x \<noteq> 0)" and n6: "\<forall>x \<in> set [[2], [5], [9]]. first_byte [6] x \<noteq> 0"
    by (simp_all add: first_byte_def)
  obtain r k where r: "bsearch [5] 1 3 1 first_byte ?m = Some r" "k < 3" "r = 1 + k * 1" "first_byte [5] (element ?m r 1) = 0"
    using b5 n5 by blast
  have "k = 0 \<or> k = 1 \<or> k = 2" using r(2) by linarith
  then have "r = 2" using r(3,4) by (auto simp: element_def first_byte_def)
  moreover have "bsearch [6] 1 3 1 first_byte ?m = Some NULL"
    using bsearch_finds [OF first_byte_ok ok s, of "[6]", unfolded e] n6 by blast
  ultimately show ?thesis using r(1) by simp
qed

end
