(* ===== verification/Stdio.thy ===== *)
theory Stdio
  imports Stdlib
begin

text \<open>
  \<open>lib/stdio.c\<close> of project 4: the formatting behind \<open>printf\<close> and \<open>snprintf\<close>. As in the code, \<open>__vprintf\<close> has the
  callback \<open>output\<close>, which changes the state \<open>aux\<close>, as a parameter and calls it while it reads the format and
  the strings. What it reads is what the memory holds at that moment: \<open>reader s p\<close> is the byte at \<open>p\<close>
  in the state \<open>s\<close>. Arguments are the words on the stack.
\<close>

type_synonym reader = "addr \<Rightarrow> byte option"

section \<open>Conversions\<close>

datatype arg_type = CHARTYPE | SHORT | INTTYPE | INTMAX | LONG | LONGLONG | PTRDIFFT | SIZET

record printf_conversion =
  f_minus :: bool
  f_plus :: bool
  f_space :: bool
  f_pound :: bool
  f_zero :: bool
  f_group :: bool
  width :: int
  precision :: int
  conv_type :: arg_type

record integer_base =
  base :: nat
  digits :: "byte list"
  x_char :: byte
  group :: nat

definition dec_digits :: "byte list" where "dec_digits = [48, 49, 50, 51, 52, 53, 54, 55, 56, 57]"

definition base_d :: integer_base where
  "base_d = \<lparr>base = 10, digits = dec_digits, x_char = 0, group = 3\<rparr>"

definition base_o :: integer_base where
  "base_o = \<lparr>base = 8, digits = take 8 dec_digits, x_char = 0, group = 3\<rparr>"

definition base_x :: integer_base where
  "base_x = \<lparr>base = 16, digits = dec_digits @ [97, 98, 99, 100, 101, 102], x_char = 120, group = 4\<rparr>"

definition base_X :: integer_base where
  "base_X = \<lparr>base = 16, digits = dec_digits @ [65, 66, 67, 68, 69, 70], x_char = 88, group = 4\<rparr>"

section \<open>Arguments\<close>

text \<open>\<open>va_arg\<close> takes one word, or two with the lower first; there must be that many.\<close>

type_synonym va_list = "32 word list"

fun va_word :: "va_list \<Rightarrow> (32 word \<times> va_list) option" where
  "va_word [] = None"
| "va_word (a # args) = Some (a, args)"

fun va_long :: "va_list \<Rightarrow> (64 word \<times> va_list) option" where
  "va_long (lo # hi # args) = Some (word_cat hi lo, args)"
| "va_long _ = None"

definition signed_arg :: "arg_type \<Rightarrow> va_list \<Rightarrow> (int \<times> va_list) option" where
  "signed_arg t args = (if t = INTMAX \<or> t = LONGLONG
     then do { (a, args) \<leftarrow> va_long args; Some (sint a, args) }
     else do {
       (a, args) \<leftarrow> va_word args;
       Some ((case t of
           CHARTYPE \<Rightarrow> sint (ucast a :: 8 word)
         | SHORT \<Rightarrow> sint (ucast a :: 16 word)
         | SIZET \<Rightarrow> if uint a > 2 ^ 31 - 1 then uint a - (2 ^ 32 - 1) - 1 else uint a
         | _ \<Rightarrow> sint a), args) })"

definition unsigned_arg :: "arg_type \<Rightarrow> va_list \<Rightarrow> (nat \<times> va_list) option" where
  "unsigned_arg t args = (if t = INTMAX \<or> t = LONGLONG
     then do { (a, args) \<leftarrow> va_long args; Some (unat a, args) }
     else do {
       (a, args) \<leftarrow> va_word args;
       Some ((case t of
           CHARTYPE \<Rightarrow> unat (ucast a :: 8 word)
         | SHORT \<Rightarrow> unat (ucast a :: 16 word)
         | _ \<Rightarrow> unat a), args) })"

section \<open>Parsing\<close>

partial_function (option) parse_flags :: "addr \<Rightarrow> printf_conversion \<Rightarrow> reader \<Rightarrow> (addr \<times> printf_conversion) option" where
  "parse_flags format c r = Option.bind (r format) (\<lambda>ch.
     if ch = 45 then parse_flags (format + 1) (c\<lparr>f_minus := True\<rparr>) r
     else if ch = 43 then parse_flags (format + 1) (c\<lparr>f_plus := True\<rparr>) r
     else if ch = 32 then parse_flags (format + 1) (c\<lparr>f_space := True\<rparr>) r
     else if ch = 35 then parse_flags (format + 1) (c\<lparr>f_pound := True\<rparr>) r
     else if ch = 48 then parse_flags (format + 1) (c\<lparr>f_zero := True\<rparr>) r
     else if ch = 39 then parse_flags (format + 1) (c\<lparr>f_group := True\<rparr>) r
     else Some (format, c))"

partial_function (option) parse_number :: "int \<Rightarrow> addr \<Rightarrow> reader \<Rightarrow> (int \<times> addr) option" where
  "parse_number n format r = Option.bind (r format) (\<lambda>ch.
     if isdigit ch then parse_number (wrap32 (n * 10 + sint ch - 48)) (format + 1) r else Some (n, format))"

definition parse_width :: "addr \<Rightarrow> va_list \<Rightarrow> reader \<Rightarrow> (int \<times> addr \<times> va_list) option" where
  "parse_width format args r = do {
     ch \<leftarrow> r format;
     if ch = 42 then do { (a, args) \<leftarrow> va_word args; Some (sint a, format + 1, args) }
     else do { (n, format) \<leftarrow> parse_number 0 format r; Some (n, format, args) } }"

definition parse_precision :: "addr \<Rightarrow> va_list \<Rightarrow> reader \<Rightarrow> (int \<times> addr \<times> va_list) option" where
  "parse_precision format args r = do {
     ch \<leftarrow> r format;
     if ch = 46
     then do { (p, format, args) \<leftarrow> parse_width (format + 1) args r; Some (if p < 0 then - 1 else p, format, args) }
     else Some (- 1, format, args) }"

definition parse_type :: "addr \<Rightarrow> reader \<Rightarrow> (arg_type \<times> addr) option" where
  "parse_type format r = do {
     ch \<leftarrow> r format;
     if ch = 104 then do {
       ch \<leftarrow> r (format + 1);
       Some (if ch = 104 then (CHARTYPE, format + 2) else (SHORT, format + 1)) }
     else if ch = 106 then Some (INTMAX, format + 1)
     else if ch = 108 then do {
       ch \<leftarrow> r (format + 1);
       Some (if ch = 108 then (LONGLONG, format + 2) else (LONG, format + 1)) }
     else if ch = 116 then Some (PTRDIFFT, format + 1)
     else if ch = 122 then Some (SIZET, format + 1)
     else Some (INTTYPE, format) }"

definition no_flags :: printf_conversion where
  "no_flags = \<lparr>f_minus = False, f_plus = False, f_space = False, f_pound = False, f_zero = False, f_group = False,
     width = 0, precision = - 1, conv_type = INTTYPE\<rparr>"

definition parse_conversion :: "addr \<Rightarrow> va_list \<Rightarrow> reader \<Rightarrow> (addr \<times> printf_conversion \<times> va_list) option" where
  "parse_conversion format args r = do {
     (format, c) \<leftarrow> parse_flags format no_flags r;
     let c = (if f_minus c then c\<lparr>f_zero := False\<rparr> else c);
     let c = (if f_plus c then c\<lparr>f_space := False\<rparr> else c);
     (w, format, args) \<leftarrow> parse_width format args r;
     let c = (if w < 0 then c\<lparr>width := wrap32 (- w), f_minus := True\<rparr> else c\<lparr>width := w\<rparr>);
     (p, format, args) \<leftarrow> parse_precision format args r;
     let c = (if p \<ge> 0 then c\<lparr>f_zero := False\<rparr> else c);
     (t, format) \<leftarrow> parse_type format r;
     Some (format, c\<lparr>precision := p, conv_type := t\<rparr>, args) }"

section \<open>Integers\<close>

text \<open>\<open>*cp++ = ch\<close>, where the buffer holds 64 characters.\<close>

definition put :: "byte \<Rightarrow> byte list \<Rightarrow> byte list option" where
  "put ch buf = (if length buf < 64 then Some (buf @ [ch]) else None)"

partial_function (option) digit_loop :: "integer_base \<Rightarrow> bool \<Rightarrow> nat \<Rightarrow> nat \<Rightarrow> byte list \<Rightarrow> byte list option" where
  "digit_loop b grouped value digit_cnt buf =
     (if value > 0
      then Option.bind (if grouped \<and> digit_cnt > 0 \<and> digit_cnt mod group b = 0 then put 44 buf else Some buf) (\<lambda>buf.
           Option.bind (put (digits b ! (value mod base b)) buf) (\<lambda>buf.
             digit_loop b grouped (value div base b) (digit_cnt + 1) buf))
      else Some buf)"

partial_function (option) zero_loop :: "int \<Rightarrow> byte list \<Rightarrow> byte list option" where
  "zero_loop prec buf =
     (if int (length buf) < prec \<and> length buf < 63
      then Option.bind (put 48 buf) (\<lambda>buf. zero_loop prec buf)
      else Some buf)"

definition sign_char :: "bool \<Rightarrow> bool \<Rightarrow> printf_conversion \<Rightarrow> byte" where
  "sign_char is_signed negative c =
     (if is_signed
      then if f_plus c then if negative then 45 else 43
           else if f_space c then if negative then 45 else 32
           else if negative then 45 else 0
      else 0)"

definition format_integer :: "nat \<Rightarrow> bool \<Rightarrow> bool \<Rightarrow> integer_base \<Rightarrow> printf_conversion \<Rightarrow> byte list option" where
  "format_integer value is_signed negative b c = do {
     let sign = sign_char is_signed negative c;
     let x = (if f_pound c \<and> value \<noteq> 0 then x_char b else 0);
     buf \<leftarrow> digit_loop b (f_group c) value 0 [];
     let prec = (if precision c < 0 then 1 else precision c);
     buf \<leftarrow> zero_loop prec buf;
     buf \<leftarrow> (if f_pound c \<and> base b = 8 \<and> (buf = [] \<or> List.last buf \<noteq> 48) then put 48 buf else Some buf);
     let pad_cnt = wrap32 (width c - int (length buf) - (if x \<noteq> 0 then 2 else 0) - (if sign \<noteq> 0 then 1 else 0));
     let pad_cnt = nat pad_cnt;
     Some ((if \<not> f_minus c \<and> \<not> f_zero c then replicate pad_cnt 32 else []) @
       (if sign \<noteq> 0 then [sign] else []) @
       (if x \<noteq> 0 then [48, x] else []) @
       (if f_zero c then replicate pad_cnt 48 else []) @
       rev buf @
       (if f_minus c then replicate pad_cnt 32 else [])) }"

section \<open>Output\<close>

text \<open>The callback on a sequence of characters; the output of an integer, which reads only local variables,
  is the list that \<open>format_integer\<close> computes.\<close>

primrec output_all :: "(byte \<Rightarrow> 's \<Rightarrow> 's option) \<Rightarrow> byte list \<Rightarrow> 's \<Rightarrow> 's option" where
  "output_all output [] s = Some s"
| "output_all output (ch # out) s = do { s \<leftarrow> output ch s; output_all output out s }"

primrec output_dup :: "byte \<Rightarrow> nat \<Rightarrow> (byte \<Rightarrow> 's \<Rightarrow> 's option) \<Rightarrow> 's \<Rightarrow> 's option" where
  "output_dup ch 0 output s = Some s"
| "output_dup ch (Suc cnt) output s = do { s \<leftarrow> output ch s; output_dup ch cnt output s }"

text \<open>Here \<open>string\<close> gives the character at an index in the state at the time of the access.\<close>

primrec string_loop :: "('s \<Rightarrow> nat \<Rightarrow> byte option) \<Rightarrow> nat list \<Rightarrow> (byte \<Rightarrow> 's \<Rightarrow> 's option) \<Rightarrow> 's \<Rightarrow> 's option" where
  "string_loop string [] output s = Some s"
| "string_loop string (i # is) output s = do { ch \<leftarrow> string s i; s \<leftarrow> output ch s; string_loop string is output s }"

definition format_string ::
  "('s \<Rightarrow> nat \<Rightarrow> byte option) \<Rightarrow> int \<Rightarrow> printf_conversion \<Rightarrow> (byte \<Rightarrow> 's \<Rightarrow> 's option) \<Rightarrow> 's \<Rightarrow> 's option" where
  "format_string string len c output s = do {
     s \<leftarrow> (if width c > len \<and> \<not> f_minus c then output_dup 32 (nat (width c - len)) output s else Some s);
     s \<leftarrow> string_loop string [0..<nat len] output s;
     if width c > len \<and> f_minus c then output_dup 32 (nat (width c - len)) output s else Some s }"

definition literal :: "byte list \<Rightarrow> 's \<Rightarrow> nat \<Rightarrow> byte option" where
  "literal string s i = (if i < length string then Some (string ! i) else None)"

text \<open>The literals that the code prints.\<close>

definition null_text :: "byte list" where "null_text = [40, 110, 117, 108, 108, 41]"

definition kernel_text :: "byte \<Rightarrow> byte list" where
  "kernel_text ch = [60, 60, 110, 111, 32, 37, ch, 32, 105, 110, 32, 107, 101, 114, 110, 101, 108, 62, 62]"

definition conversion_text :: "byte \<Rightarrow> byte list" where
  "conversion_text ch = [60, 60, 110, 111, 32, 37, ch, 32, 99, 111, 110, 118, 101, 114, 115, 105, 111, 110, 62, 62]"

section \<open>The loop over the format\<close>

definition base_of :: "byte \<Rightarrow> integer_base" where
  "base_of ch = (if ch = 111 then base_o else if ch = 117 then base_d else if ch = 120 then base_x else base_X)"

text \<open>The \<open>switch\<close> on the conversion character.\<close>

definition convert :: "(byte \<Rightarrow> 's \<Rightarrow> 's option) \<Rightarrow> ('s \<Rightarrow> reader) \<Rightarrow>
    byte \<Rightarrow> printf_conversion \<Rightarrow> va_list \<Rightarrow> 's \<Rightarrow> ('s \<times> va_list) option" where
  "convert output r ch c args s =
     (if ch = 100 \<or> ch = 105 then do {
        (value, args) \<leftarrow> signed_arg (conv_type c) args;
        out \<leftarrow> format_integer (nat \<bar>value\<bar>) True (value < 0) base_d c;
        s \<leftarrow> output_all output out s;
        Some (s, args) }
      else if ch = 111 \<or> ch = 117 \<or> ch = 120 \<or> ch = 88 then do {
        (value, args) \<leftarrow> unsigned_arg (conv_type c) args;
        out \<leftarrow> format_integer value False False (base_of ch) c;
        s \<leftarrow> output_all output out s;
        Some (s, args) }
      else if ch = 99 then do {
        (a, args) \<leftarrow> va_word args;
        s \<leftarrow> format_string (literal [ucast a]) 1 c output s;
        Some (s, args) }
      else if ch = 115 then do {
        (a, args) \<leftarrow> va_word args;
        let maxlen = nat (precision c mod 2 ^ 32);
        s \<leftarrow> (if a = 0
          then format_string (literal null_text) (int (min (length null_text) maxlen)) c output s
          else do {
            n \<leftarrow> strnlen (unat a) maxlen (r s);
            format_string (\<lambda>s i. r s (unat a + i)) (wrap32 (int n)) c output s });
        Some (s, args) }
      else if ch = 112 then do {
        (a, args) \<leftarrow> va_word args;
        out \<leftarrow> format_integer (unat a) False False base_x
                 (no_flags\<lparr>f_pound := True, width := width c, precision := precision c\<rparr>);
        s \<leftarrow> output_all output out s;
        Some (s, args) }
      else if ch = 102 \<or> ch = 101 \<or> ch = 69 \<or> ch = 103 \<or> ch = 71 \<or> ch = 110
      then do { s \<leftarrow> output_all output (kernel_text ch) s; Some (s, args) }
      else do { s \<leftarrow> output_all output (conversion_text ch) s; Some (s, args) })"

text \<open>\<open>__vprintf\<close>\<close>

partial_function (option) vprintf_loop ::
  "(byte \<Rightarrow> 's \<Rightarrow> 's option) \<Rightarrow> ('s \<Rightarrow> reader) \<Rightarrow> addr \<Rightarrow> va_list \<Rightarrow> 's \<Rightarrow> 's option" where
  "vprintf_loop output r format args s = Option.bind (r s format) (\<lambda>ch.
     if ch = 0 then Some s
     else if ch \<noteq> 37 then Option.bind (output ch s) (\<lambda>s. vprintf_loop output r (format + 1) args s)
     else Option.bind (r s (format + 1)) (\<lambda>ch.
       if ch = 37 then Option.bind (output 37 s) (\<lambda>s. vprintf_loop output r (format + 2) args s)
       else Option.bind (parse_conversion (format + 1) args (r s)) (\<lambda>(format, c, args).
         Option.bind (r s format) (\<lambda>ch.
         Option.bind (convert output r ch c args s) (\<lambda>(s, args).
         vprintf_loop output r (format + 1) args s)))))"

text \<open>With the callback that collects the characters, what a format prints when the memory stays as it is.\<close>

definition collect :: "byte \<Rightarrow> byte list \<Rightarrow> byte list option" where "collect ch out = Some (out @ [ch])"

definition printed :: "reader \<Rightarrow> addr \<Rightarrow> va_list \<Rightarrow> byte list option" where
  "printed r format args = vprintf_loop collect (\<lambda>_. r) format args []"

section \<open>Output to a buffer\<close>

record vsnprintf_aux =
  aux_p :: addr
  aux_length :: int
  max_length :: int

definition vsnprintf_helper :: "byte \<Rightarrow> vsnprintf_aux \<times> mem \<Rightarrow> (vsnprintf_aux \<times> mem) option" where
  "vsnprintf_helper ch am = do {
     let (aux, m) = am;
     let room = aux_length aux < max_length aux;
     let aux = aux\<lparr>aux_length := wrap32 (aux_length aux + 1)\<rparr>;
     if room
     then do { m \<leftarrow> wr m (aux_p aux) ch; Some (aux\<lparr>aux_p := aux_p aux + 1\<rparr>, m) }
     else Some (aux, m) }"

definition vsnprintf :: "addr \<Rightarrow> nat \<Rightarrow> addr \<Rightarrow> va_list \<Rightarrow> mem \<Rightarrow> (int \<times> mem) option" where
  "vsnprintf buffer buf_size format args m = do {
     (aux, m) \<leftarrow> vprintf_loop vsnprintf_helper (rd \<circ> snd) format args
        (\<lparr>aux_p = buffer, aux_length = 0, max_length = wrap32 (if buf_size > 0 then int buf_size - 1 else 0)\<rparr>, m);
     m \<leftarrow> (if buf_size > 0 then wr m (aux_p aux) 0 else Some m);
     Some (aux_length aux, m) }"

definition snprintf :: "addr \<Rightarrow> nat \<Rightarrow> addr \<Rightarrow> va_list \<Rightarrow> mem \<Rightarrow> (int \<times> mem) option" where
  "snprintf buffer buf_size format args m = vsnprintf buffer buf_size format args m"

section \<open>Output to the console\<close>

definition isprint :: "byte \<Rightarrow> bool" where "isprint c \<longleftrightarrow> 32 \<le> unat c \<and> unat c < 127"

text \<open>The conversions \<open>%08jx\<close> and \<open>%02hhx\<close>.\<close>

definition hex_number :: "nat \<Rightarrow> int \<Rightarrow> byte list option" where
  "hex_number value w = format_integer value False False base_x (no_flags\<lparr>f_zero := True, width := w\<rparr>)"

primrec hex_bytes :: "nat list \<Rightarrow> nat \<Rightarrow> addr \<Rightarrow> mem \<Rightarrow> byte list option" where
  "hex_bytes [] start buf m = Some []"
| "hex_bytes (i # is) start buf m = do {
     ch \<leftarrow> rd m (buf + (i - start));
     out \<leftarrow> hex_number (unat ch) 2;
     rest \<leftarrow> hex_bytes is start buf m;
     Some (out @ [if i = 7 then 45 else 32] @ rest) }"

primrec ascii_bytes :: "nat list \<Rightarrow> nat \<Rightarrow> addr \<Rightarrow> mem \<Rightarrow> byte list option" where
  "ascii_bytes [] start buf m = Some []"
| "ascii_bytes (i # is) start buf m = do {
     ch \<leftarrow> rd m (buf + (i - start));
     rest \<leftarrow> ascii_bytes is start buf m;
     Some ((if isprint ch then ch else 46) # rest) }"

partial_function (option) hex_dump :: "nat \<Rightarrow> addr \<Rightarrow> nat \<Rightarrow> bool \<Rightarrow> mem \<Rightarrow> byte list option" where
  "hex_dump ofs buf sz ascii m =
     (if sz > 0
      then let start = ofs mod 16;
               lst = (if 16 - start > sz then start + sz else 16);
               n = lst - start
           in Option.bind (hex_number (ofs - ofs mod 16) 8) (\<lambda>head.
              Option.bind (hex_bytes [start..<lst] start buf m) (\<lambda>bytes.
              Option.bind (if ascii then ascii_bytes [start..<lst] start buf m else Some []) (\<lambda>chars.
              Option.bind (hex_dump ((ofs + n) mod 2 ^ 32) (buf + n) (sz - n) ascii m) (\<lambda>rest.
                Some (head @ [32, 32] @ replicate (3 * start) 32 @ bytes @
                  (if ascii then replicate (3 * (16 - lst)) 32 @ [124] @ replicate start 32 @ chars @
                     replicate (16 - lst) 32 @ [124] else []) @
                  [10] @ rest)))))
      else Some [])"

definition factors :: "byte list list" where
  "factors = [[98, 121, 116, 101, 115], [107, 66], [77, 66], [71, 66], [84, 66]]"

fun factor_loop :: "nat \<Rightarrow> byte list list \<Rightarrow> nat \<times> byte list" where
  "factor_loop sz (f # f' # fs) = (if sz \<ge> 1024 then factor_loop (sz div 1024) (f' # fs) else (sz, f))"
| "factor_loop sz [f] = (sz, f)"
| "factor_loop sz [] = (sz, [])"

definition print_human_readable_size :: "nat \<Rightarrow> byte list option" where
  "print_human_readable_size sz =
     (if sz = 1 then Some [49, 32, 98, 121, 116, 101]
      else do {
        let (sz, f) = factor_loop sz factors;
        out \<leftarrow> format_integer sz False False base_d no_flags;
        Some (out @ [32] @ f) })"

end
