(* ===== verification/StdioProps.thy ===== *)
theory StdioProps
  imports Stdio StringProps
begin

text \<open>What \<open>lib/stdio.c\<close> prints, how \<open>snprintf\<close> stores it, and that \<open>atoi\<close> reads a decimal number back.\<close>

section \<open>Digits\<close>

text \<open>The digits of a number, the last one first.\<close>

fun ndigits :: "nat \<Rightarrow> nat \<Rightarrow> nat list" where
  "ndigits b v = (if v = 0 \<or> b < 2 then [] else v mod b # ndigits b (v div b))"

declare ndigits.simps [simp del]

lemma digit_loop_safe:
  "v < base b ^ k \<Longrightarrow> 2 \<le> base b \<Longrightarrow> length buf + 2 * k \<le> 64 \<Longrightarrow>
   \<exists>buf'. digit_loop b g v cnt buf = Some buf' \<and> length buf' \<le> length buf + 2 * k"
proof (induction k arbitrary: v cnt buf)
  case 0
  then show ?case by (simp add: digit_loop.simps)
next
  case (Suc k)
  show ?case
  proof (cases "v > 0")
    case True
    obtain buf1 where b1: "(if g \<and> cnt > 0 \<and> cnt mod group b = 0 then put 44 buf else Some buf) = Some buf1"
        "length buf1 \<le> length buf + 1"
      using Suc.prems(3) by (cases "g \<and> cnt > 0 \<and> cnt mod group b = 0") (auto simp: put_def)
    let ?b2 = "buf1 @ [digits b ! (v mod base b)]"
    have b2: "put (digits b ! (v mod base b)) buf1 = Some ?b2"
      using b1(2) Suc.prems(3) by (simp add: put_def)
    have "v div base b < base b ^ k" using Suc.prems(1,2) by (simp add: less_mult_imp_div_less mult.commute)
    then obtain buf' where "digit_loop b g (v div base b) (cnt + 1) ?b2 = Some buf'" "length buf' \<le> length ?b2 + 2 * k"
      using Suc.IH[of "v div base b" ?b2 "cnt + 1"] Suc.prems(2,3) b1(2) by auto
    then show ?thesis using True b1 b2 by (subst digit_loop.simps) auto
  qed (simp add: digit_loop.simps)
qed

lemma digit_loop_plain:
  "v < base b ^ k \<Longrightarrow> 2 \<le> base b \<Longrightarrow> length buf + k \<le> 64 \<Longrightarrow>
   digit_loop b False v cnt buf = Some (buf @ map ((!) (digits b)) (ndigits (base b) v))"
proof (induction k arbitrary: v cnt buf)
  case 0
  then show ?case by (simp add: digit_loop.simps ndigits.simps)
next
  case (Suc k)
  have "v div base b < base b ^ k" using Suc.prems(1,2) by (simp add: less_mult_imp_div_less mult.commute)
  then show ?case using Suc.IH[of "v div base b" "buf @ [digits b ! (v mod base b)]" "cnt + 1"] Suc.prems(2,3)
    by (subst digit_loop.simps, subst ndigits.simps) (auto simp: put_def)
qed

lemma zero_loop_spec:
  assumes "length buf \<le> 63"
  shows "zero_loop p buf = Some (buf @ replicate (min (nat p) 63 - length buf) 48)"
  using assms
proof (induction "63 - length buf" arbitrary: buf rule: less_induct)
  case less
  show ?case
  proof (cases "int (length buf) < p \<and> length buf < 63")
    case True
    then have "zero_loop p (buf @ [48]) = Some (buf @ [48] @ replicate (min (nat p) 63 - (length buf + 1)) 48)"
      using less.hyps[of "buf @ [48]"] True diff_less_mono2[of "length buf" "length (buf @ [48])" 63] by simp
    moreover have "min (nat p) 63 - length buf = Suc (min (nat p) 63 - (length buf + 1))" using True by auto
    ultimately show ?thesis using True by (subst zero_loop.simps) (simp add: put_def)
  next
    case False
    then have "min (nat p) 63 - length buf = 0" by auto
    then show ?thesis using False by (subst zero_loop.simps) auto
  qed
qed

lemma zero_loop_one: "length buf \<le> 63 \<Longrightarrow> zero_loop 1 buf = Some (if buf = [] then [48] else buf)"
  by (cases buf) (simp_all add: zero_loop_spec)

lemma pow_bounds: "(2::nat) ^ 64 \<le> 10 ^ 20" "(2::nat) ^ 64 \<le> 8 ^ 22" "(2::nat) ^ 64 \<le> 16 ^ 16"
  by simp_all

text \<open>C18: For every 64-bit value, base, sign, width, precision and flags, grouping included, \<open>format_integer\<close>
  succeeds: the characters it collects never exceed its local buffer of 64 bytes.\<close>

theorem format_integer_fits:
  assumes "value < 2 ^ 64" and "b \<in> {base_d, base_o, base_x, base_X}"
  shows "format_integer value is_signed negative b c \<noteq> None"
proof -
  have "value < base b ^ 22" "2 \<le> base b"
    using assms by (auto simp: base_d_def base_o_def base_x_def base_X_def)
  then obtain buf where b: "digit_loop b (f_group c) value 0 [] = Some buf" "length buf \<le> 44"
    using digit_loop_safe[of "value" b 22 "[]" "f_group c" 0] by auto
  have "zero_loop p buf = Some (buf @ replicate (min (nat p) 63 - length buf) 48)" for p
    using zero_loop_spec[of buf p] b(2) by simp
  moreover have "length (buf @ replicate (min (nat p) 63 - length buf) 48) < 64" for p using b(2) by simp
  ultimately show ?thesis using b(1) by (auto simp: format_integer_def Let_def put_def)
qed

theorem format_integer_fits_witness: "format_integer (2 ^ 64 - 1) False False base_o no_flags \<noteq> None"
  by (rule format_integer_fits) simp_all

section \<open>Reading while printing\<close>

text \<open>A reader that knows more bytes gives the same results.\<close>

lemma reader_mono: "r \<subseteq>\<^sub>m r' \<Longrightarrow> r p = Some b \<Longrightarrow> r' p = Some b"
  by (metis domI map_le_def)

lemma parse_flags_mono:
  assumes "parse_flags format c r = Some x" and "r \<subseteq>\<^sub>m r'"
  shows "parse_flags format c r' = Some x"
proof -
  have "\<forall>r'. r \<subseteq>\<^sub>m r' \<longrightarrow> parse_flags format c r' = Some x"
  proof (rule parse_flags.raw_induct[of "\<lambda>format c r x. \<forall>r'. r \<subseteq>\<^sub>m r' \<longrightarrow> parse_flags format c r' = Some x", OF _ assms(1)])
    fix self and format c r x
    assume IH: "\<And>format c r x. self format c r = Some x \<Longrightarrow> \<forall>r'. r \<subseteq>\<^sub>m r' \<longrightarrow> parse_flags format c r' = Some x"
      and s: "Option.bind (r format) (\<lambda>ch.
        if ch = 45 then self (format + 1) (c\<lparr>f_minus := True\<rparr>) r
        else if ch = 43 then self (format + 1) (c\<lparr>f_plus := True\<rparr>) r
        else if ch = 32 then self (format + 1) (c\<lparr>f_space := True\<rparr>) r
        else if ch = 35 then self (format + 1) (c\<lparr>f_pound := True\<rparr>) r
        else if ch = 48 then self (format + 1) (c\<lparr>f_zero := True\<rparr>) r
        else if ch = 39 then self (format + 1) (c\<lparr>f_group := True\<rparr>) r
        else Some (format, c)) = Some x"
    obtain ch where ch: "r format = Some ch" using s by (cases "r format") auto
    show "\<forall>r'. r \<subseteq>\<^sub>m r' \<longrightarrow> parse_flags format c r' = Some x"
    proof (intro allI impI)
      fix r' assume r': "r \<subseteq>\<^sub>m r'"
      have "self f c r = Some x \<Longrightarrow> parse_flags f c r' = Some x" for f c using IH r' by blast
      then show "parse_flags format c r' = Some x"
        using s by (subst parse_flags.simps) (auto simp: ch reader_mono[OF r' ch] split: if_splits)
    qed
  qed
  then show ?thesis using assms(2) by blast
qed

lemma parse_number_mono:
  assumes "parse_number n format r = Some x" and "r \<subseteq>\<^sub>m r'"
  shows "parse_number n format r' = Some x"
proof -
  have "\<forall>r'. r \<subseteq>\<^sub>m r' \<longrightarrow> parse_number n format r' = Some x"
  proof (rule parse_number.raw_induct[of "\<lambda>n format r x. \<forall>r'. r \<subseteq>\<^sub>m r' \<longrightarrow> parse_number n format r' = Some x", OF _ assms(1)])
    fix self and n :: int and format r x
    assume IH: "\<And>n format r x. self n format r = Some x \<Longrightarrow> \<forall>r'. r \<subseteq>\<^sub>m r' \<longrightarrow> parse_number n format r' = Some x"
      and s: "Option.bind (r format) (\<lambda>ch.
        if isdigit ch then self (wrap32 (n * 10 + sint ch - 48)) (format + 1) r else Some (n, format)) = Some x"
    obtain ch where ch: "r format = Some ch" using s by (cases "r format") auto
    show "\<forall>r'. r \<subseteq>\<^sub>m r' \<longrightarrow> parse_number n format r' = Some x"
    proof (intro allI impI)
      fix r' assume r': "r \<subseteq>\<^sub>m r'"
      have "self n f r = Some x \<Longrightarrow> parse_number n f r' = Some x" for n f using IH r' by blast
      then show "parse_number n format r' = Some x"
        using s by (subst parse_number.simps) (auto simp: ch reader_mono[OF r' ch] split: if_splits)
    qed
  qed
  then show ?thesis using assms(2) by blast
qed

lemma bind_mono:
  "Option.bind x f = Some y \<Longrightarrow> (\<And>a. x = Some a \<Longrightarrow> x' = Some a) \<Longrightarrow>
   (\<And>a. x = Some a \<Longrightarrow> f a = Some y \<Longrightarrow> f' a = Some y) \<Longrightarrow> Option.bind x' f' = Some y"
  by (cases x) auto

lemma parse_width_mono: "parse_width format args r = Some x \<Longrightarrow> r \<subseteq>\<^sub>m r' \<Longrightarrow> parse_width format args r' = Some x"
  unfolding parse_width_def
  by (erule bind_mono, erule (1) reader_mono, clarsimp split: if_splits, erule bind_mono, erule (1) parse_number_mono)

lemma parse_precision_mono:
  "parse_precision format args r = Some x \<Longrightarrow> r \<subseteq>\<^sub>m r' \<Longrightarrow> parse_precision format args r' = Some x"
  unfolding parse_precision_def
  by (erule bind_mono, erule (1) reader_mono, clarsimp split: if_splits, erule bind_mono, erule (1) parse_width_mono)

lemma parse_type_mono: "parse_type format r = Some x \<Longrightarrow> r \<subseteq>\<^sub>m r' \<Longrightarrow> parse_type format r' = Some x"
  unfolding parse_type_def
  by (erule bind_mono, erule (1) reader_mono, clarsimp split: if_splits) (erule bind_mono, erule (1) reader_mono, simp)+

lemma parse_conversion_mono:
  "parse_conversion format args r = Some x \<Longrightarrow> r \<subseteq>\<^sub>m r' \<Longrightarrow> parse_conversion format args r' = Some x"
  unfolding parse_conversion_def Let_def
  by (erule bind_mono, erule (1) parse_flags_mono, clarify, erule bind_mono, erule (1) parse_width_mono, clarify,
    erule bind_mono, erule (1) parse_precision_mono, clarify, erule bind_mono, erule (1) parse_type_mono)

lemma strnlen_loop_mono:
  "strnlen_loop p maxlen k r = Some n \<Longrightarrow> r \<subseteq>\<^sub>m r' \<Longrightarrow> strnlen_loop p maxlen k r' = Some n"
proof (induction p maxlen k r rule: strnlen_loop.induct)
  case (1 p maxlen len r)
  obtain c where c: "r (p + len) = Some c" using 1(2) by (subst (asm) strnlen_loop.simps) (auto split: option.splits)
  then show ?case using 1 reader_mono[OF 1(3) c]
    by (subst strnlen_loop.simps, subst (asm) (3) strnlen_loop.simps) (auto split: if_splits)
qed

lemma strnlen_mono: "strnlen p maxlen r = Some n \<Longrightarrow> r \<subseteq>\<^sub>m r' \<Longrightarrow> strnlen p maxlen r' = Some n"
  unfolding strnlen_def by (rule strnlen_loop_mono)

section \<open>Printing with any callback\<close>

lemma output_all_append: "output_all output (xs @ ys) s = Option.bind (output_all output xs s) (output_all output ys)"
  by (induction xs arbitrary: s) (simp_all)

lemma output_dup_all: "output_dup ch n output s = output_all output (replicate n ch) s"
  by (induction n arbitrary: s) simp_all

lemma output_all_collect: "output_all collect t out = Some (out @ t)"
  by (induction t arbitrary: out) (simp_all add: collect_def)

text \<open>The collecting step \<open>fc\<close> gives the text that the step \<open>fr\<close> passes to \<open>output\<close>, from every state that has
  room for the text.\<close>

definition prints :: "(byte \<Rightarrow> 's \<Rightarrow> 's option) \<Rightarrow> (nat \<Rightarrow> 's \<Rightarrow> bool) \<Rightarrow>
    (byte list \<Rightarrow> byte list option) \<Rightarrow> ('s \<Rightarrow> 's option) \<Rightarrow> bool" where
  "prints output good fc fr \<longleftrightarrow> (\<forall>out out'. fc out = Some out' \<longrightarrow>
     (\<exists>t. out' = out @ t \<and> (\<forall>n s. good (length t + n) s \<longrightarrow> fr s = output_all output t s)))"

lemma prints_all: "prints output good (output_all collect t) (output_all output t)"
  by (auto simp: prints_def output_all_collect)

text \<open>A callback that accepts as many characters as there is room for, where the memory keeps what the reader
  \<open>r\<close> knows.\<close>

locale printer =
  fixes emit :: "byte \<Rightarrow> 's \<Rightarrow> 's option" and reader :: "'s \<Rightarrow> addr \<Rightarrow> byte option"
    and r :: "addr \<Rightarrow> byte option" and good :: "nat \<Rightarrow> 's \<Rightarrow> bool"
  assumes good_output: "good (Suc n) s \<Longrightarrow> \<exists>s'. emit ch s = Some s' \<and> good n s'"
    and good_reader: "good n s \<Longrightarrow> r \<subseteq>\<^sub>m reader s"
begin

lemma good_output_all: "good (length t + n) s \<Longrightarrow> \<exists>s'. output_all emit t s = Some s' \<and> good n s'"
proof (induction t arbitrary: s)
  case (Cons ch t)
  then obtain s1 where "emit ch s = Some s1" "good (length t + n) s1"
    using good_output[of "length t + n" s ch] by auto
  then show ?case using Cons.IH by auto
qed simp

lemma prints_bind:
  assumes f: "prints emit good fc fr" and g: "prints emit good gc gr"
  shows "prints emit good (\<lambda>out. Option.bind (fc out) gc) (\<lambda>s. Option.bind (fr s) gr)"
  unfolding prints_def
proof (intro allI impI)
  fix out out' assume "Option.bind (fc out) gc = Some out'"
  then obtain out1 where "fc out = Some out1" "gc out1 = Some out'" by (auto simp: bind_eq_Some_conv)
  then obtain t1 t2 where t: "out1 = out @ t1" "out' = out1 @ t2"
    and f1: "\<And>n s. good (length t1 + n) s \<Longrightarrow> fr s = output_all emit t1 s"
    and g1: "\<And>n s. good (length t2 + n) s \<Longrightarrow> gr s = output_all emit t2 s"
    using f g unfolding prints_def by metis
  have "Option.bind (fr s) gr = output_all emit (t1 @ t2) s" if "good (length (t1 @ t2) + n) s" for n s
  proof -
    obtain s1 where "output_all emit t1 s = Some s1" "good (length t2 + n) s1"
      using good_output_all[of t1 "length t2 + n" s] \<open>good (length (t1 @ t2) + n) s\<close> by (auto simp: add.assoc)
    moreover have "fr s = output_all emit t1 s"
      using f1[of "length t2 + n" s] \<open>good (length (t1 @ t2) + n) s\<close> by (simp add: add.assoc)
    ultimately show ?thesis using g1[of n s1] by (simp add: output_all_append)
  qed
  then show "\<exists>t. out' = out @ t \<and> (\<forall>n s. good (length t + n) s \<longrightarrow> Option.bind (fr s) gr = output_all emit t s)"
    using t by (intro exI[of _ "t1 @ t2"]) simp
qed

lemma prints_Some: "prints emit good Some Some"
  using prints_all[of emit good "[]"] by (simp add: prints_def)

lemma prints_output: "prints emit good (collect ch) (emit ch)"
  using prints_all[of emit good "[ch]"] by (simp add: prints_def output_all_collect collect_def)

lemma prints_dup: "prints emit good (output_dup ch n collect) (output_dup ch n emit)"
  using prints_all[of emit good "replicate n ch"] by (simp add: prints_def output_dup_all)

lemma prints_if:
  "(b \<Longrightarrow> prints emit good fc fr) \<Longrightarrow> (\<not> b \<Longrightarrow> prints emit good gc gr) \<Longrightarrow>
   prints emit good (\<lambda>out. if b then fc out else gc out) (\<lambda>s. if b then fr s else gr s)"
  by (cases b) simp_all

lemma prints_read:
  assumes "\<And>n s. good n s \<Longrightarrow> x \<noteq> None \<Longrightarrow> xr s = x" and "\<And>b. x = Some b \<Longrightarrow> prints emit good (gc b) (gr b)"
  shows "prints emit good (\<lambda>out. Option.bind x (\<lambda>b. gc b out)) (\<lambda>s. Option.bind (xr s) (\<lambda>b. gr b s))"
  using assms by (cases x) (auto simp: prints_def)

lemma prints_string_loop:
  assumes "\<And>n s. good n s \<Longrightarrow> st \<subseteq>\<^sub>m string s"
  shows "prints emit good (string_loop (\<lambda>_. st) is collect) (string_loop string is emit)"
proof (induction "is")
  case Nil
  then show ?case using prints_Some by simp
next
  case (Cons i "is")
  have "prints emit good (\<lambda>out. Option.bind (st i) (\<lambda>ch. Option.bind (collect ch out) (string_loop (\<lambda>_. st) is collect)))
    (\<lambda>s. Option.bind (string s i) (\<lambda>ch. Option.bind (emit ch s) (string_loop string is emit)))"
    using reader_mono[OF assms] by (intro prints_read prints_bind prints_output Cons.IH) auto
  then show ?case by simp
qed

lemma prints_format_string:
  assumes "\<And>n s. good n s \<Longrightarrow> st \<subseteq>\<^sub>m string s"
  shows "prints emit good (format_string (\<lambda>_. st) len c collect) (format_string string len c emit)"
  unfolding format_string_def
  by (intro prints_bind prints_string_loop assms prints_if prints_dup prints_Some)

lemma prints_pair:
  assumes "prints emit good fc fr" and "Option.bind (fc out) (\<lambda>out. Some (out, a)) = Some (out', a')"
  shows "\<exists>t. out' = out @ t \<and> (\<forall>n s. good (length t + n) s \<longrightarrow>
    Option.bind (fr s) (\<lambda>s. Some (s, a)) = Option.bind (output_all emit t s) (\<lambda>s. Some (s, a')))"
  using assms by (fastforce simp: prints_def bind_eq_Some_conv)

lemma prints_string:
  "prints emit good
     (\<lambda>out. if p = 0 then format_string (literal null_text) (int (min (length null_text) maxlen)) c collect out
       else Option.bind (strnlen p maxlen r) (\<lambda>n. format_string (\<lambda>_ i. r (p + i)) (wrap32 (int n)) c collect out))
     (\<lambda>s. if p = 0 then format_string (literal null_text) (int (min (length null_text) maxlen)) c emit s
       else Option.bind (strnlen p maxlen (reader s)) (\<lambda>n. format_string (\<lambda>s i. reader s (p + i)) (wrap32 (int n)) c emit s))"
proof (rule prints_if)
  show "prints emit good (format_string (literal null_text) (int (min (length null_text) maxlen)) c collect)
    (format_string (literal null_text) (int (min (length null_text) maxlen)) c emit)"
    unfolding literal_def[abs_def] by (rule prints_format_string) simp
  have "(\<lambda>i. r (p + i)) \<subseteq>\<^sub>m (\<lambda>i. reader s (p + i))" if "good n s" for n s
    using good_reader[OF that] by (auto simp: map_le_def)
  then show "prints emit good
     (\<lambda>out. Option.bind (strnlen p maxlen r) (\<lambda>n. format_string (\<lambda>_ i. r (p + i)) (wrap32 (int n)) c collect out))
     (\<lambda>s. Option.bind (strnlen p maxlen (reader s)) (\<lambda>n. format_string (\<lambda>s i. reader s (p + i)) (wrap32 (int n)) c emit s))"
    using strnlen_mono[OF _ good_reader] by (intro prints_read prints_format_string) auto
qed

lemma prints_char: "prints emit good (format_string (literal [ch]) 1 c collect) (format_string (literal [ch]) 1 c emit)"
  unfolding literal_def[abs_def] by (rule prints_format_string) simp

text \<open>Every conversion takes its arguments, and then prints.\<close>

lemma prints_convert:
  assumes "convert collect (\<lambda>_. r) ch c args out = Some (out', args')"
  shows "\<exists>t. out' = out @ t \<and> (\<forall>n s. good (length t + n) s \<longrightarrow>
    convert emit reader ch c args s = Option.bind (output_all emit t s) (\<lambda>s. Some (s, args')))"
proof -
  note p = prints_pair[OF prints_all] prints_pair[OF prints_char] prints_pair[OF prints_string]
  consider "ch \<in> {100, 105}" | "ch \<in> {111, 117, 120, 88}" | "ch = 99" | "ch = 115" | "ch = 112"
    | "ch \<in> {102, 101, 69, 103, 71, 110}"
    | "ch \<notin> {100, 105, 111, 117, 120, 88, 99, 115, 112, 102, 101, 69, 103, 71, 110}" by blast
  then show ?thesis
  proof cases
    case 1
    then obtain v args1 out1 where "signed_arg (conv_type c) args = Some (v, args1)"
        "format_integer (nat \<bar>v\<bar>) True (v < 0) base_d c = Some out1"
      using assms by (auto simp: convert_def bind_eq_Some_conv)
    then show ?thesis using 1 assms p(1)[of out1 out args1 out' args'] by (auto simp: convert_def)
  next
    case 2
    then have ch: "ch \<noteq> 100" "ch \<noteq> 105" "ch = 111 \<or> ch = 117 \<or> ch = 120 \<or> ch = 88" by auto
    then obtain v args1 out1 where "unsigned_arg (conv_type c) args = Some (v, args1)"
        "format_integer v False False (base_of ch) c = Some out1"
      using assms by (auto simp: convert_def bind_eq_Some_conv)
    then show ?thesis using ch assms p(1)[of out1 out args1 out' args'] by (simp add: convert_def)
  next
    case 3
    then obtain v args1 where "va_word args = Some (v, args1)"
      using assms by (auto simp: convert_def bind_eq_Some_conv)
    then show ?thesis using 3 assms p(2)[of "ucast v" c out args1 out' args'] by (simp add: convert_def)
  next
    case 4
    then obtain v args1 where "va_word args = Some (v, args1)"
      using assms by (auto simp: convert_def bind_eq_Some_conv)
    then show ?thesis using 4 assms p(3)[of "unat v" _ c out args1 out' args']
      by (simp add: convert_def Let_def unat_eq_0)
  next
    case 5
    then obtain v args1 out1 where "va_word args = Some (v, args1)"
        "format_integer (unat v) False False base_x (no_flags\<lparr>f_pound := True, width := width c, precision := precision c\<rparr>) = Some out1"
      using assms by (auto simp: convert_def bind_eq_Some_conv)
    then show ?thesis using 5 assms p(1)[of out1 out args1 out' args'] by (simp add: convert_def)
  next
    case 6
    then have "ch \<notin> {100, 105, 111, 117, 120, 88, 99, 115, 112}" by auto
    then show ?thesis using 6 assms p(1)[of "kernel_text ch" out args out' args'] by (simp add: convert_def)
  next
    case 7
    then show ?thesis using assms p(1)[of "conversion_text ch" out args out' args'] by (simp add: convert_def)
  qed
qed

text \<open>Printing while the output changes the state prints the same as collecting all the output first.\<close>

theorem vprintf_loop_prints:
  assumes "vprintf_loop collect (\<lambda>_. r) format args out = Some out'"
  shows "\<exists>t. out' = out @ t \<and> (\<forall>n s. good (length t + n) s \<longrightarrow>
    vprintf_loop emit reader format args s = output_all emit t s)"
proof -
  let ?P = "\<lambda>f args out out'. \<exists>t. out' = out @ t \<and>
    (\<forall>n s. good (length t + n) s \<longrightarrow> vprintf_loop emit reader f args s = output_all emit t s)"
  let ?Q = "\<lambda>em (rd :: byte list \<Rightarrow> reader) f args out out'. em = collect \<and> rd = (\<lambda>_. r) \<longrightarrow> ?P f args out out'"
  have "?Q collect (\<lambda>_. r) format args out out'"
  proof (rule vprintf_loop.raw_induct[of ?Q, OF _ assms])
    fix self em rd f args out out'
    assume IH: "\<And>em rd f args out out'. self em rd f args out = Some out' \<Longrightarrow> ?Q em rd f args out out'"
      and s: "Option.bind (rd out f) (\<lambda>ch.
     if ch = 0 then Some out
     else if ch \<noteq> 37 then Option.bind (em ch out) (\<lambda>s. self em rd (f + 1) args s)
     else Option.bind (rd out (f + 1)) (\<lambda>ch.
       if ch = 37 then Option.bind (em 37 out) (\<lambda>s. self em rd (f + 2) args s)
       else Option.bind (parse_conversion (f + 1) args (rd out)) (\<lambda>(f, c, args).
         Option.bind (rd out f) (\<lambda>ch.
         Option.bind (convert em rd ch c args out) (\<lambda>(s, args).
         self em rd (f + 1) args s))))) = Some out'"
    show "?Q em rd f args out out'"
    proof (intro impI, elim conjE)
      assume e: "em = collect" "rd = (\<lambda>_. r)"
      have step: "?P f args out out'"
        if t: "out1 = out @ t1" and p: "?P f1 args1 out1 out'"
          and v: "\<And>n s. good (length t1 + n) s \<Longrightarrow> vprintf_loop emit reader f args s =
            Option.bind (output_all emit t1 s) (vprintf_loop emit reader f1 args1)" for out1 t1 f1 args1
      proof -
        obtain t2 where t2: "out' = out1 @ t2"
            "\<And>n s. good (length t2 + n) s \<Longrightarrow> vprintf_loop emit reader f1 args1 s = output_all emit t2 s"
          using p by blast
        have "vprintf_loop emit reader f args s = output_all emit (t1 @ t2) s" if g: "good (length (t1 @ t2) + n) s" for n s
        proof -
          obtain s1 where "output_all emit t1 s = Some s1" "good (length t2 + n) s1"
            using good_output_all[of t1 "length t2 + n" s] g by (auto simp: add.assoc)
          then show ?thesis using v[of "length t2 + n" s] g t2(2)[of n s1] by (simp add: output_all_append add.assoc)
        qed
        then show ?thesis using t t2(1) by (intro exI[of _ "t1 @ t2"]) simp
      qed
      obtain ch where ch: "r f = Some ch" using s e by (auto simp: bind_eq_Some_conv)
      note rd1 = reader_mono[OF good_reader]
      consider "ch = 0" | "ch \<noteq> 0" "ch \<noteq> 37" | "ch = 37" by blast
      then show "?P f args out out'"
      proof cases
        case 1
        have "out' = out" using s e ch 1 by simp
        then show ?thesis using rd1[OF _ ch] 1 by (intro exI[of _ "[]"]) (simp add: vprintf_loop.simps)
      next
        case 2
        then have "self collect (\<lambda>_. r) (f + 1) args (out @ [ch]) = Some out'" using s e ch by (simp add: collect_def)
        with IH have "?P (f + 1) args (out @ [ch]) out'" by blast
        moreover have "vprintf_loop emit reader f args s =
            Option.bind (output_all emit [ch] s) (vprintf_loop emit reader (f + 1) args)" if g: "good n s" for n s
          using rd1[OF g ch] 2 by (subst vprintf_loop.simps) simp
        ultimately show ?thesis by (rule step[OF refl])
      next
        case 3
        obtain ch2 where ch2: "r (f + 1) = Some ch2" using s e ch 3 by (auto simp: bind_eq_Some_conv)
        show ?thesis
        proof (cases "ch2 = 37")
          case True
          then have "self collect (\<lambda>_. r) (f + 2) args (out @ [37]) = Some out'"
            using s e ch ch2 3 by (simp add: collect_def)
          with IH have "?P (f + 2) args (out @ [37]) out'" by blast
          moreover have "vprintf_loop emit reader f args s =
              Option.bind (output_all emit [37] s) (vprintf_loop emit reader (f + 2) args)" if g: "good n s" for n s
            using rd1[OF g ch] rd1[OF g ch2] 3 True by (subst vprintf_loop.simps) simp
          ultimately show ?thesis by (rule step[OF refl])
        next
          case False
          obtain f1 c args1 ch3 out1 args2 where
            pc: "parse_conversion (f + 1) args r = Some (f1, c, args1)" and ch3: "r f1 = Some ch3"
            and cv: "convert collect (\<lambda>_. r) ch3 c args1 out = Some (out1, args2)"
            and n: "self collect (\<lambda>_. r) (f1 + 1) args2 out1 = Some out'"
            using s e ch ch2 3 False by (auto simp: bind_eq_Some_conv)
          obtain t1 where t1: "out1 = out @ t1" "\<And>n s. good (length t1 + n) s \<Longrightarrow>
              convert emit reader ch3 c args1 s = Option.bind (output_all emit t1 s) (\<lambda>s. Some (s, args2))"
            using prints_convert[OF cv] by blast
          have "vprintf_loop emit reader f args s =
              Option.bind (output_all emit t1 s) (vprintf_loop emit reader (f1 + 1) args2)"
            if g: "good (length t1 + n) s" for n s
            using rd1[OF g ch] rd1[OF g ch2] rd1[OF g ch3] parse_conversion_mono[OF pc good_reader[OF g]] t1(2)[OF g] 3 False
            by (subst vprintf_loop.simps) simp
          moreover have "?P (f1 + 1) args2 out1 out'" using IH[OF n] by blast
          ultimately show ?thesis by (intro step[OF t1(1)])
        qed
      qed
    qed
  qed
  then show ?thesis by simp
qed

corollary printed_output:
  assumes "printed r format args = Some out" and "good (length out) s"
  shows "vprintf_loop emit reader format args s = output_all emit out s"
  using vprintf_loop_prints[of format args "[]" out] assms by (metis add_0_right append_Nil printed_def)

end

section \<open>The buffer of snprintf\<close>

lemma overlay_Cons: "p < length m \<Longrightarrow> overlay (m[p := ch]) (Suc p) src = overlay m p (ch # src)"
  by (simp add: overlay_def take_Suc_conv_app_nth)

lemma overlay_Nil: "overlay m p [] = m"
  by (simp add: overlay_def)

lemma output_all_spec:
  "p \<noteq> 0 \<Longrightarrow> p + nat (mx - l) \<le> length m \<Longrightarrow> 0 \<le> l \<Longrightarrow> l + int (length out) < 2 ^ 31 \<Longrightarrow>
   output_all vsnprintf_helper out (\<lparr>aux_p = p, aux_length = l, max_length = mx\<rparr>, m) =
     Some (\<lparr>aux_p = p + min (length out) (nat (mx - l)), aux_length = l + int (length out), max_length = mx\<rparr>,
       overlay m p (take (nat (mx - l)) out))"
proof (induction out arbitrary: p l m)
  case Nil
  then show ?case by (simp add: overlay_Nil)
next
  case (Cons ch out)
  have w: "wrap32 (l + 1) = l + 1" using Cons.prems(3,4) by (intro wrap32_idI) auto
  show ?case
  proof (cases "l < mx")
    case True
    then have n: "nat (mx - l) = Suc (nat (mx - (l + 1)))" by simp
    have "wr m p ch = Some (m[p := ch])" using Cons.prems(1,2) n by (simp add: wr_def NULL_def)
    moreover have "p + 1 + nat (mx - (l + 1)) \<le> length (m[p := ch])" using Cons.prems(2) n by simp
    ultimately show ?thesis
      using Cons.IH[of "p + 1" "l + 1" "m[p := ch]"] Cons.prems True w n
      by (simp add: vsnprintf_helper_def overlay_Cons)
  next
    case False
    then show ?thesis using Cons.IH[of p "l + 1" m] Cons.prems w
      by (simp add: vsnprintf_helper_def overlay_Nil)
  qed
qed

lemma overlay_snoc: "p + length src < length m \<Longrightarrow> (overlay m p src)[p + length src := b] = overlay m p (src @ [b])"
  by (simp add: overlay_def list_update_append Cons_nth_drop_Suc[symmetric])

text \<open>The reader for everything but a block of memory.\<close>

definition outside :: "addr \<Rightarrow> nat \<Rightarrow> reader \<Rightarrow> reader" where
  "outside p n r q = (if p \<le> q \<and> q < p + n then None else r q)"

text \<open>The state of \<open>vsnprintf_helper\<close> when the memory started as \<open>m0\<close>: the next character goes into the buffer, or
  nowhere when the buffer is full, and all other memory is as it was.\<close>

fun vs_good :: "mem \<Rightarrow> addr \<Rightarrow> nat \<Rightarrow> nat \<Rightarrow> vsnprintf_aux \<times> mem \<Rightarrow> bool" where
  "vs_good m0 buffer k n (aux, m) \<longleftrightarrow>
     outside buffer k (rd m0) \<subseteq>\<^sub>m rd m \<and> buffer \<noteq> NULL \<and> buffer \<le> aux_p aux \<and>
     (aux_length aux < max_length aux \<longrightarrow>
       aux_p aux + nat (max_length aux - aux_length aux) \<le> buffer + k \<and>
       aux_p aux + nat (max_length aux - aux_length aux) \<le> length m) \<and>
     0 \<le> aux_length aux \<and> aux_length aux + int n < 2 ^ 31"

lemma outside_wr: "outside p n r \<subseteq>\<^sub>m rd m \<Longrightarrow> p \<le> q \<Longrightarrow> q < p + n \<Longrightarrow> outside p n r \<subseteq>\<^sub>m rd (m[q := b])"
  by (auto simp: map_le_def outside_def rd_def dom_def split: if_splits)

interpretation vs: printer vsnprintf_helper "rd \<circ> snd" "outside buffer k (rd m0)" "vs_good m0 buffer k"
  for m0 buffer k
proof
  fix n :: nat and s :: "vsnprintf_aux \<times> mem" and ch
  assume g: "vs_good m0 buffer k (Suc n) s"
  obtain aux m where s: "s = (aux, m)" by (cases s)
  have w: "wrap32 (aux_length aux + 1) = aux_length aux + 1" using g s by (intro wrap32_idI) auto
  show "\<exists>s'. vsnprintf_helper ch s = Some s' \<and> vs_good m0 buffer k n s'"
  proof (cases "aux_length aux < max_length aux")
    case True
    then have "wr m (aux_p aux) ch = Some (m[aux_p aux := ch])" "aux_p aux < buffer + k" "buffer \<le> aux_p aux"
      using g s by (auto simp: wr_def NULL_def)
    then show ?thesis using g s True w outside_wr[of buffer k "rd m0" m "aux_p aux" ch]
      by (auto simp: vsnprintf_helper_def)
  qed (use g s w in \<open>auto simp: vsnprintf_helper_def\<close>)
next
  fix n :: nat and s :: "vsnprintf_aux \<times> mem"
  assume "vs_good m0 buffer k n s"
  then show "outside buffer k (rd m0) \<subseteq>\<^sub>m (rd \<circ> snd) s" by (cases s) simp
qed

lemma vsnprintf_stores:
  assumes "printed (outside buffer buf_size (rd m)) format args = Some out" and "length out < 2 ^ 31"
    and "buffer \<noteq> NULL" and "buffer + buf_size \<le> length m" and "buf_size \<le> 2 ^ 31"
  shows "vsnprintf buffer buf_size format args m =
    Some (int (length out), if buf_size = 0 then m else overlay m buffer (take (buf_size - 1) out @ [0]))"
proof -
  let ?mx = "int (buf_size - 1)"
  let ?a = "\<lparr>aux_p = buffer, aux_length = 0, max_length = ?mx\<rparr>"
  have w: "wrap32 (if buf_size > 0 then int buf_size - 1 else 0) = ?mx"
    using assms(5) by (auto simp: of_nat_diff intro!: wrap32_idI)
  have "outside buffer buf_size (rd m) \<subseteq>\<^sub>m rd m" by (auto simp: map_le_def outside_def split: if_splits)
  then have "vs_good m buffer buf_size (length out) (?a, m)" using assms(2-4) by (auto simp: of_nat_diff)
  from vs.printed_output[OF assms(1) this]
  have o: "vprintf_loop vsnprintf_helper (rd \<circ> snd) format args (?a, m) =
    Some (\<lparr>aux_p = buffer + min (length out) (buf_size - 1), aux_length = int (length out), max_length = ?mx\<rparr>,
      overlay m buffer (take (buf_size - 1) out))"
    using output_all_spec[of buffer ?mx 0 m out] assms(2-4) by (simp add: NULL_def)
  show ?thesis
  proof (cases "buf_size = 0")
    case True
    then show ?thesis using o w by (simp add: vsnprintf_def overlay_Nil)
  next
    case False
    let ?t = "take (buf_size - 1) out"
    have l: "buffer + length ?t < length m" using False assms(4) by auto
    then have "wr (overlay m buffer ?t) (buffer + min (length out) (buf_size - 1)) 0 = Some (overlay m buffer (?t @ [0]))"
      using assms(3) overlay_snoc[OF l, of 0] by (simp add: wr_def NULL_def)
    then show ?thesis using o w False by (simp add: vsnprintf_def)
  qed
qed

text \<open>C19: When the format and the arguments print \<open>out\<close> without a look at the bytes of the buffer, and the buffer
  has room for \<open>buf_size\<close> bytes, \<open>vsnprintf\<close>, which stores the characters while it reads the format and the
  strings, stores the first \<open>buf_size - 1\<close> of them and a terminator, changes nothing else, and returns the length of
  all the output; a buffer of size 0 is left alone.\<close>

theorem vsnprintf_truncates:
  assumes "printed (outside buffer buf_size (rd m)) format args = Some out" and "length out < 2 ^ 31"
    and "buffer \<noteq> NULL" and "buffer + buf_size \<le> length m" and "buf_size \<le> 2 ^ 31"
  shows "vsnprintf buffer buf_size format args m =
    Some (int (length out), if buf_size = 0 then m else overlay m buffer (take (buf_size - 1) out @ [0]))"
  using assms by (rule vsnprintf_stores)

theorem vsnprintf_truncates_witness: "vsnprintf 4 2 1 [] [9, 65, 66, 0, 9, 9, 9] = Some (2, [9, 65, 66, 0, 65, 0, 9])"
proof -
  have "printed (outside 4 2 (rd [9, 65, 66, 0, 9, 9, 9])) 1 [] = Some [65, 66]"
    by (simp add: printed_def vprintf_loop.simps collect_def outside_def rd_def NULL_def)
  from vsnprintf_truncates[OF this] show ?thesis by (simp add: NULL_def overlay_def)
qed

text \<open>The condition is needed: with the format \<open>x%s\<close> and the buffer, which holds \<open>ab\<close>, as the string, the first
  character overwrites the \<open>a\<close>, and every further character is read after the one before it was stored there, so that
  the result is \<open>xxx\<close>.\<close>

lemma vsnprintf_overlap:
  "vsnprintf 5 8 1 [5] [9, 120, 37, 115, 0, 97, 98, 0, 9, 9, 9, 9, 9] =
     Some (3, [9, 120, 37, 115, 0, 120, 120, 120, 0, 9, 9, 9, 9])"
  by (simp add: vsnprintf_def vprintf_loop.simps vsnprintf_helper_def rd_def wr_def NULL_def parse_conversion_def parse_flags.simps
    parse_width_def parse_number.simps parse_precision_def parse_type_def isdigit_def no_flags_def convert_def strnlen_def
    strnlen_loop.simps format_string_def upt_rec wrap32_idI int32_def)

section \<open>A format that ends in a percent sign\<close>

text \<open>C20: When the format ends in a single percent sign, \<open>__vprintf\<close> takes the terminator as the conversion
  character and steps over it: whatever the callback, it prints \<open>conversion_text\<close> of that character and goes on
  with what follows the string in memory.\<close>

theorem vprintf_past_terminator:
  assumes "reader s format = Some 37" and "reader s (format + 1) = Some 0"
  shows "vprintf_loop emit reader format args s =
    Option.bind (output_all emit (conversion_text 0) s) (vprintf_loop emit reader (format + 2) args)"
proof -
  have "parse_conversion (format + 1) args (reader s) = Some (format + 1, no_flags, args)"
    using assms(2) by (simp add: parse_conversion_def parse_flags.simps parse_width_def parse_number.simps
      parse_precision_def parse_type_def isdigit_def no_flags_def)
  moreover have "convert emit reader 0 no_flags args s =
      Option.bind (output_all emit (conversion_text 0) s) (\<lambda>s. Some (s, args))" by (simp add: convert_def)
  ultimately show ?thesis using assms by (subst vprintf_loop.simps) simp
qed

theorem vprintf_past_terminator_witness:
  "printed (rd [9, 37, 0, 65, 0]) 1 [] = Some (conversion_text 0 @ [65])"
proof -
  have "vprintf_loop collect (\<lambda>_. rd [9, 37, 0, 65, 0]) (1 + 2) [] (conversion_text 0) = Some (conversion_text 0 @ [65])"
    by (simp add: vprintf_loop.simps rd_def NULL_def collect_def)
  then show ?thesis unfolding printed_def
    by (subst vprintf_past_terminator) (simp_all add: rd_def NULL_def output_all_collect)
qed

section \<open>Decimal numbers\<close>

text \<open>The decimal notation of an integer.\<close>

definition decimal :: "int \<Rightarrow> byte list" where
  "decimal v = (if v < 0 then [45] else []) @
     (if v = 0 then [48] else map (\<lambda>d. word_of_nat (48 + d)) (rev (ndigits 10 (nat \<bar>v\<bar>))))"

lemma ndigits_less: "d \<in> set (ndigits b v) \<Longrightarrow> d < b"
  by (induction b v rule: ndigits.induct) (subst (asm) (2) ndigits.simps, auto split: if_splits)

lemma dec_digit: "d < 10 \<Longrightarrow> dec_digits ! d = word_of_nat (48 + d)"
proof -
  assume "d < 10"
  then have "d \<in> {0, 1, 2, 3, 4, 5, 6, 7, 8, 9}" by auto
  then show ?thesis by (auto simp: dec_digits_def)
qed

lemma dec_digit_value: "d < 10 \<Longrightarrow> sint (word_of_nat (48 + d) :: byte) = 48 + int d"
proof -
  assume "d < 10"
  then have "d \<in> {0, 1, 2, 3, 4, 5, 6, 7, 8, 9}" by auto
  then show ?thesis by auto
qed

lemma ndigits_length: "v < b ^ k \<Longrightarrow> 2 \<le> b \<Longrightarrow> length (ndigits b v) \<le> k"
proof (induction k arbitrary: v)
  case 0
  then show ?case by (simp add: ndigits.simps)
next
  case (Suc k)
  then have "v div b < b ^ k" by (simp add: less_mult_imp_div_less mult.commute)
  then show ?case using Suc by (subst ndigits.simps) auto
qed

lemma format_integer_decimal:
  assumes "\<bar>v\<bar> < 2 ^ 64"
  shows "format_integer (nat \<bar>v\<bar>) True (v < 0) base_d no_flags = Some (decimal v)"
proof -
  let ?n = "nat \<bar>v\<bar>"
  have "nat \<bar>v\<bar> < nat (2 ^ 64)" using assms by (subst nat_less_eq_zless) auto
  then have "?n < base base_d ^ 20" by (simp add: base_d_def)
  then have l: "digit_loop base_d False ?n 0 [] = Some (map ((!) dec_digits) (ndigits 10 ?n))"
    using digit_loop_plain[of ?n base_d 20 "[]" 0] by (simp add: base_d_def)
  have m: "map ((!) dec_digits) (ndigits 10 ?n) = map (\<lambda>d. word_of_nat (48 + d)) (ndigits 10 ?n)"
    using ndigits_less[of _ 10 ?n] by (simp add: dec_digit)
  have e: "ndigits 10 ?n = [] \<longleftrightarrow> v = 0" by (subst ndigits.simps) simp
  let ?buf = "map (\<lambda>d. word_of_nat (48 + d)) (ndigits 10 ?n) :: byte list"
  let ?z = "if ?buf = [] then [48] else ?buf"
  have b: "length ?buf \<le> 20"
    using digit_loop_safe[of ?n base_d 20 "[]" False 0] ndigits_length[of ?n 10 20] \<open>?n < base base_d ^ 20\<close>
    by (simp add: base_d_def)
  then have z: "zero_loop 1 ?buf = Some ?z" by (intro zero_loop_one) simp
  have p: "nat (wrap32 (0 - int (length ?z) - 0 - k)) = 0" if "k = 0 \<or> k = 1" for k
  proof -
    have "wrap32 (0 - int (length ?z) - 0 - k) = 0 - int (length ?z) - 0 - k"
      using that b by (intro wrap32_idI) auto
    then show ?thesis using that by auto
  qed
  have f: "format_integer ?n True (v < 0) base_d no_flags = Some ((if v < 0 then [45] else []) @ rev ?z)"
    using l p[of 0] p[of 1] z unfolding m
    by (simp add: format_integer_def sign_char_def no_flags_def Let_def)
  show ?thesis unfolding f by (simp add: decimal_def e rev_map)
qed

lemma decimal_no_zero: "0 \<notin> set (decimal v)"
proof -
  have "(word_of_nat (48 + d) :: byte) \<noteq> 0" if "d < 10" for d using dec_digit_value[OF that] by auto
  then show ?thesis using ndigits_less[of _ 10] by (auto simp: decimal_def)
qed

text \<open>\<open>atoi\<close> collects the digits into a negative number.\<close>

lemma parse_digits_spec:
  "cstr m p (map (\<lambda>d. word_of_nat (48 + d)) ds) \<Longrightarrow> (\<forall>d\<in>set ds. d < 10) \<Longrightarrow>
   parse_digits a p m = Some (foldl (\<lambda>a d. wrap32 (a * 10 - int d)) a ds)"
proof (induction ds arbitrary: a p)
  case Nil
  then show ?case by (simp add: parse_digits.simps isdigit_def)
next
  case (Cons d ds)
  have v: "sint (word_of_nat (48 + d) :: byte) = 48 + int d" using Cons.prems(2) by (intro dec_digit_value) simp
  have "rd m p = Some (word_of_nat (48 + d))" using Cons.prems(1) by simp
  moreover have "isdigit (word_of_nat (48 + d))" using v Cons.prems(2) unfolding isdigit_def by simp
  ultimately show ?case using Cons.IH[of "p + 1" "wrap32 (a * 10 - int d)"] Cons.prems v
    by (subst parse_digits.simps) (simp del: of_nat_add)
qed

lemma fold_digits: "n \<le> 2 ^ 31 \<Longrightarrow> foldl (\<lambda>a d. wrap32 (a * 10 - int d)) 0 (rev (ndigits 10 n)) = - int n"
proof (induction n rule: less_induct)
  case (less n)
  show ?case
  proof (cases "n = 0")
    case False
    have "n div 10 \<le> 2 ^ 31" using less.prems by (rule order_trans[OF div_le_dividend])
    then have "foldl (\<lambda>a d. wrap32 (a * 10 - int d)) 0 (rev (ndigits 10 (n div 10))) = - int (n div 10)"
      using less.IH False by simp
    moreover have "int (n div 10) * 10 + int (n mod 10) = int n"
      by (metis div_mult_mod_eq of_nat_add of_nat_mult of_nat_numeral)
    then have "- int (n div 10) * 10 - int (n mod 10) = - int n" by linarith
    moreover have "wrap32 (- int n) = - int n" using less.prems by (intro wrap32_idI) auto
    ultimately show ?thesis using False by (subst ndigits.simps) (simp del: of_nat_div of_nat_mod)
  qed (simp add: ndigits.simps)
qed

definition decimal_digits :: "int \<Rightarrow> nat list" where
  "decimal_digits v = (if v = 0 then [0] else rev (ndigits 10 (nat \<bar>v\<bar>)))"

lemma decimal_alt: "decimal v = (if v < 0 then [45] else []) @ map (\<lambda>d. word_of_nat (48 + d)) (decimal_digits v)"
  by (simp add: decimal_def decimal_digits_def)

lemma decimal_digits_less: "\<forall>d\<in>set (decimal_digits v). d < 10"
  using ndigits_less[of _ 10] by (auto simp: decimal_digits_def)

lemma decimal_digits_Cons: "\<exists>d ds. decimal_digits v = d # ds"
proof -
  have "ndigits 10 (nat \<bar>v\<bar>) \<noteq> []" if "v \<noteq> 0" using that by (subst ndigits.simps) simp
  then show ?thesis by (cases "decimal_digits v") (auto simp: decimal_digits_def split: if_splits)
qed

lemma decimal_length: "int32 v \<Longrightarrow> length (decimal v) \<le> 11"
proof -
  assume "int32 v"
  then have "nat \<bar>v\<bar> < 10 ^ 10" by (auto simp: int32_def)
  then show ?thesis using ndigits_length[of "nat \<bar>v\<bar>" 10 10] by (cases "v < 0") (simp_all add: decimal_def)
qed

lemma atoi_decimal:
  assumes s: "cstr m p (decimal v)" and v: "int32 v"
  shows "atoi p m = Some v"
proof -
  obtain d ds where ds: "decimal_digits v = d # ds" using decimal_digits_Cons by blast
  have "nat \<bar>v\<bar> \<le> 2 ^ 31" using v by (auto simp: int32_def)
  then have f: "foldl (\<lambda>a d. wrap32 (a * 10 - int d)) 0 (decimal_digits v) = - \<bar>v\<bar>"
    using fold_digits[of "nat \<bar>v\<bar>"] by (auto simp: decimal_digits_def wrap32_idI)
  note p = cstr_nonnull[OF s]
  show ?thesis
  proof (cases "v < 0")
    case True
    then have "rd m p = Some 45" "cstr m (p + 1) (map (\<lambda>d. word_of_nat (48 + d)) (decimal_digits v))"
      using s by (simp_all add: decimal_alt)
    then show ?thesis using parse_digits_spec[OF _ decimal_digits_less, of m "p + 1" v 0] f True p
      by (simp add: atoi_def skip_space.simps isspace_def NULL_def)
  next
    case False
    then have c: "cstr m p (map (\<lambda>d. word_of_nat (48 + d)) (decimal_digits v))" using s by (simp add: decimal_alt)
    have "d < 10" using decimal_digits_less[of v] ds by simp
    then have "d \<in> {0, 1, 2, 3, 4, 5, 6, 7, 8, 9}" by auto
    then have "\<not> isspace (word_of_nat (48 + d))" "(word_of_nat (48 + d) :: byte) \<notin> {43, 45}"
      by (auto simp: isspace_def)
    moreover have "rd m p = Some (word_of_nat (48 + d))" using c ds by simp
    moreover have "wrap32 v = v" using v by simp
    ultimately show ?thesis using parse_digits_spec[OF c decimal_digits_less, of 0] f False p
      by (simp add: atoi_def skip_space.simps NULL_def)
  qed
qed

lemma cstr_overlay:
  assumes "p \<noteq> 0" "p + length s < length m" "0 \<notin> set s"
  shows "cstr (overlay m p (s @ [0])) p s"
proof -
  have "s ! i \<noteq> 0" if "i < length s" for i using assms(3) nth_mem[OF that] by metis
  then show ?thesis using assms(1,2) by (auto simp: cstr_iff rd_Some nth_overlay nth_append)
qed

lemma printed_d:
  assumes "r format = Some 37" "r (format + 1) = Some 100" "r (format + 2) = Some 0"
  shows "printed r format [a] = Some (decimal (sint a))"
proof -
  have "parse_conversion (format + 1) [a] r = Some (format + 1, no_flags, [a])"
    using assms(2) by (simp add: parse_conversion_def parse_flags.simps parse_width_def parse_number.simps
      parse_precision_def parse_type_def isdigit_def no_flags_def)
  moreover have "\<bar>sint a\<bar> < 2 ^ 64" using sint_ge[of a] sint_less[of a] by simp
  then have "convert collect (\<lambda>_. r) 100 no_flags [a] [] = Some (decimal (sint a), [])"
    using format_integer_decimal[of "sint a"]
    by (simp add: convert_def signed_arg_def no_flags_def output_all_collect)
  moreover have "vprintf_loop collect (\<lambda>_. r) (format + 2) [] out = Some out" for out
    using assms(3) by (simp add: vprintf_loop.simps)
  ultimately show ?thesis using assms unfolding printed_def by (subst vprintf_loop.simps) simp
qed

text \<open>C17: Decimal notation round trip: what \<open>snprintf\<close> writes for \<open>%d\<close> to a buffer of at least 12 bytes,
  apart from the format, \<open>atoi\<close> reads back as the same \<open>int\<close>, for every argument.\<close>

theorem snprintf_atoi:
  assumes "cstr m format [37, 100]" and "format + 3 \<le> buffer \<or> buffer + buf_size \<le> format"
    and "buffer \<noteq> NULL" and "buffer + buf_size \<le> length m" and "12 \<le> buf_size" and "buf_size \<le> 2 ^ 31"
  shows "\<exists>m'. snprintf buffer buf_size format [a] m = Some (int (length (decimal (sint a))), m') \<and>
    atoi buffer m' = Some (sint a)"
proof -
  let ?s = "decimal (sint a)"
  have i: "int32 (sint a)" using sint_ge[of a] sint_less[of a] by (simp add: int32_def)
  let ?m = "overlay m buffer (?s @ [0])"
  have l: "length ?s \<le> 11" by (rule decimal_length[OF i])
  have b: "buffer + length ?s < length m" using assms(4,5) l by simp
  have "rd m format = Some 37" "rd m (format + 1) = Some 100" "rd m (format + 2) = Some 0" using assms(1) by simp_all
  then have "printed (outside buffer buf_size (rd m)) format [a] = Some ?s"
    using assms(2) by (intro printed_d) (auto simp: outside_def)
  from vsnprintf_stores[OF this] have "snprintf buffer buf_size format [a] m = Some (int (length ?s), ?m)"
    using l assms(3-6) by (simp add: snprintf_def)
  moreover have "cstr ?m buffer ?s" using assms(3) b decimal_no_zero by (intro cstr_overlay) (simp_all add: NULL_def)
  ultimately show ?thesis using atoi_decimal[OF _ i] by blast
qed

theorem snprintf_atoi_witness:
  "\<exists>m'. snprintf 4 12 1 [- 326] (9 # 37 # 100 # 0 # replicate 12 9) = Some (int (length (decimal (sint (- 326 :: 32 word)))), m') \<and>
    atoi 4 m' = Some (sint (- 326 :: 32 word))"
  by (rule snprintf_atoi) (simp_all add: rd_def NULL_def)

end
