(* ===== verification/Malloc.thy ===== *)
theory Malloc
  imports Palloc
begin

text \<open>
  \<open>threads/malloc.c\<close>, the same in all projects, on the page allocator. The headers of the arenas and the
  lists of free blocks, which the code keeps inside the pages, have their own fields in the state: a page
  has an entry in \<open>arenas\<close> when it starts with a header whose magic number is right, and a free list is the
  sequence of its blocks. \<open>ram_bytes\<close> holds the contents of the blocks that are in use: a client that writes
  outside its blocks, where the code has its headers and links, is not followed further. The lock of a
  descriptor is held over the operation and is left out.
\<close>

record desc =
  blk_size :: nat
  blocks_per_arena :: nat
  free_list :: "vaddr list"

text \<open>\<open>arena_desc\<close> is the number of the descriptor in \<open>descs\<close>, \<^const>\<open>None\<close> the null pointer of a big block.\<close>

record arena =
  arena_desc :: "nat option"
  free_cnt :: nat

record malloc_state = ram +
  descs :: "desc list"
  arenas :: "vaddr \<Rightarrow> arena option"

definition SIZEOF_ARENA :: nat where "SIZEOF_ARENA = 12"

definition upd_desc :: "nat \<Rightarrow> (desc \<Rightarrow> desc) \<Rightarrow> malloc_state \<Rightarrow> malloc_state" where
  "upd_desc i f st = st\<lparr>descs := (descs st)[i := f (descs st ! i)]\<rparr>"

definition set_arena :: "vaddr \<Rightarrow> arena option \<Rightarrow> malloc_state \<Rightarrow> malloc_state" where
  "set_arena a ar st = st\<lparr>arenas := (arenas st)(a := ar)\<rparr>"

section \<open>Initialisation\<close>

partial_function (option) init_loop :: "nat \<Rightarrow> desc list \<Rightarrow> desc list option" where
  "init_loop bs ds =
     (if bs < PGSIZE div 2
      then Option.bind (ASSERT (length ds + 1 \<le> 10)) (\<lambda>_.
        init_loop (bs * 2) (ds @ [\<lparr>blk_size = bs, blocks_per_arena = (PGSIZE - SIZEOF_ARENA) div bs, free_list = []\<rparr>]))
      else Some ds)"

definition malloc_init :: "malloc_state \<Rightarrow> malloc_state option" where
  "malloc_init st = do { ds \<leftarrow> init_loop 16 (descs st); Some (st\<lparr>descs := ds\<rparr>) }"

section \<open>Blocks and arenas\<close>

definition block_to_arena :: "vaddr \<Rightarrow> malloc_state \<Rightarrow> (vaddr \<times> arena) option" where
  "block_to_arena b st = do {
     let a = pg_round_down b;
     ASSERT (a \<noteq> 0);
     ar \<leftarrow> arenas st a;
     ASSERT (case arena_desc ar of None \<Rightarrow> True
       | Some i \<Rightarrow> unat (pg_ofs b - word_of_nat SIZEOF_ARENA) mod blk_size (descs st ! i) = 0);
     ASSERT (arena_desc ar \<noteq> None \<or> unat (pg_ofs b) = SIZEOF_ARENA);
     Some (a, ar) }"

definition arena_to_block :: "vaddr \<Rightarrow> nat \<Rightarrow> malloc_state \<Rightarrow> vaddr option" where
  "arena_to_block a idx st = do {
     ASSERT (a \<noteq> 0);
     ar \<leftarrow> arenas st a;
     i \<leftarrow> arena_desc ar;
     ASSERT (idx < blocks_per_arena (descs st ! i));
     Some (a + word_of_nat (SIZEOF_ARENA + idx * blk_size (descs st ! i))) }"

section \<open>Allocation\<close>

text \<open>The first descriptor that is large enough, from number \<open>i\<close> on.\<close>

fun find_desc :: "nat \<Rightarrow> nat \<Rightarrow> desc list \<Rightarrow> nat option" where
  "find_desc sz i [] = None"
| "find_desc sz i (d # ds) = (if blk_size d \<ge> sz then Some i else find_desc sz (i + 1) ds)"

text \<open>\<open>list_push_back\<close> of the blocks with the given numbers.\<close>

fun add_blocks :: "nat list \<Rightarrow> vaddr \<Rightarrow> nat \<Rightarrow> malloc_state \<Rightarrow> malloc_state option" where
  "add_blocks [] a i st = Some st"
| "add_blocks (k # ks) a i st = do {
     b \<leftarrow> arena_to_block a k st;
     add_blocks ks a i (upd_desc i (free_list_update (\<lambda>l. l @ [b])) st) }"

text \<open>\<open>False\<close> when there is no page.\<close>

definition new_arena :: "nat \<Rightarrow> malloc_state \<Rightarrow> (bool \<times> malloc_state) option" where
  "new_arena i st = do {
     (a, st) \<leftarrow> palloc_get_page 0 st;
     if a = 0 then Some (False, st)
     else do {
       let n = blocks_per_arena (descs st ! i);
       st \<leftarrow> add_blocks [0..<n] a i (set_arena a (Some \<lparr>arena_desc = Some i, free_cnt = n\<rparr>) st);
       Some (True, st) } }"

text \<open>\<open>list_pop_front\<close> fails on an empty list. An arena with a block in the free list has a count above 0.\<close>

definition take_block :: "nat \<Rightarrow> malloc_state \<Rightarrow> (vaddr \<times> malloc_state) option" where
  "take_block i st = (case free_list (descs st ! i) of [] \<Rightarrow> None
     | b # _ \<Rightarrow> do {
         let st = upd_desc i (free_list_update tl) st;
         (a, ar) \<leftarrow> block_to_arena b st;
         Some (b, set_arena a (Some (ar\<lparr>free_cnt := free_cnt ar - 1\<rparr>)) st) })"

text \<open>Sizes are 32-bit numbers, their sums wrap around.\<close>

definition malloc :: "nat \<Rightarrow> malloc_state \<Rightarrow> (vaddr \<times> malloc_state) option" where
  "malloc sz st = (if sz = 0 then Some (0, st)
     else case find_desc sz 0 (descs st) of
       None \<Rightarrow> do {
         let page_cnt = (sz + SIZEOF_ARENA + PGSIZE - 1) mod 2 ^ 32 div PGSIZE;
         (a, st) \<leftarrow> palloc_get_multiple 0 page_cnt st;
         if a = 0 then Some (0, st)
         else Some (a + word_of_nat SIZEOF_ARENA, set_arena a (Some \<lparr>arena_desc = None, free_cnt = page_cnt\<rparr>) st) }
     | Some i \<Rightarrow> do {
         (ok, st) \<leftarrow> (if free_list (descs st ! i) = [] then new_arena i st else Some (True, st));
         if ok then take_block i st else Some (0, st) })"

definition calloc :: "nat \<Rightarrow> nat \<Rightarrow> malloc_state \<Rightarrow> (vaddr \<times> malloc_state) option" where
  "calloc a b st = (let sz = a * b mod 2 ^ 32
     in if sz < a \<or> sz < b then Some (0, st)
        else do {
          (p, st) \<leftarrow> malloc sz st;
          Some (p, if p \<noteq> 0 then fill p 0 sz st else st) })"

definition mem_block_size :: "vaddr \<Rightarrow> malloc_state \<Rightarrow> nat option" where
  "mem_block_size block st = do {
     (a, ar) \<leftarrow> block_to_arena block st;
     Some (case arena_desc ar of
         Some i \<Rightarrow> blk_size (descs st ! i)
       | None \<Rightarrow> PGSIZE * free_cnt ar - unat (pg_ofs block)) }"

section \<open>Release\<close>

text \<open>\<open>list_remove\<close>: the block must be in the list.\<close>

fun remove_blocks :: "nat list \<Rightarrow> vaddr \<Rightarrow> nat \<Rightarrow> malloc_state \<Rightarrow> malloc_state option" where
  "remove_blocks [] a i st = Some st"
| "remove_blocks (k # ks) a i st = do {
     b \<leftarrow> arena_to_block a k st;
     ASSERT (b \<in> set (free_list (descs st ! i)));
     remove_blocks ks a i (upd_desc i (free_list_update (remove1 b)) st) }"

text \<open>The page allocator fills what it gets back with \<open>0xcc\<close>, so that the header is gone.\<close>

definition free :: "vaddr \<Rightarrow> malloc_state \<Rightarrow> malloc_state option" where
  "free p st = (if p = 0 then Some st
     else do {
       (a, ar) \<leftarrow> block_to_arena p st;
       case arena_desc ar of
         Some i \<Rightarrow> do {
           let n = blocks_per_arena (descs st ! i);
           let st = fill p 0xcc (blk_size (descs st ! i)) st;
           let st = upd_desc i (free_list_update ((#) p)) st;
           let st = set_arena a (Some (ar\<lparr>free_cnt := free_cnt ar + 1\<rparr>)) st;
           if free_cnt ar + 1 \<ge> n
           then do {
             ASSERT (free_cnt ar + 1 = n);
             st \<leftarrow> remove_blocks [0..<n] a i st;
             st \<leftarrow> palloc_free_page a st;
             Some (set_arena a None st) }
           else Some st }
       | None \<Rightarrow> do {
           st \<leftarrow> palloc_free_multiple a (free_cnt ar) st;
           Some (set_arena a None st) } })"

definition realloc :: "vaddr \<Rightarrow> nat \<Rightarrow> malloc_state \<Rightarrow> (vaddr \<times> malloc_state) option" where
  "realloc old_block new_size st =
     (if new_size = 0 then do { st \<leftarrow> free old_block st; Some (0, st) }
      else do {
        (new_block, st) \<leftarrow> malloc new_size st;
        if old_block \<noteq> 0 \<and> new_block \<noteq> 0
        then do {
          old_size \<leftarrow> mem_block_size old_block st;
          let min_size = (if new_size < old_size then new_size else old_size);
          let st = poke new_block (peek st old_block min_size) st;
          st \<leftarrow> free old_block st;
          Some (new_block, st) }
        else Some (new_block, st) })"

end
