(* ===== verification/MallocInv.thy ===== *)
theory MallocInv
  imports Malloc VmProps
begin

text \<open>
  The invariant of the heap of \<open>Malloc\<close>, kept by every operation: the pages of the arenas are apart and in
  use, the blocks of an arena are each either in the free list or in the hands of a client, and an arena
  without such a block does not exist.
\<close>

section \<open>Addresses in a page\<close>

lemma in_page:
  assumes "pg_ofs a = 0" "n < PGSIZE"
  shows "unat (a + word_of_nat n) = unat a + n" "pg_round_down (a + word_of_nat n) = a"
    "unat (pg_ofs (a + word_of_nat n)) = n"
proof -
  have d: "4096 dvd unat a" using assms(1) by (simp add: aligned_dvd PGSIZE_val)
  then obtain k where k: "unat a = 4096 * k" by blast
  have n: "n < 4096" using assms(2) by (simp add: PGSIZE_val)
  have "unat a < 4294967296" by (rule unat32)
  then have "k < 1048576" unfolding k by simp
  then have b: "unat a + n < 2 ^ 32" using k n by simp
  have "a + word_of_nat n = word_of_nat (unat a + n)" by simp
  then show u: "unat (a + word_of_nat n) = unat a + n" using b by (simp only: unat_of_nat) simp
  have m: "(unat a + n) mod 4096 = n" using n unfolding k by simp
  show "unat (pg_ofs (a + word_of_nat n)) = n" unfolding unat_pg_ofs u PGSIZE_val by (rule m)
  show "pg_round_down (a + word_of_nat n) = a"
    by (simp only: word_unat_eq_iff unat_pg_round_down u PGSIZE_val m)
qed

section \<open>The invariant\<close>

definition desc_ok :: "desc \<Rightarrow> bool" where
  "desc_ok d \<longleftrightarrow> 0 < blk_size d \<and> 0 < blocks_per_arena d \<and> SIZEOF_ARENA + blocks_per_arena d * blk_size d \<le> PGSIZE"

definition blk :: "malloc_state \<Rightarrow> vaddr \<Rightarrow> nat \<Rightarrow> nat \<Rightarrow> vaddr" where
  "blk st a i k = a + word_of_nat (SIZEOF_ARENA + k * blk_size (descs st ! i))"

definition blocks_of :: "malloc_state \<Rightarrow> vaddr \<Rightarrow> arena \<Rightarrow> vaddr set" where
  "blocks_of st a ar = (case arena_desc ar of None \<Rightarrow> {a + word_of_nat SIZEOF_ARENA}
     | Some i \<Rightarrow> blk st a i ` {..<blocks_per_arena (descs st ! i)})"

definition pages :: "arena \<Rightarrow> nat" where
  "pages ar = (if arena_desc ar = None then free_cnt ar else 1)"

text \<open>The numbers of its pages in the kernel pool.\<close>

definition page_idx :: "malloc_state \<Rightarrow> vaddr \<Rightarrow> nat" where
  "page_idx st a = unat (pg_no a - pg_no (pool_base (kernel_pool st)))"

definition prange :: "malloc_state \<Rightarrow> vaddr \<Rightarrow> arena \<Rightarrow> nat set" where
  "prange st a ar = {page_idx st a..<page_idx st a + pages ar}"

abbreviation fl :: "malloc_state \<Rightarrow> nat \<Rightarrow> vaddr list" where "fl st i \<equiv> free_list (descs st ! i)"
abbreviation bpa :: "malloc_state \<Rightarrow> nat \<Rightarrow> nat" where "bpa st i \<equiv> blocks_per_arena (descs st ! i)"

text \<open>\<open>L\<close> is the set of the blocks that clients have; the arenas of \<open>E\<close> may be completely free.\<close>

definition arena_ok :: "vaddr set \<Rightarrow> vaddr set \<Rightarrow> malloc_state \<Rightarrow> vaddr \<Rightarrow> arena \<Rightarrow> bool" where
  "arena_ok E L st a ar \<longleftrightarrow> (case arena_desc ar of None \<Rightarrow> a + word_of_nat SIZEOF_ARENA \<in> L
      | Some i \<Rightarrow> i < length (descs st) \<and> (\<forall>b\<in>blocks_of st a ar. b \<in> set (fl st i) \<longleftrightarrow> b \<notin> L) \<and>
          free_cnt ar = card (blocks_of st a ar \<inter> set (fl st i)) \<and> (a \<notin> E \<longrightarrow> free_cnt ar < bpa st i))"

text \<open>\<open>U\<close> are the pages of the kernel pool that others use.\<close>

definition pages_inv :: "nat set \<Rightarrow> malloc_state \<Rightarrow> bool" where
  "pages_inv U st \<longleftrightarrow> ram_ok st \<and>
     (\<forall>a ar. arenas st a = Some ar \<longrightarrow> a = pool_page (kernel_pool st) (page_idx st a) \<and>
        page_idx st a + pages ar \<le> pool_size (kernel_pool st) \<and> 0 < pages ar \<and> prange st a ar \<inter> U = {}) \<and>
     (\<forall>a ar a' ar'. arenas st a = Some ar \<longrightarrow> arenas st a' = Some ar' \<longrightarrow> a \<noteq> a' \<longrightarrow> prange st a ar \<inter> prange st a' ar' = {}) \<and>
     bm_used (used_map (kernel_pool st)) = U \<union> (\<Union>a\<in>dom (arenas st). prange st a (the (arenas st a)))"

definition heap_inv :: "vaddr set \<Rightarrow> nat set \<Rightarrow> vaddr set \<Rightarrow> malloc_state \<Rightarrow> bool" where
  "heap_inv E U L st \<longleftrightarrow> pages_inv U st \<and> (\<forall>i<length (descs st). desc_ok (descs st ! i)) \<and>
     (\<forall>a ar. arenas st a = Some ar \<longrightarrow> arena_ok E L st a ar) \<and>
     (\<forall>i<length (descs st). distinct (fl st i) \<and> (\<forall>b\<in>set (fl st i). \<exists>ar. arenas st (pg_round_down b) = Some ar \<and>
        arena_desc ar = Some i \<and> b \<in> blocks_of st (pg_round_down b) ar)) \<and>
     (\<forall>p\<in>L. \<exists>ar. arenas st (pg_round_down p) = Some ar \<and> p \<in> blocks_of st (pg_round_down p) ar)"

text \<open>The parts of the invariant.\<close>

lemma pi_ram: "pages_inv U st \<Longrightarrow> ram_ok st" by (simp add: pages_inv_def)
lemma pi_page: "pages_inv U st \<Longrightarrow> arenas st a = Some ar \<Longrightarrow> a = pool_page (kernel_pool st) (page_idx st a) \<and>
    page_idx st a + pages ar \<le> pool_size (kernel_pool st) \<and> 0 < pages ar \<and> prange st a ar \<inter> U = {}"
  by (simp add: pages_inv_def)
lemma pi_apart: "pages_inv U st \<Longrightarrow> arenas st a = Some ar \<Longrightarrow> arenas st a' = Some ar' \<Longrightarrow> a \<noteq> a' \<Longrightarrow>
    prange st a ar \<inter> prange st a' ar' = {}"
  by (simp add: pages_inv_def)
lemma pi_used: "pages_inv U st \<Longrightarrow>
    bm_used (used_map (kernel_pool st)) = U \<union> (\<Union>a\<in>dom (arenas st). prange st a (the (arenas st a)))"
  unfolding pages_inv_def by blast
lemma hi_pages: "heap_inv E U L st \<Longrightarrow> pages_inv U st" by (simp add: heap_inv_def)
lemma hi_desc: "heap_inv E U L st \<Longrightarrow> i < length (descs st) \<Longrightarrow> desc_ok (descs st ! i)" by (simp add: heap_inv_def)
lemma hi_arena: "heap_inv E U L st \<Longrightarrow> arenas st a = Some ar \<Longrightarrow> arena_ok E L st a ar" by (simp add: heap_inv_def)
lemma hi_free: "heap_inv E U L st \<Longrightarrow> i < length (descs st) \<Longrightarrow> b \<in> set (fl st i) \<Longrightarrow>
    \<exists>ar. arenas st (pg_round_down b) = Some ar \<and> arena_desc ar = Some i \<and> b \<in> blocks_of st (pg_round_down b) ar"
  by (simp add: heap_inv_def)
lemma hi_distinct: "heap_inv E U L st \<Longrightarrow> i < length (descs st) \<Longrightarrow> distinct (fl st i)" by (simp add: heap_inv_def)
lemma hi_live: "heap_inv E U L st \<Longrightarrow> p \<in> L \<Longrightarrow>
    \<exists>ar. arenas st (pg_round_down p) = Some ar \<and> p \<in> blocks_of st (pg_round_down p) ar"
  by (simp add: heap_inv_def)

section \<open>The pages of the arenas\<close>

lemma page_idx_pool:
  assumes "pool_ok (kernel_pool st)" "j < pool_size (kernel_pool st)"
  shows "page_idx st (pool_page (kernel_pool st) j) = j"
  using pool_index[OF assms] by (simp add: page_idx_def)

text \<open>The invariant depends on the set of used pages, the arenas and their sizes.\<close>

lemma pages_inv_cong:
  assumes "pages_inv U st" "ram_ok st'" "kernel_pool st' = kernel_pool st"
    "\<And>a. map_option pages (arenas st' a) = map_option pages (arenas st a)"
  shows "pages_inv U st'"
proof -
  have i: "page_idx st' = page_idx st" using assms(3) by (simp add: fun_eq_iff page_idx_def)
  have e: "\<exists>ar. arenas st a = Some ar \<and> pages ar = pages ar'" if "arenas st' a = Some ar'" for a ar'
    using assms(4)[of a] that by (cases "arenas st a") auto
  have d: "dom (arenas st') = dom (arenas st)"
    using assms(4) unfolding dom_def by (metis map_option_is_None)
  have p: "prange st' a ar' = prange st a ar" if "pages ar' = pages ar" for a ar ar'
    using that i by (simp add: prange_def)
  have u: "(\<Union>a\<in>dom (arenas st'). prange st' a (the (arenas st' a))) = (\<Union>a\<in>dom (arenas st). prange st a (the (arenas st a)))"
  proof (rule SUP_cong[OF d])
    fix a assume "a \<in> dom (arenas st)"
    then obtain ar' where ar': "arenas st' a = Some ar'" using d by blast
    from e[OF this] obtain ar where "arenas st a = Some ar" "pages ar = pages ar'" by blast
    then show "prange st' a (the (arenas st' a)) = prange st a (the (arenas st a))" using p[of ar' ar a] ar' by simp
  qed
  show ?thesis unfolding pages_inv_def
  proof (intro conjI allI impI)
    fix a ar' assume "arenas st' a = Some ar'"
    from e[OF this] obtain ar where ar: "arenas st a = Some ar" "pages ar' = pages ar" by metis
    note q = pi_page[OF assms(1) ar(1)]
    show "a = pool_page (kernel_pool st') (page_idx st' a)" "page_idx st' a + pages ar' \<le> pool_size (kernel_pool st')"
      "0 < pages ar'" "prange st' a ar' \<inter> U = {}" using q ar(2) p[OF ar(2)] i assms(3) by simp_all
  next
    fix a ar1 a' ar2 assume "arenas st' a = Some ar1" "arenas st' a' = Some ar2" "a \<noteq> a'"
    then show "prange st' a ar1 \<inter> prange st' a' ar2 = {}" using e p pi_apart[OF assms(1)] by metis
  next
    show "bm_used (used_map (kernel_pool st')) = U \<union> (\<Union>a\<in>dom (arenas st'). prange st' a (the (arenas st' a)))"
      using pi_used[OF assms(1)] u assms(3) by simp
  qed (rule assms(2))
qed

lemma heap_fields [simp]:
  "descs (set_pool u b st) = descs st" "arenas (set_pool u b st) = arenas st"
  "descs (fill a c n st) = descs st" "arenas (fill a c n st) = arenas st"
  "descs (poke a bs st) = descs st" "arenas (poke a bs st) = arenas st"
  "kernel_pool (poke a bs st) = kernel_pool st" "user_pool (poke a bs st) = user_pool st"
  "ram_ok (poke a bs st) = ram_ok st"
  by (simp_all add: set_pool_def fill_def poke_def ram_ok_def)

lemma set_arena_simps [simp]:
  "descs (set_arena a v st) = descs st" "arenas (set_arena a v st) = (arenas st)(a := v)"
  "kernel_pool (set_arena a v st) = kernel_pool st" "ram_ok (set_arena a v st) = ram_ok st"
  "user_pool (set_arena a v st) = user_pool st" "ram_bytes (set_arena a v st) = ram_bytes st"
  by (simp_all add: set_arena_def ram_ok_def)

lemma page_idx_base: "pool_base (kernel_pool st') = pool_base (kernel_pool st) \<Longrightarrow> page_idx st' = page_idx st"
  by (simp add: fun_eq_iff page_idx_def)

lemma Union_drop: "m a = Some r \<Longrightarrow> (\<Union>x\<in>dom m. F x (the (m x))) = F a r \<union> (\<Union>x\<in>dom (m(a := None)). F x (the ((m(a := None)) x)))"
proof -
  assume a: "m a = Some r"
  have d: "dom m = insert a (dom (m(a := None)))" using a by auto
  have "(\<Union>x\<in>dom m. F x (the (m x))) = F a r \<union> (\<Union>x\<in>dom (m(a := None)). F x (the (m x)))"
    by (subst d) (simp only: UN_insert a option.sel)
  moreover have "(\<Union>x\<in>dom (m(a := None)). F x (the (m x))) = (\<Union>x\<in>dom (m(a := None)). F x (the ((m(a := None)) x)))"
    by (rule SUP_cong) (auto split: if_splits)
  ultimately show ?thesis by simp
qed

text \<open>A request for pages.\<close>

lemma palloc0:
  assumes "ram_ok st" "0 < n"
  shows "palloc_get_multiple 0 n st = Some (0, st) \<or> (\<exists>j b. let a = pool_page (kernel_pool st) j in
    palloc_get_multiple 0 n st = Some (a, set_pool False b st) \<and> a \<noteq> 0 \<and> ram_ok (set_pool False b st) \<and>
    j + n \<le> pool_size (kernel_pool st) \<and> {j..<j + n} \<inter> bm_used (used_map (kernel_pool st)) = {} \<and>
    bm_upd (used_map (kernel_pool st)) {j..<j + n} True b)"
  using palloc_get_multiple_spec[OF assms, of 0]
  by (fastforce simp: got_pages_def Let_def flag_pool_def)

lemma bm_used_upd:
  assumes "bm_upd b S v b'" "S \<subseteq> {..<bit_cnt b}"
  shows "bm_used b' = (if v then bm_used b \<union> S else bm_used b - S)"
  using assms by (auto simp: bm_upd_def bm_used_def)

lemma pages_add:
  assumes h: "pages_inv U st" and j: "j + n \<le> pool_size (kernel_pool st)" "{j..<j + n} \<inter> bm_used (used_map (kernel_pool st)) = {}"
    and b: "bm_upd (used_map (kernel_pool st)) {j..<j + n} True b" and ok: "ram_ok (set_pool False b st)"
    and a: "a = pool_page (kernel_pool st) j" and n: "pages ar = n" "0 < n"
  shows "arenas st a = None \<and> pages_inv U (set_arena a (Some ar) (set_pool False b st))"
proof -
  let ?st = "set_arena a (Some ar) (set_pool False b st)"
  have p: "pool_ok (kernel_pool st)" using pi_ram[OF h] by (simp add: ram_ok_def)
  have ja: "page_idx st a = j" using page_idx_pool[OF p, of j] j(1) n(2) a by simp
  have k: "kernel_pool ?st = (kernel_pool st)\<lparr>used_map := b\<rparr>" by (simp add: set_arena_def)
  have ix: "page_idx ?st = page_idx st" by (rule page_idx_base) (simp add: k)
  then have pr: "prange ?st = prange st" by (simp add: fun_eq_iff prange_def)
  have sz: "pool_size (kernel_pool ?st) = pool_size (kernel_pool st)" using b by (simp add: k pool_size_def bm_upd_def)
  have ar: "prange st a ar = {j..<j + n}" using ja n(1) by (simp add: prange_def)
  have used: "prange st a' ar' \<subseteq> bm_used (used_map (kernel_pool st))" if "arenas st a' = Some ar'" for a' ar'
    using that unfolding pi_used[OF h] by force
  have U: "U \<subseteq> bm_used (used_map (kernel_pool st))" using pi_used[OF h] by simp
  have none: "arenas st a = None"
  proof (rule ccontr)
    assume "arenas st a \<noteq> None"
    then obtain ar' where ar': "arenas st a = Some ar'" by blast
    then have "j \<in> prange st a ar'" using pi_page[OF h ar'] ja by (simp add: prange_def)
    moreover have "j \<in> {j..<j + n}" using n(2) by simp
    ultimately show False using used[OF ar'] j(2) by blast
  qed
  have un: "(\<Union>a'\<in>dom (arenas ?st). prange ?st a' (the (arenas ?st a'))) =
      {j..<j + n} \<union> (\<Union>a'\<in>dom (arenas st). prange st a' (the (arenas st a')))"
  proof -
    have m: "arenas ?st a = Some ar" by simp
    have e: "(arenas ?st)(a := None) = arenas st" using none by (auto simp: fun_eq_iff)
    show ?thesis unfolding pr using Union_drop[of "arenas ?st" a ar "prange st", OF m, unfolded e ar] .
  qed
  have "bm_used (used_map (kernel_pool ?st)) = bm_used (used_map (kernel_pool st)) \<union> {j..<j + n}"
    using bm_used_upd[OF b] j(1) by (simp add: k pool_size_def subset_eq)
  then have "bm_used (used_map (kernel_pool ?st)) = U \<union> (\<Union>a'\<in>dom (arenas ?st). prange ?st a' (the (arenas ?st a')))"
    by (simp only: un pi_used[OF h] Un_ac)
  moreover have "a1 = pool_page (kernel_pool ?st) (page_idx ?st a1) \<and> page_idx ?st a1 + pages ar1 \<le> pool_size (kernel_pool ?st) \<and>
      0 < pages ar1 \<and> prange ?st a1 ar1 \<inter> U = {}" if "arenas ?st a1 = Some ar1" for a1 ar1
  proof (cases "a1 = a")
    case True
    then have "ar1 = ar" using that by simp
    have "prange st a ar \<inter> U = {}" using ar U j(2) by blast
    then show ?thesis using True \<open>ar1 = ar\<close> a ja j(1) n unfolding ix pr sz by (simp add: k)
  next
    case False
    then have "arenas st a1 = Some ar1" using that by simp
    then show ?thesis using pi_page[OF h] unfolding ix pr sz by (simp add: k)
  qed
  moreover have "prange ?st a1 ar1 \<inter> prange ?st a2 ar2 = {}"
    if "arenas ?st a1 = Some ar1" "arenas ?st a2 = Some ar2" "a1 \<noteq> a2" for a1 ar1 a2 ar2
    using that pi_apart[OF h, of a1 ar1 a2 ar2] used[of a1 ar1] used[of a2 ar2] j(2) ar unfolding pr
    by (cases "a1 = a"; cases "a2 = a") auto
  moreover have "ram_ok ?st" using ok by simp
  ultimately show ?thesis using none unfolding pages_inv_def by blast
qed

text \<open>Giving them back.\<close>

lemma pages_drop:
  assumes h: "pages_inv U st" and a: "arenas st a = Some ar"
  shows "\<exists>b. palloc_free_multiple a (pages ar) st = Some (set_pool False b (fill a 0xcc (PGSIZE * pages ar) st)) \<and>
    pages_inv U (set_arena a None (set_pool False b (fill a 0xcc (PGSIZE * pages ar) st)))"
proof -
  let ?j = "page_idx st a" and ?p = "kernel_pool st" and ?n = "pages ar"
  have pg: "a = pool_page ?p ?j" "?j + ?n \<le> pool_size ?p" "0 < ?n" "prange st a ar \<inter> U = {}"
    using pi_page[OF h a] by auto
  have w: "which_pool False st = ?p" by (simp add: which_pool_def)
  have sub: "{?j..<?j + ?n} \<subseteq> bm_used (used_map ?p)"
    using a unfolding pi_used[OF h] by (force simp: prange_def)
  obtain b where b: "bm_upd (used_map ?p) {?j..<?j + ?n} False b" "ram_ok (set_pool False b st)"
      "palloc_free_multiple a ?n st = Some (set_pool False b (fill a 0xcc (PGSIZE * ?n) st))"
    using palloc_free_multiple_spec[OF pi_ram[OF h] pg(3), of ?j False] pg(1,2) sub by (auto simp: w)
  let ?st = "set_arena a None (set_pool False b (fill a 0xcc (PGSIZE * ?n) st))"
  have k: "kernel_pool ?st = ?p\<lparr>used_map := b\<rparr>" by (simp add: set_arena_def)
  have ix: "page_idx ?st = page_idx st" by (rule page_idx_base) (simp add: k)
  then have pr: "prange ?st = prange st" by (simp add: fun_eq_iff prange_def)
  have sz: "pool_size (kernel_pool ?st) = pool_size ?p" using b(1) by (simp add: k pool_size_def bm_upd_def)
  have us: "bm_used (used_map (kernel_pool ?st)) = bm_used (used_map ?p) - prange st a ar"
    using bm_used_upd[OF b(1)] pg(2) by (simp add: k pool_size_def subset_eq prange_def)
  have un: "(\<Union>a'\<in>dom (arenas st). prange st a' (the (arenas st a'))) =
      prange st a ar \<union> (\<Union>a'\<in>dom (arenas ?st). prange ?st a' (the (arenas ?st a')))"
  proof -
    have e: "(arenas st)(a := None) = arenas ?st" by simp
    show ?thesis unfolding pr using Union_drop[of "arenas st" a ar "prange st", OF a, unfolded e] .
  qed
  have dj: "(\<Union>a'\<in>dom (arenas ?st). prange ?st a' (the (arenas ?st a'))) \<inter> prange st a ar = {}"
  proof -
    have "prange ?st a' (the (arenas ?st a')) \<inter> prange st a ar = {}" if "a' \<in> dom (arenas ?st)" for a'
      using that pi_apart[OF h _ a, of a' "the (arenas st a')"] by (auto simp: pr split: if_splits)
    then show ?thesis by (simp only: Int_UN_distrib2 UN_extend_simps SUP_bot_conv) blast
  qed
  have "(U \<union> (A \<union> B)) - A = U \<union> B" if "B \<inter> A = {}" "A \<inter> U = {}" for A B using that by auto
  from this[OF dj pg(4)] have used: "bm_used (used_map (kernel_pool ?st)) =
      U \<union> (\<Union>a'\<in>dom (arenas ?st). prange ?st a' (the (arenas ?st a')))"
    unfolding us pi_used[OF h] un .
  have old: "arenas st a1 = Some ar1" if "arenas ?st a1 = Some ar1" for a1 ar1
    using that by (simp split: if_splits)
  have "pages_inv U ?st" unfolding pages_inv_def
  proof (intro conjI allI impI)
    fix a1 ar1 assume "arenas ?st a1 = Some ar1"
    note q = pi_page[OF h old[OF this]]
    show "a1 = pool_page (kernel_pool ?st) (page_idx ?st a1)" "page_idx ?st a1 + pages ar1 \<le> pool_size (kernel_pool ?st)"
      "0 < pages ar1" "prange ?st a1 ar1 \<inter> U = {}" using q unfolding ix pr sz by (simp_all add: k)
  next
    fix a1 ar1 a2 ar2 assume "arenas ?st a1 = Some ar1" "arenas ?st a2 = Some ar2" "a1 \<noteq> a2"
    then show "prange ?st a1 ar1 \<inter> prange ?st a2 ar2 = {}" unfolding pr using pi_apart[OF h old old] by blast
  next
    show "ram_ok ?st" using b(2) by simp
  qed (rule used)
  then show ?thesis using b(3) by blast
qed

section \<open>Blocks\<close>

lemma arena_page:
  assumes "pages_inv U st" "arenas st a = Some ar"
  shows "pg_ofs a = 0" "a \<noteq> 0" "unat a + PGSIZE * pages ar \<le> 2 ^ 32"
    "unat a = unat (pool_base (kernel_pool st)) + PGSIZE * page_idx st a"
proof -
  let ?p = "kernel_pool st" and ?j = "page_idx st a"
  have p: "pool_ok ?p" using pi_ram[OF assms(1)] by (simp add: ram_ok_def)
  have a: "a = pool_page ?p ?j" "?j + pages ar \<le> pool_size ?p" "0 < pages ar"
    using pi_page[OF assms] by simp_all
  then have j: "?j < pool_size ?p" by simp
  show "pg_ofs a = 0" "a \<noteq> 0"
    using pool_page_aligned[OF p j] pool_page_nonnull[OF p j] a(1) by simp_all
  show u: "unat a = unat (pool_base ?p) + PGSIZE * ?j" using unat_pool_page[OF p j] a(1) by simp
  have "PGSIZE * (?j + pages ar) \<le> PGSIZE * pool_size ?p" using a(2) by (rule mult_le_mono2)
  then show "unat a + PGSIZE * pages ar \<le> 2 ^ 32"
    using p unfolding u by (simp add: pool_ok_def add_mult_distrib2)
qed

lemma blk_room: "desc_ok d \<Longrightarrow> k < blocks_per_arena d \<Longrightarrow> SIZEOF_ARENA + k * blk_size d + blk_size d \<le> PGSIZE"
proof -
  assume d: "desc_ok d" and k: "k < blocks_per_arena d"
  have "Suc k * blk_size d \<le> blocks_per_arena d * blk_size d" using k by (intro mult_le_mono1) simp
  then show ?thesis using d by (simp add: desc_ok_def)
qed

lemma blk_address:
  assumes "pg_ofs a = 0" "desc_ok (descs st ! i)" "k < bpa st i"
  shows "unat (blk st a i k) = unat a + (SIZEOF_ARENA + k * blk_size (descs st ! i))"
    "pg_round_down (blk st a i k) = a"
    "unat (pg_ofs (blk st a i k)) = SIZEOF_ARENA + k * blk_size (descs st ! i)"
    "unat (pg_ofs (blk st a i k) - word_of_nat SIZEOF_ARENA) = k * blk_size (descs st ! i)"
proof -
  let ?n = "SIZEOF_ARENA + k * blk_size (descs st ! i)"
  have n: "?n < PGSIZE" using blk_room[OF assms(2,3)] assms(2) by (simp add: desc_ok_def)
  show "unat (blk st a i k) = unat a + ?n" "pg_round_down (blk st a i k) = a"
      and o: "unat (pg_ofs (blk st a i k)) = ?n"
    unfolding blk_def by (rule in_page[OF assms(1) n])+
  have s: "unat (word_of_nat SIZEOF_ARENA :: 32 word) = SIZEOF_ARENA" by (simp add: SIZEOF_ARENA_def)
  then have "(word_of_nat SIZEOF_ARENA :: 32 word) \<le> pg_ofs (blk st a i k)" by (simp add: word_le_nat_alt o)
  then show "unat (pg_ofs (blk st a i k) - word_of_nat SIZEOF_ARENA) = k * blk_size (descs st ! i)"
    by (simp add: unat_sub o s)
qed

lemma blk_inj:
  assumes "pg_ofs a = 0" "desc_ok (descs st ! i)"
  shows "inj_on (blk st a i) {..<bpa st i}"
proof (rule inj_onI)
  fix j k assume j: "j \<in> {..<bpa st i}" and k: "k \<in> {..<bpa st i}" and e: "blk st a i j = blk st a i k"
  let ?x = "blk_size (descs st ! i)"
  have "unat a + (SIZEOF_ARENA + j * ?x) = unat a + (SIZEOF_ARENA + k * ?x)"
    using blk_address(1)[OF assms, of j] blk_address(1)[OF assms, of k] j k e by (metis lessThan_iff)
  then have "j * ?x = k * ?x" by (simp only: add_left_cancel)
  moreover have "?x \<noteq> 0" using assms(2) by (simp add: desc_ok_def)
  ultimately show "j = k" by (metis mult_cancel2)
qed

lemma big_address:
  assumes "pg_ofs a = 0"
  shows "unat (a + word_of_nat SIZEOF_ARENA) = unat a + SIZEOF_ARENA"
    "pg_round_down (a + word_of_nat SIZEOF_ARENA) = a" "unat (pg_ofs (a + word_of_nat SIZEOF_ARENA)) = SIZEOF_ARENA"
  using in_page[OF assms, of SIZEOF_ARENA] by (simp_all add: SIZEOF_ARENA_def PGSIZE_val)

lemma block_page:
  assumes "heap_inv E U L st" "arenas st a = Some ar" "b \<in> blocks_of st a ar"
  shows "pg_round_down b = a"
proof -
  note a = arena_page(1)[OF hi_pages[OF assms(1)] assms(2)]
  show ?thesis
  proof (cases "arena_desc ar")
    case None
    then show ?thesis using assms(3) big_address(2)[OF a] by (simp add: blocks_of_def)
  next
    case (Some i)
    then have "i < length (descs st)" using hi_arena[OF assms(1,2)] by (simp add: arena_ok_def)
    then show ?thesis using assms(3) Some blk_address(2)[OF a hi_desc[OF assms(1)]] by (auto simp: blocks_of_def)
  qed
qed

lemma block_to_arena_ok:
  assumes "heap_inv E U L st" "arenas st a = Some ar" "b \<in> blocks_of st a ar"
  shows "block_to_arena b st = Some (a, ar)"
proof -
  note a = arena_page(1,2)[OF hi_pages[OF assms(1)] assms(2)] and r = block_page[OF assms]
  show ?thesis
  proof (cases "arena_desc ar")
    case None
    then show ?thesis
      using assms(2,3) big_address(3)[OF a(1)] a(2) r by (simp add: block_to_arena_def blocks_of_def)
  next
    case (Some i)
    then have i: "i < length (descs st)" using hi_arena[OF assms(1,2)] by (simp add: arena_ok_def)
    obtain k where "b = blk st a i k" "k < bpa st i" using assms(3) Some by (auto simp: blocks_of_def)
    then have "unat (pg_ofs b - word_of_nat SIZEOF_ARENA) mod blk_size (descs st ! i) = 0"
      using blk_address(4)[OF a(1) hi_desc[OF assms(1) i]] by simp
    then show ?thesis using assms(2) a(2) r Some by (simp add: block_to_arena_def)
  qed
qed

section \<open>Taking a block from the free list\<close>

lemma nth_upd_desc: "i < length (descs st) \<Longrightarrow> descs (upd_desc i f st) ! j = (if j = i then f (descs st ! i) else descs st ! j)"
  by (simp add: upd_desc_def nth_list_update)

lemma upd_desc_simps [simp]:
  "length (descs (upd_desc i f st)) = length (descs st)" "arenas (upd_desc i f st) = arenas st"
  "kernel_pool (upd_desc i f st) = kernel_pool st" "ram_ok (upd_desc i f st) = ram_ok st"
  "user_pool (upd_desc i f st) = user_pool st" "ram_bytes (upd_desc i f st) = ram_bytes st"
  by (simp_all add: upd_desc_def ram_ok_def)

lemma blocks_apart:
  assumes "heap_inv E U L st" "arenas st a = Some ar" "arenas st a' = Some ar'" "a \<noteq> a'" "b \<in> blocks_of st a ar"
  shows "b \<notin> blocks_of st a' ar'"
  using block_page[OF assms(1,2,5)] block_page[OF assms(1,3)] assms(4) by blast

text \<open>A change of the free list \<open>i\<close> and of the count of one of its arenas, where \<open>l\<close> and \<open>L'\<close> stay complementary.\<close>

definition moved :: "nat \<Rightarrow> vaddr list \<Rightarrow> vaddr \<Rightarrow> arena \<Rightarrow> malloc_state \<Rightarrow> malloc_state" where
  "moved i l a ar st = set_arena a (Some ar) (upd_desc i (free_list_update (\<lambda>_. l)) st)"

lemma moved_simps [simp]:
  "length (descs (moved i l a ar st)) = length (descs st)" "arenas (moved i l a ar st) = (arenas st)(a := Some ar)"
  "kernel_pool (moved i l a ar st) = kernel_pool st" "ram_ok (moved i l a ar st) = ram_ok st"
  by (simp_all add: moved_def)

lemma nth_moved: "i < length (descs st) \<Longrightarrow>
   descs (moved i l a ar st) ! j = (if j = i then (descs st ! j)\<lparr>free_list := l\<rparr> else descs st ! j)"
  by (simp add: moved_def nth_upd_desc)

lemma moved_same [simp]:
  assumes "i < length (descs st)"
  shows "blk_size (descs (moved i l a ar st) ! j) = blk_size (descs st ! j)" "bpa (moved i l a ar st) j = bpa st j"
    "desc_ok (descs (moved i l a ar st) ! j) = desc_ok (descs st ! j)" "blocks_of (moved i l a ar st) = blocks_of st"
    "page_idx (moved i l a ar st) = page_idx st" "prange (moved i l a ar st) = prange st"
    "fl (moved i l a ar st) j = (if j = i then l else fl st j)"
  using assms by (auto simp: nth_moved desc_ok_def blocks_of_def blk_def fun_eq_iff page_idx_def prange_def
      split: option.splits)

lemma blocks_free_cnt [simp]: "blocks_of st a (ar\<lparr>free_cnt := n\<rparr>) = blocks_of st a ar"
  by (simp add: blocks_of_def)

lemma heap_inv_move:
  assumes h: "heap_inv E U L st" and a: "arenas st a = Some ar" "arena_desc ar = Some i" and E: "E \<subseteq> {a}"
    and l: "distinct l" "\<And>b. b \<notin> blocks_of st a ar \<Longrightarrow> b \<in> set l \<longleftrightarrow> b \<in> set (fl st i)"
    and L: "\<And>b. b \<notin> blocks_of st a ar \<Longrightarrow> b \<in> L' \<longleftrightarrow> b \<in> L"
    and lL: "\<And>b. b \<in> blocks_of st a ar \<Longrightarrow> b \<in> set l \<longleftrightarrow> b \<notin> L'"
    and n: "n = card (blocks_of st a ar \<inter> set l)" and F: "a \<in> F \<or> n < bpa st i"
  shows "heap_inv F U L' (moved i l a (ar\<lparr>free_cnt := n\<rparr>) st)"
proof -
  let ?ar = "ar\<lparr>free_cnt := n\<rparr>"
  let ?st = "moved i l a ?ar st"
  note ok = hi_arena[OF h] and apart = blocks_apart[OF h _ a(1)]
  have i: "i < length (descs st)" using ok[OF a(1)] a(2) by (simp add: arena_ok_def)
  have "arena_ok F L' ?st a' ar'" if ar': "arenas ?st a' = Some ar'" for a' ar'
  proof (cases "a' = a")
    case True
    then have "ar' = ?ar" using ar' by simp
    then show ?thesis using ok[OF a(1)] a(2) i lL n F True by (auto simp: arena_ok_def)
  next
    case False
    then have o: "arenas st a' = Some ar'" using ar' by simp
    have eq: "b \<in> L' \<longleftrightarrow> b \<in> L" "b \<in> set (fl ?st j) \<longleftrightarrow> b \<in> set (fl st j)" if "b \<in> blocks_of st a' ar'" for b j
      using apart[OF o False that] L l(2) i by auto
    then have "blocks_of st a' ar' \<inter> set (fl ?st j) = blocks_of st a' ar' \<inter> set (fl st j)" for j by blast
    then show ?thesis using ok[OF o] E False i eq
      by (cases "arena_desc ar'") (auto simp: arena_ok_def blocks_of_def)
  qed
  moreover have "distinct (fl ?st j) \<and> (\<forall>b\<in>set (fl ?st j). \<exists>ar. arenas ?st (pg_round_down b) = Some ar \<and>
        arena_desc ar = Some j \<and> b \<in> blocks_of ?st (pg_round_down b) ar)" if j: "j < length (descs st)" for j
  proof (intro conjI ballI)
    show "distinct (fl ?st j)" using hi_distinct[OF h j] l(1) i by simp
    fix b assume b: "b \<in> set (fl ?st j)"
    show "\<exists>ar. arenas ?st (pg_round_down b) = Some ar \<and> arena_desc ar = Some j \<and> b \<in> blocks_of ?st (pg_round_down b) ar"
    proof (cases "b \<in> blocks_of st a ar")
      case True
      then have p: "pg_round_down b = a" using block_page[OF h a(1)] by simp
      have "j = i"
      proof (rule ccontr)
        assume "j \<noteq> i"
        then show False using hi_free[OF h j, of b] b i a p by auto
      qed
      then show ?thesis using p True a(2) i by simp
    next
      case False
      then have "b \<in> set (fl st j)" using b i l(2) by (auto split: if_splits)
      then obtain ar' where "arenas st (pg_round_down b) = Some ar'" "arena_desc ar' = Some j"
          "b \<in> blocks_of st (pg_round_down b) ar'" using hi_free[OF h j] by blast
      then show ?thesis using False a(1) i by (cases "pg_round_down b = a") auto
    qed
  qed
  moreover have "\<exists>ar. arenas ?st (pg_round_down p) = Some ar \<and> p \<in> blocks_of ?st (pg_round_down p) ar" if p: "p \<in> L'" for p
  proof (cases "p \<in> blocks_of st a ar")
    case True
    then show ?thesis using block_page[OF h a(1) True] i by simp
  next
    case False
    then have "p \<in> L" using p L by simp
    then obtain ar' where "arenas st (pg_round_down p) = Some ar'" "p \<in> blocks_of st (pg_round_down p) ar'"
      using hi_live[OF h] by blast
    then show ?thesis using False a(1) i by (cases "pg_round_down p = a") auto
  qed
  moreover have "pages_inv U ?st"
    by (rule pages_inv_cong[OF hi_pages[OF h]]) (use a pi_ram[OF hi_pages[OF h]] in \<open>simp_all add: pages_def\<close>)
  ultimately show ?thesis using h i unfolding heap_inv_def by simp
qed

end
