(* ===== verification/MallocOps.thy ===== *)
theory MallocOps
  imports MallocInv
begin

text \<open>What every operation of \<open>Malloc\<close> does to the invariant, to the blocks in use and to their contents.\<close>

section \<open>A new arena\<close>

lemma block_page_raw:
  assumes "pg_ofs a = 0" "\<And>i. arena_desc ar = Some i \<Longrightarrow> desc_ok (descs st ! i)" "b \<in> blocks_of st a ar"
  shows "pg_round_down b = a"
  using assms(3) big_address(2)[OF assms(1)] blk_address(2)[OF assms(1,2)]
  by (auto simp: blocks_of_def split: option.splits)

definition same_shape :: "malloc_state \<Rightarrow> malloc_state \<Rightarrow> bool" where
  "same_shape st st' \<longleftrightarrow> length (descs st') = length (descs st) \<and>
     (\<forall>j. blk_size (descs st' ! j) = blk_size (descs st ! j) \<and> bpa st' j = bpa st j)"

lemma same_shapeD:
  assumes "same_shape st st'"
  shows "length (descs st') = length (descs st)" "blk_size (descs st' ! j) = blk_size (descs st ! j)" "bpa st' j = bpa st j"
    "desc_ok (descs st' ! j) = desc_ok (descs st ! j)" "blocks_of st' = blocks_of st"
  using assms by (auto simp: same_shape_def desc_ok_def blocks_of_def blk_def fun_eq_iff split: option.splits)

lemma heap_inv_add:
  assumes h: "heap_inv {} U L st" and a: "arenas st a = None" "pg_ofs a = 0" "pages_inv U st'" "arenas st' = (arenas st)(a \<mapsto> ar)"
    and sh: "same_shape st st'"
    and f: "\<And>j. fl st' j = fl st j @ (if arena_desc ar = Some j then map (blk st a j) [0..<bpa st j] else [])"
    and i: "\<And>i. arena_desc ar = Some i \<Longrightarrow> i < length (descs st) \<and> free_cnt ar = bpa st i"
    and L: "L' = (if arena_desc ar = None then insert (a + word_of_nat SIZEOF_ARENA) L else L)"
  shows "heap_inv {a} U L' st'"
proof -
  note sh = same_shapeD[OF sh]
  have pg: "pg_round_down b = a" if "b \<in> blocks_of st a ar" for b
    using block_page_raw[OF a(2) _ that] i hi_desc[OF h] by blast
  have nL: "b \<notin> L" if "b \<in> blocks_of st a ar" for b using hi_live[OF h, of b] pg[OF that] a(1) by auto
  have nf: "b \<notin> set (fl st j)" if "b \<in> blocks_of st a ar" "j < length (descs st)" for b j
    using hi_free[OF h that(2), of b] pg[OF that(1)] a(1) by auto
  have new: "set (if arena_desc ar = Some j then map (blk st a j) [0..<bpa st j] else []) =
      (if arena_desc ar = Some j then blocks_of st a ar else {})" for j
    by (auto simp: blocks_of_def)
  have LL: "b \<in> L' \<longleftrightarrow> b \<in> L" if "b \<notin> blocks_of st a ar" for b using that L by (auto simp: blocks_of_def)
  have "arena_ok {a} L' st' a' ar'" if ar': "arenas st' a' = Some ar'" for a' ar'
  proof (cases "a' = a")
    case True
    then have ar: "ar' = ar" using ar' a(4) by simp
    show ?thesis
    proof (cases "arena_desc ar")
      case None
      then show ?thesis using True ar L by (simp add: arena_ok_def)
    next
      case (Some j)
      then have j: "j < length (descs st)" "free_cnt ar = bpa st j" using i by auto
      have s: "set (fl st' j) = set (fl st j) \<union> blocks_of st a ar" using f[of j] new[of j] Some by simp
      then have "blocks_of st a ar \<inter> set (fl st' j) = blk st a j ` {..<bpa st j}"
        using Some by (auto simp: blocks_of_def)
      then have "card (blocks_of st a ar \<inter> set (fl st' j)) = bpa st j"
        using card_image[OF blk_inj[OF a(2) hi_desc[OF h j(1)]]] by simp
      then show ?thesis using True ar Some j s nL L sh by (simp add: arena_ok_def)
    qed
  next
    case False
    then have o: "arenas st a' = Some ar'" using ar' a(4) by simp
    have na: "b \<notin> blocks_of st a ar" if "b \<in> blocks_of st a' ar'" for b
      using block_page[OF h o that] pg[of b] False by blast
    have eq: "b \<in> set (fl st' j) \<longleftrightarrow> b \<in> set (fl st j)" if "b \<in> blocks_of st a' ar'" for b j
      unfolding f set_append new using na[OF that] by auto
    then have "blocks_of st a' ar' \<inter> set (fl st' j) = blocks_of st a' ar' \<inter> set (fl st j)" for j by blast
    then show ?thesis using hi_arena[OF h o] False eq sh LL na
      by (cases "arena_desc ar'") (auto simp: arena_ok_def blocks_of_def)
  qed
  moreover have "distinct (fl st' j) \<and> (\<forall>b\<in>set (fl st' j). \<exists>ar. arenas st' (pg_round_down b) = Some ar \<and>
        arena_desc ar = Some j \<and> b \<in> blocks_of st' (pg_round_down b) ar)" if j: "j < length (descs st)" for j
  proof (intro conjI ballI)
    have "distinct (map (blk st a j) [0..<bpa st j])"
      using blk_inj[OF a(2) hi_desc[OF h j]] by (simp add: distinct_map lessThan_atLeast0)
    then show "distinct (fl st' j)"
      using hi_distinct[OF h j] nf[OF _ j] new[of j] unfolding f distinct_append by auto
    fix b assume "b \<in> set (fl st' j)"
    then consider "b \<in> set (fl st j)" "b \<notin> blocks_of st a ar" | "b \<in> blocks_of st a ar" "arena_desc ar = Some j"
      using nf[OF _ j, of b] unfolding f set_append new by (auto split: if_splits)
    then show "\<exists>ar. arenas st' (pg_round_down b) = Some ar \<and> arena_desc ar = Some j \<and> b \<in> blocks_of st' (pg_round_down b) ar"
    proof cases
      case 1
      then obtain ar' where "arenas st (pg_round_down b) = Some ar'" "arena_desc ar' = Some j"
        "b \<in> blocks_of st (pg_round_down b) ar'" using hi_free[OF h j] by blast
      then show ?thesis using a(1,4) sh(5) by (cases "pg_round_down b = a") auto
    next
      case 2
      then show ?thesis using pg a(4) sh(5) by simp
    qed
  qed
  moreover have "\<exists>ar. arenas st' (pg_round_down p) = Some ar \<and> p \<in> blocks_of st' (pg_round_down p) ar" if p: "p \<in> L'" for p
  proof (cases "p \<in> blocks_of st a ar")
    case True
    then show ?thesis using pg a(4) sh(5) by simp
  next
    case False
    then have "p \<in> L" using p LL by simp
    then obtain ar' where "arenas st (pg_round_down p) = Some ar'" "p \<in> blocks_of st (pg_round_down p) ar'"
      using hi_live[OF h] by blast
    then show ?thesis using a(1,4) sh(5) by (cases "pg_round_down p = a") auto
  qed
  moreover have "\<forall>j<length (descs st'). desc_ok (descs st' ! j)" using hi_desc[OF h] sh by simp
  ultimately show ?thesis using a(3) sh(1) unfolding heap_inv_def by simp
qed

section \<open>An arena that goes\<close>

lemma heap_inv_drop:
  assumes h: "heap_inv E U L st" and a: "arenas st a = Some ar" "pages_inv U st'" "arenas st' = (arenas st)(a := None)"
    and E: "E \<subseteq> {a}" and sh: "same_shape st st'"
    and f: "\<And>j. j < length (descs st) \<Longrightarrow> fl st' j = filter (\<lambda>b. b \<notin> blocks_of st a ar) (fl st j)"
  shows "heap_inv {} U (L - blocks_of st a ar) st'"
proof -
  note sh = same_shapeD[OF sh] and apart = blocks_apart[OF h _ a(1)]
  have "arena_ok {} (L - blocks_of st a ar) st' a' ar'" if "arenas st' a' = Some ar'" for a' ar'
  proof -
    have o: "arenas st a' = Some ar'" and n: "a' \<noteq> a" using that a(3) by (auto split: if_splits)
    have eq: "b \<in> set (fl st' j) \<longleftrightarrow> b \<in> set (fl st j)" "b \<in> L - blocks_of st a ar \<longleftrightarrow> b \<in> L"
      if "b \<in> blocks_of st a' ar'" "j < length (descs st)" for b j
      using apart[OF o n that(1)] f[OF that(2)] by auto
    then have "blocks_of st a' ar' \<inter> set (fl st' j) = blocks_of st a' ar' \<inter> set (fl st j)" if "j < length (descs st)" for j
      using that by blast
    then show ?thesis using hi_arena[OF h o] n eq sh E apart[OF o n]
      by (cases "arena_desc ar'") (auto simp: arena_ok_def blocks_of_def)
  qed
  moreover have "distinct (fl st' j) \<and> (\<forall>b\<in>set (fl st' j). \<exists>ar. arenas st' (pg_round_down b) = Some ar \<and>
        arena_desc ar = Some j \<and> b \<in> blocks_of st' (pg_round_down b) ar)" if j: "j < length (descs st)" for j
  proof (intro conjI ballI)
    show "distinct (fl st' j)" using hi_distinct[OF h j] f[OF j] by simp
    fix b assume "b \<in> set (fl st' j)"
    then have b: "b \<in> set (fl st j)" "b \<notin> blocks_of st a ar" using f[OF j] by auto
    then obtain ar' where "arenas st (pg_round_down b) = Some ar'" "arena_desc ar' = Some j"
        "b \<in> blocks_of st (pg_round_down b) ar'" using hi_free[OF h j] by blast
    then show "\<exists>ar. arenas st' (pg_round_down b) = Some ar \<and> arena_desc ar = Some j \<and> b \<in> blocks_of st' (pg_round_down b) ar"
      using a(1,3) b(2) sh(5) by (cases "pg_round_down b = a") auto
  qed
  moreover have "\<exists>ar. arenas st' (pg_round_down p) = Some ar \<and> p \<in> blocks_of st' (pg_round_down p) ar"
    if h1: "p \<in> L - blocks_of st a ar" for p
  proof -
    obtain ar' where "arenas st (pg_round_down p) = Some ar'" "p \<in> blocks_of st (pg_round_down p) ar'"
      using hi_live[OF h, of p] h1 by blast
    then show ?thesis using a(1,3) h1 sh(5) by (cases "pg_round_down p = a") auto
  qed
  moreover have "\<forall>j<length (descs st'). desc_ok (descs st' ! j)" using hi_desc[OF h] sh by simp
  ultimately show ?thesis using a(2) sh(1) unfolding heap_inv_def by simp
qed

text \<open>The contents of the memory do not matter.\<close>

lemma heap_inv_cong:
  assumes "descs st' = descs st" "arenas st' = arenas st" "kernel_pool st' = kernel_pool st" "ram_ok st' = ram_ok st"
  shows "heap_inv E U L st' = heap_inv E U L st"
proof -
  have "blocks_of st' = blocks_of st" using assms(1) unfolding blocks_of_def blk_def by presburger
  moreover have "page_idx st' = page_idx st" using assms(3) by (simp add: fun_eq_iff page_idx_def)
  moreover from this have "prange st' = prange st" by (simp add: fun_eq_iff prange_def)
  moreover have "arena_ok E L st' a ar = arena_ok E L st a ar" for a ar
    unfolding arena_ok_def using assms(1) calculation(1) by (cases "arena_desc ar") simp_all
  ultimately show ?thesis using assms by (simp add: heap_inv_def pages_inv_def)
qed

lemma heap_inv_fill [simp]: "heap_inv E U L (fill a c n st) = heap_inv E U L st"
  by (rule heap_inv_cong) simp_all

lemma heap_inv_poke [simp]: "heap_inv E U L (poke a bs st) = heap_inv E U L st"
  by (rule heap_inv_cong) simp_all

section \<open>The loops over the blocks of an arena\<close>

lemma upd_desc_comp: "i < length (descs st) \<Longrightarrow> upd_desc i f (upd_desc i g st) = upd_desc i (\<lambda>d. f (g d)) st"
  by (simp add: upd_desc_def)

lemma upd_desc_cong: "f (descs st ! i) = g (descs st ! i) \<Longrightarrow> upd_desc i f st = upd_desc i g st"
  by (simp add: upd_desc_def)

lemma upd_desc_id: "upd_desc i (free_list_update (\<lambda>l. l)) st = st"
proof -
  have "free_list_update (\<lambda>l. l) = (\<lambda>d :: desc. d)" by (simp add: fun_eq_iff)
  then show ?thesis by (cases st) (simp add: upd_desc_def)
qed

lemma nth_upd_list [simp]:
  assumes "i < length (descs st)"
  shows "blk_size (descs (upd_desc i (free_list_update f) st) ! j) = blk_size (descs st ! j)"
    "bpa (upd_desc i (free_list_update f) st) j = bpa st j" "blk (upd_desc i (free_list_update f) st) = blk st"
    "fl (upd_desc i (free_list_update f) st) j = (if j = i then f (fl st i) else fl st j)"
  using assms by (simp_all add: nth_upd_desc blk_def fun_eq_iff)

lemma arena_to_block_eq:
  "arenas st a = Some ar \<Longrightarrow> arena_desc ar = Some i \<Longrightarrow> a \<noteq> 0 \<Longrightarrow> k < bpa st i \<Longrightarrow> arena_to_block a k st = Some (blk st a i k)"
  by (simp add: arena_to_block_def blk_def)

lemma add_blocks_eq:
  "arenas st a = Some ar \<Longrightarrow> arena_desc ar = Some i \<Longrightarrow> a \<noteq> 0 \<Longrightarrow> i < length (descs st) \<Longrightarrow> \<forall>k\<in>set ks. k < bpa st i \<Longrightarrow>
   add_blocks ks a i st = Some (upd_desc i (free_list_update (\<lambda>l. l @ map (blk st a i) ks)) st)"
proof (induction ks arbitrary: st)
  case Nil
  then show ?case by (simp add: upd_desc_id)
next
  case (Cons k ks)
  have b: "arena_to_block a k st = Some (blk st a i k)" using Cons.prems by (intro arena_to_block_eq) auto
  have e: "desc.free_list_update (\<lambda>l. l @ y) (desc.free_list_update (\<lambda>l. l @ x) d) = desc.free_list_update (\<lambda>l. l @ (x @ y)) d"
    for x y and d :: desc by simp
  show ?case using Cons.prems b
    by (simp add: Cons.IH[of "upd_desc i (free_list_update (\<lambda>l. l @ [blk st a i k])) st"] upd_desc_comp e del: append_assoc)
qed

lemma remove_blocks_eq:
  "arenas st a = Some ar \<Longrightarrow> arena_desc ar = Some i \<Longrightarrow> a \<noteq> 0 \<Longrightarrow> i < length (descs st) \<Longrightarrow> \<forall>k\<in>set ks. k < bpa st i \<Longrightarrow>
   distinct (fl st i) \<Longrightarrow> distinct (map (blk st a i) ks) \<Longrightarrow> blk st a i ` set ks \<subseteq> set (fl st i) \<Longrightarrow>
   remove_blocks ks a i st = Some (upd_desc i (free_list_update (filter (\<lambda>b. b \<notin> blk st a i ` set ks))) st)"
proof (induction ks arbitrary: st)
  case Nil
  have "filter (\<lambda>b. True) = (\<lambda>l :: vaddr list. l)" by (simp add: fun_eq_iff)
  then show ?case by (simp add: upd_desc_id)
next
  case (Cons k ks)
  let ?b = "blk st a i k"
  let ?st = "upd_desc i (free_list_update (remove1 ?b)) st"
  have b: "arena_to_block a k st = Some ?b" using Cons.prems by (intro arena_to_block_eq) auto
  have "remove_blocks ks a i ?st = Some (upd_desc i (free_list_update (filter (\<lambda>b. b \<notin> blk st a i ` set ks))) ?st)"
    using Cons.prems by (subst Cons.IH) (auto intro: rev_image_eqI)
  also have "upd_desc i (free_list_update (filter (\<lambda>b. b \<notin> blk st a i ` set ks))) ?st =
      upd_desc i (free_list_update (filter (\<lambda>b. b \<notin> blk st a i ` set (k # ks)))) st"
  proof -
    let ?S = "blk st a i ` set ks"
    have "filter (\<lambda>b. b \<notin> ?S) (remove1 ?b (fl st i)) = filter (\<lambda>b. b \<notin> insert ?b ?S) (fl st i)"
      unfolding distinct_remove1_removeAll[OF Cons.prems(6)] removeAll_filter_not_eq filter_filter
      by (rule filter_cong) auto
    moreover have "f (g (free_list d)) = h (free_list d) \<Longrightarrow> free_list_update f (free_list_update g d) = free_list_update h d"
      for f g h and d :: desc by (cases d) simp
    ultimately show ?thesis using Cons.prems(4) by (simp add: upd_desc_comp) (intro upd_desc_cong, simp)
  qed
  finally show ?case using b Cons.prems(8) by simp
qed

section \<open>Blocks in use\<close>

definition cap :: "malloc_state \<Rightarrow> arena \<Rightarrow> nat" where
  "cap st ar = (case arena_desc ar of Some i \<Rightarrow> blk_size (descs st ! i) | None \<Rightarrow> PGSIZE * free_cnt ar - SIZEOF_ARENA)"

lemma mem_block_size_eq:
  assumes "heap_inv E U L st" "arenas st (pg_round_down p) = Some ar" "p \<in> blocks_of st (pg_round_down p) ar"
  shows "mem_block_size p st = Some (cap st ar)"
proof -
  have "unat (pg_ofs p) = SIZEOF_ARENA" if "arena_desc ar = None"
    using assms(3) that big_address(3)[OF pg_round_down_ofs, of p] by (auto simp: blocks_of_def)
  then show ?thesis
    using block_to_arena_ok[OF assms] by (auto simp: mem_block_size_def cap_def split: option.splits)
qed

lemma mem_block_size_live: "heap_inv E U L st \<Longrightarrow> p \<in> L \<Longrightarrow> \<exists>n. mem_block_size p st = Some n"
  using hi_live mem_block_size_eq by blast

text \<open>The bytes of a block.\<close>

definition span :: "vaddr \<Rightarrow> nat \<Rightarrow> nat set" where "span p n = {unat p..<unat p + n}"

lemma block_span:
  assumes h: "heap_inv E U L st" and a: "arenas st a = Some ar" and p: "p \<in> blocks_of st a ar"
  shows "span p (cap st ar) \<subseteq> {unat a + SIZEOF_ARENA..<unat a + PGSIZE * pages ar}"
proof (cases "arena_desc ar")
  case None
  then have "unat p = unat a + SIZEOF_ARENA" "0 < pages ar"
    using p big_address(1)[OF arena_page(1)[OF hi_pages[OF h] a]] pi_page[OF hi_pages[OF h] a] by (simp_all add: blocks_of_def)
  then show ?thesis using None by (auto simp: span_def cap_def pages_def SIZEOF_ARENA_def PGSIZE_val)
next
  case (Some i)
  then have i: "desc_ok (descs st ! i)" using hi_arena[OF h a] hi_desc[OF h] by (simp add: arena_ok_def)
  obtain k where k: "k < bpa st i" "p = blk st a i k" using p Some by (auto simp: blocks_of_def)
  have "unat p = unat a + (SIZEOF_ARENA + k * blk_size (descs st ! i))"
    using blk_address(1)[OF arena_page(1)[OF hi_pages[OF h] a] i k(1)] k(2) by simp
  then show ?thesis using blk_room[OF i k(1)] Some by (auto simp: span_def cap_def pages_def)
qed

lemma blocks_same_arena:
  assumes h: "heap_inv E U L st" and a: "arenas st a = Some ar" and p: "p \<in> blocks_of st a ar" "q \<in> blocks_of st a ar" "p \<noteq> q"
  shows "span p (cap st ar) \<inter> span q (cap st ar) = {}"
proof (cases "arena_desc ar")
  case (Some i)
  then have i: "desc_ok (descs st ! i)" using hi_arena[OF h a] hi_desc[OF h] by (simp add: arena_ok_def)
  obtain k l where k: "k < bpa st i" "p = blk st a i k" "l < bpa st i" "q = blk st a i l" "k \<noteq> l"
    using p Some by (auto simp: blocks_of_def)
  let ?n = "blk_size (descs st ! i)"
  have u: "unat p = unat a + (SIZEOF_ARENA + k * ?n)" "unat q = unat a + (SIZEOF_ARENA + l * ?n)"
    using blk_address(1)[OF arena_page(1)[OF hi_pages[OF h] a] i] k by simp_all
  have "Suc k * ?n \<le> l * ?n \<or> Suc l * ?n \<le> k * ?n" using k(5) by (metis Suc_leI linorder_neqE_nat mult_le_mono1)
  then show ?thesis using u Some by (auto simp: span_def cap_def)
qed (use p in \<open>simp add: blocks_of_def\<close>)

lemma arenas_apart:
  assumes h: "pages_inv U st" and a: "arenas st a = Some ar" "arenas st a' = Some ar'" "a \<noteq> a'"
  shows "{unat a..<unat a + PGSIZE * pages ar} \<inter> {unat a'..<unat a' + PGSIZE * pages ar'} = {}"
proof -
  let ?i = "page_idx st a" and ?j = "page_idx st a'"
  have "?i + pages ar \<le> ?j \<or> ?j + pages ar' \<le> ?i"
  proof (rule ccontr)
    assume "\<not> ?thesis"
    then have "max ?i ?j \<in> prange st a ar \<inter> prange st a' ar'"
      using pi_page[OF h a(1)] pi_page[OF h a(2)] by (auto simp: prange_def)
    then show False using pi_apart[OF h a] by simp
  qed
  then have "PGSIZE * (?i + pages ar) \<le> PGSIZE * ?j \<or> PGSIZE * (?j + pages ar') \<le> PGSIZE * ?i"
    by (metis mult_le_mono2)
  then show ?thesis using arena_page(4)[OF h a(1)] arena_page(4)[OF h a(2)] by (auto simp: add_mult_distrib2)
qed

lemma live_apart:
  assumes h: "heap_inv E U L st" and p: "p \<in> L" "q \<in> L" "p \<noteq> q"
    and n: "mem_block_size p st = Some n" "mem_block_size q st = Some m"
  shows "span p n \<inter> span q m = {}"
proof -
  obtain ar where a: "arenas st (pg_round_down p) = Some ar" "p \<in> blocks_of st (pg_round_down p) ar" using hi_live[OF h p(1)] by blast
  obtain ar' where a': "arenas st (pg_round_down q) = Some ar'" "q \<in> blocks_of st (pg_round_down q) ar'" using hi_live[OF h p(2)] by blast
  have nm: "n = cap st ar" "m = cap st ar'" using n mem_block_size_eq[OF h a] mem_block_size_eq[OF h a'] by simp_all
  show ?thesis
  proof (cases "pg_round_down p = pg_round_down q")
    case True
    then show ?thesis using blocks_same_arena[OF h a(1) a(2) _ p(3)] a a' nm by simp
  next
    case False
    then show ?thesis
      using arenas_apart[OF hi_pages[OF h] a(1) a'(1)] block_span[OF h a] block_span[OF h a'] nm by fastforce
  qed
qed

section \<open>Allocation\<close>

lemma mem_block_size_alt:
  "mem_block_size p st = (if pg_round_down p = 0 then None
     else case arenas st (pg_round_down p) of None \<Rightarrow> None
     | Some ar \<Rightarrow> (case arena_desc ar of
         None \<Rightarrow> if unat (pg_ofs p) = SIZEOF_ARENA then Some (PGSIZE * free_cnt ar - unat (pg_ofs p)) else None
       | Some i \<Rightarrow> if unat (pg_ofs p - word_of_nat SIZEOF_ARENA) mod blk_size (descs st ! i) = 0
                  then Some (blk_size (descs st ! i)) else None))"
  by (simp add: mem_block_size_def block_to_arena_def Let_def split: option.split)

lemma mem_block_size_cong:
  assumes "\<And>j. blk_size (descs st' ! j) = blk_size (descs st ! j)" "arenas st' (pg_round_down p) = arenas st (pg_round_down p)"
  shows "mem_block_size p st' = mem_block_size p st"
  using assms(2) by (simp add: mem_block_size_alt assms(1) split: option.split)

text \<open>The blocks of \<open>L\<close> keep their sizes and contents.\<close>

definition keeps_blocks :: "vaddr set \<Rightarrow> malloc_state \<Rightarrow> malloc_state \<Rightarrow> bool" where
  "keeps_blocks L st st' \<longleftrightarrow> (\<forall>p\<in>L. mem_block_size p st' = mem_block_size p st \<and>
     (\<forall>n. mem_block_size p st = Some n \<longrightarrow> peek st' p n = peek st p n))"

lemma keeps_blocks_refl: "keeps_blocks L st st"
  by (simp add: keeps_blocks_def)

lemma keeps_blocks_trans: "keeps_blocks L st st1 \<Longrightarrow> keeps_blocks L st1 st2 \<Longrightarrow> keeps_blocks L st st2"
  by (simp add: keeps_blocks_def)

lemma keeps_blocks_mono: "keeps_blocks L st st' \<Longrightarrow> M \<subseteq> L \<Longrightarrow> keeps_blocks M st st'"
  by (auto simp: keeps_blocks_def)

lemma keeps_moved:
  assumes "arenas st a = Some ar" "arena_desc ar = Some i" "i < length (descs st)"
  shows "keeps_blocks L st (moved i l a (ar\<lparr>free_cnt := n\<rparr>) st)"
proof -
  have "ram_bytes (moved i l a (ar\<lparr>free_cnt := n\<rparr>) st) = ram_bytes st" by (simp add: moved_def)
  moreover have "mem_block_size p (moved i l a (ar\<lparr>free_cnt := n\<rparr>) st) = mem_block_size p st" for p
  proof (cases "pg_round_down p = a")
    case True
    then show ?thesis using assms by (simp add: mem_block_size_alt)
  qed (rule mem_block_size_cong, use assms in simp_all)
  ultimately show ?thesis by (simp add: keeps_blocks_def peek_def)
qed

lemma arena_size:
  assumes "heap_inv E U L st" "arenas st a = Some ar" "arena_desc ar = Some i"
  shows "i < length (descs st)" "finite (blocks_of st a ar)" "card (blocks_of st a ar) = bpa st i"
proof -
  show i: "i < length (descs st)" using hi_arena[OF assms(1,2)] assms(3) by (simp add: arena_ok_def)
  show "finite (blocks_of st a ar)" using assms(3) by (simp add: blocks_of_def)
  show "card (blocks_of st a ar) = bpa st i"
    using card_image[OF blk_inj[OF arena_page(1)[OF hi_pages[OF assms(1)] assms(2)] hi_desc[OF assms(1) i]]] assms(3)
    by (simp add: blocks_of_def)
qed

lemma upd_desc_moved: "set_arena a (Some ar) (upd_desc i (free_list_update f) st) = moved i (f (fl st i)) a ar st"
proof -
  have "free_list_update f d = free_list_update (\<lambda>_. f (free_list d)) d" for d :: desc by (cases d) simp
  then have "upd_desc i (free_list_update f) st = upd_desc i (free_list_update (\<lambda>_. f (fl st i))) st"
    by (intro upd_desc_cong)
  then show ?thesis by (simp add: moved_def)
qed

lemma block_to_arena_upd:
  "i < length (descs st) \<Longrightarrow> block_to_arena b (upd_desc i (free_list_update f) st) = block_to_arena b st"
  by (cases "arenas st (pg_round_down b)") (auto simp: block_to_arena_def Let_def split: option.split)

lemma take_block_ok:
  assumes h: "heap_inv E U L st" and i: "i < length (descs st)" "fl st i = b # l" and E: "E \<subseteq> {pg_round_down b}"
  shows "\<exists>st'. take_block i st = Some (b, st') \<and> b \<notin> L \<and> b \<noteq> 0 \<and> heap_inv {} U (insert b L) st' \<and>
    mem_block_size b st' = Some (blk_size (descs st ! i)) \<and> keeps_blocks L st st'"
proof -
  let ?a = "pg_round_down b"
  have bf: "b \<in> set (fl st i)" using i(2) by simp
  obtain ar where a: "arenas st ?a = Some ar" "arena_desc ar = Some i" "b \<in> blocks_of st ?a ar"
    using hi_free[OF h i(1) bf] by blast
  note ok = hi_arena[OF h a(1), unfolded arena_ok_def a(2), simplified] and sz = arena_size[OF h a(1,2)]
  have d: "distinct (b # l)" using hi_distinct[OF h i(1)] i(2) by simp
  have bL: "b \<notin> L" using ok a(3) bf by blast
  let ?B = "blocks_of st ?a ar"
  have c: "?B \<inter> set (fl st i) = insert b (?B \<inter> set l)" using a(3) i(2) by auto
  have n: "free_cnt ar - 1 = card (?B \<inter> set l)" using ok c d sz(2) by simp
  have "?B \<inter> set l \<subset> ?B" using a(3) d by auto
  then have lt: "card (?B \<inter> set l) < bpa st i" using sz(2,3) psubset_card_mono by metis
  let ?st = "moved i l ?a (ar\<lparr>free_cnt := free_cnt ar - 1\<rparr>) st"
  have t: "take_block i st = Some (b, ?st)"
    using i block_to_arena_ok[OF h a(1,3)] upd_desc_moved[of ?a _ i tl st] by (simp add: take_block_def block_to_arena_upd)
  have h': "heap_inv {} U (insert b L) ?st"
    using ok a(3) d i(2) lt bL unfolding n by (intro heap_inv_move[OF h a(1,2) E]) auto
  have "mem_block_size b ?st = Some (blk_size (descs st ! i))"
    using keeps_moved[OF a(1,2) i(1), of "{b}"] mem_block_size_eq[OF h a(1,3)] a(2) by (simp add: keeps_blocks_def cap_def)
  moreover have "b \<noteq> 0" using arena_page(2)[OF hi_pages[OF h] a(1)] by (auto simp: pg_round_down_def)
  ultimately show ?thesis using t bL h' keeps_moved[OF a(1,2) i(1)] by blast
qed

lemma find_desc_Some: "find_desc sz k ds = Some i \<Longrightarrow> k \<le> i \<and> i < k + length ds \<and> sz \<le> blk_size (ds ! (i - k))"
  by (induction sz k ds rule: find_desc.induct) (auto split: if_splits simp: nth_Cons')

text \<open>New arenas and big blocks.\<close>

lemma keeps_new:
  assumes h: "heap_inv E U L st" and a: "arenas st a = None" "arenas st' = (arenas st)(a \<mapsto> ar)"
    and sh: "same_shape st st'" "ram_bytes st' = ram_bytes st"
  shows "keeps_blocks L st st'"
proof -
  have "mem_block_size p st' = mem_block_size p st" if "p \<in> L" for p
  proof -
    have "pg_round_down p \<noteq> a" using hi_live[OF h that] a(1) by auto
    then show ?thesis using a(2) same_shapeD(2)[OF sh(1)] by (intro mem_block_size_cong) auto
  qed
  then show ?thesis using sh(2) by (simp add: keeps_blocks_def peek_def)
qed

lemma set_pool_bytes [simp]: "ram_bytes (set_arena a v (set_pool u b st)) = ram_bytes st"
  by simp

lemma new_arena_ok:
  assumes h: "heap_inv {} U L st" and i: "i < length (descs st)"
  shows "new_arena i st = Some (False, st) \<or> (\<exists>a st'. new_arena i st = Some (True, st') \<and> heap_inv {a} U L st' \<and>
    fl st' i = fl st i @ map (blk st a i) [0..<bpa st i] \<and> pg_ofs a = 0 \<and> same_shape st st' \<and> keeps_blocks L st st')"
proof (cases "palloc_get_multiple 0 1 st = Some (0, st)")
  case True
  then show ?thesis by (simp add: new_arena_def palloc_get_page_def)
next
  case False
  let ?kp = "kernel_pool st"
  obtain j b where g: "palloc_get_multiple 0 1 st = Some (pool_page ?kp j, set_pool False b st)" "pool_page ?kp j \<noteq> 0"
      "ram_ok (set_pool False b st)" "j + 1 \<le> pool_size ?kp" "{j..<j + 1} \<inter> bm_used (used_map ?kp) = {}"
      "bm_upd (used_map ?kp) {j..<j + 1} True b"
    using palloc0[OF pi_ram[OF hi_pages[OF h]], of 1] False unfolding Let_def by auto
  let ?a = "pool_page ?kp j" and ?ar = "\<lparr>arena_desc = Some i, free_cnt = bpa st i\<rparr>"
  let ?st1 = "set_arena ?a (Some ?ar) (set_pool False b st)"
  have p: "arenas st ?a = None" "pages_inv U ?st1"
    using pages_add[OF hi_pages[OF h] g(4,5,6,3) refl, of ?ar] by (simp_all add: pages_def)
  have ofs: "pg_ofs ?a = 0"
    using pool_page_aligned[of ?kp j] pi_ram[OF hi_pages[OF h]] g(4) by (simp add: ram_ok_def)
  have "blk ?st1 = blk st" by (simp add: blk_def fun_eq_iff)
  then have add: "add_blocks [0..<bpa st i] ?a i ?st1 =
      Some (upd_desc i (free_list_update (\<lambda>l. l @ map (blk st ?a i) [0..<bpa st i])) ?st1)" (is "_ = Some ?st2")
    using add_blocks_eq[of ?st1 ?a ?ar i "[0..<bpa st i]"] g(2) i by simp
  have n: "new_arena i st = Some (True, ?st2)"
    using g(1,2) add by (simp add: new_arena_def palloc_get_page_def Let_def)
  have sh: "same_shape st ?st2" using i by (simp add: same_shape_def)
  have "pages_inv U ?st2" using pi_ram[OF p(2)] by (intro pages_inv_cong[OF p(2)]) simp_all
  then have "heap_inv {?a} U L ?st2"
    by (intro heap_inv_add[OF h p(1) ofs _ _ sh, where ar = ?ar]) (use i in simp_all)
  moreover have "keeps_blocks L st ?st2" by (rule keeps_new[OF h p(1) _ sh]) simp_all
  moreover have "fl ?st2 i = fl st i @ map (blk st ?a i) [0..<bpa st i]" using i by simp
  ultimately show ?thesis using n ofs sh by blast
qed

lemma malloc_ok:
  assumes h: "heap_inv {} U L st" and sz: "sz \<le> 2 ^ 32 - SIZEOF_ARENA"
  shows "malloc sz st = Some (0, st) \<or> (\<exists>p st'. malloc sz st = Some (p, st') \<and> p \<notin> L \<and> p \<noteq> 0 \<and>
    heap_inv {} U (insert p L) st' \<and> (\<exists>n\<ge>sz. mem_block_size p st' = Some n) \<and> keeps_blocks L st st')"
proof (cases "find_desc sz 0 (descs st)")
  case (Some i)
  then have i: "i < length (descs st)" "sz \<le> blk_size (descs st ! i)" using find_desc_Some[OF Some] by auto
  have take: "\<exists>p st2. take_block i st1 = Some (p, st2) \<and> p \<notin> L \<and> p \<noteq> 0 \<and> heap_inv {} U (insert p L) st2 \<and>
      (\<exists>n\<ge>sz. mem_block_size p st2 = Some n) \<and> keeps_blocks L st st2"
    if "heap_inv E U L st1" "same_shape st st1" "fl st1 i = b # l" "E \<subseteq> {pg_round_down b}" "keeps_blocks L st st1" for E st1 b l
    using take_block_ok[OF that(1) _ that(3,4)] same_shapeD[OF that(2)] i keeps_blocks_trans[OF that(5)] by fastforce
  show ?thesis
  proof (cases "fl st i")
    case (Cons b l)
    have "same_shape st st" by (simp add: same_shape_def)
    from take[OF h this Cons _ keeps_blocks_refl] show ?thesis using Some Cons by (auto simp: malloc_def)
  next
    case Nil
    from new_arena_ok[OF h i(1)] show ?thesis
    proof (elim disjE exE conjE)
      assume "new_arena i st = Some (False, st)"
      then show ?thesis using Some Nil by (simp add: malloc_def)
    next
      fix a st' assume n: "new_arena i st = Some (True, st')" and h': "heap_inv {a} U L st'"
        and f: "fl st' i = fl st i @ map (blk st a i) [0..<bpa st i]" and a: "pg_ofs a = 0" and sh: "same_shape st st'"
        and k: "keeps_blocks L st st'"
      have d: "desc_ok (descs st ! i)" using hi_desc[OF h i(1)] .
      then have b: "0 < bpa st i" by (simp add: desc_ok_def)
      then have "fl st' i = blk st a i 0 # map (blk st a i) [1..<bpa st i]" using f Nil by (simp add: upt_conv_Cons)
      from take[OF h' sh this _ k] show ?thesis
        using n Some Nil blk_address(2)[OF a d b] by (auto simp: malloc_def)
    qed
  qed
next
  case None
  define n where "n = (sz + SIZEOF_ARENA + PGSIZE - 1) mod 2 ^ 32 div PGSIZE"
  let ?kp = "kernel_pool st"
  have m: "malloc sz st = (if sz = 0 then Some (0, st) else do {
      (a, st) \<leftarrow> palloc_get_multiple 0 n st;
      if a = 0 then Some (0, st)
      else Some (a + word_of_nat SIZEOF_ARENA, set_arena a (Some \<lparr>arena_desc = None, free_cnt = n\<rparr>) st) })"
    by (simp only: malloc_def None option.case Let_def n_def)
  show ?thesis
  proof (cases "sz = 0 \<or> n = 0 \<or> palloc_get_multiple 0 n st = Some (0, st)")
    case True
    then show ?thesis unfolding m by (auto simp: palloc_get_multiple_def)
  next
    case False
    then have n: "0 < n" by simp
    obtain j b where g: "palloc_get_multiple 0 n st = Some (pool_page ?kp j, set_pool False b st)" "pool_page ?kp j \<noteq> 0"
        "ram_ok (set_pool False b st)" "j + n \<le> pool_size ?kp" "{j..<j + n} \<inter> bm_used (used_map ?kp) = {}"
        "bm_upd (used_map ?kp) {j..<j + n} True b"
      using palloc0[OF pi_ram[OF hi_pages[OF h]] n] False unfolding Let_def by auto
    let ?a = "pool_page ?kp j" and ?ar = "\<lparr>arena_desc = None, free_cnt = n\<rparr>"
    let ?st = "set_arena ?a (Some ?ar) (set_pool False b st)" and ?p = "pool_page ?kp j + word_of_nat SIZEOF_ARENA"
    have p: "arenas st ?a = None" "pages_inv U ?st"
      using pages_add[OF hi_pages[OF h] g(4,5,6,3) refl, of ?ar] n by (simp_all add: pages_def)
    have ofs: "pg_ofs ?a = 0"
      using pool_page_aligned[of ?kp j] pi_ram[OF hi_pages[OF h]] g(4) n by (simp add: ram_ok_def)
    have sh: "same_shape st ?st" by (simp add: same_shape_def)
    have rd: "pg_round_down ?p = ?a" by (rule big_address(2)[OF ofs])
    have pL: "?p \<notin> L" using hi_live[OF h, of ?p] p(1) by (auto simp: rd)
    have h1: "heap_inv {?a} U (insert ?p L) ?st"
      by (rule heap_inv_add[OF h p(1) ofs p(2) _ sh, where ar = ?ar]) simp_all
    have "arena_ok {} (insert ?p L) ?st a' ar'" if "arenas ?st a' = Some ar'" for a' ar'
      using hi_arena[OF h1 that] that by (auto simp: arena_ok_def split: option.splits if_splits)
    then have h2: "heap_inv {} U (insert ?p L) ?st" using h1 by (simp add: heap_inv_def)
    have "mem_block_size ?p ?st = Some (PGSIZE * n - SIZEOF_ARENA)"
      using mem_block_size_eq[OF h2, of ?p ?ar] by (simp add: rd blocks_of_def cap_def)
    moreover have "sz \<le> PGSIZE * n - SIZEOF_ARENA"
    proof -
      have nd: "n = (sz + 4107) mod 4294967296 div 4096" by (simp add: n_def SIZEOF_ARENA_def PGSIZE_val add.commute)
      have "sz + 4107 < 4294967296"
      proof (rule ccontr)
        assume c: "\<not> ?thesis"
        then have "(sz + 4107) mod 4294967296 = sz + 4107 - 4294967296"
          using sz by (simp add: SIZEOF_ARENA_def mod_if)
        moreover have "sz + 4107 - 4294967296 < 4096" using sz by (simp add: SIZEOF_ARENA_def)
        ultimately have "n = 0" unfolding nd by simp
        then show False using n by simp
      qed
      then have "n = (sz + 4107) div 4096" unfolding nd by simp
      then show ?thesis by (simp add: SIZEOF_ARENA_def PGSIZE_val)
    qed
    moreover have "?p \<noteq> 0" using rd g(2) by (auto simp: pg_round_down_def)
    moreover have "keeps_blocks L st ?st" by (rule keeps_new[OF h p(1) _ sh]) simp_all
    moreover have "malloc sz st = Some (?p, ?st)" using m False g(1,2) by simp
    ultimately show ?thesis using h2 pL by blast
  qed
qed

section \<open>Contents of blocks\<close>

lemma live_size:
  assumes "heap_inv E U L st" "p \<in> L" "mem_block_size p st = Some n"
  shows "\<exists>ar. arenas st (pg_round_down p) = Some ar \<and> p \<in> blocks_of st (pg_round_down p) ar \<and> n = cap st ar"
  using hi_live[OF assms(1,2)] mem_block_size_eq[OF assms(1)] assms(3) by fastforce

lemma live_bound:
  assumes h: "heap_inv E U L st" and p: "p \<in> L" "mem_block_size p st = Some n"
  shows "unat p + n \<le> 2 ^ 32"
proof -
  obtain ar where ar: "arenas st (pg_round_down p) = Some ar" "p \<in> blocks_of st (pg_round_down p) ar" "n = cap st ar"
    using live_size[OF assms] by blast
  let ?e = "unat (pg_round_down p) + PGSIZE * pages ar"
  have "{unat p..<unat p + n} \<subseteq> {unat (pg_round_down p) + SIZEOF_ARENA..<?e}"
    using block_span[OF h ar(1,2)] ar(3) by (simp add: span_def)
  then have "n = 0 \<or> unat p + n \<le> ?e" by auto
  then show ?thesis using arena_page(3)[OF hi_pages[OF h] ar(1)] unat32[of p] by auto
qed

lemma span_not_in:
  assumes "span p n \<inter> span b m = {}" "unat p + n \<le> 2 ^ 32" "unat b + m \<le> 2 ^ 32" "i < n"
  shows "\<not> unat (p + word_of_nat i - b) < m"
proof -
  let ?x = "p + word_of_nat i"
  have "?x = word_of_nat (unat p + i)" by simp
  then have x: "unat ?x = unat p + i" using assms(2,4) by (simp only: unat_of_nat) simp
  then have "unat ?x \<in> span p n" using assms(4) by (simp add: span_def)
  then have "unat ?x \<notin> span b m" using assms(1) by blast
  then consider "unat ?x < unat b" | "unat b + m \<le> unat ?x" by (fastforce simp: span_def)
  then show ?thesis
  proof cases
    case 1
    have "unat (?x - b) = (4294967296 + unat ?x - unat b)"
      using unat_sub_if_size[of ?x b] 1 by (simp add: word_size)
    then show ?thesis using assms(3) by simp
  next
    case 2
    then have "unat (?x - b) = unat ?x - unat b" by (intro unat_sub) (simp add: word_le_nat_alt)
    then show ?thesis using 2 by simp
  qed
qed

lemma keeps_fill:
  assumes h: "heap_inv E U L st" and M: "M \<subseteq> L" "unat b + m \<le> 2 ^ 32"
    and d: "\<And>q n. q \<in> M \<Longrightarrow> mem_block_size q st = Some n \<Longrightarrow> span q n \<inter> span b m = {}"
  shows "keeps_blocks M st (fill b c m st)"
proof -
  have "peek (fill b c m st) q n = peek st q n" if q: "q \<in> M" "mem_block_size q st = Some n" for q n
    using span_not_in[OF d[OF q] live_bound[OF h _ q(2)] M(2)] M(1) q(1) by (auto simp: peek_def fill_def)
  moreover have "mem_block_size q (fill b c m st) = mem_block_size q st" for q by (rule mem_block_size_cong) simp_all
  ultimately show ?thesis by (simp add: keeps_blocks_def)
qed

lemma keeps_poke:
  assumes h: "heap_inv E U L st" and M: "M \<subseteq> L" "unat b + length bs \<le> 2 ^ 32"
    and d: "\<And>q n. q \<in> M \<Longrightarrow> mem_block_size q st = Some n \<Longrightarrow> span q n \<inter> span b (length bs) = {}"
  shows "keeps_blocks M st (poke b bs st)"
proof -
  have "peek (poke b bs st) q n = peek st q n" if q: "q \<in> M" "mem_block_size q st = Some n" for q n
    using span_not_in[OF d[OF q] live_bound[OF h _ q(2)] M(2)] M(1) q(1) by (auto simp: peek_def poke_def)
  moreover have "mem_block_size q (poke b bs st) = mem_block_size q st" for q by (rule mem_block_size_cong) simp_all
  ultimately show ?thesis by (simp add: keeps_blocks_def)
qed

text \<open>Removing an arena and filling its pages, when none of its blocks is in \<open>M\<close>.\<close>

lemma keeps_drop:
  assumes h: "heap_inv E U L st" and a: "arenas st a = Some ar" and M: "M \<subseteq> L - blocks_of st a ar"
    and st': "arenas st' = (arenas st)(a := None)" "same_shape st st'" "ram_bytes st' = ram_bytes (fill a c (PGSIZE * pages ar) st)"
  shows "keeps_blocks M st st'"
proof -
  have na: "pg_round_down q \<noteq> a" if "q \<in> M" for q
  proof
    assume e: "pg_round_down q = a"
    have "q \<in> L" "q \<notin> blocks_of st a ar" using that M by auto
    then show False using hi_live[OF h \<open>q \<in> L\<close>] e a by auto
  qed
  have "keeps_blocks M st (fill a c (PGSIZE * pages ar) st)"
  proof (rule keeps_fill[OF h])
    show "M \<subseteq> L" using M by blast
    show "unat a + PGSIZE * pages ar \<le> 2 ^ 32" by (rule arena_page(3)[OF hi_pages[OF h] a])
    fix q n assume q: "q \<in> M" "mem_block_size q st = Some n"
    then have "q \<in> L" using M by blast
    from live_size[OF h this q(2)] obtain ar' where ar': "arenas st (pg_round_down q) = Some ar'"
      "q \<in> blocks_of st (pg_round_down q) ar'" "n = cap st ar'" by blast
    show "span q n \<inter> span a (PGSIZE * pages ar) = {}"
      using arenas_apart[OF hi_pages[OF h] ar'(1) a na[OF q(1)]] block_span[OF h ar'(1,2)] ar'(3)
      by (fastforce simp: span_def)
  qed
  moreover have "mem_block_size q st' = mem_block_size q st" if "q \<in> M" for q
    using na[OF that] st'(1) same_shapeD(2)[OF st'(2)] by (intro mem_block_size_cong) auto
  moreover have "peek st' q n = peek (fill a c (PGSIZE * pages ar) st) q n" for q n using st'(3) by (simp add: peek_def)
  ultimately show ?thesis by (simp add: keeps_blocks_def)
qed

section \<open>Release\<close>

lemma free_big_ok:
  assumes h: "heap_inv {} U L st" and a: "arenas st a = Some ar" "arena_desc ar = None" and p: "p \<in> blocks_of st a ar"
  shows "\<exists>st'. free p st = Some st' \<and> heap_inv {} U (L - {p}) st' \<and> keeps_blocks (L - {p}) st st'"
proof -
  have bl: "blocks_of st a ar = {p}" using p a(2) by (simp add: blocks_of_def)
  have n: "pages ar = free_cnt ar" using a(2) by (simp add: pages_def)
  obtain b where b: "palloc_free_multiple a (free_cnt ar) st = Some (set_pool False b (fill a 0xcc (PGSIZE * free_cnt ar) st))"
      "pages_inv U (set_arena a None (set_pool False b (fill a 0xcc (PGSIZE * free_cnt ar) st)))"
    using pages_drop[OF hi_pages[OF h] a(1)] by (auto simp: n)
  let ?st1 = "set_pool False b (fill a 0xcc (PGSIZE * free_cnt ar) st)"
  let ?st = "set_arena a None ?st1"
  have "p \<noteq> 0" using block_page[OF h a(1) p] arena_page(2)[OF hi_pages[OF h] a(1)] by (auto simp: pg_round_down_def)
  then have f: "free p st = Some ?st" using block_to_arena_ok[OF h a(1) p] a(2) b(1) by (simp add: free_def)
  have sh: "same_shape st ?st" by (simp add: same_shape_def)
  have "fl ?st j = filter (\<lambda>b. b \<notin> blocks_of st a ar) (fl st j)" if j: "j < length (descs st)" for j
  proof -
    have "b \<noteq> p" if b: "b \<in> set (fl st j)" for b
    proof
      assume "b = p"
      then show False using hi_free[OF h j b] block_page[OF h a(1) p] a by simp
    qed
    then have "filter (\<lambda>b. b \<notin> blocks_of st a ar) (fl st j) = fl st j" using bl by simp
    then show ?thesis by simp
  qed
  then have "heap_inv {} U (L - {p}) ?st"
    using heap_inv_drop[OF h a(1) b(2) _ _ sh] bl by simp
  moreover have "keeps_blocks (L - {p}) st ?st"
    by (rule keeps_drop[OF h a(1) _ _ sh, where c = "0xcc"]) (simp_all add: bl n)
  ultimately show ?thesis using f by blast
qed

lemma blocks_of_fields:
  "blocks_of (fill x c n st) = blocks_of st" "blocks_of (poke x bs st) = blocks_of st" "blocks_of (set_pool u b st) = blocks_of st"
  by (simp_all add: blocks_of_def blk_def fun_eq_iff split: option.split)

text \<open>A block goes back to the free list; afterwards its arena may be completely free.\<close>

lemma free_push:
  assumes h: "heap_inv {} U L st" and a: "arenas st a = Some ar" "arena_desc ar = Some i" and p: "p \<in> L" "p \<in> blocks_of st a ar"
  defines "st1 \<equiv> fill p 0xcc (blk_size (descs st ! i)) st"
  defines "st2 \<equiv> moved i (p # fl st i) a (ar\<lparr>free_cnt := free_cnt ar + 1\<rparr>) st1"
  shows "heap_inv (if free_cnt ar + 1 < bpa st i then {} else {a}) U (L - {p}) st2" "keeps_blocks (L - {p}) st st2"
    "free_cnt ar + 1 \<le> bpa st i"
    "free_cnt ar + 1 = bpa st i \<Longrightarrow> blocks_of st a ar \<subseteq> set (p # fl st i)"
proof -
  note ok = hi_arena[OF h a(1), unfolded arena_ok_def a(2), simplified] and sz = arena_size[OF h a]
  let ?B = "blocks_of st a ar"
  have h1: "heap_inv {} U L st1" by (simp add: st1_def h)
  have B: "blocks_of st1 = blocks_of st" by (simp add: st1_def blocks_of_fields)
  have f1: "fl st1 i = fl st i" "arenas st1 = arenas st" "descs st1 = descs st" by (simp_all add: st1_def)
  have pf: "p \<notin> set (fl st i)" using ok p by blast
  have "?B \<inter> set (p # fl st i) = insert p (?B \<inter> set (fl st i))" using p(2) by auto
  then have c: "free_cnt ar + 1 = card (?B \<inter> set (p # fl st i))" using ok pf sz(2) by simp
  show le: "free_cnt ar + 1 \<le> bpa st i" unfolding c using sz(2,3) card_mono[of ?B "?B \<inter> set (p # fl st i)"] by auto
  show "free_cnt ar + 1 = bpa st i \<Longrightarrow> ?B \<subseteq> set (p # fl st i)"
    using card_subset_eq[OF sz(2), of "?B \<inter> set (p # fl st i)"] sz(3) c by auto
  show "heap_inv (if free_cnt ar + 1 < bpa st i then {} else {a}) U (L - {p}) st2"
    unfolding st2_def
  proof (rule heap_inv_move[OF h1, where a = a and ar = ar and i = i])
    show "distinct (p # fl st i)" using pf hi_distinct[OF h sz(1)] by simp
    show "b \<in> set (p # fl st i) \<longleftrightarrow> b \<notin> L - {p}" if "b \<in> blocks_of st1 a ar" for b using ok that p by (auto simp: B)
    show "free_cnt ar + 1 = card (blocks_of st1 a ar \<inter> set (p # fl st i))" unfolding B by (rule c)
  qed (use a f1 p B in auto)
  have s: "mem_block_size p st = Some (blk_size (descs st ! i))"
    using mem_block_size_eq[OF h, of p ar] block_page[OF h a(1) p(2)] a p(2) by (simp add: cap_def)
  have "keeps_blocks (L - {p}) st st1"
    unfolding st1_def using live_apart[OF h _ p(1) _ _ s] live_bound[OF h p(1) s] by (intro keeps_fill[OF h]) auto
  moreover have "keeps_blocks (L - {p}) st1 st2"
    unfolding st2_def using a f1 sz(1) by (intro keeps_moved) auto
  ultimately show "keeps_blocks (L - {p}) st st2" by (rule keeps_blocks_trans)
qed

text \<open>The page of an arena without blocks in use goes back to the page allocator.\<close>

lemma drop_arena_ok:
  assumes h: "heap_inv {a} U L st" and a: "arenas st a = Some ar" "arena_desc ar = Some i" and B: "blocks_of st a ar \<subseteq> set (fl st i)"
  shows "\<exists>st1 st2. remove_blocks [0..<bpa st i] a i st = Some st1 \<and> palloc_free_page a st1 = Some st2 \<and>
    heap_inv {} U L (set_arena a None st2) \<and> keeps_blocks L st (set_arena a None st2)"
proof -
  note sz = arena_size[OF h a] and pg = arena_page[OF hi_pages[OF h] a(1)]
  have bl: "blocks_of st a ar = blk st a i ` set [0..<bpa st i]" using a(2) by (simp add: blocks_of_def lessThan_atLeast0)
  let ?st1 = "upd_desc i (free_list_update (filter (\<lambda>b. b \<notin> blk st a i ` set [0..<bpa st i]))) st"
  have inj: "inj_on (blk st a i) (set [0..<bpa st i])"
    using blk_inj[OF pg(1) hi_desc[OF h sz(1)]] by (simp add: lessThan_atLeast0)
  have r: "remove_blocks [0..<bpa st i] a i st = Some ?st1"
    using B bl inj by (intro remove_blocks_eq[OF a pg(2) sz(1)]) (auto simp: distinct_map intro: hi_distinct[OF h sz(1)])
  have p1: "pages_inv U ?st1" by (rule pages_inv_cong[OF hi_pages[OF h]]) (simp_all add: pi_ram[OF hi_pages[OF h]])
  have n: "pages ar = 1" using a(2) by (simp add: pages_def)
  obtain b where b: "palloc_free_multiple a 1 ?st1 = Some (set_pool False b (fill a 0xcc (PGSIZE * 1) ?st1))"
      "pages_inv U (set_arena a None (set_pool False b (fill a 0xcc (PGSIZE * 1) ?st1)))"
    using pages_drop[OF p1, of a ar] a(1) n by auto
  let ?st2 = "set_pool False b (fill a 0xcc (PGSIZE * 1) ?st1)"
  let ?st = "set_arena a None ?st2"
  have sh: "same_shape st ?st" using sz(1) by (simp add: same_shape_def)
  have L: "L - blocks_of st a ar = L" using hi_arena[OF h a(1)] a(2) B by (auto simp: arena_ok_def)
  have "fl ?st j = filter (\<lambda>b. b \<notin> blocks_of st a ar) (fl st j)" if j: "j < length (descs st)" for j
  proof (cases "j = i")
    case True
    then show ?thesis using sz(1) bl by simp
  next
    case False
    have "b \<notin> blocks_of st a ar" if b: "b \<in> set (fl st j)" for b
      using hi_free[OF h j b] block_page[OF h a(1), of b] a False by auto
    then have "filter (\<lambda>b. b \<notin> blocks_of st a ar) (fl st j) = fl st j" by (simp add: filter_id_conv)
    then show ?thesis using False sz(1) by simp
  qed
  then have "heap_inv {} U L ?st" using heap_inv_drop[OF h a(1) b(2) _ _ sh] L by simp
  moreover have "keeps_blocks L st ?st"
    by (rule keeps_drop[OF h a(1) _ _ sh, where c = "0xcc"]) (simp_all add: L n fill_def cong: if_cong)
  ultimately show ?thesis using r b(1) unfolding palloc_free_page_def by blast
qed

lemma free_ok:
  assumes h: "heap_inv {} U L st" and p: "p \<in> L"
  shows "\<exists>st'. free p st = Some st' \<and> heap_inv {} U (L - {p}) st' \<and> keeps_blocks (L - {p}) st st'"
proof -
  let ?a = "pg_round_down p"
  obtain ar where a: "arenas st ?a = Some ar" "p \<in> blocks_of st ?a ar" using hi_live[OF h p] by blast
  show ?thesis
  proof (cases "arena_desc ar")
    case None
    then show ?thesis using free_big_ok[OF h a(1) _ a(2)] by simp
  next
    case (Some i)
    let ?st1 = "fill p 0xcc (blk_size (descs st ! i)) st"
    let ?ar = "ar\<lparr>free_cnt := free_cnt ar + 1\<rparr>"
    let ?st2 = "moved i (p # fl st i) ?a ?ar ?st1"
    note u = free_push[OF h a(1) Some p a(2)]
    have i: "i < length (descs st)" using arena_size(1)[OF h a(1) Some] .
    have p0: "p \<noteq> 0" using arena_page(2)[OF hi_pages[OF h] a(1)] by (auto simp: pg_round_down_def)
    have s2: "set_arena ?a (Some ?ar) (upd_desc i (free_list_update ((#) p)) ?st1) = ?st2"
      using upd_desc_moved[of ?a ?ar i "(#) p" ?st1] by simp
    have f: "free p st = (if free_cnt ar + 1 \<ge> bpa st i then do {
        ASSERT (free_cnt ar + 1 = bpa st i);
        st \<leftarrow> remove_blocks [0..<bpa st i] ?a i ?st2;
        st \<leftarrow> palloc_free_page ?a st;
        Some (set_arena ?a None st) } else Some ?st2)"
      using p0 block_to_arena_ok[OF h a] Some s2 by (simp add: free_def Let_def)
    show ?thesis
    proof (cases "free_cnt ar + 1 < bpa st i")
      case True
      then show ?thesis using f u(1,2) by simp
    next
      case False
      then have n: "free_cnt ar + 1 = bpa st i" using u(3) by simp
      have h2: "heap_inv {?a} U (L - {p}) ?st2" using u(1) False by simp
      have ar2: "arenas ?st2 ?a = Some ?ar" "arena_desc ?ar = Some i" using Some by simp_all
      have "blocks_of ?st2 ?a ?ar \<subseteq> set (fl ?st2 i)"
        using u(4)[OF n] i by (simp add: blocks_of_fields)
      from drop_arena_ok[OF h2 ar2 this] obtain st3 st4 where
        d: "remove_blocks [0..<bpa ?st2 i] ?a i ?st2 = Some st3" "palloc_free_page ?a st3 = Some st4"
        "heap_inv {} U (L - {p}) (set_arena ?a None st4)" "keeps_blocks (L - {p}) ?st2 (set_arena ?a None st4)" by blast
      have "bpa ?st2 i = bpa st i" using i by simp
      then show ?thesis using f n d keeps_blocks_trans[OF u(2) d(4)] by auto
    qed
  qed
qed

end
