(* ===== verification/MallocProps.thy ===== *)
theory MallocProps
  imports MallocOps
begin

text \<open>The property of \<open>Malloc\<close>: for its clients, the heap is a collection of independent arrays of bytes.\<close>

section \<open>Clients\<close>

text \<open>What clients do; blocks are named by their places in the list of the blocks that they have.\<close>

datatype heap_op = Malloc nat | Calloc nat nat | Realloc nat nat | Free nat | Store nat nat "byte list"

type_synonym blocks = "(vaddr \<times> byte list) list"

definition without :: "nat \<Rightarrow> 'a list \<Rightarrow> 'a list" where
  "without k xs = take k xs @ drop (Suc k) xs"

text \<open>The list holds with each block what its bytes should be. A fresh block has some contents; a block from
  \<open>calloc\<close> has zeros, one from \<open>realloc\<close> begins like the old one.\<close>

fun heap_step :: "heap_op \<Rightarrow> malloc_state \<times> blocks \<Rightarrow> (malloc_state \<times> blocks) option" where
  "heap_step (Malloc sz) (st, bl) = do {
     (p, st) \<leftarrow> malloc sz st;
     Some (st, if p = 0 then bl else (p, peek st p sz) # bl) }"
| "heap_step (Calloc a b) (st, bl) = do {
     (p, st) \<leftarrow> calloc a b st;
     Some (st, if p = 0 then bl else (p, replicate (a * b) 0) # bl) }"
| "heap_step (Realloc k sz) (st, bl) = (if k < length bl then do {
     let bs = snd (bl ! k);
     (p, st) \<leftarrow> realloc (fst (bl ! k)) sz st;
     Some (st, if sz = 0 then without k bl
       else if p = 0 then bl
       else (p, take sz bs @ drop (length bs) (peek st p sz)) # without k bl) }
   else Some (st, bl))"
| "heap_step (Free k) (st, bl) = (if k < length bl then do {
     st \<leftarrow> free (fst (bl ! k)) st;
     Some (st, without k bl) }
   else Some (st, bl))"
| "heap_step (Store k ofs bs) (st, bl) =
     (if k < length bl \<and> ofs + length bs \<le> length (snd (bl ! k))
      then Some (poke (fst (bl ! k) + word_of_nat ofs) bs st, bl[k := (fst (bl ! k), overlay (snd (bl ! k)) ofs bs)])
      else Some (st, bl))"

primrec heap_run :: "heap_op list \<Rightarrow> malloc_state \<times> blocks \<Rightarrow> (malloc_state \<times> blocks) option" where
  "heap_run [] s = Some s"
| "heap_run (x # xs) s = Option.bind (heap_step x s) (heap_run xs)"

text \<open>Sizes near the upper end wrap around in \<open>malloc\<close>. The arguments of \<open>calloc\<close> may have any product up to there,
  and any product that its test for an overflow catches. (It does not catch 65537 and 65599, whose block is too small.)\<close>

fun op_size_ok :: "heap_op \<Rightarrow> bool" where
  "op_size_ok (Malloc sz) \<longleftrightarrow> sz \<le> 2 ^ 32 - SIZEOF_ARENA"
| "op_size_ok (Calloc a b) \<longleftrightarrow> a * b \<le> 2 ^ 32 - SIZEOF_ARENA \<or> a * b mod 2 ^ 32 < a \<or> a * b mod 2 ^ 32 < b"
| "op_size_ok (Realloc k sz) \<longleftrightarrow> sz \<le> 2 ^ 32 - SIZEOF_ARENA"
| "op_size_ok _ \<longleftrightarrow> True"

section \<open>Bytes\<close>

lemma length_peek [simp]: "length (peek st p n) = n"
  by (simp add: peek_def)

lemma peek_take: "m \<le> n \<Longrightarrow> take m (peek st p n) = peek st p m"
  by (simp add: peek_def take_map min_def)

lemma keeps_peek:
  assumes "keeps_blocks L st st'" "p \<in> L" "mem_block_size p st = Some n" "m \<le> n"
  shows "peek st' p m = peek st p m" "mem_block_size p st' = Some n"
proof -
  show "mem_block_size p st' = Some n" using assms by (simp add: keeps_blocks_def)
  have "peek st' p n = peek st p n" using assms by (simp add: keeps_blocks_def)
  then show "peek st' p m = peek st p m" using peek_take[OF assms(4)] by metis
qed

lemma peek_fill_self: "n \<le> 2 ^ 32 \<Longrightarrow> peek (fill p c n st) p n = replicate n c"
proof -
  assume n: "n \<le> 2 ^ 32"
  have "unat (word_of_nat i :: 32 word) = i" if "i < n" for i using that n by (simp add: unat_of_nat)
  then show ?thesis by (simp add: peek_def fill_def list_eq_iff_nth_eq)
qed

lemma peek_poke:
  assumes "unat p + n \<le> 2 ^ 32" "ofs + length bs \<le> n"
  shows "peek (poke (p + word_of_nat ofs) bs st) p n = overlay (peek st p n) ofs bs"
proof (rule nth_equalityI)
  show l: "length (peek (poke (p + word_of_nat ofs) bs st) p n) = length (overlay (peek st p n) ofs bs)"
    using assms(2) by simp
  fix i assume "i < length (peek (poke (p + word_of_nat ofs) bs st) p n)"
  then have i: "i < n" by simp
  let ?x = "p + word_of_nat i - (p + word_of_nat ofs)"
  have u: "unat (word_of_nat j :: 32 word) = j" if "j < n" for j
    using that assms(1) by (simp add: unat_of_nat)
  have "?x = word_of_nat i - word_of_nat ofs" by simp
  also have "\<dots> = (if ofs \<le> i then word_of_nat (i - ofs) else - word_of_nat (ofs - i))" by (auto simp: of_nat_diff)
  finally have x: "?x = (if ofs \<le> i then word_of_nat (i - ofs) else - word_of_nat (ofs - i))" .
  have "unat ?x < length bs \<longleftrightarrow> ofs \<le> i \<and> i < ofs + length bs"
  proof (cases "ofs \<le> i")
    case True
    then have "unat ?x = i - ofs" using u[of "i - ofs"] i x by simp
    then show ?thesis using True by auto
  next
    case False
    show ?thesis
    proof (cases "bs = []")
      case ne: False
      then have "ofs < n" using assms(2) by (cases bs) auto
      then have d: "unat (word_of_nat (ofs - i) :: 32 word) = ofs - i" using u[of "ofs - i"] by simp
      then have "unat (- (word_of_nat (ofs - i) :: 32 word)) = 2 ^ 32 - (ofs - i)"
        using False unat_sub_if_size[of 0 "word_of_nat (ofs - i) :: 32 word"] by (simp add: word_size)
      then show ?thesis using False x assms by simp
    qed simp
  qed
  moreover have "unat ?x = i - ofs" if "ofs \<le> i" using that u[of "i - ofs"] i x by simp
  ultimately show "peek (poke (p + word_of_nat ofs) bs st) p n ! i = overlay (peek st p n) ofs bs ! i"
    using i assms(2) by (simp add: peek_def poke_def nth_overlay)
qed

section \<open>One operation\<close>

definition heap_view :: "nat set \<Rightarrow> malloc_state \<times> blocks \<Rightarrow> bool" where
  "heap_view U s \<longleftrightarrow> (case s of (st, bl) \<Rightarrow> heap_inv {} U (fst ` set bl) st \<and> distinct (map fst bl) \<and>
     (\<forall>(p, bs)\<in>set bl. peek st p (length bs) = bs \<and> (\<exists>n\<ge>length bs. mem_block_size p st = Some n)))"

lemma heap_viewD:
  assumes "heap_view U (st, bl)" "(p, bs) \<in> set bl"
  shows "peek st p (length bs) = bs" "\<exists>n\<ge>length bs. mem_block_size p st = Some n" "p \<in> fst ` set bl"
  using assms by (force simp: heap_view_def)+

lemma heap_view_keeps:
  assumes v: "heap_view U (st, bl)" and k: "keeps_blocks (fst ` set bl') st st'" and s: "set bl' \<subseteq> set bl"
    and x: "(p, bs) \<in> set bl'"
  shows "peek st' p (length bs) = bs \<and> (\<exists>n\<ge>length bs. mem_block_size p st' = Some n)"
proof -
  have x': "(p, bs) \<in> set bl" "p \<in> fst ` set bl'" using x s by force+
  obtain n where n: "n \<ge> length bs" "mem_block_size p st = Some n" using heap_viewD(2)[OF v x'(1)] by blast
  show ?thesis using keeps_peek[OF k x'(2) n(2,1)] heap_viewD(1)[OF v x'(1)] n by auto
qed

text \<open>Other blocks stay, one block more.\<close>

lemma heap_view_new:
  assumes v: "heap_view U (st, bl)" and s: "set bl' \<subseteq> set bl" "distinct (map fst bl')"
    and h: "heap_inv {} U (insert p (fst ` set bl')) st'" and p: "p \<notin> fst ` set bl'"
    and k: "keeps_blocks (fst ` set bl') st st'" and n: "mem_block_size p st' = Some n" "length bs \<le> n"
    and bs: "peek st' p (length bs) = bs"
  shows "heap_view U (st', (p, bs) # bl')"
  using heap_view_keeps[OF v k s(1)] h s(2) p n bs by (auto simp: heap_view_def)

lemma heap_view_less:
  assumes v: "heap_view U (st, bl)" and s: "set bl' \<subseteq> set bl" "distinct (map fst bl')"
    and h: "heap_inv {} U (fst ` set bl') st'" and k: "keeps_blocks (fst ` set bl') st st'"
  shows "heap_view U (st', bl')"
  using heap_view_keeps[OF v k s(1)] h s(2) by (auto simp: heap_view_def)

lemma set_without:
  assumes "distinct (map fst xs)" "k < length xs"
  shows "fst ` set (without k xs) = fst ` set xs - {fst (xs ! k)}" "set (without k xs) \<subseteq> set xs"
    "distinct (map fst (without k xs))"
proof -
  have e: "xs = take k xs @ xs ! k # drop (Suc k) xs" using assms(2) by (rule id_take_nth_drop)
  have d: "distinct (map fst (take k xs @ xs ! k # drop (Suc k) xs))" using assms(1) e by metis
  have "fst ` set xs = fst ` set (take k xs @ xs ! k # drop (Suc k) xs)" using e by metis
  then have "fst ` set xs = insert (fst (xs ! k)) (fst ` set (without k xs))" by (simp add: without_def image_Un)
  moreover have "fst (xs ! k) \<notin> fst ` set (without k xs)" using d by (simp add: without_def image_Un)
  ultimately show "fst ` set (without k xs) = fst ` set xs - {fst (xs ! k)}" by simp
  show "distinct (map fst (without k xs))" using d by (auto simp: without_def)
  show "set (without k xs) \<subseteq> set xs" by (auto simp: without_def dest: in_set_takeD in_set_dropD)
qed

lemma malloc_step:
  assumes v: "heap_view U (st, bl)" and sz: "sz \<le> 2 ^ 32 - SIZEOF_ARENA"
  shows "malloc sz st = Some (0, st) \<or> (\<exists>p st' n. malloc sz st = Some (p, st') \<and> p \<noteq> 0 \<and> p \<notin> fst ` set bl \<and>
    heap_inv {} U (insert p (fst ` set bl)) st' \<and> mem_block_size p st' = Some n \<and> sz \<le> n \<and> keeps_blocks (fst ` set bl) st st')"
  using malloc_ok[OF _ sz] v unfolding heap_view_def by blast

lemma calloc_step:
  assumes v: "heap_view U (st, bl)" and ok: "op_size_ok (Calloc a b)"
  shows "\<exists>s'. heap_step (Calloc a b) (st, bl) = Some s' \<and> heap_view U s'"
proof -
  let ?n = "a * b mod 2 ^ 32"
  consider "?n < a \<or> ?n < b \<or> malloc ?n st = Some (0, st)"
    | p st1 n where "\<not> (?n < a \<or> ?n < b)" "malloc ?n st = Some (p, st1)" "p \<noteq> 0" "p \<notin> fst ` set bl"
      "heap_inv {} U (insert p (fst ` set bl)) st1" "mem_block_size p st1 = Some n" "?n \<le> n" "keeps_blocks (fst ` set bl) st st1"
  proof (cases "?n < a \<or> ?n < b")
    case False
    then have "?n \<le> 2 ^ 32 - SIZEOF_ARENA" using ok by (auto simp: SIZEOF_ARENA_def)
    from malloc_step[OF v this] show ?thesis using that False by blast
  qed (use that(1) in blast)
  then show ?thesis
  proof cases
    case 1
    then show ?thesis using v by (auto simp: calloc_def Let_def)
  next
    case 2
    note h1 = 2(5) and sp = live_bound[OF 2(5) insertI1 2(6)]
    let ?st = "fill p 0 ?n st1"
    have "keeps_blocks (fst ` set bl) st1 ?st"
    proof (rule keeps_fill[OF h1])
      show "unat p + ?n \<le> 2 ^ 32" using sp 2(7) by simp
      fix q m assume q: "q \<in> fst ` set bl" "mem_block_size q st1 = Some m"
      then have "span q m \<inter> span p n = {}" using live_apart[OF h1 _ _ _ q(2) 2(6)] 2(4) by blast
      then show "span q m \<inter> span p ?n = {}" using 2(7) by (fastforce simp: span_def)
    qed blast
    from keeps_blocks_trans[OF 2(8) this] have k: "keeps_blocks (fst ` set bl) st ?st" .
    have "mem_block_size p ?st = Some n" using mem_block_size_cong[of ?st st1 p] 2(6) by simp
    moreover have "peek ?st p ?n = replicate ?n 0" using sp 2(7) by (intro peek_fill_self) simp
    ultimately have "heap_view U (?st, (p, replicate ?n 0) # bl)"
      using v h1 2(4,7) k by (intro heap_view_new[OF v]) (auto simp: heap_view_def)
    moreover have "calloc a b st = Some (p, ?st)" using 2(1-3) by (simp add: calloc_def Let_def)
    moreover have "a * b = ?n" using ok 2(1) by (auto simp: SIZEOF_ARENA_def)
    ultimately show ?thesis using 2(3) by simp
  qed
qed

lemma realloc_step:
  assumes v: "heap_view U (st, bl)" and sz: "sz \<le> 2 ^ 32 - SIZEOF_ARENA" and k: "k < length bl"
  shows "\<exists>s'. heap_step (Realloc k sz) (st, bl) = Some s' \<and> heap_view U s'"
proof -
  obtain p bs where pb: "bl ! k = (p, bs)" by fastforce
  have d: "distinct (map fst bl)" and h: "heap_inv {} U (fst ` set bl) st" using v by (auto simp: heap_view_def)
  have mem: "(p, bs) \<in> set bl" using nth_mem[OF k] pb by simp
  note w = set_without[OF d k, unfolded pb, simplified]
  obtain n where n: "length bs \<le> n" "mem_block_size p st = Some n" using heap_viewD(2)[OF v mem] by blast
  have p: "p \<in> fst ` set bl" using mem by force
  have p0: "p \<noteq> 0"
  proof -
    obtain ar where "arenas st (pg_round_down p) = Some ar" using live_size[OF h p n(2)] by blast
    from arena_page(2)[OF hi_pages[OF h] this] show ?thesis by (auto simp: pg_round_down_def)
  qed
  show ?thesis
  proof (cases "sz = 0")
    case True
    from free_ok[OF h p] obtain st' where f: "free p st = Some st'" "heap_inv {} U (fst ` set bl - {p}) st'"
      "keeps_blocks (fst ` set bl - {p}) st st'" by blast
    then have "heap_view U (st', without k bl)" using w by (intro heap_view_less[OF v]) auto
    then show ?thesis using k pb f(1) True by (simp add: realloc_def)
  next
    case nz: False
    from malloc_step[OF v sz] show ?thesis
    proof (elim disjE exE conjE)
      assume "malloc sz st = Some (0, st)"
      then show ?thesis using k pb nz v by (simp add: realloc_def)
    next
      fix q st1 m assume q: "malloc sz st = Some (q, st1)" "q \<noteq> 0" "q \<notin> fst ` set bl"
        and h1: "heap_inv {} U (insert q (fst ` set bl)) st1" and m: "mem_block_size q st1 = Some m" "sz \<le> m"
        and kp: "keeps_blocks (fst ` set bl) st st1"
      have n1: "mem_block_size p st1 = Some n" by (rule keeps_peek(2)[OF kp p n(2) n(1)])
      define mn where "mn = (if sz < n then sz else n)"
      let ?w = "peek st1 p mn" and ?L = "insert q (fst ` set bl)"
      let ?st2 = "poke q ?w st1"
      have mn: "mn \<le> m" "mn \<le> sz" using m(2) by (auto simp: mn_def)
      have b: "unat q + m \<le> 2 ^ 32" by (rule live_bound[OF h1 insertI1 m(1)])
      have h2: "heap_inv {} U ?L ?st2" using h1 by simp
      have k2: "keeps_blocks (fst ` set bl) st1 ?st2"
      proof (rule keeps_poke[OF h1])
        show "unat q + length ?w \<le> 2 ^ 32" using b mn by simp
        fix r l assume r: "r \<in> fst ` set bl" "mem_block_size r st1 = Some l"
        then have "span r l \<inter> span q m = {}" using live_apart[OF h1 _ _ _ r(2) m(1)] q(3) by blast
        then show "span r l \<inter> span q (length ?w) = {}" using mn by (fastforce simp: span_def)
      qed blast
      have m2: "mem_block_size q ?st2 = Some m" using mem_block_size_cong[of ?st2 st1 q] m(1) by simp
      from free_ok[OF h2, of p] p obtain st3 where f: "free p ?st2 = Some st3" "heap_inv {} U (?L - {p}) st3"
        "keeps_blocks (?L - {p}) ?st2 st3" by blast
      have qp: "q \<noteq> p" using q(3) p by blast
      have L: "?L - {p} = insert q (fst ` set (without k bl))" using w(1) qp by auto
      have k3: "keeps_blocks (fst ` set (without k bl)) st st3"
        using keeps_blocks_trans[OF keeps_blocks_trans[OF kp k2, THEN keeps_blocks_mono] f(3)[unfolded L, THEN keeps_blocks_mono]]
          w(1) by blast
      have q3: "peek st3 q sz = peek ?st2 q sz" "mem_block_size q st3 = Some m"
        using keeps_peek[OF f(3)[unfolded L] _ m2 m(2)] by simp_all
      let ?new = "take sz bs @ drop (length bs) (peek st3 q sz)"
      have "peek ?st2 q mn = ?w"
        using peek_poke[of q mn 0 ?w st1] b mn by (simp add: overlay_def)
      moreover have "take (min sz (length bs)) ?w = take sz bs"
      proof -
        have "min sz (length bs) \<le> mn" using n(1) by (auto simp: mn_def)
        then have "take (min sz (length bs)) ?w = peek st1 p (min sz (length bs))" by (rule peek_take)
        also have "\<dots> = peek st p (min sz (length bs))" using n by (intro keeps_peek(1)[OF kp p n(2)]) simp
        also have "\<dots> = take (min sz (length bs)) (peek st p (length bs))" by (rule peek_take[symmetric]) simp
        finally show ?thesis using heap_viewD(1)[OF v mem] by (simp add: min_def)
      qed
      moreover have "min sz (length bs) \<le> mn" using n(1) by (auto simp: mn_def)
      ultimately have "take (min sz (length bs)) (peek ?st2 q sz) = take sz bs"
        using mn(2) peek_take[of "min sz (length bs)" mn ?st2 q] peek_take[of "min sz (length bs)" sz ?st2 q] by simp
      then have pk: "?new = peek st3 q sz"
        unfolding q3(1)[symmetric] by (metis append_take_drop_id drop_all length_peek linear min.absorb1 min.absorb2 take_all append_Nil2)
      have "heap_view U (st3, (q, ?new) # without k bl)"
        using w(2,3) f(2)[unfolded L] q(3) w(1) k3 q3(2) m(2) pk by (intro heap_view_new[OF v]) auto
      moreover have "realloc p sz st = Some (q, st3)"
        using nz q(1,2) p0 n1 f(1) unfolding mn_def by (simp add: realloc_def Let_def)
      ultimately show ?thesis using k pb nz q(2) by simp
    qed
  qed
qed

lemma store_step:
  assumes v: "heap_view U (st, bl)" and k: "k < length bl" and o: "ofs + length w \<le> length (snd (bl ! k))"
  shows "heap_view U (poke (fst (bl ! k) + word_of_nat ofs) w st, bl[k := (fst (bl ! k), overlay (snd (bl ! k)) ofs w)])"
proof -
  obtain p bs where pb: "bl ! k = (p, bs)" by fastforce
  have d: "distinct (map fst bl)" and h: "heap_inv {} U (fst ` set bl) st" using v by (auto simp: heap_view_def)
  have mem: "(p, bs) \<in> set bl" using nth_mem[OF k] pb by simp
  have p: "p \<in> fst ` set bl" using mem by force
  obtain n where n: "length bs \<le> n" "mem_block_size p st = Some n" using heap_viewD(2)[OF v mem] by blast
  have b: "unat p + n \<le> 2 ^ 32" by (rule live_bound[OF h p n(2)])
  let ?st = "poke (p + word_of_nat ofs) w st" and ?bl = "bl[k := (p, overlay bs ofs w)]"
  have o': "ofs + length w \<le> length bs" using o pb by simp
  have f: "map fst ?bl = map fst bl" using pb k by (metis fst_conv list_update_id map_update)
  then have fs: "fst ` set ?bl = fst ` set bl" by (metis list.set_map)
  have "peek ?st q (length cs) = cs \<and> (\<exists>n\<ge>length cs. mem_block_size q ?st = Some n)" if q: "(q, cs) \<in> set ?bl" for q cs
  proof -
    obtain j where j: "j < length bl" "?bl ! j = (q, cs)" using q by (metis in_set_conv_nth length_list_update)
    have sz: "mem_block_size r ?st = mem_block_size r st" for r by (rule mem_block_size_cong) simp_all
    show ?thesis
    proof (cases "j = k")
      case True
      then have e: "q = p" "cs = overlay bs ofs w" using j k by simp_all
      have "peek ?st p (length bs) = overlay (peek st p (length bs)) ofs w" using b n(1) o' by (intro peek_poke) auto
      then show ?thesis using heap_viewD(1)[OF v mem] n sz o' by (simp add: e)
    next
      case False
      then have bj: "bl ! j = (q, cs)" using j by simp
      then have q': "(q, cs) \<in> set bl" using nth_mem[OF j(1)] by simp
      have "q \<noteq> p" using d False j(1) k pb bj by (metis fst_conv length_map nth_eq_iff_index_eq nth_map)
      have qm: "q \<in> fst ` set bl" using q' by force
      obtain m where m: "length cs \<le> m" "mem_block_size q st = Some m" using heap_viewD(2)[OF v q'] by blast
      have "keeps_blocks {q} st ?st"
      proof (cases "w = []")
        case True
        then have "ram_bytes ?st = ram_bytes st" by (simp add: poke_def)
        then show ?thesis using sz by (simp add: keeps_blocks_def peek_def)
      next
        case ne: False
        have "ofs < n" using ne o' n(1) by (cases w) auto
        have u: "unat (p + word_of_nat ofs) = unat p + ofs"
        proof -
          have "p + word_of_nat ofs = word_of_nat (unat p + ofs)" by simp
          then show ?thesis using b \<open>ofs < n\<close> by (simp only: unat_of_nat) simp
        qed
        show ?thesis
        proof (rule keeps_poke[OF h])
          show "{q} \<subseteq> fst ` set bl" using qm by simp
          show "unat (p + word_of_nat ofs) + length w \<le> 2 ^ 32" using u b n(1) o' by simp
          fix r l assume r: "r \<in> {q}" "mem_block_size r st = Some l"
          then have "span r l \<inter> span p n = {}" using live_apart[OF h qm p \<open>q \<noteq> p\<close> _ n(2)] by simp
          then show "span r l \<inter> span (p + word_of_nat ofs) (length w) = {}"
            using u n(1) o' by (fastforce simp: span_def)
        qed
      qed
      from keeps_peek[OF this _ m(2,1)] heap_viewD(1)[OF v q'] m show ?thesis by auto
    qed
  qed
  then have "heap_view U (?st, ?bl)" using h d f fs by (auto simp: heap_view_def)
  then show ?thesis using pb by simp
qed

lemma heap_step_ok: "heap_view U s \<Longrightarrow> op_size_ok x \<Longrightarrow> \<exists>s'. heap_step x s = Some s' \<and> heap_view U s'"
proof -
  assume v: "heap_view U s" and x: "op_size_ok x"
  obtain st bl where s: "s = (st, bl)" by fastforce
  note v = v[unfolded s]
  have d: "distinct (map fst bl)" and h: "heap_inv {} U (fst ` set bl) st" using v by (auto simp: heap_view_def)
  show ?thesis
  proof (cases x)
    case (Malloc sz)
    from malloc_step[OF v, of sz] x Malloc consider "malloc sz st = Some (0, st)"
      | p st' n where "malloc sz st = Some (p, st')" "p \<noteq> 0" "p \<notin> fst ` set bl" "heap_inv {} U (insert p (fst ` set bl)) st'"
        "mem_block_size p st' = Some n" "sz \<le> n" "keeps_blocks (fst ` set bl) st st'" by auto
    then show ?thesis
    proof cases
      case 1
      then show ?thesis using v s Malloc by simp
    next
      case 2
      then show ?thesis using heap_view_new[OF v, of bl p st' n "peek st' p sz"] d s Malloc by simp
    qed
  next
    case (Calloc a b)
    then show ?thesis using calloc_step[OF v, of a b] x s by simp
  next
    case (Realloc k sz)
    then show ?thesis using realloc_step[OF v, of sz k] x s v by (cases "k < length bl") simp_all
  next
    case (Free k)
    show ?thesis
    proof (cases "k < length bl")
      case True
      note w = set_without[OF d True]
      have "fst (bl ! k) \<in> fst ` set bl" using True by simp
      from free_ok[OF h this] obtain st' where "free (fst (bl ! k)) st = Some st'" "heap_inv {} U (fst ` set (without k bl)) st'"
        "keeps_blocks (fst ` set (without k bl)) st st'" using w(1) by auto
      then show ?thesis using heap_view_less[OF v w(2,3)] s Free True by simp
    qed (use v s Free in simp)
  next
    case (Store k ofs w)
    then show ?thesis using store_step[OF v, of k ofs w] v s by simp
  qed
qed

lemma heap_run_ok: "heap_view U s \<Longrightarrow> \<forall>x\<in>set xs. op_size_ok x \<Longrightarrow> \<exists>s'. heap_run xs s = Some s' \<and> heap_view U s'"
proof (induction xs arbitrary: s)
  case (Cons x xs)
  from heap_step_ok[OF Cons.prems(1), of x] Cons.prems(2) obtain s' where s': "heap_step x s = Some s'" "heap_view U s'"
    by auto
  show ?case using Cons.IH[OF s'(2)] Cons.prems(2) s'(1) by simp
qed simp

section \<open>The whole life of the heap\<close>

definition new_desc :: "nat \<Rightarrow> desc" where
  "new_desc n = \<lparr>blk_size = n, blocks_per_arena = (PGSIZE - SIZEOF_ARENA) div n, free_list = []\<rparr>"

lemma init_loop_eq: "init_loop 16 [] = Some (map new_desc [16, 32, 64, 128, 256, 512, 1024])"
proof -
  have s: "init_loop bs ds = init_loop (bs * 2) (ds @ [new_desc bs])" if "bs < 2048" "length ds < 10" for bs ds
    using that by (subst init_loop.simps) (simp add: PGSIZE_val new_desc_def)
  have e: "init_loop 2048 ds = Some ds" for ds by (subst init_loop.simps) (simp add: PGSIZE_val)
  show ?thesis by (simp add: s e)
qed

lemma malloc_init_view:
  assumes "ram_ok st0" "descs st0 = []" "arenas st0 = (\<lambda>_. None)"
  shows "\<exists>st. malloc_init st0 = Some st \<and> heap_view (bm_used (used_map (kernel_pool st0))) (st, [])"
proof -
  let ?ds = "map new_desc [16, 32, 64, 128, 256, 512, 1024]"
  let ?st = "st0\<lparr>descs := ?ds\<rparr>"
  have i: "malloc_init st0 = Some ?st" using assms(2) init_loop_eq by (simp add: malloc_init_def)
  have "\<forall>n\<in>{16, 32, 64, 128, 256, 512, 1024}. desc_ok (new_desc n) \<and> free_list (new_desc n) = []"
    by (simp add: desc_ok_def new_desc_def PGSIZE_val SIZEOF_ARENA_def)
  then have "\<forall>d\<in>set ?ds. desc_ok d \<and> free_list d = []" by simp
  then have d: "desc_ok (?ds ! j) \<and> free_list (?ds ! j) = []" if "j < length ?ds" for j
    using nth_mem[OF that] by blast
  have "pages_inv (bm_used (used_map (kernel_pool st0))) ?st"
    using assms(1,3) by (simp add: pages_inv_def ram_ok_def)
  then have "heap_inv {} (bm_used (used_map (kernel_pool st0))) {} ?st"
    using d assms(3) by (simp add: heap_inv_def del: list.map)
  then show ?thesis using i by (simp add: heap_view_def)
qed

lemma heap_view_apart:
  assumes v: "heap_view U (st, bl)"
  shows "sorted_wrt (\<lambda>(p, bs) (q, cs). span p (length bs) \<inter> span q (length cs) = {}) bl"
proof (rule sorted_wrt_iff_nth_less[THEN iffD2], intro allI impI)
  fix i j assume ij: "i < j" "j < length bl"
  obtain p bs q cs where e: "bl ! i = (p, bs)" "bl ! j = (q, cs)" by fastforce
  have h: "heap_inv {} U (fst ` set bl) st" and d: "distinct (map fst bl)" using v by (auto simp: heap_view_def)
  have m: "(p, bs) \<in> set bl" "(q, cs) \<in> set bl" using nth_mem[of i bl] nth_mem[of j bl] ij e by simp_all
  have "map fst bl ! i \<noteq> map fst bl ! j" using d ij nth_eq_iff_index_eq[of "map fst bl" i j] by simp
  then have pq: "p \<noteq> q" using ij e by simp
  obtain n k where n: "n \<ge> length bs" "mem_block_size p st = Some n" "k \<ge> length cs" "mem_block_size q st = Some k"
    using heap_viewD(2)[OF v m(1)] heap_viewD(2)[OF v m(2)] by blast
  have "span p n \<inter> span q k = {}"
    using live_apart[OF h heap_viewD(3)[OF v m(1)] heap_viewD(3)[OF v m(2)] pq n(2,4)] .
  then have "span p (length bs) \<inter> span q (length cs) = {}" using n(1,3) by (fastforce simp: span_def)
  then show "(\<lambda>(p, bs) (q, cs). span p (length bs) \<inter> span q (length cs) = {}) (bl ! i) (bl ! j)"
    using e by simp
qed

text \<open>The pages that others use stay apart from the blocks.\<close>

lemma heap_view_outside:
  assumes v: "heap_view U (st, bl)" and p: "(p, bs) \<in> set bl" and j: "j \<in> U" "j < pool_size (kernel_pool st)"
  shows "span p (length bs) \<inter> span (pool_page (kernel_pool st) j) PGSIZE = {}"
proof -
  let ?kp = "kernel_pool st"
  have h: "heap_inv {} U (fst ` set bl) st" using v by (auto simp: heap_view_def)
  have kp: "pool_ok ?kp" using pi_ram[OF hi_pages[OF h]] by (simp add: ram_ok_def)
  obtain n where n: "n \<ge> length bs" "mem_block_size p st = Some n" using heap_viewD(2)[OF v p] by blast
  obtain ar where a: "arenas st (pg_round_down p) = Some ar" "p \<in> blocks_of st (pg_round_down p) ar" "n = cap st ar"
    using live_size[OF h heap_viewD(3)[OF v p] n(2)] by blast
  let ?i = "page_idx st (pg_round_down p)"
  have "j \<notin> {?i..<?i + pages ar}" using pi_page[OF hi_pages[OF h] a(1)] j(1) by (auto simp: prange_def)
  then have "Suc j \<le> ?i \<or> ?i + pages ar \<le> j" by auto
  then have "PGSIZE * Suc j \<le> PGSIZE * ?i \<or> PGSIZE * (?i + pages ar) \<le> PGSIZE * j" by (metis mult_le_mono2)
  then show ?thesis
    using block_span[OF h a(1,2)] a(3) n(1) unat_pool_page[OF kp j(2)] arena_page(4)[OF hi_pages[OF h] a(1)]
    by (fastforce simp: span_def add_mult_distrib2)
qed

lemma heap_view_used:
  assumes v: "heap_view U (st, bl)"
  shows "U \<subseteq> bm_used (used_map (kernel_pool st))" "bl = [] \<Longrightarrow> bm_used (used_map (kernel_pool st)) = U"
proof -
  have h: "heap_inv {} U (fst ` set bl) st" using v by (auto simp: heap_view_def)
  show "U \<subseteq> bm_used (used_map (kernel_pool st))" using pi_used[OF hi_pages[OF h]] by simp
  assume "bl = []"
  then have h: "heap_inv {} U {} st" using h by simp
  have "arenas st a = None" for a
  proof (rule ccontr)
    assume "arenas st a \<noteq> None"
    then obtain ar where a: "arenas st a = Some ar" by blast
    then obtain i where i: "arena_desc ar = Some i" using hi_arena[OF h a] by (cases "arena_desc ar") (auto simp: arena_ok_def)
    have "blocks_of st a ar \<inter> set (fl st i) = blocks_of st a ar" "free_cnt ar = card (blocks_of st a ar \<inter> set (fl st i))"
      "free_cnt ar < bpa st i"
      using hi_arena[OF h a] i by (auto simp: arena_ok_def)
    then show False using arena_size(3)[OF h a i] by simp
  qed
  then have "dom (arenas st) = {}" by (auto simp: dom_def)
  then show "bm_used (used_map (kernel_pool st)) = U" using pi_used[OF hi_pages[OF h]] by simp
qed

text \<open>C11: After \<open>malloc_init\<close>, every sequence of calls of \<open>malloc\<close>, \<open>calloc\<close>, \<open>realloc\<close> and \<open>free\<close> and of
  stores into blocks, where a client passes only blocks that it has and no size wraps around unnoticed (a
  product that overflows and that \<open>calloc\<close> notices gives no block), runs without a panic. At its end every block holds what was last stored there (at first \<open>a * b\<close> zeros after \<open>calloc\<close>, the old
  contents after \<open>realloc\<close>), the blocks do not overlap each other nor the pages that others use, and when no
  block is left all pages are back in the page allocator.\<close>

theorem heap_refines_arrays:
  assumes "ram_ok st0" and "descs st0 = []" and "arenas st0 = (\<lambda>_. None)" and "\<forall>x\<in>set ops. op_size_ok x"
  shows "\<exists>st st' bl. malloc_init st0 = Some st \<and> heap_run ops (st, []) = Some (st', bl) \<and>
    (\<forall>(p, bs)\<in>set bl. peek st' p (length bs) = bs) \<and>
    sorted_wrt (\<lambda>(p, bs) (q, cs). span p (length bs) \<inter> span q (length cs) = {}) bl \<and>
    bm_used (used_map (kernel_pool st0)) \<subseteq> bm_used (used_map (kernel_pool st')) \<and>
    (\<forall>(p, bs)\<in>set bl. \<forall>j\<in>bm_used (used_map (kernel_pool st0)).
       span p (length bs) \<inter> span (pool_page (kernel_pool st') j) PGSIZE = {}) \<and>
    (bl = [] \<longrightarrow> bm_used (used_map (kernel_pool st')) = bm_used (used_map (kernel_pool st0)))"
proof -
  let ?U = "bm_used (used_map (kernel_pool st0))"
  obtain st where st: "malloc_init st0 = Some st" "heap_view ?U (st, [])" using malloc_init_view[OF assms(1-3)] by blast
  obtain st' bl where r: "heap_run ops (st, []) = Some (st', bl)" and v: "heap_view ?U (st', bl)"
    using heap_run_ok[OF st(2) assms(4)] by auto
  have "j < pool_size (kernel_pool st')" if "j \<in> ?U" for j
    using heap_view_used(1)[OF v] that by (auto simp: bm_used_def pool_size_def)
  then have "\<forall>(p, bs)\<in>set bl. \<forall>j\<in>?U. span p (length bs) \<inter> span (pool_page (kernel_pool st') j) PGSIZE = {}"
    using heap_view_outside[OF v] by blast
  moreover have "\<forall>(p, bs)\<in>set bl. peek st' p (length bs) = bs" using heap_viewD(1)[OF v] by blast
  ultimately show ?thesis using st(1) r heap_view_apart[OF v] heap_view_used[OF v] by blast
qed

definition demo_heap :: malloc_state where
  "demo_heap = \<lparr>kernel_pool = demo_kpool, user_pool = demo_upool, init_ram_pages = 1024, ram_bytes = demo_ram,
     ram_words = demo_words, descs = [], arenas = (\<lambda>_. None)\<rparr>"

theorem heap_refines_arrays_witness:
  "\<exists>st st' bl. malloc_init demo_heap = Some st \<and>
    heap_run [Malloc 20, Calloc 3 8, Calloc 2147483649 2, Store 1 4 [7, 8], Realloc 1 100, Free 0] (st, []) = Some (st', bl) \<and>
    sorted_wrt (\<lambda>(p, bs) (q, cs). span p (length bs) \<inter> span q (length cs) = {}) bl"
proof -
  have "ram_ok demo_heap" using demo_ram_ok by (simp add: ram_ok_def demo_heap_def demo_paging_def)
  then show ?thesis
    using heap_refines_arrays[of demo_heap "[Malloc 20, Calloc 3 8, Calloc 2147483649 2, Store 1 4 [7, 8], Realloc 1 100, Free 0]"]
    by (auto simp: demo_heap_def SIZEOF_ARENA_def)
qed

end
