(* ===== verification/CListSort.thy ===== *)
theory CListSort
  imports CList
begin

text \<open>
  The rest of \<open>lib/kernel/list.c\<close>: splicing, reversal, the natural merge sort, ordered
  insertion, duplicate removal, minimum and maximum. Each heap routine is proved to compute a
  plain list function, and the list functions are proved correct: \<open>list_sort\<close> terminates
  and is a stable sort for every comparison that is a strict weak order.
\<close>

section \<open>Heap routines\<close>

partial_function (option) is_sorted_loop ::
  "lheap \<Rightarrow> (ptr \<Rightarrow> ptr \<Rightarrow> bool) \<Rightarrow> ptr \<Rightarrow> ptr \<Rightarrow> bool option" where
  "is_sorted_loop h lt a b = do {
     a \<leftarrow> list_next h a;
     if a = b then Some True
     else do {
       p \<leftarrow> list_prev h a;
       if lt a p then Some False else is_sorted_loop h lt a b }
   }"

definition is_sorted :: "lheap \<Rightarrow> (ptr \<Rightarrow> ptr \<Rightarrow> bool) \<Rightarrow> ptr \<Rightarrow> ptr \<Rightarrow> bool option" where
  "is_sorted h lt a b = (if a \<noteq> b then is_sorted_loop h lt a b else Some True)"

partial_function (option) run_loop ::
  "lheap \<Rightarrow> (ptr \<Rightarrow> ptr \<Rightarrow> bool) \<Rightarrow> ptr \<Rightarrow> ptr \<Rightarrow> ptr option" where
  "run_loop h lt a b = do {
     a \<leftarrow> list_next h a;
     if a = b then Some a
     else do {
       p \<leftarrow> list_prev h a;
       if lt a p then Some a else run_loop h lt a b }
   }"

definition find_end_of_run :: "lheap \<Rightarrow> (ptr \<Rightarrow> ptr \<Rightarrow> bool) \<Rightarrow> ptr \<Rightarrow> ptr \<Rightarrow> ptr option" where
  "find_end_of_run h lt a b = do {
     ASSERT (a \<noteq> NULL); ASSERT (b \<noteq> NULL); ASSERT (a \<noteq> b); run_loop h lt a b }"

partial_function (option) merge_loop ::
  "lheap \<Rightarrow> (ptr \<Rightarrow> ptr \<Rightarrow> bool) \<Rightarrow> ptr \<Rightarrow> ptr \<Rightarrow> ptr \<Rightarrow> lheap option" where
  "merge_loop h lt a0 a1b0 b1 =
     (if a0 \<noteq> a1b0 \<and> a1b0 \<noteq> b1 then
        if \<not> lt a1b0 a0 then do { a0 \<leftarrow> list_next h a0; merge_loop h lt a0 a1b0 b1 }
        else do {
          a1b0 \<leftarrow> list_next h a1b0;
          p \<leftarrow> list_prev h a1b0;
          h \<leftarrow> list_splice h a0 p a1b0;
          merge_loop h lt a0 a1b0 b1 }
      else Some h)"

definition inplace_merge ::
  "lheap \<Rightarrow> (ptr \<Rightarrow> ptr \<Rightarrow> bool) \<Rightarrow> ptr \<Rightarrow> ptr \<Rightarrow> ptr \<Rightarrow> lheap option" where
  "inplace_merge h lt a0 a1b0 b1 = do {
     ASSERT (a0 \<noteq> NULL); ASSERT (a1b0 \<noteq> NULL); ASSERT (b1 \<noteq> NULL);
     s1 \<leftarrow> is_sorted h lt a0 a1b0; ASSERT s1;
     s2 \<leftarrow> is_sorted h lt a1b0 b1; ASSERT s2;
     merge_loop h lt a0 a1b0 b1 }"

partial_function (option) sort_pass ::
  "lheap \<Rightarrow> clist \<Rightarrow> (ptr \<Rightarrow> ptr \<Rightarrow> bool) \<Rightarrow> ptr \<Rightarrow> nat \<Rightarrow> (nat \<times> lheap) option" where
  "sort_pass h L lt a0 cnt = do {
     t \<leftarrow> list_end L;
     if a0 = t then Some (cnt, h)
     else do {
       a1b0 \<leftarrow> find_end_of_run h lt a0 t;
       if a1b0 = t then Some (cnt + 1, h)
       else do {
         b1 \<leftarrow> find_end_of_run h lt a1b0 t;
         h \<leftarrow> inplace_merge h lt a0 a1b0 b1;
         sort_pass h L lt b1 (cnt + 1) } }
   }"

partial_function (option) sort_loop ::
  "lheap \<Rightarrow> clist \<Rightarrow> (ptr \<Rightarrow> ptr \<Rightarrow> bool) \<Rightarrow> lheap option" where
  "sort_loop h L lt = do {
     b \<leftarrow> list_begin h L;
     (cnt, h) \<leftarrow> sort_pass h L lt b 0;
     if cnt > 1 then sort_loop h L lt else Some h
   }"

definition list_sort :: "lheap \<Rightarrow> clist \<Rightarrow> (ptr \<Rightarrow> ptr \<Rightarrow> bool) \<Rightarrow> lheap option" where
  "list_sort h L lt = do {
     ASSERT (lhead L \<noteq> NULL);
     h \<leftarrow> sort_loop h L lt;
     b \<leftarrow> list_begin h L; t \<leftarrow> list_end L;
     s \<leftarrow> is_sorted h lt b t; ASSERT s;
     Some h }"

partial_function (option) insert_ordered_loop ::
  "lheap \<Rightarrow> clist \<Rightarrow> (ptr \<Rightarrow> ptr \<Rightarrow> bool) \<Rightarrow> ptr \<Rightarrow> ptr \<Rightarrow> ptr option" where
  "insert_ordered_loop h L lt e it = do {
     t \<leftarrow> list_end L;
     if it = t then Some it
     else if lt e it then Some it
     else do { it \<leftarrow> list_next h it; insert_ordered_loop h L lt e it }
   }"

definition list_insert_ordered ::
  "lheap \<Rightarrow> clist \<Rightarrow> ptr \<Rightarrow> (ptr \<Rightarrow> ptr \<Rightarrow> bool) \<Rightarrow> lheap option" where
  "list_insert_ordered h L e lt = do {
     ASSERT (lhead L \<noteq> NULL); ASSERT (e \<noteq> NULL);
     b \<leftarrow> list_begin h L;
     it \<leftarrow> insert_ordered_loop h L lt e b;
     list_insert h it e }"

text \<open>\<open>duplicates\<close> may be a null pointer in the C code: \<^const>\<open>None\<close> here.\<close>

partial_function (option) unique_loop ::
  "lheap \<Rightarrow> clist \<Rightarrow> clist option \<Rightarrow> (ptr \<Rightarrow> ptr \<Rightarrow> bool) \<Rightarrow> ptr \<Rightarrow> lheap option" where
  "unique_loop h L dups lt e = do {
     n \<leftarrow> list_next h e;
     t \<leftarrow> list_end L;
     if n = t then Some h
     else if \<not> lt e n \<and> \<not> lt n e then do {
       (_, h) \<leftarrow> list_remove h n;
       h \<leftarrow> (case dups of None \<Rightarrow> Some h | Some D \<Rightarrow> list_push_back h D n);
       unique_loop h L dups lt e }
     else unique_loop h L dups lt n
   }"

definition list_unique ::
  "lheap \<Rightarrow> clist \<Rightarrow> clist option \<Rightarrow> (ptr \<Rightarrow> ptr \<Rightarrow> bool) \<Rightarrow> lheap option" where
  "list_unique h L dups lt = do {
     ASSERT (lhead L \<noteq> NULL);
     em \<leftarrow> list_empty h L;
     if em then Some h else do { b \<leftarrow> list_begin h L; unique_loop h L dups lt b } }"

partial_function (option) max_loop ::
  "lheap \<Rightarrow> clist \<Rightarrow> (ptr \<Rightarrow> ptr \<Rightarrow> bool) \<Rightarrow> ptr \<Rightarrow> ptr \<Rightarrow> ptr option" where
  "max_loop h L lt mx e = do {
     t \<leftarrow> list_end L;
     if e = t then Some mx
     else do { n \<leftarrow> list_next h e; max_loop h L lt (if lt mx e then e else mx) n } }"

definition list_max :: "lheap \<Rightarrow> clist \<Rightarrow> (ptr \<Rightarrow> ptr \<Rightarrow> bool) \<Rightarrow> ptr option" where
  "list_max h L lt = do {
     mx \<leftarrow> list_begin h L; t \<leftarrow> list_end L;
     if mx \<noteq> t then do { n \<leftarrow> list_next h mx; max_loop h L lt mx n } else Some mx }"

partial_function (option) min_loop ::
  "lheap \<Rightarrow> clist \<Rightarrow> (ptr \<Rightarrow> ptr \<Rightarrow> bool) \<Rightarrow> ptr \<Rightarrow> ptr \<Rightarrow> ptr option" where
  "min_loop h L lt mn e = do {
     t \<leftarrow> list_end L;
     if e = t then Some mn
     else do { n \<leftarrow> list_next h e; min_loop h L lt (if lt e mn then e else mn) n } }"

definition list_min :: "lheap \<Rightarrow> clist \<Rightarrow> (ptr \<Rightarrow> ptr \<Rightarrow> bool) \<Rightarrow> ptr option" where
  "list_min h L lt = do {
     mn \<leftarrow> list_begin h L; t \<leftarrow> list_end L;
     if mn \<noteq> t then do { n \<leftarrow> list_next h mn; min_loop h L lt mn n } else Some mn }"

section \<open>The list functions they compute\<close>

fun merge_runs :: "('a \<Rightarrow> 'a \<Rightarrow> bool) \<Rightarrow> 'a list \<Rightarrow> 'a list \<Rightarrow> 'a list" where
  "merge_runs lt [] ys = ys"
| "merge_runs lt xs [] = xs"
| "merge_runs lt (x # xs) (y # ys) =
     (if \<not> lt y x then x # merge_runs lt xs (y # ys) else y # merge_runs lt (x # xs) ys)"

fun split_run :: "('a \<Rightarrow> 'a \<Rightarrow> bool) \<Rightarrow> 'a \<Rightarrow> 'a list \<Rightarrow> 'a list \<times> 'a list" where
  "split_run lt x [] = ([x], [])"
| "split_run lt x (y # ys) =
     (if lt y x then ([x], y # ys) else (let (r, rest) = split_run lt y ys in (x # r, rest)))"

lemma split_run_append: "split_run lt x xs = (r, rest) \<Longrightarrow> x # xs = r @ rest \<and> r \<noteq> []"
  by (induction lt x xs arbitrary: r rest rule: split_run.induct)
    (auto split: if_splits prod.splits)

lemma split_run_length: "split_run lt x xs = (r, rest) \<Longrightarrow> length rest < Suc (length xs)"
  using split_run_append[of lt x xs r rest] by (metis length_Cons length_append less_add_same_cancel2 length_greater_0_conv)

function merge_pass :: "('a \<Rightarrow> 'a \<Rightarrow> bool) \<Rightarrow> 'a list \<Rightarrow> 'a list \<times> nat" where
  "merge_pass lt [] = ([], 0)"
| "merge_pass lt (x # xs) =
     (case split_run lt x xs of (r, []) \<Rightarrow> (r, 1)
      | (r, y # ys) \<Rightarrow> (case split_run lt y ys of (r2, rest) \<Rightarrow>
          (case merge_pass lt rest of (out, n) \<Rightarrow> (merge_runs lt r r2 @ out, Suc n))))"
  by pat_completeness auto
termination
proof (relation "measure (\<lambda>(lt, xs). length xs)", goal_cases)
  case (2 lt x xs r rest y ys r2 rest2)
  have "split_run lt x xs = (r, y # ys)" "split_run lt y ys = (r2, rest2)" using 2 by auto
  then have "length (y # ys) < Suc (length xs)" "length rest2 < Suc (length ys)"
    by (blast intro: split_run_length)+
  then show ?case by simp
qed simp

definition ins_ord :: "('a \<Rightarrow> 'a \<Rightarrow> bool) \<Rightarrow> 'a \<Rightarrow> 'a list \<Rightarrow> 'a list" where
  "ins_ord lt e xs = takeWhile (\<lambda>x. \<not> lt e x) xs @ e # dropWhile (\<lambda>x. \<not> lt e x) xs"

subsection \<open>Merging, runs and passes\<close>

fun desc :: "('a \<Rightarrow> 'a \<Rightarrow> bool) \<Rightarrow> 'a list \<Rightarrow> nat" where
  "desc lt [] = 0"
| "desc lt [x] = 0"
| "desc lt (x # y # ys) = (if lt y x then 1 else 0) + desc lt (y # ys)"

definition eqv :: "('a \<Rightarrow> 'a \<Rightarrow> bool) \<Rightarrow> 'a \<Rightarrow> 'a \<Rightarrow> bool" where
  "eqv lt k x \<longleftrightarrow> \<not> lt k x \<and> \<not> lt x k"

lemma merge_runs_Nil2 [simp]: "merge_runs lt xs [] = xs"
  by (cases xs) auto

lemma mset_merge_runs: "mset (merge_runs lt xs ys) = mset xs + mset ys"
  by (induction lt xs ys rule: merge_runs.induct) auto

lemma set_merge_runs [simp]: "set (merge_runs lt xs ys) = set xs \<union> set ys"
  using arg_cong[OF mset_merge_runs, of set_mset] by simp

lemma merge_pass_induct [case_names Nil one two]:
  fixes xs :: "'a list"
  assumes "P []"
    "\<And>x xs r. split_run lt x xs = (r, []) \<Longrightarrow> P (x # xs)"
    "\<And>x xs r y ys r2 rest. split_run lt x xs = (r, y # ys) \<Longrightarrow> split_run lt y ys = (r2, rest) \<Longrightarrow>
       P rest \<Longrightarrow> P (x # xs)"
  shows "P xs"
proof (induction xs rule: length_induct)
  case (1 xs)
  show ?case
  proof (cases xs)
    case Nil
    then show ?thesis using assms(1) by simp
  next
    case (Cons x xs')
    obtain r rest where r: "split_run lt x xs' = (r, rest)" by force
    show ?thesis
    proof (cases rest)
      case Nil
      then show ?thesis using r Cons assms(2) by simp
    next
      case c: (Cons y ys)
      obtain r2 rest2 where r2: "split_run lt y ys = (r2, rest2)" by force
      have "length rest2 < length xs"
        using split_run_length[OF r] split_run_length[OF r2] c Cons by simp
      then show ?thesis using 1 r r2 c Cons assms(3) by blast
    qed
  qed
qed

lemma mset_merge_pass: "mset (fst (merge_pass lt xs)) = mset xs"
proof (induction xs rule: merge_pass_induct[where lt = lt])
  case (one x xs r)
  then have "r = x # xs" using split_run_append by fastforce
  then show ?case using one by simp
next
  case (two x xs r y ys r2 rest)
  have "x # xs = r @ r2 @ rest"
    using split_run_append[OF two(1)] split_run_append[OF two(2)] by simp
  then have "mset (x # xs) = mset r + mset r2 + mset rest" by (simp del: mset.simps)
  with two show ?case by (auto simp: mset_merge_runs split: prod.splits)
qed simp

lemma desc_append: "desc lt (xs @ ys) \<le> Suc (desc lt xs + desc lt ys)"
proof (induction lt xs rule: desc.induct)
  case (2 lt x)
  then show ?case by (cases ys) auto
qed auto

lemma desc_split_run:
  "split_run lt x xs = (r, y # ys) \<Longrightarrow> desc lt (x # xs) = Suc (desc lt (y # ys))"
proof (induction lt x xs arbitrary: r rule: split_run.induct)
  case (2 lt x z zs)
  then show ?case by (auto split: if_splits prod.splits)
qed simp

lemma split_run_desc: "split_run lt x xs = (r, rest) \<Longrightarrow> desc lt r = 0"
proof (induction lt x xs arbitrary: r rule: split_run.induct)
  case (2 lt x z zs)
  show ?case
  proof (cases "lt z x")
    case False
    then obtain r' where r': "split_run lt z zs = (r', rest)" "r = x # r'"
      using "2.prems" by (auto split: prod.splits)
    then have "hd r' = z" using split_run_append[OF r'(1)] by (cases r') auto
    then show ?thesis using 2 r' False split_run_append[OF r'(1)] by (cases r') auto
  qed (use 2 in auto)
qed auto

lemma merge_pass_count: "xs \<noteq> [] \<Longrightarrow> 2 * snd (merge_pass lt xs) \<le> desc lt xs + 2"
proof (induction lt xs rule: merge_pass.induct)
  case (2 lt x xs)
  obtain r rest where r: "split_run lt x xs = (r, rest)" by force
  show ?case
  proof (cases rest)
    case (Cons y ys)
    obtain r2 rest2 where r2: "split_run lt y ys = (r2, rest2)" by force
    note d = desc_split_run[OF r[unfolded Cons]]
    show ?thesis
    proof (cases rest2)
      case Nil
      then show ?thesis using r r2 Cons d by simp
    next
      case (Cons z zs)
      obtain out n where o: "merge_pass lt rest2 = (out, n)" by force
      have "2 * n \<le> desc lt rest2 + 2"
        using "2.IH"[OF r[symmetric] \<open>rest = y # ys\<close> r2[symmetric]] Cons o by simp
      then show ?thesis
        using r r2 \<open>rest = y # ys\<close> Cons o d desc_split_run[OF r2[unfolded Cons]] by simp
    qed
  qed (use r in simp)
qed simp

text \<open>Induction rules with the comparison held fixed.\<close>

lemma adj_induct [case_names Nil single pair]:
  fixes xs :: "'a list"
  assumes "P []" "\<And>x. P [x]" "\<And>x y ys. P (y # ys) \<Longrightarrow> P (x # y # ys)"
  shows "P xs"
  using assms by induction_schema (pat_completeness, lexicographic_order)

lemma merge_runs_induct [case_names Nil1 Nil2 both]:
  fixes xs ys :: "'a list"
  assumes "\<And>ys. P [] ys" "\<And>x xs. P (x # xs) []"
    "\<And>x xs y ys. (\<not> lt y x \<Longrightarrow> P xs (y # ys)) \<Longrightarrow> (lt y x \<Longrightarrow> P (x # xs) ys) \<Longrightarrow>
       P (x # xs) (y # ys)"
  shows "P xs ys"
  using assms by induction_schema (pat_completeness, lexicographic_order)

context strict_weak_order
begin

lemma desc_0_ordered: "desc lt xs = 0 \<longleftrightarrow> ordered lt xs"
proof (induction xs rule: adj_induct)
  case (pair x y ys)
  have "\<not> lt z x" if "\<not> lt y x" "\<forall>z\<in>set ys. \<not> lt z y" "z \<in> set ys" for z
    using not_less_trans[of y x z] that by blast
  with pair show ?case by auto
qed auto

lemma ordered_merge_runs:
  "ordered lt xs \<Longrightarrow> ordered lt ys \<Longrightarrow> ordered lt (merge_runs lt xs ys)"
proof (induction xs ys rule: merge_runs_induct[where lt = lt])
  case (both x xs y ys)
  show ?case
  proof (cases "lt y x")
    case True
    have "\<not> lt z y" if z: "z \<in> insert x (set xs)" for z
    proof (cases "z = x")
      case True
      with \<open>lt y x\<close> show ?thesis by (simp add: less_asym)
    next
      case False
      with z both.prems have "\<not> lt z x" by auto
      with \<open>lt y x\<close> show ?thesis using less_not_less_trans less_asym by blast
    qed
    with True both show ?thesis by auto
  next
    case False
    have "\<not> lt z x" if z: "z \<in> insert y (set ys)" for z
    proof (cases "z = y")
      case False
      with z both.prems have "\<not> lt z y" by auto
      with \<open>\<not> lt y x\<close> show ?thesis by (rule not_less_trans)
    qed (use \<open>\<not> lt y x\<close> in simp)
    with False both show ?thesis by auto
  qed
qed auto

lemma eqv_less: "eqv lt k y \<Longrightarrow> lt y x \<Longrightarrow> \<not> eqv lt k x"
  unfolding eqv_def using less_not_less_trans[of y x k] by blast

lemma stable_merge_runs:
  "ordered lt xs \<Longrightarrow> filter (eqv lt k) (merge_runs lt xs ys) = filter (eqv lt k) (xs @ ys)"
proof (induction xs ys rule: merge_runs_induct[where lt = lt])
  case (both x xs y ys)
  show ?case
  proof (cases "lt y x")
    case True
    have "lt y z" if "z \<in> set (x # xs)" for z
      using that True both.prems less_not_less_trans[OF True, of z] by auto
    then have "filter (eqv lt k) (x # xs) = []" if "eqv lt k y"
      using that eqv_less by (intro filter_False) blast
    with True both show ?thesis by auto
  qed (use both in auto)
qed auto

lemma split_run_ordered: "split_run lt x xs = (r, rest) \<Longrightarrow> ordered lt r"
  using split_run_desc by (metis desc_0_ordered)

lemma merge_pass_desc:
  "xs \<noteq> [] \<Longrightarrow> Suc (desc lt (fst (merge_pass lt xs))) \<le> snd (merge_pass lt xs)"
proof (induction xs rule: merge_pass_induct[where lt = lt])
  case (one x xs r)
  then show ?case using split_run_desc by fastforce
next
  case (two x xs r y ys r2 rest)
  obtain out n where o: "merge_pass lt rest = (out, n)" by force
  have m: "desc lt (merge_runs lt r r2) = 0"
    using split_run_ordered[OF two(1)] split_run_ordered[OF two(2)] ordered_merge_runs
    by (simp add: desc_0_ordered)
  show ?case
    using two o m desc_append[of lt "merge_runs lt r r2" out] by (cases "rest = []") auto
qed simp

lemma stable_merge_pass: "filter (eqv lt k) (fst (merge_pass lt xs)) = filter (eqv lt k) xs"
proof (induction xs rule: merge_pass_induct[where lt = lt])
  case (one x xs r)
  then have "r = x # xs" using split_run_append by fastforce
  then show ?case using one by simp
next
  case (two x xs r y ys r2 rest)
  obtain out n where o: "merge_pass lt rest = (out, n)" by force
  have e: "x # xs = r @ r2 @ rest"
    using split_run_append[OF two(1)] split_run_append[OF two(2)] by simp
  have "fst (merge_pass lt (x # xs)) = merge_runs lt r r2 @ out" using two o by simp
  then show ?case unfolding e
    using two o stable_merge_runs[OF split_run_ordered[OF two(1)], of k r2] by simp
qed simp

lemma merge_pass_decreases: "snd (merge_pass lt xs) > 1 \<Longrightarrow> desc lt (fst (merge_pass lt xs)) < desc lt xs"
  using merge_pass_count[of xs lt] merge_pass_desc[of xs] by (cases xs) auto

lemma merge_pass_done: "snd (merge_pass lt xs) \<le> 1 \<Longrightarrow> ordered lt (fst (merge_pass lt xs))"
  using merge_pass_desc[of xs] by (cases "xs = []") (auto simp flip: desc_0_ordered)

end

section \<open>The heap routines compute them\<close>

lemma chain_splice:
  assumes ch: "chain h (A @ M @ S @ Z)" and d: "distinct (A @ M @ S @ Z)"
    and ne: "A \<noteq> []" "M \<noteq> []" "S \<noteq> []" "Z \<noteq> []"
    and nx: "\<And>p. le_next (h' p) = (if p = last A then hd S else if p = last S then hd M
               else if p = last M then hd Z else le_next (h p))"
    and pv: "\<And>p. le_prev (h' p) = (if p = hd M then last S else if p = hd S then last A
               else if p = hd Z then last M else le_prev (h p))"
  shows "chain h' (A @ S @ M @ Z)"
proof -
  have inb: "last xs \<in> set xs" "hd xs \<in> set xs" if "xs \<noteq> []" for xs :: "ptr list"
    using that by auto
  have dist: "last xs \<noteq> last ys" "hd xs \<noteq> hd ys" if "xs \<noteq> []" "ys \<noteq> []" "set xs \<inter> set ys = {}"
    for xs ys :: "ptr list"
    using that inb[of xs] inb[of ys] by (metis disjoint_iff)+
  have sets: "set A \<inter> set M = {}" "set A \<inter> set S = {}" "set A \<inter> set Z = {}" "set M \<inter> set S = {}"
    "set M \<inter> set Z = {}" "set S \<inter> set Z = {}" using d by auto
  have mem: "last A \<in> set A" "last S \<in> set S" "last M \<in> set M" "hd M \<in> set M" "hd S \<in> set S"
    "hd Z \<in> set Z" using ne by auto
  have keep: "chain h' xs" if "chain h xs" "xs \<in> {A, M, S, Z}" for xs
  proof (rule chain_cong[THEN iffD2, OF _ _ that(1)])
    have xs: "xs \<noteq> []" "distinct xs" using that(2) ne d by auto
    fix p
    {
      assume p: "p \<in> set (butlast xs)"
      then have "p \<noteq> last xs" "p \<in> set xs" using last_notin_butlast[OF xs(2,1)] by (auto dest: in_set_butlastD)
      then have "p \<noteq> last A" "p \<noteq> last S" "p \<noteq> last M"
        using that(2) sets mem by (auto simp: disjoint_iff)
      then show "le_next (h' p) = le_next (h p)" by (simp add: nx)
    }
    assume p: "p \<in> set (tl xs)"
    then have "p \<noteq> hd xs" "p \<in> set xs" using hd_notin_tl[OF xs(2,1)] by (auto dest: in_set_tlD)
    then have "p \<noteq> hd M" "p \<noteq> hd S" "p \<noteq> hd Z"
      using that(2) sets mem by (auto simp: disjoint_iff)
    then show "le_prev (h' p) = le_prev (h p)" by (simp add: pv)
  qed
  have c: "chain h A" "chain h M" "chain h S" "chain h Z"
    using ch ne by (simp_all add: chain_append)
  have neq: "last A \<noteq> last S" "last A \<noteq> last M" "last S \<noteq> last M"
    "hd M \<noteq> hd S" "hd Z \<noteq> hd M" "hd Z \<noteq> hd S"
    by (rule dist; use ne sets in blast)+
  have "le_next (h' (last A)) = hd S" "le_next (h' (last S)) = hd M" "le_next (h' (last M)) = hd Z"
    "le_prev (h' (hd S)) = last A" "le_prev (h' (hd M)) = last S" "le_prev (h' (hd Z)) = last M"
    using neq neq[symmetric] by (simp_all add: nx pv)
  then show ?thesis using keep c ne by (simp add: chain_append)
qed

text \<open>Splicing a segment \<open>S\<close> in front of an earlier position of the same list.\<close>

lemma dlist_splice:
  assumes d: "dlist h L (xs @ M @ S @ zs)" and ne: "M \<noteq> []" "S \<noteq> []"
  shows "\<exists>h'. list_splice h (hd M) (hd S) (pos L zs) = Some h' \<and> dlist h' L (xs @ S @ M @ zs) \<and>
    agree_off (set (nodes L (xs @ M @ S @ zs))) h h'"
proof -
  let ?A = "lhead L # xs" and ?Z = "zs @ [ltail L]"
  have n: "nodes L (xs @ M @ S @ zs) = ?A @ M @ S @ ?Z" "nodes L (xs @ S @ M @ zs) = ?A @ S @ M @ ?Z"
    by (simp_all add: nodes_def)
  have ch: "chain h (?A @ M @ S @ ?Z)" and dist: "distinct (?A @ M @ S @ ?Z)"
    and nn: "NULL \<notin> set (?A @ M @ S @ ?Z)"
    using d unfolding dlist_def n by auto
  have pz: "pos L zs = hd ?Z" by (simp add: pos_def)
  have s1: "dlist h L ((xs @ M @ S) @ zs)" using d by simp
  have prev: "list_prev h (pos L zs) = Some (last S)"
    using dlist_prev[OF s1] ne by (simp add: last_append)
  have inb: "hd M \<in> set M" "hd S \<in> set S" "last M \<in> set M" "last S \<in> set S" "hd ?Z \<in> set ?Z"
    "last ?A \<in> set ?A"
    using ne hd_in_set[of ?Z] last_in_set[of ?A] by auto
  have int: "is_interior h (hd M)" "is_interior h (hd S)" "is_interior h (last S)"
    using dlist_interior[OF d] inb by auto
  have links: "le_prev (h (hd M)) = last ?A" "le_prev (h (hd S)) = last M" "le_next (h (last S)) = hd ?Z"
    using ch ne by (simp_all add: chain_append del: append_Cons last.simps)
  have neq: "hd S \<noteq> hd ?Z" "hd M \<noteq> hd ?Z" "hd M \<noteq> hd S" "last M \<noteq> last S" "last ?A \<noteq> last S"
    "last ?A \<noteq> last M" using inb dist by (auto simp del: last.simps)
  let ?h = "set_prev (set_next (set_next (set_prev (set_prev (set_next h (last M) (hd ?Z)) (hd ?Z) (last M))
     (hd S) (last ?A)) (last S) (hd M)) (last ?A) (hd S)) (hd M) (last S)"
  have sp: "list_splice h (hd M) (hd S) (pos L zs) = Some ?h"
    unfolding list_splice_def prev[unfolded pz] pz
    using int links neq neq[symmetric] is_interior_def
    by (simp add: Let_def del: last.simps hd_append)
  have "chain ?h (?A @ S @ M @ ?Z)"
    by (rule chain_splice[OF ch dist]) (use ne neq in \<open>simp_all del: last.simps hd_append\<close>)
  moreover have "le_prev (?h (lhead L)) = NULL" "le_next (?h (ltail L)) = NULL"
  proof -
    have "lhead L \<noteq> hd M" "lhead L \<noteq> hd S" "lhead L \<noteq> hd ?Z" "ltail L \<noteq> last M" "ltail L \<noteq> last S"
      "ltail L \<noteq> last ?A"
      using dist inb by (auto simp: disjoint_iff simp del: last.simps hd_append)
    then show "le_prev (?h (lhead L)) = NULL" "le_next (?h (ltail L)) = NULL"
      using d by (simp_all add: dlist_def del: last.simps hd_append)
  qed
  ultimately have "dlist ?h L (xs @ S @ M @ zs)"
    using dist nn unfolding dlist_def n by auto
  moreover have "agree_off (set (nodes L (xs @ M @ S @ zs))) h ?h"
    unfolding n using inb by (intro agree_off_set agree_off_refl) (auto simp del: last.simps)
  ultimately show ?thesis using sp by blast
qed

lemma dlist_pos_neq: "dlist h L (xs @ y # ys @ zs) \<Longrightarrow> pos L zs \<noteq> y"
  by (cases zs) (auto simp: dlist_def nodes_def)

lemma dlist_is_sorted_loop:
  "dlist h L (xs @ y # ys @ zs) \<Longrightarrow> is_sorted_loop h lt y (pos L zs) = Some (desc lt (y # ys) = 0)"
proof (induction ys arbitrary: xs y)
  case Nil
  then show ?case by (subst is_sorted_loop.simps) (simp add: dlist_next)
next
  case (Cons z ys)
  have d: "dlist h L ((xs @ [y]) @ z # ys @ zs)" using Cons.prems by simp
  have "list_next h y = Some z" using dlist_next[of h L xs y] Cons.prems by simp
  moreover have "list_prev h z = Some y" using dlist_prev[OF d] by simp
  moreover have "z \<noteq> pos L zs" using dlist_pos_neq[OF d] by simp
  ultimately show ?case using Cons.IH[OF d] by (subst is_sorted_loop.simps) simp
qed

lemma dlist_is_sorted:
  "dlist h L (xs @ ys @ zs) \<Longrightarrow> is_sorted h lt (pos L (ys @ zs)) (pos L zs) = Some (desc lt ys = 0)"
proof (cases ys)
  case (Cons y ys')
  assume d: "dlist h L (xs @ ys @ zs)"
  then have "y \<noteq> pos L zs" using dlist_pos_neq[of h L xs y ys' zs] Cons by auto
  then show ?thesis using d Cons dlist_is_sorted_loop[of h L xs y ys' zs lt] by (simp add: is_sorted_def)
qed (simp add: is_sorted_def)

lemma dlist_run_loop:
  "dlist h L (xs @ y # ys) \<Longrightarrow> run_loop h lt y (ltail L) = Some (pos L (snd (split_run lt y ys)))"
proof (induction ys arbitrary: xs y)
  case Nil
  then show ?case by (subst run_loop.simps) (simp add: dlist_next)
next
  case (Cons z ys)
  have d: "dlist h L ((xs @ [y]) @ z # ys)" using Cons.prems by simp
  have "list_next h y = Some z" using dlist_next[of h L xs y] Cons.prems by simp
  moreover have "list_prev h z = Some y" using dlist_prev[OF d] by simp
  moreover have "z \<noteq> ltail L" using d by (auto simp: dlist_def nodes_def)
  ultimately show ?case
    using Cons.IH[OF d] by (subst run_loop.simps) (simp split: prod.splits)
qed

lemma dlist_find_end_of_run:
  assumes "dlist h L (xs @ y # ys)"
  shows "find_end_of_run h lt y (ltail L) = Some (pos L (snd (split_run lt y ys)))"
  using dlist_run_loop[OF assms] assms by (auto simp: find_end_of_run_def dlist_def nodes_def)

lemma agree_off_trans2:
  "agree_off S h h' \<Longrightarrow> agree_off T h' h'' \<Longrightarrow> S = T \<Longrightarrow> agree_off S h h''"
  using agree_off_trans by blast

lemma dlist_merge_loop:
  "dlist h L (xs @ A @ B @ zs) \<Longrightarrow>
   \<exists>h'. merge_loop h lt (pos L (A @ B @ zs)) (pos L (B @ zs)) (pos L zs) = Some h' \<and>
     dlist h' L (xs @ merge_runs lt A B @ zs) \<and> agree_off (set (nodes L (xs @ A @ B @ zs))) h h'"
proof (induction A B arbitrary: h xs rule: merge_runs_induct[where lt = lt])
  case (both x A y B)
  let ?b1 = "pos L zs"
  have d1: "dlist h L (xs @ x # A @ y # B @ zs)" using both.prems by simp
  have d2: "dlist h L ((xs @ x # A) @ y # B @ zs)" using both.prems by simp
  have xy: "x \<noteq> y" "y \<noteq> ?b1"
    using d1 dlist_pos_neq[OF d2] by (auto simp: dlist_def nodes_def)
  show ?case
  proof (cases "lt y x")
    case False
    have "list_next h x = Some (pos L (A @ y # B @ zs))" using dlist_next[OF d1] .
    moreover obtain h' where "merge_loop h lt (pos L (A @ y # B @ zs)) y ?b1 = Some h'"
      "dlist h' L ((xs @ [x]) @ merge_runs lt A (y # B) @ zs)"
      "agree_off (set (nodes L ((xs @ [x]) @ A @ (y # B) @ zs))) h h'"
      using both.IH(1)[OF False, of h "xs @ [x]"] d1 by auto
    ultimately show ?thesis
      using xy False by (subst merge_loop.simps) (simp add: nodes_def)
  next
    case True
    let ?n = "pos L (B @ zs)"
    have n: "list_next h y = Some ?n" using dlist_next[OF d2] .
    have d3: "dlist h L ((xs @ x # A @ [y]) @ B @ zs)" using both.prems by simp
    have p: "list_prev h ?n = Some y" using dlist_prev[OF d3] by simp
    have d4: "dlist h L (xs @ (x # A) @ [y] @ (B @ zs))" using both.prems by simp
    obtain h1 where h1: "list_splice h x y ?n = Some h1" "dlist h1 L (xs @ [y] @ (x # A) @ B @ zs)"
      "agree_off (set (nodes L (xs @ (x # A) @ [y] @ B @ zs))) h h1"
      using dlist_splice[OF d4] by auto
    obtain h' where h': "merge_loop h1 lt x ?n ?b1 = Some h'"
      "dlist h' L ((xs @ [y]) @ merge_runs lt (x # A) B @ zs)"
      "agree_off (set (nodes L ((xs @ [y]) @ (x # A) @ B @ zs))) h1 h'"
      using both.IH(2)[OF True, of h1 "xs @ [y]"] h1 by auto
    have "agree_off (set (nodes L (xs @ (x # A) @ (y # B) @ zs))) h h'"
      by (rule agree_off_trans2[OF h1(3)[simplified] h'(3), THEN agree_off_mono])
        (auto simp: nodes_def)
    then show ?thesis
      using n p h1 h' xy True by (subst merge_loop.simps) simp
  qed
qed (auto simp: merge_loop.simps)

lemma dlist_sort_pass:
  shows "dlist h L (xs @ ys) \<Longrightarrow>
    \<exists>h'. sort_pass h L lt (pos L ys) n = Some (n + snd (merge_pass lt ys), h') \<and>
      dlist h' L (xs @ fst (merge_pass lt ys)) \<and> agree_off (set (nodes L (xs @ ys))) h h'"
proof (induction ys arbitrary: h xs n rule: merge_pass_induct[where lt = lt])
  case Nil
  then show ?case by (subst sort_pass.simps) (simp add: dlist_end)
next
  case (one x ys r)
  have "x \<noteq> ltail L" using one by (auto simp: dlist_def nodes_def)
  moreover have "r = x # ys" using split_run_append[OF one(1)] by simp
  ultimately show ?case
    using one dlist_find_end_of_run[OF one(2), of lt]
    by (subst sort_pass.simps) (simp add: dlist_end)
next
  case (two x xs' r y ys r2 rest)
  have e: "x # xs' = r @ y # ys" "y # ys = r2 @ rest" "r \<noteq> []" "r2 \<noteq> []"
    using split_run_append[OF two(1)] split_run_append[OF two(2)] by auto
  have x: "pos L (r @ zs) = x" "pos L (r2 @ zs) = y" for zs
    using e by (cases r; cases r2; simp)+
  have dx: "dlist h L (xs @ x # xs')" and dy: "dlist h L ((xs @ r) @ y # ys)"
    using two.prems e(1) by simp_all
  have t: "x \<noteq> ltail L" "y \<noteq> ltail L"
    using pos_eq_tail[OF dx] pos_eq_tail[OF dy] by simp_all
  have run1: "find_end_of_run h lt x (ltail L) = Some y"
    using dlist_find_end_of_run[OF dx, of lt] two(1) by simp
  have run2: "find_end_of_run h lt y (ltail L) = Some (pos L rest)"
    using dlist_find_end_of_run[OF dy, of lt] two(2) by simp
  have d: "dlist h L (xs @ r @ r2 @ rest)" using two.prems e by simp
  obtain h1 where h1: "merge_loop h lt x y (pos L rest) = Some h1"
    "dlist h1 L (xs @ merge_runs lt r r2 @ rest)" "agree_off (set (nodes L (xs @ x # xs'))) h h1"
    using dlist_merge_loop[OF d, of lt] x e by auto
  have s1: "is_sorted h lt x y = Some True"
    using dlist_is_sorted[OF d, of lt] x split_run_desc[OF two(1)] by simp
  have "dlist h L ((xs @ r) @ r2 @ rest)" using d by simp
  from dlist_is_sorted[OF this, of lt] have s2: "is_sorted h lt y (pos L rest) = Some True"
    using x split_run_desc[OF two(2)] by simp
  have "x \<noteq> NULL" "y \<noteq> NULL" "pos L rest \<noteq> NULL"
    using dlist_links[OF dx] dlist_links[OF dy] d pos_in[of L rest]
    by (auto simp: dlist_def nodes_def)
  with h1 s1 s2 have im: "inplace_merge h lt x y (pos L rest) = Some h1"
    by (simp add: inplace_merge_def)
  have "dlist h1 L ((xs @ merge_runs lt r r2) @ rest)" using h1 by simp
  from two.IH[OF this, of "n + 1"] obtain h' where h':
    "sort_pass h1 L lt (pos L rest) (n + 1) = Some (n + 1 + snd (merge_pass lt rest), h')"
    "dlist h' L ((xs @ merge_runs lt r r2) @ fst (merge_pass lt rest))"
    "agree_off (set (nodes L ((xs @ merge_runs lt r r2) @ rest))) h1 h'" by auto
  have "set (nodes L ((xs @ merge_runs lt r r2) @ rest)) = set (nodes L (xs @ x # xs'))"
    using e by (auto simp: nodes_def)
  from agree_off_trans2[OF h1(3) h'(3) this[symmetric]]
  have ag: "agree_off (set (nodes L (xs @ x # xs'))) h h'" .
  have mp: "merge_pass lt (x # xs') =
      (merge_runs lt r r2 @ fst (merge_pass lt rest), Suc (snd (merge_pass lt rest)))"
    using two(1,2) by (simp split: prod.splits)
  have "sort_pass h L lt x n = Some (n + snd (merge_pass lt (x # xs')), h')"
    using t run1 run2 im h'(1) unfolding mp
    by (subst sort_pass.simps) (simp add: dlist_end[OF two.prems])
  then show ?case using h'(2) ag unfolding mp by auto
qed

text \<open>
  The sort loop ends because a pass that outputs more than one run leaves fewer descents.
\<close>

lemma dlist_sort_loop:
  assumes "strict_weak_order lt"
  shows "dlist h L xs \<Longrightarrow> \<exists>h' ys. sort_loop h L lt = Some h' \<and> dlist h' L ys \<and> mset ys = mset xs \<and>
    ordered lt ys \<and> (\<forall>k. filter (eqv lt k) ys = filter (eqv lt k) xs) \<and> agree_off (set (nodes L xs)) h h'"
proof (induction "desc lt xs" arbitrary: h xs rule: less_induct)
  case less
  let ?out = "fst (merge_pass lt xs)" and ?n = "snd (merge_pass lt xs)"
  obtain h1 where h1: "sort_pass h L lt (pos L xs) 0 = Some (?n, h1)" "dlist h1 L ?out"
    "agree_off (set (nodes L xs)) h h1"
    using dlist_sort_pass[of h L "[]" xs lt 0, unfolded append_Nil add_0] less.prems by blast
  have m: "mset ?out = mset xs" by (rule mset_merge_pass)
  then have st: "set (nodes L ?out) = set (nodes L xs)"
    using mset_eq_setD[OF m] by (simp add: nodes_def)
  note stab = strict_weak_order.stable_merge_pass[OF assms]
  show ?case
  proof (cases "?n > 1")
    case True
    then have "desc lt ?out < desc lt xs"
      by (rule strict_weak_order.merge_pass_decreases[OF assms])
    from less.hyps[OF this h1(2)] obtain h' ys where h': "sort_loop h1 L lt = Some h'"
      "dlist h' L ys" "mset ys = mset ?out" "ordered lt ys"
      "\<forall>k. filter (eqv lt k) ys = filter (eqv lt k) ?out" "agree_off (set (nodes L ?out)) h1 h'"
      by auto
    have "agree_off (set (nodes L xs)) h h'" using agree_off_trans2[OF h1(3) h'(6) st[symmetric]] .
    moreover have "sort_loop h L lt = Some h'"
      using h1 h' True by (subst sort_loop.simps) (simp add: dlist_begin[OF less.prems])
    ultimately show ?thesis using h' m stab by auto
  next
    case False
    then have "ordered lt ?out"
      using strict_weak_order.merge_pass_done[OF assms, of xs] by simp
    moreover have "sort_loop h L lt = Some h1"
      using h1 False by (subst sort_loop.simps) (simp add: dlist_begin[OF less.prems])
    ultimately show ?thesis using h1 m stab by blast
  qed
qed

theorem dlist_sort:
  assumes "strict_weak_order lt" "dlist h L xs"
  shows "\<exists>h' ys. list_sort h L lt = Some h' \<and> dlist h' L ys \<and> mset ys = mset xs \<and>
    ordered lt ys \<and> (\<forall>k. filter (eqv lt k) ys = filter (eqv lt k) xs) \<and> agree_off (set (nodes L xs)) h h'"
proof -
  obtain h' ys where h': "sort_loop h L lt = Some h'" "dlist h' L ys" "mset ys = mset xs"
    "ordered lt ys" "\<forall>k. filter (eqv lt k) ys = filter (eqv lt k) xs" "agree_off (set (nodes L xs)) h h'"
    using dlist_sort_loop[OF assms] by auto
  have "is_sorted h' lt (pos L ys) (ltail L) = Some True"
    using dlist_is_sorted[of h' L "[]" ys "[]" lt] h'(2,4)
      strict_weak_order.desc_0_ordered[OF assms(1)] by simp
  then have "list_sort h L lt = Some h'"
    using h'(1,2) dlist_not_NULL[OF assms(2)]
    by (simp add: list_sort_def dlist_begin[OF h'(2)] dlist_end[OF h'(2)])
  then show ?thesis using h' by blast
qed

text \<open>Sorting by a key in descending order, the way the ready queue is sorted.\<close>

lemma stable_sort_key_unique:
  fixes f :: "'a \<Rightarrow> 'k::linorder"
  assumes "lt = (\<lambda>x y. f x < f y)" "mset ys = mset xs" "ordered lt ys"
    "\<forall>k. filter (eqv lt k) ys = filter (eqv lt k) xs"
  shows "ys = sort_key f xs"
proof (rule properties_for_sort_key[symmetric])
  have e: "eqv lt k = (\<lambda>x. f k = f x)" for k using assms(1) by (auto simp: eqv_def fun_eq_iff)
  show "filter (\<lambda>x. f k = f x) ys = filter (\<lambda>x. f k = f x) xs" for k
    using assms(4) e by simp
  show "sorted (map f ys)"
    using assms(1,3) by (simp add: ordered_def sorted_map not_less)
qed (use assms in auto)

text \<open>What \<open>list_sort\<close> leaves is one function of the list: \<open>stable_sort lt\<close>, the ordered
  permutation in which equivalent elements keep their order.\<close>

definition ins_first :: "('a \<Rightarrow> 'a \<Rightarrow> bool) \<Rightarrow> 'a \<Rightarrow> 'a list \<Rightarrow> 'a list" where
  "ins_first lt x ys = takeWhile (\<lambda>y. lt y x) ys @ x # dropWhile (\<lambda>y. lt y x) ys"

definition stable_sort :: "('a \<Rightarrow> 'a \<Rightarrow> bool) \<Rightarrow> 'a list \<Rightarrow> 'a list" where
  "stable_sort lt xs = foldr (ins_first lt) xs []"

lemma stable_sort_Nil [simp]: "stable_sort lt [] = []"
  by (simp add: stable_sort_def)

lemma stable_sort_Cons: "stable_sort lt (x # xs) = ins_first lt x (stable_sort lt xs)"
  by (simp add: stable_sort_def)

lemma mset_ins_first [simp]: "mset (ins_first lt x ys) = add_mset x (mset ys)"
proof -
  have "mset (takeWhile (\<lambda>y. lt y x) ys) + mset (dropWhile (\<lambda>y. lt y x) ys) = mset ys"
    by (metis mset_append takeWhile_dropWhile_id)
  then show ?thesis by (simp add: ins_first_def)
qed

lemma mset_stable_sort [simp]: "mset (stable_sort lt xs) = mset xs"
  by (induction xs) (simp_all add: stable_sort_Cons)

lemma set_stable_sort [simp]: "set (stable_sort lt xs) = set xs"
  using mset_eq_setD[OF mset_stable_sort] .

lemma length_stable_sort [simp]: "length (stable_sort lt xs) = length xs"
  using mset_eq_length[OF mset_stable_sort] .

lemma distinct_stable_sort [simp]: "distinct (stable_sort lt xs) = distinct xs"
  by (rule mset_eq_imp_distinct_iff) simp

lemma stable_sort_eq_Nil [simp]: "stable_sort lt xs = [] \<longleftrightarrow> xs = []"
  by (metis length_0_conv length_stable_sort)

context strict_weak_order
begin

lemma ordered_ins_first: "ordered lt ys \<Longrightarrow> ordered lt (ins_first lt x ys)"
proof (induction ys)
  case (Cons y ys)
  show ?case
  proof (cases "lt y x")
    case True
    then have i: "ins_first lt x (y # ys) = y # ins_first lt x ys" by (simp add: ins_first_def)
    have "set (ins_first lt x ys) = insert x (set ys)"
      by (metis mset_ins_first set_mset_add_mset_insert set_mset_mset)
    then show ?thesis using Cons True less_asym by (auto simp: i)
  next
    case False
    then have i: "ins_first lt x (y # ys) = x # y # ys" by (simp add: ins_first_def)
    show ?thesis unfolding i using Cons.prems False not_less_trans[of y x] by auto
  qed
qed (simp add: ins_first_def)

lemma ordered_stable_sort: "ordered lt (stable_sort lt xs)"
  by (induction xs) (simp_all add: stable_sort_Cons ordered_ins_first)

lemma eqv_lessD: "eqv lt k x \<Longrightarrow> lt y x \<Longrightarrow> \<not> eqv lt k y"
  using less_asym not_less_trans unfolding eqv_def by blast

lemma filter_ins_first:
  "filter (eqv lt k) (ins_first lt x ys) = filter (eqv lt k) (x # ys)"
proof (cases "eqv lt k x")
  case True
  have "filter (eqv lt k) (takeWhile (\<lambda>y. lt y x) ys) = []"
    using eqv_lessD[OF True] by (auto simp: filter_empty_conv dest: set_takeWhileD)
  then show ?thesis using True
    by (simp add: ins_first_def) (metis append_Nil filter_append takeWhile_dropWhile_id)
next
  case False
  then show ?thesis
    by (simp add: ins_first_def) (metis filter_append takeWhile_dropWhile_id)
qed

lemma filter_stable_sort: "filter (eqv lt k) (stable_sort lt xs) = filter (eqv lt k) xs"
  by (induction xs) (simp_all add: stable_sort_Cons filter_ins_first)

lemma stable_sort_unique:
  "mset ys = mset xs \<Longrightarrow> ordered lt xs \<Longrightarrow> ordered lt ys \<Longrightarrow>
   (\<And>k. filter (eqv lt k) ys = filter (eqv lt k) xs) \<Longrightarrow> ys = xs"
proof (induction xs arbitrary: ys)
  case (Cons x xs)
  then obtain y ys' where ys: "ys = y # ys'" by (cases ys) auto
  have se: "set (y # ys') = set (x # xs)" using Cons.prems(1) ys mset_eq_setD by blast
  have "y \<in> set (x # xs)" "x \<in> set (y # ys')" using se by auto
  then have "\<not> lt y x" "\<not> lt x y"
    using Cons.prems(2,3) less_irrefl unfolding ys by auto
  then have e: "eqv lt x y" "eqv lt x x" using less_irrefl by (auto simp: eqv_def)
  have xy: "y = x" using Cons.prems(4)[of x] e by (simp add: ys)
  have "filter (eqv lt k) ys' = filter (eqv lt k) xs" for k
    using Cons.prems(4)[of k] by (simp add: ys xy split: if_splits)
  then have "ys' = xs" using Cons.prems Cons.IH[of ys'] by (simp add: ys xy)
  then show ?case by (simp add: ys xy)
qed simp

end

corollary dlist_sort_stable:
  assumes "strict_weak_order lt" "dlist h L xs"
  shows "\<exists>h'. list_sort h L lt = Some h' \<and> dlist h' L (stable_sort lt xs) \<and>
    agree_off (set (nodes L xs)) h h'"
proof -
  obtain h' ys where h': "list_sort h L lt = Some h'" "dlist h' L ys" "mset ys = mset xs"
    "ordered lt ys" "\<forall>k. filter (eqv lt k) ys = filter (eqv lt k) xs"
    "agree_off (set (nodes L xs)) h h'"
    using dlist_sort[OF assms] by blast
  have "filter (eqv lt k) ys = filter (eqv lt k) (stable_sort lt xs)" for k
    using h'(5) strict_weak_order.filter_stable_sort[OF assms(1), of k xs] by simp
  moreover have "mset ys = mset (stable_sort lt xs)" using h'(3) by simp
  ultimately have "ys = stable_sort lt xs"
    using strict_weak_order.stable_sort_unique[OF assms(1)]
      strict_weak_order.ordered_stable_sort[OF assms(1)] h'(4) by metis
  then show ?thesis using h'(1,2,6) by metis
qed

section \<open>Ordered insertion, reversal, duplicates, extrema\<close>

lemma dlist_insert_ordered_loop:
  "dlist h L (xs @ ys) \<Longrightarrow>
     insert_ordered_loop h L lt e (pos L ys) = Some (pos L (dropWhile (\<lambda>x. \<not> lt e x) ys))"
proof (induction ys arbitrary: xs)
  case Nil
  then show ?case by (subst insert_ordered_loop.simps) (simp add: dlist_end)
next
  case (Cons y ys)
  have d: "dlist h L (xs @ y # ys)" "dlist h L ((xs @ [y]) @ ys)" using Cons.prems by simp_all
  then have "y \<noteq> ltail L" using pos_eq_tail[of h L xs "y # ys"] by simp
  then show ?case using Cons.IH[OF d(2)]
    by (subst insert_ordered_loop.simps) (simp add: dlist_end[OF d(1)] dlist_next[OF d(1)])
qed

theorem dlist_insert_ordered:
  assumes d: "dlist h L xs" and e: "e \<notin> set (nodes L xs)" "e \<noteq> NULL"
  shows "\<exists>h'. list_insert_ordered h L e lt = Some h' \<and> dlist h' L (ins_ord lt e xs) \<and>
    agree_off (insert e (set (nodes L xs))) h h'"
proof -
  let ?p = "\<lambda>x. \<not> lt e x"
  have s: "takeWhile ?p xs @ dropWhile ?p xs = xs" by simp
  have "dlist h L (takeWhile ?p xs @ dropWhile ?p xs)" using d by simp
  from dlist_insert[OF this, of e] e obtain h' where
    "list_insert h (pos L (dropWhile ?p xs)) e = Some h'" "dlist h' L (ins_ord lt e xs)"
    "agree_off (insert e (set (nodes L xs))) h h'" unfolding ins_ord_def s by auto
  moreover have "insert_ordered_loop h L lt e (pos L xs) = Some (pos L (dropWhile ?p xs))"
    using dlist_insert_ordered_loop[of h L "[]" xs] d by simp
  ultimately show ?thesis
    using dlist_not_NULL[OF d] e by (simp add: list_insert_ordered_def dlist_begin[OF d])
qed

lemma mset_ins_ord [simp]: "mset (ins_ord lt e xs) = add_mset e (mset xs)"
proof -
  have "mset xs = mset (takeWhile (\<lambda>x. \<not> lt e x) xs) + mset (dropWhile (\<lambda>x. \<not> lt e x) xs)"
    by (metis mset_append takeWhile_dropWhile_id)
  then show ?thesis by (simp add: ins_ord_def)
qed

lemma set_ins_ord [simp]: "set (ins_ord lt e xs) = insert e (set xs)"
  by (simp flip: set_mset_mset)

context strict_weak_order
begin

lemma ordered_ins_ord: "ordered lt xs \<Longrightarrow> ordered lt (ins_ord lt e xs)"
proof (induction xs)
  case (Cons x xs)
  show ?case
  proof (cases "lt e x")
    case True
    then have "\<not> lt z e" if "z \<in> set (x # xs)" for z
      using that Cons.prems less_asym less_not_less_trans[OF True, of z] by auto
    with True Cons show ?thesis by (auto simp: ins_ord_def)
  next
    case False
    then have i: "ins_ord lt e (x # xs) = x # ins_ord lt e xs" by (simp add: ins_ord_def)
    show ?thesis unfolding i using Cons False by auto
  qed
qed (simp add: ins_ord_def)

end

text \<open>\<open>list_max\<close> and \<open>list_min\<close> return the first extremal element, as a left fold.\<close>

definition pick_max :: "('a \<Rightarrow> 'a \<Rightarrow> bool) \<Rightarrow> 'a \<Rightarrow> 'a list \<Rightarrow> 'a" where
  "pick_max lt m xs = foldl (\<lambda>m x. if lt m x then x else m) m xs"

lemma dlist_max_loop:
  "dlist h L (xs @ ys) \<Longrightarrow> max_loop h L lt m (pos L ys) = Some (pick_max lt m ys)"
proof (induction ys arbitrary: xs m)
  case Nil
  then show ?case by (subst max_loop.simps) (simp add: dlist_end pick_max_def)
next
  case (Cons y ys)
  have d: "dlist h L (xs @ y # ys)" "dlist h L ((xs @ [y]) @ ys)" using Cons.prems by simp_all
  then have "y \<noteq> ltail L" using pos_eq_tail[of h L xs "y # ys"] by simp
  then show ?case using Cons.IH[OF d(2)]
    by (subst max_loop.simps) (simp add: dlist_end[OF d(1)] dlist_next[OF d(1)] pick_max_def)
qed

lemma dlist_min_loop:
  "dlist h L (xs @ ys) \<Longrightarrow> min_loop h L lt m (pos L ys) = Some (pick_max (\<lambda>x y. lt y x) m ys)"
proof (induction ys arbitrary: xs m)
  case Nil
  then show ?case by (subst min_loop.simps) (simp add: dlist_end pick_max_def)
next
  case (Cons y ys)
  have d: "dlist h L (xs @ y # ys)" "dlist h L ((xs @ [y]) @ ys)" using Cons.prems by simp_all
  then have "y \<noteq> ltail L" using pos_eq_tail[of h L xs "y # ys"] by simp
  then show ?case using Cons.IH[OF d(2)]
    by (subst min_loop.simps) (simp add: dlist_end[OF d(1)] dlist_next[OF d(1)] pick_max_def)
qed

lemma dlist_max:
  assumes d: "dlist h L (x # xs)"
  shows "list_max h L lt = Some (pick_max lt x xs)"
  using dlist_max_loop[of h L "[x]" xs lt x] dlist_next[of h L "[]" x xs] d pos_eq_tail[of h L "[]" "x # xs"]
  by (simp add: list_max_def dlist_begin[OF d] dlist_end[OF d])

lemma dlist_min:
  assumes d: "dlist h L (x # xs)"
  shows "list_min h L lt = Some (pick_max (\<lambda>x y. lt y x) x xs)"
  using dlist_min_loop[of h L "[x]" xs lt x] dlist_next[of h L "[]" x xs] d pos_eq_tail[of h L "[]" "x # xs"]
  by (simp add: list_min_def dlist_begin[OF d] dlist_end[OF d])

lemma dlist_max_min_empty:
  "dlist h L [] \<Longrightarrow> list_max h L lt = Some (ltail L)"
  "dlist h L [] \<Longrightarrow> list_min h L lt = Some (ltail L)"
  by (simp_all add: list_max_def list_min_def dlist_begin dlist_end)

context strict_weak_order
begin

lemma pick_max_first:
  "\<exists>as bs. m # xs = as @ pick_max lt m xs # bs \<and> (\<forall>a\<in>set as. lt a (pick_max lt m xs)) \<and>
     (\<forall>b\<in>set bs. \<not> lt (pick_max lt m xs) b)"
proof (induction xs rule: rev_induct)
  case (snoc x xs)
  let ?p = "pick_max lt m xs"
  obtain as bs where s: "m # xs = as @ ?p # bs" "\<forall>a\<in>set as. lt a ?p" "\<forall>b\<in>set bs. \<not> lt ?p b"
    using snoc by blast
  show ?case
  proof (cases "lt ?p x")
    case True
    then have p: "pick_max lt m (xs @ [x]) = x" by (simp add: pick_max_def)
    have "lt a x" if "a \<in> set (m # xs)" for a
      using that s less_trans[OF _ True] not_less_less_trans[OF _ True] True by auto
    then have "m # xs @ [x] = (m # xs) @ x # [] \<and> (\<forall>a\<in>set (m # xs). lt a x)" by auto
    then show ?thesis unfolding p by (metis empty_iff list.set(1))
  next
    case False
    then have p: "pick_max lt m (xs @ [x]) = ?p" by (simp add: pick_max_def)
    have "m # xs @ [x] = as @ ?p # (bs @ [x]) \<and> (\<forall>b\<in>set (bs @ [x]). \<not> lt ?p b)"
      using s False by auto
    then show ?thesis unfolding p using s(2) by blast
  qed
next
  case Nil
  show ?case by (rule exI[of _ "[]"]) (simp add: pick_max_def)
qed

end

text \<open>\<open>list_unique\<close> keeps the first of each group of adjacent equals and hands out the others.\<close>

fun uniq :: "('a \<Rightarrow> 'a \<Rightarrow> bool) \<Rightarrow> 'a \<Rightarrow> 'a list \<Rightarrow> 'a list \<times> 'a list" where
  "uniq lt x [] = ([x], [])"
| "uniq lt x (y # ys) =
     (if eqv lt x y then (case uniq lt x ys of (keep, out) \<Rightarrow> (keep, y # out))
      else (case uniq lt y ys of (keep, out) \<Rightarrow> (x # keep, out)))"

lemma dlist_unique_loop:
  assumes "case dups of None \<Rightarrow> True | Some D \<Rightarrow>
      dlist h D ds \<and> set (nodes D ds) \<inter> set (nodes L (xs @ e # ys)) = {}"
    and "dlist h L (xs @ e # ys)"
  shows "\<exists>h'. unique_loop h L dups lt e = Some h' \<and> dlist h' L (xs @ fst (uniq lt e ys)) \<and>
    (case dups of None \<Rightarrow> True | Some D \<Rightarrow> dlist h' D (ds @ snd (uniq lt e ys)))"
  using assms
proof (induction lt e ys arbitrary: h xs ds rule: uniq.induct)
  case (1 lt e)
  have d: "dlist h L (xs @ e # [])" using "1.prems" by simp
  show ?case
    using "1.prems" dlist_next[OF d] by (subst unique_loop.simps) (auto simp: dlist_end[OF d] split: option.splits)
next
  case (2 lt e n ys)
  have d: "dlist h L (xs @ e # n # ys)" and d2: "dlist h L ((xs @ [e]) @ n # ys)"
    using "2.prems" by simp_all
  have n: "list_next h e = Some n" "n \<noteq> ltail L"
    using dlist_next[OF d] pos_eq_tail[OF d2] by simp_all
  show ?case
  proof (cases "eqv lt e n")
    case False
    have "\<exists>h'. unique_loop h L dups lt n = Some h' \<and> dlist h' L ((xs @ [e]) @ fst (uniq lt n ys)) \<and>
      (case dups of None \<Rightarrow> True | Some D \<Rightarrow> dlist h' D (ds @ snd (uniq lt n ys)))"
      using "2.IH"(2)[OF False, of h ds "xs @ [e]"] "2.prems" by (auto split: option.splits)
    moreover have u: "uniq lt e (n # ys) = (e # fst (uniq lt n ys), snd (uniq lt n ys))"
      using False by (simp split: prod.splits)
    moreover have "unique_loop h L dups lt e = unique_loop h L dups lt n"
      using False n by (subst unique_loop.simps) (auto simp: dlist_end[OF d] eqv_def)
    ultimately show ?thesis unfolding u fst_conv snd_conv by simp
  next
    case True
    obtain h1 where h1: "list_remove h n = Some (pos L ys, h1)" "dlist h1 L (xs @ e # ys)"
      "agree_off (set (nodes L (xs @ e # ys))) h h1"
      using dlist_remove[OF d2] by auto
    have sub: "set (nodes L (xs @ e # ys)) \<subseteq> set (nodes L (xs @ e # n # ys))"
      "n \<in> set (nodes L (xs @ e # n # ys))" "n \<notin> set (nodes L (xs @ e # ys))" "n \<noteq> NULL"
      using d by (auto simp: nodes_def dlist_def)
    show ?thesis
    proof (cases dups)
      case None
      then show ?thesis
        using "2.IH"(1)[OF True, of h1 ds xs] h1 True n
        by (subst unique_loop.simps) (auto simp: dlist_end[OF d] eqv_def split: prod.splits)
    next
      case (Some D)
      have D: "dlist h D ds" "set (nodes D ds) \<inter> set (nodes L (xs @ e # n # ys)) = {}"
        using "2.prems"(1) Some by auto
      have "dlist h1 D ds"
        using D sub by (subst dlist_agree[OF h1(3)]) auto
      then obtain h2 where h2: "list_push_back h1 D n = Some h2" "dlist h2 D (ds @ [n])"
        "agree_off (insert n (set (nodes D ds))) h1 h2"
        using dlist_push_back[of h1 D ds n] D sub by auto
      have "dlist h2 L (xs @ e # ys)"
        using h1(2) D sub by (subst dlist_agree[OF h2(3)]) auto
      moreover have "set (nodes D (ds @ [n])) \<inter> set (nodes L (xs @ e # ys)) = {}"
        using D sub by (auto simp: nodes_def)
      ultimately show ?thesis
        using "2.IH"(1)[OF True, of h2 "ds @ [n]" xs] h1 h2 True n Some
        by (subst unique_loop.simps) (auto simp: dlist_end[OF d] eqv_def split: prod.splits)
    qed
  qed
qed

definition swap_all :: "lheap \<Rightarrow> ptr set \<Rightarrow> lheap" where
  "swap_all h S = (\<lambda>p. if p \<in> S then swap_links h p p else h p)"

lemma swap_links_self: "swap_links h p p = \<lparr>le_prev = le_next (h p), le_next = le_prev (h p)\<rparr>"
  by (simp add: swap_links_def)

lemma chain_rev_swap: "chain h ps \<Longrightarrow> set ps \<subseteq> S \<Longrightarrow> chain (swap_all h S) (rev ps)"
proof (induction h ps rule: chain.induct)
  case (3 h p q ps)
  have "chain (swap_all h S) (rev (q # ps) @ [p])"
    using 3 by (subst chain_append) (auto simp: swap_all_def swap_links_self)
  then show ?case by simp
qed auto

lemma dlist_reverse_loop:
  "dlist h L (xs @ ys) \<Longrightarrow> g = swap_all h (set xs) \<Longrightarrow>
     list_reverse_loop g L (pos L ys) = Some (swap_all h (set (xs @ ys)))"
proof (induction ys arbitrary: xs g)
  case Nil
  then show ?case by (subst list_reverse_loop.simps) (simp add: dlist_end[OF Nil(1)])
next
  case (Cons y ys)
  have d: "dlist h L (xs @ y # ys)" "dlist h L ((xs @ [y]) @ ys)" using Cons.prems by simp_all
  then have y: "y \<noteq> ltail L" "y \<notin> set xs" "y \<noteq> NULL"
    using pos_eq_tail[of h L xs "y # ys"] by (auto simp: dlist_def nodes_def)
  have g: "swap_links g y = swap_all h (set (xs @ [y]))"
    using y Cons.prems(2) by (auto simp: swap_links_def swap_all_def fun_eq_iff)
  have "le_prev (swap_links g y y) = pos L ys"
    unfolding g using dlist_links(2)[OF d(1)] by (simp add: swap_all_def swap_links_self)
  then show ?case using Cons.IH[OF d(2) g] y
    by (subst list_reverse_loop.simps) (simp add: dlist_end[OF d(1)] Let_def)
qed

lemma dlist_reverse:
  assumes d: "dlist h L xs"
  shows "\<exists>h'. list_reverse h L = Some h' \<and> dlist h' L (rev xs) \<and> agree_off (set (nodes L xs)) h h'"
proof (cases "xs = []")
  case True
  then show ?thesis using d dlist_empty[OF d] by (auto simp: list_reverse_def)
next
  case False
  let ?g = "swap_all h (set xs)" and ?a = "hd xs" and ?z = "last xs"
  let ?h = "set_next (set_prev (set_prev (set_next ?g (lhead L) ?z) (ltail L) ?a) ?z (lhead L)) ?a (ltail L)"
  have g0: "h = swap_all h {}" by (simp add: swap_all_def)
  have loop: "list_reverse_loop h L (pos L xs) = Some ?g"
    using dlist_reverse_loop[of h L "[]" xs h] d g0 by simp
  obtain y ys where y: "xs = y # ys" using False by (cases xs) auto
  obtain ws w where w: "xs = ws @ [w]" using False by (cases xs rule: rev_cases) auto
  have ly: "le_prev (h y) = lhead L" "le_next (h (lhead L)) = y"
    using dlist_links[of h L "[]" y ys] d y by auto
  have lw: "le_next (h w) = ltail L" "le_prev (h (ltail L)) = w"
    using dlist_links[of h L ws w "[]"] d w by auto
  have mem: "lhead L \<notin> set xs" "ltail L \<notin> set xs" "lhead L \<noteq> ltail L" "?a \<in> set xs" "?z \<in> set xs"
    "distinct xs" "NULL \<notin> set (nodes L xs)" "le_prev (h (lhead L)) = NULL" "le_next (h (ltail L)) = NULL"
    using d False by (auto simp: dlist_def nodes_def)
  have az: "?a = y" "?z = w" using y by simp (simp add: w)
  have gs: "le_next (?g (lhead L)) = ?a" "le_prev (?g (ltail L)) = ?z" "le_prev (?g ?z) = ltail L"
    "le_next (?g ?a) = lhead L" "le_prev (?g (lhead L)) = NULL" "le_next (?g (ltail L)) = NULL"
    using mem ly lw unfolding az by (auto simp: swap_all_def swap_links_self)
  have neq: "?a \<noteq> lhead L" "?a \<noteq> ltail L" "?z \<noteq> lhead L" "?z \<noteq> ltail L" using mem by auto
  have rev: "list_reverse h L = Some ?h"
    using False neq gs mem(3) mem(3)[symmetric] neq[symmetric]
    by (simp add: list_reverse_def dlist_empty[OF d] dlist_begin[OF d] loop Let_def)
  have "chain h (lhead L # xs)" using d dlist_split[of h L xs "[]"] by simp
  then have "chain h xs" using False by (simp add: chain_Cons)
  then have cg: "chain ?g (rev xs)" by (rule chain_rev_swap) simp
  have hr: "hd (rev xs) = ?z" "last (rev xs) = ?a" using False by (simp_all add: hd_rev last_rev)
  have "chain ?h (rev xs)"
    using cg mem neq last_notin_butlast[of "rev xs"] hd_notin_tl[of "rev xs"] False hr
    by (simp add: chain_set_next chain_set_prev chain_set_notin)
  moreover have "le_next (?h (lhead L)) = ?z" "le_prev (?h ?z) = lhead L"
    "le_next (?h ?a) = ltail L" "le_prev (?h (ltail L)) = ?a"
    "le_prev (?h (lhead L)) = NULL" "le_next (?h (ltail L)) = NULL"
    using neq neq[symmetric] gs mem(3) by auto
  ultimately have "dlist ?h L (rev xs)"
    using False mem hr d
    by (auto simp: dlist_def nodes_def chain_append chain_Cons)
  moreover have "agree_off (set xs) h ?g" by (auto simp: agree_off_def swap_all_def)
  then have "agree_off (set (nodes L xs)) h ?h"
    using mem by (intro agree_off_set) (auto simp: nodes_def elim: agree_off_mono)
  ultimately show ?thesis using rev by blast
qed

end
