(* ===== verification/FixedPoint.thy ===== *)
theory FixedPoint
  imports CInt
begin

text \<open>
  \<open>threads/fixed-point.h\<close> of project 1: the 17.14 fixed-point numbers of the multi-level
  feedback queue scheduler. Both \<open>fixed_point\<close> and \<open>int\<close> are 32-bit; products and quotients of
  two fixed-point numbers go through \<open>int64_t\<close>. A division by zero traps, which is
  \<^const>\<open>None\<close> here.
\<close>

section \<open>The operations\<close>

definition FP_F :: int where "FP_F = 16384"

definition int_to_fp :: "int \<Rightarrow> int" where
  "int_to_fp n = wrap32 (n * FP_F)"

definition fp_to_int_rtz :: "int \<Rightarrow> int" where
  "fp_to_int_rtz x = x sdiv FP_F"

definition fp_to_int_rtn :: "int \<Rightarrow> int" where
  "fp_to_int_rtn x =
     (if x \<ge> 0 then wrap32 (x + FP_F sdiv 2) sdiv FP_F else wrap32 (x - FP_F sdiv 2) sdiv FP_F)"

definition fp_add_fp :: "int \<Rightarrow> int \<Rightarrow> int" where
  "fp_add_fp x y = wrap32 (x + y)"

definition fp_minus_fp :: "int \<Rightarrow> int \<Rightarrow> int" where
  "fp_minus_fp x y = wrap32 (x - y)"

definition fp_add_int :: "int \<Rightarrow> int \<Rightarrow> int" where
  "fp_add_int x n = wrap32 (x + wrap32 (n * FP_F))"

definition fp_minus_int :: "int \<Rightarrow> int \<Rightarrow> int" where
  "fp_minus_int x n = wrap32 (x - wrap32 (n * FP_F))"

definition fp_time_fp :: "int \<Rightarrow> int \<Rightarrow> int" where
  "fp_time_fp x y = wrap32 (wrap64 (x * y) sdiv FP_F)"

definition fp_time_int :: "int \<Rightarrow> int \<Rightarrow> int" where
  "fp_time_int x n = wrap32 (x * n)"

definition fp_divideby_fp :: "int \<Rightarrow> int \<Rightarrow> int option" where
  "fp_divideby_fp x y = (if y = 0 then None else Some (wrap32 (wrap64 (x * FP_F) sdiv y)))"

definition fp_divideby_int :: "int \<Rightarrow> int \<Rightarrow> int option" where
  "fp_divideby_int x n = (if n = 0 then None else Some (wrap32 (x sdiv n)))"

section \<open>Accuracy\<close>

lemma FP_half [simp]: "FP_F sdiv 2 = 8192"
  by (simp add: FP_F_def sdiv_nonneg)

lemma int_to_fp_exact: "- 131072 \<le> n \<Longrightarrow> n < 131072 \<Longrightarrow> int_to_fp n = n * 16384"
  by (simp add: int_to_fp_def FP_F_def wrap32_idI)

lemma fp_to_int_rtz_exact: "fp_to_int_rtz (n * 16384) = n"
  by (cases "0 \<le> n") (simp_all add: fp_to_int_rtz_def FP_F_def sdiv_nonneg sdiv_neg)

lemma fp_to_int_rtn_exact:
  "- 131072 < n \<Longrightarrow> n < 131072 \<Longrightarrow> fp_to_int_rtn (n * 16384) = n"
  by (cases "0 \<le> n") (simp_all add: fp_to_int_rtn_def wrap32_idI, simp_all add: FP_F_def sdiv_nonneg sdiv_neg)

lemma fp_rtz_truncates:
  "\<bar>fp_to_int_rtz x\<bar> * 16384 \<le> \<bar>x\<bar> \<and> \<bar>x\<bar> - \<bar>fp_to_int_rtz x\<bar> * 16384 < 16384"
  using sdiv_bounds[of 16384 x] by (simp add: fp_to_int_rtz_def FP_F_def)

text \<open>Rounding to nearest is off by at most half a unit, unless adding the half overflows.\<close>

lemma fp_rtn_half:
  assumes "- 2147475456 \<le> x" "x \<le> 2147475455"
  shows "\<bar>fp_to_int_rtn x * 16384 - x\<bar> \<le> 8192"
proof (cases "0 \<le> x")
  case True
  then have r: "fp_to_int_rtn x = (x + 8192) div 16384"
    using assms by (simp add: fp_to_int_rtn_def wrap32_idI, simp add: FP_F_def sdiv_nonneg)
  show ?thesis unfolding r using mult_div_mod_eq[of 16384 "x + 8192"]
      pos_mod_bound[of 16384 "x + 8192"] pos_mod_sign[of 16384 "x + 8192"] by linarith
next
  case False
  then have r: "fp_to_int_rtn x = - ((8192 - x) div 16384)"
    using assms by (simp add: fp_to_int_rtn_def wrap32_idI, simp add: FP_F_def sdiv_neg)
  show ?thesis unfolding r using mult_div_mod_eq[of 16384 "8192 - x"]
      pos_mod_bound[of 16384 "8192 - x"] pos_mod_sign[of 16384 "8192 - x"] by linarith
qed

text \<open>Products and quotients are off by less than one unit in the last place.\<close>

lemma int32_mult_int64: "int32 x \<Longrightarrow> int32 y \<Longrightarrow> int64 (x * y)"
proof -
  assume "int32 x" "int32 y"
  then have "\<bar>x\<bar> \<le> 2147483648" "\<bar>y\<bar> \<le> 2147483648" by (auto simp: int32_def)
  then have "\<bar>x * y\<bar> \<le> 2147483648 * 2147483648"
    unfolding abs_mult by (intro mult_mono) auto
  then show ?thesis by (simp add: int64_def abs_le_iff)
qed

lemma fp_time_fp_err:
  assumes "int32 x" "int32 y" "int32 ((x * y) sdiv 16384)"
  shows "\<bar>fp_time_fp x y * 16384 - x * y\<bar> < 16384"
  using assms sdiv_err[of 16384 "x * y"] int32_mult_int64[of x y]
  by (simp add: fp_time_fp_def FP_F_def)

lemma fp_divideby_fp_err:
  assumes "int32 x" "y \<noteq> 0" "int32 ((x * 16384) sdiv y)"
  shows "\<exists>q. fp_divideby_fp x y = Some q \<and> \<bar>q * y - x * 16384\<bar> < \<bar>y\<bar>"
proof -
  have "int64 (x * 16384)" using assms(1) by (rule int32_mult_int64) (simp add: int32_def)
  then have "fp_divideby_fp x y = Some ((x * 16384) sdiv y)"
    using assms by (simp add: fp_divideby_fp_def FP_F_def)
  moreover have "\<bar>(x * 16384) sdiv y * y - x * 16384\<bar> < \<bar>y\<bar>"
  proof (cases "0 < y")
    case True
    then show ?thesis using sdiv_err[of y "x * 16384"] by simp
  next
    case False
    then show ?thesis using sdiv_err[of "- y" "x * 16384"] assms(2) by (simp add: sdiv_neg_right)
  qed
  ultimately show ?thesis by blast
qed

end
