(* ===== verification/LibraryProps.thy ===== *)
theory LibraryProps
  imports CListSort Bitmap HashTable FixedPoint
begin

text \<open>
  The properties of the kernel library that the rest of the kernel relies on: the intrusive list
  (\<open>lib/kernel/list.c\<close>), the bitmap (\<open>lib/kernel/bitmap.c\<close>) and the fixed-point numbers
  (\<open>threads/fixed-point.h\<close>), each a short consequence of the lemmas of its theory, with an
  instance on concrete data.
\<close>

section \<open>Lists\<close>

text \<open>A list with the elements 12, 10, 11 between its head 1 and its tail 2.\<close>

definition demo_list :: clist where
  "demo_list = \<lparr>lhead = 1, ltail = 2\<rparr>"

definition demo_heap :: lheap where
  "demo_heap = (\<lambda>_. \<lparr>le_prev = 0, le_next = 0\<rparr>)
     (1 := \<lparr>le_prev = 0, le_next = 12\<rparr>, 12 := \<lparr>le_prev = 1, le_next = 10\<rparr>,
      10 := \<lparr>le_prev = 12, le_next = 11\<rparr>, 11 := \<lparr>le_prev = 10, le_next = 2\<rparr>,
      2 := \<lparr>le_prev = 11, le_next = 0\<rparr>)"

lemma demo_dlist: "dlist demo_heap demo_list [12, 10, 11]"
  by (simp add: dlist_def nodes_def demo_heap_def demo_list_def)

lemma less_swo: "strict_weak_order ((<) :: ptr \<Rightarrow> ptr \<Rightarrow> bool)"
  by unfold_locales auto

text \<open>C14: \<open>list_sort\<close> returns on every well-formed list and every strict weak order. The list it
  leaves is an ordered permutation of the elements in which equivalent elements keep their order,
  and no link outside the list is written.\<close>

theorem list_sort_correct:
  assumes "strict_weak_order lt" "dlist h L xs"
  shows "\<exists>h' ys. list_sort h L lt = Some h' \<and> dlist h' L ys \<and> mset ys = mset xs \<and> ordered lt ys \<and>
    (\<forall>k. filter (eqv lt k) ys = filter (eqv lt k) xs) \<and> agree_off (set (nodes L xs)) h h'"
  by (rule dlist_sort[OF assms])

theorem list_sort_correct_witness:
  "\<exists>h' ys. list_sort demo_heap demo_list (<) = Some h' \<and> dlist h' demo_list ys \<and>
    mset ys = {#10, 11, 12#} \<and> ordered (<) ys"
proof -
  from list_sort_correct[OF less_swo demo_dlist] obtain h' ys where
    "list_sort demo_heap demo_list (<) = Some h'" "dlist h' demo_list ys"
    "mset ys = mset [12, 10, 11]" "ordered (<) ys" by blast
  then show ?thesis by auto
qed

text \<open>C22: \<open>list_insert_ordered\<close> puts an element in front of the first element that is greater,
  behind every element equivalent to it, and keeps the list ordered.\<close>

theorem list_insert_ordered_correct:
  assumes "strict_weak_order lt" "dlist h L xs" "ordered lt xs" "e \<notin> set (nodes L xs)" "e \<noteq> NULL"
  shows "\<exists>h' as bs. list_insert_ordered h L e lt = Some h' \<and> xs = as @ bs \<and>
    dlist h' L (as @ e # bs) \<and> ordered lt (as @ e # bs) \<and>
    (\<forall>a\<in>set as. \<not> lt e a) \<and> (\<forall>b\<in>set bs. lt e b)"
proof -
  let ?as = "takeWhile (\<lambda>x. \<not> lt e x) xs" and ?bs = "dropWhile (\<lambda>x. \<not> lt e x) xs"
  obtain h' where h': "list_insert_ordered h L e lt = Some h'" "dlist h' L (?as @ e # ?bs)"
    using dlist_insert_ordered[OF assms(2,4,5), of lt] unfolding ins_ord_def by blast
  have o: "ordered lt (?as @ e # ?bs)"
    using strict_weak_order.ordered_ins_ord[OF assms(1,3)] by (simp add: ins_ord_def)
  have "lt e b" if mem: "b \<in> set ?bs" for b
  proof -
    obtain c cs where c: "?bs = c # cs" using mem by (meson list.set_cases)
    then have ec: "lt e c" using dropWhile_eq_Cons_conv[of "\<lambda>x. \<not> lt e x" xs c cs] by simp
    moreover have "ordered lt (e # c # cs)"
      using o unfolding c ordered_def sorted_wrt_append by (elim conjE)
    then have "ordered lt (c # cs)" by (simp add: ordered_def)
    ultimately show ?thesis
      using mem strict_weak_order.less_not_less_trans[OF assms(1) ec] unfolding c by (auto simp: ordered_def)
  qed
  moreover have "\<forall>a\<in>set ?as. \<not> lt e a" by (auto dest: set_takeWhileD)
  moreover have "xs = ?as @ ?bs" by simp
  ultimately show ?thesis using h' o by blast
qed

theorem list_insert_ordered_correct_witness:
  "\<exists>h' as bs. list_insert_ordered demo_heap demo_list 7 (\<lambda>x y. False) = Some h' \<and>
    [12, 10, 11] = as @ bs \<and> dlist h' demo_list (as @ 7 # bs)"
proof -
  have s: "strict_weak_order (\<lambda>x y :: ptr. False)" by unfold_locales auto
  have o: "ordered (\<lambda>x y :: ptr. False) [12, 10, 11]" by (simp add: ordered_def)
  have e: "7 \<notin> set (nodes demo_list [12, 10, 11])" by (simp add: nodes_def demo_list_def)
  have "(7 :: ptr) \<noteq> NULL" by simp
  from list_insert_ordered_correct[OF s demo_dlist o e this] show ?thesis
    by (elim exE conjE, intro exI conjI)
qed

text \<open>\<open>list_splice\<close> moves a range of elements in front of another element of the list: exactly
  the two ranges change places.\<close>

theorem list_splice_swaps:
  assumes "dlist h L (xs @ M @ S @ zs)" "M \<noteq> []" "S \<noteq> []"
  shows "\<exists>h'. list_splice h (hd M) (hd S) (pos L zs) = Some h' \<and> dlist h' L (xs @ S @ M @ zs) \<and>
    agree_off (set (nodes L (xs @ M @ S @ zs))) h h'"
  by (rule dlist_splice[OF assms])

theorem list_splice_swaps_witness:
  "\<exists>h'. list_splice demo_heap 12 10 2 = Some h' \<and> dlist h' demo_list [10, 11, 12]"
proof -
  have "dlist demo_heap demo_list ([] @ [12] @ [10, 11] @ [])" using demo_dlist by simp
  from list_splice_swaps[OF this] show ?thesis by (auto simp: pos_def demo_list_def)
qed

text \<open>\<open>list_reverse\<close> returns and leaves exactly the reversed list.\<close>

theorem list_reverse_rev:
  assumes "dlist h L xs"
  shows "\<exists>h'. list_reverse h L = Some h' \<and> dlist h' L (rev xs) \<and> agree_off (set (nodes L xs)) h h'"
  by (rule dlist_reverse[OF assms])

theorem list_reverse_rev_witness:
  "\<exists>h'. list_reverse demo_heap demo_list = Some h' \<and> dlist h' demo_list [11, 10, 12]"
  using list_reverse_rev[OF demo_dlist] by auto

text \<open>\<open>list_unique\<close> keeps the first element of each group of adjacent equivalent elements and
  appends the others, in order, to the list of duplicates; no element is lost.\<close>

theorem list_unique_partitions:
  assumes "dlist h L (x # xs)" "dlist h D ds" "set (nodes D ds) \<inter> set (nodes L (x # xs)) = {}"
  shows "\<exists>h' keep out. list_unique h L (Some D) lt = Some h' \<and> dlist h' L keep \<and> dlist h' D (ds @ out) \<and>
    (keep, out) = uniq lt x xs \<and> mset keep + mset out = mset (x # xs)"
proof -
  have "mset (fst (uniq lt x xs)) + mset (snd (uniq lt x xs)) = mset (x # xs)"
    by (induction lt x xs rule: uniq.induct) (auto split: prod.splits)
  moreover obtain h' where "unique_loop h L (Some D) lt x = Some h'"
    "dlist h' L (fst (uniq lt x xs))" "dlist h' D (ds @ snd (uniq lt x xs))"
    using dlist_unique_loop[where dups = "Some D" and h = h and xs = "[]" and ds = ds and L = L and ys = xs and e = x and lt = lt]
      assms by auto
  moreover have "list_begin h L = Some x" "list_empty h L = Some False" "lhead L \<noteq> NULL"
    using dlist_begin[OF assms(1)] dlist_empty[OF assms(1)] dlist_not_NULL[OF assms(1)] by simp_all
  ultimately show ?thesis
    by (intro exI[of _ h'] exI[of _ "fst (uniq lt x xs)"] exI[of _ "snd (uniq lt x xs)"])
      (simp add: list_unique_def)
qed

theorem list_unique_partitions_witness:
  "\<exists>h' keep out. list_unique (demo_heap(3 := \<lparr>le_prev = 0, le_next = 4\<rparr>, 4 := \<lparr>le_prev = 3, le_next = 0\<rparr>))
      demo_list (Some \<lparr>lhead = 3, ltail = 4\<rparr>) (\<lambda>x y. x div 2 < y div 2) = Some h' \<and>
    dlist h' demo_list keep \<and> keep = [12, 10]"
proof -
  let ?h = "demo_heap(3 := \<lparr>le_prev = 0, le_next = 4\<rparr>, 4 := \<lparr>le_prev = 3, le_next = 0\<rparr>)"
  have "dlist ?h demo_list [12, 10, 11]" "dlist ?h \<lparr>lhead = 3, ltail = 4\<rparr> []"
    by (simp_all add: dlist_def nodes_def demo_heap_def demo_list_def)
  moreover have "set (nodes \<lparr>lhead = 3, ltail = 4\<rparr> []) \<inter> set (nodes demo_list [12, 10, 11]) = {}"
    by (simp add: nodes_def demo_list_def)
  moreover have "fst (uniq (\<lambda>x y. x div 2 < y div 2) 12 [10, 11 :: ptr]) = [12, 10]"
    by (simp add: eqv_def)
  ultimately show ?thesis
    using list_unique_partitions[of ?h demo_list 12 "[10, 11]" "\<lparr>lhead = 3, ltail = 4\<rparr>" "[]" "\<lambda>x y. x div 2 < y div 2"]
    by (metis fst_conv)
qed

section \<open>Bitmaps\<close>

text \<open>Ten bits, of which 0, 1 and 5 are set.\<close>

definition demo_bitmap :: bitmap where
  "demo_bitmap = \<lparr>bit_cnt = 10, bits = [0x23]\<rparr>"

lemmas bitmap_eval = bitmap_scan_and_flip_def bitmap_scan_def bitmap_scan_loop.simps bitmap_contains_def
  bitmap_contains_loop.simps bitmap_test_def bitmap_set_multiple_def bitmap_set_loop.simps bitmap_set_def
  bitmap_mark_def bitmap_reset_def upd_elem_def elem_idx_def bit_mask_def ELEM_BITS_def BITMAP_ERROR_def
  SIZE_LIMIT_def demo_bitmap_def

lemma demo_scan: "bitmap_scan_and_flip demo_bitmap 0 3 False = Some (2, \<lparr>bit_cnt = 10, bits = [0x3f]\<rparr>)"
  by (simp add: bitmap_eval)

lemma demo_bitmap_wf: "bm_wf demo_bitmap"
  by (simp add: demo_bitmap_def bm_wf_def Bitmap.elem_cnt_def DIV_ROUND_UP_def ELEM_BITS_def SIZE_LIMIT_def)

text \<open>C23: \<open>bitmap_scan_and_flip\<close> returns for every well-formed bitmap and every start in range. It
  gives the first group of bits that all have the wanted value and flips exactly that group; or it
  gives \<open>BITMAP_ERROR\<close>, changes nothing, and there is no such group. The empty group of \<open>cnt = 0\<close> is at
  \<open>start\<close>, although the comment in \<open>bitmap.c\<close> says that the result is 0 then.\<close>

theorem bitmap_scan_and_flip_first_fit:
  assumes "bm_wf b" "start \<le> bit_cnt b"
  shows "\<exists>r b'. bitmap_scan_and_flip b start cnt v = Some (r, b') \<and> (cnt = 0 \<longrightarrow> r = start) \<and>
    (if r = BITMAP_ERROR
     then b' = b \<and> (\<forall>j\<ge>start. j + cnt \<le> bit_cnt b \<longrightarrow> \<not> all_bits b j cnt v)
     else start \<le> r \<and> r + cnt \<le> bit_cnt b \<and> all_bits b r cnt v \<and>
       (\<forall>j\<in>{start..<r}. \<not> all_bits b j cnt v) \<and> bm_upd b {r..<r + cnt} (\<not> v) b')"
proof -
  obtain r b' where r: "bitmap_scan_and_flip b start cnt v = Some (r, b')"
    using bitmap_scan_and_flip_returns[OF assms] by blast
  show ?thesis
  proof (cases "r = BITMAP_ERROR")
    case True
    note n = bitmap_scan_and_flip_none[OF assms r[unfolded True]]
    have "cnt \<noteq> 0" using n(2)[of start] assms(2) by (cases "cnt = 0") (simp_all add: all_bits_def)
    then show ?thesis using r True n by auto
  next
    case False
    obtain q where q: "bitmap_scan b start cnt v = Some q"
      "q \<noteq> BITMAP_ERROR \<longrightarrow> (\<forall>j\<in>{start..<q}. \<not> all_bits b j cnt v)"
      using bitmap_scan_spec[OF assms] by blast
    then have "q = r" using r by (auto simp: bitmap_scan_and_flip_def bind_Some_iff split: if_splits)
    moreover from this have "cnt = 0 \<Longrightarrow> r = start"
      using q(2) False bitmap_scan_and_flip_found(1)[OF assms r False]
      by (metis all_bits_def atLeastLessThan_iff add_0_right le_neq_implies_less le_refl not_le)
    ultimately show ?thesis using r False q bitmap_scan_and_flip_found[OF assms r False] by auto
  qed
qed

theorem bitmap_scan_and_flip_first_fit_witness:
  "\<exists>b'. bitmap_scan_and_flip demo_bitmap 0 3 False = Some (2, b') \<and> bm_upd demo_bitmap {2..<5} True b'"
proof -
  note r = demo_scan
  have "\<not> (2 :: nat) = BITMAP_ERROR" by (simp add: BITMAP_ERROR_def SIZE_LIMIT_def)
  then show ?thesis
    using bitmap_scan_and_flip_first_fit[OF demo_bitmap_wf, of 0 3 False] r by auto
qed

text \<open>setting a range whose end wraps around \<open>2 ^ 32\<close> passes both assertions of
  \<open>bitmap_set_multiple\<close>, and still does not write outside the bitmap: the assertion of
  \<open>bitmap_set\<close> stops the kernel at the first bit past the end.\<close>

theorem bitmap_set_multiple_overflow_panics:
  assumes "bm_wf b" "bit_cnt b < start + cnt"
  shows "bitmap_set_multiple b start cnt v = None"
  by (rule bitmap_set_multiple_panics[OF assms])

theorem bitmap_set_multiple_overflow_panics_witness:
  "(8 + (2 ^ 32 - 6)) mod SIZE_LIMIT \<le> bit_cnt demo_bitmap \<and>
   bitmap_set_multiple demo_bitmap 8 (2 ^ 32 - 6) True = None"
  using bitmap_set_multiple_overflow_panics[OF demo_bitmap_wf, of 8 "2 ^ 32 - 6" True]
  by (simp add: demo_bitmap_def SIZE_LIMIT_def)

text \<open>C24: an allocator that only frees ranges it holds never has two overlapping ranges: from a
  state where the used bits are exactly its disjoint ranges, a scan gives a range disjoint from all
  of them, and giving any of the ranges back frees exactly its bits and makes a request of that
  size succeed.\<close>

theorem bitmap_ranges_disjoint:
  assumes "bm.holds b rs" "bm_alloc b n = Some (i, b')"
  shows "bm.holds b' ((i, n) # rs) \<and>
    (\<forall>as j m bs. (i, n) # rs = as @ (j, m) # bs \<longrightarrow>
      (\<exists>b''. bm_release b' j m = Some b'' \<and> bm.holds b'' (as @ bs) \<and> bm_alloc b'' m \<noteq> None))"
proof -
  have h: "bm.holds b' ((i, n) # rs)" by (rule bm.holds_alloc[OF assms])
  moreover have "\<exists>b''. bm_release b' j m = Some b'' \<and> bm.holds b'' (as @ bs) \<and> bm_alloc b'' m \<noteq> None"
    if "(i, n) # rs = as @ (j, m) # bs" for as j m bs
  proof -
    have h': "bm.holds b' (as @ (j, m) # bs)" using h that by metis
    from bm.holds_release[OF this] obtain b'' where "bm_release b' j m = Some b''" "bm.holds b'' (as @ bs)"
      by blast
    with bm.release_then_alloc[OF h'] show ?thesis by blast
  qed
  ultimately show ?thesis by blast
qed

lemma demo_holds: "bm.holds demo_bitmap [(5, 1), (0, 2)]"
proof -
  have "{i. i < 10 \<and> bm_bit demo_bitmap i} = {5, 0, 1}"
  proof -
    have "bm_bit demo_bitmap i \<longleftrightarrow> i \<in> {5, 0, 1}" if "i < 10" for i
    proof -
      have "i = 0 \<or> i = 1 \<or> i = 2 \<or> i = 3 \<or> i = 4 \<or> i = 5 \<or> i = 6 \<or> i = 7 \<or> i = 8 \<or> i = 9"
        using that by arith
      then show ?thesis by (elim disjE) (simp_all add: bm_bit_def demo_bitmap_def bit_iff_odd)
    qed
    then show ?thesis by auto
  qed
  moreover have "bit_cnt demo_bitmap = 10" by (simp add: demo_bitmap_def)
  ultimately have u: "bm_used demo_bitmap = {5, 0, 1}" by (simp add: bm_used_def)
  have "{5..<6} = {5::nat}" "{0..<Suc (Suc 0)} = {0, 1::nat}" "{0, 1, 5} = {5, 0, 1 :: nat}" by auto
  then show ?thesis
    using demo_bitmap_wf \<open>bit_cnt demo_bitmap = 10\<close> by (simp add: bm.holds_def bm.slots_def u)
qed

theorem bitmap_ranges_disjoint_witness:
  "bm.holds \<lparr>bit_cnt = 10, bits = [0x3f]\<rparr> [(2, 3), (5, 1), (0, 2)]"
proof -
  have "bm_alloc demo_bitmap 3 = Some (2, \<lparr>bit_cnt = 10, bits = [0x3f]\<rparr>)"
    by (simp add: bm_alloc_def demo_scan BITMAP_ERROR_def SIZE_LIMIT_def)
  then show ?thesis by (rule bitmap_ranges_disjoint[OF demo_holds, THEN conjunct1])
qed

section \<open>Fixed-point numbers\<close>

text \<open>conversion to fixed point and back is the identity, by truncation and by rounding, for
  every integer whose conversion does not overflow.\<close>

theorem fp_int_roundtrip:
  assumes "- 131072 < n" "n < 131072"
  shows "fp_to_int_rtz (int_to_fp n) = n \<and> fp_to_int_rtn (int_to_fp n) = n"
  using assms by (simp add: int_to_fp_exact fp_to_int_rtz_exact fp_to_int_rtn_exact)

theorem fp_int_roundtrip_witness: "fp_to_int_rtz (int_to_fp (- 7)) = - 7 \<and> fp_to_int_rtn (int_to_fp (- 7)) = - 7"
  by (rule fp_int_roundtrip) simp_all

text \<open>C25: when the result is representable, the product of two fixed-point numbers of any sign is off by less
  than one unit in the last place, and the quotient by a divisor of any sign other than 0 by less than one unit of the
  divisor; the intermediate 64-bit value never overflows. A division by 0 traps.\<close>

theorem fp_mul_div_accurate:
  assumes "int32 x" "int32 y"
  shows "(int32 ((x * y) sdiv 16384) \<longrightarrow> \<bar>fp_time_fp x y * 16384 - x * y\<bar> < 16384) \<and>
    (y \<noteq> 0 \<and> int32 ((x * 16384) sdiv y) \<longrightarrow> (\<exists>q. fp_divideby_fp x y = Some q \<and> \<bar>q * y - x * 16384\<bar> < \<bar>y\<bar>)) \<and>
    fp_divideby_fp x 0 = None"
  using fp_time_fp_err[OF assms] fp_divideby_fp_err[OF assms(1)] by (auto simp: fp_divideby_fp_def)

theorem fp_mul_div_accurate_witness:
  "\<bar>fp_time_fp 20000 (- 30000) * 16384 - 20000 * - 30000\<bar> < 16384 \<and>
    (\<exists>q. fp_divideby_fp 20000 (- 30000) = Some q \<and> \<bar>q * - 30000 - 20000 * 16384\<bar> < 30000)"
  using fp_mul_div_accurate[of 20000 "- 30000"] by (simp add: int32_def sdiv_neg sdiv_neg_right sdiv_nonneg)

end
