(* ===== verification/KState.thy ===== *)
theory KState
  imports FixedPoint CListSort
begin

text \<open>
  The state of the threaded kernel of project 1 (\<open>threads/thread.h\<close>, \<open>threads/synch.h\<close>, the
  static variables of \<open>threads/thread.c\<close>, \<open>threads/interrupt.c\<close> and \<open>devices/timer.c\<close>).

  A \<open>struct thread\<close> is named by its address (\<open>tptr\<close>), a lock and a condition variable by
  theirs. The intrusive lists of threads are HOL lists of thread addresses; theory CListSort
  shows that the code's list routines compute \<^const>\<open>ins_ord\<close> and a stable sort on exactly
  such lists.

  Between two instructions that disable interrupts another thread may run. Each thread
  therefore carries the rest of the kernel function it is executing as a list of \<open>frame\<close>s
  (\<open>kstack\<close>): one frame is a piece of code that no other thread can interleave with, because
  it runs with interrupts disabled or consists of one memory access to shared data. A blocked or
  preempted thread keeps its frames, and goes on with them when it is scheduled again.
\<close>

section \<open>Threads\<close>

type_synonym tptr = nat
type_synonym lptr = nat
type_synonym cptr = nat

datatype thread_status = THREAD_RUNNING | THREAD_READY | THREAD_BLOCKED | THREAD_DYING

definition PRI_MIN :: int where "PRI_MIN = 0"
definition PRI_DEFAULT :: int where "PRI_DEFAULT = 31"
definition PRI_MAX :: int where "PRI_MAX = 63"
definition NICE_MIN :: int where "NICE_MIN = -20"
definition NICE_MAX :: int where "NICE_MAX = 20"
definition TIME_SLICE :: "32 word" where "TIME_SLICE = 4"
definition TIMER_FREQ :: int where "TIMER_FREQ = 100"
definition MAX_DEPTH :: nat where "MAX_DEPTH = 8"
definition PGSIZE :: nat where "PGSIZE = 4096"
definition TID_ERROR :: int where "TID_ERROR = -1"

text \<open>The member \<open>sema\<close> of a thread is the semaphore \<open>ThreadSema t\<close> of the state; \<open>magic\<close>
  is the presence of the thread in the state's map.\<close>

record thread =
  t_tid :: int
  t_status :: thread_status
  t_name :: string
  t_stack :: nat
  t_priority :: int
  t_wakeup_time :: int
  t_donation_list :: "tptr list"
  t_ori_priority :: int
  t_wait_lock :: "lptr option"
  t_nice :: int
  t_recent_cpu :: int

section \<open>Semaphores\<close>

text \<open>Where a semaphore lives: in a thread (\<open>sema\<close>), in a lock (\<open>semaphore\<close>), in the
  \<open>semaphore_elem\<close> on the stack of a thread inside \<open>cond_wait\<close>, or anywhere else.\<close>

datatype sema_loc = ThreadSema tptr | LockSema lptr | CondSema tptr | OtherSema nat

record sema =
  s_value :: "32 word"
  s_waiters :: "tptr list"

section \<open>What a thread has still to do\<close>

text \<open>What the function given to \<open>thread_create\<close> is: \<open>idle\<close> with its semaphore, or any other
  function, whose behaviour is left open.\<close>

datatype thread_body = Idle sema_loc | Any_Function

datatype frame =
    Set_Level bool
  | Yield_Call
  | Super_Yield
  | Yield_If_Lower tptr
  | Sema_Down sema_loc "lptr option"
  | Sema_Test sema_loc bool "lptr option"
  | Sema_Up sema_loc
  | Sema_Init nat "32 word"
  | Lock_Acquire lptr
  | Donate lptr
  | Set_Holder lptr
  | Lock_Try lptr
  | Lock_Release lptr
  | Release_Test lptr
  | Donate_Back lptr
  | Cond_Wait cptr lptr
  | Cond_Signal cptr lptr
  | Cond_Broadcast cptr lptr
  | Thread_Start tptr
  | Thread_Create "tptr option" string int thread_body
  | Alloc_Tid tptr
  | Create_Tail tptr thread_body
  | Kernel_Thread thread_body
  | Idle_Start sema_loc
  | Idle_Loop
  | Thread_Exit
  | Set_Priority int
  | Set_Nice int
  | Timer_Sleep int
  | Sleep_Until int

section \<open>The kernel's state\<close>

record kst =
  threads :: "tptr \<Rightarrow> thread option"
  semas :: "sema_loc \<Rightarrow> sema"
  lock_holder :: "lptr \<Rightarrow> tptr option"
  cond_waiters :: "cptr \<Rightarrow> tptr list"
  ready_list :: "tptr list"
  all_list :: "tptr list"
  idle_thread :: "tptr option"
  initial_thread :: tptr
  idle_ticks :: int
  kernel_ticks :: int
  thread_ticks :: "32 word"
  calc_ticks :: "32 word"
  load_avg :: int
  thread_mlfqs :: bool
  next_tid :: int
  timer_count :: int
  sleep_list :: "tptr list"
  running :: tptr
  intr_on :: bool
  in_external_intr :: bool
  yield_on_return :: bool
  kstack :: "tptr \<Rightarrow> frame list"

text \<open>The lock of \<open>allocate_tid\<close> is lock 0.\<close>

definition tid_lock :: lptr where "tid_lock = 0"

definition push_frames :: "frame list \<Rightarrow> kst \<Rightarrow> kst" where
  "push_frames fs st =
     st\<lparr>kstack := (kstack st)(running st := fs @ kstack st (running st))\<rparr>"

text \<open>Reading or writing a member of a \<open>struct thread\<close>: \<^const>\<open>None\<close> when there is no
  thread at that address.\<close>

definition upd_thread :: "tptr \<Rightarrow> (thread \<Rightarrow> thread) \<Rightarrow> kst \<Rightarrow> kst option" where
  "upd_thread t f st =
     (case threads st t of None \<Rightarrow> None
      | Some r \<Rightarrow> Some (st\<lparr>threads := (threads st)(t \<mapsto> f r)\<rparr>))"

definition upd_sema :: "sema_loc \<Rightarrow> (sema \<Rightarrow> sema) \<Rightarrow> kst \<Rightarrow> kst" where
  "upd_sema s f st = st\<lparr>semas := (semas st)(s := f (semas st s))\<rparr>"

definition priority_of :: "kst \<Rightarrow> tptr \<Rightarrow> int" where
  "priority_of st t = (case threads st t of None \<Rightarrow> 0 | Some r \<Rightarrow> t_priority r)"

abbreviation status_of :: "kst \<Rightarrow> tptr \<Rightarrow> thread_status option" where
  "status_of st t \<equiv> map_option t_status (threads st t)"

section \<open>Interrupts (threads/interrupt.c)\<close>

definition intr_get_level :: "kst \<Rightarrow> bool" where
  "intr_get_level st = intr_on st"

definition intr_context :: "kst \<Rightarrow> bool" where
  "intr_context st = in_external_intr st"

definition intr_enable :: "kst \<Rightarrow> kst option" where
  "intr_enable st = do { ASSERT (\<not> intr_context st); Some (st\<lparr>intr_on := True\<rparr>) }"

definition intr_disable :: "kst \<Rightarrow> kst" where
  "intr_disable st = st\<lparr>intr_on := False\<rparr>"

definition intr_set_level :: "bool \<Rightarrow> kst \<Rightarrow> kst option" where
  "intr_set_level level st = (if level then intr_enable st else Some (intr_disable st))"

definition intr_yield_on_return :: "kst \<Rightarrow> kst option" where
  "intr_yield_on_return st =
     do { ASSERT (intr_context st); Some (st\<lparr>yield_on_return := True\<rparr>) }"

end
