(* ===== verification/Thread.thy ===== *)
theory Thread
  imports KState
begin

text \<open>
  \<open>threads/thread.c\<close> of project 1: the scheduler, thread creation and exit, the priority and
  MLFQS bookkeeping, and priority donation. Every function that may switch threads leaves its
  remaining code on the \<^const>\<open>kstack\<close> of the thread that calls it.
\<close>

section \<open>The current thread\<close>

definition running_thread :: "kst \<Rightarrow> tptr" where
  "running_thread st = running st"

definition is_thread :: "kst \<Rightarrow> tptr option \<Rightarrow> bool" where
  "is_thread st t = (case t of None \<Rightarrow> False | Some p \<Rightarrow> threads st p \<noteq> None)"

definition thread_current :: "kst \<Rightarrow> tptr option" where
  "thread_current st = do {
     ASSERT (is_thread st (Some (running_thread st)));
     ASSERT (status_of st (running_thread st) = Some THREAD_RUNNING);
     Some (running_thread st) }"

definition thread_name :: "kst \<Rightarrow> string option" where
  "thread_name st = do { t \<leftarrow> thread_current st; r \<leftarrow> threads st t; Some (t_name r) }"

definition thread_tid :: "kst \<Rightarrow> int option" where
  "thread_tid st = do { t \<leftarrow> thread_current st; r \<leftarrow> threads st t; Some (t_tid r) }"

section \<open>Choosing and switching\<close>

definition compare_thread_priority :: "kst \<Rightarrow> tptr \<Rightarrow> tptr \<Rightarrow> bool" where
  "compare_thread_priority st a b \<longleftrightarrow> priority_of st a > priority_of st b"

definition sort_by_priority :: "kst \<Rightarrow> tptr list \<Rightarrow> tptr list" where
  "sort_by_priority st ts = stable_sort (compare_thread_priority st) ts"

definition next_thread_to_run :: "kst \<Rightarrow> tptr option \<times> kst" where
  "next_thread_to_run st =
     (if ready_list st = [] then (idle_thread st, st)
      else let rl = (if thread_mlfqs st then sort_by_priority st (ready_list st)
                     else ready_list st)
           in (Some (hd rl), st\<lparr>ready_list := tl rl\<rparr>))"

definition thread_schedule_tail :: "tptr option \<Rightarrow> kst \<Rightarrow> kst option" where
  "thread_schedule_tail prev st = do {
     let me = running_thread st;
     ASSERT (intr_get_level st = False);
     st \<leftarrow> upd_thread me (t_status_update (\<lambda>_. THREAD_RUNNING)) st;
     let st = st\<lparr>thread_ticks := 0\<rparr>;
     case prev of
       None \<Rightarrow> Some st
     | Some p \<Rightarrow> do {
         r \<leftarrow> threads st p;
         if t_status r = THREAD_DYING \<and> p \<noteq> initial_thread st
         then do {
           ASSERT (p \<noteq> me);
           Some (st\<lparr>threads := (threads st)(p := None)\<rparr>) }
         else Some st } }"

definition schedule :: "kst \<Rightarrow> kst option" where
  "schedule st = do {
     let me = running_thread st;
     let (nt, st) = next_thread_to_run st;
     ASSERT (intr_get_level st = False);
     ASSERT (status_of st me \<noteq> Some THREAD_RUNNING);
     ASSERT (is_thread st nt);
     n \<leftarrow> nt;
     if me \<noteq> n then thread_schedule_tail (Some me) (st\<lparr>running := n\<rparr>)
     else thread_schedule_tail None st }"

definition thread_block :: "kst \<Rightarrow> kst option" where
  "thread_block st = do {
     ASSERT (\<not> intr_context st);
     ASSERT (intr_get_level st = False);
     t \<leftarrow> thread_current st;
     st \<leftarrow> upd_thread t (t_status_update (\<lambda>_. THREAD_BLOCKED)) st;
     schedule st }"

definition thread_unblock :: "tptr \<Rightarrow> kst \<Rightarrow> kst option" where
  "thread_unblock t st = do {
     ASSERT (is_thread st (Some t));
     let old_level = intr_get_level st;
     let st = intr_disable st;
     ASSERT (status_of st t = Some THREAD_BLOCKED);
     let st = st\<lparr>ready_list := ins_ord (compare_thread_priority st) t (ready_list st)\<rparr>;
     st \<leftarrow> upd_thread t (t_status_update (\<lambda>_. THREAD_READY)) st;
     intr_set_level old_level st }"

definition thread_yield :: "kst \<Rightarrow> kst option" where
  "thread_yield st = do {
     me \<leftarrow> thread_current st;
     ASSERT (\<not> intr_context st);
     let old_level = intr_get_level st;
     let st = intr_disable st;
     let st = (if Some me \<noteq> idle_thread st
               then st\<lparr>ready_list := ins_ord (compare_thread_priority st) me (ready_list st)\<rparr>
               else st);
     st \<leftarrow> upd_thread me (t_status_update (\<lambda>_. THREAD_READY)) st;
     schedule (push_frames [Set_Level old_level] st) }"

definition thread_exit :: "kst \<Rightarrow> kst option" where
  "thread_exit st = do {
     ASSERT (\<not> intr_context st);
     let st = intr_disable st;
     t \<leftarrow> thread_current st;
     let st = st\<lparr>all_list := remove1 t (all_list st)\<rparr>;
     st \<leftarrow> upd_thread t (t_status_update (\<lambda>_. THREAD_DYING)) st;
     schedule st }"

text \<open>\<open>thread_super_yield\<close>: the front of the ready list is read with interrupts off, the
  comparison with the current thread comes after they have been restored.\<close>

definition thread_super_yield_read :: "kst \<Rightarrow> kst option" where
  "thread_super_yield_read st =
     (case ready_list st of [] \<Rightarrow> Some st | t # _ \<Rightarrow> Some (push_frames [Yield_If_Lower t] st))"

definition thread_super_yield_cmp :: "tptr \<Rightarrow> kst \<Rightarrow> kst option" where
  "thread_super_yield_cmp t st = do {
     me \<leftarrow> thread_current st;
     ASSERT (is_thread st (Some t));
     if \<not> intr_context st
     then (if priority_of st me < priority_of st t then thread_yield st else Some st)
     else (if priority_of st me < priority_of st t then intr_yield_on_return st else Some st) }"

text \<open>In an interrupt handler nothing comes between the two.\<close>

definition thread_super_yield_intr :: "kst \<Rightarrow> kst option" where
  "thread_super_yield_intr st =
     (case ready_list st of [] \<Rightarrow> Some st | t # _ \<Rightarrow> thread_super_yield_cmp t st)"

section \<open>Iterating over all threads\<close>

primrec foreach_loop :: "(tptr \<Rightarrow> kst \<Rightarrow> kst option) \<Rightarrow> tptr list \<Rightarrow> kst \<Rightarrow> kst option" where
  "foreach_loop f [] st = Some st"
| "foreach_loop f (t # ts) st = do { st \<leftarrow> f t st; foreach_loop f ts st }"

definition thread_foreach :: "(tptr \<Rightarrow> kst \<Rightarrow> kst option) \<Rightarrow> kst \<Rightarrow> kst option" where
  "thread_foreach f st = do {
     ASSERT (intr_get_level st = False);
     foreach_loop f (all_list st) st }"

section \<open>The multi-level feedback queue\<close>

definition mlfqs_priority :: "int \<Rightarrow> int \<Rightarrow> int option" where
  "mlfqs_priority recent nice = do {
     q \<leftarrow> fp_divideby_int recent 4;
     Some (wrap32 (wrap32 (PRI_MAX - fp_to_int_rtn q) - wrap32 (nice * 2))) }"

definition calc_priority :: "tptr \<Rightarrow> kst \<Rightarrow> kst option" where
  "calc_priority t st = do {
     r \<leftarrow> threads st t;
     p \<leftarrow> mlfqs_priority (t_recent_cpu r) (t_nice r);
     upd_thread t (t_priority_update (\<lambda>_. p)) st }"

definition recent_cpu_value :: "int \<Rightarrow> int \<Rightarrow> int \<Rightarrow> int option" where
  "recent_cpu_value la rc nice = do {
     coef \<leftarrow> fp_divideby_fp (fp_time_int la 2) (fp_add_int (fp_time_int la 2) 1);
     Some (fp_add_int (fp_time_fp coef rc) nice) }"

definition calc_recent_cpu :: "tptr \<Rightarrow> kst \<Rightarrow> kst option" where
  "calc_recent_cpu t st = do {
     r \<leftarrow> threads st t;
     rc \<leftarrow> recent_cpu_value (load_avg st) (t_recent_cpu r) (t_nice r);
     upd_thread t (t_recent_cpu_update (\<lambda>_. rc)) st }"

definition load_avg_value :: "int \<Rightarrow> int \<Rightarrow> int option" where
  "load_avg_value la ready_threads = do {
     c1 \<leftarrow> fp_divideby_int (int_to_fp 59) 60;
     c2 \<leftarrow> fp_divideby_int (int_to_fp 1) 60;
     Some (fp_add_fp (fp_time_fp c1 la) (fp_time_int c2 ready_threads)) }"

definition calc_load_avg :: "kst \<Rightarrow> kst option" where
  "calc_load_avg st = do {
     me \<leftarrow> thread_current st;
     let ready_threads = (if Some me \<noteq> idle_thread st then int (length (ready_list st)) + 1 else 0);
     la \<leftarrow> load_avg_value (load_avg st) ready_threads;
     Some (st\<lparr>load_avg := la\<rparr>) }"

definition timer_ticks :: "kst \<Rightarrow> int" where
  "timer_ticks st = timer_count st"

text \<open>\<open>thread_tick\<close> in three parts: the statistics, the periodic recalculation, the time slice.\<close>

definition tick_count :: "tptr \<Rightarrow> kst \<Rightarrow> kst option" where
  "tick_count t st =
     (if Some t = idle_thread st then Some (st\<lparr>idle_ticks := wrap64 (idle_ticks st + 1)\<rparr>)
      else if thread_mlfqs st
      then upd_thread t (\<lambda>r. r\<lparr>t_recent_cpu := fp_add_int (t_recent_cpu r) 1\<rparr>) st
      else Some (st\<lparr>kernel_ticks := wrap64 (kernel_ticks st + 1)\<rparr>))"

definition tick_priorities :: "kst \<Rightarrow> kst option" where
  "tick_priorities st = do {
     let st = st\<lparr>calc_ticks := calc_ticks st + 1\<rparr>;
     if calc_ticks st \<ge> TIME_SLICE
     then do {
       st \<leftarrow> foreach_loop calc_priority (all_list st) st;
       let st = st\<lparr>calc_ticks := 0\<rparr>;
       thread_super_yield_intr st }
     else Some st }"

definition tick_averages :: "kst \<Rightarrow> kst option" where
  "tick_averages st =
     (if timer_ticks st smod TIMER_FREQ = 0
      then do {
        st \<leftarrow> foreach_loop calc_recent_cpu (all_list st) st;
        calc_load_avg st }
      else Some st)"

definition tick_slice :: "tptr \<Rightarrow> kst \<Rightarrow> kst option" where
  "tick_slice t st = do {
     let st = st\<lparr>thread_ticks := thread_ticks st + 1\<rparr>;
     if thread_ticks st \<ge> TIME_SLICE
     then (if ready_list st \<noteq> []
           then do {
             let st = (if thread_mlfqs st
                       then st\<lparr>ready_list := sort_by_priority st (ready_list st)\<rparr> else st);
             if priority_of st t = priority_of st (hd (ready_list st))
             then intr_yield_on_return st else Some st }
           else Some (st\<lparr>thread_ticks := 0\<rparr>))
     else Some st }"

definition thread_tick :: "kst \<Rightarrow> kst option" where
  "thread_tick st = do {
     t \<leftarrow> thread_current st;
     st \<leftarrow> tick_count t st;
     st \<leftarrow> (if thread_mlfqs st then do { st \<leftarrow> tick_priorities st; tick_averages st } else Some st);
     tick_slice t st }"

definition thread_get_priority :: "kst \<Rightarrow> int option" where
  "thread_get_priority st = do { t \<leftarrow> thread_current st; r \<leftarrow> threads st t; Some (t_priority r) }"

definition thread_get_nice :: "kst \<Rightarrow> int option" where
  "thread_get_nice st = do { t \<leftarrow> thread_current st; r \<leftarrow> threads st t; Some (t_nice r) }"

definition thread_get_load_avg :: "kst \<Rightarrow> int" where
  "thread_get_load_avg st = fp_to_int_rtn (fp_time_int (load_avg st) 100)"

definition thread_get_recent_cpu :: "kst \<Rightarrow> int option" where
  "thread_get_recent_cpu st = do {
     t \<leftarrow> thread_current st; r \<leftarrow> threads st t;
     Some (fp_to_int_rtn (fp_time_int (t_recent_cpu r) 100)) }"

definition thread_set_priority :: "int \<Rightarrow> kst \<Rightarrow> kst option" where
  "thread_set_priority new_priority st =
     (if thread_mlfqs st then Some st
      else do {
        t \<leftarrow> thread_current st;
        r \<leftarrow> threads st t;
        st \<leftarrow> (if t_donation_list r \<noteq> []
              then (if new_priority > t_priority r
                    then upd_thread t (t_priority_update (\<lambda>_. new_priority)) st
                    else upd_thread t (t_ori_priority_update (\<lambda>_. new_priority)) st)
              else upd_thread t (t_priority_update (\<lambda>_. new_priority)) st);
        Some (push_frames [Super_Yield] st) })"

definition thread_set_nice :: "int \<Rightarrow> kst \<Rightarrow> kst option" where
  "thread_set_nice nice st = do {
     t \<leftarrow> thread_current st;
     st \<leftarrow> upd_thread t (t_nice_update (\<lambda>_. nice)) st;
     let nice = (if nice > NICE_MAX then NICE_MAX else nice);
     let nice = (if nice < NICE_MIN then NICE_MIN else nice);
     r \<leftarrow> threads st t;
     p \<leftarrow> mlfqs_priority (t_recent_cpu r) nice;
     st \<leftarrow> upd_thread t (t_priority_update (\<lambda>_. p)) st;
     Some (push_frames [Super_Yield] st) }"

section \<open>Creation\<close>

definition init_thread :: "tptr \<Rightarrow> string \<Rightarrow> int \<Rightarrow> kst \<Rightarrow> kst option" where
  "init_thread t name priority st = do {
     ASSERT (PRI_MIN \<le> priority \<and> priority \<le> PRI_MAX);
     let r = \<lparr>t_tid = 0, t_status = THREAD_BLOCKED, t_name = take 15 name, t_stack = PGSIZE,
              t_priority = priority, t_wakeup_time = 0, t_donation_list = [],
              t_ori_priority = 0, t_wait_lock = None, t_nice = 0, t_recent_cpu = 0\<rparr>;
     let st = st\<lparr>threads := (threads st)(t \<mapsto> r)\<rparr>;
     let st = upd_sema (ThreadSema t) (\<lambda>_. \<lparr>s_value = 0, s_waiters = []\<rparr>) st;
     Some (st\<lparr>all_list := all_list st @ [t]\<rparr>) }"

text \<open>\<open>allocate_tid\<close> is three frames: acquire the lock, take the next number, release.\<close>

definition allocate_tid_body :: "tptr \<Rightarrow> kst \<Rightarrow> kst option" where
  "allocate_tid_body t st = do {
     let tid = next_tid st;
     let st = st\<lparr>next_tid := wrap32 (next_tid st + 1)\<rparr>;
     upd_thread t (t_tid_update (\<lambda>_. tid)) st }"

definition allocate_tid :: "tptr \<Rightarrow> frame list" where
  "allocate_tid t = [Lock_Acquire tid_lock, Alloc_Tid t, Lock_Release tid_lock]"

definition alloc_frame :: "tptr \<Rightarrow> nat \<Rightarrow> kst \<Rightarrow> kst option" where
  "alloc_frame t sz st = do {
     ASSERT (is_thread st (Some t));
     ASSERT (sz mod 4 = 0);
     upd_thread t (t_stack_update (\<lambda>sp. sp - sz)) st }"

text \<open>Under the feedback queue a new thread takes nice value and recent CPU time from its
  creator.\<close>

definition inherit_mlfqs :: "tptr \<Rightarrow> kst \<Rightarrow> kst option" where
  "inherit_mlfqs t st =
     (if thread_mlfqs st
      then do {
        c \<leftarrow> thread_current st;
        rc \<leftarrow> threads st c;
        p \<leftarrow> mlfqs_priority (t_recent_cpu rc) (t_nice rc);
        upd_thread t (\<lambda>r. r\<lparr>t_nice := t_nice rc, t_recent_cpu := t_recent_cpu rc,
                            t_priority := p\<rparr>) st }
      else Some st)"

text \<open>The page is what \<open>palloc_get_page\<close> returned, \<^const>\<open>None\<close> when there was no memory.\<close>

definition thread_create :: "tptr option \<Rightarrow> string \<Rightarrow> int \<Rightarrow> thread_body \<Rightarrow> kst \<Rightarrow> kst option" where
  "thread_create page name priority body st =
     (case page of
        None \<Rightarrow> Some st
      | Some t \<Rightarrow> do {
          st \<leftarrow> init_thread t name priority st;
          st \<leftarrow> inherit_mlfqs t st;
          Some (push_frames (allocate_tid t @ [Create_Tail t body]) st) })"

text \<open>The three frames pushed on the new stack make \<open>switch_threads\<close> return to
  \<open>switch_entry\<close> and that one to \<open>kernel_thread\<close>.\<close>

definition thread_create_tail :: "tptr \<Rightarrow> thread_body \<Rightarrow> kst \<Rightarrow> kst option" where
  "thread_create_tail t body st = do {
     st \<leftarrow> alloc_frame t 12 st;
     st \<leftarrow> alloc_frame t 4 st;
     st \<leftarrow> alloc_frame t 28 st;
     let st = st\<lparr>kstack := (kstack st)(t := [Kernel_Thread body])\<rparr>;
     st \<leftarrow> thread_unblock t st;
     Some (push_frames [Super_Yield] st) }"

text \<open>A thread whose function returns calls \<open>thread_exit\<close>; a function other than \<open>idle\<close>
  makes any calls it likes before (theory Machine).\<close>

definition kernel_thread :: "thread_body \<Rightarrow> kst \<Rightarrow> kst option" where
  "kernel_thread body st = do {
     st \<leftarrow> intr_enable st;
     case body of Idle s \<Rightarrow> Some (push_frames [Idle_Start s] st) | Any_Function \<Rightarrow> Some st }"

definition idle_start :: "sema_loc \<Rightarrow> kst \<Rightarrow> kst option" where
  "idle_start idle_started st = do {
     t \<leftarrow> thread_current st;
     let st = st\<lparr>idle_thread := Some t\<rparr>;
     Some (push_frames [Sema_Up idle_started, Idle_Loop] st) }"

definition idle_loop :: "kst \<Rightarrow> kst option" where
  "idle_loop st = thread_block (push_frames [Set_Level True, Idle_Loop] (intr_disable st))"

definition thread_start :: "tptr \<Rightarrow> kst \<Rightarrow> kst option" where
  "thread_start page st = do {
     let idle_started = OtherSema 0;
     let st = upd_sema idle_started (\<lambda>_. \<lparr>s_value = 0, s_waiters = []\<rparr>) st;
     Some (push_frames
       [Thread_Create (Some page) ''idle'' PRI_MIN (Idle idle_started), Set_Level True,
        Sema_Down idle_started None] st) }"

definition empty_kst :: "tptr \<Rightarrow> bool \<Rightarrow> kst" where
  "empty_kst page mlfqs =
     \<lparr>threads = (\<lambda>_. None), semas = (\<lambda>_. \<lparr>s_value = 0, s_waiters = []\<rparr>),
      lock_holder = (\<lambda>_. None), cond_waiters = (\<lambda>_. []), ready_list = [], all_list = [],
      idle_thread = None, initial_thread = page, idle_ticks = 0, kernel_ticks = 0,
      thread_ticks = 0, calc_ticks = 0, load_avg = 0, thread_mlfqs = mlfqs, next_tid = 1,
      timer_count = 0, sleep_list = [], running = page, intr_on = False,
      in_external_intr = False, yield_on_return = False, kstack = (\<lambda>_. [])\<rparr>"

text \<open>\<open>thread_init\<close> on the page the boot stack lies in; what is left to do afterwards is to take
  the first thread identifier.\<close>

definition thread_init :: "kst \<Rightarrow> kst option" where
  "thread_init st = do {
     ASSERT (intr_get_level st = False);
     let st = upd_sema (LockSema tid_lock) (\<lambda>_. \<lparr>s_value = 1, s_waiters = []\<rparr>) st;
     let st = st\<lparr>lock_holder := (lock_holder st)(tid_lock := None), ready_list := [],
                 all_list := [], calc_ticks := 0, load_avg := 0,
                 initial_thread := running_thread st\<rparr>;
     let t = running_thread st;
     st \<leftarrow> init_thread t ''main'' PRI_DEFAULT st;
     st \<leftarrow> upd_thread t (\<lambda>r. r\<lparr>t_nice := 0, t_recent_cpu := 0, t_status := THREAD_RUNNING\<rparr>) st;
     Some (push_frames (allocate_tid t) st) }"

section \<open>Priority donation\<close>

text \<open>The walk along \<open>wait_lock\<close>: at most \<open>MAX_DEPTH + 1\<close> further holders.\<close>

primrec donation_loop :: "nat \<Rightarrow> tptr \<Rightarrow> int \<Rightarrow> kst \<Rightarrow> kst option" where
  "donation_loop 0 d p st = Some st"
| "donation_loop (Suc n) d p st = do {
     rd \<leftarrow> threads st d;
     case t_wait_lock rd of
       None \<Rightarrow> Some st
     | Some l \<Rightarrow> do {
         h \<leftarrow> lock_holder st l;
         st \<leftarrow> upd_thread h (t_priority_update (\<lambda>_. p)) st;
         donation_loop n h p st } }"

definition donation :: "lptr \<Rightarrow> kst \<Rightarrow> kst option" where
  "donation l st = do {
     t \<leftarrow> thread_current st;
     d \<leftarrow> lock_holder st l;
     rd \<leftarrow> threads st d;
     st \<leftarrow> (if t_donation_list rd = []
           then upd_thread d (\<lambda>r. r\<lparr>t_ori_priority := t_priority r\<rparr>) st else Some st);
     st \<leftarrow> upd_thread t (t_wait_lock_update (\<lambda>_. Some l)) st;
     st \<leftarrow> upd_thread d (\<lambda>r. r\<lparr>t_donation_list := t # t_donation_list r\<rparr>) st;
     let p = priority_of st t;
     st \<leftarrow> upd_thread d (t_priority_update (\<lambda>_. p)) st;
     st \<leftarrow> donation_loop (MAX_DEPTH + 1) d p st;
     Some (st\<lparr>ready_list := sort_by_priority st (ready_list st)\<rparr>) }"

primrec donation_back_loop :: "lptr \<Rightarrow> tptr list \<Rightarrow> kst \<Rightarrow> (tptr list \<times> kst) option" where
  "donation_back_loop l [] st = Some ([], st)"
| "donation_back_loop l (t # ts) st = do {
     r \<leftarrow> threads st t;
     if t_wait_lock r = Some l
     then do {
       st \<leftarrow> upd_thread t (t_wait_lock_update (\<lambda>_. None)) st;
       donation_back_loop l ts st }
     else do {
       (rest, st) \<leftarrow> donation_back_loop l ts st;
       Some (t # rest, st) } }"

definition donation_back :: "lptr \<Rightarrow> kst \<Rightarrow> kst option" where
  "donation_back l st = do {
     t \<leftarrow> thread_current st;
     r \<leftarrow> threads st t;
     (rest, st) \<leftarrow> donation_back_loop l (t_donation_list r) st;
     st \<leftarrow> upd_thread t (t_donation_list_update (\<lambda>_. rest)) st;
     st \<leftarrow> (case rest of
             f # _ \<Rightarrow> do {
               rf \<leftarrow> threads st f;
               upd_thread t (t_priority_update (\<lambda>_. t_priority rf)) st }
           | [] \<Rightarrow> upd_thread t (\<lambda>r. r\<lparr>t_priority := t_ori_priority r\<rparr>) st);
     Some (st\<lparr>ready_list := sort_by_priority st (ready_list st)\<rparr>) }"

end
