(* ===== verification/Synch.thy ===== *)
theory Synch
  imports Thread
begin

text \<open>
  \<open>threads/synch.c\<close> of project 1: semaphores, locks with priority donation, and condition
  variables. A call that may sleep, or that gives interrupts back before it is done, is a frame
  of its own; \<open>sema_down\<close> called by \<open>lock_acquire\<close> carries the lock as its return address.
\<close>

section \<open>Semaphores\<close>

definition sema_init :: "sema_loc \<Rightarrow> 32 word \<Rightarrow> kst \<Rightarrow> kst" where
  "sema_init s v st = upd_sema s (\<lambda>_. \<lparr>s_value = v, s_waiters = []\<rparr>) st"

definition sema_down :: "sema_loc \<Rightarrow> lptr option \<Rightarrow> kst \<Rightarrow> kst option" where
  "sema_down s ret st = do {
     ASSERT (\<not> intr_context st);
     let old_level = intr_get_level st;
     Some (push_frames [Sema_Test s old_level ret] (intr_disable st)) }"

text \<open>The test of the \<open>while\<close> loop: block behind the waiters of higher or equal priority and
  test again when scheduled, or take one unit and go on. Interrupts are off here.\<close>

definition sema_down_test :: "sema_loc \<Rightarrow> bool \<Rightarrow> lptr option \<Rightarrow> kst \<Rightarrow> kst option" where
  "sema_down_test s old_level ret st =
     (if s_value (semas st s) = 0
      then do {
        t \<leftarrow> thread_current st;
        let st = upd_sema s (s_waiters_update (ins_ord (compare_thread_priority st) t)) st;
        thread_block (push_frames [Sema_Test s old_level ret] st) }
      else do {
        let st = upd_sema s (s_value_update (\<lambda>v. v - 1)) st;
        st \<leftarrow> intr_set_level old_level st;
        Some (case ret of None \<Rightarrow> st | Some l \<Rightarrow> push_frames [Set_Holder l] st) })"

definition sema_try_down :: "sema_loc \<Rightarrow> kst \<Rightarrow> bool \<times> kst" where
  "sema_try_down s st =
     (if s_value (semas st s) > 0 then (True, upd_sema s (s_value_update (\<lambda>v. v - 1)) st)
      else (False, st))"

text \<open>The part of \<open>sema_up\<close> with interrupts off.\<close>

definition sema_up_body :: "sema_loc \<Rightarrow> kst \<Rightarrow> kst option" where
  "sema_up_body s st = do {
     let old_level = intr_get_level st;
     let st = intr_disable st;
     st \<leftarrow> (case sort_by_priority st (s_waiters (semas st s)) of
             [] \<Rightarrow> Some st
           | t # ts \<Rightarrow> thread_unblock t (upd_sema s (s_waiters_update (\<lambda>_. ts)) st));
     let st = upd_sema s (s_value_update (\<lambda>v. v + 1)) st;
     intr_set_level old_level st }"

definition sema_up :: "sema_loc \<Rightarrow> kst \<Rightarrow> kst option" where
  "sema_up s st = do { st \<leftarrow> sema_up_body s st; Some (push_frames [Super_Yield] st) }"

definition sema_up_intr :: "sema_loc \<Rightarrow> kst \<Rightarrow> kst option" where
  "sema_up_intr s st = do { st \<leftarrow> sema_up_body s st; thread_super_yield_intr st }"

section \<open>Locks\<close>

definition lock_init :: "lptr \<Rightarrow> kst \<Rightarrow> kst" where
  "lock_init l st = sema_init (LockSema l) 1 (st\<lparr>lock_holder := (lock_holder st)(l := None)\<rparr>)"

definition lock_held_by_current_thread :: "lptr \<Rightarrow> kst \<Rightarrow> bool option" where
  "lock_held_by_current_thread l st = do { t \<leftarrow> thread_current st; Some (lock_holder st l = Some t) }"

definition lock_acquire :: "lptr \<Rightarrow> kst \<Rightarrow> kst option" where
  "lock_acquire l st = do {
     ASSERT (\<not> intr_context st);
     held \<leftarrow> lock_held_by_current_thread l st;
     ASSERT (\<not> held);
     Some (push_frames ((if lock_holder st l \<noteq> None \<and> \<not> thread_mlfqs st then [Donate l] else [])
                        @ [Sema_Down (LockSema l) (Some l)]) st) }"

definition lock_set_holder :: "lptr \<Rightarrow> kst \<Rightarrow> kst option" where
  "lock_set_holder l st = do {
     t \<leftarrow> thread_current st;
     Some (st\<lparr>lock_holder := (lock_holder st)(l := Some t)\<rparr>) }"

definition lock_try_acquire :: "lptr \<Rightarrow> kst \<Rightarrow> (bool \<times> kst) option" where
  "lock_try_acquire l st = do {
     held \<leftarrow> lock_held_by_current_thread l st;
     ASSERT (\<not> held);
     let (success, st) = sema_try_down (LockSema l) st;
     Some (success, if success then push_frames [Set_Holder l] st else st) }"

definition lock_release :: "lptr \<Rightarrow> kst \<Rightarrow> kst option" where
  "lock_release l st = do {
     held \<leftarrow> lock_held_by_current_thread l st;
     ASSERT held;
     let st = st\<lparr>lock_holder := (lock_holder st)(l := None)\<rparr>;
     Some (push_frames [Release_Test l, Sema_Up (LockSema l)] st) }"

definition lock_release_test :: "lptr \<Rightarrow> kst \<Rightarrow> kst option" where
  "lock_release_test l st = do {
     t \<leftarrow> thread_current st;
     r \<leftarrow> threads st t;
     Some (if t_donation_list r \<noteq> [] \<and> s_waiters (semas st (LockSema l)) \<noteq> [] \<and> \<not> thread_mlfqs st
           then push_frames [Donate_Back l] st else st) }"

section \<open>Condition variables\<close>

text \<open>The priority a waiter is inserted by is that of the thread at the front of the
  semaphore of the other waiter; \<open>list_front\<close> panics when that semaphore has no waiter yet.\<close>

definition compare_priority_condition_insert :: "kst \<Rightarrow> int \<Rightarrow> tptr \<Rightarrow> bool option" where
  "compare_priority_condition_insert st p b =
     (case s_waiters (semas st (CondSema b)) of
        [] \<Rightarrow> None
      | t # _ \<Rightarrow> Some (p > priority_of st t))"

definition compare_priority_condition_sort :: "kst \<Rightarrow> tptr \<Rightarrow> tptr \<Rightarrow> bool" where
  "compare_priority_condition_sort st a b =
     (case s_waiters (semas st (CondSema a)) of
        [] \<Rightarrow> False
      | t1 # _ \<Rightarrow> (case s_waiters (semas st (CondSema b)) of
                     [] \<Rightarrow> True
                   | t2 # _ \<Rightarrow> priority_of st t1 > priority_of st t2))"

text \<open>\<open>list_insert_ordered\<close> with a comparison that may panic.\<close>

primrec cond_insert :: "(tptr \<Rightarrow> bool option) \<Rightarrow> tptr \<Rightarrow> tptr list \<Rightarrow> tptr list option" where
  "cond_insert before_p t [] = Some [t]"
| "cond_insert before_p t (b # bs) = do {
     before \<leftarrow> before_p b;
     if before then Some (t # b # bs)
     else do { rest \<leftarrow> cond_insert before_p t bs; Some (b # rest) } }"

text \<open>\<open>list_sort\<close> with the comparison above: waiters whose semaphore has a thread, by its
  priority, before those that have none.\<close>

definition cond_sort :: "kst \<Rightarrow> tptr list \<Rightarrow> tptr list" where
  "cond_sort st ts = stable_sort (compare_priority_condition_sort st) ts"

definition cond_init :: "cptr \<Rightarrow> kst \<Rightarrow> kst" where
  "cond_init c st = st\<lparr>cond_waiters := (cond_waiters st)(c := [])\<rparr>"

definition cond_wait :: "cptr \<Rightarrow> lptr \<Rightarrow> kst \<Rightarrow> kst option" where
  "cond_wait c l st = do {
     ASSERT (\<not> intr_context st);
     held \<leftarrow> lock_held_by_current_thread l st;
     ASSERT held;
     t \<leftarrow> thread_current st;
     let st = sema_init (CondSema t) 0 st;
     ws \<leftarrow> cond_insert (compare_priority_condition_insert st (priority_of st t)) t (cond_waiters st c);
     let st = st\<lparr>cond_waiters := (cond_waiters st)(c := ws)\<rparr>;
     Some (push_frames [Lock_Release l, Sema_Down (CondSema t) None, Lock_Acquire l] st) }"

definition cond_signal :: "cptr \<Rightarrow> lptr \<Rightarrow> kst \<Rightarrow> kst option" where
  "cond_signal c l st = do {
     ASSERT (\<not> intr_context st);
     held \<leftarrow> lock_held_by_current_thread l st;
     ASSERT held;
     case cond_sort st (cond_waiters st c) of
       [] \<Rightarrow> Some st
     | w # ws \<Rightarrow> Some (push_frames [Sema_Up (CondSema w)]
                       (st\<lparr>cond_waiters := (cond_waiters st)(c := ws)\<rparr>)) }"

definition cond_broadcast :: "cptr \<Rightarrow> lptr \<Rightarrow> kst \<Rightarrow> kst option" where
  "cond_broadcast c l st =
     (if cond_waiters st c = [] then Some st
      else Some (push_frames [Cond_Signal c l, Cond_Broadcast c l] st))"

end
