(* ===== verification/Timer.thy ===== *)
theory Timer
  imports Synch
begin

unbundle bit_operations_syntax

text \<open>
  \<open>devices/timer.c\<close> of project 1 (sleeping threads, the timer interrupt, calibration of the
  busy-wait loop) and the part of \<open>threads/interrupt.c\<close> that runs an external handler.
\<close>

section \<open>Sleeping\<close>

definition timer_init :: "kst \<Rightarrow> kst" where
  "timer_init st = st\<lparr>sleep_list := []\<rparr>"

definition timer_elapsed :: "int \<Rightarrow> kst \<Rightarrow> int" where
  "timer_elapsed earlier st = wrap64 (timer_ticks st - earlier)"

text \<open>The start time is read in one step, the thread put on the sleep list in another, and
  \<open>sema_down\<close> is called last; interrupts are on in between.\<close>

definition timer_sleep :: "int \<Rightarrow> kst \<Rightarrow> kst option" where
  "timer_sleep n st = do {
     ASSERT (intr_get_level st);
     Some (if n > 0 then push_frames [Sleep_Until (wrap64 (timer_ticks st + n))] st else st) }"

text \<open>The code changes the list of sleeping threads with interrupts on; here the insertion and the blocking are one step.\<close>

definition sleep_until :: "int \<Rightarrow> kst \<Rightarrow> kst option" where
  "sleep_until w st = do {
     t \<leftarrow> thread_current st;
     st \<leftarrow> upd_thread t (t_wakeup_time_update (\<lambda>_. w)) st;
     let st = st\<lparr>sleep_list := sleep_list st @ [t]\<rparr>;
     Some (push_frames [Sema_Down (ThreadSema t) None] st) }"

section \<open>The timer interrupt\<close>

primrec wake_loop :: "tptr list \<Rightarrow> kst \<Rightarrow> (tptr list \<times> kst) option" where
  "wake_loop [] st = Some ([], st)"
| "wake_loop (t # ts) st = do {
     r \<leftarrow> threads st t;
     if timer_ticks st \<ge> t_wakeup_time r
     then do {
       st \<leftarrow> sema_up_intr (ThreadSema t) st;
       wake_loop ts st }
     else do {
       (rest, st) \<leftarrow> wake_loop ts st;
       Some (t # rest, st) } }"

definition timer_interrupt :: "kst \<Rightarrow> kst option" where
  "timer_interrupt st = do {
     let st = st\<lparr>timer_count := wrap64 (timer_count st + 1)\<rparr>;
     (rest, st) \<leftarrow> wake_loop (sleep_list st) st;
     thread_tick (st\<lparr>sleep_list := rest\<rparr>) }"

text \<open>\<open>intr_handler\<close> for an external interrupt. The interrupt gate turns interrupts off and the
  return from the interrupt turns them on again: that is the frame pushed first.\<close>

definition intr_handler :: "(kst \<Rightarrow> kst option) \<Rightarrow> kst \<Rightarrow> kst option" where
  "intr_handler handler st = do {
     let st = push_frames [Set_Level True] (st\<lparr>intr_on := False\<rparr>);
     ASSERT (intr_get_level st = False);
     ASSERT (\<not> intr_context st);
     st \<leftarrow> handler (st\<lparr>in_external_intr := True, yield_on_return := False\<rparr>);
     ASSERT (intr_get_level st = False);
     ASSERT (intr_context st);
     let st = st\<lparr>in_external_intr := False\<rparr>;
     if yield_on_return st then thread_yield st else Some st }"

section \<open>Delays below one tick\<close>

function busy_wait :: "int \<Rightarrow> nat" where
  "busy_wait loops = (if loops > 0 then Suc (busy_wait (loops - 1)) else 0)"
  by pat_completeness auto
termination by (relation "measure nat") auto

declare busy_wait.simps [simp del]

lemma busy_wait_eq: "busy_wait loops = nat loops"
proof (induction loops rule: busy_wait.induct)
  case (1 loops)
  then show ?case by (subst busy_wait.simps) (auto simp: nat_diff_distrib)
qed

text \<open>The number of loops \<open>real_time_delay\<close> waits, given \<open>loops_per_tick\<close>.\<close>

definition real_time_delay :: "32 word \<Rightarrow> int \<Rightarrow> int \<Rightarrow> int option" where
  "real_time_delay lpt num denom = do {
     ASSERT (denom smod 1000 = 0);
     ASSERT (denom sdiv 1000 \<noteq> 0);
     Some (wrap64 (wrap64 (wrap64 (uint lpt * num) sdiv 1000) * TIMER_FREQ) sdiv (denom sdiv 1000)) }"

datatype sleep_kind = Sleep_Ticks int | Busy_Loops int

definition real_time_sleep :: "32 word \<Rightarrow> int \<Rightarrow> int \<Rightarrow> kst \<Rightarrow> sleep_kind option" where
  "real_time_sleep lpt num denom st = do {
     ASSERT (denom \<noteq> 0);
     let n = wrap64 (num * TIMER_FREQ) sdiv denom;
     ASSERT (intr_get_level st);
     if n > 0 then Some (Sleep_Ticks n)
     else do { b \<leftarrow> real_time_delay lpt num denom; Some (Busy_Loops b) } }"

definition timer_msleep :: "32 word \<Rightarrow> int \<Rightarrow> kst \<Rightarrow> sleep_kind option" where
  "timer_msleep lpt ms st = real_time_sleep lpt ms 1000 st"

definition timer_usleep :: "32 word \<Rightarrow> int \<Rightarrow> kst \<Rightarrow> sleep_kind option" where
  "timer_usleep lpt us st = real_time_sleep lpt us (1000 * 1000) st"

definition timer_nsleep :: "32 word \<Rightarrow> int \<Rightarrow> kst \<Rightarrow> sleep_kind option" where
  "timer_nsleep lpt ns st = real_time_sleep lpt ns (1000 * 1000 * 1000) st"

definition timer_mdelay :: "32 word \<Rightarrow> int \<Rightarrow> int option" where
  "timer_mdelay lpt ms = real_time_delay lpt ms 1000"

definition timer_udelay :: "32 word \<Rightarrow> int \<Rightarrow> int option" where
  "timer_udelay lpt us = real_time_delay lpt us (1000 * 1000)"

definition timer_ndelay :: "32 word \<Rightarrow> int \<Rightarrow> int option" where
  "timer_ndelay lpt ns = real_time_delay lpt ns (1000 * 1000 * 1000)"

section \<open>Calibration\<close>

text \<open>Whether a number of loops lasts longer than one tick is measured on the machine: the
  parameter \<open>too_many\<close>.\<close>

partial_function (option) calibrate_loop :: "(32 word \<Rightarrow> bool) \<Rightarrow> 32 word \<Rightarrow> 32 word option" where
  "calibrate_loop too_many lpt =
     (if \<not> too_many (push_bit 1 lpt)
      then (if push_bit 1 lpt = 0 then None else calibrate_loop too_many (push_bit 1 lpt))
      else Some lpt)"

partial_function (option) calibrate_refine ::
    "(32 word \<Rightarrow> bool) \<Rightarrow> 32 word \<Rightarrow> 32 word \<Rightarrow> 32 word \<Rightarrow> 32 word option" where
  "calibrate_refine too_many high_bit test_bit lpt =
     (if test_bit \<noteq> drop_bit 10 high_bit
      then calibrate_refine too_many high_bit (drop_bit 1 test_bit)
             (if \<not> too_many (high_bit OR test_bit) then lpt OR test_bit else lpt)
      else Some lpt)"

definition timer_calibrate :: "(32 word \<Rightarrow> bool) \<Rightarrow> kst \<Rightarrow> 32 word option" where
  "timer_calibrate too_many st = do {
     ASSERT (intr_get_level st);
     lpt \<leftarrow> calibrate_loop too_many (push_bit 10 1);
     calibrate_refine too_many lpt (drop_bit 1 lpt) lpt }"

declare calibrate_loop.simps [code] calibrate_refine.simps [code]

end
