(* ===== verification/Machine.thy ===== *)
theory Machine
  imports Timer
begin

text \<open>
  The kernel as a transition system. A step runs the next frame of the running thread; or, when
  the running thread has no frame left, one of the kernel calls its own code may make; or, when
  interrupts are on, the timer interrupt.
\<close>

section \<open>Running one frame\<close>

fun exec :: "frame \<Rightarrow> kst \<Rightarrow> kst option" where
  "exec (Set_Level b) st = intr_set_level b st"
| "exec Yield_Call st = thread_yield st"
| "exec Super_Yield st = thread_super_yield_read st"
| "exec (Yield_If_Lower t) st = thread_super_yield_cmp t st"
| "exec (Sema_Down s ret) st = sema_down s ret st"
| "exec (Sema_Test s lvl ret) st = sema_down_test s lvl ret st"
| "exec (Sema_Up s) st = sema_up s st"
| "exec (Sema_Init n v) st = Some (sema_init (OtherSema n) v st)"
| "exec (Lock_Acquire l) st = lock_acquire l st"
| "exec (Donate l) st = donation l st"
| "exec (Set_Holder l) st = lock_set_holder l st"
| "exec (Lock_Try l) st = map_option snd (lock_try_acquire l st)"
| "exec (Lock_Release l) st = lock_release l st"
| "exec (Release_Test l) st = lock_release_test l st"
| "exec (Donate_Back l) st = donation_back l st"
| "exec (Cond_Wait c l) st = cond_wait c l st"
| "exec (Cond_Signal c l) st = cond_signal c l st"
| "exec (Cond_Broadcast c l) st = cond_broadcast c l st"
| "exec (Thread_Start p) st = thread_start p st"
| "exec (Thread_Create p n pr b) st = thread_create p n pr b st"
| "exec (Alloc_Tid t) st = allocate_tid_body t st"
| "exec (Create_Tail t b) st = thread_create_tail t b st"
| "exec (Kernel_Thread b) st = kernel_thread b st"
| "exec (Idle_Start s) st = idle_start s st"
| "exec Idle_Loop st = idle_loop st"
| "exec Thread_Exit st = thread_exit st"
| "exec (Set_Priority p) st = thread_set_priority p st"
| "exec (Set_Nice n) st = thread_set_nice n st"
| "exec (Timer_Sleep n) st = timer_sleep n st"
| "exec (Sleep_Until w) st = sleep_until w st"

text \<open>Popping the running thread's next frame and running it.\<close>

definition run_frame :: "kst \<Rightarrow> kst option" where
  "run_frame st =
     (case kstack st (running st) of
        [] \<Rightarrow> None
      | f # fs \<Rightarrow> exec f (st\<lparr>kstack := (kstack st)(running st := fs)\<rparr>))"

section \<open>The calls of the rest of the kernel\<close>

text \<open>
  What code outside these files calls: semaphores of its own, locks, condition variables,
  threads, sleeping, priorities. It does not touch the semaphore inside a lock or a thread, it
  does not reinitialise a semaphore that has waiters, and \<open>palloc_get_page\<close> gives
  \<open>thread_create\<close> a page that is not a thread's.
\<close>

fun api_call :: "kst \<Rightarrow> frame \<Rightarrow> bool" where
  "api_call st (Set_Level b) = True"
| "api_call st Yield_Call = True"
| "api_call st (Sema_Down (OtherSema n) None) = True"
| "api_call st (Sema_Up (OtherSema n)) = True"
| "api_call st (Sema_Init n v) = (s_waiters (semas st (OtherSema n)) = [])"
| "api_call st (Lock_Acquire l) = True"
| "api_call st (Lock_Try l) = True"
| "api_call st (Lock_Release l) = True"
| "api_call st (Cond_Wait c l) = True"
| "api_call st (Cond_Signal c l) = True"
| "api_call st (Cond_Broadcast c l) = True"
| "api_call st (Thread_Create None n p b) = (b = Any_Function)"
| "api_call st (Thread_Create (Some t) n p b) = (b = Any_Function \<and> threads st t = None)"
| "api_call st Thread_Exit = True"
| "api_call st (Set_Priority p) = (PRI_MIN \<le> p \<and> p \<le> PRI_MAX)"
| "api_call st (Set_Nice n) = True"
| "api_call st (Timer_Sleep n) = True"
| "api_call st _ = False"

section \<open>Steps\<close>

text \<open>The initial state: \<open>thread_init\<close> has run on the boot page, every lock has been
  initialised, and the main thread goes on to \<open>thread_start\<close>.\<close>

definition boot :: "tptr \<Rightarrow> tptr \<Rightarrow> bool \<Rightarrow> kst option" where
  "boot main_page idle_page mlfqs = do {
     let st = empty_kst main_page mlfqs;
     let st = st\<lparr>semas := (\<lambda>s. case s of LockSema l \<Rightarrow> \<lparr>s_value = 1, s_waiters = []\<rparr> | _ \<Rightarrow> semas st s)\<rparr>;
     st \<leftarrow> thread_init st;
     Some (timer_init (st\<lparr>kstack := (kstack st)
       (running st := kstack st (running st) @ [Thread_Start idle_page])\<rparr>)) }"

inductive kstep :: "kst \<Rightarrow> kst \<Rightarrow> bool" where
  frame: "run_frame st = Some st' \<Longrightarrow> kstep st st'"
| call: "kstack st (running st) = [] \<Longrightarrow> api_call st f \<Longrightarrow> exec f st = Some st' \<Longrightarrow> kstep st st'"
| tick: "intr_on st \<Longrightarrow> intr_handler timer_interrupt st = Some st' \<Longrightarrow> kstep st st'"

inductive reachable :: "kst \<Rightarrow> bool" where
  init: "main_page \<noteq> idle_page \<Longrightarrow> boot main_page idle_page mlfqs = Some st \<Longrightarrow> reachable st"
| step: "reachable st \<Longrightarrow> kstep st st' \<Longrightarrow> reachable st'"

inductive_simps kstep_simps: "kstep st st'"

text \<open>Running a number of frames, for concrete executions.\<close>

primrec run_frames :: "nat \<Rightarrow> kst \<Rightarrow> kst option" where
  "run_frames 0 st = Some st"
| "run_frames (Suc n) st = do { st \<leftarrow> run_frame st; run_frames n st }"

definition call_api :: "frame \<Rightarrow> kst \<Rightarrow> kst option" where
  "call_api f st = do {
     ASSERT (kstack st (running st) = [] \<and> api_call st f);
     exec f st }"

lemma run_frames_reachable: "reachable st \<Longrightarrow> run_frames n st = Some st' \<Longrightarrow> reachable st'"
  by (induction n arbitrary: st)
     (auto simp: bind_Some_iff intro: reachable.step kstep.frame)

lemma call_api_reachable: "reachable st \<Longrightarrow> call_api f st = Some st' \<Longrightarrow> reachable st'"
  by (auto simp: call_api_def intro: reachable.step kstep.call split: if_splits)

end
