(* ===== verification/Bookkeeping.thy ===== *)
theory Bookkeeping
  imports Machine
begin

text \<open>
  Much of the scheduler only rewrites members of threads (priorities, donations, MLFQS figures)
  and reorders the ready list. The locale \<open>bookkeeping\<close> is the contract of a relation between
  states that such changes keep; every function of this kind keeps every such relation. It is
  instantiated with \<open>same_sched\<close> (theory SchedStep), \<open>locks_eq\<close> (LockInv) and
  \<open>sleep_eq\<close> (SleepInv).
\<close>

lemma upd_thread_Some:
  "upd_thread t f st = Some st' \<longleftrightarrow>
     (\<exists>r. threads st t = Some r \<and> st' = st\<lparr>threads := (threads st)(t \<mapsto> f r)\<rparr>)"
  by (auto simp: upd_thread_def split: option.splits)

lemma post_upd_thread [post_simps]:
  "post P (upd_thread t f st) = (\<forall>r. threads st t = Some r \<longrightarrow> P (st\<lparr>threads := (threads st)(t \<mapsto> f r)\<rparr>))"
  by (auto simp: post_def upd_thread_Some)

lemma post_lookup:
  "(\<And>x. P x) \<Longrightarrow> post P (threads st t)" "(\<And>u. Q u) \<Longrightarrow> post Q (lock_holder st l)"
  "(\<And>u. Q u) \<Longrightarrow> post Q (thread_current st)" "(\<And>u. S u) \<Longrightarrow> post S (mlfqs_priority a b)"
  "(\<And>u. S u) \<Longrightarrow> post S (recent_cpu_value a b c)" "(\<And>u. S u) \<Longrightarrow> post S (load_avg_value a b)"
  by (simp_all add: post_def)

text \<open>Updates that leave the status, the wake-up time and the thread's identity alone.\<close>

definition book_upd :: "(thread \<Rightarrow> thread) \<Rightarrow> bool" where
  "book_upd f \<longleftrightarrow> (\<forall>r. t_status (f r) = t_status r \<and> t_wakeup_time (f r) = t_wakeup_time r)"

lemma book_upds [simp]:
  "book_upd (t_priority_update f)" "book_upd (t_ori_priority_update f)" "book_upd (t_nice_update f)"
  "book_upd (t_tid_update f)" "book_upd (t_stack_update g)" "book_upd (t_wait_lock_update h)"
  "book_upd (t_donation_list_update k)" "book_upd (t_recent_cpu_update f)"
  "book_upd (\<lambda>r. r\<lparr>t_ori_priority := a r\<rparr>)" "book_upd (\<lambda>r. r\<lparr>t_priority := a r\<rparr>)"
  "book_upd (\<lambda>r. r\<lparr>t_recent_cpu := a r\<rparr>)" "book_upd (\<lambda>r. r\<lparr>t_donation_list := b r\<rparr>)"
  "book_upd (\<lambda>r. r\<lparr>t_nice := a r, t_recent_cpu := c r, t_priority := d r\<rparr>)"
  by (simp_all add: book_upd_def)

locale bookkeeping =
  fixes R :: "kst \<Rightarrow> kst \<Rightarrow> bool"
  assumes R_refl: "R st st"
    and R_trans: "R a b \<Longrightarrow> R b c \<Longrightarrow> R a c"
    and R_upd: "threads st t = Some r \<Longrightarrow> book_upd f \<Longrightarrow> R st (st\<lparr>threads := (threads st)(t \<mapsto> f r)\<rparr>)"
    and R_sort: "R st (st\<lparr>ready_list := sort_by_priority st' (ready_list st)\<rparr>)"
    and R_stats: "R st (st\<lparr>idle_ticks := m\<rparr>)" "R st (st\<lparr>kernel_ticks := m\<rparr>)" "R st (st\<lparr>load_avg := m\<rparr>)"
      "R st (st\<lparr>thread_ticks := w\<rparr>)" "R st (st\<lparr>calc_ticks := w\<rparr>)" "R st (st\<lparr>yield_on_return := yr\<rparr>)"
      "R st (st\<lparr>next_tid := m\<rparr>)"
begin

lemma post_upd: "R st0 st \<Longrightarrow> book_upd f \<Longrightarrow> (\<And>st'. R st0 st' \<Longrightarrow> P st') \<Longrightarrow> post P (upd_thread t f st)"
  using R_trans R_upd unfolding post_upd_thread by blast

lemma upd_R: "upd_thread t f st = Some st' \<Longrightarrow> book_upd f \<Longrightarrow> R st st'"
  by (auto simp: upd_thread_Some intro: R_upd)

lemma donation_loop_R: "R st0 st \<Longrightarrow> post (R st0) (donation_loop n d p st)"
proof (induction n arbitrary: d st)
  case (Suc n)
  show ?case unfolding donation_loop.simps post_basic(3,5)
    by (insert Suc.IH Suc.prems, intro post_lookup conjI impI allI post_upd[of st0])
       (simp_all add: post_basic(1,3) post_lookup)
qed (simp add: post_basic)

lemma donation_R: "post (R st) (donation l st)"
proof -
  have 1: "post P (if b then upd_thread d f st else Some st)"
    if "book_upd f" "\<And>st'. R st st' \<Longrightarrow> P st'" for P b d f
    using that R_refl by (auto simp: post_basic intro!: post_upd[of st])
  have 2: "post P (donation_loop n d p st1)"
    if "R st st1" "\<And>st'. R st st' \<Longrightarrow> P st'" for P n d p st1
    using post_mono[OF donation_loop_R[OF that(1)]] that(2) by blast
  have 3: "R st (st1\<lparr>ready_list := sort_by_priority st1 (ready_list st1)\<rparr>)" if "R st st1" for st1
    using R_trans[OF that R_sort] .
  show ?thesis unfolding donation_def Let_def post_basic(3)
    by (intro post_lookup 1 post_upd[of st] 2) (simp_all add: post_basic 3)
qed

lemma donation_back_loop_R: "R st0 st \<Longrightarrow> post (\<lambda>(rest, st'). R st0 st') (donation_back_loop l ts st)"
proof (induction ts arbitrary: st)
  case (Cons t ts)
  have "post (\<lambda>x. post (\<lambda>(rest, st'). R st0 st') (case x of (rest, st) \<Rightarrow> Some (t # rest, st)))
      (donation_back_loop l ts st)"
    by (rule post_mono[OF Cons.IH[OF Cons.prems]]) (auto simp: post_basic)
  then show ?case unfolding donation_back_loop.simps post_basic(3,4)
    by (insert Cons.IH Cons.prems, intro post_lookup conjI impI post_upd[of st0]) simp_all
qed (simp add: post_basic)

lemma donation_back_R: "post (R st) (donation_back l st)"
proof -
  have 1: "post (\<lambda>x. post P (case x of (rest, st1) \<Rightarrow> f rest st1)) (donation_back_loop l ts st)"
    if "\<And>rest st1. R st st1 \<Longrightarrow> post P (f rest st1)" for P and f :: "tptr list \<Rightarrow> kst \<Rightarrow> kst option" and ts
    by (rule post_mono[OF donation_back_loop_R[OF R_refl]]) (use that in auto)
  have 2: "post P (case rest of
      f # _ \<Rightarrow> Option.bind (threads st1 f) (\<lambda>rf. upd_thread t (t_priority_update (\<lambda>_. t_priority rf)) st1)
      | [] \<Rightarrow> upd_thread t (\<lambda>r. r\<lparr>t_priority := t_ori_priority r\<rparr>) st1)"
    if "R st st1" "\<And>st'. R st st' \<Longrightarrow> P st'" for P rest t st1
    unfolding post_basic(3,6)
    by (insert that, intro conjI impI allI post_lookup post_upd[of st]) simp_all
  have 3: "R st (st1\<lparr>ready_list := sort_by_priority st1 (ready_list st1)\<rparr>)" if "R st st1" for st1
    using R_trans[OF that R_sort] .
  show ?thesis unfolding donation_back_def Let_def post_basic(3)
    by (intro post_lookup 1, unfold post_basic(3), intro post_upd[of st] 2) (simp_all add: post_basic 3)
qed

lemma foreach_R:
  assumes "\<And>t st1. post (R st1) (f t st1)"
  shows "post (R st) (foreach_loop f ts st)"
proof (induction ts arbitrary: st)
  case (Cons t ts)
  have "post (\<lambda>st1. post (R st) (foreach_loop f ts st1)) (f t st)"
    by (rule post_mono[OF assms]) (use post_mono[OF Cons.IH] R_trans in blast)
  then show ?case by (simp add: post_basic)
qed (simp add: post_basic R_refl)

lemma calc_R: "post (R st) (calc_priority t st)" "post (R st) (calc_recent_cpu t st)" "post (R st) (calc_load_avg st)"
  unfolding calc_priority_def calc_recent_cpu_def calc_load_avg_def Let_def post_basic(3)
  by (intro post_lookup post_upd[of st]; simp add: post_basic R_refl R_stats)+

lemma tick_averages_R: "post (R st) (tick_averages st)"
proof -
  have "post (\<lambda>st1. post (R st) (calc_load_avg st1)) (foreach_loop calc_recent_cpu (all_list st) st)"
    by (rule post_mono[OF foreach_R[OF calc_R(2)]]) (use post_mono[OF calc_R(3)] R_trans in blast)
  then show ?thesis by (simp add: tick_averages_def post_basic R_refl)
qed

lemma tick_count_R: "post (R st) (tick_count t st)"
  by (auto simp: tick_count_def post_basic(1,4) R_refl R_stats intro!: post_upd[of st])

lemma tick_slice_R: "post (R st) (tick_slice t st)"
proof -
  define s where "s = st\<lparr>thread_ticks := thread_ticks st + 1\<rparr>"
  define r where "r = (if thread_mlfqs s then s\<lparr>ready_list := sort_by_priority s (ready_list s)\<rparr> else s)"
  have e: "tick_slice t st =
     (if thread_ticks s \<ge> TIME_SLICE
      then (if ready_list s \<noteq> []
            then (if priority_of r t = priority_of r (hd (ready_list r)) then intr_yield_on_return r else Some r)
            else Some (s\<lparr>thread_ticks := 0\<rparr>))
      else Some s)"
    by (simp only: tick_slice_def s_def r_def Let_def)
  have a: "R st s" unfolding s_def by (rule R_stats(4))
  have "R s (s\<lparr>ready_list := sort_by_priority s (ready_list s)\<rparr>)" by (rule R_sort)
  then have b: "R st r" using a R_trans by (simp add: r_def)
  have c: "R st (r\<lparr>yield_on_return := True\<rparr>)" "R st (s\<lparr>thread_ticks := 0\<rparr>)"
    using R_trans[OF b R_stats(6)] R_trans[OF a R_stats(4)] by blast+
  show ?thesis unfolding e intr_yield_on_return_def ASSERT_bind post_basic
    using a b c by simp
qed

lemma inherit_mlfqs_R: "post (R st) (inherit_mlfqs t st)"
  unfolding inherit_mlfqs_def post_basic(3,4)
  by (intro conjI impI post_lookup post_upd[of st]) (simp_all add: post_basic R_refl)

lemma set_nice_R:
  "thread_set_nice n st = Some st' \<Longrightarrow> \<exists>st1. R st st1 \<and> st' = push_frames [Super_Yield] st1"
proof -
  assume "thread_set_nice n st = Some st'"
  then obtain t st1 p st2 where "upd_thread t (t_nice_update (\<lambda>_. n)) st = Some st1"
    "upd_thread t (t_priority_update (\<lambda>_. p)) st1 = Some st2" "st' = push_frames [Super_Yield] st2"
    by (auto simp: thread_set_nice_def bind_Some_iff Let_def)
  then show ?thesis using R_trans upd_R by (metis book_upds(1,3))
qed

lemma set_priority_R:
  "thread_set_priority p st = Some st' \<Longrightarrow> st' = st \<or> (\<exists>st1. R st st1 \<and> st' = push_frames [Super_Yield] st1)"
  by (auto simp: thread_set_priority_def bind_Some_iff split: if_splits)
    (blast intro: upd_R book_upds)+

lemma alloc_frame_R: "alloc_frame t n st = Some st' \<Longrightarrow> R st st'"
  by (auto simp: alloc_frame_def split: if_splits intro: upd_R)

lemma allocate_tid_R: "allocate_tid_body t st = Some st' \<Longrightarrow> R st st'"
  using R_trans[OF R_stats(7) upd_R] by (auto simp: allocate_tid_body_def Let_def)

end

end
