(* ===== verification/SchedInv.thy ===== *)
theory SchedInv
  imports Bookkeeping
begin

text \<open>
  The scheduler invariant of project 1 and its preservation by every step: a thread is on the
  ready list exactly when it is ready (the idle thread apart), in exactly one semaphore's waiting
  list when it is blocked there, and running exactly when it is the current thread.

  The invariant is stated over the parts of the state the scheduler owns: the status map \<open>S\<close>,
  the ready list \<open>R\<close>, the list of all threads \<open>A\<close>, the waiting lists \<open>W\<close>, the idle thread
  \<open>I\<close> and the pending frames \<open>K\<close>.
\<close>

section \<open>Counting pending frames\<close>

definition frames_count :: "(frame \<Rightarrow> bool) \<Rightarrow> (tptr \<Rightarrow> frame list) \<Rightarrow> nat" where
  "frames_count P K = (\<Sum>t | K t \<noteq> []. length (filter P (K t)))"

lemma frames_count_upd:
  assumes "finite {t. K t \<noteq> []}"
  shows "frames_count P (K(t := xs)) + length (filter P (K t)) = frames_count P K + length (filter P xs)"
proof -
  let ?T = "insert t {t. K t \<noteq> []}" and ?K = "K(t := xs)"
  have ext: "frames_count P L = (\<Sum>u\<in>?T. length (filter P (L u)))"
    if "{u. L u \<noteq> []} \<subseteq> ?T" for L
    unfolding frames_count_def using assms that
    by (intro sum.mono_neutral_left) auto
  have "frames_count P ?K = (\<Sum>u\<in>?T. length (filter P (?K u)))" by (rule ext) auto
  also have "\<dots> = length (filter P xs) + (\<Sum>u\<in>?T - {t}. length (filter P (K u)))"
    using assms by (subst sum.remove[of _ t]) (auto intro: sum.cong)
  finally have a: "frames_count P ?K = \<dots>" .
  have "frames_count P K = (\<Sum>u\<in>?T. length (filter P (K u)))" by (rule ext) auto
  also have "\<dots> = length (filter P (K t)) + (\<Sum>u\<in>?T - {t}. length (filter P (K u)))"
    using assms by (subst sum.remove[of _ t]) auto
  finally show ?thesis using a by simp
qed

lemma frames_count_push:
  "finite {t. K t \<noteq> []} \<Longrightarrow>
   frames_count P (K(t := fs @ K t)) = frames_count P K + length (filter P fs)"
  using frames_count_upd[of K P t "fs @ K t"] by simp

lemma frames_count_pop:
  "finite {t. K t \<noteq> []} \<Longrightarrow> K t = f # fs \<Longrightarrow>
   frames_count P K = frames_count P (K(t := fs)) + (if P f then 1 else 0)"
  using frames_count_upd[of K P t fs] by auto

lemma frames_count_new:
  "finite {t. K t \<noteq> []} \<Longrightarrow> K p = [] \<Longrightarrow>
   frames_count P (K(p := [g])) = frames_count P K + (if P g then 1 else 0)"
  using frames_count_upd[of K P p "[g]"] by auto

lemma frames_count_mem:
  assumes "finite {t. K t \<noteq> []}" "f \<in> set (K t)" "P f"
  shows "0 < frames_count P K"
proof -
  have "0 < length (filter P (K t))" using assms(2,3) by (auto simp: filter_empty_conv)
  moreover have "length (filter P (K t)) \<le> frames_count P K"
    unfolding frames_count_def using assms by (intro member_le_sum) auto
  ultimately show ?thesis by linarith
qed

lemma frames_count_zeroD:
  "finite {t. K t \<noteq> []} \<Longrightarrow> frames_count P K = 0 \<Longrightarrow> f \<in> set (K t) \<Longrightarrow> \<not> P f"
  using frames_count_mem by fastforce

section \<open>Well-formed frames\<close>

text \<open>A thread waits only on its own \<open>sema\<close> and its own \<open>semaphore_elem\<close>, and \<open>sema_down\<close>
  returns into \<open>lock_acquire\<close> exactly when it waits on a lock's semaphore.\<close>

fun down_ok :: "tptr \<Rightarrow> sema_loc \<Rightarrow> lptr option \<Rightarrow> bool" where
  "down_ok t (ThreadSema u) ret = (u = t \<and> ret = None)"
| "down_ok t (CondSema u) ret = (u = t \<and> ret = None)"
| "down_ok t (LockSema l) ret = (ret = Some l)"
| "down_ok t (OtherSema n) ret = (ret = None)"

fun body_ok :: "thread_body \<Rightarrow> bool" where
  "body_ok (Idle s) = (\<exists>n. s = OtherSema n)"
| "body_ok Any_Function = True"

fun frame_ok :: "tptr \<Rightarrow> frame \<Rightarrow> bool" where
  "frame_ok t (Sema_Down s ret) = down_ok t s ret"
| "frame_ok t (Sema_Test s lvl ret) = down_ok t s ret"
| "frame_ok t (Kernel_Thread b) = body_ok b"
| "frame_ok t (Create_Tail p b) = body_ok b"
| "frame_ok t (Thread_Create p n pr b) = (p \<noteq> None \<and> (\<exists>k. b = Idle (OtherSema k)))"
| "frame_ok t (Idle_Start s) = (\<exists>n. s = OtherSema n)"
| "frame_ok t Thread_Exit = False"
| "frame_ok t (Sema_Init n v) = False"
| "frame_ok t _ = True"

text \<open>Frames that stand for the idle thread not being there yet.\<close>

fun idle_pending :: "frame \<Rightarrow> bool" where
  "idle_pending (Thread_Start p) = True"
| "idle_pending (Thread_Create p n pr (Idle s)) = True"
| "idle_pending (Create_Tail p (Idle s)) = True"
| "idle_pending (Kernel_Thread (Idle s)) = True"
| "idle_pending (Idle_Start s) = True"
| "idle_pending _ = False"

fun idle_frame :: "frame \<Rightarrow> bool" where
  "idle_frame (Set_Level b) = True"
| "idle_frame Super_Yield = True"
| "idle_frame (Yield_If_Lower t) = True"
| "idle_frame (Sema_Up s) = True"
| "idle_frame Idle_Loop = True"
| "idle_frame _ = False"

fun creates :: "tptr \<Rightarrow> frame \<Rightarrow> bool" where
  "creates p (Create_Tail q b) = (q = p)"
| "creates p _ = False"

fun boots :: "tptr \<Rightarrow> frame \<Rightarrow> bool" where
  "boots p (Thread_Start q) = (q = p)"
| "boots p (Thread_Create (Some q) n pr (Idle s)) = (q = p)"
| "boots p _ = False"

text \<open>The stack of the thread that will become the idle thread: nothing below its start.\<close>

fun is_base :: "frame \<Rightarrow> bool" where
  "is_base (Kernel_Thread (Idle s)) = True"
| "is_base (Idle_Start s) = True"
| "is_base _ = False"

definition idle_base :: "frame list \<Rightarrow> bool" where
  "idle_base ks \<longleftrightarrow> ((\<exists>f\<in>set ks. is_base f) \<longrightarrow> (\<forall>f\<in>set (butlast ks). \<exists>b. f = Set_Level b))"

section \<open>The invariant\<close>

definition wf_ready :: "(tptr \<Rightarrow> thread_status option) \<Rightarrow> tptr list \<Rightarrow> tptr option \<Rightarrow> bool" where
  "wf_ready S R I \<longleftrightarrow> distinct R \<and> (\<forall>t\<in>set R. S t = Some THREAD_READY) \<and>
     (\<forall>t. S t = Some THREAD_READY \<longrightarrow> t \<in> set R \<or> I = Some t)"

definition wf_idle ::
  "(tptr \<Rightarrow> thread_status option) \<Rightarrow> tptr list \<Rightarrow> tptr option \<Rightarrow> (tptr \<Rightarrow> frame list) \<Rightarrow> bool" where
  "wf_idle S R I K \<longleftrightarrow> (\<forall>t. I = Some t \<longrightarrow> t \<notin> set R \<and> S t \<noteq> None \<and> S t \<noteq> Some THREAD_DYING \<and>
     K t \<noteq> [] \<and> last (K t) = Idle_Loop \<and> (\<forall>f\<in>set (K t). idle_frame f)) \<and>
     (\<forall>t. Idle_Loop \<in> set (K t) \<longrightarrow> I = Some t)"

definition wf_wait ::
  "(tptr \<Rightarrow> thread_status option) \<Rightarrow> (sema_loc \<Rightarrow> tptr list) \<Rightarrow> (tptr \<Rightarrow> frame list) \<Rightarrow> bool" where
  "wf_wait S W K \<longleftrightarrow> (\<forall>s. distinct (W s)) \<and>
     (\<forall>s. \<forall>t\<in>set (W s). S t = Some THREAD_BLOCKED \<and> (\<exists>lvl ret fs. K t = Sema_Test s lvl ret # fs))"

definition wf_blocked ::
  "(tptr \<Rightarrow> thread_status option) \<Rightarrow> (sema_loc \<Rightarrow> tptr list) \<Rightarrow> tptr option \<Rightarrow> (tptr \<Rightarrow> frame list) \<Rightarrow> bool"
where
  "wf_blocked S W I K \<longleftrightarrow> (\<forall>t. S t = Some THREAD_BLOCKED \<longrightarrow>
     (\<exists>s. t \<in> set (W s)) \<or> I = Some t \<or> 0 < frames_count (creates t) K)"

definition wf_all :: "(tptr \<Rightarrow> thread_status option) \<Rightarrow> tptr list \<Rightarrow> bool" where
  "wf_all S A \<longleftrightarrow> distinct A \<and> set A = {t. S t \<noteq> None \<and> S t \<noteq> Some THREAD_DYING}"

definition wf_stack :: "(tptr \<Rightarrow> thread_status option) \<Rightarrow> (tptr \<Rightarrow> frame list) \<Rightarrow> bool" where
  "wf_stack S K \<longleftrightarrow> finite {t. K t \<noteq> []} \<and>
     (\<forall>t. K t \<noteq> [] \<longrightarrow> S t \<noteq> None \<and> S t \<noteq> Some THREAD_DYING) \<and>
     (\<forall>t. \<forall>f\<in>set (K t). frame_ok t f) \<and> (\<forall>t. idle_base (K t)) \<and>
     (\<forall>t p. \<forall>f\<in>set (K t). boots p f \<longrightarrow> {u. S u \<noteq> None} = {t} \<and> p \<noteq> t)"

definition wf_pending ::
  "(tptr \<Rightarrow> thread_status option) \<Rightarrow> tptr option \<Rightarrow> (tptr \<Rightarrow> frame list) \<Rightarrow> bool" where
  "wf_pending S I K \<longleftrightarrow>
     frames_count idle_pending K = (if I = None then 1 else 0) \<and>
     (\<forall>p. frames_count (creates p) K \<le> 1 \<and>
        (frames_count (creates p) K = 1 \<longrightarrow> S p = Some THREAD_BLOCKED \<and> K p = []))"

definition sched_wf where
  "sched_wf S R A W I K \<longleftrightarrow> wf_ready S R I \<and> wf_idle S R I K \<and> wf_wait S W K \<and> wf_blocked S W I K \<and>
     wf_all S A \<and> wf_stack S K \<and> wf_pending S I K"

definition wf_run :: "(tptr \<Rightarrow> thread_status option) \<Rightarrow> tptr \<Rightarrow> tptr \<Rightarrow> bool" where
  "wf_run S run i0 \<longleftrightarrow> (\<forall>t. S t = Some THREAD_RUNNING \<longleftrightarrow> t = run) \<and>
     (\<forall>t. S t = Some THREAD_DYING \<longrightarrow> t = i0)"

definition status_map :: "kst \<Rightarrow> tptr \<Rightarrow> thread_status option" where
  "status_map st t = status_of st t"

definition waiters_map :: "kst \<Rightarrow> sema_loc \<Rightarrow> tptr list" where
  "waiters_map st s = s_waiters (semas st s)"

definition WF :: "kst \<Rightarrow> bool" where
  "WF st \<longleftrightarrow> sched_wf (status_map st) (ready_list st) (all_list st) (waiters_map st)
     (idle_thread st) (kstack st)"

definition sched_inv :: "kst \<Rightarrow> bool" where
  "sched_inv st \<longleftrightarrow> WF st \<and> wf_run (status_map st) (running st) (initial_thread st)"

section \<open>Preservation, on the scheduler's parts\<close>

text \<open>The running thread exchanges its top frame \<open>f\<close> for the frames \<open>gs\<close>.\<close>

lemma is_base_pending: "is_base f \<Longrightarrow> idle_pending f"
  by (induction f rule: is_base.induct) simp_all

lemma boots_pending: "boots p f \<Longrightarrow> idle_pending f"
  by (induction p f rule: boots.induct) simp_all

definition replaces :: "tptr \<Rightarrow> frame \<Rightarrow> frame list \<Rightarrow> bool" where
  "replaces t f gs \<longleftrightarrow> (\<forall>g\<in>set gs. frame_ok t g \<and> \<not> is_base g \<and> (\<forall>p. boots p g \<longrightarrow> boots p f)) \<and>
     length (filter idle_pending gs) = length (filter idle_pending [f]) \<and>
     (\<forall>p. length (filter (creates p) gs) = length (filter (creates p) [f])) \<and>
     (idle_frame f \<longrightarrow> (\<forall>g\<in>set gs. idle_frame g)) \<and>
     (Idle_Loop \<in> set gs \<longrightarrow> f = Idle_Loop) \<and> (f = Idle_Loop \<longrightarrow> gs \<noteq> [] \<and> last gs = Idle_Loop) \<and>
     ((\<exists>b. f = Set_Level b) \<longrightarrow> gs = [])"

lemma finite_upd_stack: "finite {u. (K(t := xs)) u \<noteq> []} = finite {u. K u \<noteq> []}"
proof -
  have "{u. (K(t := xs)) u \<noteq> []} \<subseteq> insert t {u. K u \<noteq> []}"
    "{u. K u \<noteq> []} \<subseteq> insert t {u. (K(t := xs)) u \<noteq> []}" by auto
  then show ?thesis by (meson finite.insertI finite_subset)
qed

lemma frames_count_replace:
  assumes "finite {u. K u \<noteq> []}" "length (filter P gs) = length (filter P [f])"
  shows "frames_count P (K(t := gs @ fs)) = frames_count P (K(t := f # fs))"
  using frames_count_upd[OF assms(1), of P t "gs @ fs"] frames_count_upd[OF assms(1), of P t "f # fs"]
    assms(2) by (simp split: if_splits)

lemma sched_wf_fin: "sched_wf S R A W I K \<Longrightarrow> finite {u. K u \<noteq> []}"
  by (simp add: sched_wf_def wf_stack_def)

lemma wf_waitD:
  "wf_wait S W K \<Longrightarrow> t \<in> set (W s) \<Longrightarrow> S t = Some THREAD_BLOCKED"
  "wf_wait S W K \<Longrightarrow> t \<in> set (W s) \<Longrightarrow> \<exists>lvl ret fs. K t = Sema_Test s lvl ret # fs"
  "wf_wait S W K \<Longrightarrow> distinct (W s)"
  by (auto simp: wf_wait_def)

lemma wf_wait_status: "wf_wait S W K \<Longrightarrow> S t \<noteq> Some THREAD_BLOCKED \<Longrightarrow> wf_wait (S(t := x)) W K"
  unfolding wf_wait_def by (metis fun_upd_apply)

lemma wf_all_status:
  assumes "wf_all S A" "S t \<noteq> None" "S t \<noteq> Some THREAD_DYING" "x \<noteq> THREAD_DYING"
  shows "wf_all (S(t \<mapsto> x)) A"
proof -
  have "{u. (S(t \<mapsto> x)) u \<noteq> None \<and> (S(t \<mapsto> x)) u \<noteq> Some THREAD_DYING} =
      {u. S u \<noteq> None \<and> S u \<noteq> Some THREAD_DYING}" using assms(2-) by auto
  then show ?thesis using assms(1) unfolding wf_all_def by simp
qed

lemma wf_all_exit:
  assumes "wf_all S A" "S t \<noteq> None" "S t \<noteq> Some THREAD_DYING"
  shows "wf_all (S(t \<mapsto> THREAD_DYING)) (remove1 t A)"
proof -
  have "{u. (S(t \<mapsto> THREAD_DYING)) u \<noteq> None \<and> (S(t \<mapsto> THREAD_DYING)) u \<noteq> Some THREAD_DYING} =
      {u. S u \<noteq> None \<and> S u \<noteq> Some THREAD_DYING} - {t}" using assms(2-) by auto
  then show ?thesis using assms(1) unfolding wf_all_def by (simp add: set_remove1_eq)
qed

lemma wf_all_free:
  assumes "wf_all S A" "S t = Some THREAD_DYING"
  shows "wf_all (S(t := None)) A"
proof -
  have "{u. (S(t := None)) u \<noteq> None \<and> (S(t := None)) u \<noteq> Some THREAD_DYING} =
      {u. S u \<noteq> None \<and> S u \<noteq> Some THREAD_DYING}" using assms(2-) by auto
  then show ?thesis using assms(1) unfolding wf_all_def by simp
qed

lemma wf_stack_frameD: "wf_stack S K \<Longrightarrow> f \<in> set (K t) \<Longrightarrow> frame_ok t f"
  by (simp add: wf_stack_def)

lemma wf_stack_baseD: "wf_stack S K \<Longrightarrow> idle_base (K t)"
  by (simp add: wf_stack_def)

lemma wf_blockedD:
  "wf_blocked S W I K \<Longrightarrow> S t = Some THREAD_BLOCKED \<Longrightarrow>
   (\<exists>s. t \<in> set (W s)) \<or> I = Some t \<or> 0 < frames_count (creates t) K"
  by (simp add: wf_blocked_def)

lemma wf_wait_stack_upd:
  assumes "wf_wait S W K" "\<And>u. K u \<noteq> L u \<Longrightarrow> S u \<noteq> Some THREAD_BLOCKED"
  shows "wf_wait S W L"
  unfolding wf_wait_def
proof (intro conjI allI ballI)
  fix s t assume t: "t \<in> set (W s)"
  then have "S t = Some THREAD_BLOCKED" using wf_waitD(1)[OF assms(1)] by blast
  then show "S t = Some THREAD_BLOCKED" "\<exists>lvl ret fs. L t = Sema_Test s lvl ret # fs"
    using assms(2)[of t] wf_waitD(2)[OF assms(1) t] by metis+
qed (use wf_waitD(3)[OF assms(1)] in auto)

lemma wf_replace:
  assumes wf: "sched_wf S R A W I (K(t := f # fs))" and run: "S t = Some THREAD_RUNNING"
    and rep: "replaces t f gs"
  shows "sched_wf S R A W I (K(t := gs @ fs))"
proof -
  let ?K = "K(t := f # fs)" and ?L = "K(t := gs @ fs)"
  note w = wf[unfolded sched_wf_def]
  have fin: "finite {u. K u \<noteq> []}" using sched_wf_fin[OF wf] by (simp only: finite_upd_stack)
  have c: "frames_count P ?L = frames_count P ?K"
    if "length (filter P gs) = length (filter P [f])" for P
    using frames_count_replace[OF fin that] .
  have ci: "frames_count idle_pending ?L = frames_count idle_pending ?K"
    using rep unfolding replaces_def by (intro c) simp
  have cc: "frames_count (creates p) ?L = frames_count (creates p) ?K" for p
    using rep unfolding replaces_def by (intro c) simp
  have "wf_wait S W ?L" 
  proof (rule wf_wait_stack_upd)
    show "wf_wait S W ?K" using w by blast
  qed (use run in \<open>auto split: if_splits\<close>)
  moreover have "wf_blocked S W I ?L" using w by (simp add: wf_blocked_def cc)
  moreover have "wf_idle S R I ?L"
  proof -
    have a: "u \<notin> set R \<and> S u \<noteq> None \<and> S u \<noteq> Some THREAD_DYING \<and> ?L u \<noteq> [] \<and>
        last (?L u) = Idle_Loop \<and> (\<forall>g\<in>set (?L u). idle_frame g)" if "I = Some u" for u
    proof (cases "u = t")
      case True
      have i: "t \<notin> set R" "last (f # fs) = Idle_Loop" "\<forall>g\<in>set (f # fs). idle_frame g"
        using w that True by (auto simp: wf_idle_def)
      then have "\<forall>g\<in>set gs. idle_frame g" using rep by (simp add: replaces_def)
      moreover have "gs @ fs \<noteq> [] \<and> last (gs @ fs) = Idle_Loop"
        using i(2) rep by (cases "fs = []") (auto simp: replaces_def)
      ultimately show ?thesis using i run True by auto
    next
      case False
      then show ?thesis using w that by (auto simp: wf_idle_def)
    qed
    have b: "I = Some u" if "Idle_Loop \<in> set (?L u)" for u
    proof -
      have "Idle_Loop \<in> set (?K u)"
        using that rep by (cases "u = t") (auto simp: replaces_def)
      then show ?thesis using w unfolding wf_idle_def by blast
    qed
    show ?thesis unfolding wf_idle_def using a b by blast
  qed
  moreover have "wf_stack S ?L"
  proof -
    have ok: "\<forall>g\<in>set (?K u). frame_ok u g" "idle_base (?K u)"
      "\<forall>g\<in>set (?K u). boots p g \<longrightarrow> {v. S v \<noteq> None} = {u} \<and> p \<noteq> u" for u p
      using w unfolding wf_stack_def by blast+
    have "finite {u. ?L u \<noteq> []}" using fin by (simp only: finite_upd_stack)
    moreover have "S u \<noteq> None \<and> S u \<noteq> Some THREAD_DYING" if "?L u \<noteq> []" for u
      using w run that unfolding wf_stack_def by (cases "u = t") auto
    moreover have "frame_ok u g" if "g \<in> set (?L u)" for u g
      using ok(1)[of u] rep that by (cases "u = t") (auto simp: replaces_def)
    moreover have "idle_base (?L u)" for u
    proof (cases "u = t")
      case True
      have b: "idle_base (f # fs)" using ok(2)[of t] by simp
      have "\<forall>g\<in>set (butlast (gs @ fs)). \<exists>b. g = Set_Level b" if "g \<in> set (gs @ fs)" "is_base g" for g
      proof -
        have g: "g \<in> set fs" using that rep by (auto simp: replaces_def)
        then have "\<exists>b. f = Set_Level b" "\<forall>g\<in>set (butlast fs). \<exists>b. g = Set_Level b"
          using b that(2) unfolding idle_base_def by (auto split: if_splits)
        then show ?thesis using rep by (auto simp: replaces_def)
      qed
      then show ?thesis using True by (auto simp: idle_base_def)
    qed (use ok(2)[of u] in simp)
    moreover have "{v. S v \<noteq> None} = {u} \<and> p \<noteq> u" if "g \<in> set (?L u)" "boots p g" for u p g
    proof -
      have "\<exists>h\<in>set (?K u). boots p h"
        using that rep by (cases "u = t") (auto simp: replaces_def)
      then show ?thesis using ok(3)[of u p] by blast
    qed
    ultimately show ?thesis unfolding wf_stack_def by blast
  qed
  moreover have "wf_pending S I ?L"
    using w run unfolding wf_pending_def ci cc by (auto split: if_splits)
  ultimately show ?thesis using w unfolding sched_wf_def by blast
qed

lemma frames_count_cong_filter:
  assumes "finite {u. K u \<noteq> []}" "length (filter P xs) = length (filter P (K t))"
  shows "frames_count P (K(t := xs)) = frames_count P K"
  using frames_count_upd[OF assms(1), of P t xs] assms(2) by simp

text \<open>The running thread, with nothing left to do, enters a kernel call.\<close>

lemma wf_enter:
  assumes wf: "sched_wf S R A W I K" and run: "S t = Some THREAD_RUNNING" and K: "K t = []"
    and f: "frame_ok t f" "\<not> idle_pending f" "\<And>p. \<not> creates p f" "f \<noteq> Idle_Loop"
  shows "sched_wf S R A W I (K(t := [f]))"
proof -
  let ?K = "K(t := [f])"
  note w = wf[unfolded sched_wf_def]
  have fin: "finite {u. K u \<noteq> []}" using sched_wf_fin[OF wf] .
  have c: "frames_count idle_pending ?K = frames_count idle_pending K"
    "frames_count (creates p) ?K = frames_count (creates p) K" for p
    using f K by (auto intro!: frames_count_cong_filter[OF fin])
  have I: "I \<noteq> Some t" using w K unfolding wf_idle_def by blast
  have "wf_wait S W ?K"
  proof (rule wf_wait_stack_upd)
    show "wf_wait S W K" using w by blast
  qed (use run in \<open>auto split: if_splits\<close>)
  moreover have "wf_blocked S W I ?K" using w by (simp add: wf_blocked_def c)
  moreover have "wf_pending S I ?K"
    using w run unfolding wf_pending_def c by (auto split: if_splits)
  moreover have "wf_idle S R I ?K" using w I f unfolding wf_idle_def by auto
  moreover have "wf_stack S ?K"
  proof -
    have nb: "\<not> boots p f" "\<not> is_base f" for p using f(2) boots_pending is_base_pending by blast+
    have "finite {u. ?K u \<noteq> []}" using fin by (simp only: finite_upd_stack)
    then show ?thesis using w run f(1) nb unfolding wf_stack_def idle_base_def by simp
  qed
  ultimately show ?thesis using w unfolding sched_wf_def by blast
qed

text \<open>A waiter is taken off its semaphore and becomes ready.\<close>

lemma wf_unblock:
  assumes wf: "sched_wf S R A W I K" and t: "W s = xs" "mset xs = add_mset t (mset ys)"
    and R: "mset R' = add_mset t (mset R)"
  shows "sched_wf (S(t \<mapsto> THREAD_READY)) R' A (W(s := ys)) I K"
proof -
  let ?S = "S(t \<mapsto> THREAD_READY)" and ?W = "W(s := ys)"
  note w = wf[unfolded sched_wf_def]
  have wait: "wf_wait S W K" using w by blast
  have sx: "set xs = insert t (set ys)" using arg_cong[OF t(2), of set_mset] by simp
  have dx: "distinct (t # ys)"
    using wf_waitD(3)[OF wait, of s] t by (metis mset.simps(2) mset_eq_imp_distinct_iff)
  have tb: "S t = Some THREAD_BLOCKED" and ts: "\<exists>lvl ret fs. K t = Sema_Test s lvl ret # fs"
    using wf_waitD(1,2)[OF wait, of t s] sx t(1) by auto
  have other: "t \<notin> set (?W u)" for u
  proof (cases "u = s")
    case False
    then show ?thesis using ts wf_waitD(2)[OF wait, of t u] by auto
  qed (use dx in simp)
  have sub: "set (?W u) \<subseteq> set (W u)" for u using sx t(1) by auto
  have It: "I \<noteq> Some t" using w ts unfolding wf_idle_def by force
  have tR: "t \<notin> set R" using w tb unfolding wf_ready_def by auto
  have sR: "set R' = insert t (set R)" using arg_cong[OF R, of set_mset] by simp
  have dR: "distinct R'"
    using R tR w unfolding wf_ready_def by (metis distinct.simps(2) mset.simps(2) mset_eq_imp_distinct_iff)
  have "wf_ready ?S R' I" using w dR sR unfolding wf_ready_def by auto
  moreover have "wf_idle ?S R' I K" using w It sR unfolding wf_idle_def by auto
  moreover have "wf_wait ?S ?W K"
    unfolding wf_wait_def
  proof (intro conjI allI ballI)
    fix u show "distinct (?W u)" using wf_waitD(3)[OF wait, of u] dx by auto
  next
    fix u v assume v: "v \<in> set (?W u)"
    then have "v \<noteq> t" "v \<in> set (W u)" using other sub by auto
    then show "?S v = Some THREAD_BLOCKED" "\<exists>lvl ret fs. K v = Sema_Test u lvl ret # fs"
      using wf_waitD(1,2)[OF wait, of v u] by auto
  qed
  moreover have "wf_blocked ?S ?W I K"
    unfolding wf_blocked_def
  proof (intro allI impI)
    fix v assume v: "?S v = Some THREAD_BLOCKED"
    then have vt: "v \<noteq> t" "S v = Some THREAD_BLOCKED" by (auto split: if_splits)
    have wb: "wf_blocked S W I K" using w by blast
    consider u where "v \<in> set (W u)" | "I = Some v \<or> 0 < frames_count (creates v) K"
      using wf_blockedD[OF wb vt(2)] by metis
    then show "(\<exists>u. v \<in> set (?W u)) \<or> I = Some v \<or> 0 < frames_count (creates v) K"
    proof cases
      case 1
      then have "v \<in> set (?W u)" using vt sx t(1) by auto
      then show ?thesis by blast
    qed blast
  qed
  moreover have "wf_all ?S A" using w tb by (intro wf_all_status) auto
  moreover have "wf_stack ?S K"
  proof -
    have "{u. ?S u \<noteq> None} = {u. S u \<noteq> None}" using tb by auto
    then show ?thesis using w unfolding wf_stack_def by auto
  qed
  moreover have "wf_pending ?S I K" using w ts unfolding wf_pending_def by auto
  ultimately show ?thesis unfolding sched_wf_def by blast
qed

text \<open>The running thread, its test of the semaphore back on its stack, starts waiting.\<close>

lemma wf_block:
  assumes wf: "sched_wf S R A W I K" and run: "S t = Some THREAD_RUNNING"
    and K: "K t = Sema_Test s lvl ret # fs" and ws: "mset ws = add_mset t (mset (W s))"
  shows "sched_wf (S(t \<mapsto> THREAD_BLOCKED)) R A (W(s := ws)) I K"
proof -
  let ?S = "S(t \<mapsto> THREAD_BLOCKED)" and ?W = "W(s := ws)"
  note w = wf[unfolded sched_wf_def]
  have wait: "wf_wait S W K" using w by blast
  have sx: "set ws = insert t (set (W s))" using arg_cong[OF ws, of set_mset] by simp
  have tW: "t \<notin> set (W u)" for u using wf_waitD(1)[OF wait, of t u] run by auto
  have dws: "distinct ws"
    using wf_waitD(3)[OF wait, of s] ws tW
    by (metis distinct.simps(2) mset.simps(2) mset_eq_imp_distinct_iff)
  have It: "I \<noteq> Some t" using w K unfolding wf_idle_def by force
  have "wf_ready ?S R I" using w run It unfolding wf_ready_def by auto
  moreover have "wf_idle ?S R I K" using w unfolding wf_idle_def by auto
  moreover have "wf_wait ?S ?W K"
    unfolding wf_wait_def
  proof (intro conjI allI ballI)
    fix u show "distinct (?W u)" using wf_waitD(3)[OF wait, of u] dws by auto
  next
    fix u v assume v: "v \<in> set (?W u)"
    then consider "v = t" "u = s" | "v \<in> set (W u)" using sx by (auto split: if_splits)
    then show "?S v = Some THREAD_BLOCKED" "\<exists>lvl ret fs. K v = Sema_Test u lvl ret # fs"
      using K wf_waitD(1,2)[OF wait, of v u] tW by (cases; auto)+
  qed
  moreover have "wf_blocked ?S ?W I K"
    unfolding wf_blocked_def
  proof (intro allI impI)
    fix v assume v: "?S v = Some THREAD_BLOCKED"
    have e: "set (W u) \<subseteq> set (?W u)" for u using sx by auto
    consider "v = t" | "v \<noteq> t" "S v = Some THREAD_BLOCKED" using v by (auto split: if_splits)
    then show "(\<exists>u. v \<in> set (?W u)) \<or> I = Some v \<or> 0 < frames_count (creates v) K"
    proof cases
      case 1
      then have "v \<in> set (?W s)" using sx by simp
      then show ?thesis by blast
    next
      case 2
      have wb: "wf_blocked S W I K" using w by blast
      show ?thesis using wf_blockedD[OF wb 2(2)] subsetD[OF e] by metis
    qed
  qed
  moreover have "wf_all ?S A" using w run by (intro wf_all_status) auto
  moreover have "wf_stack ?S K"
  proof -
    have "{u. ?S u \<noteq> None} = {u. S u \<noteq> None}" using run by auto
    then show ?thesis using w unfolding wf_stack_def by auto
  qed
  moreover have "wf_pending ?S I K" using w run unfolding wf_pending_def by auto
  ultimately show ?thesis unfolding sched_wf_def by blast
qed

text \<open>A change of the running thread's status: the idle thread blocks, a thread yields.\<close>

lemma wf_status_idle:
  assumes wf: "sched_wf S R A W I K" and run: "S t = Some THREAD_RUNNING" and I: "I = Some t"
    and x: "x = THREAD_BLOCKED \<or> x = THREAD_READY"
  shows "sched_wf (S(t \<mapsto> x)) R A W I K"
proof -
  let ?S = "S(t \<mapsto> x)"
  note w = wf[unfolded sched_wf_def]
  have dom: "{u. ?S u \<noteq> None} = {u. S u \<noteq> None}" using run by auto
  have tR: "t \<notin> set R" using w I unfolding wf_idle_def by blast
  have "wf_ready ?S R I" using w I tR unfolding wf_ready_def by auto
  moreover have "wf_idle ?S R I K" using w x unfolding wf_idle_def by auto
  moreover have "wf_wait ?S W K" using w run by (intro wf_wait_status) auto
  moreover have "wf_blocked ?S W I K" using w I unfolding wf_blocked_def by auto
  moreover have "wf_all ?S A" using w run x by (intro wf_all_status) auto
  moreover have "wf_stack ?S K" using w x dom unfolding wf_stack_def by auto
  moreover have "wf_pending ?S I K" using w run unfolding wf_pending_def by auto
  ultimately show ?thesis unfolding sched_wf_def by blast
qed

lemma wf_yield:
  assumes wf: "sched_wf S R A W I K" and run: "S t = Some THREAD_RUNNING" and I: "I \<noteq> Some t"
    and R: "mset R' = add_mset t (mset R)"
  shows "sched_wf (S(t \<mapsto> THREAD_READY)) R' A W I K"
proof -
  let ?S = "S(t \<mapsto> THREAD_READY)"
  note w = wf[unfolded sched_wf_def]
  have dom: "{u. ?S u \<noteq> None} = {u. S u \<noteq> None}" using run by auto
  have tR: "t \<notin> set R" using w run unfolding wf_ready_def by auto
  have sR: "set R' = insert t (set R)" using arg_cong[OF R, of set_mset] by simp
  have dR: "distinct R'"
    using R tR w unfolding wf_ready_def by (metis distinct.simps(2) mset.simps(2) mset_eq_imp_distinct_iff)
  have "wf_ready ?S R' I" using w sR dR unfolding wf_ready_def by auto
  moreover have "wf_idle ?S R' I K" using w I sR unfolding wf_idle_def by auto
  moreover have "wf_wait ?S W K" using w run by (intro wf_wait_status) auto
  moreover have "wf_blocked ?S W I K" using w unfolding wf_blocked_def by auto
  moreover have "wf_all ?S A" using w run by (intro wf_all_status) auto
  moreover have "wf_stack ?S K" using w dom unfolding wf_stack_def by auto
  moreover have "wf_pending ?S I K" using w run unfolding wf_pending_def by auto
  ultimately show ?thesis unfolding sched_wf_def by blast
qed

lemma wf_exit:
  assumes wf: "sched_wf S R A W I K" and run: "S t = Some THREAD_RUNNING" and K: "K t = []"
  shows "sched_wf (S(t \<mapsto> THREAD_DYING)) R (remove1 t A) W I K"
proof -
  let ?S = "S(t \<mapsto> THREAD_DYING)"
  note w = wf[unfolded sched_wf_def]
  have dom: "{u. ?S u \<noteq> None} = {u. S u \<noteq> None}" using run by auto
  have I: "I \<noteq> Some t" using w K unfolding wf_idle_def by blast
  have "wf_ready ?S R I" using w run unfolding wf_ready_def by auto
  moreover have "wf_idle ?S R I K" using w I unfolding wf_idle_def by auto
  moreover have "wf_wait ?S W K" using w run by (intro wf_wait_status) auto
  moreover have "wf_blocked ?S W I K" using w unfolding wf_blocked_def by auto
  moreover have "wf_all ?S (remove1 t A)" using w run by (intro wf_all_exit) auto
  moreover have "wf_stack ?S K" using w K dom unfolding wf_stack_def by auto
  moreover have "wf_pending ?S I K" using w run unfolding wf_pending_def by auto
  ultimately show ?thesis unfolding sched_wf_def by blast
qed

text \<open>The thread taken off the ready list, or the idle thread, runs.\<close>

lemma wf_dispatch:
  assumes wf: "sched_wf S R A W I K"
    and n: "mset R = add_mset n (mset R') \<or> (R = [] \<and> R' = [] \<and> I = Some n)"
  shows "sched_wf (S(n \<mapsto> THREAD_RUNNING)) R' A W I K"
proof -
  let ?S = "S(n \<mapsto> THREAD_RUNNING)"
  note w = wf[unfolded sched_wf_def]
  have dR: "distinct R" using w unfolding wf_ready_def by blast
  have d': "distinct R' \<and> n \<notin> set R'"
    using n dR by (metis distinct.simps mset.simps(2) mset_eq_imp_distinct_iff list.set(1) empty_iff)
  have sR: "set R \<subseteq> insert n (set R')" "set R' \<subseteq> set R" using n by (auto dest!: arg_cong[of _ _ set_mset])
  have st: "S n = Some THREAD_READY \<or> I = Some n"
    using n w unfolding wf_ready_def by (auto dest!: arg_cong[of _ _ set_mset])
  have Sn: "S n \<noteq> None" "S n \<noteq> Some THREAD_DYING" using st w unfolding wf_idle_def by auto
  then have dom: "{u. ?S u \<noteq> None} = {u. S u \<noteq> None}" by auto
  have nW: "n \<notin> set (W s)" for s
  proof
    assume nW: "n \<in> set (W s)"
    have wait: "wf_wait S W K" using w by blast
    have I: "I = Some n" using wf_waitD(1)[OF wait nW] st by simp
    obtain lvl ret fs where "K n = Sema_Test s lvl ret # fs" using wf_waitD(2)[OF wait nW] by blast
    then show False using I w unfolding wf_idle_def by force
  qed
  have "wf_ready ?S R' I" using w d' sR unfolding wf_ready_def by auto
  moreover have "wf_idle ?S R' I K" using w sR unfolding wf_idle_def by auto
  moreover have "wf_wait ?S W K" 
  proof -
    have wait: "wf_wait S W K" using w by blast
    show ?thesis unfolding wf_wait_def
      using wf_waitD[OF wait] nW by (metis fun_upd_other)
  qed
  moreover have "wf_blocked ?S W I K" using w unfolding wf_blocked_def by auto
  moreover have "wf_all ?S A" using w Sn by (intro wf_all_status) auto
  moreover have "wf_stack ?S K" using w dom unfolding wf_stack_def by auto
  moreover have "wf_pending ?S I K"
  proof -
    have "frames_count (creates n) K \<noteq> 1"
      using w st unfolding wf_pending_def wf_idle_def by auto
    then show ?thesis using w unfolding wf_pending_def by auto
  qed
  ultimately show ?thesis unfolding sched_wf_def by blast
qed

lemma wf_free:
  assumes wf: "sched_wf S R A W I K" and d: "S p = Some THREAD_DYING"
  shows "sched_wf (S(p := None)) R A W I K"
proof -
  let ?S = "S(p := None)"
  note w = wf[unfolded sched_wf_def]
  have Kp: "K p = []" using w d unfolding wf_stack_def by blast
  have "wf_ready ?S R I" using w d unfolding wf_ready_def by auto
  moreover have "wf_idle ?S R I K" using w d unfolding wf_idle_def by auto
  moreover have "wf_wait ?S W K" using w d by (intro wf_wait_status) auto
  moreover have "wf_blocked ?S W I K" using w unfolding wf_blocked_def by auto
  moreover have "wf_all ?S A" using w d by (intro wf_all_free) auto
  moreover have "wf_stack ?S K"
  proof -
    have "{u. ?S u \<noteq> None} = {t}" if "f \<in> set (K t)" "boots q f" for t q f
    proof -
      have "{u. S u \<noteq> None} = {t}" using w that unfolding wf_stack_def by blast
      then have "p = t" using d by blast
      then show ?thesis using Kp that by simp
    qed
    then show ?thesis using w Kp unfolding wf_stack_def by auto
  qed
  moreover have "wf_pending ?S I K" using w d unfolding wf_pending_def by auto
  ultimately show ?thesis unfolding sched_wf_def by blast
qed

text \<open>A new thread: \<open>f\<close> is the frame of the running thread that stands for the call.\<close>

lemma wf_create:
  assumes wf: "sched_wf S R A W I (K(t := f # fs))" and run: "S t = Some THREAD_RUNNING"
    and p: "S p = None" and b: "body_ok b" "idle_pending f = idle_pending (Create_Tail p b)"
    and f: "\<And>q. \<not> creates q f" "\<not> idle_frame f \<or> I \<noteq> Some t" "\<And>g. g \<in> set fs \<Longrightarrow> \<not> idle_pending g"
  shows "sched_wf (S(p \<mapsto> THREAD_BLOCKED)) R (A @ [p]) W I (K(t := allocate_tid p @ [Create_Tail p b] @ fs))"
proof -
  let ?S = "S(p \<mapsto> THREAD_BLOCKED)" and ?K = "K(t := f # fs)"
  let ?gs = "allocate_tid p @ [Create_Tail p b]" let ?L = "K(t := allocate_tid p @ [Create_Tail p b] @ fs)"
  note w = wf[unfolded sched_wf_def]
  have fin: "finite {u. K u \<noteq> []}" using sched_wf_fin[OF wf] by (simp only: finite_upd_stack)
  have pt: "p \<noteq> t" using p run by auto
  have stk: "wf_stack S ?K" using w by blast
  have Kp: "K p = []" using stk p pt unfolding wf_stack_def by (metis fun_upd_other)
  have It: "I \<noteq> Some t" using w f(2) unfolding wf_idle_def by auto
  have ip: "idle_pending (Create_Tail p b) = idle_pending f" using b(2) by simp
  have ci: "frames_count idle_pending ?L = frames_count idle_pending ?K"
    using frames_count_upd[OF fin, of idle_pending t "?gs @ fs"]
      frames_count_upd[OF fin, of idle_pending t "f # fs"] ip
    by (simp add: allocate_tid_def split: if_splits)
  have cc: "frames_count (creates q) ?L = frames_count (creates q) ?K + (if q = p then 1 else 0)" for q
    using frames_count_upd[OF fin, of "creates q" t "?gs @ fs"]
      frames_count_upd[OF fin, of "creates q" t "f # fs"] f(1)[of q]
    by (auto simp add: allocate_tid_def split: if_splits)
  have "frames_count (creates p) ?K \<noteq> 1" using w p unfolding wf_pending_def by auto
  moreover have "frames_count (creates p) ?K \<le> 1" using w unfolding wf_pending_def by blast
  ultimately have c0: "frames_count (creates p) ?K = 0" by linarith
  have nbase: "\<not> is_base g" if "g \<in> set (?gs @ fs)" for g
    using that f(3) is_base_pending by (auto simp: allocate_tid_def)
  have "wf_ready ?S R I" using w p unfolding wf_ready_def by auto
  moreover have "wf_idle ?S R I ?L"
    using w It f(3) unfolding wf_idle_def by (auto simp: allocate_tid_def)
  moreover have "wf_wait ?S W ?L"
  proof (rule wf_wait_stack_upd)
    show "wf_wait ?S W ?K" using w p by (intro wf_wait_status) auto
  qed (use run pt in \<open>auto split: if_splits\<close>)
  moreover have "wf_blocked ?S W I ?L"
    unfolding wf_blocked_def
  proof (intro allI impI)
    fix u assume u: "?S u = Some THREAD_BLOCKED"
    have wb: "wf_blocked S W I ?K" using w by blast
    show "(\<exists>s. u \<in> set (W s)) \<or> I = Some u \<or> 0 < frames_count (creates u) ?L"
    proof (cases "u = p")
      case False
      then have "S u = Some THREAD_BLOCKED" using u by simp
      then show ?thesis using wf_blockedD[OF wb, of u] cc[of u] by auto
    next
      case True
      have "0 < frames_count (creates p) ?L" using cc[of p] by simp
      then show ?thesis unfolding True by (intro disjI2)
    qed
  qed
  moreover have "wf_all ?S (A @ [p])"
  proof -
    have "{u. ?S u \<noteq> None \<and> ?S u \<noteq> Some THREAD_DYING} =
        insert p {u. S u \<noteq> None \<and> S u \<noteq> Some THREAD_DYING}" by auto
    then show ?thesis using w p unfolding wf_all_def by auto
  qed
  moreover have "wf_stack ?S ?L"
  proof -
    have fin': "finite {u. ?L u \<noteq> []}" using fin by (simp only: finite_upd_stack)
    have nb: "\<not> boots q g" if "g \<in> set (?L u)" for q g u
    proof
      assume g: "boots q g"
      show False
      proof (cases "u = t")
        case True
        then have "g \<in> set fs" using that g by (auto simp: allocate_tid_def elim: boots.elims)
        then show False using f(3) g boots_pending by blast
      next
        case False
        then have "g \<in> set (?K u)" using that by simp
        then have "{v. S v \<noteq> None} = {u}" using stk g unfolding wf_stack_def by blast
        then show False using run False by auto
      qed
    qed
    have "\<forall>g\<in>set (?L u). frame_ok u g" for u
      using stk b(1) unfolding wf_stack_def by (cases "u = t") (auto simp: allocate_tid_def)
    moreover have "idle_base (?L u)" for u
    proof (cases "u = t")
      case True
      then show ?thesis using nbase by (auto simp: idle_base_def)
    qed (use wf_stack_baseD[OF stk, of u] in simp)
    moreover have "?S u \<noteq> None \<and> ?S u \<noteq> Some THREAD_DYING" if "?L u \<noteq> []" for u
    proof (cases "u = t")
      case False
      then have "?K u \<noteq> []" using that by simp
      then show ?thesis using stk unfolding wf_stack_def by (metis fun_upd_apply option.distinct(1) option.inject thread_status.distinct(11))
    qed (use run pt in simp)
    ultimately show ?thesis using fin' nb unfolding wf_stack_def by blast
  qed
  moreover have "wf_pending ?S I ?L"
    using w run Kp pt c0 unfolding wf_pending_def ci cc by (auto split: if_splits)
  ultimately show ?thesis unfolding sched_wf_def by blast
qed

text \<open>The end of \<open>thread_create\<close>: the new thread gets its first frame and becomes ready.\<close>

lemma wf_start:
  assumes wf: "sched_wf S R A W I (K(t := Create_Tail p b # fs))" and run: "S t = Some THREAD_RUNNING"
    and R: "mset R' = add_mset p (mset R)"
  shows "sched_wf (S(p \<mapsto> THREAD_READY)) R' A W I (K(t := [Super_Yield] @ fs, p := [Kernel_Thread b]))"
proof -
  let ?S = "S(p \<mapsto> THREAD_READY)" and ?K = "K(t := Create_Tail p b # fs)"
  let ?M = "K(t := [Super_Yield] @ fs)"
  let ?L = "?M(p := [Kernel_Thread b])"
  note w = wf[unfolded sched_wf_def]
  have fin: "finite {u. K u \<noteq> []}" using sched_wf_fin[OF wf] by (simp only: finite_upd_stack)
  have finM: "finite {u. ?M u \<noteq> []}" using fin by (simp only: finite_upd_stack)
  have finK: "finite {u. ?K u \<noteq> []}" using fin by (simp only: finite_upd_stack)
  have stk: "wf_stack S ?K" using w by blast
  have "0 < frames_count (creates p) ?K" by (rule frames_count_mem[OF finK, of "Create_Tail p b" t]) simp_all
  then have c1: "frames_count (creates p) ?K = 1" using w unfolding wf_pending_def by (metis le_antisym less_eq_Suc_le One_nat_def)
  then have p: "S p = Some THREAD_BLOCKED" "?K p = []" using w unfolding wf_pending_def by blast+
  then have pt: "p \<noteq> t" and Mp: "?M p = []" using run by auto
  have cM: "frames_count P ?M + (if P (Create_Tail p b) then 1 else 0) =
      frames_count P ?K + (if P Super_Yield then 1 else 0)" for P
    using frames_count_upd[OF fin, of P t "[Super_Yield] @ fs"]
      frames_count_upd[OF fin, of P t "Create_Tail p b # fs"] by (auto split: if_splits)
  have cL: "frames_count P ?L = frames_count P ?M + (if P (Kernel_Thread b) then 1 else 0)" for P
    by (rule frames_count_new[OF finM Mp])
  have ci: "frames_count idle_pending ?L = frames_count idle_pending ?K"
    using cM[of idle_pending] cL[of idle_pending] by (cases b) auto
  have cc: "frames_count (creates q) ?L + (if q = p then 1 else 0) = frames_count (creates q) ?K" for q
    using cM[of "creates q"] cL[of "creates q"] by auto
  have tR: "p \<notin> set R" using w p unfolding wf_ready_def by auto
  have sR: "set R' = insert p (set R)" using arg_cong[OF R, of set_mset] by simp
  have dR: "distinct R'"
    using R tR w unfolding wf_ready_def by (metis distinct.simps(2) mset.simps(2) mset_eq_imp_distinct_iff)
  have Ip: "I \<noteq> Some p" using w p unfolding wf_idle_def by blast
  have It: "I \<noteq> Some t" using w unfolding wf_idle_def by auto
  have wait: "wf_wait S W ?K" using w by blast
  have pW: "p \<notin> set (W s)" for s using wf_waitD(2)[OF wait, of p s] p by auto
  have "wf_ready ?S R' I" using w dR sR unfolding wf_ready_def by auto
  moreover have "wf_idle ?S R' I ?L"
  proof -
    have "I = Some u" if "Idle_Loop \<in> set (?L u)" for u
    proof -
      have "Idle_Loop \<in> set (?K u)" using that by (auto split: if_splits)
      then show ?thesis using w unfolding wf_idle_def by blast
    qed
    moreover have "u \<notin> set R' \<and> ?S u \<noteq> None \<and> ?S u \<noteq> Some THREAD_DYING \<and> ?L u \<noteq> [] \<and>
        last (?L u) = Idle_Loop \<and> (\<forall>f\<in>set (?L u). idle_frame f)" if "I = Some u" for u
    proof -
      have "u \<noteq> p" "u \<noteq> t" using that Ip It by auto
      then show ?thesis using w that sR unfolding wf_idle_def by auto
    qed
    ultimately show ?thesis unfolding wf_idle_def by blast
  qed
  moreover have "wf_wait ?S W ?L"
  proof -
    have "?S v = Some THREAD_BLOCKED \<and> (\<exists>lvl ret fs. ?L v = Sema_Test s lvl ret # fs)"
      if "v \<in> set (W s)" for v s
    proof -
      have "v \<noteq> p" using that pW by blast
      moreover have "v \<noteq> t" using wf_waitD(1)[OF wait that] run by auto
      ultimately show ?thesis using wf_waitD(1,2)[OF wait that] by auto
    qed
    then show ?thesis using wf_waitD(3)[OF wait] unfolding wf_wait_def by blast
  qed
  moreover have "wf_blocked ?S W I ?L"
    unfolding wf_blocked_def
  proof (intro allI impI)
    fix u assume u: "?S u = Some THREAD_BLOCKED"
    then have "u \<noteq> p" "S u = Some THREAD_BLOCKED" by (auto split: if_splits)
    moreover have wb: "wf_blocked S W I ?K" using w by blast
    ultimately show "(\<exists>s. u \<in> set (W s)) \<or> I = Some u \<or> 0 < frames_count (creates u) ?L"
      using wf_blockedD[OF wb, of u] cc[of u] by auto
  qed
  moreover have "wf_all ?S A" using w p by (intro wf_all_status) auto
  moreover have "wf_stack ?S ?L"
  proof -
    have "finite {u. ?L u \<noteq> []}" using finM by (simp only: finite_upd_stack)
    moreover have "\<forall>g\<in>set (?L u). frame_ok u g" for u
    proof
      fix g assume g: "g \<in> set (?L u)"
      have b: "body_ok b" using wf_stack_frameD[OF stk, of "Create_Tail p b" t] by simp
      show "frame_ok u g"
      proof (cases "g = Super_Yield \<or> g = Kernel_Thread b")
        case False
        then have "g \<in> set (?K u)" using g by (auto split: if_splits)
        then show ?thesis by (rule wf_stack_frameD[OF stk])
      qed (use b in auto)
    qed
    moreover have "idle_base (?L u)" for u
    proof (cases "u = t")
      case True
      have "idle_base (Create_Tail p b # fs)" using stk unfolding wf_stack_def by (metis fun_upd_same)
      then have "\<not> is_base g" if "g \<in> set fs" for g
        using that unfolding idle_base_def by (auto split: if_splits)
      then show ?thesis using True pt by (auto simp: idle_base_def)
    next
      case False
      have "idle_base [Kernel_Thread b]" by (simp add: idle_base_def)
      then show ?thesis using wf_stack_baseD[OF stk, of u] False by simp
    qed
    moreover have "?S u \<noteq> None \<and> ?S u \<noteq> Some THREAD_DYING" if "?L u \<noteq> []" for u
      using stk p that unfolding wf_stack_def by (cases "u = t"; cases "u = p") (auto simp: run)
    moreover have "{v. ?S v \<noteq> None} = {u} \<and> q \<noteq> u" if "g \<in> set (?L u)" "boots q g" for u q g
    proof -
      have "g \<in> set (?K u)" using that by (auto split: if_splits)
      then have "{v. S v \<noteq> None} = {u}" using stk that(2) unfolding wf_stack_def by blast
      then have only: "S v \<noteq> None \<Longrightarrow> v = u" for v by blast
      have "p = u" using p by (intro only) simp
      moreover have "t = u" using run by (intro only) simp
      ultimately have "p = u" "t = u" .
      then show ?thesis using pt by simp
    qed
    ultimately show ?thesis unfolding wf_stack_def by blast
  qed
  moreover have "wf_pending ?S I ?L"
  proof -
    have "frames_count (creates q) ?L \<le> 1" for q
    proof -
      have "wf_pending S I ?K" using w by blast
      then have "frames_count (creates q) ?K \<le> 1" by (simp add: wf_pending_def)
      then show ?thesis using cc[of q] by linarith
    qed
    moreover have "?S q = Some THREAD_BLOCKED \<and> ?L q = []" if "frames_count (creates q) ?L = 1" for q
    proof -
      have "q \<noteq> p" using cc[of p] c1 that by auto
      then have "frames_count (creates q) ?K = 1" using cc[of q] that by simp
      then have "S q = Some THREAD_BLOCKED \<and> ?K q = []" using w unfolding wf_pending_def by blast
      then show ?thesis using \<open>q \<noteq> p\<close> run by (auto split: if_splits)
    qed
    ultimately show ?thesis using w ci unfolding wf_pending_def by auto
  qed
  ultimately show ?thesis unfolding sched_wf_def by blast
qed

text \<open>The idle thread starts: \<open>kernel_thread\<close> calls \<open>idle\<close>, and \<open>idle\<close> registers itself.\<close>

lemma wf_idle_call:
  assumes wf: "sched_wf S R A W I (K(t := Kernel_Thread (Idle s) # fs))" and run: "S t = Some THREAD_RUNNING"
  shows "sched_wf S R A W I (K(t := Idle_Start s # fs))"
proof -
  let ?K = "K(t := Kernel_Thread (Idle s) # fs)" let ?L = "K(t := Idle_Start s # fs)"
  note w = wf[unfolded sched_wf_def]
  have fin: "finite {u. K u \<noteq> []}" using sched_wf_fin[OF wf] by (simp only: finite_upd_stack)
  have stk: "wf_stack S ?K" using w by blast
  have c: "frames_count idle_pending ?L = frames_count idle_pending ?K"
    "frames_count (creates p) ?L = frames_count (creates p) ?K" for p
    using frames_count_replace[OF fin, of idle_pending "[Idle_Start s]" "Kernel_Thread (Idle s)" t fs]
      frames_count_replace[OF fin, of "creates p" "[Idle_Start s]" "Kernel_Thread (Idle s)" t fs] by auto
  have "wf_wait S W ?L"
  proof (rule wf_wait_stack_upd)
    show "wf_wait S W ?K" using w by blast
  qed (use run in \<open>auto split: if_splits\<close>)
  moreover have "wf_idle S R I ?L"
  proof -
    have "I \<noteq> Some t" using w unfolding wf_idle_def by auto
    moreover have "I = Some u" if "Idle_Loop \<in> set (?L u)" for u
    proof -
      have "Idle_Loop \<in> set (?K u)" using that by (auto split: if_splits)
      then show ?thesis using w unfolding wf_idle_def by blast
    qed
    ultimately show ?thesis using w unfolding wf_idle_def by auto
  qed
  moreover have "wf_stack S ?L"
  proof -
    have "finite {u. ?L u \<noteq> []}" using fin by (simp only: finite_upd_stack)
    moreover have "S u \<noteq> None \<and> S u \<noteq> Some THREAD_DYING" if "?L u \<noteq> []" for u
      using stk run that unfolding wf_stack_def by (cases "u = t") auto
    moreover have "frame_ok u g" if "g \<in> set (?L u)" for u g
    proof (cases "u = t \<and> g = Idle_Start s")
      case True
      then show ?thesis using wf_stack_frameD[OF stk, of "Kernel_Thread (Idle s)" t] by simp
    next
      case False
      then show ?thesis using that wf_stack_frameD[OF stk, of g u] by (auto split: if_splits)
    qed
    moreover have "idle_base (?L u)" for u
      using wf_stack_baseD[OF stk, of u] by (cases "u = t") (auto simp: idle_base_def split: if_splits)
    moreover have "{v. S v \<noteq> None} = {u} \<and> q \<noteq> u" if "g \<in> set (?L u)" "boots q g" for u q g
    proof -
      have "g \<in> set (?K u)" using that by (auto split: if_splits)
      then show ?thesis using stk that(2) unfolding wf_stack_def by blast
    qed
    ultimately show ?thesis unfolding wf_stack_def by blast
  qed
  moreover have "wf_blocked S W I ?L" using w by (simp add: wf_blocked_def c)
  moreover have "wf_pending S I ?L"
    using w run unfolding wf_pending_def c by (auto split: if_splits)
  ultimately show ?thesis using w unfolding sched_wf_def by blast
qed

lemma wf_idle_start:
  assumes wf: "sched_wf S R A W I (K(t := Idle_Start s # fs))" and run: "S t = Some THREAD_RUNNING"
  shows "sched_wf S R A W (Some t) (K(t := [Sema_Up s, Idle_Loop] @ fs))"
proof -
  let ?K = "K(t := Idle_Start s # fs)" let ?L = "K(t := [Sema_Up s, Idle_Loop] @ fs)"
  note w = wf[unfolded sched_wf_def]
  have fin: "finite {u. K u \<noteq> []}" using sched_wf_fin[OF wf] by (simp only: finite_upd_stack)
  have stk: "wf_stack S ?K" using w by blast
  have "0 < frames_count idle_pending ?K"
    by (rule frames_count_mem[of _ "Idle_Start s" t]) (use sched_wf_fin[OF wf] in simp_all)
  then have I: "I = None" and c1: "frames_count idle_pending ?K = 1"
    using w unfolding wf_pending_def by (auto split: if_splits)
  have fs: "fs = []"
    using wf_stack_baseD[OF stk, of t] by (cases fs) (auto simp: idle_base_def)
  have ci: "frames_count idle_pending ?L = 0"
    using frames_count_upd[OF fin, of idle_pending t "[Sema_Up s, Idle_Loop] @ fs"]
      frames_count_upd[OF fin, of idle_pending t "Idle_Start s # fs"] c1 fs by simp
  have cc: "frames_count (creates p) ?L = frames_count (creates p) ?K" for p
    by (rule frames_count_replace[OF fin]) simp
  have noidle: "Idle_Loop \<notin> set (?K u)" for u using w I unfolding wf_idle_def by blast
  have "wf_wait S W ?L"
  proof (rule wf_wait_stack_upd)
    show "wf_wait S W ?K" using w by blast
  qed (use run in \<open>auto split: if_splits\<close>)
  moreover have "wf_ready S R (Some t)" using w I unfolding wf_ready_def by auto
  moreover have "wf_idle S R (Some t) ?L"
  proof -
    have "t \<notin> set R" using w run unfolding wf_ready_def by auto
    moreover have "Idle_Loop \<notin> set (K u)" if "u \<noteq> t" for u using noidle[of u] that by simp
    ultimately show ?thesis using run fs unfolding wf_idle_def by auto
  qed
  moreover have "wf_stack S ?L"
  proof -
    have "finite {u. ?L u \<noteq> []}" using fin by (simp only: finite_upd_stack)
    moreover have "S u \<noteq> None \<and> S u \<noteq> Some THREAD_DYING" if "?L u \<noteq> []" for u
      using stk run that unfolding wf_stack_def by (cases "u = t") auto
    moreover have "frame_ok u g" if "g \<in> set (?L u)" for u g
      using that wf_stack_frameD[OF stk, of g u] fs by (auto split: if_splits)
    moreover have "idle_base (?L u)" for u
      using wf_stack_baseD[OF stk, of u] fs by (cases "u = t") (auto simp: idle_base_def split: if_splits)
    moreover have "{v. S v \<noteq> None} = {u} \<and> q \<noteq> u" if "g \<in> set (?L u)" "boots q g" for u q g
    proof -
      have "g \<in> set (?K u)" using that fs by (auto split: if_splits)
      then show ?thesis using stk that(2) unfolding wf_stack_def by blast
    qed
    ultimately show ?thesis unfolding wf_stack_def by blast
  qed
  moreover have "wf_blocked S W (Some t) ?L" using w I unfolding wf_blocked_def cc by auto
  moreover have "wf_pending S (Some t) ?L"
    using w run ci unfolding wf_pending_def cc by (auto split: if_splits)
  ultimately show ?thesis using w unfolding sched_wf_def by blast
qed

text \<open>A preempted or yielding thread will first restore its interrupt level.\<close>

lemma wf_push_level:
  assumes wf: "sched_wf S R A W I K" and run: "S t = Some THREAD_RUNNING"
  shows "sched_wf S R A W I (K(t := Set_Level b # K t))"
proof -
  let ?L = "K(t := Set_Level b # K t)"
  note w = wf[unfolded sched_wf_def]
  have fin: "finite {u. K u \<noteq> []}" using sched_wf_fin[OF wf] .
  have stk: "wf_stack S K" using w by blast
  have c: "frames_count idle_pending ?L = frames_count idle_pending K"
    "frames_count (creates p) ?L = frames_count (creates p) K" for p
    by (auto intro!: frames_count_cong_filter[OF fin])
  have "wf_wait S W ?L"
  proof (rule wf_wait_stack_upd)
    show "wf_wait S W K" using w by blast
  qed (use run in \<open>auto split: if_splits\<close>)
  moreover have "wf_idle S R I ?L" using w unfolding wf_idle_def by auto
  moreover have "wf_blocked S W I ?L" using w unfolding wf_blocked_def c by (elim conjE)
  moreover have "wf_pending S I ?L" using w run unfolding wf_pending_def c by auto
  moreover have "wf_stack S ?L"
  proof -
    have "finite {u. ?L u \<noteq> []}" using fin by (simp only: finite_upd_stack)
    moreover have "S u \<noteq> None \<and> S u \<noteq> Some THREAD_DYING" if "?L u \<noteq> []" for u
      using stk run that unfolding wf_stack_def by (cases "u = t") auto
    moreover have "frame_ok u g" if "g \<in> set (?L u)" for u g
      using that wf_stack_frameD[OF stk, of g u] by (auto split: if_splits)
    moreover have "idle_base (?L u)" for u
      using wf_stack_baseD[OF stk, of u] by (cases "u = t") (auto simp: idle_base_def)
    moreover have "{v. S v \<noteq> None} = {u} \<and> q \<noteq> u" if "g \<in> set (?L u)" "boots q g" for u q g
    proof -
      have "g \<in> set (K u)" using that by (auto split: if_splits)
      then show ?thesis using stk that(2) unfolding wf_stack_def by blast
    qed
    ultimately show ?thesis unfolding wf_stack_def by blast
  qed
  ultimately show ?thesis using w unfolding sched_wf_def by blast
qed

end
