(* ===== verification/SchedStep.thy ===== *)
theory SchedStep
  imports SchedInv
begin

text \<open>
  Every step of the kernel of project 1 preserves the scheduler invariant of theory SchedInv:
  the functions of \<open>thread.c\<close>, \<open>synch.c\<close> and \<open>timer.c\<close> one by one, then the transition relation.
\<close>

section \<open>States the scheduler cannot tell apart\<close>

definition same_sched :: "kst \<Rightarrow> kst \<Rightarrow> bool" where
  "same_sched st st' \<longleftrightarrow> status_map st' = status_map st \<and> mset (ready_list st') = mset (ready_list st) \<and>
     all_list st' = all_list st \<and> waiters_map st' = waiters_map st \<and> idle_thread st' = idle_thread st \<and>
     initial_thread st' = initial_thread st \<and> running st' = running st \<and> kstack st' = kstack st"

lemma same_sched_refl [simp]: "same_sched st st"
  by (simp add: same_sched_def)

lemma same_sched_trans: "same_sched a b \<Longrightarrow> same_sched b c \<Longrightarrow> same_sched a c"
  by (simp add: same_sched_def)

lemma sched_wf_mset:
  assumes "sched_wf S R A W I K" "mset R' = mset R"
  shows "sched_wf S R' A W I K"
proof -
  have e: "set R' = set R" "distinct R' = distinct R"
    using assms(2) mset_eq_setD mset_eq_imp_distinct_iff by blast+
  show ?thesis using assms(1) unfolding sched_wf_def wf_ready_def wf_idle_def e .
qed

lemma same_sched_push: "same_sched st st' \<Longrightarrow> same_sched (push_frames gs st) (push_frames gs st')"
  by (auto simp: same_sched_def push_frames_def status_map_def waiters_map_def fun_eq_iff)

lemma same_sched_inv: "same_sched st st' \<Longrightarrow> sched_inv st \<Longrightarrow> sched_inv st'"
  unfolding sched_inv_def WF_def same_sched_def
  by (auto intro: sched_wf_mset)

lemma same_sched_upd_thread:
  "upd_thread t f st = Some st' \<Longrightarrow> (\<And>r. t_status (f r) = t_status r) \<Longrightarrow> same_sched st st'"
  by (auto simp: upd_thread_Some same_sched_def status_map_def waiters_map_def fun_eq_iff)

lemma same_sched_fields [simp]:
  "same_sched st (st\<lparr>lock_holder := a\<rparr>)" "same_sched st (st\<lparr>cond_waiters := b\<rparr>)"
  "same_sched st (st\<lparr>thread_ticks := c\<rparr>)" "same_sched st (st\<lparr>calc_ticks := d\<rparr>)"
  "same_sched st (st\<lparr>load_avg := e\<rparr>)" "same_sched st (st\<lparr>next_tid := g\<rparr>)"
  "same_sched st (st\<lparr>timer_count := h\<rparr>)" "same_sched st (st\<lparr>sleep_list := i\<rparr>)"
  "same_sched st (st\<lparr>intr_on := j\<rparr>)" "same_sched st (st\<lparr>in_external_intr := k\<rparr>)"
  "same_sched st (st\<lparr>yield_on_return := l\<rparr>)" "same_sched st (st\<lparr>idle_ticks := m\<rparr>)"
  "same_sched st (st\<lparr>kernel_ticks := n\<rparr>)"
  "same_sched st (st\<lparr>in_external_intr := k, yield_on_return := l\<rparr>)"
  "same_sched st (st\<lparr>ready_list := sort_by_priority st' (ready_list st)\<rparr>)"
  by (simp_all add: same_sched_def status_map_def waiters_map_def fun_eq_iff sort_by_priority_def)

interpretation same: bookkeeping same_sched
  by unfold_locales
    (auto simp: same_sched_def status_map_def waiters_map_def fun_eq_iff book_upd_def sort_by_priority_def)

lemma same_sched_value:
  "(\<And>r. s_waiters (f r) = s_waiters r) \<Longrightarrow> same_sched st (upd_sema s f st)"
  by (auto simp: same_sched_def upd_sema_def status_map_def waiters_map_def fun_eq_iff)

lemma same_sched_intr_disable [simp]: "same_sched st (intr_disable st)"
  by (simp add: intr_disable_def)

lemma same_sched_intr_set_level: "intr_set_level b st = Some st' \<Longrightarrow> same_sched st st'"
  by (auto simp: intr_set_level_def intr_enable_def split: if_splits)

section \<open>Replacing the top frame\<close>

definition at_frame :: "frame \<Rightarrow> kst \<Rightarrow> bool" where
  "at_frame f st \<longleftrightarrow> sched_inv (push_frames [f] st)"

lemma at_frameD:
  assumes "at_frame f st"
  shows "sched_wf (status_map st) (ready_list st) (all_list st) (waiters_map st) (idle_thread st)
      ((kstack st)(running st := f # kstack st (running st)))"
    "status_map st (running st) = Some THREAD_RUNNING"
    "wf_run (status_map st) (running st) (initial_thread st)"
  using assms
  by (auto simp: at_frame_def sched_inv_def WF_def push_frames_def status_map_def[abs_def]
      waiters_map_def[abs_def] wf_run_def)

lemma push_frames_simps [simp]:
  "threads (push_frames gs st) = threads st" "semas (push_frames gs st) = semas st"
  "lock_holder (push_frames gs st) = lock_holder st" "cond_waiters (push_frames gs st) = cond_waiters st"
  "ready_list (push_frames gs st) = ready_list st" "all_list (push_frames gs st) = all_list st"
  "idle_thread (push_frames gs st) = idle_thread st" "initial_thread (push_frames gs st) = initial_thread st"
  "running (push_frames gs st) = running st" "intr_on (push_frames gs st) = intr_on st"
  "in_external_intr (push_frames gs st) = in_external_intr st"
  "thread_mlfqs (push_frames gs st) = thread_mlfqs st"
  "sleep_list (push_frames gs st) = sleep_list st" "timer_count (push_frames gs st) = timer_count st"
  "kstack (push_frames gs st) = (kstack st)(running st := gs @ kstack st (running st))"
  "status_map (push_frames gs st) = status_map st" "waiters_map (push_frames gs st) = waiters_map st"
  by (simp_all add: push_frames_def status_map_def[abs_def] waiters_map_def[abs_def])

lemma rep_inv:
  assumes "at_frame f st" "replaces (running st) f gs" "same_sched (push_frames gs st) st'"
  shows "sched_inv st'"
proof -
  note w = at_frameD[OF assms(1)]
  have "sched_inv (push_frames gs st)"
    using wf_replace[OF w(1,2) assms(2)] w(3) by (simp add: sched_inv_def WF_def)
  then show ?thesis by (rule same_sched_inv[OF assms(3)])
qed

lemma rep_push:
  "at_frame f st \<Longrightarrow> replaces (running st) f gs \<Longrightarrow> same_sched st st' \<Longrightarrow> sched_inv (push_frames gs st')"
  by (rule rep_inv[of f st gs]) (simp_all add: same_sched_push)

lemma push_Nil [simp]: "push_frames [] st = st"
  by (simp add: push_frames_def)

lemma rep_pop: "at_frame f st \<Longrightarrow> replaces (running st) f [] \<Longrightarrow> same_sched st st' \<Longrightarrow> sched_inv st'"
  using rep_push[of f st "[]" st'] by simp

section \<open>Switching\<close>

definition mid_inv :: "kst \<Rightarrow> bool" where
  "mid_inv st \<longleftrightarrow> WF st \<and> (\<forall>t. status_map st t \<noteq> Some THREAD_RUNNING) \<and>
     (\<forall>t. status_map st t = Some THREAD_DYING \<longrightarrow> t = initial_thread st \<or> t = running st)"

lemma status_map_upd:
  "status_map (st\<lparr>threads := (threads st)(t \<mapsto> r)\<rparr>) = (status_map st)(t \<mapsto> t_status r)"
  "status_map (st\<lparr>threads := (threads st)(t := None)\<rparr>) = (status_map st)(t := None)"
  by (auto simp: status_map_def fun_eq_iff)

lemma maps_simps [simp]:
  "status_map (st\<lparr>ready_list := a\<rparr>) = status_map st" "status_map (st\<lparr>all_list := b\<rparr>) = status_map st"
  "status_map (st\<lparr>running := c\<rparr>) = status_map st" "status_map (st\<lparr>thread_ticks := d\<rparr>) = status_map st"
  "status_map (st\<lparr>intr_on := e\<rparr>) = status_map st" "status_map (st\<lparr>kstack := g\<rparr>) = status_map st"
  "status_map (st\<lparr>semas := h\<rparr>) = status_map st" "status_map (st\<lparr>idle_thread := i\<rparr>) = status_map st"
  "waiters_map (st\<lparr>ready_list := a\<rparr>) = waiters_map st" "waiters_map (st\<lparr>all_list := b\<rparr>) = waiters_map st"
  "waiters_map (st\<lparr>running := c\<rparr>) = waiters_map st" "waiters_map (st\<lparr>thread_ticks := d\<rparr>) = waiters_map st"
  "waiters_map (st\<lparr>intr_on := e\<rparr>) = waiters_map st" "waiters_map (st\<lparr>kstack := g\<rparr>) = waiters_map st"
  "waiters_map (st\<lparr>threads := j\<rparr>) = waiters_map st" "waiters_map (st\<lparr>idle_thread := i\<rparr>) = waiters_map st"
  by (simp_all add: status_map_def[abs_def] waiters_map_def[abs_def])

lemma upd_maps [simp]:
  "status_map (upd_sema s f st) = status_map st"
  "waiters_map (upd_sema s f st) = (waiters_map st)(s := s_waiters (f (semas st s)))"
  "status_map (intr_disable st) = status_map st" "waiters_map (intr_disable st) = waiters_map st"
  by (auto simp: status_map_def waiters_map_def upd_sema_def intr_disable_def fun_eq_iff)

lemma upd_sema_simps [simp]:
  "threads (upd_sema s f st) = threads st" "threads (intr_disable st) = threads st"
  "thread_mlfqs (upd_sema s f st) = thread_mlfqs st" "thread_mlfqs (intr_disable st) = thread_mlfqs st"
  "in_external_intr (upd_sema s f st) = in_external_intr st"
  "in_external_intr (intr_disable st) = in_external_intr st"
  "intr_on (upd_sema s f st) = intr_on st" "intr_on (intr_disable st) = False"
  "lock_holder (upd_sema s f st) = lock_holder st" "lock_holder (intr_disable st) = lock_holder st"
  "sleep_list (upd_sema s f st) = sleep_list st" "sleep_list (intr_disable st) = sleep_list st"
  "timer_count (upd_sema s f st) = timer_count st" "timer_count (intr_disable st) = timer_count st"
  "cond_waiters (upd_sema s f st) = cond_waiters st" "cond_waiters (intr_disable st) = cond_waiters st"
  "semas (intr_disable st) = semas st"
  "ready_list (upd_sema s f st) = ready_list st" "all_list (upd_sema s f st) = all_list st"
  "idle_thread (upd_sema s f st) = idle_thread st" "initial_thread (upd_sema s f st) = initial_thread st"
  "running (upd_sema s f st) = running st" "kstack (upd_sema s f st) = kstack st"
  "ready_list (intr_disable st) = ready_list st" "all_list (intr_disable st) = all_list st"
  "idle_thread (intr_disable st) = idle_thread st" "initial_thread (intr_disable st) = initial_thread st"
  "running (intr_disable st) = running st" "kstack (intr_disable st) = kstack st"
  by (simp_all add: upd_sema_def intr_disable_def)

lemma waiters_map_semas: "semas st = semas st' \<Longrightarrow> waiters_map st = waiters_map st'"
  by (simp add: waiters_map_def[abs_def])

lemma next_thread_cases:
  assumes "next_thread_to_run st = (nt, st1)" "nt = Some n"
  obtains rl where "st1 = st\<lparr>ready_list := rl\<rparr>"
    "mset (ready_list st) = add_mset n (mset rl) \<or> (ready_list st = [] \<and> rl = [] \<and> idle_thread st = Some n)"
proof (cases "ready_list st = []")
  case True
  then show ?thesis using assms that[of "[]"] by (auto simp: next_thread_to_run_def)
next
  case False
  define rl where "rl = (if thread_mlfqs st then sort_by_priority st (ready_list st) else ready_list st)"
  have m: "mset rl = mset (ready_list st)" and ne: "rl \<noteq> []"
    using False by (auto simp: rl_def sort_by_priority_def)
  have "n = hd rl" "st1 = st\<lparr>ready_list := tl rl\<rparr>"
    using assms False by (auto simp: next_thread_to_run_def rl_def Let_def)
  then show ?thesis using that[of "tl rl"] m ne by (cases rl) auto
qed

lemma schedule_tail_inv:
  assumes wf: "WF (st\<lparr>threads := (threads st)(running st \<mapsto> r)\<rparr>)" "t_status r = THREAD_RUNNING"
    and old: "\<And>t. t \<noteq> running st \<Longrightarrow> status_map st t \<noteq> Some THREAD_RUNNING"
    and dy: "\<And>t. t \<noteq> running st \<Longrightarrow> status_map st t = Some THREAD_DYING \<Longrightarrow> t = initial_thread st \<or> prev = Some t"
    and ex: "thread_schedule_tail prev st = Some st'"
    and r: "\<exists>r0. threads st (running st) = Some r0 \<and> r = t_status_update (\<lambda>_. THREAD_RUNNING) r0"
  shows "sched_inv st'"
proof -
  let ?st1 = "st\<lparr>threads := (threads st)(running st \<mapsto> r), thread_ticks := 0\<rparr>"
  have w1: "WF ?st1" using wf(1) by (simp add: WF_def)
  have S1: "status_map ?st1 = (status_map st)(running st \<mapsto> THREAD_RUNNING)"
    using wf(2) by (simp add: status_map_upd)
  show ?thesis
  proof (cases "\<exists>p rp. prev = Some p \<and> threads ?st1 p = Some rp \<and> t_status rp = THREAD_DYING \<and> p \<noteq> initial_thread st")
    case True
    then obtain p rp where p: "prev = Some p" "threads ?st1 p = Some rp" "t_status rp = THREAD_DYING"
      "p \<noteq> initial_thread st" by blast
    then have st': "st' = ?st1\<lparr>threads := (threads ?st1)(p := None)\<rparr>" and ne: "p \<noteq> running st"
      using ex r by (auto simp: thread_schedule_tail_def upd_thread_def running_thread_def Let_def split: if_splits)
    have Sp: "status_map ?st1 p = Some THREAD_DYING" using p by (simp add: status_map_def)
    have S': "status_map st' = (status_map st)(running st \<mapsto> THREAD_RUNNING, p := None)"
      unfolding st' status_map_upd(2)[of ?st1] S1 by simp
    have "sched_wf ((status_map ?st1)(p := None)) (ready_list ?st1) (all_list ?st1) (waiters_map ?st1)
        (idle_thread ?st1) (kstack ?st1)"
      using wf_free[OF w1[unfolded WF_def] Sp] .
    then have W: "WF st'" unfolding WF_def S' unfolding S1 by (simp add: st')
    have "wf_run (status_map st') (running st') (initial_thread st')"
      unfolding S' wf_run_def using old dy p(1) ne by (auto simp: st')
    then show ?thesis using W by (simp add: sched_inv_def)
  next
    case False
    then have st': "st' = ?st1"
      using ex r by (auto simp: thread_schedule_tail_def upd_thread_def running_thread_def Let_def bind_Some_iff
          split: if_splits option.splits)
    have nd: "status_map st t = Some THREAD_DYING \<Longrightarrow> t \<noteq> running st \<Longrightarrow> t = initial_thread st" for t
      using dy[of t] False by (auto simp: status_map_def)
    have "wf_run (status_map st') (running st') (initial_thread st')"
      unfolding st' S1 wf_run_def using old nd by auto
    then show ?thesis using w1 by (simp add: st' sched_inv_def)
  qed
qed

lemma schedule_inv:
  assumes mid: "mid_inv st" and ex: "schedule st = Some st'"
  shows "sched_inv st'"
proof -
  obtain nt st1 where n1: "next_thread_to_run st = (nt, st1)" by (cases "next_thread_to_run st")
  then obtain n where n: "nt = Some n" using ex by (cases nt) (auto simp: schedule_def Let_def split: if_splits)
  obtain rl where rl: "st1 = st\<lparr>ready_list := rl\<rparr>"
    "mset (ready_list st) = add_mset n (mset rl) \<or> (ready_list st = [] \<and> rl = [] \<and> idle_thread st = Some n)"
    using next_thread_cases[OF n1 n] by blast
  let ?st2 = "st1\<lparr>running := n\<rparr>" let ?prev = "if running st \<noteq> n then Some (running st) else None"
  have th: "is_thread st1 (Some n)" using ex n1 n by (auto simp: schedule_def Let_def bind_Some_iff split: if_splits)
  have e2: "thread_schedule_tail ?prev ?st2 = Some st'"
  proof (cases "running st = n")
    case True
    then have "?st2 = st1" by (simp add: rl(1))
    then show ?thesis using ex n1 n True by (auto simp: schedule_def Let_def running_thread_def split: if_splits)
  qed (use ex n1 n in \<open>auto simp: schedule_def Let_def running_thread_def split: if_splits\<close>)
  obtain r0 where r0: "threads st n = Some r0" using th rl(1) by (auto simp: is_thread_def)
  let ?r = "t_status_update (\<lambda>_. THREAD_RUNNING) r0"
  have S: "status_map (?st2\<lparr>threads := (threads ?st2)(n \<mapsto> ?r)\<rparr>) = (status_map st)(n \<mapsto> THREAD_RUNNING)"
    by (auto simp: status_map_def fun_eq_iff rl(1))
  have W: "sched_wf ((status_map st)(n \<mapsto> THREAD_RUNNING)) rl (all_list st) (waiters_map st)
      (idle_thread st) (kstack st)"
    using mid rl(2) unfolding mid_inv_def WF_def by (intro wf_dispatch) auto
  have "WF (?st2\<lparr>threads := (threads ?st2)(running ?st2 \<mapsto> ?r)\<rparr>)"
    unfolding WF_def using W S by (simp add: rl(1) waiters_map_def[abs_def])
  moreover have "status_map ?st2 = status_map st" by (simp add: rl(1))
  ultimately show ?thesis
    using mid e2 r0 unfolding mid_inv_def
    by (intro schedule_tail_inv[where st = ?st2 and prev = ?prev and r = ?r]) (auto simp: rl(1))
qed

section \<open>Blocking, waking, yielding, exiting\<close>

lemma thread_current_Some:
  "thread_current st = Some t \<longleftrightarrow> t = running st \<and> status_map st t = Some THREAD_RUNNING"
  by (auto simp: thread_current_def running_thread_def is_thread_def status_map_def)

lemma thread_current_running [simp]:
  "sched_inv st \<Longrightarrow> thread_current st = Some (running st)"
  by (simp add: thread_current_Some sched_inv_def wf_run_def)

lemma mid_inv_I:
  assumes inv: "wf_run (status_map st) (running st) (initial_thread st)"
    and wf: "sched_wf ((status_map st)(running st \<mapsto> x)) (ready_list st') (all_list st')
      (waiters_map st') (idle_thread st') (kstack st')"
    and S: "status_map st' = (status_map st)(running st \<mapsto> x)" and x: "x \<noteq> THREAD_RUNNING"
    and e: "running st' = running st" "initial_thread st' = initial_thread st"
  shows "mid_inv st'"
proof -
  have "WF st'" unfolding WF_def S using wf .
  moreover have "status_map st' t \<noteq> Some THREAD_RUNNING" for t
    unfolding S using inv x by (auto simp: wf_run_def)
  moreover have "t = initial_thread st' \<or> t = running st'" if "status_map st' t = Some THREAD_DYING" for t
    using that inv unfolding S e by (auto simp: wf_run_def split: if_splits)
  ultimately show ?thesis by (simp add: mid_inv_def)
qed

lemma thread_block_unfold:
  assumes "thread_block st = Some st'"
  obtains r where "threads st (running st) = Some r"
    "schedule (st\<lparr>threads := (threads st)(running st \<mapsto> t_status_update (\<lambda>_. THREAD_BLOCKED) r)\<rparr>) = Some st'"
  using assms by (auto simp: thread_block_def bind_Some_iff thread_current_Some upd_thread_Some split: if_splits)

lemma sema_down_test_inv:
  assumes at: "at_frame (Sema_Test s lvl ret) st" and ex: "sema_down_test s lvl ret st = Some st'"
  shows "sched_inv st'"
proof (cases "s_value (semas st s) = 0")
  case True
  note w = at_frameD[OF at]
  let ?t = "running st" let ?ws = "ins_ord (compare_thread_priority st) ?t (s_waiters (semas st s))"
  let ?st1 = "push_frames [Sema_Test s lvl ret] (upd_sema s (s_waiters_update (ins_ord (compare_thread_priority st) ?t)) st)"
  have cur: "thread_current st = Some ?t" using w(2) by (simp add: thread_current_Some)
  have "thread_block ?st1 = Some st'" using ex True cur by (simp add: sema_down_test_def Let_def)
  then obtain r where r: "threads st ?t = Some r"
    "schedule (?st1\<lparr>threads := (threads ?st1)(?t \<mapsto> t_status_update (\<lambda>_. THREAD_BLOCKED) r)\<rparr>) = Some st'"
    by (elim thread_block_unfold) (simp add: upd_sema_def)
  let ?st2 = "?st1\<lparr>threads := (threads ?st1)(?t \<mapsto> t_status_update (\<lambda>_. THREAD_BLOCKED) r)\<rparr>"
  have W: "waiters_map ?st2 = (waiters_map st)(s := ?ws)"
    by (auto simp: waiters_map_def upd_sema_def fun_eq_iff)
  have S: "status_map ?st2 = (status_map st)(?t \<mapsto> THREAD_BLOCKED)"
    by (auto simp: status_map_def upd_sema_def fun_eq_iff)
  have "sched_wf ((status_map st)(?t \<mapsto> THREAD_BLOCKED)) (ready_list st) (all_list st)
      ((waiters_map st)(s := ?ws)) (idle_thread st) ((kstack st)(?t := Sema_Test s lvl ret # kstack st ?t))"
    by (rule wf_block[OF w(1,2)]) (simp_all add: waiters_map_def)
  then have "sched_wf ((status_map st)(?t \<mapsto> THREAD_BLOCKED)) (ready_list ?st2) (all_list ?st2)
      (waiters_map ?st2) (idle_thread ?st2) (kstack ?st2)"
    unfolding W by (simp add: upd_sema_def)
  then have "mid_inv ?st2" by (rule mid_inv_I[OF w(3)]) (use S in \<open>simp_all add: upd_sema_def\<close>)
  then show ?thesis using r(2) by (rule schedule_inv)
next
  case False
  let ?st1 = "upd_sema s (s_value_update (\<lambda>v. v - 1)) st"
  obtain st2 where st2: "intr_set_level lvl ?st1 = Some st2"
    "st' = (case ret of None \<Rightarrow> st2 | Some l \<Rightarrow> push_frames [Set_Holder l] st2)"
    using ex False by (auto simp: sema_down_test_def Let_def bind_Some_iff)
  have "same_sched st ?st1" by (rule same_sched_value) simp
  then have s2: "same_sched st st2" using same_sched_intr_set_level[OF st2(1)] same_sched_trans by blast
  show ?thesis
  proof (cases ret)
    case None
    then show ?thesis using rep_pop[OF at _ s2] st2(2) by (simp add: replaces_def)
  next
    case (Some l)
    then show ?thesis using rep_push[OF at _ s2, of "[Set_Holder l]"] st2(2) by (simp add: replaces_def)
  qed
qed

lemma thread_yield_unfold:
  assumes "thread_yield st = Some st'"
  obtains r where "threads st (running st) = Some r"
    "schedule (push_frames [Set_Level (intr_on st)] (st\<lparr>intr_on := False,
       ready_list := (if Some (running st) \<noteq> idle_thread st
         then ins_ord (compare_thread_priority (intr_disable st)) (running st) (ready_list st) else ready_list st),
       threads := (threads st)(running st \<mapsto> t_status_update (\<lambda>_. THREAD_READY) r)\<rparr>)) = Some st'"
proof -
  obtain r where "threads st (running st) = Some r"
    using assms by (auto simp: thread_yield_def bind_Some_iff thread_current_Some status_map_def)
  then show thesis using assms that
    by (cases "Some (running st) = idle_thread st")
       (simp_all add: thread_yield_def Let_def bind_Some_iff thread_current_Some intr_get_level_def upd_thread_def
          intr_disable_def split: if_splits)
qed

lemma thread_yield_inv:
  assumes inv: "sched_inv st" and ex: "thread_yield st = Some st'"
  shows "sched_inv st'"
proof -
  let ?t = "running st"
  let ?st1 = "if Some ?t \<noteq> idle_thread st
    then (intr_disable st)\<lparr>ready_list := ins_ord (compare_thread_priority (intr_disable st)) ?t (ready_list st)\<rparr>
    else intr_disable st"
  obtain r where r: "threads st ?t = Some r"
    "schedule (push_frames [Set_Level (intr_on st)]
       (?st1\<lparr>threads := (threads ?st1)(?t \<mapsto> t_status_update (\<lambda>_. THREAD_READY) r)\<rparr>)) = Some st'"
    using ex inv
    by (auto simp: thread_yield_def Let_def bind_Some_iff upd_thread_Some intr_disable_def
        intr_get_level_def split: if_splits)
  let ?st2 = "push_frames [Set_Level (intr_on st)]
       (?st1\<lparr>threads := (threads ?st1)(?t \<mapsto> t_status_update (\<lambda>_. THREAD_READY) r)\<rparr>)"
  have w: "sched_wf (status_map st) (ready_list st) (all_list st) (waiters_map st) (idle_thread st) (kstack st)"
    and wr: "wf_run (status_map st) ?t (initial_thread st)"
    using inv by (auto simp: sched_inv_def WF_def)
  have run: "status_map st ?t = Some THREAD_RUNNING" using wr by (simp add: wf_run_def)
  let ?K = "(kstack st)(?t := Set_Level (intr_on st) # kstack st ?t)"
  have w2: "sched_wf (status_map st) (ready_list st) (all_list st) (waiters_map st) (idle_thread st) ?K"
    by (rule wf_push_level[OF w run])
  have "sched_wf ((status_map st)(?t \<mapsto> THREAD_READY)) (ready_list ?st1) (all_list st) (waiters_map st)
      (idle_thread st) ?K"
  proof (cases "idle_thread st = Some ?t")
    case True
    then show ?thesis using wf_status_idle[OF w2 run] by (auto simp: intr_disable_def)
  next
    case False
    then have R: "ready_list ?st1 = ins_ord (compare_thread_priority (intr_disable st)) ?t (ready_list st)" by auto
    show ?thesis unfolding R by (rule wf_yield[OF w2 run False]) simp
  qed
  then have "sched_wf ((status_map st)(?t \<mapsto> THREAD_READY)) (ready_list ?st2) (all_list ?st2)
      (waiters_map ?st2) (idle_thread ?st2) (kstack ?st2)"
    by (cases "Some ?t = idle_thread st") (simp_all add: intr_disable_def)
  moreover have "status_map ?st2 = (status_map st)(?t \<mapsto> THREAD_READY)"
    by (auto simp: status_map_def intr_disable_def fun_eq_iff)
  ultimately have "mid_inv ?st2"
    by (intro mid_inv_I[OF wr, where x = THREAD_READY]) (simp_all add: intr_disable_def)
  then show ?thesis using r(2) by (rule schedule_inv)
qed

lemma thread_exit_inv:
  assumes inv: "sched_inv st" and K: "kstack st (running st) = []" and ex: "thread_exit st = Some st'"
  shows "sched_inv st'"
proof -
  let ?t = "running st"
  let ?st1 = "(intr_disable st)\<lparr>all_list := remove1 ?t (all_list st)\<rparr>"
  have cur: "thread_current (intr_disable st) = Some ?t"
    using thread_current_running[OF same_sched_inv[OF same_sched_intr_disable inv]] by (simp add: intr_disable_def)
  obtain r where r: "threads st ?t = Some r"
    "schedule (?st1\<lparr>threads := (threads ?st1)(?t \<mapsto> t_status_update (\<lambda>_. THREAD_DYING) r)\<rparr>) = Some st'"
    using ex cur
    by (auto simp: thread_exit_def Let_def bind_Some_iff upd_thread_Some intr_disable_def split: if_splits)
  let ?st2 = "?st1\<lparr>threads := (threads ?st1)(?t \<mapsto> t_status_update (\<lambda>_. THREAD_DYING) r)\<rparr>"
  have w: "sched_wf (status_map st) (ready_list st) (all_list st) (waiters_map st) (idle_thread st) (kstack st)"
    and wr: "wf_run (status_map st) ?t (initial_thread st)"
    using inv by (auto simp: sched_inv_def WF_def)
  have run: "status_map st ?t = Some THREAD_RUNNING" using wr by (simp add: wf_run_def)
  have "sched_wf ((status_map st)(?t \<mapsto> THREAD_DYING)) (ready_list ?st2) (all_list ?st2)
      (waiters_map ?st2) (idle_thread ?st2) (kstack ?st2)"
    using wf_exit[OF w run K] by (simp add: intr_disable_def)
  moreover have "status_map ?st2 = (status_map st)(?t \<mapsto> THREAD_DYING)"
    by (auto simp: status_map_def intr_disable_def fun_eq_iff)
  ultimately have "mid_inv ?st2" by (intro mid_inv_I[OF wr, where x = THREAD_DYING]) (simp_all add: intr_disable_def)
  then show ?thesis using r(2) by (rule schedule_inv)
qed

section \<open>Waking a waiter\<close>

lemma thread_unblock_Some:
  assumes "thread_unblock t st = Some st'"
  shows "status_map st t = Some THREAD_BLOCKED" "status_map st' = (status_map st)(t \<mapsto> THREAD_READY)"
    "mset (ready_list st') = add_mset t (mset (ready_list st))" "all_list st' = all_list st"
    "semas st' = semas st" "idle_thread st' = idle_thread st" "initial_thread st' = initial_thread st"
    "running st' = running st" "kstack st' = kstack st" "priority_of st' u = priority_of st u"
    "in_external_intr st' = in_external_intr st" "intr_on st' = intr_on st" "thread_mlfqs st' = thread_mlfqs st"
    "ready_list st' = ins_ord (compare_thread_priority st) t (ready_list st)"
    "lock_holder st' = lock_holder st" "sleep_list st' = sleep_list st" "timer_count st' = timer_count st"
    "cond_waiters st' = cond_waiters st"
    "threads st' = (threads st)(t \<mapsto> t_status_update (\<lambda>_. THREAD_READY) (the (threads st t)))"
proof -
  obtain r where r: "threads st t = Some r" "t_status r = THREAD_BLOCKED"
    "intr_set_level (intr_on st) ((intr_disable st)\<lparr>ready_list := ins_ord (compare_thread_priority (intr_disable st)) t (ready_list st),
       threads := (threads st)(t \<mapsto> t_status_update (\<lambda>_. THREAD_READY) r)\<rparr>) = Some st'"
    using assms by (auto simp: thread_unblock_def Let_def bind_Some_iff upd_thread_Some intr_disable_def
        intr_get_level_def split: if_splits)
  have st': "st' = st\<lparr>ready_list := ins_ord (compare_thread_priority (intr_disable st)) t (ready_list st),
       threads := (threads st)(t \<mapsto> t_status_update (\<lambda>_. THREAD_READY) r)\<rparr>"
    using r(3) by (cases "intr_on st") (auto simp: intr_set_level_def intr_enable_def intr_disable_def split: if_splits)
  have c: "compare_thread_priority (intr_disable st) = compare_thread_priority st"
    by (simp add: compare_thread_priority_def[abs_def] priority_of_def)
  show "status_map st t = Some THREAD_BLOCKED" "status_map st' = (status_map st)(t \<mapsto> THREAD_READY)"
    "priority_of st' u = priority_of st u"
    "ready_list st' = ins_ord (compare_thread_priority st) t (ready_list st)"
    using r by (auto simp: st' c status_map_def fun_eq_iff priority_of_def)
  show "mset (ready_list st') = add_mset t (mset (ready_list st))" "all_list st' = all_list st"
    "semas st' = semas st" "idle_thread st' = idle_thread st" "initial_thread st' = initial_thread st"
    "running st' = running st" "kstack st' = kstack st"
    "in_external_intr st' = in_external_intr st" "intr_on st' = intr_on st" "thread_mlfqs st' = thread_mlfqs st"
    "lock_holder st' = lock_holder st" "sleep_list st' = sleep_list st" "timer_count st' = timer_count st"
    "cond_waiters st' = cond_waiters st"
    "threads st' = (threads st)(t \<mapsto> t_status_update (\<lambda>_. THREAD_READY) (the (threads st t)))"
    using r(1) by (simp_all add: st')
qed

lemma sema_up_body_cases:
  assumes "sema_up_body s st = Some st'"
  obtains (none) "s_waiters (semas st s) = []" "same_sched st st'"
  | (wake) t ts where "sort_by_priority st (s_waiters (semas st s)) = t # ts"
    "status_map st t = Some THREAD_BLOCKED"
    "status_map st' = (status_map st)(t \<mapsto> THREAD_READY)"
    "mset (ready_list st') = add_mset t (mset (ready_list st))" "all_list st' = all_list st"
    "waiters_map st' = (waiters_map st)(s := ts)" "idle_thread st' = idle_thread st"
    "initial_thread st' = initial_thread st" "running st' = running st" "kstack st' = kstack st"
proof -
  let ?st0 = "intr_disable st"
  have sort: "sort_by_priority ?st0 (s_waiters (semas ?st0 s)) = sort_by_priority st (s_waiters (semas st s))"
    by (simp add: sort_by_priority_def intr_disable_def compare_thread_priority_def[abs_def] priority_of_def)
  show thesis
  proof (cases "sort_by_priority st (s_waiters (semas st s))")
    case Nil
    then have "intr_set_level (intr_on st) (upd_sema s (s_value_update (\<lambda>v. v + 1)) ?st0) = Some st'"
      using assms sort by (simp add: sema_up_body_def Let_def intr_get_level_def)
    then have "same_sched (upd_sema s (s_value_update (\<lambda>v. v + 1)) ?st0) st'"
      by (rule same_sched_intr_set_level)
    moreover have "same_sched ?st0 (upd_sema s (s_value_update (\<lambda>v. v + 1)) ?st0)"
      by (rule same_sched_value) simp
    ultimately have "same_sched st st'" using same_sched_trans same_sched_intr_disable by blast
    moreover have "s_waiters (semas st s) = []" using Nil by (simp add: sort_by_priority_def)
    ultimately show ?thesis using none by blast
  next
    case (Cons t ts)
    then obtain st1 where st1: "thread_unblock t (upd_sema s (s_waiters_update (\<lambda>_. ts)) ?st0) = Some st1"
      "intr_set_level (intr_on st) (upd_sema s (s_value_update (\<lambda>v. v + 1)) st1) = Some st'"
      using assms sort by (auto simp: sema_up_body_def Let_def bind_Some_iff intr_get_level_def)
    let ?st2 = "upd_sema s (s_value_update (\<lambda>v. v + 1)) st1"
    have ss: "same_sched ?st2 st'" using same_sched_intr_set_level[OF st1(2)] .
    note u = thread_unblock_Some[OF st1(1)]
    have b1: "status_map st t = Some THREAD_BLOCKED" using u(1) by simp
    have b2: "status_map st' = (status_map st)(t \<mapsto> THREAD_READY)"
      using ss u(2) by (simp add: same_sched_def)
    have "waiters_map st1 = (waiters_map st)(s := ts)"
      using u(5) waiters_map_semas[of st1 "upd_sema s (s_waiters_update (\<lambda>_. ts)) ?st0"] by simp
    moreover have "waiters_map ?st2 = waiters_map st1"
      by (auto simp: waiters_map_def upd_sema_def fun_eq_iff)
    ultimately have "waiters_map st' = (waiters_map st)(s := ts)"
      using ss by (simp add: same_sched_def)
    with b2 b1 show ?thesis
      using wake[OF Cons] ss u by (simp add: same_sched_def)
  qed
qed

lemma sema_up_body_inv:
  assumes inv: "sched_inv (push_frames g st)" and ex: "sema_up_body s st = Some st'"
  shows "sched_inv (push_frames g st')"
  using ex
proof (cases rule: sema_up_body_cases)
  case none
  then show ?thesis using inv same_sched_inv same_sched_push by blast
next
  case (wake t ts)
  let ?K = "(kstack st)(running st := g @ kstack st (running st))"
  have w: "sched_wf (status_map st) (ready_list st) (all_list st) (waiters_map st) (idle_thread st) ?K"
    and wr: "wf_run (status_map st) (running st) (initial_thread st)"
    using inv by (auto simp: sched_inv_def WF_def)
  have "mset (s_waiters (semas st s)) = add_mset t (mset ts)"
    using wake(1) by (metis mset.simps(2) mset_stable_sort sort_by_priority_def)
  then have "sched_wf ((status_map st)(t \<mapsto> THREAD_READY)) (ready_list st') (all_list st)
      ((waiters_map st)(s := ts)) (idle_thread st) ?K"
    by (intro wf_unblock[OF w, where xs = "s_waiters (semas st s)"]) (simp_all add: waiters_map_def wake)
  then have "WF (push_frames g st')" by (simp add: WF_def wake)
  moreover have "wf_run ((status_map st)(t \<mapsto> THREAD_READY)) (running st) (initial_thread st)"
    using wr wake(2) unfolding wf_run_def by (metis fun_upd_apply option.inject thread_status.distinct(1,3,7,9))
  ultimately show ?thesis by (simp add: sched_inv_def wake)
qed

lemma sema_up_inv:
  assumes at: "at_frame (Sema_Up s) st" and ex: "sema_up s st = Some st'"
  shows "sched_inv st'"
proof -
  obtain st1 where st1: "sema_up_body s st = Some st1" "st' = push_frames [Super_Yield] st1"
    using ex by (auto simp: sema_up_def bind_Some_iff)
  have "at_frame (Sema_Up s) st1"
    using sema_up_body_inv[OF at[unfolded at_frame_def] st1(1)] by (simp add: at_frame_def)
  then show ?thesis unfolding st1(2) by (rule rep_push) (simp_all add: replaces_def)
qed

section \<open>The other frames\<close>

lemma upd_wakeup_same:
  "upd_thread t (t_wakeup_time_update f) st = Some st' \<Longrightarrow> same_sched st st'"
  by (auto elim!: same_sched_upd_thread)

lemma super_yield_cmp_cases:
  assumes "thread_super_yield_cmp t st = Some st'"
  shows "thread_yield st = Some st' \<or> st' = st \<or> (in_external_intr st \<and> st' = st\<lparr>yield_on_return := True\<rparr>)"
proof -
  obtain me where "(if \<not> intr_context st
     then (if priority_of st me < priority_of st t then thread_yield st else Some st)
     else (if priority_of st me < priority_of st t then intr_yield_on_return st else Some st)) = Some st'"
    using assms unfolding thread_super_yield_cmp_def bind_Some_iff ASSERT_bind by (metis option.distinct(1))
  then show ?thesis by (simp add: intr_yield_on_return_def intr_context_def split: if_splits)
qed

lemma super_yield_cmp_inv:
  assumes inv: "sched_inv st" and ex: "thread_super_yield_cmp t st = Some st'"
  shows "sched_inv st'"
proof -
  consider "thread_yield st = Some st'" | "same_sched st st'"
    using super_yield_cmp_cases[OF ex] by auto
  then show ?thesis by cases (use inv thread_yield_inv same_sched_inv in blast)+
qed

text \<open>A semaphore that nobody can be waiting on.\<close>

lemma own_sema_empty:
  assumes wf: "sched_wf S R A W I K" and s: "\<And>u lvl ret. frame_ok u (Sema_Test s lvl ret) \<Longrightarrow> u = t"
    and t: "S t \<noteq> Some THREAD_BLOCKED"
  shows "W s = []"
proof (rule ccontr)
  assume "W s \<noteq> []"
  then obtain u where u: "u \<in> set (W s)" by (cases "W s") auto
  have wait: "wf_wait S W K" and stk: "wf_stack S K" using wf by (auto simp: sched_wf_def)
  obtain lvl ret fs where "K u = Sema_Test s lvl ret # fs" using wf_waitD(2)[OF wait u] by blast
  then have "u = t" using wf_stack_frameD[OF stk, of "Sema_Test s lvl ret" u] s by simp
  then show False using wf_waitD(1)[OF wait u] t by simp
qed

lemma sema_init_same:
  "s_waiters (semas st s) = [] \<Longrightarrow> same_sched st (upd_sema s (\<lambda>_. \<lparr>s_value = v, s_waiters = []\<rparr>) st)"
  by (auto simp: same_sched_def waiters_map_def fun_eq_iff)

lemma at_frame_waiters:
  "at_frame f st \<Longrightarrow> (\<And>u lvl ret. frame_ok u (Sema_Test s lvl ret) \<Longrightarrow> u = t) \<Longrightarrow>
   status_map st t \<noteq> Some THREAD_BLOCKED \<Longrightarrow> s_waiters (semas st s) = []"
  using own_sema_empty[OF at_frameD(1), of f st s t] by (simp add: waiters_map_def)

lemma wf_run_upd:
  assumes "wf_run S run i0" "S p \<noteq> Some THREAD_RUNNING" "x = THREAD_BLOCKED \<or> x = THREAD_READY"
  shows "wf_run (S(p \<mapsto> x)) run i0"
proof -
  have "p \<noteq> run" using assms(1,2) unfolding wf_run_def by metis
  then show ?thesis using assms unfolding wf_run_def by auto
qed

lemma thread_create_tail_inv:
  assumes at: "at_frame (Create_Tail p b) st" and ex: "thread_create_tail p b st = Some st'"
  shows "sched_inv st'"
proof -
  note w = at_frameD[OF at]
  obtain st1 st2 st3 st4 where s: "alloc_frame p 12 st = Some st1" "alloc_frame p 4 st1 = Some st2"
    "alloc_frame p 28 st2 = Some st3"
    "thread_unblock p (st3\<lparr>kstack := (kstack st3)(p := [Kernel_Thread b])\<rparr>) = Some st4"
    "st' = push_frames [Super_Yield] st4"
    using ex by (auto simp: thread_create_tail_def Let_def bind_Some_iff)
  have ss: "same_sched st st3" using s(1-3) same.alloc_frame_R same_sched_trans by blast
  let ?st3 = "st3\<lparr>kstack := (kstack st3)(p := [Kernel_Thread b])\<rparr>"
  note u = thread_unblock_Some[OF s(4)]
  have Sp: "status_map st p = Some THREAD_BLOCKED" using u(1) ss by (simp add: same_sched_def)
  then have pt: "p \<noteq> running st" using w(2) by auto
  have wf: "sched_wf ((status_map st)(p \<mapsto> THREAD_READY)) (ready_list st4) (all_list st) (waiters_map st)
      (idle_thread st) ((kstack st)(running st := [Super_Yield] @ kstack st (running st), p := [Kernel_Thread b]))"
    by (rule wf_start[OF w(1,2)]) (use u(3) ss in \<open>simp add: same_sched_def\<close>)
  have eS: "status_map st' = (status_map st)(p \<mapsto> THREAD_READY)"
    using s(5) u(2) ss by (simp add: same_sched_def)
  have eW: "waiters_map st' = waiters_map st"
    using s(5) waiters_map_semas[OF u(5)] ss by (simp add: same_sched_def)
  have eK: "kstack st' = (kstack st)(running st := [Super_Yield] @ kstack st (running st), p := [Kernel_Thread b])"
    using s(5) u(8,9) ss pt by (auto simp: same_sched_def fun_eq_iff)
  have e: "ready_list st' = ready_list st4" "all_list st' = all_list st" "idle_thread st' = idle_thread st"
    "running st' = running st" "initial_thread st' = initial_thread st"
    using s(5) u(4,6,7,8) ss by (simp_all add: same_sched_def)
  have "WF st'" unfolding WF_def eS eW eK e using wf .
  moreover have "wf_run (status_map st') (running st') (initial_thread st')"
    unfolding eS e using w(3) pt by (auto simp: wf_run_def)
  ultimately show ?thesis by (simp add: sched_inv_def)
qed

lemma thread_create_inv:
  assumes at: "at_frame f st" and ex: "thread_create (Some p) nm pr b st = Some st'"
    and p: "status_map st p = None" and b: "body_ok b" "idle_pending f = idle_pending (Create_Tail p b)"
    and f: "\<And>q. \<not> creates q f" "\<not> idle_frame f \<or> idle_thread st \<noteq> Some (running st)"
      "\<And>g. g \<in> set (kstack st (running st)) \<Longrightarrow> \<not> idle_pending g"
  shows "sched_inv st'"
proof -
  note w = at_frameD[OF at]
  have sw: "s_waiters (semas st (ThreadSema p)) = []"
    by (rule at_frame_waiters[OF at]) (use p in auto)
  obtain st1 st2 where s: "init_thread p nm pr st = Some st1" "inherit_mlfqs p st1 = Some st2"
    "st' = push_frames (allocate_tid p @ [Create_Tail p b]) st2"
    using ex by (auto simp: thread_create_def bind_Some_iff)
  have s2: "same_sched st1 st2" by (rule postD[OF same.inherit_mlfqs_R s(2)])
  have st1: "status_map st1 = (status_map st)(p \<mapsto> THREAD_BLOCKED)" "ready_list st1 = ready_list st"
    "all_list st1 = all_list st @ [p]" "waiters_map st1 = waiters_map st" "idle_thread st1 = idle_thread st"
    "kstack st1 = kstack st" "running st1 = running st" "initial_thread st1 = initial_thread st"
    using s(1) sw by (auto simp: init_thread_def Let_def status_map_upd waiters_map_def fun_eq_iff upd_sema_def
        status_map_def split: if_splits)
  have "sched_wf ((status_map st)(p \<mapsto> THREAD_BLOCKED)) (ready_list st) (all_list st @ [p]) (waiters_map st)
      (idle_thread st) ((kstack st)(running st := allocate_tid p @ [Create_Tail p b] @ kstack st (running st)))"
    by (rule wf_create[OF w(1,2) p b f])
  moreover have "wf_run ((status_map st)(p \<mapsto> THREAD_BLOCKED)) (running st) (initial_thread st)"
    using w(3) p by (intro wf_run_upd) auto
  ultimately have "sched_inv (push_frames (allocate_tid p @ [Create_Tail p b]) st1)"
    using st1 by (simp add: sched_inv_def WF_def)
  then show ?thesis unfolding s(3) using same_sched_inv same_sched_push[OF s2] by blast
qed

lemma idle_loop_inv:
  assumes at: "at_frame Idle_Loop st" and ex: "idle_loop st = Some st'"
  shows "sched_inv st'"
proof -
  note w = at_frameD[OF at]
  let ?t = "running st"
  have I: "idle_thread st = Some ?t"
    using w(1) unfolding sched_wf_def wf_idle_def by (metis fun_upd_same list.set_intros(1))
  let ?st1 = "push_frames [Set_Level True, Idle_Loop] (intr_disable st)"
  obtain r where r: "threads st ?t = Some r"
    "schedule (?st1\<lparr>threads := (threads ?st1)(?t \<mapsto> t_status_update (\<lambda>_. THREAD_BLOCKED) r)\<rparr>) = Some st'"
    using ex unfolding idle_loop_def by (elim thread_block_unfold) simp
  let ?st2 = "?st1\<lparr>threads := (threads ?st1)(?t \<mapsto> t_status_update (\<lambda>_. THREAD_BLOCKED) r)\<rparr>"
  let ?K = "(kstack st)(?t := [Set_Level True, Idle_Loop] @ kstack st ?t)"
  have "sched_wf (status_map st) (ready_list st) (all_list st) (waiters_map st) (idle_thread st) ?K"
    by (rule wf_replace[OF w(1,2)]) (simp add: replaces_def)
  then have "sched_wf ((status_map st)(?t \<mapsto> THREAD_BLOCKED)) (ready_list st) (all_list st) (waiters_map st)
      (idle_thread st) ?K"
    by (rule wf_status_idle) (use w(2) I in auto)
  moreover have S: "status_map ?st2 = (status_map st)(?t \<mapsto> THREAD_BLOCKED)"
    by (auto simp: status_map_def fun_eq_iff)
  ultimately have "mid_inv ?st2"
    by (intro mid_inv_I[OF w(3), where x = THREAD_BLOCKED]) simp_all
  then show ?thesis using r(2) by (rule schedule_inv)
qed

lemma kernel_thread_inv:
  assumes at: "at_frame (Kernel_Thread b) st" and ex: "kernel_thread b st = Some st'"
  shows "sched_inv st'"
proof -
  note w = at_frameD[OF at]
  obtain st1 where s: "intr_enable st = Some st1"
    "st' = (case b of Idle s \<Rightarrow> push_frames [Idle_Start s] st1 | Any_Function \<Rightarrow> st1)"
    using ex by (cases b) (auto simp: kernel_thread_def bind_Some_iff)
  have ss: "same_sched st st1" using s(1) by (auto simp: intr_enable_def split: if_splits)
  show ?thesis
  proof (cases b)
    case (Idle i)
    have "sched_inv (push_frames [Idle_Start i] st)"
      using wf_idle_call[OF w(1)[unfolded Idle] w(2)] w(3) by (simp add: sched_inv_def WF_def)
    then show ?thesis using same_sched_inv same_sched_push[OF ss] s(2) Idle by auto
  next
    case Any_Function
    then show ?thesis using rep_pop[OF at _ ss] s(2) by (simp add: replaces_def)
  qed
qed

lemma idle_start_inv:
  assumes at: "at_frame (Idle_Start s) st" and ex: "idle_start s st = Some st'"
  shows "sched_inv st'"
proof -
  note w = at_frameD[OF at]
  have "st' = push_frames [Sema_Up s, Idle_Loop] (st\<lparr>idle_thread := Some (running st)\<rparr>)"
    using ex by (auto simp: idle_start_def bind_Some_iff thread_current_Some)
  then show ?thesis using wf_idle_start[OF w(1,2)] w(3) by (simp add: sched_inv_def WF_def)
qed

lemma at_frame_ok: "at_frame f st \<Longrightarrow> frame_ok (running st) f"
  using wf_stack_frameD[of "status_map st" "(kstack st)(running st := f # kstack st (running st))" f "running st"]
    at_frameD(1)[of f st] by (simp add: sched_wf_def)

lemma at_frame_boots:
  "at_frame f st \<Longrightarrow> boots p f \<Longrightarrow> {u. status_map st u \<noteq> None} = {running st} \<and> p \<noteq> running st"
  using at_frameD(1)[of f st] unfolding sched_wf_def wf_stack_def
  by (metis fun_upd_same list.set_intros(1))

lemma at_frame_idle_alone:
  assumes at: "at_frame f st" and f: "idle_pending f" and g: "g \<in> set (kstack st (running st))"
  shows "\<not> idle_pending g"
proof
  assume ip: "idle_pending g"
  let ?t = "running st" let ?K = "(kstack st)(?t := f # kstack st ?t)"
  note w = at_frameD(1)[OF at]
  have fin: "finite {u. ?K u \<noteq> []}" using sched_wf_fin[OF w] .
  have fin0: "finite {u. kstack st u \<noteq> []}" using fin by (simp only: finite_upd_stack)
  have "0 < frames_count idle_pending (kstack st)"
    by (rule frames_count_mem[where f = g and t = ?t]) (fact fin0 g ip)+
  then have "1 < frames_count idle_pending ?K"
    using frames_count_push[OF fin0, of idle_pending ?t "[f]"] f by simp
  then show False using w unfolding sched_wf_def wf_pending_def by (metis less_one not_less_iff_gr_or_eq less_numeral_extra(1))
qed

lemma lock_acquire_inv:
  assumes at: "at_frame (Lock_Acquire l) st" and ex: "lock_acquire l st = Some st'"
  shows "sched_inv st'"
proof -
  have "st' = push_frames ((if lock_holder st l \<noteq> None \<and> \<not> thread_mlfqs st then [Donate l] else [])
      @ [Sema_Down (LockSema l) (Some l)]) st"
    using ex by (auto simp: lock_acquire_def bind_Some_iff split: if_splits)
  then show ?thesis using at by (simp only:) (rule rep_push, auto simp: replaces_def)
qed

lemma lock_try_acquire_inv:
  assumes at: "at_frame (Lock_Try l) st" and ex: "lock_try_acquire l st = Some (b, st')"
  shows "sched_inv st'"
proof -
  let ?st1 = "upd_sema (LockSema l) (s_value_update (\<lambda>v. v - 1)) st"
  have ss: "same_sched st ?st1" by (rule same_sched_value) simp
  have "st' = push_frames [Set_Holder l] ?st1 \<or> st' = st"
    using ex by (auto simp: lock_try_acquire_def sema_try_down_def bind_Some_iff split: if_splits)
  then show ?thesis
    using rep_push[OF at _ ss, of "[Set_Holder l]"] rep_pop[OF at _ same_sched_refl]
    by (auto simp: replaces_def)
qed

lemma cond_wait_inv:
  assumes at: "at_frame (Cond_Wait c l) st" and ex: "cond_wait c l st = Some st'"
  shows "sched_inv st'"
proof -
  let ?t = "running st" let ?st1 = "sema_init (CondSema ?t) 0 st"
  have "s_waiters (semas st (CondSema ?t)) = []"
    by (rule at_frame_waiters[OF at, where t = ?t]) (use at_frameD(2)[OF at] in auto)
  then have ss: "same_sched st ?st1" unfolding sema_init_def by (rule sema_init_same)
  obtain ws where st': "st' = push_frames [Lock_Release l, Sema_Down (CondSema ?t) None, Lock_Acquire l]
      (?st1\<lparr>cond_waiters := (cond_waiters ?st1)(c := ws)\<rparr>)"
    using ex by (auto simp: cond_wait_def bind_Some_iff thread_current_Some Let_def split: if_splits)
  have "same_sched st (?st1\<lparr>cond_waiters := (cond_waiters ?st1)(c := ws)\<rparr>)"
    using same_sched_trans[OF ss same_sched_fields(2)] .
  then show ?thesis unfolding st' using at by (intro rep_push[OF at]) (simp_all add: replaces_def)
qed

lemma thread_start_inv:
  assumes at: "at_frame (Thread_Start p) st" and ex: "thread_start p st = Some st'"
  shows "sched_inv st'"
proof -
  let ?t = "running st" let ?s = "OtherSema 0"
  have d: "{u. status_map st u \<noteq> None} = {?t}" using at_frame_boots[OF at, of p] by simp
  have wait: "wf_wait (status_map st) (waiters_map st) ((kstack st)(?t := Thread_Start p # kstack st ?t))"
    using at_frameD(1)[OF at] by (simp add: sched_wf_def)
  have "s_waiters (semas st ?s) = []"
  proof (rule ccontr)
    assume "s_waiters (semas st ?s) \<noteq> []"
    then obtain u where "u \<in> set (waiters_map st ?s)" by (cases "s_waiters (semas st ?s)") (auto simp: waiters_map_def)
    then have "status_map st u = Some THREAD_BLOCKED" by (rule wf_waitD(1)[OF wait])
    moreover from this have "u = ?t" using d by auto
    ultimately show False using at_frameD(2)[OF at] by simp
  qed
  then have ss: "same_sched st (upd_sema ?s (\<lambda>_. \<lparr>s_value = 0, s_waiters = []\<rparr>) st)" by (rule sema_init_same)
  have "st' = push_frames [Thread_Create (Some p) ''idle'' PRI_MIN (Idle ?s), Set_Level True, Sema_Down ?s None]
      (upd_sema ?s (\<lambda>_. \<lparr>s_value = 0, s_waiters = []\<rparr>) st)"
    using ex by (simp add: thread_start_def Let_def)
  then show ?thesis by (simp only:) (rule rep_push[OF at _ ss], simp add: replaces_def)
qed

lemma thread_create_boot_inv:
  assumes at: "at_frame (Thread_Create pg nm pr b) st" and ex: "thread_create pg nm pr b st = Some st'"
  shows "sched_inv st'"
proof -
  have "frame_ok (running st) (Thread_Create pg nm pr b)" by (rule at_frame_ok[OF at])
  then obtain p k where p: "pg = Some p" "b = Idle (OtherSema k)" by auto
  have d: "{u. status_map st u \<noteq> None} = {running st} \<and> p \<noteq> running st"
    using at_frame_boots[OF at, of p] by (simp add: p)
  show ?thesis
  proof (rule thread_create_inv[OF at])
    show "thread_create (Some p) nm pr b st = Some st'" using ex p by simp
    show "status_map st p = None" using d by auto
    show "\<not> idle_pending g" if "g \<in> set (kstack st (running st))" for g
      by (rule at_frame_idle_alone[OF at _ that]) (simp add: p)
  qed (simp_all add: p)
qed

lemma set_priority_inv:
  assumes at: "at_frame (Set_Priority p) st" and ex: "thread_set_priority p st = Some st'"
  shows "sched_inv st'"
  using same.set_priority_R[OF ex] rep_pop[OF at _ same_sched_refl] rep_push[OF at, of "[Super_Yield]"]
  by (auto simp: replaces_def)

lemma set_nice_inv:
  assumes at: "at_frame (Set_Nice n) st" and ex: "thread_set_nice n st = Some st'"
  shows "sched_inv st'"
  using same.set_nice_R[OF ex] rep_push[OF at, of "[Super_Yield]"] by (auto simp: replaces_def)

lemma sleep_until_inv:
  assumes at: "at_frame (Sleep_Until w) st" and ex: "sleep_until w st = Some st'"
  shows "sched_inv st'"
proof -
  obtain st1 where st1: "upd_thread (running st) (t_wakeup_time_update (\<lambda>_. w)) st = Some st1"
    "st' = push_frames [Sema_Down (ThreadSema (running st)) None] (st1\<lparr>sleep_list := sleep_list st1 @ [running st]\<rparr>)"
    using ex by (auto simp: sleep_until_def bind_Some_iff Let_def thread_current_Some)
  have "same_sched st (st1\<lparr>sleep_list := sleep_list st1 @ [running st]\<rparr>)"
    using same_sched_trans[OF upd_wakeup_same[OF st1(1)] same_sched_fields(8)] .
  then show ?thesis unfolding st1(2) by (intro rep_push[OF at]) (simp_all add: replaces_def)
qed

text \<open>All frames a thread can have on its stack.\<close>

lemma exec_inv:
  assumes at: "at_frame f st" and ex: "exec f st = Some st'"
  shows "sched_inv st'"
proof -
  have pop: "sched_inv st1" if "same_sched st st1" "replaces (running st) f []" for st1
    using rep_pop[OF at that(2,1)] .
  have push: "sched_inv (push_frames gs st1)" if "same_sched st st1" "replaces (running st) f gs" for st1 gs
    using rep_push[OF at that(2,1)] .
  note ok = at_frame_ok[OF at]
  show ?thesis
  proof (cases f)
    case (Set_Level b)
    then show ?thesis using ex same_sched_intr_set_level by (intro pop) (auto simp: replaces_def)
  next
    case Yield_Call
    then have "sched_inv st" by (intro pop) (simp_all add: replaces_def)
    then show ?thesis using ex Yield_Call thread_yield_inv by auto
  next
    case Super_Yield
    have "st' = st \<or> (\<exists>t. st' = push_frames [Yield_If_Lower t] st)"
      using ex Super_Yield by (auto simp: thread_super_yield_read_def split: list.splits)
    then show ?thesis
    proof
      assume "st' = st"
      then show ?thesis using pop[of st] Super_Yield by (simp add: replaces_def)
    next
      assume "\<exists>t. st' = push_frames [Yield_If_Lower t] st"
      then obtain t where "st' = push_frames [Yield_If_Lower t] st" by blast
      then show ?thesis using push[of st "[Yield_If_Lower t]"] Super_Yield by (simp add: replaces_def)
    qed
  next
    case (Yield_If_Lower t)
    then have "sched_inv st" by (intro pop) (simp_all add: replaces_def)
    then show ?thesis using ex Yield_If_Lower super_yield_cmp_inv by auto
  next
    case (Sema_Down s ret)
    then have "st' = push_frames [Sema_Test s (intr_on st) ret] (intr_disable st)"
      using ex by (auto simp: sema_down_def intr_get_level_def Let_def split: if_splits)
    then show ?thesis using push[of "intr_disable st" "[Sema_Test s (intr_on st) ret]"] ok Sema_Down
      by (simp add: replaces_def)
  next
    case (Sema_Test s lvl ret)
    then show ?thesis using ex at sema_down_test_inv by auto
  next
    case (Sema_Up s)
    then show ?thesis using ex at sema_up_inv by auto
  next
    case (Sema_Init n v)
    then show ?thesis using ok by simp
  next
    case (Lock_Acquire l)
    then show ?thesis using ex at lock_acquire_inv by auto
  next
    case (Donate l)
    then show ?thesis using ex postD[OF same.donation_R] by (intro pop) (auto simp: replaces_def)
  next
    case (Set_Holder l)
    then have "\<exists>t. st' = st\<lparr>lock_holder := (lock_holder st)(l := Some t)\<rparr>"
      using ex by (auto simp: lock_set_holder_def bind_Some_iff)
    then show ?thesis using Set_Holder by (elim exE) (simp only:, rule pop, simp_all add: replaces_def)
  next
    case (Lock_Try l)
    then show ?thesis using ex at lock_try_acquire_inv by auto
  next
    case (Lock_Release l)
    then have "st' = push_frames [Release_Test l, Sema_Up (LockSema l)] (st\<lparr>lock_holder := (lock_holder st)(l := None)\<rparr>)"
      using ex by (auto simp: lock_release_def bind_Some_iff Let_def split: if_splits)
    then show ?thesis using Lock_Release by (simp only:) (rule push, simp_all add: replaces_def)
  next
    case (Release_Test l)
    then have "st' = st \<or> st' = push_frames [Donate_Back l] st"
      using ex by (auto simp: lock_release_test_def bind_Some_iff split: if_splits)
    then show ?thesis using pop[of st] push[of st "[Donate_Back l]"] Release_Test by (auto simp: replaces_def)
  next
    case (Donate_Back l)
    then show ?thesis using ex postD[OF same.donation_back_R] by (intro pop) (auto simp: replaces_def)
  next
    case (Cond_Wait c l)
    then show ?thesis using ex at cond_wait_inv by auto
  next
    case (Cond_Signal c l)
    then have "st' = st \<or> (\<exists>w ws. st' = push_frames [Sema_Up (CondSema w)] (st\<lparr>cond_waiters := (cond_waiters st)(c := ws)\<rparr>))"
      using ex by (auto simp: cond_signal_def bind_Some_iff split: if_splits list.splits)
    then show ?thesis using pop[of st] push Cond_Signal by (auto simp: replaces_def)
  next
    case (Cond_Broadcast c l)
    then have "st' = st \<or> st' = push_frames [Cond_Signal c l, Cond_Broadcast c l] st"
      using ex by (auto simp: cond_broadcast_def split: if_splits)
    then show ?thesis using pop[of st] push[of st "[Cond_Signal c l, Cond_Broadcast c l]"] Cond_Broadcast
      by (auto simp: replaces_def)
  next
    case (Thread_Start p)
    then show ?thesis using ex at thread_start_inv by auto
  next
    case (Thread_Create pg nm pr b)
    then show ?thesis using ex at thread_create_boot_inv by auto
  next
    case (Alloc_Tid t)
    then have "same_sched st st'" using ex same.allocate_tid_R by simp
    then show ?thesis using Alloc_Tid by (intro pop) (simp_all add: replaces_def)
  next
    case (Create_Tail t b)
    then show ?thesis using ex at thread_create_tail_inv by auto
  next
    case (Kernel_Thread b)
    then show ?thesis using ex at kernel_thread_inv by auto
  next
    case (Idle_Start s)
    then show ?thesis using ex at idle_start_inv by auto
  next
    case Idle_Loop
    then show ?thesis using ex at idle_loop_inv by auto
  next
    case Thread_Exit
    then show ?thesis using ok by simp
  next
    case (Set_Priority p)
    then show ?thesis using ex at set_priority_inv by auto
  next
    case (Set_Nice n)
    then show ?thesis using ex at set_nice_inv by auto
  next
    case (Timer_Sleep n)
    then have "st' = st \<or> (\<exists>w. st' = push_frames [Sleep_Until w] st)"
      using ex by (auto simp: timer_sleep_def split: if_splits)
    then show ?thesis using pop[of st] push[of st] Timer_Sleep by (auto simp: replaces_def)
  next
    case (Sleep_Until w)
    then show ?thesis using ex at sleep_until_inv by auto
  qed
qed

section \<open>The timer interrupt\<close>

lemma super_yield_intr_inv: "sched_inv st \<Longrightarrow> post sched_inv (thread_super_yield_intr st)"
  using super_yield_cmp_inv by (auto simp: thread_super_yield_intr_def post_def split: list.splits)

lemma sema_up_intr_inv: "sched_inv st \<Longrightarrow> post sched_inv (sema_up_intr s st)"
  using sema_up_body_inv[of "[]" st s] super_yield_intr_inv
  by (auto simp: sema_up_intr_def post_def bind_Some_iff)

lemma wake_loop_inv: "sched_inv st \<Longrightarrow> post (\<lambda>(rest, st'). sched_inv st') (wake_loop ts st)"
proof (induction ts arbitrary: st)
  case (Cons t ts)
  have a: "post (\<lambda>st'. post (\<lambda>(rest, st'). sched_inv st') (wake_loop ts st')) (sema_up_intr (ThreadSema t) st)"
    by (rule post_mono[OF sema_up_intr_inv[OF Cons.prems]]) (rule Cons.IH)
  have b: "post (\<lambda>x. post (\<lambda>(rest, st'). sched_inv st') (case x of (rest, st) \<Rightarrow> Some (t # rest, st))) (wake_loop ts st)"
    by (rule post_mono[OF Cons.IH[OF Cons.prems]]) (auto simp: post_basic)
  show ?case unfolding wake_loop.simps post_basic(3,4)
    by (intro post_lookup conjI impI a b)
qed (simp add: post_basic)

lemma tick_priorities_inv:
  assumes "sched_inv st"
  shows "post sched_inv (tick_priorities st)"
proof -
  let ?s = "st\<lparr>calc_ticks := calc_ticks st + 1\<rparr>"
  have s: "sched_inv ?s" using same_sched_inv[OF same_sched_fields(4) assms] .
  have "post (\<lambda>st. post sched_inv (thread_super_yield_intr (st\<lparr>calc_ticks := 0\<rparr>)))
      (foreach_loop calc_priority (all_list ?s) ?s)"
  proof (rule post_mono[OF same.foreach_R[OF same.calc_R(1)]])
    fix st1 assume "same_sched ?s st1"
    then have "sched_inv (st1\<lparr>calc_ticks := 0\<rparr>)"
      using same_sched_inv s same_sched_trans same_sched_fields(4) by metis
    then show "post sched_inv (thread_super_yield_intr (st1\<lparr>calc_ticks := 0\<rparr>))"
      by (rule super_yield_intr_inv)
  qed
  then show ?thesis using s unfolding tick_priorities_def Let_def post_basic(3,4) by (simp add: post_basic(1))
qed

lemma thread_tick_inv:
  assumes inv: "sched_inv st"
  shows "post sched_inv (thread_tick st)"
proof (rule postI)
  fix st' assume ex: "thread_tick st = Some st'"
  then obtain t st1 st2 where s: "tick_count t st = Some st1"
    "(if thread_mlfqs st1 then Option.bind (tick_priorities st1) tick_averages else Some st1) = Some st2"
    "tick_slice t st2 = Some st'"
    by (auto simp: thread_tick_def bind_Some_iff)
  have i1: "sched_inv st1" using postD[OF same.tick_count_R s(1)] inv same_sched_inv by blast
  have i2: "sched_inv st2"
  proof (cases "thread_mlfqs st1")
    case True
    then obtain st3 where "tick_priorities st1 = Some st3" "tick_averages st3 = Some st2"
      using s(2) by (auto simp: bind_Some_iff)
    then show ?thesis
      using postD[OF tick_priorities_inv[OF i1]] postD[OF same.tick_averages_R] same_sched_inv by blast
  qed (use s(2) i1 in simp)
  show "sched_inv st'" using postD[OF same.tick_slice_R s(3)] i2 same_sched_inv by blast
qed

lemma intr_handler_timer_inv:
  assumes inv: "sched_inv st" and ex: "intr_handler timer_interrupt st = Some st'"
  shows "sched_inv st'"
proof -
  let ?st0 = "push_frames [Set_Level True] (st\<lparr>intr_on := False\<rparr>)"
  let ?st1 = "?st0\<lparr>in_external_intr := True, yield_on_return := False\<rparr>"
  let ?st2 = "?st1\<lparr>timer_count := wrap64 (timer_count ?st1 + 1)\<rparr>"
  obtain rest st3 st4 where s: "wake_loop (sleep_list ?st2) ?st2 = Some (rest, st3)"
    "thread_tick (st3\<lparr>sleep_list := rest\<rparr>) = Some st4"
    "(if yield_on_return (st4\<lparr>in_external_intr := False\<rparr>) then thread_yield (st4\<lparr>in_external_intr := False\<rparr>)
      else Some (st4\<lparr>in_external_intr := False\<rparr>)) = Some st'"
    using ex by (auto simp: intr_handler_def timer_interrupt_def Let_def bind_Some_iff split: if_splits)
  have "sched_inv ?st0"
    using inv wf_push_level[of "status_map st" "ready_list st" "all_list st" "waiters_map st" "idle_thread st" "kstack st"
        "running st" True]
    by (simp add: sched_inv_def WF_def wf_run_def)
  then have "sched_inv ?st2"
    by (intro same_sched_inv[OF same_sched_fields(7)] same_sched_inv[OF same_sched_fields(14)])
  then have "sched_inv st3" using postD[OF wake_loop_inv s(1)] by simp
  then have "sched_inv (st3\<lparr>sleep_list := rest\<rparr>)" by (rule same_sched_inv[OF same_sched_fields(8)])
  then have "sched_inv st4" using postD[OF thread_tick_inv s(2)] by blast
  then have "sched_inv (st4\<lparr>in_external_intr := False\<rparr>)" by (rule same_sched_inv[OF same_sched_fields(10)])
  then show ?thesis using s(3) thread_yield_inv by (auto split: if_splits)
qed

section \<open>All steps\<close>

lemma popped_at_frame:
  assumes "sched_inv st" "kstack st (running st) = f # fs"
  shows "at_frame f (st\<lparr>kstack := (kstack st)(running st := fs)\<rparr>)"
proof -
  have "push_frames [f] (st\<lparr>kstack := (kstack st)(running st := fs)\<rparr>) = st"
    using assms(2) fun_upd_triv[of "kstack st" "running st"] by (simp add: push_frames_def)
  then show ?thesis using assms(1) by (simp add: at_frame_def)
qed

lemma entered_at_frame:
  assumes inv: "sched_inv st" and K: "kstack st (running st) = []"
    and f: "frame_ok (running st) f" "\<not> idle_pending f" "\<And>p. \<not> creates p f" "f \<noteq> Idle_Loop"
  shows "at_frame f st"
proof -
  have w: "sched_wf (status_map st) (ready_list st) (all_list st) (waiters_map st) (idle_thread st) (kstack st)"
    and wr: "wf_run (status_map st) (running st) (initial_thread st)"
    using inv by (auto simp: sched_inv_def WF_def)
  have "status_map st (running st) = Some THREAD_RUNNING" using wr by (simp add: wf_run_def)
  then show ?thesis
    using wf_enter[OF w _ K f] K wr by (simp add: at_frame_def sched_inv_def WF_def)
qed

lemma api_create_inv:
  assumes inv: "sched_inv st" and K: "kstack st (running st) = []" and p: "threads st p = None"
    and ex: "thread_create (Some p) nm pr Any_Function st = Some st'"
  shows "sched_inv st'"
proof -
  have at: "at_frame Lock_Acquire_dummy st" if "Lock_Acquire_dummy = Lock_Acquire tid_lock" for Lock_Acquire_dummy
    by (rule entered_at_frame[OF inv K]) (simp_all add: that)
  show ?thesis
    by (rule thread_create_inv[OF at[OF refl] ex]) (use p K in \<open>simp_all add: status_map_def\<close>)
qed

lemma api_inv:
  assumes inv: "sched_inv st" and K: "kstack st (running st) = []" and api: "api_call st f"
    and ex: "exec f st = Some st'"
  shows "sched_inv st'"
proof -
  consider (exit) "f = Thread_Exit" | (init) n v where "f = Sema_Init n v"
    | (create) pg nm pr where "f = Thread_Create pg nm pr Any_Function"
    | (plain) "frame_ok (running st) f" "\<not> idle_pending f" "\<And>p. \<not> creates p f" "f \<noteq> Idle_Loop"
    using api by (cases f rule: frame.exhaust) (force elim: api_call.elims)+
  then show ?thesis
  proof cases
    case exit
    then show ?thesis using thread_exit_inv[OF inv K] ex by simp
  next
    case init
    then have "same_sched st st'" using ex api sema_init_same by (auto simp: sema_init_def)
    then show ?thesis using same_sched_inv inv by blast
  next
    case create
    show ?thesis
    proof (cases pg)
      case None
      then show ?thesis using ex create inv by (simp add: thread_create_def)
    next
      case (Some p)
      then show ?thesis using api_create_inv[OF inv K] ex api create by simp
    qed
  next
    case plain
    show ?thesis using exec_inv[OF entered_at_frame[OF inv K plain] ex] .
  qed
qed

theorem kstep_inv: "sched_inv st \<Longrightarrow> kstep st st' \<Longrightarrow> sched_inv st'"
proof (elim kstep.cases)
  fix a b assume inv: "sched_inv st" and e: "st = a" "st' = b" and "run_frame a = Some b"
  then obtain f fs where "kstack st (running st) = f # fs"
    "exec f (st\<lparr>kstack := (kstack st)(running st := fs)\<rparr>) = Some st'"
    by (auto simp: run_frame_def split: list.splits)
  then show "sched_inv st'" using exec_inv[OF popped_at_frame[OF inv]] by blast
next
  fix a f b assume "sched_inv st" "st = a" "st' = b" "kstack a (running a) = []" "api_call a f" "exec f a = Some b"
  then show "sched_inv st'" using api_inv by blast
next
  fix a b assume "sched_inv st" "st = a" "st' = b" "intr_handler timer_interrupt a = Some b"
  then show "sched_inv st'" using intr_handler_timer_inv by blast
qed

section \<open>Reachable states\<close>

lemma boot_state:
  assumes "boot m i q = Some st"
  shows "status_map st = [m \<mapsto> THREAD_RUNNING]" "ready_list st = []" "all_list st = [m]"
    "waiters_map st = (\<lambda>_. [])" "idle_thread st = None" "running st = m" "initial_thread st = m"
    "kstack st = (\<lambda>_. [])(m := allocate_tid m @ [Thread_Start i])" "thread_mlfqs st = q"
    "lock_holder st = (\<lambda>_. None)" "sleep_list st = []" "in_external_intr st = False"
    "s_value (semas st (LockSema l)) = 1" "s_value (semas st (ThreadSema t)) = 0"
    "timer_count st = 0" "intr_on st = False"
  using assms
  by (auto simp: boot_def empty_kst_def thread_init_def init_thread_def upd_thread_def timer_init_def Let_def
      push_frames_def upd_sema_def intr_get_level_def running_thread_def PRI_MIN_def PRI_MAX_def PRI_DEFAULT_def
      status_map_def waiters_map_def fun_eq_iff bind_Some_iff split: if_splits sema_loc.splits)

lemma boot_inv:
  assumes "m \<noteq> i" "boot m i q = Some st"
  shows "sched_inv st"
proof -
  note b = boot_state[OF assms(2)]
  let ?K = "(\<lambda>_. [])(m := allocate_tid m @ [Thread_Start i])" let ?S = "[m \<mapsto> THREAD_RUNNING]"
  have fin: "finite {t. (\<lambda>_::tptr. []::frame list) t \<noteq> []}" by simp
  have c: "frames_count P ?K = length (filter P (allocate_tid m @ [Thread_Start i]))" for P
    using frames_count_upd[OF fin, of P m "allocate_tid m @ [Thread_Start i]"]
    by (simp add: frames_count_def)
  have st: "wf_stack ?S ?K"
    using assms(1) by (auto simp: wf_stack_def allocate_tid_def idle_base_def split: if_splits)
  have "wf_pending ?S None ?K" unfolding wf_pending_def c by (simp add: allocate_tid_def)
  moreover have "wf_idle ?S [] None ?K" by (simp add: wf_idle_def allocate_tid_def)
  ultimately have "sched_wf ?S [] [m] (\<lambda>_. []) None ?K"
    unfolding sched_wf_def using st
    by (auto simp: wf_ready_def wf_wait_def wf_blocked_def wf_all_def split: if_splits)
  then show ?thesis by (auto simp: sched_inv_def WF_def b wf_run_def)
qed

theorem reachable_inv: "reachable st \<Longrightarrow> sched_inv st"
  by (induction rule: reachable.induct) (use boot_inv kstep_inv in blast)+

end
