(* ===== verification/LockInv.thy ===== *)
theory LockInv
  imports SchedStep
begin

text \<open>
  Mutual exclusion of the locks of project 1. A lock is a semaphore whose one unit is at any time
  in exactly one place: in the semaphore's value, with the thread that is about to enter its
  name in \<open>holder\<close>, with the holder, or with the thread that has cleared \<open>holder\<close> and is about to
  give the unit back. The number of these places is invariantly one.
\<close>

section \<open>The unit of a lock\<close>

fun has_unit :: "lptr \<Rightarrow> frame \<Rightarrow> bool" where
  "has_unit l (Set_Holder k) = (k = l)"
| "has_unit l (Sema_Up (LockSema k)) = (k = l)"
| "has_unit l _ = False"

definition lock_sum :: "lptr \<Rightarrow> kst \<Rightarrow> nat" where
  "lock_sum l st = unat (s_value (semas st (LockSema l))) + (if lock_holder st l = None then 0 else 1) +
     frames_count (has_unit l) (kstack st)"

definition fin_stacks :: "kst \<Rightarrow> bool" where
  "fin_stacks st \<longleftrightarrow> finite {t. kstack st t \<noteq> []}"

definition locks_eq :: "kst \<Rightarrow> kst \<Rightarrow> bool" where
  "locks_eq st st' \<longleftrightarrow> (\<forall>l. s_value (semas st' (LockSema l)) = s_value (semas st (LockSema l))) \<and>
     lock_holder st' = lock_holder st \<and> kstack st' = kstack st \<and> running st' = running st"

definition locks_eq' :: "kst \<Rightarrow> kst \<Rightarrow> bool" where
  "locks_eq' st st' \<longleftrightarrow> (\<forall>l. s_value (semas st' (LockSema l)) = s_value (semas st (LockSema l))) \<and>
     lock_holder st' = lock_holder st \<and> kstack st' = kstack st"

lemma locks_eq_refl [simp]: "locks_eq st st" "locks_eq' st st"
  by (simp_all add: locks_eq_def locks_eq'_def)

lemma locks_eq_weak: "locks_eq st st' \<Longrightarrow> locks_eq' st st'"
  by (simp add: locks_eq_def locks_eq'_def)

lemma locks_eq_trans: "locks_eq a b \<Longrightarrow> locks_eq b c \<Longrightarrow> locks_eq a c"
  by (simp add: locks_eq_def)

lemma locks_eq'_trans: "locks_eq' a b \<Longrightarrow> locks_eq' b c \<Longrightarrow> locks_eq' a c"
  by (simp add: locks_eq'_def)

lemma locks_eq_sum: "locks_eq' st st' \<Longrightarrow> lock_sum l st' = lock_sum l st \<and> fin_stacks st' = fin_stacks st"
  by (simp add: locks_eq'_def lock_sum_def fin_stacks_def)

lemma fin_stacks_push [simp]: "fin_stacks (push_frames gs st) = fin_stacks st"
  unfolding fin_stacks_def push_frames_simps by (rule finite_upd_stack)

lemma lock_sum_push:
  "fin_stacks st \<Longrightarrow> lock_sum l (push_frames gs st) = lock_sum l st + length (filter (has_unit l) gs)"
  using frames_count_push[of "kstack st" "has_unit l" "running st" gs]
  by (simp add: lock_sum_def fin_stacks_def)

section \<open>Functions that leave the locks alone\<close>

lemma locks_eq_fields [simp]:
  "locks_eq st (st\<lparr>cond_waiters := b\<rparr>)"
  "locks_eq st (st\<lparr>thread_ticks := c\<rparr>)" "locks_eq st (st\<lparr>calc_ticks := d\<rparr>)"
  "locks_eq st (st\<lparr>load_avg := e\<rparr>)" "locks_eq st (st\<lparr>next_tid := g\<rparr>)"
  "locks_eq st (st\<lparr>timer_count := h\<rparr>)" "locks_eq st (st\<lparr>sleep_list := i\<rparr>)"
  "locks_eq st (st\<lparr>intr_on := j\<rparr>)" "locks_eq st (st\<lparr>in_external_intr := k\<rparr>)"
  "locks_eq st (st\<lparr>yield_on_return := l\<rparr>)" "locks_eq st (st\<lparr>idle_ticks := m\<rparr>)"
  "locks_eq st (st\<lparr>kernel_ticks := n\<rparr>)" "locks_eq st (st\<lparr>ready_list := r\<rparr>)"
  "locks_eq st (st\<lparr>all_list := a\<rparr>)" "locks_eq st (st\<lparr>threads := t\<rparr>)" "locks_eq st (st\<lparr>idle_thread := q\<rparr>)"
  "locks_eq st (intr_disable st)"
  "locks_eq st (st\<lparr>in_external_intr := k, yield_on_return := l\<rparr>)"
  by (simp_all add: locks_eq_def intr_disable_def)

lemma locks_eq_intr_set_level: "intr_set_level b st = Some st' \<Longrightarrow> locks_eq st st'"
  by (auto simp: intr_set_level_def intr_enable_def split: if_splits)

lemma locks_eq_upd_thread: "upd_thread t f st = Some st' \<Longrightarrow> locks_eq st st'"
  by (auto simp: upd_thread_Some)

lemma locks_eq_waiters:
  "(\<And>r. s_value (f r) = s_value r) \<Longrightarrow> locks_eq st (upd_sema s f st)"
  by (auto simp: locks_eq_def upd_sema_def)

lemma locks_eq_other_sema: "\<forall>l. s \<noteq> LockSema l \<Longrightarrow> locks_eq st (upd_sema s f st)"
  by (auto simp: locks_eq_def upd_sema_def)

interpretation locks: bookkeeping locks_eq
  by unfold_locales (auto simp: locks_eq_def)

lemma schedule_locks: "schedule st = Some st' \<Longrightarrow> locks_eq' st st'"
proof -
  assume ex: "schedule st = Some st'"
  obtain nt st1 where n1: "next_thread_to_run st = (nt, st1)" by (cases "next_thread_to_run st")
  then obtain n where n: "nt = Some n" using ex by (cases nt) (auto simp: schedule_def Let_def split: if_splits)
  have e1: "locks_eq' st st1"
    using next_thread_cases[OF n1 n] by (metis locks_eq_fields(13) locks_eq_weak)
  have p: "post (locks_eq' s) (thread_schedule_tail prev s)" for s prev
    unfolding thread_schedule_tail_def Let_def ASSERT_bind post_basic post_upd_thread
    by (intro conjI allI impI post_lookup) (simp_all add: locks_eq'_def)
  have tail: "locks_eq' s s'" if "thread_schedule_tail prev s = Some s'" for s s' prev
    by (rule postD[OF p that])
  have "locks_eq' st1 (st1\<lparr>running := n\<rparr>)" by (simp add: locks_eq'_def)
  moreover have "thread_schedule_tail (Some (running st)) (st1\<lparr>running := n\<rparr>) = Some st' \<or>
      thread_schedule_tail None st1 = Some st'"
    using ex n1 n by (auto simp: schedule_def Let_def running_thread_def split: if_splits)
  ultimately have "locks_eq' st1 st'" using tail locks_eq'_trans by blast
  then show ?thesis using e1 locks_eq'_trans by blast
qed

lemma thread_unblock_locks: "thread_unblock t st = Some st' \<Longrightarrow> locks_eq st st'"
  using thread_unblock_Some[of t st st'] by (simp add: locks_eq_def)

lemma thread_block_locks:
  assumes "thread_block st = Some st'"
  shows "locks_eq' st st'"
proof -
  obtain r where r: "threads st (running st) = Some r"
    "schedule (st\<lparr>threads := (threads st)(running st \<mapsto> t_status_update (\<lambda>_. THREAD_BLOCKED) r)\<rparr>) = Some st'"
    using thread_block_unfold[OF assms] .
  show ?thesis using schedule_locks[OF r(2)] by (simp add: locks_eq'_def)
qed

lemma thread_yield_locks:
  assumes "fin_stacks st" "thread_yield st = Some st'"
  shows "lock_sum l st' = lock_sum l st \<and> fin_stacks st'"
proof -
  obtain r where r: "schedule (push_frames [Set_Level (intr_on st)] (st\<lparr>intr_on := False,
       ready_list := (if Some (running st) \<noteq> idle_thread st
         then ins_ord (compare_thread_priority (intr_disable st)) (running st) (ready_list st) else ready_list st),
       threads := (threads st)(running st \<mapsto> t_status_update (\<lambda>_. THREAD_READY) r)\<rparr>)) = Some st'"
    using thread_yield_unfold[OF assms(2)] .
  let ?s = "st\<lparr>intr_on := False,
       ready_list := (if Some (running st) \<noteq> idle_thread st
         then ins_ord (compare_thread_priority (intr_disable st)) (running st) (ready_list st) else ready_list st),
       threads := (threads st)(running st \<mapsto> t_status_update (\<lambda>_. THREAD_READY) r)\<rparr>"
  obtain st1 where st1: "locks_eq st st1" "schedule (push_frames [Set_Level (intr_on st)] st1) = Some st'"
    by (rule that[of ?s]) (use r in \<open>simp_all add: locks_eq_def\<close>)
  have "lock_sum l (push_frames [Set_Level (intr_on st)] st1) = lock_sum l st1"
    "fin_stacks st1"
    using lock_sum_push[of st1 l] assms(1) locks_eq_sum[OF locks_eq_weak[OF st1(1)]] by auto
  then show ?thesis
    using locks_eq_sum[OF schedule_locks[OF st1(2)]] locks_eq_sum[OF locks_eq_weak[OF st1(1)], of l] by auto
qed

lemma super_yield_cmp_locks:
  assumes "fin_stacks st" "thread_super_yield_cmp t st = Some st'"
  shows "lock_sum l st' = lock_sum l st \<and> fin_stacks st'"
proof -
  consider "thread_yield st = Some st'" | "st' = st" | "st' = st\<lparr>yield_on_return := True\<rparr>"
    using super_yield_cmp_cases[OF assms(2)] by blast
  then show ?thesis
  proof cases
    case 1
    then show ?thesis using thread_yield_locks assms(1) by blast
  next
    case 3
    have "locks_eq' st (st\<lparr>yield_on_return := True\<rparr>)" by (simp add: locks_eq_weak)
    then show ?thesis using 3 locks_eq_sum assms(1) by blast
  qed (use assms in auto)
qed

section \<open>The invariant\<close>

definition unit_inv :: "lptr \<Rightarrow> nat \<Rightarrow> kst \<Rightarrow> bool" where
  "unit_inv l n st \<longleftrightarrow> fin_stacks st \<and> lock_sum l st = n"

lemma unit_push: "unit_inv l n st \<Longrightarrow> length (filter (has_unit l) gs) = k \<Longrightarrow> unit_inv l (n + k) (push_frames gs st)"
  by (simp add: unit_inv_def lock_sum_push)

lemma unit_push0: "unit_inv l n st \<Longrightarrow> filter (has_unit l) gs = [] \<Longrightarrow> unit_inv l n (push_frames gs st)"
  using unit_push[of l n st gs 0] by simp

lemma unit_eq: "unit_inv l n st \<Longrightarrow> locks_eq' st st' \<Longrightarrow> unit_inv l n st'"
  using locks_eq_sum[of st st' l] by (simp add: unit_inv_def)

lemma unit_eq': "unit_inv l n st \<Longrightarrow> locks_eq st st' \<Longrightarrow> unit_inv l n st'"
  using unit_eq locks_eq_weak by blast

lemma unit_yield: "unit_inv l n st \<Longrightarrow> thread_yield st = Some st' \<Longrightarrow> unit_inv l n st'"
  using thread_yield_locks[of st st' l] by (simp add: unit_inv_def)

lemma unit_super_yield_cmp: "unit_inv l n st \<Longrightarrow> thread_super_yield_cmp t st = Some st' \<Longrightarrow> unit_inv l n st'"
  using super_yield_cmp_locks[of st t st' l] by (simp add: unit_inv_def)

lemma unit_super_yield_intr: "unit_inv l n st \<Longrightarrow> post (unit_inv l n) (thread_super_yield_intr st)"
  using unit_super_yield_cmp by (auto simp: thread_super_yield_intr_def post_def split: list.splits)

text \<open>\<open>sema_up\<close> gives the unit back, and \<open>sema_down\<close> takes it.\<close>

lemma sema_up_body_value:
  assumes "sema_up_body s st = Some st'"
  shows "locks_eq (upd_sema s (s_value_update (\<lambda>v. v + 1)) st) st'"
proof -
  let ?up = "upd_sema s (s_value_update (\<lambda>v. v + 1))"
  have e: "locks_eq (?up a) (?up b)" if "locks_eq a b" for a b
    using that by (cases s) (auto simp: locks_eq_def upd_sema_def)
  obtain st1 where st1: "(case sort_by_priority (intr_disable st) (s_waiters (semas (intr_disable st) s)) of
             [] \<Rightarrow> Some (intr_disable st)
           | t # ts \<Rightarrow> thread_unblock t (upd_sema s (s_waiters_update (\<lambda>_. ts)) (intr_disable st))) = Some st1"
    "intr_set_level (intr_on st) (?up st1) = Some st'"
    using assms by (auto simp: sema_up_body_def Let_def bind_Some_iff intr_get_level_def)
  have w: "locks_eq (intr_disable st) (upd_sema s (s_waiters_update (\<lambda>_. ts)) (intr_disable st))" for ts
    by (rule locks_eq_waiters) simp
  have "locks_eq (intr_disable st) st1"
  proof (cases "sort_by_priority (intr_disable st) (s_waiters (semas (intr_disable st) s))")
    case Nil
    then show ?thesis using st1(1) by simp
  next
    case (Cons t ts)
    then have "thread_unblock t (upd_sema s (s_waiters_update (\<lambda>_. ts)) (intr_disable st)) = Some st1"
      using st1(1) by simp
    then show ?thesis using locks_eq_trans[OF w thread_unblock_locks] by blast
  qed
  then have "locks_eq st st1" using locks_eq_trans[OF locks_eq_fields(17)] by blast
  then show ?thesis using e locks_eq_trans locks_eq_intr_set_level[OF st1(2)] by blast
qed

lemma unit_sema_up_body:
  assumes "unit_inv l n st" "n + (if s = LockSema l then 1 else 0) \<le> 1" "sema_up_body s st = Some st'"
  shows "unit_inv l (n + (if s = LockSema l then 1 else 0)) st'"
proof -
  let ?st1 = "upd_sema s (s_value_update (\<lambda>v. v + 1)) st"
  have "unit_inv l (n + (if s = LockSema l then 1 else 0)) ?st1"
  proof (cases "s = LockSema l")
    case True
    then have "n = 0" using assms(2) by simp
    then have v: "s_value (semas st s) = 0" "unit_inv l 0 st"
      using assms(1) True by (auto simp: unit_inv_def lock_sum_def unat_eq_0)
    have "lock_sum l ?st1 = Suc (lock_sum l st)"
      using v(1) True by (simp add: lock_sum_def upd_sema_def)
    then show ?thesis using assms(1) True by (simp add: unit_inv_def fin_stacks_def)
  next
    case False
    then have "lock_sum l ?st1 = lock_sum l st" by (simp add: lock_sum_def upd_sema_def)
    then show ?thesis using assms(1) False by (simp add: unit_inv_def fin_stacks_def)
  qed
  then show ?thesis using unit_eq' sema_up_body_value[OF assms(3)] by blast
qed

lemma unit_take:
  assumes "unit_inv l n st" "s_value (semas st s) \<noteq> 0" "n \<le> 1"
  shows "unit_inv l (n - (if s = LockSema l then 1 else 0)) (upd_sema s (s_value_update (\<lambda>v. v - 1)) st)"
proof (cases "s = LockSema l")
  case True
  have v0: "0 < unat (s_value (semas st s))" using assms(2) by (simp add: unat_gt_0)
  then have "unat (s_value (semas st s)) = 1" "n = 1"
    using assms(1,3) True by (auto simp: unit_inv_def lock_sum_def)
  then have "s_value (semas st s) = 1" by (simp add: word_unat_eq_iff)
  then show ?thesis using assms(1) True \<open>n = 1\<close>
    by (simp add: unit_inv_def lock_sum_def upd_sema_def fin_stacks_def)
next
  case False
  then have "lock_sum l (upd_sema s (s_value_update (\<lambda>v. v - 1)) st) = lock_sum l st"
    by (simp add: lock_sum_def upd_sema_def)
  then show ?thesis using assms(1) False by (simp add: unit_inv_def fin_stacks_def)
qed

lemma unit_sema_down_test:
  assumes u: "unit_inv l 1 st" and ok: "down_ok t s ret" and ex: "sema_down_test s lvl ret st = Some st'"
  shows "unit_inv l 1 st'"
proof (cases "s_value (semas st s) = 0")
  case True
  obtain t where t: "thread_block (push_frames [Sema_Test s lvl ret]
      (upd_sema s (s_waiters_update (ins_ord (compare_thread_priority st) t)) st)) = Some st'"
    using ex True by (auto simp: sema_down_test_def bind_Some_iff Let_def)
  have "locks_eq st (upd_sema s (s_waiters_update (ins_ord (compare_thread_priority st) t)) st)"
    by (rule locks_eq_waiters) simp
  then show ?thesis using unit_eq[OF unit_push0[OF unit_eq'[OF u]] thread_block_locks[OF t]] by simp
next
  case False
  let ?st1 = "upd_sema s (s_value_update (\<lambda>v. v - 1)) st"
  obtain st2 where st2: "intr_set_level lvl ?st1 = Some st2"
    "st' = (case ret of None \<Rightarrow> st2 | Some k \<Rightarrow> push_frames [Set_Holder k] st2)"
    using ex False by (auto simp: sema_down_test_def Let_def bind_Some_iff)
  have u2: "unit_inv l (1 - (if s = LockSema l then 1 else 0)) st2"
    using unit_eq'[OF unit_take[OF u False] locks_eq_intr_set_level[OF st2(1)]] by simp
  show ?thesis
  proof (cases ret)
    case None
    then have "s \<noteq> LockSema l" using ok by (cases s) auto
    then show ?thesis using u2 st2(2) None by simp
  next
    case (Some k)
    then have "s = LockSema k" using ok by (cases s) auto
    then show ?thesis using unit_push[OF u2, of "[Set_Holder k]"] st2(2) Some by (auto split: if_splits)
  qed
qed

lemma unit_holder:
  assumes "unit_inv l n st"
  shows "unit_inv l (n - (if k = l \<and> lock_holder st l \<noteq> None then 1 else 0) + (if k = l \<and> h \<noteq> None then 1 else 0))
    (st\<lparr>lock_holder := (lock_holder st)(k := h)\<rparr>)"
  using assms by (auto simp: unit_inv_def lock_sum_def fin_stacks_def)

section \<open>Every step keeps it\<close>

lemma exec_unit:
  assumes u: "unit_inv l n st" and n: "n + (if has_unit l f then 1 else 0) = 1"
    and ok: "frame_ok (running st) f \<or> (\<exists>k v. f = Sema_Init k v) \<or> f = Thread_Exit \<or> (\<exists>pg nm pr b. f = Thread_Create pg nm pr b)"
    and tl: "\<And>p b. f = Create_Tail p b \<Longrightarrow> kstack st p = []"
    and ex: "exec f st = Some st'"
  shows "unit_inv l 1 st'"
proof (cases f)
  case (Set_Level b)
  then show ?thesis using unit_eq'[OF u] ex n locks_eq_intr_set_level by auto
next
  case Yield_Call
  then show ?thesis using unit_yield[OF u] ex n by auto
next
  case Super_Yield
  then show ?thesis using u unit_push0[OF u] ex n
    by (auto simp: thread_super_yield_read_def split: list.splits)
next
  case (Yield_If_Lower t)
  then show ?thesis using unit_super_yield_cmp[OF u] ex n by auto
next
  case (Sema_Down s ret)
  then have "st' = push_frames [Sema_Test s (intr_on st) ret] (intr_disable st)"
    using ex by (auto simp: sema_down_def intr_get_level_def Let_def split: if_splits)
  then show ?thesis using unit_push0[OF unit_eq'[OF u locks_eq_fields(17)]] n Sema_Down by simp
next
  case (Sema_Test s lvl ret)
  then show ?thesis using unit_sema_down_test[of l st "running st" s ret lvl st'] u n ok ex by auto
next
  case (Sema_Up s)
  then obtain st1 where st1: "sema_up_body s st = Some st1" "st' = push_frames [Super_Yield] st1"
    using ex by (auto simp: sema_up_def bind_Some_iff)
  have h: "has_unit l f = (s = LockSema l)" using Sema_Up by (cases s) auto
  then have "unit_inv l (n + (if s = LockSema l then 1 else 0)) st1"
    using unit_sema_up_body[OF u _ st1(1)] n by simp
  then have "unit_inv l 1 st1" using n h by simp
  from unit_push0[OF this, of "[Super_Yield]"] show ?thesis by (simp add: st1(2))
next
  case (Sema_Init k v)
  have "locks_eq st (upd_sema (OtherSema k) (\<lambda>_. \<lparr>s_value = v, s_waiters = []\<rparr>) st)"
    by (rule locks_eq_other_sema) simp
  then show ?thesis using unit_eq'[OF u] ex n Sema_Init by (simp add: sema_init_def)
next
  case (Lock_Acquire k)
  then have "st' = push_frames ((if lock_holder st k \<noteq> None \<and> \<not> thread_mlfqs st then [Donate k] else [])
      @ [Sema_Down (LockSema k) (Some k)]) st"
    using ex by (auto simp: lock_acquire_def bind_Some_iff split: if_splits)
  then show ?thesis using unit_push0[OF u] n Lock_Acquire by auto
next
  case (Donate k)
  then show ?thesis using unit_eq'[OF u postD[OF locks.donation_R]] ex n by auto
next
  case (Set_Holder k)
  then obtain t where st': "st' = st\<lparr>lock_holder := (lock_holder st)(k := Some t)\<rparr>"
    using ex by (auto simp: lock_set_holder_def bind_Some_iff)
  have "lock_holder st l = None" if "k = l" using u n Set_Holder that by (auto simp: unit_inv_def lock_sum_def split: if_splits)
  then show ?thesis using unit_holder[OF u, of k "Some t"] n Set_Holder st' by (auto split: if_splits)
next
  case (Lock_Try k)
  then have "n = 1" using n by simp
  consider (got) "s_value (semas st (LockSema k)) \<noteq> 0"
      "st' = push_frames [Set_Holder k] (upd_sema (LockSema k) (s_value_update (\<lambda>v. v - 1)) st)" | (no) "st' = st"
    using ex Lock_Try by (auto simp: lock_try_acquire_def sema_try_down_def bind_Some_iff word_gt_0 split: if_splits)
  then show ?thesis
  proof cases
    case got
    have "unit_inv l (n - (if LockSema k = LockSema l then 1 else 0) + length (filter (has_unit l) [Set_Holder k])) st'"
      unfolding got(2) by (rule unit_push[OF unit_take[OF u got(1)]]) (simp_all add: \<open>n = 1\<close>)
    then show ?thesis using \<open>n = 1\<close> by (auto split: if_splits)
  next
    case no
    then show ?thesis using u \<open>n = 1\<close> by simp
  qed
next
  case (Lock_Release k)
  then have st': "st' = push_frames [Release_Test k, Sema_Up (LockSema k)] (st\<lparr>lock_holder := (lock_holder st)(k := None)\<rparr>)"
    and h: "lock_holder st k \<noteq> None"
    using ex by (auto simp: lock_release_def lock_held_by_current_thread_def bind_Some_iff Let_def split: if_splits)
  have "unit_inv l (n - (if k = l \<and> lock_holder st l \<noteq> None then 1 else 0) + 0) (st\<lparr>lock_holder := (lock_holder st)(k := None)\<rparr>)"
    using unit_holder[OF u, of k None] by simp
  from unit_push[OF this, of "[Release_Test k, Sema_Up (LockSema k)]"]
  show ?thesis using n Lock_Release st' h by (auto split: if_splits)
next
  case (Release_Test k)
  then have "st' = st \<or> st' = push_frames [Donate_Back k] st"
    using ex by (auto simp: lock_release_test_def bind_Some_iff split: if_splits)
  then show ?thesis using u unit_push0[OF u] n Release_Test by auto
next
  case (Donate_Back k)
  then show ?thesis using unit_eq'[OF u postD[OF locks.donation_back_R]] ex n by auto
next
  case (Cond_Wait c k)
  let ?st1 = "sema_init (CondSema (running st)) 0 st"
  obtain ws where st': "st' = push_frames [Lock_Release k, Sema_Down (CondSema (running st)) None, Lock_Acquire k]
      (?st1\<lparr>cond_waiters := (cond_waiters ?st1)(c := ws)\<rparr>)"
    using ex Cond_Wait by (auto simp: cond_wait_def bind_Some_iff thread_current_Some Let_def split: if_splits)
  have "locks_eq st ?st1" unfolding sema_init_def by (rule locks_eq_other_sema) simp
  from unit_push0[OF unit_eq'[OF u locks_eq_trans[OF this locks_eq_fields(1)]]] show ?thesis
    using n Cond_Wait st' by simp
next
  case (Cond_Signal c k)
  then have "st' = st \<or> (\<exists>w ws. st' = push_frames [Sema_Up (CondSema w)] (st\<lparr>cond_waiters := (cond_waiters st)(c := ws)\<rparr>))"
    using ex by (auto simp: cond_signal_def bind_Some_iff split: if_splits list.splits)
  then show ?thesis using u unit_push0[OF unit_eq'[OF u locks_eq_fields(1)]] n Cond_Signal by auto
next
  case (Cond_Broadcast c k)
  then have "st' = st \<or> st' = push_frames [Cond_Signal c k, Cond_Broadcast c k] st"
    using ex by (auto simp: cond_broadcast_def split: if_splits)
  then show ?thesis using u unit_push0[OF u] n Cond_Broadcast by auto
next
  case (Thread_Start p)
  have "locks_eq st (upd_sema (OtherSema 0) (\<lambda>_. \<lparr>s_value = 0, s_waiters = []\<rparr>) st)"
    by (rule locks_eq_other_sema) simp
  then show ?thesis using unit_push0[OF unit_eq'[OF u]] ex n Thread_Start by (auto simp: thread_start_def Let_def)
next
  case (Thread_Create pg nm pr b)
  show ?thesis
  proof (cases pg)
    case None
    then show ?thesis using ex Thread_Create u n by (simp add: thread_create_def)
  next
    case (Some p)
    then obtain st1 st2 where s: "init_thread p nm pr st = Some st1" "inherit_mlfqs p st1 = Some st2"
      "st' = push_frames (allocate_tid p @ [Create_Tail p b]) st2"
      using ex Thread_Create by (auto simp: thread_create_def bind_Some_iff)
    have "locks_eq st st1" using s(1) by (auto simp: init_thread_def Let_def locks_eq_def upd_sema_def split: if_splits)
    then have "unit_inv l n st2" using unit_eq'[OF u] locks_eq_trans postD[OF locks.inherit_mlfqs_R s(2)] by blast
    from unit_push0[OF this] show ?thesis using n Thread_Create by (simp add: s(3) allocate_tid_def)
  qed
next
  case (Alloc_Tid t)
  then show ?thesis using unit_eq'[OF u locks.allocate_tid_R] ex n by auto
next
  case (Create_Tail p b)
  then obtain st1 st2 st3 st4 where s: "alloc_frame p 12 st = Some st1" "alloc_frame p 4 st1 = Some st2"
    "alloc_frame p 28 st2 = Some st3"
    "thread_unblock p (st3\<lparr>kstack := (kstack st3)(p := [Kernel_Thread b])\<rparr>) = Some st4"
    "st' = push_frames [Super_Yield] st4"
    using ex by (auto simp: thread_create_tail_def Let_def bind_Some_iff)
  let ?st3 = "st3\<lparr>kstack := (kstack st3)(p := [Kernel_Thread b])\<rparr>"
  have e3: "locks_eq st st3" using s(1-3) locks.alloc_frame_R locks_eq_trans by blast
  then have u3: "unit_inv l n st3" and K: "kstack st3 p = []" using unit_eq'[OF u] tl[OF Create_Tail] by (auto simp: locks_eq_def)
  have "unit_inv l n ?st3"
    using u3 frames_count_new[of "kstack st3" p "has_unit l" "Kernel_Thread b"] K
    unfolding unit_inv_def lock_sum_def fin_stacks_def by (simp add: finite_upd_stack del: fun_upd_apply)
  from unit_push0[OF unit_eq'[OF this thread_unblock_locks[OF s(4)]]] show ?thesis
    using n Create_Tail by (simp add: s(5))
next
  case (Kernel_Thread b)
  then obtain st1 where st1: "intr_enable st = Some st1"
    "st' = (case b of Idle s \<Rightarrow> push_frames [Idle_Start s] st1 | Any_Function \<Rightarrow> st1)"
    using ex by (cases b) (auto simp: kernel_thread_def bind_Some_iff)
  have "unit_inv l n st1" using unit_eq'[OF u] st1(1) by (auto simp: intr_enable_def split: if_splits)
  then show ?thesis using unit_push0[of l n st1] n Kernel_Thread st1(2) by (cases b) auto
next
  case (Idle_Start s)
  then have st': "st' = push_frames [Sema_Up s, Idle_Loop] (st\<lparr>idle_thread := Some (running st)\<rparr>)"
    using ex by (auto simp: idle_start_def bind_Some_iff thread_current_Some)
  obtain k where "s = OtherSema k" using ok Idle_Start by auto
  then show ?thesis unfolding st' using unit_push0[OF unit_eq'[OF u locks_eq_fields(16)]] n Idle_Start by auto
next
  case Idle_Loop
  then have "thread_block (push_frames [Set_Level True, Idle_Loop] (intr_disable st)) = Some st'"
    using ex by (simp add: idle_loop_def)
  from unit_eq[OF unit_push0[OF unit_eq'[OF u locks_eq_fields(17)]] thread_block_locks[OF this]]
  show ?thesis using n Idle_Loop by simp
next
  case Thread_Exit
  have "post (locks_eq' st) (thread_exit st)"
    unfolding thread_exit_def Let_def ASSERT_bind post_basic post_upd_thread
    by (intro conjI allI impI post_lookup postI, drule schedule_locks)
       (simp_all add: locks_eq'_def intr_disable_def)
  then have "locks_eq' st st'" using ex Thread_Exit by (simp add: post_basic)
  then show ?thesis using unit_eq[OF u] n Thread_Exit by simp
next
  case (Set_Priority p)
  then show ?thesis using locks.set_priority_R[of p st st'] ex u unit_push0[OF unit_eq'[OF u]] n by auto
next
  case (Set_Nice p)
  then show ?thesis using locks.set_nice_R[of p st st'] ex unit_push0[OF unit_eq'[OF u]] n by auto
next
  case (Timer_Sleep m)
  then show ?thesis using ex u unit_push0[OF u] n by (auto simp: timer_sleep_def split: if_splits)
next
  case (Sleep_Until w)
  obtain st1 where st1: "upd_thread (running st) (t_wakeup_time_update (\<lambda>_. w)) st = Some st1"
    "st' = push_frames [Sema_Down (ThreadSema (running st)) None] (st1\<lparr>sleep_list := sleep_list st1 @ [running st]\<rparr>)"
    using ex Sleep_Until by (auto simp: sleep_until_def bind_Some_iff Let_def thread_current_Some)
  have "locks_eq st (st1\<lparr>sleep_list := sleep_list st1 @ [running st]\<rparr>)"
    using locks_eq_trans[OF locks_eq_upd_thread[OF st1(1)] locks_eq_fields(7)] .
  from unit_push0[OF unit_eq'[OF u this]] show ?thesis using n Sleep_Until st1(2) by simp
qed

lemma tick_priorities_unit: "unit_inv l n st \<Longrightarrow> post (unit_inv l n) (tick_priorities st)"
proof -
  assume u: "unit_inv l n st"
  let ?s = "st\<lparr>calc_ticks := calc_ticks st + 1\<rparr>"
  have s: "unit_inv l n ?s" using unit_eq'[OF u locks_eq_fields(3)] .
  have "post (\<lambda>st. post (unit_inv l n) (thread_super_yield_intr (st\<lparr>calc_ticks := 0\<rparr>)))
      (foreach_loop calc_priority (all_list ?s) ?s)"
  proof (rule post_mono[OF locks.foreach_R[OF locks.calc_R(1)]])
    fix st1 assume "locks_eq ?s st1"
    then have "unit_inv l n (st1\<lparr>calc_ticks := 0\<rparr>)" using unit_eq'[OF unit_eq'[OF s] locks_eq_fields(3)] by blast
    then show "post (unit_inv l n) (thread_super_yield_intr (st1\<lparr>calc_ticks := 0\<rparr>))"
      by (rule unit_super_yield_intr)
  qed
  then show ?thesis using s unfolding tick_priorities_def Let_def post_basic(3,4) by (simp add: post_basic(1))
qed

lemma thread_tick_unit: "unit_inv l n st \<Longrightarrow> post (unit_inv l n) (thread_tick st)"
proof (rule postI)
  fix st' assume u: "unit_inv l n st" and ex: "thread_tick st = Some st'"
  then obtain t st1 st2 where s: "tick_count t st = Some st1"
    "(if thread_mlfqs st1 then Option.bind (tick_priorities st1) tick_averages else Some st1) = Some st2"
    "tick_slice t st2 = Some st'"
    by (auto simp: thread_tick_def bind_Some_iff)
  have i1: "unit_inv l n st1" using unit_eq'[OF u postD[OF locks.tick_count_R s(1)]] .
  have i2: "unit_inv l n st2"
  proof (cases "thread_mlfqs st1")
    case True
    then obtain st3 where s3: "tick_priorities st1 = Some st3" "tick_averages st3 = Some st2"
      using s(2) by (auto simp: bind_Some_iff)
    show ?thesis
      using unit_eq'[OF postD[OF tick_priorities_unit[OF i1] s3(1)] postD[OF locks.tick_averages_R s3(2)]] .
  qed (use s(2) i1 in simp)
  show "unit_inv l n st'" using unit_eq'[OF i2 postD[OF locks.tick_slice_R s(3)]] .
qed

lemma sema_up_intr_unit:
  assumes "unit_inv l n st"
  shows "post (unit_inv l n) (sema_up_intr (ThreadSema t) st)"
proof -
  have "post (unit_inv l n) (sema_up_body (ThreadSema t) st)"
  proof (rule postI)
    fix st1 assume "sema_up_body (ThreadSema t) st = Some st1"
    then have "locks_eq st st1" using locks_eq_trans[OF locks_eq_other_sema sema_up_body_value] by blast
    then show "unit_inv l n st1" by (rule unit_eq'[OF assms])
  qed
  then show ?thesis unfolding sema_up_intr_def post_basic(3)
    by (rule post_mono) (rule unit_super_yield_intr)
qed

lemma wake_loop_unit: "unit_inv l n st \<Longrightarrow> post (\<lambda>(rest, st'). unit_inv l n st') (wake_loop ts st)"
proof (induction ts arbitrary: st)
  case (Cons t ts)
  have a: "post (\<lambda>st'. post (\<lambda>(rest, st'). unit_inv l n st') (wake_loop ts st')) (sema_up_intr (ThreadSema t) st)"
    by (rule post_mono[OF sema_up_intr_unit[OF Cons.prems]]) (rule Cons.IH)
  have b: "post (\<lambda>x. post (\<lambda>(rest, st'). unit_inv l n st') (case x of (rest, st) \<Rightarrow> Some (t # rest, st))) (wake_loop ts st)"
    by (rule post_mono[OF Cons.IH[OF Cons.prems]]) (auto simp: post_basic)
  show ?case unfolding wake_loop.simps post_basic(3,4)
    by (intro post_lookup conjI impI a b)
qed (simp add: post_basic)

lemma intr_handler_timer_unfold:
  assumes ex: "intr_handler timer_interrupt st = Some st'"
  obtains rest st3 st4 where
    "wake_loop (sleep_list st) ((push_frames [Set_Level True] (st\<lparr>intr_on := False\<rparr>))\<lparr>in_external_intr := True,
       yield_on_return := False, timer_count := wrap64 (timer_count st + 1)\<rparr>) = Some (rest, st3)"
    "thread_tick (st3\<lparr>sleep_list := rest\<rparr>) = Some st4" "intr_on st4 = False"
    "(if yield_on_return st4 then thread_yield (st4\<lparr>in_external_intr := False\<rparr>)
      else Some (st4\<lparr>in_external_intr := False\<rparr>)) = Some st'"
  using ex by (auto simp: intr_handler_def timer_interrupt_def Let_def bind_Some_iff intr_get_level_def split: if_splits)

lemma timer_unit:
  assumes u: "unit_inv l n st" and ex: "intr_handler timer_interrupt st = Some st'"
  shows "unit_inv l n st'"
proof -
  let ?st2 = "(push_frames [Set_Level True] (st\<lparr>intr_on := False\<rparr>))\<lparr>in_external_intr := True,
       yield_on_return := False, timer_count := wrap64 (timer_count st + 1)\<rparr>"
  obtain rest st3 st4 where s: "wake_loop (sleep_list st) ?st2 = Some (rest, st3)"
    "thread_tick (st3\<lparr>sleep_list := rest\<rparr>) = Some st4"
    "(if yield_on_return st4 then thread_yield (st4\<lparr>in_external_intr := False\<rparr>)
      else Some (st4\<lparr>in_external_intr := False\<rparr>)) = Some st'"
    using intr_handler_timer_unfold[OF ex] by metis
  have "unit_inv l n ?st2"
    using unit_eq'[OF unit_eq'[OF unit_push0[OF unit_eq'[OF u locks_eq_fields(8)], of "[Set_Level True]"]
          locks_eq_fields(18)] locks_eq_fields(6)] by simp
  then have "unit_inv l n st3" using postD[OF wake_loop_unit s(1)] by simp
  then have "unit_inv l n (st4\<lparr>in_external_intr := False\<rparr>)"
    using unit_eq'[OF postD[OF thread_tick_unit[OF unit_eq'[OF _ locks_eq_fields(7)]] s(2)] locks_eq_fields(9)] by blast
  then show ?thesis using s(3) unit_yield by (auto split: if_splits)
qed

lemma pending_create_stack:
  assumes inv: "sched_inv st" and f: "Create_Tail p b \<in> set (kstack st (running st))"
  shows "kstack st p = [] \<and> status_map st p = Some THREAD_BLOCKED"
proof -
  have w: "wf_pending (status_map st) (idle_thread st) (kstack st)" and fin: "finite {t. kstack st t \<noteq> []}"
    using inv by (auto simp: sched_inv_def WF_def sched_wf_def wf_stack_def)
  have "0 < frames_count (creates p) (kstack st)"
    by (rule frames_count_mem[where f = "Create_Tail p b" and t = "running st"]) (use fin f in simp_all)
  then have "frames_count (creates p) (kstack st) = 1"
    using w unfolding wf_pending_def by (metis le_antisym less_eq_Suc_le One_nat_def)
  then show ?thesis using w unfolding wf_pending_def by blast
qed

lemma kstep_unit:
  assumes inv: "sched_inv st" and u: "unit_inv l 1 st" and s: "kstep st st'"
  shows "unit_inv l 1 st'"
  using s
proof cases
  case frame
  then obtain f fs where K: "kstack st (running st) = f # fs"
    and ex: "exec f (st\<lparr>kstack := (kstack st)(running st := fs)\<rparr>) = Some st'"
    by (auto simp: run_frame_def split: list.splits)
  let ?st0 = "st\<lparr>kstack := (kstack st)(running st := fs)\<rparr>"
  have fin: "finite {t. kstack st t \<noteq> []}" using u by (simp add: unit_inv_def fin_stacks_def)
  have "frames_count (has_unit l) (kstack st) =
      frames_count (has_unit l) ((kstack st)(running st := fs)) + (if has_unit l f then 1 else 0)"
    by (rule frames_count_pop[OF fin K])
  then have sum: "lock_sum l ?st0 + (if has_unit l f then 1 else 0) = 1"
    using u by (simp add: unit_inv_def lock_sum_def)
  have u0: "unit_inv l (lock_sum l ?st0) ?st0"
    using fin unfolding unit_inv_def fin_stacks_def by (simp add: finite_upd_stack del: fun_upd_apply)
  have ok: "frame_ok (running ?st0) f" using at_frame_ok[OF popped_at_frame[OF inv K]] .
  show ?thesis
  proof (rule exec_unit[OF u0 sum _ _ ex])
    fix p b assume "f = Create_Tail p b"
    then have "kstack st p = []" using pending_create_stack[OF inv, of p b] K by simp
    then show "kstack ?st0 p = []" using K by auto
  qed (use ok in blast)
next
  case (call f)
  then have "frame_ok (running st) f \<or> (\<exists>k v. f = Sema_Init k v) \<or> f = Thread_Exit \<or> (\<exists>pg nm pr b. f = Thread_Create pg nm pr b)"
    "\<not> has_unit l f" "\<And>p b. f \<noteq> Create_Tail p b"
    by (cases f rule: frame.exhaust; force elim: api_call.elims)+
  then show ?thesis using exec_unit[OF u _ _ _ call(3)] by auto
next
  case tick
  then show ?thesis using timer_unit[OF u] by blast
qed

theorem reachable_unit: "reachable st \<Longrightarrow> lock_sum l st = 1"
proof -
  assume "reachable st"
  then have "unit_inv l 1 st"
  proof (induction rule: reachable.induct)
    case (init m i q st)
    note b = boot_state[OF init(2)]
    have fin: "finite {t. (\<lambda>_::tptr. []::frame list) t \<noteq> []}" by simp
    have "frames_count (has_unit l) ((\<lambda>_. [])(m := allocate_tid m @ [Thread_Start i])) = 0"
      using frames_count_upd[OF fin, of "has_unit l" m "allocate_tid m @ [Thread_Start i]"]
      by (simp add: frames_count_def allocate_tid_def)
    then show ?case using b fin
      unfolding unit_inv_def lock_sum_def fin_stacks_def by (simp add: finite_upd_stack del: fun_upd_apply)
  next
    case (step st st')
    then show ?case using kstep_unit reachable_inv by blast
  qed
  then show ?thesis by (simp add: unit_inv_def)
qed

end
