(* ===== verification/SchedProps.thy ===== *)
theory SchedProps
  imports LockInv
begin

text \<open>
  What the invariants of theories SchedInv and LockInv say of the running system: which list a
  thread is on, which lock it may hold; with concrete executions from the boot state.
\<close>

section \<open>Concrete executions\<close>

text \<open>The kernel booted on page 1, with page 2 for the idle thread, after \<open>n\<close> frames.\<close>

definition demo_run :: "bool \<Rightarrow> nat \<Rightarrow> kst option" where
  "demo_run mlfqs n = do { st \<leftarrow> boot 1 2 mlfqs; run_frames n st }"

lemma demo_run_reachable: "demo_run q n = Some st \<Longrightarrow> reachable st"
proof -
  assume "demo_run q n = Some st"
  then obtain st0 where st0: "boot 1 2 q = Some st0" "run_frames n st0 = Some st"
    by (auto simp: demo_run_def bind_Some_iff)
  have "reachable st0" by (rule reachable.init[OF _ st0(1)]) simp
  then show "reachable st" by (rule run_frames_reachable[OF _ st0(2)])
qed

text \<open>After four frames the main thread holds the lock of \<open>allocate_tid\<close>.\<close>

lemma demo_run_4: "map_option (\<lambda>st. (running st, lock_holder st tid_lock, ready_list st, all_list st)) (demo_run False 4)
    = Some (1, Some 1, [], [1])"
  by code_simp

section \<open>Where a thread is\<close>

text \<open>C2: in every reachable state of the kernel the current thread is the only running one, the
  ready list has exactly the threads that are ready to run, without repetition (the idle thread,
  once it exists, is never on it), and \<open>all_list\<close> has exactly the threads that are not dying.\<close>

theorem threads_accounted_for:
  assumes "reachable st"
  shows "(status_of st t = Some THREAD_RUNNING \<longleftrightarrow> t = running st) \<and>
    distinct (ready_list st) \<and>
    (t \<in> set (ready_list st) \<longleftrightarrow> status_of st t = Some THREAD_READY \<and> idle_thread st \<noteq> Some t) \<and>
    distinct (all_list st) \<and>
    (t \<in> set (all_list st) \<longleftrightarrow> status_of st t \<in> Some ` {THREAD_RUNNING, THREAD_READY, THREAD_BLOCKED})"
proof -
  have inv: "sched_inv st" using assms by (rule reachable_inv)
  have R: "wf_ready (status_map st) (ready_list st) (idle_thread st)"
    and I: "wf_idle (status_map st) (ready_list st) (idle_thread st) (kstack st)"
    and A: "wf_all (status_map st) (all_list st)"
    and U: "wf_run (status_map st) (running st) (initial_thread st)"
    using inv unfolding sched_inv_def WF_def sched_wf_def by blast+
  have 1: "status_of st t = Some THREAD_RUNNING \<longleftrightarrow> t = running st"
    using U by (simp add: wf_run_def status_map_def)
  have 2: "distinct (ready_list st)"
    "t \<in> set (ready_list st) \<longleftrightarrow> status_of st t = Some THREAD_READY \<and> idle_thread st \<noteq> Some t"
    using R I unfolding wf_ready_def wf_idle_def status_map_def by blast+
  have 3: "distinct (all_list st)"
    "t \<in> set (all_list st) \<longleftrightarrow> status_of st t \<noteq> None \<and> status_of st t \<noteq> Some THREAD_DYING"
    using A unfolding wf_all_def status_map_def by auto
  have "x \<noteq> None \<and> x \<noteq> Some THREAD_DYING \<longleftrightarrow> x \<in> Some ` {THREAD_RUNNING, THREAD_READY, THREAD_BLOCKED}"
    for x by (cases x; cases "the x") auto
  note 4 = this[of "status_of st t"]
  show ?thesis by (intro conjI 1 2 3(1)) (simp only: 3(2) 4)
qed

theorem threads_accounted_for_witness:
  "\<exists>st. demo_run False 4 = Some st \<and> status_of st 1 = Some THREAD_RUNNING \<and> 1 \<notin> set (ready_list st)"
proof -
  obtain st where st: "demo_run False 4 = Some st" "running st = 1" using demo_run_4 by auto
  then have "status_of st 1 = Some THREAD_RUNNING" "1 \<notin> set (ready_list st)"
    using threads_accounted_for[OF demo_run_reachable[OF st(1)], of 1] by auto
  then show ?thesis using st(1) by blast
qed

text \<open>C3: in every reachable state a thread in a semaphore's waiting list is blocked inside
  \<open>sema_down\<close> of that very semaphore, so that no thread waits for two semaphores, and the waiting
  lists have no repetitions; and a blocked thread waits for a semaphore, is the idle thread, or is
  still being set up by \<open>thread_create\<close>, so that none is lost.\<close>

theorem waiters_accounted_for:
  assumes "reachable st"
  shows "distinct (s_waiters (semas st s)) \<and>
    (t \<in> set (s_waiters (semas st s)) \<longrightarrow> status_of st t = Some THREAD_BLOCKED \<and>
       (\<forall>s'. t \<in> set (s_waiters (semas st s')) \<longrightarrow> s' = s)) \<and>
    (status_of st t = Some THREAD_BLOCKED \<longrightarrow>
       (\<exists>s'. t \<in> set (s_waiters (semas st s'))) \<or> idle_thread st = Some t \<or>
       (\<exists>u body. Create_Tail t body \<in> set (kstack st u)))"
proof -
  have inv: "sched_inv st" using assms by (rule reachable_inv)
  have W: "wf_wait (status_map st) (waiters_map st) (kstack st)"
    and B: "wf_blocked (status_map st) (waiters_map st) (idle_thread st) (kstack st)"
    using inv unfolding sched_inv_def WF_def sched_wf_def by blast+
  have "s' = s''" if "t \<in> set (waiters_map st s')" "t \<in> set (waiters_map st s'')" for s' s''
    using wf_waitD(2)[OF W that(1)] wf_waitD(2)[OF W that(2)] by auto
  moreover have "\<exists>u body. Create_Tail t body \<in> set (kstack st u)" if c: "0 < frames_count (creates t) (kstack st)"
  proof -
    have "\<exists>u. filter (creates t) (kstack st u) \<noteq> []"
    proof (rule ccontr)
      assume "\<nexists>u. filter (creates t) (kstack st u) \<noteq> []"
      then have "frames_count (creates t) (kstack st) = 0" unfolding frames_count_def by simp
      then show False using c by simp
    qed
    then obtain u f where "f \<in> set (kstack st u)" "creates t f" by (auto simp: filter_empty_conv)
    moreover have "\<exists>body. f = Create_Tail t body" using \<open>creates t f\<close> by (auto elim: creates.elims)
    ultimately show ?thesis by blast
  qed
  moreover have "status_of st t = Some THREAD_BLOCKED \<Longrightarrow>
      (\<exists>s. t \<in> set (waiters_map st s)) \<or> idle_thread st = Some t \<or> 0 < frames_count (creates t) (kstack st)"
    using B unfolding wf_blocked_def status_map_def by (elim allE impE)
  moreover have "distinct (waiters_map st s)"
    "t \<in> set (waiters_map st s) \<Longrightarrow> status_of st t = Some THREAD_BLOCKED"
    using wf_waitD(1,3)[OF W] by (simp_all add: status_map_def)
  ultimately show ?thesis unfolding waiters_map_def[symmetric] by metis
qed

text \<open>The main thread blocks on \<open>idle_started\<close> and the idle thread runs.\<close>

lemma demo_run_26: "map_option (\<lambda>st. (running st, s_waiters (semas st (OtherSema 0)), status_of st 1)) (demo_run False 26)
    = Some (2, [1], Some THREAD_BLOCKED)"
  by code_simp

theorem waiters_accounted_for_witness:
  "\<exists>st. demo_run False 26 = Some st \<and> s_waiters (semas st (OtherSema 0)) = [1] \<and>
    1 \<notin> set (s_waiters (semas st (OtherSema 1)))"
proof -
  obtain st where st: "demo_run False 26 = Some st" "s_waiters (semas st (OtherSema 0)) = [1]"
    using demo_run_26 by auto
  then have "1 \<notin> set (s_waiters (semas st (OtherSema 1)))"
    using waiters_accounted_for[OF demo_run_reachable[OF st(1)], of "OtherSema 0" 1] by auto
  then show ?thesis using st by blast
qed

section \<open>Locks\<close>

text \<open>C1: in every reachable state a lock is free, or has one holder, or is in the hands of
  exactly one thread that is between the semaphore and the field \<open>holder\<close>: these three exclude one
  another, so two threads are never both inside a critical section, and a lock is never lost.\<close>

theorem lock_mutual_exclusion:
  assumes "reachable st"
  shows "s_value (semas st (LockSema l)) = 1 \<and> lock_holder st l = None \<and> (\<forall>t. \<forall>f\<in>set (kstack st t). \<not> has_unit l f) \<or>
    s_value (semas st (LockSema l)) = 0 \<and> lock_holder st l \<noteq> None \<and> (\<forall>t. \<forall>f\<in>set (kstack st t). \<not> has_unit l f) \<or>
    s_value (semas st (LockSema l)) = 0 \<and> lock_holder st l = None \<and>
      (\<exists>!t. \<exists>f\<in>set (kstack st t). has_unit l f)"
proof -
  have fin: "finite {t. kstack st t \<noteq> []}"
    using reachable_inv[OF assms] unfolding sched_inv_def WF_def by (blast dest: sched_wf_fin)
  have sum: "unat (s_value (semas st (LockSema l))) + (if lock_holder st l = None then 0 else 1) +
      frames_count (has_unit l) (kstack st) = 1"
    using reachable_unit[OF assms, of l] by (simp add: lock_sum_def)
  have none: "\<forall>t. \<forall>f\<in>set (kstack st t). \<not> has_unit l f" if "frames_count (has_unit l) (kstack st) = 0"
    using frames_count_zeroD[OF fin that] by blast
  have one: "\<exists>!t. \<exists>f\<in>set (kstack st t). has_unit l f" if c: "frames_count (has_unit l) (kstack st) = 1"
  proof -
    let ?T = "{t. kstack st t \<noteq> []}" and ?n = "\<lambda>t. length (filter (has_unit l) (kstack st t))"
    have "\<exists>t\<in>?T. ?n t = 1 \<and> (\<forall>u\<in>?T. t \<noteq> u \<longrightarrow> ?n u = 0)"
      using sum_eq_1_iff[OF fin, of ?n] c unfolding frames_count_def by blast
    then obtain t where t: "?n t = 1" "\<And>u. u \<in> ?T \<Longrightarrow> t \<noteq> u \<Longrightarrow> ?n u = 0" by blast
    have "\<exists>f\<in>set (kstack st t). has_unit l f" using t(1) by (metis One_nat_def filter_False list.size(3) n_not_Suc_n)
    moreover have "u = t" if "\<exists>f\<in>set (kstack st u). has_unit l f" for u
    proof (rule ccontr)
      assume "u \<noteq> t"
      moreover have "kstack st u \<noteq> []" using that by auto
      ultimately have "filter (has_unit l) (kstack st u) = []" using t(2)[of u] by simp
      then show False using that by (auto simp: filter_empty_conv)
    qed
    ultimately show ?thesis by blast
  qed
  have u: "unat x = 0 \<Longrightarrow> x = 0" "unat x = 1 \<Longrightarrow> x = 1" for x :: "32 word"
    by (metis unat_eq_0) (metis of_nat_1 of_nat_unat ucast_id)
  note v = u[of "s_value (semas st (LockSema l))"]
  show ?thesis
  proof (cases "lock_holder st l = None")
    case True
    have split: "a = 1 \<and> c = 0 \<or> a = 0 \<and> c = 1" if "a + c = 1" for a c :: nat
      using that by arith
    have "unat (s_value (semas st (LockSema l))) + frames_count (has_unit l) (kstack st) = 1"
      using sum by (simp only: True refl if_True add_0_right)
    from split[OF this] show ?thesis
      by (elim disjE conjE) (metis v none True, metis v one True)
  next
    case False
    have "a = 0 \<and> c = 0" if "a + 1 + c = 1" for a c :: nat using that by arith
    from this[OF sum[unfolded if_not_P[OF False]]] show ?thesis
      using v none False by metis
  qed
qed

theorem lock_mutual_exclusion_witness:
  "\<exists>st. demo_run False 4 = Some st \<and> lock_holder st tid_lock = Some 1 \<and>
    s_value (semas st (LockSema tid_lock)) = 0 \<and> (\<forall>t. Set_Holder tid_lock \<notin> set (kstack st t))"
proof -
  obtain st where st: "demo_run False 4 = Some st" "lock_holder st tid_lock = Some 1" using demo_run_4 by auto
  have "has_unit tid_lock (Set_Holder tid_lock)" by simp
  moreover have "s_value (semas st (LockSema tid_lock)) = 0 \<and> (\<forall>t. \<forall>f\<in>set (kstack st t). \<not> has_unit tid_lock f)"
    using lock_mutual_exclusion[OF demo_run_reachable[OF st(1)], of tid_lock] st(2) by auto
  ultimately show ?thesis using st by blast
qed

end
