(* ===== verification/PathSpec.thy ===== *)
theory PathSpec
  imports Filesys StringProps
begin

text \<open>
  The loops of \<open>get_containing_dir\<close> and \<open>get_filename\<close> over \<open>strtok_r\<close> go through the components of the path, and
  what the components of a path with repeated slashes are.
\<close>

section \<open>Components\<close>

definition path_tokens :: "byte list \<Rightarrow> byte list list" where
  "path_tokens path = tokens {ASCII_SLASH} path"

lemma tokens_skip: "d \<in> D \<Longrightarrow> tokens D (d # s) = tokens D s"
  by (subst (1 2) tokens.simps) simp

lemma split_at_delim: "d \<in> D \<Longrightarrow> takeWhile (\<lambda>c. c \<notin> D) (r @ d # v) = takeWhile (\<lambda>c. c \<notin> D) r \<and>
    dropWhile (\<lambda>c. c \<notin> D) (r @ d # v) = dropWhile (\<lambda>c. c \<notin> D) r @ d # v"
  by (induction r) auto

lemma tokens_append: "d \<in> D \<Longrightarrow> tokens D (u @ d # v) = tokens D u @ tokens D v"
proof (induction "length u" arbitrary: u rule: less_induct)
  case less
  let ?r = "dropWhile (\<lambda>c. c \<in> D) u"
  show ?case
  proof (cases "?r = []")
    case True
    then have "\<forall>c\<in>set u. c \<in> D" by simp
    then have "dropWhile (\<lambda>c. c \<in> D) (u @ d # v) = dropWhile (\<lambda>c. c \<in> D) v"
      using less.prems by (simp add: dropWhile_append2)
    then have "tokens D (u @ d # v) = tokens D v" by (subst (1 2) tokens.simps) simp
    then show ?thesis using tokens_Nil[OF True] by simp
  next
    case False
    let ?z = "dropWhile (\<lambda>c. c \<notin> D) ?r"
    obtain c where "c \<in> set u" "c \<notin> D" using False by auto
    then have e: "dropWhile (\<lambda>c. c \<in> D) (u @ d # v) = ?r @ d # v" by (rule dropWhile_append1)
    note tz = split_at_delim[OF less.prems, of ?r v]
    have h: "hd ?r \<notin> D" using hd_dropWhile[OF False] by simp
    obtain x xs where x: "?r = x # xs" using False by (cases ?r) auto
    have "length ?z < length ?r" using h x length_dropWhile_le[of "\<lambda>c. c \<notin> D" xs] by simp
    then have "length ?z < length u" using length_dropWhile_le[of "\<lambda>c. c \<in> D" u] by linarith
    from less.hyps[OF this less.prems]
    show ?thesis using False e conjunct1[OF tz] conjunct2[OF tz] by (subst tokens.simps, subst (2) tokens.simps) (simp add: Let_def del: dropWhile_eq_Nil_conv)
  qed
qed

section \<open>The loops\<close>

text \<open>The \<open>while\<close> loop over a list of components.\<close>

primrec walk :: "byte list list \<Rightarrow> nat option \<Rightarrow> fsys \<Rightarrow> (nat option \<times> fsys) option" where
  "walk [] dir st = Some (dir, st)"
| "walk (t # ts) dir st = do {
     (r, st) \<leftarrow> walk_step t dir st;
     case r of None \<Rightarrow> Some (None, st) | Some dir \<Rightarrow> walk ts dir st }"

lemma string_at_cstr: "cstr m p s \<Longrightarrow> string_at p m = s"
proof (induction s arbitrary: p)
  case Nil
  then have "drop p m = 0 # drop (Suc p) m" using Cons_nth_drop_Suc[of p m] by (auto simp: rd_Some)
  then show ?case by (simp add: string_at_def)
next
  case (Cons c s)
  then have "drop p m = c # drop (Suc p) m" using Cons_nth_drop_Suc[of p m] by (auto simp: rd_Some)
  then show ?case using Cons by (simp add: string_at_def)
qed

text \<open>What is known while a copy of the path is split: the delimiters are intact, \<open>s\<close> is the rest of the path, which
  \<open>save_ptr\<close> points to, and the token before it is a complete string.\<close>

definition splitting :: "mem \<Rightarrow> addr \<Rightarrow> byte list \<Rightarrow> addr \<Rightarrow> byte list \<Rightarrow> bool" where
  "splitting m token tok a s \<longleftrightarrow> cstr m 1 [ASCII_SLASH] \<and> 2 \<le> token \<and> 3 \<le> a \<and> cstr m a s \<and> cstr m token tok \<and>
     token + length tok \<le> a \<and> (a = token + length tok \<longrightarrow> s = [])"

lemma splitting_round:
  assumes "splitting m token tok a s"
  shows "(tokens {ASCII_SLASH} s = [] \<and> strtok_r NULL 1 a m = Some (NULL, a + length s, m)) \<or>
    (\<exists>t save m1 tok1 z. strtok_r NULL 1 a m = Some (t, save, m1) \<and> t \<noteq> NULL \<and> splitting m1 t tok1 save z \<and> length z < length s \<and>
      cstr m1 token tok \<and> tokens {ASCII_SLASH} s = tok1 # tokens {ASCII_SLASH} z)"
proof -
  have a: "cstr m 1 [ASCII_SLASH]" "3 \<le> a" "cstr m a s" "cstr m token tok" "token + length tok \<le> a"
    "a = token + length tok \<longrightarrow> s = []" "2 \<le> token"
    using assms unfolding splitting_def by blast+
  have "1 + length [ASCII_SLASH] < a \<or> a + length s < 1" using a(2) by simp
  from strtok_r_round[OF a(1,3) this] show ?thesis
  proof (elim disjE exE conjE)
    assume "tokens (set [ASCII_SLASH]) s = []" "strtok_r NULL 1 a m = Some (NULL, a + length s, m)"
    then show ?thesis by simp
  next
    fix t save m1 tok1 z
    assume r: "strtok_r NULL 1 a m = Some (t, save, m1)" "t \<noteq> NULL" "tokens (set [ASCII_SLASH]) s = tok1 # tokens (set [ASCII_SLASH]) z"
      "a \<le> t" "t + length tok1 \<le> save" "save + length z = a + length s" "length z < length s" "cstr m1 t tok1" "cstr m1 save z"
      "save = t + length tok1 \<longrightarrow> z = []" "same_off m m1 a (a + length s)"
    have "cstr m1 1 [ASCII_SLASH]" by (rule same_off_cstr[OF r(11) a(1)]) (use a(2) in simp)
    moreover have "cstr m1 token tok"
      by (rule same_off_cstr[OF r(11) a(4)]) (use a(5,6) r(7) in auto)
    ultimately show ?thesis using r a(2) by (auto simp: splitting_def)
  qed
qed

lemma walk_loop_spec:
  "splitting m token tok a s \<Longrightarrow>
   Option.bind (strtok_r NULL 1 a m) (\<lambda>(t, save, m). walk_loop token t save m dir st) =
     walk (butlast (tok # tokens {ASCII_SLASH} s)) dir st"
proof (induction "length s" arbitrary: s m token tok a dir st rule: less_induct)
  case less
  from splitting_round[OF less.prems] consider
      (none) "tokens {ASCII_SLASH} s = []" "strtok_r NULL 1 a m = Some (NULL, a + length s, m)"
    | (some) t save m1 tok1 z where "strtok_r NULL 1 a m = Some (t, save, m1)" "t \<noteq> NULL" "splitting m1 t tok1 save z"
        "length z < length s" "cstr m1 token tok" "tokens {ASCII_SLASH} s = tok1 # tokens {ASCII_SLASH} z" by blast
  then show ?case
  proof cases
    case none
    then show ?thesis by (simp add: walk_loop.simps)
  next
    case some
    have IH: "\<And>dir st. Option.bind (strtok_r NULL 1 save m1) (\<lambda>(t', save, m). walk_loop t t' save m dir st) =
        walk (butlast (tok1 # tokens {ASCII_SLASH} z)) dir st"
      by (rule less.hyps[OF some(4,3)])
    have "(\<lambda>(r, st). if r = None then Some (None, st)
        else Option.bind (strtok_r NULL 1 save m1) (\<lambda>(t', save, m). walk_loop t t' save m (the r) st)) =
      (\<lambda>(r, st). case r of None \<Rightarrow> Some (None, st) | Some dir \<Rightarrow> walk (butlast (tok1 # tokens {ASCII_SLASH} z)) dir st)"
      by (intro ext) (simp only: IH split: prod.split option.split, simp)
    then have "walk_loop token t save m1 dir st = walk (tok # butlast (tok1 # tokens {ASCII_SLASH} z)) dir st"
      unfolding walk_loop.simps[of token] walk.simps string_at_cstr[OF some(5)] using some(2) by simp
    then show ?thesis using some(1,6) by simp
  qed
qed

lemma filename_loop_spec:
  "splitting m token tok a s \<Longrightarrow>
   \<exists>m' p. Option.bind (strtok_r NULL 1 a m) (\<lambda>(t, save, m). filename_loop t save token m) = Some (p, m') \<and>
     string_at p m' = last (tok # tokens {ASCII_SLASH} s)"
proof (induction "length s" arbitrary: s m token tok a rule: less_induct)
  case less
  from splitting_round[OF less.prems] consider
      (none) "tokens {ASCII_SLASH} s = []" "strtok_r NULL 1 a m = Some (NULL, a + length s, m)"
    | (some) t save m1 tok1 z where "strtok_r NULL 1 a m = Some (t, save, m1)" "t \<noteq> NULL" "splitting m1 t tok1 save z"
        "length z < length s" "tokens {ASCII_SLASH} s = tok1 # tokens {ASCII_SLASH} z" by blast
  then show ?case
  proof cases
    case none
    then show ?thesis using less.prems string_at_cstr[of m token tok] by (simp add: filename_loop.simps splitting_def)
  next
    case some
    then show ?thesis using less.hyps[OF some(4,3)] by (subst some(1)) (simp add: filename_loop.simps)
  qed
qed

lemma splitting_start: "0 \<notin> set path \<Longrightarrow> splitting (local_copy path) 2 [] 3 path"
proof -
  assume "0 \<notin> set path"
  then have "path ! i \<noteq> 0" if "i < length path" for i using nth_mem[OF that] by metis
  then have "cstr (local_copy path) 3 path"
    by (auto simp: cstr_iff rd_Some local_copy_def nth_append nth_Cons split: nat.splits)
  then show ?thesis by (simp add: splitting_def local_copy_def rd_def NULL_def ASCII_SLASH_def)
qed

lemma strtok_r_first: "p \<noteq> NULL \<Longrightarrow> strtok_r p d NULL m = strtok_r NULL d p m"
  by (simp add: strtok_r_def)

lemma get_filename_tokens:
  assumes "0 \<notin> set path" "heap_ok st"
  shows "get_filename path st = Some (if path_tokens path = [] then [] else last (path_tokens path))"
proof -
  obtain m' p where "Option.bind (strtok_r NULL 1 3 (local_copy path)) (\<lambda>(t, save, m). filename_loop t save 2 m) = Some (p, m')"
      "string_at p m' = last ([] # tokens {ASCII_SLASH} path)"
    using filename_loop_spec[OF splitting_start[OF assms(1)]] by blast
  then show ?thesis using assms(2) strtok_r_first[of 3 1 "local_copy path"]
    by (auto simp: get_filename_def path_tokens_def NULL_def bind_eq_Some_conv)
qed

lemma strtok_r_keeps_first:
  assumes "0 \<notin> set path" "strtok_r NULL 1 3 (local_copy path) = Some (t, save, m)"
  shows "rd m 3 = Some (if path = [] then 0 else hd path)"
proof -
  let ?m = "local_copy path" and ?r = "dropWhile (\<lambda>c. c \<in> set [ASCII_SLASH]) path"
  have sp: "cstr ?m 1 [ASCII_SLASH]" "cstr ?m 3 path" "1 + length [ASCII_SLASH] < 3 \<or> 3 + length path < 1"
    using splitting_start[OF assms(1)] by (simp_all add: splitting_def)
  have "m ! 3 = ?m ! 3 \<and> length m = length ?m"
  proof (cases "?r = []")
    case True
    then show ?thesis using strtok_r_spec[OF sp, of NULL 3] assms(2) by simp
  next
    case False
    then have l: "0 < length (takeWhile (\<lambda>c. c \<notin> set [ASCII_SLASH]) ?r)"
      by (metis hd_dropWhile length_greater_0_conv takeWhile_eq_Nil_iff)
    obtain t' save' m' where k: "strtok_r NULL 1 3 ?m = Some (t', save', m')" "3 \<le> t'" "length m' = length ?m"
      "\<forall>i<length ?m. i < t' + length (takeWhile (\<lambda>c. c \<notin> set [ASCII_SLASH]) ?r) \<or>
         t' + length (takeWhile (\<lambda>c. c \<notin> set [ASCII_SLASH]) ?r) < i \<longrightarrow> m' ! i = ?m ! i"
      using strtok_r_spec[OF sp, of NULL 3] unfolding if_not_P[OF False] by blast
    have "m' = m" using k(1) assms(2) by simp
    moreover have "3 < length ?m" by (simp add: local_copy_def)
    moreover have "3 < t' + length (takeWhile (\<lambda>c. c \<notin> set [ASCII_SLASH]) ?r)" using k(2) l by linarith
    ultimately show ?thesis using k(3,4) by blast
  qed
  then show ?thesis by (cases path) (simp_all add: rd_def NULL_def local_copy_def)
qed

lemma get_containing_dir_tokens:
  assumes "0 \<notin> set path"
  shows "get_containing_dir path st = do {
     (dir, st) \<leftarrow>
       (if (path \<noteq> [] \<and> hd path = ASCII_SLASH) \<or> cwd st = None then dir_open_root st
        else do { d \<leftarrow> cwd st; dir_reopen d st });
     walk (butlast (path_tokens path)) dir st }"
proof -
  let ?W = "\<lambda>t save m dir st. Option.bind (if t \<noteq> NULL then strtok_r NULL 1 save m else Some (NULL, save, m))
    (\<lambda>(nt, save, m). walk_loop t nt save m dir st)"
  note sp = splitting_start[OF assms]
  obtain t save m where t: "strtok_r NULL 1 3 (local_copy path) = Some (t, save, m)"
    and w: "\<And>dir st. ?W t save m dir st = walk (butlast (path_tokens path)) dir st"
  proof -
    from splitting_round[OF sp] consider
        (none) "tokens {ASCII_SLASH} path = []" "strtok_r NULL 1 3 (local_copy path) = Some (NULL, 3 + length path, local_copy path)"
      | (some) t save m1 tok1 z where "strtok_r NULL 1 3 (local_copy path) = Some (t, save, m1)" "t \<noteq> NULL" "splitting m1 t tok1 save z"
          "tokens {ASCII_SLASH} path = tok1 # tokens {ASCII_SLASH} z" by blast
    then show ?thesis
    proof cases
      case none
      then show ?thesis by (intro that[OF none(2)]) (simp add: walk_loop.simps path_tokens_def)
    next
      case some
      have "?W t save m1 dir st = walk (butlast (path_tokens path)) dir st" for dir st
        unfolding path_tokens_def some(4) walk_loop_spec[OF some(3), symmetric] using some(2) by simp
      then show ?thesis by (rule that[OF some(1)])
    qed
  qed
  have c: "(if path = [] then 0 else hd path) = ASCII_SLASH \<longleftrightarrow> path \<noteq> [] \<and> hd path = ASCII_SLASH"
    by (simp add: ASCII_SLASH_def)
  have f: "strtok_r 3 1 NULL (local_copy path) = Some (t, save, m)"
    using t strtok_r_first[of 3 1 "local_copy path"] by (simp add: NULL_def)
  show ?thesis
    unfolding get_containing_dir_def f strtok_r_keeps_first[OF assms t] Option.bind.simps prod.case c w ..
qed

end
