(* ===== verification/DirProps.thy ===== *)
theory DirProps
  imports FilesysProps PathSpec
begin

text \<open>
  Properties of directories and paths: what adding an entry does to later look-ups, that reading a
  directory lists its names, and what the path functions do with their components.
\<close>

section \<open>Adding and looking up\<close>

lemma find_open_lock:
  "inodes st a = Some ino \<Longrightarrow> find_open (st\<lparr>inodes := (inodes st)(a \<mapsto> ino\<lparr>i_locked := l\<rparr>)\<rparr>) s = find_open st s"
  unfolding find_open_def by (intro find_cong) auto

lemma entry_at_lock [simp]: "i_ptr (ino\<lparr>i_locked := l\<rparr>) = i_ptr ino"
  by simp

text \<open>C28: after \<open>dir_add\<close> has entered a new name into a directory with a free slot, \<open>lookup\<close> finds that
  name with its sector, and finds every other name exactly as before.\<close>

theorem dir_add_then_lookup:
  assumes ok: "dir_ok st a ino k n" and d: "dirs st d = Some r" "dir_inode r = a" "\<not> i_locked ino"
    and ino: "i_deny_write_cnt ino = 0" "i_length ino = int (20 * n)"
    and inj: "inj_on (sector_of (cview st) (i_ptr ino)) {..<k}"
    and name: "name \<noteq> []" "length name \<le> NAME_MAX" "0 \<notin> set name"
    and new: "\<forall>i<n. \<not> entry_named name (entry_at (cview st) (i_ptr ino) i)"
    and slot: "List.find (\<lambda>i. \<not> e_in_use (entry_at (cview st) (i_ptr ino) i)) [0..<n] = Some j"
    and s: "s < b_size (fs_device st)" "s < 2 ^ 32" "s \<notin> cached st" "find_open st s = None"
      "\<forall>i<k. s \<noteq> sector_of (cview st) (i_ptr ino) i \<and> s \<notin> index_of (cview st) (i_ptr ino) i"
    and fresh: "inodes st (next_addr st) = None"
  shows "\<exists>st1. dir_add d name s st = Some (True, st1) \<and>
    (\<exists>st2. lookup a name st1 = Some (Some (\<lparr>e_inode_sector = s, e_name = name, e_in_use = True\<rparr>, 20 * j), st2)) \<and>
    (\<forall>other. other \<noteq> name \<longrightarrow> (\<exists>x st2 st3. lookup a other st1 = Some (x, st2) \<and> lookup a other st = Some (x, st3)))"
proof -
  let ?lk = "ino\<lparr>i_locked := True\<rparr>" and ?ptr = "i_ptr ino" and ?v = "cview st"
  let ?st0 = "st\<lparr>inodes := (inodes st)(a \<mapsto> ?lk)\<rparr>"
  let ?e = "\<lparr>e_inode_sector = s, e_name = name, e_in_use = True\<rparr>"
  have in0: "inodes st a = Some ino" using ok by (simp add: dir_ok_def)
  have j: "j < n" using find_upt_filter[OF slot] by blast
  have free: "\<not> e_in_use (entry_at ?v ?ptr j)" using slot by (auto simp: find_Some_iff)
  have lk: "inode_lock a st = Some ?st0" using in0 d(3) by (simp add: inode_lock_def put_inode_def)
  have fr: "inodes ?st0 (next_addr ?st0) = None" using fresh in0 by auto
  have fo: "find_open ?st0 s = None" using find_open_lock[OF in0] s(4) by simp
  obtain st' where a: "dir_add_locked a name s ?st0 = Some (True, st')" "dir_ok st' a ?lk k n" "inodes st' = inodes ?st0"
    "\<forall>i<n. entry_at (cview st') ?ptr i = (if i = j then ?e else entry_at ?v ?ptr i)"
    using dir_add_locked_spec[OF dir_ok_lock[OF ok], of True name j s] ino inj name new slot s fo fr
    unfolding entry_at_lock cview_fields cached_fields by auto
  let ?st1 = "st'\<lparr>inodes := inodes st\<rparr>"
  have "ino\<lparr>i_locked := False\<rparr> = ino" using d(3) by (auto intro!: inode.equality)
  then have id: "(inodes st)(a \<mapsto> ino\<lparr>i_locked := False\<rparr>) = inodes st" using in0 by auto
  have run: "dir_add d name s st = Some (True, ?st1)"
    using d lk a(1,3) id in0 by (simp add: dir_add_def dir_get_inode_def inode_unlock_def put_inode_def)
  have ok1: "dir_ok ?st1 a ino k n" using a(2) in0 by (simp add: dir_ok_def)
  have e1: "entry_at (cview ?st1) ?ptr i = (if i = j then ?e else entry_at ?v ?ptr i)" if "i < n" for i
    using a(4) that by simp
  have fn: "List.find (\<lambda>i. entry_named name (entry_at (cview ?st1) ?ptr i)) [0..<n] = Some j"
  proof -
    have "List.find (\<lambda>i. entry_named name (entry_at (cview ?st1) ?ptr i)) [0..<n] = List.find (\<lambda>i. i = j) [0..<n]"
      by (rule find_cong) (use new e1 in auto)
    also have "\<dots> = Some j" using j unfolding find_Some_iff by (intro exI[of _ j]) simp
    finally show ?thesis .
  qed
  have other: "List.find (\<lambda>i. entry_named nm (entry_at (cview ?st1) ?ptr i)) [0..<n] =
      List.find (\<lambda>i. entry_named nm (entry_at ?v ?ptr i)) [0..<n]" if nm: "nm \<noteq> name" for nm
    by (rule find_cong) (use e1 free nm in auto)
  have "\<exists>st2. lookup a name ?st1 = Some (Some (?e, 20 * j), st2)"
    using lookup_spec[OF ok1, of name] e1[OF j] unfolding fn by auto
  moreover have "\<exists>x st2 st3. lookup a nm ?st1 = Some (x, st2) \<and> lookup a nm st = Some (x, st3)" if nm: "nm \<noteq> name" for nm
  proof -
    let ?f = "List.find (\<lambda>i. entry_named nm (entry_at ?v ?ptr i)) [0..<n]"
    obtain st2 where l2: "lookup a nm ?st1 = Some (map_option (\<lambda>i. (entry_at (cview ?st1) ?ptr i, 20 * i)) ?f, st2)"
      using lookup_spec[OF ok1, of nm] unfolding other[OF nm] by blast
    obtain st3 where l3: "lookup a nm st = Some (map_option (\<lambda>i. (entry_at ?v ?ptr i, 20 * i)) ?f, st3)"
      using lookup_spec[OF ok, of nm] by blast
    have "map_option (\<lambda>i. (entry_at (cview ?st1) ?ptr i, 20 * i)) ?f = map_option (\<lambda>i. (entry_at ?v ?ptr i, 20 * i)) ?f"
    proof (cases ?f)
      case (Some i)
      then have "i < n" "entry_named nm (entry_at ?v ?ptr i)" by (auto simp: find_Some_iff)
      then have "i < n" "i \<noteq> j" using free by auto
      then show ?thesis using Some e1 by simp
    qed simp
    then show ?thesis using l2 l3 by auto
  qed
  ultimately show ?thesis using run by blast
qed

definition demo_dir :: inode where
  "demo_dir = demo_inode\<lparr>i_length := 320, i_read_length := 320, i_isdir := True\<rparr>"

definition demo_dirfs :: fsys where
  "demo_dirfs = demo_fs\<lparr>inodes := [1 \<mapsto> demo_dir], dirs := [3 \<mapsto> \<lparr>dir_inode = 1, dir_pos = 0\<rparr>], next_addr := 4\<rparr>"

lemma demo_dir_view: "cview demo_dirfs = (\<lambda>_. zeros)" "i_ptr demo_dir = i_ptr demo_inode"
  using demo_view by (simp_all add: demo_dirfs_def demo_dir_def cview_def)

lemma demo_byte: "file_byte (\<lambda>_. zeros) p = (\<lambda>_. 0)"
  by (rule ext) (simp add: file_byte_def zeros_def)

lemma demo_entry: "entry_at (\<lambda>_. zeros) p j = \<lparr>e_inode_sector = 0, e_name = [], e_in_use = False\<rparr>"
proof -
  have "map (file_byte (\<lambda>_. zeros) p) [20 * j..<20 * j + 20] = replicate 20 0"
    unfolding demo_byte by (simp add: map_replicate_const)
  also have "\<dots> = [0, 0, 0, 0, 0, 0, 0, 0, 0, 0, 0, 0, 0, 0, 0, 0, 0, 0, 0, 0]" by (simp add: numeral_eq_Suc)
  finally show ?thesis
    by (simp add: entry_at_def dec_entry_def get32_def)
qed

lemma demo_dir_ok: "dir_ok demo_dirfs 1 demo_dir 1 16"
proof -
  have "file_ok demo_fs (i_ptr demo_inode) 1" using demo_file(1) unfolding file_ok_def by fastforce
  then have "file_ok demo_dirfs (i_ptr demo_dir) 1"
    by (simp add: demo_dirfs_def demo_dir_view(2))
  moreover have "cache_wf demo_dirfs" using demo_wf by (simp add: demo_dirfs_def)
  ultimately show ?thesis by (simp add: dir_ok_def demo_dirfs_def demo_dir_def)
qed

theorem dir_add_then_lookup_witness:
  "\<exists>st1 st2. dir_add 3 [97, 98] 20 demo_dirfs = Some (True, st1) \<and>
    lookup 1 [97, 98] st1 = Some (Some (\<lparr>e_inode_sector = 20, e_name = [97, 98], e_in_use = True\<rparr>, 0), st2)"
proof -
  have "List.find (\<lambda>i. \<not> e_in_use (entry_at (cview demo_dirfs) (i_ptr demo_dir) i)) [0..<16] = Some 0"
    by (simp add: demo_dir_view demo_entry upt_rec)
  note slot = this
  have f: "dirs demo_dirfs 3 = Some \<lparr>dir_inode = 1, dir_pos = 0\<rparr>" "dir_inode \<lparr>dir_inode = 1, dir_pos = 0\<rparr> = 1"
    "\<not> i_locked demo_dir" "i_deny_write_cnt demo_dir = 0" "i_length demo_dir = int (20 * 16)"
    by (simp_all add: demo_dirfs_def demo_dir_def demo_inode_def)
  have g: "inj_on (sector_of (cview demo_dirfs) (i_ptr demo_dir)) {..<1}"
    "\<forall>i<16. \<not> entry_named [97, 98] (entry_at (cview demo_dirfs) (i_ptr demo_dir) i)"
    "\<forall>i<1. 20 \<noteq> sector_of (cview demo_dirfs) (i_ptr demo_dir) i \<and> 20 \<notin> index_of (cview demo_dirfs) (i_ptr demo_dir) i"
    by (simp_all add: demo_dir_view demo_entry sector_of_def index_of_def demo_inode_def lessThan_Suc)
  have h: "20 < b_size (fs_device demo_dirfs)" "20 \<notin> cached demo_dirfs" "find_open demo_dirfs 20 = None"
    "inodes demo_dirfs (next_addr demo_dirfs) = None"
    by (simp_all add: demo_dirfs_def demo_fs_def demo_disk_def cached_def find_open_def demo_dir_def demo_inode_def)
  show ?thesis
    using dir_add_then_lookup[OF demo_dir_ok f g(1) _ _ _ g(2) slot h(1) _ h(2,3) g(3) h(4)]
    by (auto simp: NAME_MAX_def)
qed

section \<open>Listing a directory\<close>

text \<open>C32: calling \<open>dir_readdir\<close> from the start until it fails ends, and gives the names of the entries
  in use, each once and in the order of the directory.\<close>

theorem readdir_lists_directory:
  assumes "dir_ok st a ino k n" "dirs st d = Some \<lparr>dir_inode = a, dir_pos = 0\<rparr>" "\<not> i_locked ino"
  shows "\<exists>st'. readdir_all d st =
    Some (map e_name (filter e_in_use (map (entry_at (cview st) (i_ptr ino)) [0..<n])), st')"
  using readdir_all_spec[OF assms(1) _ assms(3), of d 0] assms(2) by simp

theorem readdir_lists_directory_witness: "\<exists>st'. readdir_all 3 demo_dirfs = Some ([], st')"
proof -
  have "dirs demo_dirfs 3 = Some \<lparr>dir_inode = 1, dir_pos = 0\<rparr>" "\<not> i_locked demo_dir"
    by (simp_all add: demo_dirfs_def demo_dir_def demo_inode_def)
  from readdir_lists_directory[OF demo_dir_ok this] show ?thesis by (simp add: demo_dir_view demo_entry)
qed

section \<open>Paths\<close>

lemma walk_dots: "walk (filter (\<lambda>t. t \<noteq> dot) ts) dir st = walk ts dir st"
proof (induction ts arbitrary: dir st)
  case (Cons t ts)
  show ?case
  proof (cases "t = dot")
    case True
    then show ?thesis using Cons by (simp add: walk_step_def)
  next
    case False
    have "(\<lambda>(r, st). case r of None \<Rightarrow> Some (None, st) | Some dir \<Rightarrow> walk (filter (\<lambda>t. t \<noteq> dot) ts) dir st) =
        (\<lambda>(r, st). case r of None \<Rightarrow> Some (None, st) | Some dir \<Rightarrow> walk ts dir st)"
      by (rule ext) (simp add: Cons split: prod.split option.split)
    then show ?thesis using False by (simp del: bind.simps)
  qed
qed simp

lemma get_containing_dir_components:
  assumes "0 \<notin> set p" "0 \<notin> set q" "(p \<noteq> [] \<and> hd p = ASCII_SLASH) = (q \<noteq> [] \<and> hd q = ASCII_SLASH)"
    "filter (\<lambda>t. t \<noteq> dot) (butlast (path_tokens p)) = filter (\<lambda>t. t \<noteq> dot) (butlast (path_tokens q))"
  shows "get_containing_dir p st = get_containing_dir q st"
proof -
  have w: "walk (butlast (path_tokens p)) = walk (butlast (path_tokens q))"
    by (intro ext) (metis walk_dots assms(4))
  show ?thesis unfolding get_containing_dir_tokens[OF assms(1)] get_containing_dir_tokens[OF assms(2)] assms(3) w ..
qed

lemma path_tokens_append: "path_tokens (u @ ASCII_SLASH # v) = path_tokens u @ path_tokens v"
  by (simp add: path_tokens_def tokens_append)

lemma path_tokens_Nil: "path_tokens [] = []"
  by (simp add: path_tokens_def tokens.simps)

lemma path_tokens_dot: "path_tokens dot = [dot]"
  by (simp add: path_tokens_def dot_def tokens.simps ASCII_SLASH_def)

lemma path_tokens_nonempty: "c \<in> set v \<Longrightarrow> c \<noteq> ASCII_SLASH \<Longrightarrow> path_tokens v \<noteq> []"
  unfolding path_tokens_def by (subst tokens.simps) (auto simp: Let_def)

text \<open>C35: The normal form of a path, for every path and every state of the file system: doubling a slash anywhere,
  a slash at the end, and a component \<open>"."\<close> at the start or in the middle (but not as the last component) make no
  difference to the directory that \<open>get_containing_dir\<close> returns, nor to the state it leaves.\<close>

theorem get_containing_dir_normalises:
  assumes "0 \<notin> set u" and "0 \<notin> set v"
  shows "get_containing_dir (u @ [ASCII_SLASH, ASCII_SLASH] @ v) st = get_containing_dir (u @ [ASCII_SLASH] @ v) st \<and>
    (u \<noteq> [] \<longrightarrow> get_containing_dir (u @ [ASCII_SLASH]) st = get_containing_dir u st) \<and>
    ((\<exists>c\<in>set v. c \<noteq> ASCII_SLASH) \<longrightarrow>
       get_containing_dir (u @ [ASCII_SLASH] @ dot @ [ASCII_SLASH] @ v) st = get_containing_dir (u @ [ASCII_SLASH] @ v) st) \<and>
    (v \<noteq> [] \<and> hd v \<noteq> ASCII_SLASH \<longrightarrow> get_containing_dir (dot @ [ASCII_SLASH] @ v) st = get_containing_dir v st)"
proof (intro conjI impI)
  have z: "ASCII_SLASH \<noteq> 0" "0 \<notin> set dot" "hd dot \<noteq> ASCII_SLASH" "dot \<noteq> []" by (simp_all add: ASCII_SLASH_def dot_def)
  note tk = path_tokens_append path_tokens_append[of "[]", simplified] path_tokens_Nil path_tokens_dot butlast_append
  show "get_containing_dir (u @ [ASCII_SLASH, ASCII_SLASH] @ v) st = get_containing_dir (u @ [ASCII_SLASH] @ v) st"
    using assms z by (intro get_containing_dir_components) (auto simp: tk hd_append)
  show "get_containing_dir (u @ [ASCII_SLASH]) st = get_containing_dir u st" if "u \<noteq> []"
    using assms z that by (intro get_containing_dir_components) (auto simp: tk hd_append)
  show "get_containing_dir (u @ [ASCII_SLASH] @ dot @ [ASCII_SLASH] @ v) st = get_containing_dir (u @ [ASCII_SLASH] @ v) st"
    if "\<exists>c\<in>set v. c \<noteq> ASCII_SLASH"
  proof -
    have "path_tokens v \<noteq> []" using that path_tokens_nonempty by blast
    then show ?thesis using assms z by (intro get_containing_dir_components) (auto simp: tk hd_append)
  qed
  show "get_containing_dir (dot @ [ASCII_SLASH] @ v) st = get_containing_dir v st" if v: "v \<noteq> [] \<and> hd v \<noteq> ASCII_SLASH"
  proof -
    have "path_tokens v \<noteq> []" using v path_tokens_nonempty[of "hd v" v] by simp
    then show ?thesis using assms z v by (intro get_containing_dir_components) (auto simp: tk hd_append)
  qed
qed

text \<open>\<open>"a//b"\<close>, \<open>"a/"\<close> and \<open>"a/./b"\<close>.\<close>

theorem get_containing_dir_normalises_witness:
  "\<forall>st. get_containing_dir [97, 47, 47, 98] st = get_containing_dir [97, 47, 98] st \<and>
    get_containing_dir [97, 47] st = get_containing_dir [97] st \<and>
    get_containing_dir [97, 47, 46, 47, 98] st = get_containing_dir [97, 47, 98] st"
proof
  fix st
  show "get_containing_dir [97, 47, 47, 98] st = get_containing_dir [97, 47, 98] st \<and>
    get_containing_dir [97, 47] st = get_containing_dir [97] st \<and>
    get_containing_dir [97, 47, 46, 47, 98] st = get_containing_dir [97, 47, 98] st"
    using get_containing_dir_normalises[of "[97]" "[98]" st] by (simp add: ASCII_SLASH_def dot_def)
qed

text \<open>\<open>filesys_chdir\<close> does not look at the kind of what it finds: when the path leads to a regular
  file, it reports success and that file becomes the working directory.\<close>

theorem chdir_accepts_regular_file:
  assumes dir: "0 \<notin> set p" "get_containing_dir p st = Some (dir, st1)" "heap_ok st1"
    and found: "find_inode dir (if path_tokens p = [] then [] else last (path_tokens p)) st1 = Some (Inr (Some i), st2)"
    and close: "dir_close dir st2 = Some st3" "heap_ok st3" "cwd st3 = None"
    and kind: "inode_is_dir i st3 = Some False"
  shows "\<exists>st' d r. filesys_chdir p st = Some (True, st') \<and> cwd st' = Some d \<and> dirs st' d = Some r \<and>
    dir_inode r = i \<and> inode_is_dir i st' = Some False"
  using assms by (simp add: filesys_chdir_def get_filename_tokens dir_open_def dir_close_def Let_def inode_is_dir_def)

text \<open>A root directory with one entry, \<open>"ab"\<close>, for the regular file whose inode is in sector 20.\<close>

definition demo_root :: inode where
  "demo_root = demo_dir\<lparr>i_sector := 1\<rparr>"

definition demo_rootfs :: fsys where
  "demo_rootfs = demo_fs\<lparr>fs_device := demo_disk\<lparr>b_data := (\<lambda>_. zeros)
       (11 := enc_entry \<lparr>e_inode_sector = 20, e_name = [97, 98], e_in_use = True\<rparr> @ replicate 492 0)\<rparr>,
     inodes := [1 \<mapsto> demo_root], next_addr := 4\<rparr>"

lemma demo_rootfs_view: "cview demo_rootfs = (\<lambda>_. zeros)
    (11 := enc_entry \<lparr>e_inode_sector = 20, e_name = [97, 98], e_in_use = True\<rparr> @ replicate 492 0)"
  by (rule ext) (simp add: cview_def demo_rootfs_def demo_fs_def demo_disk_def)

lemma demo_rootfs_ok: "dir_ok demo_rootfs 1 demo_root 1 16"
proof -
  have "cache_wf demo_rootfs"
    by (simp add: cache_wf_def demo_rootfs_def demo_fs_def demo_disk_def dev_inv_def)
  moreover have "file_ok demo_rootfs (i_ptr demo_root) 1"
    by (simp add: file_ok_def sector_of_def index_of_def demo_root_def demo_dir_def demo_inode_def demo_rootfs_def demo_fs_def demo_disk_def)
  ultimately show ?thesis by (simp add: dir_ok_def demo_rootfs_def demo_root_def demo_dir_def)
qed

lemma demo_rootfs_entry: "entry_at (cview demo_rootfs) (i_ptr demo_root) 0 =
    \<lparr>e_inode_sector = 20, e_name = [97, 98], e_in_use = True\<rparr>"
proof -
  let ?e = "\<lparr>e_inode_sector = 20, e_name = [97, 98], e_in_use = True\<rparr>"
  have "map (file_byte (cview demo_rootfs) (i_ptr demo_root)) [0..<20] = enc_entry ?e"
    by (rule nth_equalityI) (simp_all add: file_byte_def demo_rootfs_view sector_of_def demo_root_def demo_dir_def demo_inode_def nth_append)
  then show ?thesis
    using dec_enc_entry[of ?e] by (simp add: entry_at_def entry_ok_def NAME_MAX_def)
qed

theorem chdir_accepts_regular_file_witness:
  "\<exists>st' d r. filesys_chdir [97, 98] demo_rootfs = Some (True, st') \<and> cwd st' = Some d \<and> dirs st' d = Some r \<and>
    inode_is_dir (dir_inode r) st' = Some False"
proof -
  have tk: "path_tokens [97, 98] = [[97, 98]]" by (simp add: path_tokens_def tokens.simps ASCII_SLASH_def)
  let ?ino = "demo_root\<lparr>i_open_cnt := 2\<rparr>"
  let ?st1 = "demo_rootfs\<lparr>inodes := [1 \<mapsto> ?ino], dirs := [4 \<mapsto> \<lparr>dir_inode = 1, dir_pos = 0\<rparr>], next_addr := 5\<rparr>"
  have "find_open demo_rootfs 1 = Some 1" by (simp add: find_open_def demo_rootfs_def demo_fs_def demo_root_def)
  then have g: "get_containing_dir [97, 98] demo_rootfs = Some (Some 4, ?st1)"
    by (simp add: get_containing_dir_tokens tk dir_open_root_def inode_open_def ROOT_DIR_SECTOR_def inode_reopen_def put_inode_def
        dir_open_def Let_def demo_rootfs_def demo_fs_def ASCII_SLASH_def demo_root_def demo_dir_def demo_inode_def)
  let ?lk = "?ino\<lparr>i_locked := True\<rparr>"
  let ?st1l = "?st1\<lparr>inodes := [1 \<mapsto> ?lk]\<rparr>"
  have ok: "dir_ok ?st1l 1 ?lk 1 16" using demo_rootfs_ok by (simp add: dir_ok_def)
  have v: "cview ?st1l = cview demo_rootfs" "i_ptr ?lk = i_ptr demo_root" by simp_all
  have "List.find (\<lambda>j. entry_named [97, 98] (entry_at (cview demo_rootfs) (i_ptr demo_root) j)) [0..<16] = Some 0"
    by (simp add: upt_rec demo_rootfs_entry)
  then obtain s1 where l: "lookup 1 [97, 98] ?st1l = Some (Some (\<lparr>e_inode_sector = 20, e_name = [97, 98], e_in_use = True\<rparr>, 0), s1)"
    "cache_step ?st1l s1" "cached s1 \<subseteq> cached ?st1l \<union> sector_of (cview demo_rootfs) (i_ptr demo_root) ` {..<1}"
    using lookup_spec[OF ok, of "[97, 98]"] unfolding v by (auto simp: demo_rootfs_entry)
  have "sector_of (cview demo_rootfs) (i_ptr demo_root) 0 = 11" by (simp add: sector_of_def demo_root_def demo_dir_def demo_inode_def)
  then have out: "20 \<notin> cached s1" "20 < b_size (fs_device s1)"
    using l(2,3) by (auto simp: cached_def demo_rootfs_def demo_fs_def demo_disk_def cache_step_def)
  note r = cache_step_rest[OF l(2)] and c = l(2)[unfolded cache_step_def]
  obtain s2 where rd: "raw_read 20 s1 = Some (zeros, s2)" "cache_step s1 s2"
    using raw_read_spec[OF _ out(2,1)] c demo_rootfs_view by auto
  note r2 = cache_step_rest[OF rd(2)]
  have z: "d_isdir (dec_inode zeros) = False" by (simp add: dec_inode_def zeros_def)
  have fo: "find_open s1 20 = None" using r by (simp add: find_open_def demo_rootfs_def demo_fs_def demo_root_def)
  have in2: "inodes s2 = [1 \<mapsto> ?lk]" "open_inodes s2 = [1]" "next_addr s2 = 5" "heap_ok s2" "heap_ok s1" "dirs s2 = [4 \<mapsto> \<lparr>dir_inode = 1, dir_pos = 0\<rparr>]"
    "cwd s2 = None" "next_addr s1 = 5"
    using r r2 by (simp_all add: demo_rootfs_def demo_fs_def)
  obtain st2 where f: "find_inode (Some 4) [97, 98] ?st1 = Some (Inr (Some 5), st2)" "heap_ok st2" "cwd st2 = None"
    "inodes st2 1 = Some ?ino" "map_option i_isdir (inodes st2 5) = Some False" "dirs st2 4 = Some \<lparr>dir_inode = 1, dir_pos = 0\<rparr>"
    using l(1) fo rd(1) in2 z
    by (simp add: find_inode_def dir_lookup_def dir_get_inode_def inode_lock_def inode_unlock_def put_inode_def inode_open_def
        dir_is_root_def inode_get_inumber_def Let_def dot_def dotdot_def demo_root_def demo_dir_def demo_inode_def)
  obtain st3 where cl: "dir_close (Some 4) st2 = Some st3" "heap_ok st3" "cwd st3 = None" "inode_is_dir 5 st3 = Some False"
    using f by (auto simp: dir_close_def inode_close_def put_inode_def inode_is_dir_def)
  have hp: "heap_ok ?st1" by (simp add: demo_rootfs_def demo_fs_def)
  have "find_inode (Some 4) (if path_tokens [97, 98] = [] then [] else last (path_tokens [97, 98])) ?st1 = Some (Inr (Some 5), st2)"
    using f(1) by (simp add: tk)
  from chdir_accepts_regular_file[OF _ g hp this cl] show ?thesis by auto
qed

end
