(* ===== verification/Donation.thy ===== *)
theory Donation
  imports SchedProps
begin

text \<open>
  Priority donation (\<open>donation\<close> and \<open>donation_back\<close> of \<open>thread.c\<close>, called by \<open>lock_acquire\<close> and
  \<open>lock_release\<close>): which priorities they set.
\<close>

text \<open>The threads behind \<open>d\<close>: \<open>d\<close> waits for a lock of the first, which waits for a lock of the
  second, and so on; the last one does not wait.\<close>

primrec holders :: "kst \<Rightarrow> tptr \<Rightarrow> tptr list \<Rightarrow> bool" where
  "holders st d [] \<longleftrightarrow> (\<exists>r. threads st d = Some r \<and> t_wait_lock r = None)"
| "holders st d (h # hs) \<longleftrightarrow>
     (\<exists>r l. threads st d = Some r \<and> t_wait_lock r = Some l \<and> lock_holder st l = Some h) \<and> holders st h hs"

definition set_priority :: "int \<Rightarrow> tptr set \<Rightarrow> kst \<Rightarrow> kst" where
  "set_priority p S st = st\<lparr>threads := \<lambda>t. if t \<in> S then map_option (t_priority_update (\<lambda>_. p)) (threads st t) else threads st t\<rparr>"

lemma upd_thread_priority:
  "threads st t = Some r \<Longrightarrow> upd_thread t (t_priority_update (\<lambda>_. p)) st = Some (set_priority p {t} st)"
  by (auto simp: upd_thread_def set_priority_def intro!: arg_cong[of _ _ "\<lambda>f. st\<lparr>threads := f\<rparr>"])

lemma set_priority_union: "set_priority p A (set_priority p B st) = set_priority p (A \<union> B) st"
  by (rule kst.equality) (auto simp: set_priority_def fun_eq_iff option.map_comp comp_def)

lemma holders_set_priority: "holders (set_priority p S st) d hs = holders st d hs"
proof (induction hs arbitrary: d)
  case Nil
  show ?case by (auto simp: set_priority_def)
next
  case (Cons h hs)
  have "(\<exists>r l. threads (set_priority p S st) d = Some r \<and> t_wait_lock r = Some l \<and> lock_holder (set_priority p S st) l = Some h) =
    (\<exists>r l. threads st d = Some r \<and> t_wait_lock r = Some l \<and> lock_holder st l = Some h)"
    by (auto simp: set_priority_def)
  then show ?case using Cons by simp
qed

lemma donation_loop_spec:
  "holders st d hs \<Longrightarrow> donation_loop n d p st = Some (set_priority p (set (take n hs)) st)"
proof (induction hs arbitrary: d n st)
  case Nil
  then show ?case by (cases n) (auto simp: set_priority_def)
next
  case (Cons h hs)
  obtain r l where d: "threads st d = Some r" "t_wait_lock r = Some l" "lock_holder st l = Some h" "holders st h hs"
    using Cons.prems(1) by auto
  obtain rh where h: "threads st h = Some rh" using d(4) by (cases hs) auto
  show ?case
  proof (cases n)
    case 0
    then show ?thesis by (simp add: set_priority_def)
  next
    case (Suc m)
    have "donation_loop m h p (set_priority p {h} st) = Some (set_priority p (set (take m hs)) (set_priority p {h} st))"
      using Cons.IH[of "set_priority p {h} st" h m] d(4) by (simp add: holders_set_priority)
    then show ?thesis using d Suc upd_thread_priority[OF h, of p] by (simp add: set_priority_union)
  qed
qed

lemma holders_other:
  assumes "t \<notin> set (d # hs)" "\<And>x. x \<noteq> t \<Longrightarrow> map_option t_wait_lock (threads st' x) = map_option t_wait_lock (threads st x)"
    "lock_holder st' = lock_holder st"
  shows "holders st d hs \<Longrightarrow> holders st' d hs"
  using assms(1)
proof (induction hs arbitrary: d)
  case Nil
  then show ?case using assms(2)[of d] by (cases "threads st' d") auto
next
  case (Cons h hs)
  then show ?case using assms(2)[of d] assms(3) by (cases "threads st' d") auto
qed

text \<open>C40: \<open>donation\<close> gives the priority of the current thread to the holder of the lock and to
  the first nine of the threads that this holder waits for, one behind the other, however long the chain is, and to
  no other thread. It does so also when that priority is lower than the holder's own.\<close>

theorem donation_sets_chain:
  assumes cur: "thread_current st = Some t" and lk: "lock_holder st l = Some d"
    and hs: "holders st d hs" "t \<notin> set (d # hs)"
  shows "\<exists>st'. donation l st = Some st' \<and>
    (\<forall>x. priority_of st' x = (if x \<in> set (d # take 9 hs) \<and> threads st x \<noteq> None then priority_of st t else priority_of st x))"
proof -
  obtain rt where rt: "threads st t = Some rt"
    using cur by (auto simp: thread_current_def bind_Some_iff ASSERT_def split: if_splits)
  obtain rd where rd: "threads st d = Some rd" using hs(1) by (cases hs) auto
  have td: "t \<noteq> d" using hs(2) by auto
  let ?d = "if t_donation_list rd = [] then rd\<lparr>t_ori_priority := t_priority rd\<rparr> else rd"
  let ?st = "st\<lparr>threads := (threads st)(d \<mapsto> ?d\<lparr>t_donation_list := t # t_donation_list rd\<rparr>, t \<mapsto> rt\<lparr>t_wait_lock := Some l\<rparr>)\<rparr>"
  let ?p = "priority_of st t"
  have pt: "priority_of ?st t = ?p" using rt by (simp add: priority_of_def)
  have hd: "holders ?st d hs"
    by (rule holders_other[OF hs(2) _ _ hs(1)]) (use rd td in auto)
  have hd': "holders (set_priority ?p {d} ?st) d hs" using hd by (simp only: holders_set_priority)
  have len: "MAX_DEPTH + 1 = 9" by (simp add: MAX_DEPTH_def)
  have up: "upd_thread d (t_priority_update (\<lambda>_. ?p)) ?st = Some (set_priority ?p {d} ?st)"
    using td by (intro upd_thread_priority) simp
  have pre: "(threads st)(d \<mapsto> ?d, t \<mapsto> rt\<lparr>t_wait_lock := Some l\<rparr>, d \<mapsto> ?d\<lparr>t_donation_list := t # t_donation_list ?d\<rparr>) = threads ?st"
    using td by auto
  let ?st' = "set_priority ?p (insert d (set (take 9 hs))) ?st"
  have "donation l st = Some (?st'\<lparr>ready_list := sort_by_priority ?st' (ready_list ?st')\<rparr>)"
  proof -
    have "upd_thread d (\<lambda>r. r\<lparr>t_donation_list := t # t_donation_list r\<rparr>)
        (st\<lparr>threads := (threads st)(d \<mapsto> ?d, t \<mapsto> rt\<lparr>t_wait_lock := Some l\<rparr>)\<rparr>) = Some ?st"
      using td pre by (auto simp: upd_thread_def)
    moreover have "(if t_donation_list rd = [] then upd_thread d (\<lambda>r. r\<lparr>t_ori_priority := t_priority r\<rparr>) st else Some st) =
        Some (st\<lparr>threads := (threads st)(d \<mapsto> ?d)\<rparr>)"
      using rd by (auto simp: upd_thread_def fun_upd_idem)
    moreover have "upd_thread t (t_wait_lock_update (\<lambda>_. Some l)) (st\<lparr>threads := (threads st)(d \<mapsto> ?d)\<rparr>) =
        Some (st\<lparr>threads := (threads st)(d \<mapsto> ?d, t \<mapsto> rt\<lparr>t_wait_lock := Some l\<rparr>)\<rparr>)"
      using rt td by (simp add: upd_thread_def)
    ultimately show ?thesis
      using cur lk rd up donation_loop_spec[OF hd', of 9 ?p] pt unfolding donation_def Let_def len
      by (simp only: Option.bind.simps set_priority_union) (simp add: set_priority_union)
  qed
  moreover have "priority_of (?st'\<lparr>ready_list := q\<rparr>) x = (if x \<in> set (d # take 9 hs) \<and> threads st x \<noteq> None then ?p else priority_of st x)" for x q
  proof -
    have "priority_of ?st x = priority_of st x" using rd rt td by (auto simp: priority_of_def)
    moreover have "threads ?st x = None \<longleftrightarrow> threads st x = None" using rd rt by auto
    ultimately show ?thesis by (auto simp: priority_of_def set_priority_def split: option.splits)
  qed
  ultimately show ?thesis by blast
qed

definition demo_thread :: "thread_status \<Rightarrow> int \<Rightarrow> thread" where
  "demo_thread s p = \<lparr>t_tid = 1, t_status = s, t_name = ''t'', t_stack = 0, t_priority = p, t_wakeup_time = 0,
     t_donation_list = [], t_ori_priority = p, t_wait_lock = None, t_nice = 0, t_recent_cpu = 0\<rparr>"

text \<open>Thread 1 has priority 40, holds lock 5 and sleeps; thread 2 with priority 31 runs.\<close>

definition demo_holder :: kst where
  "demo_holder = (empty_kst 2 False)\<lparr>threads := [1 \<mapsto> demo_thread THREAD_BLOCKED 40, 2 \<mapsto> demo_thread THREAD_RUNNING 31],
     lock_holder := [5 \<mapsto> 1], running := 2\<rparr>"

lemma demo_holder_current: "thread_current demo_holder = Some 2"
  by (simp add: thread_current_def is_thread_def running_thread_def demo_holder_def demo_thread_def)

text \<open>A chain of eleven threads behind each other: thread \<open>i\<close> holds lock \<open>i\<close> and waits for lock \<open>i + 1\<close>, up to
  thread 11, which waits for nothing; thread 20 runs.\<close>

definition demo_chain :: kst where
  "demo_chain = (empty_kst 20 False)\<lparr>
     threads := (\<lambda>i. if i = 20 then Some (demo_thread THREAD_RUNNING 31)
       else if 1 \<le> i \<and> i \<le> 11 then Some ((demo_thread THREAD_BLOCKED 5)\<lparr>t_wait_lock := if i = 11 then None else Some (i + 1)\<rparr>)
       else None),
     lock_holder := Some, running := 20\<rparr>"

theorem donation_sets_chain_witness:
  "\<exists>st'. donation 1 demo_chain = Some st' \<and> priority_of st' 1 = 31 \<and> priority_of st' 10 = 31 \<and> priority_of st' 11 = 5"
proof -
  have "thread_current demo_chain = Some 20"
    by (simp add: thread_current_def is_thread_def running_thread_def demo_chain_def demo_thread_def)
  moreover have "lock_holder demo_chain 1 = Some 1" by (simp add: demo_chain_def)
  moreover have "holders demo_chain 1 [2, 3, 4, 5, 6, 7, 8, 9, 10, 11]" by (simp add: demo_chain_def demo_thread_def)
  moreover have "20 \<notin> set [1, 2, 3, 4, 5, 6, 7, 8, 9, 10, 11 :: nat]" by simp
  ultimately obtain st' where st': "donation 1 demo_chain = Some st'"
    "\<And>x. priority_of st' x = (if x \<in> set (1 # take 9 [2, 3, 4, 5, 6, 7, 8, 9, 10, 11]) \<and> threads demo_chain x \<noteq> None
       then priority_of demo_chain 20 else priority_of demo_chain x)"
    using donation_sets_chain[of demo_chain 20 1 1 "[2, 3, 4, 5, 6, 7, 8, 9, 10, 11]"] by blast
  then show ?thesis by (simp add: priority_of_def demo_chain_def demo_thread_def)
qed

text \<open>The members of a \<open>struct thread\<close> that record donations.\<close>

definition donation_record :: "kst \<Rightarrow> tptr \<Rightarrow> (tptr list \<times> int \<times> lptr option) option" where
  "donation_record st t = map_option (\<lambda>r. (t_donation_list r, t_ori_priority r, t_wait_lock r)) (threads st t)"

text \<open>when the holder comes to run and releases the lock, \<open>donation_back\<close> takes the donation away
  that was made for that lock: a holder without other donations has the priority it had before, and
  the donor is recorded as waiting for no lock.\<close>

theorem donation_back_restores:
  assumes cur: "thread_current st = Some t" and lk: "lock_holder st l = Some d" and td: "t \<noteq> d"
    and rd: "threads st d = Some rd" "t_donation_list rd = []" "t_wait_lock rd = None"
    and st': "donation l st = Some st'"
    and run: "thread_current st2 = Some d" "donation_record st2 d = donation_record st' d"
      "donation_record st2 t = donation_record st' t"
  shows "\<exists>st3. donation_back l st2 = Some st3 \<and> priority_of st3 d = priority_of st d \<and>
    donation_record st3 d = Some ([], priority_of st d, None) \<and> (\<exists>r. threads st3 t = Some r \<and> t_wait_lock r = None)"
proof -
  obtain rt where rt: "threads st t = Some rt"
    using cur by (auto simp: thread_current_def bind_Some_iff ASSERT_def split: if_splits)
  have "threads st' = (threads st)(t \<mapsto> rt\<lparr>t_wait_lock := Some l\<rparr>,
      d \<mapsto> rd\<lparr>t_ori_priority := t_priority rd, t_donation_list := [t], t_priority := t_priority rt\<rparr>)"
    using st' cur lk rd rt td by (auto simp: donation_def upd_thread_def priority_of_def Let_def fun_upd_twist)
  then have rec: "donation_record st2 d = Some ([t], t_priority rd, None)"
    "\<exists>ds p. donation_record st2 t = Some (ds, p, Some l)"
    using run td rd by (auto simp: donation_record_def)
  then obtain r2 rt2 where r: "threads st2 d = Some r2" "t_donation_list r2 = [t]" "t_ori_priority r2 = t_priority rd"
    "t_wait_lock r2 = None" "threads st2 t = Some rt2" "t_wait_lock rt2 = Some l"
    by (auto simp: donation_record_def)
  have loop: "donation_back_loop l [t] st2 = Some ([], st2\<lparr>threads := (threads st2)(t \<mapsto> rt2\<lparr>t_wait_lock := None\<rparr>)\<rparr>)"
    using r by (simp add: upd_thread_def)
  show ?thesis
    using run(1) td loop r rd(1) by (simp add: donation_back_def upd_thread_def priority_of_def donation_record_def)
qed

theorem donation_back_restores_witness:
  "\<exists>st' st2 st3. donation 5 demo_holder = Some st' \<and> donation_back 5 st2 = Some st3 \<and>
    donation_record st2 1 = donation_record st' 1 \<and> priority_of st3 1 = 40"
proof -
  have h: "lock_holder demo_holder 5 = Some 1" "(2 :: nat) \<noteq> 1" "threads demo_holder 1 = Some (demo_thread THREAD_BLOCKED 40)"
    "t_donation_list (demo_thread THREAD_BLOCKED 40) = []" "t_wait_lock (demo_thread THREAD_BLOCKED 40) = None"
    by (simp_all add: demo_holder_def demo_thread_def)
  obtain st' where st': "donation 5 demo_holder = Some st'"
    "threads st' 1 \<noteq> None"
    by (simp add: donation_def thread_current_def is_thread_def running_thread_def upd_thread_def demo_holder_def
        demo_thread_def MAX_DEPTH_def Let_def donation_loop.simps(2)[of 8, simplified])
  then obtain r where r: "threads st' 1 = Some r" by auto
  let ?st2 = "st'\<lparr>threads := (threads st')(1 \<mapsto> r\<lparr>t_status := THREAD_RUNNING\<rparr>), running := 1\<rparr>"
  have c: "thread_current ?st2 = Some 1" by (simp add: thread_current_def is_thread_def running_thread_def)
  have e: "donation_record ?st2 1 = donation_record st' 1" "donation_record ?st2 2 = donation_record st' 2"
    using r by (simp_all add: donation_record_def)
  obtain st3 where "donation_back 5 ?st2 = Some st3" "priority_of st3 1 = priority_of demo_holder 1"
    using donation_back_restores[OF demo_holder_current h st'(1) c e] by blast
  then show ?thesis using st'(1) e(1) h(3) by (auto simp: priority_of_def demo_thread_def)
qed

end
