(* ===== verification/ProcSpec.thy ===== *)
theory ProcSpec
  imports Process VmSpec
begin

text \<open>What \<open>load_segment\<close> leaves in the supplemental page table.\<close>

section \<open>One page\<close>

definition file_spte :: "kernel \<Rightarrow> nat \<Rightarrow> int \<Rightarrow> vaddr \<Rightarrow> nat \<Rightarrow> bool \<Rightarrow> spt_entry" where
  "file_spte st f ofs va r writable = (spte_junk st)\<lparr>s_file := f, s_offset := nat (ofs mod 2 ^ 32), s_vaddr := va,
     s_read_bytes := r, s_zero_bytes := PGSIZE - r, s_writable := writable, s_in_memory := False, s_type := FILE, s_locked := False\<rparr>"

definition cur_spt :: "kernel \<Rightarrow> keyed htab" where
  "cur_spt st = p_spt (cur_proc st)"

text \<open>\<open>st'\<close> is \<open>st\<close> with \<open>n\<close> new entries from \<open>next_ptr st\<close> on.\<close>

definition spt_grown :: "kernel \<Rightarrow> nat \<Rightarrow> (nat \<Rightarrow> spt_entry) \<Rightarrow> (nat \<Rightarrow> vaddr) \<Rightarrow> kernel \<Rightarrow> bool" where
  "spt_grown st n e va st' \<longleftrightarrow> (\<exists>S h. st' = st\<lparr>next_ptr := next_ptr st + n, sptes := S,
       procs := (procs st)(cur st := (cur_proc st)\<lparr>p_spt := h\<rparr>)\<rparr>) \<and>
     (\<forall>p. sptes st' p = (if next_ptr st \<le> p \<and> p < next_ptr st + n then Some (e (p - next_ptr st)) else sptes st p)) \<and>
     spt.hash_wf (cur_spt st') \<and> HashTable.elem_cnt (cur_spt st') = HashTable.elem_cnt (cur_spt st) + n \<and>
     (\<forall>i<n. spt.hmap (cur_spt st') (va i) = Some (va i, next_ptr st + i)) \<and>
     (\<forall>a. (\<forall>i<n. a \<noteq> va i) \<longrightarrow> spt.hmap (cur_spt st') a = spt.hmap (cur_spt st) a)"

lemma spt_grown_fields:
  assumes "spt_grown st n e va st'"
  shows "next_ptr st' = next_ptr st + n" "malloc_ok st' = malloc_ok st" "spte_junk st' = spte_junk st" "fs st' = fs st"
    "cur st' = cur st"
  using assms by (auto simp: spt_grown_def)

lemma spt_grown_0: "spt.hash_wf (cur_spt st) \<Longrightarrow> spt_grown st 0 e va st"
  unfolding spt_grown_def by (intro conjI exI[of _ "sptes st"] exI[of _ "cur_spt st"]) (auto simp: cur_spt_def cur_proc_def)

lemma spt_grown_Suc:
  assumes a: "spt_grown st 1 (\<lambda>_. e 0) (\<lambda>_. va 0) st1" and b: "spt_grown st1 n (\<lambda>i. e (Suc i)) (\<lambda>i. va (Suc i)) st2"
    and d: "\<And>i. i < n \<Longrightarrow> va (Suc i) \<noteq> va 0"
  shows "spt_grown st (Suc n) e va st2"
proof -
  note A = a[unfolded spt_grown_def] and B = b[unfolded spt_grown_def] and F = spt_grown_fields[OF a]
  obtain S1 h1 where st1: "st1 = st\<lparr>next_ptr := next_ptr st + 1, sptes := S1, procs := (procs st)(cur st := (cur_proc st)\<lparr>p_spt := h1\<rparr>)\<rparr>"
    using A by blast
  obtain S2 h2 where st2: "st2 = st1\<lparr>next_ptr := next_ptr st1 + n, sptes := S2, procs := (procs st1)(cur st1 := (cur_proc st1)\<lparr>p_spt := h2\<rparr>)\<rparr>"
    using B by blast
  have "st2 = st\<lparr>next_ptr := next_ptr st + Suc n, sptes := S2, procs := (procs st)(cur st := (cur_proc st)\<lparr>p_spt := h2\<rparr>)\<rparr>"
    unfolding st2 by (simp add: st1 cur_proc_def)
  moreover have "sptes st2 p = (if next_ptr st \<le> p \<and> p < next_ptr st + Suc n then Some (e (p - next_ptr st)) else sptes st p)" for p
  proof -
    have s1: "sptes st1 p = (if p = next_ptr st then Some (e 0) else sptes st p)" using A by auto
    have s2: "sptes st2 p = (if next_ptr st < p \<and> p < next_ptr st + Suc n then Some (e (Suc (p - Suc (next_ptr st)))) else sptes st1 p)"
      using B F(1) by (auto simp: Suc_le_eq)
    have "Suc (p - Suc (next_ptr st)) = p - next_ptr st" if "next_ptr st < p" using that by simp
    then show ?thesis unfolding s2 s1 by auto
  qed
  moreover have "spt.hash_wf (cur_spt st2)" using B by blast
  moreover have "HashTable.elem_cnt (cur_spt st2) = HashTable.elem_cnt (cur_spt st) + Suc n" using A B by simp
  moreover have "spt.hmap (cur_spt st2) (va i) = Some (va i, next_ptr st + i)" if i: "i < Suc n" for i
  proof (cases i)
    case 0
    have "\<forall>j<n. va 0 \<noteq> va (Suc j)" using d by metis
    then show ?thesis using A B 0 by simp
  qed (use B F(1) i in auto)
  moreover have "spt.hmap (cur_spt st2) a = spt.hmap (cur_spt st) a" if n: "\<forall>i<Suc n. a \<noteq> va i" for a
  proof -
    have "\<forall>i<n. a \<noteq> va (Suc i)" "a \<noteq> va 0" using n by auto
    then show ?thesis using A B by simp
  qed
  ultimately show ?thesis unfolding spt_grown_def by blast
qed

lemma add_file_to_pt_new:
  assumes wf: "spt.hash_wf (cur_spt st)" and c: "HashTable.elem_cnt (cur_spt st) < 2 ^ 32 - 1" and ok: "malloc_ok st"
    and new: "spt.hmap (cur_spt st) va = None" and r: "ofs' = nat (ofs mod 2 ^ 32)" "z = PGSIZE - r"
  shows "\<exists>st'. add_file_to_pt f ofs' va r z w st = Some (True, st') \<and>
    spt_grown st 1 (\<lambda>_. file_spte st f ofs va r w) (\<lambda>_. va) st'"
proof -
  obtain h where h: "hash_insert page_hash_func page_less_func True (cur_spt st) (va, next_ptr st) = Some (None, h)"
      "spt.hash_wf h" "spt.hmap h = (spt.hmap (cur_spt st))(va \<mapsto> (va, next_ptr st))"
      "HashTable.elem_cnt h = Suc (HashTable.elem_cnt (cur_spt st))"
    using spt.hash_insert_new[OF wf c, of "(va, next_ptr st)" True] new by auto
  let ?st' = "st\<lparr>next_ptr := next_ptr st + 1, sptes := (sptes st)(next_ptr st \<mapsto> file_spte st f ofs va r w),
      procs := (procs st)(cur st := (cur_proc st)\<lparr>p_spt := h\<rparr>)\<rparr>"
  have cp: "cur_proc (st\<lparr>next_ptr := x, sptes := S\<rparr>) = cur_proc st" for x S by (simp add: cur_proc_def)
  have h0: "hash_insert page_hash_func page_less_func True (p_spt (cur_proc st)) (va, next_ptr st) = Some (None, h)"
    using h(1) by (simp add: cur_spt_def)
  have "add_file_to_pt f ofs' va r z w st = Some (True, ?st')"
    using ok h0 unfolding add_file_to_pt_def malloc_spte_def upd_spte_def spt_insert_def upd_proc_def file_spte_def r
    by (simp add: cp) (simp add: cur_proc_def)
  moreover have cs: "cur_spt ?st' = h" by (simp add: cur_spt_def cur_proc_def)
  have "spt_grown st 1 (\<lambda>_. file_spte st f ofs va r w) (\<lambda>_. va) ?st'"
    unfolding spt_grown_def cs
  proof (intro conjI exI)
    show "?st' = st\<lparr>next_ptr := next_ptr st + 1, sptes := (sptes st)(next_ptr st \<mapsto> file_spte st f ofs va r w),
      procs := (procs st)(cur st := (cur_proc st)\<lparr>p_spt := h\<rparr>)\<rparr>" ..
  qed (use h(2,3,4) in auto)
  ultimately show ?thesis by blast
qed

section \<open>The loop\<close>

lemma wrap32_mod: "wrap32 x mod 2 ^ 32 = x mod 2 ^ 32"
proof -
  have "wrap32 x mod 4294967296 = ((x + 2147483648) mod 4294967296 - 2147483648) mod 4294967296" by (simp add: wrap32_def)
  also have "\<dots> = (x + 2147483648 - 2147483648) mod 4294967296" by (rule mod_diff_left_eq)
  finally show ?thesis by simp
qed

definition seg_page :: "vaddr \<Rightarrow> nat \<Rightarrow> vaddr" where
  "seg_page upage i = upage + word_of_nat (i * PGSIZE)"

definition seg_spte :: "kernel \<Rightarrow> nat \<Rightarrow> int \<Rightarrow> vaddr \<Rightarrow> nat \<Rightarrow> bool \<Rightarrow> nat \<Rightarrow> spt_entry" where
  "seg_spte st f ofs upage rb w i =
     file_spte st f (ofs + int (min (i * PGSIZE) rb)) (seg_page upage i) (min PGSIZE (rb - i * PGSIZE)) w"

lemma seg_page_0: "seg_page u 0 = u"
  by (simp add: seg_page_def)

lemma seg_page_Suc: "seg_page (u + word_of_nat PGSIZE) i = seg_page u (Suc i)"
  by (simp add: seg_page_def algebra_simps)

lemma seg_page_inj: "i < 2 ^ 20 \<Longrightarrow> j < 2 ^ 20 \<Longrightarrow> seg_page u i = seg_page u j \<Longrightarrow> i = j"
proof -
  assume b: "i < 2 ^ 20" "j < 2 ^ 20" "seg_page u i = seg_page u j"
  have "unat (word_of_nat (i * PGSIZE) :: 32 word) = i * PGSIZE" "unat (word_of_nat (j * PGSIZE) :: 32 word) = j * PGSIZE"
    using b(1,2) by (simp_all only: unat_of_nat PGSIZE_val) simp_all
  then have "i * PGSIZE = j * PGSIZE" using b(3) unfolding seg_page_def by (metis add_left_cancel)
  then show ?thesis by (simp add: PGSIZE_val)
qed

lemma load_segment_loop_spec:
  assumes "unat rb + unat zb = n * PGSIZE" "n < 2 ^ 20" "spt.hash_wf (cur_spt st)" "HashTable.elem_cnt (cur_spt st) + n < 2 ^ 32"
    "malloc_ok st" "\<And>i. i < n \<Longrightarrow> spt.hmap (cur_spt st) (seg_page upage i) = None"
    "o1 mod 2 ^ 32 = ofs mod 2 ^ 32"
  shows "\<exists>st'. load_segment_loop f o1 upage rb zb w st = Some (True, st') \<and>
    spt_grown st n (seg_spte st f ofs upage (unat rb) w) (seg_page upage) st'"
  using assms
proof (induction n arbitrary: rb zb upage o1 ofs st)
  case 0
  then have "rb = 0" "zb = 0" by (simp_all add: unat_eq_0)
  then show ?case using spt_grown_0[OF 0(3)] by (subst load_segment_loop.simps) auto
next
  case (Suc n)
  note pr = Suc.prems
  let ?r = "min PGSIZE (unat rb)"
  define pr_w where "pr_w = (if rb < word_of_nat PGSIZE then rb else word_of_nat PGSIZE)"
  have pw: "unat (word_of_nat PGSIZE :: 32 word) = PGSIZE" by (simp add: PGSIZE_val)
  have r: "unat pr_w = ?r" using pw by (auto simp: pr_w_def word_less_nat_alt min_def)
  have z: "unat (word_of_nat PGSIZE - pr_w) = PGSIZE - ?r"
    using unat_sub[of pr_w "word_of_nat PGSIZE"] r pw by (simp add: word_le_nat_alt)
  have rz: "PGSIZE - ?r \<le> unat zb" using pr(1) by auto
  have rb': "unat (rb - pr_w) = unat rb - ?r" using unat_sub[of pr_w rb] r by (simp add: word_le_nat_alt)
  have zb': "unat (zb - (word_of_nat PGSIZE - pr_w)) = unat zb - (PGSIZE - ?r)"
    using unat_sub[of "word_of_nat PGSIZE - pr_w" zb] z rz by (simp add: word_le_nat_alt)
  have sum: "unat (rb - pr_w) + unat (zb - (word_of_nat PGSIZE - pr_w)) = n * PGSIZE"
    unfolding rb' zb' using pr(1) rz by (simp add: min_def split: if_splits)
  have nz: "rb > 0 \<or> zb > 0"
  proof -
    have "0 < unat rb \<or> 0 < unat zb" using pr(1) unfolding PGSIZE_val by (cases "unat rb") simp_all
    then show ?thesis by (simp add: word_less_nat_alt)
  qed
  have "spt.hmap (cur_spt st) upage = None" using pr(6)[of 0] by (simp add: seg_page_0)
  then obtain st1 where a: "add_file_to_pt f (nat (o1 mod 2 ^ 32)) upage ?r (PGSIZE - ?r) w st = Some (True, st1)"
      "spt_grown st 1 (\<lambda>_. file_spte st f ofs upage ?r w) (\<lambda>_. upage) st1"
    using add_file_to_pt_new[OF pr(3) _ pr(5), of upage "nat (o1 mod 2 ^ 32)" ofs "PGSIZE - ?r" ?r f w] pr(4,7) by auto
  note A = a(2)[unfolded spt_grown_def] and F = spt_grown_fields[OF a(2)]
  have new: "spt.hmap (cur_spt st1) (seg_page (upage + word_of_nat PGSIZE) i) = None" if i: "i < n" for i
  proof -
    have "seg_page upage (Suc i) \<noteq> upage" using seg_page_inj[of "Suc i" 0 upage] i pr(2) by (auto simp: seg_page_0)
    then show ?thesis using A pr(6)[of "Suc i"] i unfolding seg_page_Suc by auto
  qed
  have om: "wrap32 (o1 + int ?r) mod 2 ^ 32 = (ofs + int ?r) mod 2 ^ 32"
    unfolding wrap32_mod using pr(7) by (metis mod_add_left_eq)
  obtain st2 where b: "load_segment_loop f (wrap32 (o1 + int ?r)) (upage + word_of_nat PGSIZE) (rb - pr_w)
      (zb - (word_of_nat PGSIZE - pr_w)) w st1 = Some (True, st2)"
      "spt_grown st1 n (seg_spte st1 f (ofs + int ?r) (upage + word_of_nat PGSIZE) (unat (rb - pr_w)) w) (seg_page (upage + word_of_nat PGSIZE)) st2"
    using Suc.IH[OF sum _ _ _ _ new om] A F pr(2,4,5) by auto
  have run: "load_segment_loop f o1 upage rb zb w st = Some (True, st2)"
    using nz a(1) b(1) by (subst load_segment_loop.simps) (simp add: pr_w_def[symmetric] Let_def r z)
  have e: "seg_spte st1 f (ofs + int ?r) (upage + word_of_nat PGSIZE) (unat (rb - pr_w)) w i = seg_spte st f ofs upage (unat rb) w (Suc i)" for i
  proof -
    have "?r + min (i * PGSIZE) (unat rb - ?r) = min (Suc i * PGSIZE) (unat rb)" by (auto simp: min_def)
    moreover have "min PGSIZE (unat rb - ?r - i * PGSIZE) = min PGSIZE (unat rb - Suc i * PGSIZE)" by (auto simp: min_def)
    ultimately show ?thesis
      unfolding seg_spte_def file_spte_def rb' seg_page_Suc F(3) by (simp add: add.assoc flip: of_nat_add)
  qed
  have e0: "file_spte st f ofs upage ?r w = seg_spte st f ofs upage (unat rb) w 0" by (simp add: seg_spte_def seg_page_0)
  have "spt_grown st (Suc n) (seg_spte st f ofs upage (unat rb) w) (seg_page upage) st2"
  proof (rule spt_grown_Suc)
    show "spt_grown st 1 (\<lambda>_. seg_spte st f ofs upage (unat rb) w 0) (\<lambda>_. seg_page upage 0) st1"
      using a(2) unfolding e0 seg_page_0 .
    show "spt_grown st1 n (\<lambda>i. seg_spte st f ofs upage (unat rb) w (Suc i)) (\<lambda>i. seg_page upage (Suc i)) st2"
      using b(2) unfolding e[symmetric] seg_page_Suc[symmetric] .
    show "seg_page upage (Suc i) \<noteq> seg_page upage 0" if "i < n" for i
      using seg_page_inj[of "Suc i" 0 upage] that pr(2) by auto
  qed
  then show ?case using run by blast
qed

section \<open>A segment that is accepted\<close>

lemma ROUND_UP_page:
  assumes "unat x + 4095 < 2 ^ 32"
  shows "unat (ROUND_UP x (word_of_nat PGSIZE)) = (unat x + 4095) div 4096 * 4096"
proof -
  have s: "x + word_of_nat PGSIZE - 1 = x + 4095" by (simp add: PGSIZE_val)
  have a: "unat (x + 4095) = unat x + 4095" using assms by (subst unat_add_lem[THEN iffD1]) simp_all
  have d: "unat ((x + 4095) div 4096) = (unat x + 4095) div 4096" by (simp add: unat_div a)
  have "(unat x + 4095) div 4096 * 4096 < 2 ^ 32" using assms by (metis div_times_less_eq_dividend le_less_trans)
  then have "unat ((x + 4095) div 4096 * 4096) = (unat x + 4095) div 4096 * 4096"
    using unat_mult_lem[of "(x + 4095) div 4096" 4096] d by simp
  then show ?thesis unfolding ROUND_UP_def s by (simp add: PGSIZE_val)
qed

definition seg_base :: "Elf32_Phdr \<Rightarrow> vaddr" where
  "seg_base ph = pg_round_down (p_vaddr ph)"

definition seg_pages :: "Elf32_Phdr \<Rightarrow> nat" where
  "seg_pages ph = (unat (pg_ofs (p_vaddr ph)) + unat (p_memsz ph) + 4095) div 4096"

definition seg_read :: "Elf32_Phdr \<Rightarrow> nat" where
  "seg_read ph = (if p_filesz ph = 0 then 0 else unat (pg_ofs (p_vaddr ph)) + unat (p_filesz ph))"

lemma validate_segmentD:
  assumes "validate_segment ph len"
  shows "pg_ofs (p_offset ph) = pg_ofs (p_vaddr ph)" "p_offset ph \<le> word_of_int len" "p_filesz ph \<le> p_memsz ph" "p_memsz ph \<noteq> 0"
    "unat (p_vaddr ph) + unat (p_memsz ph) < unat PHYS_BASE" "PGSIZE \<le> unat (p_vaddr ph)"
proof -
  have v: "p_offset ph AND PGMASK = p_vaddr ph AND PGMASK" "\<not> p_offset ph > word_of_int len" "\<not> p_memsz ph < p_filesz ph"
      "p_memsz ph \<noteq> 0" "is_user_vaddr (p_vaddr ph + p_memsz ph)" "\<not> p_vaddr ph + p_memsz ph < p_vaddr ph"
      "\<not> p_vaddr ph < word_of_nat PGSIZE"
    using assms unfolding validate_segment_def by (auto split: if_splits)
  then show "pg_ofs (p_offset ph) = pg_ofs (p_vaddr ph)" "p_offset ph \<le> word_of_int len" "p_filesz ph \<le> p_memsz ph" "p_memsz ph \<noteq> 0"
    by (simp_all add: pg_ofs_def)
  have "unat (p_vaddr ph + p_memsz ph) = unat (p_vaddr ph) + unat (p_memsz ph)"
    using v(6) by (metis not_less unat_plus_simple)
  then show "unat (p_vaddr ph) + unat (p_memsz ph) < unat PHYS_BASE"
    using v(5) by (simp add: is_user_vaddr_def word_less_nat_alt)
  show "PGSIZE \<le> unat (p_vaddr ph)" using v(7) by (simp add: word_less_nat_alt PGSIZE_val)
qed

lemma segment_ok:
  assumes v: "validate_segment ph len" and b: "segment_bytes ph = (rb, zb)"
  shows "unat rb = seg_read ph" "unat rb + unat zb = seg_pages ph * PGSIZE" "seg_pages ph < 2 ^ 20" "pg_ofs (seg_base ph) = 0"
    "PGSIZE \<le> unat (seg_base ph)" "unat (seg_base ph) + seg_pages ph * PGSIZE \<le> unat PHYS_BASE"
    "unat (seg_base ph) \<le> unat (p_vaddr ph)"
    "unat (p_vaddr ph) + unat (p_memsz ph) \<le> unat (seg_base ph) + seg_pages ph * PGSIZE"
proof -
  note V = validate_segmentD[OF v]
  define va where "va = unat (p_vaddr ph)"
  define ms where "ms = unat (p_memsz ph)"
  define fz where "fz = unat (p_filesz ph)"
  define f where "f = unat (pg_ofs (p_vaddr ph))"
  define q where "q = unat (seg_base ph) div 4096"
  have f: "f = va mod 4096" "f < 4096" by (simp_all add: f_def va_def unat_pg_ofs PGSIZE_val)
  have base: "unat (seg_base ph) = va - f" by (simp add: seg_base_def unat_pg_round_down f va_def PGSIZE_val minus_mod_eq_mult_div[symmetric])
  have q: "va = 4096 * q + f" "unat (seg_base ph) = 4096 * q"
    unfolding q_def base f(1) by (simp_all add: minus_mod_eq_mult_div)
  have lim: "va + ms < 3221225472" "4096 \<le> va" "fz \<le> ms" "0 < ms"
    using V(3-6) unat_PHYS_BASE by (simp_all add: va_def ms_def fz_def PGSIZE_val word_le_nat_alt word_neq_0_conv unat_gt_0)
  define n where "n = seg_pages ph"
  have n: "n = (f + ms + 4095) div 4096" by (simp add: n_def seg_pages_def f_def ms_def)
  have "f + ms + 4095 = 4096 * n + (f + ms + 4095) mod 4096" "(f + ms + 4095) mod 4096 < 4096" unfolding n by simp_all
  then have nb: "f + ms \<le> 4096 * n" "4096 * n \<le> f + ms + 4095" by linarith+
  have pm: "unat ((p_vaddr ph AND PGMASK) + p_memsz ph) = f + ms"
    using unat_add_lem[of "p_vaddr ph AND PGMASK" "p_memsz ph"] lim f(2) by (simp add: f_def ms_def pg_ofs_def)
  have pf: "unat ((p_vaddr ph AND PGMASK) + p_filesz ph) = f + fz"
    using unat_add_lem[of "p_vaddr ph AND PGMASK" "p_filesz ph"] lim f(2) by (simp add: f_def fz_def pg_ofs_def)
  have ru: "unat (ROUND_UP ((p_vaddr ph AND PGMASK) + p_memsz ph) (word_of_nat PGSIZE)) = 4096 * n"
    using ROUND_UP_page[of "(p_vaddr ph AND PGMASK) + p_memsz ph"] lim f(2) unfolding pm n by (simp add: mult.commute)
  show r: "unat rb = seg_read ph"
    using b pf by (auto simp: segment_bytes_def Let_def seg_read_def f_def fz_def pg_ofs_def word_gt_0 split: if_splits)
  show "unat rb + unat zb = seg_pages ph * PGSIZE"
  proof (cases "p_filesz ph = 0")
    case True
    then show ?thesis using b ru by (auto simp: segment_bytes_def Let_def n_def PGSIZE_val)
  next
    case False
    let ?x = "(p_vaddr ph AND PGMASK) + p_filesz ph" let ?y = "ROUND_UP ((p_vaddr ph AND PGMASK) + p_memsz ph) (word_of_nat PGSIZE)"
    have "rb = ?x" "zb = ?y - ?x" using b False by (auto simp: segment_bytes_def Let_def word_gt_0)
    moreover have "?x \<le> ?y" unfolding word_le_nat_alt pf ru using nb(1) lim(3) by linarith
    then have "unat (?y - ?x) = unat ?y - unat ?x" by (rule unat_sub)
    ultimately show ?thesis using pf ru nb(1) lim(3) by (simp add: n_def PGSIZE_val)
  qed
  have "4096 * q + 4096 * n \<le> 3221225472 + 4094" using q nb lim(1) by linarith
  then have "q + n \<le> 786432" by linarith
  then show "seg_pages ph < 2 ^ 20" "unat (seg_base ph) + seg_pages ph * PGSIZE \<le> unat PHYS_BASE"
    by (simp_all add: q(2) n_def[symmetric] PGSIZE_val unat_PHYS_BASE)
  show "pg_ofs (seg_base ph) = 0" by (simp add: seg_base_def pg_round_down_ofs)
  have "0 < q" using q(1) f(2) lim(2) by (cases q) auto
  then show "PGSIZE \<le> unat (seg_base ph)" by (simp add: q(2) PGSIZE_val)
  show "unat (seg_base ph) \<le> unat (p_vaddr ph)" using q by (simp add: va_def)
  show "unat (p_vaddr ph) + unat (p_memsz ph) \<le> unat (seg_base ph) + seg_pages ph * PGSIZE"
    using q nb(1) by (simp add: va_def ms_def n_def PGSIZE_val)
qed

text \<open>The entry of page \<open>i\<close> of a segment: its bytes are those of the file that belong there, the rest is zero.\<close>

definition seg_entry :: "Elf32_Phdr \<Rightarrow> nat \<Rightarrow> nat \<Rightarrow> spt_entry \<Rightarrow> bool" where
  "seg_entry ph f i e \<longleftrightarrow> s_type e = FILE \<and> \<not> s_in_memory e \<and> \<not> s_locked e \<and> s_file e = f \<and> s_vaddr e = seg_page (seg_base ph) i \<and>
     (s_writable e \<longleftrightarrow> p_flags ph AND PF_W \<noteq> 0) \<and> s_read_bytes e + s_zero_bytes e = PGSIZE \<and>
     (\<forall>k<PGSIZE. let x = unat (seg_base ph) + i * PGSIZE + k in
        (k < s_read_bytes e \<longleftrightarrow> p_filesz ph \<noteq> 0 \<and> x < unat (p_vaddr ph) + unat (p_filesz ph)) \<and>
        (k < s_read_bytes e \<longrightarrow> s_offset e + k + unat (p_vaddr ph) = unat (p_offset ph) + x))"

lemma seg_entryI:
  assumes v: "validate_segment ph len" and small: "unat (p_offset ph) + unat (p_filesz ph) < 2 ^ 32"
  shows "seg_entry ph f i (seg_spte st f (int (unat (p_offset ph) - unat (pg_ofs (p_vaddr ph)))) (seg_base ph) (seg_read ph)
    (p_flags ph AND PF_W \<noteq> 0) i)"
proof -
  note V = validate_segmentD[OF v]
  define po where "po = unat (p_offset ph)"
  define va where "va = unat (p_vaddr ph)"
  define fz where "fz = unat (p_filesz ph)"
  define d where "d = unat (pg_ofs (p_vaddr ph))"
  define rb where "rb = seg_read ph"
  let ?ofs = "nat ((int (po - d) + int (min (i * PGSIZE) rb)) mod 2 ^ 32)"
  have dv: "d = va mod 4096" by (simp add: d_def va_def unat_pg_ofs PGSIZE_val)
  have dp: "d = po mod 4096" unfolding d_def V(1)[symmetric] by (simp add: po_def unat_pg_ofs PGSIZE_val)
  have d: "d \<le> po" "d \<le> va" by (subst dp, simp) (subst dv, simp)
  have base: "unat (seg_base ph) + d = va" using d(2) dv by (simp add: seg_base_def unat_pg_round_down PGSIZE_val va_def)
  have fz0: "p_filesz ph \<noteq> 0 \<longleftrightarrow> 0 < fz" by (simp add: fz_def unat_gt_0)
  have rb: "rb = (if fz = 0 then 0 else d + fz)" using fz0 by (simp add: rb_def seg_read_def d_def fz_def unat_eq_0)
  have "po - d + min (i * PGSIZE) rb < 2 ^ 32"
    using small d(1) rb by (auto simp: po_def[symmetric] fz_def[symmetric] min_def)
  then have ofs: "?ofs = po - d + min (i * PGSIZE) rb"
    by (simp add: nat_mod_distrib nat_add_distrib nat_int_add flip: of_nat_add)
  let ?e = "seg_spte st f (int (po - d)) (seg_base ph) rb (p_flags ph AND PF_W \<noteq> 0) i"
  have e: "s_offset ?e = po - d + min (i * PGSIZE) rb" "s_read_bytes ?e = min PGSIZE (rb - i * PGSIZE)"
      "s_zero_bytes ?e = PGSIZE - s_read_bytes ?e"
    unfolding ofs[symmetric] by (simp_all add: seg_spte_def file_spte_def)
  have key: "\<forall>k<PGSIZE. (k < min PGSIZE (rb - i * PGSIZE) \<longleftrightarrow> p_filesz ph \<noteq> 0 \<and> unat (seg_base ph) + i * PGSIZE + k < va + fz) \<and>
    (k < min PGSIZE (rb - i * PGSIZE) \<longrightarrow> po - d + min (i * PGSIZE) rb + k + va = po + (unat (seg_base ph) + i * PGSIZE + k))"
    unfolding fz0 using base rb d(1) by (auto simp: min_def)
  have "seg_entry ph f i ?e"
    unfolding seg_entry_def Let_def po_def[symmetric] va_def[symmetric] fz_def[symmetric]
  proof (intro conjI)
    show "s_read_bytes ?e + s_zero_bytes ?e = PGSIZE" using e(2,3) by simp
    show "\<forall>k<PGSIZE. (k < s_read_bytes ?e) = (p_filesz ph \<noteq> 0 \<and> unat (seg_base ph) + i * PGSIZE + k < va + fz) \<and>
      (k < s_read_bytes ?e \<longrightarrow> s_offset ?e + k + va = po + (unat (seg_base ph) + i * PGSIZE + k))"
      unfolding e(1,2) by (rule key)
  qed (simp_all add: seg_spte_def file_spte_def)
  then show ?thesis unfolding po_def d_def rb_def .
qed

lemma load_phdr_spec:
  assumes t: "p_type ph = PT_LOAD" and len: "file_length f (fs st) = Some len" "0 \<le> len" "len < 2 ^ 31" and v: "validate_segment ph len"
    and h: "spt.hash_wf (cur_spt st)" "HashTable.elem_cnt (cur_spt st) + seg_pages ph < 2 ^ 32" "malloc_ok st"
      "\<And>i. i < seg_pages ph \<Longrightarrow> spt.hmap (cur_spt st) (seg_page (seg_base ph) i) = None"
  shows "\<exists>fs' st'. load_phdr f ph st = Some (True, st') \<and>
    spt_grown (st\<lparr>fs := fs'\<rparr>) (seg_pages ph) (seg_spte st f (int (unat (p_offset ph) - unat (pg_ofs (p_vaddr ph)))) (seg_base ph)
      (seg_read ph) (p_flags ph AND PF_W \<noteq> 0)) (seg_page (seg_base ph)) st'"
proof -
  obtain rb zb where b: "segment_bytes ph = (rb, zb)" by fastforce
  note S = segment_ok[OF v b]
  let ?fo = "unat (p_offset ph) - unat (pg_ofs (p_vaddr ph))"
  have po: "unat (p_offset ph) < 2 ^ 31"
  proof -
    have "unat (p_offset ph) \<le> unat (word_of_int len :: 32 word)" using validate_segmentD(2)[OF v] by (simp add: word_le_nat_alt)
    also have "unat (word_of_int len :: 32 word) = nat len" using len(2,3) by (simp add: unat_eq_nat_uint uint_word_of_int)
    finally show ?thesis using len(2,3) by simp
  qed
  have pd: "unat (p_offset ph AND NOT PGMASK) = ?fo"
    using validate_segmentD(1)[OF v] unat_pg_round_down[of "p_offset ph"]
    by (simp add: pg_round_down_def unat_pg_ofs[symmetric])
  have ui: "uint (p_offset ph AND NOT PGMASK) = int ?fo" unfolding pd[symmetric] by simp
  have w: "wrap32 (uint (p_offset ph AND NOT PGMASK)) = int ?fo"
  proof -
    have "?fo < 2 ^ 31" by (rule le_less_trans[OF diff_le_self po])
    then have "int ?fo < 2147483648" by simp
    moreover have "0 \<le> int ?fo" by simp
    ultimately show ?thesis unfolding ui by (intro wrap32_idI) linarith+
  qed
  have al: "int ?fo smod int PGSIZE = 0"
  proof -
    have "?fo = PGSIZE * (unat (p_offset ph) div PGSIZE)"
      unfolding validate_segmentD(1)[OF v, symmetric] unat_pg_ofs by (rule minus_mod_eq_mult_div)
    then have "?fo mod PGSIZE = 0" by simp
    then have "int ?fo mod int PGSIZE = 0" unfolding zmod_int[symmetric] by (simp only: of_nat_0)
    then show ?thesis unfolding signed_modulo_int_def abs_of_nat by (simp only: mult_zero_right)
  qed
  obtain r where r: "files (fs st) f = Some r" using len(1) by (cases "files (fs st) f") (auto simp: file_length_def)
  obtain fs' where fs': "file_seek f (int ?fo) (fs st) = Some fs'"
    using r by (simp add: file_seek_def put_file_def)
  have cs: "cur_spt (st\<lparr>fs := fs'\<rparr>) = cur_spt st" by (simp add: cur_spt_def cur_proc_def)
  have ss: "seg_spte (st\<lparr>fs := fs'\<rparr>) = seg_spte st" by (intro ext) (simp add: seg_spte_def file_spte_def)
  have m: "malloc_ok (st\<lparr>fs := fs'\<rparr>)" using h(3) by simp
  obtain st' where l: "load_segment_loop f (int ?fo) (seg_base ph) rb zb (p_flags ph AND PF_W \<noteq> 0) (st\<lparr>fs := fs'\<rparr>) = Some (True, st')"
      "spt_grown (st\<lparr>fs := fs'\<rparr>) (seg_pages ph) (seg_spte st f (int ?fo) (seg_base ph) (unat rb) (p_flags ph AND PF_W \<noteq> 0))
        (seg_page (seg_base ph)) st'"
    using load_segment_loop_spec[OF S(2,3), of "st\<lparr>fs := fs'\<rparr>" "seg_base ph" "int ?fo" "int ?fo" f "p_flags ph AND PF_W \<noteq> 0",
        unfolded cs ss, OF h(1,2) m h(4) refl] by blast
  have "unat (rb + zb) mod PGSIZE = 0"
  proof -
    have "unat rb + unat zb < 2 ^ 32" using S(2,6) unat_PHYS_BASE by simp
    then have "unat (rb + zb) = seg_pages ph * PGSIZE" using S(2) unat_add_lem[of rb zb] by simp
    then show ?thesis by simp
  qed
  then have "load_segment f (int ?fo) (seg_base ph) rb zb (p_flags ph AND PF_W \<noteq> 0) st = Some (True, st')"
    using S(4) al fs' l(1) by (simp add: load_segment_def)
  then have "load_phdr f ph st = Some (True, st')"
    using t len(1) v b w by (simp add: load_phdr_def PT_LOAD_def PT_DYNAMIC_def PT_INTERP_def PT_SHLIB_def Let_def seg_base_def pg_round_down_def)
  then show ?thesis using l(2) unfolding S(1) by blast
qed

end
