(* ===== verification/ProcProps.thy ===== *)
theory ProcProps
  imports ProcSpec VmProps
begin

text \<open>Properties of the processes of project 3: their arguments, the segments of their executable.\<close>

section \<open>Arguments\<close>

text \<open>C9: when the command line and its pointers fit into a page, \<open>init_cmd_line\<close> leaves at the stack
  pointer a return address of 0, \<open>argc\<close>, \<open>argv\<close> and the array of arguments with its null pointer, and
  the array holds the user addresses of the words of the command line in order, each of them a
  terminated string in the page; when they do not fit it fails. Outside the page no byte changes
  either way.\<close>

theorem init_cmd_line_lays_out_arguments:
  assumes "cstr m d [32]" "cstr m c s" "k \<noteq> 0" "k + 4096 \<le> length m" "d + 1 < k \<or> k + 4096 \<le> d" "length s < 4096"
  shows "if room s \<le> 4096
    then \<exists>ts m'. init_cmd_line k u c d m = Some (Some (u + word_of_nat (4096 - room s)), m') \<and>
      list_all2 (cstr m') ts (tokens {32} s) \<and> (\<forall>t\<in>set ts. k \<le> t \<and> t < k + 4096) \<and>
      args_at m' k (4096 - room s) u ts \<and> same_off m m' k (k + 4096)
    else \<exists>m'. init_cmd_line k u c d m = Some (None, m') \<and> same_off m m' k (k + 4096)"
  by (rule init_cmd_line_spec[OF assms])

text \<open>\<open>"a b"\<close> with a page at address 7 that will be mapped below \<open>PHYS_BASE\<close>: the stack pointer is 28 bytes
  below the end of the page.\<close>

theorem init_cmd_line_lays_out_arguments_witness:
  "\<exists>ts m'. init_cmd_line 7 0xbffff000 3 1 ([0, 32, 0, 97, 32, 98, 0] @ replicate 4096 0) = Some (Some 0xbfffffe4, m') \<and>
    list_all2 (cstr m') ts [[97], [98]] \<and> args_at m' 7 4068 0xbffff000 ts"
proof -
  let ?m = "[0, 32, 0, 97, 32, 98, 0] @ replicate 4096 0 :: byte list"
  have t: "tokens {32} [97, 32, 98] = [[97], [98 :: byte]]" by (simp add: tokens.simps)
  have r: "room [97, 32, 98] = 28" by (simp add: room_def t)
  have "cstr ?m 1 [32]" "cstr ?m 3 [97, 32, 98]" by (simp_all add: rd_def NULL_def)
  then show ?thesis
    using init_cmd_line_lays_out_arguments[of ?m 1 3 "[97, 32, 98]" 7 "0xbffff000"] unfolding r t by auto
qed

section \<open>Segments\<close>

text \<open>C10: a loadable segment that \<open>validate_segment\<close> accepts passes the assertions of \<open>load_segment\<close>, and
  its loop ends with an entry in the supplemental page table for every page of the segment, and for
  nothing else: the pages cover the segment, lie above page 0 and below the kernel, and the entry
  of each says which bytes of the file belong where, that the bytes behind them are zero, and
  whether the page is writable.\<close>

theorem load_phdr_registers_segment:
  assumes "p_type ph = PT_LOAD" "file_length f (fs st) = Some len" "0 \<le> len" "len < 2 ^ 31" "validate_segment ph len"
    "unat (p_offset ph) + unat (p_filesz ph) < 2 ^ 32" "spt.hash_wf (cur_spt st)"
    "HashTable.elem_cnt (cur_spt st) + seg_pages ph < 2 ^ 32" "malloc_ok st"
    "\<And>i. i < seg_pages ph \<Longrightarrow> spt.hmap (cur_spt st) (seg_page (seg_base ph) i) = None"
  shows "\<exists>st'. load_phdr f ph st = Some (True, st') \<and> PGSIZE \<le> unat (seg_base ph) \<and> unat (seg_base ph) \<le> unat (p_vaddr ph) \<and>
    unat (p_vaddr ph) + unat (p_memsz ph) \<le> unat (seg_base ph) + seg_pages ph * PGSIZE \<and>
    unat (seg_base ph) + seg_pages ph * PGSIZE \<le> unat PHYS_BASE \<and>
    (\<forall>i < seg_pages ph. \<exists>p e. spt.hmap (cur_spt st') (seg_page (seg_base ph) i) = Some (seg_page (seg_base ph) i, p) \<and>
      sptes st' p = Some e \<and> seg_entry ph f i e) \<and>
    (\<forall>a. (\<forall>i < seg_pages ph. a \<noteq> seg_page (seg_base ph) i) \<longrightarrow> spt.hmap (cur_spt st') a = spt.hmap (cur_spt st) a) \<and>
    (\<forall>p<next_ptr st. sptes st' p = sptes st p)"
proof -
  obtain rb zb where b: "segment_bytes ph = (rb, zb)" by fastforce
  note S = segment_ok[OF assms(5) b]
  obtain fs' st' where l: "load_phdr f ph st = Some (True, st')"
      "spt_grown (st\<lparr>fs := fs'\<rparr>) (seg_pages ph) (seg_spte st f (int (unat (p_offset ph) - unat (pg_ofs (p_vaddr ph)))) (seg_base ph)
        (seg_read ph) (p_flags ph AND PF_W \<noteq> 0)) (seg_page (seg_base ph)) st'"
    using load_phdr_spec[OF assms(1-5,7-10)] by blast
  note G = l(2)[unfolded spt_grown_def]
  have cs: "cur_spt (st\<lparr>fs := fs'\<rparr>) = cur_spt st" by (simp add: cur_spt_def cur_proc_def)
  have "\<exists>p e. spt.hmap (cur_spt st') (seg_page (seg_base ph) i) = Some (seg_page (seg_base ph) i, p) \<and> sptes st' p = Some e \<and> seg_entry ph f i e"
    if i: "i < seg_pages ph" for i
    using G i seg_entryI[OF assms(5,6), of f i st] by (intro exI[of _ "next_ptr st + i"]) auto
  moreover have "\<forall>a. (\<forall>i < seg_pages ph. a \<noteq> seg_page (seg_base ph) i) \<longrightarrow> spt.hmap (cur_spt st') a = spt.hmap (cur_spt st) a"
    using G unfolding cs by blast
  moreover have "\<forall>p<next_ptr st. sptes st' p = sptes st p" using G by auto
  ultimately show ?thesis using l(1) S(5-8) by blast
qed

definition demo_phdr :: Elf32_Phdr where
  "demo_phdr = \<lparr>p_type = 1, p_offset = 0x48, p_vaddr = 0x08048048, p_paddr = 0, p_filesz = 0x100, p_memsz = 0x1200, p_flags = 5, p_align = 0x1000\<rparr>"

definition demo_exec :: kernel where
  "demo_exec = (demo_vm demo_upool False)\<lparr>fs := demo_fs\<lparr>files := [5 \<mapsto> \<lparr>f_inode = 1, f_pos = 0, f_deny_write = False\<rparr>]\<rparr>\<rparr>"

text \<open>A segment of 256 bytes of the file and 4352 zeros at \<open>0x08048048\<close>: two pages.\<close>

theorem load_phdr_registers_segment_witness:
  "\<exists>st'. load_phdr 5 demo_phdr demo_exec = Some (True, st') \<and>
    (\<forall>i<2. \<exists>p e. spt.hmap (cur_spt st') (seg_page 0x08048000 i) = Some (seg_page 0x08048000 i, p) \<and> sptes st' p = Some e \<and>
      seg_entry demo_phdr 5 i e)"
proof -
  have base: "seg_base demo_phdr = 0x08048000"
    by (simp add: seg_base_def demo_phdr_def pg_round_down_def PGMASK_def BITMASK_def PGBITS_def)
  have n: "seg_pages demo_phdr = 2"
    by (simp add: seg_pages_def demo_phdr_def unat_pg_ofs PGSIZE_val)
  obtain h where h: "hash_init True = Some h" "spt.hash_wf h" "spt.hmap h = Map.empty" using spt.hash_init_map by blast
  have cs: "cur_spt demo_exec = h" by (simp add: cur_spt_def cur_proc_def demo_exec_def demo_vm_def demo_proc_def h(1))
  have c: "HashTable.elem_cnt h = 0" unfolding spt.elem_cnt_card[OF h(2)] h(3) by simp
  have t: "p_type demo_phdr = PT_LOAD" by (simp add: demo_phdr_def PT_LOAD_def)
  have len: "file_length 5 (fs demo_exec) = Some 700"
    by (simp add: file_length_def demo_exec_def inode_length_def demo_fs_def demo_inode_def)
  have v: "validate_segment demo_phdr 700"
    by (simp add: validate_segment_def demo_phdr_def PGMASK_def BITMASK_def PGBITS_def is_user_vaddr_def PHYS_BASE_def PGSIZE_val)
  have sm: "unat (p_offset demo_phdr) + unat (p_filesz demo_phdr) < 2 ^ 32" by (simp add: demo_phdr_def)
  show ?thesis
    using load_phdr_registers_segment[OF t len _ _ v sm] h c unfolding cs base n by (auto simp: demo_exec_def demo_vm_def)
qed

end
