(* ===== verification/Spec2Isabelle.thy ===== *)
theory Spec2Isabelle
  imports WaitInv SyscallProps Arith64 StdioProps MallocProps LibraryProps SchedProps DirProps StringProps FilesysProps Donation VmProps ProcProps
begin

text \<open>
  A verification library for the operating system in this repository: four stages of Pintos, the
  directories \<open>prj1\<close> to \<open>prj4\<close>. The stages share the kernel library and the device layer; each adds
  one subsystem of its own. The library, the devices and the file system are taken from \<open>prj4\<close>, the
  scheduler from \<open>prj1\<close>, virtual memory and processes from \<open>prj3\<close>. Paths below are relative to
  \<open>pintos/src\<close> of that project.

  \<^bold>\<open>Conventions.\<close> A function that can fail an \<open>ASSERT\<close>, call \<open>PANIC\<close> or touch memory it must not touch
  returns an \<open>option\<close>, and \<^const>\<open>None\<close> is the panic; error codes of the C code are ordinary values.
  State is passed explicitly: a heap of list elements in \<open>CList\<close>, records of the static variables
  elsewhere. Machine integers keep their width: words where the code is unsigned, \<open>wrap32\<close> and
  \<open>wrap64\<close> of \<open>CInt\<close> where it is signed. A loop whose termination depends on the data is a
  \<open>partial_function (option)\<close>, for which \<^const>\<open>None\<close> is also that it does not end; the properties about it
  state that it returns, or, when they are about a panic, which step fails. What the code gets from
  outside, the results of \<open>malloc\<close>, the content of fresh memory, the devices, the timer interrupt and the
  bytes a user program passes, is a field of the state or an argument.

  \<^bold>\<open>Kernel library.\<close> \<open>CList\<close> and \<open>CListSort\<close> model \<open>lib/kernel/list.c\<close> on a heap of \<open>prev\<close> and \<open>next\<close>
  pointers; \<open>dlist h l xs\<close> says that the elements of \<open>l\<close> are \<open>xs\<close>, and every function has a lemma with
  that predicate before and after. \<open>Bitmap\<close> models \<open>lib/kernel/bitmap.c\<close> on 32-bit elements;
  \<open>bm_bit\<close> reads them as a sequence of bits. \<open>HashTable\<close> models \<open>lib/kernel/hash.c\<close>; the locale
  \<open>hash_keys\<close> says what the callbacks promise and proves that the table is a map (\<open>hmap\<close>). It is
  interpreted in \<open>Frame\<close> and \<open>Page\<close>. \<open>SlotPool\<close> is the interface of an allocator of ranges, interpreted on
  bitmaps. \<open>CString\<close> models \<open>lib/string.c\<close> on a memory of bytes, \<open>StringProps\<close> states what it computes.
  \<open>FixedPoint\<close> models \<open>threads/fixed-point.h\<close>, \<open>Arith64\<close> models \<open>lib/arithmetic.c\<close>,
  \<open>Stdlib\<close> models \<open>lib/stdlib.c\<close>, \<open>Stdio\<close> the formatting of \<open>lib/stdio.c\<close>: \<open>vprintf_loop\<close> hands every
  character to a callback that changes a state, and reads the format and the strings from that state, so that a
  buffer may overlap what is read. The locale \<open>printer\<close> of \<open>StdioProps\<close> says when a callback outputs exactly
  the characters that are printed; it is interpreted for the callback of \<open>vsnprintf\<close>. \<open>LibraryProps\<close> holds the properties of lists, bitmaps and fixed-point numbers.

  \<^bold>\<open>Scheduler (prj1).\<close> \<open>KState\<close> has the threads, semaphores and static variables of \<open>threads/thread.c\<close> and
  \<open>threads/synch.c\<close>; \<open>Thread\<close>, \<open>Synch\<close> and \<open>Timer\<close> have the functions, cut at the points where a thread
  may lose the processor. What a thread still has to do is a stack of frames, and \<open>Machine\<close> is the step
  relation: the running thread goes on to the next such point, or a timer interrupt comes. \<open>Bookkeeping\<close>,
  \<open>SchedInv\<close> and \<open>SchedStep\<close> prove the invariant of the ready list, the wait lists and the list of all
  threads for every step, \<open>LockInv\<close> that a lock is counted exactly once; \<open>SchedProps\<close> and \<open>Donation\<close>
  hold the properties.

  \<^bold>\<open>File system (prj4).\<close> \<open>Block\<close> models \<open>devices/block.c\<close>, \<open>Cache\<close> models \<open>filesys/cache.c\<close>: \<open>cview\<close> is the
  disk as seen through the cache, the abstraction for all that follows. \<open>Inode\<close>, \<open>InodeGrow\<close> and
  \<open>FreeMap\<close> model \<open>filesys/inode.c\<close> and \<open>filesys/free-map.c\<close> (\<open>FreeMap\<close> comes before \<open>InodeGrow\<close> because
  growing a file allocates sectors and allocating writes the free map's file), \<open>File\<close>, \<open>Directory\<close> and
  \<open>Filesys\<close> model \<open>file.c\<close>, \<open>directory.c\<close> and \<open>filesys.c\<close>. \<open>DirSpec\<close> says what a directory file holds,
  \<open>PathSpec\<close> that the loops over \<open>strtok_r\<close> in \<open>filesys.c\<close> go through the components of a path;
  \<open>FilesysProps\<close> and \<open>DirProps\<close> hold the properties.

  \<^bold>\<open>Virtual memory (prj3).\<close> \<open>Palloc\<close> models \<open>threads/palloc.c\<close>, \<open>vaddr.h\<close> and \<open>pte.h\<close> on a memory with a
  byte and a word at every address (page tables are accessed as words, all else as bytes). \<open>Pagedir\<close>
  models \<open>userprog/pagedir.c\<close> on two-level tables in that memory; \<open>pview\<close> reads them as a map. \<open>Swap\<close>
  adds the accesses of the processor through the tables, and \<open>vm/swap.c\<close>. \<open>Frame\<close> and \<open>Page\<close> model
  \<open>vm/frame.c\<close>, \<open>vm/page.c\<close> and the functions of \<open>userprog/process.c\<close> that make pages. \<open>VmSpec\<close> proves
  what eviction and loading do; \<open>VmProps\<close> holds the properties. 

  \<^bold>\<open>Heap.\<close> \<open>Malloc\<close> models \<open>threads/malloc.c\<close>, the same in all stages, on the page allocator of \<open>Palloc\<close>.
  \<open>MallocInv\<close> has the invariant of arenas and free lists, \<open>MallocOps\<close> its preservation by every function,
  \<open>MallocProps\<close> the refinement of an abstract heap of arrays.

  \<^bold>\<open>Processes (prj3).\<close> \<open>Args\<close> models the arguments that \<open>userprog/process.c\<close> puts on the stack of a new
  process, \<open>Process\<close> the loading of an executable; \<open>ProcSpec\<close> and \<open>ProcProps\<close> say what they do. \<open>Syscall\<close>
  models \<open>userprog/syscall.c\<close>, the part of \<open>process_exit\<close> that gives memory and files back, and the page
  faults of \<open>userprog/exception.c\<close>. A function that may end the process returns an \<open>outcome\<close>. The
  handler ends with a \<open>call_result\<close>: \<open>exec\<close> and \<open>wait\<close> end in the call of \<open>process_execute\<close> and
  \<open>process_wait\<close>, where other threads run, and \<open>syscall_resume\<close> is what comes behind it. \<open>SyscallInv\<close>
  shows that the memory system leaves open files and locks alone (\<open>keeps\<close>), \<open>SyscallProps\<close> what each
  system call does to them and to the file system, by the number and the arguments in the user's memory. \<open>Wait\<close> models how processes start, end and wait for each other, as steps of several
  threads in any order, with the statuses that the lists of children are linked through; \<open>WaitInv\<close> has the invariant of the reference counts and the property.

  \<^bold>\<open>Not modelled.\<close> Code in assembly (loader, context switch, interrupt stubs), the drivers of disks, timer
  chip, keyboard, screen and serial line, segment tables, the console and statistics, the copying of files
  to and from archives, random numbers, the user programs, and the variants of a file in the other stages. The TLB: a page table entry that changes is seen at once.
  Interleaving inside one call of the file system or of the virtual memory system: these are modelled for
  one thread at a time, while the scheduler is modelled with all interleavings.
\<close>

end
